(* ===== verification/Prelude.thy ===== *)
theory Prelude
  imports Main "HOL-Library.Word"
begin

text \<open>
  Shared ground of the development: how a C computation that may terminate its process is
  represented, the combinators the component theories are written with, the simplification
  collections they extend, and the list lemmas they share.

  A C function that can call \<^verbatim>\<open>exit\<close>, \<^verbatim>\<open>_exit\<close> or \<^verbatim>\<open>abort\<close>, or run into undefined
  behaviour, is a function from the program's state to an outcome and the final state.
\<close>

unbundle bit_operations_syntax

named_theorems prog_simps \<open>unfolding rules of the outcome combinators\<close>
named_theorems const_defs \<open>values of the C constants the programs use\<close>
named_theorems inv_intros \<open>preservation lemmas of component invariants\<close>

section \<open>Outcomes of C computations\<close>

datatype halt =
    Exit int      \<comment> \<open>\<^verbatim>\<open>exit(status)\<close>: exit handlers run, stdio is flushed\<close>
  | UExit int     \<comment> \<open>\<^verbatim>\<open>_exit(status)\<close>\<close>
  | Abort         \<comment> \<open>\<^verbatim>\<open>abort()\<close>\<close>
  | Killed int    \<comment> \<open>ended by a signal\<close>
  | Exec string "string list"  \<comment> \<open>process image replaced: program file and argument list\<close>
  | Undef         \<comment> \<open>undefined behaviour: an uninitialised or out-of-range read\<close>

type_synonym ('s, 'a) prog = "'s \<Rightarrow> (halt + 'a) \<times> 's"

definition ret :: "'a \<Rightarrow> ('s, 'a) prog" where
  "ret x s = (Inr x, s)"

definition stop :: "halt \<Rightarrow> ('s, 'a) prog" where
  "stop h s = (Inl h, s)"

definition bnd :: "('s, 'a) prog \<Rightarrow> ('a \<Rightarrow> ('s, 'b) prog) \<Rightarrow> ('s, 'b) prog" where
  "bnd m f s = (case m s of (Inl h, s') \<Rightarrow> (Inl h, s') | (Inr x, s') \<Rightarrow> f x s')"

definition andthen :: "('s, 'a) prog \<Rightarrow> ('s, 'b) prog \<Rightarrow> ('s, 'b) prog" where
  "andthen m k = bnd m (\<lambda>_. k)"

definition gets :: "('s \<Rightarrow> 'a) \<Rightarrow> ('s, 'a) prog" where
  "gets f s = (Inr (f s), s)"

definition modify :: "('s \<Rightarrow> 's) \<Rightarrow> ('s, unit) prog" where
  "modify f s = (Inr (), f s)"

definition whenM :: "bool \<Rightarrow> ('s, unit) prog \<Rightarrow> ('s, unit) prog" where
  "whenM b m = (if b then m else ret ())"

text \<open>Run a list of statements in order; the first one that halts stops the sequence.\<close>

primrec seqM :: "('s, unit) prog list \<Rightarrow> ('s, unit) prog" where
  "seqM [] = ret ()"
| "seqM (m # ms) = andthen m (seqM ms)"

text \<open>\<^verbatim>\<open>for\<close> loops over the elements of a list.\<close>

primrec forM :: "'a list \<Rightarrow> ('a \<Rightarrow> ('s, unit) prog) \<Rightarrow> ('s, unit) prog" where
  "forM [] f = ret ()"
| "forM (x # xs) f = andthen (f x) (forM xs f)"

lemma ret_apply [simp, prog_simps]: "ret x s = (Inr x, s)"
  by (simp add: ret_def)

lemma stop_apply [simp, prog_simps]: "stop h s = (Inl h, s)"
  by (simp add: stop_def)

lemma gets_apply [simp, prog_simps]: "gets f s = (Inr (f s), s)"
  by (simp add: gets_def)

lemma modify_apply [simp, prog_simps]: "modify f s = (Inr (), f s)"
  by (simp add: modify_def)

lemma bnd_apply [prog_simps]:
  "bnd m f s = (case m s of (Inl h, s') \<Rightarrow> (Inl h, s') | (Inr x, s') \<Rightarrow> f x s')"
  by (simp add: bnd_def)

lemma bnd_Inr: "m s = (Inr x, s') \<Longrightarrow> bnd m f s = f x s'"
  by (simp add: bnd_def)

lemma bnd_Inl: "m s = (Inl h, s') \<Longrightarrow> bnd m f s = (Inl h, s')"
  by (simp add: bnd_def)

lemma andthen_apply [prog_simps]:
  "andthen m k s = (case m s of (Inl h, s') \<Rightarrow> (Inl h, s') | (Inr _, s') \<Rightarrow> k s')"
  by (simp add: andthen_def bnd_def)

lemma bnd_ret [simp]: "bnd (ret x) f = f x"
  by (rule ext) (simp add: bnd_def)

lemma bnd_gets [simp]: "bnd (gets g) f s = f (g s) s"
  by (simp add: bnd_def)

lemma bnd_modify [simp]: "bnd (modify g) f s = f () (g s)"
  by (simp add: bnd_def)

lemma andthen_modify [simp]: "andthen (modify g) k s = k (g s)"
  by (simp add: andthen_def bnd_def)

lemma andthen_ret [simp]: "andthen (ret x) k = k"
  by (rule ext) (simp add: andthen_def)

lemma bnd_stop [simp]: "bnd (stop h) f = stop h"
  by (rule ext) (simp add: bnd_def)

lemma andthen_stop [simp]: "andthen (stop h) k = stop h"
  by (simp add: andthen_def)

lemma whenM_True [simp]: "whenM True m = m"
  by (simp add: whenM_def)

lemma whenM_False [simp]: "whenM False m = ret ()"
  by (simp add: whenM_def)

lemma forM_append: "forM (xs @ ys) f = andthen (forM xs f) (forM ys f)"
  by (induction xs) (auto simp: fun_eq_iff andthen_apply split: prod.splits sum.splits)

section \<open>State predicates kept by a computation\<close>

text \<open>
  \<open>keeps I m\<close>: started in a state with \<open>I\<close>, the computation \<open>m\<close> ends in a state with \<open>I\<close>,
  whether it returns or halts. The invariant proofs of the components are assembled from the
  rules below, one per combinator.
\<close>

definition keeps :: "('s \<Rightarrow> bool) \<Rightarrow> ('s, 'a) prog \<Rightarrow> bool" where
  "keeps I m \<longleftrightarrow> (\<forall>s. I s \<longrightarrow> I (snd (m s)))"

lemma keepsD: "keeps I m \<Longrightarrow> I s \<Longrightarrow> I (snd (m s))"
  by (simp add: keeps_def)

lemma keeps_ret [intro!, inv_intros]: "keeps I (ret x)"
  by (simp add: keeps_def)

lemma keeps_stop [intro!, inv_intros]: "keeps I (stop h)"
  by (simp add: keeps_def)

lemma keeps_gets [intro!, inv_intros]: "keeps I (gets f)"
  by (simp add: keeps_def)

lemma keeps_modify: "(\<And>s. I s \<Longrightarrow> I (f s)) \<Longrightarrow> keeps I (modify f)"
  by (simp add: keeps_def)

lemma keeps_bnd [inv_intros]:
  assumes "keeps I m" and "\<And>x. keeps I (f x)"
  shows "keeps I (bnd m f)"
  using assms by (fastforce simp: keeps_def bnd_def split: prod.splits sum.splits)

lemma keeps_andthen [inv_intros]: "keeps I m \<Longrightarrow> keeps I k \<Longrightarrow> keeps I (andthen m k)"
  by (simp add: andthen_def keeps_bnd)

lemma keeps_whenM [inv_intros]: "(b \<Longrightarrow> keeps I m) \<Longrightarrow> keeps I (whenM b m)"
  by (cases b) (auto intro: keeps_ret)

lemma keeps_seqM [inv_intros]: "(\<And>m. m \<in> set ms \<Longrightarrow> keeps I m) \<Longrightarrow> keeps I (seqM ms)"
  by (induction ms) (auto intro: keeps_andthen)

lemma keeps_forM [inv_intros]: "(\<And>x. x \<in> set xs \<Longrightarrow> keeps I (f x)) \<Longrightarrow> keeps I (forM xs f)"
  by (induction xs) (auto intro: keeps_andthen)

lemma keeps_if [inv_intros]:
  "(b \<Longrightarrow> keeps I m) \<Longrightarrow> (\<not> b \<Longrightarrow> keeps I k) \<Longrightarrow> keeps I (if b then m else k)"
  by simp

section \<open>Computations without undefined behaviour\<close>

text \<open>\<open>defined m\<close>: in no state does \<open>m\<close> end in undefined behaviour.\<close>

definition defined :: "('s, 'a) prog \<Rightarrow> bool" where
  "defined m \<longleftrightarrow> (\<forall>s. fst (m s) \<noteq> Inl Undef)"

named_theorems def_intros \<open>rules for computations without undefined behaviour\<close>

lemma definedD: "defined m \<Longrightarrow> fst (m s) \<noteq> Inl Undef"
  by (simp add: defined_def)

lemma defined_basic [def_intros]:
  "defined (ret x)" "defined (gets f)" "defined (modify g)" "h \<noteq> Undef \<Longrightarrow> defined (stop h)"
  by (simp_all add: defined_def)

lemma defined_bnd [def_intros]: "defined m \<Longrightarrow> (\<And>x. defined (f x)) \<Longrightarrow> defined (bnd m f)"
proof -
  assume m: "defined m" and f: "\<And>x. defined (f x)"
  show "defined (bnd m f)"
    unfolding defined_def
  proof
    fix s
    obtain r s' where "m s = (r, s')" by fastforce
    then show "fst (bnd m f s) \<noteq> Inl Undef"
      using definedD [OF m, of s] definedD [OF f, of _ s'] by (cases r) (auto simp: bnd_def)
  qed
qed

lemma defined_andthen [def_intros]: "defined m \<Longrightarrow> defined k \<Longrightarrow> defined (andthen m k)"
  by (simp add: andthen_def defined_bnd)

lemma defined_whenM [def_intros]: "(b \<Longrightarrow> defined m) \<Longrightarrow> defined (whenM b m)"
  by (cases b) (auto intro: defined_basic)

lemma defined_forM [def_intros]: "(\<And>x. x \<in> set xs \<Longrightarrow> defined (f x)) \<Longrightarrow> defined (forM xs f)"
  by (induction xs) (auto intro: defined_andthen defined_basic)

lemma defined_if [def_intros]:
  "(b \<Longrightarrow> defined m) \<Longrightarrow> (\<not> b \<Longrightarrow> defined k) \<Longrightarrow> defined (if b then m else k)"
  by simp

section \<open>Lists\<close>

lemma takeWhile_all: "(\<And>x. x \<in> set xs \<Longrightarrow> P x) \<Longrightarrow> takeWhile P xs = xs"
  by (simp add: takeWhile_eq_all_conv)

lemma takeWhile_app_stop:
  "(\<And>x. x \<in> set xs \<Longrightarrow> P x) \<Longrightarrow> \<not> P y \<Longrightarrow> takeWhile P (xs @ y # ys) = xs"
  by (induction xs) auto

lemma dropWhile_app_stop:
  "(\<And>x. x \<in> set xs \<Longrightarrow> P x) \<Longrightarrow> \<not> P y \<Longrightarrow> dropWhile P (xs @ y # ys) = y # ys"
  by (induction xs) auto

text \<open>The index of the first element with a property, as the C search loops compute it.\<close>

primrec find_index :: "('a \<Rightarrow> bool) \<Rightarrow> 'a list \<Rightarrow> nat option" where
  "find_index P [] = None"
| "find_index P (x # xs) = (if P x then Some 0 else map_option Suc (find_index P xs))"

lemma find_index_None [simp]: "find_index P xs = None \<longleftrightarrow> (\<forall>x \<in> set xs. \<not> P x)"
  by (induction xs) auto

lemma find_index_Some:
  "find_index P xs = Some i \<longleftrightarrow> i < length xs \<and> P (xs ! i) \<and> (\<forall>j < i. \<not> P (xs ! j))"
proof (induction xs arbitrary: i)
  case Nil
  then show ?case by simp
next
  case (Cons x xs)
  show ?case
  proof (cases i)
    case 0
    then show ?thesis by (cases "find_index P xs") auto
  next
    case (Suc k)
    with Cons.IH [of k] show ?thesis
      by (auto simp: All_less_Suc2 nth_Cons' gr0_conv_Suc)
  qed
qed

lemma find_index_SomeD:
  "find_index P xs = Some i \<Longrightarrow> i < length xs \<and> P (xs ! i)"
  by (simp add: find_index_Some)

lemma find_append: "find P (xs @ ys) = (case find P xs of None \<Rightarrow> find P ys | Some x \<Rightarrow> Some x)"
  by (induction xs) auto

lemma ex_list_update:
  assumes "j < length xs"
  shows "(\<exists>i < length (xs[j := x]). P (xs[j := x] ! i)) \<longleftrightarrow>
    P x \<or> (\<exists>i < length xs. i \<noteq> j \<and> P (xs ! i))"
proof
  assume "\<exists>i < length (xs[j := x]). P (xs[j := x] ! i)"
  then obtain i where "i < length xs" "P (xs[j := x] ! i)" by auto
  then show "P x \<or> (\<exists>i < length xs. i \<noteq> j \<and> P (xs ! i))"
    by (cases "i = j") auto
next
  assume "P x \<or> (\<exists>i < length xs. i \<noteq> j \<and> P (xs ! i))"
  then show "\<exists>i < length (xs[j := x]). P (xs[j := x] ! i)"
    using assms by (auto intro: exI [of _ j])
qed

text \<open>Updating every position of an array in turn maps the update over it.\<close>

lemma fold_update_map_tail:
  "fold (\<lambda>j c. c[j := f (c ! j)]) [length a..<length a + length b] (a @ b) = a @ map f b"
proof (induction b arbitrary: a)
  case Nil
  then show ?case by simp
next
  case (Cons x b)
  from Cons.IH [of "a @ [f x]"] show ?case
    by (simp add: upt_conv_Cons del: upt_Suc)
qed

lemma fold_update_map: "fold (\<lambda>j c. c[j := f (c ! j)]) [0..<length c] c = map f c"
  using fold_update_map_tail [of f "[]" c] by simp

lemma length_filter_update:
  assumes "j < length xs" "\<not> P (xs ! j)" "P x"
  shows "length (filter P (xs[j := x])) = Suc (length (filter P xs))"
proof -
  from assms(1) have "xs = take j xs @ xs ! j # drop (Suc j) xs" by (metis id_take_nth_drop)
  then have "filter P xs = filter P (take j xs) @ filter P (drop (Suc j) xs)"
    using assms(2) by (metis (no_types, lifting) filter.simps(2) filter_append)
  moreover have "filter P (xs[j := x]) = filter P (take j xs) @ x # filter P (drop (Suc j) xs)"
    using assms(1,3) by (simp add: upd_conv_take_nth_drop)
  ultimately show ?thesis by simp
qed

end
