(* ===== verification/CLib.thy ===== *)
theory CLib
  imports Prelude
begin

text \<open>
  The part of the C library the programs call: errno values, character classes, the string
  searches, bounded copies, decimal output and \<^verbatim>\<open>strtol\<close>/\<^verbatim>\<open>atoi\<close>. A C string is the list of
  its characters before the terminating null byte; a possibly null pointer to one is an
  option. \<^verbatim>\<open>long\<close> is 64 bits and \<^verbatim>\<open>int\<close> 32 bits wide (x86-64 Linux).
\<close>

section \<open>Constants\<close>

definition EXIT_SUCCESS :: int where [const_defs]: "EXIT_SUCCESS = 0"
definition EXIT_FAILURE :: int where [const_defs]: "EXIT_FAILURE = 1"

definition EPERM :: int where [const_defs]: "EPERM = 1"
definition ENOENT :: int where [const_defs]: "ENOENT = 2"
definition EINTR :: int where [const_defs]: "EINTR = 4"
definition EIO :: int where [const_defs]: "EIO = 5"
definition EBADF :: int where [const_defs]: "EBADF = 9"
definition ECHILD :: int where [const_defs]: "ECHILD = 10"
definition EAGAIN :: int where [const_defs]: "EAGAIN = 11"
definition ENOMEM :: int where [const_defs]: "ENOMEM = 12"
definition EACCES :: int where [const_defs]: "EACCES = 13"
definition EEXIST :: int where [const_defs]: "EEXIST = 17"
definition EINVAL :: int where [const_defs]: "EINVAL = 22"
definition ERANGE :: int where [const_defs]: "ERANGE = 34"
definition EIDRM :: int where [const_defs]: "EIDRM = 43"

definition SIGINT :: int where [const_defs]: "SIGINT = 2"
definition SIGQUIT :: int where [const_defs]: "SIGQUIT = 3"
definition SIGCHLD :: int where [const_defs]: "SIGCHLD = 17"

definition INT_MAX :: int where [const_defs]: "INT_MAX = 2147483647"
definition INT_MIN :: int where [const_defs]: "INT_MIN = - 2147483648"
definition LONG_MAX :: int where [const_defs]: "LONG_MAX = 9223372036854775807"
definition LONG_MIN :: int where [const_defs]: "LONG_MIN = - 9223372036854775808"

section \<open>Integer conversions\<close>

text \<open>Assignment to a narrower integer type keeps the low bits.\<close>

definition to_u16 :: "int \<Rightarrow> int" where "to_u16 x = x mod 65536"
definition to_u32 :: "int \<Rightarrow> int" where "to_u32 x = x mod 4294967296"
definition to_s16 :: "int \<Rightarrow> int" where "to_s16 x = (x + 32768) mod 65536 - 32768"
definition to_s32 :: "int \<Rightarrow> int" where
  "to_s32 x = (x + 2147483648) mod 4294967296 - 2147483648"

lemma to_u32_id: "0 \<le> x \<Longrightarrow> x < 4294967296 \<Longrightarrow> to_u32 x = x"
  by (simp add: to_u32_def)

lemma to_u32_bounds: "0 \<le> to_u32 x \<and> to_u32 x < 4294967296"
  by (simp add: to_u32_def)

lemma to_u16_bounds: "0 \<le> to_u16 x \<and> to_u16 x < 65536"
  by (simp add: to_u16_def)

lemma to_s32_id: "INT_MIN \<le> x \<Longrightarrow> x \<le> INT_MAX \<Longrightarrow> to_s32 x = x"
  by (simp add: to_s32_def const_defs)

lemma to_s32_bounds: "INT_MIN \<le> to_s32 x \<and> to_s32 x \<le> INT_MAX"
  using pos_mod_bound [of 4294967296 "x + 2147483648"]
    pos_mod_sign [of 4294967296 "x + 2147483648"]
  by (simp add: to_s32_def const_defs)

lemma to_s16_id: "- 32768 \<le> x \<Longrightarrow> x \<le> 32767 \<Longrightarrow> to_s16 x = x"
  by (simp add: to_s16_def)

section \<open>Limits and flags of the kernel interface\<close>

definition PATH_MAX :: nat where [const_defs]: "PATH_MAX = 4096"

definition CLONE_NEWNS :: int where [const_defs]: "CLONE_NEWNS = 0x00020000"
definition CLONE_NEWCGROUP :: int where [const_defs]: "CLONE_NEWCGROUP = 0x02000000"
definition CLONE_NEWUTS :: int where [const_defs]: "CLONE_NEWUTS = 0x04000000"
definition CLONE_NEWIPC :: int where [const_defs]: "CLONE_NEWIPC = 0x08000000"
definition CLONE_NEWUSER :: int where [const_defs]: "CLONE_NEWUSER = 0x10000000"
definition CLONE_NEWPID :: int where [const_defs]: "CLONE_NEWPID = 0x20000000"
definition CLONE_NEWNET :: int where [const_defs]: "CLONE_NEWNET = 0x40000000"

section \<open>Characters\<close>

definition NUL :: char where
  "NUL = CHR 0x00"

definition NL :: char where "NL = CHR 0x0A"
definition TAB :: char where "TAB = CHR 0x09"

definition isspace :: "char \<Rightarrow> bool" where
  "isspace c \<longleftrightarrow> c \<in> {CHR '' '', CHR 0x09, CHR 0x0A, CHR 0x0B, CHR 0x0C, CHR 0x0D}"

text \<open>The value of a letter or digit as \<^verbatim>\<open>strtol\<close> reads it.\<close>

definition digit_val :: "char \<Rightarrow> nat option" where
  "digit_val c = (let n = of_char c :: nat in
     if 48 \<le> n \<and> n \<le> 57 then Some (n - 48)
     else if 97 \<le> n \<and> n \<le> 122 then Some (n - 87)
     else if 65 \<le> n \<and> n \<le> 90 then Some (n - 55)
     else None)"

definition is_digit :: "nat \<Rightarrow> char \<Rightarrow> bool" where
  "is_digit b c = (case digit_val c of None \<Rightarrow> False | Some d \<Rightarrow> d < b)"

definition isdigit :: "char \<Rightarrow> bool" where
  "isdigit c = (let n = of_char c :: nat in 48 \<le> n \<and> n \<le> 57)"

definition digit_char :: "nat \<Rightarrow> char" where
  "digit_char d = (if d < 10 then char_of (48 + d) else char_of (87 + d))"

lemma digit_val_digit_char [simp]: "d < 36 \<Longrightarrow> digit_val (digit_char d) = Some d"
  by (auto simp: digit_char_def digit_val_def Let_def)

lemma is_digit_digit_char [simp]: "d < b \<Longrightarrow> b \<le> 36 \<Longrightarrow> is_digit b (digit_char d)"
  by (simp add: is_digit_def)

lemma digit_char_10_neq [simp]:
  assumes "d < 10"
  shows "\<not> isspace (digit_char d)" "digit_char d \<noteq> CHR ''-''" "digit_char d \<noteq> CHR ''+''"
proof -
  have "d = 0 \<or> d = 1 \<or> d = 2 \<or> d = 3 \<or> d = 4 \<or> d = 5 \<or> d = 6 \<or> d = 7 \<or> d = 8 \<or> d = 9"
    using assms by arith
  then show "\<not> isspace (digit_char d)" "digit_char d \<noteq> CHR ''-''" "digit_char d \<noteq> CHR ''+''"
    by (elim disjE; simp add: digit_char_def isspace_def char_of_def)+
qed

section \<open>Strings\<close>

text \<open>\<^verbatim>\<open>strchr(s, c)\<close> for a character that is not the terminator: the part of the string
  before the match and the part from the match on, or \<open>None\<close> for a null result.\<close>

definition strchr :: "string \<Rightarrow> char \<Rightarrow> (string \<times> string) option" where
  "strchr s c = (if c \<in> set s
     then Some (takeWhile (\<lambda>x. x \<noteq> c) s, dropWhile (\<lambda>x. x \<noteq> c) s) else None)"

lemma strchr_None [simp]: "strchr s c = None \<longleftrightarrow> c \<notin> set s"
  by (simp add: strchr_def)

lemma strchr_app: "c \<notin> set a \<Longrightarrow> strchr (a @ c # b) c = Some (a, c # b)"
proof -
  assume "c \<notin> set a"
  then have "\<And>x. x \<in> set a \<Longrightarrow> x \<noteq> c" by auto
  then show ?thesis
    by (simp add: strchr_def takeWhile_app_stop dropWhile_app_stop)
qed

lemma strchr_SomeD: "strchr s c = Some (a, b) \<Longrightarrow> c \<notin> set a \<and> s = a @ b \<and> hd b = c \<and> b \<noteq> []"
proof -
  assume *: "strchr s c = Some (a, b)"
  then have c: "c \<in> set s" and a: "a = takeWhile (\<lambda>x. x \<noteq> c) s" and b: "b = dropWhile (\<lambda>x. x \<noteq> c) s"
    by (auto simp: strchr_def split: if_splits)
  from c obtain u v where "s = u @ c # v" and "c \<notin> set u" by (metis split_list_first)
  then have "strchr s c = Some (u, c # v)" by (simp add: strchr_app)
  with * \<open>s = u @ c # v\<close> \<open>c \<notin> set u\<close> show ?thesis by auto
qed

text \<open>\<^verbatim>\<open>snprintf(buf, n, ...)\<close> keeps at most \<open>n - 1\<close> characters of the formatted text;
  \<^verbatim>\<open>strncpy(buf, s, n)\<close> copies at most \<open>n\<close>.\<close>

definition snprintf :: "nat \<Rightarrow> string \<Rightarrow> string" where
  "snprintf n s = take (n - 1) s"

definition strncpy :: "nat \<Rightarrow> string \<Rightarrow> string" where
  "strncpy n s = take n s"

text \<open>The minimum field width of a \<^verbatim>\<open>printf\<close> conversion.\<close>

definition pad_left :: "nat \<Rightarrow> string \<Rightarrow> string" where
  "pad_left n s = replicate (n - length s) (CHR '' '') @ s"

lemma snprintf_id: "length s < n \<Longrightarrow> snprintf n s = s"
  by (simp add: snprintf_def)

lemma length_snprintf: "0 < n \<Longrightarrow> length (snprintf n s) < n"
  by (simp add: snprintf_def)

lemma strncpy_id: "length s \<le> n \<Longrightarrow> strncpy n s = s"
  by (simp add: strncpy_def)

section \<open>Decimal and hexadecimal output\<close>

fun show_base :: "nat \<Rightarrow> nat \<Rightarrow> string" where
  "show_base b n = (if b < 2 \<or> n < b then [digit_char n]
     else show_base b (n div b) @ [digit_char (n mod b)])"

declare show_base.simps [simp del]

definition show_nat :: "nat \<Rightarrow> string" where
  "show_nat n = show_base 10 n"

definition show_int :: "int \<Rightarrow> string" where
  "show_int i = (if i < 0 then CHR ''-'' # show_nat (nat (- i)) else show_nat (nat i))"

lemma show_base_length: "2 \<le> b \<Longrightarrow> n < b ^ Suc k \<Longrightarrow> length (show_base b n) \<le> Suc k"
proof (induction k arbitrary: n)
  case 0
  then show ?case by (subst show_base.simps) simp
next
  case (Suc k)
  then have "n div b < b ^ Suc k" by (simp add: less_mult_imp_div_less mult.commute)
  with Suc show ?case by (subst show_base.simps) auto
qed

lemma show_int_length: "- (10 ^ 10) < v \<Longrightarrow> v < 10 ^ 10 \<Longrightarrow> length (show_int v) \<le> 11"
proof -
  assume "- (10 ^ 10) < v" "v < 10 ^ 10"
  then have "nat v < 10 ^ Suc 9" "nat (- v) < 10 ^ Suc 9" by simp_all
  with show_base_length [of 10 "nat v" 9] show_base_length [of 10 "nat (- v)" 9] show ?thesis
    by (simp add: show_int_def show_nat_def)
qed

lemma show_int_word: "length (show_int (sint (w :: 32 word))) \<le> 11"
proof (rule show_int_length)
  show "- (10 ^ 10) < sint w" using sint_ge [of w] by simp
  show "sint w < 10 ^ 10" using sint_lt [of w] by simp
qed

section \<open>strtol and atoi\<close>

definition digits_val :: "nat \<Rightarrow> string \<Rightarrow> nat" where
  "digits_val b ds = foldl (\<lambda>acc c. acc * b + the (digit_val c)) 0 ds"

text \<open>The optional \<^verbatim>\<open>0x\<close> prefix is taken only when a hexadecimal digit follows it.\<close>

definition strtol_base :: "nat \<Rightarrow> string \<Rightarrow> nat \<times> string" where
  "strtol_base b s =
     (if (b = 0 \<or> b = 16) \<and> 2 < length s \<and> s ! 0 = CHR ''0'' \<and>
         (s ! 1 = CHR ''x'' \<or> s ! 1 = CHR ''X'') \<and> is_digit 16 (s ! 2)
      then (16, drop 2 s)
      else if b = 0 then (if s \<noteq> [] \<and> hd s = CHR ''0'' then 8 else 10, s)
      else (b, s))"

definition strtol_sign :: "string \<Rightarrow> bool \<times> string" where
  "strtol_sign s = (case s of [] \<Rightarrow> (False, [])
     | c # r \<Rightarrow> if c = CHR ''-'' then (True, r) else if c = CHR ''+'' then (False, r)
                else (False, s))"

text \<open>Result, the text \<^verbatim>\<open>*endptr\<close> points to, and whether \<^verbatim>\<open>errno\<close> was set to \<^verbatim>\<open>ERANGE\<close>.
  With no digits nothing is converted: the result is 0 and \<^verbatim>\<open>endptr\<close> is the argument.\<close>

definition strtol :: "string \<Rightarrow> nat \<Rightarrow> int \<times> string \<times> bool" where
  "strtol s b =
     (let (neg, s2) = strtol_sign (dropWhile isspace s);
          (b', s3) = strtol_base b s2;
          ds = takeWhile (is_digit b') s3;
          v = (if neg then - int (digits_val b' ds) else int (digits_val b' ds))
      in if ds = [] then (0, s, False)
         else if v > LONG_MAX then (LONG_MAX, dropWhile (is_digit b') s3, True)
         else if v < LONG_MIN then (LONG_MIN, dropWhile (is_digit b') s3, True)
         else (v, dropWhile (is_digit b') s3, False))"

text \<open>\<^verbatim>\<open>atoi(s)\<close> is \<^verbatim>\<open>(int) strtol(s, NULL, 10)\<close>, as glibc defines it.\<close>

definition atoi :: "string \<Rightarrow> int" where
  "atoi s = to_s32 (fst (strtol s 10))"

subsection \<open>Bounds\<close>

lemma strtol_bounds: "strtol s b = (v, r, e) \<Longrightarrow> LONG_MIN \<le> v \<and> v \<le> LONG_MAX"
  by (auto simp: strtol_def Let_def const_defs split: prod.splits if_splits)

lemma strtol_Nil [simp]: "strtol [] b = (0, [], False)"
  by (auto simp: strtol_def strtol_sign_def strtol_base_def split: prod.splits)

lemma atoi_bounds: "INT_MIN \<le> atoi s \<and> atoi s \<le> INT_MAX"
  by (simp add: atoi_def to_s32_bounds)

subsection \<open>Reading back printed numbers\<close>

lemma digits_val_snoc: "digits_val b (ds @ [c]) = digits_val b ds * b + the (digit_val c)"
  by (simp add: digits_val_def)

lemma show_base_digits: "2 \<le> b \<Longrightarrow> b \<le> 36 \<Longrightarrow> \<forall>c \<in> set (show_base b n). is_digit b c"
proof (induction b n rule: show_base.induct)
  case (1 b n)
  then show ?case by (subst show_base.simps) auto
qed

lemma show_base_10_digits:
  "\<forall>c \<in> set (show_base 10 n). \<exists>d < 10. c = digit_char d"
proof (induction "10 :: nat" n rule: show_base.induct)
  case (1 n)
  have "\<exists>d < 10. digit_char (n mod 10) = digit_char d"
    by (rule exI [of _ "n mod 10"]) simp
  with 1 show ?case by (subst show_base.simps) auto
qed

lemma show_base_nonempty [simp]: "show_base b n \<noteq> []"
  by (subst show_base.simps) simp

lemma digits_val_show_base: "2 \<le> b \<Longrightarrow> b \<le> 36 \<Longrightarrow> digits_val b (show_base b n) = n"
proof (induction b n rule: show_base.induct)
  case (1 b n)
  show ?case
  proof (cases "n < b")
    case True
    with "1.prems" show ?thesis
      by (subst show_base.simps) (simp add: digits_val_def)
  next
    case False
    with 1 have "digits_val b (show_base b (n div b)) = n div b" by simp
    with False "1.prems" show ?thesis
      by (subst show_base.simps) (simp add: digits_val_snoc less_le_trans [of _ b 36])
  qed
qed

lemma strtol_digits:
  assumes ds: "ds \<noteq> []" "\<forall>c \<in> set ds. \<exists>d < 10. c = digit_char d"
    and rest: "rest = [] \<or> \<not> is_digit 10 (hd rest)"
  shows "strtol (ds @ rest) 10 =
    (if int (digits_val 10 ds) > LONG_MAX then (LONG_MAX, rest, True)
     else (int (digits_val 10 ds), rest, False))"
    and "strtol (CHR ''-'' # ds @ rest) 10 =
    (if - int (digits_val 10 ds) < LONG_MIN then (LONG_MIN, rest, True)
     else (- int (digits_val 10 ds), rest, False))"
proof -
  from ds obtain d r where hd: "ds = digit_char d # r" "d < 10"
    by (cases ds) auto
  have all: "\<And>c. c \<in> set ds \<Longrightarrow> is_digit 10 c" using ds(2) by auto
  have tw: "takeWhile (is_digit 10) (ds @ rest) = ds"
    using all rest by (cases rest) (auto simp: takeWhile_app_stop)
  have dw: "dropWhile (is_digit 10) (ds @ rest) = rest"
    using all rest by (cases rest) (auto simp: dropWhile_app_stop)
  have sp: "dropWhile isspace (ds @ rest) = ds @ rest" using hd by simp
  have sgn: "strtol_sign (ds @ rest) = (False, ds @ rest)"
    using hd by (simp add: strtol_sign_def)
  show "strtol (ds @ rest) 10 =
    (if int (digits_val 10 ds) > LONG_MAX then (LONG_MAX, rest, True)
     else (int (digits_val 10 ds), rest, False))"
    using ds(1) by (simp add: strtol_def sp sgn strtol_base_def tw dw Let_def const_defs)
  have "strtol_sign (CHR ''-'' # ds @ rest) = (True, ds @ rest)"
    by (simp add: strtol_sign_def)
  moreover have "dropWhile isspace (CHR ''-'' # ds @ rest) = CHR ''-'' # ds @ rest"
    by (simp add: isspace_def)
  ultimately show "strtol (CHR ''-'' # ds @ rest) 10 =
    (if - int (digits_val 10 ds) < LONG_MIN then (LONG_MIN, rest, True)
     else (- int (digits_val 10 ds), rest, False))"
    using ds(1) by (simp add: strtol_def strtol_base_def tw dw Let_def const_defs)
qed

lemma strtol_show_int:
  assumes "rest = [] \<or> \<not> is_digit 10 (hd rest)"
  shows "strtol (show_int v @ rest) 10 =
    (if v > LONG_MAX then (LONG_MAX, rest, True)
     else if v < LONG_MIN then (LONG_MIN, rest, True) else (v, rest, False))"
proof -
  have *: "show_base 10 n \<noteq> []" "\<forall>c \<in> set (show_base 10 n). \<exists>d < 10. c = digit_char d" for n
    by (auto simp: show_base_10_digits)
  show ?thesis
  proof (cases "v < 0")
    case True
    then show ?thesis
      using strtol_digits(2) [OF * assms, of "nat (- v)"]
      by (simp add: show_int_def show_nat_def digits_val_show_base const_defs)
  next
    case False
    then show ?thesis
      using strtol_digits(1) [OF * assms, of "nat v"]
      by (simp add: show_int_def show_nat_def digits_val_show_base const_defs)
  qed
qed

lemma atoi_show_int:
  assumes "INT_MIN \<le> v" "v \<le> INT_MAX" "rest = [] \<or> \<not> is_digit 10 (hd rest)"
  shows "atoi (show_int v @ rest) = v"
  using assms strtol_show_int [OF assms(3), of v] to_s32_id [OF assms(1,2)]
  by (simp add: atoi_def const_defs)

lemma show_int_nonempty [simp]: "show_int v \<noteq> []"
  by (simp add: show_int_def show_nat_def)

lemma show_int_chars:
  "c \<in> set (show_int v) \<Longrightarrow> c = CHR ''-'' \<or> (\<exists>d < 10. c = digit_char d)"
  using show_base_10_digits by (auto simp: show_int_def show_nat_def split: if_splits)

lemma isdigit_digit_char: "d < 10 \<Longrightarrow> isdigit (digit_char d)"
  by (auto simp: isdigit_def digit_char_def)

lemma isdigit_hd_show_int:
  assumes "0 \<le> v"
  shows "isdigit (hd (show_int v @ s))"
proof -
  have "hd (show_int v) \<in> set (show_base 10 (nat v))"
    using assms hd_in_set [of "show_int v"] by (simp add: show_int_def show_nat_def)
  then obtain d where "d < 10" "hd (show_int v) = digit_char d" using show_base_10_digits by blast
  then show ?thesis by (simp add: hd_append2 isdigit_digit_char)
qed

lemma show_int_no_sep:
  "c = CHR '':'' \<or> c = CHR '','' \<Longrightarrow> c \<notin> set (show_int v)"
proof -
  have "CHR '':'' \<noteq> digit_char d \<and> CHR '','' \<noteq> digit_char d" if "d < 10" for d
  proof -
    have "\<not> is_digit 10 (CHR '':'')" "\<not> is_digit 10 (CHR '','')" by code_simp+
    then show ?thesis using that is_digit_digit_char [of d 10] by auto
  qed
  then show "c = CHR '':'' \<or> c = CHR '','' \<Longrightarrow> c \<notin> set (show_int v)"
    using show_int_chars [of c v] by auto
qed

section \<open>Comma-separated lists\<close>

lemma strchr_shrinks: "strchr s c = Some (a, b) \<Longrightarrow> length (tl b) < length s"
  using strchr_SomeD [of s c a b] by (cases b) auto

text \<open>Texts joined with commas.\<close>

fun comma_join :: "string list \<Rightarrow> string" where
  "comma_join [] = []"
| "comma_join [x] = x"
| "comma_join (x # xs) = x @ '','' @ comma_join xs"

end
