(* ===== verification/Get_Num.thy ===== *)
theory Get_Num
  imports CLib
begin

text \<open>
  \<^verbatim>\<open>tlpi-book/lib/get_num.c\<close>: the numeric command-line argument parser every program uses.
  A failure prints a diagnostic and exits, so a call returns either the text written to
  stderr before \<^verbatim>\<open>exit(EXIT_FAILURE)\<close> (\<open>Inl\<close>) or the number (\<open>Inr\<close>). A null argument is
  \<open>None\<close>.
\<close>

section \<open>Flags of get\_num.h\<close>

definition GN_NONNEG :: int where [const_defs]: "GN_NONNEG = 1"
definition GN_GT_0 :: int where [const_defs]: "GN_GT_0 = 2"
definition GN_ANY_BASE :: int where [const_defs]: "GN_ANY_BASE = 64"
definition GN_BASE_8 :: int where [const_defs]: "GN_BASE_8 = 128"
definition GN_BASE_16 :: int where [const_defs]: "GN_BASE_16 = 256"

definition has_flag :: "int \<Rightarrow> int \<Rightarrow> bool" where
  "has_flag flags f \<longleftrightarrow> flags AND f \<noteq> 0"

section \<open>Operations\<close>

definition gnFail :: "string \<Rightarrow> string \<Rightarrow> string option \<Rightarrow> string option \<Rightarrow> string" where
  "gnFail fname msg arg name =
     fname @ '' error'' @
     (case name of None \<Rightarrow> [] | Some n \<Rightarrow> '' (in '' @ n @ '')'') @
     '': '' @ msg @ [NL] @
     (case arg of None \<Rightarrow> []
      | Some a \<Rightarrow> if a = [] then [] else ''        offending text: '' @ a @ [NL])"

definition gn_base :: "int \<Rightarrow> nat" where
  "gn_base flags = (if has_flag flags GN_ANY_BASE then 0
     else if has_flag flags GN_BASE_8 then 8
     else if has_flag flags GN_BASE_16 then 16 else 10)"

definition getNum :: "string \<Rightarrow> string option \<Rightarrow> int \<Rightarrow> string option \<Rightarrow> string + int" where
  "getNum fname arg flags name =
     (case arg of
        None \<Rightarrow> Inl (gnFail fname ''null or empty string'' arg name)
      | Some a \<Rightarrow>
        if a = [] then Inl (gnFail fname ''null or empty string'' arg name)
        else
          (let (res, endptr, range_err) = strtol a (gn_base flags)
           in if range_err then Inl (gnFail fname ''strtol() failed'' arg name)
              else if endptr \<noteq> [] then Inl (gnFail fname ''nonnumeric characters'' arg name)
              else if has_flag flags GN_NONNEG \<and> res < 0
                then Inl (gnFail fname ''negative value not allowed'' arg name)
              else if has_flag flags GN_GT_0 \<and> res \<le> 0
                then Inl (gnFail fname ''value must be > 0'' arg name)
              else Inr res))"

definition getLong :: "string option \<Rightarrow> int \<Rightarrow> string option \<Rightarrow> string + int" where
  "getLong arg flags name = getNum ''getLong'' arg flags name"

definition getInt :: "string option \<Rightarrow> int \<Rightarrow> string option \<Rightarrow> string + int" where
  "getInt arg flags name =
     (case getNum ''getInt'' arg flags name of
        Inl e \<Rightarrow> Inl e
      | Inr res \<Rightarrow>
        if res > INT_MAX \<or> res < INT_MIN
        then Inl (gnFail ''getInt'' ''integer out of range'' arg name)
        else Inr (to_s32 res))"

section \<open>Lemmas\<close>

lemma getNum_InrD:
  assumes "getNum fname arg flags name = Inr v"
  obtains a where "arg = Some a" "a \<noteq> []" "strtol a (gn_base flags) = (v, [], False)"
    "has_flag flags GN_NONNEG \<longrightarrow> 0 \<le> v" "has_flag flags GN_GT_0 \<longrightarrow> 0 < v"
  using assms
  by (auto simp: getNum_def Let_def split: option.splits prod.splits if_splits)

lemma gn_base_0 [simp]: "gn_base 0 = 10"
  by (simp add: gn_base_def has_flag_def)

lemma getNum_show_int:
  assumes "LONG_MIN \<le> v" "v \<le> LONG_MAX" "gn_base flags = 10"
    "has_flag flags GN_NONNEG \<longrightarrow> 0 \<le> v" "has_flag flags GN_GT_0 \<longrightarrow> 0 < v"
  shows "getNum fname (Some (show_int v)) flags name = Inr v"
  using assms strtol_show_int [of "[]" v]
  by (auto simp: getNum_def const_defs)

lemma getInt_InrD:
  assumes "getInt arg flags name = Inr v"
  shows "getNum ''getInt'' arg flags name = Inr v \<and> INT_MIN \<le> v \<and> v \<le> INT_MAX"
  using assms by (auto simp: getInt_def to_s32_id split: sum.splits if_splits)

section \<open>Properties\<close>

text \<open>C29. What the parsers return satisfies what the flags demand: a number returned by
  \<open>getInt\<close> was converted from the whole of a nonempty argument without a range error, lies
  in the range of \<^verbatim>\<open>int\<close>, and is nonnegative or positive when \<open>GN_NONNEG\<close> or \<open>GN_GT_0\<close> is
  set.\<close>

theorem getInt_sound:
  assumes "getInt arg flags name = Inr v"
  shows "(\<exists>a. arg = Some a \<and> a \<noteq> [] \<and> strtol a (gn_base flags) = (v, [], False))
    \<and> INT_MIN \<le> v \<and> v \<le> INT_MAX
    \<and> (has_flag flags GN_NONNEG \<longrightarrow> 0 \<le> v) \<and> (has_flag flags GN_GT_0 \<longrightarrow> 0 < v)"
proof -
  from getInt_InrD [OF assms] have *: "getNum ''getInt'' arg flags name = Inr v"
    and bounds: "INT_MIN \<le> v" "v \<le> INT_MAX" by auto
  from * show ?thesis by (rule getNum_InrD) (use bounds in auto)
qed

theorem getInt_sound_witness:
  "getInt (Some ''42'') GN_GT_0 None = Inr 42 \<and> INT_MIN \<le> (42 :: int) \<and> (42 :: int) \<le> INT_MAX"
proof -
  have "getInt (Some ''42'') GN_GT_0 None = Inr 42" by code_simp
  with getInt_sound [OF this] show ?thesis by simp
qed

text \<open>Every decimal number prints to an argument that reads back as itself: with a
  decimal base, \<open>getInt\<close> returns exactly the printed number when it is in the range of
  \<^verbatim>\<open>int\<close> and the flags admit it, and reports an error when it is out of range.\<close>

theorem getInt_roundtrip:
  assumes "gn_base flags = 10"
    and "has_flag flags GN_NONNEG \<longrightarrow> 0 \<le> v" and "has_flag flags GN_GT_0 \<longrightarrow> 0 < v"
  shows "if INT_MIN \<le> v \<and> v \<le> INT_MAX
    then getInt (Some (show_int v)) flags name = Inr v
    else \<exists>e. getInt (Some (show_int v)) flags name = Inl e"
proof (cases "LONG_MIN \<le> v \<and> v \<le> LONG_MAX")
  case True
  then have "getNum ''getInt'' (Some (show_int v)) flags name = Inr v"
    using assms by (intro getNum_show_int) auto
  then show ?thesis by (auto simp: getInt_def to_s32_id)
next
  case False
  then have "\<not> (INT_MIN \<le> v \<and> v \<le> INT_MAX)" by (auto simp: const_defs)
  moreover from False have "fst (snd (strtol (show_int v) 10)) = [] \<and>
      snd (snd (strtol (show_int v) 10))"
    using strtol_show_int [of "[]" v] by (auto simp: not_le)
  ultimately show ?thesis
    using assms(1) by (auto simp: getInt_def getNum_def split: prod.splits)
qed

theorem getInt_roundtrip_witness:
  "getInt (Some (show_int (- 7))) 0 None = Inr (- 7)"
  using getInt_roundtrip [of 0 "- 7" None] by (simp add: has_flag_def const_defs)

end
