(* ===== verification/Error_Functions.thy ===== *)
theory Error_Functions
  imports CLib
begin

text \<open>
  \<^verbatim>\<open>tlpi-book/lib/error_functions.c\<close>: the diagnostics every program of the book ends with.
  The state is what these functions touch of a process: the stdio buffer of stdout, what has
  reached stdout and stderr, \<^verbatim>\<open>errno\<close> and the value of the \<^verbatim>\<open>EF_DUMPCORE\<close> environment
  variable. Programs extend this record with their own state. Any stdio call may change
  \<^verbatim>\<open>errno\<close>; \<open>stdio_errno\<close> says to what. A message is passed already formatted, and \<^verbatim>\<open>strerror\<close>
  is an argument.
\<close>

record proc_io =
  stdout_buf :: string
  stdout_out :: string
  stderr_out :: string
  errno :: int
  ef_dumpcore :: "string option"
  stdio_errno :: "int option"

text \<open>The effect of a stdio call on \<^verbatim>\<open>errno\<close>.\<close>

definition stdio_noise :: "'a proc_io_scheme \<Rightarrow> 'a proc_io_scheme" where
  "stdio_noise s = (case stdio_errno s of None \<Rightarrow> s | Some e \<Rightarrow> s\<lparr>errno := e\<rparr>)"

definition fflush_stdout :: "'a proc_io_scheme \<Rightarrow> 'a proc_io_scheme" where
  "fflush_stdout s = stdio_noise
     (s\<lparr>stdout_out := stdout_out s @ stdout_buf s, stdout_buf := []\<rparr>)"

definition fputs_stderr :: "string \<Rightarrow> 'a proc_io_scheme \<Rightarrow> 'a proc_io_scheme" where
  "fputs_stderr t s = stdio_noise (s\<lparr>stderr_out := stderr_out s @ t\<rparr>)"

definition printf_stdout :: "string \<Rightarrow> 'a proc_io_scheme \<Rightarrow> 'a proc_io_scheme" where
  "printf_stdout t s = stdio_noise (s\<lparr>stdout_buf := stdout_buf s @ t\<rparr>)"

text \<open>\<^verbatim>\<open>exit(3)\<close> flushes stdout before the process ends; \<^verbatim>\<open>_exit(2)\<close> and \<^verbatim>\<open>abort\<close> do not.\<close>

definition exit3 :: "int \<Rightarrow> ('a proc_io_scheme, 'b) prog" where
  "exit3 n s = (Inl (Exit n), fflush_stdout s)"

section \<open>The error name table of ename.c.inc\<close>

definition ename :: "string list" where
  "ename = [
    [], ''EPERM'', ''ENOENT'', ''ESRCH'', ''EINTR'', ''EIO'', ''ENXIO'', ''E2BIG'', ''ENOEXEC'',
    ''EBADF'', ''ECHILD'', ''EAGAIN/EWOULDBLOCK'', ''ENOMEM'', ''EACCES'', ''EFAULT'',
    ''ENOTBLK'', ''EBUSY'', ''EEXIST'', ''EXDEV'', ''ENODEV'', ''ENOTDIR'', ''EISDIR'',
    ''EINVAL'', ''ENFILE'', ''EMFILE'', ''ENOTTY'', ''ETXTBSY'', ''EFBIG'', ''ENOSPC'',
    ''ESPIPE'', ''EROFS'', ''EMLINK'', ''EPIPE'', ''EDOM'', ''ERANGE'', ''EDEADLK/EDEADLOCK'',
    ''ENAMETOOLONG'', ''ENOLCK'', ''ENOSYS'', ''ENOTEMPTY'', ''ELOOP'', [], ''ENOMSG'',
    ''EIDRM'', ''ECHRNG'', ''EL2NSYNC'', ''EL3HLT'', ''EL3RST'', ''ELNRNG'', ''EUNATCH'',
    ''ENOCSI'', ''EL2HLT'', ''EBADE'', ''EBADR'', ''EXFULL'', ''ENOANO'', ''EBADRQC'',
    ''EBADSLT'', [], ''EBFONT'', ''ENOSTR'', ''ENODATA'', ''ETIME'', ''ENOSR'', ''ENONET'',
    ''ENOPKG'', ''EREMOTE'', ''ENOLINK'', ''EADV'', ''ESRMNT'', ''ECOMM'', ''EPROTO'',
    ''EMULTIHOP'', ''EDOTDOT'', ''EBADMSG'', ''EOVERFLOW'', ''ENOTUNIQ'', ''EBADFD'',
    ''EREMCHG'', ''ELIBACC'', ''ELIBBAD'', ''ELIBSCN'', ''ELIBMAX'', ''ELIBEXEC'', ''EILSEQ'',
    ''ERESTART'', ''ESTRPIPE'', ''EUSERS'', ''ENOTSOCK'', ''EDESTADDRREQ'', ''EMSGSIZE'',
    ''EPROTOTYPE'', ''ENOPROTOOPT'', ''EPROTONOSUPPORT'', ''ESOCKTNOSUPPORT'',
    ''EOPNOTSUPP/ENOTSUP'', ''EPFNOSUPPORT'', ''EAFNOSUPPORT'', ''EADDRINUSE'',
    ''EADDRNOTAVAIL'', ''ENETDOWN'', ''ENETUNREACH'', ''ENETRESET'', ''ECONNABORTED'',
    ''ECONNRESET'', ''ENOBUFS'', ''EISCONN'', ''ENOTCONN'', ''ESHUTDOWN'', ''ETOOMANYREFS'',
    ''ETIMEDOUT'', ''ECONNREFUSED'', ''EHOSTDOWN'', ''EHOSTUNREACH'', ''EALREADY'',
    ''EINPROGRESS'', ''ESTALE'', ''EUCLEAN'', ''ENOTNAM'', ''ENAVAIL'', ''EISNAM'',
    ''EREMOTEIO'', ''EDQUOT'', ''ENOMEDIUM'', ''EMEDIUMTYPE'', ''ECANCELED'', ''ENOKEY'',
    ''EKEYEXPIRED'', ''EKEYREVOKED'', ''EKEYREJECTED'', ''EOWNERDEAD'', ''ENOTRECOVERABLE'',
    ''ERFKILL'', ''EHWPOISON'']"

definition MAX_ENAME :: int where [const_defs]: "MAX_ENAME = 133"

section \<open>Operations\<close>

definition terminate_proc :: "bool \<Rightarrow> ('a proc_io_scheme, 'b) prog" where
  "terminate_proc useExit3 s =
     (if ef_dumpcore s \<noteq> None \<and> ef_dumpcore s \<noteq> Some [] then (Inl Abort, s)
      else if useExit3 then exit3 EXIT_FAILURE s
      else (Inl (UExit EXIT_FAILURE), s))"

definition ERR_BUF_SIZE :: nat where [const_defs]: "ERR_BUF_SIZE = 500"

definition outputError ::
  "(int \<Rightarrow> string) \<Rightarrow> bool \<Rightarrow> int \<Rightarrow> bool \<Rightarrow> string \<Rightarrow> 'a proc_io_scheme \<Rightarrow> 'a proc_io_scheme" where
  "outputError strerror useErr err flushStdout msg s =
     (let userMsg = snprintf ERR_BUF_SIZE msg;
          errText = (if useErr
            then snprintf ERR_BUF_SIZE ('' ['' @
              (if err > 0 \<and> err \<le> MAX_ENAME then ename ! nat err else ''?UNKNOWN?'') @
              '' '' @ strerror err @ '']'')
            else snprintf ERR_BUF_SIZE '':'');
          buf = snprintf ERR_BUF_SIZE (''ERROR'' @ errText @ '' '' @ userMsg @ [NL]);
          s1 = (if flushStdout then fflush_stdout s else s)
      in stdio_noise (fputs_stderr buf s1))"

definition errMsg :: "(int \<Rightarrow> string) \<Rightarrow> string \<Rightarrow> 'a proc_io_scheme \<Rightarrow> 'a proc_io_scheme" where
  "errMsg strerror msg s =
     (let savedErrno = errno s
      in (outputError strerror True (errno s) True msg s)\<lparr>errno := savedErrno\<rparr>)"

definition errExit :: "(int \<Rightarrow> string) \<Rightarrow> string \<Rightarrow> ('a proc_io_scheme, 'b) prog" where
  "errExit strerror msg s =
     terminate_proc True (outputError strerror True (errno s) True msg s)"

definition err_exit :: "(int \<Rightarrow> string) \<Rightarrow> string \<Rightarrow> ('a proc_io_scheme, 'b) prog" where
  "err_exit strerror msg s =
     terminate_proc False (outputError strerror True (errno s) False msg s)"

definition errExitEN :: "(int \<Rightarrow> string) \<Rightarrow> int \<Rightarrow> string \<Rightarrow> ('a proc_io_scheme, 'b) prog" where
  "errExitEN strerror errnum msg s =
     terminate_proc True (outputError strerror True errnum True msg s)"

definition fatal :: "(int \<Rightarrow> string) \<Rightarrow> string \<Rightarrow> ('a proc_io_scheme, 'b) prog" where
  "fatal strerror msg s = terminate_proc True (outputError strerror False 0 True msg s)"

definition usageErr :: "string \<Rightarrow> ('a proc_io_scheme, 'b) prog" where
  "usageErr msg s =
     (let s1 = fflush_stdout s;
          s2 = fputs_stderr ''Usage: '' s1;
          s3 = fputs_stderr msg s2
      in exit3 EXIT_FAILURE (stdio_noise s3))"

definition cmdLineErr :: "string \<Rightarrow> ('a proc_io_scheme, 'b) prog" where
  "cmdLineErr msg s =
     (let s1 = fflush_stdout s;
          s2 = fputs_stderr ''Command-line usage error: '' s1;
          s3 = fputs_stderr msg s2
      in exit3 EXIT_FAILURE (stdio_noise s3))"

section \<open>Programs without the library\<close>

definition perror :: "(int \<Rightarrow> string) \<Rightarrow> string \<Rightarrow> 'a proc_io_scheme \<Rightarrow> 'a proc_io_scheme" where
  "perror strerror msg s = fputs_stderr (msg @ '': '' @ strerror (errno s) @ [NL]) s"

definition printfM :: "string \<Rightarrow> ('a proc_io_scheme, unit) prog" where
  "printfM t = modify (printf_stdout t)"

text \<open>Some programs (\<^verbatim>\<open>seccomp_perf.c\<close>, \<^verbatim>\<open>seccomp_multiarch.c\<close>, \<^verbatim>\<open>ns_capable.c\<close>) do not use the library: their \<^verbatim>\<open>errExit\<close> is a
  macro, \<^verbatim>\<open>perror\<close> and \<^verbatim>\<open>exit\<close>.\<close>

definition macro_errExit :: "(int \<Rightarrow> string) \<Rightarrow> string \<Rightarrow> ('a proc_io_scheme, 'b) prog" where
  "macro_errExit strerror msg = bnd (modify (perror strerror msg)) (\<lambda>_. exit3 EXIT_FAILURE)"

section \<open>Lemmas\<close>

lemma length_ename: "length ename = nat MAX_ENAME + 1"
  by (simp add: ename_def const_defs)

lemma stdio_noise_sel [simp]:
  "stdout_buf (stdio_noise s) = stdout_buf s" "stdout_out (stdio_noise s) = stdout_out s"
  "stderr_out (stdio_noise s) = stderr_out s" "ef_dumpcore (stdio_noise s) = ef_dumpcore s"
  "stdio_errno (stdio_noise s) = stdio_errno s" "proc_io.more (stdio_noise s) = proc_io.more s"
  by (auto simp: stdio_noise_def split: option.splits)

lemma fflush_stdout_sel [simp]:
  "stdout_buf (fflush_stdout s) = []" "stdout_out (fflush_stdout s) = stdout_out s @ stdout_buf s"
  "stderr_out (fflush_stdout s) = stderr_out s" "ef_dumpcore (fflush_stdout s) = ef_dumpcore s"
  "stdio_errno (fflush_stdout s) = stdio_errno s"
  "proc_io.more (fflush_stdout s) = proc_io.more s"
  by (auto simp: fflush_stdout_def)

lemma fputs_stderr_sel [simp]:
  "stdout_buf (fputs_stderr t s) = stdout_buf s" "stdout_out (fputs_stderr t s) = stdout_out s"
  "stderr_out (fputs_stderr t s) = stderr_out s @ t" "ef_dumpcore (fputs_stderr t s) = ef_dumpcore s"
  "stdio_errno (fputs_stderr t s) = stdio_errno s"
  "proc_io.more (fputs_stderr t s) = proc_io.more s"
  by (auto simp: fputs_stderr_def)

lemma printf_stdout_sel [simp]:
  "stdout_buf (printf_stdout t s) = stdout_buf s @ t" "stdout_out (printf_stdout t s) = stdout_out s"
  "stderr_out (printf_stdout t s) = stderr_out s" "ef_dumpcore (printf_stdout t s) = ef_dumpcore s"
  "stdio_errno (printf_stdout t s) = stdio_errno s" "proc_io.more (printf_stdout t s) = proc_io.more s"
  by (auto simp: printf_stdout_def)

text \<open>The text \<open>outputError\<close> writes.\<close>

definition error_text :: "(int \<Rightarrow> string) \<Rightarrow> bool \<Rightarrow> int \<Rightarrow> string \<Rightarrow> string" where
  "error_text strerror useErr err msg =
     ''ERROR'' @ (if useErr then '' ['' @
        (if err > 0 \<and> err \<le> MAX_ENAME then ename ! nat err else ''?UNKNOWN?'') @ '' '' @
        strerror err @ '']'' else '':'') @ '' '' @ msg @ [NL]"

lemma outputError_stderr:
  assumes "length (error_text strerror useErr err msg) < ERR_BUF_SIZE"
  shows "stderr_out (outputError strerror useErr err fl msg s) =
    stderr_out s @ error_text strerror useErr err msg"
proof -
  let ?t = "'' ['' @ (if err > 0 \<and> err \<le> MAX_ENAME then ename ! nat err else ''?UNKNOWN?'') @
    '' '' @ strerror err @ '']''"
  have "length msg < ERR_BUF_SIZE" and "useErr \<Longrightarrow> length ?t < ERR_BUF_SIZE"
    using assms by (auto simp: error_text_def)
  moreover have "length '':'' < ERR_BUF_SIZE" by (simp add: const_defs)
  ultimately show ?thesis
    using assms
    by (cases useErr) (simp_all add: outputError_def Let_def snprintf_id error_text_def)
qed

lemma outputError_bounded:
  "\<exists>t. length t < ERR_BUF_SIZE \<and> stderr_out (outputError strerror useErr err fl msg s) = stderr_out s @ t"
  by (simp add: outputError_def Let_def length_snprintf ERR_BUF_SIZE_def)

lemma outputError_sel [simp]:
  "stdout_out (outputError strerror u e fl msg s) =
     (if fl then stdout_out s @ stdout_buf s else stdout_out s)"
  "stdout_buf (outputError strerror u e fl msg s) = (if fl then [] else stdout_buf s)"
  "ef_dumpcore (outputError strerror u e fl msg s) = ef_dumpcore s"
  "proc_io.more (outputError strerror u e fl msg s) = proc_io.more s"
  by (simp_all add: outputError_def Let_def)

lemma exit3_sel [simp]:
  "fst (exit3 n s) = Inl (Exit n)" "snd (exit3 n s) = fflush_stdout s"
  by (simp_all add: exit3_def)

definition never_returns :: "('s, 'a) prog \<Rightarrow> bool" where
  "never_returns m \<longleftrightarrow> (\<forall>s. \<exists>h. fst (m s) = Inl h)"

lemma terminate_never_returns: "never_returns (terminate_proc b)"
  by (auto simp: never_returns_def terminate_proc_def exit3_def)

lemma never_returns_bnd: "(\<And>x. never_returns (k x)) \<Longrightarrow> never_returns (bnd m k)"
  by (fastforce simp: never_returns_def bnd_def split: prod.splits sum.splits)

lemma never_returns_exit: "never_returns (exit3 n)" "never_returns (errExit f m)" "never_returns (fatal f m)"
  by (auto simp: never_returns_def exit3_def errExit_def fatal_def terminate_proc_def)

lemma defined_bnd_halts: "defined m \<Longrightarrow> never_returns m \<Longrightarrow> defined (bnd m k)"
  unfolding defined_def never_returns_def bnd_def by (auto split: prod.splits sum.splits) (metis fst_conv sum.distinct(1))+

lemma defined_exits [def_intros]:
  "defined (exit3 n)" "defined (errExit f m)" "defined (err_exit f m)" "defined (errExitEN f k m)"
  "defined (fatal f m)" "defined (usageErr m)" "defined (cmdLineErr m)"
  by (simp_all add: defined_def exit3_def errExit_def err_exit_def errExitEN_def fatal_def usageErr_def
      cmdLineErr_def terminate_proc_def Let_def)

section \<open>Properties\<close>

text \<open>\<open>errMsg\<close> leaves \<^verbatim>\<open>errno\<close> as it found it, whatever the stdio calls it makes do to it;
  pending stdout output is delivered first, and at most 499 characters are added to
  stderr.\<close>

theorem errMsg_preserves_errno:
  "errno (errMsg strerror msg s) = errno s
   \<and> stdout_out (errMsg strerror msg s) = stdout_out s @ stdout_buf s
   \<and> (\<exists>t. length t < ERR_BUF_SIZE \<and> stderr_out (errMsg strerror msg s) = stderr_out s @ t)"
  using outputError_bounded [of strerror True "errno s" True msg s]
  by (simp add: errMsg_def Let_def)

text \<open>\<open>errExit\<close> never returns. Without \<^verbatim>\<open>EF_DUMPCORE\<close> it exits with status 1, having
  delivered the pending stdout output and then, when it fits the 500-byte buffer, exactly the
  error name, the error text and the message.\<close>

theorem errExit_reports:
  assumes "ef_dumpcore s = None"
    and "length (error_text strerror True (errno s) msg) < ERR_BUF_SIZE"
  shows "case errExit strerror msg s of (r, s') \<Rightarrow>
      r = Inl (Exit EXIT_FAILURE)
    \<and> stdout_out s' = stdout_out s @ stdout_buf s
    \<and> stderr_out s' = stderr_out s @ error_text strerror True (errno s) msg"
  using assms by (simp add: errExit_def terminate_proc_def outputError_stderr exit3_def)

definition sample_io :: proc_io where
  "sample_io = \<lparr>stdout_buf = ''pending'', stdout_out = [], stderr_out = [], errno = ENOENT,
     ef_dumpcore = None, stdio_errno = Some 0\<rparr>"

theorem errExit_reports_witness:
  "case errExit (\<lambda>_. ''No such file'') ''open'' sample_io :: (halt + unit) \<times> proc_io of (r, s') \<Rightarrow>
    stderr_out s' = ''ERROR [ENOENT No such file] open'' @ [NL]"
proof -
  have t: "error_text (\<lambda>_. ''No such file'') True (errno sample_io) ''open'' =
      ''ERROR [ENOENT No such file] open'' @ [NL]"
    by (simp add: error_text_def sample_io_def const_defs ename_def)
  moreover have "ef_dumpcore sample_io = None" by (simp add: sample_io_def)
  moreover have "stderr_out sample_io = []" by (simp add: sample_io_def)
  ultimately show ?thesis
    using errExit_reports [where 'b = unit, of sample_io "\<lambda>_. ''No such file''" "''open''"]
    by (simp add: const_defs split: prod.splits)
qed

text \<open>The contrast \<^verbatim>\<open>errExit\<close>/\<^verbatim>\<open>err_exit\<close>: \<open>err_exit\<close> is for a child sharing the parent's stdio
  buffers, so it never writes the pending stdout text, and it leaves through \<^verbatim>\<open>_exit\<close>; a core
  dump is taken by both exactly when \<^verbatim>\<open>EF_DUMPCORE\<close> is a nonempty string.\<close>

theorem err_exit_keeps_stdio:
  "stdout_out (snd (err_exit strerror msg s)) = stdout_out s
   \<and> stdout_buf (snd (err_exit strerror msg s)) = stdout_buf s
   \<and> fst (err_exit strerror msg s) =
      Inl (if ef_dumpcore s \<in> {None, Some []} then UExit EXIT_FAILURE else Abort)
   \<and> fst (errExit strerror msg s) =
      Inl (if ef_dumpcore s \<in> {None, Some []} then Exit EXIT_FAILURE else Abort)"
  by (auto simp: err_exit_def errExit_def terminate_proc_def)

end
