(* ===== verification/Stream_IO.thy ===== *)
theory Stream_IO
  imports CLib
begin

text \<open>
  \<^verbatim>\<open>tlpi-book/sockets/rdwrn.c\<close>, \<^verbatim>\<open>read_line.c\<close> and \<^verbatim>\<open>read_line_buf.c\<close>: reading and writing whole
  blocks and lines over descriptors that transfer less than asked and are interrupted by
  signals.

  \<^verbatim>\<open>read(2)\<close> and \<^verbatim>\<open>write(2)\<close> are arguments of the model: functions on a descriptor state that
  return \<^verbatim>\<open>errno\<close> (\<open>Inl\<close>) or the bytes read (the number of bytes written). The loops retry for as
  long as they are interrupted, so they are partial functions: \<open>None\<close> means that the C loop
  does not return. What the loops rely on is the locale \<open>reader\<close> (\<open>writer\<close>): the contract of
  the system call. The descriptors of the last section (a byte stream with an arbitrary
  schedule of short transfers, interrupts and errors) satisfy it, and the properties are
  stated for them.
\<close>

section \<open>Operations\<close>

type_synonym 's read_call = "nat \<Rightarrow> 's \<Rightarrow> (int + string) \<times> 's"
type_synonym 's write_call = "string \<Rightarrow> 's \<Rightarrow> (int + nat) \<times> 's"

subsection \<open>rdwrn.c\<close>

text \<open>\<open>acc\<close> is what the loop has stored in \<^verbatim>\<open>buffer\<close>; \<^verbatim>\<open>totRead\<close> is its length.\<close>

partial_function (option) readn_loop ::
  "'s read_call \<Rightarrow> nat \<Rightarrow> string \<Rightarrow> 's \<Rightarrow> ((int + string) \<times> 's) option" where
  "readn_loop rd n acc s =
     (if length acc < n then
        (case rd (n - length acc) s of
           (Inl e, s') \<Rightarrow> if e = EINTR then readn_loop rd n acc s' else Some (Inl e, s')
         | (Inr bs, s') \<Rightarrow>
             if bs = [] then Some (Inr acc, s') else readn_loop rd n (acc @ bs) s')
      else Some (Inr acc, s))"

definition readn :: "'s read_call \<Rightarrow> nat \<Rightarrow> 's \<Rightarrow> ((int + string) \<times> 's) option" where
  "readn rd n s = readn_loop rd n [] s"

text \<open>A write that transfers nothing is an error for \<open>writen\<close>, as it is in the code; the
  error number is then whatever \<^verbatim>\<open>errno\<close> held, here 0.\<close>

partial_function (option) writen_loop ::
  "'s write_call \<Rightarrow> string \<Rightarrow> nat \<Rightarrow> 's \<Rightarrow> ((int + nat) \<times> 's) option" where
  "writen_loop wr buf tot s =
     (if tot < length buf then
        (case wr (drop tot buf) s of
           (Inl e, s') \<Rightarrow> if e = EINTR then writen_loop wr buf tot s' else Some (Inl e, s')
         | (Inr k, s') \<Rightarrow>
             if k = 0 then Some (Inl 0, s') else writen_loop wr buf (tot + k) s')
      else Some (Inr tot, s))"

definition writen :: "'s write_call \<Rightarrow> string \<Rightarrow> 's \<Rightarrow> ((int + nat) \<times> 's) option" where
  "writen wr buf s = writen_loop wr buf 0 s"

subsection \<open>read\_line.c\<close>

text \<open>The result is the string stored in \<^verbatim>\<open>buffer\<close> without its terminator: \<^verbatim>\<open>totRead\<close> is its
  length. A return of 0 at end-of-file leaves the buffer untouched and is the empty string.\<close>

partial_function (option) readLine_loop ::
  "'s read_call \<Rightarrow> nat \<Rightarrow> string \<Rightarrow> 's \<Rightarrow> ((int + string) \<times> 's) option" where
  "readLine_loop rd n acc s =
     (case rd 1 s of
        (Inl e, s') \<Rightarrow> if e = EINTR then readLine_loop rd n acc s' else Some (Inl e, s')
      | (Inr bs, s') \<Rightarrow>
          (case bs of
             [] \<Rightarrow> Some (Inr acc, s')
           | ch # _ \<Rightarrow>
               (let acc' = (if length acc < n - 1 then acc @ [ch] else acc)
                in if ch = NL then Some (Inr acc', s') else readLine_loop rd n acc' s')))"

definition readLine ::
  "'s read_call \<Rightarrow> bool \<Rightarrow> nat \<Rightarrow> 's \<Rightarrow> ((int + string) \<times> 's) option" where
  "readLine rd buffer_null n s =
     (if n = 0 \<or> buffer_null then Some (Inl EINVAL, s) else readLine_loop rd n [] s)"

subsection \<open>read\_line\_buf.c\<close>

definition RL_MAX_BUF :: nat where [const_defs]: "RL_MAX_BUF = 10"

record ReadLineBuf =
  rl_buf :: string
  rl_next :: nat
  rl_len :: int

definition readLineBufInit :: "string \<Rightarrow> ReadLineBuf" where
  "readLineBufInit junk = \<lparr>rl_buf = junk, rl_next = 0, rl_len = 0\<rparr>"

text \<open>The refill at the head of the loop: the array is refilled when \<^verbatim>\<open>next >= len\<close>. A read
  error leaves \<^verbatim>\<open>len\<close> at -1, end-of-file leaves it at 0; both end the call (\<open>Inl\<close>).\<close>

definition rl_fill ::
  "'s read_call \<Rightarrow> string \<Rightarrow> ReadLineBuf \<Rightarrow> 's \<Rightarrow>
     ((int + string) \<times> ReadLineBuf \<times> 's) + (ReadLineBuf \<times> 's)" where
  "rl_fill rd acc b s =
     (if rl_len b \<le> int (rl_next b) then
        (case rd RL_MAX_BUF s of
           (Inl e, s') \<Rightarrow> Inl (Inl e, b\<lparr>rl_len := - 1\<rparr>, s')
         | (Inr bs, s') \<Rightarrow>
             if bs = [] then Inl (Inr acc, b\<lparr>rl_len := 0\<rparr>, s')
             else Inr (b\<lparr>rl_buf := bs @ drop (length bs) (rl_buf b),
                         rl_len := int (length bs), rl_next := 0\<rparr>, s'))
      else Inr (b, s))"

partial_function (option) readLineBuf_loop ::
  "'s read_call \<Rightarrow> nat \<Rightarrow> string \<Rightarrow> ReadLineBuf \<Rightarrow> 's \<Rightarrow> ((int + string) \<times> ReadLineBuf \<times> 's) option"
where
  "readLineBuf_loop rd n acc b s =
     (case rl_fill rd acc b s of
        Inl r \<Rightarrow> Some r
      | Inr (b1, s1) \<Rightarrow>
          (let c = rl_buf b1 ! rl_next b1;
               b2 = b1\<lparr>rl_next := rl_next b1 + 1\<rparr>;
               acc' = (if length acc < n then acc @ [c] else acc)
           in if c = NL then Some (Inr acc', b2, s1)
              else readLineBuf_loop rd n acc' b2 s1))"

definition readLineBuf ::
  "'s read_call \<Rightarrow> bool \<Rightarrow> nat \<Rightarrow> ReadLineBuf \<Rightarrow> 's \<Rightarrow> ((int + string) \<times> ReadLineBuf \<times> 's) option"
where
  "readLineBuf rd buffer_null n b s =
     (if n = 0 \<or> buffer_null then Some (Inl EINVAL, b, s) else readLineBuf_loop rd n [] b s)"

section \<open>Lines of a byte sequence\<close>

text \<open>The abstract specification: the first line of the input, its newline included, and
  what follows it.\<close>

fun line_of :: "string \<Rightarrow> string" where
  "line_of [] = []"
| "line_of (c # cs) = (if c = NL then [c] else c # line_of cs)"

fun rest_of :: "string \<Rightarrow> string" where
  "rest_of [] = []"
| "rest_of (c # cs) = (if c = NL then cs else rest_of cs)"

lemma line_rest [simp]: "line_of xs @ rest_of xs = xs"
  by (induction xs) auto

lemma line_of_length: "length (line_of xs) \<le> length xs"
  by (induction xs) auto

section \<open>The unread part of a line buffer\<close>

definition rl_unread :: "ReadLineBuf \<Rightarrow> string" where
  "rl_unread b = (if rl_len b \<le> int (rl_next b) then []
     else drop (rl_next b) (take (nat (rl_len b)) (rl_buf b)))"

definition rl_inv :: "ReadLineBuf \<Rightarrow> bool" where
  "rl_inv b \<longleftrightarrow> rl_len b \<le> int (length (rl_buf b))"

lemma rl_unread_alt: "rl_unread b = drop (rl_next b) (take (nat (rl_len b)) (rl_buf b))"
  by (auto simp: rl_unread_def)

lemma rl_unread_next:
  assumes "rl_inv b" "rl_unread b \<noteq> []"
  shows "rl_unread b = rl_buf b ! rl_next b # rl_unread (b\<lparr>rl_next := rl_next b + 1\<rparr>)"
proof -
  let ?t = "take (nat (rl_len b)) (rl_buf b)"
  from assms(2) have "rl_next b < length ?t" by (auto simp: rl_unread_alt)
  note Cons_nth_drop_Suc [OF this, symmetric]
  moreover have "?t ! rl_next b = rl_buf b ! rl_next b"
    using \<open>rl_next b < length ?t\<close> by simp
  ultimately show ?thesis by (simp add: rl_unread_alt)
qed

lemma readLineBufInit_inv [simp]:
  "rl_inv (readLineBufInit junk)" "rl_unread (readLineBufInit junk) = []"
  by (simp_all add: rl_inv_def rl_unread_def readLineBufInit_def)

section \<open>The contract of the system calls\<close>

text \<open>\<open>avail s\<close>: the bytes the descriptor still delivers before end-of-file; \<open>intr s\<close> bounds
  the interrupts still to come; \<open>errs s\<close>: the errors that may still occur.\<close>

locale reader =
  fixes rd :: "'s read_call"
    and avail :: "'s \<Rightarrow> string"
    and intr :: "'s \<Rightarrow> nat"
    and errs :: "'s \<Rightarrow> int set"
  assumes rd_data: "rd n s = (Inr bs, s') \<Longrightarrow> length bs \<le> n \<and> avail s = bs @ avail s'"
    and rd_eof: "rd n s = (Inr [], s') \<Longrightarrow> 0 < n \<Longrightarrow> avail s = []"
    and rd_err: "rd n s = (Inl e, s') \<Longrightarrow> avail s' = avail s"
    and rd_eintr: "rd n s = (Inl EINTR, s') \<Longrightarrow> intr s' < intr s"
    and rd_intr_le: "rd n s = (Inr bs, s') \<Longrightarrow> intr s' \<le> intr s"
    and rd_errs: "rd n s = (Inl e, s') \<Longrightarrow> e \<noteq> EINTR \<Longrightarrow> e \<in> errs s"
    and rd_errs_le: "rd n s = (r, s') \<Longrightarrow> errs s' \<subseteq> errs s"
begin

text \<open>One induction principle carries all the loops: a call either consumes bytes, or is
  interrupted, or ends the loop.\<close>

lemma reader_induct [case_names step]:
  assumes "\<And>s. (\<And>s'. intr s' + length (avail s') < intr s + length (avail s) \<Longrightarrow> P s') \<Longrightarrow> P s"
  shows "P s"
proof (rule measure_induct_rule [of "\<lambda>s. intr s + length (avail s)"])
  fix x
  assume "\<And>y. intr y + length (avail y) < intr x + length (avail x) \<Longrightarrow> P y"
  then show "P x" by (rule assms)
qed

lemma eintr_smaller:
  "rd n s = (Inl EINTR, s') \<Longrightarrow> intr s' + length (avail s') < intr s + length (avail s)"
  by (simp add: rd_err rd_eintr)

lemma data_smaller:
  "rd n s = (Inr bs, s') \<Longrightarrow> bs \<noteq> [] \<Longrightarrow> intr s' + length (avail s') < intr s + length (avail s)"
  using rd_data [of n s bs s'] rd_intr_le [of n s bs s'] by (cases bs) auto

lemma readn_loop_spec:
  "length acc \<le> n \<Longrightarrow> \<exists>r s'. readn_loop rd n acc s = Some (r, s') \<and>
     (case r of Inr bs \<Rightarrow> bs = acc @ take (n - length acc) (avail s) \<and>
                          avail s' = drop (n - length acc) (avail s)
      | Inl e \<Rightarrow> e \<noteq> EINTR \<and> e \<in> errs s)"
proof (induction s arbitrary: acc rule: reader_induct)
  case (step s)
  show ?case
  proof (cases "length acc < n")
    case False
    with step.prems show ?thesis
      by (subst readn_loop.simps) auto
  next
    case True
    obtain r s1 where rd: "rd (n - length acc) s = (r, s1)" by fastforce
    note le = rd_errs_le [OF rd]
    show ?thesis
    proof (cases r)
      case (Inl e)
      show ?thesis
      proof (cases "e = EINTR")
        case True
        with rd Inl have *: "rd (n - length acc) s = (Inl EINTR, s1)" by simp
        from step.IH [OF eintr_smaller [OF *] step.prems, unfolded rd_err [OF *]]
        obtain r' s2 where r': "readn_loop rd n acc s1 = Some (r', s2)"
            "case r' of Inr bs \<Rightarrow> bs = acc @ take (n - length acc) (avail s) \<and>
                          avail s2 = drop (n - length acc) (avail s)
             | Inl e \<Rightarrow> e \<noteq> EINTR \<and> e \<in> errs s1" by blast
        have "readn_loop rd n acc s = Some (r', s2)"
          using * \<open>length acc < n\<close> r'(1) by (subst readn_loop.simps) simp
        with r'(2) le show ?thesis by (cases r') auto
      next
        case False
        with rd Inl \<open>length acc < n\<close> rd_errs [of "n - length acc" s e s1] show ?thesis
          by (subst readn_loop.simps) auto
      qed
    next
      case (Inr bs)
      with rd have *: "rd (n - length acc) s = (Inr bs, s1)" by simp
      note d = rd_data [OF *]
      show ?thesis
      proof (cases "bs = []")
        case True
        with * \<open>length acc < n\<close> rd_eof [of "n - length acc" s s1] d show ?thesis
          by (subst readn_loop.simps) simp
      next
        case False
        from d \<open>length acc < n\<close> have "length (acc @ bs) \<le> n" by auto
        from step.IH [OF data_smaller [OF * False] this] obtain r' s2 where
          r': "readn_loop rd n (acc @ bs) s1 = Some (r', s2)"
            "case r' of Inr xs \<Rightarrow> xs = (acc @ bs) @ take (n - length (acc @ bs)) (avail s1) \<and>
                avail s2 = drop (n - length (acc @ bs)) (avail s1)
             | Inl e \<Rightarrow> e \<noteq> EINTR \<and> e \<in> errs s1"
          by blast
        have "readn_loop rd n acc s = Some (r', s2)"
          using \<open>length acc < n\<close> * False r'(1) by (subst readn_loop.simps) simp
        with r'(2) d le show ?thesis by (cases r') auto
      qed
    qed
  qed
qed

lemma readLine_loop_spec:
  "length acc \<le> n - 1 \<Longrightarrow> 0 < n \<Longrightarrow> \<exists>r s'. readLine_loop rd n acc s = Some (r, s') \<and>
     (case r of Inr l \<Rightarrow> l = acc @ take (n - 1 - length acc) (line_of (avail s)) \<and>
                         avail s' = rest_of (avail s)
      | Inl e \<Rightarrow> e \<noteq> EINTR \<and> e \<in> errs s)"
proof (induction s arbitrary: acc rule: reader_induct)
  case (step s)
  obtain r s1 where rd: "rd 1 s = (r, s1)" by fastforce
  note le = rd_errs_le [OF rd]
  show ?case
  proof (cases r)
    case (Inl e)
    show ?thesis
    proof (cases "e = EINTR")
      case True
      with rd Inl have *: "rd 1 s = (Inl EINTR, s1)" by simp
      from step.IH [OF eintr_smaller [OF *] step.prems, unfolded rd_err [OF *]]
      obtain r' s2 where r': "readLine_loop rd n acc s1 = Some (r', s2)"
          "case r' of Inr l \<Rightarrow> l = acc @ take (n - 1 - length acc) (line_of (avail s)) \<and>
                         avail s2 = rest_of (avail s)
           | Inl e \<Rightarrow> e \<noteq> EINTR \<and> e \<in> errs s1" by blast
      have "readLine_loop rd n acc s = Some (r', s2)"
        using * r'(1) by (subst readLine_loop.simps) simp
      with r'(2) le show ?thesis by (cases r') auto
    next
      case False
      with rd Inl rd_errs [of 1 s e s1] show ?thesis
        by (subst readLine_loop.simps) auto
    qed
  next
    case (Inr bs)
    with rd have *: "rd 1 s = (Inr bs, s1)" by simp
    note d = rd_data [OF *]
    show ?thesis
    proof (cases bs)
      case Nil
      with * rd_eof [of 1 s s1] d show ?thesis
        by (subst readLine_loop.simps) simp
    next
      case (Cons ch bs')
      with d have bs: "bs = [ch]" and av: "avail s = ch # avail s1" by auto
      let ?acc = "if length acc < n - 1 then acc @ [ch] else acc"
      have tk: "ch \<noteq> NL \<Longrightarrow> ?acc @ take (n - 1 - length ?acc) (line_of (avail s1)) =
          acc @ take (n - 1 - length acc) (line_of (avail s))"
        using step.prems(1) av by (auto simp: take_Cons' Suc_diff_Suc)
      show ?thesis
      proof (cases "ch = NL")
        case True
        then show ?thesis using * bs av step.prems(1)
          by (subst readLine_loop.simps) (auto simp: take_Cons')
      next
        case False
        have "length ?acc \<le> n - 1" using step.prems(1) by auto
        from step.IH [OF data_smaller [OF *] this step.prems(2)] bs obtain r' s2 where
          r': "readLine_loop rd n ?acc s1 = Some (r', s2)"
            "case r' of Inr l \<Rightarrow> l = ?acc @ take (n - 1 - length ?acc) (line_of (avail s1)) \<and>
                          avail s2 = rest_of (avail s1)
             | Inl e \<Rightarrow> e \<noteq> EINTR \<and> e \<in> errs s1" by blast
        have "readLine_loop rd n acc s = Some (r', s2)"
          using * bs False r'(1) by (subst readLine_loop.simps) (simp add: Let_def)
        with r'(2) tk [OF False] av False le show ?thesis by (cases r') auto
      qed
    qed
  qed
qed

text \<open>The buffered reader: what it has not delivered yet is the unread part of its array and
  what the descriptor still holds.\<close>

text \<open>The errors that reading in a state can report.\<close>

definition blames :: "'s \<Rightarrow> int \<Rightarrow> bool" where
  "blames s e \<longleftrightarrow> e = EINTR \<and> 0 < intr s \<or> e \<in> errs s"

lemma rl_fill_Inr:
  assumes "rl_fill rd acc b s = Inr (b1, s1)" and "rl_inv b"
  shows "rl_inv b1 \<and> rl_unread b1 \<noteq> [] \<and>
    rl_unread b1 @ avail s1 = rl_unread b @ avail s \<and> intr s1 \<le> intr s \<and> errs s1 \<subseteq> errs s"
proof (cases "rl_len b \<le> int (rl_next b)")
  case False
  with assms show ?thesis
    by (auto simp: rl_fill_def rl_unread_def rl_inv_def)
next
  case True
  with assms obtain bs where rd: "rd RL_MAX_BUF s = (Inr bs, s1)" and bs: "bs \<noteq> []"
    and b1: "b1 = b\<lparr>rl_buf := bs @ drop (length bs) (rl_buf b), rl_len := int (length bs), rl_next := 0\<rparr>"
    by (auto simp: rl_fill_def split: prod.splits sum.splits if_splits)
  with rd_data [OF rd] rd_intr_le [OF rd] rd_errs_le [OF rd] True show ?thesis
    by (auto simp: rl_inv_def rl_unread_def)
qed

lemma rl_fill_Inl:
  assumes "rl_fill rd acc b s = Inl (r, b1, s1)"
  shows "case r of Inr l \<Rightarrow> l = acc \<and> rl_unread b @ avail s = [] \<and> rl_unread b1 @ avail s1 = []
      | Inl e \<Rightarrow> rl_unread b = [] \<and> rl_unread b1 = [] \<and> avail s1 = avail s \<and> blames s e"
    and "rl_inv b \<Longrightarrow> rl_inv b1"
proof -
  from assms have len: "rl_len b \<le> int (rl_next b)"
    by (auto simp: rl_fill_def split: if_splits)
  obtain q s2 where rd: "rd RL_MAX_BUF s = (q, s2)" by fastforce
  show "case r of Inr l \<Rightarrow> l = acc \<and> rl_unread b @ avail s = [] \<and> rl_unread b1 @ avail s1 = []
      | Inl e \<Rightarrow> rl_unread b = [] \<and> rl_unread b1 = [] \<and> avail s1 = avail s \<and> blames s e"
  proof (cases q)
    case (Inl e)
    have "blames s e" using rd Inl rd_eintr [of RL_MAX_BUF s s2] rd_errs [of RL_MAX_BUF s e s2] by (cases "e = EINTR") (auto simp: blames_def)
    with rd assms len Inl rd_err [of RL_MAX_BUF s e s2] show ?thesis
      by (auto simp: rl_fill_def rl_unread_def)
  next
    case (Inr bs)
    with rd assms len have "bs = []" by (auto simp: rl_fill_def split: if_splits)
    with Inr rd have *: "rd RL_MAX_BUF s = (Inr [], s2)" by simp
    from rd_eof [OF *] rd_data [OF *] * assms len show ?thesis
      by (auto simp: rl_fill_def rl_unread_def const_defs)
  qed
  show "rl_inv b \<Longrightarrow> rl_inv b1"
    using assms len by (auto simp: rl_fill_def rl_inv_def split: prod.splits sum.splits if_splits)
qed

lemma readLineBuf_loop_spec:
  "rl_inv b \<Longrightarrow> length acc \<le> n \<Longrightarrow>
   \<exists>r b' s'. readLineBuf_loop rd n acc b s = Some (r, b', s') \<and> rl_inv b' \<and>
     (case r of Inr l \<Rightarrow> l = acc @ take (n - length acc) (line_of (rl_unread b @ avail s)) \<and>
                         rl_unread b' @ avail s' = rest_of (rl_unread b @ avail s)
      | Inl e \<Rightarrow> rl_unread b' = [] \<and> blames s e \<and> (\<exists>l. rl_unread b @ avail s = l @ avail s' \<and> NL \<notin> set l))"
proof (induction "length (rl_unread b @ avail s)" arbitrary: acc b s rule: less_induct)
  case less
  show ?case
  proof (cases "rl_fill rd acc b s")
    case (Inl q)
    obtain r b1 s1 where q: "q = (r, b1, s1)" by (cases q) auto
    with Inl have *: "rl_fill rd acc b s = Inl (r, b1, s1)" by simp
    have "case r of Inr l \<Rightarrow> l = acc @ take (n - length acc) (line_of (rl_unread b @ avail s)) \<and>
                         rl_unread b1 @ avail s1 = rest_of (rl_unread b @ avail s)
      | Inl e \<Rightarrow> rl_unread b1 = [] \<and> blames s e \<and> (\<exists>l. rl_unread b @ avail s = l @ avail s1 \<and> NL \<notin> set l)"
      using rl_fill_Inl(1) [OF *] by (cases r) (auto intro: exI [of _ "[]"])
    with * rl_fill_Inl(2) [OF *] less.prems(1) show ?thesis
      by (subst readLineBuf_loop.simps) simp
  next
    case (Inr q)
    obtain b1 s1 where q: "q = (b1, s1)" by (cases q) auto
    with Inr have *: "rl_fill rd acc b s = Inr (b1, s1)" by simp
    from rl_fill_Inr [OF * less.prems(1)] have inv1: "rl_inv b1" and ne: "rl_unread b1 \<noteq> []"
      and eq: "rl_unread b1 @ avail s1 = rl_unread b @ avail s" and err: "\<And>e. blames s1 e \<Longrightarrow> blames s e"
      by (auto simp: blames_def)
    let ?c = "rl_buf b1 ! rl_next b1" and ?b2 = "b1\<lparr>rl_next := rl_next b1 + 1\<rparr>"
    let ?acc = "if length acc < n then acc @ [?c] else acc"
    note un = rl_unread_next [OF inv1 ne]
    have inv2: "rl_inv ?b2" using inv1 by (simp add: rl_inv_def)
    let ?q = "rl_unread ?b2 @ avail s1"
    have pend: "rl_unread b @ avail s = ?c # ?q" using eq un by simp
    show ?thesis
    proof (cases "?c = NL")
      case True
      with * inv2 pend less.prems(2) show ?thesis
        by (subst readLineBuf_loop.simps) (auto simp: Let_def take_Cons')
    next
      case False
      have "length ?acc \<le> n" using less.prems(2) by auto
      from less.hyps [OF _ inv2 this, of s1] pend obtain r' b' s' where
        r': "readLineBuf_loop rd n ?acc ?b2 s1 = Some (r', b', s')" "rl_inv b'"
          "case r' of Inr l \<Rightarrow> l = ?acc @ take (n - length ?acc) (line_of ?q) \<and>
                         rl_unread b' @ avail s' = rest_of ?q
           | Inl e \<Rightarrow> rl_unread b' = [] \<and> blames s1 e \<and> (\<exists>l. ?q = l @ avail s' \<and> NL \<notin> set l)"
        by fastforce
      have run: "readLineBuf_loop rd n acc b s = Some (r', b', s')"
        using * False r'(1) by (subst readLineBuf_loop.simps) (simp add: Let_def)
      have "?acc @ take (n - length ?acc) (line_of ?q) =
          acc @ take (n - length acc) (line_of (?c # ?q))"
        using False less.prems(2) by (auto simp: take_Cons' Suc_diff_Suc)
      then have "case r' of Inr l \<Rightarrow> l = acc @ take (n - length acc) (line_of (?c # ?q)) \<and>
                         rl_unread b' @ avail s' = rest_of (?c # ?q)
           | Inl e \<Rightarrow> rl_unread b' = [] \<and> blames s e \<and> (\<exists>l. ?c # ?q = l @ avail s' \<and> NL \<notin> set l)"
        using r'(3) False err by (cases r') (auto intro: exI [of _ "?c # _"])
      then show ?thesis unfolding pend using run r'(2) by blast
    qed
  qed
qed

end

text \<open>\<open>wrote s\<close>: the bytes the descriptor has accepted so far.\<close>

locale writer =
  fixes wr :: "'s write_call"
    and wrote :: "'s \<Rightarrow> string"
    and intr :: "'s \<Rightarrow> nat"
  assumes wr_data: "wr bs s = (Inr k, s') \<Longrightarrow> k \<le> length bs \<and> wrote s' = wrote s @ take k bs"
    and wr_err: "wr bs s = (Inl e, s') \<Longrightarrow> wrote s' = wrote s"
    and wr_eintr: "wr bs s = (Inl EINTR, s') \<Longrightarrow> intr s' < intr s"
    and wr_intr_le: "wr bs s = (Inr k, s') \<Longrightarrow> intr s' \<le> intr s"
begin

lemma writen_loop_spec:
  "tot \<le> length buf \<Longrightarrow> \<exists>r s'. writen_loop wr buf tot s = Some (r, s') \<and>
     (case r of Inr k \<Rightarrow> k = length buf \<and> wrote s' = wrote s @ drop tot buf
      | Inl e \<Rightarrow> e \<noteq> EINTR \<and> (\<exists>k. wrote s' = wrote s @ take k (drop tot buf)))"
proof (induction "intr s + (length buf - tot)" arbitrary: tot s rule: less_induct)
  case less
  show ?case
  proof (cases "tot < length buf")
    case False
    with less.prems show ?thesis by (subst writen_loop.simps) auto
  next
    case True
    obtain r s1 where wr: "wr (drop tot buf) s = (r, s1)" by fastforce
    show ?thesis
    proof (cases r)
      case (Inl e)
      note e = wr_err [of "drop tot buf" s e s1]
      show ?thesis
      proof (cases "e = EINTR")
        case True
        with wr Inl have *: "wr (drop tot buf) s = (Inl EINTR, s1)" by simp
        with wr_eintr [OF *] less.hyps [of s1 tot, unfolded wr_err [OF *]] less.prems
          \<open>tot < length buf\<close> show ?thesis
          by (subst writen_loop.simps) simp
      next
        case False
        with wr Inl e True show ?thesis
          by (subst writen_loop.simps) (auto intro!: exI [of _ 0])
      qed
    next
      case (Inr k)
      with wr have *: "wr (drop tot buf) s = (Inr k, s1)" by simp
      from wr_data [OF *] have k: "k \<le> length buf - tot"
        and w: "wrote s1 = wrote s @ take k (drop tot buf)" by auto
      show ?thesis
      proof (cases "k = 0")
        case True
        with * w \<open>tot < length buf\<close> show ?thesis
          by (subst writen_loop.simps) (auto simp: const_defs intro!: exI [of _ 0])
      next
        case False
        have le: "tot + k \<le> length buf" using k True by simp
        with False k True wr_intr_le [OF *] less.hyps [of s1 "tot + k"] obtain r' s2 where
          r': "writen_loop wr buf (tot + k) s1 = Some (r', s2)"
            "case r' of Inr j \<Rightarrow> j = length buf \<and> wrote s2 = wrote s1 @ drop (tot + k) buf
             | Inl e \<Rightarrow> e \<noteq> EINTR \<and> (\<exists>j. wrote s2 = wrote s1 @ take j (drop (tot + k) buf))"
          by fastforce
        have run: "writen_loop wr buf tot s = Some (r', s2)"
          using * False True r'(1) by (subst writen_loop.simps) simp
        have "drop tot buf = take k (drop tot buf) @ drop (tot + k) buf"
          by (metis add.commute append_take_drop_id drop_drop)
        moreover have "take k (drop tot buf) @ take j (drop (tot + k) buf) = take (k + j) (drop tot buf)" for j
          by (simp only: take_add drop_drop add.commute [of k tot])
        ultimately show ?thesis using run r'(2) w by (cases r') auto
      qed
    qed
  qed
qed

end

section \<open>Descriptors\<close>

text \<open>A connected stream: the bytes still to be delivered, the bytes accepted for output, and a
  schedule for the coming transfers. A \<open>Short k\<close> entry limits one transfer, \<open>Intr\<close> interrupts
  one, \<open>Fail e\<close> fails one; past the end of the schedule transfers are complete.\<close>

datatype xfer = Short nat | Intr | Fail int

record stream =
  d_in :: string
  d_out :: string
  d_sched :: "xfer list"

definition stream_errs :: "stream \<Rightarrow> int set" where
  "stream_errs d = {e. Fail e \<in> set (d_sched d)}"

definition sys_read :: "stream read_call" where
  "sys_read n d =
     (case d_sched d of
        [] \<Rightarrow> (Inr (take n (d_in d)), d\<lparr>d_in := drop n (d_in d)\<rparr>)
      | Short k # sc \<Rightarrow>
          (let m = min n (max 1 k)
           in (Inr (take m (d_in d)), d\<lparr>d_in := drop m (d_in d), d_sched := sc\<rparr>))
      | Intr # sc \<Rightarrow> (Inl EINTR, d\<lparr>d_sched := sc\<rparr>)
      | Fail e # sc \<Rightarrow> (Inl e, d\<lparr>d_sched := sc\<rparr>))"

definition sys_write :: "stream write_call" where
  "sys_write bs d =
     (case d_sched d of
        [] \<Rightarrow> (Inr (length bs), d\<lparr>d_out := d_out d @ bs\<rparr>)
      | Short k # sc \<Rightarrow>
          (let m = min (length bs) (max 1 k)
           in (Inr m, d\<lparr>d_out := d_out d @ take m bs, d_sched := sc\<rparr>))
      | Intr # sc \<Rightarrow> (Inl EINTR, d\<lparr>d_sched := sc\<rparr>)
      | Fail e # sc \<Rightarrow> (Inl e, d\<lparr>d_sched := sc\<rparr>))"

text \<open>The number of interruptions to come.\<close>

definition stream_intr :: "stream \<Rightarrow> nat" where
  "stream_intr d = length (filter (\<lambda>x. x = Intr \<or> x = Fail EINTR) (d_sched d))"

interpretation sr: reader sys_read d_in stream_intr stream_errs
proof (unfold_locales, goal_cases)
  case (2 n s s') then show ?case
    by (auto simp: sys_read_def Let_def split: list.splits xfer.splits)
qed (auto simp: sys_read_def stream_errs_def stream_intr_def Let_def split: list.splits xfer.splits)

interpretation sw: writer sys_write d_out "\<lambda>d. length (d_sched d)"
  by unfold_locales (auto simp: sys_write_def Let_def split: list.splits xfer.splits)

section \<open>Properties\<close>

text \<open>\<open>readn\<close> always returns. Over any schedule of short reads and interrupts it returns
  exactly the first \<open>n\<close> bytes of the input (all of it when less is left) and leaves the
  rest; it fails only with an error, other than \<^verbatim>\<open>EINTR\<close>, that a \<^verbatim>\<open>read\<close> reported.\<close>

theorem readn_reads_block:
  "\<exists>r d'. readn sys_read n d = Some (r, d') \<and>
     (case r of Inr bs \<Rightarrow> bs = take n (d_in d) \<and> d_in d' = drop n (d_in d)
      | Inl e \<Rightarrow> e \<noteq> EINTR \<and> Fail e \<in> set (d_sched d))"
  using sr.readn_loop_spec [of "[]" n d] by (auto simp: readn_def stream_errs_def split: sum.splits)

text \<open>\<open>writen\<close> always returns. When it reports success every byte of the buffer was sent,
  in order and once; when it fails, a prefix was sent and the error is not \<^verbatim>\<open>EINTR\<close>.\<close>

theorem writen_writes_all:
  "\<exists>r d'. writen sys_write buf d = Some (r, d') \<and>
     (case r of Inr k \<Rightarrow> k = length buf \<and> d_out d' = d_out d @ buf
      | Inl e \<Rightarrow> e \<noteq> EINTR \<and> (\<exists>k. d_out d' = d_out d @ take k buf))"
  using sw.writen_loop_spec [of 0 buf d] by (auto simp: writen_def split: sum.splits)

text \<open>\<open>readLine\<close> always returns. For a buffer of \<open>n\<close> bytes it returns the first line of the
  input, newline included, cut to \<open>n - 1\<close> characters; the whole line is consumed even when
  it is cut, so the next call starts at the next line. A zero-length buffer is \<^verbatim>\<open>EINVAL\<close> and
  reads nothing.\<close>

theorem readLine_reads_line:
  "\<exists>r d'. readLine sys_read buffer_null n d = Some (r, d') \<and>
     (if n = 0 \<or> buffer_null then r = Inl EINVAL \<and> d' = d
      else case r of Inr l \<Rightarrow> l = take (n - 1) (line_of (d_in d)) \<and> d_in d' = rest_of (d_in d)
        | Inl e \<Rightarrow> e \<noteq> EINTR \<and> Fail e \<in> set (d_sched d))"
proof (cases "n = 0 \<or> buffer_null")
  case True
  then show ?thesis by (auto simp: readLine_def)
next
  case False
  then have "length ([] :: string) \<le> n - 1" and "0 < n" by auto
  from sr.readLine_loop_spec [OF this, of d] obtain r d' where
    "readLine_loop sys_read n [] d = Some (r, d')"
    "case r of Inr l \<Rightarrow> l = [] @ take (n - 1 - length ([] :: string)) (line_of (d_in d)) \<and> d_in d' = rest_of (d_in d)
     | Inl e \<Rightarrow> e \<noteq> EINTR \<and> e \<in> stream_errs d" by blast
  with False show ?thesis by (cases r) (auto simp: readLine_def stream_errs_def)
qed

text \<open>C3. The buffered reader delivers the same lines: starting with any unread bytes in its
  array, \<open>readLineBuf\<close> returns the first line of (unread bytes, then descriptor), cut to
  \<open>n\<close> characters, and keeps exactly the rest; its array index stays within the array. Unlike
  \<open>readLine\<close> it also returns on \<^verbatim>\<open>EINTR\<close>. It fails only with an error that a \<^verbatim>\<open>read\<close> of the schedule
  reports, and then exactly the part of this line already taken is lost: nothing beyond the line.\<close>

theorem readLineBuf_reads_line:
  assumes "rl_inv b"
  shows "\<exists>r b' d'. readLineBuf sys_read buffer_null n b d = Some (r, b', d') \<and> rl_inv b' \<and>
     (if n = 0 \<or> buffer_null then r = Inl EINVAL \<and> b' = b \<and> d' = d
      else case r of
          Inr l \<Rightarrow> l = take n (line_of (rl_unread b @ d_in d)) \<and>
            rl_unread b' @ d_in d' = rest_of (rl_unread b @ d_in d)
        | Inl e \<Rightarrow> (Fail e \<in> set (d_sched d) \<or> e = EINTR \<and> Intr \<in> set (d_sched d)) \<and>
            rl_unread b' = [] \<and> (\<exists>l. rl_unread b @ d_in d = l @ d_in d' \<and> NL \<notin> set l))"
proof (cases "n = 0 \<or> buffer_null")
  case True
  with assms show ?thesis by (auto simp: readLineBuf_def)
next
  case False
  have "length ([] :: string) \<le> n" by simp
  from sr.readLineBuf_loop_spec [OF assms this, of d] obtain r b' d' where
    "readLineBuf_loop sys_read n [] b d = Some (r, b', d')" "rl_inv b'"
    "case r of Inr l \<Rightarrow> l = [] @ take (n - length ([] :: string)) (line_of (rl_unread b @ d_in d)) \<and>
        rl_unread b' @ d_in d' = rest_of (rl_unread b @ d_in d)
     | Inl e \<Rightarrow> rl_unread b' = [] \<and> sr.blames d e \<and> (\<exists>l. rl_unread b @ d_in d = l @ d_in d' \<and> NL \<notin> set l)" by blast
  moreover have "sr.blames d e \<Longrightarrow> Fail e \<in> set (d_sched d) \<or> e = EINTR \<and> Intr \<in> set (d_sched d)" for e
    by (auto simp: sr.blames_def stream_intr_def stream_errs_def filter_empty_conv)
  ultimately show ?thesis using False by (cases r) (auto simp: readLineBuf_def)
qed

theorem readLineBuf_reads_line_witness:
  "\<exists>b' d'. readLineBuf sys_read False 80 (readLineBufInit []) \<lparr>d_in = ''ab'' @ [NL] @ ''c'',
      d_out = [], d_sched = [Short 1]\<rparr> = Some (Inr (''ab'' @ [NL]), b', d') \<and> rl_unread b' @ d_in d' = ''c''"
proof -
  let ?d = "\<lparr>d_in = ''ab'' @ [NL] @ ''c'', d_out = [], d_sched = [Short 1]\<rparr>"
  obtain r b' d' where "readLineBuf sys_read False 80 (readLineBufInit []) ?d = Some (r, b', d')"
    "case r of Inr l \<Rightarrow> l = ''ab'' @ [NL] \<and> rl_unread b' @ d_in d' = ''c'' | Inl e \<Rightarrow> False"
    using readLineBuf_reads_line [of "readLineBufInit []" False 80 ?d] by (auto simp: NL_def cong: sum.case_cong)
  then show ?thesis by (cases r) auto
qed

end
