(* ===== verification/Inotify_Cache.thy ===== *)
theory Inotify_Cache
  imports Error_Functions
begin

text \<open>
  \<^verbatim>\<open>tlpi-book/inotify/inotify_dtree.c\<close>, first part: the global state of the directory-tree
  monitor, its logging, and the watch list cache, a growing array of (watch descriptor,
  pathname) slots searched linearly.

  The state record holds the program's globals; \<open>kern\<close> is the state of everything outside the
  program (file system, inotify instance, terminal). The system and library calls that depend
  on it are an argument of the definitions, a record of functions of type \<open>'k inotify_os\<close>.
  A C result of -1 for "no slot" is \<open>None\<close>.
\<close>

section \<open>Constants and flags\<close>

definition NAME_MAX :: nat where [const_defs]: "NAME_MAX = 255"
definition VB_BASIC :: int where [const_defs]: "VB_BASIC = 1"
definition VB_NOISY :: int where [const_defs]: "VB_NOISY = 2"
definition ALLOC_INCR :: nat where [const_defs]: "ALLOC_INCR = 200"

text \<open>\<^verbatim>\<open>struct inotify_event\<close> has a 16-byte header.\<close>

definition EV_HDR :: nat where [const_defs]: "EV_HDR = 16"
definition INOTIFY_READ_BUF_LEN :: nat where
  [const_defs]: "INOTIFY_READ_BUF_LEN = 100 * (EV_HDR + NAME_MAX + 1)"

section \<open>State\<close>

record watch =
  wd :: int
  path :: string

record statbuf =
  st_isdir :: bool
  st_ino :: nat
  st_dev :: nat

record 'k ist = proc_io +
  verboseMask :: int
  checkCache :: bool
  dumpCache :: bool
  readBufferSize :: int
  stopFile :: "string option"
  abortOnCacheProblem :: bool
  logfp :: "string option"
  inotifyReadCnt :: int
  wlCache :: "watch list"
  rootDirPaths :: "string option list"
  ignoreRootDirs :: nat
  rootDirStat :: "statbuf list"
  dirCnt :: nat
  ifd :: int
  reinitCnt :: nat
  overflowCnt :: nat
  inotifyFd :: int
  kern :: 'k

text \<open>The calls that reach outside the program. \<open>os_nftw\<close> gives the entries \<^verbatim>\<open>nftw\<close> visits in
  order (pathname, whether it is a directory) and the error if the walk fails; \<open>os_fmt_ptr\<close> is
  what \<^verbatim>\<open>%p\<close> prints for the address of a string; \<open>os_realloc\<close>
  gives what the newly allocated slots happen to contain, or \<open>None\<close> when it fails.\<close>

record 'k inotify_os =
  os_strerror :: "int \<Rightarrow> string"
  os_fmt_ptr :: "string \<Rightarrow> string"
  os_lstat :: "string \<Rightarrow> 'k \<Rightarrow> (int + statbuf) \<times> 'k"
  os_init :: "'k \<Rightarrow> (int + int) \<times> 'k"
  os_add_watch :: "int \<Rightarrow> string \<Rightarrow> 32 word \<Rightarrow> 'k \<Rightarrow> (int + int) \<times> 'k"
  os_rm_watch :: "int \<Rightarrow> int \<Rightarrow> 'k \<Rightarrow> (int + unit) \<times> 'k"
  os_close :: "int \<Rightarrow> 'k \<Rightarrow> 'k"
  os_nftw :: "string \<Rightarrow> 'k \<Rightarrow> ((string \<times> bool) list \<times> int option) \<times> 'k"
  os_read :: "int \<Rightarrow> nat \<Rightarrow> 'k \<Rightarrow> (int + string) \<times> 'k"
  os_realloc :: "nat \<Rightarrow> 'k \<Rightarrow> (nat \<Rightarrow> watch) option \<times> 'k"
  os_alloc :: "nat \<Rightarrow> 'k \<Rightarrow> bool \<times> 'k"
  os_fopen :: "string \<Rightarrow> 'k \<Rightarrow> (int + unit) \<times> 'k"
  os_fwrite :: "string \<Rightarrow> string \<Rightarrow> 'k \<Rightarrow> 'k"
  os_creat :: "string \<Rightarrow> 'k \<Rightarrow> 'k"
  os_sigaction :: "'k \<Rightarrow> (int + unit) \<times> 'k"
  os_ualarm :: "nat \<Rightarrow> 'k \<Rightarrow> 'k"
  os_select :: "int \<Rightarrow> 'k \<Rightarrow> (int + (bool \<times> bool)) \<times> 'k"

text \<open>A call that may fail sets \<^verbatim>\<open>errno\<close> when it does.\<close>

definition os_call :: "('k \<Rightarrow> (int + 'a) \<times> 'k) \<Rightarrow> ('k ist, int + 'a) prog" where
  "os_call f s = (case f (kern s) of
      (Inl e, k) \<Rightarrow> (Inr (Inl e), s\<lparr>kern := k, errno := e\<rparr>)
    | (Inr x, k) \<Rightarrow> (Inr (Inr x), s\<lparr>kern := k\<rparr>))"

definition os_plain :: "('k \<Rightarrow> 'a \<times> 'k) \<Rightarrow> ('k ist, 'a) prog" where
  "os_plain f s = (case f (kern s) of (x, k) \<Rightarrow> (Inr x, s\<lparr>kern := k\<rparr>))"

definition os_eff :: "('k \<Rightarrow> 'k) \<Rightarrow> ('k ist, unit) prog" where
  "os_eff f s = (Inr (), s\<lparr>kern := f (kern s)\<rparr>)"

section \<open>Output and logging\<close>

definition err_put :: "string \<Rightarrow> ('k ist, unit) prog" where
  "err_put t = modify (fputs_stderr t)"

definition out_put :: "string \<Rightarrow> ('k ist, unit) prog" where
  "out_put t = modify (printf_stdout t)"

text \<open>\<^verbatim>\<open>errExit(msg)\<close> of this file: \<^verbatim>\<open>perror(msg); exit(EXIT_FAILURE)\<close>.\<close>

definition perrorExit :: "'k inotify_os \<Rightarrow> string \<Rightarrow> ('k ist, 'a) prog" where
  "perrorExit K msg =
     bnd (gets errno) (\<lambda>e.
     bnd (err_put (msg @ '': '' @ os_strerror K e @ [NL])) (\<lambda>_.
     exit3 EXIT_FAILURE))"

definition logMessage :: "int \<Rightarrow> string \<Rightarrow> ('k ist, unit) prog" where
  "logMessage vb_mask msg =
     andthen
       (bnd (gets verboseMask) (\<lambda>vm.
          whenM (vb_mask = 0 \<or> vb_mask AND vm \<noteq> 0) (err_put msg)))
       (modify (\<lambda>s. case logfp s of None \<Rightarrow> s
                     | Some l \<Rightarrow> stdio_noise (s\<lparr>logfp := Some (l @ msg)\<rparr>)))"

text \<open>\<^verbatim>\<open>fprintf(logfp, ...)\<close> with no log file open is undefined behaviour.\<close>

definition log_fprintf :: "string \<Rightarrow> ('k ist, unit) prog" where
  "log_fprintf msg =
     bnd (gets logfp) (\<lambda>l. case l of None \<Rightarrow> stop Undef
       | Some t \<Rightarrow> modify (\<lambda>s. stdio_noise (s\<lparr>logfp := Some (t @ msg)\<rparr>)))"

definition dumpCacheToLog :: "('k ist, unit) prog" where
  "dumpCacheToLog =
     bnd (gets wlCache) (\<lambda>c.
       let used = filter (\<lambda>j. wd (c ! j) \<ge> 0) [0..<length c] in
       andthen
         (forM used (\<lambda>j. log_fprintf (show_nat j @ '': wd = '' @ show_int (wd (c ! j)) @ ''; '' @
            path (c ! j) @ [NL])))
         (log_fprintf (''Total entries: '' @ show_nat (length used) @ [NL])))"

definition createStopFileAndAbort :: "'k inotify_os \<Rightarrow> ('k ist, 'a) prog" where
  "createStopFileAndAbort K =
     bnd (gets stopFile) (\<lambda>f. case f of None \<Rightarrow> stop Undef | Some n \<Rightarrow>
     bnd (os_eff (os_creat K n)) (\<lambda>_.
     bnd dumpCacheToLog (\<lambda>_.
     stop Abort)))"

section \<open>The watch list cache\<close>

definition freeCache :: "('k ist, unit) prog" where
  "freeCache = modify (\<lambda>s. s\<lparr>wlCache := []\<rparr>)"

text \<open>The loop of \<^verbatim>\<open>checkCacheConsistency\<close> over the slots in use; it counts failures.\<close>

primrec check_slots ::
  "'k inotify_os \<Rightarrow> watch list \<Rightarrow> nat list \<Rightarrow> nat \<Rightarrow> ('k ist, nat) prog" where
  "check_slots K c [] failures = ret failures"
| "check_slots K c (j # js) failures =
     (if wd (c ! j) \<ge> 0 then
        bnd (os_call (os_lstat K (path (c ! j)))) (\<lambda>r. case r of
            Inl e \<Rightarrow> andthen (logMessage 0 (''checkCacheConsistency: stat: [slot = '' @
                show_nat j @ ''; wd = '' @ show_int (wd (c ! j)) @ ''] '' @ path (c ! j) @
                '': '' @ os_strerror K e @ [NL]))
              (check_slots K c js (failures + 1))
          | Inr sb \<Rightarrow>
              if \<not> st_isdir sb then
                andthen (logMessage 0 (''checkCacheConsistency: '' @ path (c ! j) @
                  '' is not a directory'' @ [NL])) (exit3 EXIT_FAILURE)
              else check_slots K c js failures)
      else check_slots K c js failures)"

definition checkCacheConsistency :: "'k inotify_os \<Rightarrow> ('k ist, unit) prog" where
  "checkCacheConsistency K =
     bnd (gets wlCache) (\<lambda>c.
     bnd (check_slots K c [0..<length c] 0) (\<lambda>failures.
     whenM (failures > 0) (logMessage VB_NOISY (''checkCacheConsistency: '' @
       show_nat failures @ '' failures'' @ [NL]))))"

definition findWatch :: "int \<Rightarrow> watch list \<Rightarrow> nat option" where
  "findWatch d c = find_index (\<lambda>w. wd w = d) c"

definition findWatchChecked :: "'k inotify_os \<Rightarrow> int \<Rightarrow> ('k ist, nat option) prog" where
  "findWatchChecked K d =
     bnd (gets (\<lambda>s. findWatch d (wlCache s))) (\<lambda>slot. case slot of
         Some j \<Rightarrow> ret (Some j)
       | None \<Rightarrow>
         bnd (logMessage 0 (''Could not find watch '' @ show_int d @ [NL])) (\<lambda>_.
         bnd (gets abortOnCacheProblem) (\<lambda>a.
           if a then createStopFileAndAbort K else ret None)))"

definition empty_slot :: watch where
  "empty_slot = \<lparr>wd = - 1, path = []\<rparr>"

definition set_slot :: "nat \<Rightarrow> watch \<Rightarrow> ('k ist, unit) prog" where
  "set_slot j w = modify (\<lambda>s. s\<lparr>wlCache := (wlCache s)[j := w]\<rparr>)"

definition markCacheSlotEmpty :: "nat \<Rightarrow> ('k ist, unit) prog" where
  "markCacheSlotEmpty slot =
     bnd (gets (\<lambda>s. wlCache s ! slot)) (\<lambda>w.
     bnd (logMessage VB_NOISY (''        markCacheSlotEmpty: slot = '' @ show_nat slot @
       '';  wd = '' @ show_int (wd w) @ ''; path = '' @ path w @ [NL])) (\<lambda>_.
     set_slot slot empty_slot))"

text \<open>When \<^verbatim>\<open>realloc\<close> fails its null result has already replaced the pointer to the array (\<open>[]\<close>), and \<^verbatim>\<open>cacheSize\<close> has been raised;
  the process exits without using either again.\<close>

definition findEmptyCacheSlot :: "'k inotify_os \<Rightarrow> ('k ist, nat) prog" where
  "findEmptyCacheSlot K =
     bnd (gets wlCache) (\<lambda>c. case findWatch (- 1) c of
         Some j \<Rightarrow> ret j
       | None \<Rightarrow>
         bnd (os_plain (os_realloc K (length c + ALLOC_INCR))) (\<lambda>r. case r of
             None \<Rightarrow> bnd (modify (\<lambda>s. s\<lparr>wlCache := [], errno := ENOMEM\<rparr>)) (\<lambda>_. perrorExit K ''realloc'')
           | Some junk \<Rightarrow>
             bnd (modify (\<lambda>s. s\<lparr>wlCache := c @ map junk [0..<ALLOC_INCR]\<rparr>)) (\<lambda>_.
             bnd (forM [length c..<length c + ALLOC_INCR] markCacheSlotEmpty) (\<lambda>_.
             ret (length c)))))"

definition addWatchToCache :: "'k inotify_os \<Rightarrow> int \<Rightarrow> string \<Rightarrow> ('k ist, nat) prog" where
  "addWatchToCache K d pathname =
     bnd (findEmptyCacheSlot K) (\<lambda>slot.
     bnd (set_slot slot \<lparr>wd = d, path = strncpy PATH_MAX pathname\<rparr>) (\<lambda>_.
     ret slot))"

definition pathnameToCacheSlot :: "string \<Rightarrow> watch list \<Rightarrow> nat option" where
  "pathnameToCacheSlot pathname c = find_index (\<lambda>w. wd w \<ge> 0 \<and> path w = pathname) c"

definition pathnameInCache :: "string \<Rightarrow> watch list \<Rightarrow> bool" where
  "pathnameInCache pathname c = (pathnameToCacheSlot pathname c \<noteq> None)"

section \<open>What output leaves alone\<close>

lemma stdio_frame [simp]:
  "wlCache (stdio_noise s) = wlCache s" "kern (stdio_noise s) = kern s"
  "rootDirPaths (stdio_noise s) = rootDirPaths s" "ignoreRootDirs (stdio_noise s) = ignoreRootDirs s"
  "dirCnt (stdio_noise s) = dirCnt s" "ifd (stdio_noise s) = ifd s"
  "inotifyFd (stdio_noise s) = inotifyFd s" "abortOnCacheProblem (stdio_noise s) = abortOnCacheProblem s"
  "checkCache (stdio_noise s) = checkCache s" "dumpCache (stdio_noise s) = dumpCache s"
  "stopFile (stdio_noise s) = stopFile s" "readBufferSize (stdio_noise s) = readBufferSize s"
  by (auto simp: stdio_noise_def split: option.splits)

text \<open>The part of the state that output calls and \<^verbatim>\<open>errno\<close> do not touch.\<close>

definition core :: "'k ist \<Rightarrow> watch list \<times> 'k \<times> string option list \<times> nat \<times> nat \<times> int \<times> int" where
  "core s = (wlCache s, kern s, rootDirPaths s, ignoreRootDirs s, dirCnt s, ifd s, inotifyFd s)"

definition flags :: "'k ist \<Rightarrow> bool \<times> bool \<times> bool \<times> string option \<times> int" where
  "flags s = (abortOnCacheProblem s, checkCache s, dumpCache s, stopFile s, readBufferSize s)"

lemma logMessage_ok: "fst (logMessage m t s) = Inr ()"
  by (simp add: logMessage_def whenM_def err_put_def andthen_apply bnd_apply)

lemma logMessage_core [simp]: "core (snd (logMessage m t s)) = core s"
  by (simp add: logMessage_def whenM_def err_put_def andthen_apply bnd_apply core_def
      fputs_stderr_def split: option.splits)

lemma logMessage_flags [simp]: "flags (snd (logMessage m t s)) = flags s"
  by (simp add: logMessage_def whenM_def err_put_def andthen_apply bnd_apply flags_def
      fputs_stderr_def split: option.splits)

definition logged :: "int \<Rightarrow> string \<Rightarrow> 'k ist \<Rightarrow> 'k ist" where
  "logged m t s = snd (logMessage m t s)"

lemma logMessage_eq: "logMessage m t s = (Inr (), logged m t s)"
  using logMessage_ok [of m t s] by (simp add: logged_def prod_eq_iff)

lemma logged_core: "core (logged m t s) = core s" "flags (logged m t s) = flags s"
  by (simp_all add: logged_def)

lemma logged_sel [simp]:
  "wlCache (logged m t s) = wlCache s" "kern (logged m t s) = kern s"
  "rootDirPaths (logged m t s) = rootDirPaths s" "ignoreRootDirs (logged m t s) = ignoreRootDirs s"
  "dirCnt (logged m t s) = dirCnt s" "ifd (logged m t s) = ifd s"
  "inotifyFd (logged m t s) = inotifyFd s" "abortOnCacheProblem (logged m t s) = abortOnCacheProblem s"
  "checkCache (logged m t s) = checkCache s" "dumpCache (logged m t s) = dumpCache s"
  using logged_core [of m t s] by (simp_all add: core_def flags_def)

lemma bnd_logMessage [simp]: "bnd (logMessage m t) f s = f () (logged m t s)"
  by (simp add: bnd_def logMessage_eq)

lemma andthen_logMessage [simp]: "andthen (logMessage m t) k s = k (logged m t s)"
  by (simp add: andthen_def)

section \<open>Pure counterparts of the cache operations\<close>

definition cache_grow :: "watch list \<Rightarrow> watch list" where
  "cache_grow c = (if findWatch (- 1) c = None then c @ replicate ALLOC_INCR empty_slot else c)"

definition free_slot :: "watch list \<Rightarrow> nat" where
  "free_slot c = (case findWatch (- 1) c of None \<Rightarrow> length c | Some j \<Rightarrow> j)"

definition cache_put :: "int \<Rightarrow> string \<Rightarrow> watch list \<Rightarrow> watch list" where
  "cache_put d p c = (cache_grow c)[free_slot c := \<lparr>wd = d, path = p\<rparr>]"

definition cache_clear :: "int \<Rightarrow> watch list \<Rightarrow> watch list" where
  "cache_clear d c = (case findWatch d c of None \<Rightarrow> c | Some j \<Rightarrow> c[j := empty_slot])"

definition cache_map :: "watch list \<Rightarrow> int \<rightharpoonup> string" where
  "cache_map c d = (if d < 0 then None else map_option (\<lambda>j. path (c ! j)) (findWatch d c))"

text \<open>Every slot is free (-1, with an empty path) or holds a nonnegative descriptor, and no
  descriptor occurs twice.\<close>

definition wf_cache :: "watch list \<Rightarrow> bool" where
  "wf_cache c \<longleftrightarrow>
     (\<forall>j < length c. wd (c ! j) \<ge> - 1 \<and> (wd (c ! j) = - 1 \<longrightarrow> path (c ! j) = [])) \<and>
     (\<forall>i < length c. \<forall>j < length c. wd (c ! i) \<ge> 0 \<longrightarrow> wd (c ! i) = wd (c ! j) \<longrightarrow> i = j)"

lemma wf_cacheD:
  assumes "wf_cache c"
  shows "j < length c \<Longrightarrow> wd (c ! j) \<ge> - 1"
    and "j < length c \<Longrightarrow> wd (c ! j) = - 1 \<Longrightarrow> path (c ! j) = []"
    and "i < length c \<Longrightarrow> j < length c \<Longrightarrow> wd (c ! i) \<ge> 0 \<Longrightarrow> wd (c ! i) = wd (c ! j) \<Longrightarrow> i = j"
  using assms by (auto simp: wf_cache_def)

lemma wf_cache_Nil [simp]: "wf_cache []"
  by (simp add: wf_cache_def)

lemma findWatch_SomeD: "findWatch d c = Some j \<Longrightarrow> j < length c \<and> wd (c ! j) = d"
  by (simp add: findWatch_def find_index_Some)

lemma findWatch_None: "findWatch d c = None \<longleftrightarrow> (\<forall>j < length c. wd (c ! j) \<noteq> d)"
  by (auto simp: findWatch_def all_set_conv_all_nth)

lemma findWatch_eq:
  assumes "wf_cache c" "j < length c" "wd (c ! j) = d" "d \<ge> 0"
  shows "findWatch d c = Some j"
proof (cases "findWatch d c")
  case None
  with assms show ?thesis by (auto simp: findWatch_None)
next
  case (Some i)
  with findWatch_SomeD [OF Some] wf_cacheD(3) [OF assms(1), of i j] assms show ?thesis by simp
qed

lemma cache_map_Some:
  assumes "wf_cache c"
  shows "cache_map c d = Some p \<longleftrightarrow> d \<ge> 0 \<and> (\<exists>j < length c. wd (c ! j) = d \<and> path (c ! j) = p)"
proof
  assume "cache_map c d = Some p"
  then show "d \<ge> 0 \<and> (\<exists>j < length c. wd (c ! j) = d \<and> path (c ! j) = p)"
    by (auto simp: cache_map_def dest!: findWatch_SomeD split: if_splits)
next
  assume "d \<ge> 0 \<and> (\<exists>j < length c. wd (c ! j) = d \<and> path (c ! j) = p)"
  then obtain j where "d \<ge> 0" "j < length c" "wd (c ! j) = d" "path (c ! j) = p" by blast
  with findWatch_eq [OF assms] show "cache_map c d = Some p" by (simp add: cache_map_def)
qed

lemma cache_map_None:
  "wf_cache c \<Longrightarrow> d \<ge> 0 \<Longrightarrow> cache_map c d = None \<longleftrightarrow> findWatch d c = None"
  by (simp add: cache_map_def)

lemma cache_map_eqI:
  assumes "wf_cache c" and "\<And>d p. d \<ge> 0 \<Longrightarrow> (\<exists>j < length c. wd (c ! j) = d \<and> path (c ! j) = p) \<longleftrightarrow> m d = Some p"
    and "\<And>d. d < 0 \<Longrightarrow> m d = None"
  shows "cache_map c = m"
proof
  fix d
  show "cache_map c d = m d"
  proof (cases "d \<ge> 0")
    case True
    then show ?thesis
      using cache_map_Some [OF assms(1)] assms(2) by (metis not_Some_eq)
  next
    case False
    with assms(3) show ?thesis by (simp add: cache_map_def)
  qed
qed

lemma empty_slot_sel [simp]: "wd empty_slot = - 1" "path empty_slot = []"
  by (simp_all add: empty_slot_def)

subsection \<open>Growing, storing, clearing\<close>

lemma cache_grow_nth:
  "j < length (cache_grow c) \<Longrightarrow>
   cache_grow c ! j = (if j < length c then c ! j else empty_slot)"
  by (auto simp: cache_grow_def nth_append)

lemma length_cache_grow: "length c \<le> length (cache_grow c)"
  by (simp add: cache_grow_def)

lemma free_slot_bound: "free_slot c < length (cache_grow c)"
  by (auto simp: free_slot_def cache_grow_def const_defs dest: findWatch_SomeD split: option.splits)

lemma free_slot_free: "wd (cache_grow c ! free_slot c) = - 1"
  by (auto simp: free_slot_def cache_grow_def nth_append const_defs dest: findWatch_SomeD
      split: option.splits)

lemma wf_cache_grow: "wf_cache c \<Longrightarrow> wf_cache (cache_grow c)"
  unfolding wf_cache_def by (auto simp: cache_grow_nth)

lemma cache_map_grow: "wf_cache c \<Longrightarrow> cache_map (cache_grow c) = cache_map c"
proof (rule cache_map_eqI)
  assume wf: "wf_cache c"
  then show "wf_cache (cache_grow c)" by (rule wf_cache_grow)
  show "cache_map c d = None" if "d < 0" for d using that by (simp add: cache_map_def)
  show "(\<exists>j < length (cache_grow c). wd (cache_grow c ! j) = d \<and> path (cache_grow c ! j) = p) \<longleftrightarrow>
      cache_map c d = Some p" if "d \<ge> 0" for d p
  proof
    assume "\<exists>j < length (cache_grow c). wd (cache_grow c ! j) = d \<and> path (cache_grow c ! j) = p"
    then show "cache_map c d = Some p"
      using that by (auto simp: cache_map_Some [OF wf] cache_grow_nth split: if_splits)
  next
    assume "cache_map c d = Some p"
    then obtain j where "j < length c" "wd (c ! j) = d" "path (c ! j) = p"
      by (auto simp: cache_map_Some [OF wf])
    with length_cache_grow [of c]
    show "\<exists>j < length (cache_grow c). wd (cache_grow c ! j) = d \<and> path (cache_grow c ! j) = p"
      by (intro exI [of _ j]) (simp add: cache_grow_nth)
  qed
qed

lemma wf_cache_update:
  assumes "wf_cache c" "j < length c" "d \<ge> 0" "\<forall>i < length c. i \<noteq> j \<longrightarrow> wd (c ! i) \<noteq> d"
  shows "wf_cache (c[j := \<lparr>wd = d, path = p\<rparr>])"
  using assms by (auto simp: wf_cache_def nth_list_update)

lemma cache_map_update:
  assumes "wf_cache c" "j < length c" "wd (c ! j) = - 1 \<or> wd (c ! j) = d" "d \<ge> 0"
    "\<forall>i < length c. i \<noteq> j \<longrightarrow> wd (c ! i) \<noteq> d"
  shows "cache_map (c[j := \<lparr>wd = d, path = p\<rparr>]) = (cache_map c)(d \<mapsto> p)"
proof (rule cache_map_eqI)
  show "wf_cache (c[j := \<lparr>wd = d, path = p\<rparr>])" using assms by (simp add: wf_cache_update)
  show "((cache_map c)(d \<mapsto> p)) e = None" if "e < 0" for e
    using that assms(4) by (simp add: cache_map_def)
  show "(\<exists>i < length (c[j := \<lparr>wd = d, path = p\<rparr>]). wd (c[j := \<lparr>wd = d, path = p\<rparr>] ! i) = e \<and>
      path (c[j := \<lparr>wd = d, path = p\<rparr>] ! i) = q) \<longleftrightarrow> ((cache_map c)(d \<mapsto> p)) e = Some q" if "e \<ge> 0" for e q
    using that assms
    by (subst ex_list_update [OF assms(2), where P = "\<lambda>w. wd w = e \<and> path w = q"])
      (auto simp: cache_map_Some [OF assms(1)])
qed

lemma wf_cache_clear: "wf_cache c \<Longrightarrow> wf_cache (c[j := empty_slot])"
  by (cases "j < length c") (auto simp: wf_cache_def nth_list_update list_update_beyond)

lemma cache_map_clear_slot:
  assumes "wf_cache c" "j < length c"
  shows "cache_map (c[j := empty_slot]) = (cache_map c)(wd (c ! j) := None)"
proof (rule cache_map_eqI)
  show "wf_cache (c[j := empty_slot])" by (rule wf_cache_clear [OF assms(1)])
  show "((cache_map c)(wd (c ! j) := None)) e = None" if "e < 0" for e
    using that by (simp add: cache_map_def)
  show "(\<exists>i < length (c[j := empty_slot]). wd (c[j := empty_slot] ! i) = e \<and>
      path (c[j := empty_slot] ! i) = q) \<longleftrightarrow> ((cache_map c)(wd (c ! j) := None)) e = Some q" if "e \<ge> 0" for e q
    using that wf_cacheD(3) [OF assms(1) assms(2), of _] wf_cacheD(3) [OF assms(1) _ assms(2)]
    by (subst ex_list_update [OF assms(2), where P = "\<lambda>w. wd w = e \<and> path w = q"])
      (auto simp: cache_map_Some [OF assms(1)])
qed

lemma wf_cache_put:
  assumes "wf_cache c" "d \<ge> 0" "cache_map c d = None"
  shows "wf_cache (cache_put d p c)"
proof -
  have "findWatch d (cache_grow c) = None"
    using assms cache_map_grow [OF assms(1)] cache_map_None [OF wf_cache_grow [OF assms(1)] assms(2)]
    by simp
  then show ?thesis
    unfolding cache_put_def using assms wf_cache_grow [OF assms(1)] free_slot_bound
    by (intro wf_cache_update) (auto simp: findWatch_None)
qed

lemma cache_map_put:
  assumes "wf_cache c" "d \<ge> 0" "cache_map c d = None"
  shows "cache_map (cache_put d p c) = (cache_map c)(d \<mapsto> p)"
proof -
  have "findWatch d (cache_grow c) = None"
    using assms cache_map_grow [OF assms(1)] cache_map_None [OF wf_cache_grow [OF assms(1)] assms(2)]
    by simp
  then have "cache_map (cache_put d p c) = (cache_map (cache_grow c))(d \<mapsto> p)"
    unfolding cache_put_def
    using assms wf_cache_grow [OF assms(1)] free_slot_bound free_slot_free
    by (intro cache_map_update) (auto simp: findWatch_None)
  then show ?thesis by (simp add: cache_map_grow [OF assms(1)])
qed

lemma cache_map_clear:
  assumes "wf_cache c" "d \<ge> 0"
  shows "cache_map (cache_clear d c) = (cache_map c)(d := None)"
proof (cases "findWatch d c")
  case None
  with assms have "cache_map c d = None" by (simp add: cache_map_None)
  with None show ?thesis by (simp add: cache_clear_def fun_upd_idem)
next
  case (Some j)
  with findWatch_SomeD [OF Some] assms show ?thesis
    by (auto simp: cache_clear_def cache_map_clear_slot)
qed

text \<open>The number of slots in use.\<close>

definition used_slots :: "watch list \<Rightarrow> nat" where
  "used_slots c = length (filter (\<lambda>w. wd w \<ge> 0) c)"

lemma used_slots_put: "d \<ge> 0 \<Longrightarrow> used_slots (cache_put d p c) = Suc (used_slots c)"
proof -
  assume "d \<ge> 0"
  then have "used_slots (cache_put d p c) = Suc (used_slots (cache_grow c))"
    unfolding used_slots_def cache_put_def
    by (intro length_filter_update) (simp_all add: free_slot_bound free_slot_free)
  then show ?thesis by (simp add: used_slots_def cache_grow_def)
qed

subsection \<open>Slot-wise maps\<close>

lemma findWatch_map: "(\<And>w. wd (f w) = wd w) \<Longrightarrow> findWatch d (map f c) = findWatch d c"
  unfolding findWatch_def by (induction c) simp_all

lemma cache_map_paths:
  assumes "\<And>w. wd (f w) = wd w" "\<And>w. path (f w) = g (path w)"
  shows "cache_map (map f c) d = map_option g (cache_map c d)"
  using assms by (cases "findWatch d c") (auto simp: cache_map_def findWatch_map dest: findWatch_SomeD)

lemma wf_cache_paths:
  assumes "wf_cache c" "\<And>w. wd (f w) = wd w" "\<And>w. path (f w) = g (path w)" "g [] = []"
  shows "wf_cache (map f c)"
  using assms by (auto simp: wf_cache_def)

lemma wf_cache_clears:
  assumes "wf_cache c"
  shows "wf_cache (map (\<lambda>w. if Z w then empty_slot else w) c)"
  using assms by (auto simp: wf_cache_def)

lemma cache_map_clears:
  assumes "wf_cache c"
  shows "cache_map (map (\<lambda>w. if wd w \<ge> 0 \<and> Z (path w) then empty_slot else w) c) d =
    (case cache_map c d of None \<Rightarrow> None | Some p \<Rightarrow> if Z p then None else Some p)"
proof -
  let ?f = "\<lambda>w. if wd w \<ge> 0 \<and> Z (path w) then empty_slot else w"
  have "cache_map (map ?f c) = (\<lambda>d. case cache_map c d of None \<Rightarrow> None | Some p \<Rightarrow> if Z p then None else Some p)"
  proof (rule cache_map_eqI)
    show "wf_cache (map ?f c)" by (rule wf_cache_clears [OF assms])
    show "(case cache_map c d of None \<Rightarrow> None | Some p \<Rightarrow> if Z p then None else Some p) = None" if "d < 0" for d
      using that by (simp add: cache_map_def)
    show "(\<exists>j < length (map ?f c). wd (map ?f c ! j) = d \<and> path (map ?f c ! j) = p) \<longleftrightarrow>
        (case cache_map c d of None \<Rightarrow> None | Some q \<Rightarrow> if Z q then None else Some q) = Some p"
      if "d \<ge> 0" for d p
    proof -
      have "(case cache_map c d of None \<Rightarrow> None | Some q \<Rightarrow> if Z q then None else Some q) = Some p \<longleftrightarrow>
          cache_map c d = Some p \<and> \<not> Z p"
        by (auto split: option.splits)
      also have "\<dots> \<longleftrightarrow> (\<exists>j < length c. wd (c ! j) = d \<and> path (c ! j) = p \<and> \<not> Z p)"
        using that by (auto simp: cache_map_Some [OF assms])
      also have "\<dots> \<longleftrightarrow> (\<exists>j < length (map ?f c). wd (map ?f c ! j) = d \<and> path (map ?f c ! j) = p)"
      proof -
        have "wd (c ! j) = d \<and> path (c ! j) = p \<and> \<not> Z p \<longleftrightarrow> wd (?f (c ! j)) = d \<and> path (?f (c ! j)) = p" for j
          using that by (cases "wd (c ! j) \<ge> 0 \<and> Z (path (c ! j))") (auto simp: empty_slot_def)
        note eq = this
        show ?thesis by (rule iff_exI, rule conj_cong) (simp_all only: length_map nth_map eq)
      qed
      finally show ?thesis by simp
    qed
  qed
  then show ?thesis by simp
qed

section \<open>The operations implement their pure counterparts\<close>

text \<open>The part of the state the cache operations leave alone.\<close>

definition rest :: "'k ist \<Rightarrow> string option list \<times> nat \<times> nat \<times> int \<times> int \<times> (bool \<times> bool \<times> bool \<times> string option \<times> int)"
where "rest s = (rootDirPaths s, ignoreRootDirs s, dirCnt s, ifd s, inotifyFd s, flags s)"

lemma rest_logged [simp]: "rest (logged m t s) = rest s"
  using logged_core [of m t s] by (simp add: rest_def core_def)

lemma rest_upd [simp]:
  "rest (s\<lparr>wlCache := c\<rparr>) = rest s" "rest (s\<lparr>kern := k\<rparr>) = rest s" "rest (s\<lparr>errno := e\<rparr>) = rest s"
  by (simp_all add: rest_def flags_def)

lemma set_slot_eq [simp]: "set_slot j w s = (Inr (), s\<lparr>wlCache := (wlCache s)[j := w]\<rparr>)"
  by (simp add: set_slot_def)

lemma markCacheSlotEmpty_eq:
  "\<exists>s'. markCacheSlotEmpty j s = (Inr (), s') \<and> wlCache s' = (wlCache s)[j := empty_slot] \<and>
     kern s' = kern s \<and> rest s' = rest s"
  by (simp add: markCacheSlotEmpty_def)

lemma forM_markCacheSlotEmpty:
  "\<exists>s'. forM js markCacheSlotEmpty s = (Inr (), s') \<and>
     wlCache s' = fold (\<lambda>j c. c[j := empty_slot]) js (wlCache s) \<and> kern s' = kern s \<and> rest s' = rest s"
proof (induction js arbitrary: s)
  case Nil
  then show ?case by simp
next
  case (Cons j js)
  from markCacheSlotEmpty_eq obtain s1 where s1: "markCacheSlotEmpty j s = (Inr (), s1)"
    "wlCache s1 = (wlCache s)[j := empty_slot]" "kern s1 = kern s" "rest s1 = rest s" by blast
  from Cons.IH [of s1] s1 show ?case by (auto simp: andthen_apply)
qed

lemma fold_clear_tail:
  "fold (\<lambda>j c. c[j := empty_slot]) [length c..<length c + length xs] (c @ xs) =
     c @ replicate (length xs) empty_slot"
  using fold_update_map_tail [of "\<lambda>_. empty_slot" c xs] by (simp add: map_replicate_const)

definition perror_final :: "'k inotify_os \<Rightarrow> string \<Rightarrow> 'k ist \<Rightarrow> 'k ist" where
  "perror_final K m s = fflush_stdout (fputs_stderr (m @ '': '' @ os_strerror K (errno s) @ [NL]) s)"

lemma perrorExit_eq [simp]: "perrorExit K m s = (Inl (Exit EXIT_FAILURE), perror_final K m s)"
  by (simp add: perrorExit_def err_put_def bnd_apply exit3_def perror_final_def)

lemma fflush_frame [simp]:
  "wlCache (fflush_stdout s) = wlCache s" "kern (fflush_stdout s) = kern s"
  "rest (fflush_stdout s) = rest s" "inotifyFd (fflush_stdout s) = inotifyFd s"
  "rootDirPaths (fflush_stdout s) = rootDirPaths s" "ignoreRootDirs (fflush_stdout s) = ignoreRootDirs s"
  by (simp_all add: fflush_stdout_def rest_def flags_def)

lemma fputs_frame [simp]:
  "wlCache (fputs_stderr t s) = wlCache s" "kern (fputs_stderr t s) = kern s"
  "rest (fputs_stderr t s) = rest s" "inotifyFd (fputs_stderr t s) = inotifyFd s"
  "rootDirPaths (fputs_stderr t s) = rootDirPaths s" "ignoreRootDirs (fputs_stderr t s) = ignoreRootDirs s"
  by (simp_all add: fputs_stderr_def rest_def flags_def)

lemma printf_frame [simp]:
  "wlCache (printf_stdout t s) = wlCache s" "kern (printf_stdout t s) = kern s"
  "rest (printf_stdout t s) = rest s" "inotifyFd (printf_stdout t s) = inotifyFd s"
  "rootDirPaths (printf_stdout t s) = rootDirPaths s" "ignoreRootDirs (printf_stdout t s) = ignoreRootDirs s"
  by (simp_all add: printf_stdout_def rest_def flags_def)

lemma perror_final_frame [simp]:
  "wlCache (perror_final K m s) = wlCache s" "rest (perror_final K m s) = rest s"
  "rootDirPaths (perror_final K m s) = rootDirPaths s"
  "ignoreRootDirs (perror_final K m s) = ignoreRootDirs s"
  by (simp_all add: perror_final_def)

text \<open>All slots are in use and there is no memory for more.\<close>

definition no_memory :: "'k inotify_os \<Rightarrow> 'k ist \<Rightarrow> bool" where
  "no_memory K s \<longleftrightarrow> (\<forall>w \<in> set (wlCache s). wd w \<noteq> - 1) \<and> fst (os_realloc K (length (wlCache s) + 200) (kern s)) = None"

lemma no_memory_iff:
  "no_memory K s \<longleftrightarrow> findWatch (- 1) (wlCache s) = None \<and> fst (os_realloc K (length (wlCache s) + ALLOC_INCR) (kern s)) = None"
  by (auto simp: no_memory_def findWatch_None ALLOC_INCR_def all_set_conv_all_nth)

lemma findEmptyCacheSlot_cases:
  obtains (found) s' where "findEmptyCacheSlot K s = (Inr (free_slot (wlCache s)), s')"
      "wlCache s' = cache_grow (wlCache s)" "rest s' = rest s" "\<not> no_memory K s"
  | (nomem) s' where "findEmptyCacheSlot K s = (Inl (Exit EXIT_FAILURE), s')"
      "wlCache s' = []" "rest s' = rest s" "no_memory K s"
proof (cases "findWatch (- 1) (wlCache s)")
  case (Some j)
  then show ?thesis
    by (intro found) (auto simp: findEmptyCacheSlot_def free_slot_def cache_grow_def no_memory_iff)
next
  case None
  obtain r k where rk: "os_realloc K (length (wlCache s) + ALLOC_INCR) (kern s) = (r, k)" by fastforce
  show ?thesis
  proof (cases r)
    case None
    let ?s' = "perror_final K ''realloc'' (s\<lparr>kern := k, wlCache := [], errno := ENOMEM\<rparr>)"
    from rk None \<open>findWatch (- 1) (wlCache s) = None\<close>
    have "findEmptyCacheSlot K s = (Inl (Exit EXIT_FAILURE), ?s')"
      by (simp add: findEmptyCacheSlot_def os_plain_def bnd_apply)
    moreover have "no_memory K s" using rk None \<open>findWatch (- 1) (wlCache s) = None\<close> by (simp add: no_memory_iff)
    ultimately show ?thesis using nomem [of ?s'] by simp
  next
    case (Some junk)
    let ?n = "length (wlCache s)" and ?xs = "map junk [0..<ALLOC_INCR]"
    obtain s2 where s2: "forM [?n..<?n + ALLOC_INCR] markCacheSlotEmpty
        (s\<lparr>kern := k, wlCache := wlCache s @ ?xs\<rparr>) = (Inr (), s2)"
      "wlCache s2 = fold (\<lambda>j c. c[j := empty_slot]) [?n..<?n + ALLOC_INCR] (wlCache s @ ?xs)"
      "rest s2 = rest s"
      using forM_markCacheSlotEmpty [of "[?n..<?n + ALLOC_INCR]" "s\<lparr>kern := k, wlCache := wlCache s @ ?xs\<rparr>"]
      by auto
    have "wlCache s2 = cache_grow (wlCache s)"
      using s2(2) None fold_clear_tail [of "wlCache s" ?xs] by (simp add: cache_grow_def)
    moreover have "findEmptyCacheSlot K s = (Inr (free_slot (wlCache s)), s2)"
      using rk Some None s2(1)
      by (simp add: findEmptyCacheSlot_def os_plain_def bnd_apply free_slot_def)
    moreover have "\<not> no_memory K s" using rk Some by (simp add: no_memory_iff)
    ultimately show ?thesis using s2(3) by (intro found)
  qed
qed

lemma addWatchToCache_cases:
  obtains (added) s' where "addWatchToCache K d p s = (Inr (free_slot (wlCache s)), s')"
      "wlCache s' = cache_put d (strncpy PATH_MAX p) (wlCache s)" "rest s' = rest s" "\<not> no_memory K s"
  | (nomem) s' where "addWatchToCache K d p s = (Inl (Exit EXIT_FAILURE), s')"
      "wlCache s' = []" "rest s' = rest s" "no_memory K s"
proof (cases rule: findEmptyCacheSlot_cases [of K s])
  case (found s1)
  let ?s2 = "s1\<lparr>wlCache := (wlCache s1)[free_slot (wlCache s) := \<lparr>wd = d, path = strncpy PATH_MAX p\<rparr>]\<rparr>"
  from found have "addWatchToCache K d p s = (Inr (free_slot (wlCache s)), ?s2)"
    by (simp add: addWatchToCache_def bnd_apply)
  with found show ?thesis by (intro added [of ?s2]) (simp_all add: cache_put_def)
next
  case (nomem s1)
  then show ?thesis
    by (intro that(2) [of s1]) (simp_all add: addWatchToCache_def bnd_apply)
qed

section \<open>The interface of a watch table\<close>

text \<open>What the tree monitor relies on: a finite map from watch descriptors to pathnames with a
  way to look a descriptor up, to record a new one and to forget one.\<close>

locale watch_table =
  fixes lookup :: "'c \<Rightarrow> int \<Rightarrow> string option"
    and put :: "int \<Rightarrow> string \<Rightarrow> 'c \<Rightarrow> 'c"
    and clear :: "int \<Rightarrow> 'c \<Rightarrow> 'c"
    and invar :: "'c \<Rightarrow> bool"
  assumes lookup_neg: "invar c \<Longrightarrow> d < 0 \<Longrightarrow> lookup c d = None"
    and lookup_put: "invar c \<Longrightarrow> d \<ge> 0 \<Longrightarrow> lookup c d = None \<Longrightarrow>
      lookup (put d p c) = (lookup c)(d \<mapsto> p)"
    and lookup_clear: "invar c \<Longrightarrow> d \<ge> 0 \<Longrightarrow> lookup (clear d c) = (lookup c)(d := None)"
    and invar_put: "invar c \<Longrightarrow> d \<ge> 0 \<Longrightarrow> lookup c d = None \<Longrightarrow> invar (put d p c)"
    and invar_clear: "invar c \<Longrightarrow> d \<ge> 0 \<Longrightarrow> invar (clear d c)"
begin

text \<open>Recording a sequence of watches the way a tree walk does: a descriptor that is already
  known is skipped.\<close>

primrec record_all :: "(int \<times> string) list \<Rightarrow> 'c \<Rightarrow> 'c" where
  "record_all [] c = c"
| "record_all (dp # dps) c =
     record_all dps (if lookup c (fst dp) = None then put (fst dp) (snd dp) c else c)"

lemma record_all_invar:
  "invar c \<Longrightarrow> \<forall>dp \<in> set dps. fst dp \<ge> 0 \<Longrightarrow> invar (record_all dps c)"
  by (induction dps arbitrary: c) (auto simp: invar_put)

lemma record_all_lookup:
  "invar c \<Longrightarrow> \<forall>dp \<in> set dps. fst dp \<ge> 0 \<Longrightarrow> lookup (record_all dps c) = map_of dps ++ lookup c"
proof (induction dps arbitrary: c)
  case Nil
  then show ?case by simp
next
  case (Cons dp dps)
  obtain d p where dp: "dp = (d, p)" by (cases dp)
  show ?case
  proof (cases "lookup c d")
    case None
    with Cons dp have "lookup (record_all (dp # dps) c) = map_of dps ++ (lookup c)(d \<mapsto> p)"
      by (simp add: invar_put lookup_put)
    also have "\<dots> = map_of (dp # dps) ++ lookup c"
      using None dp by (auto simp: fun_eq_iff map_add_def split: option.splits)
    finally show ?thesis .
  next
    case (Some q)
    with Cons dp show ?thesis
      by (auto simp: fun_eq_iff map_add_def split: option.splits)
  qed
qed

lemma put_clear:
  "invar c \<Longrightarrow> d \<ge> 0 \<Longrightarrow> lookup c d = None \<Longrightarrow> lookup (clear d (put d p c)) = lookup c"
  by (simp add: lookup_put lookup_clear invar_put fun_upd_idem)

end

interpretation wt: watch_table cache_map cache_put cache_clear wf_cache
proof (unfold_locales, goal_cases)
  case (1 c d) then show ?case by (simp add: cache_map_def)
next
  case (2 c d p) then show ?case by (rule cache_map_put)
next
  case (3 c d) then show ?case by (rule cache_map_clear)
next
  case (4 c d p) then show ?case by (rule wf_cache_put)
next
  case (5 c d) then show ?case
    by (auto simp: cache_clear_def wf_cache_clear split: option.splits)
qed

section \<open>Properties\<close>

text \<open>C28. Adding a watch to the cache: from a well-formed cache that does not hold the
  descriptor, \<open>addWatchToCache\<close> either stores exactly one new entry, leaving every other entry
  and the well-formedness intact (also when the array had to grow by 200 slots), or the
  process exits, which it does exactly when no slot is free and \<^verbatim>\<open>realloc\<close> fails; the pointer to the array is then null.\<close>

theorem addWatchToCache_refines_map:
  assumes "wf_cache (wlCache s)" "d \<ge> 0" "cache_map (wlCache s) d = None"
  shows "case addWatchToCache K d p s of
      (Inr slot, s') \<Rightarrow> wf_cache (wlCache s') \<and>
        cache_map (wlCache s') = (cache_map (wlCache s))(d \<mapsto> strncpy PATH_MAX p) \<and>
        findWatch d (wlCache s') = Some slot \<and> \<not> no_memory K s
    | (Inl h, s') \<Rightarrow> h = Exit EXIT_FAILURE \<and> wlCache s' = [] \<and> no_memory K s"
proof (cases rule: addWatchToCache_cases [of K d p s])
  case (added s')
  have "findWatch d (cache_put d (strncpy PATH_MAX p) (wlCache s)) = Some (free_slot (wlCache s))"
    using wt.invar_put [OF assms] free_slot_bound
    by (intro findWatch_eq) (auto simp: cache_put_def assms(2))
  with added assms show ?thesis by (simp add: wt.invar_put wt.lookup_put)
next
  case (nomem s')
  then show ?thesis by simp
qed

text \<open>A small kernel and process state for the concrete instances: descriptors are numbered from
  the kernel state, every pathname is a directory with one file and one subdirectory.\<close>

definition demo_os :: "nat inotify_os" where
  "demo_os = \<lparr>os_strerror = (\<lambda>e. ''error''), os_fmt_ptr = (\<lambda>p. ''0x1000''), os_lstat = (\<lambda>p k. (Inr \<lparr>st_isdir = True, st_ino = length p, st_dev = 1\<rparr>, k)),
     os_init = (\<lambda>k. (Inr 3, k)), os_add_watch = (\<lambda>fd p fl k. (Inr (int k), k + 1)),
     os_rm_watch = (\<lambda>fd d k. (Inr (), k)), os_close = (\<lambda>fd k. k),
     os_nftw = (\<lambda>p k. (([(p, True), (p @ ''/f'', False), (p @ ''/sub'', True)], None), k)),
     os_read = (\<lambda>fd n k. (Inr [], k)), os_realloc = (\<lambda>n k. (Some (\<lambda>_. \<lparr>wd = 7, path = ''junk''\<rparr>), k)),
     os_alloc = (\<lambda>n k. (True, k)), os_fopen = (\<lambda>p k. (Inr (), k)), os_fwrite = (\<lambda>f t k. k),
     os_creat = (\<lambda>p k. k), os_sigaction = (\<lambda>k. (Inr (), k)), os_ualarm = (\<lambda>n k. k),
     os_select = (\<lambda>fd k. (Inr (True, False), k))\<rparr>"

definition demo_ist :: "watch list \<Rightarrow> string option list \<Rightarrow> nat ist" where
  "demo_ist c roots = \<lparr>stdout_buf = [], stdout_out = [], stderr_out = [], errno = 0, ef_dumpcore = None,
     stdio_errno = None, verboseMask = 0, checkCache = False, dumpCache = False, readBufferSize = 0,
     stopFile = None, abortOnCacheProblem = False, logfp = None, inotifyReadCnt = 0, wlCache = c,
     rootDirPaths = roots, ignoreRootDirs = length (filter (\<lambda>r. r = None) roots), rootDirStat = [], dirCnt = 0, ifd = 3, reinitCnt = 0,
     overflowCnt = 0, inotifyFd = 3, kern = 5\<rparr>"

lemma demo_ist_sel [simp]:
  "wlCache (demo_ist c roots) = c" "rootDirPaths (demo_ist c roots) = roots"
  "ignoreRootDirs (demo_ist c roots) = length (filter (\<lambda>r. r = None) roots)"
  "kern (demo_ist c roots) = 5" "ifd (demo_ist c roots) = 3" "inotifyFd (demo_ist c roots) = 3"
  by (simp_all add: demo_ist_def)

theorem addWatchToCache_refines_map_witness:
  "wf_cache [\<lparr>wd = 4, path = ''/a''\<rparr>] \<and>
   (case addWatchToCache demo_os 6 ''/b'' (demo_ist [\<lparr>wd = 4, path = ''/a''\<rparr>] []) of
      (Inr slot, s') \<Rightarrow> wf_cache (wlCache s') \<and>
        cache_map (wlCache s') = (cache_map [\<lparr>wd = 4, path = ''/a''\<rparr>])(6 \<mapsto> strncpy PATH_MAX ''/b'') \<and>
        findWatch 6 (wlCache s') = Some slot
    | (Inl h, s') \<Rightarrow> False)"
proof -
  have "wf_cache [\<lparr>wd = 4, path = ''/a''\<rparr>]" by (simp add: wf_cache_def)
  moreover have "cache_map [\<lparr>wd = 4, path = ''/a''\<rparr>] 6 = None" by (simp add: cache_map_def findWatch_def)
  ultimately show ?thesis
    using addWatchToCache_refines_map [where s = "demo_ist [\<lparr>wd = 4, path = ''/a''\<rparr>] []" and d = 6
        and K = demo_os and p = "''/b''", unfolded demo_ist_sel]
    by (auto simp: no_memory_def demo_os_def split: prod.splits sum.splits)
qed

end
