(* ===== verification/Inotify_Tree.thy ===== *)
theory Inotify_Tree
  imports Inotify_Cache
begin

text \<open>
  \<^verbatim>\<open>tlpi-book/inotify/inotify_dtree.c\<close>, second part: the root directories given on the command
  line, the tree walk that creates watches, the renaming and removal of cached subtrees, and
  the rebuild of the cache.
\<close>

section \<open>Inotify event bits\<close>

definition IN_MOVED_FROM :: "32 word" where [const_defs]: "IN_MOVED_FROM = 0x40"
definition IN_MOVED_TO :: "32 word" where [const_defs]: "IN_MOVED_TO = 0x80"
definition IN_CREATE :: "32 word" where [const_defs]: "IN_CREATE = 0x100"
definition IN_DELETE_SELF :: "32 word" where [const_defs]: "IN_DELETE_SELF = 0x400"
definition IN_MOVE_SELF :: "32 word" where [const_defs]: "IN_MOVE_SELF = 0x800"
definition IN_UNMOUNT :: "32 word" where [const_defs]: "IN_UNMOUNT = 0x2000"
definition IN_Q_OVERFLOW :: "32 word" where [const_defs]: "IN_Q_OVERFLOW = 0x4000"
definition IN_IGNORED :: "32 word" where [const_defs]: "IN_IGNORED = 0x8000"
definition IN_ONLYDIR :: "32 word" where [const_defs]: "IN_ONLYDIR = 0x01000000"
definition IN_ISDIR :: "32 word" where [const_defs]: "IN_ISDIR = 0x40000000"

section \<open>Root directories\<close>

text \<open>The first loop of \<^verbatim>\<open>copyRootDirPaths\<close>: every argument must be a directory.\<close>

definition check_root :: "'k inotify_os \<Rightarrow> string \<Rightarrow> ('k ist, unit) prog" where
  "check_root K p =
     bnd (os_call (os_lstat K p)) (\<lambda>r. case r of
         Inl e \<Rightarrow> bnd (err_put (''lstat() failed on '' @ [CHR 39] @ p @ [CHR 39, NL])) (\<lambda>_.
                  exit3 EXIT_FAILURE)
       | Inr sb \<Rightarrow>
           if \<not> st_isdir sb
           then bnd (err_put ([CHR 39] @ p @ [CHR 39] @ '' is not a directory'' @ [NL])) (\<lambda>_.
                exit3 EXIT_FAILURE)
           else ret ())"

text \<open>One iteration of the second loop. \<open>stat_ok\<close>: the array of stat buffers was allocated (its
  allocation is not checked by the code, which tests the other pointer a second time).\<close>

definition copy_root ::
  "'k inotify_os \<Rightarrow> bool \<Rightarrow> string list \<Rightarrow> nat \<Rightarrow> ('k ist, unit) prog" where
  "copy_root K stat_ok argv j =
     (let p = argv ! j in
      bnd (os_plain (os_alloc K (length p + 1))) (\<lambda>ok.
      if \<not> ok then perrorExit K ''strdup'' else
      bnd (modify (\<lambda>s. s\<lparr>rootDirPaths := (rootDirPaths s)[j := Some p]\<rparr>)) (\<lambda>_.
      if \<not> stat_ok then stop Undef else
      bnd (os_call (os_lstat K p)) (\<lambda>r. case r of
          Inl e \<Rightarrow> perrorExit K ''lstat''
        | Inr sb \<Rightarrow>
          bnd (gets rootDirStat) (\<lambda>stats.
          case find_index (\<lambda>sk. st_ino sb = st_ino sk \<and> st_dev sb = st_dev sk) stats of
            Some k \<Rightarrow> bnd (err_put (''Duplicate filesystem objects: '' @ p @ '', '' @ argv ! k @ [NL])) (\<lambda>_.
                      exit3 EXIT_FAILURE)
          | None \<Rightarrow> modify (\<lambda>s. s\<lparr>rootDirStat := stats @ [sb]\<rparr>))))))"

definition copyRootDirPaths :: "'k inotify_os \<Rightarrow> string list \<Rightarrow> ('k ist, unit) prog" where
  "copyRootDirPaths K argv =
     bnd (forM argv (check_root K)) (\<lambda>_.
     bnd (os_plain (os_alloc K (8 * length argv))) (\<lambda>ok1.
     if \<not> ok1 then perrorExit K ''calloc'' else
     bnd (modify (\<lambda>s. s\<lparr>rootDirPaths := replicate (length argv) None, rootDirStat := []\<rparr>)) (\<lambda>_.
     bnd (os_plain (os_alloc K (144 * length argv))) (\<lambda>ok2.
     bnd (forM [0..<length argv] (copy_root K ok2 argv)) (\<lambda>_.
     modify (\<lambda>s. s\<lparr>ignoreRootDirs := 0\<rparr>))))))"

definition findRootDirPath :: "string \<Rightarrow> string option list \<Rightarrow> nat option" where
  "findRootDirPath p roots = find_index (\<lambda>r. r = Some p) roots"

definition isRootDirPath :: "string \<Rightarrow> string option list \<Rightarrow> bool" where
  "isRootDirPath p roots = (findRootDirPath p roots \<noteq> None)"

definition zapRootDirPath :: "string \<Rightarrow> ('k ist, unit) prog" where
  "zapRootDirPath p =
     bnd (out_put (''zapRootDirPath: '' @ p @ [NL])) (\<lambda>_.
     bnd (gets rootDirPaths) (\<lambda>roots.
     case findRootDirPath p roots of
       None \<Rightarrow> bnd (err_put (''zapRootDirPath(): path not found!'' @ [NL])) (\<lambda>_.
               exit3 EXIT_FAILURE)
     | Some j \<Rightarrow>
       bnd (modify (\<lambda>s. s\<lparr>rootDirPaths := roots[j := None], ignoreRootDirs := ignoreRootDirs s + 1\<rparr>)) (\<lambda>_.
       bnd (gets ignoreRootDirs) (\<lambda>n.
       if n = length roots
       then bnd (err_put (''No more root paths left to monitor; bye!'' @ [NL])) (\<lambda>_.
            exit3 EXIT_SUCCESS)
       else ret ()))))"

section \<open>Walking a tree\<close>

text \<open>The part of \<^verbatim>\<open>traverseTree\<close> from the \<^verbatim>\<open>inotify_add_watch\<close> call on.\<close>

definition add_dir_watch :: "'k inotify_os \<Rightarrow> int \<Rightarrow> string \<Rightarrow> 32 word \<Rightarrow> ('k ist, unit) prog" where
  "add_dir_watch K fd pathname fl =
     bnd (os_call (os_add_watch K fd pathname fl)) (\<lambda>r. case r of
         Inl e \<Rightarrow>
           bnd (logMessage VB_BASIC (''inotify_add_watch: '' @ pathname @ '': '' @
             os_strerror K e @ [NL])) (\<lambda>_.
           bnd (gets errno) (\<lambda>e'.
           if e' = ENOENT then ret () else exit3 EXIT_FAILURE))
       | Inr d \<Rightarrow>
           bnd (gets (\<lambda>s. findWatch d (wlCache s))) (\<lambda>known.
           if known \<noteq> None
           then logMessage VB_BASIC (''WD '' @ show_int d @ '' already in cache ('' @ pathname @
             '')'' @ [NL])
           else
             bnd (modify (\<lambda>s. s\<lparr>dirCnt := dirCnt s + 1\<rparr>)) (\<lambda>_.
             bnd (addWatchToCache K d pathname) (\<lambda>slot.
             logMessage VB_NOISY (''    watchDir: wd = '' @ show_int d @ '' [cache slot: '' @
               show_nat slot @ '']; '' @ pathname @ [NL])))))"

definition watch_flags :: "string \<Rightarrow> string option list \<Rightarrow> 32 word" where
  "watch_flags pathname roots =
     (let flags = IN_CREATE OR IN_MOVED_FROM OR IN_MOVED_TO OR IN_DELETE_SELF
      in (if isRootDirPath pathname roots then flags OR IN_MOVE_SELF else flags) OR IN_ONLYDIR)"

definition traverseTree :: "'k inotify_os \<Rightarrow> string \<times> bool \<Rightarrow> ('k ist, unit) prog" where
  "traverseTree K visit =
     (case visit of (pathname, is_dir) \<Rightarrow>
      if \<not> is_dir then ret () else
      bnd (gets ifd) (\<lambda>fd.
      bnd (gets rootDirPaths) (\<lambda>roots.
      add_dir_watch K fd pathname (watch_flags pathname roots))))"

definition watchDir :: "'k inotify_os \<Rightarrow> int \<Rightarrow> string \<Rightarrow> ('k ist, nat) prog" where
  "watchDir K fd pathname =
     bnd (modify (\<lambda>s. s\<lparr>dirCnt := 0, ifd := fd\<rparr>)) (\<lambda>_.
     bnd (os_plain (os_nftw K pathname)) (\<lambda>(visits, err).
     bnd (forM visits (traverseTree K)) (\<lambda>_.
     bnd (case err of None \<Rightarrow> ret ()
          | Some e \<Rightarrow> logMessage VB_BASIC (''nftw: '' @ pathname @ '': '' @ os_strerror K e @
              '' (directory probably deleted before we could watch)'' @ [NL])) (\<lambda>_.
     gets dirCnt))))"

definition watchSubtree :: "'k inotify_os \<Rightarrow> int \<Rightarrow> string \<Rightarrow> ('k ist, unit) prog" where
  "watchSubtree K fd p =
     bnd (watchDir K fd p) (\<lambda>cnt.
     logMessage VB_BASIC (''    watchSubtree: '' @ p @ '': '' @ show_nat cnt @ '' entries added'' @ [NL]))"

section \<open>Renaming and removing subtrees\<close>

text \<open>The test both loops make: \<open>p\<close> is \<open>pre\<close> or lies below it.\<close>

definition in_subtree :: "string \<Rightarrow> string \<Rightarrow> bool" where
  "in_subtree pre p \<longleftrightarrow> take (length pre) p = pre \<and>
     (length p = length pre \<or> p ! length pre = CHR ''/'')"

definition rewrite_slot :: "string \<Rightarrow> string \<Rightarrow> nat \<Rightarrow> ('k ist, unit) prog" where
  "rewrite_slot fullPath newPrefix j =
     bnd (gets (\<lambda>s. wlCache s ! j)) (\<lambda>w.
     if in_subtree fullPath (path w) then
       let text = newPrefix @ drop (length fullPath) (path w);
           newPath = snprintf PATH_MAX text
       in bnd (whenM (length text > PATH_MAX)
                (logMessage VB_BASIC (''Truncated pathname: '' @ newPath @ [NL]))) (\<lambda>_.
          bnd (set_slot j (w\<lparr>path := strncpy PATH_MAX newPath\<rparr>)) (\<lambda>_.
          logMessage VB_NOISY (''    wd '' @ show_int (wd w) @ '' [cache slot '' @ show_nat j @
            ''] ==> '' @ newPath @ [NL])))
     else ret ())"

definition rewriteCachedPaths ::
  "string \<Rightarrow> string \<Rightarrow> string \<Rightarrow> string \<Rightarrow> ('k ist, unit) prog" where
  "rewriteCachedPaths oldPathPrefix oldName newPathPrefix newName =
     (let fullPath = snprintf PATH_MAX (oldPathPrefix @ ''/'' @ oldName);
          newPrefix = snprintf PATH_MAX (newPathPrefix @ ''/'' @ newName)
      in bnd (logMessage VB_BASIC (''Rename: '' @ fullPath @ '' ==> '' @ newPrefix @ [NL])) (\<lambda>_.
         bnd (gets (\<lambda>s. length (wlCache s))) (\<lambda>n.
         forM [0..<n] (rewrite_slot fullPath newPrefix))))"

text \<open>The body of the loop of \<^verbatim>\<open>zapSubtree\<close> for a matching slot: \<open>False\<close> when the watch cannot be
  removed, which ends the loop with the result -1, here \<open>None\<close>. The copy of the pathname that
  the code makes first is the value passed (its \<^verbatim>\<open>strdup\<close> is taken to succeed).\<close>

definition zap_one :: "'k inotify_os \<Rightarrow> int \<Rightarrow> nat \<Rightarrow> watch \<Rightarrow> ('k ist, bool) prog" where
  "zap_one K fd j w =
     bnd (logMessage VB_NOISY (''    removing watch: wd = '' @ show_int (wd w) @ '' ('' @ path w @
       '')'' @ [NL])) (\<lambda>_.
     bnd (os_call (os_rm_watch K fd (wd w))) (\<lambda>r. case r of
         Inl e \<Rightarrow>
           bnd (logMessage 0 (''inotify_rm_watch wd = '' @ show_int (wd w) @ '' ('' @ path w @
             ''): '' @ os_strerror K e @ [NL])) (\<lambda>_. ret False)
       | Inr _ \<Rightarrow> bnd (markCacheSlotEmpty j) (\<lambda>_. ret True)))"

primrec zap_slots ::
  "'k inotify_os \<Rightarrow> int \<Rightarrow> string \<Rightarrow> nat list \<Rightarrow> nat \<Rightarrow> ('k ist, nat option) prog" where
  "zap_slots K fd pn [] cnt = ret (Some cnt)"
| "zap_slots K fd pn (j # js) cnt =
     bnd (gets (\<lambda>s. wlCache s ! j)) (\<lambda>w.
     if wd w \<ge> 0 \<and> in_subtree pn (path w) then
       bnd (zap_one K fd j w) (\<lambda>ok. if ok then zap_slots K fd pn js (cnt + 1) else ret None)
     else zap_slots K fd pn js cnt)"

definition zapSubtree :: "'k inotify_os \<Rightarrow> int \<Rightarrow> string \<Rightarrow> ('k ist, nat option) prog" where
  "zapSubtree K fd p =
     bnd (logMessage VB_NOISY (''Zapping subtree: '' @ p @ [NL])) (\<lambda>_.
     bnd (gets (\<lambda>s. length (wlCache s))) (\<lambda>n.
     zap_slots K fd p [0..<n] 0))"

section \<open>Rebuilding\<close>

definition reinitialize :: "'k inotify_os \<Rightarrow> int \<Rightarrow> ('k ist, int) prog" where
  "reinitialize K oldInotifyFd =
     bnd (if oldInotifyFd \<ge> 0 then
            bnd (os_eff (os_close K oldInotifyFd)) (\<lambda>_.
            bnd (modify (\<lambda>s. s\<lparr>reinitCnt := reinitCnt s + 1\<rparr>)) (\<lambda>_.
            bnd (gets reinitCnt) (\<lambda>n.
            logMessage 0 (''Reinitializing cache and inotify FD (reinitCnt = '' @ show_nat n @ '')'' @ [NL]))))
          else
            bnd (logMessage 0 (''Initializing cache'' @ [NL])) (\<lambda>_.
            modify (\<lambda>s. s\<lparr>reinitCnt := 0\<rparr>))) (\<lambda>_.
     bnd (os_call (os_init K)) (\<lambda>r. case r of
         Inl e \<Rightarrow> perrorExit K ''inotify_init''
       | Inr fd \<Rightarrow>
         bnd (logMessage VB_BASIC (''    new inotifyFd = '' @ show_int fd @ [NL])) (\<lambda>_.
         bnd freeCache (\<lambda>_.
         bnd (gets rootDirPaths) (\<lambda>roots.
         bnd (forM roots (\<lambda>r. case r of None \<Rightarrow> ret () | Some p \<Rightarrow> watchSubtree K fd p)) (\<lambda>_.
         bnd (gets (\<lambda>s. length (filter (\<lambda>w. wd w \<ge> 0) (wlCache s)))) (\<lambda>cnt.
         bnd (whenM (oldInotifyFd \<ge> 0)
            (logMessage 0 (''Rebuilt cache with '' @ show_nat cnt @ '' entries'' @ [NL]))) (\<lambda>_.
         ret fd))))))))"

section \<open>The invariant\<close>

text \<open>The cache is well formed and \<open>ignoreRootDirs\<close> counts the root pathnames given up.\<close>

definition tree_inv :: "'k ist \<Rightarrow> bool" where
  "tree_inv s \<longleftrightarrow> wf_cache (wlCache s) \<and>
     ignoreRootDirs s = length (filter (\<lambda>r. r = None) (rootDirPaths s))"

text \<open>Documented behaviour of \<^verbatim>\<open>inotify_add_watch(2)\<close>: a successful call returns a nonnegative
  watch descriptor.\<close>

definition os_wd_ok :: "'k inotify_os \<Rightarrow> bool" where
  "os_wd_ok K \<longleftrightarrow> (\<forall>fd p fl k d k'. os_add_watch K fd p fl k = (Inr d, k') \<longrightarrow> d \<ge> 0)"

lemma os_wd_okD: "os_wd_ok K \<Longrightarrow> os_add_watch K fd p fl k = (Inr d, k') \<Longrightarrow> d \<ge> 0"
  unfolding os_wd_ok_def by blast

lemma keeps_frame:
  "(\<And>s. wlCache (snd (m s)) = wlCache s \<and> rest (snd (m s)) = rest s) \<Longrightarrow> keeps tree_inv m"
  by (simp add: keeps_def tree_inv_def rest_def)

lemma keeps_gets_bnd: "(\<And>s. I s \<Longrightarrow> I (snd (f (g s) s))) \<Longrightarrow> keeps I (bnd (gets g) f)"
  by (simp add: keeps_def)

lemma os_call_frame [simp]:
  "wlCache (snd (os_call f s)) = wlCache s" "rest (snd (os_call f s)) = rest s"
  by (auto simp: os_call_def split: prod.splits sum.splits)

lemma os_plain_frame [simp]:
  "wlCache (snd (os_plain f s)) = wlCache s" "rest (snd (os_plain f s)) = rest s"
  by (auto simp: os_plain_def split: prod.splits)

lemma exit3_frame [simp]:
  "wlCache (snd (exit3 n s)) = wlCache s" "rest (snd (exit3 n s)) = rest s"
  by (simp_all add: exit3_def)

lemma keeps_calls [inv_intros]:
  "keeps tree_inv (logMessage m t)" "keeps tree_inv (err_put t)" "keeps tree_inv (out_put t)"
  "keeps tree_inv (os_call f)" "keeps tree_inv (os_plain g)" "keeps tree_inv (os_eff h)"
  "keeps tree_inv (exit3 n)" "keeps tree_inv (perrorExit K t)"
  by (rule keeps_frame; simp add: logMessage_eq err_put_def out_put_def os_eff_def)+

lemma keeps_log_fprintf [inv_intros]: "keeps tree_inv (log_fprintf t)"
  by (auto simp: log_fprintf_def rest_def flags_def split: option.splits
      intro!: keeps_bnd keeps_frame)

lemma keeps_dumpCacheToLog [inv_intros]: "keeps tree_inv dumpCacheToLog"
  by (auto simp: dumpCacheToLog_def Let_def intro!: inv_intros)

lemma keeps_createStopFileAndAbort [inv_intros]: "keeps tree_inv (createStopFileAndAbort K)"
  by (auto simp: createStopFileAndAbort_def split: option.splits intro!: inv_intros)

lemma keeps_findWatchChecked [inv_intros]: "keeps tree_inv (findWatchChecked K d)"
  by (auto simp: findWatchChecked_def split: option.splits intro!: inv_intros)

lemma keeps_check_slots [inv_intros]: "keeps tree_inv (check_slots K c js n)"
  by (induction js arbitrary: n) (auto split: sum.splits intro!: inv_intros)

lemma keeps_checkCacheConsistency [inv_intros]: "keeps tree_inv (checkCacheConsistency K)"
  by (auto simp: checkCacheConsistency_def intro!: inv_intros)

lemma keeps_freeCache [inv_intros]: "keeps tree_inv freeCache"
  by (auto simp: freeCache_def keeps_def tree_inv_def wf_cache_def)

lemma keeps_markCacheSlotEmpty [inv_intros]: "keeps tree_inv (markCacheSlotEmpty j)"
  unfolding keeps_def
proof (intro allI impI)
  fix s :: "'a ist"
  assume "tree_inv s"
  moreover from markCacheSlotEmpty_eq obtain s' where "markCacheSlotEmpty j s = (Inr (), s')"
    "wlCache s' = (wlCache s)[j := empty_slot]" "rest s' = rest s" by blast
  ultimately show "tree_inv (snd (markCacheSlotEmpty j s))"
    by (simp add: tree_inv_def wf_cache_clear rest_def)
qed

lemma tree_inv_addWatchToCache:
  assumes "tree_inv s" "d \<ge> 0" "findWatch d (wlCache s) = None"
  shows "tree_inv (snd (addWatchToCache K d p s))"
proof -
  have "cache_map (wlCache s) d = None" using assms by (simp add: cache_map_def)
  with assms show ?thesis
    by (cases rule: addWatchToCache_cases [of K d p s])
      (auto simp: tree_inv_def rest_def wt.invar_put)
qed

lemma count_None_update:
  assumes "j < length roots" "roots ! j = Some p"
  shows "length (filter (\<lambda>r. r = None) (roots[j := None])) = Suc (length (filter (\<lambda>r. r = None) roots))"
proof -
  from assms have roots: "roots = take j roots @ Some p # drop (Suc j) roots"
    by (metis id_take_nth_drop)
  have "roots[j := None] = take j roots @ None # drop (Suc j) roots"
    using assms(1) by (simp add: upd_conv_take_nth_drop)
  then show ?thesis by (subst (2) roots) simp
qed

lemma length_filter_all: "length (filter P xs) = length xs \<longleftrightarrow> (\<forall>x \<in> set xs. P x)"
  by (metis filter_True length_filter_less less_irrefl)

lemma keeps_zapRootDirPath [inv_intros]: "keeps tree_inv (zapRootDirPath p)"
proof -
  have "tree_inv (s\<lparr>rootDirPaths := (rootDirPaths s)[j := None], ignoreRootDirs := ignoreRootDirs s + 1\<rparr>)"
    if "tree_inv s" "findRootDirPath p (rootDirPaths s) = Some j" for s :: "'a ist" and j
    using that by (auto simp: tree_inv_def findRootDirPath_def find_index_Some count_None_update)
  note inv1 = this
  show ?thesis
    unfolding zapRootDirPath_def
  proof (intro keeps_bnd [OF keeps_calls(3)] keeps_gets_bnd)
    fix s :: "'a ist"
    assume inv: "tree_inv s"
    show "tree_inv (snd ((case findRootDirPath p (rootDirPaths s) of
       None \<Rightarrow> bnd (err_put (''zapRootDirPath(): path not found!'' @ [NL])) (\<lambda>_. exit3 EXIT_FAILURE)
     | Some j \<Rightarrow>
       bnd (modify (\<lambda>sa. sa\<lparr>rootDirPaths := (rootDirPaths s)[j := None], ignoreRootDirs := ignoreRootDirs sa + 1\<rparr>)) (\<lambda>_.
       bnd (gets ignoreRootDirs) (\<lambda>n.
       if n = length (rootDirPaths s)
       then bnd (err_put (''No more root paths left to monitor; bye!'' @ [NL])) (\<lambda>_. exit3 EXIT_SUCCESS)
       else ret ()))) s))"
    proof (cases "findRootDirPath p (rootDirPaths s)")
      case None
      have "keeps tree_inv (bnd (err_put (''zapRootDirPath(): path not found!'' @ [NL])) (\<lambda>_. exit3 EXIT_FAILURE) :: ('a ist, unit) prog)"
        by (intro inv_intros)
      from keepsD [OF this inv] None show ?thesis by simp
    next
      case (Some j)
      have "keeps tree_inv (bnd (gets ignoreRootDirs) (\<lambda>n. if n = length (rootDirPaths s)
        then bnd (err_put (''No more root paths left to monitor; bye!'' @ [NL])) (\<lambda>_. exit3 EXIT_SUCCESS)
        else ret ()) :: ('a ist, unit) prog)"
        by (intro inv_intros)
      from keepsD [OF this inv1 [OF inv Some]] Some show ?thesis by simp
    qed
  qed
qed

text \<open>What \<open>add_dir_watch\<close> does to the cache, by the answer of \<^verbatim>\<open>inotify_add_watch\<close>.\<close>

lemma add_dir_watch_cases:
  obtains (failed) e k r s' where "os_add_watch K fd p fl (kern s) = (Inl e, k)"
      "add_dir_watch K fd p fl s = (r, s')" "wlCache s' = wlCache s" "rest s' = rest s"
      "r = Inr () \<Longrightarrow> kern s' = k"
  | (known) d k s' where "os_add_watch K fd p fl (kern s) = (Inr d, k)"
      "findWatch d (wlCache s) \<noteq> None" "add_dir_watch K fd p fl s = (Inr (), s')"
      "wlCache s' = wlCache s" "rest s' = rest s" "kern s' = k"
  | (new) d k s' where "os_add_watch K fd p fl (kern s) = (Inr d, k)"
      "findWatch d (wlCache s) = None" "add_dir_watch K fd p fl s = (Inr (), s')"
      "wlCache s' = cache_put d (strncpy PATH_MAX p) (wlCache s)"
      "rest s' = rest (s\<lparr>dirCnt := dirCnt s + 1\<rparr>)"
  | (nomem) d k h s' where "os_add_watch K fd p fl (kern s) = (Inr d, k)"
      "add_dir_watch K fd p fl s = (Inl h, s')"
      "wlCache s' = []" "rest s' = rest (s\<lparr>dirCnt := dirCnt s + 1\<rparr>)"
proof (cases "os_add_watch K fd p fl (kern s)")
  case (Pair r k)
  show ?thesis
  proof (cases r)
    case (Inl e)
    obtain q s' where q: "add_dir_watch K fd p fl s = (q, s')" by fastforce
    with Pair Inl show ?thesis
      by (intro failed [of e k q s'])
        (auto simp: add_dir_watch_def bnd_apply [of "os_call _"] os_call_def exit3_def split: if_splits)
  next
    case (Inr d)
    show ?thesis
    proof (cases "findWatch d (wlCache s)")
      case (Some j)
      with Pair Inr show ?thesis
        by (intro known [of d k "snd (add_dir_watch K fd p fl s)"])
          (auto simp: add_dir_watch_def bnd_apply [of "os_call _"] os_call_def logMessage_eq)
    next
      case None
      let ?s1 = "s\<lparr>kern := k, dirCnt := dirCnt s + 1\<rparr>"
      have r1: "rest ?s1 = rest (s\<lparr>dirCnt := dirCnt s + 1\<rparr>)" by (simp add: rest_def flags_def)
      have eq: "add_dir_watch K fd p fl s = bnd (addWatchToCache K d p) (\<lambda>slot.
          logMessage VB_NOISY (''    watchDir: wd = '' @ show_int d @ '' [cache slot: '' @
               show_nat slot @ '']; '' @ p @ [NL])) ?s1"
        using Pair Inr None by (simp add: add_dir_watch_def bnd_apply [of "os_call _"] os_call_def)
      show ?thesis
      proof (cases rule: addWatchToCache_cases [of K d p ?s1])
        case (added s')
        with eq Pair Inr None r1 show ?thesis
          by (intro new [of d k "snd (add_dir_watch K fd p fl s)"]) (auto simp: bnd_apply logMessage_eq)
      next
        case (nomem s')
        with eq Pair Inr None r1 show ?thesis
          by (intro that(4) [of d k "Exit EXIT_FAILURE" s']) (auto simp: bnd_apply)
      qed
    qed
  qed
qed

lemma keeps_add_dir_watch [inv_intros]:
  assumes "os_wd_ok K"
  shows "keeps tree_inv (add_dir_watch K fd p fl)"
  unfolding keeps_def
proof (intro allI impI)
  fix s :: "'a ist"
  assume inv: "tree_inv s"
  show "tree_inv (snd (add_dir_watch K fd p fl s))"
  proof (cases rule: add_dir_watch_cases [of K fd p fl s])
    case (new d k s')
    with inv os_wd_okD [OF assms new(1)] have "wf_cache (wlCache s')"
      by (simp add: tree_inv_def wt.invar_put cache_map_None)
    with new inv show ?thesis by (simp add: tree_inv_def rest_def)
  qed (use inv in \<open>simp_all add: tree_inv_def rest_def wf_cache_def\<close>)
qed

lemma keeps_traverseTree [inv_intros]: "os_wd_ok K \<Longrightarrow> keeps tree_inv (traverseTree K v)"
  unfolding traverseTree_def by (cases v) (auto intro!: inv_intros)

lemma keeps_watchDir [inv_intros]: "os_wd_ok K \<Longrightarrow> keeps tree_inv (watchDir K fd p)"
  unfolding watchDir_def
  by (intro inv_intros keeps_modify) (auto simp: tree_inv_def split: option.splits intro!: inv_intros)

lemma keeps_watchSubtree [inv_intros]: "os_wd_ok K \<Longrightarrow> keeps tree_inv (watchSubtree K fd p)"
  unfolding watchSubtree_def by (intro inv_intros)

lemma keeps_zap_one [inv_intros]: "keeps tree_inv (zap_one K fd j w)"
  unfolding zap_one_def by (auto split: sum.splits intro!: inv_intros)

lemma keeps_zap_slots [inv_intros]: "keeps tree_inv (zap_slots K fd pn js n)"
  by (induction js arbitrary: n) (auto intro!: inv_intros)

lemma keeps_zapSubtree [inv_intros]: "keeps tree_inv (zapSubtree K fd p)"
  unfolding zapSubtree_def by (intro inv_intros)

section \<open>Renaming\<close>

definition rewrite_path :: "string \<Rightarrow> string \<Rightarrow> string \<Rightarrow> string" where
  "rewrite_path fullPath newPrefix p =
     (if in_subtree fullPath p then snprintf PATH_MAX (newPrefix @ drop (length fullPath) p) else p)"

lemma strncpy_snprintf [simp]: "strncpy n (snprintf n t) = snprintf n t"
  by (simp add: strncpy_def snprintf_def)

lemma snprintf_idem [simp]: "snprintf n (snprintf n t) = snprintf n t"
  by (simp add: snprintf_def)

lemma rewrite_slot_eq:
  "\<exists>s'. rewrite_slot f n j s = (Inr (), s') \<and> kern s' = kern s \<and> rest s' = rest s \<and>
     wlCache s' = (wlCache s)[j := (wlCache s ! j)\<lparr>path := rewrite_path f n (path (wlCache s ! j))\<rparr>]"
proof (cases "in_subtree f (path (wlCache s ! j))")
  case False
  then show ?thesis by (simp add: rewrite_slot_def rewrite_path_def)
next
  case True
  then show ?thesis
    by (simp add: rewrite_slot_def rewrite_path_def Let_def whenM_def logMessage_eq bnd_apply)
qed

lemma forM_rewrite_slot:
  "\<exists>s'. forM js (rewrite_slot f n) s = (Inr (), s') \<and> kern s' = kern s \<and> rest s' = rest s \<and>
     wlCache s' = fold (\<lambda>j c. c[j := (c ! j)\<lparr>path := rewrite_path f n (path (c ! j))\<rparr>]) js (wlCache s)"
proof (induction js arbitrary: s)
  case Nil
  then show ?case by simp
next
  case (Cons j js)
  from rewrite_slot_eq obtain s1 where s1: "rewrite_slot f n j s = (Inr (), s1)" "kern s1 = kern s"
    "rest s1 = rest s"
    "wlCache s1 = (wlCache s)[j := (wlCache s ! j)\<lparr>path := rewrite_path f n (path (wlCache s ! j))\<rparr>]"
    by blast
  from Cons.IH [of s1] s1 show ?case by (auto simp: andthen_apply)
qed

lemma rewriteCachedPaths_eq:
  "\<exists>s'. rewriteCachedPaths op on np nn s = (Inr (), s') \<and> kern s' = kern s \<and> rest s' = rest s \<and>
     wlCache s' = map (\<lambda>w. w\<lparr>path := rewrite_path (snprintf PATH_MAX (op @ ''/'' @ on))
       (snprintf PATH_MAX (np @ ''/'' @ nn)) (path w)\<rparr>) (wlCache s)"
proof -
  define f where "f = snprintf PATH_MAX (op @ ''/'' @ on)"
  define n where "n = snprintf PATH_MAX (np @ ''/'' @ nn)"
  define s1 where "s1 = logged VB_BASIC (''Rename: '' @ f @ '' ==> '' @ n @ [NL]) s"
  have s1: "wlCache s1 = wlCache s" "kern s1 = kern s" "rest s1 = rest s" by (simp_all add: s1_def)
  have "rewriteCachedPaths op on np nn s = forM [0..<length (wlCache s)] (rewrite_slot f n) s1"
    unfolding rewriteCachedPaths_def f_def [symmetric] n_def [symmetric] Let_def
    by (simp add: s1_def)
  moreover obtain s' where "forM [0..<length (wlCache s)] (rewrite_slot f n) s1 = (Inr (), s')"
    "kern s' = kern s" "rest s' = rest s"
    "wlCache s' = fold (\<lambda>j c. c[j := (c ! j)\<lparr>path := rewrite_path f n (path (c ! j))\<rparr>])
       [0..<length (wlCache s)] (wlCache s)"
    using forM_rewrite_slot [of "[0..<length (wlCache s)]" f n s1] s1 by auto
  ultimately show ?thesis
    using fold_update_map [of "\<lambda>w. w\<lparr>path := rewrite_path f n (path w)\<rparr>" "wlCache s"]
    by (simp add: f_def n_def)
qed

lemma fullPath_nonempty [simp]: "snprintf PATH_MAX (op @ ''/'' @ on) \<noteq> []"
  by (simp add: snprintf_def const_defs)

lemma rewrite_path_Nil: "f \<noteq> [] \<Longrightarrow> rewrite_path f n [] = []"
  by (simp add: rewrite_path_def in_subtree_def)

lemma keeps_rewriteCachedPaths [inv_intros]: "keeps tree_inv (rewriteCachedPaths op on np nn)"
  unfolding keeps_def
proof (intro allI impI)
  fix s :: "'a ist"
  assume inv: "tree_inv s"
  let ?g = "rewrite_path (snprintf PATH_MAX (op @ ''/'' @ on)) (snprintf PATH_MAX (np @ ''/'' @ nn))"
  from rewriteCachedPaths_eq obtain s' where s': "rewriteCachedPaths op on np nn s = (Inr (), s')"
    "rest s' = rest s" "wlCache s' = map (\<lambda>w. w\<lparr>path := ?g (path w)\<rparr>) (wlCache s)" by blast
  have "?g [] = []" by (rule rewrite_path_Nil) (rule fullPath_nonempty)
  then have "wf_cache (wlCache s')"
    using inv s'(3) by (auto simp: tree_inv_def intro!: wf_cache_paths [where g = ?g])
  with s' inv show "tree_inv (snd (rewriteCachedPaths op on np nn s))"
    by (simp add: tree_inv_def rest_def)
qed

section \<open>Removing\<close>

definition zapped :: "string \<Rightarrow> watch \<Rightarrow> watch" where
  "zapped pn w = (if wd w \<ge> 0 \<and> in_subtree pn (path w) then empty_slot else w)"

definition marked :: "nat \<Rightarrow> 'k ist \<Rightarrow> 'k ist" where
  "marked j s = snd (markCacheSlotEmpty j s)"

lemma bnd_markCacheSlotEmpty: "bnd (markCacheSlotEmpty j) f s = f () (marked j s)"
  using markCacheSlotEmpty_eq [of j s] by (auto simp: bnd_def marked_def)

lemma marked_sel [simp]:
  "wlCache (marked j s) = (wlCache s)[j := empty_slot]" "rest (marked j s) = rest s"
  using markCacheSlotEmpty_eq [of j s] by (auto simp: marked_def)

lemma zap_one_cases:
  obtains (removed) s' where "zap_one K fd j w s = (Inr True, s')"
      "wlCache s' = (wlCache s)[j := empty_slot]" "rest s' = rest s"
  | (refused) e k k' s' where "zap_one K fd j w s = (Inr False, s')" "wlCache s' = wlCache s"
      "rest s' = rest s" "os_rm_watch K fd (wd w) k = (Inl e, k')"
proof (cases "os_rm_watch K fd (wd w) (kern s)")
  case (Pair r k)
  show ?thesis
  proof (cases r)
    case (Inl e)
    with Pair show ?thesis
      by (intro refused [of "snd (zap_one K fd j w s)"])
        (simp_all add: zap_one_def bnd_apply [of "os_call _"] os_call_def)
  next
    case (Inr u)
    with Pair show ?thesis
      by (intro removed [of "snd (zap_one K fd j w s)"])
        (simp_all add: zap_one_def bnd_apply [of "os_call _"] os_call_def bnd_markCacheSlotEmpty)
  qed
qed

lemma zap_slots_Some:
  "zap_slots K fd pn js n s = (Inr (Some m), s') \<Longrightarrow> rest s' = rest s \<and>
     wlCache s' = fold (\<lambda>j c. c[j := zapped pn (c ! j)]) js (wlCache s)"
proof (induction js arbitrary: n s)
  case Nil
  then show ?case by simp
next
  case (Cons j js)
  let ?w = "wlCache s ! j"
  show ?case
  proof (cases "wd ?w \<ge> 0 \<and> in_subtree pn (path ?w)")
    case False
    with Cons.prems have "zap_slots K fd pn js n s = (Inr (Some m), s')" by auto
    moreover from False have "zapped pn ?w = ?w" by (auto simp: zapped_def)
    ultimately show ?thesis using Cons.IH by simp
  next
    case True
    then have z: "zapped pn ?w = empty_slot" by (simp add: zapped_def)
    show ?thesis
    proof (cases rule: zap_one_cases [of K fd j ?w s])
      case (removed s2)
      with Cons.prems True have "zap_slots K fd pn js (Suc n) s2 = (Inr (Some m), s')"
        by (simp add: bnd_apply)
      from Cons.IH [OF this] removed z show ?thesis by simp
    next
      case (refused e k k' s2)
      with Cons.prems True show ?thesis by (simp add: bnd_apply)
    qed
  qed
qed

lemma zapSubtree_Some:
  assumes "zapSubtree K fd p s = (Inr (Some m), s')"
  shows "wlCache s' = map (zapped p) (wlCache s) \<and> rest s' = rest s"
proof -
  define s1 where "s1 = logged VB_NOISY (''Zapping subtree: '' @ p @ [NL]) s"
  have s1: "wlCache s1 = wlCache s" "rest s1 = rest s" by (simp_all add: s1_def)
  have "zap_slots K fd p [0..<length (wlCache s)] 0 s1 = (Inr (Some m), s')"
    using assms unfolding zapSubtree_def by (simp add: s1_def)
  from zap_slots_Some [OF this] s1 show ?thesis by (simp add: fold_update_map)
qed

section \<open>Walking\<close>

text \<open>What a walk over the entries \<open>visits\<close> may record: for every directory the kernel either
  refuses the watch or answers a descriptor, which is recorded with the pathname.\<close>

inductive walked :: "'k inotify_os \<Rightarrow> int \<Rightarrow> string option list \<Rightarrow> (string \<times> bool) list \<Rightarrow>
    (int \<times> string) list \<Rightarrow> bool" for K fd roots where
  walked_done: "walked K fd roots [] []"
| walked_file: "walked K fd roots vs dps \<Longrightarrow> walked K fd roots ((p, False) # vs) dps"
| walked_refused: "os_add_watch K fd p (watch_flags p roots) k = (Inl e, k') \<Longrightarrow>
    walked K fd roots vs dps \<Longrightarrow> walked K fd roots ((p, True) # vs) dps"
| walked_watched: "os_add_watch K fd p (watch_flags p roots) k = (Inr d, k') \<Longrightarrow>
    walked K fd roots vs dps \<Longrightarrow>
    walked K fd roots ((p, True) # vs) ((d, strncpy PATH_MAX p) # dps)"

inductive_cases walked_NilE [elim!]: "walked K fd roots [] dps"

lemma walked_nonneg:
  "walked K fd roots vs dps \<Longrightarrow> os_wd_ok K \<Longrightarrow> \<forall>dp \<in> set dps. fst dp \<ge> 0"
  by (induction rule: walked.induct) (auto dest: os_wd_okD)

lemma findWatch_cache_map: "d \<ge> 0 \<Longrightarrow> findWatch d c \<noteq> None \<longleftrightarrow> cache_map c d \<noteq> None"
  by (simp add: cache_map_def)

lemma forM_traverseTree:
  assumes "os_wd_ok K" "tree_inv s" "forM vs (traverseTree K) s = (Inr (), s')"
  shows "\<exists>dps. walked K (ifd s) (rootDirPaths s) vs dps \<and>
     wlCache s' = wt.record_all dps (wlCache s) \<and>
     rest s' = rest (s\<lparr>dirCnt := dirCnt s'\<rparr>) \<and>
     dirCnt s' + used_slots (wlCache s) = dirCnt s + used_slots (wlCache s')"
  using assms(2,3)
proof (induction vs arbitrary: s)
  case Nil
  then show ?case by (intro exI [of _ "[]"]) (auto simp: walked_done rest_def flags_def)
next
  case (Cons v vs)
  obtain r s1 where s1: "traverseTree K v s = (r, s1)" by fastforce
  with Cons.prems(2) have r: "r = Inr ()" and run: "forM vs (traverseTree K) s1 = (Inr (), s')"
    by (auto simp: andthen_apply split: sum.splits)
  have inv1: "tree_inv s1" using keepsD [OF keeps_traverseTree [OF assms(1)] Cons.prems(1), of v] s1 by simp
  obtain p b where v: "v = (p, b)" by fastforce
  let ?fl = "watch_flags p (rootDirPaths s)"
  have same: "ifd s1 = ifd s" "rootDirPaths s1 = rootDirPaths s"
    if "rest s1 = rest (s\<lparr>dirCnt := x\<rparr>)" for x using that by (auto simp: rest_def)
  have keep: ?case if "wlCache s1 = wlCache s" "rest s1 = rest s"
    "\<And>dps. walked K (ifd s) (rootDirPaths s) vs dps \<Longrightarrow> \<exists>dps'. walked K (ifd s) (rootDirPaths s) (v # vs) dps' \<and>
       wt.record_all dps' (wlCache s) = wt.record_all dps (wlCache s)"
  proof -
    obtain dps where dps: "walked K (ifd s1) (rootDirPaths s1) vs dps"
      "wlCache s' = wt.record_all dps (wlCache s1)" "rest s' = rest (s1\<lparr>dirCnt := dirCnt s'\<rparr>)"
      "dirCnt s' + used_slots (wlCache s1) = dirCnt s1 + used_slots (wlCache s')"
      using Cons.IH [OF inv1 run] by blast
    have "ifd s1 = ifd s" "rootDirPaths s1 = rootDirPaths s" "dirCnt s1 = dirCnt s"
      "rest (s1\<lparr>dirCnt := dirCnt s'\<rparr>) = rest (s\<lparr>dirCnt := dirCnt s'\<rparr>)"
      using that(2) by (simp_all add: rest_def flags_def)
    with dps that(1) that(3) [of dps] show ?thesis by metis
  qed
  show ?case
  proof (cases b)
    case False
    with s1 r v have "s1 = s" by (simp add: traverseTree_def)
    with False v show ?thesis by (intro keep) (auto intro: walked_file)
  next
    case True
    with s1 r v have step: "add_dir_watch K (ifd s) p ?fl s = (Inr (), s1)" by (simp add: traverseTree_def)
    show ?thesis
    proof (cases rule: add_dir_watch_cases [of K "ifd s" p ?fl s])
      case (failed e k q s2)
      with step True v show ?thesis by (intro keep) (auto intro: walked_refused)
    next
      case (known d k s2)
      have "d \<ge> 0" using known(1) by (rule os_wd_okD [OF assms(1)])
      with known step True v show ?thesis
        by (intro keep exI [of _ "(d, strncpy PATH_MAX p) # _"] conjI)
          (auto simp: cache_map_def intro: walked_watched)
    next
      case (new d k s2)
      have d: "d \<ge> 0" using new(1) by (rule os_wd_okD [OF assms(1)])
      obtain dps where dps: "walked K (ifd s1) (rootDirPaths s1) vs dps"
        "wlCache s' = wt.record_all dps (wlCache s1)" "rest s' = rest (s1\<lparr>dirCnt := dirCnt s'\<rparr>)"
        "dirCnt s' + used_slots (wlCache s1) = dirCnt s1 + used_slots (wlCache s')"
        using Cons.IH [OF inv1 run] by blast
      have rest1: "rest s1 = rest (s\<lparr>dirCnt := dirCnt s + 1\<rparr>)" using new step by simp
      have "cache_map (wlCache s) d = None" using new(2) by (simp add: cache_map_def)
      with new step dps(2) have "wlCache s' = wt.record_all ((d, strncpy PATH_MAX p) # dps) (wlCache s)"
        by simp
      moreover have "walked K (ifd s) (rootDirPaths s) (v # vs) ((d, strncpy PATH_MAX p) # dps)"
        using dps(1) new(1) True v same [OF rest1] by (auto intro: walked_watched)
      moreover have "rest s' = rest (s\<lparr>dirCnt := dirCnt s'\<rparr>)"
        using dps(3) rest1 by (auto simp: rest_def flags_def)
      moreover have "dirCnt s' + used_slots (wlCache s) = dirCnt s + used_slots (wlCache s')"
        using dps(4) rest1 new step used_slots_put [OF d] by (auto simp: rest_def)
      ultimately show ?thesis by blast
    next
      case (nomem d k h s2)
      with step show ?thesis by simp
    qed
  qed
qed

lemma watchDir_run:
  assumes "os_wd_ok K" "tree_inv s" "watchDir K fd p s = (Inr n, s')"
  shows "\<exists>visits err k dps. os_nftw K p (kern s) = ((visits, err), k) \<and>
     walked K fd (rootDirPaths s) visits dps \<and> wlCache s' = wt.record_all dps (wlCache s) \<and>
     used_slots (wlCache s') = used_slots (wlCache s) + n \<and> rootDirPaths s' = rootDirPaths s \<and>
     ignoreRootDirs s' = ignoreRootDirs s \<and> inotifyFd s' = inotifyFd s"
proof -
  let ?s0 = "s\<lparr>dirCnt := 0, ifd := fd\<rparr>"
  obtain visits err k where nftw: "os_nftw K p (kern s) = ((visits, err), k)" by (metis prod.collapse)
  let ?s1 = "?s0\<lparr>kern := k\<rparr>"
  obtain r s2 where run: "forM visits (traverseTree K) ?s1 = (r, s2)" by fastforce
  have w: "watchDir K fd p s = bnd (forM visits (traverseTree K)) (\<lambda>_.
     bnd (case err of None \<Rightarrow> ret ()
          | Some e \<Rightarrow> logMessage VB_BASIC (''nftw: '' @ p @ '': '' @ os_strerror K e @
              '' (directory probably deleted before we could watch)'' @ [NL])) (\<lambda>_.
     gets dirCnt)) ?s1"
    using nftw by (simp add: watchDir_def bnd_apply [of "os_plain _"] os_plain_def)
  with run assms(3) have r: "r = Inr ()" by (cases r) (auto simp: bnd_apply)
  have "tree_inv ?s1" using assms(2) by (simp add: tree_inv_def)
  from forM_traverseTree [OF assms(1) this run [unfolded r]] obtain dps where dps:
    "walked K fd (rootDirPaths s) visits dps" "wlCache s2 = wt.record_all dps (wlCache s)"
    "rest s2 = rest (?s1\<lparr>dirCnt := dirCnt s2\<rparr>)"
    "dirCnt s2 + used_slots (wlCache s) = used_slots (wlCache s2)" by auto
  have "wlCache s' = wlCache s2" "rest s' = rest s2" "n = dirCnt s2"
    using w run r assms(3) by (auto simp: bnd_apply [of "forM _ _"] split: option.splits)
  with nftw dps show ?thesis
    by (intro exI [of _ visits] exI [of _ err] exI [of _ k] exI [of _ dps]) (auto simp: rest_def)
qed

lemma keeps_reinitialize [inv_intros]:
  assumes "os_wd_ok K"
  shows "keeps tree_inv (reinitialize K fd)"
proof -
  have "keeps tree_inv (modify (\<lambda>s. s\<lparr>reinitCnt := f s\<rparr>))" for f :: "'a ist \<Rightarrow> nat"
    by (rule keeps_modify) (simp add: tree_inv_def)
  then show ?thesis
    unfolding reinitialize_def using assms
    by (auto simp del: ret_apply split: sum.splits option.splits intro!: inv_intros)
qed

section \<open>Root directories\<close>

lemma in_subtree_iff: "in_subtree pre p \<longleftrightarrow> p = pre \<or> (\<exists>q. p = pre @ ''/'' @ q)"
proof
  assume a: "in_subtree pre p"
  then have "p = pre @ drop (length pre) p" by (metis append_take_drop_id in_subtree_def)
  moreover have "drop (length pre) p = [] \<or> (\<exists>q. drop (length pre) p = ''/'' @ q)"
  proof (cases "drop (length pre) p")
    case (Cons x q)
    then have "p ! length pre = x" "length p > length pre"
      by (metis append_Nil2 append_take_drop_id nth_append_length a in_subtree_def, metis drop_eq_Nil2 list.distinct(1) not_le)
    with a Cons show ?thesis by (auto simp: in_subtree_def)
  qed simp
  ultimately show "p = pre \<or> (\<exists>q. p = pre @ ''/'' @ q)" by (metis append_Nil2)
qed (auto simp: in_subtree_def)

lemma rewrite_path_iff:
  "rewrite_path old (snprintf PATH_MAX new) = (\<lambda>p. if p = old then snprintf PATH_MAX new
     else if \<exists>q. p = old @ ''/'' @ q then snprintf PATH_MAX (snprintf PATH_MAX new @ drop (length old) p)
     else p)"
  unfolding rewrite_path_def in_subtree_iff by (rule ext) simp


text \<open>The successful runs of \<^verbatim>\<open>copyRootDirPaths\<close>.\<close>

lemma check_root_ok:
  assumes "check_root K p s = (Inr u, s')"
  shows "\<exists>sb k. os_lstat K p (kern s) = (Inr sb, k) \<and> st_isdir sb \<and> s' = s\<lparr>kern := k\<rparr>"
  using assms
  by (auto simp: check_root_def bnd_apply os_call_def exit3_def split: sum.splits prod.splits if_splits)

lemma forM_check_root:
  assumes "forM ps (check_root K) s = (Inr u, s')"
  shows "(\<forall>p \<in> set ps. \<exists>k k' sb. os_lstat K p k = (Inr sb, k') \<and> st_isdir sb) \<and> (\<exists>k. s' = s\<lparr>kern := k\<rparr>)"
  using assms
proof (induction ps arbitrary: s)
  case Nil
  then show ?case by (auto intro: exI [of _ "kern s"])
next
  case (Cons p ps)
  then obtain r s1 where s1: "check_root K p s = (Inr r, s1)" "forM ps (check_root K) s1 = (Inr u, s')"
    by (auto simp: andthen_apply split: prod.splits sum.splits)
  from check_root_ok [OF s1(1)] Cons.IH [OF s1(2)] show ?case by (auto; metis)
qed

lemma copy_root_ok:
  assumes "copy_root K b argv j s = (Inr u, s')"
  shows "\<exists>sb k. s' = s\<lparr>rootDirPaths := (rootDirPaths s)[j := Some (argv ! j)], kern := k, rootDirStat := rootDirStat s @ [sb]\<rparr> \<and>
     (st_ino sb, st_dev sb) \<notin> set (map (\<lambda>x. (st_ino x, st_dev x)) (rootDirStat s))"
  using assms
  by (auto simp: copy_root_def Let_def bnd_apply os_plain_def os_call_def exit3_def image_iff
      split: sum.splits prod.splits if_splits option.splits intro!: exI conjI refl)

lemma forM_copy_root:
  assumes "forM [i..<n] (copy_root K b argv) s = (Inr u, s')" "n = length argv" "i \<le> n"
    "length (rootDirPaths s) = n" "take i (rootDirPaths s) = map Some (take i argv)"
    "length (rootDirStat s) = i" "distinct (map (\<lambda>x. (st_ino x, st_dev x)) (rootDirStat s))"
  shows "rootDirPaths s' = map Some argv \<and> length (rootDirStat s') = n \<and>
     distinct (map (\<lambda>x. (st_ino x, st_dev x)) (rootDirStat s')) \<and> wlCache s' = wlCache s"
  using assms
proof (induction "n - i" arbitrary: i s)
  case 0
  then show ?case by simp
next
  case (Suc m)
  then have i: "i < n" by simp
  then have "[i..<n] = i # [Suc i..<n]" by (simp add: upt_conv_Cons)
  with Suc.prems(1) obtain r s1 where s1: "copy_root K b argv i s = (Inr r, s1)"
    "forM [Suc i..<n] (copy_root K b argv) s1 = (Inr u, s')"
    by (auto simp: andthen_apply split: prod.splits sum.splits)
  from copy_root_ok [OF s1(1)] obtain sb k where e:
    "s1 = s\<lparr>rootDirPaths := (rootDirPaths s)[i := Some (argv ! i)], kern := k, rootDirStat := rootDirStat s @ [sb]\<rparr>"
    "(st_ino sb, st_dev sb) \<notin> set (map (\<lambda>x. (st_ino x, st_dev x)) (rootDirStat s))" by blast
  have "take (Suc i) ((rootDirPaths s)[i := Some (argv ! i)]) = map Some (take (Suc i) argv)"
    using i Suc.prems(2,4,5) by (simp add: take_Suc_conv_app_nth)
  then show ?case
    using Suc.hyps(1) [OF _ s1(2)] Suc.hyps(2) Suc.prems i e by simp
qed

section \<open>Outcomes of removing\<close>

lemma used_slots_clear:
  assumes "j < length c" "wd (c ! j) \<ge> 0"
  shows "Suc (used_slots (c[j := empty_slot])) = used_slots c"
  using length_filter_update [of j "c[j := empty_slot]" "\<lambda>w. wd w \<ge> 0" "c ! j"] assms
  by (simp add: used_slots_def)

text \<open>One run of the loop: it always returns; what is left of the cache is part of what was
  there, and the count is the number of slots freed.\<close>

lemma zap_slots_outcome:
  assumes "wf_cache (wlCache s)" "\<forall>j \<in> set js. j < length (wlCache s)"
  shows "\<exists>r s'. zap_slots K fd pn js n s = (Inr r, s') \<and>
     cache_map (wlCache s') \<subseteq>\<^sub>m cache_map (wlCache s) \<and>
     (case r of Some m \<Rightarrow> m + used_slots (wlCache s') = n + used_slots (wlCache s)
      | None \<Rightarrow> \<exists>d k e k'. os_rm_watch K fd d k = (Inl e, k') \<and> cache_map (wlCache s') d \<noteq> None)"
  using assms
proof (induction js arbitrary: n s)
  case Nil
  then show ?case by simp
next
  case (Cons j js)
  let ?w = "wlCache s ! j"
  show ?case
  proof (cases "wd ?w \<ge> 0 \<and> in_subtree pn (path ?w)")
    case False
    then have "zap_slots K fd pn (j # js) n s = zap_slots K fd pn js n s" by auto
    with Cons show ?thesis by simp
  next
    case True
    have j: "j < length (wlCache s)" using Cons.prems(2) by simp
    show ?thesis
    proof (cases rule: zap_one_cases [of K fd j ?w s])
      case (removed s2)
      have run: "zap_slots K fd pn (j # js) n s = zap_slots K fd pn js (Suc n) s2"
        using True removed(1) by (simp add: bnd_apply)
      have le: "cache_map (wlCache s2) \<subseteq>\<^sub>m cache_map (wlCache s)"
        using cache_map_clear_slot [OF Cons.prems(1) j] True removed(2) by (auto simp: map_le_def)
      have cnt: "Suc (used_slots (wlCache s2)) = used_slots (wlCache s)"
        using used_slots_clear [OF j] True removed(2) by simp
      have "wf_cache (wlCache s2)" "\<forall>j \<in> set js. j < length (wlCache s2)"
        using Cons.prems removed(2) by (simp_all add: wf_cache_clear)
      from Cons.IH [OF this, of "Suc n"] obtain r s' where IH: "zap_slots K fd pn js (Suc n) s2 = (Inr r, s')"
        "cache_map (wlCache s') \<subseteq>\<^sub>m cache_map (wlCache s2)"
        "case r of Some m \<Rightarrow> m + used_slots (wlCache s') = Suc n + used_slots (wlCache s2)
         | None \<Rightarrow> \<exists>d k e k'. os_rm_watch K fd d k = (Inl e, k') \<and> cache_map (wlCache s') d \<noteq> None" by blast
      have "case r of Some m \<Rightarrow> m + used_slots (wlCache s') = n + used_slots (wlCache s)
         | None \<Rightarrow> \<exists>d k e k'. os_rm_watch K fd d k = (Inl e, k') \<and> cache_map (wlCache s') d \<noteq> None"
        using IH(3) cnt by (auto split: option.splits)
      with run IH(1) map_le_trans [OF IH(2) le] show ?thesis by auto
    next
      case (refused e k k' s2)
      have "cache_map (wlCache s) (wd ?w) \<noteq> None"
        using True j by (auto simp: cache_map_def findWatch_def)
      with refused True show ?thesis by (auto simp: bnd_apply)
    qed
  qed
qed

section \<open>Properties\<close>

lemma demo_inv: "tree_inv (demo_ist [\<lparr>wd = 4, path = ''/a''\<rparr>] [Some ''/a''])" "os_wd_ok demo_os"
  by (simp_all add: tree_inv_def wf_cache_def os_wd_ok_def demo_os_def)

text \<open>C22. Watching a directory tree. Starting from a well-formed state, \<open>watchDir\<close> keeps the state
  well formed whatever happens. When it returns, the cache is the old one extended by the
  descriptors the kernel answered for the directories the walk visited, each with its
  pathname (an entry that was already cached is not overwritten), and the returned number is
  the number of slots newly in use.\<close>

theorem watchDir_records_walk:
  assumes "os_wd_ok K" "tree_inv s"
  shows "case watchDir K fd p s of
      (Inl h, s') \<Rightarrow> tree_inv s'
    | (Inr n, s') \<Rightarrow> tree_inv s' \<and> (\<exists>visits err k dps.
        os_nftw K p (kern s) = ((visits, err), k) \<and>
        walked K fd (rootDirPaths s) visits dps \<and>
        cache_map (wlCache s') = map_of dps ++ cache_map (wlCache s) \<and>
        used_slots (wlCache s') = used_slots (wlCache s) + n)"
proof (cases "watchDir K fd p s")
  case (Pair r s')
  have inv: "tree_inv s'" using keepsD [OF keeps_watchDir [OF assms(1)] assms(2), of fd p] Pair by simp
  show ?thesis
  proof (cases r)
    case (Inl h)
    with Pair inv show ?thesis by simp
  next
    case (Inr n)
    from watchDir_run [OF assms Pair [unfolded Inr]] obtain visits err k dps where w:
      "os_nftw K p (kern s) = ((visits, err), k)" "walked K fd (rootDirPaths s) visits dps"
      "wlCache s' = wt.record_all dps (wlCache s)" "used_slots (wlCache s') = used_slots (wlCache s) + n"
      by blast
    have "cache_map (wlCache s') = map_of dps ++ cache_map (wlCache s)"
      using wt.record_all_lookup [of "wlCache s" dps] walked_nonneg [OF w(2) assms(1)] assms(2) w(3)
      by (simp add: tree_inv_def)
    with Pair Inr inv w show ?thesis by auto
  qed
qed

theorem watchDir_records_walk_witness:
  "case watchDir demo_os 3 ''/b'' (demo_ist [\<lparr>wd = 4, path = ''/a''\<rparr>] [Some ''/a'']) of
      (Inl h, s') \<Rightarrow> tree_inv s'
    | (Inr n, s') \<Rightarrow> tree_inv s' \<and> (\<exists>visits err k dps.
        os_nftw demo_os ''/b'' (5::nat) = ((visits, err), k) \<and>
        walked demo_os 3 [Some ''/a''] visits dps \<and>
        cache_map (wlCache s') = map_of dps ++ cache_map [\<lparr>wd = 4, path = ''/a''\<rparr>] \<and>
        used_slots (wlCache s') = used_slots [\<lparr>wd = 4, path = ''/a''\<rparr>] + n)"
  using watchDir_records_walk [OF demo_inv(2) demo_inv(1), where fd = 3 and p = "''/b''", unfolded demo_ist_sel] .

text \<open>A directory rename. \<open>rewriteCachedPaths\<close> always returns; it changes no descriptor, and
  the pathname of an entry changes exactly when it is the renamed directory or lies below it,
  where the old prefix is replaced by the new one (cut at \<^verbatim>\<open>PATH_MAX - 1\<close>
  characters). Names that merely share the text of the prefix are left alone.\<close>

theorem rewriteCachedPaths_renames:
  "\<exists>s'. rewriteCachedPaths op on np nn s = (Inr (), s') \<and> length (wlCache s') = length (wlCache s) \<and>
     (let old = snprintf PATH_MAX (op @ ''/'' @ on); new = snprintf PATH_MAX (np @ ''/'' @ nn) in
      \<forall>d. cache_map (wlCache s') d = map_option (\<lambda>p.
        if p = old then new
        else if \<exists>q. p = old @ ''/'' @ q then snprintf PATH_MAX (new @ drop (length old) p)
        else p) (cache_map (wlCache s) d))"
proof -
  let ?old = "snprintf PATH_MAX (op @ ''/'' @ on)" and ?new = "snprintf PATH_MAX (np @ ''/'' @ nn)"
  obtain s' where s': "rewriteCachedPaths op on np nn s = (Inr (), s')"
    "wlCache s' = map (\<lambda>w. w\<lparr>path := rewrite_path ?old ?new (path w)\<rparr>) (wlCache s)"
    using rewriteCachedPaths_eq by blast
  have "cache_map (wlCache s') d = map_option (rewrite_path ?old ?new) (cache_map (wlCache s) d)" for d
    unfolding s'(2) by (rule cache_map_paths) simp_all
  moreover have "length (wlCache s') = length (wlCache s)" using s'(2) by simp
  ultimately show ?thesis using s'(1) unfolding Let_def rewrite_path_iff [symmetric] by blast
qed

text \<open>Removing a subtree. \<open>zapSubtree\<close> always returns. A count means that exactly the entries
  for the directory and everything below it are gone and that this many were removed; the
  failure result means that some \<^verbatim>\<open>inotify_rm_watch\<close> on a cached descriptor failed, and then
  only entries were removed, none changed.\<close>

theorem zapSubtree_removes:
  assumes "tree_inv s"
  shows "\<exists>r s'. zapSubtree K fd p s = (Inr r, s') \<and> tree_inv s' \<and>
     (case r of
        Some m \<Rightarrow> used_slots (wlCache s') + m = used_slots (wlCache s) \<and>
          (\<forall>d. cache_map (wlCache s') d = (case cache_map (wlCache s) d of None \<Rightarrow> None
            | Some q \<Rightarrow> if q = p \<or> (\<exists>t. q = p @ ''/'' @ t) then None else Some q))
      | None \<Rightarrow> cache_map (wlCache s') \<subseteq>\<^sub>m cache_map (wlCache s) \<and>
          (\<exists>d k e k'. os_rm_watch K fd d k = (Inl e, k') \<and> cache_map (wlCache s') d \<noteq> None))"
proof -
  obtain s1 where s1: "zapSubtree K fd p s = zap_slots K fd p [0..<length (wlCache s)] 0 s1"
    "wlCache s1 = wlCache s" by (simp add: zapSubtree_def)
  have wf: "wf_cache (wlCache s)" using assms by (simp add: tree_inv_def)
  obtain r s' where run: "zapSubtree K fd p s = (Inr r, s')"
    "cache_map (wlCache s') \<subseteq>\<^sub>m cache_map (wlCache s)"
    "case r of Some m \<Rightarrow> m + used_slots (wlCache s') = used_slots (wlCache s)
      | None \<Rightarrow> \<exists>d k e k'. os_rm_watch K fd d k = (Inl e, k') \<and> cache_map (wlCache s') d \<noteq> None"
    using zap_slots_outcome [of s1 "[0..<length (wlCache s)]" K fd p 0, unfolded s1(2) add_0] s1(1) wf by auto
  have inv: "tree_inv s'" using keepsD [OF keeps_zapSubtree assms, of K fd p] run(1) by simp
  show ?thesis
  proof (cases r)
    case None
    with run inv show ?thesis by auto
  next
    case (Some m)
    have "wlCache s' = map (\<lambda>w. if wd w \<ge> 0 \<and> in_subtree p (path w) then empty_slot else w) (wlCache s)"
      using zapSubtree_Some [OF run(1) [unfolded Some]] by (simp add: zapped_def [abs_def])
    then have "cache_map (wlCache s') d = (case cache_map (wlCache s) d of None \<Rightarrow> None
        | Some q \<Rightarrow> if in_subtree p q then None else Some q)" for d
      using cache_map_clears [OF wf] by simp
    with Some run inv show ?thesis
      by (intro exI [of _ r] exI [of _ s']) (simp add: in_subtree_iff split: option.splits)
  qed
qed

theorem zapSubtree_removes_witness:
  "\<exists>r s'. zapSubtree demo_os 3 ''/a'' (demo_ist [\<lparr>wd = 4, path = ''/a''\<rparr>] [Some ''/a'']) = (Inr r, s') \<and> tree_inv s' \<and>
     (case r of
        Some m \<Rightarrow> used_slots (wlCache s') + m = used_slots [\<lparr>wd = 4, path = ''/a''\<rparr>] \<and>
          (\<forall>d. cache_map (wlCache s') d = (case cache_map [\<lparr>wd = 4, path = ''/a''\<rparr>] d of None \<Rightarrow> None
            | Some q \<Rightarrow> if q = ''/a'' \<or> (\<exists>t. q = ''/a'' @ ''/'' @ t) then None else Some q))
      | None \<Rightarrow> cache_map (wlCache s') \<subseteq>\<^sub>m cache_map [\<lparr>wd = 4, path = ''/a''\<rparr>] \<and>
          (\<exists>d k e k'. os_rm_watch demo_os 3 d k = (Inl e, k') \<and> cache_map (wlCache s') d \<noteq> None))"
  using zapSubtree_removes [OF demo_inv(1), where K = demo_os and fd = 3 and p = "''/a''", unfolded demo_ist_sel] .

lemma copyRootDirPaths_run:
  assumes "wf_cache (wlCache s)" "copyRootDirPaths K argv s = (Inr (), s')"
  shows "rootDirPaths s' = map Some argv \<and> tree_inv s' \<and>
     (\<forall>p \<in> set argv. \<exists>k k' sb. os_lstat K p k = (Inr sb, k') \<and> st_isdir sb) \<and>
     length (rootDirStat s') = length argv \<and>
     distinct (map (\<lambda>sb. (st_ino sb, st_dev sb)) (rootDirStat s'))"
proof -
  obtain u1 s1 where s1: "forM argv (check_root K) s = (Inr u1, s1)"
    using assms(2) by (auto simp: copyRootDirPaths_def bnd_apply split: prod.splits sum.splits)
  from forM_check_root [OF s1] obtain k1 where dirs: "s1 = s\<lparr>kern := k1\<rparr>"
    "\<forall>p \<in> set argv. \<exists>k k' sb. os_lstat K p k = (Inr sb, k') \<and> st_isdir sb" by blast
  let ?n = "length argv"
  obtain k2 b s3 where s3: "forM [0..<?n] (copy_root K b argv)
      (s\<lparr>rootDirPaths := replicate ?n None, rootDirStat := [], kern := k2\<rparr>) = (Inr (), s3)"
    "s' = s3\<lparr>ignoreRootDirs := 0\<rparr>"
    using assms(2) s1 dirs(1)
    by (auto simp: copyRootDirPaths_def bnd_apply os_plain_def split: prod.splits sum.splits if_splits)
  from forM_copy_root [OF s3(1)] dirs(2) s3(2) assms(1) show ?thesis
    by (simp add: tree_inv_def filter_empty_conv)
qed

text \<open>The command-line directories. When \<open>copyRootDirPaths\<close> returns, every argument was seen to
  be a directory, the root table holds the arguments in order, no two of them are the same
  file-system object, and the invariant of the program holds if the cache was well formed.\<close>

theorem copyRootDirPaths_roots:
  assumes "wf_cache (wlCache s)" "copyRootDirPaths K argv s = (Inr (), s')"
  shows "rootDirPaths s' = map Some argv \<and> tree_inv s' \<and>
     (\<forall>p \<in> set argv. \<exists>k k' sb. os_lstat K p k = (Inr sb, k') \<and> st_isdir sb) \<and>
     length (rootDirStat s') = length argv \<and>
     distinct (map (\<lambda>sb. (st_ino sb, st_dev sb)) (rootDirStat s'))"
  using copyRootDirPaths_run [OF assms] .

theorem copyRootDirPaths_roots_witness:
  "let s' = snd (copyRootDirPaths demo_os [''/a'', ''/bb''] (demo_ist [] [])) in
   rootDirPaths s' = [Some ''/a'', Some ''/bb''] \<and> tree_inv s'"
proof -
  have "fst (copyRootDirPaths demo_os [''/a'', ''/bb''] (demo_ist [] [])) = Inr ()"
    by code_simp
  then have "copyRootDirPaths demo_os [''/a'', ''/bb''] (demo_ist [] []) =
      (Inr (), snd (copyRootDirPaths demo_os [''/a'', ''/bb''] (demo_ist [] [])))"
    by (metis prod.collapse)
  from copyRootDirPaths_roots [OF _ this] show ?thesis by (simp add: wf_cache_def)
qed

text \<open>Giving up a root directory. \<open>zapRootDirPath\<close> on a well-formed state: an unknown pathname
  exits with failure; a known one is cleared at its first position and the count of given-up
  roots grows by one; and the process exits successfully exactly when no root pathname is
  left, in which case no entry of the table is set.\<close>

theorem zapRootDirPath_accounts:
  assumes "tree_inv s"
  shows "case zapRootDirPath p s of (r, s') \<Rightarrow> tree_inv s' \<and>
    (case findRootDirPath p (rootDirPaths s) of
       None \<Rightarrow> r = Inl (Exit EXIT_FAILURE) \<and> rootDirPaths s' = rootDirPaths s
     | Some j \<Rightarrow> rootDirPaths s' = (rootDirPaths s)[j := None] \<and> ignoreRootDirs s' = ignoreRootDirs s + 1 \<and>
         r = (if \<forall>q \<in> set (rootDirPaths s'). q = None then Inl (Exit EXIT_SUCCESS) else Inr ()))"
proof (cases "zapRootDirPath p s")
  case (Pair r s')
  have inv: "tree_inv s'" using keepsD [OF keeps_zapRootDirPath assms, of p] Pair by simp
  show ?thesis
  proof (cases "findRootDirPath p (rootDirPaths s)")
    case None
    with Pair inv show ?thesis
      by (auto simp: zapRootDirPath_def out_put_def err_put_def exit3_def)
  next
    case (Some j)
    with Pair have s': "rootDirPaths s' = (rootDirPaths s)[j := None]" "ignoreRootDirs s' = ignoreRootDirs s + 1"
      "r = (if ignoreRootDirs s + 1 = length (rootDirPaths s) then Inl (Exit EXIT_SUCCESS) else Inr ())"
      by (auto simp: zapRootDirPath_def out_put_def err_put_def exit3_def split: if_splits)
    have "ignoreRootDirs s' = length (rootDirPaths s') \<longleftrightarrow> (\<forall>q \<in> set (rootDirPaths s'). q = None)"
      using inv by (simp add: tree_inv_def length_filter_all)
    with Pair inv Some s' show ?thesis by simp
  qed
qed

theorem zapRootDirPath_accounts_witness:
  "case zapRootDirPath ''/a'' (demo_ist [\<lparr>wd = 4, path = ''/a''\<rparr>] [Some ''/a'']) of (r, s') \<Rightarrow> tree_inv s' \<and>
    (case findRootDirPath ''/a'' [Some ''/a''] of
       None \<Rightarrow> r = Inl (Exit EXIT_FAILURE) \<and> rootDirPaths s' = [Some ''/a'']
     | Some j \<Rightarrow> rootDirPaths s' = [Some ''/a''][j := None] \<and>
         ignoreRootDirs s' = length (filter (\<lambda>r. r = None) [Some ''/a'']) + 1 \<and>
         r = (if \<forall>q \<in> set (rootDirPaths s'). q = None then Inl (Exit EXIT_SUCCESS) else Inr ()))"
  using zapRootDirPath_accounts [OF demo_inv(1), where p = "''/a''", unfolded demo_ist_sel] .

end
