(* ===== verification/Getopt.thy ===== *)
theory Getopt
  imports CLib "HOL-Library.Sublist"
begin

text \<open>
  What the programs use of \<^verbatim>\<open>getopt(3)\<close>: the sequence of results of the calls made until -1, and
  the operands left in \<^verbatim>\<open>argv\<close> from \<^verbatim>\<open>optind\<close> on (the operands are moved behind the options; \<^verbatim>\<open>--\<close>
  ends the options). An option that is unknown or lacks its argument is reported as \<^verbatim>\<open>'?'\<close>.
\<close>

datatype getopt_result =
    Opt char "string option"
  | UnknownOpt char
  | MissingArg char

definition opt_known :: "string \<Rightarrow> char \<Rightarrow> bool" where
  "opt_known spec c \<longleftrightarrow> c \<noteq> CHR '':'' \<and> c \<in> set spec"

definition opt_takes_arg :: "string \<Rightarrow> char \<Rightarrow> bool" where
  "opt_takes_arg spec c \<longleftrightarrow>
     (case strchr spec c of None \<Rightarrow> False | Some (_, r) \<Rightarrow> (case r of _ # d # _ \<Rightarrow> d = CHR '':'' | _ \<Rightarrow> False))"

text \<open>\<open>getopt_scan spec cluster args\<close>: \<open>cluster\<close> holds the option letters left in the current
  argument.\<close>

fun getopt_scan :: "string \<Rightarrow> string \<Rightarrow> string list \<Rightarrow> getopt_result list \<times> string list" where
  "getopt_scan spec [] [] = ([], [])"
| "getopt_scan spec [] (a # as) =
     (if a = ''--'' then ([], as)
      else if a \<noteq> [] \<and> hd a = CHR ''-'' \<and> tl a \<noteq> [] then getopt_scan spec (tl a) as
      else let (os, ops) = getopt_scan spec [] as in (os, a # ops))"
| "getopt_scan spec (c # cs) as =
     (if \<not> opt_known spec c then let (os, ops) = getopt_scan spec cs as in (UnknownOpt c # os, ops)
      else if \<not> opt_takes_arg spec c then let (os, ops) = getopt_scan spec cs as in (Opt c None # os, ops)
      else if cs \<noteq> [] then let (os, ops) = getopt_scan spec [] as in (Opt c (Some cs) # os, ops)
      else (case as of [] \<Rightarrow> ([MissingArg c], [])
        | a # as' \<Rightarrow> let (os, ops) = getopt_scan spec [] as' in (Opt c (Some a) # os, ops)))"

definition getopt :: "string \<Rightarrow> string list \<Rightarrow> getopt_result list \<times> string list" where
  "getopt spec args = getopt_scan spec [] args"

text \<open>What \<^verbatim>\<open>getopt\<close> itself prints on stderr before it returns \<^verbatim>\<open>'?'\<close>.\<close>

definition getopt_message :: "string \<Rightarrow> getopt_result \<Rightarrow> string" where
  "getopt_message pname r = (case r of
      Opt _ _ \<Rightarrow> []
    | UnknownOpt c \<Rightarrow> pname @ '': invalid option -- '' @ [CHR 39, c, CHR 39, NL]
    | MissingArg c \<Rightarrow> pname @ '': option requires an argument -- '' @ [CHR 39, c, CHR 39, NL])"

text \<open>An option result is a letter of the specification, with an argument exactly when the
  specification asks for one.\<close>

lemma getopt_scan_sound:
  "Opt c v \<in> set (fst (getopt_scan spec cl as)) \<Longrightarrow>
     opt_known spec c \<and> (v \<noteq> None \<longleftrightarrow> opt_takes_arg spec c)"
  by (induction spec cl as rule: getopt_scan.induct)
    (auto simp: Let_def split: if_splits prod.splits list.splits)

lemma getopt_sound:
  "Opt c v \<in> set (fst (getopt spec as)) \<Longrightarrow> opt_known spec c \<and> (v \<noteq> None \<longleftrightarrow> opt_takes_arg spec c)"
  unfolding getopt_def by (rule getopt_scan_sound)

text \<open>Arguments that do not start with a dash are all operands.\<close>

lemma getopt_operands:
  "\<forall>a \<in> set as. a = [] \<or> hd a \<noteq> CHR ''-'' \<Longrightarrow> getopt spec as = ([], as)"
  unfolding getopt_def by (induction as) auto

section \<open>Without permutation\<close>

text \<open>With a specification that starts with \<^verbatim>\<open>+\<close> the scan ends at the first operand.\<close>

fun getopt_scan_plus :: "string \<Rightarrow> string \<Rightarrow> string list \<Rightarrow> getopt_result list \<times> string list" where
  "getopt_scan_plus spec [] [] = ([], [])"
| "getopt_scan_plus spec [] (a # as) =
     (if a = ''--'' then ([], as)
      else if a \<noteq> [] \<and> hd a = CHR ''-'' \<and> tl a \<noteq> [] then getopt_scan_plus spec (tl a) as
      else ([], a # as))"
| "getopt_scan_plus spec (c # cs) as =
     (if \<not> opt_known spec c then let (os, ops) = getopt_scan_plus spec cs as in (UnknownOpt c # os, ops)
      else if \<not> opt_takes_arg spec c then let (os, ops) = getopt_scan_plus spec cs as in (Opt c None # os, ops)
      else if cs \<noteq> [] then let (os, ops) = getopt_scan_plus spec [] as in (Opt c (Some cs) # os, ops)
      else (case as of [] \<Rightarrow> ([MissingArg c], [])
        | a # as' \<Rightarrow> let (os, ops) = getopt_scan_plus spec [] as' in (Opt c (Some a) # os, ops)))"

definition getopt_plus :: "string \<Rightarrow> string list \<Rightarrow> getopt_result list \<times> string list" where
  "getopt_plus spec args = getopt_scan_plus spec [] args"

lemma getopt_scan_plus_sound:
  "Opt c v \<in> set (fst (getopt_scan_plus spec cl as)) \<Longrightarrow>
     opt_known spec c \<and> (v \<noteq> None \<longleftrightarrow> opt_takes_arg spec c)"
  by (induction spec cl as rule: getopt_scan_plus.induct)
    (auto simp: Let_def split: if_splits prod.splits list.splits)

lemma getopt_plus_sound:
  "Opt c v \<in> set (fst (getopt_plus spec as)) \<Longrightarrow> opt_known spec c \<and> (v \<noteq> None \<longleftrightarrow> opt_takes_arg spec c)"
  unfolding getopt_plus_def by (rule getopt_scan_plus_sound)

text \<open>The operands are the tail of the arguments: an operand's own options are not touched.\<close>

lemma getopt_scan_plus_suffix: "suffix (snd (getopt_scan_plus spec cl as)) as"
  by (induction spec cl as rule: getopt_scan_plus.induct)
    (auto simp: split_def Let_def suffix_Cons split: list.splits)

end
