(* ===== verification/Inotify_Events.thy ===== *)
theory Inotify_Events
  imports Inotify_Tree Getopt
begin

text \<open>
  \<^verbatim>\<open>tlpi-book/inotify/inotify_dtree.c\<close>, third part: decoding the event buffer, the handler of one
  event, the loop over a read buffer, the interactive commands and the main program.

  The buffer is the string of bytes from the current event to the end of what was read, so
  that the pointer arithmetic of the code becomes \<open>drop\<close>. Reading a header or a name that is
  not inside it is \<open>Undef\<close>, and so is the use of \<^verbatim>\<open>evCacheSlot\<close> before it is assigned.
\<close>

section \<open>Events\<close>

record inotify_event =
  ev_wd :: int
  ev_mask :: "32 word"
  ev_cookie :: "32 word"
  ev_len :: nat
  ev_name :: "string option"

text \<open>A little-endian 32-bit field and \<^verbatim>\<open>struct inotify_event\<close> at the start of a buffer.\<close>

definition le32 :: "string \<Rightarrow> 32 word" where
  "le32 bs = word_of_nat (foldr (\<lambda>c n. of_char c + 256 * n) (take 4 bs) 0)"

definition c_str :: "string \<Rightarrow> string option" where
  "c_str bs = (if NUL \<in> set bs then Some (takeWhile (\<lambda>c. c \<noteq> NUL) bs) else None)"

definition event_at :: "string \<Rightarrow> inotify_event option" where
  "event_at buf =
     (if length buf < EV_HDR then None
      else Some \<lparr>ev_wd = sint (le32 buf), ev_mask = le32 (drop 4 buf), ev_cookie = le32 (drop 8 buf),
        ev_len = unat (le32 (drop 12 buf)), ev_name = c_str (drop EV_HDR buf)\<rparr>)"

definition has :: "inotify_event \<Rightarrow> 32 word \<Rightarrow> bool" where
  "has ev m \<longleftrightarrow> ev_mask ev AND m \<noteq> 0"

definition with_name :: "inotify_event \<Rightarrow> (string \<Rightarrow> ('k ist, 'a) prog) \<Rightarrow> ('k ist, 'a) prog" where
  "with_name ev f = (case ev_name ev of None \<Rightarrow> stop Undef | Some n \<Rightarrow> f n)"

definition displayInotifyEvent :: "inotify_event \<Rightarrow> ('k ist, unit) prog" where
  "displayInotifyEvent ev =
     seqM [logMessage VB_NOISY (''==> wd = '' @ show_int (ev_wd ev) @ ''; ''),
       whenM (ev_cookie ev > 0) (logMessage VB_NOISY (''cookie = '' @ pad_left 4 (show_int (sint (ev_cookie ev))) @ ''; '')),
       logMessage VB_NOISY ''mask = '',
       whenM (has ev IN_ISDIR) (logMessage VB_NOISY ''IN_ISDIR ''),
       whenM (has ev IN_CREATE) (logMessage VB_NOISY ''IN_CREATE ''),
       whenM (has ev IN_DELETE_SELF) (logMessage VB_NOISY ''IN_DELETE_SELF ''),
       whenM (has ev IN_MOVE_SELF) (logMessage VB_NOISY ''IN_MOVE_SELF ''),
       whenM (has ev IN_MOVED_FROM) (logMessage VB_NOISY ''IN_MOVED_FROM ''),
       whenM (has ev IN_MOVED_TO) (logMessage VB_NOISY ''IN_MOVED_TO ''),
       whenM (has ev IN_IGNORED) (logMessage VB_NOISY ''IN_IGNORED ''),
       whenM (has ev IN_Q_OVERFLOW) (logMessage VB_NOISY ''IN_Q_OVERFLOW ''),
       whenM (has ev IN_UNMOUNT) (logMessage VB_NOISY ''IN_UNMOUNT ''),
       logMessage VB_NOISY [NL],
       whenM (ev_len ev > 0) (with_name ev (\<lambda>n. logMessage VB_NOISY (''        name = '' @ n @ [NL])))]"

section \<open>The handler of one event\<close>

text \<open>A branch of the handler either returns at once or goes on to the common end with the
  number of bytes consumed.\<close>

datatype ev_result = Return int | Continue nat

definition slot_path :: "nat option \<Rightarrow> (string \<Rightarrow> ('k ist, 'a) prog) \<Rightarrow> ('k ist, 'a) prog" where
  "slot_path slot f = (case slot of None \<Rightarrow> stop Undef
     | Some j \<Rightarrow> bnd (gets (\<lambda>s. path (wlCache s ! j))) f)"

definition reinit_fd :: "'k inotify_os \<Rightarrow> ('k ist, unit) prog" where
  "reinit_fd K =
     bnd (gets inotifyFd) (\<lambda>fd.
     bnd (reinitialize K fd) (\<lambda>fd'.
     modify (\<lambda>s. s\<lparr>inotifyFd := fd'\<rparr>)))"

definition discard :: "'k inotify_os \<Rightarrow> ('k ist, ev_result) prog" where
  "discard K = andthen (reinit_fd K) (ret (Return (int INOTIFY_READ_BUF_LEN)))"

definition FULL_PATH :: nat where "FULL_PATH = PATH_MAX + NAME_MAX"

definition ev_created :: "'k inotify_os \<Rightarrow> inotify_event \<Rightarrow> nat option \<Rightarrow> nat \<Rightarrow> ('k ist, ev_result) prog" where
  "ev_created K ev slot evLen =
     slot_path slot (\<lambda>p. with_name ev (\<lambda>n.
       let fullPath = snprintf FULL_PATH (p @ ''/'' @ n) in
       bnd (logMessage VB_BASIC (''Directory creation on wd '' @ show_int (ev_wd ev) @ '': '' @ fullPath @ [NL])) (\<lambda>_.
       bnd (gets (\<lambda>s. pathnameInCache fullPath (wlCache s))) (\<lambda>cached.
       bnd (gets inotifyFd) (\<lambda>fd.
       bnd (whenM (\<not> cached) (watchSubtree K fd fullPath)) (\<lambda>_.
       ret (Continue evLen)))))))"

definition ev_deleted :: "inotify_event \<Rightarrow> nat option \<Rightarrow> nat \<Rightarrow> ('k ist, ev_result) prog" where
  "ev_deleted ev slot evLen =
     slot_path slot (\<lambda>p.
       bnd (logMessage VB_BASIC (''Clearing watchlist item '' @ show_int (ev_wd ev) @ '' ('' @ p @ '')'' @ [NL])) (\<lambda>_.
       bnd (gets (\<lambda>s. isRootDirPath p (rootDirPaths s))) (\<lambda>root.
       bnd (whenM root (zapRootDirPath p)) (\<lambda>_.
       bnd (markCacheSlotEmpty (the slot)) (\<lambda>_.
       ret (Continue evLen))))))"

definition ev_renamed ::
  "'k inotify_os \<Rightarrow> inotify_event \<Rightarrow> inotify_event \<Rightarrow> nat option \<Rightarrow> nat \<Rightarrow> ('k ist, ev_result) prog" where
  "ev_renamed K ev nextEv slot evLen =
     bnd (findWatchChecked K (ev_wd nextEv)) (\<lambda>nextSlot.
     if nextSlot = None then discard K else
     slot_path slot (\<lambda>p. slot_path nextSlot (\<lambda>q. with_name ev (\<lambda>n. with_name nextEv (\<lambda>n'.
       bnd (rewriteCachedPaths p n q n') (\<lambda>_.
       ret (Continue (evLen + EV_HDR + ev_len nextEv))))))))"

definition ev_moved_out ::
  "'k inotify_os \<Rightarrow> inotify_event \<Rightarrow> bool \<Rightarrow> int \<Rightarrow> nat option \<Rightarrow> nat \<Rightarrow> ('k ist, ev_result) prog" where
  "ev_moved_out K ev firstTry remaining slot evLen =
     slot_path slot (\<lambda>p. with_name ev (\<lambda>n.
       bnd (logMessage VB_NOISY (''MOVED_OUT: '' @ os_fmt_ptr K p @ '' '' @ os_fmt_ptr K n @ [NL])) (\<lambda>_.
       bnd (logMessage VB_NOISY (''firstTry = '' @ show_int (of_bool firstTry) @ ''; remaining bytes = '' @
         show_int remaining @ [NL])) (\<lambda>_.
       bnd (gets inotifyFd) (\<lambda>fd.
       bnd (zapSubtree K fd (snprintf FULL_PATH (p @ ''/'' @ n))) (\<lambda>cnt.
       if cnt = None then discard K else ret (Continue evLen)))))))"

text \<open>\<open>next_event\<close>: the test whether the buffer goes on with the matching \<^verbatim>\<open>IN_MOVED_TO\<close>.\<close>

definition ev_moved_from ::
  "'k inotify_os \<Rightarrow> string \<Rightarrow> inotify_event \<Rightarrow> bool \<Rightarrow> nat option \<Rightarrow> nat \<Rightarrow> ('k ist, ev_result) prog" where
  "ev_moved_from K buf ev firstTry slot evLen =
     (if evLen < length buf then
        case event_at (drop evLen buf) of
          None \<Rightarrow> stop Undef
        | Some nextEv \<Rightarrow>
            if has nextEv IN_MOVED_TO \<and> ev_cookie nextEv = ev_cookie ev
            then ev_renamed K ev nextEv slot evLen
            else ev_moved_out K ev firstTry (int (length buf) - int evLen) slot evLen
      else if \<not> firstTry then ev_moved_out K ev firstTry (int (length buf) - int evLen) slot evLen
      else bnd (logMessage VB_NOISY (''HANGING IN_MOVED_FROM'' @ [NL])) (\<lambda>_. ret (Return (- 1))))"

definition ev_overflow :: "'k inotify_os \<Rightarrow> ('k ist, ev_result) prog" where
  "ev_overflow K =
     bnd (modify (\<lambda>s. s\<lparr>overflowCnt := overflowCnt s + 1\<rparr>)) (\<lambda>_.
     bnd (gets overflowCnt) (\<lambda>n.
     bnd (gets inotifyReadCnt) (\<lambda>c.
     bnd (logMessage 0 (''Queue overflow ('' @ show_nat n @ '') (inotifyReadCnt = '' @ show_int c @ '')'' @ [NL])) (\<lambda>_.
     bnd (reinit_fd K) (\<lambda>_.
     ret (Continue INOTIFY_READ_BUF_LEN))))))"

definition ev_unmounted :: "nat option \<Rightarrow> nat \<Rightarrow> ('k ist, ev_result) prog" where
  "ev_unmounted slot evLen =
     slot_path slot (\<lambda>p.
       bnd (logMessage 0 (''Filesystem unmounted: '' @ p @ [NL])) (\<lambda>_.
       bnd (markCacheSlotEmpty (the slot)) (\<lambda>_.
       ret (Continue evLen))))"

definition ev_move_self :: "'k inotify_os \<Rightarrow> nat option \<Rightarrow> nat \<Rightarrow> ('k ist, ev_result) prog" where
  "ev_move_self K slot evLen =
     slot_path slot (\<lambda>p.
     bnd (gets (\<lambda>s. isRootDirPath p (rootDirPaths s))) (\<lambda>root.
     if \<not> root then ret (Continue evLen) else
       bnd (logMessage 0 (''Root path moved: '' @ p @ [NL])) (\<lambda>_.
       bnd (zapRootDirPath p) (\<lambda>_.
       bnd (gets inotifyFd) (\<lambda>fd.
       bnd (zapSubtree K fd p) (\<lambda>cnt.
       if cnt = None then discard K else ret (Continue evLen)))))))"

text \<open>The chain of \<^verbatim>\<open>if\<close> / \<^verbatim>\<open>else if\<close> on the event mask.\<close>

definition ev_branch ::
  "'k inotify_os \<Rightarrow> string \<Rightarrow> inotify_event \<Rightarrow> bool \<Rightarrow> nat option \<Rightarrow> nat \<Rightarrow> ('k ist, ev_result) prog" where
  "ev_branch K buf ev firstTry slot evLen =
     (if has ev IN_ISDIR \<and> has ev (IN_CREATE OR IN_MOVED_TO) then ev_created K ev slot evLen
      else if has ev IN_DELETE_SELF then ev_deleted ev slot evLen
      else if ev_mask ev AND (IN_MOVED_FROM OR IN_ISDIR) = IN_MOVED_FROM OR IN_ISDIR
      then ev_moved_from K buf ev firstTry slot evLen
      else if has ev IN_Q_OVERFLOW then ev_overflow K
      else if has ev IN_UNMOUNT then ev_unmounted slot evLen
      else if has ev IN_MOVE_SELF then ev_move_self K slot evLen
      else ret (Continue evLen))"

definition ev_finish :: "'k inotify_os \<Rightarrow> ev_result \<Rightarrow> ('k ist, int) prog" where
  "ev_finish K r = (case r of Return n \<Rightarrow> ret n
     | Continue evLen \<Rightarrow>
         bnd (gets checkCache) (\<lambda>cc.
         bnd (whenM cc (checkCacheConsistency K)) (\<lambda>_.
         bnd (gets dumpCache) (\<lambda>dc.
         bnd (whenM dc dumpCacheToLog) (\<lambda>_.
         ret (int evLen))))))"

definition processNextInotifyEvent :: "'k inotify_os \<Rightarrow> string \<Rightarrow> bool \<Rightarrow> ('k ist, int) prog" where
  "processNextInotifyEvent K buf firstTry =
     (case event_at buf of None \<Rightarrow> stop Undef | Some ev \<Rightarrow>
      let evLen = EV_HDR + ev_len ev in
      andthen (displayInotifyEvent ev)
        (bnd (if ev_wd ev \<noteq> - 1 \<and> \<not> has ev IN_IGNORED
              then bnd (findWatchChecked K (ev_wd ev)) (\<lambda>slot.
                   if slot = None then discard K else ev_branch K buf ev firstTry slot evLen)
              else ev_branch K buf ev firstTry None evLen)
           (ev_finish K)))"

section \<open>The loop over a read buffer\<close>

text \<open>The \<^verbatim>\<open>else\<close> part of the loop: a second read, after a hanging \<^verbatim>\<open>IN_MOVED_FROM\<close>. \<open>rem\<close> is what
  is left of the buffer; the result is the new content. As in the code, the byte count is
  updated with the result of \<^verbatim>\<open>read\<close> unless \<^verbatim>\<open>errno\<close> is -1, so that an interrupted read takes
  one byte off.\<close>

definition second_read :: "'k inotify_os \<Rightarrow> string \<Rightarrow> ('k ist, string) prog" where
  "second_read K rem =
     bnd (os_eff (os_ualarm K 2000)) (\<lambda>_.
     bnd (gets inotifyFd) (\<lambda>fd.
     bnd (os_call (os_read K fd (INOTIFY_READ_BUF_LEN - length rem))) (\<lambda>r.
     bnd (gets errno) (\<lambda>savedErrno.
     bnd (os_eff (os_ualarm K 0)) (\<lambda>_.
     bnd (modify (\<lambda>s. s\<lparr>errno := savedErrno\<rparr>)) (\<lambda>_.
     if (case r of Inl _ \<Rightarrow> savedErrno \<noteq> EINTR | Inr _ \<Rightarrow> False) then perrorExit K ''read'' else
     if r = Inr [] then
       andthen (err_put ''read() from inotify fd returned 0!'') (exit3 EXIT_FAILURE) else
     let nr = (case r of Inl _ \<Rightarrow> - 1 | Inr bs \<Rightarrow> int (length bs)) in
     if savedErrno \<noteq> - 1 then
       bnd (modify (\<lambda>s. s\<lparr>inotifyReadCnt := inotifyReadCnt s + 1\<rparr>)) (\<lambda>_.
       bnd (gets inotifyReadCnt) (\<lambda>c.
       bnd (logMessage VB_NOISY ([NL] @ ''==========> SECONDARY Read '' @ show_int c @ '': got '' @
         show_int nr @ '' bytes'' @ [NL])) (\<lambda>_.
       ret (case r of Inl _ \<Rightarrow> butlast rem | Inr bs \<Rightarrow> rem @ bs))))
     else
       bnd (logMessage VB_NOISY ([NL] @ ''==========> SECONDARY Read got nothing'' @ [NL])) (\<lambda>_.
       ret rem)))))))"

partial_function (option) ev_loop ::
  "'k inotify_os \<Rightarrow> string \<Rightarrow> bool \<Rightarrow> 'k ist \<Rightarrow> ((halt + unit) \<times> 'k ist) option" where
  "ev_loop K rem firstTry s =
     (if rem = [] then Some (Inr (), s)
      else case processNextInotifyEvent K rem firstTry s of
          (Inl h, s1) \<Rightarrow> Some (Inl h, s1)
        | (Inr n, s1) \<Rightarrow>
            (let evLen = to_s32 n in
             if evLen > 0 then ev_loop K (drop (nat evLen) rem) True s1
             else case second_read K rem s1 of
                 (Inl h, s2) \<Rightarrow> Some (Inl h, s2)
               | (Inr rem', s2) \<Rightarrow> ev_loop K rem' False s2))"

text \<open>The part of \<^verbatim>\<open>processInotifyEvents\<close> before the loop: the first read.
  The buffer has \<^verbatim>\<open>INOTIFY_READ_BUF_LEN\<close> bytes, whatever size the user asked for.\<close>

definition first_read :: "'k inotify_os \<Rightarrow> ('k ist, string) prog" where
  "first_read K =
     bnd (os_call (os_sigaction K)) (\<lambda>r0. case r0 of Inl _ \<Rightarrow> perrorExit K ''sigaction'' | Inr _ \<Rightarrow>
     bnd (gets readBufferSize) (\<lambda>b.
     bnd (gets inotifyFd) (\<lambda>fd.
     bnd (os_call (os_read K fd (if b > 0 then nat b else INOTIFY_READ_BUF_LEN))) (\<lambda>r. case r of
         Inl _ \<Rightarrow> perrorExit K ''read''
       | Inr bs \<Rightarrow>
         if length bs > INOTIFY_READ_BUF_LEN then stop Undef else
         if bs = [] then andthen (err_put ''read() from inotify fd returned 0!'') (exit3 EXIT_FAILURE) else
         bnd (modify (\<lambda>s. s\<lparr>inotifyReadCnt := inotifyReadCnt s + 1\<rparr>)) (\<lambda>_.
         bnd (gets inotifyReadCnt) (\<lambda>c.
         bnd (logMessage VB_NOISY ([NL] @ ''==========> Read '' @ show_int c @ '': got '' @
           show_nat (length bs) @ '' bytes'' @ [NL])) (\<lambda>_.
         ret bs)))))))"

definition processInotifyEvents :: "'k inotify_os \<Rightarrow> 'k ist \<Rightarrow> ((halt + unit) \<times> 'k ist) option" where
  "processInotifyEvents K s = (case first_read K s of
      (Inl h, s1) \<Rightarrow> Some (Inl h, s1)
    | (Inr bs, s1) \<Rightarrow> ev_loop K bs True s1)"

section \<open>Interactive commands\<close>

definition MAX_LINE :: nat where "MAX_LINE = 100"

text \<open>\<^verbatim>\<open>sscanf(line, "%c %s\n", &cmd, arg)\<close> on a nonempty line: the command character and, when a
  second word is there, the argument.\<close>

definition scan_command :: "string \<Rightarrow> char \<times> string option" where
  "scan_command line = (hd line,
     let w = dropWhile isspace (tl line) in
     if w = [] then None else Some (takeWhile (\<lambda>c. \<not> isspace c) w))"

definition with_arg :: "string option \<Rightarrow> (string \<Rightarrow> ('k ist, 'a) prog) \<Rightarrow> ('k ist, 'a) prog" where
  "with_arg arg f = (case arg of None \<Rightarrow> stop Undef | Some a \<Rightarrow> f a)"

definition cnt_of :: "nat option \<Rightarrow> int" where
  "cnt_of r = (case r of None \<Rightarrow> - 1 | Some n \<Rightarrow> int n)"

definition cmd_add :: "'k inotify_os \<Rightarrow> string option \<Rightarrow> ('k ist, unit) prog" where
  "cmd_add K arg = with_arg arg (\<lambda>a.
     bnd (gets inotifyFd) (\<lambda>fd.
     bnd (zapSubtree K fd a) (\<lambda>cnt.
     bnd (if cnt_of cnt = 0 then logMessage VB_BASIC (''Adding new subtree: '' @ a @ [NL])
          else logMessage VB_BASIC (''Zapped: '' @ a @ '', '' @ show_int (cnt_of cnt) @ '' entries'' @ [NL])) (\<lambda>_.
     watchSubtree K fd a))))"

text \<open>The loop of the \<^verbatim>\<open>c\<close> and \<^verbatim>\<open>C\<close> commands; \<open>verbose\<close> is \<^verbatim>\<open>cmd == 'c'\<close>.\<close>

primrec cmd_check_slots ::
  "'k inotify_os \<Rightarrow> bool \<Rightarrow> watch list \<Rightarrow> nat list \<Rightarrow> nat \<times> nat \<Rightarrow> ('k ist, nat \<times> nat) prog" where
  "cmd_check_slots K verbose c [] acc = ret acc"
| "cmd_check_slots K verbose c (j # js) acc =
     (if wd (c ! j) \<ge> 0 then
        bnd (os_call (os_lstat K (path (c ! j)))) (\<lambda>r. case r of
            Inl e \<Rightarrow>
              bnd (whenM verbose (logMessage VB_BASIC (''stat: [slot = '' @ show_nat j @ ''; wd = '' @
                show_int (wd (c ! j)) @ ''] '' @ path (c ! j) @ '': '' @ os_strerror K e @ [NL]))) (\<lambda>_.
              cmd_check_slots K verbose c js (fst acc, snd acc + 1))
          | Inr sb \<Rightarrow>
              if \<not> st_isdir sb then
                andthen (whenM verbose (logMessage 0 (path (c ! j) @ '' is not a directory'' @ [NL])))
                  (exit3 EXIT_FAILURE)
              else
                bnd (whenM verbose (logMessage VB_NOISY (''OK: [slot = '' @ show_nat j @ ''; wd = '' @
                  show_int (wd (c ! j)) @ ''] '' @ path (c ! j) @ [NL]))) (\<lambda>_.
                cmd_check_slots K verbose c js (fst acc + 1, snd acc)))
      else cmd_check_slots K verbose c js acc)"

definition cmd_check :: "'k inotify_os \<Rightarrow> bool \<Rightarrow> ('k ist, unit) prog" where
  "cmd_check K verbose =
     bnd (gets wlCache) (\<lambda>c.
     bnd (cmd_check_slots K verbose c [0..<length c] (0, 0)) (\<lambda>(cnt, failures).
     andthen (logMessage 0 (''Successfully verified '' @ show_nat cnt @ '' entries'' @ [NL]))
       (logMessage 0 (''Failures: '' @ show_nat failures @ [NL]))))"

definition cmd_list :: "('k ist, unit) prog" where
  "cmd_list =
     bnd (gets wlCache) (\<lambda>c.
       let used = filter (\<lambda>j. wd (c ! j) \<ge> 0) [0..<length c] in
       andthen (forM used (\<lambda>j. logMessage 0 (show_nat j @ '': '' @ show_int (wd (c ! j)) @ '' '' @
           path (c ! j) @ [NL])))
         (logMessage VB_BASIC (''Total entries: '' @ show_nat (length used) @ [NL])))"

definition on_off :: "bool \<Rightarrow> string" where
  "on_off b = (if b then ''on'' else ''off'')"

definition cmd_verbose :: "string option \<Rightarrow> ('k ist, unit) prog" where
  "cmd_verbose arg = (case arg of
      Some a \<Rightarrow> modify (\<lambda>s. s\<lparr>verboseMask := atoi a\<rparr>)
    | None \<Rightarrow>
        bnd (modify (\<lambda>s. s\<lparr>verboseMask := of_bool (verboseMask s = 0)\<rparr>)) (\<lambda>_.
        bnd (gets verboseMask) (\<lambda>v. out_put (on_off (v \<noteq> 0) @ [NL]))))"

definition cmd_dump :: "('k ist, unit) prog" where
  "cmd_dump =
     bnd (modify (\<lambda>s. s\<lparr>dumpCache := \<not> dumpCache s\<rparr>)) (\<lambda>_.
     bnd (gets dumpCache) (\<lambda>v. out_put (on_off v @ [NL])))"

definition cmd_toggle_check :: "('k ist, unit) prog" where
  "cmd_toggle_check =
     bnd (modify (\<lambda>s. s\<lparr>checkCache := \<not> checkCache s\<rparr>)) (\<lambda>_.
     bnd (gets checkCache) (\<lambda>v. out_put (on_off v @ [NL])))"

text \<open>After a failed \<^verbatim>\<open>fopen\<close> the code goes on with the null stream.\<close>

definition cmd_write :: "'k inotify_os \<Rightarrow> string option \<Rightarrow> ('k ist, unit) prog" where
  "cmd_write K arg = with_arg arg (\<lambda>a.
     bnd (os_call (os_fopen K a)) (\<lambda>r. case r of
         Inl e \<Rightarrow> bnd (err_put (''fopen: '' @ os_strerror K e @ [NL])) (\<lambda>_. stop Undef)
       | Inr _ \<Rightarrow>
           bnd (gets wlCache) (\<lambda>c.
           forM (filter (\<lambda>w. wd w \<ge> 0) c) (\<lambda>w. os_eff (os_fwrite K a (path w @ [NL]))))))"

definition cmd_zap :: "'k inotify_os \<Rightarrow> string option \<Rightarrow> ('k ist, unit) prog" where
  "cmd_zap K arg = with_arg arg (\<lambda>a.
     bnd (gets inotifyFd) (\<lambda>fd.
     bnd (zapSubtree K fd a) (\<lambda>cnt.
     logMessage VB_BASIC (''Zapped: '' @ a @ '', '' @ show_int (cnt_of cnt) @ '' entries'' @ [NL]))))"

definition cmd_rebuild :: "'k inotify_os \<Rightarrow> ('k ist, unit) prog" where
  "cmd_rebuild K =
     bnd (gets inotifyFd) (\<lambda>fd.
     bnd (os_eff (os_close K fd)) (\<lambda>_.
     bnd (reinitialize K (- 1)) (\<lambda>fd'.
     modify (\<lambda>s. s\<lparr>inotifyFd := fd'\<rparr>))))"

definition command_help :: string where
  "command_help =
     ''Commands:'' @ [NL] @
     ''0        Rebuild cache'' @ [NL] @
     ''a path   Add/refresh pathname watches and cache'' @ [NL] @
     ''c        Verify cached pathnames'' @ [NL] @
     ''d        Toggle cache dumping'' @ [NL] @
     ''l        List cached pathnames'' @ [NL] @
     ''q        Quit'' @ [NL] @
     ''v [n]    Toggle/set verbose level for messages to stderr'' @ [NL] @
     ''             0 = no messages'' @ [NL] @
     ''             1 = basic messages'' @ [NL] @
     ''             2 = verbose messages'' @ [NL] @
     ''             3 = basic and verbose messages'' @ [NL] @
     ''w file   Write directory list to file'' @ [NL] @
     ''x        Toggle cache checking'' @ [NL] @
     ''z path   Zap pathname and watches from cache'' @ [NL]"

definition run_command :: "'k inotify_os \<Rightarrow> char \<Rightarrow> string option \<Rightarrow> ('k ist, unit) prog" where
  "run_command K cmd arg =
     (if cmd = CHR ''a'' then cmd_add K arg
      else if cmd = CHR ''c'' \<or> cmd = CHR ''C'' then cmd_check K (cmd = CHR ''c'')
      else if cmd = CHR ''l'' then cmd_list
      else if cmd = CHR ''q'' then exit3 EXIT_SUCCESS
      else if cmd = CHR ''v'' then cmd_verbose arg
      else if cmd = CHR ''d'' then cmd_dump
      else if cmd = CHR ''x'' then cmd_toggle_check
      else if cmd = CHR ''w'' then cmd_write K arg
      else if cmd = CHR ''z'' then cmd_zap K arg
      else if cmd = CHR ''0'' then cmd_rebuild K
      else out_put (''Unrecognized command: '' @ [cmd, NL] @ command_help))"

text \<open>The line is what \<^verbatim>\<open>read\<close> delivered, its last byte replaced by a null byte.\<close>

definition executeCommand :: "'k inotify_os \<Rightarrow> ('k ist, unit) prog" where
  "executeCommand K =
     bnd (os_call (os_read K 0 MAX_LINE)) (\<lambda>r.
     if (case r of Inl _ \<Rightarrow> True | Inr bs \<Rightarrow> bs = [])
     then andthen (out_put (''bye!'' @ [NL])) (exit3 EXIT_FAILURE)
     else
       let line = takeWhile (\<lambda>c. c \<noteq> NUL) (butlast (case r of Inl _ \<Rightarrow> [] | Inr bs \<Rightarrow> bs)) in
       if line = [] then ret ()
       else (case scan_command line of (cmd, arg) \<Rightarrow> run_command K cmd arg))"

section \<open>The main program\<close>

definition usageError :: "string \<Rightarrow> ('k ist, 'a) prog" where
  "usageError pname =
     bnd (err_put (''Usage: '' @ pname @ '' [options] directory-path'' @ [NL, NL])) (\<lambda>_.
     bnd (err_put (''    -v lvl   Display logging information'' @ [NL])) (\<lambda>_.
     bnd (err_put (''    -l file  Send logging information to a file'' @ [NL])) (\<lambda>_.
     bnd (err_put (''    -x       Check cache consistency after each operation'' @ [NL])) (\<lambda>_.
     bnd (err_put (''    -d       Dump cache to log after every operation'' @ [NL])) (\<lambda>_.
     bnd (err_put (''    -b size  Set buffer size for read() from inotify FD'' @ [NL])) (\<lambda>_.
     bnd (err_put (''    -a file  Abort when cache inconsistency detected, and create '' @ [CHR 39] @
       ''stop'' @ [CHR 39] @ '' file'' @ [NL])) (\<lambda>_.
     exit3 EXIT_FAILURE)))))))"

definition main_option :: "'k inotify_os \<Rightarrow> string \<Rightarrow> getopt_result \<Rightarrow> ('k ist, unit) prog" where
  "main_option K pname opt = (case opt of
      Opt c v \<Rightarrow>
        if c = CHR ''a'' then modify (\<lambda>s. s\<lparr>abortOnCacheProblem := True, stopFile := v\<rparr>)
        else if c = CHR ''x'' then modify (\<lambda>s. s\<lparr>checkCache := True\<rparr>)
        else if c = CHR ''d'' then modify (\<lambda>s. s\<lparr>dumpCache := True\<rparr>)
        else if c = CHR ''v'' then with_arg v (\<lambda>a. modify (\<lambda>s. s\<lparr>verboseMask := atoi a\<rparr>))
        else if c = CHR ''b'' then with_arg v (\<lambda>a. modify (\<lambda>s. s\<lparr>readBufferSize := atoi a\<rparr>))
        else if c = CHR ''l'' then with_arg v (\<lambda>a.
          bnd (os_call (os_fopen K a)) (\<lambda>r. case r of
              Inl e \<Rightarrow> bnd (modify (\<lambda>s. s\<lparr>logfp := None\<rparr>)) (\<lambda>_. perrorExit K ''fopen'')
            | Inr _ \<Rightarrow> modify (\<lambda>s. s\<lparr>logfp := Some []\<rparr>)))
        else usageError pname
    | _ \<Rightarrow> bnd (err_put (getopt_message pname opt)) (\<lambda>_. usageError pname))"

definition prompt :: "string \<Rightarrow> ('k ist, unit) prog" where
  "prompt pname = andthen (out_put (pname @ ''> '')) (modify fflush_stdout)"

text \<open>\<^verbatim>\<open>main\<close> up to the event loop.\<close>

definition main_init :: "'k inotify_os \<Rightarrow> string \<Rightarrow> string list \<Rightarrow> ('k ist, unit) prog" where
  "main_init K pname args =
     bnd (modify (\<lambda>s. s\<lparr>verboseMask := 0, checkCache := False, dumpCache := False, stopFile := None,
       abortOnCacheProblem := False\<rparr>)) (\<lambda>_.
     case getopt ''a:dxl:v:b:'' args of (opts, dirs) \<Rightarrow>
     bnd (forM opts (main_option K pname)) (\<lambda>_.
     if dirs = [] then usageError pname else
     bnd (copyRootDirPaths K dirs) (\<lambda>_.
     bnd (reinitialize K (- 1)) (\<lambda>fd.
     bnd (modify (\<lambda>s. s\<lparr>inotifyFd := fd\<rparr>)) (\<lambda>_.
     prompt pname)))))"

text \<open>One iteration of the event loop, up to the handling of a ready inotify descriptor: the
  result says whether \<^verbatim>\<open>FD_ISSET(inotifyFd, &rfds)\<close>. The set was built with the descriptor at the
  start of the iteration, and a command may have replaced it.\<close>

definition main_select :: "'k inotify_os \<Rightarrow> string \<Rightarrow> ('k ist, bool) prog" where
  "main_select K pname =
     bnd (gets inotifyFd) (\<lambda>fd.
     bnd (os_call (os_select K fd)) (\<lambda>r. case r of
         Inl e \<Rightarrow> perrorExit K ''select''
       | Inr (stdin_ready, ino_ready) \<Rightarrow>
         bnd (whenM stdin_ready (andthen (executeCommand K) (prompt pname))) (\<lambda>_.
         bnd (gets inotifyFd) (\<lambda>fd'.
         ret (if fd' = fd then ino_ready else fd' = 0 \<and> stdin_ready)))))"

definition main_iter :: "'k inotify_os \<Rightarrow> string \<Rightarrow> 'k ist \<Rightarrow> ((halt + unit) \<times> 'k ist) option" where
  "main_iter K pname s = (case main_select K pname s of
      (Inl h, s1) \<Rightarrow> Some (Inl h, s1)
    | (Inr b, s1) \<Rightarrow> if b then processInotifyEvents K s1 else Some (Inr (), s1))"

text \<open>The states of the endless loop, as they are at its head.\<close>

inductive main_reaches :: "'k inotify_os \<Rightarrow> string \<Rightarrow> 'k ist \<Rightarrow> 'k ist \<Rightarrow> bool" for K pname where
  loop_start: "main_reaches K pname s s"
| loop_again: "main_reaches K pname s s1 \<Longrightarrow> main_iter K pname s1 = Some (Inr (), s2) \<Longrightarrow>
    main_reaches K pname s s2"

section \<open>The invariant is kept\<close>

lemma keeps_slot_path [inv_intros]: "(\<And>p. keeps I (f p)) \<Longrightarrow> keeps I (slot_path slot f)"
  unfolding slot_path_def by (auto split: option.splits intro!: keeps_bnd)

lemma keeps_with_name [inv_intros]: "(\<And>n. keeps I (f n)) \<Longrightarrow> keeps I (with_name ev f)"
  unfolding with_name_def by (auto split: option.splits)

lemma keeps_with_arg [inv_intros]: "(\<And>a. keeps I (f a)) \<Longrightarrow> keeps I (with_arg v f)"
  unfolding with_arg_def by (auto split: option.splits)

lemma keeps_tree_modify [inv_intros]:
  "(\<And>s. wlCache (f s) = wlCache s \<and> rootDirPaths (f s) = rootDirPaths s \<and> ignoreRootDirs (f s) = ignoreRootDirs s)
   \<Longrightarrow> keeps tree_inv (modify f)"
  by (rule keeps_modify) (simp add: tree_inv_def)

lemma keeps_display [inv_intros]: "keeps tree_inv (displayInotifyEvent ev)"
  unfolding displayInotifyEvent_def by (auto intro!: inv_intros)

lemma keeps_reinit_fd [inv_intros]: "os_wd_ok K \<Longrightarrow> keeps tree_inv (reinit_fd K)"
  unfolding reinit_fd_def by (intro inv_intros) simp_all

lemma keeps_discard [inv_intros]: "os_wd_ok K \<Longrightarrow> keeps tree_inv (discard K)"
  unfolding discard_def by (intro inv_intros)

lemma keeps_ev_created [inv_intros]: "os_wd_ok K \<Longrightarrow> keeps tree_inv (ev_created K ev slot n)"
  unfolding ev_created_def Let_def by (intro inv_intros)

lemma keeps_ev_deleted [inv_intros]: "keeps tree_inv (ev_deleted ev slot n)"
  unfolding ev_deleted_def by (intro inv_intros)

lemma keeps_ev_renamed [inv_intros]: "os_wd_ok K \<Longrightarrow> keeps tree_inv (ev_renamed K ev ev' slot n)"
  unfolding ev_renamed_def by (intro inv_intros)

lemma keeps_ev_moved_out [inv_intros]: "os_wd_ok K \<Longrightarrow> keeps tree_inv (ev_moved_out K ev ft r slot n)"
  unfolding ev_moved_out_def by (intro inv_intros)

lemma keeps_ev_moved_from [inv_intros]: "os_wd_ok K \<Longrightarrow> keeps tree_inv (ev_moved_from K buf ev ft slot n)"
  unfolding ev_moved_from_def by (auto split: option.splits intro!: inv_intros)

lemma keeps_ev_overflow [inv_intros]: "os_wd_ok K \<Longrightarrow> keeps tree_inv (ev_overflow K)"
  unfolding ev_overflow_def by (intro inv_intros) simp_all

lemma keeps_ev_unmounted [inv_intros]: "keeps tree_inv (ev_unmounted slot n)"
  unfolding ev_unmounted_def by (intro inv_intros)

lemma keeps_ev_move_self [inv_intros]: "os_wd_ok K \<Longrightarrow> keeps tree_inv (ev_move_self K slot n)"
  unfolding ev_move_self_def by (intro inv_intros)

lemma keeps_ev_branch [inv_intros]: "os_wd_ok K \<Longrightarrow> keeps tree_inv (ev_branch K buf ev ft slot n)"
  unfolding ev_branch_def by (intro inv_intros)

lemma keeps_ev_finish [inv_intros]: "keeps tree_inv (ev_finish K r)"
  unfolding ev_finish_def by (cases r) (auto intro!: inv_intros)

lemma keeps_processNextInotifyEvent [inv_intros]:
  "os_wd_ok K \<Longrightarrow> keeps tree_inv (processNextInotifyEvent K buf ft)"
  unfolding processNextInotifyEvent_def Let_def
  by (auto split: option.splits intro!: inv_intros)

lemma keeps_second_read [inv_intros]: "keeps tree_inv (second_read K rem)"
  unfolding second_read_def Let_def by (intro inv_intros) simp_all

lemma keeps_first_read [inv_intros]: "keeps tree_inv (first_read K)"
  unfolding first_read_def by (auto split: sum.splits intro!: inv_intros)

lemma ev_loop_keeps:
  assumes "os_wd_ok K" "tree_inv s" "ev_loop K rem ft s = Some (r, s')"
  shows "tree_inv s'"
proof -
  have "tree_inv s \<longrightarrow> tree_inv (snd y)" if "ev_loop K rem ft s = Some y" for y
  proof (rule ev_loop.raw_induct [where P = "\<lambda>K rem ft s y. os_wd_ok K \<longrightarrow> tree_inv s \<longrightarrow> tree_inv (snd y)",
        OF _ that, THEN mp, OF _ assms(1)], goal_cases)
    case (1 loop K rem ft s y)
    show ?case
    proof (intro impI)
      assume K: "os_wd_ok K" and inv: "tree_inv s"
      obtain r1 s1 where p: "processNextInotifyEvent K rem ft s = (r1, s1)" by fastforce
      obtain r2 s2 where q: "second_read K rem s1 = (r2, s2)" by fastforce
      have inv1: "tree_inv s1" using keepsD [OF keeps_processNextInotifyEvent [OF K] inv, of rem ft] p by simp
      have inv2: "tree_inv s2" using keepsD [OF keeps_second_read inv1, of K rem] q by simp
      consider "rem = []" | h where "rem \<noteq> []" "r1 = Inl h" | n where "rem \<noteq> []" "r1 = Inr n" "to_s32 n > 0"
        | n h where "rem \<noteq> []" "r1 = Inr n" "\<not> to_s32 n > 0" "r2 = Inl h"
        | n rem' where "rem \<noteq> []" "r1 = Inr n" "\<not> to_s32 n > 0" "r2 = Inr rem'"
        by (cases r1; cases r2) auto
      then show "tree_inv (snd y)"
      proof cases
        case 3
        with 1(2) p have "loop K (drop (nat (to_s32 n)) rem) True s1 = Some y" by (simp add: Let_def)
        from 1(1) [OF this] K inv1 show ?thesis by simp
      next
        case 5
        with 1(2) p q have "loop K rem' False s2 = Some y" by (simp add: Let_def)
        from 1(1) [OF this] K inv2 show ?thesis by simp
      qed (use 1(2) p q inv inv1 inv2 in \<open>auto simp: Let_def\<close>)
    qed
  qed
  with assms show ?thesis by auto
qed

lemma keeps_cmd_check_slots [inv_intros]: "keeps tree_inv (cmd_check_slots K v c js acc)"
  by (induction js arbitrary: acc) (auto split: sum.splits intro!: inv_intros)

lemma keeps_commands [inv_intros]:
  "os_wd_ok K \<Longrightarrow> keeps tree_inv (cmd_add K arg)" "keeps tree_inv (cmd_check K v)"
  "keeps tree_inv cmd_list" "keeps tree_inv (cmd_verbose arg)" "keeps tree_inv cmd_dump"
  "keeps tree_inv cmd_toggle_check" "keeps tree_inv (cmd_write K arg)" "keeps tree_inv (cmd_zap K arg)"
  "os_wd_ok K \<Longrightarrow> keeps tree_inv (cmd_rebuild K)"
  unfolding cmd_add_def cmd_check_def cmd_list_def cmd_verbose_def cmd_dump_def cmd_toggle_check_def
    cmd_write_def cmd_zap_def cmd_rebuild_def Let_def
  by (auto split: option.splits sum.splits intro!: inv_intros)

lemma keeps_run_command [inv_intros]: "os_wd_ok K \<Longrightarrow> keeps tree_inv (run_command K c arg)"
  unfolding run_command_def by (intro inv_intros)

lemma keeps_executeCommand [inv_intros]: "os_wd_ok K \<Longrightarrow> keeps tree_inv (executeCommand K)"
  unfolding executeCommand_def Let_def scan_command_def by (auto intro!: inv_intros)

lemma keeps_prompt [inv_intros]: "keeps tree_inv (prompt pname)"
  unfolding prompt_def by (intro inv_intros) simp_all

lemma keeps_main_select [inv_intros]: "os_wd_ok K \<Longrightarrow> keeps tree_inv (main_select K pname)"
  unfolding main_select_def by (auto split: sum.splits intro!: inv_intros)

lemma processInotifyEvents_keeps:
  assumes "os_wd_ok K" "tree_inv s" "processInotifyEvents K s = Some (r, s')"
  shows "tree_inv s'"
proof (cases "first_read K s")
  case (Pair q s1)
  have inv1: "tree_inv s1" using keepsD [OF keeps_first_read assms(2), of K] Pair by simp
  from Pair assms(3) inv1 show ?thesis
    by (cases q) (auto simp: processInotifyEvents_def intro: ev_loop_keeps [OF assms(1) inv1])
qed

lemma main_iter_keeps:
  assumes "os_wd_ok K" "tree_inv s" "main_iter K pname s = Some (r, s')"
  shows "tree_inv s'"
proof (cases "main_select K pname s")
  case (Pair q s1)
  have inv1: "tree_inv s1" using keepsD [OF keeps_main_select [OF assms(1)] assms(2), of pname] Pair by simp
  from Pair assms(3) inv1 show ?thesis
    by (cases q) (auto simp: main_iter_def split: if_splits intro: processInotifyEvents_keeps [OF assms(1) inv1])
qed

lemma main_reaches_inv: "main_reaches K pname s s' \<Longrightarrow> os_wd_ok K \<Longrightarrow> tree_inv s \<Longrightarrow> tree_inv s'"
  by (induction rule: main_reaches.induct) (auto intro: main_iter_keeps)

text \<open>Parsing the options does not touch the cache.\<close>

definition same_cache :: "watch list \<Rightarrow> 'k ist \<Rightarrow> bool" where
  "same_cache c s \<longleftrightarrow> wlCache s = c"

lemma keeps_cache_calls:
  "keeps (same_cache c) (err_put t)" "keeps (same_cache c) (exit3 n)" "keeps (same_cache c) (os_call f)"
  "keeps (same_cache c) (perrorExit K t)"
  "(\<And>s. wlCache (g s) = wlCache s) \<Longrightarrow> keeps (same_cache c) (modify g)"
  by (simp_all add: keeps_def same_cache_def err_put_def exit3_def)

lemma keeps_usageError: "keeps (same_cache c) (usageError pname)"
  unfolding usageError_def by (intro keeps_bnd keeps_cache_calls)

lemma keeps_main_option: "keeps (same_cache c) (main_option K pname opt)"
  unfolding main_option_def
  by (auto split: getopt_result.splits sum.splits
      intro!: keeps_bnd keeps_cache_calls keeps_if keeps_with_arg keeps_usageError)

lemma main_init_inv:
  assumes "os_wd_ok K" "wlCache s = []" "main_init K pname args s = (Inr (), s')"
  shows "tree_inv s'"
proof -
  let ?s0 = "s\<lparr>verboseMask := 0, checkCache := False, dumpCache := False, stopFile := None,
       abortOnCacheProblem := False\<rparr>"
  obtain opts dirs where g: "getopt ''a:dxl:v:b:'' args = (opts, dirs)" by fastforce
  obtain r1 s1 where r1: "forM opts (main_option K pname) ?s0 = (r1, s1)" by fastforce
  have c1: "wlCache s1 = []"
    using keepsD [OF keeps_forM [of opts "same_cache []" "main_option K pname"], of ?s0] r1 assms(2) keeps_main_option
    by (auto simp: same_cache_def)
  let ?rest = "bnd (reinitialize K (- 1)) (\<lambda>fd. bnd (modify (\<lambda>s. s\<lparr>inotifyFd := fd\<rparr>)) (\<lambda>_. prompt pname))"
  have k: "keeps tree_inv ?rest" using assms(1) by (intro inv_intros) simp_all
  obtain s2 where s2: "copyRootDirPaths K dirs s1 = (Inr (), s2)" and run: "?rest s2 = (Inr (), s')"
    using assms(3) g r1
    by (auto simp: main_init_def bnd_apply [of "forM _ _"] bnd_apply [of "copyRootDirPaths _ _"] usageError_def
        bnd_apply [of "err_put _"] err_put_def exit3_def split: sum.splits prod.splits if_splits)
  have "tree_inv s2" using copyRootDirPaths_run [OF _ s2] c1 by (simp add: wf_cache_def)
  with keepsD [OF k this] run show ?thesis by simp
qed

section \<open>Statements that only log\<close>

definition quiet :: "('k ist, unit) prog \<Rightarrow> bool" where
  "quiet m \<longleftrightarrow> (\<forall>s. \<exists>s'. m s = (Inr (), s') \<and> wlCache s' = wlCache s \<and> kern s' = kern s \<and> rest s' = rest s)"

lemma quiet_log: "quiet (logMessage m t)"
  by (simp add: quiet_def logMessage_eq)

lemma quiet_whenM: "(b \<Longrightarrow> quiet m) \<Longrightarrow> quiet (whenM b m)"
  by (cases b) (simp_all add: quiet_def)

lemma quiet_ret: "quiet (ret ())"
  by (simp add: quiet_def)

lemma quiet_seqM: "(\<And>m. m \<in> set ms \<Longrightarrow> quiet m) \<Longrightarrow> quiet (seqM ms)"
proof (induction ms)
  case Nil
  then show ?case by (simp add: quiet_def)
next
  case (Cons m ms)
  have m: "quiet m" and ms: "quiet (seqM ms)" using Cons by simp_all
  show ?case unfolding quiet_def
  proof
    fix s
    obtain s1 where "m s = (Inr (), s1)" "wlCache s1 = wlCache s" "kern s1 = kern s" "rest s1 = rest s"
      using m unfolding quiet_def by blast
    moreover obtain s2 where "seqM ms s1 = (Inr (), s2)" "wlCache s2 = wlCache s1" "kern s2 = kern s1" "rest s2 = rest s1"
      using ms unfolding quiet_def by blast
    ultimately show "\<exists>s'. seqM (m # ms) s = (Inr (), s') \<and> wlCache s' = wlCache s \<and> kern s' = kern s \<and> rest s' = rest s"
      by (simp add: andthen_apply)
  qed
qed

lemma quiet_display: "ev_len ev = 0 \<or> ev_name ev \<noteq> None \<Longrightarrow> quiet (displayInotifyEvent ev)"
  unfolding displayInotifyEvent_def
  by (rule quiet_seqM) (auto simp: with_name_def split: option.splits intro!: quiet_whenM quiet_log quiet_ret)

lemma findWatchChecked_found: "findWatch d (wlCache s) = Some j \<Longrightarrow> findWatchChecked K d s = (Inr (Some j), s)"
  by (simp add: findWatchChecked_def)

section \<open>Reading fails\<close>

lemma second_read_failed:
  assumes "os_read K (inotifyFd s) (INOTIFY_READ_BUF_LEN - length rem) (os_ualarm K 2000 (kern s)) = (Inl e, k)"
  shows "\<exists>s'. second_read K rem s = (if e = EINTR then (Inr (butlast rem), s') else (Inl (Exit EXIT_FAILURE), s'))"
  using assms
  by (auto simp: second_read_def os_eff_def bnd_apply [of "os_eff _"] bnd_apply [of "os_call _"] os_call_def EINTR_def Let_def)

lemma ev_loop_returns:
  assumes "\<And>fd n k. \<exists>e k'. os_read K fd n k = (Inl e, k')"
  shows "\<exists>y. ev_loop K rem ft s = Some y"
proof (induction "length rem" arbitrary: rem ft s rule: less_induct)
  case less
  show ?case
  proof (cases "rem = []")
    case True
    then show ?thesis by (subst ev_loop.simps) simp
  next
    case False
    obtain r1 s1 where p: "processNextInotifyEvent K rem ft s = (r1, s1)" by fastforce
    show ?thesis
    proof (cases r1)
      case (Inl h)
      with False p show ?thesis by (subst ev_loop.simps) simp
    next
      case (Inr n)
      show ?thesis
      proof (cases "to_s32 n > 0")
        case True
        then have "\<exists>y. ev_loop K (drop (nat (to_s32 n)) rem) True s1 = Some y"
          using False by (intro less) simp
        with False p Inr True show ?thesis by (subst ev_loop.simps) (simp add: Let_def)
      next
        case neg: False
        obtain e k' where "os_read K (inotifyFd s1) (INOTIFY_READ_BUF_LEN - length rem) (os_ualarm K 2000 (kern s1)) = (Inl e, k')"
          using assms by blast
        from second_read_failed [OF this] obtain s2 where s2:
          "second_read K rem s1 = (if e = EINTR then (Inr (butlast rem), s2) else (Inl (Exit EXIT_FAILURE), s2))"
          by blast
        have "\<exists>y. ev_loop K (butlast rem) False s2 = Some y"
          using False by (intro less) simp
        with False p Inr neg s2 show ?thesis by (subst ev_loop.simps) (cases "e = EINTR"; simp add: Let_def)
      qed
    qed
  qed
qed

section \<open>The byte layout of events\<close>

definition enc32 :: "32 word \<Rightarrow> string" where
  "enc32 w = map (\<lambda>i. char_of (unat w div 256 ^ i)) [0..<4]"

definition enc_event :: "int \<Rightarrow> 32 word \<Rightarrow> 32 word \<Rightarrow> string \<Rightarrow> nat \<Rightarrow> string" where
  "enc_event d msk cookie name pad =
     enc32 (word_of_int d) @ enc32 msk @ enc32 cookie @ enc32 (word_of_nat (length name + pad)) @
     name @ replicate pad NUL"

lemma length_enc32 [simp]: "length (enc32 w) = 4"
  by (simp add: enc32_def)

lemma bytes_sum:
  fixes n :: nat
  shows "n mod 256 + 256 * (n div 256 mod 256 + 256 * (n div 65536 mod 256 + 256 * (n div 16777216))) = n"
proof -
  have b: "n div 65536 mod 256 + 256 * (n div 16777216) = n div 65536"
    using mod_mult_div_eq [of "n div 65536" 256] by (simp add: div_mult2_eq [symmetric])
  have c: "n div 256 mod 256 + 256 * (n div 65536) = n div 256"
    using mod_mult_div_eq [of "n div 256" 256] by (simp add: div_mult2_eq [symmetric])
  show ?thesis unfolding b c by simp
qed

lemma le32_enc32: "le32 (enc32 w @ tail) = w"
proof -
  have l: "[0..<4] = [0, 1, 2, 3::nat]" by (simp add: upt_rec)
  have "unat w div 16777216 < 256" using unsigned_less [of w, where 'a = nat] by (simp add: less_mult_imp_div_less)
  then have "foldr (\<lambda>c n. of_char c + 256 * n) (enc32 w) 0 = unat w"
    using bytes_sum [of "unat w"] by (simp add: enc32_def l)
  then show ?thesis by (simp add: le32_def)
qed

lemma event_at_enc:
  assumes "- (2 ^ 31) \<le> d" "d < 2 ^ 31" "length name + pad < 2 ^ 32"
  shows "event_at (enc_event d msk cookie name pad @ tail) =
    Some \<lparr>ev_wd = d, ev_mask = msk, ev_cookie = cookie, ev_len = length name + pad,
      ev_name = c_str (name @ replicate pad NUL @ tail)\<rparr>"
proof -
  have "sint (word_of_int d :: 32 word) = d"
    using assms(1,2) by (simp add: signed_of_int signed_take_bit_int_eq_self)
  moreover have "unat (word_of_nat (length name + pad) :: 32 word) = length name + pad"
    unfolding unsigned_of_nat using assms(3) by (simp add: take_bit_nat_eq_self)
  ultimately show ?thesis
    by (simp add: event_at_def enc_event_def le32_enc32 EV_HDR_def)
qed

lemma c_str_padded: "NUL \<notin> set name \<Longrightarrow> 0 < pad \<Longrightarrow> c_str (name @ replicate pad NUL @ tail) = Some name"
  by (cases pad) (auto simp: c_str_def intro!: takeWhile_app_stop)

section \<open>A directory that moved out of the tree\<close>

text \<open>The event buffer after an interrupted second read: a byte shorter, the same event.\<close>

lemma butlast_enc_event:
  assumes "0 < pad"
  shows "butlast (enc_event d m c n pad) =
    enc32 (word_of_int d) @ enc32 m @ enc32 c @ enc32 (word_of_nat (length n + pad)) @ n @ replicate (pad - 1) NUL"
proof -
  have "replicate pad NUL = replicate (pad - 1) NUL @ [NUL]"
    using assms by (metis Suc_pred' replicate_append_same replicate_Suc)
  then show ?thesis by (simp add: enc_event_def butlast_append)
qed

lemma event_at_butlast:
  assumes "- (2 ^ 31) \<le> d" "d < 2 ^ 31" "length n + pad < 2 ^ 32" "NUL \<notin> set n" "2 \<le> pad"
  shows "event_at (butlast (enc_event d m c n pad)) =
    Some \<lparr>ev_wd = d, ev_mask = m, ev_cookie = c, ev_len = length n + pad, ev_name = Some n\<rparr>"
proof -
  have "sint (word_of_int d :: 32 word) = d"
    using assms(1,2) by (simp add: signed_of_int signed_take_bit_int_eq_self)
  moreover have "unat (word_of_nat (length n + pad) :: 32 word) = length n + pad"
    unfolding unsigned_of_nat using assms(3) by (simp add: take_bit_nat_eq_self)
  moreover have "c_str (n @ replicate (pad - 1) NUL) = Some n"
    using c_str_padded [of n "pad - 1" "[]"] assms(4,5) by simp
  ultimately show ?thesis
    using assms(5) by (simp add: butlast_enc_event event_at_def le32_enc32 EV_HDR_def)
qed

lemma second_read_interrupted:
  assumes "os_read K (inotifyFd s) (INOTIFY_READ_BUF_LEN - length buf) (os_ualarm K 2000 (kern s)) = (Inl EINTR, k)"
  shows "\<exists>s'. second_read K buf s = (Inr (butlast buf), s') \<and> wlCache s' = wlCache s \<and> rest s' = rest s"
  using assms
  by (auto simp: second_read_def os_eff_def bnd_apply [of "os_eff _"] bnd_apply [of "os_call _"] os_call_def
      EINTR_def Let_def logMessage_eq) (simp add: rest_def flags_def)

text \<open>The handler on a moved-from event at the end of the buffer: the first time it asks for
  more, the second time it gives the directory up.\<close>

lemma moved_from_branch:
  assumes "ev_mask ev = IN_MOVED_FROM OR IN_ISDIR"
  shows "ev_branch K buf ev ft slot n s = ev_moved_from K buf ev ft slot n s"
proof -
  have "\<not> has ev (IN_CREATE OR IN_MOVED_TO)" "\<not> has ev IN_DELETE_SELF"
    "ev_mask ev AND (IN_MOVED_FROM OR IN_ISDIR) = IN_MOVED_FROM OR IN_ISDIR"
    using assms by (simp_all add: has_def const_defs)
  then show ?thesis unfolding ev_branch_def by (simp only: simp_thms if_False if_True)
qed

lemma process_moved_from:
  assumes ev: "event_at buf = Some ev" "ev_mask ev = IN_MOVED_FROM OR IN_ISDIR" "ev_wd ev \<noteq> - 1"
      "ev_name ev = Some n" "findWatch (ev_wd ev) (wlCache s) = Some i"
  shows "\<exists>s1. processNextInotifyEvent K buf ft s =
      bnd (ev_moved_from K buf ev ft (Some i) (EV_HDR + ev_len ev)) (ev_finish K) s1 \<and>
      wlCache s1 = wlCache s \<and> rest s1 = rest s"
proof -
  obtain s1 where s1: "displayInotifyEvent ev s = (Inr (), s1)" "wlCache s1 = wlCache s" "rest s1 = rest s"
    using quiet_display [of ev] ev(4) unfolding quiet_def by blast
  have "\<not> has ev IN_IGNORED" using ev(2) by (simp add: has_def const_defs)
  with ev s1 show ?thesis
    unfolding processNextInotifyEvent_def Let_def
    by (intro exI [of _ s1]) (simp add: andthen_apply bnd_apply findWatchChecked_found moved_from_branch)
qed

lemma process_hanging:
  assumes ev: "event_at buf = Some ev" "ev_mask ev = IN_MOVED_FROM OR IN_ISDIR" "ev_wd ev \<noteq> - 1"
      "ev_name ev = Some n" "findWatch (ev_wd ev) (wlCache s) = Some i"
    and last_ev: "length buf \<le> EV_HDR + ev_len ev"
  shows "\<exists>s'. processNextInotifyEvent K buf True s = (Inr (- 1), s') \<and> wlCache s' = wlCache s \<and> rest s' = rest s"
proof -
  obtain s1 where s1: "processNextInotifyEvent K buf True s =
      bnd (ev_moved_from K buf ev True (Some i) (EV_HDR + ev_len ev)) (ev_finish K) s1"
      "wlCache s1 = wlCache s" "rest s1 = rest s"
    using process_moved_from [OF ev, of K True] by blast
  with last_ev show ?thesis
    by (simp add: ev_moved_from_def ev_finish_def bnd_apply logMessage_eq)
qed

lemma process_moved_out:
  assumes ev: "event_at buf = Some ev" "ev_mask ev = IN_MOVED_FROM OR IN_ISDIR" "ev_wd ev \<noteq> - 1"
      "ev_name ev = Some n" "findWatch (ev_wd ev) (wlCache s) = Some i"
    and last_ev: "length buf \<le> EV_HDR + ev_len ev"
    and inv: "tree_inv s" and rm: "\<And>fd d k. \<exists>u k'. os_rm_watch K fd d k = (Inr u, k')"
    and flags: "\<not> checkCache s" "\<not> dumpCache s"
  shows "\<exists>s'. processNextInotifyEvent K buf False s = (Inr (int (EV_HDR + ev_len ev)), s') \<and> tree_inv s' \<and>
    (\<forall>d. cache_map (wlCache s') d = (case cache_map (wlCache s) d of None \<Rightarrow> None
      | Some q \<Rightarrow> if q = snprintf FULL_PATH (path (wlCache s ! i) @ ''/'' @ n) \<or>
          (\<exists>t. q = snprintf FULL_PATH (path (wlCache s ! i) @ ''/'' @ n) @ ''/'' @ t) then None else Some q))"
proof -
  let ?p = "snprintf FULL_PATH (path (wlCache s ! i) @ ''/'' @ n)"
  obtain s1 where s1: "processNextInotifyEvent K buf False s =
      bnd (ev_moved_from K buf ev False (Some i) (EV_HDR + ev_len ev)) (ev_finish K) s1"
      "wlCache s1 = wlCache s" "rest s1 = rest s"
    using process_moved_from [OF ev, of K False] by blast
  define s2 where "s2 = logged VB_NOISY (''firstTry = '' @ show_int (of_bool False) @ ''; remaining bytes = '' @
      show_int (int (length buf) - int (EV_HDR + ev_len ev)) @ [NL])
    (logged VB_NOISY (''MOVED_OUT: '' @ os_fmt_ptr K (path (wlCache s ! i)) @ '' '' @ os_fmt_ptr K n @ [NL]) s1)"
  have "ev_moved_from K buf ev False (Some i) (EV_HDR + ev_len ev) s1 =
      bnd (zapSubtree K (inotifyFd s2) ?p) (\<lambda>cnt. if cnt = None then discard K
        else ret (Continue (EV_HDR + ev_len ev))) s2"
    using last_ev ev(4) s1(2)
    by (simp add: ev_moved_from_def ev_moved_out_def slot_path_def with_name_def s2_def)
  moreover have "wlCache s2 = wlCache s" "rest s2 = rest s" using s1(2,3) by (simp_all add: s2_def)
  ultimately have s2: "ev_moved_from K buf ev False (Some i) (EV_HDR + ev_len ev) s1 =
      bnd (zapSubtree K (inotifyFd s2) ?p) (\<lambda>cnt. if cnt = None then discard K
        else ret (Continue (EV_HDR + ev_len ev))) s2" "wlCache s2 = wlCache s" "rest s2 = rest s" .
  have inv2: "tree_inv s2" using inv s2(2,3) by (simp add: tree_inv_def rest_def)
  note zap = zapSubtree_removes [OF inv2, of K "inotifyFd s2" ?p, unfolded s2(2)]
  from zap obtain r s3 where s3: "zapSubtree K (inotifyFd s2) ?p s2 = (Inr r, s3)" "tree_inv s3" by blast
  have "r \<noteq> None"
  proof
    assume "r = None"
    with zap s3(1) obtain d k e k' where "os_rm_watch K (inotifyFd s2) d k = (Inl e, k')" by auto
    with rm [of "inotifyFd s2" d k] show False by auto
  qed
  then obtain m where m: "r = Some m" by blast
  have gone: "\<forall>d. cache_map (wlCache s3) d = (case cache_map (wlCache s) d of None \<Rightarrow> None
            | Some q \<Rightarrow> if q = ?p \<or> (\<exists>t. q = ?p @ ''/'' @ t) then None else Some q)"
    using zap unfolding s3(1) m by (auto simp del: append_Cons)
  have "rest s3 = rest s" using zapSubtree_Some [OF s3(1) [unfolded m]] s2(3) by simp
  then have "\<not> checkCache s3" "\<not> dumpCache s3" using flags by (auto simp: rest_def flags_def)
  with s1(1) s2(1) s3(1) m have "processNextInotifyEvent K buf False s = (Inr (int (EV_HDR + ev_len ev)), s3)"
    by (simp add: bnd_apply ev_finish_def)
  with s3(2) gone show ?thesis by blast
qed

section \<open>Properties\<close>

text \<open>C1. The program invariant over whole runs: once the start-up code has returned, at every
  later pass through the endless loop, whatever the kernel delivers and whatever is typed, the
  watch cache holds every descriptor at most once, free slots are marked free, and the count of
  given-up root directories is right.\<close>

theorem main_loop_invariant:
  assumes "os_wd_ok K" "wlCache s0 = []" "main_init K pname args s0 = (Inr (), s1)"
    "main_reaches K pname s1 s2"
  shows "tree_inv s2"
  using main_reaches_inv [OF assms(4) assms(1)] main_init_inv [OF assms(1-3)] .

theorem main_loop_invariant_witness:
  "\<exists>s1. main_init (demo_os\<lparr>os_nftw := \<lambda>p k. (([(p, False)], None), k)\<rparr>) ''prog'' [''-v'', ''1'', ''/a''] (demo_ist [] []) = (Inr (), s1) \<and> tree_inv s1"
proof -
  let ?K = "demo_os\<lparr>os_nftw := \<lambda>p k. (([(p, False)], None), k)\<rparr>"
  have K: "os_wd_ok ?K" by (simp add: os_wd_ok_def demo_os_def)
  have "fst (main_init ?K ''prog'' [''-v'', ''1'', ''/a''] (demo_ist [] [])) = Inr ()"
    by code_simp
  then obtain s1 where s1: "main_init ?K ''prog'' [''-v'', ''1'', ''/a''] (demo_ist [] []) = (Inr (), s1)"
    by (metis prod.collapse)
  from main_loop_invariant [OF K _ s1 loop_start] s1 show ?thesis by auto
qed

text \<open>Decoding an event: the header fields and the name the handler reads are those the
  kernel laid out in the buffer (little-endian fields, name padded with null bytes), whatever
  follows the event.\<close>

theorem event_at_roundtrip:
  assumes "- (2 ^ 31) \<le> d" "d < 2 ^ 31" "length name + pad < 2 ^ 32" "NUL \<notin> set name" "0 < pad"
  shows "event_at (enc_event d msk cookie name pad @ following) =
    Some \<lparr>ev_wd = d, ev_mask = msk, ev_cookie = cookie, ev_len = length name + pad, ev_name = Some name\<rparr> \<and>
    drop (EV_HDR + (length name + pad)) (enc_event d msk cookie name pad @ following) = following"
  using assms by (simp add: event_at_enc c_str_padded) (simp add: enc_event_def EV_HDR_def)

theorem event_at_roundtrip_witness:
  "event_at (enc_event 3 IN_MOVED_FROM 77 ''dir'' 13 @ ''tail'') =
    Some \<lparr>ev_wd = 3, ev_mask = IN_MOVED_FROM, ev_cookie = 77, ev_len = 16, ev_name = Some ''dir''\<rparr>"
  using event_at_roundtrip [of 3 "''dir''" 13 IN_MOVED_FROM 77 "''tail''"] by (simp add: NUL_def)

text \<open>C23. A rename inside the tree: when a moved-from event of a cached directory is followed in
  the buffer by the moved-to event with the same cookie, the handler consumes both events and
  rewrites the cached pathnames of the directory and everything below it, and nothing else: the
  pathname of the directory becomes the new one, the pathname of an entry below it (the old
  pathname, a slash and more) keeps what follows the old pathname, cut at
  \<^verbatim>\<open>PATH_MAX - 1\<close> characters, and a pathname that only shares the text of the old one
  stays as it is.\<close>

theorem processNextInotifyEvent_rename:
  assumes ev: "event_at buf = Some ev" "ev_mask ev = IN_MOVED_FROM OR IN_ISDIR" "ev_wd ev \<noteq> - 1"
      "ev_name ev = Some n" "findWatch (ev_wd ev) (wlCache s) = Some i"
    and next_ev: "EV_HDR + ev_len ev < length buf" "event_at (drop (EV_HDR + ev_len ev) buf) = Some ev'"
      "has ev' IN_MOVED_TO" "ev_cookie ev' = ev_cookie ev" "ev_name ev' = Some n'"
      "findWatch (ev_wd ev') (wlCache s) = Some j"
    and flags: "\<not> checkCache s" "\<not> dumpCache s"
  shows "\<exists>s'. processNextInotifyEvent K buf firstTry s =
        (Inr (int (EV_HDR + ev_len ev + (EV_HDR + ev_len ev'))), s') \<and>
     (let old = snprintf PATH_MAX (path (wlCache s ! i) @ ''/'' @ n);
          new = snprintf PATH_MAX (path (wlCache s ! j) @ ''/'' @ n') in
      map wd (wlCache s') = map wd (wlCache s) \<and>
      map path (wlCache s') = map (\<lambda>p.
        if p = old then new
        else if \<exists>q. p = old @ ''/'' @ q then snprintf PATH_MAX (new @ drop (length old) p)
        else p) (map path (wlCache s)))"
proof -
  let ?len = "EV_HDR + ev_len ev"
  obtain s1 where s1: "processNextInotifyEvent K buf firstTry s =
      bnd (ev_moved_from K buf ev firstTry (Some i) ?len) (ev_finish K) s1" "wlCache s1 = wlCache s" "rest s1 = rest s"
    using process_moved_from [OF ev, of K firstTry] by blast
  obtain s2 where s2: "rewriteCachedPaths (path (wlCache s ! i)) n (path (wlCache s ! j)) n' s1 = (Inr (), s2)"
    "rest s2 = rest s1" "wlCache s2 = map (\<lambda>w. w\<lparr>path := rewrite_path
        (snprintf PATH_MAX (path (wlCache s ! i) @ ''/'' @ n))
        (snprintf PATH_MAX (path (wlCache s ! j) @ ''/'' @ n')) (path w)\<rparr>) (wlCache s)"
    using rewriteCachedPaths_eq [of "path (wlCache s ! i)" n "path (wlCache s ! j)" n' s1, unfolded s1(2)]
    by blast
  have flags2: "\<not> checkCache s2" "\<not> dumpCache s2"
    using flags s1(3) s2(2) by (auto simp: rest_def flags_def)
  have "ev_moved_from K buf ev firstTry (Some i) ?len s1 = ev_renamed K ev ev' (Some i) ?len s1"
    using next_ev by (simp add: ev_moved_from_def)
  also have "\<dots> = (Inr (Continue (?len + EV_HDR + ev_len ev')), s2)"
    using next_ev(5,6) ev(4) s1(2)
    by (simp add: ev_renamed_def bnd_Inr [OF findWatchChecked_found] slot_path_def with_name_def
      bnd_apply [of "rewriteCachedPaths _ _ _ _"] s2(1))
  finally have "processNextInotifyEvent K buf firstTry s = (Inr (int (?len + (EV_HDR + ev_len ev'))), s2)"
    using flags2 by (simp add: s1(1) bnd_apply ev_finish_def add.assoc)
  with s2(3) show ?thesis
    unfolding Let_def rewrite_path_iff [symmetric] by (intro exI [of _ s2]) simp
qed

theorem processNextInotifyEvent_rename_witness:
  "\<exists>s'. processNextInotifyEvent demo_os
       (enc_event 4 (IN_MOVED_FROM OR IN_ISDIR) 9 ''x'' 15 @ enc_event 4 (IN_MOVED_TO OR IN_ISDIR) 9 ''y'' 15) True
       (demo_ist [\<lparr>wd = 4, path = ''/a''\<rparr>, \<lparr>wd = 5, path = ''/a/x''\<rparr>,
          \<lparr>wd = 6, path = ''/a/xy''\<rparr>, \<lparr>wd = 7, path = ''/a/x/z''\<rparr>] []) = (Inr 64, s') \<and>
     map path (wlCache s') = [''/a'', ''/a/y'', ''/a/xy'', ''/a/y/z'']"
proof -
  let ?e2 = "enc_event 4 (IN_MOVED_TO OR IN_ISDIR) 9 ''y'' 15"
  let ?b = "enc_event 4 (IN_MOVED_FROM OR IN_ISDIR) 9 ''x'' 15 @ ?e2"
  let ?c = "[\<lparr>wd = 4, path = ''/a''\<rparr>, \<lparr>wd = 5, path = ''/a/x''\<rparr>,
    \<lparr>wd = 6, path = ''/a/xy''\<rparr>, \<lparr>wd = 7, path = ''/a/x/z''\<rparr>]"
  let ?ev = "\<lambda>m t. \<lparr>ev_wd = 4, ev_mask = m OR IN_ISDIR, ev_cookie = 9, ev_len = 16, ev_name = Some t\<rparr>"
  have nul: "NUL \<noteq> CHR ''x''" "NUL \<noteq> CHR ''y''" by (simp_all add: NUL_def)
  have e2: "event_at ?e2 = Some (?ev IN_MOVED_TO ''y'')"
    using event_at_enc [of 4 "''y''" 15 "IN_MOVED_TO OR IN_ISDIR" 9 "[]"] c_str_padded [of "''y''" 15 "[]"] nul by simp
  have e1: "event_at ?b = Some (?ev IN_MOVED_FROM ''x'')"
    using event_at_enc [of 4 "''x''" 15 "IN_MOVED_FROM OR IN_ISDIR" 9 ?e2] c_str_padded [of "''x''" 15 ?e2] nul by simp
  have d: "drop (EV_HDR + 16) ?b = ?e2" "length ?b = 64" by (simp_all add: enc_event_def EV_HDR_def)
  have h: "has (?ev IN_MOVED_TO ''y'') IN_MOVED_TO" by (simp add: has_def const_defs)
  show ?thesis
    using processNextInotifyEvent_rename [of ?b "?ev IN_MOVED_FROM ''x''" "''x''" "demo_ist ?c []" 0 "?ev IN_MOVED_TO ''y''" "''y''" 0 demo_os True]
    e1 e2 d h
    by (auto simp: EV_HDR_def findWatch_def demo_ist_def snprintf_def PATH_MAX_def)
qed

text \<open>C30. A directory that moved out of the tree. The only event in the buffer is the
  moved-from event of a directory below a cached one (its name padded with at least two null
  bytes), nothing more arrives (reads are interrupted by the alarm), watches can be removed and
  cache checking and dumping are off. Then the loop does not ask for the partner event again
  and again: it returns normally, and exactly the entries of the directory and of everything
  below it are gone from the cache.\<close>

theorem ev_loop_moved_out:
  assumes ev: "buf = enc_event d (IN_MOVED_FROM OR IN_ISDIR) cookie n pad" "NUL \<notin> set n" "2 \<le> pad"
      "length buf \<le> INOTIFY_READ_BUF_LEN" "0 \<le> d" "d < 2 ^ 31"
    and cached: "tree_inv s" "findWatch d (wlCache s) = Some i"
    and flags: "\<not> checkCache s" "\<not> dumpCache s"
    and os: "\<And>fd m k. \<exists>k'. os_read K fd m k = (Inl EINTR, k')"
      "\<And>fd d k. \<exists>u k'. os_rm_watch K fd d k = (Inr u, k')"
  shows "\<exists>s'. ev_loop K buf True s = Some (Inr (), s') \<and> tree_inv s' \<and>
    (let full = snprintf FULL_PATH (path (wlCache s ! i) @ ''/'' @ n) in
     \<forall>d. cache_map (wlCache s') d = (case cache_map (wlCache s) d of None \<Rightarrow> None
       | Some q \<Rightarrow> if q = full \<or> (\<exists>t. q = full @ ''/'' @ t) then None else Some q))"
proof -
  let ?ev = "\<lparr>ev_wd = d, ev_mask = IN_MOVED_FROM OR IN_ISDIR, ev_cookie = cookie,
    ev_len = length n + pad, ev_name = Some n\<rparr>"
  have len: "length buf = EV_HDR + (length n + pad)" "length buf < 2 ^ 31"
    using ev(1,4) by (simp_all add: enc_event_def const_defs EV_HDR_def)
  have d: "- (2 ^ 31) \<le> d" "length n + pad < 2 ^ 32" "0 < pad" using ev(3,5) len by simp_all
  have at: "event_at buf = Some ?ev"
    using event_at_roundtrip [OF d(1) ev(6) d(2) ev(2) d(3), of _ _ "[]"] ev(1) by simp
  have at': "event_at (butlast buf) = Some ?ev"
    using event_at_butlast [OF d(1) ev(6) d(2) ev(2,3)] ev(1) by simp
  have wd: "ev_wd ?ev \<noteq> - 1" using ev(5) by simp
  obtain s1 where s1: "processNextInotifyEvent K buf True s = (Inr (- 1), s1)" "wlCache s1 = wlCache s" "rest s1 = rest s"
    using process_hanging [OF at _ wd, of n s i K] cached(2) len(1) by auto
  obtain k where "os_read K (inotifyFd s1) (INOTIFY_READ_BUF_LEN - length buf) (os_ualarm K 2000 (kern s1)) = (Inl EINTR, k)"
    using os(1) by blast
  from second_read_interrupted [OF this] obtain s2 where s2: "second_read K buf s1 = (Inr (butlast buf), s2)"
    "wlCache s2 = wlCache s" "rest s2 = rest s" using s1(2,3) by auto
  have inv2: "tree_inv s2" and flags2: "\<not> checkCache s2" "\<not> dumpCache s2"
    using cached(1) flags s2(2,3) by (auto simp: tree_inv_def rest_def flags_def)
  obtain s3 where s3: "processNextInotifyEvent K (butlast buf) False s2 = (Inr (int (length buf)), s3)" "tree_inv s3"
    "\<forall>d. cache_map (wlCache s3) d = (case cache_map (wlCache s) d of None \<Rightarrow> None
      | Some q \<Rightarrow> if q = snprintf FULL_PATH (path (wlCache s ! i) @ ''/'' @ n) \<or>
          (\<exists>t. q = snprintf FULL_PATH (path (wlCache s ! i) @ ''/'' @ n) @ ''/'' @ t) then None else Some q)"
    using process_moved_out [OF at' _ wd _ _ _ inv2 os(2) flags2, of n i, unfolded s2(2)] cached(2) len(1) by auto
  have ne: "buf \<noteq> []" "butlast buf \<noteq> []"
    using len(1) by (auto simp: EV_HDR_def simp flip: length_greater_0_conv)
  have pos: "to_s32 (int (length buf)) = int (length buf)" "to_s32 (- 1) = - 1"
    using len(2) by (simp_all add: to_s32_def)
  have "ev_loop K (butlast buf) False s2 = ev_loop K [] True s3"
    using ne s3(1) pos(1) by (subst ev_loop.simps) (simp add: Let_def)
  also have "\<dots> = Some (Inr (), s3)" by (subst ev_loop.simps) simp
  finally have "ev_loop K buf True s = Some (Inr (), s3)"
    using ne s1(1) s2(1) pos(2) by (subst ev_loop.simps) (simp add: Let_def)
  with s3(2,3) show ?thesis unfolding Let_def by blast
qed

theorem ev_loop_moved_out_witness:
  "\<exists>s'. ev_loop (demo_os\<lparr>os_read := \<lambda>fd n k. (Inl EINTR, k)\<rparr>)
       (enc_event 4 (IN_MOVED_FROM OR IN_ISDIR) 9 ''x'' 15) True
       (demo_ist [\<lparr>wd = 4, path = ''/a''\<rparr>, \<lparr>wd = 5, path = ''/a/x''\<rparr>, \<lparr>wd = 6, path = ''/a/xy''\<rparr>,
          \<lparr>wd = 7, path = ''/a/x/z''\<rparr>] []) = Some (Inr (), s') \<and>
     map (cache_map (wlCache s')) [4, 5, 6, 7] = [Some ''/a'', None, Some ''/a/xy'', None]"
proof -
  let ?c = "[\<lparr>wd = 4, path = ''/a''\<rparr>, \<lparr>wd = 5, path = ''/a/x''\<rparr>, \<lparr>wd = 6, path = ''/a/xy''\<rparr>,
          \<lparr>wd = 7, path = ''/a/x/z''\<rparr>]"
  let ?buf = "enc_event 4 (IN_MOVED_FROM OR IN_ISDIR) 9 ''x'' 15"
  have wf: "wf_cache ?c" by (auto simp: wf_cache_def less_Suc_eq)
  have h: "length ?buf \<le> INOTIFY_READ_BUF_LEN" "NUL \<notin> set ''x''" "tree_inv (demo_ist ?c [])"
    "findWatch 4 ?c = Some 0" "\<not> checkCache (demo_ist ?c [])" "\<not> dumpCache (demo_ist ?c [])"
    using wf by (simp_all add: enc_event_def const_defs EV_HDR_def NUL_def tree_inv_def findWatch_def demo_ist_def)
  have full: "snprintf FULL_PATH (path (?c ! 0) @ ''/'' @ ''x'') = ''/a/x''" by code_simp
  have m: "cache_map ?c 4 = Some ''/a''" "cache_map ?c 5 = Some ''/a/x''"
    "cache_map ?c 6 = Some ''/a/xy''" "cache_map ?c 7 = Some ''/a/x/z''" by code_simp+
  show ?thesis
    using ev_loop_moved_out [of ?buf 4 9 "''x''" 15 "demo_ist ?c []" 0 "demo_os\<lparr>os_read := \<lambda>fd n k. (Inl EINTR, k)\<rparr>"]
      h m unfolding demo_ist_sel full Let_def by (auto simp: demo_os_def)
qed

end
