(* ===== verification/Ugid.thy ===== *)
theory Ugid
  imports CLib
begin

text \<open>
  \<^verbatim>\<open>tlpi-book/users_groups/ugid_functions.c\<close>: conversions between user or group names and IDs.
  The password and group databases are arguments: \<open>by_name\<close> is what \<^verbatim>\<open>getpwnam\<close> / \<^verbatim>\<open>getgrnam\<close> find
  (the ID of the entry), \<open>by_id\<close> what \<^verbatim>\<open>getpwuid\<close> / \<^verbatim>\<open>getgrgid\<close> find (its name). IDs are unsigned
  32-bit numbers, and the error result \<^verbatim>\<open>-1\<close> is the largest of them.
\<close>

definition ID_ERR :: int where "ID_ERR = to_u32 (- 1)"

definition userNameFromId :: "(int \<Rightarrow> string option) \<Rightarrow> int \<Rightarrow> string option" where
  "userNameFromId by_id uid = by_id uid"

definition userIdFromName :: "(string \<Rightarrow> int option) \<Rightarrow> string option \<Rightarrow> int" where
  "userIdFromName by_name name =
     (case name of None \<Rightarrow> ID_ERR
      | Some s \<Rightarrow> if s = [] then ID_ERR
          else case strtol s 10 of (v, endptr, _) \<Rightarrow>
            if endptr = [] then to_u32 v
            else (case by_name s of None \<Rightarrow> ID_ERR | Some uid \<Rightarrow> uid))"

definition groupNameFromId :: "(int \<Rightarrow> string option) \<Rightarrow> int \<Rightarrow> string option" where
  "groupNameFromId by_id gid = by_id gid"

definition groupIdFromName :: "(string \<Rightarrow> int option) \<Rightarrow> string option \<Rightarrow> int" where
  "groupIdFromName by_name name =
     (case name of None \<Rightarrow> ID_ERR
      | Some s \<Rightarrow> if s = [] then ID_ERR
          else case strtol s 10 of (v, endptr, _) \<Rightarrow>
            if endptr = [] then to_u32 v
            else (case by_name s of None \<Rightarrow> ID_ERR | Some gid \<Rightarrow> gid))"

section \<open>The interface of an ID lookup\<close>

text \<open>What the callers rely on: printed IDs are read as numbers, other names go to the database.\<close>

locale id_lookup =
  fixes id_of :: "(string \<Rightarrow> int option) \<Rightarrow> string option \<Rightarrow> int"
  assumes numeric: "LONG_MIN \<le> v \<Longrightarrow> v \<le> LONG_MAX \<Longrightarrow> id_of db (Some (show_int v)) = to_u32 v"
    and named: "s \<noteq> [] \<Longrightarrow> fst (snd (strtol s 10)) \<noteq> [] \<Longrightarrow>
      id_of db (Some s) = (case db s of None \<Rightarrow> ID_ERR | Some i \<Rightarrow> i)"
    and missing: "id_of db None = ID_ERR" "id_of db (Some []) = ID_ERR"
begin

lemma valid_id: "0 \<le> v \<Longrightarrow> v < 2 ^ 32 \<Longrightarrow> id_of db (Some (show_int v)) = v"
  by (subst numeric) (auto simp: const_defs to_u32_id)

lemma wraps: "0 \<le> v \<Longrightarrow> v < 2 ^ 31 \<Longrightarrow> id_of db (Some (show_int (v + 2 ^ 32))) = v"
  by (subst numeric) (auto simp: const_defs to_u32_def)

end

lemma userIdFromName_numeric:
  "LONG_MIN \<le> v \<Longrightarrow> v \<le> LONG_MAX \<Longrightarrow> userIdFromName db (Some (show_int v)) = to_u32 v"
  using strtol_show_int [of "[]" v] by (simp add: userIdFromName_def)

lemma groupIdFromName_numeric:
  "LONG_MIN \<le> v \<Longrightarrow> v \<le> LONG_MAX \<Longrightarrow> groupIdFromName db (Some (show_int v)) = to_u32 v"
  using strtol_show_int [of "[]" v] by (simp add: groupIdFromName_def)

interpretation usr: id_lookup userIdFromName
proof (unfold_locales, goal_cases)
  case (1 v db)
  then show ?case by (rule userIdFromName_numeric)
qed (auto simp: userIdFromName_def split: prod.splits)

interpretation grp: id_lookup groupIdFromName
proof (unfold_locales, goal_cases)
  case (1 v db)
  then show ?case by (rule groupIdFromName_numeric)
qed (auto simp: groupIdFromName_def split: prod.splits)

section \<open>Properties\<close>

text \<open>Names and numbers: a printed user or group ID below \<^verbatim>\<open>2^32\<close> is read back as itself, a
  name that is not a number is looked up in the database and gives the error ID when it is not
  there; the empty name is an error.\<close>

theorem ids_roundtrip:
  assumes "0 \<le> v" "v < 2 ^ 32" "s \<noteq> []" "fst (snd (strtol s 10)) \<noteq> []"
  shows "userIdFromName db (Some (show_int v)) = v \<and> groupIdFromName db (Some (show_int v)) = v \<and>
    userIdFromName db (Some s) = (case db s of None \<Rightarrow> ID_ERR | Some i \<Rightarrow> i) \<and>
    groupIdFromName db (Some s) = (case db s of None \<Rightarrow> ID_ERR | Some i \<Rightarrow> i) \<and>
    userIdFromName db (Some []) = ID_ERR \<and> groupIdFromName db None = ID_ERR"
  using assms by (simp add: usr.valid_id grp.valid_id usr.named grp.named usr.missing grp.missing)

theorem ids_roundtrip_witness:
  "userIdFromName (\<lambda>_. None) (Some (show_int 1000)) = 1000 \<and>
   groupIdFromName (\<lambda>_. None) (Some ''staff'') = ID_ERR"
proof -
  have "fst (snd (strtol ''staff'' 10)) \<noteq> []" by code_simp
  then show ?thesis using ids_roundtrip [of 1000 "''staff''" "\<lambda>_. None"] by simp
qed

text \<open>The numeric conversion wraps at 32 bits: a decimal number that exceeds an ID by \<^verbatim>\<open>2^32\<close>
  is accepted and read as that ID, so that \<^verbatim>\<open>4294967296\<close> names the superuser.\<close>

theorem userIdFromName_wraps:
  "0 \<le> v \<Longrightarrow> v < 2 ^ 31 \<Longrightarrow> userIdFromName db (Some (show_int (v + 2 ^ 32))) = v"
  by (rule usr.wraps)

theorem userIdFromName_wraps_witness: "userIdFromName (\<lambda>_. None) (Some (show_int 4294967296)) = 0"
  using userIdFromName_wraps [of 0 "\<lambda>_. None"] by simp

end
