(* ===== verification/Environ.thy ===== *)
theory Environ
  imports CLib
begin

text \<open>
  \<^verbatim>\<open>tlpi-book/proc/setenv.c\<close>: \<^verbatim>\<open>unsetenv\<close> and \<^verbatim>\<open>setenv\<close> on the environment list. \<^verbatim>\<open>environ\<close> is an
  array of pointers that ends with a null pointer: here a list whose null entries are \<open>None\<close>,
  so that the loops run over indices as in the code. The allocations made by \<^verbatim>\<open>malloc\<close> and
  \<^verbatim>\<open>putenv\<close> are answered by boolean arguments.
\<close>

type_synonym env_array = "string option list"

definition bad_name :: "string option \<Rightarrow> bool" where
  "bad_name name = (case name of None \<Rightarrow> True | Some n \<Rightarrow> n = [] \<or> strchr n (CHR ''='') \<noteq> None)"

text \<open>\<^verbatim>\<open>strncmp(*ep, name, len) == 0 && (*ep)[len] == '='\<close>\<close>

definition names_var :: "string \<Rightarrow> string \<Rightarrow> bool" where
  "names_var name e \<longleftrightarrow> take (length name) e = name \<and> length name < length e \<and> e ! length name = CHR ''=''"

text \<open>The inner loop: shift the entries from \<open>sp\<close> on back by one, up to the terminator. An index
  past the array ends the loop as well (the array always has its terminator).\<close>

function shift_back :: "nat \<Rightarrow> env_array \<Rightarrow> env_array" where
  "shift_back sp a =
     (if sp + 1 < length a \<and> a ! sp \<noteq> None then shift_back (sp + 1) (a[sp := a ! (sp + 1)]) else a)"
  by auto
termination by (relation "measure (\<lambda>(sp, a). length a - sp)") auto

declare shift_back.simps [simp del]

text \<open>The number of entries before the terminator.\<close>

definition env_len :: "env_array \<Rightarrow> nat" where
  "env_len a = length (takeWhile (\<lambda>x. x \<noteq> None) a)"

text \<open>The entries the array holds.\<close>

definition entries :: "env_array \<Rightarrow> string list" where
  "entries a = map the (takeWhile (\<lambda>x. x \<noteq> None) a)"

lemma shift_back_shape:
  "shift_back (length xs) (xs @ map Some (y # ys) @ [None] @ zs) =
     xs @ map Some ys @ [None, None] @ zs"
proof (induction ys arbitrary: xs y)
  case Nil
  then show ?case by (simp add: shift_back.simps [of "length xs"] shift_back.simps [of "Suc (length xs)"] nth_append)
next
  case (Cons z ys)
  have "shift_back (length xs) (xs @ map Some (y # z # ys) @ [None] @ zs) =
      shift_back (length (xs @ [Some z])) ((xs @ [Some z]) @ map Some (z # ys) @ [None] @ zs)"
    by (subst shift_back.simps) (simp add: nth_append)
  then show ?case using Cons.IH [of "xs @ [Some z]" z] by simp
qed

lemma array_shape: "None \<in> set a \<Longrightarrow> \<exists>zs. a = map Some (entries a) @ [None] @ zs"
proof -
  assume "None \<in> set a"
  then obtain ys zs where a: "a = ys @ None # zs" "None \<notin> set ys" by (metis split_list_first)
  then have "takeWhile (\<lambda>x. x \<noteq> None) a = ys"
    unfolding a(1) by (intro takeWhile_app_stop) metis+
  moreover have "map Some (map the ys) = ys" using a(2) by (induction ys) auto
  ultimately show ?thesis using a(1) by (auto simp: entries_def)
qed

lemma entries_shape [simp]: "entries (map Some es @ None # zs) = es"
  by (induction es) (simp_all add: entries_def)

lemma env_len_entries: "env_len a = length (entries a)"
  by (simp add: env_len_def entries_def)

lemma shift_back_removes:
  assumes "None \<in> set a" "i < env_len a"
  shows "entries (shift_back i a) = take i (entries a) @ drop (Suc i) (entries a)"
    and "None \<in> set (shift_back i a)"
proof -
  obtain zs where a: "a = map Some (entries a) @ [None] @ zs" using array_shape [OF assms(1)] by blast
  let ?es = "entries a"
  have i: "i < length ?es" using assms(2) by (simp add: env_len_entries)
  let ?xs = "map Some (take i ?es)"
  have "map Some ?es = ?xs @ map Some (?es ! i # drop (Suc i) ?es)"
    using i by (metis id_take_nth_drop map_append)
  then have "a = ?xs @ map Some (?es ! i # drop (Suc i) ?es) @ [None] @ zs"
    using a by (metis append.assoc)
  moreover have "length ?xs = i" using i by simp
  ultimately have "shift_back i a = ?xs @ map Some (drop (Suc i) ?es) @ [None, None] @ zs"
    using shift_back_shape [of ?xs "?es ! i" "drop (Suc i) ?es" zs] by metis
  then have "shift_back i a = map Some (take i ?es @ drop (Suc i) ?es) @ None # None # zs" by simp
  then show "entries (shift_back i a) = take i ?es @ drop (Suc i) ?es" "None \<in> set (shift_back i a)"
    by (simp_all only: entries_shape) simp
qed

lemma env_len_shift_back:
  "None \<in> set a \<Longrightarrow> i < env_len a \<Longrightarrow> Suc (env_len (shift_back i a)) = env_len a"
  using shift_back_removes(1) [of a i] by (simp add: env_len_entries)

text \<open>The outer loop of \<^verbatim>\<open>unsetenv\<close>.\<close>

function unset_loop :: "string \<Rightarrow> nat \<Rightarrow> env_array \<Rightarrow> env_array" where
  "unset_loop name ep a =
     (if None \<notin> set a \<or> env_len a \<le> ep then a
      else if names_var name (the (a ! ep)) then unset_loop name ep (shift_back ep a)
      else unset_loop name (ep + 1) a)"
  by auto
termination
  by (relation "measure (\<lambda>(name, ep, a). 2 * env_len a - ep)")
    (auto dest!: env_len_shift_back simp: not_le)

declare unset_loop.simps [simp del]

definition unsetenv :: "string option \<Rightarrow> env_array \<Rightarrow> (int + unit) \<times> env_array" where
  "unsetenv name a =
     (if bad_name name then (Inl EINVAL, a) else (Inr (), unset_loop (the name) 0 a))"

text \<open>\<^verbatim>\<open>getenv\<close> and \<^verbatim>\<open>putenv\<close> of the C library: look a name up; add or replace the entry of a
  \<^verbatim>\<open>name=value\<close> string.\<close>

definition entry_of :: "string \<Rightarrow> string \<Rightarrow> bool" where
  "entry_of name e \<longleftrightarrow> take (Suc (length name)) e = name @ ''=''"

definition getenv :: "string \<Rightarrow> env_array \<Rightarrow> string option" where
  "getenv name a = map_option (\<lambda>e. drop (length name + 1) e) (find (entry_of name) (entries a))"

definition putenv :: "bool \<Rightarrow> string \<Rightarrow> env_array \<Rightarrow> (int + unit) \<times> env_array" where
  "putenv mem es a =
     (let name = takeWhile (\<lambda>c. c \<noteq> CHR ''='') es; vs = entries a in
      case find_index (entry_of name) vs of
        Some i \<Rightarrow> (Inr (), map Some (vs[i := es]) @ [None])
      | None \<Rightarrow> if mem then (Inr (), map Some (vs @ [es]) @ [None]) else (Inl ENOMEM, a))"

definition setenv ::
  "bool \<Rightarrow> bool \<Rightarrow> string option \<Rightarrow> string option \<Rightarrow> bool \<Rightarrow> env_array \<Rightarrow> (int + unit) \<times> env_array" where
  "setenv malloc_ok putenv_ok name val overwrite a =
     (if bad_name name \<or> val = None then (Inl EINVAL, a)
      else if getenv (the name) a \<noteq> None \<and> \<not> overwrite then (Inr (), a)
      else
        let a1 = snd (unsetenv name a) in
        if \<not> malloc_ok then (Inl ENOMEM, a1)
        else putenv putenv_ok (the name @ ''='' @ the val) a1)"

section \<open>Equivalence with filtering\<close>

lemma unset_loop_filter:
  assumes "None \<in> set a" "ep \<le> env_len a"
  shows "entries (unset_loop name ep a) =
      take ep (entries a) @ filter (\<lambda>e. \<not> names_var name e) (drop ep (entries a)) \<and>
    None \<in> set (unset_loop name ep a)"
  using assms
proof (induction name ep a rule: unset_loop.induct)
  case (1 name ep a)
  show ?case
  proof (cases "env_len a \<le> ep")
    case True
    with "1.prems" show ?thesis by (subst (1 2) unset_loop.simps) (simp add: env_len_entries)
  next
    case False
    then have ep: "ep < length (entries a)" by (simp add: env_len_entries)
    obtain zs where a: "a = map Some (entries a) @ [None] @ zs" using array_shape [OF "1.prems"(1)] by blast
    have e: "the (a ! ep) = entries a ! ep" using ep by (subst a) (simp add: nth_append)
    have d: "drop ep (entries a) = entries a ! ep # drop (Suc ep) (entries a)"
      using ep by (simp add: Cons_nth_drop_Suc)
    show ?thesis
    proof (cases "names_var name (the (a ! ep))")
      case True
      have sb: "entries (shift_back ep a) = take ep (entries a) @ drop (Suc ep) (entries a)"
        "None \<in> set (shift_back ep a)"
        using shift_back_removes [OF "1.prems"(1)] False by simp_all
      have "ep \<le> env_len (shift_back ep a)" using sb(1) ep by (simp add: env_len_entries)
      from "1.IH"(1) [OF _ True sb(2) this] False "1.prems"(1) True sb(1) ep
      have "entries (unset_loop name ep (shift_back ep a)) =
          take ep (entries a) @ filter (\<lambda>e. \<not> names_var name e) (drop (Suc ep) (entries a)) \<and>
        None \<in> set (unset_loop name ep (shift_back ep a))" by simp
      moreover have "unset_loop name ep a = unset_loop name ep (shift_back ep a)"
        using False "1.prems"(1) True by (subst unset_loop.simps) simp
      ultimately show ?thesis using True e d by simp
    next
      case nm: False
      have "unset_loop name ep a = unset_loop name (ep + 1) a"
        using False "1.prems"(1) nm by (subst unset_loop.simps) simp
      moreover have "ep + 1 \<le> env_len a" using False by simp
      ultimately show ?thesis
        using "1.IH"(2) [OF _ nm "1.prems"(1)] False "1.prems"(1) nm e d ep
        by (simp add: take_Suc_conv_app_nth)
    qed
  qed
qed

lemma unsetenv_filter:
  assumes "None \<in> set a" "\<not> bad_name name"
  shows "\<exists>a'. unsetenv name a = (Inr (), a') \<and> None \<in> set a' \<and>
    entries a' = filter (\<lambda>e. \<not> names_var (the name) e) (entries a)"
  using unset_loop_filter [OF assms(1), of 0 "the name"] assms(2) by (simp add: unsetenv_def)

text \<open>The test of the code finds exactly the entries \<^verbatim>\<open>name=value\<close>.\<close>

lemma names_var_iff: "names_var name e \<longleftrightarrow> (\<exists>v. e = name @ ''='' @ v)"
proof
  assume "names_var name e"
  then have "e = name @ CHR ''='' # drop (Suc (length name)) e"
    unfolding names_var_def by (metis append_take_drop_id Cons_nth_drop_Suc)
  then show "\<exists>v. e = name @ ''='' @ v" by auto
qed (auto simp: names_var_def)

lemma entry_of_names_var: "entry_of name = names_var name"
proof
  fix e show "entry_of name e = names_var name e"
  proof
    assume "entry_of name e"
    then have "e = (name @ ''='') @ drop (Suc (length name)) e" unfolding entry_of_def by (metis append_take_drop_id)
    then show "names_var name e" by (auto simp: names_var_iff)
  qed (auto simp: names_var_iff entry_of_def)
qed

lemma names_var_own: "names_var name (name @ ''='' @ v)"
  by (simp add: names_var_def)

lemma names_var_unique:
  assumes "CHR ''='' \<notin> set n" "CHR ''='' \<notin> set m" "names_var n e" "names_var m e"
  shows "n = m"
proof -
  have split: "e = k @ CHR ''='' # drop (Suc (length k)) e" if "names_var k e" for k
    using that unfolding names_var_def by (metis append_take_drop_id Cons_nth_drop_Suc)
  have "takeWhile (\<lambda>c. c \<noteq> CHR ''='') e = k" if "names_var k e" "CHR ''='' \<notin> set k" for k
    using that by (subst split [OF that(1)]) (auto intro: takeWhile_app_stop)
  with assms show ?thesis by metis
qed

lemma find_filter_other:
  assumes "CHR ''='' \<notin> set n" "CHR ''='' \<notin> set m" "n \<noteq> m"
  shows "find (names_var m) (filter (\<lambda>e. \<not> names_var n e) es) = find (names_var m) es"
  using assms by (induction es) (auto dest: names_var_unique)

section \<open>Properties\<close>

text \<open>C26. \<open>unsetenv\<close> against its reference. A null or empty name, or one with an equals sign, is refused with EINVAL and changes nothing. For every other name it
  succeeds and leaves exactly the entries that are not of the form \<^verbatim>\<open>name=value\<close>, in their order; every definition of the name is gone, also when the
  list holds several, and entries of longer names that start with it stay.\<close>

theorem unsetenv_removes_all:
  assumes "None \<in> set a"
  shows "case name of
      None \<Rightarrow> unsetenv name a = (Inl EINVAL, a)
    | Some n \<Rightarrow>
        if n = [] \<or> CHR ''='' \<in> set n then unsetenv name a = (Inl EINVAL, a)
        else \<exists>a'. unsetenv name a = (Inr (), a') \<and> entries a' = filter (\<lambda>e. \<nexists>v. e = n @ ''='' @ v) (entries a) \<and> getenv n a' = None"
proof (cases name)
  case (Some n)
  show ?thesis
  proof (cases "n = [] \<or> CHR ''='' \<in> set n")
    case True
    with Some show ?thesis by (simp add: unsetenv_def bad_name_def)
  next
    case False
    then have "\<not> bad_name (Some n)" by (simp add: bad_name_def)
    from unsetenv_filter [OF assms this] obtain a' where "unsetenv name a = (Inr (), a')" "entries a' = filter (\<lambda>e. \<not> names_var n e) (entries a)"
      using Some by auto
    then show ?thesis using False Some by (simp add: getenv_def find_None_iff entry_of_names_var) (simp add: names_var_iff)
  qed
qed (simp add: unsetenv_def bad_name_def)

theorem unsetenv_removes_all_witness:
  "\<exists>a'. unsetenv (Some ''A'') [Some ''A=1'', Some ''AB=2'', Some ''A=3'', None] = (Inr (), a') \<and>
    entries a' = [''AB=2'']"
  using unsetenv_removes_all [of "[Some ''A=1'', Some ''AB=2'', Some ''A=3'', None]" "Some ''A''"]
  by (auto simp: entries_def)

text \<open>\<open>setenv\<close> then \<open>getenv\<close>: after a successful call the name has the new value (or, without
  overwriting, keeps the value it had), and every other name reads as before.\<close>

theorem setenv_getenv:
  assumes a: "None \<in> set a" and n: "\<not> bad_name (Some n)"
    and run: "setenv b1 b2 (Some n) (Some v) overwrite a = (Inr (), a')"
  shows "getenv n a' = (if getenv n a \<noteq> None \<and> \<not> overwrite then getenv n a else Some v) \<and>
    (\<forall>m. m \<noteq> n \<and> CHR ''='' \<notin> set m \<longrightarrow> getenv m a' = getenv m a)"
proof (cases "getenv n a \<noteq> None \<and> \<not> overwrite")
  case True
  with run n show ?thesis by (auto simp: setenv_def)
next
  case False
  obtain a1 where a1: "unsetenv (Some n) a = (Inr (), a1)"
    "entries a1 = filter (\<lambda>e. \<not> names_var n e) (entries a)"
    using unsetenv_filter [OF a n] by auto
  have eq: "CHR ''='' \<notin> set n" using n by (simp add: bad_name_def)
  have tw: "takeWhile (\<lambda>c. c \<noteq> CHR ''='') (n @ CHR ''='' # v) = n"
    using eq by (auto intro: takeWhile_app_stop)
  have none: "find_index (names_var n) (entries a1) = None" using a1(2) by simp
  note entry_of_names_var [simp]
  have "a' = map Some (entries a1 @ [n @ ''='' @ v]) @ [None]"
    using run False n a1(1) none tw
    by (auto simp: setenv_def putenv_def Let_def split: if_splits option.splits
        dest!: find_index_SomeD dest: nth_mem)
  then have es: "entries a' = entries a1 @ [n @ ''='' @ v]"
    by (metis entries_shape)
  have "getenv n a' = Some v"
    using names_var_own [of n v] none by (simp add: getenv_def es find_append find_None_iff [THEN iffD2])
  moreover have "getenv m a' = getenv m a" if "m \<noteq> n" "CHR ''='' \<notin> set m" for m
  proof -
    have "\<not> names_var m (n @ ''='' @ v)"
      using names_var_unique [OF eq that(2) names_var_own] that(1) by blast
    then show ?thesis
      using find_filter_other [OF eq that(2)] that(1)
      by (simp add: getenv_def es find_append a1(2) split: option.splits)
  qed
  ultimately show ?thesis using False by auto
qed

theorem setenv_getenv_witness:
  "\<exists>a'. setenv True True (Some ''A'') (Some ''x'') True [Some ''A=1'', Some ''B=2'', None] = (Inr (), a') \<and>
    getenv ''A'' a' = Some ''x'' \<and> getenv ''B'' a' = Some ''2''"
proof -
  let ?a = "[Some ''A=1'', Some ''B=2'', None]"
  have "fst (setenv True True (Some ''A'') (Some ''x'') True ?a) = Inr ()" by code_simp
  then obtain a' where run: "setenv True True (Some ''A'') (Some ''x'') True ?a = (Inr (), a')"
    by (metis prod.collapse)
  moreover have "getenv ''B'' ?a = Some ''2''" by code_simp
  ultimately show ?thesis using setenv_getenv [OF _ _ run] by (auto simp: bad_name_def)
qed

end
