(* ===== verification/Acl_Update.thy ===== *)
theory Acl_Update
  imports Ugid Getopt Error_Functions
begin

text \<open>
  \<^verbatim>\<open>tlpi-book/acl/acl_update.c\<close>: parsing of ACL entry specifications and the program that applies
  them to files. A parse error is the message the code prints (left injection). The ACL library
  (\<^verbatim>\<open>libacl\<close>) is an argument, a record of functions on an ACL object, with entry and permission
  set handles; an error is its \<^verbatim>\<open>errno\<close> value.
\<close>

section \<open>Entries\<close>

datatype acl_tag = ACL_USER_OBJ | ACL_USER | ACL_GROUP_OBJ | ACL_GROUP | ACL_MASK | ACL_OTHER

definition ACL_READ :: int where [const_defs]: "ACL_READ = 4"
definition ACL_WRITE :: int where [const_defs]: "ACL_WRITE = 2"
definition ACL_EXECUTE :: int where [const_defs]: "ACL_EXECUTE = 1"

definition MAX_ENTRIES :: nat where "MAX_ENTRIES = 10000"

text \<open>\<^verbatim>\<open>perms\<close> is assigned only when a permission string is present.\<close>

record AccessControlEntry =
  tag :: acl_tag
  qual :: int
  perms :: "int option"

section \<open>Parsing\<close>

primrec parse_perms :: "string \<Rightarrow> int \<Rightarrow> string + int" where
  "parse_perms [] acc = Inr acc"
| "parse_perms (c # cs) acc =
     (if c = CHR ''r'' then parse_perms cs (acc OR ACL_READ)
      else if c = CHR ''w'' then parse_perms cs (acc OR ACL_WRITE)
      else if c = CHR ''x'' then parse_perms cs (acc OR ACL_EXECUTE)
      else if c \<noteq> CHR ''-'' then Inl (''Bad character in permissions string: '' @ [c, NL])
      else parse_perms cs acc)"

definition tag_of :: "string \<Rightarrow> bool \<Rightarrow> acl_tag option" where
  "tag_of s hasQual =
     (if s = ''u'' \<or> s = ''user'' then Some (if hasQual then ACL_USER else ACL_USER_OBJ)
      else if s = ''g'' \<or> s = ''group'' then Some (if hasQual then ACL_GROUP else ACL_GROUP_OBJ)
      else if s = ''o'' \<or> s = ''other'' then Some ACL_OTHER
      else if s = ''m'' \<or> s = ''mask'' then Some ACL_MASK
      else None)"

text \<open>The ID named by the qualifier, for the tags that have one.\<close>

definition qual_of ::
  "(string \<Rightarrow> int option) \<Rightarrow> (string \<Rightarrow> int option) \<Rightarrow> acl_tag \<Rightarrow> string \<Rightarrow> string + int" where
  "qual_of users groups t q =
     (if t = ACL_USER then
        let u = userIdFromName users (Some q)
        in if u = ID_ERR then Inl (''Bad user ID: '' @ q @ [NL]) else Inr u
      else if t = ACL_GROUP then
        let g = groupIdFromName groups (Some q)
        in if g = ID_ERR then Inl (''Bad group ID: '' @ q @ [NL]) else Inr g
      else Inr 0)"

definition parseEntrySpec ::
  "(string \<Rightarrow> int option) \<Rightarrow> (string \<Rightarrow> int option) \<Rightarrow> string \<Rightarrow> bool \<Rightarrow> string + AccessControlEntry" where
  "parseEntrySpec users groups entryStr permsReqd =
     (case strchr entryStr (CHR '':'') of
        None \<Rightarrow> Inl (''Missing initial colon in ACL entry: '' @ entryStr @ [NL])
      | Some (tagStr, colon1) \<Rightarrow>
          let after = tl colon1;
              hasQual = (after \<noteq> [] \<and> hd after \<noteq> CHR '':'');
              colon2 = strchr after (CHR '':'');
              hasPerms = (case colon2 of None \<Rightarrow> False | Some (_, r) \<Rightarrow> tl r \<noteq> [])
          in if hasPerms \<and> \<not> permsReqd then Inl (''Cannot specify permissions here'' @ [NL])
             else if \<not> hasPerms \<and> permsReqd then Inl (''Must specify permissions'' @ [NL])
             else case tag_of tagStr hasQual of
                None \<Rightarrow> Inl (''Bad tag: '' @ tagStr @ [NL])
              | Some t \<Rightarrow>
                  (case qual_of users groups t (case colon2 of None \<Rightarrow> after | Some (q, _) \<Rightarrow> q) of
                     Inl m \<Rightarrow> Inl m
                   | Inr q \<Rightarrow>
                       if \<not> hasPerms then Inr \<lparr>tag = t, qual = q, perms = None\<rparr>
                       else (case parse_perms (tl (snd (the colon2))) 0 of
                               Inl m \<Rightarrow> Inl m
                             | Inr p \<Rightarrow> Inr \<lparr>tag = t, qual = q, perms = Some p\<rparr>)))"

text \<open>\<open>parse_entries\<close> is the loop of \<^verbatim>\<open>parseACL\<close>; \<open>n\<close> counts the entries stored so far.\<close>

function parse_entries ::
  "(string \<Rightarrow> int option) \<Rightarrow> (string \<Rightarrow> int option) \<Rightarrow> bool \<Rightarrow> nat \<Rightarrow> string \<Rightarrow> string + AccessControlEntry list" where
  "parse_entries users groups permsReqd n s =
     (if n \<ge> MAX_ENTRIES then Inl (''Too many entries in ACL'' @ [NL])
      else case strchr s (CHR '','') of
        None \<Rightarrow> (case parseEntrySpec users groups s permsReqd of Inl m \<Rightarrow> Inl m | Inr e \<Rightarrow> Inr [e])
      | Some (entry, comma) \<Rightarrow>
          (case parseEntrySpec users groups entry permsReqd of
             Inl m \<Rightarrow> Inl m
           | Inr e \<Rightarrow>
               (case parse_entries users groups permsReqd (n + 1) (tl comma) of
                  Inl m \<Rightarrow> Inl m
                | Inr es \<Rightarrow> Inr (e # es))))"
  by pat_completeness auto
termination
  by (relation "measure (\<lambda>(_, _, _, _, s). length s)") (auto dest: strchr_shrinks)

declare parse_entries.simps [simp del]

definition parseACL ::
  "(string \<Rightarrow> int option) \<Rightarrow> (string \<Rightarrow> int option) \<Rightarrow> string \<Rightarrow> bool \<Rightarrow> string + AccessControlEntry list" where
  "parseACL users groups aclStr permsReqd = parse_entries users groups permsReqd 0 aclStr"

section \<open>Applying entries\<close>

text \<open>The calls of the ACL library. \<open>lib_walk\<close> gives the entries \<^verbatim>\<open>acl_get_entry\<close> delivers from the
  first on and the error that ends the walk, if one does; \<open>lib_free\<close> is the error of \<^verbatim>\<open>acl_free\<close>,
  if it fails.\<close>

record ('a, 'e, 'p, 'f) acl_lib =
  lib_strerror :: "int \<Rightarrow> string"
  lib_walk :: "'a \<Rightarrow> 'e list \<times> int option"
  lib_tag :: "'e \<Rightarrow> 'a \<Rightarrow> int + acl_tag"
  lib_qual :: "'e \<Rightarrow> 'a \<Rightarrow> int + int"
  lib_free :: "int option"
  lib_permset :: "'e \<Rightarrow> 'a \<Rightarrow> int + 'p"
  lib_clear_perms :: "'p \<Rightarrow> 'a \<Rightarrow> int + 'a"
  lib_add_perm :: "int \<Rightarrow> 'p \<Rightarrow> 'a \<Rightarrow> int + 'a"
  lib_set_permset :: "'e \<Rightarrow> 'p \<Rightarrow> 'a \<Rightarrow> int + 'a"
  lib_create :: "'a \<Rightarrow> int + ('e \<times> 'a)"
  lib_set_tag :: "'e \<Rightarrow> acl_tag \<Rightarrow> 'a \<Rightarrow> int + 'a"
  lib_set_qual :: "'e \<Rightarrow> int \<Rightarrow> 'a \<Rightarrow> int + 'a"
  lib_delete :: "'e \<Rightarrow> 'a \<Rightarrow> int + 'a"
  lib_calc_mask :: "'a \<Rightarrow> int + 'a"
  lib_valid :: "'a \<Rightarrow> int option"
  lib_get_file :: "string \<Rightarrow> bool \<Rightarrow> 'f \<Rightarrow> int + 'a"
  lib_set_file :: "string \<Rightarrow> bool \<Rightarrow> 'a \<Rightarrow> 'f \<Rightarrow> int + 'f"
  lib_delete_def :: "string \<Rightarrow> 'f \<Rightarrow> int + 'f"

record 'f acl_st = proc_io +
  files :: 'f

text \<open>The pattern \<^verbatim>\<open>if (call == -1) errExit(msg)\<close>.\<close>

definition chk :: "('a, 'e, 'p, 'f) acl_lib \<Rightarrow> string \<Rightarrow> int + 'x \<Rightarrow> ('f acl_st, 'x) prog" where
  "chk L msg r = (case r of Inr x \<Rightarrow> ret x
     | Inl e \<Rightarrow> bnd (modify (\<lambda>s. s\<lparr>errno := e\<rparr>)) (\<lambda>_. errExit (lib_strerror L) msg))"

definition chk_opt :: "('a, 'e, 'p, 'f) acl_lib \<Rightarrow> string \<Rightarrow> int option \<Rightarrow> ('f acl_st, unit) prog" where
  "chk_opt L msg r = chk L msg (case r of None \<Rightarrow> Inr () | Some e \<Rightarrow> Inl e)"

text \<open>The loop of \<^verbatim>\<open>findEntry\<close> over the entries of the walk.\<close>

primrec find_entry ::
  "('a, 'e, 'p, 'f) acl_lib \<Rightarrow> 'a \<Rightarrow> acl_tag \<Rightarrow> int \<Rightarrow> int option \<Rightarrow> 'e list \<Rightarrow> ('f acl_st, 'e option) prog" where
  "find_entry L acl t q err [] =
     bnd (chk_opt L ''acl_get_entry'' err) (\<lambda>_. ret None)"
| "find_entry L acl t q err (e # es) =
     bnd (chk L ''acl_get_tag_type'' (lib_tag L e acl)) (\<lambda>entryTag.
     if t = entryTag then
       (if t = ACL_USER \<or> t = ACL_GROUP then
          bnd (chk L ''acl_get_qualifier'' (lib_qual L e acl)) (\<lambda>id.
          bnd (chk_opt L ''acl_free'' (lib_free L)) (\<lambda>_.
          if q = id then ret (Some e) else find_entry L acl t q err es))
        else ret (Some e))
     else find_entry L acl t q err es)"

definition findEntry ::
  "('a, 'e, 'p, 'f) acl_lib \<Rightarrow> 'a \<Rightarrow> acl_tag \<Rightarrow> int \<Rightarrow> ('f acl_st, 'e option) prog" where
  "findEntry L acl t q = (case lib_walk L acl of (es, err) \<Rightarrow> find_entry L acl t q err es)"

definition add_perm_if ::
  "('a, 'e, 'p, 'f) acl_lib \<Rightarrow> int \<Rightarrow> int \<Rightarrow> 'p \<Rightarrow> 'a \<Rightarrow> ('f acl_st, 'a) prog" where
  "add_perm_if L ps b pset acl =
     (if ps AND b \<noteq> 0 then chk L ''acl_add_perm'' (lib_add_perm L b pset acl) else ret acl)"

definition setPerms ::
  "('a, 'e, 'p, 'f) acl_lib \<Rightarrow> 'e \<Rightarrow> int \<Rightarrow> 'a \<Rightarrow> ('f acl_st, 'a) prog" where
  "setPerms L entry ps acl =
     bnd (chk L ''acl_get_permset'' (lib_permset L entry acl)) (\<lambda>pset.
     bnd (chk L ''acl_clear_perms'' (lib_clear_perms L pset acl)) (\<lambda>a1.
     bnd (add_perm_if L ps ACL_READ pset a1) (\<lambda>a2.
     bnd (add_perm_if L ps ACL_WRITE pset a2) (\<lambda>a3.
     bnd (add_perm_if L ps ACL_EXECUTE pset a3) (\<lambda>a4.
     chk L ''acl_set_permset'' (lib_set_permset L entry pset a4))))))"

definition create_entry ::
  "('a, 'e, 'p, 'f) acl_lib \<Rightarrow> AccessControlEntry \<Rightarrow> 'a \<Rightarrow> ('f acl_st, 'e \<times> 'a) prog" where
  "create_entry L ace acl =
     bnd (chk L ''acl_create_entry'' (lib_create L acl)) (\<lambda>(e, a1).
     bnd (chk L ''acl_set_tag_type'' (lib_set_tag L e (tag ace) a1)) (\<lambda>a2.
     if tag ace = ACL_USER \<or> tag ace = ACL_GROUP
     then bnd (chk L ''acl_set_qualifier'' (lib_set_qual L e (qual ace) a2)) (\<lambda>a3. ret (e, a3))
     else ret (e, a2)))"

text \<open>One entry of the specification: change the ACL object, then recompute the mask, validate and
  store it. The use of unassigned permissions is undefined.\<close>

definition change_entry ::
  "('a, 'e, 'p, 'f) acl_lib \<Rightarrow> bool \<Rightarrow> AccessControlEntry \<Rightarrow> 'a \<Rightarrow> ('f acl_st, 'a) prog" where
  "change_entry L removeACL ace acl =
     bnd (findEntry L acl (tag ace) (qual ace)) (\<lambda>entry.
     if removeACL then
       (case entry of None \<Rightarrow> ret acl | Some e \<Rightarrow> chk L ''acl_delete_entry'' (lib_delete L e acl))
     else
       bnd (case entry of None \<Rightarrow> create_entry L ace acl | Some e \<Rightarrow> ret (e, acl)) (\<lambda>(e, a1).
       case perms ace of None \<Rightarrow> stop Undef | Some ps \<Rightarrow> setPerms L e ps a1))"

definition apply_entry ::
  "('a, 'e, 'p, 'f) acl_lib \<Rightarrow> bool \<Rightarrow> bool \<Rightarrow> bool \<Rightarrow> string \<Rightarrow> AccessControlEntry \<Rightarrow> 'a \<Rightarrow> ('f acl_st, 'a) prog" where
  "apply_entry L removeACL recalcMask dflt file ace acl =
     bnd (change_entry L removeACL ace acl) (\<lambda>a1.
     bnd (if recalcMask then chk L ''acl_calc_mask'' (lib_calc_mask L a1) else ret a1) (\<lambda>a2.
     bnd (chk_opt L ''acl_valid'' (lib_valid L a2)) (\<lambda>_.
     bnd (gets files) (\<lambda>fs.
     bnd (chk L ''acl_set_file'' (lib_set_file L file dflt a2 fs)) (\<lambda>fs'.
     bnd (modify (\<lambda>s. s\<lparr>files := fs'\<rparr>)) (\<lambda>_.
     ret a2))))))"

primrec apply_entries ::
  "('a, 'e, 'p, 'f) acl_lib \<Rightarrow> bool \<Rightarrow> bool \<Rightarrow> bool \<Rightarrow> string \<Rightarrow> AccessControlEntry list \<Rightarrow> 'a \<Rightarrow> ('f acl_st, 'a) prog" where
  "apply_entries L rm rc dflt file [] acl = ret acl"
| "apply_entries L rm rc dflt file (ace # aces) acl =
     bnd (apply_entry L rm rc dflt file ace acl) (apply_entries L rm rc dflt file aces)"

definition update_file ::
  "('a, 'e, 'p, 'f) acl_lib \<Rightarrow> bool \<Rightarrow> bool \<Rightarrow> bool \<Rightarrow> AccessControlEntry list \<Rightarrow> string \<Rightarrow> ('f acl_st, unit) prog" where
  "update_file L removeACL recalcMask dflt aces file =
     bnd (gets files) (\<lambda>fs.
     bnd (chk L ''acl_get_file'' (lib_get_file L file dflt fs)) (\<lambda>acl.
     bnd (apply_entries L removeACL recalcMask dflt file aces acl) (\<lambda>_.
     chk_opt L ''acl_free'' (lib_free L))))"

definition delete_default :: "('a, 'e, 'p, 'f) acl_lib \<Rightarrow> string \<Rightarrow> ('f acl_st, unit) prog" where
  "delete_default L file =
     bnd (gets files) (\<lambda>fs.
     bnd (chk L (''acl_delete_def_file: '' @ file) (lib_delete_def L file fs)) (\<lambda>fs'.
     modify (\<lambda>s. s\<lparr>files := fs'\<rparr>)))"

section \<open>The main program\<close>

definition acl_usage_lines :: "string \<Rightarrow> string list" where
  "acl_usage_lines progName =
    [''Usage: '' @ progName @ '' -m acl [-d] [-n] file...'' @ [NL],
     ''   or: '' @ progName @ '' -x acl [-d] [-n] file...'' @ [NL],
     ''   or: '' @ progName @ '' -k file...'' @ [NL, NL],
     ''   or: '' @ progName @ '' -V acl'' @ [NL, NL],
     ''      -m  Modify/create ACL entries'' @ [NL],
     ''      -x  Remove ACL entries'' @ [NL],
     ''      -k  Remove default ACL'' @ [NL, NL],
     ''      -V  Check validity of '' @ [CHR 39] @ ''acl'' @ [CHR 39, NL, NL],
     ''      '' @ [CHR 39] @ ''acl'' @ [CHR 39] @ '' consists of one or more comma-separated entries of the form:'' @ [NL],
     ''      '' @ [NL] @ ''            tag:[qualifier][:[perms]]'' @ [NL, NL],
     ''            '' @ [CHR 39] @ ''perms'' @ [CHR 39] @ '' are specified only for -m'' @ [NL, NL],
     ''      -d  Apply operation to default ACL'' @ [NL],
     ''      -n  Don'' @ [CHR 39] @ ''t recalculate mask entry'' @ [NL],
     ''            NOTE: if you specify this option and have specified'' @ [NL],
     ''            the -m option, then you may encounter errors if the'' @ [NL],
     ''            file does not already have a mask entry.'' @ [NL]]"

definition acl_usageError :: "string \<Rightarrow> string option \<Rightarrow> bool \<Rightarrow> ('f acl_st, 'b) prog" where
  "acl_usageError progName msg shortUsage =
     bnd (case msg of None \<Rightarrow> ret () | Some m \<Rightarrow> modify (fputs_stderr (m @ [NL]))) (\<lambda>_.
     bnd (if shortUsage
          then modify (fputs_stderr (''Type '' @ [CHR 39] @ progName @ '' --help'' @ [CHR 39] @
            '' for usage information'' @ [NL]))
          else forM (acl_usage_lines progName) (\<lambda>t. modify (fputs_stderr t))) (\<lambda>_.
     exit3 EXIT_FAILURE))"

record acl_opts =
  o_recalc :: bool
  o_default :: bool
  o_modify :: bool
  o_remove :: bool
  o_remove_default :: bool
  o_check :: bool
  o_spec :: "string option"
  o_cnt :: nat

definition acl_opts0 :: acl_opts where
  "acl_opts0 = \<lparr>o_recalc = True, o_default = False, o_modify = False, o_remove = False,
     o_remove_default = False, o_check = False, o_spec = None, o_cnt = 0\<rparr>"

text \<open>The option loop; a left result is the \<^verbatim>\<open>getopt\<close> result that takes the default branch.\<close>

definition acl_option :: "getopt_result \<Rightarrow> acl_opts \<Rightarrow> acl_opts option" where
  "acl_option opt os = (case opt of
      Opt c v \<Rightarrow>
        if c = CHR ''m'' then Some (os\<lparr>o_modify := True, o_spec := v, o_cnt := o_cnt os + 1\<rparr>)
        else if c = CHR ''x'' then Some (os\<lparr>o_remove := True, o_spec := v, o_cnt := o_cnt os + 1\<rparr>)
        else if c = CHR ''k'' then Some (os\<lparr>o_remove_default := True, o_cnt := o_cnt os + 1\<rparr>)
        else if c = CHR ''V'' then Some (os\<lparr>o_check := True, o_spec := v, o_cnt := o_cnt os + 1\<rparr>)
        else if c = CHR ''d'' then Some (os\<lparr>o_default := True\<rparr>)
        else if c = CHR ''n'' then Some (os\<lparr>o_recalc := False\<rparr>)
        else None
    | _ \<Rightarrow> None)"

primrec acl_options :: "getopt_result list \<Rightarrow> acl_opts \<Rightarrow> getopt_result + acl_opts" where
  "acl_options [] os = Inr os"
| "acl_options (opt # opts) os =
     (case acl_option opt os of None \<Rightarrow> Inl opt | Some os' \<Rightarrow> acl_options opts os')"

text \<open>The part of \<^verbatim>\<open>main\<close> after the option checks.\<close>

definition acl_run ::
  "('a, 'e, 'p, 'f) acl_lib \<Rightarrow> (string \<Rightarrow> int option) \<Rightarrow> (string \<Rightarrow> int option) \<Rightarrow> string \<Rightarrow>
   acl_opts \<Rightarrow> string list \<Rightarrow> ('f acl_st, unit) prog" where
  "acl_run L users groups progName os args =
     (if o_check os then
        (case parseACL users groups (the (o_spec os)) True of
           Inl m \<Rightarrow> bnd (modify (fputs_stderr m)) (\<lambda>_. fatal (lib_strerror L) ''Bad ACL entry specification'')
         | Inr _ \<Rightarrow> bnd (modify (printf_stdout (''ACL is valid'' @ [NL]))) (\<lambda>_. exit3 EXIT_SUCCESS))
      else
        bnd (if o_modify os \<or> o_remove os
             then (case parseACL users groups (the (o_spec os)) (o_modify os) of
                     Inl m \<Rightarrow> bnd (modify (fputs_stderr m)) (\<lambda>_.
                       acl_usageError progName (Some (''Bad ACL specification'' @ [NL])) True)
                   | Inr es \<Rightarrow> ret es)
             else ret []) (\<lambda>aces.
        bnd (forM args (\<lambda>file.
          if o_remove_default os then delete_default L file
          else if o_modify os \<or> o_remove os
          then update_file L (o_remove os) (o_recalc os) (o_default os) aces file
          else fatal (lib_strerror L) ''Bad logic!'')) (\<lambda>_.
        exit3 EXIT_SUCCESS)))"

definition acl_main ::
  "('a, 'e, 'p, 'f) acl_lib \<Rightarrow> (string \<Rightarrow> int option) \<Rightarrow> (string \<Rightarrow> int option) \<Rightarrow> string \<Rightarrow>
   string list \<Rightarrow> ('f acl_st, unit) prog" where
  "acl_main L users groups progName args =
     (if args = [] \<or> hd args = ''--help'' then acl_usageError progName None False
      else case getopt ''m:x:kdnV:'' args of (opts, operands) \<Rightarrow>
        (case acl_options opts acl_opts0 of
           Inl bad \<Rightarrow> bnd (modify (fputs_stderr (getopt_message progName bad))) (\<lambda>_.
             acl_usageError progName (Some (''Bad option'' @ [NL])) True)
         | Inr os \<Rightarrow>
             if o_cnt os \<noteq> 1 then
               acl_usageError progName (Some (''Specify exactly one of -m, -x, -k, or -V'' @ [NL])) True
             else if o_check os \<and> o_default os then
               acl_usageError progName (Some (''Can'' @ [CHR 39] @ ''t specify -d with -V'' @ [NL])) True
             else acl_run L users groups progName os operands))"

section \<open>Printing entries\<close>

definition show_perms :: "int \<Rightarrow> string" where
  "show_perms p =
     [if p AND ACL_READ \<noteq> 0 then CHR ''r'' else CHR ''-'', if p AND ACL_WRITE \<noteq> 0 then CHR ''w'' else CHR ''-'',
      if p AND ACL_EXECUTE \<noteq> 0 then CHR ''x'' else CHR ''-'']"

definition show_tag :: "acl_tag \<Rightarrow> string" where
  "show_tag t = (case t of ACL_USER_OBJ \<Rightarrow> ''u'' | ACL_USER \<Rightarrow> ''u'' | ACL_GROUP_OBJ \<Rightarrow> ''g''
     | ACL_GROUP \<Rightarrow> ''g'' | ACL_MASK \<Rightarrow> ''m'' | ACL_OTHER \<Rightarrow> ''o'')"

definition has_qual :: "acl_tag \<Rightarrow> bool" where
  "has_qual t \<longleftrightarrow> t = ACL_USER \<or> t = ACL_GROUP"

text \<open>The text of an entry: with permissions for \<^verbatim>\<open>-m\<close>, without them for \<^verbatim>\<open>-x\<close>.\<close>

definition show_entry :: "AccessControlEntry \<Rightarrow> string" where
  "show_entry e = show_tag (tag e) @ '':'' @ (if has_qual (tag e) then show_int (qual e) else []) @
     (case perms e of None \<Rightarrow> [] | Some p \<Rightarrow> '':'' @ show_perms p)"

text \<open>An entry that can be written down: a qualifier exactly for named users and groups, and
  not the reserved ID; three permission bits.\<close>

definition entry_ok :: "AccessControlEntry \<Rightarrow> bool" where
  "entry_ok e \<longleftrightarrow> (if has_qual (tag e) then 0 \<le> qual e \<and> qual e < ID_ERR else qual e = 0) \<and>
     (case perms e of None \<Rightarrow> True | Some p \<Rightarrow> 0 \<le> p \<and> p \<le> 7)"

lemma parse_show_perms:
  assumes "0 \<le> p" "p \<le> 7"
  shows "parse_perms (show_perms p) 0 = Inr p"
proof -
  have "p \<in> {0, 1, 2, 3, 4, 5, 6, 7}" using assms by auto
  then show ?thesis by (auto simp: show_perms_def const_defs)
qed

lemma show_int_hd: "hd (show_int v) \<noteq> CHR '':''"
  using show_int_no_sep [of "CHR '':''" v] hd_in_set [of "show_int v"] by force

lemma qual_of_show:
  assumes "entry_ok e"
  shows "qual_of users groups (tag e) (if has_qual (tag e) then show_int (qual e) else []) = Inr (qual e)"
proof -
  have "ID_ERR < 2 ^ 32" by (simp add: ID_ERR_def to_u32_def)
  then show ?thesis
    using assms usr.valid_id [of "qual e" users] grp.valid_id [of "qual e" groups]
    by (cases "tag e") (auto simp: entry_ok_def has_qual_def qual_of_def)
qed

lemma tag_of_show: "tag_of (show_tag t) (has_qual t) = Some t"
  by (cases t) (auto simp: tag_of_def show_tag_def has_qual_def)

lemma show_tag_no_colon: "CHR '':'' \<notin> set (show_tag t)"
  by (cases t) (auto simp: show_tag_def)

lemma parse_show_entry:
  assumes "entry_ok e"
  shows "parseEntrySpec users groups (show_entry e) (perms e \<noteq> None) = Inr e"
proof -
  define q where "q = (if has_qual (tag e) then show_int (qual e) else [])"
  define p where "p = (case perms e of None \<Rightarrow> [] | Some p \<Rightarrow> '':'' @ show_perms p)"
  have s1: "strchr (show_entry e) (CHR '':'') = Some (show_tag (tag e), CHR '':'' # q @ p)"
    using strchr_app [OF show_tag_no_colon, of "tag e" "q @ p"] by (simp add: show_entry_def q_def p_def)
  have nq: "CHR '':'' \<notin> set q" by (simp add: q_def show_int_no_sep)
  have hq: "(q @ p \<noteq> [] \<and> hd (q @ p) \<noteq> CHR '':'') = has_qual (tag e)"
    by (cases "perms e") (auto simp: q_def p_def show_int_hd)
  have qual: "qual_of users groups (tag e) q = Inr (qual e)"
    unfolding q_def by (rule qual_of_show [OF assms])
  show ?thesis
  proof (cases "perms e")
    case None
    then have "p = []" by (simp add: p_def)
    then have s2: "strchr (q @ p) (CHR '':'') = None" using nq by simp
    from None \<open>p = []\<close> qual show ?thesis
      unfolding parseEntrySpec_def s1 option.case prod.case Let_def list.sel s2 hq tag_of_show
      by simp
  next
    case (Some ps)
    then have p: "p = CHR '':'' # show_perms ps" by (simp add: p_def)
    then have s2: "strchr (q @ p) (CHR '':'') = Some (q, CHR '':'' # show_perms ps)"
      using strchr_app [OF nq, of "show_perms ps"] by simp
    moreover have "show_perms ps \<noteq> []" by (simp add: show_perms_def)
    moreover have "parse_perms (show_perms ps) 0 = Inr ps"
      using assms Some by (intro parse_show_perms) (auto simp: entry_ok_def)
    ultimately show ?thesis
      using Some qual unfolding parseEntrySpec_def s1 option.case prod.case Let_def list.sel s2 hq tag_of_show
      by simp
  qed
qed

lemma show_entry_no_comma: "CHR '','' \<notin> set (show_entry e)"
  by (cases "tag e") (auto simp: show_entry_def show_tag_def show_int_no_sep show_perms_def split: option.splits)

lemma parse_entries_show:
  assumes "es \<noteq> []" "n + length es \<le> MAX_ENTRIES" "\<forall>e \<in> set es. entry_ok e \<and> (perms e \<noteq> None) = b"
  shows "parse_entries users groups b n (comma_join (map show_entry es)) = Inr es"
  using assms
proof (induction es arbitrary: n)
  case (Cons e es)
  have e: "parseEntrySpec users groups (show_entry e) b = Inr e"
    using Cons.prems(3) parse_show_entry [of e users groups] by auto
  have n: "\<not> n \<ge> MAX_ENTRIES" using Cons.prems(2) by simp
  show ?case
  proof (cases es)
    case Nil
    have "strchr (show_entry e) (CHR '','') = None" using show_entry_no_comma by simp
    with Nil e n show ?thesis by (subst parse_entries.simps) (simp only: list.map comma_join.simps if_False option.case sum.case)
  next
    case (Cons e' es')
    have s: "strchr (comma_join (map show_entry (e # es))) (CHR '','') =
        Some (show_entry e, CHR '','' # comma_join (map show_entry es))"
      using strchr_app [OF show_entry_no_comma] Cons by simp
    have "parse_entries users groups b (n + 1) (comma_join (map show_entry es)) = Inr es"
      using Cons.IH Cons.prems Cons by simp
    with s e n show ?thesis
      by (subst parse_entries.simps) (simp only: if_False option.case prod.case sum.case list.sel)
  qed
qed simp

lemma parse_entries_sound:
  "parse_entries users groups b n s = Inr es \<Longrightarrow>
     es \<noteq> [] \<and> n + length es \<le> MAX_ENTRIES \<and> (\<forall>e \<in> set es. \<exists>t. parseEntrySpec users groups t b = Inr e)"
proof (induction users groups b n s arbitrary: es rule: parse_entries.induct)
  case (1 users groups b n s)
  show ?case
  proof (cases "strchr s (CHR '','')")
    case None
    with 1(2) show ?thesis
      by (subst (asm) parse_entries.simps) (auto simp del: strchr_None split: if_splits sum.splits)
  next
    case (Some r)
    obtain entry comma where r: "r = (entry, comma)" by fastforce
    with 1(2) Some obtain e es' where e: "\<not> n \<ge> MAX_ENTRIES" "parseEntrySpec users groups entry b = Inr e"
      "parse_entries users groups b (n + 1) (tl comma) = Inr es'" "es = e # es'"
      by (subst (asm) parse_entries.simps) (auto split: if_splits sum.splits)
    from 1(1) [OF e(1) Some [unfolded r] refl e(2) e(3)] e show ?thesis by auto
  qed
qed

lemma parse_perms_bound:
  "parse_perms s acc = Inr p \<Longrightarrow> acc \<in> {0, 1, 2, 3, 4, 5, 6, 7} \<Longrightarrow> p \<in> {0, 1, 2, 3, 4, 5, 6, 7}"
proof (induction s arbitrary: acc)
  case (Cons c s)
  have "acc OR b \<in> {0, 1, 2, 3, 4, 5, 6, 7}" if "b \<in> {1, 2, 4}" for b
    using Cons.prems(2) that by auto
  with Cons show ?case by (auto simp: const_defs split: if_splits)
qed simp

text \<open>IDs in the user and group databases are unsigned 32-bit numbers.\<close>

definition id_db_ok :: "(string \<Rightarrow> int option) \<Rightarrow> bool" where
  "id_db_ok db \<longleftrightarrow> (\<forall>n i. db n = Some i \<longrightarrow> 0 \<le> i \<and> i \<le> ID_ERR)"

lemma parseEntrySpec_ok:
  assumes "parseEntrySpec users groups s b = Inr e"
    "id_db_ok users" "id_db_ok groups"
  shows "entry_ok e \<and> (perms e \<noteq> None) = b"
proof -
  have ranges: "0 \<le> userIdFromName users n \<and> userIdFromName users n \<le> ID_ERR"
    "0 \<le> groupIdFromName groups n \<and> groupIdFromName groups n \<le> ID_ERR" for n
    using assms(2,3) to_u32_bounds
    by (auto simp: id_db_ok_def userIdFromName_def groupIdFromName_def ID_ERR_def to_u32_def split: option.splits prod.splits)
  have q: "if has_qual t then 0 \<le> x \<and> x < ID_ERR else x = 0" if "qual_of users groups t y = Inr x" for t x y
    using that ranges [of "Some y"] by (auto simp: qual_of_def has_qual_def Let_def split: if_splits)
  have p: "0 \<le> x \<and> x \<le> 7" if "parse_perms y 0 = Inr x" for x y
    using parse_perms_bound [OF that] by auto
  show ?thesis
    using assms(1) q p
    by (auto simp: parseEntrySpec_def Let_def entry_ok_def split: option.splits prod.splits if_splits sum.splits)
qed

section \<open>No undefined behaviour\<close>

lemma defined_chk [def_intros]: "defined (chk L m r)" "defined (chk_opt L m q)"
  by (auto simp: chk_opt_def chk_def split: sum.splits intro!: def_intros)

lemma defined_find_entry [def_intros]: "defined (find_entry L acl t q err es)"
  by (induction es) (auto intro!: def_intros)

lemma defined_acl_steps [def_intros]:
  "defined (findEntry L acl t q)" "defined (add_perm_if L ps b pset acl)" "defined (create_entry L ace acl)"
  by (auto simp: findEntry_def add_perm_if_def create_entry_def split: prod.splits intro!: def_intros)

lemma defined_setPerms [def_intros]: "defined (setPerms L e ps acl)"
  unfolding setPerms_def by (intro def_intros)

lemma defined_change_entry [def_intros]: "rm \<or> perms ace \<noteq> None \<Longrightarrow> defined (change_entry L rm ace acl)"
  unfolding change_entry_def by (auto split: option.splits intro!: def_intros)

lemma defined_apply_entries [def_intros]:
  "(\<And>ace. ace \<in> set aces \<Longrightarrow> rm \<or> perms ace \<noteq> None) \<Longrightarrow> defined (apply_entries L rm rc d f aces acl)"
  by (induction aces arbitrary: acl) (auto simp: apply_entry_def intro!: def_intros)

lemma defined_update_file [def_intros]:
  "(\<And>ace. ace \<in> set aces \<Longrightarrow> rm \<or> perms ace \<noteq> None) \<Longrightarrow> defined (update_file L rm rc d aces f)"
  unfolding update_file_def by (intro def_intros)

lemma defined_acl_usageError [def_intros]: "defined (acl_usageError p m b)"
  unfolding acl_usageError_def by (intro def_intros) (cases m; auto intro!: def_intros)

lemma acl_usageError_halts: "never_returns (acl_usageError p m b)"
  unfolding acl_usageError_def by (intro never_returns_bnd never_returns_exit)

lemma defined_usage_bnd: "defined (bnd (bnd (modify f) (\<lambda>_. acl_usageError p m b)) k)"
  by (intro defined_bnd_halts never_returns_bnd acl_usageError_halts def_intros)

lemma parsed_perms:
  assumes "parseACL users groups s b = Inr es" "ace \<in> set es"
  shows "(perms ace \<noteq> None) = b"
proof -
  obtain t where "parseEntrySpec users groups t b = Inr ace"
    using parse_entries_sound [OF assms(1) [unfolded parseACL_def]] assms(2) by blast
  then show ?thesis
    by (auto simp: parseEntrySpec_def Let_def split: option.splits prod.splits if_splits sum.splits)
qed

lemma defined_acl_run [def_intros]:
  assumes "o_cnt os = 1 \<Longrightarrow> \<not> (o_modify os \<and> o_remove os)" "o_cnt os = 1"
  shows "defined (acl_run L users groups p os args)"
proof -
  have upd: "defined (update_file L (o_remove os) (o_recalc os) (o_default os) es f)"
    if "parseACL users groups (the (o_spec os)) (o_modify os) = Inr es" "o_modify os \<or> o_remove os" for es f
    using parsed_perms [OF that(1)] that(2) assms by (intro defined_update_file) blast
  let ?files = "\<lambda>aces. forM args (\<lambda>file.
          if o_remove_default os then delete_default L file
          else if o_modify os \<or> o_remove os
          then update_file L (o_remove os) (o_recalc os) (o_default os) aces file
          else fatal (lib_strerror L) ''Bad logic!'')"
  have files: "defined (bnd (?files aces) (\<lambda>_. exit3 EXIT_SUCCESS))"
    if "o_modify os \<or> o_remove os \<longrightarrow> parseACL users groups (the (o_spec os)) (o_modify os) = Inr aces" for aces
    using that upd unfolding delete_default_def
    by (intro defined_bnd defined_forM defined_if defined_basic defined_chk defined_exits) blast+
  show ?thesis
  proof (cases "o_check os")
    case True
    then show ?thesis unfolding acl_run_def by (auto split: sum.splits intro!: def_intros)
  next
    case False
    note run = acl_run_def [of L users groups p os args]
    show ?thesis
    proof (cases "o_modify os \<or> o_remove os")
      case True
      show ?thesis
      proof (cases "parseACL users groups (the (o_spec os)) (o_modify os)")
        case (Inl m)
        then show ?thesis using False True by (simp add: run defined_usage_bnd)
      next
        case (Inr es)
        then show ?thesis using False True files [of es] by (simp add: run)
      qed
    next
      case none: False
      then show ?thesis using False files [of "[]"] by (simp add: run)
    qed
  qed
qed

lemma acl_options_cnt:
  "acl_options opts os0 = Inr os \<Longrightarrow>
     (o_modify os0 \<and> o_remove os0 \<longrightarrow> 2 \<le> o_cnt os0) \<Longrightarrow> (o_modify os0 \<or> o_remove os0 \<longrightarrow> 1 \<le> o_cnt os0) \<Longrightarrow>
     o_modify os \<and> o_remove os \<longrightarrow> 2 \<le> o_cnt os"
proof (induction opts arbitrary: os0)
  case (Cons opt opts)
  then obtain os1 where os1: "acl_option opt os0 = Some os1" "acl_options opts os1 = Inr os"
    by (auto split: option.splits)
  have "(o_modify os1 \<and> o_remove os1 \<longrightarrow> 2 \<le> o_cnt os1) \<and> (o_modify os1 \<or> o_remove os1 \<longrightarrow> 1 \<le> o_cnt os1)"
    using os1(1) Cons.prems(2,3) unfolding acl_option_def
    by (cases opt) (auto split: if_splits)
  then show ?case using Cons.IH [OF os1(2)] by blast
qed simp

lemma acl_options_excl:
  assumes "acl_options opts acl_opts0 = Inr os" "o_cnt os = 1"
  shows "\<not> (o_modify os \<and> o_remove os)"
  using acl_options_cnt [OF assms(1)] assms(2) by (auto simp: acl_opts0_def)

section \<open>Properties\<close>

text \<open>C21. Print and parse: a list of one to 10000 well-formed entries, written out and joined with
  commas, is parsed back as the same list, in both syntaxes (with permissions, as for
  modifying, and without, as for removing).\<close>

theorem parseACL_roundtrip:
  assumes "es \<noteq> []" "length es \<le> MAX_ENTRIES" "\<forall>e \<in> set es. entry_ok e \<and> (perms e \<noteq> None) = b"
  shows "parseACL users groups (comma_join (map show_entry es)) b = Inr es"
  unfolding parseACL_def using parse_entries_show [of es 0] assms by simp

theorem parseACL_roundtrip_witness:
  "parseACL (\<lambda>_. None) (\<lambda>_. None) (comma_join (map show_entry
     [\<lparr>tag = ACL_USER, qual = 1000, perms = Some 6\<rparr>, \<lparr>tag = ACL_MASK, qual = 0, perms = Some 4\<rparr>])) True =
   Inr [\<lparr>tag = ACL_USER, qual = 1000, perms = Some 6\<rparr>, \<lparr>tag = ACL_MASK, qual = 0, perms = Some 4\<rparr>]"
  by (rule parseACL_roundtrip) (simp_all add: MAX_ENTRIES_def entry_ok_def has_qual_def ID_ERR_def to_u32_def)

text \<open>What the parser accepts: between one and 10000 entries, so that the array is never
  overrun; named users and groups with a valid ID, the other tags without; three permission
  bits; and permissions exactly when they are required.\<close>

theorem parseACL_sound:
  assumes "parseACL users groups s b = Inr es"
    "id_db_ok users" "id_db_ok groups"
  shows "1 \<le> length es \<and> length es \<le> MAX_ENTRIES \<and>
    (\<forall>e \<in> set es. entry_ok e \<and> (perms e \<noteq> None) = b)"
proof -
  have *: "es \<noteq> []" "length es \<le> MAX_ENTRIES" "\<forall>e \<in> set es. \<exists>t. parseEntrySpec users groups t b = Inr e"
    using parse_entries_sound [OF assms(1) [unfolded parseACL_def]] by simp_all
  have "entry_ok e \<and> (perms e \<noteq> None) = b" if e: "e \<in> set es" for e
  proof -
    obtain t where "parseEntrySpec users groups t b = Inr e" using *(3) e by blast
    then show ?thesis by (rule parseEntrySpec_ok [OF _ assms(2,3)])
  qed
  then show ?thesis using *(1,2) by (simp add: Suc_le_eq)
qed

theorem parseACL_sound_witness:
  "parseACL (\<lambda>_. None) (\<lambda>_. Some 7) ''g:staff:rx'' True = Inr [\<lparr>tag = ACL_GROUP, qual = 7, perms = Some 5\<rparr>] \<and>
   entry_ok \<lparr>tag = ACL_GROUP, qual = 7, perms = Some 5\<rparr>"
proof -
  have run: "parseACL (\<lambda>_. None) (\<lambda>_. Some 7) ''g:staff:rx'' True = Inr [\<lparr>tag = ACL_GROUP, qual = 7, perms = Some 5\<rparr>]"
    by code_simp
  from parseACL_sound [OF run] run show ?thesis by (simp add: id_db_ok_def ID_ERR_def to_u32_def)
qed

text \<open>The entries \<^verbatim>\<open>findEntry\<close> looks for.\<close>

definition entry_matches :: "('a, 'e, 'p, 'f) acl_lib \<Rightarrow> 'a \<Rightarrow> acl_tag \<Rightarrow> int \<Rightarrow> 'e \<Rightarrow> bool" where
  "entry_matches L acl t q e \<longleftrightarrow> lib_tag L e acl = Inr t \<and> (has_qual t \<longrightarrow> lib_qual L e acl = Inr q)"

lemma chk_Inr: "chk L m r s = (Inr x, s') \<longleftrightarrow> r = Inr x \<and> s' = s"
  by (auto simp: chk_def errExit_def terminate_proc_def exit3_def split: sum.splits if_splits option.splits)

lemma bnd_chk: "bnd (chk L m r) f s = (Inr y, s') \<longleftrightarrow> (\<exists>x. r = Inr x \<and> f x s = (Inr y, s'))"
proof
  assume run: "bnd (chk L m r) f s = (Inr y, s')"
  obtain q s1 where q: "chk L m r s = (q, s1)" by fastforce
  with run obtain x where "q = Inr x" by (cases q) (auto simp: bnd_apply)
  with q run show "\<exists>x. r = Inr x \<and> f x s = (Inr y, s')"
    using chk_Inr [of L m r s x s1] by (auto simp: bnd_apply)
qed (auto simp: chk_def)

lemma find_entry_find:
  "find_entry L acl t q err es s = (Inr r, s') \<Longrightarrow> s' = s \<and> r = find (entry_matches L acl t q) es"
proof (induction es)
  case Nil
  then show ?case by (auto simp: chk_opt_def bnd_chk)
next
  case (Cons e es)
  then show ?case
    by (cases "lib_tag L e acl")
      (auto simp: bnd_chk chk_opt_def entry_matches_def has_qual_def split: if_splits)
qed

text \<open>A library on lists of (tag, ID, permissions), for the concrete instance.\<close>

definition demo_lib :: "((acl_tag \<times> int \<times> int) list, nat, nat, unit) acl_lib" where
  "demo_lib = \<lparr>lib_strerror = (\<lambda>_. ''error''), lib_walk = (\<lambda>a. ([0..<length a], None)),
     lib_tag = (\<lambda>e a. Inr (fst (a ! e))), lib_qual = (\<lambda>e a. Inr (fst (snd (a ! e)))), lib_free = None,
     lib_permset = (\<lambda>e a. Inr e), lib_clear_perms = (\<lambda>p a. Inr a), lib_add_perm = (\<lambda>b p a. Inr a),
     lib_set_permset = (\<lambda>e p a. Inr a), lib_create = (\<lambda>a. Inr (length a, a @ [(ACL_OTHER, 0, 0)])),
     lib_set_tag = (\<lambda>e t a. Inr a), lib_set_qual = (\<lambda>e q a. Inr a), lib_delete = (\<lambda>e a. Inr a),
     lib_calc_mask = (\<lambda>a. Inr a), lib_valid = (\<lambda>a. None), lib_get_file = (\<lambda>f d u. Inr []),
     lib_set_file = (\<lambda>f d a u. Inr u), lib_delete_def = (\<lambda>f u. Inr u)\<rparr>"

text \<open>\<open>findEntry\<close>: when it returns, the result is the first entry of the ACL with the tag and,
  for named users and groups, the ID asked for, and nothing is returned only if no entry
  matches; the state is not changed.\<close>

theorem findEntry_first_match:
  assumes "findEntry L acl t q s = (Inr r, s')"
  shows "s' = s \<and> r = find (entry_matches L acl t q) (fst (lib_walk L acl))"
  using assms find_entry_find unfolding findEntry_def by (cases "lib_walk L acl") fastforce

theorem findEntry_first_match_witness:
  "find (entry_matches demo_lib [(ACL_USER, 5, 4), (ACL_USER, 7, 6)] ACL_USER 7) [0, 1] = Some 1"
proof -
  let ?s = "\<lparr>stdout_buf = [], stdout_out = [], stderr_out = [], errno = 0, ef_dumpcore = None,
     stdio_errno = None, files = ()\<rparr>"
  have "findEntry demo_lib [(ACL_USER, 5, 4), (ACL_USER, 7, 6)] ACL_USER 7 ?s = (Inr (Some 1), ?s)"
    by (simp add: findEntry_def demo_lib_def chk_def chk_opt_def)
  from findEntry_first_match [OF this] show ?thesis by (simp add: demo_lib_def)
qed

text \<open>The whole program, from its arguments on, never uses permissions that were not parsed,
  whatever the options, the specification and the library's answers.\<close>

theorem acl_main_defined: "fst (acl_main L users groups progName args s) \<noteq> Inl Undef"
proof (rule definedD)
  show "defined (acl_main L users groups progName args)"
    unfolding acl_main_def
    by (auto split: prod.splits sum.splits intro!: def_intros dest: acl_options_excl)
qed

end
