(* ===== verification/Sem_Ops.thy ===== *)
theory Sem_Ops
  imports Error_Functions Get_Num
begin

text \<open>
  System V semaphores: the binary semaphores of \<^verbatim>\<open>tlpi-book/svsem/binary_sems.c\<close>, the event flags of
  \<^verbatim>\<open>svsem/event_flags.c\<close>, the operation parser and the main program of \<^verbatim>\<open>svsem/svsem_op.c\<close>. The kernel
  calls \<^verbatim>\<open>semop\<close> and \<^verbatim>\<open>semctl\<close> are arguments, functions on the kernel state that answer an error
  number or success.
\<close>

section \<open>Operations\<close>

definition IPC_NOWAIT :: int where [const_defs]: "IPC_NOWAIT = 0x800"
definition SEM_UNDO :: int where [const_defs]: "SEM_UNDO = 0x1000"

text \<open>\<^verbatim>\<open>struct sembuf\<close>: an unsigned short number, short operation and flags.\<close>

record sembuf =
  sem_num :: int
  sem_op :: int
  sem_flg :: int

record 'k sem_kernel =
  k_semop :: "int \<Rightarrow> sembuf list \<Rightarrow> 'k \<Rightarrow> (int + unit) \<times> 'k"
  k_setval :: "int \<Rightarrow> int \<Rightarrow> int \<Rightarrow> 'k \<Rightarrow> (int + unit) \<times> 'k"
  k_getval :: "int \<Rightarrow> int \<Rightarrow> 'k \<Rightarrow> (int + int) \<times> 'k"

section \<open>Binary semaphores\<close>

definition initSemAvailable :: "'k sem_kernel \<Rightarrow> int \<Rightarrow> int \<Rightarrow> 'k \<Rightarrow> (int + unit) \<times> 'k" where
  "initSemAvailable K semId semNum k = k_setval K semId semNum 1 k"

definition initSemInUse :: "'k sem_kernel \<Rightarrow> int \<Rightarrow> int \<Rightarrow> 'k \<Rightarrow> (int + unit) \<times> 'k" where
  "initSemInUse K semId semNum k = k_setval K semId semNum 0 k"

text \<open>\<^verbatim>\<open>while (semop(...) == -1) if (errno != EINTR || !retry) return -1;\<close> The loop ends only when the
  kernel answers something else than an interruption.\<close>

partial_function (option) semop_retry ::
  "'k sem_kernel \<Rightarrow> bool \<Rightarrow> int \<Rightarrow> sembuf \<Rightarrow> 'k \<Rightarrow> ((int + unit) \<times> 'k) option" where
  "semop_retry K retry semId sop k = (case k_semop K semId [sop] k of
      (Inr u, k') \<Rightarrow> Some (Inr u, k')
    | (Inl e, k') \<Rightarrow> if e \<noteq> EINTR \<or> \<not> retry then Some (Inl e, k') else semop_retry K retry semId sop k')"

definition reserveSem :: "'k sem_kernel \<Rightarrow> bool \<Rightarrow> bool \<Rightarrow> int \<Rightarrow> int \<Rightarrow> 'k \<Rightarrow> ((int + unit) \<times> 'k) option" where
  "reserveSem K bsUseSemUndo bsRetryOnEintr semId semNum k =
     semop_retry K bsRetryOnEintr semId
       \<lparr>sem_num = to_u16 semNum, sem_op = - 1, sem_flg = (if bsUseSemUndo then SEM_UNDO else 0)\<rparr> k"

definition releaseSem :: "'k sem_kernel \<Rightarrow> bool \<Rightarrow> int \<Rightarrow> int \<Rightarrow> 'k \<Rightarrow> (int + unit) \<times> 'k" where
  "releaseSem K bsUseSemUndo semId semNum k =
     k_semop K semId
       [\<lparr>sem_num = to_u16 semNum, sem_op = 1, sem_flg = (if bsUseSemUndo then SEM_UNDO else 0)\<rparr>] k"

section \<open>Event flags\<close>

text \<open>An event flag is set when its semaphore is 0.\<close>

definition waitForEventFlag :: "'k sem_kernel \<Rightarrow> int \<Rightarrow> int \<Rightarrow> 'k \<Rightarrow> ((int + unit) \<times> 'k) option" where
  "waitForEventFlag K semId semNum k =
     semop_retry K True semId \<lparr>sem_num = to_u16 semNum, sem_op = 0, sem_flg = 0\<rparr> k"

definition clearEventFlag :: "'k sem_kernel \<Rightarrow> int \<Rightarrow> int \<Rightarrow> 'k \<Rightarrow> (int + unit) \<times> 'k" where
  "clearEventFlag K semId semNum k = k_setval K semId semNum 1 k"

definition setEventFlag :: "'k sem_kernel \<Rightarrow> int \<Rightarrow> int \<Rightarrow> 'k \<Rightarrow> (int + unit) \<times> 'k" where
  "setEventFlag K semId semNum k = k_setval K semId semNum 0 k"

definition getFlagState :: "'k sem_kernel \<Rightarrow> int \<Rightarrow> int \<Rightarrow> 'k \<Rightarrow> (int + bool) \<times> 'k" where
  "getFlagState K semId semNum k = (case k_getval K semId semNum k of
      (Inl e, k') \<Rightarrow> (Inl e, k')
    | (Inr v, k') \<Rightarrow> (Inr (v = 0), k'))"

section \<open>Parsing operations\<close>

definition MAX_SEMOPS :: nat where "MAX_SEMOPS = 1000"

text \<open>How a parse fails: through \<^verbatim>\<open>cmdLineErr\<close> or through \<^verbatim>\<open>fatal\<close>, with the message.\<close>

datatype parse_err = CmdLineErr string | FatalErr string

definition quoted :: "string \<Rightarrow> string" where
  "quoted arg = [CHR 34] @ arg @ [CHR 34]"

text \<open>The flag loop: the flags read and the rest of the text.\<close>

fun parse_flags :: "string \<Rightarrow> int \<Rightarrow> int \<times> string" where
  "parse_flags [] fl = (fl, [])"
| "parse_flags (c # cs) fl =
     (if c = CHR ''n'' then parse_flags cs (fl OR IPC_NOWAIT)
      else if c = CHR ''u'' then parse_flags cs (fl OR SEM_UNDO)
      else (fl, c # cs))"

text \<open>The sign and value of one operation, from the text after the semaphore number.\<close>

definition parse_value :: "string \<Rightarrow> string \<Rightarrow> parse_err + (int \<times> string)" where
  "parse_value arg signp =
     (if signp = [] \<or> hd signp \<notin> {CHR ''+'', CHR ''-'', CHR ''=''}
      then Inl (CmdLineErr (''Expected '' @ [CHR 39] @ ''+'' @ [CHR 39] @ '', '' @ [CHR 39] @ ''-'' @ [CHR 39] @
        '', or '' @ [CHR 39] @ ''='' @ [CHR 39] @ '' in '' @ quoted arg @ [NL]))
      else if tl signp = [] \<or> \<not> isdigit (hd (tl signp))
      then Inl (CmdLineErr (''Expected digit after '' @ [CHR 39, hd signp, CHR 39] @ '' in '' @ quoted arg @ [NL]))
      else case strtol (tl signp) 10 of (v, flags, _) \<Rightarrow>
        let sop = to_s16 v in
        if hd signp = CHR ''-'' then Inr (to_s16 (- sop), flags)
        else if hd signp = CHR ''='' \<and> sop \<noteq> 0
        then Inl (CmdLineErr (''Expected '' @ quoted ''=0'' @ '' in '' @ quoted arg @ [NL]))
        else Inr (sop, flags))"

text \<open>One iteration of the loop of \<^verbatim>\<open>parseOps\<close>, on the remaining text.\<close>

definition parse_op :: "string \<Rightarrow> string \<Rightarrow> parse_err + sembuf" where
  "parse_op arg remaining =
     (if remaining = [] then Inl (FatalErr (''Trailing comma or empty argument: '' @ quoted arg))
      else if \<not> isdigit (hd remaining)
      then Inl (CmdLineErr (''Expected initial digit: '' @ quoted arg @ [NL]))
      else case strtol remaining 10 of (num, signp, _) \<Rightarrow>
        (case parse_value arg signp of
           Inl e \<Rightarrow> Inl e
         | Inr (sop, flags) \<Rightarrow>
             (case parse_flags flags 0 of (fl, rest) \<Rightarrow>
                if rest \<noteq> [] \<and> hd rest \<noteq> CHR '',''
                then Inl (CmdLineErr (''Bad trailing character ('' @ [hd rest] @ '') in '' @ quoted arg @ [NL]))
                else Inr \<lparr>sem_num = to_u16 num, sem_op = sop, sem_flg = fl\<rparr>)))"

function parse_ops :: "string \<Rightarrow> nat \<Rightarrow> string \<Rightarrow> parse_err + sembuf list" where
  "parse_ops arg numOps remaining =
     (if numOps \<ge> MAX_SEMOPS
      then Inl (CmdLineErr (''Too many operations (maximum='' @ show_nat MAX_SEMOPS @ ''): '' @ quoted arg @ [NL]))
      else case parse_op arg remaining of
        Inl e \<Rightarrow> Inl e
      | Inr sop \<Rightarrow>
          (case strchr remaining (CHR '','') of
             None \<Rightarrow> Inr [sop]
           | Some (_, comma) \<Rightarrow>
               (case parse_ops arg (numOps + 1) (tl comma) of
                  Inl e \<Rightarrow> Inl e
                | Inr sops \<Rightarrow> Inr (sop # sops))))"
  by pat_completeness auto
termination
  by (relation "measure (\<lambda>(_, _, s). length s)") (auto dest: strchr_shrinks)

declare parse_ops.simps [simp del]

definition parseOps :: "string \<Rightarrow> parse_err + sembuf list" where
  "parseOps arg = parse_ops arg 0 arg"

section \<open>The program svsem_op\<close>

record 'k semop_st = proc_io +
  kstate :: 'k

definition semop_usage_lines :: "string \<Rightarrow> string list" where
  "semop_usage_lines progName =
    [''Usage: '' @ progName @ '' semid op[,op...] ...'' @ [NL, NL],
     [CHR 39] @ ''op'' @ [CHR 39] @ '' is either: <sem#>{+|-}<value>[n][u]'' @ [NL],
     ''            or: <sem#>=0[n]'' @ [NL],
     ''       '' @ quoted ''n'' @ '' means include IPC_NOWAIT in '' @ [CHR 39] @ ''op'' @ [CHR 39, NL],
     ''       '' @ quoted ''u'' @ '' means include SEM_UNDO in '' @ [CHR 39] @ ''op'' @ [CHR 39, NL, NL],
     ''The operations in each argument are performed in a single semop() call'' @ [NL, NL],
     ''e.g.: '' @ progName @ '' 12345 0+1,1-2un'' @ [NL],
     ''      '' @ progName @ '' 12345 0=0n 1+1,2-1u 1=0'' @ [NL]]"

definition semop_usageError :: "string \<Rightarrow> ('k semop_st, 'b) prog" where
  "semop_usageError progName =
     bnd (forM (semop_usage_lines progName) (\<lambda>t. modify (fputs_stderr t))) (\<lambda>_. exit3 EXIT_FAILURE)"

text \<open>The body of the argument loop. \<open>pid\<close> and \<open>now\<close> are what \<^verbatim>\<open>getpid\<close> and the (successive) calls of
  \<^verbatim>\<open>currTime\<close> give; a \<^verbatim>\<open>getInt\<close> failure prints its message and exits.\<close>

definition semop_arg ::
  "'k sem_kernel \<Rightarrow> (int \<Rightarrow> string) \<Rightarrow> int \<Rightarrow> ('k \<Rightarrow> string) \<Rightarrow> string \<Rightarrow> string \<Rightarrow> ('k semop_st, unit) prog" where
  "semop_arg K strerror pid now semid_arg arg =
     (case parseOps arg of
        Inl (CmdLineErr m) \<Rightarrow> cmdLineErr m
      | Inl (FatalErr m) \<Rightarrow> fatal strerror m
      | Inr sops \<Rightarrow>
          bnd (modify (\<lambda>s. printf_stdout (pad_left 5 (show_int pid) @ '', '' @ now (kstate s) @
            '': about to semop()  ['' @ arg @ '']'' @ [NL]) s)) (\<lambda>_.
          case getInt (Some semid_arg) 0 (Some ''semid'') of
            Inl m \<Rightarrow> bnd (modify (fputs_stderr m)) (\<lambda>_. exit3 EXIT_FAILURE)
          | Inr semid \<Rightarrow>
              bnd (\<lambda>s. case k_semop K semid sops (kstate s) of (r, k) \<Rightarrow>
                (Inr r, case r of Inl e \<Rightarrow> s\<lparr>kstate := k, errno := e\<rparr> | Inr _ \<Rightarrow> s\<lparr>kstate := k\<rparr>)) (\<lambda>r.
              case r of
                Inl _ \<Rightarrow> errExit strerror (''semop (PID='' @ show_int pid @ '')'')
              | Inr _ \<Rightarrow>
                  modify (\<lambda>s. printf_stdout (pad_left 5 (show_int pid) @ '', '' @ now (kstate s) @
                    '': semop() completed ['' @ arg @ '']'' @ [NL]) s))))"

definition semop_main ::
  "'k sem_kernel \<Rightarrow> (int \<Rightarrow> string) \<Rightarrow> int \<Rightarrow> ('k \<Rightarrow> string) \<Rightarrow> string \<Rightarrow> string list \<Rightarrow> ('k semop_st, unit) prog" where
  "semop_main K strerror pid now progName args =
     (if args = [] \<or> hd args = ''--help'' then semop_usageError progName
      else bnd (forM (tl args) (semop_arg K strerror pid now (hd args))) (\<lambda>_. exit3 EXIT_SUCCESS))"

section \<open>Retrying\<close>

text \<open>\<open>interrupted K semId sop n k k'\<close>: the next \<open>n\<close> calls are interrupted and take the kernel from \<open>k\<close> to \<open>k'\<close>.\<close>

inductive interrupted :: "'k sem_kernel \<Rightarrow> int \<Rightarrow> sembuf \<Rightarrow> nat \<Rightarrow> 'k \<Rightarrow> 'k \<Rightarrow> bool" for K semId sop where
  intr_none: "interrupted K semId sop 0 k k"
| intr_more: "k_semop K semId [sop] k = (Inl EINTR, k1) \<Longrightarrow> interrupted K semId sop n k1 k2 \<Longrightarrow>
    interrupted K semId sop (Suc n) k k2"

lemma semop_retry_interrupted:
  assumes "interrupted K semId sop n k k1" "k_semop K semId [sop] k1 = (r, k2)" "r \<noteq> Inl EINTR"
  shows "semop_retry K True semId sop k = Some (r, k2)"
  using assms
proof (induction rule: interrupted.induct)
  case (intr_none k)
  then show ?case by (subst semop_retry.simps) (cases r; auto)
next
  case (intr_more k k1 n k2)
  then show ?case by (subst semop_retry.simps) simp
qed

lemma semop_retry_result:
  assumes "semop_retry K retry semId sop k = Some (r, k2)"
  shows "\<exists>n k1. interrupted K semId sop n k k1 \<and> k_semop K semId [sop] k1 = (r, k2) \<and>
    (r = Inl EINTR \<longrightarrow> \<not> retry) \<and> (n > 0 \<longrightarrow> retry)"
proof -
  have "\<exists>n k1. interrupted K semId sop n k k1 \<and> k_semop K semId [sop] k1 = y \<and>
    (fst y = Inl EINTR \<longrightarrow> \<not> retry) \<and> (n > 0 \<longrightarrow> retry)" if "semop_retry K retry semId sop k = Some y" for y
  proof (rule semop_retry.raw_induct [where P = "\<lambda>K retry semId sop k y. \<exists>n k1. interrupted K semId sop n k k1 \<and>
      k_semop K semId [sop] k1 = y \<and> (fst y = Inl EINTR \<longrightarrow> \<not> retry) \<and> (n > 0 \<longrightarrow> retry)", OF _ that], goal_cases)
    case (1 loop K retry semId sop k y)
    obtain q k' where q: "k_semop K semId [sop] k = (q, k')" by fastforce
    consider u where "q = Inr u" | e where "q = Inl e" "e \<noteq> EINTR \<or> \<not> retry" | "q = Inl EINTR" retry
      by (cases q) auto
    then show ?case
    proof cases
      case 3
      with 1(2) q have "loop K retry semId sop k' = Some y" by simp
      from 1(1) [OF this] obtain n k1 where n: "interrupted K semId sop n k' k1" "k_semop K semId [sop] k1 = y"
        "fst y = Inl EINTR \<longrightarrow> \<not> retry" by blast
      from intr_more [OF q [unfolded 3(1)] n(1)] n 3 show ?thesis by blast
    qed (use 1(2) q intr_none [of K semId sop k] in \<open>fastforce\<close>)+
  qed
  from this [OF assms] show ?thesis by simp
qed

section \<open>Printing operations\<close>

definition show_sop :: "sembuf \<Rightarrow> string" where
  "show_sop s = show_int (sem_num s) @
     (if sem_op s > 0 then ''+'' @ show_int (sem_op s)
      else if sem_op s < 0 then ''-'' @ show_int (- sem_op s) else ''=0'') @
     (if sem_flg s AND IPC_NOWAIT \<noteq> 0 then ''n'' else []) @ (if sem_flg s AND SEM_UNDO \<noteq> 0 then ''u'' else [])"

definition sop_ok :: "sembuf \<Rightarrow> bool" where
  "sop_ok s \<longleftrightarrow> 0 \<le> sem_num s \<and> sem_num s < 65536 \<and> - 32768 < sem_op s \<and> sem_op s < 32768 \<and>
     sem_flg s \<in> {0, IPC_NOWAIT, SEM_UNDO, IPC_NOWAIT OR SEM_UNDO}"

definition ends_op :: "string \<Rightarrow> bool" where
  "ends_op t \<longleftrightarrow> t = [] \<or> hd t = CHR '',''"

lemma not_digit_chars: "\<not> is_digit 10 (CHR ''+'')" "\<not> is_digit 10 (CHR ''-'')" "\<not> is_digit 10 (CHR ''='')"
  "\<not> is_digit 10 (CHR ''n'')" "\<not> is_digit 10 (CHR ''u'')" "\<not> is_digit 10 (CHR '','')"
  by code_simp+

definition show_flags :: "int \<Rightarrow> string" where
  "show_flags f = (if f AND IPC_NOWAIT \<noteq> 0 then ''n'' else []) @ (if f AND SEM_UNDO \<noteq> 0 then ''u'' else [])"

lemma parse_flags_show:
  assumes "f \<in> {0, IPC_NOWAIT, SEM_UNDO, IPC_NOWAIT OR SEM_UNDO}" "ends_op t"
  shows "parse_flags (show_flags f @ t) 0 = (f, t)"
  using assms by (cases t) (auto simp: show_flags_def ends_op_def const_defs)

lemma show_flags_hd: "ends_op t \<Longrightarrow> show_flags f @ t = [] \<or> \<not> is_digit 10 (hd (show_flags f @ t))"
  by (auto simp: show_flags_def ends_op_def not_digit_chars)

lemma strtol_small:
  assumes "0 \<le> v" "v < 65536" "r = [] \<or> \<not> is_digit 10 (hd r)"
  shows "strtol (show_int v @ r) 10 = (v, r, False)"
  using strtol_show_int [OF assms(3), of v] assms(1,2) by (simp add: const_defs)

lemma parse_value_show:
  assumes "- 32768 < v" "v < 32768" "r = [] \<or> \<not> is_digit 10 (hd r)"
  shows "parse_value arg ((if v > 0 then ''+'' @ show_int v else if v < 0 then ''-'' @ show_int (- v) else ''=0'') @ r) =
    Inr (v, r)"
proof -
  have zero: "show_int 0 = ''0''" by code_simp
  consider "v > 0" | "v < 0" | "v = 0" by linarith
  then show ?thesis
  proof cases
    case 1
    then show ?thesis
      using strtol_small [of v r] assms isdigit_hd_show_int [of v r]
      by (simp add: parse_value_def to_s16_id)
  next
    case 2
    then show ?thesis
      using strtol_small [of "- v" r] assms isdigit_hd_show_int [of "- v" r]
      by (simp add: parse_value_def to_s16_id)
  next
    case 3
    then show ?thesis
      using strtol_small [of 0 r] assms isdigit_hd_show_int [of 0 r]
      by (simp add: parse_value_def to_s16_id zero)
  qed
qed

lemma parse_op_show:
  assumes "sop_ok s" "ends_op t"
  shows "parse_op arg (show_sop s @ t) = Inr s"
proof -
  let ?v = "if sem_op s > 0 then ''+'' @ show_int (sem_op s)
      else if sem_op s < 0 then ''-'' @ show_int (- sem_op s) else ''=0''"
  let ?r = "show_flags (sem_flg s) @ t"
  have eq: "show_sop s @ t = show_int (sem_num s) @ ?v @ ?r" by (simp add: show_sop_def show_flags_def)
  have v: "hd (?v @ ?r) \<in> {CHR ''+'', CHR ''-'', CHR ''=''}" "?v @ ?r \<noteq> []" by auto
  have num: "strtol (show_int (sem_num s) @ ?v @ ?r) 10 = (sem_num s, ?v @ ?r, False)"
    using assms(1) v not_digit_chars by (intro strtol_small) (auto simp: sop_ok_def)
  have val: "parse_value arg (?v @ ?r) = Inr (sem_op s, ?r)"
    using assms(1) show_flags_hd [OF assms(2)] by (intro parse_value_show) (auto simp: sop_ok_def)
  have "parse_flags ?r 0 = (sem_flg s, t)"
    using assms by (intro parse_flags_show) (auto simp: sop_ok_def)
  moreover have "isdigit (hd (show_int (sem_num s) @ ?v @ ?r))"
    using assms(1) by (intro isdigit_hd_show_int) (simp add: sop_ok_def)
  moreover have "to_u16 (sem_num s) = sem_num s" using assms(1) by (simp add: sop_ok_def to_u16_def)
  ultimately show ?thesis
    unfolding eq parse_op_def num prod.case val sum.case using assms(2) by (auto simp: ends_op_def)
qed

lemma show_sop_no_comma: "CHR '','' \<notin> set (show_sop s)"
  by (simp add: show_sop_def show_int_no_sep)

lemma parse_ops_show:
  assumes "ss \<noteq> []" "n + length ss \<le> MAX_SEMOPS" "\<forall>s \<in> set ss. sop_ok s"
  shows "parse_ops arg n (comma_join (map show_sop ss)) = Inr ss"
  using assms
proof (induction ss arbitrary: n)
  case (Cons s ss)
  have n: "\<not> n \<ge> MAX_SEMOPS" and ok: "sop_ok s" using Cons.prems by simp_all
  show ?case
  proof (cases ss)
    case Nil
    have "strchr (show_sop s) (CHR '','') = None" using show_sop_no_comma by simp
    moreover have "parse_op arg (show_sop s) = Inr s"
      using parse_op_show [OF ok, of "[]"] by (simp add: ends_op_def)
    ultimately show ?thesis
      using Nil n by (subst parse_ops.simps) (simp only: list.map comma_join.simps if_False option.case sum.case)
  next
    case (Cons s' ss')
    have eq: "comma_join (map show_sop (s # ss)) = show_sop s @ CHR '','' # comma_join (map show_sop ss)"
      using Cons by simp
    have "strchr (comma_join (map show_sop (s # ss))) (CHR '','') =
        Some (show_sop s, CHR '','' # comma_join (map show_sop ss))"
      unfolding eq by (rule strchr_app [OF show_sop_no_comma])
    moreover have "parse_op arg (comma_join (map show_sop (s # ss))) = Inr s"
      unfolding eq by (rule parse_op_show [OF ok]) (simp add: ends_op_def)
    moreover have "parse_ops arg (n + 1) (comma_join (map show_sop ss)) = Inr ss"
      using Cons.IH Cons.prems Cons by simp
    ultimately show ?thesis
      using n by (subst parse_ops.simps) (simp only: if_False option.case prod.case sum.case list.sel)
  qed
qed simp

lemma parse_ops_bound: "parse_ops arg n s = Inr ss \<Longrightarrow> ss \<noteq> [] \<and> n + length ss \<le> MAX_SEMOPS"
proof (induction arg n s arbitrary: ss rule: parse_ops.induct)
  case (1 arg n s)
  show ?case
  proof (cases "strchr s (CHR '','')")
    case None
    with 1(2) show ?thesis
      by (subst (asm) parse_ops.simps) (auto simp del: strchr_None split: if_splits sum.splits)
  next
    case (Some r)
    obtain pre comma where r: "r = (pre, comma)" by fastforce
    with 1(2) Some obtain sop ss' where e: "\<not> n \<ge> MAX_SEMOPS" "parse_op arg s = Inr sop"
      "parse_ops arg (n + 1) (tl comma) = Inr ss'" "ss = sop # ss'"
      by (subst (asm) parse_ops.simps) (auto split: if_splits sum.splits)
    from 1(1) [OF e(1) e(2) Some [unfolded r] refl e(3)] e show ?thesis by auto
  qed
qed

section \<open>Properties\<close>

text \<open>Operation lists: up to 1000 operations, printed in the program's syntax and joined with
  commas, are parsed back unchanged; and whatever is accepted has at most 1000 operations, so
  that the array \<^verbatim>\<open>sops\<close> is never overrun.\<close>

theorem parseOps_roundtrip:
  assumes "ss \<noteq> []" "length ss \<le> MAX_SEMOPS" "\<forall>s \<in> set ss. sop_ok s"
  shows "parseOps (comma_join (map show_sop ss)) = Inr ss \<and>
    (\<forall>arg ss'. parseOps arg = Inr ss' \<longrightarrow> 1 \<le> length ss' \<and> length ss' \<le> MAX_SEMOPS)"
  unfolding parseOps_def using parse_ops_show [of ss 0] parse_ops_bound [of _ 0] assms
  by (simp add: Suc_le_eq)

theorem parseOps_roundtrip_witness:
  "parseOps (comma_join (map show_sop [\<lparr>sem_num = 0, sem_op = 1, sem_flg = 0\<rparr>,
      \<lparr>sem_num = 1, sem_op = - 2, sem_flg = IPC_NOWAIT OR SEM_UNDO\<rparr>])) =
    Inr [\<lparr>sem_num = 0, sem_op = 1, sem_flg = 0\<rparr>, \<lparr>sem_num = 1, sem_op = - 2, sem_flg = IPC_NOWAIT OR SEM_UNDO\<rparr>]"
  using parseOps_roundtrip [of "[\<lparr>sem_num = 0, sem_op = 1, sem_flg = 0\<rparr>,
      \<lparr>sem_num = 1, sem_op = - 2, sem_flg = IPC_NOWAIT OR SEM_UNDO\<rparr>]"]
  by (simp add: sop_ok_def MAX_SEMOPS_def)

text \<open>Reserving a semaphore: with retrying on, however often the call is interrupted first,
  \<open>reserveSem\<close> returns with the first answer of the kernel that is not an interruption, and it
  reports success only if the kernel performed the decrement.\<close>

theorem reserveSem_retries:
  fixes K :: "'k sem_kernel"
  defines "op u n \<equiv> \<lparr>sem_num = to_u16 n, sem_op = - 1, sem_flg = (if u then SEM_UNDO else 0)\<rparr>"
  shows "(interrupted K semId (op u n) m k k1 \<and> k_semop K semId [op u n] k1 = (r, k2) \<and> r \<noteq> Inl EINTR \<longrightarrow>
      reserveSem K u True semId n k = Some (r, k2)) \<and>
    (reserveSem K u retry semId n k = Some (Inr (), k2) \<longrightarrow>
      (\<exists>i k'. interrupted K semId (op u n) i k k' \<and> k_semop K semId [op u n] k' = (Inr (), k2)))"
proof (intro conjI impI)
  assume "interrupted K semId (op u n) m k k1 \<and> k_semop K semId [op u n] k1 = (r, k2) \<and> r \<noteq> Inl EINTR"
  then show "reserveSem K u True semId n k = Some (r, k2)"
    unfolding reserveSem_def op_def by (blast intro: semop_retry_interrupted)
next
  assume "reserveSem K u retry semId n k = Some (Inr (), k2)"
  from semop_retry_result [OF this [unfolded reserveSem_def]]
  show "\<exists>i k'. interrupted K semId (op u n) i k k' \<and> k_semop K semId [op u n] k' = (Inr (), k2)"
    unfolding op_def by blast
qed

text \<open>The short fields wrap: a value that is a multiple of 65536 passes the test for \<^verbatim>\<open>=0\<close>, and a
  semaphore number is taken modulo 65536.\<close>

theorem parseOps_wraps:
  assumes "0 \<le> a" "a < 65536" "0 \<le> i" "i < 65536" "0 \<le> j" "j < 65536"
  shows "parseOps (show_int (a + 65536 * i) @ ''='' @ show_int (65536 * j)) =
    Inr [\<lparr>sem_num = a, sem_op = 0, sem_flg = 0\<rparr>]"
proof -
  let ?t = "''='' @ show_int (65536 * j)" and ?s = "show_int (a + 65536 * i) @ ''='' @ show_int (65536 * j)"
  have num: "strtol ?s 10 = (a + 65536 * i, ?t, False)"
    using strtol_show_int [of ?t "a + 65536 * i"] assms by (simp add: const_defs not_digit_chars)
  have "strtol (show_int (65536 * j)) 10 = (65536 * j, [], False)"
    using strtol_show_int [of "[]" "65536 * j"] assms by (simp add: const_defs)
  moreover have "isdigit (hd (show_int (65536 * j)))"
    using isdigit_hd_show_int [of "65536 * j" "[]"] assms by simp
  moreover have "to_s16 (65536 * j) = 0" by (simp add: to_s16_def)
  ultimately have val: "parse_value ?s ?t = Inr (0, [])" by (simp add: parse_value_def)
  have "to_u16 (a + 65536 * i) = a" using assms by (simp add: to_u16_def)
  moreover have "isdigit (hd ?s)" by (rule isdigit_hd_show_int) (use assms in simp)
  ultimately have "parse_op ?s ?s = Inr \<lparr>sem_num = a, sem_op = 0, sem_flg = 0\<rparr>"
    unfolding parse_op_def num prod.case val sum.case by simp
  moreover have "strchr ?s (CHR '','') = None" by (simp add: show_int_no_sep)
  ultimately show ?thesis
    unfolding parseOps_def by (subst parse_ops.simps) (simp only: sum.case option.case MAX_SEMOPS_def, simp)
qed

theorem parseOps_wraps_witness:
  "parseOps (show_int 65536 @ ''='' @ show_int 65536) = Inr [\<lparr>sem_num = 0, sem_op = 0, sem_flg = 0\<rparr>]"
  using parseOps_wraps [of 0 1 1] by simp

theorem reserveSem_retries_witness:
  "reserveSem \<lparr>k_semop = (\<lambda>i ops k. if k < 3 then (Inl EINTR, k + 1) else (Inr (), k)),
     k_setval = (\<lambda>i n v k. (Inr (), k)), k_getval = (\<lambda>i n k. (Inr 0, k))\<rparr> False True 7 0 (2 :: nat) = Some (Inr (), 3)"
proof -
  let ?K = "\<lparr>k_semop = (\<lambda>i ops k. if k < 3 then (Inl EINTR, k + 1) else (Inr (), k)),
     k_setval = (\<lambda>i n v k. (Inr (), k)), k_getval = (\<lambda>i n k. (Inr 0, k))\<rparr> :: nat sem_kernel"
  let ?op = "\<lparr>sem_num = to_u16 0, sem_op = - 1, sem_flg = (if False then SEM_UNDO else 0)\<rparr>"
  have "interrupted ?K 7 ?op 1 2 3"
    using intr_more [of ?K 7 ?op 2 3 0 3] intr_none [of ?K 7 ?op 3] by simp
  then show ?thesis
    using reserveSem_retries [where K = ?K and semId = 7 and u = False and n = 0 and m = 1 and k = 2 and ?k1.0 = 3
        and r = "Inr ()" and ?k2.0 = 3] by simp
qed

end
