(* ===== verification/Shm_Xfr.thy ===== *)
theory Shm_Xfr
  imports CLib "HOL-Library.Sublist"
begin

text \<open>
  \<^verbatim>\<open>tlpi-book/svshm/svshm_xfr_writer.c\<close> and \<^verbatim>\<open>svshm_xfr_reader.c\<close>: two processes that pass the data of
  stdin to stdout through a shared memory segment, taking turns with two binary semaphores
  (\<^verbatim>\<open>binary_sems.c\<close>). Each process is a program counter over its blocking or shared-memory actions;
  a step of the system is a step of one of them. \<open>w_step\<close> and \<open>r_step\<close> are the code of the two main
  loops; a step that is not enabled (a semaphore at 0) is \<open>None\<close>. Any system call may fail instead,
  which ends its process (\<open>WDead\<close>, \<open>RDead\<close>) as \<^verbatim>\<open>errExit\<close> or \<^verbatim>\<open>fatal\<close> do.
\<close>

section \<open>State\<close>

definition BUF_SIZE :: nat where "BUF_SIZE = 1024"

datatype wpc = WReserve | WRead | WRelease | WTest | WFinal | WCleanup | WDone | WDead
datatype rpc = RReserve | RTest | RWrite | RRelease | RDetach | RFinal | RDone | RDead

record xfr =
  w_pc :: wpc
  r_pc :: rpc
  write_sem :: nat
  read_sem :: nat
  shm_cnt :: nat
  shm_buf :: string
  inp :: string      \<comment> \<open>not yet read from stdin\<close>
  outp :: string     \<comment> \<open>written to stdout\<close>
  w_bytes :: int
  w_xfrs :: nat
  r_bytes :: int
  r_xfrs :: nat

text \<open>After \<^verbatim>\<open>initSemAvailable(WRITE_SEM)\<close>, \<^verbatim>\<open>initSemInUse(READ_SEM)\<close> and attaching the segment, whose
  contents \<open>c\<close>, \<open>b\<close> are whatever was there.\<close>

definition xfr_init :: "nat \<Rightarrow> string \<Rightarrow> string \<Rightarrow> xfr" where
  "xfr_init c b data = \<lparr>w_pc = WReserve, r_pc = RReserve, write_sem = 1, read_sem = 0, shm_cnt = c,
     shm_buf = b, inp = data, outp = [], w_bytes = 0, w_xfrs = 0, r_bytes = 0, r_xfrs = 0\<rparr>"

section \<open>The two programs\<close>

text \<open>The writer. \<open>n\<close> is the number of bytes \<^verbatim>\<open>read\<close> returns: between 1 and the buffer size, 0 only at
  the end of the input.\<close>

definition read_returns :: "nat \<Rightarrow> string \<Rightarrow> bool" where
  "read_returns n inps \<longleftrightarrow> n \<le> BUF_SIZE \<and> n \<le> length inps \<and> (n = 0 \<longleftrightarrow> inps = [])"

definition w_step :: "nat \<Rightarrow> xfr \<Rightarrow> xfr option" where
  "w_step n s = (case w_pc s of
      WReserve \<Rightarrow> if write_sem s > 0 then Some (s\<lparr>write_sem := write_sem s - 1, w_pc := WRead\<rparr>) else None
    | WRead \<Rightarrow> if read_returns n (inp s)
        then Some (s\<lparr>shm_cnt := n, shm_buf := take n (inp s), inp := drop n (inp s), w_pc := WRelease\<rparr>)
        else None
    | WRelease \<Rightarrow> Some (s\<lparr>read_sem := read_sem s + 1, w_pc := WTest\<rparr>)
    | WTest \<Rightarrow> if shm_cnt s = 0 then Some (s\<lparr>w_pc := WFinal\<rparr>)
        else Some (s\<lparr>w_xfrs := w_xfrs s + 1, w_bytes := to_s32 (w_bytes s + int (shm_cnt s)), w_pc := WReserve\<rparr>)
    | WFinal \<Rightarrow> if write_sem s > 0 then Some (s\<lparr>write_sem := write_sem s - 1, w_pc := WCleanup\<rparr>) else None
    | WCleanup \<Rightarrow> Some (s\<lparr>w_pc := WDone\<rparr>)
    | WDone \<Rightarrow> None
    | WDead \<Rightarrow> None)"

text \<open>The reader; a short \<^verbatim>\<open>write\<close> is a failure (\<open>short_write\<close> below), after which part of the block is on stdout.\<close>

definition r_step :: "xfr \<Rightarrow> xfr option" where
  "r_step s = (case r_pc s of
      RReserve \<Rightarrow> if read_sem s > 0 then Some (s\<lparr>read_sem := read_sem s - 1, r_pc := RTest\<rparr>) else None
    | RTest \<Rightarrow> if shm_cnt s = 0 then Some (s\<lparr>r_pc := RDetach\<rparr>)
        else Some (s\<lparr>r_bytes := to_s32 (r_bytes s + int (shm_cnt s)), r_pc := RWrite\<rparr>)
    | RWrite \<Rightarrow> Some (s\<lparr>outp := outp s @ take (shm_cnt s) (shm_buf s), r_pc := RRelease\<rparr>)
    | RRelease \<Rightarrow> Some (s\<lparr>write_sem := write_sem s + 1, r_xfrs := r_xfrs s + 1, r_pc := RReserve\<rparr>)
    | RDetach \<Rightarrow> Some (s\<lparr>r_pc := RFinal\<rparr>)
    | RFinal \<Rightarrow> Some (s\<lparr>write_sem := write_sem s + 1, r_pc := RDone\<rparr>)
    | RDone \<Rightarrow> None
    | RDead \<Rightarrow> None)"

inductive xfr_step :: "xfr \<Rightarrow> xfr \<Rightarrow> bool" where
  step_writer: "w_step n s = Some s' \<Longrightarrow> xfr_step s s'"
| step_reader: "r_step s = Some s' \<Longrightarrow> xfr_step s s'"
| fail_writer: "w_pc s \<notin> {WDone, WDead} \<Longrightarrow> xfr_step s (s\<lparr>w_pc := WDead\<rparr>)"
| fail_reader: "r_pc s \<notin> {RDone, RDead} \<Longrightarrow> xfr_step s (s\<lparr>r_pc := RDead\<rparr>)"
| short_write: "r_pc s = RWrite \<Longrightarrow> n < shm_cnt s \<Longrightarrow> xfr_step s (s\<lparr>outp := outp s @ take n (take (shm_cnt s) (shm_buf s)), r_pc := RDead\<rparr>)"

inductive_cases xfr_stepE: "xfr_step s s'"

inductive xfr_reaches :: "xfr \<Rightarrow> xfr \<Rightarrow> bool" where
  reach_refl: "xfr_reaches s s"
| reach_step: "xfr_reaches s s1 \<Longrightarrow> xfr_step s1 s2 \<Longrightarrow> xfr_reaches s s2"

section \<open>The invariant\<close>

text \<open>Who has the turn: exactly one of the two semaphores or the two critical sections.\<close>

definition w_turn :: "xfr \<Rightarrow> nat" where
  "w_turn s = of_bool (w_pc s \<in> {WRead, WRelease, WCleanup, WDone})"

definition r_turn :: "xfr \<Rightarrow> nat" where
  "r_turn s = of_bool (r_pc s \<in> {RTest, RWrite, RRelease, RDetach, RFinal})"

definition turns :: "xfr \<Rightarrow> nat" where
  "turns s = write_sem s + read_sem s + w_turn s + r_turn s"

text \<open>The reader has a block in front of it that it has not written yet.\<close>

definition offered :: "xfr \<Rightarrow> bool" where
  "offered s \<longleftrightarrow> read_sem s > 0 \<or> r_pc s \<in> {RTest, RWrite}"

definition block :: "xfr \<Rightarrow> string" where
  "block s = take (shm_cnt s) (shm_buf s)"

definition only_if :: "bool \<Rightarrow> string \<Rightarrow> string" where
  "only_if b t = (if b then t else [])"

lemma only_if_simps [simp]: "only_if True t = t" "only_if False t = []" "only_if b [] = []"
  by (simp_all add: only_if_def)

definition r_finished :: "xfr \<Rightarrow> bool" where
  "r_finished s \<longleftrightarrow> r_pc s \<in> {RDetach, RFinal, RDone}"

text \<open>At most one turn is given out, exactly one while both processes live.\<close>

definition turn_inv :: "xfr \<Rightarrow> bool" where
  "turn_inv s \<longleftrightarrow> turns s \<le> 1 \<and> (w_pc s \<noteq> WDead \<and> r_pc s \<noteq> RDead \<longrightarrow> turns s = 1)"

text \<open>Where the data is: on stdout, in the segment, or not yet read.\<close>

definition data_inv :: "string \<Rightarrow> xfr \<Rightarrow> bool" where
  "data_inv d s \<longleftrightarrow>
     (turns s = 1 \<and> w_pc s \<noteq> WDead \<longrightarrow>
        outp s @ only_if (w_pc s = WRelease \<or> offered s) (block s) @ inp s = d) \<and>
     prefix (outp s @ only_if (offered s) (block s)) d"

text \<open>How the end of the input travels: the writer reads it, offers an empty block, the reader
  finds it and gives the turn back for good.\<close>

definition eof_inv :: "string \<Rightarrow> xfr \<Rightarrow> bool" where
  "eof_inv d s \<longleftrightarrow>
     (w_pc s \<in> {WRelease, WTest} \<and> shm_cnt s = 0 \<longrightarrow> inp s = []) \<and>
     (w_pc s \<in> {WFinal, WCleanup, WDone} \<longrightarrow> shm_cnt s = 0 \<and> inp s = []) \<and>
     (w_pc s = WReserve \<and> (read_sem s > 0 \<or> r_pc s \<in> {RTest, RWrite, RRelease}) \<longrightarrow> shm_cnt s \<noteq> 0) \<and>
     (r_finished s \<longrightarrow> shm_cnt s = 0 \<and> outp s = d \<and> read_sem s = 0 \<and>
        w_pc s \<in> {WTest, WFinal, WCleanup, WDone, WDead}) \<and>
     ((read_sem s > 0 \<or> r_pc s = RTest) \<and> shm_cnt s = 0 \<longrightarrow> outp s = d) \<and>
     (w_pc s = WFinal \<or> w_pc s = WTest \<and> shm_cnt s = 0 \<longrightarrow>
        read_sem s > 0 \<or> r_pc s = RTest \<or> r_finished s \<or> r_pc s = RDead) \<and>
     (w_pc s \<in> {WCleanup, WDone} \<longrightarrow> r_pc s \<in> {RDone, RDead}) \<and>
     (r_pc s = RWrite \<longrightarrow> shm_cnt s \<noteq> 0)"

lemmas xfr_defs = turns_def w_turn_def r_turn_def offered_def block_def r_finished_def

definition xfr_inv :: "string \<Rightarrow> xfr \<Rightarrow> bool" where
  "xfr_inv d s \<longleftrightarrow> turn_inv s \<and> data_inv d s \<and> eof_inv d s"

lemma xfr_inv_init: "xfr_inv d (xfr_init c b d)"
  by (simp add: xfr_inv_def turn_inv_def data_inv_def eof_inv_def xfr_defs xfr_init_def)

lemma w_step_cases [consumes 1, case_names reserve read release more eof final cleanup]:
  assumes "w_step n s = Some s'"
  obtains "w_pc s = WReserve" "write_sem s > 0" "s' = s\<lparr>write_sem := write_sem s - 1, w_pc := WRead\<rparr>"
  | "w_pc s = WRead" "read_returns n (inp s)"
    "s' = s\<lparr>shm_cnt := n, shm_buf := take n (inp s), inp := drop n (inp s), w_pc := WRelease\<rparr>"
  | "w_pc s = WRelease" "s' = s\<lparr>read_sem := read_sem s + 1, w_pc := WTest\<rparr>"
  | "w_pc s = WTest" "shm_cnt s \<noteq> 0" "s' = s\<lparr>w_xfrs := w_xfrs s + 1,
      w_bytes := to_s32 (w_bytes s + int (shm_cnt s)), w_pc := WReserve\<rparr>"
  | "w_pc s = WTest" "shm_cnt s = 0" "s' = s\<lparr>w_pc := WFinal\<rparr>"
  | "w_pc s = WFinal" "write_sem s > 0" "s' = s\<lparr>write_sem := write_sem s - 1, w_pc := WCleanup\<rparr>"
  | "w_pc s = WCleanup" "s' = s\<lparr>w_pc := WDone\<rparr>"
proof (cases "w_pc s")
  case WReserve
  with assms(1) that(1) show ?thesis by (auto simp: w_step_def split: if_splits)
next
  case WRead
  with assms(1) that(2) show ?thesis by (auto simp: w_step_def split: if_splits)
next
  case WRelease
  with assms(1) that(3) show ?thesis by (auto simp: w_step_def)
next
  case WTest
  with assms(1) that(4,5) show ?thesis by (cases "shm_cnt s = 0") (auto simp: w_step_def)
next
  case WFinal
  with assms(1) that(6) show ?thesis by (auto simp: w_step_def split: if_splits)
next
  case WCleanup
  with assms(1) that(7) show ?thesis by (auto simp: w_step_def)
next
  case WDone
  with assms(1) show ?thesis by (simp add: w_step_def)
next
  case WDead
  with assms(1) show ?thesis by (simp add: w_step_def)
qed

lemma r_step_cases [consumes 1, case_names reserve eof more put release detach final]:
  assumes "r_step s = Some s'"
  obtains "r_pc s = RReserve" "read_sem s > 0" "s' = s\<lparr>read_sem := read_sem s - 1, r_pc := RTest\<rparr>"
  | "r_pc s = RTest" "shm_cnt s = 0" "s' = s\<lparr>r_pc := RDetach\<rparr>"
  | "r_pc s = RTest" "shm_cnt s \<noteq> 0" "s' = s\<lparr>r_bytes := to_s32 (r_bytes s + int (shm_cnt s)), r_pc := RWrite\<rparr>"
  | "r_pc s = RWrite" "s' = s\<lparr>outp := outp s @ take (shm_cnt s) (shm_buf s), r_pc := RRelease\<rparr>"
  | "r_pc s = RRelease" "s' = s\<lparr>write_sem := write_sem s + 1, r_xfrs := r_xfrs s + 1, r_pc := RReserve\<rparr>"
  | "r_pc s = RDetach" "s' = s\<lparr>r_pc := RFinal\<rparr>"
  | "r_pc s = RFinal" "s' = s\<lparr>write_sem := write_sem s + 1, r_pc := RDone\<rparr>"
proof (cases "r_pc s")
  case RReserve
  with assms(1) that(1) show ?thesis by (auto simp: r_step_def split: if_splits)
next
  case RTest
  with assms(1) that(2,3) show ?thesis by (cases "shm_cnt s = 0") (auto simp: r_step_def)
next
  case RWrite
  with assms(1) that(4) show ?thesis by (auto simp: r_step_def)
next
  case RRelease
  with assms(1) that(5) show ?thesis by (auto simp: r_step_def)
next
  case RDetach
  with assms(1) that(6) show ?thesis by (auto simp: r_step_def)
next
  case RFinal
  with assms(1) that(7) show ?thesis by (auto simp: r_step_def)
next
  case RDone
  with assms(1) show ?thesis by (simp add: r_step_def)
next
  case RDead
  with assms(1) show ?thesis by (simp add: r_step_def)
qed

lemma turn_upd [simp]:
  "r_turn (s\<lparr>w_pc := p\<rparr>) = r_turn s" "r_turn (s\<lparr>write_sem := x\<rparr>) = r_turn s" "r_turn (s\<lparr>read_sem := x\<rparr>) = r_turn s"
  "r_turn (s\<lparr>shm_cnt := x\<rparr>) = r_turn s" "r_turn (s\<lparr>shm_buf := b\<rparr>) = r_turn s" "r_turn (s\<lparr>inp := b\<rparr>) = r_turn s"
  "r_turn (s\<lparr>w_xfrs := x\<rparr>) = r_turn s" "r_turn (s\<lparr>w_bytes := i\<rparr>) = r_turn s"
  "w_turn (s\<lparr>r_pc := q\<rparr>) = w_turn s" "w_turn (s\<lparr>write_sem := x\<rparr>) = w_turn s" "w_turn (s\<lparr>read_sem := x\<rparr>) = w_turn s"
  "w_turn (s\<lparr>outp := b\<rparr>) = w_turn s" "w_turn (s\<lparr>r_xfrs := x\<rparr>) = w_turn s" "w_turn (s\<lparr>r_bytes := i\<rparr>) = w_turn s"
  "w_turn (s\<lparr>w_pc := p\<rparr>) = of_bool (p \<in> {WRead, WRelease, WCleanup, WDone})"
  "r_turn (s\<lparr>r_pc := q\<rparr>) = of_bool (q \<in> {RTest, RWrite, RRelease, RDetach, RFinal})"
  by (simp_all add: w_turn_def r_turn_def)

lemma block_upd [simp]:
  "block (s\<lparr>w_pc := p\<rparr>) = block s" "block (s\<lparr>r_pc := q\<rparr>) = block s" "block (s\<lparr>write_sem := x\<rparr>) = block s"
  "block (s\<lparr>read_sem := x\<rparr>) = block s" "block (s\<lparr>inp := b\<rparr>) = block s" "block (s\<lparr>outp := b\<rparr>) = block s"
  "block (s\<lparr>w_xfrs := x\<rparr>) = block s" "block (s\<lparr>w_bytes := i\<rparr>) = block s"
  "block (s\<lparr>r_xfrs := x\<rparr>) = block s" "block (s\<lparr>r_bytes := i\<rparr>) = block s"
  "block (s\<lparr>shm_cnt := n, shm_buf := b\<rparr>) = take n b"
  by (simp_all add: block_def)

lemma offered_upd [simp]:
  "offered (s\<lparr>w_pc := p\<rparr>) = offered s" "offered (s\<lparr>write_sem := x\<rparr>) = offered s"
  "offered (s\<lparr>w_xfrs := x\<rparr>) = offered s" "offered (s\<lparr>w_bytes := i\<rparr>) = offered s"
  "offered (s\<lparr>r_xfrs := x\<rparr>) = offered s" "offered (s\<lparr>r_bytes := i\<rparr>) = offered s"
  "offered (s\<lparr>r_pc := q\<rparr>) = (read_sem s > 0 \<or> q \<in> {RTest, RWrite})"
  by (simp_all add: offered_def)

lemma offered_pc: "r_pc s \<notin> {RTest, RWrite} \<Longrightarrow> offered s = (read_sem s > 0)" "r_pc s \<in> {RTest, RWrite} \<Longrightarrow> offered s"
  by (simp_all add: offered_def)

lemma turn_pc:
  "w_pc s \<in> {WRead, WRelease, WCleanup, WDone} \<Longrightarrow> w_turn s = 1"
  "w_pc s \<notin> {WRead, WRelease, WCleanup, WDone} \<Longrightarrow> w_turn s = 0"
  "r_pc s \<in> {RTest, RWrite, RRelease, RDetach, RFinal} \<Longrightarrow> r_turn s = 1"
  "r_pc s \<notin> {RTest, RWrite, RRelease, RDetach, RFinal} \<Longrightarrow> r_turn s = 0"
  by (simp_all add: w_turn_def r_turn_def)

text \<open>Steps pass the turn on; they neither create nor lose one.\<close>

lemma turns_writer: "w_step n s = Some s' \<Longrightarrow> turns s' = turns s"
  by (cases rule: w_step_cases, assumption) (simp_all add: turns_def turn_pc(1,2))

lemma turns_reader: "r_step s = Some s' \<Longrightarrow> turns s' = turns s"
  by (cases rule: r_step_cases, assumption) (simp_all add: turns_def turn_pc(3,4))

lemma turns_dead: "turns (s\<lparr>w_pc := WDead\<rparr>) \<le> turns s" "turns (s\<lparr>r_pc := RDead\<rparr>) \<le> turns s"
  by (simp_all add: turns_def)

lemma alive_writer: "w_step n s = Some s' \<Longrightarrow> w_pc s \<noteq> WDead \<and> w_pc s' \<noteq> WDead \<and> r_pc s' = r_pc s"
  by (cases rule: w_step_cases, assumption) simp_all

lemma alive_reader: "r_step s = Some s' \<Longrightarrow> r_pc s \<noteq> RDead \<and> r_pc s' \<noteq> RDead \<and> w_pc s' = w_pc s"
  by (cases rule: r_step_cases, assumption) simp_all

lemma turn_inv_step: "xfr_step s s' \<Longrightarrow> turn_inv s \<Longrightarrow> turn_inv s'"
proof (induction rule: xfr_step.induct)
  case (step_writer n s s')
  then show ?case using turns_writer alive_writer by (simp add: turn_inv_def)
next
  case (step_reader s s')
  then show ?case using turns_reader alive_reader by (simp add: turn_inv_def)
next
  case (fail_writer s)
  then show ?case using turns_dead(1) [of s] by (simp add: turn_inv_def)
next
  case (fail_reader s)
  then show ?case using turns_dead(2) [of s] by (simp add: turn_inv_def)
next
  case (short_write s n)
  then show ?case by (simp add: turn_inv_def turns_def w_turn_def r_turn_def)
qed

lemma writer_excludes:
  assumes "turn_inv s" "w_pc s \<in> {WRead, WRelease, WCleanup, WDone} \<or> write_sem s > 0"
  shows "read_sem s = 0" "r_pc s \<notin> {RTest, RWrite, RRelease, RDetach, RFinal}"
proof -
  have "w_turn s + write_sem s \<ge> 1" using assms(2) turn_pc(1) [of s] by (cases "write_sem s > 0") auto
  then have "read_sem s = 0 \<and> r_turn s = 0" using assms(1) by (simp add: turn_inv_def turns_def)
  then show "read_sem s = 0" "r_pc s \<notin> {RTest, RWrite, RRelease, RDetach, RFinal}"
    using turn_pc(3) [of s] by auto
qed

lemma reader_excludes:
  assumes "turn_inv s" "read_sem s > 0 \<or> r_pc s \<in> {RTest, RWrite, RRelease, RDetach, RFinal}"
  shows "write_sem s = 0" "w_pc s \<notin> {WRead, WRelease, WCleanup, WDone}" "w_turn s = 0"
proof -
  have "r_turn s + read_sem s \<ge> 1" using assms(2) turn_pc(3) [of s] by (cases "read_sem s > 0") auto
  then have "write_sem s = 0 \<and> w_turn s = 0" using assms(1) by (simp add: turn_inv_def turns_def)
  then show "write_sem s = 0" "w_pc s \<notin> {WRead, WRelease, WCleanup, WDone}" "w_turn s = 0"
    using turn_pc(1) [of s] by auto
qed

lemma in_turn_no_offer:
  assumes "turn_inv s" "r_pc s \<in> {RTest, RWrite, RRelease, RDetach, RFinal}"
  shows "read_sem s = 0" "turns (s\<lparr>r_pc := RDead\<rparr>) = 0"
  using assms(1) turn_pc(3) [OF assms(2)] by (simp_all add: turn_inv_def turns_def)

text \<open>What the invariant says when the writer is about to offer a block.\<close>

lemma release_data:
  assumes "xfr_inv d s" "w_pc s = WRelease"
  shows "outp s @ block s @ inp s = d"
proof -
  have "w_turn s = 1" using assms(2) by (simp add: turn_pc)
  then have "turns s = 1" using assms(1) by (simp add: xfr_inv_def turn_inv_def turns_def)
  with assms show ?thesis by (simp add: xfr_inv_def data_inv_def)
qed

lemma eof_inv_writer:
  assumes "w_step n s = Some s'" "xfr_inv d s"
  shows "eof_inv d s'"
  using assms(1)
proof (cases rule: w_step_cases)
  case reserve
  then have "read_sem s = 0" "r_pc s \<notin> {RTest, RWrite, RRelease, RDetach, RFinal}"
    using writer_excludes [of s] assms(2) by (simp_all add: xfr_inv_def)
  with reserve assms(2) show ?thesis by (simp add: xfr_inv_def eof_inv_def r_finished_def)
next
  case read
  then have "read_sem s = 0" "r_pc s \<notin> {RTest, RWrite, RRelease, RDetach, RFinal}"
    using writer_excludes [of s] assms(2) by (simp_all add: xfr_inv_def)
  with read assms(2) show ?thesis by (simp add: xfr_inv_def eof_inv_def r_finished_def read_returns_def)
next
  case release
  then have "read_sem s = 0" "r_pc s \<notin> {RTest, RWrite, RRelease, RDetach, RFinal}"
    using writer_excludes [of s] assms(2) by (simp_all add: xfr_inv_def)
  moreover have "shm_cnt s = 0 \<longrightarrow> outp s = d"
    using release_data [OF assms(2) release(1)] assms(2) release(1)
    by (auto simp: block_def xfr_inv_def eof_inv_def)
  ultimately show ?thesis using release assms(2) by (simp add: xfr_inv_def eof_inv_def r_finished_def)
next
  case final
  then have "read_sem s = 0" "r_pc s \<notin> {RTest, RWrite, RRelease, RDetach, RFinal}"
    using writer_excludes [of s] assms(2) by (simp_all add: xfr_inv_def)
  with final assms(2) show ?thesis by (simp add: xfr_inv_def eof_inv_def r_finished_def)
next
  case cleanup
  with assms(2) show ?thesis by (auto simp: xfr_inv_def eof_inv_def r_finished_def)
qed (use assms(2) in \<open>simp_all add: xfr_inv_def eof_inv_def r_finished_def\<close>)

lemma eof_inv_reader:
  assumes "r_step s = Some s'" "xfr_inv d s"
  shows "eof_inv d s'"
  using assms(1)
proof (cases rule: r_step_cases)
  case reserve
  then have "w_pc s \<notin> {WRead, WRelease, WCleanup, WDone}"
    using reader_excludes [of s] assms(2) by (simp_all add: xfr_inv_def)
  with reserve assms(2) show ?thesis by (cases "w_pc s") (simp_all add: xfr_inv_def eof_inv_def r_finished_def)
next
  case eof
  then have "w_pc s \<notin> {WRead, WRelease, WCleanup, WDone}" "read_sem s = 0"
    using reader_excludes [of s] in_turn_no_offer [of s] assms(2) by (simp_all add: xfr_inv_def)
  with eof assms(2) show ?thesis by (cases "w_pc s") (simp_all add: xfr_inv_def eof_inv_def r_finished_def)
next
  case put
  then have "w_pc s \<notin> {WRead, WRelease, WCleanup, WDone}"
    using reader_excludes [of s] assms(2) by (simp_all add: xfr_inv_def)
  with put assms(2) show ?thesis by (cases "w_pc s") (simp_all add: xfr_inv_def eof_inv_def r_finished_def)
next
  case release
  then have "w_pc s \<notin> {WRead, WRelease, WCleanup, WDone}" "w_turn s = 0"
    using reader_excludes [of s] assms(2) by (simp_all add: xfr_inv_def)
  moreover have "read_sem s = 0" using in_turn_no_offer [of s] assms(2) release(1) by (simp add: xfr_inv_def)
  ultimately show ?thesis
    using release assms(2) by (cases "w_pc s") (simp_all add: xfr_inv_def eof_inv_def r_finished_def)
next
  case detach
  with assms(2) show ?thesis by (cases "w_pc s") (simp_all add: xfr_inv_def eof_inv_def r_finished_def)
next
  case final
  then have "w_pc s \<notin> {WRead, WRelease, WCleanup, WDone}"
    using reader_excludes [of s] assms(2) by (simp_all add: xfr_inv_def)
  with final assms(2) show ?thesis by (cases "w_pc s") (simp_all add: xfr_inv_def eof_inv_def r_finished_def)
qed (use assms(2) in \<open>simp_all add: xfr_inv_def eof_inv_def r_finished_def\<close>)

lemma data_inv_writer:
  assumes "w_step n s = Some s'" "xfr_inv d s"
  shows "data_inv d s'"
proof -
  have t: "turns s' = turns s" "w_pc s \<noteq> WDead" using assms(1) turns_writer alive_writer by blast+
  from assms(1) show ?thesis
  proof (cases rule: w_step_cases)
    case reserve
    then have "read_sem s = 0" "r_pc s \<notin> {RTest, RWrite, RRelease, RDetach, RFinal}"
      using writer_excludes [of s] assms(2) by (simp_all add: xfr_inv_def)
    with reserve assms(2) t show ?thesis by (simp add: xfr_inv_def data_inv_def offered_def)
  next
    case read
    then have "read_sem s = 0" "r_pc s \<notin> {RTest, RWrite, RRelease, RDetach, RFinal}"
      using writer_excludes [of s] assms(2) by (simp_all add: xfr_inv_def)
    with read assms(2) t show ?thesis by (simp add: xfr_inv_def data_inv_def offered_def)
  next
    case release
    have "outp s @ block s @ inp s = d" by (rule release_data [OF assms(2) release(1)])
    moreover have "prefix (outp s @ block s) (outp s @ block s @ inp s)" by simp
    ultimately show ?thesis using release by (simp add: data_inv_def offered_def)
  qed (use assms(2) t in \<open>simp_all add: xfr_inv_def data_inv_def\<close>)
qed

lemma data_inv_reader:
  assumes "r_step s = Some s'" "xfr_inv d s"
  shows "data_inv d s'"
proof -
  have t: "turns s' = turns s" using assms(1) turns_reader by blast
  from assms(1) show ?thesis
  proof (cases rule: r_step_cases)
    case reserve
    then have "w_pc s \<notin> {WRead, WRelease, WCleanup, WDone}"
      using reader_excludes [of s] assms(2) by (simp_all add: xfr_inv_def)
    with reserve assms(2) t show ?thesis by (simp add: xfr_inv_def data_inv_def offered_def)
  next
    case eof
    then have "w_pc s \<notin> {WRead, WRelease, WCleanup, WDone}"
      using reader_excludes [of s] assms(2) by (simp_all add: xfr_inv_def)
    with eof assms(2) t show ?thesis by (auto simp: xfr_inv_def data_inv_def offered_def block_def)
  next
    case put
    then have "w_pc s \<notin> {WRead, WRelease, WCleanup, WDone}" "read_sem s = 0"
      using reader_excludes [of s] in_turn_no_offer [of s] assms(2) by (simp_all add: xfr_inv_def)
    with put assms(2) t show ?thesis
      by (simp add: xfr_inv_def data_inv_def offered_def flip: block_def)
  qed (use assms(2) t in \<open>simp_all add: xfr_inv_def data_inv_def offered_pc\<close>)
qed

lemma xfr_inv_step:
  assumes "xfr_step s s'" "xfr_inv d s"
  shows "xfr_inv d s'"
  using assms
proof (induction rule: xfr_step.induct)
  case (step_writer n s s')
  moreover have "turn_inv s'"
    using turn_inv_step [OF xfr_step.step_writer [OF step_writer(1)]] step_writer(2) by (simp add: xfr_inv_def)
  ultimately show ?case using data_inv_writer eof_inv_writer by (simp add: xfr_inv_def)
next
  case (step_reader s s')
  moreover have "turn_inv s'"
    using turn_inv_step [OF xfr_step.step_reader [OF step_reader(1)]] step_reader(2) by (simp add: xfr_inv_def)
  ultimately show ?case using data_inv_reader eof_inv_reader by (simp add: xfr_inv_def)
next
  case (fail_writer s)
  moreover have "turn_inv (s\<lparr>w_pc := WDead\<rparr>)"
    using turn_inv_step [OF xfr_step.fail_writer [OF fail_writer(1)]] fail_writer(2) by (simp add: xfr_inv_def)
  ultimately show ?case by (simp add: xfr_inv_def data_inv_def eof_inv_def offered_def r_finished_def)
next
  case (fail_reader s)
  have "turn_inv (s\<lparr>r_pc := RDead\<rparr>)"
    using turn_inv_step [OF xfr_step.fail_reader [OF fail_reader(1)]] fail_reader(2) by (simp add: xfr_inv_def)
  moreover have "data_inv d (s\<lparr>r_pc := RDead\<rparr>)"
  proof (cases "r_pc s \<in> {RTest, RWrite, RRelease, RDetach, RFinal}")
    case True
    then have "turns (s\<lparr>r_pc := RDead\<rparr>) = 0" "read_sem s = 0"
      using in_turn_no_offer [of s] fail_reader(2) by (simp_all add: xfr_inv_def)
    moreover have "prefix (outp s) d"
      using fail_reader(2) unfolding xfr_inv_def data_inv_def by (metis append_prefixD)
    ultimately show ?thesis by (simp add: data_inv_def offered_def)
  next
    case False
    then have "turns (s\<lparr>r_pc := RDead\<rparr>) = turns s" using turn_pc(4) [of s] by (simp add: turns_def)
    with False fail_reader(2) show ?thesis by (simp add: xfr_inv_def data_inv_def offered_def)
  qed
  moreover have "eof_inv d (s\<lparr>r_pc := RDead\<rparr>)"
    using fail_reader(2) by (simp add: xfr_inv_def eof_inv_def r_finished_def)
  ultimately show ?case by (simp add: xfr_inv_def)
next
  case (short_write s n)
  let ?s = "s\<lparr>outp := outp s @ take n (take (shm_cnt s) (shm_buf s)), r_pc := RDead\<rparr>"
  have t: "turns (s\<lparr>r_pc := RDead\<rparr>) = 0" "read_sem s = 0" using in_turn_no_offer [of s] short_write by (simp_all add: xfr_inv_def)
  have "prefix (outp s @ block s) d" using short_write by (simp add: xfr_inv_def data_inv_def offered_def)
  then have "prefix (outp s @ take n (block s)) d" using take_is_prefix [of n "block s"] by (meson prefix_order.trans same_prefix_prefix)
  moreover have "turns ?s = 0" using t(1) by (simp add: turns_def w_turn_def r_turn_def)
  ultimately show ?case using t(2) short_write(3)
    by (simp add: xfr_inv_def turn_inv_def data_inv_def eof_inv_def offered_def r_finished_def flip: block_def)
qed

lemma xfr_reaches_inv: "xfr_reaches s s' \<Longrightarrow> xfr_inv d s \<Longrightarrow> xfr_inv d s'"
  by (induction rule: xfr_reaches.induct) (auto intro: xfr_inv_step)

section \<open>Termination\<close>

text \<open>The work left: the input not yet read (and its end, not yet seen), the blocks not yet taken,
  and what remains of the current round of each process.\<close>

definition w_rank :: "wpc \<Rightarrow> nat" where
  "w_rank p = (case p of WRelease \<Rightarrow> 12 | WTest \<Rightarrow> 5 | WReserve \<Rightarrow> 4 | WRead \<Rightarrow> 3 | WFinal \<Rightarrow> 3
     | WCleanup \<Rightarrow> 2 | WDone \<Rightarrow> 0 | WDead \<Rightarrow> 0)"

definition r_rank :: "rpc \<Rightarrow> nat" where
  "r_rank p = (case p of RReserve \<Rightarrow> 1 | RTest \<Rightarrow> 5 | RWrite \<Rightarrow> 4 | RRelease \<Rightarrow> 3 | RDetach \<Rightarrow> 3
     | RFinal \<Rightarrow> 2 | RDone \<Rightarrow> 0 | RDead \<Rightarrow> 0)"

definition eof_unseen :: "xfr \<Rightarrow> nat" where
  "eof_unseen s = (if w_pc s \<in> {WRelease, WTest} \<and> shm_cnt s = 0 \<or> w_pc s \<in> {WFinal, WCleanup, WDone, WDead}
     then 0 else 1)"

definition work :: "xfr \<Rightarrow> nat" where
  "work s = 20 * (length (inp s) + eof_unseen s) + w_rank (w_pc s) + 6 * read_sem s + r_rank (r_pc s)"

lemma work_writer:
  assumes "w_step n s = Some s'"
  shows "work s' < work s"
  using assms
proof (cases rule: w_step_cases)
  case read
  have l: "length (inp s) = length (drop n (inp s)) + n" using read(2) by (simp add: read_returns_def)
  have "20 * length (drop n (inp s)) + 20 * of_bool (n \<noteq> 0) \<le> 20 * length (inp s)"
    by (subst l) simp
  with read show ?thesis by (cases "n = 0") (simp_all add: work_def eof_unseen_def w_rank_def)
qed (simp_all add: work_def eof_unseen_def w_rank_def)

lemma work_reader: "r_step s = Some s' \<Longrightarrow> work s' < work s"
  by (cases rule: r_step_cases, assumption) (simp_all add: work_def eof_unseen_def r_rank_def)

lemma work_step: "xfr_step s s' \<Longrightarrow> work s' < work s"
proof (induction rule: xfr_step.induct)
  case (fail_writer s)
  then show ?case by (cases "w_pc s") (simp_all add: work_def eof_unseen_def w_rank_def)
next
  case (fail_reader s)
  then show ?case by (cases "r_pc s") (simp_all add: work_def eof_unseen_def r_rank_def)
next
  case (short_write s n)
  then show ?case by (simp add: work_def eof_unseen_def r_rank_def)
qed (auto intro: work_writer work_reader)

section \<open>Progress\<close>

lemma read_possible: "\<exists>n. read_returns n (inp s)"
  by (rule exI [of _ "min BUF_SIZE (length (inp s))"]) (auto simp: read_returns_def BUF_SIZE_def min_def split: if_splits)

lemma writer_blocked:
  assumes "\<And>n. w_step n s = None"
  shows "w_pc s \<in> {WDone, WDead} \<or> w_pc s \<in> {WReserve, WFinal} \<and> write_sem s = 0"
proof -
  obtain n where n: "read_returns n (inp s)" using read_possible by blast
  show ?thesis using assms [of n] n by (cases "w_pc s") (auto simp: w_step_def split: if_splits)
qed

lemma reader_blocked:
  assumes "r_step s = None"
  shows "r_pc s \<in> {RDone, RDead} \<or> r_pc s = RReserve \<and> read_sem s = 0"
  using assms by (cases "r_pc s") (auto simp: r_step_def split: if_splits)

lemma no_deadlock:
  assumes inv: "xfr_inv d s" and alive: "w_pc s \<noteq> WDead" "r_pc s \<noteq> RDead"
    and stuck: "\<And>n. w_step n s = None" "r_step s = None"
  shows "w_pc s = WDone \<and> r_pc s = RDone \<and> outp s = d"
proof -
  have one: "turns s = 1" using inv alive by (simp add: xfr_inv_def turn_inv_def)
  from reader_blocked [OF stuck(2)] alive have r: "r_pc s = RDone \<or> r_pc s = RReserve \<and> read_sem s = 0" by simp
  then have "r_turn s = 0" using turn_pc(4) [of s] by auto
  from writer_blocked [OF stuck(1)] alive
  have "w_pc s = WDone \<or> w_pc s \<in> {WReserve, WFinal} \<and> write_sem s = 0" by simp
  then show ?thesis
  proof
    assume w: "w_pc s = WDone"
    with inv alive have "r_pc s = RDone" by (simp add: xfr_inv_def eof_inv_def)
    with inv w show ?thesis by (simp add: xfr_inv_def eof_inv_def r_finished_def)
  next
    assume w: "w_pc s \<in> {WReserve, WFinal} \<and> write_sem s = 0"
    then have "w_turn s = 0" using turn_pc(2) [of s] by auto
    with one w \<open>r_turn s = 0\<close> have "read_sem s = 1" by (simp add: turns_def)
    with r have rd: "r_pc s = RDone" by simp
    then have "read_sem s = 0" using inv by (simp add: xfr_inv_def eof_inv_def r_finished_def)
    with \<open>read_sem s = 1\<close> show ?thesis by simp
  qed
qed

section \<open>Properties\<close>

text \<open>C2. Transfer through shared memory, safety: whatever the interleaving of the two processes and
  whatever system call fails, what has reached stdout is a prefix of the input; the writer
  fills the segment only while the reader is not looking at it; and when the reader ends
  normally the whole input has been written.\<close>

theorem xfr_safe:
  assumes "xfr_reaches (xfr_init c b d) s"
  shows "prefix (outp s) d \<and> \<not> (w_pc s \<in> {WRead, WRelease} \<and> r_pc s \<in> {RTest, RWrite}) \<and>
    (r_pc s = RDone \<longrightarrow> outp s = d)"
proof -
  have inv: "xfr_inv d s" using xfr_reaches_inv [OF assms xfr_inv_init] .
  then have "prefix (outp s) d" unfolding xfr_inv_def data_inv_def by (metis append_prefixD)
  moreover have "\<not> (w_pc s \<in> {WRead, WRelease} \<and> r_pc s \<in> {RTest, RWrite})"
    using writer_excludes(2) [of s] inv by (auto simp: xfr_inv_def)
  ultimately show ?thesis using inv by (simp add: xfr_inv_def eof_inv_def r_finished_def)
qed

theorem xfr_safe_witness:
  "xfr_reaches (xfr_init 0 [] ''abc'') (xfr_init 0 [] ''abc'') \<and> prefix (outp (xfr_init 0 [] ''abc'')) ''abc''"
  using xfr_safe [OF reach_refl, of 0 "[]" "''abc''"] reach_refl by blast

text \<open>C27. Transfer through shared memory, liveness: every run of the two processes is finite, and a
  run in which no call failed can stop only with both processes finished and the input
  transferred completely; in particular the processes never deadlock.\<close>

theorem xfr_completes:
  "wf {(s', s). xfr_step s s'} \<and>
   (\<forall>s. xfr_reaches (xfr_init c b d) s \<and> w_pc s \<noteq> WDead \<and> r_pc s \<noteq> RDead \<and>
      (\<forall>n. w_step n s = None) \<and> r_step s = None \<longrightarrow>
      w_pc s = WDone \<and> r_pc s = RDone \<and> outp s = d)"
proof
  have "{(s', s). xfr_step s s'} \<subseteq> measure work" using work_step by auto
  then show "wf {(s', s). xfr_step s s'}" by (rule wf_subset [OF wf_measure])
next
  show "\<forall>s. xfr_reaches (xfr_init c b d) s \<and> w_pc s \<noteq> WDead \<and> r_pc s \<noteq> RDead \<and>
      (\<forall>n. w_step n s = None) \<and> r_step s = None \<longrightarrow>
      w_pc s = WDone \<and> r_pc s = RDone \<and> outp s = d"
    using no_deadlock xfr_reaches_inv xfr_inv_init by blast
qed

text \<open>A complete run, by evaluation: one block of three bytes, then the end of the input.\<close>

definition xfr_play :: "(nat option) list \<Rightarrow> xfr \<Rightarrow> xfr option" where
  "xfr_play moves s = foldl (\<lambda>r m. case r of None \<Rightarrow> None
     | Some s \<Rightarrow> (case m of Some n \<Rightarrow> w_step n s | None \<Rightarrow> r_step s)) (Some s) moves"

lemma xfr_play_run:
  "map_option outp (xfr_play (replicate 4 (Some 3) @ replicate 4 None @ replicate 4 (Some 0) @ replicate 4 None @
     replicate 2 (Some 0)) (xfr_init 9 ''junk'' ''abc'')) = Some ''abc''"
  by code_simp

theorem xfr_completes_witness:
  "\<not> (\<exists>f :: nat \<Rightarrow> xfr. f 0 = xfr_init 0 [] ''abc'' \<and> (\<forall>i. xfr_step (f i) (f (Suc i))))"
  using xfr_completes [of 0 "[]" "''abc''"] unfolding wf_iff_no_infinite_down_chain by blast

end
