(* ===== verification/Bpf.thy ===== *)
theory Bpf
  imports Prelude
begin

text \<open>
  The language of the seccomp filters: classic BPF instructions as \<^verbatim>\<open>struct sock_filter\<close> holds them,
  the macros \<^verbatim>\<open>BPF_STMT\<close> and \<^verbatim>\<open>BPF_JUMP\<close> that build them, and a filter's meaning on a
  \<^verbatim>\<open>struct seccomp_data\<close> of a little-endian machine. Jump offsets count from the next instruction
  and only go forward, so a filter is run on the list of the instructions still ahead.
\<close>

named_theorems bpf_defs \<open>filters and opcodes\<close>

section \<open>Instructions\<close>

record sock_filter =
  code :: "16 word"
  jt :: "8 word"
  jf :: "8 word"
  k_field :: "32 word"

definition BPF_STMT :: "16 word \<Rightarrow> 32 word \<Rightarrow> sock_filter" where
  [bpf_defs]: "BPF_STMT c k = \<lparr>code = c, jt = 0, jf = 0, k_field = k\<rparr>"

definition BPF_JUMP :: "16 word \<Rightarrow> 32 word \<Rightarrow> 8 word \<Rightarrow> 8 word \<Rightarrow> sock_filter" where
  [bpf_defs]: "BPF_JUMP c k t f = \<lparr>code = c, jt = t, jf = f, k_field = k\<rparr>"

definition BPF_LD :: "16 word" where [bpf_defs]: "BPF_LD = 0x00"
definition BPF_JMP :: "16 word" where [bpf_defs]: "BPF_JMP = 0x05"
definition BPF_RET :: "16 word" where [bpf_defs]: "BPF_RET = 0x06"
definition BPF_W :: "16 word" where [bpf_defs]: "BPF_W = 0x00"
definition BPF_ABS :: "16 word" where [bpf_defs]: "BPF_ABS = 0x20"
definition BPF_JA :: "16 word" where [bpf_defs]: "BPF_JA = 0x00"
definition BPF_JEQ :: "16 word" where [bpf_defs]: "BPF_JEQ = 0x10"
definition BPF_JGT :: "16 word" where [bpf_defs]: "BPF_JGT = 0x20"
definition BPF_JGE :: "16 word" where [bpf_defs]: "BPF_JGE = 0x30"
definition BPF_JSET :: "16 word" where [bpf_defs]: "BPF_JSET = 0x40"
definition BPF_K :: "16 word" where [bpf_defs]: "BPF_K = 0x00"

section \<open>The data a filter sees\<close>

text \<open>\<^verbatim>\<open>args\<close> is indexed by 0 to 5; indices beyond are never read.\<close>

record seccomp_data =
  sd_nr :: "32 word"
  sd_arch :: "32 word"
  sd_ip :: "64 word"
  sd_args :: "nat \<Rightarrow> 64 word"

definition lo32 :: "64 word \<Rightarrow> 32 word" where "lo32 w = ucast w"
definition hi32 :: "64 word \<Rightarrow> 32 word" where "hi32 w = ucast (drop_bit 32 w)"

definition off_nr :: "32 word" where [bpf_defs]: "off_nr = 0"
definition off_arch :: "32 word" where [bpf_defs]: "off_arch = 4"
definition off_args :: "nat \<Rightarrow> 32 word" where [bpf_defs]: "off_args i = 16 + 8 * of_nat i"

text \<open>A 32-bit load; an offset that is unaligned or outside the 64 bytes is rejected.\<close>

definition load32 :: "seccomp_data \<Rightarrow> 32 word \<Rightarrow> 32 word option" where
  "load32 sd a = (let n = unat a in
     if n mod 4 \<noteq> 0 \<or> n \<ge> 64 then None
     else Some (if n = 0 then sd_nr sd else if n = 4 then sd_arch sd
       else if n = 8 then lo32 (sd_ip sd) else if n = 12 then hi32 (sd_ip sd)
       else if n mod 8 = 0 then lo32 (sd_args sd ((n - 16) div 8)) else hi32 (sd_args sd ((n - 16) div 8))))"

section \<open>Running a filter\<close>

text \<open>\<open>bpf_run sd A is\<close>: the value the filter returns from accumulator \<open>A\<close> and the instructions \<open>is\<close>;
  \<open>None\<close> if it runs off its end or meets an instruction the programs do not use.\<close>

fun bpf_run :: "seccomp_data \<Rightarrow> 32 word \<Rightarrow> sock_filter list \<Rightarrow> 32 word option" where
  "bpf_run sd A [] = None"
| "bpf_run sd A (i # is) =
     (if code i = BPF_LD OR BPF_W OR BPF_ABS
      then (case load32 sd (k_field i) of None \<Rightarrow> None | Some v \<Rightarrow> bpf_run sd v is)
      else if code i = BPF_RET OR BPF_K then Some (k_field i)
      else if code i = BPF_JMP OR BPF_JA then bpf_run sd A (drop (unat (k_field i)) is)
      else if code i = BPF_JMP OR BPF_JEQ OR BPF_K
      then (if A = k_field i then bpf_run sd A (drop (unat (jt i)) is) else bpf_run sd A (drop (unat (jf i)) is))
      else if code i = BPF_JMP OR BPF_JGT OR BPF_K
      then (if A > k_field i then bpf_run sd A (drop (unat (jt i)) is) else bpf_run sd A (drop (unat (jf i)) is))
      else if code i = BPF_JMP OR BPF_JGE OR BPF_K
      then (if A \<ge> k_field i then bpf_run sd A (drop (unat (jt i)) is) else bpf_run sd A (drop (unat (jf i)) is))
      else if code i = BPF_JMP OR BPF_JSET OR BPF_K
      then (if A AND k_field i \<noteq> 0 then bpf_run sd A (drop (unat (jt i)) is) else bpf_run sd A (drop (unat (jf i)) is))
      else None)"

declare bpf_run.simps(2) [simp del]

text \<open>One rule per instruction.\<close>

lemma bpf_ld: "bpf_run sd A (BPF_STMT (BPF_LD OR BPF_W OR BPF_ABS) k # is) =
    (case load32 sd k of None \<Rightarrow> None | Some v \<Rightarrow> bpf_run sd v is)"
  by (simp add: bpf_run.simps bpf_defs)

lemma bpf_ret: "bpf_run sd A (BPF_STMT (BPF_RET OR BPF_K) k # is) = Some k"
  by (simp add: bpf_run.simps bpf_defs)

lemma bpf_ja: "bpf_run sd A (BPF_JUMP (BPF_JMP OR BPF_JA) k t f # is) = bpf_run sd A (drop (unat k) is)"
  by (simp add: bpf_run.simps bpf_defs)

lemma bpf_jeq: "bpf_run sd A (BPF_JUMP (BPF_JMP OR BPF_JEQ OR BPF_K) k t f # is) =
    (if A = k then bpf_run sd A (drop (unat t) is) else bpf_run sd A (drop (unat f) is))"
  by (simp add: bpf_run.simps bpf_defs)

lemma bpf_jgt: "bpf_run sd A (BPF_JUMP (BPF_JMP OR BPF_JGT OR BPF_K) k t f # is) =
    (if A > k then bpf_run sd A (drop (unat t) is) else bpf_run sd A (drop (unat f) is))"
  by (simp add: bpf_run.simps bpf_defs)

lemma bpf_jge: "bpf_run sd A (BPF_JUMP (BPF_JMP OR BPF_JGE OR BPF_K) k t f # is) =
    (if A \<ge> k then bpf_run sd A (drop (unat t) is) else bpf_run sd A (drop (unat f) is))"
  by (simp add: bpf_run.simps bpf_defs)

lemma bpf_jset: "bpf_run sd A (BPF_JUMP (BPF_JMP OR BPF_JSET OR BPF_K) k t f # is) =
    (if A AND k \<noteq> 0 then bpf_run sd A (drop (unat t) is) else bpf_run sd A (drop (unat f) is))"
  by (simp add: bpf_run.simps bpf_defs)

lemma load32_fields:
  "load32 sd off_nr = Some (sd_nr sd)" "load32 sd off_arch = Some (sd_arch sd)"
  "load32 sd (off_args 1) = Some (lo32 (sd_args sd 1))" "load32 sd (off_args 2) = Some (lo32 (sd_args sd 2))"
  "load32 sd (off_args 1 + 4) = Some (hi32 (sd_args sd 1))"
  by (simp_all add: load32_def bpf_defs Let_def)

lemmas bpf_exec = bpf_ld bpf_ret bpf_ja bpf_jeq bpf_jgt bpf_jge bpf_jset load32_fields load32_fields [unfolded One_nat_def]

section \<open>The kernel's acceptance test\<close>

text \<open>A filter is accepted if every load is aligned and in range, every jump lands inside it and no path
  falls off its end: then it returns a value on all data.\<close>

definition insn_ok :: "sock_filter list \<Rightarrow> sock_filter \<Rightarrow> bool" where
  "insn_ok is i \<longleftrightarrow>
     (if code i = BPF_LD OR BPF_W OR BPF_ABS then unat (k_field i) mod 4 = 0 \<and> unat (k_field i) < 64 \<and> is \<noteq> []
      else if code i = BPF_RET OR BPF_K then True
      else if code i = BPF_JMP OR BPF_JA then unat (k_field i) < length is
      else code i \<in> {BPF_JMP OR BPF_JEQ OR BPF_K, BPF_JMP OR BPF_JGT OR BPF_K, BPF_JMP OR BPF_JGE OR BPF_K,
          BPF_JMP OR BPF_JSET OR BPF_K} \<and> unat (jt i) < length is \<and> unat (jf i) < length is)"

fun filter_ok :: "sock_filter list \<Rightarrow> bool" where
  "filter_ok [] = True"
| "filter_ok (i # is) = (insn_ok is i \<and> filter_ok is)"

lemma filter_ok_drop: "filter_ok is \<Longrightarrow> filter_ok (drop n is)"
  by (induction "is" arbitrary: n) (auto simp: drop_Cons split: nat.splits)

lemma filter_ok_returns: "filter_ok is \<Longrightarrow> is \<noteq> [] \<Longrightarrow> \<exists>v. bpf_run sd A is = Some v"
proof (induction "length is" arbitrary: A "is" rule: less_induct)
  case less
  from less.prems(2) obtain i js where js: "is = i # js" by (cases "is") auto
  have ok: "insn_ok js i" "filter_ok js" using less.prems(1) js by simp_all
  have go: "\<exists>v. bpf_run sd B (drop n js) = Some v" if "n < length js" for B n
    using less.hyps [of "drop n js" B] filter_ok_drop [OF ok(2)] that js by simp
  have go0: "js \<noteq> [] \<Longrightarrow> \<exists>v. bpf_run sd B js = Some v" for B using go [of 0 B] by simp
  show ?case
  proof (cases "code i = BPF_LD OR BPF_W OR BPF_ABS")
    case True
    obtain v where "load32 sd (k_field i) = Some v" using ok(1) True by (auto simp: insn_ok_def load32_def Let_def)
    with True ok(1) go0 js show ?thesis by (auto simp: insn_ok_def bpf_run.simps)
  next
    case False
    with ok(1) go js show ?thesis by (auto simp: insn_ok_def bpf_run.simps split: if_splits)
  qed
qed

end
