(* ===== verification/Seccomp.thy ===== *)
theory Seccomp
  imports Bpf Error_Functions
begin

text \<open>
  The seccomp programs of \<^verbatim>\<open>tlpi-book/seccomp\<close>: their filters, written with the macros of theory
  \<open>Bpf\<close>, and the programs that install them and make system calls under them. The kernel is an
  argument: what \<^verbatim>\<open>prctl\<close>, \<^verbatim>\<open>seccomp\<close> and every other system call answer. That it obeys an installed
  filter is the hypothesis \<open>obeys_filter\<close>; which system call a libc function makes is an argument too.
\<close>

section \<open>Constants\<close>

named_theorems sec_consts \<open>values of the constants of the seccomp programs\<close>

definition X32_SYSCALL_BIT :: "32 word" where [sec_consts]: "X32_SYSCALL_BIT = 0x40000000"
definition AUDIT_ARCH_X86_64 :: "32 word" where [sec_consts]: "AUDIT_ARCH_X86_64 = 0xC000003E"
definition AUDIT_ARCH_I386 :: "32 word" where [sec_consts]: "AUDIT_ARCH_I386 = 0x40000003"

definition SECCOMP_RET_KILL_PROCESS :: "32 word" where [sec_consts]: "SECCOMP_RET_KILL_PROCESS = 0x80000000"
definition SECCOMP_RET_KILL :: "32 word" where [sec_consts]: "SECCOMP_RET_KILL = 0"
definition SECCOMP_RET_TRAP :: "32 word" where [sec_consts]: "SECCOMP_RET_TRAP = 0x00030000"
definition SECCOMP_RET_ERRNO :: "32 word" where [sec_consts]: "SECCOMP_RET_ERRNO = 0x00050000"
definition SECCOMP_RET_LOG :: "32 word" where [sec_consts]: "SECCOMP_RET_LOG = 0x7ffc0000"
definition SECCOMP_RET_ALLOW :: "32 word" where [sec_consts]: "SECCOMP_RET_ALLOW = 0x7fff0000"

definition NR_mq_notify_x86_64 :: "32 word" where [sec_consts]: "NR_mq_notify_x86_64 = 244"
definition NR_mq_notify_i386 :: "32 word" where [sec_consts]: "NR_mq_notify_i386 = 281"
definition NR_mq_notify_x32 :: "32 word" where [sec_consts]: "NR_mq_notify_x32 = 527"
definition NR_open :: "32 word" where [sec_consts]: "NR_open = 2"
definition NR_lseek :: "32 word" where [sec_consts]: "NR_lseek = 8"
definition NR_getppid :: "32 word" where [sec_consts]: "NR_getppid = 110"
definition NR_openat :: "32 word" where [sec_consts]: "NR_openat = 257"

definition O_CREAT :: "32 word" where [sec_consts]: "O_CREAT = 0x40"
definition O_WRONLY :: "32 word" where [sec_consts]: "O_WRONLY = 1"
definition O_RDWR :: "32 word" where [sec_consts]: "O_RDWR = 2"
definition ENOTSUP :: "32 word" where [sec_consts]: "ENOTSUP = 95"

section \<open>The filters\<close>

definition multiarch_filter :: "sock_filter list" where
  "multiarch_filter = [
     BPF_STMT (BPF_LD OR BPF_W OR BPF_ABS) off_arch,
     BPF_JUMP (BPF_JMP OR BPF_JEQ OR BPF_K) AUDIT_ARCH_X86_64 0 5,
     BPF_STMT (BPF_LD OR BPF_W OR BPF_ABS) off_nr,
     BPF_JUMP (BPF_JMP OR BPF_JEQ OR BPF_K) NR_mq_notify_x86_64 0 1,
     BPF_STMT (BPF_RET OR BPF_K) (SECCOMP_RET_ERRNO OR NR_mq_notify_x86_64),
     BPF_JUMP (BPF_JMP OR BPF_JEQ OR BPF_K) (NR_mq_notify_x32 + X32_SYSCALL_BIT) 0 5,
     BPF_STMT (BPF_RET OR BPF_K) (SECCOMP_RET_ERRNO OR NR_mq_notify_x32),
     BPF_JUMP (BPF_JMP OR BPF_JEQ OR BPF_K) AUDIT_ARCH_I386 0 4,
     BPF_STMT (BPF_LD OR BPF_W OR BPF_ABS) off_nr,
     BPF_JUMP (BPF_JMP OR BPF_JEQ OR BPF_K) NR_mq_notify_i386 0 1,
     BPF_STMT (BPF_RET OR BPF_K) (SECCOMP_RET_ERRNO OR NR_mq_notify_i386),
     BPF_STMT (BPF_RET OR BPF_K) SECCOMP_RET_ALLOW,
     BPF_STMT (BPF_RET OR BPF_K) SECCOMP_RET_KILL_PROCESS]"

definition arg64_filter :: "sock_filter list" where
  "arg64_filter = [
     BPF_STMT (BPF_LD OR BPF_W OR BPF_ABS) off_arch,
     BPF_JUMP (BPF_JMP OR BPF_JEQ OR BPF_K) AUDIT_ARCH_X86_64 0 2,
     BPF_STMT (BPF_LD OR BPF_W OR BPF_ABS) off_nr,
     BPF_JUMP (BPF_JMP OR BPF_JGE OR BPF_K) X32_SYSCALL_BIT 0 1,
     BPF_STMT (BPF_RET OR BPF_K) SECCOMP_RET_KILL_PROCESS,
     BPF_JUMP (BPF_JMP OR BPF_JEQ OR BPF_K) NR_lseek 1 0,
     BPF_STMT (BPF_RET OR BPF_K) SECCOMP_RET_ALLOW,
     BPF_STMT (BPF_LD OR BPF_W OR BPF_ABS) (off_args 1 + 4),
     BPF_JUMP (BPF_JMP OR BPF_JEQ OR BPF_K) 0 1 0,
     BPF_STMT (BPF_RET OR BPF_K) (SECCOMP_RET_ERRNO OR 2),
     BPF_STMT (BPF_LD OR BPF_W OR BPF_ABS) (off_args 1),
     BPF_JUMP (BPF_JMP OR BPF_JGT OR BPF_K) 1000 0 1,
     BPF_STMT (BPF_RET OR BPF_K) (SECCOMP_RET_ERRNO OR 1),
     BPF_STMT (BPF_RET OR BPF_K) SECCOMP_RET_ALLOW]"

definition control_open_filter :: "sock_filter list" where
  "control_open_filter = [
     BPF_STMT (BPF_LD OR BPF_W OR BPF_ABS) off_arch,
     BPF_JUMP (BPF_JMP OR BPF_JEQ OR BPF_K) AUDIT_ARCH_X86_64 0 2,
     BPF_STMT (BPF_LD OR BPF_W OR BPF_ABS) off_nr,
     BPF_JUMP (BPF_JMP OR BPF_JGE OR BPF_K) X32_SYSCALL_BIT 0 1,
     BPF_STMT (BPF_RET OR BPF_K) SECCOMP_RET_KILL_PROCESS,
     BPF_JUMP (BPF_JMP OR BPF_JEQ OR BPF_K) NR_open 2 0,
     BPF_JUMP (BPF_JMP OR BPF_JEQ OR BPF_K) NR_openat 3 0,
     BPF_STMT (BPF_RET OR BPF_K) SECCOMP_RET_ALLOW,
     BPF_STMT (BPF_LD OR BPF_W OR BPF_ABS) (off_args 1),
     BPF_JUMP (BPF_JMP OR BPF_JA) 1 0 0,
     BPF_STMT (BPF_LD OR BPF_W OR BPF_ABS) (off_args 2),
     BPF_JUMP (BPF_JMP OR BPF_JSET OR BPF_K) O_CREAT 0 1,
     BPF_STMT (BPF_RET OR BPF_K) SECCOMP_RET_KILL_PROCESS,
     BPF_JUMP (BPF_JMP OR BPF_JSET OR BPF_K) (O_WRONLY OR O_RDWR) 0 1,
     BPF_STMT (BPF_RET OR BPF_K) (SECCOMP_RET_ERRNO OR ENOTSUP),
     BPF_STMT (BPF_RET OR BPF_K) SECCOMP_RET_ALLOW]"

definition deny_open_filter :: "sock_filter list" where
  "deny_open_filter = [
     BPF_STMT (BPF_LD OR BPF_W OR BPF_ABS) off_arch,
     BPF_JUMP (BPF_JMP OR BPF_JEQ OR BPF_K) AUDIT_ARCH_X86_64 1 0,
     BPF_STMT (BPF_RET OR BPF_K) SECCOMP_RET_KILL_PROCESS,
     BPF_STMT (BPF_LD OR BPF_W OR BPF_ABS) off_nr,
     BPF_JUMP (BPF_JMP OR BPF_JGE OR BPF_K) X32_SYSCALL_BIT 0 1,
     BPF_STMT (BPF_RET OR BPF_K) SECCOMP_RET_KILL_PROCESS,
     BPF_JUMP (BPF_JMP OR BPF_JEQ OR BPF_K) NR_open 2 0,
     BPF_JUMP (BPF_JMP OR BPF_JEQ OR BPF_K) NR_openat 1 0,
     BPF_STMT (BPF_RET OR BPF_K) SECCOMP_RET_ALLOW,
     BPF_STMT (BPF_RET OR BPF_K) SECCOMP_RET_KILL_PROCESS]"

definition perf_filter :: "sock_filter list" where
  "perf_filter = [
     BPF_STMT (BPF_LD OR BPF_W OR BPF_ABS) off_arch,
     BPF_JUMP (BPF_JMP OR BPF_JEQ OR BPF_K) AUDIT_ARCH_X86_64 0 2,
     BPF_STMT (BPF_LD OR BPF_W OR BPF_ABS) off_nr,
     BPF_JUMP (BPF_JMP OR BPF_JGE OR BPF_K) X32_SYSCALL_BIT 0 1,
     BPF_STMT (BPF_RET OR BPF_K) SECCOMP_RET_KILL_PROCESS,
     BPF_JUMP (BPF_JMP OR BPF_JEQ OR BPF_K) NR_open 1 0,
     BPF_STMT (BPF_RET OR BPF_K) SECCOMP_RET_ALLOW,
     BPF_STMT (BPF_RET OR BPF_K) SECCOMP_RET_KILL_PROCESS]"

definition logging_filter :: "sock_filter list" where
  "logging_filter = [
     BPF_STMT (BPF_LD OR BPF_W OR BPF_ABS) off_arch,
     BPF_JUMP (BPF_JMP OR BPF_JEQ OR BPF_K) AUDIT_ARCH_X86_64 0 2,
     BPF_STMT (BPF_LD OR BPF_W OR BPF_ABS) off_nr,
     BPF_JUMP (BPF_JMP OR BPF_JGE OR BPF_K) X32_SYSCALL_BIT 0 1,
     BPF_STMT (BPF_RET OR BPF_K) SECCOMP_RET_KILL_PROCESS,
     BPF_STMT (BPF_RET OR BPF_K) SECCOMP_RET_LOG]"

definition trap_filter :: "sock_filter list" where
  "trap_filter = [
     BPF_STMT (BPF_LD OR BPF_W OR BPF_ABS) off_arch,
     BPF_JUMP (BPF_JMP OR BPF_JEQ OR BPF_K) AUDIT_ARCH_X86_64 1 0,
     BPF_STMT (BPF_RET OR BPF_K) SECCOMP_RET_KILL,
     BPF_STMT (BPF_LD OR BPF_W OR BPF_ABS) off_nr,
     BPF_JUMP (BPF_JMP OR BPF_JGE OR BPF_K) X32_SYSCALL_BIT 0 1,
     BPF_STMT (BPF_RET OR BPF_K) SECCOMP_RET_KILL_PROCESS,
     BPF_JUMP (BPF_JMP OR BPF_JEQ OR BPF_K) NR_getppid 0 1,
     BPF_STMT (BPF_RET OR BPF_K) SECCOMP_RET_TRAP,
     BPF_STMT (BPF_RET OR BPF_K) SECCOMP_RET_ALLOW]"

lemmas filter_defs = multiarch_filter_def arg64_filter_def control_open_filter_def deny_open_filter_def
  perf_filter_def logging_filter_def trap_filter_def

section \<open>What the filters decide\<close>

definition decides :: "sock_filter list \<Rightarrow> seccomp_data \<Rightarrow> 32 word option" where
  "decides f sd = bpf_run sd 0 f"

lemma multiarch_decision:
  "decides multiarch_filter sd = Some
     (if sd_arch sd = AUDIT_ARCH_X86_64 then
        (if sd_nr sd = NR_mq_notify_x86_64 then SECCOMP_RET_ERRNO OR NR_mq_notify_x86_64
         else if sd_nr sd = NR_mq_notify_x32 OR X32_SYSCALL_BIT then SECCOMP_RET_ERRNO OR NR_mq_notify_x32
         else SECCOMP_RET_ALLOW)
      else if sd_arch sd = AUDIT_ARCH_I386 then
        (if sd_nr sd = NR_mq_notify_i386 then SECCOMP_RET_ERRNO OR NR_mq_notify_i386 else SECCOMP_RET_ALLOW)
      else SECCOMP_RET_KILL_PROCESS)"
  by (simp add: decides_def multiarch_filter_def bpf_exec NR_mq_notify_x32_def X32_SYSCALL_BIT_def)

text \<open>A native x86-64 call: not an x32 one.\<close>

definition native :: "seccomp_data \<Rightarrow> bool" where
  "native sd \<longleftrightarrow> sd_arch sd = AUDIT_ARCH_X86_64 \<and> unat (sd_nr sd) < 2 ^ 30"

lemma native_alt: "native sd \<longleftrightarrow> sd_arch sd = AUDIT_ARCH_X86_64 \<and> sd_nr sd < X32_SYSCALL_BIT"
  by (simp add: native_def word_less_nat_alt X32_SYSCALL_BIT_def)

lemma arg64_decision_words:
  "decides arg64_filter sd = Some
     (if \<not> native sd then SECCOMP_RET_KILL_PROCESS
      else if sd_nr sd \<noteq> NR_lseek then SECCOMP_RET_ALLOW
      else if hi32 (sd_args sd 1) \<noteq> 0 then SECCOMP_RET_ERRNO OR 2
      else if lo32 (sd_args sd 1) > 1000 then SECCOMP_RET_ERRNO OR 1
      else SECCOMP_RET_ALLOW)"
  by (auto simp: decides_def arg64_filter_def bpf_exec native_alt not_less)

lemma control_open_decision:
  "decides control_open_filter sd = Some
     (let flags = (if sd_nr sd = NR_open then lo32 (sd_args sd 1) else lo32 (sd_args sd 2)) in
      if \<not> native sd then SECCOMP_RET_KILL_PROCESS
      else if sd_nr sd \<notin> {NR_open, NR_openat} then SECCOMP_RET_ALLOW
      else if flags AND O_CREAT \<noteq> 0 then SECCOMP_RET_KILL_PROCESS
      else if flags AND (O_WRONLY OR O_RDWR) \<noteq> 0 then SECCOMP_RET_ERRNO OR ENOTSUP
      else SECCOMP_RET_ALLOW)"
  by (auto simp: decides_def control_open_filter_def bpf_exec native_alt not_less Let_def NR_open_def NR_openat_def)

lemma deny_open_decision:
  "decides deny_open_filter sd = Some
     (if \<not> native sd \<or> sd_nr sd \<in> {NR_open, NR_openat} then SECCOMP_RET_KILL_PROCESS else SECCOMP_RET_ALLOW)"
  by (auto simp: decides_def deny_open_filter_def bpf_exec native_alt not_less)

lemma perf_decision:
  "decides perf_filter sd = Some
     (if \<not> native sd \<or> sd_nr sd = NR_open then SECCOMP_RET_KILL_PROCESS else SECCOMP_RET_ALLOW)"
  by (auto simp: decides_def perf_filter_def bpf_exec native_alt not_less)

lemma logging_decision:
  "decides logging_filter sd = Some (if native sd then SECCOMP_RET_LOG else SECCOMP_RET_KILL_PROCESS)"
  by (auto simp: decides_def logging_filter_def bpf_exec native_alt not_less)

lemma trap_decision:
  "decides trap_filter sd = Some
     (if sd_arch sd \<noteq> AUDIT_ARCH_X86_64 then SECCOMP_RET_KILL
      else if \<not> native sd then SECCOMP_RET_KILL_PROCESS
      else if sd_nr sd = NR_getppid then SECCOMP_RET_TRAP else SECCOMP_RET_ALLOW)"
  by (auto simp: decides_def trap_filter_def bpf_exec native_alt not_less)

text \<open>The two halves of a 64-bit argument.\<close>

lemma unat_lo32: "unat (lo32 w) = unat w mod 2 ^ 32"
  by (simp add: lo32_def unsigned_ucast_eq take_bit_eq_mod)

lemma unat_hi32: "unat (hi32 w) = unat w div 2 ^ 32"
proof -
  have "unat w div 2 ^ 32 < 2 ^ 32" using unsigned_less [of w, where 'a = nat] by simp
  moreover have "unat (drop_bit 32 w) = unat w div 2 ^ 32" by (subst unat_drop_bit_eq) (rule drop_bit_eq_div)
  ultimately show ?thesis by (simp only: hi32_def unsigned_ucast_eq take_bit_eq_mod) simp
qed

lemma arg64_halves:
  "hi32 w \<noteq> 0 \<longleftrightarrow> unat w \<ge> 2 ^ 32"
  "hi32 w = 0 \<Longrightarrow> lo32 w > 1000 \<longleftrightarrow> unat w > 1000"
proof -
  have "hi32 w = 0 \<longleftrightarrow> unat w div 2 ^ 32 = 0" using unat_hi32 [of w] unat_eq_zero [of "hi32 w"] by simp
  then show hi: "hi32 w \<noteq> 0 \<longleftrightarrow> unat w \<ge> 2 ^ 32" by (auto simp: div_eq_0_iff)
  show "lo32 w > 1000 \<longleftrightarrow> unat w > 1000" if "hi32 w = 0"
    using that hi unat_lo32 [of w] by (simp add: word_less_nat_alt)
qed


section \<open>The programs\<close>

definition SIGSYS :: int where [sec_consts]: "SIGSYS = 31"

text \<open>What a system call can come back with. \<open>Trapped v\<close>: \<^verbatim>\<open>SIGSYS\<close> is sent, and \<open>v\<close> is what is left in the
  result register.\<close>

datatype sysres = Returned int | Failed int | KilledBy int | Trapped int

text \<open>The kernel: a system call is answered depending on the filter installed.\<close>

record 'k sec_os =
  k_prctl :: "'k \<Rightarrow> (int + unit) \<times> 'k"
  k_seccomp :: "sock_filter list \<Rightarrow> 'k \<Rightarrow> (int + unit) \<times> 'k"
  k_syscall :: "sock_filter list option \<Rightarrow> seccomp_data \<Rightarrow> 'k \<Rightarrow> sysres \<times> 'k"
  k_sigaction :: "'k \<Rightarrow> (int + unit) \<times> 'k"
  k_setenv :: "'k \<Rightarrow> (int + unit) \<times> 'k"
  k_system :: "string \<Rightarrow> 'k \<Rightarrow> 'k"
  k_execv :: "string \<Rightarrow> string list \<Rightarrow> 'k \<Rightarrow> (int + unit) \<times> 'k"

record 'k sec_st = proc_io +
  installed :: "sock_filter list option"
  handler :: bool
  no_filter_var :: "string option"
  kern :: 'k

text \<open>A call that answers an error number or success: the C result is -1 (here \<open>False\<close>) with \<^verbatim>\<open>errno\<close> set.\<close>

definition kcall :: "('k \<Rightarrow> (int + unit) \<times> 'k) \<Rightarrow> ('k sec_st, bool) prog" where
  "kcall f s = (case f (kern s) of
     (Inl e, k) \<Rightarrow> (Inr False, s\<lparr>kern := k, errno := e\<rparr>)
   | (Inr _, k) \<Rightarrow> (Inr True, s\<lparr>kern := k\<rparr>))"

text \<open>The handler of \<^verbatim>\<open>seccomp_trap_sigsys.c\<close>.\<close>

definition sigHandler :: "'a proc_io_scheme \<Rightarrow> 'a proc_io_scheme" where
  "sigHandler s = printf_stdout (''SIGSYS!'' @ [NL]) s"

definition do_syscall :: "'k sec_os \<Rightarrow> seccomp_data \<Rightarrow> ('k sec_st, int) prog" where
  "do_syscall K sd s = (case k_syscall K (installed s) sd (kern s) of (r, k) \<Rightarrow>
     (let s1 = s\<lparr>kern := k\<rparr> in
      case r of
        Returned v \<Rightarrow> (Inr v, s1)
      | Failed e \<Rightarrow> (Inr (- 1), s1\<lparr>errno := e\<rparr>)
      | KilledBy sg \<Rightarrow> (Inl (Killed sg), s1)
      | Trapped v \<Rightarrow> if handler s then (Inr v, sigHandler s1) else (Inl (Killed SIGSYS), s1)))"

definition seccomp :: "'k sec_os \<Rightarrow> sock_filter list \<Rightarrow> ('k sec_st, bool) prog" where
  "seccomp K f = bnd (kcall (k_seccomp K f)) (\<lambda>ok.
     andthen (whenM ok (modify (\<lambda>s. s\<lparr>installed := Some f\<rparr>))) (ret ok))"

text \<open>Every \<^verbatim>\<open>install_filter\<close>: install, and end the program on failure.\<close>

definition install_with ::
  "'k sec_os \<Rightarrow> (string \<Rightarrow> ('k sec_st, unit) prog) \<Rightarrow> sock_filter list \<Rightarrow> ('k sec_st, unit) prog" where
  "install_with K errExit' f = bnd (seccomp K f) (\<lambda>ok. whenM (\<not> ok) (errExit' ''seccomp''))"

definition set_no_new_privs :: "'k sec_os \<Rightarrow> (string \<Rightarrow> ('k sec_st, unit) prog) \<Rightarrow> ('k sec_st, unit) prog" where
  "set_no_new_privs K errExit' = bnd (kcall (k_prctl K)) (\<lambda>ok. whenM (\<not> ok) (errExit' ''prctl''))"

definition multiarch_install_filter :: "'k sec_os \<Rightarrow> (int \<Rightarrow> string) \<Rightarrow> ('k sec_st, unit) prog" where
  "multiarch_install_filter K strerror = install_with K (macro_errExit strerror) multiarch_filter"

definition arg64_install_filter :: "'k sec_os \<Rightarrow> (int \<Rightarrow> string) \<Rightarrow> ('k sec_st, unit) prog" where
  "arg64_install_filter K strerror = install_with K (errExit strerror) arg64_filter"

definition control_open_install_filter :: "'k sec_os \<Rightarrow> (int \<Rightarrow> string) \<Rightarrow> ('k sec_st, unit) prog" where
  "control_open_install_filter K strerror = install_with K (errExit strerror) control_open_filter"

definition deny_open_install_filter :: "'k sec_os \<Rightarrow> (int \<Rightarrow> string) \<Rightarrow> ('k sec_st, unit) prog" where
  "deny_open_install_filter K strerror = install_with K (errExit strerror) deny_open_filter"

definition perf_install_filter :: "'k sec_os \<Rightarrow> (int \<Rightarrow> string) \<Rightarrow> ('k sec_st, unit) prog" where
  "perf_install_filter K strerror = install_with K (macro_errExit strerror) perf_filter"

definition logging_install_filter :: "'k sec_os \<Rightarrow> (int \<Rightarrow> string) \<Rightarrow> ('k sec_st, unit) prog" where
  "logging_install_filter K strerror = install_with K (errExit strerror) logging_filter"

definition trap_install_filter :: "'k sec_os \<Rightarrow> (int \<Rightarrow> string) \<Rightarrow> ('k sec_st, unit) prog" where
  "trap_install_filter K strerror = install_with K (errExit strerror) trap_filter"

text \<open>\<^verbatim>\<open>seccomp_control_open.c\<close>; \<open>libc_open path flags\<close> is the system call \<^verbatim>\<open>open(path, flags)\<close> makes.\<close>

definition open_or_perror ::
  "'k sec_os \<Rightarrow> (int \<Rightarrow> string) \<Rightarrow> seccomp_data \<Rightarrow> string \<Rightarrow> ('k sec_st, unit) prog" where
  "open_or_perror K strerror sd msg =
     bnd (do_syscall K sd) (\<lambda>r. whenM (r = - 1) (modify (perror strerror msg)))"

definition control_open_main ::
  "'k sec_os \<Rightarrow> (int \<Rightarrow> string) \<Rightarrow> (string \<Rightarrow> 32 word \<Rightarrow> seccomp_data) \<Rightarrow> ('k sec_st, unit) prog" where
  "control_open_main K strerror libc_open =
     andthen (set_no_new_privs K (errExit strerror))
    (andthen (control_open_install_filter K strerror)
    (andthen (open_or_perror K strerror (libc_open ''/tmp/a'' 0) ''open1'')
    (andthen (open_or_perror K strerror (libc_open ''/tmp/a'' O_WRONLY) ''open2'')
    (andthen (open_or_perror K strerror (libc_open ''/tmp/a'' O_RDWR) ''open3'')
    (andthen (open_or_perror K strerror (libc_open ''/tmp/a'' (O_CREAT OR O_RDWR)) ''open4'')
      (exit3 EXIT_SUCCESS))))))"

text \<open>\<^verbatim>\<open>seccomp_arg64.c\<close>; \<open>libc_lseek fd offset\<close> is the system call of \<^verbatim>\<open>lseek(fd, offset, SEEK_SET)\<close>.\<close>

definition seek_test ::
  "'k sec_os \<Rightarrow> (int \<Rightarrow> 64 word \<Rightarrow> seccomp_data) \<Rightarrow> int \<Rightarrow> int \<Rightarrow> ('k sec_st, unit) prog" where
  "seek_test K libc_lseek fd offset =
     andthen (printfM (''Seek to byte '' @ show_int offset @ '': ''))
       (bnd (do_syscall K (libc_lseek fd (word_of_int offset))) (\<lambda>r.
         if r = 0 then printfM (''succeeded'' @ [NL])
         else bnd (gets errno) (\<lambda>e. printfM (''failed with errno = '' @ show_int e @ [NL]))))"

definition arg64_main ::
  "'k sec_os \<Rightarrow> (int \<Rightarrow> string) \<Rightarrow> (string \<Rightarrow> 32 word \<Rightarrow> seccomp_data) \<Rightarrow> (int \<Rightarrow> 64 word \<Rightarrow> seccomp_data)
     \<Rightarrow> ('k sec_st, unit) prog" where
  "arg64_main K strerror libc_open libc_lseek =
     andthen (set_no_new_privs K (errExit strerror))
    (andthen (arg64_install_filter K strerror)
    (bnd (do_syscall K (libc_open ''/dev/zero'' O_RDWR)) (\<lambda>fd.
     andthen (whenM (fd = - 1) (errExit strerror ''open''))
    (andthen (seek_test K libc_lseek fd 0)
    (andthen (seek_test K libc_lseek fd 10000)
    (andthen (seek_test K libc_lseek fd 0x100000001)
      (exit3 EXIT_SUCCESS)))))))"

definition deny_open_main ::
  "'k sec_os \<Rightarrow> (int \<Rightarrow> string) \<Rightarrow> (string \<Rightarrow> 32 word \<Rightarrow> seccomp_data) \<Rightarrow> ('k sec_st, unit) prog" where
  "deny_open_main K strerror libc_open =
     andthen (set_no_new_privs K (errExit strerror))
    (andthen (deny_open_install_filter K strerror)
    (bnd (do_syscall K (libc_open ''/tmp/a'' 0)) (\<lambda>fd.
     andthen (whenM (fd = - 1) (errExit strerror ''open''))
    (andthen (printfM (''We shouldn'' @ [CHR 39] @ ''t see this message'' @ [NL]))
      (exit3 EXIT_SUCCESS)))))"

definition logging_main ::
  "'k sec_os \<Rightarrow> (int \<Rightarrow> string) \<Rightarrow> seccomp_data \<Rightarrow> seccomp_data \<Rightarrow> ('k sec_st, unit) prog" where
  "logging_main K strerror libc_geteuid libc_getppid =
     andthen (set_no_new_privs K (errExit strerror))
    (andthen (logging_install_filter K strerror)
    (bnd (do_syscall K libc_geteuid) (\<lambda>_.
     bnd (do_syscall K libc_getppid) (\<lambda>_. exit3 EXIT_SUCCESS))))"

definition perf_main ::
  "'k sec_os \<Rightarrow> (int \<Rightarrow> string) \<Rightarrow> seccomp_data \<Rightarrow> string \<Rightarrow> string list \<Rightarrow> ('k sec_st, unit) prog" where
  "perf_main K strerror libc_getppid prog args =
     (if args = [] then
        andthen (modify (fputs_stderr (''Usage: '' @ prog @ '' <num-loops> [x]'' @ [NL])))
       (andthen (modify (fputs_stderr (''       (use '' @ [CHR 39] @ ''x'' @ [CHR 39] @
          '' to run with BPF filter applied)'' @ [NL])))
         (exit3 EXIT_FAILURE))
      else
        andthen (whenM (length args > 1)
          (andthen (printfM (''Applying BPF filter'' @ [NL]))
          (andthen (set_no_new_privs K (macro_errExit strerror)) (perf_install_filter K strerror))))
       (andthen (forM [0..<nat (atoi (hd args))] (\<lambda>_. bnd (do_syscall K libc_getppid) (\<lambda>_. ret ())))
         (exit3 EXIT_SUCCESS)))"

definition trap_main ::
  "'k sec_os \<Rightarrow> (int \<Rightarrow> string) \<Rightarrow> seccomp_data \<Rightarrow> ('k sec_st, unit) prog" where
  "trap_main K strerror libc_getppid =
     andthen (set_no_new_privs K (errExit strerror))
    (andthen (trap_install_filter K strerror)
    (bnd (kcall (k_sigaction K)) (\<lambda>ok.
     andthen (if ok then modify (\<lambda>s. s\<lparr>handler := True\<rparr>) else errExit strerror ''sigaction'')
    (andthen (printfM (''About to call getppid()'' @ [NL]))
    (bnd (do_syscall K libc_getppid) (\<lambda>_.
     andthen (printfM (''Bye'' @ [NL])) (exit3 EXIT_SUCCESS)))))))"

text \<open>\<^verbatim>\<open>seccomp_multiarch.c\<close>; \<open>no_filter_var\<close> is the value of the environment variable
  \<^verbatim>\<open>NO_SECCOMP_FILTER\<close>.\<close>

definition multiarch_main ::
  "'k sec_os \<Rightarrow> (int \<Rightarrow> string) \<Rightarrow> seccomp_data \<Rightarrow> int \<Rightarrow> string list \<Rightarrow> ('k sec_st, unit) prog" where
  "multiarch_main K strerror libc_mq_notify pid argv =
     bnd (gets no_filter_var) (\<lambda>var.
     andthen (whenM (var = None)
       (andthen (set_no_new_privs K (macro_errExit strerror))
       (andthen (printfM (''Initial execution; installing seccomp filter'' @ [NL]))
         (multiarch_install_filter K strerror))))
    (andthen (printfM ([TAB] @ ''argv[0] = '' @ hd argv @ ''; PID = '' @ show_int pid @ [NL]))
    (andthen (modify (\<lambda>s. s\<lparr>kern := k_system K (snprintf 1024
       (''echo -n '' @ [CHR 39, TAB, CHR 39] @ ''; grep Seccomp /proc/'' @ show_int pid @ ''/status'')) (kern s)\<rparr>))
    (andthen (modify (\<lambda>s. s\<lparr>kern := k_system K (snprintf 1024
       (''echo -n '' @ [CHR 39, TAB, CHR 39] @ ''; file -L /proc/'' @ show_int pid @ ''/exe | sed '' @
        [CHR 39] @ ''s/,.*//'' @ [CHR 39])) (kern s)\<rparr>))
    (bnd (do_syscall K libc_mq_notify) (\<lambda>r. bnd (gets errno) (\<lambda>e.
     andthen (if r = - 1 \<and> e \<noteq> EBADF then printfM (''mq_notify() failed with errno = '' @ show_int e @ [NL])
       else andthen (printfM (''mq_notify() was not failed by seccomp() filter!'' @ [NL]))
           (andthen (printfM (''*** Make sure that the NO_SECCOMP_FILTER environment variable is not set'' @ [NL]))
           (andthen (printfM (''    when running this program.'' @ [NL]))
           (andthen (printfM (''*** Otherwise, check the syscall numbers in kernel headers'' @ [NL]))
           (andthen (printfM (''    to see that they are correct'' @ [NL]))
             (exit3 EXIT_FAILURE))))))
    (if length argv > 1 then
       bnd (kcall (k_setenv K)) (\<lambda>set. andthen (whenM set (modify (\<lambda>s. s\<lparr>no_filter_var := Some ''y''\<rparr>)))
      (andthen (printfM [NL])
      (andthen (printfM (''About to exec: '' @ argv ! 1 @ [NL]))
      (bnd (kcall (k_execv K (argv ! 1) (tl argv))) (\<lambda>ok.
         if ok then stop (Exec (argv ! 1) (tl argv)) else macro_errExit strerror ''execvp'')))))
     else exit3 EXIT_SUCCESS))))))))"

section \<open>A kernel that obeys the filter\<close>

text \<open>The documented effect of each return value of a filter.\<close>

definition obeys_filter :: "'k sec_os \<Rightarrow> bool" where
  "obeys_filter K \<longleftrightarrow> (\<forall>f sd k r k'. k_syscall K (Some f) sd k = (r, k') \<longrightarrow>
     (decides f sd \<in> {Some SECCOMP_RET_KILL_PROCESS, Some SECCOMP_RET_KILL} \<longrightarrow> r = KilledBy SIGSYS) \<and>
     (\<forall>d. d < 4096 \<and> decides f sd = Some (SECCOMP_RET_ERRNO OR d) \<longrightarrow> r = Failed (uint d)) \<and>
     (decides f sd = Some SECCOMP_RET_TRAP \<longrightarrow> (\<exists>v. r = Trapped v)) \<and>
     (decides f sd \<in> {Some SECCOMP_RET_ALLOW, Some SECCOMP_RET_LOG} \<longrightarrow>
        (\<exists>v. r = Returned v) \<or> (\<exists>e. r = Failed e)))"

lemma kill_codes: "SECCOMP_RET_KILL_PROCESS \<noteq> SECCOMP_RET_ALLOW" "SECCOMP_RET_KILL \<noteq> SECCOMP_RET_ALLOW"
  by (simp_all add: sec_consts)

lemma do_syscall_killed:
  assumes "obeys_filter K" "installed s = Some f"
    "decides f sd = Some SECCOMP_RET_KILL_PROCESS"
  obtains k where "do_syscall K sd s = (Inl (Killed SIGSYS), s\<lparr>kern := k\<rparr>)"
proof -
  obtain r k where r: "k_syscall K (Some f) sd (kern s) = (r, k)" by fastforce
  then have "r = KilledBy SIGSYS" using assms(1,3) unfolding obeys_filter_def by blast
  with r assms(2) have "do_syscall K sd s = (Inl (Killed SIGSYS), s\<lparr>kern := k\<rparr>)" by (simp add: do_syscall_def)
  then show thesis by (rule that)
qed

lemma do_syscall_errno:
  assumes "obeys_filter K" "installed s = Some f"
    "decides f sd = Some (SECCOMP_RET_ERRNO OR d)" "d < 4096"
  obtains k where "do_syscall K sd s = (Inr (- 1), s\<lparr>errno := uint d, kern := k\<rparr>)"
proof -
  obtain r k where r: "k_syscall K (Some f) sd (kern s) = (r, k)" by fastforce
  then have "r = Failed (uint d)" using assms(1,3,4) unfolding obeys_filter_def by blast
  with r assms(2) have "do_syscall K sd s = (Inr (- 1), s\<lparr>errno := uint d, kern := k\<rparr>)"
    by (simp add: do_syscall_def)
  then show thesis by (rule that)
qed

lemma do_syscall_allowed:
  assumes "obeys_filter K" "installed s = Some f"
    "decides f sd = Some SECCOMP_RET_ALLOW"
  obtains v k where "do_syscall K sd s = (Inr v, s\<lparr>kern := k\<rparr>)"
  | e k where "do_syscall K sd s = (Inr (- 1), s\<lparr>errno := e, kern := k\<rparr>)"
proof -
  obtain r k where r: "k_syscall K (Some f) sd (kern s) = (r, k)" by fastforce
  then have "(\<exists>v. r = Returned v) \<or> (\<exists>e. r = Failed e)" using assms(1,3) unfolding obeys_filter_def by blast
  then show thesis
  proof (elim disjE exE)
    fix v assume "r = Returned v"
    with r assms(2) have "do_syscall K sd s = (Inr v, s\<lparr>kern := k\<rparr>)" by (simp add: do_syscall_def)
    then show thesis by (rule that(1))
  next
    fix e assume "r = Failed e"
    with r assms(2) have "do_syscall K sd s = (Inr (- 1), s\<lparr>errno := e, kern := k\<rparr>)" by (simp add: do_syscall_def)
    then show thesis by (rule that(2))
  qed
qed

lemma do_syscall_trapped:
  assumes "obeys_filter K" "installed s = Some f"
    "decides f sd = Some SECCOMP_RET_TRAP" "handler s"
  obtains v k where "do_syscall K sd s = (Inr v, sigHandler (s\<lparr>kern := k\<rparr>))"
proof -
  obtain r k where r: "k_syscall K (Some f) sd (kern s) = (r, k)" by fastforce
  then obtain v where "r = Trapped v" using assms(1,3) unfolding obeys_filter_def by blast
  with r assms(2,4) have "do_syscall K sd s = (Inr v, sigHandler (s\<lparr>kern := k\<rparr>))" by (simp add: do_syscall_def)
  then show thesis by (rule that)
qed

text \<open>Setting up: both calls succeed.\<close>

definition setup_ok :: "'k sec_os \<Rightarrow> sock_filter list \<Rightarrow> 'k \<Rightarrow> 'k \<Rightarrow> bool" where
  "setup_ok K f k k' \<longleftrightarrow> (\<exists>k1. k_prctl K k = (Inr (), k1) \<and> k_seccomp K f k1 = (Inr (), k'))"

lemma setup_runs:
  assumes "setup_ok K f (kern s) k"
  shows "andthen (set_no_new_privs K E) (andthen (install_with K E f) m) s =
    m (s\<lparr>kern := k, installed := Some f\<rparr>)"
  using assms by (auto simp: setup_ok_def set_no_new_privs_def install_with_def seccomp_def kcall_def prog_simps)

lemma stdio_noise_sec [simp]:
  "installed (stdio_noise s) = installed s" "kern (stdio_noise s) = kern s" "handler (stdio_noise s) = handler s"
  by (auto simp: stdio_noise_def split: option.splits)

lemma io_sec [simp]:
  "installed (fputs_stderr t s) = installed s" "installed (printf_stdout t s) = installed s"
  "handler (fputs_stderr t s) = handler s" "handler (printf_stdout t s) = handler s"
  by (auto simp: fputs_stderr_def printf_stdout_def)

section \<open>Opening files under the filters\<close>

text \<open>The two ways a C library implements \<^verbatim>\<open>open(path, flags)\<close>.\<close>

definition opens_file :: "(string \<Rightarrow> 32 word \<Rightarrow> seccomp_data) \<Rightarrow> bool" where
  "opens_file libc_open \<longleftrightarrow> (\<forall>path flags. let sd = libc_open path flags in sd_arch sd = AUDIT_ARCH_X86_64 \<and>
     (sd_nr sd = NR_open \<and> lo32 (sd_args sd 1) = flags \<or> sd_nr sd = NR_openat \<and> lo32 (sd_args sd 2) = flags))"

lemma opens_native: "opens_file libc_open \<Longrightarrow> native (libc_open path flags)"
  unfolding opens_file_def native_def Let_def
  by (elim allE [where x = path] allE [where x = flags]) (auto simp: NR_open_def NR_openat_def)

lemma control_open_on_open:
  assumes "opens_file libc_open"
  shows "decides control_open_filter (libc_open path flags) = Some
     (if flags AND O_CREAT \<noteq> 0 then SECCOMP_RET_KILL_PROCESS
      else if flags AND (O_WRONLY OR O_RDWR) \<noteq> 0 then SECCOMP_RET_ERRNO OR ENOTSUP
      else SECCOMP_RET_ALLOW)"
proof -
  let ?sd = "libc_open path flags"
  have "sd_nr ?sd = NR_open \<and> lo32 (sd_args ?sd 1) = flags \<or> sd_nr ?sd = NR_openat \<and> lo32 (sd_args ?sd 2) = flags"
    using assms unfolding opens_file_def Let_def by blast
  then show ?thesis
    using opens_native [OF assms, of path flags]
    by (auto simp: control_open_decision Let_def NR_open_def NR_openat_def)
qed

lemma open_refused:
  assumes "obeys_filter K" "installed s = Some f" "decides f sd = Some (SECCOMP_RET_ERRNO OR ENOTSUP)"
  obtains s' where "open_or_perror K strerror sd msg s = (Inr (), s')" "installed s' = Some f"
    "stderr_out s' = stderr_out s @ msg @ '': '' @ strerror 95 @ [NL]" "stdout_out s' = stdout_out s"
proof -
  obtain k where "do_syscall K sd s = (Inr (- 1), s\<lparr>errno := uint ENOTSUP, kern := k\<rparr>)"
    by (rule do_syscall_errno [OF assms]) (simp_all add: ENOTSUP_def)
  then show thesis
    by (intro that [of "perror strerror msg (s\<lparr>errno := uint ENOTSUP, kern := k\<rparr>)"])
      (simp_all add: open_or_perror_def bnd_apply perror_def assms(2) ENOTSUP_def)
qed

lemma open_allowed:
  assumes "obeys_filter K" "installed s = Some f" "decides f sd = Some SECCOMP_RET_ALLOW"
  obtains s' t where "open_or_perror K strerror sd msg s = (Inr (), s')" "installed s' = Some f"
    "stderr_out s' = stderr_out s @ t" "t = [] \<or> (\<exists>e. t = msg @ '': '' @ strerror e @ [NL])" "stdout_out s' = stdout_out s"
proof (rule do_syscall_allowed [OF assms])
  fix v k assume v: "do_syscall K sd s = (Inr v, s\<lparr>kern := k\<rparr>)"
  show thesis
  proof (cases "v = - 1")
    case True
    with v show thesis
      by (intro that [of "perror strerror msg (s\<lparr>kern := k\<rparr>)" "msg @ '': '' @ strerror (errno s) @ [NL]"])
        (auto simp: open_or_perror_def bnd_apply perror_def assms(2))
  next
    case False
    with v show thesis
      by (intro that [of "s\<lparr>kern := k\<rparr>" "[]"]) (auto simp: open_or_perror_def bnd_apply assms(2))
  qed
next
  fix e k assume "do_syscall K sd s = (Inr (- 1), s\<lparr>errno := e, kern := k\<rparr>)"
  then show thesis
    by (intro that [of "perror strerror msg (s\<lparr>errno := e, kern := k\<rparr>)" "msg @ '': '' @ strerror e @ [NL]"])
      (auto simp: open_or_perror_def bnd_apply perror_def assms(2))
qed

lemma flag_tests:
  "(0 :: 32 word) AND w = 0" "O_WRONLY AND O_CREAT = 0" "O_RDWR AND O_CREAT = 0"
  "O_WRONLY AND (O_WRONLY OR O_RDWR) \<noteq> 0" "O_RDWR AND (O_WRONLY OR O_RDWR) \<noteq> 0"
  "(O_CREAT OR O_RDWR) AND O_CREAT \<noteq> 0"
  by (simp_all add: sec_consts)

text \<open>C24. \<^verbatim>\<open>seccomp_control_open\<close> under a kernel that obeys its filter, whether the C library opens files
  with \<^verbatim>\<open>open\<close> or \<^verbatim>\<open>openat\<close>: opening for reading is left to the kernel, the two attempts to open for
  writing fail with \<^verbatim>\<open>ENOTSUP\<close> (95) and are reported, and the attempt to create a file kills the
  process.\<close>

theorem control_open_main_killed:
  assumes K: "obeys_filter K" and prep: "setup_ok K control_open_filter (kern s) k"
    and opens: "opens_file libc_open"
  shows "\<exists>t s'. control_open_main K strerror libc_open s = (Inl (Killed SIGSYS), s')
    \<and> stderr_out s' = stderr_out s @ t @ ''open2: '' @ strerror 95 @ [NL] @ ''open3: '' @ strerror 95 @ [NL]
    \<and> (t = [] \<or> (\<exists>e. t = ''open1: '' @ strerror e @ [NL])) \<and> stdout_out s' = stdout_out s"
proof -
  let ?s0 = "s\<lparr>kern := k, installed := Some control_open_filter\<rparr>"
  let ?open = "libc_open ''/tmp/a''"
  note dec = control_open_on_open [OF opens]
  obtain s1 t where s1: "open_or_perror K strerror (?open 0) ''open1'' ?s0 = (Inr (), s1)"
      "installed s1 = Some control_open_filter" "stderr_out s1 = stderr_out s @ t"
      "t = [] \<or> (\<exists>e. t = ''open1'' @ '': '' @ strerror e @ [NL])" "stdout_out s1 = stdout_out s"
    by (rule open_allowed [of K ?s0 control_open_filter "?open 0" strerror "''open1''"])
      (use K dec flag_tests in auto)
  obtain s2 where s2: "open_or_perror K strerror (?open O_WRONLY) ''open2'' s1 = (Inr (), s2)"
      "installed s2 = Some control_open_filter"
      "stderr_out s2 = stderr_out s1 @ ''open2'' @ '': '' @ strerror 95 @ [NL]" "stdout_out s2 = stdout_out s1"
    by (rule open_refused [of K s1 control_open_filter "?open O_WRONLY" strerror "''open2''"])
      (use K s1(2) dec flag_tests in auto)
  obtain s3 where s3: "open_or_perror K strerror (?open O_RDWR) ''open3'' s2 = (Inr (), s3)"
      "installed s3 = Some control_open_filter"
      "stderr_out s3 = stderr_out s2 @ ''open3'' @ '': '' @ strerror 95 @ [NL]" "stdout_out s3 = stdout_out s2"
    by (rule open_refused [of K s2 control_open_filter "?open O_RDWR" strerror "''open3''"])
      (use K s2(2) dec flag_tests in auto)
  obtain k' where k': "do_syscall K (?open (O_CREAT OR O_RDWR)) s3 = (Inl (Killed SIGSYS), s3\<lparr>kern := k'\<rparr>)"
    by (rule do_syscall_killed [OF K s3(2), of "?open (O_CREAT OR O_RDWR)"]) (use dec flag_tests in auto)
  have "control_open_main K strerror libc_open s = (Inl (Killed SIGSYS), s3\<lparr>kern := k'\<rparr>)"
    unfolding control_open_main_def control_open_install_filter_def setup_runs [OF prep]
    by (simp add: andthen_apply s1(1) s2(1) s3(1) open_or_perror_def [of K strerror "?open (O_CREAT OR O_RDWR)"]
        bnd_apply k')
  then show ?thesis using s1 s2 s3 by auto
qed

text \<open>\<^verbatim>\<open>seccomp_deny_open\<close>: under a kernel that obeys the filter the process is killed by its call of
  \<^verbatim>\<open>open\<close>, without having written anything.\<close>

theorem deny_open_main_killed:
  assumes K: "obeys_filter K" and prep: "setup_ok K deny_open_filter (kern s) k"
    and opens: "opens_file libc_open"
  shows "\<exists>s'. deny_open_main K strerror libc_open s = (Inl (Killed SIGSYS), s')
    \<and> stderr_out s' = stderr_out s \<and> stdout_out s' = stdout_out s \<and> stdout_buf s' = stdout_buf s"
proof -
  let ?sd = "libc_open ''/tmp/a'' 0"
  have "sd_nr ?sd \<in> {NR_open, NR_openat}" using opens unfolding opens_file_def Let_def by blast
  then have "decides deny_open_filter ?sd = Some SECCOMP_RET_KILL_PROCESS" by (simp add: deny_open_decision)
  moreover have "installed (s\<lparr>kern := k, installed := Some deny_open_filter\<rparr>) = Some deny_open_filter" by simp
  ultimately obtain k' where "do_syscall K ?sd (s\<lparr>kern := k, installed := Some deny_open_filter\<rparr>) =
      (Inl (Killed SIGSYS), s\<lparr>kern := k, installed := Some deny_open_filter\<rparr>\<lparr>kern := k'\<rparr>)"
    using do_syscall_killed [OF K] by blast
  then show ?thesis
    unfolding deny_open_main_def deny_open_install_filter_def setup_runs [OF prep] by (simp add: bnd_apply)
qed

text \<open>\<^verbatim>\<open>seccomp_trap_sigsys\<close>: the call of \<^verbatim>\<open>getppid\<close> runs the handler instead of the system call, after
  which the program goes on; its whole output is in this order, and it ends successfully.\<close>

theorem trap_main_continues:
  assumes K: "obeys_filter K" and prep: "setup_ok K trap_filter (kern s) k"
    and sa: "k_sigaction K k = (Inr (), k1)"
    and gp: "sd_arch libc_getppid = AUDIT_ARCH_X86_64" "sd_nr libc_getppid = NR_getppid"
  shows "\<exists>s'. trap_main K strerror libc_getppid s = (Inl (Exit EXIT_SUCCESS), s')
    \<and> stdout_out s' = stdout_out s @ stdout_buf s @
        ''About to call getppid()'' @ [NL] @ ''SIGSYS!'' @ [NL] @ ''Bye'' @ [NL]"
proof -
  let ?s0 = "s\<lparr>installed := Some trap_filter, kern := k1, handler := True\<rparr>"
  let ?s1 = "printf_stdout (''About to call getppid()'' @ [NL]) ?s0"
  have "decides trap_filter libc_getppid = Some SECCOMP_RET_TRAP"
    using gp by (simp add: trap_decision native_def NR_getppid_def)
  moreover have "installed ?s1 = Some trap_filter" "handler ?s1" by (simp_all del: append.simps)
  ultimately obtain v k' where d: "do_syscall K libc_getppid ?s1 = (Inr v, sigHandler (?s1\<lparr>kern := k'\<rparr>))"
    using do_syscall_trapped [OF K] by blast
  have "trap_main K strerror libc_getppid s =
      exit3 EXIT_SUCCESS (printf_stdout (''Bye'' @ [NL]) (sigHandler (?s1\<lparr>kern := k'\<rparr>)))"
    unfolding trap_main_def trap_install_filter_def setup_runs [OF prep]
    by (simp add: bnd_apply andthen_apply kcall_def sa printfM_def d [simplified])
  then show ?thesis by (simp add: exit3_def sigHandler_def)
qed


section \<open>Seeking under the argument filter\<close>

text \<open>The filter of \<^verbatim>\<open>seccomp_arg64\<close> compares a 64-bit argument through its two 32-bit halves: it fails
  \<^verbatim>\<open>lseek\<close> with errno 2 exactly for offsets of at least 2^32 and with errno 1 exactly for other offsets above
  1000, allows every other native x86-64 call and kills on any other.\<close>

theorem arg64_filter_decides:
  "decides arg64_filter sd = Some
     (let offset = unat (sd_args sd 1) in
      if sd_arch sd = AUDIT_ARCH_X86_64 \<and> unat (sd_nr sd) < 2 ^ 30 then
        (if sd_nr sd = NR_lseek then
           (if offset \<ge> 2 ^ 32 then SECCOMP_RET_ERRNO OR 2
            else if offset > 1000 then SECCOMP_RET_ERRNO OR 1
            else SECCOMP_RET_ALLOW)
         else SECCOMP_RET_ALLOW)
      else SECCOMP_RET_KILL_PROCESS)"
  unfolding arg64_decision_words native_def Let_def using arg64_halves [of "sd_args sd 1"] by auto

text \<open>The filter of \<^verbatim>\<open>seccomp_multiarch\<close>, on all data: exactly the three \<^verbatim>\<open>mq_notify\<close> numbers of the x86-64, x32 and i386
  interfaces fail, each with its own number as error number; other calls of these interfaces are allowed,
  and any other architecture kills the process.\<close>

theorem multiarch_filter_decides:
  "decides multiarch_filter sd = Some
     (if sd_arch sd = AUDIT_ARCH_X86_64 \<and> sd_nr sd = 244 then SECCOMP_RET_ERRNO OR 244
      else if sd_arch sd = AUDIT_ARCH_X86_64 \<and> sd_nr sd = 2 ^ 30 + 527 then SECCOMP_RET_ERRNO OR 527
      else if sd_arch sd = AUDIT_ARCH_I386 \<and> sd_nr sd = 281 then SECCOMP_RET_ERRNO OR 281
      else if sd_arch sd \<in> {AUDIT_ARCH_X86_64, AUDIT_ARCH_I386} then SECCOMP_RET_ALLOW
      else SECCOMP_RET_KILL_PROCESS)"
  by (auto simp: multiarch_decision sec_consts)

definition lseeks :: "(int \<Rightarrow> 64 word \<Rightarrow> seccomp_data) \<Rightarrow> bool" where
  "lseeks libc_lseek \<longleftrightarrow> (\<forall>fd offset. let sd = libc_lseek fd offset in
     sd_arch sd = AUDIT_ARCH_X86_64 \<and> sd_nr sd = NR_lseek \<and> sd_args sd 1 = offset)"

lemma arg64_on_lseek:
  assumes "lseeks libc_lseek"
  shows "decides arg64_filter (libc_lseek fd offset) = Some
     (if unat offset \<ge> 2 ^ 32 then SECCOMP_RET_ERRNO OR 2
      else if unat offset > 1000 then SECCOMP_RET_ERRNO OR 1 else SECCOMP_RET_ALLOW)"
proof -
  have "sd_arch (libc_lseek fd offset) = AUDIT_ARCH_X86_64" "sd_nr (libc_lseek fd offset) = NR_lseek"
    "sd_args (libc_lseek fd offset) 1 = offset" using assms unfolding lseeks_def Let_def by blast+
  then show ?thesis
    unfolding arg64_decision_words native_def using arg64_halves [of offset] by (auto simp: NR_lseek_def)
qed

lemma seek_refused:
  assumes "obeys_filter K" "installed s = Some f"
    "decides f (libc_lseek fd (word_of_int offset)) = Some (SECCOMP_RET_ERRNO OR d)" "d < 4096"
  obtains s' where "seek_test K libc_lseek fd offset s = (Inr (), s')" "installed s' = Some f"
    "stdout_buf s' = stdout_buf s @ ''Seek to byte '' @ show_int offset @ '': failed with errno = '' @ show_int (uint d) @ [NL]"
    "stdout_out s' = stdout_out s"
proof -
  let ?s1 = "printf_stdout (''Seek to byte '' @ show_int offset @ '': '') s"
  have i: "installed ?s1 = Some f" using assms(2) by simp
  obtain k where k: "do_syscall K (libc_lseek fd (word_of_int offset)) ?s1 = (Inr (- 1), ?s1\<lparr>errno := uint d, kern := k\<rparr>)"
    by (rule do_syscall_errno [OF assms(1) i assms(3,4)])
  let ?s2 = "printf_stdout (''failed with errno = '' @ show_int (uint d) @ [NL]) (?s1\<lparr>errno := uint d, kern := k\<rparr>)"
  have "seek_test K libc_lseek fd offset s = (Inr (), ?s2)"
    unfolding seek_test_def printfM_def andthen_modify
      bnd_Inr [where m = "do_syscall K (libc_lseek fd (word_of_int offset))", OF k] by simp
  then show thesis by (rule that) (simp_all add: assms(2))
qed

text \<open>\<^verbatim>\<open>seccomp_arg64\<close> from start to end, when the file opens and seeking to 0 gives 0: its output shows the
  first seek done and the other two refused by the filter with errno 1 and errno 2.\<close>

theorem arg64_main_reports:
  assumes K: "obeys_filter K" and prep: "setup_ok K arg64_filter (kern s) k"
    and lseek: "lseeks libc_lseek"
    and "open": "k_syscall K (Some arg64_filter) (libc_open ''/dev/zero'' O_RDWR) k = (Returned fd, k1)" "fd \<noteq> - 1"
    and zero: "k_syscall K (Some arg64_filter) (libc_lseek fd 0) k1 = (Returned 0, k2)"
  shows "\<exists>s'. arg64_main K strerror libc_open libc_lseek s = (Inl (Exit EXIT_SUCCESS), s')
    \<and> stdout_out s' = stdout_out s @ stdout_buf s @ ''Seek to byte 0: succeeded'' @ [NL] @
        ''Seek to byte 10000: failed with errno = 1'' @ [NL] @
        ''Seek to byte 4294967297: failed with errno = 2'' @ [NL]"
proof -
  let ?s0 = "s\<lparr>kern := k1, installed := Some arg64_filter\<rparr>"
  let ?s1 = "printf_stdout (''succeeded'' @ [NL]) ((printf_stdout (''Seek to byte 0: '') ?s0)\<lparr>kern := k2\<rparr>)"
  have sh: "show_int 0 = ''0''" "show_int 10000 = ''10000''" "show_int 1 = ''1''" "show_int 2 = ''2''"
    "show_int 0x100000001 = ''4294967297''"
    by (simp_all add: show_int_def show_nat_def show_base.simps digit_char_def char_of_def bit_0)
  note dec = arg64_on_lseek [OF lseek]
  have kern: "kern (printf_stdout t s) = kern s" for t and s :: "'a sec_st" by (simp add: printf_stdout_def)
  have s1: "seek_test K libc_lseek fd 0 ?s0 = (Inr (), ?s1)"
    by (simp add: seek_test_def printfM_def sh do_syscall_def kern zero bnd_apply)
  obtain s2 where s2: "seek_test K libc_lseek fd 10000 ?s1 = (Inr (), s2)" "installed s2 = Some arg64_filter"
      "stdout_buf s2 = stdout_buf ?s1 @ ''Seek to byte '' @ show_int 10000 @ '': failed with errno = '' @ show_int (uint (1 :: 32 word)) @ [NL]"
      "stdout_out s2 = stdout_out ?s1"
    by (rule seek_refused [OF K, of ?s1 arg64_filter libc_lseek fd 10000 1]) (simp_all add: dec)
  obtain s3 where s3: "seek_test K libc_lseek fd 0x100000001 s2 = (Inr (), s3)"
      "stdout_buf s3 = stdout_buf s2 @ ''Seek to byte '' @ show_int 0x100000001 @ '': failed with errno = '' @ show_int (uint (2 :: 32 word)) @ [NL]"
      "stdout_out s3 = stdout_out s2"
    by (rule seek_refused [OF K s2(2), of libc_lseek fd "0x100000001" 2]) (simp_all add: dec)
  have op1: "do_syscall K (libc_open ''/dev/zero'' O_RDWR) (s\<lparr>kern := k, installed := Some arg64_filter\<rparr>) = (Inr fd, ?s0)"
    by (simp add: do_syscall_def "open")
  have "arg64_main K strerror libc_open libc_lseek s = exit3 EXIT_SUCCESS s3"
    unfolding arg64_main_def arg64_install_filter_def setup_runs [OF prep] bnd_Inr [where m = "do_syscall K (libc_open ''/dev/zero'' O_RDWR)", OF op1]
    by (simp add: "open"(2) andthen_apply s1 [simplified] s2(1) [simplified] s3(1) [simplified])
  then show ?thesis using s2(3,4) s3(2,3) by (simp add: exit3_def sh)
qed

section \<open>A concrete kernel\<close>

definition obedient :: "unit sec_os" where
  "obedient = \<lparr>k_prctl = \<lambda>k. (Inr (), k), k_seccomp = \<lambda>f k. (Inr (), k),
     k_syscall = \<lambda>f sd k. (case f of None \<Rightarrow> Returned 0 | Some f \<Rightarrow> (case decides f sd of None \<Rightarrow> KilledBy SIGSYS
       | Some v \<Rightarrow> if v = SECCOMP_RET_KILL_PROCESS \<or> v = SECCOMP_RET_KILL then KilledBy SIGSYS
           else if v AND 0xffff0000 = SECCOMP_RET_ERRNO then Failed (uint (v AND 0xffff))
           else if v AND 0xffff0000 = SECCOMP_RET_TRAP then Trapped 0 else Returned 0), k),
     k_sigaction = \<lambda>k. (Inr (), k), k_setenv = \<lambda>k. (Inr (), k), k_system = \<lambda>_ k. k,
     k_execv = \<lambda>_ _ k. (Inl 2, k)\<rparr>"

lemma errno_fields:
  assumes "(d :: 32 word) < 4096"
  shows "(SECCOMP_RET_ERRNO OR d) AND 0xffff0000 = SECCOMP_RET_ERRNO" "(SECCOMP_RET_ERRNO OR d) AND 0xffff = d"
proof -
  have "take_bit 12 (unat d) = unat d" using assms by (intro take_bit_nat_eq_self) (simp add: word_less_nat_alt)
  then have "take_bit 12 d = d" by (simp add: word_unat_eq_iff unsigned_take_bit_eq)
  then have d: "d = d AND 0xfff" by (simp add: take_bit_eq_mask mask_eq_exp_minus_1)
  have "d AND 0xffff0000 = 0" by (subst d) (simp add: and.assoc)
  moreover have "d AND 0xffff = d" by (subst d, subst (2) d) (simp add: and.assoc)
  ultimately show "(SECCOMP_RET_ERRNO OR d) AND 0xffff0000 = SECCOMP_RET_ERRNO" "(SECCOMP_RET_ERRNO OR d) AND 0xffff = d"
    by (simp_all add: bit.conj_disj_distrib2 SECCOMP_RET_ERRNO_def)
qed

lemma errno_not_kill:
  assumes "(d :: 32 word) < 4096"
  shows "SECCOMP_RET_ERRNO OR d \<noteq> SECCOMP_RET_KILL_PROCESS" "SECCOMP_RET_ERRNO OR d \<noteq> SECCOMP_RET_KILL"
  using errno_fields(1) [OF assms] by (auto simp: sec_consts)

lemma obedient_obeys: "obeys_filter obedient"
  unfolding obeys_filter_def obedient_def
  using errno_fields errno_not_kill by (auto simp: SECCOMP_RET_KILL_PROCESS_def SECCOMP_RET_KILL_def
    SECCOMP_RET_TRAP_def SECCOMP_RET_ALLOW_def SECCOMP_RET_LOG_def SECCOMP_RET_ERRNO_def split: if_splits)

definition sample_sec :: "unit sec_st" where
  "sample_sec = \<lparr>stdout_buf = [], stdout_out = [], stderr_out = [], errno = 0, ef_dumpcore = None, stdio_errno = Some 25,
     installed = None, handler = False, no_filter_var = None, kern = ()\<rparr>"

definition sample_openat :: "string \<Rightarrow> 32 word \<Rightarrow> seccomp_data" where
  "sample_openat path flags = \<lparr>sd_nr = NR_openat, sd_arch = AUDIT_ARCH_X86_64, sd_ip = 0,
     sd_args = \<lambda>i. if i = 2 then ucast flags else 0\<rparr>"

definition sample_lseek :: "int \<Rightarrow> 64 word \<Rightarrow> seccomp_data" where
  "sample_lseek fd offset = \<lparr>sd_nr = NR_lseek, sd_arch = AUDIT_ARCH_X86_64, sd_ip = 0,
     sd_args = \<lambda>i. if i = 1 then offset else 0\<rparr>"

definition sample_getppid :: seccomp_data where
  "sample_getppid = \<lparr>sd_nr = NR_getppid, sd_arch = AUDIT_ARCH_X86_64, sd_ip = 0, sd_args = \<lambda>_. 0\<rparr>"

lemma lo32_ucast: "lo32 (ucast w) = w"
  unfolding lo32_def by (rule bit_word_eqI) (simp add: bit_simps)

lemma sample_opens: "opens_file sample_openat"
  by (simp add: opens_file_def sample_openat_def Let_def lo32_ucast)

lemma sample_seeks: "lseeks sample_lseek"
  by (simp add: lseeks_def sample_lseek_def)

lemma obedient_setup: "setup_ok obedient f (kern sample_sec) ()"
  by (simp add: setup_ok_def obedient_def)

theorem control_open_main_killed_witness:
  "\<exists>t s'. control_open_main obedient (\<lambda>_. ''no'') sample_openat sample_sec = (Inl (Killed SIGSYS), s')
    \<and> stderr_out s' = t @ ''open2: no'' @ [NL] @ ''open3: no'' @ [NL]
    \<and> (t = [] \<or> (\<exists>e :: int. t = ''open1: no'' @ [NL])) \<and> stdout_out s' = []"
  using control_open_main_killed [OF obedient_obeys obedient_setup sample_opens, of "\<lambda>_. ''no''"]
  by (simp add: sample_sec_def)

theorem deny_open_main_killed_witness:
  "\<exists>s'. deny_open_main obedient (\<lambda>_. ''no'') sample_openat sample_sec = (Inl (Killed SIGSYS), s')
    \<and> stderr_out s' = [] \<and> stdout_out s' = [] \<and> stdout_buf s' = []"
  using deny_open_main_killed [OF obedient_obeys obedient_setup sample_opens, of "\<lambda>_. ''no''"]
  by (simp add: sample_sec_def)

theorem trap_main_continues_witness:
  "\<exists>s'. trap_main obedient (\<lambda>_. ''no'') sample_getppid sample_sec = (Inl (Exit EXIT_SUCCESS), s')
    \<and> stdout_out s' = ''About to call getppid()'' @ [NL] @ ''SIGSYS!'' @ [NL] @ ''Bye'' @ [NL]"
proof -
  have "k_sigaction obedient () = (Inr (), ())" by (simp add: obedient_def)
  moreover have "sd_arch sample_getppid = AUDIT_ARCH_X86_64" "sd_nr sample_getppid = NR_getppid"
    by (simp_all add: sample_getppid_def)
  ultimately show ?thesis
    using trap_main_continues [OF obedient_obeys obedient_setup, of "()" sample_getppid "\<lambda>_. ''no''"]
    by (simp add: sample_sec_def)
qed

theorem arg64_main_reports_witness:
  "\<exists>s'. arg64_main obedient (\<lambda>_. ''no'') sample_openat sample_lseek sample_sec = (Inl (Exit EXIT_SUCCESS), s')
    \<and> stdout_out s' = ''Seek to byte 0: succeeded'' @ [NL] @ ''Seek to byte 10000: failed with errno = 1'' @ [NL] @
        ''Seek to byte 4294967297: failed with errno = 2'' @ [NL]"
proof -
  have al: "decides arg64_filter (sample_openat p fl) = Some SECCOMP_RET_ALLOW" for p fl
    by (simp add: arg64_decision_words native_def sample_openat_def NR_openat_def NR_lseek_def)
  have "k_syscall obedient (Some arg64_filter) (sample_openat ''/dev/zero'' O_RDWR) () = (Returned 0, ())"
    unfolding obedient_def by (simp add: al) (simp add: sec_consts)
  moreover have "k_syscall obedient (Some arg64_filter) (sample_lseek 0 0) () = (Returned 0, ())"
    unfolding obedient_def by (simp add: arg64_on_lseek [OF sample_seeks]) (simp add: sec_consts)
  ultimately show ?thesis
    using arg64_main_reports [OF obedient_obeys obedient_setup sample_seeks, of sample_openat 0 "()" "()" "\<lambda>_. ''no''"]
    by (simp add: sample_sec_def)
qed

end
