(* ===== verification/Execlp.thy ===== *)
theory Execlp
  imports Environ
begin

text \<open>
  \<^verbatim>\<open>tlpi-book/procexec/execlp.c\<close>: an implementation of \<^verbatim>\<open>execlp\<close>. The argument vector is the allocated
  array itself (a list as long as the block), so that an access beyond it shows as undefined behaviour.
  \<^verbatim>\<open>execve\<close> is an argument, \<open>X path argv envp\<close>: \<open>None\<close> when it succeeds, which ends the computation with
  \<open>Exec\<close>, and \<open>Some e\<close> when it fails with error \<open>e\<close>; so is whether each allocation succeeds. The state is
  \<^verbatim>\<open>errno\<close> and the list of the pathnames passed to \<^verbatim>\<open>execve\<close>.
\<close>

definition ENOEXEC :: int where [const_defs]: "ENOEXEC = 8"
definition EFAULT :: int where [const_defs]: "EFAULT = 14"

record exec_st =
  x_errno :: int
  tried :: "string option list"

record mem =
  calloc_argv :: bool
  realloc_argv :: bool
  calloc_envp :: bool
  strdup_ok :: "string \<Rightarrow> bool"
  malloc_ok :: "nat \<Rightarrow> bool"

type_synonym execve = "string \<Rightarrow> string list \<Rightarrow> string list \<Rightarrow> int option"

definition SHELL_PATH :: string where "SHELL_PATH = ''/bin/sh''"

definition do_execve :: "execve \<Rightarrow> string option \<Rightarrow> env_array \<Rightarrow> env_array \<Rightarrow> (exec_st, unit) prog" where
  "do_execve X pathname argv envp s =
     (let s1 = s\<lparr>tried := tried s @ [pathname]\<rparr> in
      case pathname of
        None \<Rightarrow> (Inr (), s1\<lparr>x_errno := EFAULT\<rparr>)
      | Some p \<Rightarrow> (case X p (entries argv) (entries envp) of
          None \<Rightarrow> (Inl (Exec p (entries argv)), s1)
        | Some e \<Rightarrow> (Inr (), s1\<lparr>x_errno := e\<rparr>)))"

text \<open>The copying loop of \<^verbatim>\<open>execShScript\<close>, over the remaining values of \<^verbatim>\<open>j\<close>.\<close>

primrec sh_fill :: "nat list \<Rightarrow> env_array \<Rightarrow> env_array \<Rightarrow> ('s, env_array) prog" where
  "sh_fill [] argv shArgv = ret shArgv"
| "sh_fill (j # js) argv shArgv =
     (if length argv \<le> j \<or> length shArgv \<le> j + 1 then stop Undef
      else sh_fill js argv (shArgv[j + 1 := argv ! j]))"

definition execShScript :: "execve \<Rightarrow> nat \<Rightarrow> env_array \<Rightarrow> env_array \<Rightarrow> (exec_st, unit) prog" where
  "execShScript X argc argv envp =
     bnd (sh_fill [0..<argc + 1] argv ((replicate (argc + 1) None)[0 := Some SHELL_PATH])) (\<lambda>shArgv.
       do_execve X (Some SHELL_PATH) shArgv envp)"

text \<open>The loop that builds \<^verbatim>\<open>argv\<close> from the remaining arguments \<open>va\<close>; \<open>None\<close> stands for \<^verbatim>\<open>return -1\<close>. The
  reallocation asks for one pointer, whatever \<^verbatim>\<open>argvSize\<close> is.\<close>

primrec build_argv ::
  "mem \<Rightarrow> string option list \<Rightarrow> env_array \<Rightarrow> nat \<Rightarrow> nat \<Rightarrow> ('s, (env_array \<times> nat) option) prog" where
  "build_argv M [] argv argc argvSize =
     (if argv ! (argc - 1) = None then ret (Some (argv, argc)) else stop Undef)"
| "build_argv M (x # va) argv argc argvSize =
     (if argv ! (argc - 1) = None then ret (Some (argv, argc))
      else if argc + 1 \<ge> argvSize \<and> \<not> realloc_argv M then ret None
      else let nargv = (if argc + 1 \<ge> argvSize then take 1 argv else argv);
               size = (if argc + 1 \<ge> argvSize then argvSize + 100 else argvSize)
           in if argc < length nargv then build_argv M va (nargv[argc := x]) (argc + 1) size
              else stop Undef)"

text \<open>One \<^verbatim>\<open>execve\<close> attempt with its error handling: the new values of \<^verbatim>\<open>savedErrno\<close> and \<^verbatim>\<open>fndEACCES\<close>.\<close>

definition try_exec ::
  "execve \<Rightarrow> string option \<Rightarrow> nat \<Rightarrow> env_array \<Rightarrow> env_array \<Rightarrow> bool \<Rightarrow> (exec_st, int \<times> bool) prog" where
  "try_exec X pathname argc argv envp fndEACCES =
     bnd (do_execve X pathname argv envp) (\<lambda>_.
     bnd (gets x_errno) (\<lambda>savedErrno.
       if savedErrno = EACCES then ret (savedErrno, True)
       else if savedErrno = ENOEXEC
       then bnd (execShScript X argc argv envp) (\<lambda>_. ret (savedErrno, fndEACCES))
       else ret (savedErrno, fndEACCES)))"

text \<open>The pathname built from a prefix.\<close>

definition join_path :: "string \<Rightarrow> string \<Rightarrow> string" where
  "join_path prefix filename = (if prefix = [] then ''.'' else prefix) @ ''/'' @ filename"

function path_loop ::
  "execve \<Rightarrow> mem \<Rightarrow> string \<Rightarrow> nat \<Rightarrow> env_array \<Rightarrow> env_array \<Rightarrow> string \<Rightarrow> bool \<Rightarrow> (exec_st, int \<times> bool) prog" where
  "path_loop X M filename argc argv envp prStart fndEACCES =
     (case strchr prStart (CHR '':'') of
        None \<Rightarrow>
          if \<not> malloc_ok M (max 1 (length prStart) + length filename + 2) then stop Undef
          else try_exec X (Some (join_path prStart filename)) argc argv envp fndEACCES
      | Some (prefix, prEnd) \<Rightarrow>
          if \<not> malloc_ok M (max 1 (length prefix) + length filename + 2) then stop Undef
          else bnd (try_exec X (Some (join_path prefix filename)) argc argv envp fndEACCES) (\<lambda>r.
            path_loop X M filename argc argv envp (tl prEnd) (snd r)))"
  by pat_completeness auto
termination
  by (relation "measure (\<lambda>(_, _, _, _, _, _, s, _). length s)") (auto dest: strchr_shrinks)

declare path_loop.simps [simp del]

text \<open>\<open>args\<close>: \<^verbatim>\<open>arg\<close> and the further arguments before the null pointer that ends the list.\<close>

definition exec_file :: "execve \<Rightarrow> mem \<Rightarrow> string \<Rightarrow> nat \<Rightarrow> env_array \<Rightarrow> env_array \<Rightarrow> env_array \<Rightarrow> (exec_st, int \<times> bool) prog" where
  "exec_file X M filename argc argv envp environ =
     (if strchr filename (CHR ''/'') \<noteq> None
      then bnd (try_exec X (if strdup_ok M filename then Some filename else None) argc argv envp False)
        (\<lambda>r. ret (fst r, False))
      else let p = getenv ''PATH'' environ;
               path = (if p = None \<or> p = Some [] then ''.'' else the p)
           in if \<not> strdup_ok M path then stop Undef
              else path_loop X M filename argc argv envp path False)"

definition execlp :: "execve \<Rightarrow> mem \<Rightarrow> env_array \<Rightarrow> string \<Rightarrow> string list \<Rightarrow> (exec_st, int) prog" where
  "execlp X M environ filename args =
     (if \<not> calloc_argv M then bnd (modify (\<lambda>s. s\<lparr>x_errno := ENOMEM\<rparr>)) (\<lambda>_. ret (- 1))
      else let arg = hd (map Some args @ [None]); va = tl (map Some args @ [None]) in
        bnd (build_argv M va ((replicate 100 None)[0 := arg]) 1 100) (\<lambda>r. case r of
          None \<Rightarrow> bnd (modify (\<lambda>s. s\<lparr>x_errno := ENOMEM\<rparr>)) (\<lambda>_. ret (- 1))
        | Some (argv, argc) \<Rightarrow>
            if \<not> calloc_envp M then bnd (modify (\<lambda>s. s\<lparr>x_errno := ENOMEM\<rparr>)) (\<lambda>_. ret (- 1))
            else let envp = map (\<lambda>e. if strdup_ok M e then Some e else None) (entries environ) @ [None] in
              bnd (exec_file X M filename argc argv envp environ) (\<lambda>r.
              bnd (modify (\<lambda>s. s\<lparr>x_errno := if snd r then EACCES else fst r\<rparr>)) (\<lambda>_.
              ret (- 1)))))"

section \<open>The argument vector\<close>

text \<open>Fewer than 99 arguments fit the first allocation.\<close>

lemma build_argv_fits:
  assumes "length (done @ args) \<le> 98" "done \<noteq> []"
  shows "build_argv M (map Some args @ [None]) (map Some done @ replicate (100 - length done) None) (length done) 100 =
    ret (Some (map Some (done @ args) @ replicate (100 - length (done @ args)) None, length (done @ args) + 1))"
  using assms
proof (induction args arbitrary: "done")
  case Nil
  have "(map Some done @ replicate (100 - length done) None)[length done := None] =
      map Some done @ replicate (100 - length done) None"
    using Nil by (simp add: list_update_append list_update_same_conv)
  moreover have "(map Some done @ replicate (100 - length done) None) ! (length done - Suc 0) \<noteq> None"
    using Nil by (simp add: nth_append)
  ultimately show ?case using Nil by (simp add: Let_def nth_append)
next
  case (Cons x args)
  have r: "replicate (100 - length done) None = None # replicate (99 - length done) None"
    using Cons.prems(1) by (simp add: Suc_diff_le flip: replicate_Suc)
  have "(map Some done @ replicate (100 - length done) None)[length done := Some x] =
      map Some (done @ [x]) @ replicate (100 - length (done @ [x])) None"
    using Cons.prems by (simp add: r list_update_append)
  moreover have "(map Some done @ replicate (100 - length done) None) ! (length done - Suc 0) \<noteq> None"
    using Cons.prems by (simp add: nth_append)
  ultimately show ?case
    using Cons.IH [of "done @ [x]"] Cons.prems by (auto simp: Let_def)
qed

definition built :: "string list \<Rightarrow> env_array" where
  "built args = map Some args @ replicate (100 - length args) None"

lemma build_argv_start:
  assumes "length args \<le> 98"
  shows "build_argv M (tl (map Some args @ [None])) ((replicate 100 None)[0 := hd (map Some args @ [None])]) 1 100 =
    ret (Some (built args, length args + 1))"
proof (cases args)
  case Nil
  have "replicate 100 None = (None :: string option) # replicate 99 None" by (simp flip: replicate_Suc)
  then show ?thesis using Nil by (simp add: built_def)
next
  case (Cons a as)
  have "replicate 100 None = (None :: string option) # replicate 99 None" by (simp flip: replicate_Suc)
  then show ?thesis using build_argv_fits [of "[a]" as M] assms Cons by (simp add: built_def)
qed

lemma entries_built: "length args \<le> 98 \<Longrightarrow> entries (built args) = args"
proof -
  assume "length args \<le> 98"
  then have "replicate (100 - length args) None = (None :: string option) # replicate (99 - length args) None"
    by (simp add: Suc_diff_le flip: replicate_Suc)
  then show ?thesis by (simp add: built_def)
qed

section \<open>The search\<close>

text \<open>Reference: the prefixes of \<^verbatim>\<open>PATH\<close> are the parts between colons.\<close>

primrec split_colon :: "string \<Rightarrow> string list" where
  "split_colon [] = [[]]"
| "split_colon (c # cs) = (if c = CHR '':'' then [] # split_colon cs
     else (case split_colon cs of [] \<Rightarrow> [[c]] | p # ps \<Rightarrow> (c # p) # ps))"

lemma split_colon_none: "CHR '':'' \<notin> set s \<Longrightarrow> split_colon s = [s]"
  by (induction s) auto

lemma split_colon_app: "CHR '':'' \<notin> set a \<Longrightarrow> split_colon (a @ CHR '':'' # b) = a # split_colon b"
  by (induction a) auto

lemma split_colon_strchr: "strchr s (CHR '':'') = Some (a, b) \<Longrightarrow> split_colon s = a # split_colon (tl b)"
proof -
  assume "strchr s (CHR '':'') = Some (a, b)"
  then have "CHR '':'' \<notin> set a" "s = a @ CHR '':'' # tl b" using strchr_SomeD by (force simp: neq_Nil_conv)+
  then show ?thesis using split_colon_app by metis
qed

definition candidates :: "string \<Rightarrow> string option \<Rightarrow> string list" where
  "candidates filename path =
     (if CHR ''/'' \<in> set filename then [filename]
      else map (\<lambda>p. join_path p filename) (split_colon (case path of None \<Rightarrow> ''.'' | Some [] \<Rightarrow> ''.'' | Some p \<Rightarrow> p)))"

text \<open>The outcome of trying pathnames in turn with results \<open>R\<close>: the first success replaces the process;
  otherwise the last error is given, and whether some error was \<^verbatim>\<open>EACCES\<close>.\<close>

definition search_outcome :: "(string \<Rightarrow> int option) \<Rightarrow> string list \<Rightarrow> string list \<Rightarrow> bool \<Rightarrow> halt + (int \<times> bool)" where
  "search_outcome R args ps f =
     (case find_index (\<lambda>p. R p = None) ps of
        Some i \<Rightarrow> Inl (Exec (ps ! i) args)
      | None \<Rightarrow> Inr (the (R (last ps)), f \<or> (\<exists>p \<in> set ps. R p = Some EACCES)))"

definition search_tried :: "(string \<Rightarrow> int option) \<Rightarrow> string list \<Rightarrow> string list" where
  "search_tried R ps = (case find_index (\<lambda>p. R p = None) ps of Some i \<Rightarrow> take (Suc i) ps | None \<Rightarrow> ps)"

lemma search_Cons:
  "ps \<noteq> [] \<Longrightarrow> R p = Some e \<Longrightarrow> search_outcome R args (p # ps) f = search_outcome R args ps (f \<or> e = EACCES)"
  "R p = Some e \<Longrightarrow> search_tried R (p # ps) = p # search_tried R ps"
  "R p = None \<Longrightarrow> search_outcome R args (p # ps) f = Inl (Exec p args)"
  "R p = None \<Longrightarrow> search_tried R (p # ps) = [p]"
  by (auto simp: search_outcome_def search_tried_def simp del: find_index_None split: option.splits)

lemma split_colon_nonempty [simp]: "split_colon s \<noteq> []"
  by (induction s) (auto split: list.splits)

lemma try_exec_step:
  assumes "X p (entries argv) (entries envp) \<noteq> Some ENOEXEC"
  shows "fst (try_exec X (Some p) argc argv envp f s) =
      search_outcome (\<lambda>p. X p (entries argv) (entries envp)) (entries argv) [p] f"
    and "tried (snd (try_exec X (Some p) argc argv envp f s)) = tried s @ [Some p]"
  using assms by (auto simp: try_exec_def do_execve_def search_outcome_def bnd_apply Let_def EACCES_def ENOEXEC_def
      split: option.splits)

lemma path_loop_searches:
  fixes X M filename argc argv envp
  defines "R \<equiv> \<lambda>p. X p (entries argv) (entries envp)"
  assumes "\<And>n. malloc_ok M n" "\<And>p. R p \<noteq> Some ENOEXEC"
  shows "fst (path_loop X M filename argc argv envp prStart f s) =
      search_outcome R (entries argv) (map (\<lambda>p. join_path p filename) (split_colon prStart)) f \<and>
    tried (snd (path_loop X M filename argc argv envp prStart f s)) =
      tried s @ map Some (search_tried R (map (\<lambda>p. join_path p filename) (split_colon prStart)))"
  using assms(2,3)
proof (induction "length prStart" arbitrary: prStart f s rule: less_induct)
  case less
  note step = try_exec_step [of X _ argv envp argc, folded R_def, OF less.prems(2) [unfolded R_def]]
  show ?case
  proof (cases "strchr prStart (CHR '':'')")
    case None
    then have "split_colon prStart = [prStart]" by (simp add: split_colon_none)
    then show ?thesis
      using step [of "join_path prStart filename" f s] None less.prems(1)
      by (simp add: path_loop.simps [of X M] search_tried_def del: strchr_None)
  next
    case (Some ab)
    obtain a b where ab: "ab = (a, b)" by fastforce
    let ?p = "join_path a filename" and ?ps = "map (\<lambda>p. join_path p filename) (split_colon (tl b))"
    have sp: "map (\<lambda>p. join_path p filename) (split_colon prStart) = ?p # ?ps"
      using split_colon_strchr Some ab by simp
    have lt: "length (tl b) < length prStart" using strchr_shrinks Some ab by metis
    obtain q s1 where q: "try_exec X (Some ?p) argc argv envp f s = (q, s1)" by fastforce
    have t: "tried s1 = tried s @ [Some ?p]" using step(2) [of ?p f s] q by simp
    have loop: "path_loop X M filename argc argv envp prStart f s =
        (case q of Inl h \<Rightarrow> (Inl h, s1) | Inr r \<Rightarrow> path_loop X M filename argc argv envp (tl b) (snd r) s1)"
      using Some ab less.prems(1) q by (simp add: path_loop.simps [of X M filename argc argv envp prStart] bnd_apply)
    show ?thesis
    proof (cases "R ?p")
      case None
      then have "q = Inl (Exec ?p (entries argv))"
        using step(1) [of ?p f s] q by (simp add: search_outcome_def)
      then show ?thesis using loop t None by (simp add: sp search_Cons)
    next
      case (Some e)
      then have "q = Inr (e, f \<or> e = EACCES)"
        using step(1) [of ?p f s] q by (simp add: search_outcome_def)
      then show ?thesis
        using loop t Some less.hyps [OF lt less.prems, of "f \<or> e = EACCES" s1] by (simp add: sp search_Cons)
    qed
  qed
qed

text \<open>C4. \<^verbatim>\<open>execlp\<close> with at most 98 arguments, when no allocation (\<^verbatim>\<open>calloc\<close>, \<^verbatim>\<open>strdup\<close>, \<^verbatim>\<open>malloc\<close>) fails and no file lacks the right format: a filename with a slash
  is tried as it is, another one below each prefix of \<^verbatim>\<open>PATH\<close> in order (the empty prefix, and an empty or
  unset \<^verbatim>\<open>PATH\<close>, meaning the current directory), no pathname after the first success. On success the process
  runs that file with the given arguments; otherwise -1 is returned and \<^verbatim>\<open>errno\<close> is \<^verbatim>\<open>EACCES\<close> if any attempt
  failed with it, and else the error of the last attempt.\<close>

theorem execlp_searches:
  fixes X M environ filename args s
  defines "R \<equiv> \<lambda>p. X p args (entries environ)" and "ps \<equiv> candidates filename (getenv ''PATH'' environ)"
    and "res \<equiv> execlp X M environ filename args s"
  assumes args: "length args \<le> 98" and X: "\<forall>p. R p \<noteq> Some ENOEXEC"
    and mem: "calloc_argv M" "calloc_envp M" "\<forall>t. strdup_ok M t" "\<forall>n. malloc_ok M n"
  shows "tried (snd res) = tried s @ map Some (search_tried R ps)
    \<and> (case find_index (\<lambda>p. R p = None) ps of
        Some i \<Rightarrow> fst res = Inl (Exec (ps ! i) args)
      | None \<Rightarrow> fst res = Inr (- 1) \<and>
          x_errno (snd res) = (if \<exists>p \<in> set ps. R p = Some EACCES then EACCES else the (R (last ps))))"
proof -
  let ?argv = "built args" and ?argc = "length args + 1"
  let ?envp = "map Some (entries environ) @ [None]"
  let ?path = "let p = getenv ''PATH'' environ in if p = None \<or> p = Some [] then ''.'' else the p"
  have ent: "entries ?argv = args" "entries ?envp = entries environ" using args by (simp_all add: entries_built)
  obtain q s1 where q: "exec_file X M filename ?argc ?argv ?envp environ s = (q, s1)" by fastforce
  have run: "res = (case q of Inl h \<Rightarrow> (Inl h, s1) | Inr r \<Rightarrow> (Inr (- 1), s1\<lparr>x_errno := if snd r then EACCES else fst r\<rparr>))"
    using q mem
    by (simp add: res_def execlp_def Let_def bnd_apply build_argv_start [OF args, of M] del: One_nat_def split: sum.splits)
  have main: "tried s1 = tried s @ map Some (search_tried R ps) \<and>
      (case search_outcome R args ps False of Inl h \<Rightarrow> q = Inl h
       | Inr (e, f) \<Rightarrow> \<exists>f'. q = Inr (e, f') \<and> (e = EACCES \<or> f' = f))"
  proof (cases "CHR ''/'' \<in> set filename")
    case True
    then have "strchr filename (CHR ''/'') \<noteq> None" by simp
    then have "exec_file X M filename ?argc ?argv ?envp environ s =
        bnd (try_exec X (Some filename) ?argc ?argv ?envp False) (\<lambda>r. ret (fst r, False)) s"
      using mem by (simp add: exec_file_def del: strchr_None)
    moreover have "ps = [filename]" using True by (simp add: ps_def candidates_def)
    moreover have "X filename (entries ?argv) (entries ?envp) \<noteq> Some ENOEXEC" using X ent by (simp add: R_def)
    ultimately show ?thesis
      using try_exec_step [of X filename ?argv ?envp ?argc False s] q ent
      by (auto simp: bnd_apply search_outcome_def search_tried_def R_def split: prod.splits sum.splits option.splits)
  next
    case False
    then have "strchr filename (CHR ''/'') = None" by simp
    then have "exec_file X M filename ?argc ?argv ?envp environ s =
        path_loop X M filename ?argc ?argv ?envp ?path False s"
      using mem by (simp add: exec_file_def Let_def del: strchr_None)
    moreover have "ps = map (\<lambda>p. join_path p filename) (split_colon ?path)"
      using False by (auto simp: ps_def candidates_def Let_def split: option.splits list.splits)
    ultimately show ?thesis
      using path_loop_searches [of M X ?argv ?envp filename ?argc ?path False s] q ent X mem
      by (auto simp: R_def split: sum.splits)
  qed
  show ?thesis
  proof (cases "find_index (\<lambda>p. R p = None) ps")
    case (Some i)
    with main have "q = Inl (Exec (ps ! i) args)" by (simp add: search_outcome_def)
    with Some main run show ?thesis by simp
  next
    case None
    with main obtain f' where "q = Inr (the (R (last ps)), f')"
        "the (R (last ps)) = EACCES \<or> f' = (\<exists>p \<in> set ps. R p = Some EACCES)"
      by (auto simp: search_outcome_def simp del: find_index_None)
    with None main run show ?thesis by (auto simp del: find_index_None)
  qed
qed

definition sample_mem :: mem where
  "sample_mem = \<lparr>calloc_argv = True, realloc_argv = True, calloc_envp = True, strdup_ok = \<lambda>_. True, malloc_ok = \<lambda>_. True\<rparr>"

definition sample_execve :: execve where
  "sample_execve p argv envp = (if p = ''/b/ls'' then None else if p = ''./ls'' then Some EACCES else Some ENOENT)"

theorem execlp_searches_witness:
  "fst (execlp sample_execve sample_mem [Some ''PATH=/a::/b:/c'', None] ''ls'' [''ls'', ''-l''] \<lparr>x_errno = 0, tried = []\<rparr>) =
     Inl (Exec ''/b/ls'' [''ls'', ''-l''])"
proof -
  let ?env = "[Some ''PATH=/a::/b:/c'', None]"
  have env: "getenv ''PATH'' ?env = Some ''/a::/b:/c''" by code_simp
  have ps: "candidates ''ls'' (Some ''/a::/b:/c'') = [''/a/ls'', ''./ls'', ''/b/ls'', ''/c/ls'']" by code_simp
  have i: "find_index (\<lambda>p. sample_execve p [''ls'', ''-l''] (entries ?env) = None) [''/a/ls'', ''./ls'', ''/b/ls'', ''/c/ls''] = Some 2"
    by (simp add: sample_execve_def)
  have X: "\<forall>p. sample_execve p [''ls'', ''-l''] (entries ?env) \<noteq> Some ENOEXEC"
    by (simp add: sample_execve_def ENOEXEC_def EACCES_def ENOENT_def)
  show ?thesis
    using execlp_searches [where X = sample_execve and M = sample_mem and environ = ?env and filename = "''ls''" and
        args = "[''ls'', ''-l'']" and s = "\<lparr>x_errno = 0, tried = []\<rparr>"] X
    unfolding env ps i by (simp add: sample_mem_def)
qed

section \<open>Where it goes wrong\<close>

lemma sh_fill_overflows:
  "\<exists>j \<in> set js. length shArgv \<le> j + 1 \<Longrightarrow> fst (sh_fill js argv shArgv s) = Inl Undef"
  by (induction js arbitrary: shArgv) (auto, metis length_list_update)

lemma execShScript_overflows: "fst (execShScript X argc argv envp s) = Inl Undef"
proof -
  have "fst (sh_fill [0..<argc + 1] argv ((replicate (argc + 1) None)[0 := Some SHELL_PATH]) s) = Inl Undef"
    by (rule sh_fill_overflows) auto
  then show ?thesis by (auto simp: execShScript_def bnd_apply split: prod.splits)
qed

lemma build_argv_overflows:
  assumes "length (done @ args) \<ge> 99" "length done \<le> 99" "done \<noteq> []" "realloc_argv M"
  shows "build_argv M (map Some args @ [None]) (map Some done @ replicate (100 - length done) None) (length done) 100 =
    stop Undef"
  using assms
proof (induction args arbitrary: "done")
  case Nil
  then have "length done = 99" by simp
  with Nil show ?case by (auto simp: nth_append Let_def)
next
  case (Cons x args)
  have nz: "(map Some done @ replicate (100 - length done) None) ! (length done - Suc 0) \<noteq> None"
    using Cons.prems by (simp add: nth_append)
  show ?case
  proof (cases "length done = 99")
    case True
    with nz Cons.prems show ?thesis by (auto simp: Let_def)
  next
    case False
    have "replicate (100 - length done) None = (None :: string option) # replicate (99 - length done) None"
      using Cons.prems(2) by (simp add: Suc_diff_le flip: replicate_Suc)
    then have "(map Some done @ replicate (100 - length done) None)[length done := Some x] =
        map Some (done @ [x]) @ replicate (100 - length (done @ [x])) None"
      by (simp add: list_update_append)
    with nz False Cons.IH [of "done @ [x]"] Cons.prems show ?thesis by (auto simp: Let_def)
  qed
qed

lemma exec_file_first:
  fixes X M filename environ argc argv envp s
  defines "p \<equiv> hd (candidates filename (getenv ''PATH'' environ))"
  assumes mem: "\<forall>t. strdup_ok M t" "\<forall>n. malloc_ok M n"
    and tr: "fst (try_exec X (Some p) argc argv envp False s) = Inl Undef"
  shows "fst (exec_file X M filename argc argv envp environ s) = Inl Undef"
proof (cases "CHR ''/'' \<in> set filename")
  case True
  then have "strchr filename (CHR ''/'') \<noteq> None" "p = filename" by (simp_all add: p_def candidates_def)
  with tr mem show ?thesis
    by (auto simp: exec_file_def bnd_apply simp del: strchr_None split: prod.splits sum.splits)
next
  case F: False
  let ?path = "let p = getenv ''PATH'' environ in if p = None \<or> p = Some [] then ''.'' else the p"
  from F have "strchr filename (CHR ''/'') = None" by simp
  then have ef: "exec_file X M filename argc argv envp environ s =
      path_loop X M filename argc argv envp ?path False s"
    using mem by (simp add: exec_file_def Let_def del: strchr_None)
  have ps: "p = join_path (hd (split_colon ?path)) filename"
    using F by (auto simp: p_def candidates_def Let_def hd_map split: option.splits list.splits)
  show ?thesis
  proof (cases "strchr ?path (CHR '':'')")
    case None
    with ps have "p = join_path ?path filename" by (simp add: split_colon_none)
    with tr None ef mem show ?thesis by (simp add: path_loop.simps [of X M] del: strchr_None)
  next
    case (Some ab)
    then obtain a b where ab: "strchr ?path (CHR '':'') = Some (a, b)" by (cases ab) simp
    with ps have "p = join_path a filename" using split_colon_strchr by simp
    with tr ab ef mem show ?thesis
      by (auto simp: path_loop.simps [of X M filename _ _ _ ?path] bnd_apply split: prod.splits sum.splits)
  qed
qed

text \<open>Two writes past the end of an array. With 99 or more arguments the reallocation, which asks for a
  single pointer, is followed by a store at index 99. And whenever the first pathname tried is not in an
  executable format, the copy of the arguments for the shell writes one element more than its array has, so
  the script is never run as intended.\<close>

theorem execlp_overflows:
  assumes mem: "calloc_argv M" "realloc_argv M" "calloc_envp M" "\<forall>t. strdup_ok M t" "\<forall>n. malloc_ok M n"
    and bad: "length args \<ge> 99 \<or>
      X (hd (candidates filename (getenv ''PATH'' environ))) args (entries environ) = Some ENOEXEC"
  shows "fst (execlp X M environ filename args s) = Inl Undef"
proof (cases "length args \<ge> 99")
  case True
  then obtain a as where as: "args = a # as" by (cases args) auto
  have r: "replicate 100 None = (None :: string option) # replicate 99 None" by (simp flip: replicate_Suc)
  have "build_argv M (map Some as @ [None]) (Some a # replicate 99 None) 1 100 =
      (stop Undef :: (exec_st, (env_array \<times> nat) option) prog)"
    using build_argv_overflows [of "[a]" as M] True mem(2) as by simp
  then show ?thesis using mem as r by (simp add: execlp_def)
next
  case False
  let ?p = "hd (candidates filename (getenv ''PATH'' environ))"
  let ?argv = "built args" and ?argc = "length args + 1"
  let ?envp = "map Some (entries environ) @ [None]"
  have args: "length args \<le> 98" using False by simp
  have "X ?p (entries ?argv) (entries ?envp) = Some ENOEXEC" using bad False args by (simp add: entries_built)
  then have tr: "fst (try_exec X (Some ?p) ?argc ?argv ?envp f s) = Inl Undef" for f
    using execShScript_overflows
    by (auto simp: try_exec_def do_execve_def bnd_apply Let_def EACCES_def ENOEXEC_def split: prod.splits sum.splits)
      (metis fst_conv sum.inject(1) sum.distinct(1))+
  have "fst (exec_file X M filename ?argc ?argv ?envp environ s) = Inl Undef"
    by (rule exec_file_first [OF mem(4,5) tr])
  then show ?thesis
    using mem by (auto simp: execlp_def Let_def bnd_apply build_argv_start [OF args, of M] simp del: One_nat_def split: prod.splits sum.splits)
qed

theorem execlp_overflows_witness:
  "fst (execlp (\<lambda>_ _ _. Some ENOEXEC) sample_mem [None] ''script'' [''script''] \<lparr>x_errno = 0, tried = []\<rparr>) = Inl Undef"
  using execlp_overflows [of sample_mem "[''script'']" "\<lambda>_ _ _. Some ENOEXEC" "''script''" "[None]" "\<lparr>x_errno = 0, tried = []\<rparr>"]
  by (simp add: sample_mem_def)

end
