(* ===== verification/Runs.thy ===== *)
theory Runs
  imports Main
begin

text \<open>
  Runs of concurrent programs. A program is a step relation; a run is a chain of steps. Two locales
  state what the proofs about them share: an invariant that every step keeps, and a measure that every
  step decreases together with progress in every state that is not final. In the second case no run is
  infinite and every run that cannot be continued has ended in a final state.
\<close>

section \<open>Sums over threads\<close>

lemma sum_map_update:
  fixes f :: "'a \<Rightarrow> 'b :: ab_group_add"
  shows "i < length xs \<Longrightarrow> sum_list (map f (xs[i := x])) = sum_list (map f xs) - f (xs ! i) + f x"
  by (induction xs arbitrary: i) (auto simp: nth_Cons algebra_simps split: nat.splits)

lemma sum_map_update_nat:
  assumes "i < length xs"
  shows "sum_list (map f (xs[i := x])) + f (xs ! i) = sum_list (map f xs) + (f x :: nat)"
proof -
  have "f (xs ! i) \<le> sum_list (map f xs)" using assms by (simp add: member_le_sum_list)
  then show ?thesis using assms by (simp add: map_update sum_list_update)
qed

section \<open>Invariants\<close>

locale invariant_system =
  fixes step :: "'s \<Rightarrow> 's \<Rightarrow> bool"
    and inv :: "'s \<Rightarrow> bool"
  assumes step_inv: "inv s \<Longrightarrow> step s t \<Longrightarrow> inv t"
begin

lemma run_inv: "step\<^sup>*\<^sup>* s t \<Longrightarrow> inv s \<Longrightarrow> inv t"
  by (induction rule: rtranclp_induct) (auto intro: step_inv)

lemma run_from: "inv s \<Longrightarrow> (step ^^ n) s t \<Longrightarrow> inv t"
  by (rule run_inv [OF relpowp_imp_rtranclp])

end

section \<open>Completion\<close>

locale completing_system = invariant_system +
  fixes effort :: "'s \<Rightarrow> nat"
    and final :: "'s \<Rightarrow> bool"
  assumes step_effort: "inv s \<Longrightarrow> step s t \<Longrightarrow> effort t < effort s"
    and progress: "inv s \<Longrightarrow> \<not> final s \<Longrightarrow> \<exists>t. step s t"
begin

text \<open>A run of \<open>n\<close> steps has used \<open>n\<close> of the effort.\<close>

lemma run_length: "(step ^^ n) s t \<Longrightarrow> inv s \<Longrightarrow> n + effort t \<le> effort s"
proof (induction n arbitrary: t)
  case 0
  then show ?case by simp
next
  case (Suc n)
  then obtain u where u: "(step ^^ n) s u" "step u t" by (auto elim: relpowp_Suc_E)
  from step_effort [OF run_from [OF Suc.prems(2) u(1)] u(2)] Suc.IH [OF u(1) Suc.prems(2)]
  show ?case by simp
qed

lemma run_bounded: "(step ^^ n) s t \<Longrightarrow> inv s \<Longrightarrow> n \<le> effort s"
  using run_length [of n s t] by simp

lemma no_infinite_run: "inv (f 0) \<Longrightarrow> \<exists>n. \<not> step (f n) (f (Suc n))"
proof (rule ccontr)
  assume i: "inv (f 0)" and "\<nexists>n. \<not> step (f n) (f (Suc n))"
  then have "(step ^^ n) (f 0) (f n)" for n by (induction n) auto
  from run_bounded [OF this i, of "Suc (effort (f 0))"] show False by simp
qed

lemma stuck_final: "step\<^sup>*\<^sup>* s t \<Longrightarrow> inv s \<Longrightarrow> \<nexists>u. step t u \<Longrightarrow> final t"
  using progress run_inv by blast

lemma reaches_stuck: "inv s \<Longrightarrow> \<exists>t. step\<^sup>*\<^sup>* s t \<and> (\<nexists>u. step t u)"
proof (induction "effort s" arbitrary: s rule: less_induct)
  case less
  show ?case
  proof (cases "\<exists>u. step s u")
    case True
    then obtain u where u: "step s u" by blast
    from less.hyps [OF step_effort [OF less.prems u] step_inv [OF less.prems u]] u
    show ?thesis by (meson converse_rtranclp_into_rtranclp)
  qed auto
qed

lemma reaches_final: "inv s \<Longrightarrow> \<exists>t. step\<^sup>*\<^sup>* s t \<and> final t"
proof (induction "effort s" arbitrary: s rule: less_induct)
  case less
  show ?case
  proof (cases "final s")
    case False
    with less.prems obtain u where u: "step s u" using progress by blast
    from less.hyps [OF step_effort [OF less.prems u] step_inv [OF less.prems u]]
    obtain t where "step\<^sup>*\<^sup>* u t" "final t" by blast
    with u show ?thesis by (meson converse_rtranclp_into_rtranclp)
  qed auto
qed

end

end
