(* ===== verification/Multijoin.thy ===== *)
theory Multijoin
  imports Runs Get_Num
begin

text \<open>
  \<^verbatim>\<open>tlpi-book/threads/thread_multijoin.c\<close>: a main thread that creates a thread per argument and joins each
  of them as soon as it has terminated, told by a counter under a mutex and a condition variable. Any
  number of threads, any interleaving of their steps; each step is one access to the shared variables or
  one call. \<^verbatim>\<open>pthread_cond_wait\<close> releases the mutex and waits in one step, is woken by a signal or
  spuriously (the state bounds how often, by an arbitrary number), and has to get the mutex back.
  Any call may fail, which ends the whole process.
\<close>

section \<open>State\<close>

datatype tstate = TS_ALIVE | TS_TERMINATED | TS_JOINED

text \<open>Where a thread is in \<^verbatim>\<open>threadFunc\<close>; \<open>TNone\<close>: not created yet, \<open>TExit\<close>: returned.\<close>

datatype tpc = TNone | TSleep | TLock | TCount | TMark | TUnlock | TSignal | TExit

text \<open>Where the main thread is; \<open>MDead\<close>: the process ended because a call failed.\<close>

datatype mpc = MCreate nat | MTest | MLock | MCheck | MWaiting | MWoken | MScan nat | MJoin nat | MUnlock
  | MDone | MDead

datatype owner = Main | Thread nat

datatype line = Terminating nat | Reaped nat int

text \<open>An element of the array \<^verbatim>\<open>thread\<close>, with the program counter of its thread.\<close>

record thr =
  t_pc :: tpc
  t_state :: tstate
  sleepTime :: int

record mj =
  thread :: "thr list"
  m_pc :: mpc
  threadMutex :: "owner option"
  numUnjoined :: int
  numLive :: int
  totThreads :: nat
  printed :: "line list"
  spurious :: nat

section \<open>Steps\<close>

definition set_thr :: "nat \<Rightarrow> (thr \<Rightarrow> thr) \<Rightarrow> mj \<Rightarrow> mj" where
  "set_thr i f s = s\<lparr>thread := (thread s)[i := f (thread s ! i)]\<rparr>"

abbreviation set_pc :: "nat \<Rightarrow> tpc \<Rightarrow> mj \<Rightarrow> mj" where
  "set_pc i p \<equiv> set_thr i (t_pc_update (\<lambda>_. p))"

definition threadFunc :: "nat \<Rightarrow> mj \<Rightarrow> mj option" where
  "threadFunc i s = (case t_pc (thread s ! i) of
      TNone \<Rightarrow> None
    | TSleep \<Rightarrow> Some (set_pc i TLock (s\<lparr>printed := printed s @ [Terminating i]\<rparr>))
    | TLock \<Rightarrow> if threadMutex s = None then Some (set_pc i TCount (s\<lparr>threadMutex := Some (Thread i)\<rparr>)) else None
    | TCount \<Rightarrow> Some (set_pc i TMark (s\<lparr>numUnjoined := numUnjoined s + 1\<rparr>))
    | TMark \<Rightarrow> Some (set_thr i (\<lambda>t. t\<lparr>t_state := TS_TERMINATED, t_pc := TUnlock\<rparr>) s)
    | TUnlock \<Rightarrow> Some (set_pc i TSignal (s\<lparr>threadMutex := None\<rparr>))
    | TSignal \<Rightarrow> Some (set_pc i TExit (s\<lparr>m_pc := if m_pc s = MWaiting then MWoken else m_pc s\<rparr>))
    | TExit \<Rightarrow> None)"

text \<open>The main thread; \<^verbatim>\<open>getInt\<close> ends the process on a bad argument.\<close>

definition mj_main :: "string list \<Rightarrow> mj \<Rightarrow> mj option" where
  "mj_main args s = (case m_pc s of
      MCreate k \<Rightarrow>
        if k < length args
        then (case getInt (Some (args ! k)) GN_NONNEG None of
            Inl _ \<Rightarrow> Some (s\<lparr>m_pc := MDead\<rparr>)
          | Inr n \<Rightarrow> Some (set_thr k (\<lambda>_. \<lparr>t_pc = TSleep, t_state = TS_ALIVE, sleepTime = n\<rparr>) (s\<lparr>m_pc := MCreate (k + 1)\<rparr>)))
        else Some (s\<lparr>totThreads := length args, numLive := int (length args), m_pc := MTest\<rparr>)
    | MTest \<Rightarrow> Some (s\<lparr>m_pc := if numLive s > 0 then MLock else MDone\<rparr>)
    | MLock \<Rightarrow> if threadMutex s = None then Some (s\<lparr>threadMutex := Some Main, m_pc := MCheck\<rparr>) else None
    | MCheck \<Rightarrow> if numUnjoined s = 0 then Some (s\<lparr>threadMutex := None, m_pc := MWaiting\<rparr>)
        else Some (s\<lparr>m_pc := MScan 0\<rparr>)
    | MWaiting \<Rightarrow> None
    | MWoken \<Rightarrow> if threadMutex s = None then Some (s\<lparr>threadMutex := Some Main, m_pc := MCheck\<rparr>) else None
    | MScan idx \<Rightarrow>
        if idx < totThreads s
        then Some (s\<lparr>m_pc := if t_state (thread s ! idx) = TS_TERMINATED then MJoin idx else MScan (idx + 1)\<rparr>)
        else Some (s\<lparr>m_pc := MUnlock\<rparr>)
    | MJoin idx \<Rightarrow>
        if t_pc (thread s ! idx) = TExit
        then Some (set_thr idx (t_state_update (\<lambda>_. TS_JOINED))
          (s\<lparr>numLive := numLive s - 1, numUnjoined := numUnjoined s - 1,
             printed := printed s @ [Reaped idx (numLive s - 1)], m_pc := MScan (idx + 1)\<rparr>))
        else None
    | MUnlock \<Rightarrow> Some (s\<lparr>threadMutex := None, m_pc := MTest\<rparr>)
    | MDone \<Rightarrow> None
    | MDead \<Rightarrow> None)"

text \<open>After \<^verbatim>\<open>calloc\<close>: no thread yet, the array zeroed.\<close>

definition mj_init :: "string list \<Rightarrow> nat \<Rightarrow> mj" where
  "mj_init args w =
     \<lparr>thread = replicate (length args) \<lparr>t_pc = TNone, t_state = TS_ALIVE, sleepTime = 0\<rparr>, m_pc = MCreate 0,
      threadMutex = None, numUnjoined = 0, numLive = 0, totThreads = 0, printed = [], spurious = w\<rparr>"

inductive mj_step :: "string list \<Rightarrow> mj \<Rightarrow> mj \<Rightarrow> bool" for args where
  thread_step: "i < length (thread s) \<Longrightarrow> m_pc s \<notin> {MDone, MDead} \<Longrightarrow> threadFunc i s = Some s' \<Longrightarrow> mj_step args s s'"
| main_step: "mj_main args s = Some s' \<Longrightarrow> mj_step args s s'"
| wakeup_step: "m_pc s = MWaiting \<Longrightarrow> spurious s > 0 \<Longrightarrow> mj_step args s (s\<lparr>m_pc := MWoken, spurious := spurious s - 1\<rparr>)"

text \<open>With failing calls.\<close>

inductive mj_fstep :: "string list \<Rightarrow> mj \<Rightarrow> mj \<Rightarrow> bool" for args where
  no_failure: "mj_step args s s' \<Longrightarrow> mj_fstep args s s'"
| failure: "m_pc s \<notin> {MDone, MDead} \<Longrightarrow> mj_fstep args s (s\<lparr>m_pc := MDead\<rparr>)"

inductive_cases mj_stepE: "mj_step args s s'"
inductive_cases mj_fstepE: "mj_fstep args s s'"

section \<open>Invariant\<close>

primrec cnt :: "('a \<Rightarrow> bool) \<Rightarrow> 'a list \<Rightarrow> int" where
  "cnt P [] = 0"
| "cnt P (x # xs) = of_bool (P x) + cnt P xs"

lemma cnt_update:
  "i < length xs \<Longrightarrow> cnt P (xs[i := x]) = cnt P xs - of_bool (P (xs ! i)) + of_bool (P x)"
  by (induction xs arbitrary: i) (auto simp: nth_Cons split: nat.splits)

lemma cnt_bounds: "0 \<le> cnt P xs" "cnt P xs \<le> int (length xs)"
  by (induction xs) auto

lemma cnt_zero: "cnt P xs = 0 \<longleftrightarrow> (\<forall>x \<in> set xs. \<not> P x)"
  by (induction xs) (use cnt_bounds(1) [of P] in \<open>auto simp: add_nonneg_eq_0_iff\<close>)

lemma cnt_all: "cnt P xs = int (length xs) \<longleftrightarrow> (\<forall>x \<in> set xs. P x)"
proof (induction xs)
  case (Cons x xs)
  then show ?case using cnt_bounds(2) [of P xs] by (cases "P x") auto
qed simp

lemma cnt_replicate: "cnt P (replicate n x) = int n * of_bool (P x)"
  by (induction n) (auto simp: algebra_simps)

text \<open>A thread counted in \<open>numUnjoined\<close>; one at rest with the mutex.\<close>

definition unjoined :: "thr \<Rightarrow> bool" where
  "unjoined t \<longleftrightarrow> t_pc t = TMark \<or> t_state t = TS_TERMINATED"

definition joined :: "thr \<Rightarrow> bool" where
  "joined t \<longleftrightarrow> t_state t = TS_JOINED"

definition thr_ok :: "owner option \<Rightarrow> nat \<Rightarrow> thr \<Rightarrow> bool" where
  "thr_ok mx i t \<longleftrightarrow>
     (t_state t = TS_ALIVE \<longleftrightarrow> t_pc t \<in> {TNone, TSleep, TLock, TCount, TMark}) \<and>
     (t_state t = TS_JOINED \<longrightarrow> t_pc t = TExit) \<and>
     (mx = Some (Thread i) \<longleftrightarrow> t_pc t \<in> {TCount, TMark, TUnlock})"

definition main_holds :: "mpc \<Rightarrow> bool" where
  "main_holds p \<longleftrightarrow> p \<in> {MCheck, MUnlock} \<or> (\<exists>k. p = MScan k \<or> p = MJoin k)"

definition creating :: "mpc \<Rightarrow> bool" where
  "creating p \<longleftrightarrow> (\<exists>k. p = MCreate k)"

definition none_left :: "nat \<Rightarrow> mj \<Rightarrow> bool" where
  "none_left k s \<longleftrightarrow> (\<forall>i < k. t_state (thread s ! i) \<noteq> TS_TERMINATED)"

text \<open>What holds at each point of the main thread.\<close>

definition at_pc :: "nat \<Rightarrow> mj \<Rightarrow> bool" where
  "at_pc N s = (case m_pc s of
      MCreate k \<Rightarrow> k \<le> N \<and> (\<forall>i < N. t_pc (thread s ! i) = TNone \<longleftrightarrow> k \<le> i)
    | MLock \<Rightarrow> numLive s > 0 | MCheck \<Rightarrow> numLive s > 0 | MWoken \<Rightarrow> numLive s > 0
    | MWaiting \<Rightarrow> numLive s > 0 \<and> (\<forall>i < N. t_state (thread s ! i) = TS_TERMINATED \<longrightarrow> t_pc (thread s ! i) \<in> {TUnlock, TSignal})
    | MScan k \<Rightarrow> k \<le> N \<and> none_left k s
    | MJoin k \<Rightarrow> k < N \<and> t_state (thread s ! k) = TS_TERMINATED \<and> none_left k s
    | MUnlock \<Rightarrow> none_left N s
    | MDone \<Rightarrow> numLive s = 0
    | _ \<Rightarrow> True)"

definition reaps :: "line list \<Rightarrow> (nat \<times> int) list" where
  "reaps ls = concat (map (\<lambda>l. case l of Terminating _ \<Rightarrow> [] | Reaped i n \<Rightarrow> [(i, n)]) ls)"

lemma reaps_simps [simp]: "reaps [] = []" "reaps (a @ b) = reaps a @ reaps b"
  "reaps [Terminating i] = []" "reaps [Reaped i n] = [(i, n)]"
  by (simp_all add: reaps_def)

text \<open>What is printed: threads are reaped once each, after they said that they terminate, and the
  numbers of live threads count down from \<open>N - 1\<close>.\<close>

definition announced :: "line list \<Rightarrow> bool" where
  "announced ls \<longleftrightarrow> (\<forall>us i n vs. ls = us @ Reaped i n # vs \<longrightarrow> Terminating i \<in> set us)"

definition out_ok :: "nat \<Rightarrow> line list \<Rightarrow> bool" where
  "out_ok N ls \<longleftrightarrow> distinct (map fst (reaps ls)) \<and>
     map snd (reaps ls) = map (\<lambda>j. int N - 1 - int j) [0..<length (reaps ls)] \<and>
     announced ls"

definition mj_live :: "nat \<Rightarrow> mj \<Rightarrow> bool" where
  "mj_live N s \<longleftrightarrow> length (thread s) = N \<and> (\<forall>i < N. thr_ok (threadMutex s) i (thread s ! i)) \<and>
     (\<forall>i. threadMutex s = Some (Thread i) \<longrightarrow> i < N) \<and>
     (threadMutex s = Some Main \<longleftrightarrow> main_holds (m_pc s)) \<and>
     numUnjoined s = cnt unjoined (thread s) \<and>
     (\<not> creating (m_pc s) \<longrightarrow> totThreads s = N \<and> numLive s = int N - cnt joined (thread s) \<and>
        (\<forall>i < N. t_pc (thread s ! i) \<noteq> TNone)) \<and>
     (creating (m_pc s) \<longrightarrow> cnt joined (thread s) = 0) \<and>
     at_pc N s \<and>
     (\<forall>i. i \<in> set (map fst (reaps (printed s))) \<longleftrightarrow> i < N \<and> joined (thread s ! i)) \<and>
     length (reaps (printed s)) = nat (cnt joined (thread s)) \<and>
     (\<forall>i < N. t_pc (thread s ! i) \<notin> {TNone, TSleep} \<longrightarrow> Terminating i \<in> set (printed s))"

definition mj_inv :: "nat \<Rightarrow> mj \<Rightarrow> bool" where
  "mj_inv N s \<longleftrightarrow> out_ok N (printed s) \<and> (m_pc s \<noteq> MDead \<longrightarrow> mj_live N s)"

lemma mj_inv_init: "mj_inv (length args) (mj_init args w)"
  by (simp add: mj_inv_def mj_live_def mj_init_def out_ok_def announced_def thr_ok_def main_holds_def creating_def at_pc_def
      joined_def unjoined_def cnt_replicate)

text \<open>What a step of thread \<open>i\<close> leaves alone.\<close>

lemma set_thr_sel [simp]:
  "thread (set_thr i f s) = (thread s)[i := f (thread s ! i)]" "m_pc (set_thr i f s) = m_pc s"
  "threadMutex (set_thr i f s) = threadMutex s" "numUnjoined (set_thr i f s) = numUnjoined s"
  "numLive (set_thr i f s) = numLive s" "totThreads (set_thr i f s) = totThreads s"
  "printed (set_thr i f s) = printed s" "spurious (set_thr i f s) = spurious s"
  by (simp_all add: set_thr_def)

lemmas mj_defs = mj_live_def thr_ok_def main_holds_def creating_def at_pc_def none_left_def joined_def unjoined_def

lemma at_pc_thread:
  assumes "at_pc N s" "m_pc s' = m_pc s" "numLive s' = numLive s" "thread s' = (thread s)[i := t]" "i < N" "length (thread s) = N"
    and "t_pc t \<noteq> TNone" "t_pc (thread s ! i) \<noteq> TNone"
    and "t_state t = TS_TERMINATED \<Longrightarrow> t_state (thread s ! i) = TS_TERMINATED \<or> \<not> main_holds (m_pc s)"
    and "t_state (thread s ! i) = TS_TERMINATED \<Longrightarrow> t_state t = TS_TERMINATED"
    and "m_pc s = MWaiting \<Longrightarrow> t_state t = TS_TERMINATED \<Longrightarrow> t_pc t \<in> {TUnlock, TSignal}"
  shows "at_pc N s'"
  using assms by (cases "m_pc s") (auto simp: at_pc_def none_left_def main_holds_def nth_list_update)

lemma mj_liveD:
  assumes "mj_live N s"
  shows "length (thread s) = N" "i < N \<Longrightarrow> thr_ok (threadMutex s) i (thread s ! i)"
    "threadMutex s = Some (Thread j) \<Longrightarrow> j < N" "threadMutex s = Some Main \<longleftrightarrow> main_holds (m_pc s)"
    "numUnjoined s = cnt unjoined (thread s)" "\<not> creating (m_pc s) \<Longrightarrow> totThreads s = N"
    "\<not> creating (m_pc s) \<Longrightarrow> numLive s = int N - cnt joined (thread s)"
    "\<not> creating (m_pc s) \<Longrightarrow> i < N \<Longrightarrow> t_pc (thread s ! i) \<noteq> TNone"
    "creating (m_pc s) \<Longrightarrow> cnt joined (thread s) = 0" "at_pc N s"
    "k \<in> set (map fst (reaps (printed s))) \<longleftrightarrow> k < N \<and> joined (thread s ! k)"
    "length (reaps (printed s)) = nat (cnt joined (thread s))"
    "i < N \<Longrightarrow> t_pc (thread s ! i) \<notin> {TNone, TSleep} \<Longrightarrow> Terminating i \<in> set (printed s)"
  using assms unfolding mj_live_def by blast+

text \<open>A step of thread \<open>i\<close> keeps the invariant if it accounts for what it changes.\<close>

lemma live_update:
  assumes live: "mj_live N s" and i: "i < N" "thread s' = (thread s)[i := t]"
    and ok: "thr_ok (threadMutex s') i t"
    and mx: "threadMutex s' = threadMutex s \<or> threadMutex s = None \<and> threadMutex s' = Some (Thread i)
        \<or> threadMutex s = Some (Thread i) \<and> threadMutex s' = None"
    and pc: "main_holds (m_pc s') = main_holds (m_pc s)" "creating (m_pc s') = creating (m_pc s)" "at_pc N s'"
    and un: "numUnjoined s' = numUnjoined s - of_bool (unjoined (thread s ! i)) + of_bool (unjoined t)"
    and jo: "joined t = joined (thread s ! i)" "numLive s' = numLive s" "totThreads s' = totThreads s"
    and nn: "t_pc t \<noteq> TNone"
    and out: "printed s' = printed s @ ls" "reaps ls = []" "t_pc t \<noteq> TSleep \<Longrightarrow> Terminating i \<in> set (printed s')"
  shows "mj_live N s'"
proof -
  note D = mj_liveD [OF live]
  have eq: "thread s' ! j = (if j = i then t else thread s ! j)" for j using i D(1) by simp
  have "threadMutex s' = Some (Thread j) \<longleftrightarrow> threadMutex s = Some (Thread j)" if "j \<noteq> i" for j using mx that by auto
  then have "thr_ok (threadMutex s') j (thread s' ! j)" if "j < N" for j
    using D(2) [OF that] ok by (simp add: eq thr_ok_def)
  moreover have "cnt joined (thread s') = cnt joined (thread s)" "numUnjoined s' = cnt unjoined (thread s')"
    using i D(1,5) jo un by (simp_all add: cnt_update)
  moreover have "joined (thread s' ! j) = joined (thread s ! j)" for j using jo(1) by (simp add: eq)
  moreover have "t_pc (thread s' ! j) \<noteq> TNone" if "t_pc (thread s ! j) \<noteq> TNone" for j using nn that by (simp add: eq)
  moreover have "Terminating j \<in> set (printed s')" if "j < N" "t_pc (thread s' ! j) \<notin> {TNone, TSleep}" for j
    using D(13) [of j] that out(1,3) by (cases "j = i") (auto simp: eq)
  moreover have "length (thread s') = N" using i D(1) by simp
  moreover have "j < N" if "threadMutex s' = Some (Thread j)" for j using mx D(3) i(1) that by auto
  moreover have "threadMutex s' = Some Main \<longleftrightarrow> main_holds (m_pc s')" using mx D(4) pc(1) by auto
  moreover have "reaps (printed s') = reaps (printed s)" using out(1,2) by simp
  ultimately show ?thesis
    unfolding mj_live_def using D(6,7,8,9,11,12) pc(2,3) jo(2,3) by simp
qed

lemma live_thread:
  assumes live: "mj_live N s" and i: "i < N" and st: "threadFunc i s = Some s'"
  shows "mj_live N s'"
proof -
  note D = mj_liveD [OF live] and up = live_update [OF live i] and at = at_pc_thread [OF mj_liveD(10) [OF live]]
  note ok = D(2) [OF i]
  show ?thesis
  proof (cases "t_pc (thread s ! i)")
    case TSleep
    then have "s' = set_pc i TLock (s\<lparr>printed := printed s @ [Terminating i]\<rparr>)" using st by (simp add: threadFunc_def)
    with TSleep ok i D(1) show ?thesis
      by (intro up [of s' "(thread s ! i)\<lparr>t_pc := TLock\<rparr>" "[Terminating i]"] at [of s' i "(thread s ! i)\<lparr>t_pc := TLock\<rparr>"])
        (auto simp: thr_ok_def unjoined_def joined_def)
  next
    case TLock
    then have "s' = set_pc i TCount (s\<lparr>threadMutex := Some (Thread i)\<rparr>)" "threadMutex s = None"
      using st by (simp_all add: threadFunc_def split: if_splits)
    with TLock ok i D(1,13) show ?thesis
      by (intro up [of s' "(thread s ! i)\<lparr>t_pc := TCount\<rparr>" "[]"] at [of s' i "(thread s ! i)\<lparr>t_pc := TCount\<rparr>"])
        (auto simp: thr_ok_def unjoined_def joined_def)
  next
    case TCount
    then have "s' = set_pc i TMark (s\<lparr>numUnjoined := numUnjoined s + 1\<rparr>)" using st by (simp add: threadFunc_def)
    with TCount ok i D(1,13) show ?thesis
      by (intro up [of s' "(thread s ! i)\<lparr>t_pc := TMark\<rparr>" "[]"] at [of s' i "(thread s ! i)\<lparr>t_pc := TMark\<rparr>"])
        (auto simp: thr_ok_def unjoined_def joined_def)
  next
    case TMark
    then have "s' = set_thr i (\<lambda>t. t\<lparr>t_state := TS_TERMINATED, t_pc := TUnlock\<rparr>) s" using st by (simp add: threadFunc_def)
    with TMark ok i D(1,4,13) show ?thesis
      by (intro up [of s' "(thread s ! i)\<lparr>t_state := TS_TERMINATED, t_pc := TUnlock\<rparr>" "[]"] at [of s' i "(thread s ! i)\<lparr>t_state := TS_TERMINATED, t_pc := TUnlock\<rparr>"])
        (auto simp: thr_ok_def unjoined_def joined_def)
  next
    case TUnlock
    then have "s' = set_pc i TSignal (s\<lparr>threadMutex := None\<rparr>)" using st by (simp add: threadFunc_def)
    with TUnlock ok i D(1,13) show ?thesis
      by (intro up [of s' "(thread s ! i)\<lparr>t_pc := TSignal\<rparr>" "[]"] at [of s' i "(thread s ! i)\<lparr>t_pc := TSignal\<rparr>"])
        (auto simp: thr_ok_def unjoined_def joined_def)
  next
    case TSignal
    let ?p = "if m_pc s = MWaiting then MWoken else m_pc s"
    have s': "s' = set_pc i TExit (s\<lparr>m_pc := ?p\<rparr>)" using st TSignal by (simp add: threadFunc_def)
    have "at_pc N s'"
    proof (cases "m_pc s = MWaiting")
      case True
      with D(10) s' show ?thesis by (simp add: at_pc_def)
    next
      case False
      with s' TSignal ok i D(1) show ?thesis by (intro at [of s' i "(thread s ! i)\<lparr>t_pc := TExit\<rparr>"]) (auto simp: thr_ok_def)
    qed
    with s' TSignal ok i D(1,13) show ?thesis
      by (intro up [of s' "(thread s ! i)\<lparr>t_pc := TExit\<rparr>" "[]"])
        (auto simp: thr_ok_def unjoined_def joined_def main_holds_def creating_def)
  qed (use st in \<open>simp_all add: threadFunc_def\<close>)
qed

text \<open>Steps of the main thread.\<close>

lemma live_main_pc:
  assumes live: "mj_live N s" and s': "s' = s\<lparr>m_pc := p, threadMutex := mx\<rparr>"
    and mx: "mx = threadMutex s \<or> threadMutex s = None \<and> mx = Some Main \<or> threadMutex s = Some Main \<and> mx = None"
    and p: "mx = Some Main \<longleftrightarrow> main_holds p" "\<not> creating p" "\<not> creating (m_pc s)" "at_pc N s'"
  shows "mj_live N s'"
proof -
  note D = mj_liveD [OF live]
  have "mx = Some (Thread j) \<longleftrightarrow> threadMutex s = Some (Thread j)" for j using mx by auto
  then have "thr_ok mx j (thread s ! j)" if "j < N" for j using D(2) [OF that] by (simp add: thr_ok_def)
  moreover have "j < N" if "mx = Some (Thread j)" for j using mx D(3) that by auto
  ultimately show ?thesis
    unfolding mj_live_def using D(1,5-8,11-13) p s' by simp
qed

lemma mutex_free: "mj_live N s \<Longrightarrow> threadMutex s = None \<Longrightarrow> \<not> main_holds (m_pc s)"
  using mj_liveD(4) by fastforce

lemma scan_done:
  assumes "mj_live N s" "m_pc s = MScan k" "t_state (thread s ! k) \<noteq> TS_TERMINATED \<or> N \<le> k"
  shows "none_left (if k < N then k + 1 else N) s"
  using mj_liveD(10) [OF assms(1)] assms(2,3) by (auto simp: at_pc_def none_left_def less_Suc_eq)

lemma live_create:
  assumes live: "mj_live N s" and pc: "m_pc s = MCreate k" "k < N"
    and s': "s' = set_thr k (\<lambda>_. \<lparr>t_pc = TSleep, t_state = TS_ALIVE, sleepTime = n\<rparr>) (s\<lparr>m_pc := MCreate (k + 1)\<rparr>)"
  shows "mj_live N s'"
proof -
  note D = mj_liveD [OF live]
  have k: "t_pc (thread s ! k) = TNone" using D(10) pc by (simp add: at_pc_def)
  have "at_pc N s'" using D(10) pc s' D(1) by (auto simp: at_pc_def nth_list_update)
  moreover have "thr_ok (threadMutex s') k \<lparr>t_pc = TSleep, t_state = TS_ALIVE, sleepTime = n\<rparr>"
    "joined (thread s ! k) = False" "unjoined (thread s ! k) = False"
    using D(2) [OF pc(2)] k s' by (auto simp: thr_ok_def joined_def unjoined_def)
  ultimately show ?thesis
    using pc s' by (intro live_update [OF live pc(2), of s' "\<lparr>t_pc = TSleep, t_state = TS_ALIVE, sleepTime = n\<rparr>" "[]"])
      (auto simp: main_holds_def creating_def joined_def unjoined_def)
qed

lemma live_created:
  assumes live: "mj_live N s" and pc: "m_pc s = MCreate k" "N \<le> k"
    and s': "s' = s\<lparr>totThreads := N, numLive := int N, m_pc := MTest\<rparr>"
  shows "mj_live N s'"
proof -
  note D = mj_liveD [OF live]
  have cr: "creating (m_pc s)" "\<not> main_holds (m_pc s)" "\<not> main_holds MTest" "\<not> creating MTest"
    using pc by (auto simp: creating_def main_holds_def)
  have "t_pc (thread s ! i) \<noteq> TNone" if "i < N" for i using D(10) pc that by (auto simp: at_pc_def)
  then show ?thesis
    unfolding mj_live_def using D(1-5,9,11-13) cr s' by (simp add: at_pc_def)
qed

lemma live_join:
  assumes live: "mj_live N s" and pc: "m_pc s = MJoin k" "t_pc (thread s ! k) = TExit"
    and s': "s' = set_thr k (t_state_update (\<lambda>_. TS_JOINED)) (s\<lparr>numLive := numLive s - 1, numUnjoined := numUnjoined s - 1,
       printed := printed s @ [Reaped k (numLive s - 1)], m_pc := MScan (k + 1)\<rparr>)"
  shows "mj_live N s'"
proof -
  note D = mj_liveD [OF live]
  have k: "k < N" "t_state (thread s ! k) = TS_TERMINATED" "none_left k s" using D(10) pc by (auto simp: at_pc_def)
  have eq: "thread s' ! j = (if j = k then (thread s ! k)\<lparr>t_state := TS_JOINED\<rparr> else thread s ! j)" for j
    using k(1) D(1) s' by simp
  have sel: "thread s' = (thread s)[k := (thread s ! k)\<lparr>t_state := TS_JOINED\<rparr>]" "threadMutex s' = threadMutex s"
    "numLive s' = numLive s - 1" "numUnjoined s' = numUnjoined s - 1" "totThreads s' = totThreads s"
    "printed s' = printed s @ [Reaped k (numLive s - 1)]" "m_pc s' = MScan (k + 1)" using s' by simp_all
  have cnt: "cnt joined (thread s') = cnt joined (thread s) + 1" "cnt unjoined (thread s') = cnt unjoined (thread s) - 1"
    using k D(1) pc(2) unfolding sel(1) by (simp_all add: cnt_update joined_def unjoined_def)
  have cr: "\<not> creating (m_pc s)" "\<not> creating (m_pc s')" "main_holds (m_pc s)" "main_holds (m_pc s')"
    using pc sel(7) by (auto simp: creating_def main_holds_def)
  have "thr_ok (threadMutex s) k ((thread s ! k)\<lparr>t_state := TS_JOINED\<rparr>)"
    using D(2) [OF k(1)] pc(2) by (simp add: thr_ok_def)
  then have "thr_ok (threadMutex s') j (thread s' ! j)" if "j < N" for j
    using D(2) [OF that] sel(2) by (simp add: eq)
  moreover have "at_pc N s'" using sel(7) k by (auto simp: at_pc_def none_left_def less_Suc_eq eq)
  moreover have "length (reaps (printed s')) = nat (cnt joined (thread s'))"
    using D(12) cnt(1) cnt_bounds(1) [of joined "thread s"] sel(6) by simp
  moreover have "j \<in> set (map fst (reaps (printed s'))) \<longleftrightarrow> j < N \<and> joined (thread s' ! j)" for j
    using D(11) [of j] k(1) sel(6) by (auto simp: eq joined_def)
  moreover have "t_pc (thread s' ! j) = t_pc (thread s ! j)" for j by (simp add: eq)
  ultimately show ?thesis
    unfolding mj_live_def using D(1,3-8,13) cr cnt sel(2-7) by (auto simp: sel(1))
qed

lemma live_main:
  assumes live: "mj_live N s" and N: "N = length args" and st: "mj_main args s = Some s'" and nd: "m_pc s' \<noteq> MDead"
  shows "mj_live N s'"
proof -
  note D = mj_liveD [OF live] and pcs = main_holds_def creating_def at_pc_def
  show ?thesis
  proof (cases "m_pc s")
    case (MCreate k)
    show ?thesis
    proof (cases "k < N")
      case True
      with st MCreate N nd obtain n where
        "s' = set_thr k (\<lambda>_. \<lparr>t_pc = TSleep, t_state = TS_ALIVE, sleepTime = n\<rparr>) (s\<lparr>m_pc := MCreate (k + 1)\<rparr>)"
        by (auto simp: mj_main_def split: sum.splits)
      with True show ?thesis using live_create [OF live MCreate] by blast
    next
      case False
      with st MCreate N have "s' = s\<lparr>totThreads := N, numLive := int N, m_pc := MTest\<rparr>" by (simp add: mj_main_def)
      with False show ?thesis using live_created [OF live MCreate] by simp
    qed
  next
    case MTest
    let ?p = "if numLive s > 0 then MLock else MDone"
    have "s' = s\<lparr>m_pc := ?p, threadMutex := threadMutex s\<rparr>" using st MTest by (cases s) (auto simp: mj_main_def)
    moreover have "numLive s \<ge> 0" using D(1,7) MTest cnt_bounds(2) [of joined "thread s"] by (simp add: creating_def)
    ultimately show ?thesis using D(4) MTest by (intro live_main_pc [OF live, of s' "threadMutex s" ?p]) (auto simp: pcs)
  next
    case MLock
    then have "s' = s\<lparr>m_pc := MCheck, threadMutex := Some Main\<rparr>" "threadMutex s = None"
      using st by (auto simp: mj_main_def split: if_splits)
    with D(10) MLock show ?thesis by (intro live_main_pc [OF live, of s' "Some Main" MCheck]) (auto simp: pcs)
  next
    case MWoken
    then have "s' = s\<lparr>m_pc := MCheck, threadMutex := Some Main\<rparr>" "threadMutex s = None"
      using st by (auto simp: mj_main_def split: if_splits)
    with D(10) MWoken show ?thesis by (intro live_main_pc [OF live, of s' "Some Main" MCheck]) (auto simp: pcs)
  next
    case MCheck
    then have mx: "threadMutex s = Some Main" using D(4) by (simp add: main_holds_def)
    show ?thesis
    proof (cases "numUnjoined s = 0")
      case True
      then have none: "\<not> unjoined (thread s ! i)" if "i < N" for i using D(1,5) that by (auto simp: cnt_zero)
      have s': "s' = s\<lparr>m_pc := MWaiting, threadMutex := None\<rparr>" using st MCheck True by (auto simp: mj_main_def)
      have "at_pc N s'" using s' D(10) MCheck none by (auto simp: at_pc_def unjoined_def)
      with s' mx MCheck show ?thesis by (intro live_main_pc [OF live, of s' None MWaiting]) (auto simp: main_holds_def creating_def)
    next
      case False
      then have "s' = s\<lparr>m_pc := MScan 0, threadMutex := Some Main\<rparr>" using st MCheck mx by (cases s) (auto simp: mj_main_def)
      with mx MCheck show ?thesis by (intro live_main_pc [OF live, of s' "Some Main" "MScan 0"]) (auto simp: pcs none_left_def)
    qed
  next
    case (MScan k)
    then have mx: "threadMutex s = Some Main" "totThreads s = N" using D(4,6) by (auto simp: main_holds_def creating_def)
    let ?p = "if k < N then if t_state (thread s ! k) = TS_TERMINATED then MJoin k else MScan (k + 1) else MUnlock"
    have s': "s' = s\<lparr>m_pc := ?p, threadMutex := Some Main\<rparr>" using st MScan mx by (cases s) (auto simp: mj_main_def split: if_splits)
    have "at_pc N s'"
      using s' D(10) MScan scan_done [OF live MScan] by (auto simp: at_pc_def none_left_def split: if_splits)
    with s' mx MScan show ?thesis by (intro live_main_pc [OF live, of s' "Some Main" ?p]) (auto simp: main_holds_def creating_def)
  next
    case (MJoin k)
    then show ?thesis using st live_join [OF live MJoin] by (auto simp: mj_main_def split: if_splits)
  next
    case MUnlock
    then have "s' = s\<lparr>m_pc := MTest, threadMutex := None\<rparr>" "threadMutex s = Some Main"
      using st D(4) by (auto simp: mj_main_def main_holds_def)
    with MUnlock show ?thesis by (intro live_main_pc [OF live, of s' None MTest]) (auto simp: pcs)
  qed (use st in \<open>simp_all add: mj_main_def\<close>)
qed

lemma live_wakeup:
  assumes live: "mj_live N s" and "m_pc s = MWaiting"
  shows "mj_live N (s\<lparr>m_pc := MWoken, spurious := w\<rparr>)"
  using mj_liveD [OF live] assms(2)
  unfolding mj_live_def by (simp add: main_holds_def creating_def at_pc_def)

section \<open>Output\<close>

lemma announced_snoc:
  "announced (ls @ [l]) \<longleftrightarrow> announced ls \<and> (\<forall>i n. l = Reaped i n \<longrightarrow> Terminating i \<in> set ls)"
proof
  assume a: "announced (ls @ [l])"
  have "Terminating i \<in> set us" if "ls = us @ Reaped i n # vs" for us i n vs
    using a that unfolding announced_def by (auto dest: spec [of _ us])
  moreover have "Terminating i \<in> set ls" if "l = Reaped i n" for i n
    using a that unfolding announced_def by blast
  ultimately show "announced ls \<and> (\<forall>i n. l = Reaped i n \<longrightarrow> Terminating i \<in> set ls)"
    unfolding announced_def by blast
next
  assume a: "announced ls \<and> (\<forall>i n. l = Reaped i n \<longrightarrow> Terminating i \<in> set ls)"
  have "Terminating i \<in> set us" if "ls @ [l] = us @ Reaped i n # vs" for us i n vs
    using a that unfolding announced_def by (cases vs rule: rev_cases) auto
  then show "announced (ls @ [l])" unfolding announced_def by blast
qed

lemma out_ok_terminating: "out_ok N ls \<Longrightarrow> out_ok N (ls @ [Terminating i])"
  unfolding out_ok_def by (simp add: announced_snoc)

lemma out_ok_reaped:
  assumes "out_ok N ls" "i \<notin> set (map fst (reaps ls))" "Terminating i \<in> set ls" "n = int N - 1 - int (length (reaps ls))"
  shows "out_ok N (ls @ [Reaped i n])"
  using assms unfolding out_ok_def by (auto simp: announced_snoc)

lemma out_thread:
  "out_ok N (printed s) \<Longrightarrow> threadFunc i s = Some s' \<Longrightarrow> out_ok N (printed s')"
  by (auto simp: threadFunc_def out_ok_terminating split: tpc.splits if_splits)

lemma out_main:
  assumes "out_ok N (printed s)" "mj_live N s" "mj_main args s = Some s'"
  shows "out_ok N (printed s')"
proof (cases "\<exists>k. m_pc s = MJoin k \<and> t_pc (thread s ! k) = TExit")
  case True
  then obtain k where k: "m_pc s = MJoin k" "t_pc (thread s ! k) = TExit" by blast
  note D = mj_liveD [OF assms(2)]
  have K: "k < N" "t_state (thread s ! k) = TS_TERMINATED" using D(10) k(1) by (auto simp: at_pc_def)
  have "printed s' = printed s @ [Reaped k (numLive s - 1)]" using assms(3) k by (auto simp: mj_main_def)
  moreover have "numLive s - 1 = int N - 1 - int (length (reaps (printed s)))"
    using D(7,12) k(1) cnt_bounds(1) [of joined "thread s"] by (simp add: creating_def)
  moreover have "k \<notin> set (map fst (reaps (printed s)))" using D(11) [of k] K by (simp add: joined_def)
  ultimately show ?thesis using out_ok_reaped [OF assms(1)] D(13) [OF K(1)] k(2) by simp
next
  case False
  then have "printed s' = printed s" using assms(3) by (auto simp: mj_main_def split: mpc.splits if_splits sum.splits)
  then show ?thesis using assms(1) by simp
qed

lemma mj_inv_step:
  assumes inv: "mj_inv (length args) s" and st: "mj_step args s s'"
  shows "mj_inv (length args) s'"
  using st
proof (cases rule: mj_step.cases)
  case (thread_step i)
  then have live: "mj_live (length args) s" using inv by (auto simp: mj_inv_def)
  with thread_step have "i < length args" by (auto dest: mj_liveD(1))
  with live thread_step inv show ?thesis by (auto simp: mj_inv_def intro: live_thread out_thread)
next
  case main_step
  then have "m_pc s \<noteq> MDead" by (auto simp: mj_main_def)
  with inv have live: "mj_live (length args) s" by (auto simp: mj_inv_def)
  with main_step inv show ?thesis by (auto simp: mj_inv_def intro: live_main out_main)
next
  case wakeup_step
  with inv show ?thesis by (auto simp: mj_inv_def intro: live_wakeup)
qed

lemma mj_inv_fstep: "mj_inv (length args) s \<Longrightarrow> mj_fstep args s s' \<Longrightarrow> mj_inv (length args) s'"
  by (erule mj_fstepE) (blast intro: mj_inv_step, simp add: mj_inv_def)

interpretation mjf: invariant_system "mj_fstep args" "mj_inv (length args)"
  by unfold_locales (rule mj_inv_fstep)

section \<open>Completion\<close>

text \<open>How many steps a thread has left, what it is worth until it is joined, and how far the main thread
  is from its next lap. A lap that has joined all terminated threads has paid for the next one.\<close>

primrec steps_left :: "tpc \<Rightarrow> nat" where
  "steps_left TNone = 7"
| "steps_left TSleep = 6"
| "steps_left TLock = 5"
| "steps_left TCount = 4"
| "steps_left TMark = 3"
| "steps_left TUnlock = 2"
| "steps_left TSignal = 1"
| "steps_left TExit = 0"

definition worth :: "nat \<Rightarrow> thr \<Rightarrow> nat" where
  "worth N t = 4 * steps_left (t_pc t) + (if joined t then 0 else 2 * N + 20)"

definition lap :: "nat \<Rightarrow> mj \<Rightarrow> nat" where
  "lap N s = (case m_pc s of
      MCreate k \<Rightarrow> 3 * N + 20 - k
    | MTest \<Rightarrow> 2 * N + 6 | MLock \<Rightarrow> 2 * N + 5 | MCheck \<Rightarrow> 2 * N + 4 | MWaiting \<Rightarrow> 2 * N + 3 | MWoken \<Rightarrow> 2 * N + 5
    | MScan k \<Rightarrow> 2 * (N - k) + 1 + (if none_left N s then 2 * N + 8 else 0)
    | MJoin k \<Rightarrow> 2 * (N - k)
    | MUnlock \<Rightarrow> 2 * N + 8
    | MDone \<Rightarrow> 0 | MDead \<Rightarrow> 0)"

definition mj_effort :: "nat \<Rightarrow> mj \<Rightarrow> nat" where
  "mj_effort N s = sum_list (map (worth N) (thread s)) + lap N s + 4 * spurious s"

lemma effort_thread:
  assumes live: "mj_live N s" and i: "i < N" and st: "threadFunc i s = Some s'"
  shows "mj_effort N s' < mj_effort N s"
proof -
  note D = mj_liveD [OF live]
  obtain t where t: "thread s' = (thread s)[i := t]" and
    dec: "worth N t + 4 \<le> worth N (thread s ! i)" and
    pc: "m_pc s' = m_pc s \<or> m_pc s = MWaiting \<and> m_pc s' = MWoken" and
    tm: "t_state (thread s ! i) = TS_TERMINATED \<Longrightarrow> t_state t = TS_TERMINATED" and sp: "spurious s' = spurious s"
    using st D(2) [OF i]
    by (auto simp: threadFunc_def worth_def joined_def thr_ok_def split: tpc.splits if_splits)
  have "none_left N s" if "none_left N s'"
    using that tm i D(1) unfolding none_left_def t by (metis nth_list_update)
  then have "lap N s' \<le> lap N s + 2" using pc by (auto simp: lap_def split: mpc.splits)
  moreover have "sum_list (map (worth N) (thread s')) + 4 \<le> sum_list (map (worth N) (thread s))"
    using sum_map_update_nat [of i "thread s" "worth N" t] dec i D(1) t by simp
  ultimately show ?thesis using sp by (simp add: mj_effort_def)
qed

lemma main_scans:
  assumes live: "mj_live N s" and "m_pc s = MCheck" "numUnjoined s \<noteq> 0"
  shows "\<not> none_left N s"
proof -
  note D = mj_liveD [OF live]
  obtain t where "t \<in> set (thread s)" "unjoined t" using D(5) assms(3) by (auto simp: cnt_zero)
  then obtain i where i: "i < N" "unjoined (thread s ! i)" using D(1) by (auto simp: in_set_conv_nth)
  moreover have "threadMutex s = Some Main" using D(4) assms(2) by (simp add: main_holds_def)
  ultimately have "t_state (thread s ! i) = TS_TERMINATED" using D(2) [OF i(1)] by (auto simp: unjoined_def thr_ok_def)
  with i(1) show ?thesis by (auto simp: none_left_def)
qed

lemma effort_create:
  assumes live: "mj_live N s" and N: "N = length args" and pc: "m_pc s = MCreate k" and st: "mj_main args s = Some s'"
  shows "mj_effort N s' < mj_effort N s"
proof -
  note D = mj_liveD [OF live]
  have k: "k \<le> N" "k < N \<Longrightarrow> t_pc (thread s ! k) = TNone" using D(10) pc by (auto simp: at_pc_def)
  consider (dead) "s' = s\<lparr>m_pc := MDead\<rparr>"
    | (new) n where "k < N" "s' = set_thr k (\<lambda>_. \<lparr>t_pc = TSleep, t_state = TS_ALIVE, sleepTime = n\<rparr>) (s\<lparr>m_pc := MCreate (k + 1)\<rparr>)"
    | (all) "s' = s\<lparr>totThreads := N, numLive := int N, m_pc := MTest\<rparr>"
    using st pc N by (auto simp: mj_main_def split: if_splits sum.splits)
  then show ?thesis
  proof cases
    case new
    let ?t = "\<lparr>t_pc = TSleep, t_state = TS_ALIVE, sleepTime = n\<rparr>"
    have "worth N ?t \<le> worth N (thread s ! k)"
      using D(2) [OF new(1)] k(2) [OF new(1)] by (simp add: worth_def thr_ok_def joined_def)
    with new pc k(1) D(1) sum_map_update_nat [of k "thread s" "worth N" ?t] show ?thesis
      by (simp add: mj_effort_def lap_def)
  qed (use k(1) pc in \<open>simp_all add: mj_effort_def lap_def\<close>)
qed

lemma effort_main:
  assumes live: "mj_live N s" and N: "N = length args" and st: "mj_main args s = Some s'"
  shows "mj_effort N s' < mj_effort N s"
proof -
  note D = mj_liveD [OF live]
  show ?thesis
  proof (cases "\<exists>k. m_pc s = MCreate k \<or> m_pc s = MJoin k")
    case True
    then consider (create) k where "m_pc s = MCreate k" | (join) k where "m_pc s = MJoin k" by blast
    then show ?thesis
    proof cases
      case create
      then show ?thesis by (rule effort_create [OF live N _ st])
    next
      case join
      with D(10) have k: "k < N" "t_state (thread s ! k) = TS_TERMINATED" by (auto simp: at_pc_def)
      let ?t = "(thread s ! k)\<lparr>t_state := TS_JOINED\<rparr>"
      have e: "t_pc (thread s ! k) = TExit" "thread s' = (thread s)[k := ?t]" "m_pc s' = MScan (k + 1)" "spurious s' = spurious s"
        using st join by (auto simp: mj_main_def split: if_splits)
      have "worth N (thread s ! k) = 2 * N + 20" "worth N ?t = 0" using k e(1) by (simp_all add: worth_def joined_def)
      then have "sum_list (map (worth N) (thread s')) + (2 * N + 20) = sum_list (map (worth N) (thread s))"
        using sum_map_update_nat [of k "thread s" "worth N" ?t] k(1) D(1) e(2) by simp
      moreover have "lap N s' \<le> lap N s + (2 * N + 9)" using join e(3) k(1) by (auto simp: lap_def)
      ultimately show ?thesis using e(4) by (simp add: mj_effort_def)
    qed
  next
    case False
    then have "thread s' = thread s" "spurious s' = spurious s"
      using st by (auto simp: mj_main_def split: mpc.splits if_splits)
    moreover have "lap N s' < lap N s"
    proof (cases "m_pc s")
      case (MScan k)
      then have "k \<le> N" "totThreads s = N" using D(6,10) by (auto simp: at_pc_def creating_def)
      with MScan st scan_done [OF live MScan] show ?thesis
        by (auto simp: mj_main_def lap_def none_left_def split: if_splits)
    next
      case MCheck
      with st main_scans [OF live MCheck] show ?thesis by (auto simp: mj_main_def lap_def none_left_def split: if_splits)
    qed (use st False in \<open>auto simp: mj_main_def lap_def split: if_splits\<close>)
    ultimately show ?thesis by (simp add: mj_effort_def)
  qed
qed

definition mj_final :: "mj \<Rightarrow> bool" where
  "mj_final s \<longleftrightarrow> m_pc s \<in> {MDone, MDead}"

lemma effort_step:
  assumes "mj_inv (length args) s" "mj_step args s s'"
  shows "mj_effort (length args) s' < mj_effort (length args) s"
  using assms(2)
proof (cases rule: mj_step.cases)
  case (thread_step i)
  then have live: "mj_live (length args) s" using assms(1) by (auto simp: mj_inv_def)
  with thread_step show ?thesis using mj_liveD(1) [OF live] by (auto intro: effort_thread)
next
  case main_step
  then have "m_pc s \<noteq> MDead" by (auto simp: mj_main_def)
  with assms(1) main_step show ?thesis by (auto simp: mj_inv_def intro: effort_main)
next
  case wakeup_step
  then show ?thesis by (simp add: mj_effort_def lap_def)
qed

text \<open>Some thread or the main thread can go on.\<close>

lemma mj_progress:
  assumes inv: "mj_inv (length args) s" and nf: "\<not> mj_final s"
  shows "\<exists>s'. mj_step args s s'"
proof (rule ccontr)
  assume stuck: "\<nexists>s'. mj_step args s s'"
  let ?N = "length args"
  have live: "mj_live ?N s" using inv nf by (simp add: mj_inv_def mj_final_def)
  note D = mj_liveD [OF live]
  have nt: "threadFunc i s = None" if "i < ?N" for i
    using stuck thread_step [of i s _ args] that D(1) nf by (cases "threadFunc i s") (auto simp: mj_final_def)
  have nm: "mj_main args s = None" using stuck main_step [of args s] by (cases "mj_main args s") auto
  have rest: "t_pc (thread s ! i) \<in> {TNone, TLock, TExit}" "t_pc (thread s ! i) = TLock \<Longrightarrow> threadMutex s \<noteq> None" if "i < ?N" for i
    using nt [OF that] by (auto simp: threadFunc_def split: tpc.splits if_splits)
  have noth: "threadMutex s \<noteq> Some (Thread i)" for i
    using D(2) [of i] D(3) [of i] rest(1) [of i] by (auto simp: thr_ok_def)
  consider (join) k where "m_pc s = MJoin k" | (lock) "m_pc s = MLock \<or> m_pc s = MWoken" "threadMutex s \<noteq> None" | (wait) "m_pc s = MWaiting"
    using nm nf by (auto simp: mj_main_def mj_final_def split: mpc.splits if_splits sum.splits)
  then show False
  proof cases
    case join
    with D(10) have k: "k < ?N" "t_state (thread s ! k) = TS_TERMINATED" by (auto simp: at_pc_def)
    with rest(1) [OF k(1)] D(2) [OF k(1)] have "t_pc (thread s ! k) = TExit" by (auto simp: thr_ok_def)
    with nm join show False by (simp add: mj_main_def)
  next
    case lock
    then obtain w where "threadMutex s = Some w" by auto
    with noth have "threadMutex s = Some Main" by (cases w) auto
    with D(4) lock(1) show False by (auto simp: main_holds_def)
  next
    case wait
    then have free: "threadMutex s = None" using D(4) noth by (cases "threadMutex s"; metis main_holds_def mpc.distinct owner.exhaust empty_iff insert_iff)
    have "joined (thread s ! i)" if "i < ?N" for i
    proof -
      have pc: "t_pc (thread s ! i) = TExit" using rest [OF that] free D(8) [OF _ that] wait by (auto simp: creating_def)
      then have "t_state (thread s ! i) \<noteq> TS_ALIVE" using D(2) [OF that] by (simp add: thr_ok_def)
      moreover have "t_state (thread s ! i) \<noteq> TS_TERMINATED" using D(10) wait that pc by (auto simp: at_pc_def)
      ultimately show ?thesis by (cases "t_state (thread s ! i)") (simp_all add: joined_def)
    qed
    then have "cnt joined (thread s) = int ?N" using D(1) cnt_all [of joined "thread s"] by (auto simp: in_set_conv_nth)
    with D(7,10) wait show False by (simp add: at_pc_def creating_def)
  qed
qed

interpretation mj: completing_system "mj_step args" "mj_inv (length args)" "mj_effort (length args)" mj_final
  by unfold_locales (auto intro: mj_inv_step effort_step mj_progress)

section \<open>Properties\<close>

lemma mj_done:
  assumes "mj_inv N s" "m_pc s = MDone"
  shows "set (map fst (reaps (printed s))) = {0..<N}" "map snd (reaps (printed s)) = map (\<lambda>j. int N - 1 - int j) [0..<N]"
proof -
  have live: "mj_live N s" and out: "out_ok N (printed s)" using assms by (auto simp: mj_inv_def)
  note D = mj_liveD [OF live]
  have "cnt joined (thread s) = int (length (thread s))" using D(1,7,10) assms(2) by (simp add: at_pc_def creating_def)
  then have "joined (thread s ! i)" if "i < N" for i using D(1) that by (auto simp: cnt_all)
  then show "set (map fst (reaps (printed s))) = {0..<N}" using D(11) unfolding set_eq_iff atLeastLessThan_iff by blast
  have "length (reaps (printed s)) = N" using D(1,7,10,12) assms(2) by (simp add: at_pc_def creating_def)
  then show "map snd (reaps (printed s)) = map (\<lambda>j. int N - 1 - int j) [0..<N]" using out by (simp add: out_ok_def)
qed

text \<open>C5. For any number of threads, any interleaving, any spurious wakeups and any failing call: no thread is
  reaped twice or before it has announced its end, the numbers of live threads printed count down by one
  from \<open>N - 1\<close>, and if the program gets to its \<^verbatim>\<open>exit\<close>, every thread has been reaped.\<close>

theorem multijoin_safe:
  assumes run: "(mj_fstep args)\<^sup>*\<^sup>* (mj_init args w) s"
  shows "distinct (map fst (reaps (printed s))) \<and> announced (printed s)
    \<and> map snd (reaps (printed s)) = map (\<lambda>j. int (length args) - 1 - int j) [0..<length (reaps (printed s))]
    \<and> (m_pc s = MDone \<longrightarrow> set (map fst (reaps (printed s))) = {0..<length args} \<and> numLive s = 0)"
proof -
  have inv: "mj_inv (length args) s" by (rule mjf.run_inv [OF run mj_inv_init])
  moreover have "numLive s = 0" if "m_pc s = MDone"
    using inv that mj_liveD(10) [of "length args" s] by (auto simp: mj_inv_def at_pc_def)
  ultimately show ?thesis using mj_done [OF inv] by (auto simp: mj_inv_def out_ok_def)
qed

definition valid_secs :: "string list \<Rightarrow> bool" where
  "valid_secs args \<longleftrightarrow> (\<forall>a \<in> set args. \<exists>n. getInt (Some a) GN_NONNEG None = Inr n)"

lemma alive_step:
  assumes "valid_secs args" "mj_step args s s'" "m_pc s \<noteq> MDead"
  shows "m_pc s' \<noteq> MDead"
  using assms(2)
proof (cases rule: mj_step.cases)
  case main_step
  with assms(1,3) show ?thesis
    by (auto simp: mj_main_def valid_secs_def all_set_conv_all_nth split: mpc.splits if_splits sum.splits)
qed (use assms(3) in \<open>auto simp: threadFunc_def split: tpc.splits if_splits\<close>)

lemma alive_run: "(mj_step args)\<^sup>*\<^sup>* s s' \<Longrightarrow> valid_secs args \<Longrightarrow> m_pc s \<noteq> MDead \<Longrightarrow> m_pc s' \<noteq> MDead"
  by (induction rule: rtranclp_induct) (auto dest: alive_step)

text \<open>C6. With valid arguments, when no call fails and for any bound \<open>w\<close> on the number of spurious wakeups: there is
  no infinite run, the program never blocks (a run that cannot be continued has reached \<^verbatim>\<open>exit\<close>), and
  then every thread has been reaped exactly once.\<close>

theorem multijoin_completes:
  assumes valid: "valid_secs args"
  shows "(\<forall>f. f 0 = mj_init args w \<longrightarrow> (\<exists>n. \<not> mj_step args (f n) (f (Suc n))))
    \<and> (\<forall>s. (mj_step args)\<^sup>*\<^sup>* (mj_init args w) s \<and> (\<nexists>s'. mj_step args s s') \<longrightarrow>
         m_pc s = MDone \<and> distinct (map fst (reaps (printed s))) \<and> set (map fst (reaps (printed s))) = {0..<length args})"
proof (intro conjI allI impI)
  fix f :: "nat \<Rightarrow> mj"
  assume "f 0 = mj_init args w"
  then show "\<exists>n. \<not> mj_step args (f n) (f (Suc n))" using mj.no_infinite_run [of args f] mj_inv_init by simp
next
  fix s
  assume r: "(mj_step args)\<^sup>*\<^sup>* (mj_init args w) s \<and> (\<nexists>s'. mj_step args s s')"
  have "mj_final s" using mj.stuck_final [of args "mj_init args w" s] r mj_inv_init by blast
  moreover have "m_pc s \<noteq> MDead" using alive_run [OF _ valid] r by (auto simp: mj_init_def)
  ultimately show d: "m_pc s = MDone" by (simp add: mj_final_def)
  have inv: "mj_inv (length args) s" using mj.run_inv r mj_inv_init by blast
  then show "distinct (map fst (reaps (printed s)))" by (simp add: mj_inv_def out_ok_def)
  show "set (map fst (reaps (printed s))) = {0..<length args}" by (rule mj_done [OF inv d])
qed

lemma sample_secs: "valid_secs [''1'', ''0'']"
proof -
  have "getInt (Some ''1'') GN_NONNEG None = Inr 1" "getInt (Some ''0'') GN_NONNEG None = Inr 0" by code_simp+
  then show ?thesis by (simp add: valid_secs_def)
qed

theorem multijoin_completes_witness:
  "\<exists>s. (mj_step [''1'', ''0''])\<^sup>*\<^sup>* (mj_init [''1'', ''0''] 1) s \<and> m_pc s = MDone \<and> set (map fst (reaps (printed s))) = {0, 1}"
proof -
  obtain s where r: "(mj_step [''1'', ''0''])\<^sup>*\<^sup>* (mj_init [''1'', ''0''] 1) s" and f: "mj_final s"
    using mj.reaches_final mj_inv_init by blast
  have stuck: "\<nexists>s'. mj_step [''1'', ''0''] s s'"
    using f by (auto simp: mj_final_def mj_main_def elim!: mj_stepE)
  have "{0..<length [''1'', ''0'']} = {0, 1 :: nat}" by auto
  then show ?thesis using multijoin_completes [OF sample_secs, of 1] r stuck by metis
qed

theorem multijoin_safe_witness:
  "\<exists>s. (mj_fstep [''1'', ''0''])\<^sup>*\<^sup>* (mj_init [''1'', ''0''] 1) s \<and> m_pc s = MDone \<and> numLive s = 0
     \<and> distinct (map fst (reaps (printed s))) \<and> announced (printed s)"
proof -
  obtain s where r: "(mj_step [''1'', ''0''])\<^sup>*\<^sup>* (mj_init [''1'', ''0''] 1) s" and f: "mj_final s"
    using mj.reaches_final mj_inv_init by blast
  have d: "m_pc s = MDone"
    using f alive_run [OF r sample_secs] by (auto simp: mj_final_def mj_init_def)
  have "(mj_fstep [''1'', ''0''])\<^sup>*\<^sup>* (mj_init [''1'', ''0''] 1) s"
    using r by (rule rtranclp_mono [THEN predicate2D, rotated]) (auto intro: no_failure)
  with multijoin_safe [OF this] d show ?thesis by blast
qed

end
