(* ===== verification/Prod_Cond.thy ===== *)
theory Prod_Cond
  imports Runs CLib
begin

text \<open>
  \<^verbatim>\<open>tlpi-book/threads/prod_condvar.c\<close>: producers that add units to a counter under a mutex and signal a
  condition variable, and a main thread that consumes them until it has as many as the arguments ask for.
  The conventions are those of theory \<open>Multijoin\<close>: a step is one access to the shared variables or one
  call, waiting releases the mutex, wakeups may be spurious. A failing call ends the process, and so does,
  as undefined behaviour, an overflow of one of the \<^verbatim>\<open>int\<close> variables \<^verbatim>\<open>totRequired\<close>, \<^verbatim>\<open>avail\<close> and \<^verbatim>\<open>numConsumed\<close>.
\<close>

section \<open>State\<close>

datatype ppc = PNone | PLoop | PLock | PInc | PUnlock | PSignal | PExit

datatype cpc = CCreate nat | CLock | CCheck | CWaiting | CWoken | CEat | CUnlock | CTest | CDone | CDead

datatype holder = Consumer | Producer nat

record prod =
  p_pc :: ppc
  p_arg :: string
  p_j :: int

record pcond =
  prods :: "prod list"
  c_pc :: cpc
  mtx :: "holder option"
  avail :: int
  totRequired :: int
  numConsumed :: int
  done_flag :: bool
  wakeups :: nat

section \<open>Steps\<close>

definition set_prod :: "nat \<Rightarrow> (prod \<Rightarrow> prod) \<Rightarrow> pcond \<Rightarrow> pcond" where
  "set_prod i f s = s\<lparr>prods := (prods s)[i := f (prods s ! i)]\<rparr>"

abbreviation prod_pc :: "nat \<Rightarrow> ppc \<Rightarrow> pcond \<Rightarrow> pcond" where
  "prod_pc i p \<equiv> set_prod i (p_pc_update (\<lambda>_. p))"

definition producer :: "nat \<Rightarrow> pcond \<Rightarrow> pcond option" where
  "producer i s = (let p = prods s ! i in case p_pc p of
      PNone \<Rightarrow> None
    | PLoop \<Rightarrow> Some (prod_pc i (if p_j p < atoi (p_arg p) then PLock else PExit) s)
    | PLock \<Rightarrow> if mtx s = None then Some (prod_pc i PInc (s\<lparr>mtx := Some (Producer i)\<rparr>)) else None
    | PInc \<Rightarrow> if avail s = INT_MAX then Some (prod_pc i PUnlock (s\<lparr>c_pc := CDead\<rparr>))
        else Some (prod_pc i PUnlock (s\<lparr>avail := avail s + 1\<rparr>))
    | PUnlock \<Rightarrow> Some (prod_pc i PSignal (s\<lparr>mtx := None\<rparr>))
    | PSignal \<Rightarrow> Some (set_prod i (\<lambda>p. p\<lparr>p_j := p_j p + 1, p_pc := PLoop\<rparr>)
        (s\<lparr>c_pc := if c_pc s = CWaiting then CWoken else c_pc s\<rparr>))
    | PExit \<Rightarrow> None)"

definition consumer :: "pcond \<Rightarrow> pcond option" where
  "consumer s = (case c_pc s of
      CCreate k \<Rightarrow>
        if k < length (prods s)
        then let t = totRequired s + atoi (p_arg (prods s ! k)) in
          if t < INT_MIN \<or> INT_MAX < t then Some (s\<lparr>c_pc := CDead\<rparr>)
          else Some (prod_pc k PLoop (s\<lparr>totRequired := t, c_pc := CCreate (k + 1)\<rparr>))
        else Some (s\<lparr>numConsumed := 0, done_flag := False, c_pc := CLock\<rparr>)
    | CLock \<Rightarrow> if mtx s = None then Some (s\<lparr>mtx := Some Consumer, c_pc := CCheck\<rparr>) else None
    | CCheck \<Rightarrow> if avail s = 0 then Some (s\<lparr>mtx := None, c_pc := CWaiting\<rparr>) else Some (s\<lparr>c_pc := CEat\<rparr>)
    | CWaiting \<Rightarrow> None
    | CWoken \<Rightarrow> if mtx s = None then Some (s\<lparr>mtx := Some Consumer, c_pc := CCheck\<rparr>) else None
    | CEat \<Rightarrow> if avail s > 0
        then if numConsumed s = INT_MAX then Some (s\<lparr>c_pc := CDead\<rparr>) else Some (s\<lparr>numConsumed := numConsumed s + 1, avail := avail s - 1,
               done_flag := numConsumed s + 1 \<ge> totRequired s\<rparr>)
        else Some (s\<lparr>c_pc := CUnlock\<rparr>)
    | CUnlock \<Rightarrow> Some (s\<lparr>mtx := None, c_pc := CTest\<rparr>)
    | CTest \<Rightarrow> Some (s\<lparr>c_pc := if done_flag s then CDone else CLock\<rparr>)
    | CDone \<Rightarrow> None
    | CDead \<Rightarrow> None)"

definition pc_init :: "string list \<Rightarrow> nat \<Rightarrow> pcond" where
  "pc_init args w = \<lparr>prods = map (\<lambda>a. \<lparr>p_pc = PNone, p_arg = a, p_j = 0\<rparr>) args, c_pc = CCreate 0, mtx = None,
     avail = 0, totRequired = 0, numConsumed = 0, done_flag = False, wakeups = w\<rparr>"

inductive pc_step :: "pcond \<Rightarrow> pcond \<Rightarrow> bool" where
  producer_step: "i < length (prods s) \<Longrightarrow> c_pc s \<notin> {CDone, CDead} \<Longrightarrow> producer i s = Some s' \<Longrightarrow> pc_step s s'"
| consumer_step: "consumer s = Some s' \<Longrightarrow> pc_step s s'"
| wake_step: "c_pc s = CWaiting \<Longrightarrow> wakeups s > 0 \<Longrightarrow> pc_step s (s\<lparr>c_pc := CWoken, wakeups := wakeups s - 1\<rparr>)"

inductive pc_fstep :: "pcond \<Rightarrow> pcond \<Rightarrow> bool" where
  works: "pc_step s s' \<Longrightarrow> pc_fstep s s'"
| fails: "c_pc s \<notin> {CDone, CDead} \<Longrightarrow> pc_fstep s (s\<lparr>c_pc := CDead\<rparr>)"

inductive_cases pc_stepE: "pc_step s s'"
inductive_cases pc_fstepE: "pc_fstep s s'"

lemma set_prod_sel [simp]:
  "prods (set_prod i f s) = (prods s)[i := f (prods s ! i)]" "c_pc (set_prod i f s) = c_pc s"
  "mtx (set_prod i f s) = mtx s" "avail (set_prod i f s) = avail s" "totRequired (set_prod i f s) = totRequired s"
  "numConsumed (set_prod i f s) = numConsumed s" "done_flag (set_prod i f s) = done_flag s"
  "wakeups (set_prod i f s) = wakeups s"
  by (simp_all add: set_prod_def)

section \<open>Invariant\<close>

definition quota :: "prod \<Rightarrow> int" where
  "quota p = max 0 (atoi (p_arg p))"

text \<open>Units a producer has added.\<close>

definition produced :: "prod \<Rightarrow> int" where
  "produced p = p_j p + of_bool (p_pc p \<in> {PUnlock, PSignal})"

definition prod_ok :: "holder option \<Rightarrow> nat \<Rightarrow> prod \<Rightarrow> bool" where
  "prod_ok mx i p \<longleftrightarrow> 0 \<le> p_j p \<and> p_j p \<le> quota p \<and>
     (p_pc p \<in> {PLock, PInc, PUnlock, PSignal} \<longrightarrow> p_j p < atoi (p_arg p)) \<and>
     (p_pc p = PExit \<longrightarrow> p_j p = quota p) \<and> (p_pc p = PNone \<longrightarrow> p_j p = 0) \<and>
     (mx = Some (Producer i) \<longleftrightarrow> p_pc p \<in> {PInc, PUnlock})"

definition consumer_holds :: "cpc \<Rightarrow> bool" where
  "consumer_holds p \<longleftrightarrow> p \<in> {CCheck, CEat, CUnlock}"

definition at_cpc :: "pcond \<Rightarrow> bool" where
  "at_cpc s = (case c_pc s of
      CCreate k \<Rightarrow> k \<le> length (prods s) \<and> numConsumed s = 0 \<and>
        (\<forall>i < length (prods s). p_pc (prods s ! i) = PNone \<longleftrightarrow> k \<le> i) \<and>
        totRequired s = sum_list (map (\<lambda>p. atoi (p_arg p)) (take k (prods s)))
    | CWaiting \<Rightarrow> \<not> done_flag s \<and> (avail s > 0 \<longrightarrow> (\<exists>p \<in> set (prods s). p_pc p \<in> {PUnlock, PSignal}))
    | CLock \<Rightarrow> \<not> done_flag s | CCheck \<Rightarrow> \<not> done_flag s | CWoken \<Rightarrow> \<not> done_flag s
    | CUnlock \<Rightarrow> avail s = 0
    | CDone \<Rightarrow> done_flag s
    | _ \<Rightarrow> True)"

definition pc_live :: "string list \<Rightarrow> pcond \<Rightarrow> bool" where
  "pc_live args s \<longleftrightarrow> map p_arg (prods s) = args \<and>
     (\<forall>i < length (prods s). prod_ok (mtx s) i (prods s ! i)) \<and>
     (\<forall>i. mtx s = Some (Producer i) \<longrightarrow> i < length (prods s)) \<and>
     (mtx s = Some Consumer \<longleftrightarrow> consumer_holds (c_pc s)) \<and>
     0 \<le> avail s \<and> 0 \<le> numConsumed s \<and> avail s + numConsumed s = sum_list (map produced (prods s)) \<and>
     (done_flag s \<longleftrightarrow> numConsumed s > 0 \<and> numConsumed s \<ge> totRequired s) \<and>
     ((\<nexists>k. c_pc s = CCreate k) \<longrightarrow> totRequired s = sum_list (map atoi args) \<and> (\<forall>p \<in> set (prods s). p_pc p \<noteq> PNone)) \<and>
     at_cpc s"

definition pc_inv :: "string list \<Rightarrow> pcond \<Rightarrow> bool" where
  "pc_inv args s \<longleftrightarrow> (c_pc s \<noteq> CDead \<longrightarrow> pc_live args s)"

lemma pc_liveD:
  assumes "pc_live args s"
  shows "map p_arg (prods s) = args" "i < length (prods s) \<Longrightarrow> prod_ok (mtx s) i (prods s ! i)"
    "mtx s = Some (Producer j) \<Longrightarrow> j < length (prods s)" "mtx s = Some Consumer \<longleftrightarrow> consumer_holds (c_pc s)"
    "0 \<le> avail s" "0 \<le> numConsumed s" "avail s + numConsumed s = sum_list (map produced (prods s))"
    "done_flag s \<longleftrightarrow> numConsumed s > 0 \<and> numConsumed s \<ge> totRequired s"
    "\<nexists>k. c_pc s = CCreate k \<Longrightarrow> totRequired s = sum_list (map atoi args)"
    "\<nexists>k. c_pc s = CCreate k \<Longrightarrow> p \<in> set (prods s) \<Longrightarrow> p_pc p \<noteq> PNone" "at_cpc s"
  using assms unfolding pc_live_def by blast+

lemma pc_inv_init: "pc_inv args (pc_init args w)"
proof -
  have "sum_list (map produced (prods (pc_init args w))) = 0"
    by (induction args) (simp_all add: pc_init_def produced_def)
  then show ?thesis
    by (simp add: pc_inv_def pc_live_def pc_init_def prod_ok_def consumer_holds_def at_cpc_def quota_def comp_def)
qed

lemma at_cpc_prod:
  assumes "at_cpc s" "c_pc s' = c_pc s" "prods s' = (prods s)[i := p]" "i < length (prods s)" "p_arg p = p_arg (prods s ! i)"
    and "done_flag s' = done_flag s" "numConsumed s' = numConsumed s" "totRequired s' = totRequired s"
    and "p_pc p \<noteq> PNone" "p_pc (prods s ! i) \<noteq> PNone"
    and "avail s' = avail s \<or> \<not> consumer_holds (c_pc s)"
    and "c_pc s = CWaiting \<Longrightarrow> p_pc p \<in> {PUnlock, PSignal} \<or> avail s' = avail s \<and> p_pc (prods s ! i) \<notin> {PUnlock, PSignal}"
  shows "at_cpc s'"
proof (cases "c_pc s")
  case (CCreate k)
  have "map (\<lambda>p. atoi (p_arg p)) (prods s') = map (\<lambda>p. atoi (p_arg p)) (prods s)"
    using assms(3-5) by (simp add: map_update) (metis (no_types, lifting) list_update_id map_update nth_map)
  then have "map (\<lambda>p. atoi (p_arg p)) (take k (prods s')) = map (\<lambda>p. atoi (p_arg p)) (take k (prods s))" by (simp add: take_map [symmetric])
  with CCreate assms show ?thesis by (auto simp: at_cpc_def nth_list_update)
next
  case CWaiting
  have "\<exists>q \<in> set (prods s'). p_pc q \<in> {PUnlock, PSignal}" if av: "avail s' > 0"
  proof (cases "p_pc p \<in> {PUnlock, PSignal}")
    case True
    then show ?thesis using assms(3,4) by (metis set_update_memI)
  next
    case False
    with assms(12) CWaiting have "avail s > 0" "p_pc (prods s ! i) \<notin> {PUnlock, PSignal}" using av by auto
    with assms(1) CWaiting obtain q where "q \<in> set (prods s)" "p_pc q \<in> {PUnlock, PSignal}" by (auto simp: at_cpc_def)
    then obtain j where "j < length (prods s)" "prods s ! j = q" "j \<noteq> i" using \<open>p_pc (prods s ! i) \<notin> _\<close> by (metis in_set_conv_nth)
    then have "q \<in> set (prods s')" using assms(3) by (metis length_list_update nth_list_update_neq nth_mem)
    then show ?thesis using \<open>p_pc q \<in> _\<close> by blast
  qed
  with assms CWaiting show ?thesis by (simp add: at_cpc_def)
qed (use assms in \<open>auto simp: at_cpc_def consumer_holds_def\<close>)

lemma live_prod_update:
  assumes live: "pc_live args s" and i: "i < length (prods s)" "prods s' = (prods s)[i := p]" "p_arg p = p_arg (prods s ! i)"
    and ok: "prod_ok (mtx s') i p"
    and mx: "mtx s' = mtx s \<or> mtx s = None \<and> mtx s' = Some (Producer i) \<or> mtx s = Some (Producer i) \<and> mtx s' = None"
    and pc: "consumer_holds (c_pc s') = consumer_holds (c_pc s)" "(\<exists>k. c_pc s' = CCreate k) = (\<exists>k. c_pc s = CCreate k)" "at_cpc s'"
    and av: "avail s' = avail s + produced p - produced (prods s ! i)" "avail s' \<ge> 0"
    and eq: "done_flag s' = done_flag s" "numConsumed s' = numConsumed s" "totRequired s' = totRequired s \<or> numConsumed s = 0 \<and> (\<exists>k. c_pc s' = CCreate k)"
    and nn: "p_pc p \<noteq> PNone"
  shows "pc_live args s'"
proof -
  note D = pc_liveD [OF live]
  have nth: "prods s' ! j = (if j = i then p else prods s ! j)" for j using i(1,2) by simp
  have len: "length (prods s') = length (prods s)" using i(2) by simp
  have "mtx s' = Some (Producer j) \<longleftrightarrow> mtx s = Some (Producer j)" if "j \<noteq> i" for j using mx that by auto
  then have "prod_ok (mtx s') j (prods s' ! j)" if "j < length (prods s')" for j
    using D(2) [of j] that ok len by (simp add: nth prod_ok_def)
  moreover have "map p_arg (prods s') = args"
    unfolding D(1) [symmetric] i(2) map_update i(3) by (metis list_update_id map_update)
  moreover have "j < length (prods s')" if "mtx s' = Some (Producer j)" for j using mx D(3) i(1) that len by auto
  moreover have "mtx s' = Some Consumer \<longleftrightarrow> consumer_holds (c_pc s')" using mx D(4) pc(1) by auto
  moreover have "avail s' + numConsumed s' = sum_list (map produced (prods s'))"
    using D(7) av(1) eq(2) i(1) unfolding i(2) by (simp add: sum_map_update)
  moreover have "p_pc q \<noteq> PNone" if "q \<in> set (prods s')" "\<nexists>k. c_pc s' = CCreate k" for q
    using that D(10) [of q] pc(2) nn i by (metis insert_iff set_update_subset_insert subsetD)
  moreover have "done_flag s' \<longleftrightarrow> numConsumed s' > 0 \<and> numConsumed s' \<ge> totRequired s'"
    "(\<nexists>k. c_pc s' = CCreate k) \<longrightarrow> totRequired s' = sum_list (map atoi args)"
    "0 \<le> numConsumed s'"
    using D(6,8,9) eq pc(2) by auto
  ultimately show ?thesis
    unfolding pc_live_def using pc(3) av(2) by blast
qed

lemma live_producer:
  assumes live: "pc_live args s" and i: "i < length (prods s)" and st: "producer i s = Some s'" and nd: "c_pc s' \<noteq> CDead"
  shows "pc_live args s'"
proof -
  note D = pc_liveD [OF live] and up = live_prod_update [OF live i] and at = at_cpc_prod [OF pc_liveD(11) [OF live]]
  note ok = D(2) [OF i] and defs = prod_ok_def produced_def quota_def
  let ?p = "prods s ! i"
  show ?thesis
  proof (cases "p_pc ?p")
    case PLoop
    let ?q = "if p_j ?p < atoi (p_arg ?p) then PLock else PExit"
    have s': "s' = prod_pc i ?q s" using st PLoop by (auto simp: producer_def)
    with PLoop ok i D(5) show ?thesis
      by (intro up [of s' "?p\<lparr>p_pc := ?q\<rparr>"] at [of s' i "?p\<lparr>p_pc := ?q\<rparr>"]) (auto simp: defs)
  next
    case PLock
    then have "s' = prod_pc i PInc (s\<lparr>mtx := Some (Producer i)\<rparr>)" "mtx s = None"
      using st by (auto simp: producer_def split: if_splits)
    with PLock ok i D(5) show ?thesis
      by (intro up [of s' "?p\<lparr>p_pc := PInc\<rparr>"] at [of s' i "?p\<lparr>p_pc := PInc\<rparr>"]) (auto simp: defs)
  next
    case PInc
    then have "s' = prod_pc i PUnlock (s\<lparr>avail := avail s + 1\<rparr>)"
      using st nd by (auto simp: producer_def split: if_splits)
    moreover have "\<not> consumer_holds (c_pc s)" using D(4) ok PInc by (auto simp: prod_ok_def)
    ultimately show ?thesis
      using PInc ok i D(5)
      by (intro up [of s' "?p\<lparr>p_pc := PUnlock\<rparr>"] at [of s' i "?p\<lparr>p_pc := PUnlock\<rparr>"]) (auto simp: defs)
  next
    case PUnlock
    then have "s' = prod_pc i PSignal (s\<lparr>mtx := None\<rparr>)" using st by (auto simp: producer_def)
    with PUnlock ok i D(5) show ?thesis
      by (intro up [of s' "?p\<lparr>p_pc := PSignal\<rparr>"] at [of s' i "?p\<lparr>p_pc := PSignal\<rparr>"]) (auto simp: defs)
  next
    case PSignal
    let ?q = "?p\<lparr>p_j := p_j ?p + 1, p_pc := PLoop\<rparr>"
    let ?c = "if c_pc s = CWaiting then CWoken else c_pc s"
    have s': "s' = set_prod i (\<lambda>p. p\<lparr>p_j := p_j p + 1, p_pc := PLoop\<rparr>) (s\<lparr>c_pc := ?c\<rparr>)"
      using st PSignal by (auto simp: producer_def)
    have "at_cpc s'"
    proof (cases "c_pc s = CWaiting")
      case True
      with D(11) s' show ?thesis by (simp add: at_cpc_def)
    next
      case False
      with s' PSignal i show ?thesis by (intro at [of s' i ?q]) auto
    qed
    moreover have "prod_ok (mtx s') i ?q" using ok PSignal s' by (auto simp: prod_ok_def quota_def)
    moreover have "produced ?q = produced ?p" using PSignal by (simp add: produced_def)
    ultimately show ?thesis
      using s' i D(5) by (intro up [of s' ?q]) (auto simp: consumer_holds_def)
  qed (use st in \<open>simp_all add: producer_def Let_def\<close>)
qed

text \<open>Steps of the consumer that only change its program counter and the mutex.\<close>

lemma live_cpc:
  assumes live: "pc_live args s" and s': "s' = s\<lparr>c_pc := c, mtx := mx\<rparr>"
    and mx: "mx = mtx s \<or> mtx s = None \<and> mx = Some Consumer \<or> mtx s = Some Consumer \<and> mx = None"
    and c: "mx = Some Consumer \<longleftrightarrow> consumer_holds c" "\<nexists>k. c = CCreate k" "\<nexists>k. c_pc s = CCreate k" "at_cpc s'"
  shows "pc_live args s'"
proof -
  note D = pc_liveD [OF live]
  have "mx = Some (Producer j) \<longleftrightarrow> mtx s = Some (Producer j)" for j using mx by auto
  then have "prod_ok mx j (prods s ! j)" if "j < length (prods s)" for j using D(2) [OF that] by (simp add: prod_ok_def)
  moreover have "j < length (prods s)" if "mx = Some (Producer j)" for j using mx D(3) that by auto
  ultimately show ?thesis
    unfolding pc_live_def using D(1,5-10) c s' by simp
qed

lemma live_eat:
  assumes live: "pc_live args s" and c: "c_pc s = CEat" "avail s > 0"
    and s': "s' = s\<lparr>numConsumed := numConsumed s + 1, avail := avail s - 1, done_flag := numConsumed s + 1 \<ge> totRequired s\<rparr>"
  shows "pc_live args s'"
  using pc_liveD [OF live] c unfolding pc_live_def s' by (simp add: at_cpc_def)

lemma live_pc_create:
  assumes live: "pc_live args s" and c: "c_pc s = CCreate k" "k < length (prods s)"
    and s': "s' = prod_pc k PLoop (s\<lparr>totRequired := totRequired s + atoi (p_arg (prods s ! k)), c_pc := CCreate (k + 1)\<rparr>)"
  shows "pc_live args s'"
proof -
  note D = pc_liveD [OF live]
  let ?p = "(prods s ! k)\<lparr>p_pc := PLoop\<rparr>"
  have at: "numConsumed s = 0" "p_pc (prods s ! k) = PNone" "\<forall>i < length (prods s). p_pc (prods s ! i) = PNone \<longleftrightarrow> k \<le> i"
    "totRequired s = sum_list (map (\<lambda>p. atoi (p_arg p)) (take k (prods s)))"
    using D(11) c by (auto simp: at_cpc_def)
  have tk: "take (k + 1) (prods s') = take k (prods s) @ [?p]" using c(2) s' by (simp add: take_Suc_conv_app_nth)
  have "at_cpc s'"
    using c at s' tk by (auto simp: at_cpc_def nth_list_update)
  moreover have "prod_ok (mtx s) k ?p" "produced ?p = produced (prods s ! k)"
    using D(2) [OF c(2)] at(2) by (auto simp: prod_ok_def produced_def quota_def)
  ultimately show ?thesis
    using D(5) c s' at(1) by (intro live_prod_update [OF live c(2), of s' ?p]) (auto simp: consumer_holds_def)
qed

lemma live_consumer:
  assumes live: "pc_live args s" and st: "consumer s = Some s'" and nd: "c_pc s' \<noteq> CDead"
  shows "pc_live args s'"
proof -
  note D = pc_liveD [OF live] and go = live_cpc [OF live] and defs = consumer_holds_def at_cpc_def
  show ?thesis
  proof (cases "c_pc s")
    case (CCreate k)
    show ?thesis
    proof (cases "k < length (prods s)")
      case True
      with st nd CCreate show ?thesis
        using live_pc_create [OF live CCreate True] by (auto simp: consumer_def Let_def split: if_splits)
    next
      case False
      then have s': "s' = s\<lparr>numConsumed := 0, done_flag := False, c_pc := CLock\<rparr>" using st CCreate by (auto simp: consumer_def)
      have k: "k = length (prods s)" "numConsumed s = 0" "\<forall>i < length (prods s). p_pc (prods s ! i) \<noteq> PNone"
        "totRequired s = sum_list (map (\<lambda>p. atoi (p_arg p)) (prods s))"
        using D(11) CCreate False by (auto simp: at_cpc_def)
      have "sum_list (map atoi args) = totRequired s" unfolding k(4) D(1) [symmetric] by (simp add: comp_def)
      moreover have "\<forall>p \<in> set (prods s). p_pc p \<noteq> PNone" using k(3) by (auto simp: in_set_conv_nth)
      ultimately show ?thesis
        using D(1-7) CCreate k(2) s' unfolding pc_live_def by (simp add: defs)
    qed
  next
    case CLock
    then have "s' = s\<lparr>c_pc := CCheck, mtx := Some Consumer\<rparr>" "mtx s = None" using st by (auto simp: consumer_def split: if_splits)
    with D(11) CLock show ?thesis by (intro go [of s' "Some Consumer" CCheck]) (auto simp: defs)
  next
    case CWoken
    then have "s' = s\<lparr>c_pc := CCheck, mtx := Some Consumer\<rparr>" "mtx s = None" using st by (auto simp: consumer_def split: if_splits)
    with D(11) CWoken show ?thesis by (intro go [of s' "Some Consumer" CCheck]) (auto simp: defs)
  next
    case CCheck
    then have mx: "mtx s = Some Consumer" using D(4) by (simp add: consumer_holds_def)
    let ?c = "if avail s = 0 then CWaiting else CEat" and ?mx = "if avail s = 0 then None else Some Consumer"
    have "s' = s\<lparr>c_pc := ?c, mtx := ?mx\<rparr>" using st CCheck mx by (cases s) (auto simp: consumer_def split: if_splits)
    with D(11) mx CCheck show ?thesis by (intro go [of s' ?mx ?c]) (auto simp: defs)
  next
    case CEat
    then have mx: "mtx s = Some Consumer" using D(4) by (simp add: consumer_holds_def)
    show ?thesis
    proof (cases "avail s > 0")
      case True
      with st CEat nd show ?thesis by (intro live_eat [OF live CEat True]) (auto simp: consumer_def split: if_splits)
    next
      case False
      then have "s' = s\<lparr>c_pc := CUnlock, mtx := Some Consumer\<rparr>" "avail s = 0"
        using st CEat mx D(5) by (cases s; auto simp: consumer_def)+
      with mx CEat show ?thesis by (intro go [of s' "Some Consumer" CUnlock]) (auto simp: defs)
    qed
  next
    case CUnlock
    then have "s' = s\<lparr>c_pc := CTest, mtx := None\<rparr>" "mtx s = Some Consumer"
      using st D(4) by (auto simp: consumer_def consumer_holds_def)
    with CUnlock show ?thesis by (intro go [of s' None CTest]) (auto simp: defs)
  next
    case CTest
    let ?c = "if done_flag s then CDone else CLock"
    have "s' = s\<lparr>c_pc := ?c, mtx := mtx s\<rparr>" using st CTest by (cases s) (auto simp: consumer_def)
    with D(4) CTest show ?thesis by (intro go [of s' "mtx s" ?c]) (auto simp: defs)
  qed (use st in \<open>simp_all add: consumer_def\<close>)
qed

lemma pc_inv_step:
  assumes inv: "pc_inv args s" and st: "pc_step s s'"
  shows "pc_inv args s'"
  using st
proof (cases rule: pc_step.cases)
  case (producer_step i)
  with inv show ?thesis by (auto simp: pc_inv_def intro: live_producer)
next
  case consumer_step
  then have "c_pc s \<noteq> CDead" by (auto simp: consumer_def)
  with inv consumer_step show ?thesis by (auto simp: pc_inv_def intro: live_consumer)
next
  case wake_step
  with inv show ?thesis by (auto simp: pc_inv_def pc_live_def at_cpc_def consumer_holds_def)
qed

lemma pc_inv_fstep: "pc_inv args s \<Longrightarrow> pc_fstep s s' \<Longrightarrow> pc_inv args s'"
  by (erule pc_fstepE) (blast intro: pc_inv_step, simp add: pc_inv_def)

interpretation pcf: invariant_system pc_fstep "pc_inv args"
  by unfold_locales (rule pc_inv_fstep)

section \<open>Completion\<close>

definition units :: "string list \<Rightarrow> int" where
  "units args = sum_list (map (\<lambda>a. max 0 (atoi a)) args)"

primrec pc_left :: "ppc \<Rightarrow> nat \<Rightarrow> nat" where
  "pc_left PNone r = 5 * r + 2"
| "pc_left PLoop r = 5 * r + 1"
| "pc_left PLock r = 5 * r"
| "pc_left PInc r = 5 * r - 1"
| "pc_left PUnlock r = 5 * r - 2"
| "pc_left PSignal r = 5 * r - 3"
| "pc_left PExit r = 0"

definition work_left :: "prod \<Rightarrow> nat" where
  "work_left p = pc_left (p_pc p) (nat (quota p - p_j p))"

definition c_lap :: "pcond \<Rightarrow> nat" where
  "c_lap s = (case c_pc s of
      CCreate k \<Rightarrow> 20 + (length (prods s) - k)
    | CLock \<Rightarrow> 9 | CCheck \<Rightarrow> 8 | CWaiting \<Rightarrow> 7 | CWoken \<Rightarrow> 9
    | CEat \<Rightarrow> 1 + (if avail s > 0 then 0 else 12)
    | CUnlock \<Rightarrow> 11 | CTest \<Rightarrow> 10 | CDone \<Rightarrow> 0 | CDead \<Rightarrow> 0)"

definition pc_effort :: "string list \<Rightarrow> pcond \<Rightarrow> nat" where
  "pc_effort args s = 4 * sum_list (map work_left (prods s)) + 20 * nat (units args - numConsumed s) + c_lap s + 4 * wakeups s"

lemma sum_quota: "pc_live args s \<Longrightarrow> sum_list (map quota (prods s)) = units args"
  using pc_liveD(1) [of args s] by (auto simp: units_def quota_def [abs_def] comp_def)

lemma produced_quota: "prod_ok mx i p \<Longrightarrow> produced p \<le> quota p"
  by (auto simp: prod_ok_def produced_def quota_def)

lemma produced_units:
  assumes "pc_live args s"
  shows "sum_list (map produced (prods s)) \<le> units args"
proof -
  have "produced p \<le> quota p" if "p \<in> set (prods s)" for p
    using that pc_liveD(2) [OF assms] produced_quota by (metis in_set_conv_nth)
  then have "sum_list (map produced (prods s)) \<le> sum_list (map quota (prods s))" by (rule sum_list_mono)
  then show ?thesis using sum_quota [OF assms] by simp
qed

lemma effort_producer:
  assumes live: "pc_live args s" and i: "i < length (prods s)" and st: "producer i s = Some s'"
  shows "pc_effort args s' < pc_effort args s"
proof -
  note D = pc_liveD [OF live]
  obtain p where p: "prods s' = (prods s)[i := p]" and dec: "work_left p < work_left (prods s ! i)"
    and pc: "c_pc s' = c_pc s \<and> avail s' \<ge> avail s \<or> c_pc s = CWaiting \<and> c_pc s' = CWoken \<or> c_pc s' = CDead"
    and same: "numConsumed s' = numConsumed s" "wakeups s' = wakeups s"
    using st D(2) [OF i]
    by (auto simp: producer_def Let_def work_left_def prod_ok_def quota_def nat_diff_distrib split: ppc.splits if_splits)
  have "c_lap s' \<le> c_lap s + 2" using pc p by (auto simp: c_lap_def split: cpc.splits)
  moreover have "sum_list (map work_left (prods s')) < sum_list (map work_left (prods s))"
    using sum_map_update_nat [OF i, of work_left p] dec p by simp
  ultimately show ?thesis using same by (simp add: pc_effort_def)
qed

lemma effort_consumer:
  assumes live: "pc_live args s" and st: "consumer s = Some s'"
  shows "pc_effort args s' < pc_effort args s"
proof -
  note D = pc_liveD [OF live]
  consider (create) k where "c_pc s = CCreate k" "k < length (prods s)" | (eat) "c_pc s = CEat" "avail s > 0"
    | (other) "\<nexists>k. c_pc s = CCreate k \<and> k < length (prods s)" "c_pc s \<noteq> CEat \<or> avail s \<le> 0" by fastforce
  then show ?thesis
  proof cases
    case create
    then have k: "p_pc (prods s ! k) = PNone" using D(11) by (auto simp: at_cpc_def)
    let ?p = "(prods s ! k)\<lparr>p_pc := PLoop\<rparr>"
    have "work_left ?p < work_left (prods s ! k)" using k by (simp add: work_left_def quota_def)
    with create st sum_map_update_nat [OF create(2), of work_left ?p] show ?thesis
      by (auto simp: consumer_def Let_def pc_effort_def c_lap_def split: if_splits)
  next
    case eat
    show ?thesis
    proof (cases "numConsumed s = INT_MAX")
      case True
      with eat st show ?thesis by (auto simp: consumer_def pc_effort_def c_lap_def)
    next
      case False
      with eat have "s' = s\<lparr>numConsumed := numConsumed s + 1, avail := avail s - 1, done_flag := numConsumed s + 1 \<ge> totRequired s\<rparr>"
        using st by (simp add: consumer_def)
      moreover have "numConsumed s + 1 \<le> units args" using produced_units [OF live] D(7) eat(2) by simp
      then have "nat (units args - numConsumed s) = Suc (nat (units args - (numConsumed s + 1)))" by simp
      ultimately show ?thesis using eat by (simp add: pc_effort_def c_lap_def)
    qed
  next
    case other
    then have "prods s' = prods s" "wakeups s' = wakeups s" "numConsumed s' = numConsumed s"
      using st D(11) by (auto simp: consumer_def at_cpc_def split: cpc.splits if_splits)
    moreover have "c_lap s' < c_lap s"
      using st other D(5) by (auto simp: consumer_def c_lap_def split: cpc.splits if_splits)
    ultimately show ?thesis by (simp add: pc_effort_def)
  qed
qed

definition pc_final :: "pcond \<Rightarrow> bool" where
  "pc_final s \<longleftrightarrow> c_pc s \<in> {CDone, CDead}"

lemma pc_effort_step:
  assumes "pc_inv args s" "pc_step s s'"
  shows "pc_effort args s' < pc_effort args s"
  using assms(2)
proof (cases rule: pc_step.cases)
  case (producer_step i)
  with assms(1) show ?thesis by (auto simp: pc_inv_def intro: effort_producer)
next
  case consumer_step
  then have "c_pc s \<noteq> CDead" by (auto simp: consumer_def)
  with assms(1) consumer_step show ?thesis by (auto simp: pc_inv_def intro: effort_consumer)
next
  case wake_step
  then show ?thesis by (simp add: pc_effort_def c_lap_def)
qed

text \<open>A state in which nobody can go on and which is not final: everything has been produced and consumed, and
  the consumer waits.\<close>

lemma pc_stuck:
  assumes live: "pc_live args s" and nf: "\<not> pc_final s" and stuck: "\<nexists>s'. pc_step s s'"
  shows "c_pc s = CWaiting" "numConsumed s = units args"
proof -
  note D = pc_liveD [OF live]
  have np: "producer i s = None" if "i < length (prods s)" for i
    using stuck producer_step [of i s] that nf by (cases "producer i s") (auto simp: pc_final_def)
  have nc: "consumer s = None" using stuck consumer_step [of s] by (cases "consumer s") auto
  have at: "p_pc (prods s ! i) \<in> {PNone, PLock, PExit}" "p_pc (prods s ! i) = PLock \<Longrightarrow> mtx s \<noteq> None"
    if "i < length (prods s)" for i using np [OF that] by (auto simp: producer_def Let_def split: ppc.splits if_splits)
  have noth: "mtx s \<noteq> Some (Producer i)" for i
    using D(2) [of i] D(3) [of i] at(1) [of i] by (auto simp: prod_ok_def)
  have free: "mtx s = None" if "\<not> consumer_holds (c_pc s)"
    using D(4) noth that by (cases "mtx s") (auto, metis holder.exhaust)
  show w: "c_pc s = CWaiting"
    using nc nf free by (auto simp: consumer_def pc_final_def consumer_holds_def Let_def split: cpc.splits if_splits)
  then have mx: "mtx s = None" using free by (simp add: consumer_holds_def)
  have ex: "p_pc p = PExit" if "p \<in> set (prods s)" for p
    using that at mx D(10) [OF _ that] w by (fastforce simp: in_set_conv_nth)
  then have "avail s = 0" using D(5,11) w by (auto simp: at_cpc_def)
  moreover have "produced p = quota p" if "p \<in> set (prods s)" for p
    using that ex [OF that] D(2) by (auto simp: in_set_conv_nth produced_def prod_ok_def)
  then have "sum_list (map produced (prods s)) = sum_list (map quota (prods s))" by (intro arg_cong [of _ _ sum_list]) simp
  ultimately show "numConsumed s = units args" using D(7) sum_quota [OF live] by simp
qed

definition pc_good :: "string list \<Rightarrow> pcond \<Rightarrow> bool" where
  "pc_good args s \<longleftrightarrow> pc_inv args s \<and> units args > 0"

lemma pc_progress:
  assumes good: "pc_good args s" and nf: "\<not> pc_final s"
  shows "\<exists>s'. pc_step s s'"
proof (rule ccontr)
  assume stuck: "\<nexists>s'. pc_step s s'"
  have live: "pc_live args s" and pos: "units args > 0" using good nf by (auto simp: pc_good_def pc_inv_def pc_final_def)
  note D = pc_liveD [OF live] and w = pc_stuck [OF live nf stuck]
  have "sum_list (map atoi args) \<le> units args" unfolding units_def by (rule sum_list_mono) simp
  then have "done_flag s" using D(8,9) w pos by simp
  with D(11) w(1) show False by (simp add: at_cpc_def)
qed

interpretation pcs: completing_system pc_step "pc_good args" "pc_effort args" pc_final
  by unfold_locales (auto simp: pc_good_def intro: pc_inv_step pc_effort_step pc_progress [unfolded pc_good_def])

section \<open>Properties\<close>

text \<open>The sums \<^verbatim>\<open>totRequired\<close> goes through, and the number of units in all, stay in the range of \<^verbatim>\<open>int\<close>.\<close>

definition no_overflow :: "string list \<Rightarrow> bool" where
  "no_overflow args \<longleftrightarrow> units args \<le> INT_MAX \<and> (\<forall>k \<in> {0..length args}. INT_MIN \<le> sum_list (map atoi (take k args)) \<and> sum_list (map atoi (take k args)) \<le> INT_MAX)"

lemma room_to_produce:
  assumes live: "pc_live args s" and i: "i < length (prods s)" "p_pc (prods s ! i) = PInc"
  shows "sum_list (map produced (prods s)) < units args"
proof -
  note D = pc_liveD [OF live]
  let ?p = "(prods s ! i)\<lparr>p_pc := PUnlock\<rparr>"
  let ?ps = "(prods s)[i := ?p]"
  have p: "produced ?p = produced (prods s ! i) + 1" "produced ?p \<le> quota ?p" "quota ?p = quota (prods s ! i)"
    using D(2) [OF i(1)] i(2) by (auto simp: produced_def prod_ok_def quota_def)
  have "produced q \<le> quota q" if "q \<in> set ?ps" for q
    using that p(2) D(2) produced_quota by (metis in_set_conv_nth insert_iff set_update_subset_insert subsetD)
  then have "sum_list (map produced ?ps) \<le> sum_list (map quota ?ps)" by (rule sum_list_mono)
  moreover have "map quota ?ps = map quota (prods s)" using p(3) by (metis list_update_id map_update)
  ultimately show ?thesis using sum_quota [OF live] sum_map_update [OF i(1), of produced ?p] p(1) by simp
qed

lemma pc_alive_step:
  assumes "no_overflow args" "pc_inv args s" "pc_step s s'" "c_pc s \<noteq> CDead"
  shows "c_pc s' \<noteq> CDead"
  using assms(3)
proof (cases rule: pc_step.cases)
  case (producer_step i)
  have live: "pc_live args s" using assms(2,4) by (simp add: pc_inv_def)
  note D = pc_liveD [OF live]
  have "avail s \<noteq> INT_MAX" if "p_pc (prods s ! i) = PInc"
    using room_to_produce [OF live producer_step(1) that] D(6,7) assms(1) by (auto simp: no_overflow_def)
  with producer_step assms(4) show ?thesis by (auto simp: producer_def Let_def split: ppc.splits if_splits)
next
  case consumer_step
  have live: "pc_live args s" using assms(2,4) by (simp add: pc_inv_def)
  note D = pc_liveD [OF live]
  have eat: "numConsumed s \<noteq> INT_MAX" if "avail s > 0"
    using that D(7) produced_units [OF live] assms(1) by (auto simp: no_overflow_def)
  show ?thesis
  proof (cases "\<exists>k. c_pc s = CCreate k \<and> k < length (prods s)")
    case True
    then obtain k where k: "c_pc s = CCreate k" "k < length (prods s)" by blast
    have "totRequired s = sum_list (map (\<lambda>p. atoi (p_arg p)) (take k (prods s)))" using D(11) k by (simp add: at_cpc_def)
    then have "totRequired s + atoi (p_arg (prods s ! k)) = sum_list (map (\<lambda>p. atoi (p_arg p)) (take (Suc k) (prods s)))"
      using k(2) by (simp add: take_Suc_conv_app_nth)
    also have "\<dots> = sum_list (map atoi (take (Suc k) args))" unfolding D(1) [symmetric] by (simp add: take_map comp_def)
    finally have t: "totRequired s + atoi (p_arg (prods s ! k)) = sum_list (map atoi (take (Suc k) args))" .
    have "length args = length (prods s)" using D(1) by auto
    then have "Suc k \<in> {0..length args}" using k(2) by simp
    then have "INT_MIN \<le> sum_list (map atoi (take (Suc k) args)) \<and> sum_list (map atoi (take (Suc k) args)) \<le> INT_MAX"
      using assms(1) unfolding no_overflow_def by blast
    with k consumer_step show ?thesis unfolding t [symmetric] by (auto simp: consumer_def Let_def split: if_splits)
  next
    case False
    with consumer_step assms(4) eat show ?thesis by (auto simp: consumer_def split: cpc.splits if_splits)
  qed
qed simp

lemma pc_alive_run:
  assumes "pc_step\<^sup>*\<^sup>* s s'" "no_overflow args" "pc_inv args s" "c_pc s \<noteq> CDead"
  shows "pc_inv args s' \<and> c_pc s' \<noteq> CDead"
  using assms by (induction rule: rtranclp_induct) (auto intro: pc_inv_step dest: pc_alive_step)

lemma units_pos: "a \<in> set args \<Longrightarrow> 0 < atoi a \<Longrightarrow> 0 < units args"
proof (induction args)
  case (Cons b args)
  have "0 \<le> units args" unfolding units_def by (rule sum_list_nonneg) auto
  with Cons show ?case by (auto simp: units_def)
qed simp

lemma units_zero: "\<not> (\<exists>a \<in> set args. atoi a > 0) \<Longrightarrow> units args = 0"
  by (induction args) (auto simp: units_def not_less)

lemma pc_bounds_fstep:
  "avail s \<le> INT_MAX \<and> numConsumed s \<le> INT_MAX \<Longrightarrow> pc_fstep s s' \<Longrightarrow> avail s' \<le> INT_MAX \<and> numConsumed s' \<le> INT_MAX"
  by (erule pc_fstepE, erule pc_stepE)
    (auto simp: producer_def consumer_def Let_def INT_MAX_def split: ppc.splits cpc.splits if_splits)

interpretation pcb: invariant_system pc_fstep "\<lambda>s. avail s \<le> INT_MAX \<and> numConsumed s \<le> INT_MAX"
  by unfold_locales (rule pc_bounds_fstep)

text \<open>C19. Any producers, any interleaving, any spurious wakeup, any failing call: as long as the process has not died of a
  failing call or of an overflow, the units available and consumed are exactly those produced, never more
  than the producers make in all; the counters stay in the range of \<^verbatim>\<open>int\<close> and not below zero; the
  mutex is never held by two threads, be they producers or the main thread; and the main thread ends
  normally only after it has consumed at least what the arguments ask for.\<close>

theorem prodcond_safe:
  assumes run: "pc_fstep\<^sup>*\<^sup>* (pc_init args w) s" and alive: "c_pc s \<noteq> CDead"
  shows "0 \<le> avail s \<and> 0 \<le> numConsumed s \<and> avail s < 2 ^ 31 \<and> numConsumed s < 2 ^ 31
    \<and> avail s + numConsumed s = sum_list (map produced (prods s))
    \<and> sum_list (map produced (prods s)) \<le> sum_list (map (\<lambda>a. max 0 (atoi a)) args)
    \<and> (\<forall>i < length args. p_pc (prods s ! i) \<in> {PInc, PUnlock} \<longrightarrow> c_pc s \<notin> {CCheck, CEat, CUnlock} \<and>
        (\<forall>j < length args. j \<noteq> i \<longrightarrow> p_pc (prods s ! j) \<notin> {PInc, PUnlock}))
    \<and> (c_pc s = CDone \<longrightarrow> numConsumed s \<ge> sum_list (map atoi args))"
proof -
  have live: "pc_live args s" using pcf.run_inv [OF run pc_inv_init] alive by (simp add: pc_inv_def)
  note D = pc_liveD [OF live]
  have len: "length args = length (prods s)" using D(1) by auto
  have "mtx s = Some (Producer i)" if "i < length args" "p_pc (prods s ! i) \<in> {PInc, PUnlock}" for i
    using D(2) [of i] that len by (simp add: prod_ok_def)
  then have "c_pc s \<notin> {CCheck, CEat, CUnlock} \<and> (\<forall>j < length args. j \<noteq> i \<longrightarrow> p_pc (prods s ! j) \<notin> {PInc, PUnlock})"
    if "i < length args" "p_pc (prods s ! i) \<in> {PInc, PUnlock}" for i
    using that D(4) by (metis consumer_holds_def holder.distinct(1) holder.inject option.inject)
  moreover have "avail s < 2 ^ 31" "numConsumed s < 2 ^ 31"
    using pcb.run_inv [OF run] by (simp_all add: pc_init_def INT_MAX_def)
  moreover have "numConsumed s \<ge> sum_list (map atoi args)" if "c_pc s = CDone"
    using D(8,9,11) that by (simp add: at_cpc_def)
  ultimately show ?thesis using D(5-7) produced_units [OF live, unfolded units_def] by blast
qed

text \<open>If some argument asks for a unit, every run is finite and one that cannot be continued has ended with all
  the units asked for consumed. If none does (or there is no argument), the main thread waits for a signal
  that never comes: no run reaches the end of the program.\<close>

theorem prodcond_completes:
  assumes ok: "no_overflow args"
  shows "if \<exists>a \<in> set args. atoi a > 0
    then (\<forall>f. f 0 = pc_init args w \<longrightarrow> (\<exists>n. \<not> pc_step (f n) (f (Suc n))))
      \<and> (\<forall>s. pc_step\<^sup>*\<^sup>* (pc_init args w) s \<and> (\<nexists>s'. pc_step s s') \<longrightarrow>
           c_pc s = CDone \<and> numConsumed s \<ge> sum_list (map atoi args))
    else (\<forall>s. pc_step\<^sup>*\<^sup>* (pc_init args w) s \<longrightarrow> c_pc s \<noteq> CDone)"
proof (cases "\<exists>a \<in> set args. atoi a > 0")
  case True
  then obtain a where "a \<in> set args" "atoi a > 0" by blast
  then have "0 < units args" by (rule units_pos)
  then have good: "pc_good args (pc_init args w)" by (simp add: pc_good_def pc_inv_init)
  have "c_pc s = CDone \<and> numConsumed s \<ge> sum_list (map atoi args)"
    if r: "pc_step\<^sup>*\<^sup>* (pc_init args w) s" and stuck: "\<nexists>s'. pc_step s s'" for s
  proof -
    have "pc_final s" by (rule pcs.stuck_final [OF r good stuck])
    moreover have "pc_inv args s \<and> c_pc s \<noteq> CDead" by (rule pc_alive_run [OF r ok pc_inv_init]) (simp add: pc_init_def)
    ultimately have "c_pc s = CDone" "pc_live args s" by (auto simp: pc_final_def pc_inv_def)
    then show ?thesis using pc_liveD(8,9,11) [of args s] by (simp add: at_cpc_def)
  qed
  moreover have "\<exists>n. \<not> pc_step (f n) (f (Suc n))" if "f 0 = pc_init args w" for f
    using pcs.no_infinite_run [of args f] good that by simp
  ultimately show ?thesis unfolding if_P [OF True] by blast
next
  case False
  have "c_pc s \<noteq> CDone" if r: "pc_step\<^sup>*\<^sup>* (pc_init args w) s" for s
  proof
    assume d: "c_pc s = CDone"
    have "pc_inv args s \<and> c_pc s \<noteq> CDead" by (rule pc_alive_run [OF r ok pc_inv_init]) (simp add: pc_init_def)
    then have live: "pc_live args s" by (simp add: pc_inv_def)
    have "units args = 0" by (rule units_zero [OF False])
    then show False using pc_liveD(5,7,8,11) [OF live] produced_units [OF live] d by (simp add: at_cpc_def)
  qed
  then show ?thesis using False by simp
qed

lemma sample_units: "no_overflow [''2'', ''1'']" "atoi ''2'' = 2" "atoi ''1'' = 1"
proof -
  show v: "atoi ''2'' = 2" "atoi ''1'' = 1" by code_simp+
  have "{0..length [''2'', ''1'']} = {0, 1, 2}" by auto
  then show "no_overflow [''2'', ''1'']" by (simp add: no_overflow_def units_def v const_defs)
qed

theorem prodcond_completes_witness:
  "\<exists>s. pc_step\<^sup>*\<^sup>* (pc_init [''2'', ''1''] 1) s \<and> c_pc s = CDone \<and> numConsumed s \<ge> 3"
proof -
  have good: "pc_good [''2'', ''1''] (pc_init [''2'', ''1''] 1)"
    by (simp add: pc_good_def pc_inv_init units_def sample_units)
  obtain s where r: "pc_step\<^sup>*\<^sup>* (pc_init [''2'', ''1''] 1) s" and f: "pc_final s" using pcs.reaches_final [OF good] by blast
  have "\<nexists>s'. pc_step s s'" using f by (auto simp: pc_final_def consumer_def elim!: pc_stepE)
  with prodcond_completes [OF sample_units(1), of 1] r sample_units(2,3) show ?thesis by auto
qed

theorem prodcond_safe_witness:
  "\<exists>s. pc_fstep\<^sup>*\<^sup>* (pc_init [''2'', ''1''] 1) s \<and> c_pc s = CDone \<and> numConsumed s = 3 \<and> avail s = 0"
proof -
  have good: "pc_good [''2'', ''1''] (pc_init [''2'', ''1''] 1)"
    by (simp add: pc_good_def pc_inv_init units_def sample_units)
  obtain s where r: "pc_step\<^sup>*\<^sup>* (pc_init [''2'', ''1''] 1) s" and f: "pc_final s" using pcs.reaches_final [OF good] by blast
  have "c_pc s \<noteq> CDead"
    using pc_alive_run [OF r sample_units(1) pc_inv_init] by (simp add: pc_init_def)
  then have d: "c_pc s = CDone" using f by (auto simp: pc_final_def)
  have r': "pc_fstep\<^sup>*\<^sup>* (pc_init [''2'', ''1''] 1) s"
    using r by (rule rtranclp_mono [THEN predicate2D, rotated]) (auto intro: works)
  have "sum_list (map (\<lambda>a. max 0 (atoi a)) [''2'', ''1'']) = 3" by (simp add: sample_units)
  with prodcond_safe [OF r'] d r' show ?thesis by (auto simp: sample_units)
qed

end
