(* ===== verification/Ns_Capable.thy ===== *)
theory Ns_Capable
  imports Error_Functions
begin

text \<open>
  \<^verbatim>\<open>tlpi-book/namespaces/ns_capable.c\<close>: does a process have capabilities in the user namespace that governs
  a given namespace? Namespaces are numbers; what the kernel and libcap know about them is an argument.
  The file descriptors of the process are a table, since the program closes descriptors while others with
  the same number may come into use: a new descriptor is the lowest free one, and closing or using one
  that is not open fails with \<^verbatim>\<open>EBADF\<close>. The walk through the ancestors is a loop over the kernel's answers,
  so the program is a function to an option: \<open>None\<close> would be a loop that never ends.
\<close>

section \<open>Kernel and state\<close>

datatype fdobj = Stdio | Ns nat

record ns_os =
  k_open :: "string \<Rightarrow> int + nat"
  k_stat :: "nat \<Rightarrow> int \<times> int"
  k_nstype :: "nat \<Rightarrow> int + int"
  k_owning :: "nat \<Rightarrow> int + nat"
  k_parent :: "nat \<Rightarrow> int + nat"
  k_owner_uid :: "nat \<Rightarrow> int + int"
  k_fopen :: "string \<Rightarrow> int + string list"
  k_cap_get :: "int \<Rightarrow> int + nat"
  k_cap_text :: "nat \<Rightarrow> int + string"

record ns_st = proc_io +
  fd_tab :: "fdobj option list"

definition fd_alloc :: "fdobj \<Rightarrow> fdobj option list \<Rightarrow> nat \<times> fdobj option list" where
  "fd_alloc x tab = (case find_index (\<lambda>e. e = None) tab of
      Some i \<Rightarrow> (i, tab[i := Some x])
    | None \<Rightarrow> (length tab, tab @ [Some x]))"

definition fd_obj :: "nat \<Rightarrow> fdobj option list \<Rightarrow> fdobj option" where
  "fd_obj fd tab = (if fd < length tab then tab ! fd else None)"

text \<open>A call that gives a new descriptor or fails.\<close>

definition new_fd :: "int + nat \<Rightarrow> (ns_st, nat option) prog" where
  "new_fd r s = (case r of
      Inl e \<Rightarrow> (Inr None, s\<lparr>errno := e\<rparr>)
    | Inr n \<Rightarrow> (case fd_alloc (Ns n) (fd_tab s) of (fd, tab) \<Rightarrow> (Inr (Some fd), s\<lparr>fd_tab := tab\<rparr>)))"

definition sys_close :: "nat \<Rightarrow> (ns_st, bool) prog" where
  "sys_close fd s = (if fd_obj fd (fd_tab s) = None then (Inr False, s\<lparr>errno := EBADF\<rparr>)
     else (Inr True, s\<lparr>fd_tab := (fd_tab s)[fd := None]\<rparr>))"

text \<open>An \<^verbatim>\<open>ioctl\<close> on a namespace descriptor.\<close>

definition ns_ioctl :: "(nat \<Rightarrow> int + 'a) \<Rightarrow> nat \<Rightarrow> ns_st \<Rightarrow> int + 'a" where
  "ns_ioctl f fd s = (case fd_obj fd (fd_tab s) of Some (Ns n) \<Rightarrow> f n | _ \<Rightarrow> Inl EBADF)"

section \<open>The functions of the program\<close>

definition display_process_capabilities :: "ns_os \<Rightarrow> (int \<Rightarrow> string) \<Rightarrow> int \<Rightarrow> (ns_st, unit) prog" where
  "display_process_capabilities K strerror pid =
     (case k_cap_get K pid of
        Inl e \<Rightarrow> bnd (modify (\<lambda>s. s\<lparr>errno := e\<rparr>)) (\<lambda>_. macro_errExit strerror ''cap_get_proc'')
      | Inr caps \<Rightarrow>
          (case k_cap_text K caps of
             Inl e \<Rightarrow> bnd (modify (\<lambda>s. s\<lparr>errno := e\<rparr>)) (\<lambda>_. macro_errExit strerror ''cap_to_text'')
           | Inr t \<Rightarrow> printfM (''Capabilities: '' @ t @ [NL])))"

text \<open>\<^verbatim>\<open>sscanf(line, "Uid: %*d %d %*d %*d", &uid)\<close>: \<open>None\<close> if \<^verbatim>\<open>uid\<close> is not assigned.\<close>

definition scan_int :: "string \<Rightarrow> (int \<times> string) option" where
  "scan_int t = (case strtol t 10 of (v, r, _) \<Rightarrow> if r = t then None else Some (to_s32 v, r))"

definition scan_uid :: "string \<Rightarrow> int option" where
  "scan_uid line = (case scan_int (drop 4 line) of None \<Rightarrow> None
     | Some (_, r) \<Rightarrow> map_option fst (scan_int r))"

primrec uid_loop :: "string \<Rightarrow> string list \<Rightarrow> (ns_st, int) prog" where
  "uid_loop path [] =
     bnd (modify (fputs_stderr (''Failure scanning for '' @ [CHR 39] @ ''Uid:'' @ [CHR 39] @ '' in '' @ path @ [NL])))
       (\<lambda>_. exit3 EXIT_FAILURE)"
| "uid_loop path (line # ls) =
     (if take 4 line = ''Uid:''
      then (case scan_uid line of None \<Rightarrow> stop Undef | Some uid \<Rightarrow> ret (to_u32 uid))
      else uid_loop path ls)"

definition euid_of_process :: "ns_os \<Rightarrow> (int \<Rightarrow> string) \<Rightarrow> int \<Rightarrow> (ns_st, int) prog" where
  "euid_of_process K strerror pid =
     (let path = snprintf PATH_MAX (''/proc/'' @ show_int pid @ ''/status'') in
      case k_fopen K path of
        Inl e \<Rightarrow> bnd (modify (\<lambda>s. s\<lparr>errno := e\<rparr>)) (\<lambda>_. macro_errExit strerror ''fopen-/proc/PID/status'')
      | Inr ls \<Rightarrow> uid_loop path ls)"

text \<open>\<^verbatim>\<open>fstat\<close> of an open descriptor.\<close>

definition fstat_or_exit :: "ns_os \<Rightarrow> (int \<Rightarrow> string) \<Rightarrow> nat \<Rightarrow> string \<Rightarrow> (ns_st, int \<times> int) prog" where
  "fstat_or_exit K strerror fd msg =
     bnd (gets (ns_ioctl (\<lambda>n. Inr (k_stat K n)) fd)) (\<lambda>r. case r of
       Inl e \<Rightarrow> bnd (modify (\<lambda>s. s\<lparr>errno := e\<rparr>)) (\<lambda>_. macro_errExit strerror msg)
     | Inr st \<Rightarrow> ret st)"

definition ns_equal :: "ns_os \<Rightarrow> (int \<Rightarrow> string) \<Rightarrow> nat \<Rightarrow> nat \<Rightarrow> (ns_st, bool) prog" where
  "ns_equal K strerror nsfd1 nsfd2 =
     bnd (fstat_or_exit K strerror nsfd1 ''fstat-nsfd1'') (\<lambda>sb1.
     bnd (fstat_or_exit K strerror nsfd2 ''fstat-nsfd2'') (\<lambda>sb2.
     ret (fst sb1 = fst sb2 \<and> snd sb1 = snd sb2)))"

definition ns_type :: "ns_os \<Rightarrow> (int \<Rightarrow> string) \<Rightarrow> nat \<Rightarrow> (ns_st, int) prog" where
  "ns_type K strerror fd =
     bnd (gets (ns_ioctl (k_nstype K) fd)) (\<lambda>r. case r of
       Inl e \<Rightarrow> bnd (modify (\<lambda>s. s\<lparr>errno := e\<rparr>)) (\<lambda>_. macro_errExit strerror ''ioctl-NS_GET_NSTYPE'')
     | Inr t \<Rightarrow> ret t)"

definition owning_userns_of :: "ns_os \<Rightarrow> (int \<Rightarrow> string) \<Rightarrow> nat \<Rightarrow> (ns_st, nat) prog" where
  "owning_userns_of K strerror fd =
     bnd (bnd (gets (ns_ioctl (k_owning K) fd)) new_fd) (\<lambda>r. case r of
       None \<Rightarrow> macro_errExit strerror ''ioctl-NS_GET_USERNS''
     | Some u \<Rightarrow> ret u)"

definition uid_of_userns_owner :: "ns_os \<Rightarrow> (int \<Rightarrow> string) \<Rightarrow> nat \<Rightarrow> (ns_st, int) prog" where
  "uid_of_userns_owner K strerror fd =
     bnd (gets (ns_ioctl (k_owner_uid K) fd)) (\<lambda>r. case r of
       Inl e \<Rightarrow> bnd (modify (\<lambda>s. s\<lparr>errno := e\<rparr>)) (\<lambda>_. macro_errExit strerror ''ioctl-NS_GET_OWNER_UID'')
     | Inr u \<Rightarrow> ret (to_s32 u))"

text \<open>One pass of the loop of \<^verbatim>\<open>is_ancestor_userns\<close>: \<open>Inl r\<close> to return \<open>r\<close> (\<open>None\<close> for -1), or the next child.\<close>

definition ancestor_pass :: "ns_os \<Rightarrow> (int \<Rightarrow> string) \<Rightarrow> nat \<Rightarrow> nat \<Rightarrow> (ns_st, nat option + nat) prog" where
  "ancestor_pass K strerror fd_x child =
     bnd (bnd (gets (ns_ioctl (k_parent K) child)) new_fd) (\<lambda>r. case r of
       None \<Rightarrow> bnd (gets errno) (\<lambda>e.
         if e \<noteq> EPERM then macro_errExit strerror ''ioctl-NS_GET_PARENT'' else ret (Inl None))
     | Some parent \<Rightarrow>
         bnd (ns_equal K strerror parent fd_x) (\<lambda>eq.
         if eq then bnd (sys_close parent) (\<lambda>_. ret (Inl (Some child)))
         else bnd (sys_close child) (\<lambda>_. ret (Inr parent))))"

partial_function (option) ancestor_loop ::
  "ns_os \<Rightarrow> (int \<Rightarrow> string) \<Rightarrow> nat \<Rightarrow> nat \<Rightarrow> ns_st \<Rightarrow> ((halt + nat option) \<times> ns_st) option" where
  "ancestor_loop K strerror fd_x child s =
     (case ancestor_pass K strerror fd_x child s of
        (Inl h, s1) \<Rightarrow> Some (Inl h, s1)
      | (Inr (Inl r), s1) \<Rightarrow> Some (Inr r, s1)
      | (Inr (Inr parent), s1) \<Rightarrow> ancestor_loop K strerror fd_x parent s1)"

definition is_ancestor_userns ::
  "ns_os \<Rightarrow> (int \<Rightarrow> string) \<Rightarrow> nat \<Rightarrow> nat \<Rightarrow> ns_st \<Rightarrow> ((halt + nat option) \<times> ns_st) option" where
  "is_ancestor_userns K strerror fd_x fd_y = ancestor_loop K strerror fd_x fd_y"

section \<open>The main program\<close>

text \<open>From the arguments to the descriptors of the two user namespaces.\<close>

definition open_or_exit :: "ns_os \<Rightarrow> (int \<Rightarrow> string) \<Rightarrow> string \<Rightarrow> string \<Rightarrow> (ns_st, nat) prog" where
  "open_or_exit K strerror path msg =
     bnd (new_fd (k_open K path)) (\<lambda>r. case r of None \<Rightarrow> macro_errExit strerror msg | Some fd \<Rightarrow> ret fd)"

definition ns_setup :: "ns_os \<Rightarrow> (int \<Rightarrow> string) \<Rightarrow> string \<Rightarrow> string \<Rightarrow> (ns_st, nat \<times> nat) prog" where
  "ns_setup K strerror pid_str ns_file =
     bnd (open_or_exit K strerror ns_file ''open-ns-file'') (\<lambda>target_ns.
     bnd (ns_type K strerror target_ns) (\<lambda>t.
     bnd (if t = CLONE_NEWUSER then ret target_ns
          else bnd (owning_userns_of K strerror target_ns) (\<lambda>u. bnd (sys_close target_ns) (\<lambda>_. ret u))) (\<lambda>target_userns.
     bnd (open_or_exit K strerror (snprintf PATH_MAX (''/proc/'' @ pid_str @ ''/ns/user'')) ''open-PID'') (\<lambda>pid_userns.
     ret (target_userns, pid_userns)))))"

definition same_report :: "ns_os \<Rightarrow> (int \<Rightarrow> string) \<Rightarrow> string \<Rightarrow> (ns_st, unit) prog" where
  "same_report K strerror pid_str =
     andthen (printfM (''PID '' @ pid_str @ '' is in the target namespace.'' @ [NL]))
    (andthen (printfM (''Subject to LSM checks, it has the following capabilities:'' @ [NL]))
      (display_process_capabilities K strerror (atoi pid_str)))"

definition none_report :: "string \<Rightarrow> (ns_st, unit) prog" where
  "none_report pid_str =
     andthen (printfM (''PID '' @ pid_str @ '' is not in an ancestor user namespace.'' @ [NL]))
       (printfM (''Therefore, it has no capabilities in the target namespace.'' @ [NL]))"

definition ancestor_report :: "ns_os \<Rightarrow> (int \<Rightarrow> string) \<Rightarrow> string \<Rightarrow> nat \<Rightarrow> (ns_st, unit) prog" where
  "ancestor_report K strerror pid_str desc_userns =
     bnd (euid_of_process K strerror (atoi pid_str)) (\<lambda>euid.
     bnd (uid_of_userns_owner K strerror desc_userns) (\<lambda>owner.
     let is_owner_of_userns = (euid = to_u32 owner) in
     andthen (printfM (''PID '' @ pid_str @ '' is in an ancestor user namespace''))
    (andthen (printfM (if is_owner_of_userns then '' and its effective UID matches'' @ [NL]
       else '', but its effective UID does not match'' @ [NL]))
    (andthen (printfM (''the owner of the immediate child user namespace of that ancestor namespace.'' @ [NL]))
    (if is_owner_of_userns
     then printfM (''Therefore, subject to LSM checks, it has all capabilities in the target'' @ [NL] @ ''namespace!'' @ [NL])
     else andthen (printfM (''Therefore, subject to LSM checks, it has only the capabilities that are in its'' @ [NL] @
         ''sets, which are:'' @ [NL]))
       (display_process_capabilities K strerror (atoi pid_str)))))))"

definition close_or_exit :: "(int \<Rightarrow> string) \<Rightarrow> nat \<Rightarrow> string \<Rightarrow> (ns_st, unit) prog" where
  "close_or_exit strerror fd msg = bnd (sys_close fd) (\<lambda>ok. whenM (\<not> ok) (macro_errExit strerror msg))"

definition ns_finish :: "(int \<Rightarrow> string) \<Rightarrow> nat \<Rightarrow> nat \<Rightarrow> (ns_st, unit) prog" where
  "ns_finish strerror target_userns pid_userns =
     andthen (close_or_exit strerror target_userns ''close-target_userns'')
    (andthen (close_or_exit strerror pid_userns ''close-pid_userns'')
      (exit3 EXIT_SUCCESS))"

text \<open>After the walk: report, and close the descriptor found unless it is the target's.\<close>

definition walk_report ::
  "ns_os \<Rightarrow> (int \<Rightarrow> string) \<Rightarrow> string \<Rightarrow> nat \<Rightarrow> nat option \<Rightarrow> (ns_st, unit) prog" where
  "walk_report K strerror pid_str target_userns desc = (case desc of
      None \<Rightarrow> none_report pid_str
    | Some d \<Rightarrow> andthen (ancestor_report K strerror pid_str d)
        (whenM (d \<noteq> target_userns) (close_or_exit strerror d ''close-desc_userns'')))"

definition ns_usage :: "string \<Rightarrow> (ns_st, unit) prog" where
  "ns_usage prog =
     andthen (modify (fputs_stderr (''Usage: '' @ prog @ '' PID ns-file'' @ [NL])))
    (andthen (modify (fputs_stderr ([TAB] @ [CHR 39] @ ''ns-file'' @ [CHR 39] @ '' is a /proc/PID/ns/xxxx file'' @ [NL])))
      (exit3 EXIT_FAILURE))"

definition ns_main ::
  "ns_os \<Rightarrow> (int \<Rightarrow> string) \<Rightarrow> string \<Rightarrow> string list \<Rightarrow> ns_st \<Rightarrow> ((halt + unit) \<times> ns_st) option" where
  "ns_main K strerror prog args s =
     (if length args \<noteq> 2 then Some (ns_usage prog s)
      else case ns_setup K strerror (args ! 0) (args ! 1) s of
        (Inl h, s1) \<Rightarrow> Some (Inl h, s1)
      | (Inr (target_userns, pid_userns), s1) \<Rightarrow>
          (case ns_equal K strerror pid_userns target_userns s1 of
             (Inl h, s2) \<Rightarrow> Some (Inl h, s2)
           | (Inr True, s2) \<Rightarrow> Some (andthen (same_report K strerror (args ! 0)) (ns_finish strerror target_userns pid_userns) s2)
           | (Inr False, s2) \<Rightarrow>
               (case is_ancestor_userns K strerror pid_userns target_userns s2 of
                  None \<Rightarrow> None
                | Some (Inl h, s3) \<Rightarrow> Some (Inl h, s3)
                | Some (Inr desc, s3) \<Rightarrow>
                    Some (andthen (walk_report K strerror (args ! 0) target_userns desc)
                      (ns_finish strerror target_userns pid_userns) s3))))"

section \<open>Ancestors\<close>

text \<open>The \<open>n\<close>-th ancestor of a user namespace, in the kernel's tree.\<close>

primrec ns_anc :: "ns_os \<Rightarrow> nat \<Rightarrow> nat \<Rightarrow> nat option" where
  "ns_anc K 0 u = Some u"
| "ns_anc K (Suc n) u = (case ns_anc K n u of None \<Rightarrow> None
     | Some a \<Rightarrow> (case k_parent K a of Inl _ \<Rightarrow> None | Inr p \<Rightarrow> Some p))"

lemma ns_anc_SucE:
  assumes "ns_anc K (Suc n) u = Some p"
  obtains a where "ns_anc K n u = Some a" "k_parent K a = Inr p"
  using assms by (auto split: option.splits sum.splits)

section \<open>The descriptor table during the walk\<close>

text \<open>
  The standard streams are open, the target's descriptor is \<open>T\<close> (3 or 4), that of the process's
  namespace the other of the two. The walk holds its \<open>i\<close>-th namespace in \<open>T\<close> when \<open>i\<close> is even and
  in 5 when it is odd: leaving the target it closes the target's descriptor, which the next parent
  but one then gets again.
\<close>

definition ns_tab :: "nat \<Rightarrow> fdobj option \<Rightarrow> nat \<Rightarrow> fdobj option list \<Rightarrow> fdobj option list" where
  "ns_tab T t x l = [Some Stdio, Some Stdio, Some Stdio] @
     (if T = 3 then [t, Some (Ns x)] else [Some (Ns x), t]) @ l"

definition walk_tab :: "nat \<Rightarrow> nat \<Rightarrow> nat \<Rightarrow> nat \<Rightarrow> fdobj option list" where
  "walk_tab T x i y =
     (if i = 0 then ns_tab T (Some (Ns y)) x []
      else if even i then ns_tab T (Some (Ns y)) x [None]
      else ns_tab T None x [Some (Ns y)])"

definition walk_fd :: "nat \<Rightarrow> nat \<Rightarrow> nat" where
  "walk_fd T i = (if even i then T else 5)"

lemmas walk_simps = ns_tab_def walk_tab_def walk_fd_def fd_alloc_def fd_obj_def

lemma walk_obj:
  assumes "T = 3 \<or> T = 4"
  shows "fd_obj (walk_fd T i) (walk_tab T x i y) = Some (Ns y)" "fd_obj (7 - T) (walk_tab T x i y) = Some (Ns x)"
  using assms by (auto simp: walk_simps)

lemma walk_alloc:
  assumes "T = 3 \<or> T = 4"
  obtains tab where "fd_alloc (Ns p) (walk_tab T x i y) = (walk_fd T (Suc i), tab)"
    "fd_obj (walk_fd T (Suc i)) tab = Some (Ns p)" "fd_obj (7 - T) tab = Some (Ns x)"
    "fd_obj (walk_fd T i) tab = Some (Ns y)"
    "tab[walk_fd T i := None] = walk_tab T x (Suc i) p"
    "tab[walk_fd T (Suc i) := None] = walk_tab T x (if i = 0 then 2 else i) y"
  using assms by (cases "i = 0"; cases "even i") (auto simp: walk_simps odd_pos)

lemma walk_close:
  assumes "T = 3 \<or> T = 4"
  shows "fd_obj T (walk_tab T x i y) = (if even i then Some (Ns y) else None)"
    "even i \<Longrightarrow> fd_obj (7 - T) ((walk_tab T x i y)[T := None]) = Some (Ns x)"
    "odd i \<Longrightarrow> fd_obj T ((walk_tab T x i y)[5 := None]) = None"
    "odd i \<Longrightarrow> fd_obj 5 (walk_tab T x i y) = Some (Ns y)"
  using assms by (auto simp: walk_simps odd_pos)

section \<open>The walk\<close>

lemma ns_equal_open:
  assumes "fd_obj a (fd_tab s) = Some (Ns p)" "fd_obj b (fd_tab s) = Some (Ns x)" "inj (k_stat K)"
  shows "ns_equal K strerror a b s = (Inr (p = x), s)"
proof -
  have "k_stat K p = k_stat K x \<longleftrightarrow> p = x" using assms(3) by (auto dest: injD)
  with assms(1,2) show ?thesis
    by (simp add: ns_equal_def fstat_or_exit_def ns_ioctl_def prog_simps prod_eq_iff)
qed

lemma fd_tab_same: "fd_tab s = t \<Longrightarrow> s\<lparr>fd_tab := t\<rparr> = s"
  by auto

lemma pass_parent:
  assumes T: "T = 3 \<or> T = 4" and inj: "inj (k_stat K)" and p: "k_parent K y = Inr p"
    and tab: "fd_tab s = walk_tab T x i y"
  shows "ancestor_pass K strerror (7 - T) (walk_fd T i) s =
    (if p = x then (Inr (Inl (Some (walk_fd T i))), s\<lparr>fd_tab := walk_tab T x (if i = 0 then 2 else i) y\<rparr>)
     else (Inr (Inr (walk_fd T (Suc i))), s\<lparr>fd_tab := walk_tab T x (Suc i) p\<rparr>))"
proof -
  obtain tab where tab': "fd_alloc (Ns p) (walk_tab T x i y) = (walk_fd T (Suc i), tab)"
    and obj: "fd_obj (walk_fd T (Suc i)) tab = Some (Ns p)" "fd_obj (7 - T) tab = Some (Ns x)"
      "fd_obj (walk_fd T i) tab = Some (Ns y)"
    and upd: "tab[walk_fd T i := None] = walk_tab T x (Suc i) p"
    "tab[walk_fd T (Suc i) := None] = walk_tab T x (if i = 0 then 2 else i) y"
    using walk_alloc [OF T] by metis
  have eq: "ns_equal K strerror (walk_fd T (Suc i)) (7 - T) (s\<lparr>fd_tab := tab\<rparr>) = (Inr (p = x), s\<lparr>fd_tab := tab\<rparr>)"
    using obj inj by (intro ns_equal_open) auto
  show ?thesis
    using walk_obj [OF T, of i x y] tab p eq obj upd
    by (simp add: ancestor_pass_def ns_ioctl_def new_fd_def tab' sys_close_def prog_simps)
qed

lemma pass_root:
  assumes "T = 3 \<or> T = 4" "k_parent K y = Inl EPERM" "fd_tab s = walk_tab T x i y"
  shows "ancestor_pass K strerror fd_x (walk_fd T i) s = (Inr (Inl None), s\<lparr>errno := EPERM\<rparr>)"
  using walk_obj [OF assms(1), of i x y] assms(2-)
  by (simp add: ancestor_pass_def ns_ioctl_def new_fd_def prog_simps)

text \<open>From the \<open>i\<close>-th to the \<open>n\<close>-th ancestor, while none in between is the namespace looked for.\<close>

lemma walk_up:
  assumes T: "T = 3 \<or> T = 4" and inj: "inj (k_stat K)"
    and tab: "fd_tab s = walk_tab T x 0 u"
    and anc: "ns_anc K n u = Some y" and no: "\<And>j. 0 < j \<Longrightarrow> j \<le> n \<Longrightarrow> ns_anc K j u \<noteq> Some x"
  shows "ancestor_loop K strerror (7 - T) T s =
    ancestor_loop K strerror (7 - T) (walk_fd T n) (s\<lparr>fd_tab := walk_tab T x n y\<rparr>)"
  using anc no
proof (induction n arbitrary: y)
  case 0
  then show ?case using fd_tab_same [OF tab] by (simp add: walk_fd_def)
next
  case (Suc n)
  from Suc.prems(1) obtain a where a: "ns_anc K n u = Some a" "k_parent K a = Inr y" by (rule ns_anc_SucE)
  have "y \<noteq> x" using Suc.prems(1) Suc.prems(2) [of "Suc n"] by auto
  then have pass: "ancestor_pass K strerror (7 - T) (walk_fd T n) (s\<lparr>fd_tab := walk_tab T x n a\<rparr>) =
      (Inr (Inr (walk_fd T (Suc n))), s\<lparr>fd_tab := walk_tab T x (Suc n) y\<rparr>)"
    using pass_parent [OF T inj a(2), of "s\<lparr>fd_tab := walk_tab T x n a\<rparr>" x n strerror] by simp
  have "ancestor_loop K strerror (7 - T) T s =
      ancestor_loop K strerror (7 - T) (walk_fd T n) (s\<lparr>fd_tab := walk_tab T x n a\<rparr>)"
    using a(1) Suc.prems(2) by (intro Suc.IH) auto
  also have "\<dots> = ancestor_loop K strerror (7 - T) (walk_fd T (Suc n)) (s\<lparr>fd_tab := walk_tab T x (Suc n) y\<rparr>)"
    by (subst ancestor_loop.simps) (simp add: pass)
  finally show ?case .
qed

lemma walk_found:
  assumes T: "T = 3 \<or> T = 4" and inj: "inj (k_stat K)"
    and tab: "fd_tab s = walk_tab T x 0 u"
    and anc: "ns_anc K n u = Some y" "k_parent K y = Inr x"
    and no: "\<And>j. 0 < j \<Longrightarrow> j \<le> n \<Longrightarrow> ns_anc K j u \<noteq> Some x"
  shows "is_ancestor_userns K strerror (7 - T) T s =
    Some (Inr (Some (walk_fd T n)), s\<lparr>fd_tab := walk_tab T x (if n = 0 then 2 else n) y\<rparr>)"
  unfolding is_ancestor_userns_def
  by (rule trans [OF walk_up [OF T inj tab anc(1) no]], assumption, assumption)
    (subst ancestor_loop.simps, simp add: pass_parent [OF T inj anc(2)])

lemma walk_none:
  assumes T: "T = 3 \<or> T = 4" and inj: "inj (k_stat K)"
    and tab: "fd_tab s = walk_tab T x 0 u"
    and anc: "ns_anc K n u = Some y" "k_parent K y = Inl EPERM"
    and no: "\<And>j. 0 < j \<Longrightarrow> j \<le> n \<Longrightarrow> ns_anc K j u \<noteq> Some x"
  shows "is_ancestor_userns K strerror (7 - T) T s =
    Some (Inr None, s\<lparr>fd_tab := walk_tab T x n y, errno := EPERM\<rparr>)"
  unfolding is_ancestor_userns_def
  by (rule trans [OF walk_up [OF T inj tab anc(1) no]], assumption, assumption)
    (subst ancestor_loop.simps, simp add: pass_root [OF T anc(2)])

section \<open>Before and after the walk\<close>

text \<open>The user namespace \<open>u\<close> governs the namespace of the file, and the process is in \<open>x\<close>.\<close>

definition ns_names :: "ns_os \<Rightarrow> string \<Rightarrow> string \<Rightarrow> nat \<Rightarrow> nat \<Rightarrow> bool" where
  "ns_names K pid_str ns_file x u \<longleftrightarrow>
     (case k_open K ns_file of Inl _ \<Rightarrow> False
      | Inr f \<Rightarrow> (case k_nstype K f of Inl _ \<Rightarrow> False
          | Inr ty \<Rightarrow> if ty = CLONE_NEWUSER then f = u else k_owning K f = Inr u))
     \<and> length pid_str < 4000 \<and> k_open K (''/proc/'' @ pid_str @ ''/ns/user'') = Inr x"

text \<open>The effective user ID and the capabilities of a process, as \<^verbatim>\<open>/proc\<close> and libcap give them.\<close>

definition proc_euid :: "ns_os \<Rightarrow> int \<Rightarrow> int \<Rightarrow> bool" where
  "proc_euid K pid uid \<longleftrightarrow>
     (case k_fopen K (snprintf PATH_MAX (''/proc/'' @ show_int pid @ ''/status'')) of Inl _ \<Rightarrow> False
      | Inr ls \<Rightarrow> (case find (\<lambda>l. take 4 l = ''Uid:'') ls of None \<Rightarrow> False | Some l \<Rightarrow> scan_uid l = Some uid))"

definition proc_caps :: "ns_os \<Rightarrow> int \<Rightarrow> string \<Rightarrow> bool" where
  "proc_caps K pid t \<longleftrightarrow>
     (case k_cap_get K pid of Inl _ \<Rightarrow> False | Inr c \<Rightarrow> k_cap_text K c = Inr t)"

lemma setup_ok:
  assumes "ns_names K pid_str ns_file x u" "fd_tab s = [Some Stdio, Some Stdio, Some Stdio]"
  obtains T where "T = 3 \<or> T = 4"
    "ns_setup K strerror pid_str ns_file s = (Inr (T, 7 - T), s\<lparr>fd_tab := walk_tab T x 0 u\<rparr>)"
proof -
  from assms(1) obtain f ty where f: "k_open K ns_file = Inr f" "k_nstype K f = Inr ty"
    and u: "if ty = CLONE_NEWUSER then f = u else k_owning K f = Inr u"
    and x: "k_open K (snprintf PATH_MAX (''/proc/'' @ pid_str @ ''/ns/user'')) = Inr x"
    by (auto simp: ns_names_def snprintf_def PATH_MAX_def split: sum.splits)
  show thesis
  proof (cases "ty = CLONE_NEWUSER")
    case True
    with f u x assms(2) show thesis
      by (intro that [of 3])
        (simp_all add: ns_setup_def open_or_exit_def ns_type_def ns_ioctl_def new_fd_def walk_simps prog_simps)
  next
    case False
    with f u x assms(2) show thesis
      by (intro that [of 4])
        (simp_all add: ns_setup_def open_or_exit_def ns_type_def owning_userns_of_def ns_ioctl_def new_fd_def
          sys_close_def walk_simps prog_simps)
  qed
qed

lemma fd_tab_noise [simp]: "fd_tab (stdio_noise s) = fd_tab s"
  by (simp add: stdio_noise_def split: option.splits)

lemma fd_tab_stdio [simp]: "fd_tab (printf_stdout t s) = fd_tab s" "fd_tab (fputs_stderr t s) = fd_tab s"
  "fd_tab (fflush_stdout s) = fd_tab s"
  by (simp_all add: printf_stdout_def fputs_stderr_def fflush_stdout_def)

text \<open>\<open>prints m s t\<close>: from \<open>s\<close> the computation returns, having only printed \<open>t\<close>.\<close>

definition prints :: "(ns_st, 'a) prog \<Rightarrow> ns_st \<Rightarrow> 'a \<Rightarrow> string \<Rightarrow> bool" where
  "prints m s r t \<longleftrightarrow> (\<exists>s'. m s = (Inr r, s') \<and> fd_tab s' = fd_tab s \<and> stdout_buf s' = stdout_buf s @ t
     \<and> stdout_out s' = stdout_out s \<and> stderr_out s' = stderr_out s)"

lemma prints_printfM: "prints (printfM t) s () t"
  by (simp add: prints_def printfM_def)

lemma prints_same: "m s = (Inr r, s) \<Longrightarrow> prints m s r []"
  by (simp add: prints_def)

lemma prints_bnd:
  assumes "prints m s r t" "\<And>s'. fd_tab s' = fd_tab s \<Longrightarrow> prints (f r) s' q t'"
  shows "prints (bnd m f) s q (t @ t')"
proof -
  from assms(1) obtain s1 where 1: "m s = (Inr r, s1)" "fd_tab s1 = fd_tab s" "stdout_buf s1 = stdout_buf s @ t"
    "stdout_out s1 = stdout_out s" "stderr_out s1 = stderr_out s" by (auto simp: prints_def)
  with assms(2) [of s1] show ?thesis by (auto simp: prints_def bnd_apply)
qed

lemma prints_andthen:
  "prints m s r t \<Longrightarrow> (\<And>s'. fd_tab s' = fd_tab s \<Longrightarrow> prints k s' q t') \<Longrightarrow> prints (andthen m k) s q (t @ t')"
  unfolding andthen_def by (rule prints_bnd)

lemma prints_caps:
  "proc_caps K pid t \<Longrightarrow> prints (display_process_capabilities K strerror pid) s () (''Capabilities: '' @ t @ [NL])"
  by (auto simp: proc_caps_def display_process_capabilities_def prints_printfM split: sum.splits)

lemma uid_loop_find: "find (\<lambda>l. take 4 l = ''Uid:'') ls = Some l \<Longrightarrow> scan_uid l = Some uid \<Longrightarrow>
    uid_loop path ls = ret (to_u32 uid)"
  by (induction ls) (auto split: if_splits)

lemma prints_euid:
  "proc_euid K pid uid \<Longrightarrow> prints (euid_of_process K strerror pid) s (to_u32 uid) []"
  by (rule prints_same) (auto simp: proc_euid_def euid_of_process_def Let_def uid_loop_find
      split: sum.splits option.splits)

lemma prints_owner:
  assumes "fd_obj fd (fd_tab s) = Some (Ns c)" "k_owner_uid K c = Inr owner"
  shows "prints (uid_of_userns_owner K strerror fd) s (to_s32 owner) []"
  using assms by (intro prints_same) (simp add: uid_of_userns_owner_def ns_ioctl_def)

text \<open>The three reports.\<close>

definition same_text :: "string \<Rightarrow> string \<Rightarrow> string" where
  "same_text pid_str caps = ''PID '' @ pid_str @ '' is in the target namespace.'' @ [NL] @
     ''Subject to LSM checks, it has the following capabilities:'' @ [NL] @ ''Capabilities: '' @ caps @ [NL]"

definition none_text :: "string \<Rightarrow> string" where
  "none_text pid_str = ''PID '' @ pid_str @ '' is not in an ancestor user namespace.'' @ [NL] @
     ''Therefore, it has no capabilities in the target namespace.'' @ [NL]"

definition ancestor_text :: "string \<Rightarrow> bool \<Rightarrow> string \<Rightarrow> string" where
  "ancestor_text pid_str is_owner caps = ''PID '' @ pid_str @ '' is in an ancestor user namespace'' @
     (if is_owner then '' and its effective UID matches'' else '', but its effective UID does not match'') @ [NL] @
     ''the owner of the immediate child user namespace of that ancestor namespace.'' @ [NL] @
     (if is_owner then ''Therefore, subject to LSM checks, it has all capabilities in the target'' @ [NL] @
        ''namespace!'' @ [NL]
      else ''Therefore, subject to LSM checks, it has only the capabilities that are in its'' @ [NL] @
        ''sets, which are:'' @ [NL] @ ''Capabilities: '' @ caps @ [NL])"

lemma prints_eq: "prints m s r t \<Longrightarrow> t = t' \<Longrightarrow> prints m s r t'"
  by simp

lemma prints_same_report:
  assumes "proc_caps K (atoi pid_str) caps"
  shows "prints (same_report K strerror pid_str) s () (same_text pid_str caps)"
  unfolding same_report_def
  by (rule prints_eq, (rule prints_andthen prints_printfM prints_caps [OF assms])+)
    (simp add: same_text_def)

lemma prints_none_report: "prints (none_report pid_str) s () (none_text pid_str)"
  unfolding none_report_def
  by (rule prints_eq, (rule prints_andthen prints_printfM)+) (simp add: none_text_def)

lemma to_u32_s32: "0 \<le> v \<Longrightarrow> v < 2 ^ 32 \<Longrightarrow> to_u32 (to_s32 v) = v"
  by (simp add: to_u32_def to_s32_def mod_diff_left_eq)

lemma prints_if:
  "prints m s r t \<Longrightarrow> prints k s r t' \<Longrightarrow> prints (if b then m else k) s r (if b then t else t')"
  by simp

lemma prints_ancestor_report:
  assumes "proc_euid K (atoi pid_str) uid" "proc_caps K (atoi pid_str) caps"
    "fd_obj fd (fd_tab s) = Some (Ns c)" "k_owner_uid K c = Inr owner" "0 \<le> owner" "owner < 2 ^ 32"
  shows "prints (ancestor_report K strerror pid_str fd) s () (ancestor_text pid_str (to_u32 uid = owner) caps)"
proof -
  have own: "prints (uid_of_userns_owner K strerror fd) s' (to_s32 owner) []" if "fd_tab s' = fd_tab s" for s'
    using that assms(3,4) by (intro prints_owner) auto
  have "prints (ancestor_report K strerror pid_str fd) s ()
      (ancestor_text pid_str (to_u32 uid = to_u32 (to_s32 owner)) caps)"
    unfolding ancestor_report_def Let_def
    by (rule prints_eq, rule prints_bnd [OF prints_euid [OF assms(1)]], rule prints_bnd [OF own], assumption,
        (rule prints_andthen prints_printfM prints_if prints_caps [OF assms(2)])+)
      (simp add: ancestor_text_def)
  then show ?thesis by (simp add: to_u32_s32 assms(5,6) del: power_numeral)
qed

section \<open>The end of the program\<close>

text \<open>\<open>ends ok m s t\<close>: from \<open>s\<close> the program exits, its stdout is what was pending and \<open>t\<close>; it succeeds, or it
  fails with the complaint that the target's descriptor is not open.\<close>

definition ends :: "(int \<Rightarrow> string) \<Rightarrow> bool \<Rightarrow> (halt + 'a) \<times> ns_st \<Rightarrow> ns_st \<Rightarrow> string \<Rightarrow> bool" where
  "ends strerror ok r s t \<longleftrightarrow>
     fst r = Inl (Exit (if ok then EXIT_SUCCESS else EXIT_FAILURE))
   \<and> stdout_out (snd r) = stdout_out s @ stdout_buf s @ t
   \<and> stderr_out (snd r) = stderr_out s @
       (if ok then [] else ''close-target_userns: '' @ strerror EBADF @ [NL])"

lemma finish_ends:
  assumes "T = 3 \<or> T = 4" "fd_tab s = walk_tab T x i y \<or> odd i \<and> fd_tab s = (walk_tab T x i y)[5 := None]"
  shows "ends strerror (even i) (ns_finish strerror T (7 - T) s) s []"
proof (cases "even i")
  case True
  with assms walk_close [OF assms(1), where x = x and i = i and y = y] show ?thesis
    by (simp add: ends_def ns_finish_def close_or_exit_def sys_close_def exit3_def prog_simps)
next
  case False
  with assms walk_close [OF assms(1), where x = x and i = i and y = y] have "fd_obj T (fd_tab s) = None" by auto
  then show ?thesis
    using False by (simp add: ends_def ns_finish_def close_or_exit_def sys_close_def exit3_def macro_errExit_def
        perror_def prog_simps)
qed

lemma ends_prints:
  assumes "prints m s r t" "\<And>s'. fd_tab s' = fd_tab s \<Longrightarrow> ends strerror ok (k s') s' t'"
  shows "ends strerror ok (andthen m k s) s (t @ t')"
proof -
  from assms(1) obtain s1 where 1: "m s = (Inr r, s1)" "fd_tab s1 = fd_tab s" "stdout_buf s1 = stdout_buf s @ t"
    "stdout_out s1 = stdout_out s" "stderr_out s1 = stderr_out s" by (auto simp: prints_def)
  with assms(2) [of s1] show ?thesis by (auto simp: ends_def andthen_apply)
qed

lemma andthen_assoc: "andthen (andthen a b) c = andthen a (andthen b c)"
  by (rule ext) (auto simp: andthen_apply split: prod.splits sum.splits)

lemma found_ends:
  assumes T: "T = 3 \<or> T = 4" and tab: "fd_tab s = walk_tab T x (if n = 0 then 2 else n) c"
    and rep: "proc_euid K (atoi pid_str) uid" "proc_caps K (atoi pid_str) caps"
      "k_owner_uid K c = Inr owner" "0 \<le> owner" "owner < 2 ^ 32"
  shows "ends strerror (even n)
    (andthen (walk_report K strerror pid_str T (Some (walk_fd T n))) (ns_finish strerror T (7 - T)) s) s
    (ancestor_text pid_str (to_u32 uid = owner) caps)"
proof -
  let ?i = "if n = 0 then 2 else n"
  have fd: "walk_fd T n = walk_fd T ?i" and ev: "even n = even ?i" by (auto simp: walk_fd_def)
  have obj: "fd_obj (walk_fd T n) (fd_tab s) = Some (Ns c)"
    unfolding fd tab by (rule walk_obj [OF T])
  have rest: "ends strerror (even n)
      (andthen (whenM (walk_fd T n \<noteq> T) (close_or_exit strerror (walk_fd T n) ''close-desc_userns''))
        (ns_finish strerror T (7 - T)) s') s' []" if s': "fd_tab s' = fd_tab s" for s'
  proof (cases "even n")
    case True
    then show ?thesis using finish_ends [OF T, of s' x ?i c strerror] s' tab ev by (simp add: walk_fd_def)
  next
    case False
    then have "n \<noteq> 0" by (rule odd_pos [THEN gr_implies_not0])
    let ?s = "s'\<lparr>fd_tab := (fd_tab s')[5 := None]\<rparr>"
    have "ends strerror (even n) (ns_finish strerror T (7 - T) ?s) ?s []"
      using finish_ends [OF T, of ?s x n c strerror] False s' tab \<open>n \<noteq> 0\<close> by simp
    moreover have "fd_obj 5 (fd_tab s') = Some (Ns c)"
      using walk_close(4) [OF T False] s' tab \<open>n \<noteq> 0\<close> by simp
    ultimately show ?thesis
      using False T by (auto simp: walk_fd_def close_or_exit_def sys_close_def ends_def prog_simps)
  qed
  show ?thesis
    using ends_prints [OF prints_ancestor_report [OF rep(1,2) obj rep(3-5)], where t' = "[]", OF rest]
    by (simp add: walk_report_def andthen_assoc)
qed

lemma main_start:
  assumes "fd_tab s = [Some Stdio, Some Stdio, Some Stdio]" "inj (k_stat K)"
    and names: "ns_names K pid_str ns_file x u" and "u \<noteq> x"
  obtains T where "T = 3 \<or> T = 4"
    "ns_setup K strerror pid_str ns_file s = (Inr (T, 7 - T), s\<lparr>fd_tab := walk_tab T x 0 u\<rparr>)"
    "ns_equal K strerror (7 - T) T (s\<lparr>fd_tab := walk_tab T x 0 u\<rparr>) = (Inr False, s\<lparr>fd_tab := walk_tab T x 0 u\<rparr>)"
proof -
  obtain T where T: "T = 3 \<or> T = 4"
    and st: "ns_setup K strerror pid_str ns_file s = (Inr (T, 7 - T), s\<lparr>fd_tab := walk_tab T x 0 u\<rparr>)"
    using setup_ok [OF names assms(1)] by metis
  let ?s = "s\<lparr>fd_tab := walk_tab T x 0 u\<rparr>"
  have "fd_obj (7 - T) (fd_tab ?s) = Some (Ns x)" "fd_obj T (fd_tab ?s) = Some (Ns u)"
    using walk_obj [OF T, where i = 0 and x = x and y = u] by (simp_all add: walk_fd_def)
  from ns_equal_open [OF this assms(2)] assms(4) that [OF T st] show thesis by simp
qed

section \<open>Properties\<close>

text \<open>C17. A process in a proper ancestor of the user namespace that governs the file: \<^verbatim>\<open>ns_capable\<close> ends its
  walk and prints the right verdict, all capabilities exactly if the effective user ID of the process is the
  owner of the child namespace through which the ancestor is reached, else its own sets. But it then succeeds
  only if that child is an even number of levels above the target: otherwise the walk has closed the target's
  descriptor, and the program fails on closing it again.\<close>

theorem ns_main_ancestor:
  assumes "fd_tab s = [Some Stdio, Some Stdio, Some Stdio]" and inj: "inj (k_stat K)"
    and names: "ns_names K pid_str ns_file x u"
    and anc: "ns_anc K n u = Some c" "k_parent K c = Inr x" "\<forall>j \<le> n. ns_anc K j u \<noteq> Some x"
    and rep: "proc_euid K (atoi pid_str) uid" "proc_caps K (atoi pid_str) caps"
      "k_owner_uid K c = Inr owner" "0 \<le> owner" "owner < 2 ^ 32"
  shows "\<exists>r. ns_main K strerror prog [pid_str, ns_file] s = Some r \<and>
    ends strerror (even n) r s (ancestor_text pid_str (to_u32 uid = owner) caps)"
proof -
  have "u \<noteq> x" using anc(3) by (metis le0 ns_anc.simps(1))
  then obtain T where T: "T = 3 \<or> T = 4"
    and start: "ns_setup K strerror pid_str ns_file s = (Inr (T, 7 - T), s\<lparr>fd_tab := walk_tab T x 0 u\<rparr>)"
      "ns_equal K strerror (7 - T) T (s\<lparr>fd_tab := walk_tab T x 0 u\<rparr>) = (Inr False, s\<lparr>fd_tab := walk_tab T x 0 u\<rparr>)"
    by (rule main_start [OF assms(1) inj names, where strerror = strerror])
  let ?s = "s\<lparr>fd_tab := walk_tab T x 0 u\<rparr>"
  let ?s3 = "?s\<lparr>fd_tab := walk_tab T x (if n = 0 then 2 else n) c\<rparr>"
  have walk: "is_ancestor_userns K strerror (7 - T) T ?s = Some (Inr (Some (walk_fd T n)), ?s3)"
    using anc by (intro walk_found [OF T inj _ anc(1,2)]) auto
  have "ends strerror (even n)
      (andthen (walk_report K strerror pid_str T (Some (walk_fd T n))) (ns_finish strerror T (7 - T)) ?s3) ?s3
      (ancestor_text pid_str (to_u32 uid = owner) caps)"
    by (intro found_ends [OF T _ rep]) simp
  then show ?thesis
    using walk by (simp add: ns_main_def start ends_def)
qed

definition sample_ns :: ns_os where
  "sample_ns = \<lparr>k_open = (\<lambda>p. if p = ''/proc/77/ns/uts'' then Inr 9 else if p = ''/proc/5/ns/user'' then Inr 0 else Inr 7),
     k_stat = (\<lambda>n. (4, int n)), k_nstype = (\<lambda>n. Inr (if n = 9 then 0x4000000 else CLONE_NEWUSER)),
     k_owning = (\<lambda>_. Inr 2), k_parent = (\<lambda>n. if n = 0 then Inl EPERM else Inr (n - 1)),
     k_owner_uid = (\<lambda>n. Inr (1000 + int n)),
     k_fopen = (\<lambda>_. Inr [''Name: sh'', ''Uid: 0 1001 0 0'']), k_cap_get = (\<lambda>_. Inr 0), k_cap_text = (\<lambda>_. Inr ''='')\<rparr>"

definition sample_nst :: ns_st where
  "sample_nst = \<lparr>stdout_buf = [], stdout_out = [], stderr_out = [], errno = 0, ef_dumpcore = None,
     stdio_errno = Some 25, fd_tab = [Some Stdio, Some Stdio, Some Stdio]\<rparr>"

lemma sample_ns_inj: "inj (k_stat sample_ns)"
  by (simp add: inj_def sample_ns_def)

lemma sample_uid: "scan_uid ''Uid: 0 1001 0 0'' = Some 1001"
  by code_simp

theorem ns_main_ancestor_witness:
  "\<exists>r. ns_main sample_ns (\<lambda>_. ''Bad file descriptor'') ''ns_capable'' [''5'', ''/proc/77/ns/uts''] sample_nst = Some r \<and>
    ends (\<lambda>_. ''Bad file descriptor'') False r sample_nst (ancestor_text ''5'' True ''='')"
proof -
  have tab: "fd_tab sample_nst = [Some Stdio, Some Stdio, Some Stdio]" by (simp add: sample_nst_def)
  have names: "ns_names sample_ns ''5'' ''/proc/77/ns/uts'' 0 2" by (simp add: ns_names_def sample_ns_def const_defs)
  have anc: "ns_anc sample_ns 1 2 = Some 1" "k_parent sample_ns 1 = Inr 0" "\<forall>j \<le> 1. ns_anc sample_ns j 2 \<noteq> Some 0"
    by (auto simp: sample_ns_def le_Suc_eq)
  have rep: "proc_euid sample_ns (atoi ''5'') 1001" "proc_caps sample_ns (atoi ''5'') ''=''"
      "k_owner_uid sample_ns 1 = Inr 1001"
    by (simp_all add: proc_euid_def proc_caps_def sample_ns_def sample_uid)
  show ?thesis
    using ns_main_ancestor [OF tab sample_ns_inj names anc rep,
        where strerror = "\<lambda>_. ''Bad file descriptor''" and prog = "''ns_capable''"] by (simp add: to_u32_def)
qed

text \<open>A process outside the ancestors of the governing user namespace: if the walk up from it reaches, after
  \<open>n\<close> parents, the namespace whose parent the kernel does not give, the program ends and says that the process
  has no capabilities there; it succeeds exactly if \<open>n\<close> is even.\<close>

theorem ns_main_not_ancestor:
  assumes "fd_tab s = [Some Stdio, Some Stdio, Some Stdio]" and inj: "inj (k_stat K)"
    and names: "ns_names K pid_str ns_file x u"
    and anc: "ns_anc K n u = Some y" "k_parent K y = Inl EPERM" "\<forall>j \<le> n. ns_anc K j u \<noteq> Some x"
  shows "\<exists>r. ns_main K strerror prog [pid_str, ns_file] s = Some r \<and>
    ends strerror (even n) r s (none_text pid_str)"
proof -
  have "u \<noteq> x" using anc(3) by (metis le0 ns_anc.simps(1))
  then obtain T where T: "T = 3 \<or> T = 4"
    and start: "ns_setup K strerror pid_str ns_file s = (Inr (T, 7 - T), s\<lparr>fd_tab := walk_tab T x 0 u\<rparr>)"
      "ns_equal K strerror (7 - T) T (s\<lparr>fd_tab := walk_tab T x 0 u\<rparr>) = (Inr False, s\<lparr>fd_tab := walk_tab T x 0 u\<rparr>)"
    by (rule main_start [OF assms(1) inj names, where strerror = strerror])
  let ?s = "s\<lparr>fd_tab := walk_tab T x 0 u\<rparr>"
  let ?s3 = "?s\<lparr>fd_tab := walk_tab T x n y, errno := EPERM\<rparr>"
  have walk: "is_ancestor_userns K strerror (7 - T) T ?s = Some (Inr None, ?s3)"
    using anc by (intro walk_none [OF T inj _ anc(1,2)]) auto
  have "ends strerror (even n)
      (andthen (none_report pid_str) (ns_finish strerror T (7 - T)) ?s3) ?s3 (none_text pid_str @ [])"
    by (rule ends_prints [OF prints_none_report], rule finish_ends [OF T, where x = x and y = y]) simp
  then show ?thesis
    using walk by (simp add: ns_main_def start ends_def walk_report_def)
qed

theorem ns_main_not_ancestor_witness:
  "\<exists>r. ns_main sample_ns (\<lambda>_. []) ''ns_capable'' [''6'', ''/proc/77/ns/uts''] sample_nst = Some r \<and>
    ends (\<lambda>_. []) True r sample_nst (none_text ''6'')"
proof -
  have tab: "fd_tab sample_nst = [Some Stdio, Some Stdio, Some Stdio]" by (simp add: sample_nst_def)
  have names: "ns_names sample_ns ''6'' ''/proc/77/ns/uts'' 7 2" by (simp add: ns_names_def sample_ns_def const_defs)
  have anc: "ns_anc sample_ns 2 2 = Some 0" "k_parent sample_ns 0 = Inl EPERM" "\<forall>j \<le> 2. ns_anc sample_ns j 2 \<noteq> Some 7"
    by (auto simp: sample_ns_def le_Suc_eq numeral_2_eq_2)
  show ?thesis
    using ns_main_not_ancestor [OF tab sample_ns_inj names anc, where strerror = "\<lambda>_. []" and prog = "''ns_capable''"]
    by simp
qed

end
