(* ===== verification/Capabilities.thy ===== *)
theory Capabilities
  imports Error_Functions
begin

text \<open>
  \<^verbatim>\<open>tlpi-book/cap/cap_functions.c\<close>: changing one capability of the calling process, and printing the
  securebits. The capability sets that \<^verbatim>\<open>cap_get_proc\<close> returns are of a type of their own, known only to
  libcap, and the kernel has a state of its own: both are type parameters, and the calls are a record of
  functions. A call that can only succeed or fail gives the error number or \<open>None\<close>.
\<close>

datatype cap_flag = CAP_PERMITTED | CAP_EFFECTIVE | CAP_INHERITABLE

record ('k, 'c) cap_os =
  cap_get_proc :: "'k \<Rightarrow> int + 'c"
  cap_set_flag :: "'c \<Rightarrow> cap_flag \<Rightarrow> int \<Rightarrow> bool \<Rightarrow> int + 'c"
  cap_set_proc :: "'c \<Rightarrow> 'k \<Rightarrow> int option \<times> 'k"
  cap_free :: "'c \<Rightarrow> int option"
  cap_to_text :: "'c \<Rightarrow> int + string"
  cap_from_text :: "string \<Rightarrow> int + 'c"
  cap_from_name :: "string \<Rightarrow> int option"

text \<open>A process with its stdio and the kernel behind it.\<close>

record 'k kproc = proc_io +
  ker :: 'k

definition fail :: "int \<Rightarrow> 'a \<Rightarrow> ('s proc_io_scheme, 'a) prog" where
  "fail e r s = (Inr r, s\<lparr>errno := e\<rparr>)"

text \<open>A call that succeeds or fails; \<open>True\<close> on success.\<close>

definition kcall :: "('k \<Rightarrow> int option \<times> 'k) \<Rightarrow> (('k, 'z) kproc_scheme, bool) prog" where
  "kcall f s = (case f (ker s) of
      (None, k) \<Rightarrow> (Inr True, s\<lparr>ker := k\<rparr>)
    | (Some e, k) \<Rightarrow> (Inr False, s\<lparr>ker := k, errno := e\<rparr>))"

text \<open>A call that gives a value or fails with an error number.\<close>

definition kget :: "('k \<Rightarrow> (int + 'x) \<times> 'k) \<Rightarrow> (('k, 'z) kproc_scheme, 'x option) prog" where
  "kget f s = (case f (ker s) of
      (Inr x, k) \<Rightarrow> (Inr (Some x), s\<lparr>ker := k\<rparr>)
    | (Inl e, k) \<Rightarrow> (Inr None, s\<lparr>ker := k, errno := e\<rparr>))"

text \<open>A call that always gives a value.\<close>

definition kplain :: "('k \<Rightarrow> 'x \<times> 'k) \<Rightarrow> (('k, 'z) kproc_scheme, 'x) prog" where
  "kplain f s = (case f (ker s) of (x, k) \<Rightarrow> (Inr x, s\<lparr>ker := k\<rparr>))"

section \<open>modifyCapSetting\<close>

text \<open>\<open>True\<close> for a return value of 0.\<close>

definition modifyCapSetting ::
  "('k, 'c, 'z) cap_os_scheme \<Rightarrow> cap_flag \<Rightarrow> int \<Rightarrow> bool \<Rightarrow> ('k kproc, bool) prog" where
  "modifyCapSetting S flag capability setting =
     bnd (gets (\<lambda>s. cap_get_proc S (ker s))) (\<lambda>r. case r of
       Inl e \<Rightarrow> fail e False
     | Inr caps \<Rightarrow> (case cap_set_flag S caps flag capability setting of
         Inl e \<Rightarrow> fail e False
       | Inr caps \<Rightarrow> bnd (kcall (cap_set_proc S caps)) (\<lambda>ok.
           if \<not> ok then ret False
           else (case cap_free S caps of Some e \<Rightarrow> fail e False | None \<Rightarrow> ret True))))"

section \<open>Securebits\<close>

definition SECBIT_NOROOT :: int where [const_defs]: "SECBIT_NOROOT = 0x1"
definition SECBIT_NOROOT_LOCKED :: int where [const_defs]: "SECBIT_NOROOT_LOCKED = 0x2"
definition SECBIT_NO_SETUID_FIXUP :: int where [const_defs]: "SECBIT_NO_SETUID_FIXUP = 0x4"
definition SECBIT_NO_SETUID_FIXUP_LOCKED :: int where [const_defs]: "SECBIT_NO_SETUID_FIXUP_LOCKED = 0x8"
definition SECBIT_KEEP_CAPS :: int where [const_defs]: "SECBIT_KEEP_CAPS = 0x10"
definition SECBIT_KEEP_CAPS_LOCKED :: int where [const_defs]: "SECBIT_KEEP_CAPS_LOCKED = 0x20"
definition SECBIT_NO_CAP_AMBIENT_RAISE :: int where [const_defs]: "SECBIT_NO_CAP_AMBIENT_RAISE = 0x40"
definition SECBIT_NO_CAP_AMBIENT_RAISE_LOCKED :: int where [const_defs]: "SECBIT_NO_CAP_AMBIENT_RAISE_LOCKED = 0x80"

type_synonym secbitInfo = "int \<times> string \<times> char"

definition secbitInfoList :: "secbitInfo list" where
  "secbitInfoList = [
     (SECBIT_NO_CAP_AMBIENT_RAISE, ''NO_CAP_AMBIENT_RAISE'', CHR ''a''),
     (SECBIT_NO_CAP_AMBIENT_RAISE_LOCKED, ''NO_CAP_AMBIENT_RAISE_LOCKED'', CHR ''A''),
     (SECBIT_KEEP_CAPS, ''KEEP_CAPS'', CHR ''k''),
     (SECBIT_KEEP_CAPS_LOCKED, ''KEEP_CAPS_LOCKED'', CHR ''K''),
     (SECBIT_NOROOT, ''NOROOT'', CHR ''r''),
     (SECBIT_NOROOT_LOCKED, ''NOROOT_LOCKED'', CHR ''R''),
     (SECBIT_NO_SETUID_FIXUP, ''NO_SETUID_FIXUP'', CHR ''s''),
     (SECBIT_NO_SETUID_FIXUP_LOCKED, ''NO_SETUID_FIXUP_LOCKED'', CHR ''S'')]"

text \<open>The two loops of \<^verbatim>\<open>printSecbits\<close>, giving the text printed.\<close>

primrec secbit_names :: "int \<Rightarrow> secbitInfo list \<Rightarrow> nat \<Rightarrow> string" where
  "secbit_names secbits [] printed = []"
| "secbit_names secbits (p # ps) printed =
     (if secbits AND fst p \<noteq> 0
      then (if printed > 0 then '', '' else []) @ fst (snd p) @ secbit_names secbits ps (printed + 1)
      else secbit_names secbits ps printed)"

primrec secbit_letters :: "int \<Rightarrow> secbitInfo list \<Rightarrow> string" where
  "secbit_letters secbits [] = []"
| "secbit_letters secbits (p # ps) =
     (if secbits AND fst p \<noteq> 0 then snd (snd p) else CHR ''-'') # secbit_letters secbits ps"

definition printSecbits :: "int \<Rightarrow> bool \<Rightarrow> string" where
  "printSecbits secbits verbose =
     (if verbose then ''['' @ secbit_names secbits secbitInfoList 0 @ '']''
      else secbit_letters secbits secbitInfoList)"

lemma ker_noise [simp]: "ker (stdio_noise s) = ker s"
  by (simp add: stdio_noise_def split: option.splits)

lemma ker_stdio [simp]: "ker (fputs_stderr t s) = ker s" "ker (printf_stdout t s) = ker s" "ker (fflush_stdout s) = ker s"
  by (simp_all add: fputs_stderr_def printf_stdout_def fflush_stdout_def)

end
