(* ===== verification/Userns.thy ===== *)
theory Userns
  imports Capabilities Getopt Runs
begin

text \<open>
  \<^verbatim>\<open>tlpi-book/namespaces/userns_child_exec.c\<close> and the functions of \<^verbatim>\<open>userns_functions.c\<close> it uses: run a command
  in new namespaces. The parent parses the options, creates the child with \<^verbatim>\<open>clone\<close>, writes the child's user
  and group ID maps and then closes the write end of a pipe; the child waits for the end of file on that
  pipe, performs the repeatable options in order and executes the command. The two processes are a step
  relation; what each does between two accesses to the pipe is a computation on its own state and the
  shared kernel.
\<close>

section \<open>Kernel\<close>

record ('k, 'c) user_os = "('k, 'c) cap_os" +
  capbset_drop :: "int \<Rightarrow> 'k \<Rightarrow> int option \<times> 'k"
  cap_ambient :: "bool \<Rightarrow> int \<Rightarrow> 'k \<Rightarrow> int option \<times> 'k"  \<comment> \<open>raise or lower\<close>
  set_securebits_call :: "int \<Rightarrow> 'k \<Rightarrow> int option \<times> 'k"
  setresuid :: "int \<Rightarrow> int \<Rightarrow> int \<Rightarrow> 'k \<Rightarrow> int option \<times> 'k"
  k_sleep :: "int \<Rightarrow> 'k \<Rightarrow> 'k"
  geteuid :: "'k \<Rightarrow> int"
  getegid :: "'k \<Rightarrow> int"
  getuid :: "'k \<Rightarrow> int"
  getgid :: "'k \<Rightarrow> int"
  execvp :: "string \<Rightarrow> string list \<Rightarrow> 'k \<Rightarrow> int option"  \<comment> \<open>the error, if it returns\<close>
  pf_open :: "string \<Rightarrow> 'k \<Rightarrow> int option"
  pf_write :: "string \<Rightarrow> string \<Rightarrow> 'k \<Rightarrow> (int + nat) \<times> 'k"
  set_dumpable :: "'k \<Rightarrow> int option \<times> 'k"
  k_pipe :: "'k \<Rightarrow> int option \<times> 'k"
  k_mmap :: "'k \<Rightarrow> int option \<times> 'k"
  k_clone :: "int \<Rightarrow> 'k \<Rightarrow> (int + int) \<times> 'k"
  cap_last_cap :: nat

text \<open>A message on stderr and \<^verbatim>\<open>exit(EXIT_FAILURE)\<close>; a call whose failure is reported with \<^verbatim>\<open>perror\<close> before that.\<close>

definition complain :: "string \<Rightarrow> ('a proc_io_scheme, 'b) prog" where
  "complain t = bnd (modify (fputs_stderr t)) (\<lambda>_. exit3 EXIT_FAILURE)"

definition kcall_or_exit :: "(int \<Rightarrow> string) \<Rightarrow> ('k \<Rightarrow> int option \<times> 'k) \<Rightarrow> string \<Rightarrow> ('k kproc, unit) prog" where
  "kcall_or_exit strerror f msg = bnd (kcall f) (\<lambda>ok. whenM (\<not> ok) (macro_errExit strerror msg))"

text \<open>\<^verbatim>\<open>write\<close> to a file of \<^verbatim>\<open>/proc\<close>: the count, or \<open>None\<close> for -1.\<close>

definition kwrite :: "('k, 'c, 'z) user_os_scheme \<Rightarrow> string \<Rightarrow> string \<Rightarrow> ('k kproc, nat option) prog" where
  "kwrite S path t s = (case pf_write S path t (ker s) of
      (Inl e, k) \<Rightarrow> (Inr None, s\<lparr>ker := k, errno := e\<rparr>)
    | (Inr n, k) \<Rightarrow> (Inr (Some n), s\<lparr>ker := k\<rparr>))"

section \<open>userns_functions.c\<close>

definition display_creds_and_caps ::
  "('k, 'c, 'z) user_os_scheme \<Rightarrow> (int \<Rightarrow> string) \<Rightarrow> string \<Rightarrow> ('k kproc, unit) prog" where
  "display_creds_and_caps S strerror str =
     bnd (gets ker) (\<lambda>k.
     andthen (printfM (str @ ''eUID = '' @ show_int (geteuid S k) @ ''; eGID='' @ show_int (getegid S k) @ '';  ''))
    (case cap_get_proc S k of
       Inl e \<Rightarrow> bnd (fail e ()) (\<lambda>_. errExit strerror ''cap_get_proc'')
     | Inr caps \<Rightarrow> (case cap_to_text S caps of
         Inl e \<Rightarrow> bnd (fail e ()) (\<lambda>_. errExit strerror ''cap_to_text'')
       | Inr t \<Rightarrow> printfM (''capabilities: '' @ t @ [NL]))))"

definition commas_to_newlines :: "string \<Rightarrow> string" where
  "commas_to_newlines mapping = map (\<lambda>c. if c = CHR '','' then NL else c) mapping"

text \<open>\<open>True\<close> for a return value of 0.\<close>

definition update_map ::
  "('k, 'c, 'z) user_os_scheme \<Rightarrow> (int \<Rightarrow> string) \<Rightarrow> string \<Rightarrow> string \<Rightarrow> ('k kproc, bool) prog" where
  "update_map S strerror mapping map_file =
     (let mapping = commas_to_newlines mapping in
      bnd (gets (\<lambda>s. pf_open S map_file (ker s))) (\<lambda>r. case r of
        Some e \<Rightarrow> bnd (fail e ()) (\<lambda>_.
          bnd (modify (\<lambda>s. fputs_stderr (''ERROR: open '' @ map_file @ '': '' @ strerror (errno s) @ [NL]) s)) (\<lambda>_. ret False))
      | None \<Rightarrow> bnd (kwrite S map_file mapping) (\<lambda>n.
          if n = Some (length mapping) then ret True
          else bnd (modify (\<lambda>s. fputs_stderr (''ERROR: writing to '' @ map_file @ '': '' @ strerror (errno s) @ [NL]) s))
            (\<lambda>_. ret False))))"

definition proc_setgroups_write ::
  "('k, 'c, 'z) user_os_scheme \<Rightarrow> (int \<Rightarrow> string) \<Rightarrow> int \<Rightarrow> string \<Rightarrow> ('k kproc, bool) prog" where
  "proc_setgroups_write S strerror child_pid str =
     (let setgroups_path = snprintf PATH_MAX (''/proc/'' @ show_int child_pid @ ''/setgroups'') in
      bnd (gets (\<lambda>s. pf_open S setgroups_path (ker s))) (\<lambda>r. case r of
        Some e \<Rightarrow> bnd (fail e ()) (\<lambda>_.
          if e = ENOENT then ret True
          else bnd (modify (\<lambda>s. fputs_stderr (''ERROR: open '' @ setgroups_path @ '': '' @ strerror (errno s) @ [NL]) s))
            (\<lambda>_. ret False))
      | None \<Rightarrow> bnd (kwrite S setgroups_path str) (\<lambda>n.
          if n \<noteq> None then ret True
          else bnd (modify (\<lambda>s. fputs_stderr (''ERROR: writing to '' @ setgroups_path @ '': '' @ strerror (errno s) @ [NL]) s))
            (\<lambda>_. ret False))))"

section \<open>Options\<close>

definition MAX_OPT :: nat where [const_defs]: "MAX_OPT = 100"

record cmd_options =
  cmd_argv :: "string list"
  flags :: int
  create_root_mappings :: bool
  deny_setgroups :: bool
  verbose :: bool
  uid_map :: "string option"
  gid_map :: "string option"
  opt_list :: "(char \<times> string option) list"

definition usage_lines :: "string \<Rightarrow> string list" where
  "usage_lines pname = [
     ''Usage: '' @ pname @ '' [options] cmd [arg...]'' @ [NL] @ [NL],
     ''Create a child process that executes a shell command in (typically) a new user'' @ [NL] @
       ''namespace, and possibly also other new namespaces.'' @ [NL] @ [NL],
     ''Options can be:'' @ [NL] @ [NL],
     ''    '' @ ''-C          New cgroup namespace'' @ [NL],
     ''    '' @ ''-i          New IPC namespace'' @ [NL],
     ''    '' @ ''-m          New mount namespace'' @ [NL],
     ''    '' @ ''-n          New network namespace'' @ [NL],
     ''    '' @ ''-p          New PID namespace'' @ [NL],
     ''    '' @ ''-u          New UTS namespace'' @ [NL],
     ''    '' @ ''-U          New user namespace'' @ [NL],
     ''    '' @ ''-M uid_map  Specify UID map for user namespace'' @ [NL],
     ''    '' @ ''-G gid_map  Specify GID map for user namespace'' @ [NL],
     ''    '' @ ''-D          Do not write '' @ [CHR 34] @ ''deny'' @ [CHR 34] @
       '' to /proc/PID/setgroups before'' @ [NL],
     ''    '' @ ''            updating GID map'' @ [NL],
     ''    '' @ ''-r          Create '' @ [CHR 39] @ ''root'' @ [CHR 39] @ '' mappings: map user'' @
       [CHR 39] @ ''s UID and GID to 0 in user'' @ [NL],
     ''    '' @ ''            namespace (equivalent to: -M '' @ [CHR 39] @ ''0 <uid> 1'' @ [CHR 39] @
       '' -G '' @ [CHR 39] @ ''0 <gid> 1'' @ [CHR 39] @ '')'' @ [NL],
     ''    '' @ ''-v          Display verbose messages'' @ [NL] @ [NL],
     ''    '' @ ''If -r, -M, or -G is specified, -U is required.'' @ [NL] @ [NL],
     ''    '' @ ''It is not permitted to specify both -r and either -M or -G.'' @ [NL],
     ''    '' @ [NL],
     ''    '' @ ''Map strings for -M and -G consist of records of the form:'' @ [NL],
     ''    '' @ [NL],
     ''    '' @ ''    ID-inside-ns   ID-outside-ns   len'' @ [NL],
     ''    '' @ [NL],
     ''    '' @ ''A map string can contain multiple records, separated by commas;'' @ [NL],
     ''    '' @ ''the commas are replaced by newlines before writing to map files.'' @ [NL],
     [NL] @ ''The following additional options (primarily useful when experimenting with'' @ [NL] @
       ''user namespaces) are repeatable: they can appear multiple times and are'' @ [NL] @
       ''performed in the child in the order that they are specified, just before'' @ [NL] @ [CHR 39] @
       ''cmd'' @ [CHR 39] @ '' is execed:'' @ [NL] @ [NL],
     ''    '' @ ''-I          Push all possible capabilities into inheritable set'' @ [NL],
     ''    '' @ ''-A          Push all possible capabilities into inheritable and'' @ [NL],
     ''    '' @ ''            ambient sets'' @ [NL],
     ''    '' @ ''-s <uid>    Set all process UIDs to <uid>'' @ [NL],
     ''    '' @ ''-S r,e,s    Set real/effective/saved-set UIDs'' @ [NL],
     ''    '' @ ''-b <bits>   Set securebits flags; '' @ [CHR 39] @ ''bits'' @ [CHR 39] @ '' can be '' @
       [CHR 39] @ ''0'' @ [CHR 39] @ '' to clear the flags'' @ [NL],
     ''    '' @ ''            or one or more of:'' @ [NL],
     ''    '' @ ''                '' @ [CHR 39] @ ''a'' @ [CHR 39] @ '' - NO_CAP_AMBIENT_RAISE'' @ [NL],
     ''    '' @ ''                '' @ [CHR 39] @ ''A'' @ [CHR 39] @ '' - NO_CAP_AMBIENT_RAISE_LOCKED'' @
       [NL],
     ''    '' @ ''                '' @ [CHR 39] @ ''k'' @ [CHR 39] @ '' - KEEP_CAPS'' @ [NL],
     ''    '' @ ''                '' @ [CHR 39] @ ''K'' @ [CHR 39] @ '' - KEEP_CAPS_LOCKED'' @ [NL],
     ''    '' @ ''                '' @ [CHR 39] @ ''r'' @ [CHR 39] @ '' - NOROOT'' @ [NL],
     ''    '' @ ''                '' @ [CHR 39] @ ''R'' @ [CHR 39] @ '' - NOROOT_LOCKED'' @ [NL],
     ''    '' @ ''                '' @ [CHR 39] @ ''s'' @ [CHR 39] @ '' - NO_SETUID_FIXUP'' @ [NL],
     ''    '' @ ''                '' @ [CHR 39] @ ''S'' @ [CHR 39] @ '' - NO_SETUID_FIXUP_LOCKED'' @ [NL],
     ''    '' @ ''-d          Display process credentials and capabilities'' @ [NL],
     ''    '' @ ''-w <nsecs>  Wait (sleep) for <nsecs> seconds'' @ [NL],
     ''    '' @ ''-x <caps>   Set process capabilities; <caps> as per cap_from_text(3)'' @ [NL],
     ''    '' @ ''-X [peiba]{+|-}<cap-name>'' @ [NL],
     ''    '' @ ''            Modify one or more process sets by adding or removing'' @ [NL],
     ''    '' @ ''            a capability.'' @ [NL],
     ''    '' @ ''            Each set is modified as an individual operation'' @ [NL],
     ''    '' @ ''            in the order specified before +/-.'' @ [NL]]"

definition usage :: "string \<Rightarrow> ('a proc_io_scheme, 'b) prog" where
  "usage pname = bnd (forM (usage_lines pname) (\<lambda>l. modify (fputs_stderr l))) (\<lambda>_. exit3 EXIT_FAILURE)"

definition ue_optstring :: string where
  "ue_optstring = ''CimnuUM:G:rDvpAIs:b:S:dx:X:w:''"

definition init_options :: cmd_options where
  "init_options = \<lparr>cmd_argv = [], flags = 0, create_root_mappings = False, deny_setgroups = True, verbose = False,
     uid_map = None, gid_map = None, opt_list = []\<rparr>"

definition add_repeatable :: "char \<Rightarrow> string option \<Rightarrow> cmd_options \<Rightarrow> ('a proc_io_scheme, cmd_options) prog" where
  "add_repeatable c v opts =
     (if length (opt_list opts) \<ge> MAX_OPT
      then complain (''Too many repeatable options (maximum: '' @ show_nat MAX_OPT @ '')'' @ [NL])
      else ret (opts\<lparr>opt_list := opt_list opts @ [(c, if c \<in> set ''sSxXwb'' then v else None)]\<rparr>))"

definition ue_option :: "string \<Rightarrow> getopt_result \<Rightarrow> cmd_options \<Rightarrow> ('a proc_io_scheme, cmd_options) prog" where
  "ue_option pname r opts = (case r of
      Opt c v \<Rightarrow>
        if c = CHR ''C'' then ret (opts\<lparr>flags := flags opts OR CLONE_NEWCGROUP\<rparr>)
        else if c = CHR ''i'' then ret (opts\<lparr>flags := flags opts OR CLONE_NEWIPC\<rparr>)
        else if c = CHR ''m'' then ret (opts\<lparr>flags := flags opts OR CLONE_NEWNS\<rparr>)
        else if c = CHR ''n'' then ret (opts\<lparr>flags := flags opts OR CLONE_NEWNET\<rparr>)
        else if c = CHR ''p'' then ret (opts\<lparr>flags := flags opts OR CLONE_NEWPID\<rparr>)
        else if c = CHR ''u'' then ret (opts\<lparr>flags := flags opts OR CLONE_NEWUTS\<rparr>)
        else if c = CHR ''U'' then ret (opts\<lparr>flags := flags opts OR CLONE_NEWUSER\<rparr>)
        else if c = CHR ''M'' then ret (opts\<lparr>uid_map := v\<rparr>)
        else if c = CHR ''G'' then ret (opts\<lparr>gid_map := v\<rparr>)
        else if c = CHR ''r'' then ret (opts\<lparr>create_root_mappings := True\<rparr>)
        else if c = CHR ''D'' then ret (opts\<lparr>deny_setgroups := False\<rparr>)
        else if c = CHR ''v'' then ret (opts\<lparr>verbose := True\<rparr>)
        else if c \<in> set ''IAbsdxXw'' then add_repeatable c v opts
        else usage pname
    | UnknownOpt c \<Rightarrow> bnd (modify (fputs_stderr (getopt_message pname r))) (\<lambda>_. usage pname)
    | MissingArg c \<Rightarrow> bnd (modify (fputs_stderr (getopt_message pname r))) (\<lambda>_. usage pname))"

primrec ue_options :: "string \<Rightarrow> getopt_result list \<Rightarrow> cmd_options \<Rightarrow> ('a proc_io_scheme, cmd_options) prog" where
  "ue_options pname [] opts = ret opts"
| "ue_options pname (r # rs) opts = bnd (ue_option pname r opts) (ue_options pname rs)"

definition parse_command_options :: "string \<Rightarrow> string list \<Rightarrow> ('a proc_io_scheme, cmd_options) prog" where
  "parse_command_options pname args =
     (case getopt_plus ue_optstring args of (rs, operands) \<Rightarrow>
      bnd (ue_options pname rs init_options) (\<lambda>opts.
      if (uid_map opts \<noteq> None \<or> gid_map opts \<noteq> None \<or> create_root_mappings opts) \<and> flags opts AND CLONE_NEWUSER = 0
          \<or> create_root_mappings opts \<and> (uid_map opts \<noteq> None \<or> gid_map opts \<noteq> None)
      then usage pname
      else if operands = [] then usage pname
      else ret (opts\<lparr>cmd_argv := operands\<rparr>)))"

section \<open>The repeatable options\<close>

definition raiseInheritableAndAmbientCaps ::
  "('k, 'c, 'z) user_os_scheme \<Rightarrow> bool \<Rightarrow> ('k kproc, unit) prog" where
  "raiseInheritableAndAmbientCaps S doAmbient =
     forM [0..<Suc (cap_last_cap S)] (\<lambda>cap.
       bnd (modifyCapSetting S CAP_INHERITABLE (int cap) True) (\<lambda>_.
       whenM doAmbient (bnd (kcall (cap_ambient S True (int cap))) (\<lambda>_. ret ()))))"

text \<open>The letters before \<^verbatim>\<open>+\<close> or \<^verbatim>\<open>-\<close>, whether one of them is bad, and the rest.\<close>

primrec scan_sets :: "string \<Rightarrow> string \<times> bool \<times> string" where
  "scan_sets [] = ([], False, [])"
| "scan_sets (c # cs) =
     (if c = CHR ''+'' \<or> c = CHR ''-'' then ([], False, c # cs)
      else case scan_sets cs of (ls, bad, op) \<Rightarrow> (c # ls, bad \<or> strchr ''peiba'' c = None, op))"

definition modify_one_set ::
  "('k, 'c, 'z) user_os_scheme \<Rightarrow> (int \<Rightarrow> string) \<Rightarrow> string \<Rightarrow> int \<Rightarrow> char \<Rightarrow> ('k kproc, unit) prog" where
  "modify_one_set S strerror op cap p =
     (let raise = (hd op = CHR ''+'') in
      if p \<in> {CHR ''p'', CHR ''i'', CHR ''e''}
      then bnd (modifyCapSetting S (if p = CHR ''p'' then CAP_PERMITTED else if p = CHR ''e'' then CAP_EFFECTIVE
          else CAP_INHERITABLE) cap raise) (\<lambda>ok. whenM (\<not> ok)
          (complain (''-X: modifyCapSetting() failed while '' @ (if raise then ''raising'' else ''lowering'') @
             '' '' @ [CHR 39] @ tl op @ [CHR 39] @ '' in '' @ [CHR 39, p, CHR 39, NL])))
      else if p = CHR ''b''
      then if raise then complain (''Can'' @ [CHR 39] @ ''t add capabilities to the bounding set'' @ [NL])
        else kcall_or_exit strerror (capbset_drop S cap) ''-X: PR_CAPBSET_DROP''
      else if p = CHR ''a'' then kcall_or_exit strerror (cap_ambient S raise cap) ''-X: PR_CAP_AMBIENT''
      else complain (''Bad switch case ('' @ [CHR 39] @ ''-X'' @ [CHR 39] @ ''): '' @ [p, NL]))"

definition modify_individual_capability ::
  "('k, 'c, 'z) user_os_scheme \<Rightarrow> (int \<Rightarrow> string) \<Rightarrow> string \<Rightarrow> ('k kproc, unit) prog" where
  "modify_individual_capability S strerror optval =
     (case scan_sets optval of (letters, bad_cap, op) \<Rightarrow>
      if op = [] \<or> tl op = [] \<or> bad_cap then complain (''Badly formed -X option'' @ [NL])
      else case cap_from_name S (tl op) of
        None \<Rightarrow> complain (''-X: bad capability name'' @ [NL])
      | Some cap \<Rightarrow> forM letters (modify_one_set S strerror op cap))"

text \<open>The flags that \<^verbatim>\<open>set_securebits\<close> collects; \<open>Inl\<close> the character it rejects.\<close>

primrec secbits_of :: "string \<Rightarrow> int \<Rightarrow> char + int" where
  "secbits_of [] secbits = Inr secbits"
| "secbits_of (p # ps) secbits =
     (if p = CHR ''a'' then secbits_of ps (secbits OR SECBIT_NO_CAP_AMBIENT_RAISE)
      else if p = CHR ''A'' then secbits_of ps (secbits OR SECBIT_NO_CAP_AMBIENT_RAISE_LOCKED)
      else if p = CHR ''k'' then secbits_of ps (secbits OR SECBIT_KEEP_CAPS)
      else if p = CHR ''K'' then secbits_of ps (secbits OR SECBIT_KEEP_CAPS_LOCKED)
      else if p = CHR ''r'' then secbits_of ps (secbits OR SECBIT_NOROOT)
      else if p = CHR ''R'' then secbits_of ps (secbits OR SECBIT_NOROOT_LOCKED)
      else if p = CHR ''s'' then secbits_of ps (secbits OR SECBIT_NO_SETUID_FIXUP)
      else if p = CHR ''S'' then secbits_of ps (secbits OR SECBIT_NO_SETUID_FIXUP_LOCKED)
      else if p = CHR ''0'' then secbits_of ps 0
      else Inl p)"

definition set_securebits ::
  "('k, 'c, 'z) user_os_scheme \<Rightarrow> (int \<Rightarrow> string) \<Rightarrow> string \<Rightarrow> ('k kproc, unit) prog" where
  "set_securebits S strerror optval = (case secbits_of optval 0 of
      Inl p \<Rightarrow> complain (''Unexpected value for '' @ [CHR 39] @ ''-b'' @ [CHR 39] @ '' (securebits flag): '' @ [p, NL])
    | Inr secbits \<Rightarrow> kcall_or_exit strerror (set_securebits_call S secbits) ''prctl-PR_SET_SECUREBITS'')"

definition set_process_uids ::
  "('k, 'c, 'z) user_os_scheme \<Rightarrow> (int \<Rightarrow> string) \<Rightarrow> string \<Rightarrow> ('k kproc, unit) prog" where
  "set_process_uids S strerror optval =
     (case strchr optval (CHR '','') of
        None \<Rightarrow> complain (''Expected three comma-separated UIDs: -S '' @ optval @ [NL])
      | Some (u1, comma1) \<Rightarrow> (case strchr (tl comma1) (CHR '','') of
          None \<Rightarrow> complain (''Expected three comma-separated UIDs: -S '' @ optval @ [NL])
        | Some (u2, comma2) \<Rightarrow>
            kcall_or_exit strerror (setresuid S (to_u32 (atoi u1)) (to_u32 (atoi u2)) (to_u32 (atoi (tl comma2)))) ''-S failed (setresuid)''))"

text \<open>The argument of an option whose value the code dereferences without a check.\<close>

definition with_val :: "string option \<Rightarrow> (string \<Rightarrow> ('s, unit) prog) \<Rightarrow> ('s, unit) prog" where
  "with_val v f = (case v of None \<Rightarrow> stop Undef | Some t \<Rightarrow> f t)"

definition perform_option ::
  "('k, 'c, 'z) user_os_scheme \<Rightarrow> (int \<Rightarrow> string) \<Rightarrow> char \<Rightarrow> string option \<Rightarrow> nat \<Rightarrow> ('k kproc, unit) prog" where
  "perform_option S strerror c v display_cnt =
     (if c = CHR ''a'' then raiseInheritableAndAmbientCaps S True
      else if c = CHR ''b'' then with_val v (set_securebits S strerror)
      else if c = CHR ''d'' then display_creds_and_caps S strerror (snprintf 10 (''[-d '' @ show_nat display_cnt @ ''] ''))
      else if c = CHR ''h'' then raiseInheritableAndAmbientCaps S False
      else if c = CHR ''s'' then with_val v (\<lambda>t. let newuid = to_u32 (atoi t) in
        kcall_or_exit strerror (setresuid S newuid newuid newuid) ''setresuid'')
      else if c = CHR ''S'' then with_val v (set_process_uids S strerror)
      else if c = CHR ''w'' then with_val v (\<lambda>t. modify (\<lambda>s. s\<lparr>ker := k_sleep S (to_u32 (atoi t)) (ker s)\<rparr>))
      else if c = CHR ''x'' then with_val v (\<lambda>t. case cap_from_text S t of
          Inl e \<Rightarrow> bnd (fail e ()) (\<lambda>_. macro_errExit strerror ''-x: cap_from_text'')
        | Inr caps \<Rightarrow> kcall_or_exit strerror (cap_set_proc S caps) ''-x: cap_set_proc()'')
      else if c = CHR ''X'' then with_val v (modify_individual_capability S strerror)
      else modify (fputs_stderr (''Unexpected option (-'' @ [c] @ '') in perform_repeatable_options()'' @ [NL])))"

primrec perform_loop ::
  "('k, 'c, 'z) user_os_scheme \<Rightarrow> (int \<Rightarrow> string) \<Rightarrow> nat \<Rightarrow> (char \<times> string option) list \<Rightarrow> ('k kproc, unit) prog" where
  "perform_loop S strerror display_cnt [] = ret ()"
| "perform_loop S strerror display_cnt (x # xs) =
     (let n = (if fst x = CHR ''d'' then display_cnt + 1 else display_cnt) in
      andthen (perform_option S strerror (fst x) (snd x) n) (perform_loop S strerror n xs))"

definition perform_repeatable_options ::
  "('k, 'c, 'z) user_os_scheme \<Rightarrow> (int \<Rightarrow> string) \<Rightarrow> cmd_options \<Rightarrow> ('k kproc, unit) prog" where
  "perform_repeatable_options S strerror opts = perform_loop S strerror 0 (opt_list opts)"

text \<open>The child, from the end of file on.\<close>

definition child_body ::
  "('k, 'c, 'z) user_os_scheme \<Rightarrow> (int \<Rightarrow> string) \<Rightarrow> cmd_options \<Rightarrow> ('k kproc, unit) prog" where
  "child_body S strerror opts =
     andthen (perform_repeatable_options S strerror opts)
    (andthen (whenM (verbose opts) (printfM (''About to exec: '' @ hd (cmd_argv opts) @ [NL])))
    (bnd (gets ker) (\<lambda>k. case execvp S (hd (cmd_argv opts)) (cmd_argv opts) k of
        None \<Rightarrow> stop (Exec (hd (cmd_argv opts)) (cmd_argv opts))
      | Some e \<Rightarrow> bnd (fail e ()) (\<lambda>_. macro_errExit strerror ''execvp''))))"

section \<open>The parent\<close>

definition MAP_BUF_SIZE :: nat where [const_defs]: "MAP_BUF_SIZE = 100"

definition map_or_exit ::
  "('k, 'c, 'z) user_os_scheme \<Rightarrow> (int \<Rightarrow> string) \<Rightarrow> string option \<Rightarrow> bool \<Rightarrow> ('k \<Rightarrow> int) \<Rightarrow> string \<Rightarrow> string \<Rightarrow> ('k kproc, unit) prog" where
  "map_or_exit S strerror the_map root own map_path msg =
     bnd (gets (\<lambda>s. own (ker s))) (\<lambda>i.
     with_val (if root then Some (snprintf MAP_BUF_SIZE (''0 '' @ show_int i @ '' 1'')) else the_map) (\<lambda>t.
     bnd (update_map S strerror t map_path) (\<lambda>ok. whenM (\<not> ok) (macro_errExit strerror msg))))"

definition update_child_maps ::
  "('k, 'c, 'z) user_os_scheme \<Rightarrow> (int \<Rightarrow> string) \<Rightarrow> cmd_options \<Rightarrow> int \<Rightarrow> ('k kproc, unit) prog" where
  "update_child_maps S strerror opts child_pid =
     andthen (whenM (uid_map opts \<noteq> None \<or> create_root_mappings opts)
       (map_or_exit S strerror (uid_map opts) (create_root_mappings opts) (getuid S)
         (snprintf PATH_MAX (''/proc/'' @ show_int child_pid @ ''/uid_map'')) ''update_map: uid_map''))
    (whenM (gid_map opts \<noteq> None \<or> create_root_mappings opts)
      (andthen (whenM (deny_setgroups opts)
         (bnd (proc_setgroups_write S strerror child_pid ''deny'') (\<lambda>ok.
           whenM (\<not> ok) (macro_errExit strerror ''proc_setgroups_write''))))
       (map_or_exit S strerror (gid_map opts) (create_root_mappings opts) (getgid S)
         (snprintf PATH_MAX (''/proc/'' @ show_int child_pid @ ''/gid_map'')) ''update_map: gid_map'')))"

text \<open>From the start to the return of \<^verbatim>\<open>clone\<close>: the options and the child's PID.\<close>

definition ue_start ::
  "('k, 'c, 'z) user_os_scheme \<Rightarrow> (int \<Rightarrow> string) \<Rightarrow> string \<Rightarrow> string list \<Rightarrow> ('k kproc, cmd_options \<times> int) prog" where
  "ue_start S strerror pname args =
     bnd (parse_command_options pname args) (\<lambda>opts.
     andthen (kcall_or_exit strerror (set_dumpable S) ''prctl-PR_SET_DUMPABLE'')
    (andthen (kcall_or_exit strerror (k_pipe S) ''pipe'')
    (andthen (kcall_or_exit strerror (k_mmap S) ''mmap'')
    (bnd (\<lambda>s. case k_clone S (flags opts OR SIGCHLD) (ker s) of
        (Inl e, k) \<Rightarrow> (Inr None, s\<lparr>ker := k, errno := e\<rparr>)
      | (Inr pid, k) \<Rightarrow> (Inr (Some pid), s\<lparr>ker := k\<rparr>)) (\<lambda>r. case r of
        None \<Rightarrow> macro_errExit strerror ''clone''
      | Some pid \<Rightarrow> ret (opts, pid))))))"

definition ue_announce :: "string \<Rightarrow> cmd_options \<Rightarrow> int \<Rightarrow> ('k kproc, unit) prog" where
  "ue_announce pname opts child_pid = whenM (verbose opts)
     (printfM (pname @ '': PID of child created by clone() is '' @ show_int child_pid @ [NL]))"

definition ue_end :: "string \<Rightarrow> cmd_options \<Rightarrow> ('k kproc, unit) prog" where
  "ue_end pname opts = andthen (whenM (verbose opts) (printfM (pname @ '': terminating'' @ [NL]))) (exit3 EXIT_SUCCESS)"

section \<open>The two processes\<close>

text \<open>The parent writes the maps, closes the pipe, waits for the child and ends; the child closes its copy of the
  write end, reads, runs and ends.\<close>

datatype ppc = PMap | PClose | PWait | PEnd halt

datatype cpc = CClose | CRead | CRun | CEnd halt

record 'k duo =
  par :: "'k kproc"
  p_pc :: ppc
  p_wr :: bool  \<comment> \<open>the parent's write end is open\<close>
  cld :: "'k kproc"
  c_pc :: cpc
  c_wr :: bool

definition parent_pc :: "(halt + unit) \<Rightarrow> ppc \<Rightarrow> ppc" where
  "parent_pc r next = (case r of Inl h \<Rightarrow> PEnd h | Inr _ \<Rightarrow> next)"

text \<open>A computation of one of the processes; a process that ends closes its descriptors.\<close>

definition run_parent :: "('k kproc, unit) prog \<Rightarrow> ppc \<Rightarrow> 'k duo \<Rightarrow> 'k duo" where
  "run_parent m next d = (case m (par d) of (r, s) \<Rightarrow>
     d\<lparr>par := s, cld := (cld d)\<lparr>ker := ker s\<rparr>, p_pc := parent_pc r next,
       p_wr := (p_wr d \<and> (case r of Inl _ \<Rightarrow> False | Inr _ \<Rightarrow> True))\<rparr>)"

definition run_child :: "('k kproc, unit) prog \<Rightarrow> 'k duo \<Rightarrow> 'k duo" where
  "run_child m d = (case m (cld d) of (r, s) \<Rightarrow>
     d\<lparr>cld := s, par := (par d)\<lparr>ker := ker s\<rparr>, c_pc := CEnd (case r of Inl h \<Rightarrow> h | Inr _ \<Rightarrow> Exit 0), c_wr := False\<rparr>)"

inductive ue_step ::
  "('k, 'c, 'z) user_os_scheme \<Rightarrow> (int \<Rightarrow> string) \<Rightarrow> string \<Rightarrow> cmd_options \<Rightarrow> int \<Rightarrow> 'k duo \<Rightarrow> 'k duo \<Rightarrow> bool"
  for S strerror pname opts child_pid where
  maps: "p_pc d = PMap \<Longrightarrow> ue_step S strerror pname opts child_pid d
    (run_parent (andthen (ue_announce pname opts child_pid) (update_child_maps S strerror opts child_pid)) PClose d)"
| close_pipe: "p_pc d = PClose \<Longrightarrow> ue_step S strerror pname opts child_pid d (d\<lparr>p_wr := False, p_pc := PWait\<rparr>)"
| reap: "p_pc d = PWait \<Longrightarrow> c_pc d = CEnd h \<Longrightarrow> ue_step S strerror pname opts child_pid d
    (run_parent (ue_end pname opts) PWait d)"
| child_close: "c_pc d = CClose \<Longrightarrow> ue_step S strerror pname opts child_pid d (d\<lparr>c_wr := False, c_pc := CRead\<rparr>)"
| child_eof: "c_pc d = CRead \<Longrightarrow> \<not> p_wr d \<Longrightarrow> \<not> c_wr d \<Longrightarrow> ue_step S strerror pname opts child_pid d (d\<lparr>c_pc := CRun\<rparr>)"
| child_run: "c_pc d = CRun \<Longrightarrow> ue_step S strerror pname opts child_pid d (run_child (child_body S strerror opts) d)"

text \<open>With a failing \<^verbatim>\<open>waitpid\<close> or \<^verbatim>\<open>read\<close>.\<close>

inductive ue_fstep ::
  "('k, 'c, 'z) user_os_scheme \<Rightarrow> (int \<Rightarrow> string) \<Rightarrow> string \<Rightarrow> cmd_options \<Rightarrow> int \<Rightarrow> 'k duo \<Rightarrow> 'k duo \<Rightarrow> bool"
  for S strerror pname opts child_pid where
  no_failure: "ue_step S strerror pname opts child_pid d d' \<Longrightarrow> ue_fstep S strerror pname opts child_pid d d'"
| wait_fails: "p_pc d = PWait \<Longrightarrow> ue_fstep S strerror pname opts child_pid d
    (run_parent (bnd (fail e ()) (\<lambda>_. macro_errExit strerror ''waitpid'')) PWait d)"
| read_fails: "c_pc d = CRead \<Longrightarrow> ue_fstep S strerror pname opts child_pid d
    (run_child (complain (''Failure in child: read from pipe returned != 0'' @ [NL])) d)"

inductive_cases ue_stepE: "ue_step S strerror pname opts child_pid d d'"
inductive_cases ue_fstepE: "ue_fstep S strerror pname opts child_pid d d'"

text \<open>Right after \<^verbatim>\<open>clone\<close>, which copies the memory of the parent.\<close>

definition ue_init :: "'k kproc \<Rightarrow> 'k duo" where
  "ue_init s = \<lparr>par = s, p_pc = PMap, p_wr = True, cld = s, c_pc = CClose, c_wr = True\<rparr>"

section \<open>Options: what is accepted\<close>

text \<open>What the rest of the program relies on.\<close>

definition wf_option :: "char \<times> string option \<Rightarrow> bool" where
  "wf_option x \<longleftrightarrow> fst x \<in> set ''IAbsdxXw'' \<and> (snd x \<noteq> None \<longleftrightarrow> fst x \<in> set ''bsxXw'')"

definition wf_options :: "cmd_options \<Rightarrow> bool" where
  "wf_options opts \<longleftrightarrow> cmd_argv opts \<noteq> [] \<and> length (opt_list opts) \<le> MAX_OPT \<and> list_all wf_option (opt_list opts)
     \<and> (uid_map opts \<noteq> None \<or> gid_map opts \<noteq> None \<or> create_root_mappings opts \<longrightarrow> flags opts AND CLONE_NEWUSER \<noteq> 0)
     \<and> \<not> (create_root_mappings opts \<and> (uid_map opts \<noteq> None \<or> gid_map opts \<noteq> None))"

lemma ue_takes_arg: "opt_takes_arg ue_optstring c \<longleftrightarrow> c \<in> set ''MGsbSxXw''" if "opt_known ue_optstring c"
proof -
  have "list_all (\<lambda>c. opt_takes_arg ue_optstring c \<longleftrightarrow> c \<in> set ''MGsbSxXw'') ''CimnuUMGrDvpAIsbSdxXw''"
    by code_simp
  moreover have "c \<in> set ''CimnuUMGrDvpAIsbSdxXw''" using that by (auto simp: opt_known_def ue_optstring_def)
  ultimately show ?thesis by (auto simp: list_all_iff)
qed

lemma usage_never: "never_returns (usage pname)"
  unfolding usage_def by (intro never_returns_bnd never_returns_exit)

lemma complain_never: "never_returns (complain t)"
  unfolding complain_def by (intro never_returns_bnd never_returns_exit)

lemma never_returnsD: "never_returns m \<Longrightarrow> m s \<noteq> (Inr x, s')"
  by (metis Inl_Inr_False fst_conv never_returns_def)

lemma exits_not [simp]: "complain t s \<noteq> (Inr x, s')" "usage pname s \<noteq> (Inr x, s')"
  by (simp_all add: never_returnsD complain_never usage_never)

lemma add_repeatable_ok:
  assumes "add_repeatable c v opts s = (Inr opts', s')"
  shows "length (opt_list opts) < MAX_OPT \<and> s' = s \<and>
    opts' = opts\<lparr>opt_list := opt_list opts @ [(c, if c \<in> set ''sSxXwb'' then v else None)]\<rparr>"
  using assms unfolding add_repeatable_def by (cases "length (opt_list opts) \<ge> MAX_OPT") simp_all

lemma ue_option_ok:
  assumes "ue_option pname r opts s = (Inr opts', s')"
  obtains c v where "r = Opt c v" "c \<in> set ''IAbsdxXw''" "add_repeatable c v opts s = (Inr opts', s')"
  | c v where "r = Opt c v" "c \<noteq> CHR ''S''" "opt_list opts' = opt_list opts" "s' = s"
proof -
  obtain c v where rv: "r = Opt c v" using assms by (cases r) (auto simp: ue_option_def)
  show thesis
  proof (cases "c \<in> set ''CimnpuUMGrDv''")
    case True
    then have "opt_list opts' = opt_list opts" "s' = s" "c \<noteq> CHR ''S''"
      using assms unfolding rv by (auto simp: ue_option_def)
    then show thesis using rv that(2) by blast
  next
    case False
    then show thesis using assms rv that(1) unfolding rv by (simp add: ue_option_def split: if_splits)
  qed
qed

lemma ue_option_wf:
  assumes ok: "ue_option pname r opts s = (Inr opts', s')"
    and r: "\<And>c v. r = Opt c v \<Longrightarrow> v \<noteq> None \<longleftrightarrow> c \<in> set ''MGsbSxXw''"
    and wf: "list_all wf_option (opt_list opts)" "length (opt_list opts) \<le> MAX_OPT"
  shows "list_all wf_option (opt_list opts') \<and> length (opt_list opts') \<le> MAX_OPT \<and> s' = s \<and> (\<exists>c v. r = Opt c v \<and> c \<noteq> CHR ''S'')"
  using ok
proof (cases rule: ue_option_ok)
  case (1 c v)
  have "wf_option (c, if c \<in> set ''sSxXwb'' then v else None)"
    using r [OF 1(1)] 1(2) by (auto simp: wf_option_def)
  with add_repeatable_ok [OF 1(3)] 1(1,2) wf show ?thesis by auto
qed (use wf in auto)

lemma ue_options_wf:
  assumes "ue_options pname rs opts s = (Inr opts', s')"
    and "\<And>c v. Opt c v \<in> set rs \<Longrightarrow> v \<noteq> None \<longleftrightarrow> c \<in> set ''MGsbSxXw''"
    and "list_all wf_option (opt_list opts)" "length (opt_list opts) \<le> MAX_OPT"
  shows "list_all wf_option (opt_list opts') \<and> length (opt_list opts') \<le> MAX_OPT \<and> s' = s \<and> (\<forall>r \<in> set rs. \<exists>c v. r = Opt c v \<and> c \<noteq> CHR ''S'')"
  using assms
proof (induction rs arbitrary: opts s)
  case (Cons r rs)
  then obtain o1 s1 where 1: "ue_option pname r opts s = (Inr o1, s1)" "ue_options pname rs o1 s1 = (Inr opts', s')"
    by (auto simp: bnd_apply split: prod.splits sum.splits)
  have "\<And>c v. r = Opt c v \<Longrightarrow> v \<noteq> None \<longleftrightarrow> c \<in> set ''MGsbSxXw''" using Cons.prems(2) by (metis list.set_intros(1))
  note w = ue_option_wf [OF 1(1) this Cons.prems(3,4)]
  have tail: "v \<noteq> None \<longleftrightarrow> c \<in> set ''MGsbSxXw''" if "Opt c v \<in> set rs" for c v
    by (rule Cons.prems(2)) (rule list.set_intros(2) [OF that])
  from w have "list_all wf_option (opt_list opts') \<and> length (opt_list opts') \<le> MAX_OPT \<and> s' = s1 \<and>
      (\<forall>r \<in> set rs. \<exists>c v. r = Opt c v \<and> c \<noteq> CHR ''S'')"
    by (intro Cons.IH [OF 1(2) tail]) auto
  with w show ?case by simp
qed simp

lemma parse_ok:
  assumes ok: "parse_command_options pname args s = (Inr opts, s')"
  shows "wf_options opts \<and> suffix (cmd_argv opts) args \<and> s' = s
    \<and> (\<forall>v. Opt (CHR ''S'') v \<notin> set (fst (getopt_plus ue_optstring args)))"
proof -
  let ?rs = "fst (getopt_plus ue_optstring args)"
  let ?ops = "snd (getopt_plus ue_optstring args)"
  obtain o1 s1 where 1: "ue_options pname ?rs init_options s = (Inr o1, s1)"
    and 2: "\<not> ((uid_map o1 \<noteq> None \<or> gid_map o1 \<noteq> None \<or> create_root_mappings o1) \<and> flags o1 AND CLONE_NEWUSER = 0)"
      "\<not> (create_root_mappings o1 \<and> (uid_map o1 \<noteq> None \<or> gid_map o1 \<noteq> None))"
      "?ops \<noteq> []" "opts = o1\<lparr>cmd_argv := ?ops\<rparr>" "s' = s1"
    using ok by (cases "ue_options pname ?rs init_options s")
      (auto simp: parse_command_options_def bnd_apply split_beta simp del: de_Morgan_conj de_Morgan_disj
        split: sum.splits if_splits)
  have "v \<noteq> None \<longleftrightarrow> c \<in> set ''MGsbSxXw''" if "Opt c v \<in> set ?rs" for c v
    using getopt_plus_sound [OF that] ue_takes_arg by blast
  note w = ue_options_wf [OF 1 this]
  have "list_all wf_option (opt_list o1) \<and> length (opt_list o1) \<le> MAX_OPT \<and> s1 = s"
    "\<And>r. r \<in> set ?rs \<Longrightarrow> \<exists>c v. r = Opt c v \<and> c \<noteq> CHR ''S''"
    using w by (auto simp: init_options_def)
  moreover have "suffix ?ops args" unfolding getopt_plus_def by (rule getopt_scan_plus_suffix)
  ultimately show ?thesis using 2 by (fastforce simp: wf_options_def)
qed

lemma options_accepted: "parse_command_options pname args s = (Inr opts, s') \<Longrightarrow> wf_options opts"
  using parse_ok by blast

section \<open>No null pointers\<close>

lemma defined_complain [def_intros]: "defined (complain t)" "defined (macro_errExit f m)" "defined (fail e x)"
  by (simp_all add: complain_def macro_errExit_def defined_def exit3_def fail_def)

lemma defined_printfM [def_intros]: "defined (printfM t)"
  unfolding printfM_def by (intro def_intros)

lemma defined_kcall [def_intros]: "defined (kcall f)"
  by (auto simp: defined_def kcall_def split: prod.splits option.splits)

lemma defined_kcall_or_exit [def_intros]: "defined (kcall_or_exit f m e)"
  unfolding kcall_or_exit_def by (intro def_intros)

lemma defined_modifyCapSetting [def_intros]: "defined (modifyCapSetting S fl c b)"
  unfolding modifyCapSetting_def by (intro def_intros) (auto intro!: def_intros split: sum.splits option.splits)

lemma defined_raise [def_intros]: "defined (raiseInheritableAndAmbientCaps S b)"
  unfolding raiseInheritableAndAmbientCaps_def by (intro def_intros)

lemma defined_modify_one_set [def_intros]: "defined (modify_one_set S f op c p)"
  unfolding modify_one_set_def Let_def by (intro def_intros)

lemma defined_modify_individual [def_intros]: "defined (modify_individual_capability S f t)"
  unfolding modify_individual_capability_def by (auto intro!: def_intros split: prod.splits option.splits)

lemma defined_securebits [def_intros]: "defined (set_securebits S f t)" "defined (set_process_uids S f t)"
  unfolding set_securebits_def set_process_uids_def by (auto intro!: def_intros split: sum.splits option.splits prod.splits)

lemma defined_display [def_intros]: "defined (display_creds_and_caps S f t)"
  unfolding display_creds_and_caps_def by (intro def_intros) (auto intro!: def_intros split: sum.splits)

lemma defined_with_val: "v \<noteq> None \<Longrightarrow> (\<And>t. defined (f t)) \<Longrightarrow> defined (with_val v f)"
  by (auto simp: with_val_def)

lemma defined_option:
  assumes "wf_option (c, v)"
  shows "defined (perform_option S f c v n)"
  using assms unfolding perform_option_def Let_def wf_option_def
  by (intro defined_if defined_with_val def_intros) (auto intro!: def_intros split: sum.splits)

lemma defined_perform: "list_all wf_option xs \<Longrightarrow> defined (perform_loop S f n xs)"
  by (induction xs arbitrary: n) (auto simp: Let_def intro!: def_intros defined_option)

lemma defined_child: "wf_options opts \<Longrightarrow> defined (child_body S f opts)"
  unfolding child_body_def perform_repeatable_options_def wf_options_def
  by (intro def_intros) (auto intro!: def_intros defined_perform split: option.splits)

lemma defined_kwrite [def_intros]: "defined (kwrite S p t)"
  by (auto simp: defined_def kwrite_def split: prod.splits sum.splits)

lemma defined_update_map [def_intros]: "defined (update_map S f m p)" "defined (proc_setgroups_write S f i t)"
  unfolding update_map_def proc_setgroups_write_def Let_def
  by (auto intro!: def_intros split: option.splits)

lemma defined_maps: "defined (update_child_maps S f opts pid)"
  unfolding update_child_maps_def map_or_exit_def
  by (intro def_intros defined_with_val) auto

text \<open>C18. An accepted command line gives well-formed options: a command that is the rest of the arguments, at most
  100 repeatable options, each with an argument exactly if its letter takes one, maps only together with a
  new user namespace, and not both given and root maps; hence neither the child in its repeatable options
  nor the parent in the maps uses a null string. In particular the option \<^verbatim>\<open>-S\<close>, which the usage message
  documents, is never accepted.\<close>

theorem parse_command_options_wf:
  assumes ok: "parse_command_options pname args s = (Inr opts, s')"
  shows "wf_options opts \<and> suffix (cmd_argv opts) args \<and> s' = s
    \<and> (\<forall>v. Opt (CHR ''S'') v \<notin> set (fst (getopt_plus ue_optstring args)))
    \<and> fst (child_body S strerror opts t) \<noteq> Inl Undef \<and> fst (update_child_maps S strerror opts pid u) \<noteq> Inl Undef"
  using parse_ok [OF ok] definedD [OF defined_child] definedD [OF defined_maps] by blast

text \<open>The options \<^verbatim>\<open>-A\<close> and \<^verbatim>\<open>-I\<close> are accepted but do nothing: the loop looks for the letters \<^verbatim>\<open>a\<close> and \<^verbatim>\<open>h\<close>, which
  no accepted option has, and only complains on stderr.\<close>

theorem raise_options_ignored:
  assumes "parse_command_options pname args s = (Inr opts, s')"
  shows "(\<forall>x \<in> set (opt_list opts). fst x \<notin> {CHR ''a'', CHR ''h'', CHR ''S''})
    \<and> (\<forall>c \<in> {CHR ''A'', CHR ''I''}. perform_option S strerror c v n t =
        (Inr (), fputs_stderr (''Unexpected option (-'' @ [c] @ '') in perform_repeatable_options()'' @ [NL]) t))"
proof -
  have "fst x \<in> set ''IAbsdxXw''" if "x \<in> set (opt_list opts)" for x
    using options_accepted [OF assms] that by (auto simp: wf_options_def list_all_iff wf_option_def simp del: list.set)
  then show ?thesis by (fastforce simp: perform_option_def)
qed

section \<open>Securebits\<close>

text \<open>The securebits letters: what \<^verbatim>\<open>printSecbits\<close> prints in its short form, without the dashes, is read back by
  the option \<^verbatim>\<open>-b\<close> as the same flags.\<close>

theorem securebits_roundtrip:
  assumes "0 \<le> b" "b < 256"
  shows "secbits_of (filter (\<lambda>c. c \<noteq> CHR ''-'') (printSecbits b False)) 0 = Inr b"
proof -
  have "\<forall>i \<in> set [0..<256]. secbits_of (filter (\<lambda>c. c \<noteq> CHR ''-'') (printSecbits (int i) False)) 0 = Inr (int i)"
    by code_simp
  moreover have "nat b \<in> set [0..<256]" using assms by auto
  ultimately have "secbits_of (filter (\<lambda>c. c \<noteq> CHR ''-'') (printSecbits (int (nat b)) False)) 0 = Inr (int (nat b))" by blast
  then show ?thesis using assms by simp
qed

section \<open>The ID maps\<close>

text \<open>Documented behaviour of the files under \<^verbatim>\<open>/proc\<close>: a write takes effect whole or fails; \<open>lg\<close> is the list of
  the writes that took effect. \<open>missing\<close>: the kernel has no \<^verbatim>\<open>setgroups\<close> file.\<close>

definition setgroups_file :: "int \<Rightarrow> string" where
  "setgroups_file pid = snprintf PATH_MAX (''/proc/'' @ show_int pid @ ''/setgroups'')"

definition proc_files ::
  "('k, 'c, 'z) user_os_scheme \<Rightarrow> ('k \<Rightarrow> (string \<times> string) list) \<Rightarrow> int \<Rightarrow> bool \<Rightarrow> bool" where
  "proc_files S lg pid missing \<longleftrightarrow>
     (\<forall>p t k. case pf_write S p t k of
        (Inl _, k') \<Rightarrow> lg k' = lg k | (Inr n, k') \<Rightarrow> n = length t \<and> lg k' = lg k @ [(p, t)])
     \<and> (\<forall>k. pf_open S (setgroups_file pid) k = Some ENOENT \<longleftrightarrow> missing)"

text \<open>The writes the program is to make, in order.\<close>

definition map_plan :: "cmd_options \<Rightarrow> int \<Rightarrow> int \<Rightarrow> int \<Rightarrow> bool \<Rightarrow> (string \<times> string) list" where
  "map_plan opts pid uid gid missing =
     (let text = (\<lambda>m i. commas_to_newlines (if create_root_mappings opts
            then snprintf MAP_BUF_SIZE (''0 '' @ show_int i @ '' 1'') else the m));
          path = (\<lambda>f. snprintf PATH_MAX (''/proc/'' @ show_int pid @ f)) in
      (if uid_map opts \<noteq> None \<or> create_root_mappings opts then [(path ''/uid_map'', text (uid_map opts) uid)] else []) @
      (if gid_map opts \<noteq> None \<or> create_root_mappings opts
       then (if deny_setgroups opts then if missing then [] else [(setgroups_file pid, ''deny'')] else []) @
         [(path ''/gid_map'', text (gid_map opts) gid)]
       else []))"

lemma kwrite_logs:
  assumes "proc_files S lg pid missing"
  obtains n s' where "kwrite S p t s = (Inr n, s')" "n = None \<or> n = Some (length t)"
    "lg (ker s') = lg (ker s) @ (if n = None then [] else [(p, t)])"
proof -
  have "case pf_write S p t (ker s) of
      (Inl _, k') \<Rightarrow> lg k' = lg (ker s) | (Inr n, k') \<Rightarrow> n = length t \<and> lg k' = lg (ker s) @ [(p, t)]"
    using assms by (simp add: proc_files_def)
  then show thesis
    by (cases "pf_write S p t (ker s)"; cases "fst (pf_write S p t (ker s))") (auto simp: kwrite_def intro: that)
qed

lemma update_map_logs:
  assumes "proc_files S lg pid missing"
  obtains ok s' where "update_map S strerror m p s = (Inr ok, s')"
    "lg (ker s') = lg (ker s) @ (if ok then [(p, commas_to_newlines m)] else [])"
proof (cases "pf_open S p (ker s)")
  case None
  obtain n s1 where "kwrite S p (commas_to_newlines m) s = (Inr n, s1)" "n = None \<or> n = Some (length (commas_to_newlines m))"
    "lg (ker s1) = lg (ker s) @ (if n = None then [] else [(p, commas_to_newlines m)])"
    using kwrite_logs [OF assms, of p "commas_to_newlines m" s] by blast
  with None show thesis by (cases n) (auto simp: update_map_def Let_def bnd_apply intro: that)
next
  case (Some e)
  then show thesis by (auto simp: update_map_def Let_def bnd_apply fail_def intro: that)
qed

lemmas setgroups_write_file = proc_setgroups_write_def [unfolded Let_def, folded setgroups_file_def]

lemma setgroups_logs:
  assumes "proc_files S lg pid missing"
  obtains ok s' where "proc_setgroups_write S strerror pid t s = (Inr ok, s')"
    "lg (ker s') = lg (ker s) @ (if ok \<and> \<not> missing then [(setgroups_file pid, t)] else [])"
proof (cases "pf_open S (setgroups_file pid) (ker s)")
  case None
  obtain n s1 where "kwrite S (setgroups_file pid) t s = (Inr n, s1)"
    "lg (ker s1) = lg (ker s) @ (if n = None then [] else [(setgroups_file pid, t)])"
    using kwrite_logs [OF assms, of "setgroups_file pid" t s] by blast
  moreover have "\<not> missing" using None assms by (auto simp: proc_files_def)
  ultimately show thesis
    using None by (cases n) (auto simp: setgroups_write_file bnd_apply intro: that)
next
  case (Some e)
  have "missing \<longleftrightarrow> e = ENOENT" using assms Some unfolding proc_files_def by (metis option.inject)
  with Some show thesis
    by (cases "e = ENOENT") (auto simp: setgroups_write_file bnd_apply fail_def intro: that)
qed

text \<open>\<open>logs lg m s ws\<close>: \<open>m\<close> makes the writes \<open>ws\<close> and returns, or a proper part of them and exits with failure.\<close>

definition logs :: "('k \<Rightarrow> 'w list) \<Rightarrow> ('k kproc, unit) prog \<Rightarrow> 'k kproc \<Rightarrow> 'w list \<Rightarrow> bool" where
  "logs lg m s ws \<longleftrightarrow> (case m s of
      (Inr _, s') \<Rightarrow> lg (ker s') = lg (ker s) @ ws
    | (Inl h, s') \<Rightarrow> h = Exit EXIT_FAILURE \<and> (\<exists>n < length ws. lg (ker s') = lg (ker s) @ take n ws))"

lemma logs_andthen:
  assumes "logs lg m s ws" "\<And>s'. logs lg k s' vs"
  shows "logs lg (andthen m k) s (ws @ vs)"
proof -
  obtain r s1 where 1: "m s = (r, s1)" by fastforce
  show ?thesis
  proof (cases r)
    case (Inl h)
    with 1 assms(1) obtain n where "h = Exit EXIT_FAILURE" "n < length ws" "lg (ker s1) = lg (ker s) @ take n ws"
      by (auto simp: logs_def)
    with Inl 1 show ?thesis by (auto simp: logs_def andthen_apply intro!: exI [of _ n])
  next
    case (Inr u)
    obtain r2 s2 where 2: "k s1 = (r2, s2)" by fastforce
    have l: "lg (ker s1) = lg (ker s) @ ws" using assms(1) 1 Inr by (simp add: logs_def)
    show ?thesis
    proof (cases r2)
      case (Inl h)
      with 2 assms(2) [of s1] obtain n where "h = Exit EXIT_FAILURE" "n < length vs" "lg (ker s2) = lg (ker s1) @ take n vs"
        by (auto simp: logs_def)
      with Inl 1 2 Inr l show ?thesis by (auto simp: logs_def andthen_apply intro!: exI [of _ "length ws + n"])
    qed (use 1 2 Inr l assms(2) [of s1] in \<open>auto simp: logs_def andthen_apply\<close>)
  qed
qed

lemma logs_whenM: "(b \<Longrightarrow> logs lg m s ws) \<Longrightarrow> logs lg (whenM b m) s (if b then ws else [])"
  by (cases b) (auto simp: logs_def)

lemma macro_errExit_halts: "macro_errExit strerror m s = (Inl (Exit EXIT_FAILURE), fflush_stdout (perror strerror m s))"
  by (simp add: macro_errExit_def exit3_def)

lemma ker_perror [simp]: "ker (perror strerror m s) = ker s"
  by (simp add: perror_def)

lemma logs_map:
  assumes pf: "proc_files S lg pid missing" and "\<And>k. own k = i" "root \<or> m \<noteq> None"
  shows "logs lg (map_or_exit S strerror m root own p msg) s
    [(p, commas_to_newlines (if root then snprintf MAP_BUF_SIZE (''0 '' @ show_int i @ '' 1'') else the m))]"
proof -
  define t where "t = (if root then snprintf MAP_BUF_SIZE (''0 '' @ show_int i @ '' 1'') else the m)"
  have t: "(if root then Some (snprintf MAP_BUF_SIZE (''0 '' @ show_int i @ '' 1'')) else m) = Some t"
    using assms(3) by (auto simp: t_def)
  obtain ok s' where u: "update_map S strerror t p s = (Inr ok, s')"
    "lg (ker s') = lg (ker s) @ (if ok then [(p, commas_to_newlines t)] else [])"
    using update_map_logs [OF pf, of strerror t p s] by blast
  have "logs lg (map_or_exit S strerror m root own p msg) s [(p, commas_to_newlines t)]"
    unfolding map_or_exit_def logs_def assms(2) using u
    by (cases ok) (simp_all add: t with_val_def bnd_apply macro_errExit_halts)
  then show ?thesis by (simp add: t_def)
qed

lemma logs_deny:
  assumes pf: "proc_files S lg pid missing"
  shows "logs lg (bnd (proc_setgroups_write S strerror pid t) (\<lambda>ok. whenM (\<not> ok) (macro_errExit strerror msg))) s
    (if missing then [] else [(setgroups_file pid, t)])"
proof -
  obtain ok s' where u: "proc_setgroups_write S strerror pid t s = (Inr ok, s')"
    "lg (ker s') = lg (ker s) @ (if ok \<and> \<not> missing then [(setgroups_file pid, t)] else [])"
    using setgroups_logs [OF pf, of strerror t s] by blast
  have "ok" if "missing" using that pf u(1)
    by (auto simp: setgroups_write_file bnd_apply fail_def proc_files_def)
  with u show ?thesis by (cases ok) (auto simp: logs_def bnd_apply macro_errExit_halts)
qed

text \<open>Writing the ID maps: the parent makes exactly the planned writes, in the planned order (\<^verbatim>\<open>deny\<close> to
  \<^verbatim>\<open>setgroups\<close> before the group map), or it exits with status 1 after a proper part of them, whichever
  open or write fails.\<close>

theorem update_child_maps_plan:
  assumes pf: "proc_files S lg pid missing" and ids: "\<forall>k. getuid S k = uid" "\<forall>k. getgid S k = gid"
  shows "case update_child_maps S strerror opts pid s of
      (Inr _, s') \<Rightarrow> lg (ker s') = lg (ker s) @ map_plan opts pid uid gid missing
    | (Inl h, s') \<Rightarrow> h = Exit EXIT_FAILURE
        \<and> (\<exists>n < length (map_plan opts pid uid gid missing). lg (ker s') = lg (ker s) @ take n (map_plan opts pid uid gid missing))"
proof -
  note l = logs_map [OF pf] logs_deny [OF pf]
  have "logs lg (update_child_maps S strerror opts pid) s
    ((if uid_map opts \<noteq> None \<or> create_root_mappings opts
      then [(snprintf PATH_MAX (''/proc/'' @ show_int pid @ ''/uid_map''), commas_to_newlines
        (if create_root_mappings opts then snprintf MAP_BUF_SIZE (''0 '' @ show_int uid @ '' 1'') else the (uid_map opts)))] else []) @
     (if gid_map opts \<noteq> None \<or> create_root_mappings opts
      then (if deny_setgroups opts then if missing then [] else [(setgroups_file pid, ''deny'')] else []) @
        [(snprintf PATH_MAX (''/proc/'' @ show_int pid @ ''/gid_map''), commas_to_newlines
        (if create_root_mappings opts then snprintf MAP_BUF_SIZE (''0 '' @ show_int gid @ '' 1'') else the (gid_map opts)))] else []))"
    unfolding update_child_maps_def
    by (intro logs_andthen logs_whenM l) (use ids in auto)
  then show ?thesis unfolding logs_def map_plan_def Let_def by (simp split: prod.splits sum.splits)
qed

section \<open>Parent and child\<close>

definition maps_phase ::
  "('k, 'c, 'z) user_os_scheme \<Rightarrow> (int \<Rightarrow> string) \<Rightarrow> string \<Rightarrow> cmd_options \<Rightarrow> int \<Rightarrow> ('k kproc, unit) prog" where
  "maps_phase S strerror pname opts pid = andthen (ue_announce pname opts pid) (update_child_maps S strerror opts pid)"

definition read_failure :: "('k kproc, unit) prog" where
  "read_failure = complain (''Failure in child: read from pipe returned != 0'' @ [NL])"

lemmas ue_folds = maps_phase_def [symmetric] read_failure_def [symmetric]

text \<open>The state of the child when it starts on its own part, after the parent's maps phase.\<close>

definition child_start :: "('k kproc, unit) prog \<Rightarrow> 'k kproc \<Rightarrow> 'k kproc" where
  "child_start m s0 = s0\<lparr>ker := ker (snd (m s0))\<rparr>"

definition child_ended :: "('k kproc, unit) prog \<Rightarrow> 'k kproc \<Rightarrow> 'k duo \<Rightarrow> bool" where
  "child_ended b s d \<longleftrightarrow> cld d = snd (b s) \<and> (\<exists>h. fst (b s) = Inl h \<and> c_pc d = CEnd h)"

definition child_gave_up :: "'k kproc \<Rightarrow> 'k duo \<Rightarrow> bool" where
  "child_gave_up s0 d \<longleftrightarrow> c_pc d = CEnd (Exit EXIT_FAILURE) \<and>
     stderr_out (cld d) = stderr_out s0 @ ''Failure in child: read from pipe returned != 0'' @ [NL]"

text \<open>\<open>m\<close> is the maps phase of the parent, \<open>b\<close> the child's part, \<open>s0\<close> the state at \<^verbatim>\<open>clone\<close>.\<close>

definition before_maps :: "'k kproc \<Rightarrow> 'k duo \<Rightarrow> bool" where
  "before_maps s0 d \<longleftrightarrow> p_pc d = PMap \<and> p_wr d \<and> par d = s0 \<and> ker (cld d) = ker s0 \<and>
     (c_pc d \<in> {CClose, CRead} \<and> cld d = s0 \<or> child_gave_up s0 d)"

definition after_maps :: "('k kproc, unit) prog \<Rightarrow> ('k kproc, unit) prog \<Rightarrow> 'k kproc \<Rightarrow> 'k duo \<Rightarrow> bool" where
  "after_maps m b s0 d \<longleftrightarrow> p_pc d \<noteq> PMap \<and> (p_wr d \<longleftrightarrow> p_pc d = PClose) \<and> ker (par d) = ker (cld d) \<and>
     (c_pc d \<in> {CClose, CRead, CRun} \<and> cld d = child_start m s0 \<and> (c_pc d = CRun \<longrightarrow> p_pc d \<noteq> PClose)
      \<or> child_gave_up s0 d \<and> ker (cld d) = ker (snd (m s0))
      \<or> child_ended b (child_start m s0) d \<and> p_pc d \<noteq> PClose) \<and>
     (case fst (m s0) of Inl h \<Rightarrow> p_pc d = PEnd h
      | Inr _ \<Rightarrow> p_pc d = PEnd (Exit EXIT_SUCCESS) \<longrightarrow> (\<exists>h. c_pc d = CEnd h))"

definition ue_inv :: "('k kproc, unit) prog \<Rightarrow> ('k kproc, unit) prog \<Rightarrow> 'k kproc \<Rightarrow> 'k duo \<Rightarrow> bool" where
  "ue_inv m b s0 d \<longleftrightarrow> (c_pc d \<noteq> CClose \<longrightarrow> \<not> c_wr d) \<and> (before_maps s0 d \<or> after_maps m b s0 d)"

lemma ue_inv_init: "ue_inv m b s0 (ue_init s0)"
  by (simp add: ue_inv_def before_maps_def ue_init_def)

lemma run_parent_sel:
  assumes "m (par d) = (r, s)"
  shows "par (run_parent m next d) = s" "cld (run_parent m next d) = (cld d)\<lparr>ker := ker s\<rparr>"
    "p_pc (run_parent m next d) = parent_pc r next" "c_pc (run_parent m next d) = c_pc d" "c_wr (run_parent m next d) = c_wr d"
    "p_wr (run_parent m next d) = (p_wr d \<and> (\<exists>u. r = Inr u))"
  using assms by (auto simp: run_parent_def split: sum.splits)

lemma run_child_sel:
  assumes "b (cld d) = (Inl h, s)"
  shows "cld (run_child b d) = s" "par (run_child b d) = (par d)\<lparr>ker := ker s\<rparr>" "c_pc (run_child b d) = CEnd h"
    "c_wr (run_child b d) = False" "p_pc (run_child b d) = p_pc d" "p_wr (run_child b d) = p_wr d"
  using assms by (simp_all add: run_child_def)

lemma ker_same: "ker s = k \<Longrightarrow> s\<lparr>ker := k\<rparr> = s"
  by auto

text \<open>The maps phase.\<close>

lemma maps_inv:
  assumes "ue_inv m b s0 d" "p_pc d = PMap"
  shows "ue_inv m b s0 (run_parent m PClose d)"
proof -
  have d: "par d = s0" "p_wr d" "c_pc d \<in> {CClose, CRead} \<and> cld d = s0 \<or> child_gave_up s0 d"
    "c_pc d \<noteq> CClose \<longrightarrow> \<not> c_wr d"
    using assms by (auto simp: ue_inv_def before_maps_def after_maps_def)
  obtain r s where m: "m s0 = (r, s)" by fastforce
  note sel = run_parent_sel [of m d r s PClose]
  show ?thesis
    using d m sel unfolding ue_inv_def after_maps_def
    by (cases r) (auto simp: parent_pc_def child_start_def child_gave_up_def)
qed

text \<open>A step of the parent after that which leaves the kernel alone.\<close>

lemma parent_inv:
  assumes "ue_inv m b s0 d" "p_pc d = PWait" "c (par d) = (Inl h, s)" "ker s = ker (par d)"
    "h = Exit EXIT_SUCCESS \<longrightarrow> (\<exists>h'. c_pc d = CEnd h')"
  shows "ue_inv m b s0 (run_parent c PWait d)"
proof -
  have d: "after_maps m b s0 d" "c_pc d \<noteq> CClose \<longrightarrow> \<not> c_wr d"
    using assms(1,2) by (auto simp: ue_inv_def before_maps_def)
  then obtain u where u: "fst (m s0) = Inr u" using assms(2) by (auto simp: after_maps_def split: sum.splits)
  have "cld (run_parent c PWait d) = cld d"
    using d assms(4) by (simp add: run_parent_sel [where m = c and d = d, OF assms(3)] after_maps_def ker_same)
  then show ?thesis
    using d u assms(4,5) unfolding ue_inv_def after_maps_def
    by (auto simp: run_parent_sel [where m = c and d = d, OF assms(3)] parent_pc_def child_gave_up_def child_ended_def)
qed

text \<open>The child's own part.\<close>

lemma child_inv:
  assumes "ue_inv m b s0 d" "c_pc d = CRun" "never_returns b"
  shows "ue_inv m b s0 (run_child b d)"
proof -
  have d: "after_maps m b s0 d" using assms(1,2) by (auto simp: ue_inv_def before_maps_def child_gave_up_def)
  then have c: "cld d = child_start m s0" using assms(2) by (auto simp: after_maps_def child_gave_up_def child_ended_def)
  obtain h s where b: "b (cld d) = (Inl h, s)" using assms(3) unfolding never_returns_def by (metis prod.collapse)
  show ?thesis
    using d b c assms(2) unfolding ue_inv_def after_maps_def
    by (auto simp: run_child_sel [where b = b and d = d, OF b] child_ended_def child_gave_up_def split: sum.splits)
qed

lemma read_fails_inv:
  assumes "ue_inv m b s0 d" "c_pc d = CRead"
  shows "ue_inv m b s0 (run_child read_failure d)"
proof -
  obtain s where s: "read_failure (cld d) = (Inl (Exit EXIT_FAILURE), s)" "ker s = ker (cld d)"
    "stderr_out s = stderr_out (cld d) @ ''Failure in child: read from pipe returned != 0'' @ [NL]"
    by (simp add: read_failure_def complain_def exit3_def)
  show ?thesis
    using assms s(2,3) unfolding ue_inv_def after_maps_def before_maps_def child_gave_up_def
    by (auto simp: run_child_sel [where b = read_failure and d = d, OF s(1)] child_ended_def child_start_def ker_same split: sum.splits)
qed

lemma child_never: "never_returns (child_body S strerror opts)"
  unfolding child_body_def andthen_def
  by (intro never_returns_bnd) (auto simp: never_returns_def bnd_apply fail_def macro_errExit_halts split: option.splits)

lemma ue_end_halts:
  "\<exists>s'. ue_end pname opts s = (Inl (Exit EXIT_SUCCESS), s') \<and> ker s' = ker s"
  by (cases "verbose opts") (simp_all add: ue_end_def andthen_apply printfM_def exit3_def)

lemma wait_failure_halts:
  "\<exists>s'. bnd (fail e ()) (\<lambda>_. macro_errExit strerror ''waitpid'') s = (Inl (Exit EXIT_FAILURE), s') \<and> ker s' = ker s"
  by (simp add: bnd_apply fail_def macro_errExit_halts)

lemma ue_step_inv:
  assumes "ue_inv (maps_phase S strerror pname opts pid) (child_body S strerror opts) s0 d"
    and "ue_step S strerror pname opts pid d d'"
  shows "ue_inv (maps_phase S strerror pname opts pid) (child_body S strerror opts) s0 d'"
  using assms(2)
proof (cases rule: ue_step.cases)
  case maps
  then show ?thesis using maps_inv [OF assms(1)] by (simp add: maps_phase_def)
next
  case close_pipe
  then show ?thesis using assms(1)
    by (auto simp: ue_inv_def before_maps_def after_maps_def child_gave_up_def child_ended_def split: sum.splits)
next
  case (reap h)
  obtain s' where "ue_end pname opts (par d) = (Inl (Exit EXIT_SUCCESS), s')" "ker s' = ker (par d)"
    using ue_end_halts by blast
  from parent_inv [where c = "ue_end pname opts", OF assms(1) _ this] reap show ?thesis by auto
next
  case child_close
  then show ?thesis using assms(1)
    by (auto simp: ue_inv_def before_maps_def after_maps_def child_gave_up_def child_ended_def split: sum.splits)
next
  case child_eof
  then show ?thesis using assms(1)
    by (auto simp: ue_inv_def before_maps_def after_maps_def child_gave_up_def child_ended_def split: sum.splits)
next
  case child_run
  then show ?thesis using child_inv [OF assms(1) _ child_never] by simp
qed

lemma ue_fstep_inv:
  assumes "ue_inv (maps_phase S strerror pname opts pid) (child_body S strerror opts) s0 d"
    and "ue_fstep S strerror pname opts pid d d'"
  shows "ue_inv (maps_phase S strerror pname opts pid) (child_body S strerror opts) s0 d'"
  using assms(2)
proof (cases rule: ue_fstep.cases)
  case no_failure
  then show ?thesis by (rule ue_step_inv [OF assms(1)])
next
  case (wait_fails e)
  obtain s' where "bnd (fail e ()) (\<lambda>_. macro_errExit strerror ''waitpid'') (par d) = (Inl (Exit EXIT_FAILURE) :: halt + unit, s')"
    "ker s' = ker (par d)" using wait_failure_halts by blast
  from parent_inv [where c = "bnd (fail e ()) (\<lambda>_. macro_errExit strerror ''waitpid'')", OF assms(1) _ this]
    wait_fails show ?thesis by (simp add: const_defs)
next
  case read_fails
  then show ?thesis using read_fails_inv [OF assms(1)] by (simp add: read_failure_def)
qed

interpretation uef: invariant_system "ue_fstep S strerror pname opts pid"
    "ue_inv (maps_phase S strerror pname opts pid) (child_body S strerror opts) s0"
  by unfold_locales (rule ue_fstep_inv)

definition p_left :: "ppc \<Rightarrow> nat" where
  "p_left p = (case p of PMap \<Rightarrow> 3 | PClose \<Rightarrow> 2 | PWait \<Rightarrow> 1 | PEnd _ \<Rightarrow> 0)"

definition c_left :: "cpc \<Rightarrow> nat" where
  "c_left c = (case c of CClose \<Rightarrow> 3 | CRead \<Rightarrow> 2 | CRun \<Rightarrow> 1 | CEnd _ \<Rightarrow> 0)"

definition ue_final :: "'k duo \<Rightarrow> bool" where
  "ue_final d \<longleftrightarrow> (\<exists>h. p_pc d = PEnd h) \<and> (\<exists>h. c_pc d = CEnd h)"

lemma run_parent_pcs:
  "c_pc (run_parent m next d) = c_pc d" "p_pc (run_parent m next d) = parent_pc (fst (m (par d))) next"
  by (simp_all add: run_parent_def split_beta)

lemma run_child_pcs:
  "p_pc (run_child m d) = p_pc d" "\<exists>h. c_pc (run_child m d) = CEnd h"
  by (simp_all add: run_child_def split_beta)

lemma ue_effort:
  assumes "ue_step S strerror pname opts pid d d'"
  shows "p_left (p_pc d') + c_left (c_pc d') < p_left (p_pc d) + c_left (c_pc d)"
  using assms
proof (cases rule: ue_step.cases)
  case (reap h)
  obtain s' where "ue_end pname opts (par d) = (Inl (Exit EXIT_SUCCESS), s')" using ue_end_halts by blast
  with reap show ?thesis by (simp add: run_parent_pcs parent_pc_def p_left_def)
next
  case child_run
  obtain h where "c_pc d' = CEnd h" using child_run run_child_pcs(2) by blast
  with child_run show ?thesis by (simp add: run_child_pcs(1) c_left_def)
qed (auto simp: run_parent_pcs parent_pc_def p_left_def c_left_def split: sum.splits)

lemma ue_progress:
  assumes inv: "ue_inv m b s0 d" and "\<not> ue_final d"
  shows "\<exists>d'. ue_step S strerror pname opts pid d d'"
proof (cases "p_pc d")
  case PMap
  then show ?thesis by (blast intro: ue_step.maps)
next
  case PClose
  then show ?thesis by (blast intro: ue_step.close_pipe)
next
  case PWait
  have "\<not> p_wr d" "c_pc d = CRead \<longrightarrow> \<not> c_wr d" using inv PWait by (auto simp: ue_inv_def before_maps_def after_maps_def)
  then show ?thesis using PWait by (cases "c_pc d") (blast intro: ue_step.intros)+
next
  case (PEnd h)
  have "\<not> p_wr d" "c_pc d = CRead \<longrightarrow> \<not> c_wr d" using inv PEnd by (auto simp: ue_inv_def before_maps_def after_maps_def)
  then show ?thesis using PEnd assms(2) by (cases "c_pc d") (auto simp: ue_final_def intro: ue_step.intros)
qed

text \<open>Without failures the child does not give up.\<close>

definition ue_good :: "('k kproc, unit) prog \<Rightarrow> ('k kproc, unit) prog \<Rightarrow> 'k kproc \<Rightarrow> 'k duo \<Rightarrow> bool" where
  "ue_good m b s0 d \<longleftrightarrow> ue_inv m b s0 d \<and> (p_pc d = PMap \<longrightarrow> c_pc d \<in> {CClose, CRead}) \<and>
     (\<forall>h. c_pc d = CEnd h \<longrightarrow> child_ended b (child_start m s0) d)"

lemma ue_good_inv: "ue_good m b s0 d \<Longrightarrow> ue_inv m b s0 d"
  by (simp add: ue_good_def)

lemma ue_good_init: "ue_good m b s0 (ue_init s0)"
  unfolding ue_good_def using ue_inv_init by (simp add: ue_init_def)

lemma child_run_ends:
  assumes "ue_inv m b s0 d" "c_pc d = CRun" "never_returns b"
  shows "child_ended b (child_start m s0) (run_child b d)" "p_pc (run_child b d) \<noteq> PMap"
proof -
  have d: "after_maps m b s0 d" using assms(1,2) by (auto simp: ue_inv_def before_maps_def child_gave_up_def)
  then have c: "cld d = child_start m s0" using assms(2) by (auto simp: after_maps_def child_gave_up_def child_ended_def)
  obtain h s where b: "b (cld d) = (Inl h, s)" using assms(3) unfolding never_returns_def by (metis prod.collapse)
  show "child_ended b (child_start m s0) (run_child b d)" "p_pc (run_child b d) \<noteq> PMap"
    using b c d by (auto simp: run_child_sel [where b = b and d = d, OF b] child_ended_def after_maps_def)
qed

lemma ue_good_step:
  assumes good: "ue_good (maps_phase S strerror pname opts pid) (child_body S strerror opts) s0 d"
    and step: "ue_step S strerror pname opts pid d d'"
  shows "ue_good (maps_phase S strerror pname opts pid) (child_body S strerror opts) s0 d'"
proof -
  have inv: "ue_inv (maps_phase S strerror pname opts pid) (child_body S strerror opts) s0 d"
    using good by (simp add: ue_good_def)
  note inv' = ue_step_inv [OF inv step]
  from step show ?thesis
  proof (cases rule: ue_step.cases)
    case maps
    with good inv' show ?thesis
      unfolding ue_good_def by (auto simp: run_parent_pcs parent_pc_def split: sum.splits)
  next
    case (reap h)
    obtain s' where s': "ue_end pname opts (par d) = (Inl (Exit EXIT_SUCCESS), s')" "ker s' = ker (par d)"
      using ue_end_halts by blast
    have "ker (par d) = ker (cld d)" using inv reap by (auto simp: ue_inv_def before_maps_def after_maps_def)
    then have "cld d' = cld d"
      using reap s'(2) by (simp add: run_parent_sel [where m = "ue_end pname opts" and d = d, OF s'(1)] ker_same)
    with good inv' reap s'(1) show ?thesis
      unfolding ue_good_def by (auto simp: run_parent_pcs parent_pc_def child_ended_def)
  next
    case child_run
    with child_run_ends [OF inv _ child_never] inv' show ?thesis unfolding ue_good_def by auto
  qed (use good inv' in \<open>auto simp: ue_good_def ue_inv_def before_maps_def after_maps_def child_ended_def\<close>)
qed

interpretation ue: completing_system "ue_step S strerror pname opts pid"
    "ue_good (maps_phase S strerror pname opts pid) (child_body S strerror opts) s0"
    "\<lambda>d. p_left (p_pc d) + c_left (c_pc d)" ue_final
  by unfold_locales (erule (1) ue_good_step, erule ue_effort, erule (1) ue_progress [OF ue_good_inv])

section \<open>Properties of the two processes\<close>

text \<open>C7. In every interleaving, with or without a failing \<^verbatim>\<open>read\<close> or \<^verbatim>\<open>waitpid\<close>: a child that has ended either gave up
  because its \<^verbatim>\<open>read\<close> failed, or has run its part from exactly the kernel state that the parent's maps phase
  left, as if the two had run one after the other. A parent that ends with success has seen the child end.
  The child does not learn whether the maps phase succeeded: if it failed, the parent's exit closes the
  pipe and the command is executed all the same.\<close>

theorem userns_sequential:
  assumes run: "(ue_fstep S strerror pname opts pid)\<^sup>*\<^sup>* (ue_init s0) d"
  shows "(\<forall>h. c_pc d = CEnd h \<longrightarrow> child_gave_up s0 d
      \<or> p_pc d \<notin> {PMap, PClose}
        \<and> child_body S strerror opts (child_start (maps_phase S strerror pname opts pid) s0) = (Inl h, cld d))
    \<and> (\<forall>h. p_pc d = PEnd h \<longrightarrow> (case fst (maps_phase S strerror pname opts pid s0) of
        Inl h' \<Rightarrow> h = h' | Inr _ \<Rightarrow> h = Exit EXIT_SUCCESS \<longrightarrow> (\<exists>h'. c_pc d = CEnd h')))"
proof -
  have inv: "ue_inv (maps_phase S strerror pname opts pid) (child_body S strerror opts) s0 d"
    by (rule uef.run_inv [OF run ue_inv_init])
  have "child_body S strerror opts (child_start (maps_phase S strerror pname opts pid) s0) = (Inl h, cld d)"
    if "child_ended (child_body S strerror opts) (child_start (maps_phase S strerror pname opts pid) s0) d" "c_pc d = CEnd h" for h
    using that by (auto simp: child_ended_def prod_eq_iff)
  with inv show ?thesis
    by (auto simp: ue_inv_def before_maps_def after_maps_def split: sum.splits)
qed

text \<open>C25. When neither \<^verbatim>\<open>read\<close> nor \<^verbatim>\<open>waitpid\<close> fails: at most six steps are made, the processes never wait for each other
  for ever, and a run that cannot be continued has ended both, the child having done its part after the maps
  phase.\<close>

theorem userns_completes:
  assumes run: "(ue_step S strerror pname opts pid)\<^sup>*\<^sup>* (ue_init s0) d" and stuck: "\<nexists>d'. ue_step S strerror pname opts pid d d'"
  shows "(\<exists>h. p_pc d = PEnd h)
    \<and> (\<exists>h. c_pc d = CEnd h
        \<and> child_body S strerror opts (child_start (maps_phase S strerror pname opts pid) s0) = (Inl h, cld d))
    \<and> (\<forall>n e. (ue_step S strerror pname opts pid ^^ n) (ue_init s0) e \<longrightarrow> n \<le> 6)"
proof -
  note inv0 = ue_good_init [of "maps_phase S strerror pname opts pid" "child_body S strerror opts" s0]
  have fin: "ue_final d" by (rule ue.stuck_final [OF run inv0 stuck])
  have "ue_good (maps_phase S strerror pname opts pid) (child_body S strerror opts) s0 d" by (rule ue.run_inv [OF run inv0])
  then have "\<exists>h. c_pc d = CEnd h \<and>
      child_body S strerror opts (child_start (maps_phase S strerror pname opts pid) s0) = (Inl h, cld d)"
    using fin by (auto simp: ue_final_def ue_good_def child_ended_def prod_eq_iff)
  moreover have "n \<le> 6" if "(ue_step S strerror pname opts pid ^^ n) (ue_init s0) e" for n e
    using ue.run_bounded [OF that inv0] by (simp add: ue_init_def p_left_def c_left_def)
  ultimately show ?thesis using fin by (auto simp: ue_final_def)
qed

section \<open>Witnesses\<close>

text \<open>A kernel that logs the writes; the files in \<open>locked\<close> cannot be opened.\<close>

definition sample_user :: "string list \<Rightarrow> ((string \<times> string) list, unit) user_os" where
  "sample_user locked = \<lparr>cap_get_proc = (\<lambda>_. Inr ()), cap_set_flag = (\<lambda>_ _ _ _. Inr ()), cap_set_proc = (\<lambda>_ k. (None, k)),
     cap_free = (\<lambda>_. None), cap_to_text = (\<lambda>_. Inr ''=''), cap_from_text = (\<lambda>_. Inr ()), cap_from_name = (\<lambda>_. Some 0),
     capbset_drop = (\<lambda>_ k. (None, k)), cap_ambient = (\<lambda>_ _ k. (None, k)), set_securebits_call = (\<lambda>_ k. (None, k)),
     setresuid = (\<lambda>_ _ _ k. (None, k)), k_sleep = (\<lambda>_ k. k), geteuid = (\<lambda>_. 0), getegid = (\<lambda>_. 0),
     getuid = (\<lambda>_. 7), getgid = (\<lambda>_. 8), execvp = (\<lambda>_ _ _. None),
     pf_open = (\<lambda>p _. if p \<in> set locked then Some EACCES else None),
     pf_write = (\<lambda>p t k. (Inr (length t), k @ [(p, t)])), set_dumpable = (\<lambda>k. (None, k)), k_pipe = (\<lambda>k. (None, k)),
     k_mmap = (\<lambda>k. (None, k)), k_clone = (\<lambda>_ k. (Inr 5, k)), cap_last_cap = 40\<rparr>"

definition sample_kproc :: "(string \<times> string) list kproc" where
  "sample_kproc = \<lparr>stdout_buf = [], stdout_out = [], stderr_out = [], errno = 0, ef_dumpcore = None, stdio_errno = None, ker = []\<rparr>"

definition sample_opts :: cmd_options where
  "sample_opts = init_options\<lparr>cmd_argv := [''sh'', ''-c''], flags := CLONE_NEWUSER, create_root_mappings := True,
     opt_list := [(CHR ''A'', None), (CHR ''w'', Some ''1'')]\<rparr>"

lemma sample_parse:
  "parse_command_options ''p'' [''-U'', ''-r'', ''-Aw1'', ''sh'', ''-c''] sample_kproc = (Inr sample_opts, sample_kproc)"
  by code_simp

theorem parse_command_options_wf_witness:
  "wf_options sample_opts \<and> suffix [''sh'', ''-c''] [''-U'', ''-r'', ''-Aw1'', ''sh'', ''-c'']
    \<and> fst (child_body (sample_user []) (\<lambda>_. []) sample_opts sample_kproc) \<noteq> Inl Undef"
  using parse_command_options_wf [OF sample_parse, where S = "sample_user []" and strerror = "\<lambda>_. []" and t = sample_kproc]
  by (simp add: sample_opts_def)

theorem raise_options_ignored_witness:
  "stderr_out (snd (perform_option (sample_user []) (\<lambda>_. []) (CHR ''A'') None 0 sample_kproc)) =
     ''Unexpected option (-A) in perform_repeatable_options()'' @ [NL]"
  using raise_options_ignored [OF sample_parse, where S = "sample_user []" and strerror = "\<lambda>_. []" and v = None and n = 0
      and t = sample_kproc] by (simp add: sample_kproc_def)

theorem securebits_roundtrip_witness: "secbits_of ''KrS'' 0 = Inr 41"
proof -
  have "filter (\<lambda>c. c \<noteq> CHR ''-'') (printSecbits 41 False) = ''KrS''" by code_simp
  then show ?thesis using securebits_roundtrip [of 41] by simp
qed

lemma sample_files: "proc_files (sample_user []) (\<lambda>k. k) 5 False"
  by (simp add: proc_files_def sample_user_def)

lemma sample_ids: "\<forall>k. getuid (sample_user ls) k = 7" "\<forall>k. getgid (sample_user ls) k = 8"
  by (simp_all add: sample_user_def)

theorem update_child_maps_plan_witness:
  "ker (snd (update_child_maps (sample_user []) (\<lambda>_. []) sample_opts 5 sample_kproc)) =
     [(''/proc/5/uid_map'', ''0 7 1''), (''/proc/5/setgroups'', ''deny''), (''/proc/5/gid_map'', ''0 8 1'')]"
proof -
  have "map_plan sample_opts 5 7 8 False =
      [(''/proc/5/uid_map'', ''0 7 1''), (''/proc/5/setgroups'', ''deny''), (''/proc/5/gid_map'', ''0 8 1'')]" by code_simp
  moreover have "fst (update_child_maps (sample_user []) (\<lambda>_. []) sample_opts 5 sample_kproc) = Inr ()" by code_simp
  ultimately show ?thesis
    using update_child_maps_plan [OF sample_files sample_ids, where strerror = "\<lambda>_. []" and opts = sample_opts and s = sample_kproc]
    by (simp add: split_beta sample_kproc_def)
qed

text \<open>The user map cannot be opened: the parent fails, and the child executes the command without a map.\<close>

lemma sample_locked:
  "fst (maps_phase (sample_user [''/proc/5/uid_map'']) (\<lambda>_. []) ''p'' sample_opts 5 sample_kproc) = Inl (Exit EXIT_FAILURE)"
  "fst (child_body (sample_user [''/proc/5/uid_map'']) (\<lambda>_. []) sample_opts
     (child_start (maps_phase (sample_user [''/proc/5/uid_map'']) (\<lambda>_. []) ''p'' sample_opts 5) sample_kproc)) =
   Inl (Exec ''sh'' [''sh'', ''-c''])"
  by code_simp+

lemma sample_run:
  obtains d where "(ue_step S strerror pname opts pid)\<^sup>*\<^sup>* (ue_init s0) d" "ue_final d" "\<nexists>d'. ue_step S strerror pname opts pid d d'"
proof -
  obtain d where "(ue_step S strerror pname opts pid)\<^sup>*\<^sup>* (ue_init s0) d" "ue_final d"
    using ue.reaches_final [OF ue_good_init] by blast
  moreover from this have "\<nexists>d'. ue_step S strerror pname opts pid d d'" by (auto simp: ue_final_def elim!: ue_stepE)
  ultimately show thesis by (rule that)
qed

theorem userns_completes_witness:
  "\<exists>d. (ue_step (sample_user []) (\<lambda>_. []) ''p'' sample_opts 5)\<^sup>*\<^sup>* (ue_init sample_kproc) d
    \<and> c_pc d = CEnd (Exec ''sh'' [''sh'', ''-c''])"
proof -
  obtain d where d: "(ue_step (sample_user []) (\<lambda>_. []) ''p'' sample_opts 5)\<^sup>*\<^sup>* (ue_init sample_kproc) d"
    "\<nexists>d'. ue_step (sample_user []) (\<lambda>_. []) ''p'' sample_opts 5 d d'" by (rule sample_run)
  have "fst (child_body (sample_user []) (\<lambda>_. []) sample_opts
     (child_start (maps_phase (sample_user []) (\<lambda>_. []) ''p'' sample_opts 5) sample_kproc)) = Inl (Exec ''sh'' [''sh'', ''-c''])"
    by code_simp
  with userns_completes [OF d] d(1) show ?thesis by auto
qed

theorem userns_sequential_witness:
  "\<exists>d. (ue_fstep (sample_user [''/proc/5/uid_map'']) (\<lambda>_. []) ''p'' sample_opts 5)\<^sup>*\<^sup>* (ue_init sample_kproc) d
    \<and> p_pc d = PEnd (Exit EXIT_FAILURE) \<and> c_pc d = CEnd (Exec ''sh'' [''sh'', ''-c''])"
proof -
  let ?S = "sample_user [''/proc/5/uid_map'']"
  obtain d where d: "(ue_step ?S (\<lambda>_. []) ''p'' sample_opts 5)\<^sup>*\<^sup>* (ue_init sample_kproc) d" "ue_final d" by (rule sample_run)
  have r: "(ue_fstep ?S (\<lambda>_. []) ''p'' sample_opts 5)\<^sup>*\<^sup>* (ue_init sample_kproc) d"
    using d(1) by (rule rtranclp_mono [THEN predicate2D, rotated]) (auto intro: ue_fstep.no_failure)
  have "ue_good (maps_phase ?S (\<lambda>_. []) ''p'' sample_opts 5) (child_body ?S (\<lambda>_. []) sample_opts) sample_kproc d"
    by (rule ue.run_inv [OF d(1) ue_good_init])
  then have "c_pc d = CEnd (Exec ''sh'' [''sh'', ''-c''])"
    using d(2) sample_locked(2) by (auto simp: ue_good_def ue_final_def child_ended_def)
  moreover obtain h where "p_pc d = PEnd h" using d(2) by (auto simp: ue_final_def)
  ultimately show ?thesis using userns_sequential [OF r] r sample_locked(1) by auto
qed

end
