(* ===== verification/Unotify.thy ===== *)
theory Unotify
  imports Seccomp Capabilities Getopt
begin

text \<open>
  \<^verbatim>\<open>tlpi-book/seccomp/seccomp_unotify_mkdir.c\<close> and \<^verbatim>\<open>sockets/scm_functions.c\<close>: a target process whose \<^verbatim>\<open>mkdir\<close> calls are
  suspended by a filter and decided by a supervisor, which reads the pathname from the target's memory and
  answers with an error, a return value, or the permission to go on. Both processes are computations over a
  kernel of their own type. The composition at the end lets the supervisor answer the target's calls, with
  a kernel that does what the manual page says of notifications.
\<close>

section \<open>Data\<close>

definition SECCOMP_RET_USER_NOTIF :: "32 word" where [sec_consts]: "SECCOMP_RET_USER_NOTIF = 0x7fc00000"
definition SECCOMP_RET_TRACE :: "32 word" where [sec_consts]: "SECCOMP_RET_TRACE = 0x7ff00000"
definition NR_mkdir :: "32 word" where [sec_consts]: "NR_mkdir = 83"
definition SECCOMP_USER_NOTIF_FLAG_CONTINUE :: "32 word" where [sec_consts]: "SECCOMP_USER_NOTIF_FLAG_CONTINUE = 1"
definition EOPNOTSUPP :: int where [const_defs]: "EOPNOTSUPP = 95"
definition ENOSYS :: int where [const_defs]: "ENOSYS = 38"

record seccomp_notif =
  nt_id :: "64 word"
  nt_pid :: "32 word"
  nt_data :: seccomp_data

record seccomp_notif_resp =
  rp_id :: "64 word"
  rp_val :: int
  rp_error :: int
  rp_flags :: "32 word"

text \<open>What the supervisor asks of the kernel. \<open>mem_pread\<close> gives the bytes read, at most as many as asked for.\<close>

record 'k un_os =
  notif_sizes :: "'k \<Rightarrow> int option \<times> 'k"
  un_malloc :: "'k \<Rightarrow> int option \<times> 'k"
  notif_recv :: "'k \<Rightarrow> (int + seccomp_notif) \<times> 'k"
  notif_id_valid :: "64 word \<Rightarrow> 'k \<Rightarrow> int option \<times> 'k"
  notif_send :: "seccomp_notif_resp \<Rightarrow> 'k \<Rightarrow> int option \<times> 'k"
  mem_open :: "string \<Rightarrow> 'k \<Rightarrow> int option \<times> 'k"
  mem_pread :: "nat \<Rightarrow> 64 word \<Rightarrow> 'k \<Rightarrow> (int + string) \<times> 'k"
  mem_close :: "'k \<Rightarrow> int option \<times> 'k"
  sv_mkdir :: "string \<Rightarrow> 32 word \<Rightarrow> 'k \<Rightarrow> int option \<times> 'k"
  sleep1 :: "'k \<Rightarrow> 'k"

text \<open>The supervisor with its buffer \<^verbatim>\<open>path\<close>; \<open>None\<close> is a byte never written.\<close>

record 'k sup = "'k kproc" +
  path_buf :: "char option list"

record cmdLineOpts =
  delaySecs :: int
  secondFilter :: "32 word option"

section \<open>Filters\<close>

definition X86_64_CHECK_ARCH_AND_LOAD_SYSCALL_NR :: "sock_filter list" where
  "X86_64_CHECK_ARCH_AND_LOAD_SYSCALL_NR = [
     BPF_STMT (BPF_LD OR BPF_W OR BPF_ABS) off_arch,
     BPF_JUMP (BPF_JMP OR BPF_JEQ OR BPF_K) AUDIT_ARCH_X86_64 0 2,
     BPF_STMT (BPF_LD OR BPF_W OR BPF_ABS) off_nr,
     BPF_JUMP (BPF_JMP OR BPF_JGE OR BPF_K) X32_SYSCALL_BIT 0 1,
     BPF_STMT (BPF_RET OR BPF_K) SECCOMP_RET_KILL_PROCESS]"

definition notify_filter :: "sock_filter list" where
  "notify_filter = X86_64_CHECK_ARCH_AND_LOAD_SYSCALL_NR @ [
     BPF_JUMP (BPF_JMP OR BPF_JEQ OR BPF_K) NR_mkdir 0 1,
     BPF_STMT (BPF_RET + BPF_K) SECCOMP_RET_USER_NOTIF,
     BPF_STMT (BPF_RET OR BPF_K) SECCOMP_RET_ALLOW]"

definition filter2 :: "cmdLineOpts \<Rightarrow> sock_filter list" where
  "filter2 opts =
     (let filter = X86_64_CHECK_ARCH_AND_LOAD_SYSCALL_NR @ [
            BPF_JUMP (BPF_JMP OR BPF_JEQ OR BPF_K) NR_mkdir 1 0,
            BPF_STMT (BPF_RET OR BPF_K) SECCOMP_RET_ALLOW,
            \<lparr>code = 0, jt = 0, jf = 0, k_field = 0\<rparr>];
          retTrace = BPF_STMT (BPF_RET + BPF_K) SECCOMP_RET_TRACE;
          retErrno = BPF_STMT (BPF_RET + BPF_K) (SECCOMP_RET_ERRNO OR ENOTSUP)
      in filter[length filter - 1 := if secondFilter opts = Some SECCOMP_RET_ERRNO then retErrno else retTrace])"

section \<open>Printing\<close>

text \<open>Stdout is unbuffered.\<close>

definition putsM :: "string \<Rightarrow> ('a proc_io_scheme, unit) prog" where
  "putsM t = modify (\<lambda>s. stdio_noise (s\<lparr>stdout_out := stdout_out s @ t\<rparr>))"

definition show_hex_alt :: "nat \<Rightarrow> string" where
  "show_hex_alt n = (if n = 0 then ''0'' else ''0x'' @ show_base 16 n)"

definition show_oct_alt :: "nat \<Rightarrow> string" where
  "show_oct_alt n = (if n = 0 then ''0'' else ''0'' @ show_base 8 n)"

definition complainU :: "string \<Rightarrow> ('a proc_io_scheme, 'b) prog" where
  "complainU t = bnd (modify (fputs_stderr t)) (\<lambda>_. exit3 EXIT_FAILURE)"

definition ucall_or_exit ::
  "(int \<Rightarrow> string) \<Rightarrow> ('k \<Rightarrow> int option \<times> 'k) \<Rightarrow> string \<Rightarrow> (('k, 'z) kproc_scheme, unit) prog" where
  "ucall_or_exit strerror f msg = bnd (Capabilities.kcall f) (\<lambda>ok. whenM (\<not> ok) (macro_errExit strerror msg))"

section \<open>The supervisor\<close>

definition checkNotificationIdIsValid ::
  "('k, 'z) un_os_scheme \<Rightarrow> 64 word \<Rightarrow> string \<Rightarrow> ('k sup, unit) prog" where
  "checkNotificationIdIsValid K nid tag =
     bnd (Capabilities.kcall (notif_id_valid K nid)) (\<lambda>ok. whenM (\<not> ok)
       (complainU ([TAB] @ ''S: notification ID check ('' @ tag @ ''): target has terminated!!!'' @ [NL])))"

definition store_path :: "string \<Rightarrow> 'k sup \<Rightarrow> 'k sup" where
  "store_path bs s = s\<lparr>path_buf := map Some bs @ drop (length bs) (path_buf s)\<rparr>"

text \<open>Whether the pathname is terminated.\<close>

definition getTargetPathname :: "('k, 'z) un_os_scheme \<Rightarrow> (int \<Rightarrow> string) \<Rightarrow> seccomp_notif \<Rightarrow> nat \<Rightarrow> ('k sup, bool) prog" where
  "getTargetPathname K strerror req len =
     andthen (ucall_or_exit strerror (mem_open K (snprintf PATH_MAX (''/proc/'' @ show_int (sint (nt_pid req)) @ ''/mem'')))
       ''Supervisor: open'')
    (andthen (checkNotificationIdIsValid K (nt_id req) ''post-open'')
    (bnd (\<lambda>s. case mem_pread K len (sd_args (nt_data req) 0) (ker s) of
        (Inl e, k) \<Rightarrow> (Inr None, s\<lparr>ker := k, errno := e\<rparr>)
      | (Inr bs, k) \<Rightarrow> (Inr (Some (take len bs)), s\<lparr>ker := k\<rparr>)) (\<lambda>r. case r of
        None \<Rightarrow> macro_errExit strerror ''Supervisor: pread''
      | Some bs \<Rightarrow>
          if bs = [] then complainU ([TAB] @ ''S: pread() of /proc/PID/mem returned 0 (EOF)'' @ [NL])
          else andthen (modify (store_path bs))
            (andthen (ucall_or_exit strerror (mem_close K) ''Supervisor: close-/proc/PID/mem'')
              (ret (NUL \<in> set bs))))))"

text \<open>The string at the start of a buffer; \<open>None\<close> if it runs into bytes never written or past the end.\<close>

fun c_string :: "char option list \<Rightarrow> string option" where
  "c_string [] = None"
| "c_string (None # _) = None"
| "c_string (Some c # b) = (if c = NUL then Some [] else map_option ((#) c) (c_string b))"

text \<open>\<^verbatim>\<open>strcmp(path, t) == 0\<close> reads the buffer only up to the first difference.\<close>

fun buf_equals :: "char option list \<Rightarrow> string \<Rightarrow> bool option" where
  "buf_equals [] t = None"
| "buf_equals (None # _) t = None"
| "buf_equals (Some c # b) [] = Some (c = NUL)"
| "buf_equals (Some c # b) (d # t) = (if c \<noteq> d then Some False else buf_equals b t)"

text \<open>The body of the answer: policy on the pathname.\<close>

definition answer_path ::
  "('k, 'z) un_os_scheme \<Rightarrow> (int \<Rightarrow> string) \<Rightarrow> seccomp_notif \<Rightarrow> string \<Rightarrow> ('k sup, seccomp_notif_resp) prog" where
  "answer_path K strerror req path =
     (let resp = \<lparr>rp_id = nt_id req, rp_val = 0, rp_error = 0, rp_flags = 0\<rparr>; mode = sd_args (nt_data req) 1 in
      if take 5 path = ''/tmp/'' then
        andthen (putsM ([TAB] @ ''S: executing: mkdir('' @ [CHR 34] @ path @ [CHR 34] @ '', '' @ show_oct_alt (unat mode) @ '')'' @ [NL]))
       (bnd (Capabilities.kcall (sv_mkdir K path (ucast mode))) (\<lambda>ok.
          if ok then andthen (putsM ([TAB] @ ''S: success! spoofed return = '' @ show_nat (length path) @ [NL]))
            (ret (resp\<lparr>rp_val := int (length path)\<rparr>))
          else bnd (gets errno) (\<lambda>e.
            andthen (putsM ([TAB] @ ''S: failure! (errno = '' @ show_int e @ ''; '' @ strerror e @ '')'' @ [NL]))
            (ret (resp\<lparr>rp_error := - e\<rparr>)))))
      else if take 2 path = ''./'' then
        andthen (putsM ([TAB] @ ''S: target can execute system call'' @ [NL]))
          (ret (resp\<lparr>rp_flags := SECCOMP_USER_NOTIF_FLAG_CONTINUE\<rparr>))
      else andthen (putsM ([TAB] @ ''S: spoofing error response ('' @ strerror EOPNOTSUPP @ '')'' @ [NL]))
          (ret (resp\<lparr>rp_error := - EOPNOTSUPP\<rparr>)))"

definition answer ::
  "('k, 'z) un_os_scheme \<Rightarrow> (int \<Rightarrow> string) \<Rightarrow> seccomp_notif \<Rightarrow> bool \<Rightarrow> ('k sup, seccomp_notif_resp) prog" where
  "answer K strerror req pathOK =
     (if \<not> pathOK then
        andthen (putsM ([TAB] @ ''S: spoofing error for invalid pathname ('' @ strerror EINVAL @ '')'' @ [NL]))
          (ret \<lparr>rp_id = nt_id req, rp_val = 0, rp_error = - EINVAL, rp_flags = 0\<rparr>)
      else bnd (gets (\<lambda>s. c_string (path_buf s))) (\<lambda>p. case p of
          None \<Rightarrow> stop Undef | Some path \<Rightarrow> answer_path K strerror req path))"

definition delay :: "('k, 'z) un_os_scheme \<Rightarrow> cmdLineOpts \<Rightarrow> seccomp_notif \<Rightarrow> ('k sup, unit) prog" where
  "delay K opts req = whenM (delaySecs opts > 0)
     (andthen (putsM ([TAB] @ ''S: delaying for '' @ show_int (delaySecs opts) @ '' seconds:''))
     (andthen (checkNotificationIdIsValid K (nt_id req) ''pre-delay'')
     (andthen (forM (rev [1..<Suc (nat (delaySecs opts))]) (\<lambda>d.
        andthen (putsM ('' '' @ show_nat d)) (modify (\<lambda>s. s\<lparr>ker := sleep1 K (ker s)\<rparr>))))
     (andthen (putsM [NL])
       (checkNotificationIdIsValid K (nt_id req) ''post-delay'')))))"

definition send_response :: "('k, 'z) un_os_scheme \<Rightarrow> (int \<Rightarrow> string) \<Rightarrow> seccomp_notif_resp \<Rightarrow> ('k sup, unit) prog" where
  "send_response K strerror resp =
     andthen (putsM ([TAB] @ ''S: sending response (flags = '' @ show_hex_alt (unat (rp_flags resp)) @ ''; val = '' @
       show_int (rp_val resp) @ ''; error = '' @ show_int (rp_error resp) @ '')'' @ [NL]))
    (bnd (Capabilities.kcall (notif_send K resp)) (\<lambda>ok. whenM (\<not> ok)
      (bnd (gets errno) (\<lambda>e.
        if e = ENOENT then putsM ([TAB] @ ''S: response failed with ENOENT; perhaps target process'' @ [CHR 39] @
          ''s syscall was interrupted by a signal?'' @ [NL])
        else modify (perror strerror ''ioctl-SECCOMP_IOCTL_NOTIF_SEND'')))))"

text \<open>One notification, from its arrival on.\<close>

definition handle_notif :: "('k, 'z) un_os_scheme \<Rightarrow> (int \<Rightarrow> string) \<Rightarrow> cmdLineOpts \<Rightarrow> seccomp_notif \<Rightarrow> ('k sup, unit) prog" where
  "handle_notif K strerror opts req =
     andthen (putsM ([TAB] @ ''S: got notification (ID '' @ show_hex_alt (unat (nt_id req)) @ '') for PID '' @
       show_int (sint (nt_pid req)) @ [NL]))
    (if sd_nr (nt_data req) \<noteq> NR_mkdir
     then andthen (putsM ([TAB] @ ''S: notification contained unexpected system call number; bye!!!'' @ [NL])) (exit3 EXIT_FAILURE)
     else andthen (delay K opts req)
      (bnd (getTargetPathname K strerror req PATH_MAX) (\<lambda>pathOK.
       bnd (answer K strerror req pathOK) (\<lambda>resp.
       andthen (send_response K strerror resp)
      (bnd (gets (\<lambda>s. buf_equals (path_buf s) ''/bye'')) (\<lambda>b. case b of
          None \<Rightarrow> stop Undef
        | Some True \<Rightarrow> andthen (putsM ([TAB] @ ''S: terminating **********'' @ [NL])) (exit3 EXIT_FAILURE)
        | Some False \<Rightarrow> ret ()))))))"

definition notif_pass :: "('k, 'z) un_os_scheme \<Rightarrow> (int \<Rightarrow> string) \<Rightarrow> cmdLineOpts \<Rightarrow> ('k sup, unit) prog" where
  "notif_pass K strerror opts s = (case notif_recv K (ker s) of
      (Inl e, k) \<Rightarrow> let s1 = s\<lparr>ker := k, errno := e\<rparr> in
        if e = EINTR then (Inr (), s1) else macro_errExit strerror ''Supervisor: ioctl-SECCOMP_IOCTL_NOTIF_RECV'' s1
    | (Inr req, k) \<Rightarrow> handle_notif K strerror opts req (s\<lparr>ker := k\<rparr>))"

text \<open>The loop ends only by the end of the process; \<open>None\<close> if it never does.\<close>

partial_function (option) notif_loop ::
  "('k, 'z) un_os_scheme \<Rightarrow> (int \<Rightarrow> string) \<Rightarrow> cmdLineOpts \<Rightarrow> 'k sup \<Rightarrow> (halt \<times> 'k sup) option" where
  "notif_loop K strerror opts s = (case notif_pass K strerror opts s of
      (Inl h, s1) \<Rightarrow> Some (h, s1)
    | (Inr _, s1) \<Rightarrow> notif_loop K strerror opts s1)"

definition notif_setup :: "('k, 'z) un_os_scheme \<Rightarrow> (int \<Rightarrow> string) \<Rightarrow> ('k sup, unit) prog" where
  "notif_setup K strerror =
     andthen (ucall_or_exit strerror (notif_sizes K) ''Supervisor: seccomp-SECCOMP_GET_NOTIF_SIZES'')
    (andthen (ucall_or_exit strerror (un_malloc K) ''Supervisor: malloc'')
      (ucall_or_exit strerror (un_malloc K) ''Supervisor: malloc''))"

definition handleNotifications ::
  "('k, 'z) un_os_scheme \<Rightarrow> (int \<Rightarrow> string) \<Rightarrow> cmdLineOpts \<Rightarrow> 'k sup \<Rightarrow> (halt \<times> 'k sup) option" where
  "handleNotifications K strerror opts s = (case notif_setup K strerror s of
      (Inl h, s1) \<Rightarrow> Some (h, s1)
    | (Inr _, s1) \<Rightarrow> notif_loop K strerror opts s1)"

section \<open>Passing a descriptor\<close>

definition SOL_SOCKET :: int where [const_defs]: "SOL_SOCKET = 1"
definition SCM_RIGHTS :: int where [const_defs]: "SCM_RIGHTS = 1"
definition CMSG_LEN_int :: int where [const_defs]: "CMSG_LEN_int = 20"

text \<open>A message: the integer of real data and the ancillary data, if there are any.\<close>

record cmsghdr =
  cmsg_len :: int
  cmsg_level :: int
  cmsg_type :: int
  cmsg_fd :: int

type_synonym scm_msg = "int \<times> cmsghdr option"

definition sendfd :: "(scm_msg \<Rightarrow> 'k \<Rightarrow> int option \<times> 'k) \<Rightarrow> int \<Rightarrow> (('k, 'z) kproc_scheme, bool) prog" where
  "sendfd sendmsg fd = Capabilities.kcall (sendmsg (12345,
     Some \<lparr>cmsg_len = CMSG_LEN_int, cmsg_level = SOL_SOCKET, cmsg_type = SCM_RIGHTS, cmsg_fd = fd\<rparr>))"

text \<open>\<open>None\<close> for -1.\<close>

definition recvfd :: "('k \<Rightarrow> (int + scm_msg) \<times> 'k) \<Rightarrow> (('k, 'z) kproc_scheme, int option) prog" where
  "recvfd recvmsg s = (case recvmsg (ker s) of
      (Inl e, k) \<Rightarrow> (Inr None, s\<lparr>ker := k, errno := e\<rparr>)
    | (Inr (_, ctl), k) \<Rightarrow> let s1 = s\<lparr>ker := k\<rparr> in (case ctl of
        None \<Rightarrow> (Inr None, s1\<lparr>errno := EINVAL\<rparr>)
      | Some c \<Rightarrow> if cmsg_len c \<noteq> CMSG_LEN_int \<or> cmsg_level c \<noteq> SOL_SOCKET \<or> cmsg_type c \<noteq> SCM_RIGHTS
          then (Inr None, s1\<lparr>errno := EINVAL\<rparr>) else (Inr (Some (cmsg_fd c)), s1)))"

section \<open>The target\<close>

record 'k tg_os =
  tg_pid :: int
  tg_sigaction :: "'k \<Rightarrow> int option \<times> 'k"
  tg_prctl :: "'k \<Rightarrow> int option \<times> 'k"
  tg_listener :: "sock_filter list \<Rightarrow> 'k \<Rightarrow> (int + int) \<times> 'k"
  tg_filter :: "sock_filter list \<Rightarrow> 'k \<Rightarrow> int option \<times> 'k"
  tg_sendmsg :: "scm_msg \<Rightarrow> 'k \<Rightarrow> int option \<times> 'k"
  tg_close :: "int \<Rightarrow> 'k \<Rightarrow> int option \<times> 'k"
  tg_mkdir :: "string \<Rightarrow> 32 word \<Rightarrow> 'k \<Rightarrow> (int + int) \<times> 'k"

definition installNotifyFilter :: "'k tg_os \<Rightarrow> (int \<Rightarrow> string) \<Rightarrow> ('k kproc, int) prog" where
  "installNotifyFilter K strerror s = (case tg_listener K notify_filter (ker s) of
      (Inl e, k) \<Rightarrow> macro_errExit strerror ''seccomp-install-notify-filter'' (s\<lparr>ker := k, errno := e\<rparr>)
    | (Inr fd, k) \<Rightarrow> (Inr fd, s\<lparr>ker := k\<rparr>))"

definition installFilter2 :: "'k tg_os \<Rightarrow> (int \<Rightarrow> string) \<Rightarrow> cmdLineOpts \<Rightarrow> ('k kproc, unit) prog" where
  "installFilter2 K strerror opts = ucall_or_exit strerror (tg_filter K (filter2 opts)) ''seccomp-install-filter-2''"

definition closeSocketPair ::
  "(int \<Rightarrow> 'k \<Rightarrow> int option \<times> 'k) \<Rightarrow> (int \<Rightarrow> string) \<Rightarrow> int \<times> int \<Rightarrow> (('k, 'z) kproc_scheme, unit) prog" where
  "closeSocketPair close strerror sockPair =
     andthen (ucall_or_exit strerror (close (fst sockPair)) ''closeSocketPair-close-0'')
       (ucall_or_exit strerror (close (snd sockPair)) ''closeSocketPair-close-1'')"

text \<open>One \<^verbatim>\<open>mkdir\<close> of the target and its report.\<close>

definition target_mkdir :: "'k tg_os \<Rightarrow> (int \<Rightarrow> string) \<Rightarrow> string \<Rightarrow> ('k kproc, unit) prog" where
  "target_mkdir K strerror ap =
     andthen (putsM ([NL] @ ''T: about to mkdir('' @ [CHR 34] @ ap @ [CHR 34] @ '')'' @ [NL]))
    (bnd (\<lambda>s. case tg_mkdir K ap 0x1C0 (ker s) of
        (Inl e, k) \<Rightarrow> (Inr (- 1), s\<lparr>ker := k, errno := e\<rparr>)
      | (Inr v, k) \<Rightarrow> (Inr v, s\<lparr>ker := k\<rparr>)) (\<lambda>r.
      if r = - 1 then modify (perror strerror ''T: ERROR: mkdir(2)'')
      else putsM (''T: SUCCESS: mkdir(2) returned '' @ show_int r @ [NL])))"

definition targetProcess ::
  "'k tg_os \<Rightarrow> (int \<Rightarrow> string) \<Rightarrow> int \<times> int \<Rightarrow> string list \<Rightarrow> cmdLineOpts \<Rightarrow> ('k kproc, unit) prog" where
  "targetProcess K strerror sockPair argv opts =
     andthen (putsM (''T: PID = '' @ show_int (tg_pid K) @ [NL]))
    (andthen (ucall_or_exit strerror (tg_sigaction K) ''sigaction'')
    (andthen (ucall_or_exit strerror (tg_prctl K) ''prctl'')
    (bnd (installNotifyFilter K strerror) (\<lambda>notifyFd.
     andthen (whenM (secondFilter opts \<noteq> None) (installFilter2 K strerror opts))
    (bnd (sendfd (tg_sendmsg K) notifyFd) (\<lambda>ok.
     andthen (whenM (\<not> ok) (macro_errExit strerror ''sendfd''))
    (andthen (ucall_or_exit strerror (tg_close K notifyFd) ''close-target-notify-fd'')
    (andthen (closeSocketPair (tg_close K) strerror sockPair)
    (andthen (forM argv (target_mkdir K strerror))
    (andthen (putsM ([NL] @ ''T: terminating'' @ [NL]))
      (exit3 EXIT_SUCCESS)))))))))))"

section \<open>Options and the main program\<close>

definition un_usageError :: "string \<Rightarrow> string \<Rightarrow> ('a proc_io_scheme, 'b) prog" where
  "un_usageError msg pname =
     bnd (forM [msg @ [NL], ''Usage: '' @ pname @ '' [options] <dir> <dir>...'' @ [NL], ''      Options'' @ [NL],
       ''      -d <nsecs>    Supervisor delays '' @ [CHR 39] @ ''nsecs'' @ [CHR 39] @ '' before inspecting target'' @ [NL],
       ''      -f <val>      Install second filter whose return value is:'' @ [NL],
       ''                    '' @ [CHR 39] @ ''e'' @ [CHR 39] @ '' - SECCOMP_RET_ERRNO'' @ [NL],
       ''                    '' @ [CHR 39] @ ''t'' @ [CHR 39] @ '' - SECCOMP_RET_TRACE'' @ [NL]] (\<lambda>l. modify (fputs_stderr l)))
       (\<lambda>_. exit3 EXIT_FAILURE)"

definition un_option :: "string \<Rightarrow> getopt_result \<Rightarrow> cmdLineOpts \<Rightarrow> ('a proc_io_scheme, cmdLineOpts) prog" where
  "un_option pname r opts = (case r of
      Opt c (Some optarg) \<Rightarrow>
        if c = CHR ''f'' then
          (if take 1 optarg = ''e'' then ret (opts\<lparr>secondFilter := Some SECCOMP_RET_ERRNO\<rparr>)
           else if take 1 optarg = ''t'' then ret (opts\<lparr>secondFilter := Some SECCOMP_RET_TRACE\<rparr>)
           else un_usageError ''Bad value for -f'' pname)
        else if c = CHR ''d'' then ret (opts\<lparr>delaySecs := atoi optarg\<rparr>)
        else un_usageError ''Bad option'' pname
    | _ \<Rightarrow> bnd (modify (fputs_stderr (getopt_message pname r))) (\<lambda>_. un_usageError ''Bad option'' pname))"

primrec un_options :: "string \<Rightarrow> getopt_result list \<Rightarrow> cmdLineOpts \<Rightarrow> ('a proc_io_scheme, cmdLineOpts) prog" where
  "un_options pname [] opts = ret opts"
| "un_options pname (r # rs) opts = bnd (un_option pname r opts) (un_options pname rs)"

definition parseCommandLineOptions :: "string \<Rightarrow> string list \<Rightarrow> ('a proc_io_scheme, cmdLineOpts \<times> string list) prog" where
  "parseCommandLineOptions pname args = (case getopt ''d:f:'' args of (rs, operands) \<Rightarrow>
     bnd (un_options pname rs \<lparr>delaySecs = 0, secondFilter = None\<rparr>) (\<lambda>opts.
     if operands = [] then un_usageError ''At least one pathname argument should be supplied'' pname
     else ret (opts, operands)))"

text \<open>Asynchronously, when the target has ended.\<close>

definition sigchldHandler :: "('k sup, unit) prog" where
  "sigchldHandler s = (Inl (UExit EXIT_SUCCESS),
     s\<lparr>stdout_out := stdout_out s @ [TAB] @ ''S: target has terminated; bye'' @ [NL]\<rparr>)"

record 'k main_os = "'k un_os" +
  k_socketpair :: "'k \<Rightarrow> (int + int \<times> int) \<times> 'k"
  k_fork :: "'k \<Rightarrow> int option \<times> 'k"
  sv_sigaction :: "'k \<Rightarrow> int option \<times> 'k"
  sv_recvmsg :: "'k \<Rightarrow> (int + scm_msg) \<times> 'k"
  sv_close :: "int \<Rightarrow> 'k \<Rightarrow> int option \<times> 'k"

text \<open>The parent up to the loop: the options, the pathnames, and the descriptor received from the target.\<close>

definition supervisor_start ::
  "('k, 'z) main_os_scheme \<Rightarrow> (int \<Rightarrow> string) \<Rightarrow> string \<Rightarrow> string list \<Rightarrow> ('k sup, cmdLineOpts \<times> string list \<times> int) prog" where
  "supervisor_start K strerror pname args =
     bnd (parseCommandLineOptions pname args) (\<lambda>(opts, dirs).
     bnd (\<lambda>s. case k_socketpair K (ker s) of
         (Inl e, k) \<Rightarrow> macro_errExit strerror ''socketpair'' (s\<lparr>ker := k, errno := e\<rparr>)
       | (Inr sp, k) \<Rightarrow> (Inr sp, s\<lparr>ker := k\<rparr>)) (\<lambda>sockPair.
     andthen (ucall_or_exit strerror (k_fork K) ''fork'')
    (andthen (ucall_or_exit strerror (sv_sigaction K) ''sigaction'')
    (bnd (recvfd (sv_recvmsg K)) (\<lambda>r. case r of
        None \<Rightarrow> macro_errExit strerror ''Supervisor: recvfd''
      | Some notifyFd \<Rightarrow> andthen (closeSocketPair (sv_close K) strerror sockPair)
          (ret (opts, dirs, notifyFd)))))))"

definition un_main ::
  "('k, 'z) main_os_scheme \<Rightarrow> (int \<Rightarrow> string) \<Rightarrow> string \<Rightarrow> string list \<Rightarrow> 'k sup \<Rightarrow> (halt \<times> 'k sup) option" where
  "un_main K strerror pname args s = (case supervisor_start K strerror pname args s of
      (Inl h, s1) \<Rightarrow> Some (h, s1)
    | (Inr (opts, _, _), s1) \<Rightarrow> handleNotifications K strerror opts s1)"

lemma recvfd_sendfd:
  assumes "sendfd (\<lambda>m q. (None, q @ [m])) fd s = (Inr True, s1)" "ker s = []" "ker s2 = ker s1"
  shows "fst (recvfd (\<lambda>q. case q of [] \<Rightarrow> (Inl EAGAIN, []) | m # q \<Rightarrow> (Inr m, q)) s2) = Inr (Some fd)"
  using assms by (auto simp: sendfd_def Capabilities.kcall_def recvfd_def)

section \<open>What the filters decide\<close>

lemma ret_plus: "BPF_RET + BPF_K = BPF_RET OR BPF_K"
  by (simp add: bpf_defs)

lemma notify_decision:
  "decides notify_filter sd = Some (if \<not> native sd then SECCOMP_RET_KILL_PROCESS
     else if sd_nr sd = NR_mkdir then SECCOMP_RET_USER_NOTIF else SECCOMP_RET_ALLOW)"
  by (auto simp: decides_def notify_filter_def X86_64_CHECK_ARCH_AND_LOAD_SYSCALL_NR_def ret_plus bpf_exec native_alt not_less)

lemma filter2_decision:
  "decides (filter2 opts) sd = Some (if \<not> native sd then SECCOMP_RET_KILL_PROCESS
     else if sd_nr sd \<noteq> NR_mkdir then SECCOMP_RET_ALLOW
     else if secondFilter opts = Some SECCOMP_RET_ERRNO then SECCOMP_RET_ERRNO OR ENOTSUP else SECCOMP_RET_TRACE)"
  by (auto simp: decides_def filter2_def Let_def X86_64_CHECK_ARCH_AND_LOAD_SYSCALL_NR_def ret_plus bpf_exec native_alt not_less)

text \<open>All filters of a process are run, and the action of highest precedence counts: the one with the least value, read
  as a signed number (\<^verbatim>\<open>seccomp(2)\<close>).\<close>

definition action :: "32 word \<Rightarrow> int" where
  "action v = sint (v AND 0xffff0000)"

definition strictest :: "32 word \<Rightarrow> 32 word \<Rightarrow> 32 word" where
  "strictest v w = (if action w < action v then w else v)"

definition decides_all :: "sock_filter list list \<Rightarrow> seccomp_data \<Rightarrow> 32 word option" where
  "decides_all fs sd = fold (\<lambda>f acc. case (acc, decides f sd) of (Some v, Some w) \<Rightarrow> Some (strictest v w) | _ \<Rightarrow> None)
     fs (Some SECCOMP_RET_ALLOW)"

text \<open>The filters the target installs, in the order of installation.\<close>

definition target_filters :: "cmdLineOpts \<Rightarrow> sock_filter list list" where
  "target_filters opts = notify_filter # (if secondFilter opts \<noteq> None then [filter2 opts] else [])"

lemma actions:
  "action SECCOMP_RET_ALLOW = 0x7fff0000" "action SECCOMP_RET_USER_NOTIF = 0x7fc00000" "action SECCOMP_RET_TRACE = 0x7ff00000"
  "action (SECCOMP_RET_ERRNO OR ENOTSUP) = 0x50000" "action SECCOMP_RET_KILL_PROCESS = - 0x80000000"
  by (simp_all add: action_def sec_consts)

text \<open>The filters of the target together, on all data: with the option \<^verbatim>\<open>-f e\<close> a native \<^verbatim>\<open>mkdir\<close> fails with \<^verbatim>\<open>ENOTSUP\<close> without
  a notification, with \<^verbatim>\<open>-f t\<close> or without the option it is notified; other native calls are allowed, and any
  call that is not native kills the process.\<close>

theorem target_filters_decide:
  "decides_all (target_filters opts) sd = Some
     (if \<not> (sd_arch sd = AUDIT_ARCH_X86_64 \<and> unat (sd_nr sd) < 2 ^ 30) then SECCOMP_RET_KILL_PROCESS
      else if sd_nr sd \<noteq> 83 then SECCOMP_RET_ALLOW
      else if secondFilter opts = Some SECCOMP_RET_ERRNO then SECCOMP_RET_ERRNO OR ENOTSUP
      else SECCOMP_RET_USER_NOTIF)"
  unfolding native_def [symmetric]
  by (auto simp: decides_all_def target_filters_def notify_decision filter2_decision strictest_def actions NR_mkdir_def)

section \<open>Computations of the supervisor\<close>

text \<open>\<open>does m s r k b\<close>: \<open>m\<close> ends with \<open>r\<close>, the kernel in \<open>k\<close> and the buffer as \<open>b\<close>.\<close>

definition does :: "('k sup, 'a) prog \<Rightarrow> 'k sup \<Rightarrow> halt + 'a \<Rightarrow> 'k \<Rightarrow> char option list \<Rightarrow> bool" where
  "does m s r k b \<longleftrightarrow> (\<exists>s'. m s = (r, s') \<and> ker s' = k \<and> path_buf s' = b)"

lemma does_bnd:
  assumes "does m s (Inr x) k b" "\<And>s'. ker s' = k \<Longrightarrow> path_buf s' = b \<Longrightarrow> does (f x) s' r k' b'"
  shows "does (bnd m f) s r k' b'"
  using assms unfolding does_def by (fastforce simp: bnd_apply)

lemma does_andthen:
  "does m s (Inr x) k b \<Longrightarrow> (\<And>s'. ker s' = k \<Longrightarrow> path_buf s' = b \<Longrightarrow> does c s' r k' b') \<Longrightarrow> does (andthen m c) s r k' b'"
  unfolding andthen_def by (rule does_bnd)

lemma does_ret: "does (ret x) s (Inr x) (ker s) (path_buf s)"
  by (simp add: does_def)

lemma does_gets: "does (gets f) s (Inr (f s)) (ker s) (path_buf s)"
  by (simp add: does_def)

lemma path_buf_noise [simp]: "path_buf (stdio_noise s) = path_buf s"
  by (auto simp: stdio_noise_def split: option.splits)

lemma does_puts: "does (putsM t) s (Inr ()) (ker s) (path_buf s)"
  by (simp add: does_def putsM_def)

lemma does_exit: "does (exit3 n) s (Inl (Exit n)) (ker s) (path_buf s)"
  by (simp add: does_def exit3_def fflush_stdout_def)

lemma does_call: "f (ker s) = (None, k) \<Longrightarrow> does (Capabilities.kcall f) s (Inr True) k (path_buf s)"
  by (simp add: does_def Capabilities.kcall_def)

lemma does_call_fails:
  "f (ker s) = (Some e, k) \<Longrightarrow> (\<And>s'. ker s' = k \<Longrightarrow> path_buf s' = path_buf s \<Longrightarrow> errno s' = e \<Longrightarrow> does (g False) s' r k' b') \<Longrightarrow>
    does (bnd (Capabilities.kcall f) g) s r k' b'"
  by (auto simp: does_def Capabilities.kcall_def bnd_apply)

lemma does_call_or_exit: "f (ker s) = (None, k) \<Longrightarrow> does (ucall_or_exit strerror f msg) s (Inr ()) k (path_buf s)"
  unfolding ucall_or_exit_def by (rule does_bnd, erule does_call) (simp add: does_def)

lemma does_loop:
  "(\<And>x s. does (f x) s (Inr ()) (ker s) (path_buf s)) \<Longrightarrow> does (forM xs f) s (Inr ()) (ker s) (path_buf s)"
proof (induction xs arbitrary: s)
  case Nil
  then show ?case unfolding forM.simps by (intro does_ret)
next
  case (Cons x xs)
  show ?case
    unfolding forM.simps
  proof (rule does_andthen [OF Cons.prems])
    fix s' :: "'b sup"
    assume "ker s' = ker s" "path_buf s' = path_buf s"
    then show "does (forM xs f) s' (Inr ()) (ker s) (path_buf s)" using Cons.IH [OF Cons.prems, of s'] by simp
  qed
qed

section \<open>Target and supervisor together\<close>

text \<open>A kernel as \<^verbatim>\<open>seccomp_unotify(2)\<close> describes it: a pending notification, the response to it, and the memory of
  the target: its bytes from the address \<open>maddr\<close> on. The file \<^verbatim>\<open>/proc/PID/mem\<close> of the target, and only that, can be
  opened, and it is read at an address; other addresses are not mapped. What \<^verbatim>\<open>mkdir\<close> does to the file system, in
  the supervisor (\<open>mkS\<close>) and in the target (\<open>mkT\<close>), is an argument.\<close>

record 'f nkern =
  slot :: "seccomp_notif option"
  response :: "seccomp_notif_resp option"
  next_id :: "64 word"
  tpid :: "32 word"
  maddr :: "64 word"
  tmem :: string
  memfd :: bool
  fsys :: 'f

type_synonym 'f mk = "string \<Rightarrow> 32 word \<Rightarrow> 'f \<Rightarrow> int option \<times> 'f"

definition nk_open :: "string \<Rightarrow> 'f nkern \<Rightarrow> int option \<times> 'f nkern" where
  "nk_open p k = (if p = ''/proc/'' @ show_int (sint (tpid k)) @ ''/mem'' then (None, k\<lparr>memfd := True\<rparr>) else (Some ENOENT, k))"

definition nk_pread :: "nat \<Rightarrow> 64 word \<Rightarrow> 'f nkern \<Rightarrow> (int + string) \<times> 'f nkern" where
  "nk_pread n a k = (if \<not> memfd k then Inl EBADF else if a \<noteq> maddr k then Inl EIO else Inr (take n (tmem k)), k)"

definition nk_close :: "'f nkern \<Rightarrow> int option \<times> 'f nkern" where
  "nk_close k = (if memfd k then None else Some EBADF, k\<lparr>memfd := False\<rparr>)"

definition nk_os :: "'f mk \<Rightarrow> 'f nkern un_os" where
  "nk_os mkS = \<lparr>notif_sizes = \<lambda>k. (None, k), un_malloc = \<lambda>k. (None, k),
     notif_recv = \<lambda>k. (case slot k of None \<Rightarrow> (Inl ENOENT, k) | Some req \<Rightarrow> (Inr req, k)),
     notif_id_valid = \<lambda>i k. (case slot k of Some req \<Rightarrow> (if nt_id req = i then None else Some ENOENT, k) | None \<Rightarrow> (Some ENOENT, k)),
     notif_send = \<lambda>rp k. (case slot k of Some req \<Rightarrow> if nt_id req = rp_id rp then (None, k\<lparr>slot := None, response := Some rp\<rparr>)
         else (Some ENOENT, k) | None \<Rightarrow> (Some ENOENT, k)),
     mem_open = nk_open, mem_pread = nk_pread, mem_close = nk_close,
     sv_mkdir = \<lambda>p m k. (case mkS p m (fsys k) of (r, f) \<Rightarrow> (r, k\<lparr>fsys := f\<rparr>)), sleep1 = \<lambda>k. k\<rparr>"

text \<open>The data of a native \<^verbatim>\<open>mkdir(a, m)\<close>, with the pathname at address \<open>a\<close>, and its notification, by the target with
  PID \<open>pid\<close>. The memory from \<open>a\<close> on holds the pathname and, after its null byte, anything.\<close>

definition mkdir_data :: "64 word \<Rightarrow> 32 word \<Rightarrow> seccomp_data" where
  "mkdir_data a m = \<lparr>sd_nr = NR_mkdir, sd_arch = AUDIT_ARCH_X86_64, sd_ip = 0,
     sd_args = \<lambda>j. if j = 0 then a else if j = 1 then ucast m else 0\<rparr>"

definition mkdir_notif :: "64 word \<Rightarrow> 32 word \<Rightarrow> 64 word \<Rightarrow> 32 word \<Rightarrow> seccomp_notif" where
  "mkdir_notif i pid a m = \<lparr>nt_id = i, nt_pid = pid, nt_data = mkdir_data a m\<rparr>"

definition post :: "32 word \<Rightarrow> 64 word \<Rightarrow> string \<Rightarrow> 32 word \<Rightarrow> string \<Rightarrow> 'f nkern \<Rightarrow> 'f nkern" where
  "post pid a junk m p k = k\<lparr>slot := Some (mkdir_notif (next_id k) pid a m), response := None, next_id := next_id k + 1,
     tpid := pid, maddr := a, tmem := p @ NUL # junk\<rparr>"

text \<open>A notified \<^verbatim>\<open>mkdir\<close> of the target, answered by the supervisor; once that has ended, the kernel answers \<^verbatim>\<open>ENOSYS\<close>.\<close>

definition run_mkdir :: "'f mk \<Rightarrow> string \<Rightarrow> 32 word \<Rightarrow> 'f nkern \<Rightarrow> (int + int) \<times> 'f nkern" where
  "run_mkdir mkT p m k = (case mkT p m (fsys k) of (r, f) \<Rightarrow> (case r of None \<Rightarrow> Inr 0 | Some e \<Rightarrow> Inl e, k\<lparr>fsys := f\<rparr>))"

definition finish_mkdir :: "'f mk \<Rightarrow> string \<Rightarrow> 32 word \<Rightarrow> 'f nkern \<Rightarrow> (int + int) \<times> 'f nkern" where
  "finish_mkdir mkT p m k = (case response k of
      None \<Rightarrow> (Inl ENOSYS, k)
    | Some rp \<Rightarrow>
        if rp_flags rp AND SECCOMP_USER_NOTIF_FLAG_CONTINUE \<noteq> 0 then run_mkdir mkT p m k
        else if rp_error rp \<noteq> 0 then (Inl (- rp_error rp), k) else (Inr (rp_val rp), k))"

text \<open>The supervisor process: its state and how it ended, if it did. \<open>at\<close> says where in the memory of the target a
  pathname lies.\<close>

type_synonym 'f sproc = "'f nkern sup \<times> halt option"

definition served_mkdir ::
  "'f mk \<Rightarrow> 'f mk \<Rightarrow> (int \<Rightarrow> string) \<Rightarrow> cmdLineOpts \<Rightarrow> 32 word \<Rightarrow> (string \<Rightarrow> 64 word) \<Rightarrow> string \<Rightarrow> string \<Rightarrow> 32 word
     \<Rightarrow> 'f sproc \<Rightarrow> (int + int) \<times> 'f sproc" where
  "served_mkdir mkS mkT strerror opts pid at junk p m S = (case S of
      (s, Some h) \<Rightarrow> (Inl ENOSYS, S)
    | (s, None) \<Rightarrow> (case notif_pass (nk_os mkS) strerror opts (s\<lparr>ker := post pid (at p) junk m p (ker s)\<rparr>) of
        (r, s2) \<Rightarrow> (case finish_mkdir mkT p m (ker s2) of
          (v, k) \<Rightarrow> (v, s2\<lparr>ker := k\<rparr>, case r of Inl h \<Rightarrow> Some h | Inr _ \<Rightarrow> None))))"

text \<open>The policy.\<close>

definition verdict :: "'f mk \<Rightarrow> 'f mk \<Rightarrow> string \<Rightarrow> 'f \<Rightarrow> (int + int) \<times> 'f" where
  "verdict mkS mkT p f =
     (if length p \<ge> 4096 then (Inl EINVAL, f)
      else if take 5 p = ''/tmp/'' then (case mkS p 0x1C0 f of (None, f') \<Rightarrow> (Inr (int (length p)), f') | (Some e, f') \<Rightarrow> (Inl e, f'))
      else if take 2 p = ''./'' then (case mkT p 0x1C0 f of (None, f') \<Rightarrow> (Inr 0, f') | (Some e, f') \<Rightarrow> (Inl e, f'))
      else (Inl EOPNOTSUPP, f))"

primrec serve :: "'f mk \<Rightarrow> 'f mk \<Rightarrow> string list \<Rightarrow> 'f \<Rightarrow> (int + int) list \<times> 'f" where
  "serve mkS mkT [] f = ([], f)"
| "serve mkS mkT (p # ps) f = (case verdict mkS mkT p f of (r, f1) \<Rightarrow>
     (case (if p = ''/bye'' then (map (\<lambda>_. Inl ENOSYS) ps, f1) else serve mkS mkT ps f1) of (rs, f2) \<Rightarrow> (r # rs, f2)))"

text \<open>With the second filter of \<^verbatim>\<open>-f e\<close> there is no notification, and every call fails.\<close>

definition outcome :: "cmdLineOpts \<Rightarrow> 'f mk \<Rightarrow> 'f mk \<Rightarrow> string list \<Rightarrow> 'f \<Rightarrow> (int + int) list \<times> 'f" where
  "outcome opts mkS mkT ps f =
     (if secondFilter opts = Some SECCOMP_RET_ERRNO then (map (\<lambda>_. Inl 95) ps, f) else serve mkS mkT ps f)"

lemma posted [simp]:
  "slot (post pid a junk m p k) = Some (mkdir_notif (next_id k) pid a m)" "tmem (post pid a junk m p k) = p @ NUL # junk"
  "fsys (post pid a junk m p k) = fsys k" "response (post pid a junk m p k) = None" "memfd (post pid a junk m p k) = memfd k"
  "tpid (post pid a junk m p k) = pid" "maddr (post pid a junk m p k) = a"
  by (simp_all add: post_def)

lemma mkdir_notif_sel [simp]:
  "nt_id (mkdir_notif i pid a m) = i" "nt_pid (mkdir_notif i pid a m) = pid" "sd_nr (nt_data (mkdir_notif i pid a m)) = NR_mkdir"
  "sd_args (nt_data (mkdir_notif i pid a m)) 0 = a" "sd_args (nt_data (mkdir_notif i pid a m)) (Suc 0) = ucast m"
  by (simp_all add: mkdir_notif_def mkdir_data_def)

lemma nk_calls:
  "notif_id_valid (nk_os mkS) i k = (if \<exists>req. slot k = Some req \<and> nt_id req = i then None else Some ENOENT, k)"
  "mem_open (nk_os mkS) = nk_open" "mem_close (nk_os mkS) = nk_close" "mem_pread (nk_os mkS) = nk_pread"
  by (auto simp: nk_os_def split: option.splits)

lemma ucall_same: "f (ker s) = (None, ker s) \<Longrightarrow> ucall_or_exit strerror f msg s = (Inr (), s)"
  by (simp add: ucall_or_exit_def Capabilities.kcall_def bnd_apply)

lemma check_same:
  "slot (ker s) = Some req \<Longrightarrow> nt_id req = i \<Longrightarrow> checkNotificationIdIsValid (nk_os mkS) i tag s = (Inr (), s)"
  by (simp add: checkNotificationIdIsValid_def Capabilities.kcall_def bnd_apply nk_calls)

lemma does_check:
  assumes "slot (ker s) = Some req" "nt_id req = i"
  shows "does (checkNotificationIdIsValid (nk_os mkS) i tag) s (Inr ()) (ker s) (path_buf s)"
  using check_same [OF assms] by (simp add: does_def)

lemma does_delay:
  assumes "slot (ker s) = Some req"
  shows "does (delay (nk_os mkS) opts req) s (Inr ()) (ker s) (path_buf s)"
proof (cases "delaySecs opts > 0")
  case True
  have tick: "does (andthen (putsM ('' '' @ show_nat d)) (modify (\<lambda>s. s\<lparr>ker := sleep1 (nk_os mkS) (ker s)\<rparr>))) s' (Inr ()) (ker s') (path_buf s')"
    for d and s' :: "'a nkern sup"
    by (simp add: does_def putsM_def nk_os_def)
  have check: "does (checkNotificationIdIsValid (nk_os mkS) (nt_id req) tag) s' (Inr ()) (ker s) (path_buf s)"
    if "ker s' = ker s" "path_buf s' = path_buf s" for s' tag
    using does_check [of s' req "nt_id req" mkS tag] assms that by simp
  have puts: "does (putsM t) s' (Inr ()) (ker s) (path_buf s)" if "ker s' = ker s" "path_buf s' = path_buf s" for s' :: "'a nkern sup" and t
    using does_puts [of t s'] that by simp
  have loop: "does (forM xs (\<lambda>d. andthen (putsM ('' '' @ show_nat d)) (modify (\<lambda>s. s\<lparr>ker := sleep1 (nk_os mkS) (ker s)\<rparr>)))) s'
      (Inr ()) (ker s) (path_buf s)" if "ker s' = ker s" "path_buf s' = path_buf s" for s' and xs :: "nat list"
    using does_loop [of _ xs s', OF tick] that by simp
  show ?thesis
    unfolding delay_def whenM_def if_P [OF True]
    by (rule does_andthen [OF puts], simp, simp, rule does_andthen [OF check], assumption, assumption,
        rule does_andthen [OF loop], assumption, assumption, rule does_andthen [OF puts], assumption, assumption, rule check)
qed (simp add: delay_def does_def)

lemma mem_path: "snprintf PATH_MAX (''/proc/'' @ show_int (sint (pid :: 32 word)) @ ''/mem'') = ''/proc/'' @ show_int (sint pid) @ ''/mem''"
  using show_int_word [of pid] by (simp add: snprintf_def PATH_MAX_def)

lemma path_read:
  assumes slot: "slot (ker s) = Some req" and ne: "tmem (ker s) \<noteq> []" and closed: "\<not> memfd (ker s)"
    and req: "nt_pid req = tpid (ker s)" "sd_args (nt_data req) 0 = maddr (ker s)"
  shows "getTargetPathname (nk_os mkS) strerror req PATH_MAX s =
    (Inr (NUL \<in> set (take PATH_MAX (tmem (ker s)))), store_path (take PATH_MAX (tmem (ker s))) s)"
proof -
  define s1 where "s1 = s\<lparr>ker := (ker s)\<lparr>memfd := True\<rparr>\<rparr>"
  have ne': "take PATH_MAX (tmem (ker s)) \<noteq> []" using ne by (simp add: const_defs)
  have op: "ucall_or_exit strerror (mem_open (nk_os mkS) (snprintf PATH_MAX (''/proc/'' @ show_int (sint (nt_pid req)) @ ''/mem'')))
      ''Supervisor: open'' s = (Inr (), s1)"
    by (simp only: mem_path nk_calls) (simp add: ucall_or_exit_def Capabilities.kcall_def bnd_apply nk_open_def req(1) s1_def)
  have chk: "checkNotificationIdIsValid (nk_os mkS) (nt_id req) tag s1 = (Inr (), s1)" for tag
    by (rule check_same [of _ req]) (simp_all add: s1_def slot)
  have pread: "mem_pread (nk_os mkS) PATH_MAX (sd_args (nt_data req) 0) (ker s1) =
      (Inr (take PATH_MAX (tmem (ker s))), ker s1)"
    by (simp add: nk_calls nk_pread_def s1_def req(2))
  have cl: "ucall_or_exit strerror (mem_close (nk_os mkS)) msg (store_path b s1) = (Inr (), store_path b s)" for b msg
    using closed by (simp add: ucall_or_exit_def Capabilities.kcall_def bnd_apply nk_calls nk_close_def store_path_def s1_def)
  have same: "s1\<lparr>ker := ker s1\<rparr> = s1" by simp
  show ?thesis
    unfolding getTargetPathname_def andthen_def bnd_Inr [of "ucall_or_exit _ _ _", OF op] bnd_Inr [of "checkNotificationIdIsValid _ _ _", OF chk]
    using ne' by (simp add: bnd_apply pread same cl del: take_eq_Nil)
qed

text \<open>The string found in the buffer.\<close>

lemma c_string_stored: "NUL \<notin> set p \<Longrightarrow> c_string (map Some p @ Some NUL # b) = Some p"
  by (induction p) auto

lemma buf_equals_stored: "NUL \<notin> set p \<Longrightarrow> NUL \<notin> set t \<Longrightarrow> buf_equals (map Some p @ Some NUL # b) t = Some (p = t)"
proof (induction p arbitrary: t)
  case Nil
  then show ?case by (cases t) auto
next
  case (Cons c p)
  then show ?case by (cases t) auto
qed

lemma buf_equals_long: "length t < length p \<Longrightarrow> NUL \<notin> set p \<Longrightarrow> buf_equals (map Some p @ b) t = Some False"
proof (induction p arbitrary: t)
  case (Cons c p)
  then show ?case by (cases t) auto
qed simp

lemma buf_equals_unwritten:
  "NUL \<notin> set p \<Longrightarrow> buf_equals (map Some p @ None # b) t = (if p = take (length p) t then None else Some False)"
proof (induction p arbitrary: t)
  case (Cons c p)
  then show ?case by (cases t) auto
qed simp

text \<open>The buffer after a pathname \<open>p\<close> was read.\<close>

lemma path_stored:
  assumes "NUL \<notin> set p"
  shows "NUL \<in> set (take PATH_MAX (p @ NUL # junk)) \<longleftrightarrow> length p < PATH_MAX"
    and "length p < PATH_MAX \<Longrightarrow> \<exists>b. path_buf (store_path (take PATH_MAX (p @ NUL # junk)) s) = map Some p @ Some NUL # b"
    and "buf_equals (path_buf (store_path (take PATH_MAX (p @ NUL # junk)) s)) ''/bye'' = Some (p = ''/bye'')"
proof -
  have short: "take PATH_MAX (p @ NUL # junk) = p @ NUL # take (PATH_MAX - length p - 1) junk" if "length p < PATH_MAX"
    using that by (cases "PATH_MAX - length p") auto
  show "NUL \<in> set (take PATH_MAX (p @ NUL # junk)) \<longleftrightarrow> length p < PATH_MAX"
    using assms short by (cases "length p < PATH_MAX") (auto dest: in_set_takeD)
  show st: "\<exists>b. path_buf (store_path (take PATH_MAX (p @ NUL # junk)) s) = map Some p @ Some NUL # b" if "length p < PATH_MAX"
    using short [OF that] by (simp add: store_path_def)
  have nul: "NUL \<notin> set ''/bye''" by (simp add: NUL_def)
  show "buf_equals (path_buf (store_path (take PATH_MAX (p @ NUL # junk)) s)) ''/bye'' = Some (p = ''/bye'')"
  proof (cases "length p < PATH_MAX")
    case True
    then obtain b where "path_buf (store_path (take PATH_MAX (p @ NUL # junk)) s) = map Some p @ Some NUL # b" using st by blast
    then show ?thesis using buf_equals_stored [OF assms nul] by simp
  next
    case False
    then have "NUL \<notin> set (take PATH_MAX p)" "length ''/bye'' < length (take PATH_MAX p)" "p \<noteq> ''/bye''"
      using assms by (auto simp: const_defs dest: in_set_takeD)
    then show ?thesis
      using False buf_equals_long [of "''/bye''" "take PATH_MAX p"] by (simp add: store_path_def)
  qed
qed

text \<open>The response to a pathname, and the file system after it.\<close>

definition reply :: "'f mk \<Rightarrow> 32 word \<Rightarrow> string \<Rightarrow> 64 word \<Rightarrow> 'f \<Rightarrow> seccomp_notif_resp \<times> 'f" where
  "reply mkS m p i f =
     (let resp = \<lparr>rp_id = i, rp_val = 0, rp_error = 0, rp_flags = 0\<rparr> in
      if length p \<ge> PATH_MAX then (resp\<lparr>rp_error := - EINVAL\<rparr>, f)
      else if take 5 p = ''/tmp/'' then (case mkS p m f of
          (None, f') \<Rightarrow> (resp\<lparr>rp_val := int (length p)\<rparr>, f') | (Some e, f') \<Rightarrow> (resp\<lparr>rp_error := - e\<rparr>, f'))
      else if take 2 p = ''./'' then (resp\<lparr>rp_flags := SECCOMP_USER_NOTIF_FLAG_CONTINUE\<rparr>, f)
      else (resp\<lparr>rp_error := - EOPNOTSUPP\<rparr>, f))"

lemma mode_cast: "ucast (sd_args (nt_data (mkdir_notif i pid a m)) 1) = m"
  by (rule bit_word_eqI) (simp add: bit_simps)

lemma does_puts_ret:
  "does (andthen (putsM t) (ret x)) s (Inr x) (ker s) (path_buf s)"
  by (simp add: does_def putsM_def)

lemma does_mkdir:
  assumes "take 5 p = ''/tmp/''"
  shows "does (answer_path (nk_os mkS) strerror (mkdir_notif i pid a m) p) s
    (Inr (case mkS p m (fsys (ker s)) of
       (None, _) \<Rightarrow> \<lparr>rp_id = i, rp_val = int (length p), rp_error = 0, rp_flags = 0\<rparr>
     | (Some e, _) \<Rightarrow> \<lparr>rp_id = i, rp_val = 0, rp_error = - e, rp_flags = 0\<rparr>))
    ((ker s)\<lparr>fsys := snd (mkS p m (fsys (ker s)))\<rparr>) (path_buf s)"
proof -
  have call: "sv_mkdir (nk_os mkS) p m k = (fst (mkS p m (fsys k)), k\<lparr>fsys := snd (mkS p m (fsys k))\<rparr>)" for k
    by (simp add: nk_os_def split_beta)
  have id: "nt_id (mkdir_notif i pid a m) = i" by simp
  show ?thesis
    unfolding answer_path_def Let_def if_P [OF assms] mode_cast
    by (rule does_andthen [OF does_puts], cases "mkS p m (fsys (ker s))"; cases "fst (mkS p m (fsys (ker s)))")
      (auto simp: does_def Capabilities.kcall_def call bnd_apply putsM_def andthen_apply id)
qed

lemma does_answer:
  assumes buf: "length p < PATH_MAX \<longrightarrow> (\<exists>b. path_buf s = map Some p @ Some NUL # b)" and nul: "NUL \<notin> set p"
  shows "does (answer (nk_os mkS) strerror (mkdir_notif i pid a m) (length p < PATH_MAX)) s
    (Inr (fst (reply mkS m p i (fsys (ker s))))) ((ker s)\<lparr>fsys := snd (reply mkS m p i (fsys (ker s)))\<rparr>) (path_buf s)"
proof -
  have id: "nt_id (mkdir_notif i pid a m) = i" by simp
  have same: "k\<lparr>fsys := fsys k\<rparr> = k" for k :: "'a nkern" by simp
  show ?thesis
  proof (cases "length p < PATH_MAX")
    case True
    with buf nul have c: "c_string (path_buf s) = Some p" using c_string_stored by fastforce
    have eq: "does (answer (nk_os mkS) strerror (mkdir_notif i pid a m) (length p < PATH_MAX)) s x y z \<longleftrightarrow>
        does (answer_path (nk_os mkS) strerror (mkdir_notif i pid a m) p) s x y z" for x y z
      using True c by (simp add: does_def answer_def)
    show ?thesis
    proof (cases "take 5 p = ''/tmp/''")
      case tmp: True
      have "does (answer_path (nk_os mkS) strerror (mkdir_notif i pid a m) p) s
          (Inr (fst (reply mkS m p i (fsys (ker s))))) ((ker s)\<lparr>fsys := snd (reply mkS m p i (fsys (ker s)))\<rparr>) (path_buf s)"
        using does_mkdir [OF tmp, of mkS strerror i pid a m s] True tmp
        by (cases "mkS p m (fsys (ker s))"; cases "fst (mkS p m (fsys (ker s)))") (auto simp: reply_def)
      then show ?thesis unfolding eq .
    next
      case False
      then show ?thesis
        unfolding eq using True does_puts_ret by (auto simp: answer_path_def reply_def Let_def id same)
    qed
  next
    case False
    then show ?thesis using does_puts_ret by (auto simp: answer_def reply_def Let_def id same)
  qed
qed

lemma reply_id: "rp_id (fst (reply mkS m p i f)) = i"
  by (auto simp: reply_def Let_def split: prod.splits option.splits)

lemma does_send:
  assumes "slot (ker s) = Some req" "rp_id rp = nt_id req"
  shows "does (send_response (nk_os mkS) strerror rp) s (Inr ()) ((ker s)\<lparr>slot := None, response := Some rp\<rparr>) (path_buf s)"
  using assms by (simp add: does_def send_response_def andthen_apply putsM_def bnd_apply Capabilities.kcall_def nk_os_def)

lemma does_then:
  assumes "m s = (Inr x, s1)" "does (f x) s1 r k b"
  shows "does (bnd m f) s r k b"
  using assms by (simp add: does_def bnd_apply)

text \<open>One pass of the supervisor, on a notification for a pathname \<open>p\<close>.\<close>

lemma pass_replies:
  assumes nul: "NUL \<notin> set p" and closed: "\<not> memfd k"
  shows "\<exists>b. does (notif_pass (nk_os mkS) strerror opts) (s\<lparr>ker := post pid a junk m p k\<rparr>)
    (if p = ''/bye'' then Inl (Exit EXIT_FAILURE) else Inr ())
    ((post pid a junk m p k)\<lparr>fsys := snd (reply mkS m p (next_id k) (fsys k)), slot := None,
       response := Some (fst (reply mkS m p (next_id k) (fsys k)))\<rparr>) b"
proof -
  let ?req = "mkdir_notif (next_id k) pid a m"
  let ?k = "post pid a junk m p k"
  let ?bs = "take PATH_MAX (p @ NUL # junk)"
  let ?rp = "reply mkS m p (next_id k) (fsys k)"
  let ?k1 = "?k\<lparr>fsys := snd ?rp\<rparr>"
  let ?k2 = "?k1\<lparr>slot := None, response := Some (fst ?rp)\<rparr>"
  let ?s0 = "s\<lparr>ker := ?k\<rparr>"
  define b where "b = path_buf (store_path ?bs s)"
  note stored = path_stored [OF nul]
  have req: "sd_nr (nt_data ?req) = NR_mkdir" "nt_id ?req = next_id k" by simp_all
  have last: "does (bnd (gets (\<lambda>s. buf_equals (path_buf s) ''/bye'')) (\<lambda>b. case b of None \<Rightarrow> stop Undef
        | Some True \<Rightarrow> andthen (putsM t) (exit3 EXIT_FAILURE) | Some False \<Rightarrow> ret ())) s'
      (if p = ''/bye'' then Inl (Exit EXIT_FAILURE) else Inr ()) ?k2 b"
    if "ker s' = ?k2" "path_buf s' = b" for s' :: "'a nkern sup" and t
  proof -
    have e: "buf_equals b ''/bye'' = Some (p = ''/bye'')" using stored(3) [of junk s] by (simp add: b_def)
    show ?thesis
      using that by (cases "p = ''/bye''")
        (simp_all add: does_def e bnd_apply andthen_apply putsM_def exit3_def fflush_stdout_def)
  qed
  have read: "does (bnd (getTargetPathname (nk_os mkS) strerror ?req PATH_MAX) f) s' r k' b'"
    if "ker s' = ?k" "path_buf s' = path_buf s" and f: "\<And>s''. ker s'' = ?k \<Longrightarrow> path_buf s'' = b \<Longrightarrow> does (f (length p < PATH_MAX)) s'' r k' b'"
    for s' and f :: "bool \<Rightarrow> ('a nkern sup, unit) prog" and r k' b'
  proof (rule does_then)
    show "getTargetPathname (nk_os mkS) strerror ?req PATH_MAX s' = (Inr (length p < PATH_MAX), store_path ?bs s')"
      using path_read [of s' ?req mkS strerror] stored(1) [of junk] that(1) closed by simp
    show "does (f (length p < PATH_MAX)) (store_path ?bs s') r k' b'"
      by (rule f) (simp_all add: store_path_def that b_def)
  qed
  have reply1: "does (answer (nk_os mkS) strerror ?req (length p < PATH_MAX)) s' (Inr (fst ?rp)) ?k1 b"
    if "ker s' = ?k" "path_buf s' = b" for s'
    using does_answer [of p s' mkS strerror "next_id k" pid a m] stored(2) [of junk s] nul that by (simp add: b_def)
  have send: "does (send_response (nk_os mkS) strerror (fst ?rp)) s' (Inr ()) ?k2 b"
    if "ker s' = ?k1" "path_buf s' = b" for s'
    using does_send [of s' ?req "fst ?rp" mkS strerror] that reply_id [of mkS m p "next_id k" "fsys k"] by (simp add: req)
  have dly: "does (delay (nk_os mkS) opts ?req) s' (Inr ()) ?k (path_buf s)" if "ker s' = ?k" "path_buf s' = path_buf s" for s'
    using does_delay [of s' ?req mkS opts] that by simp
  have puts: "does (putsM t) ?s0 (Inr ()) ?k (path_buf s)" for t using does_puts [of t ?s0] by simp
  have "does (handle_notif (nk_os mkS) strerror opts ?req) ?s0 (if p = ''/bye'' then Inl (Exit EXIT_FAILURE) else Inr ()) ?k2 b"
    unfolding handle_notif_def
    by (rule does_andthen [OF puts], subst if_not_P, simp add: req, rule does_andthen [OF dly], assumption, assumption,
        rule read, assumption, assumption, rule does_bnd [OF reply1], assumption, assumption,
        rule does_andthen [OF send], assumption, assumption, rule last)
  moreover have "notif_pass (nk_os mkS) strerror opts ?s0 = handle_notif (nk_os mkS) strerror opts ?req ?s0"
    by (simp add: notif_pass_def nk_os_def)
  ultimately show ?thesis by (auto simp: does_def)
qed

section \<open>The session\<close>

text \<open>The file system operations report positive error numbers.\<close>

definition errors_positive :: "'f mk \<Rightarrow> bool" where
  "errors_positive mk \<longleftrightarrow> (\<forall>p m f e f'. mk p m f = (Some e, f') \<longrightarrow> e > 0)"

lemma finish_verdict:
  assumes "errors_positive mkS" "fsys k = snd (reply mkS 0x1C0 p i f)" "response k = Some (fst (reply mkS 0x1C0 p i f))"
  shows "finish_mkdir mkT p 0x1C0 k = (fst (verdict mkS mkT p f), k\<lparr>fsys := snd (verdict mkS mkT p f)\<rparr>)"
proof -
  obtain r f' where m: "mkS p 0x1C0 f = (r, f')" by fastforce
  have pos: "e > 0" if "r = Some e" for e using assms(1) m that unfolding errors_positive_def by blast
  have same: "k\<lparr>fsys := g\<rparr> = k" if "fsys k = g" for g using that by auto
  show ?thesis
    using assms(2,3) m pos
    by (cases r; cases "mkT p 0x1C0 f")
      (auto simp: finish_mkdir_def run_mkdir_def reply_def PATH_MAX_def verdict_def Let_def same SECCOMP_USER_NOTIF_FLAG_CONTINUE_def EINVAL_def EOPNOTSUPP_def
        split: option.splits)
qed

text \<open>A notified call of the target while the supervisor is there.\<close>

lemma served_verdict:
  assumes "errors_positive mkS" "NUL \<notin> set p" "\<not> memfd (ker s)"
  obtains s' where "served_mkdir mkS mkT strerror opts pid at junk p 0x1C0 (s, None) =
      (fst (verdict mkS mkT p (fsys (ker s))), s', if p = ''/bye'' then Some (Exit EXIT_FAILURE) else None)"
    "fsys (ker s') = snd (verdict mkS mkT p (fsys (ker s)))" "\<not> memfd (ker s')"
proof -
  let ?rp = "reply mkS 0x1C0 p (next_id (ker s)) (fsys (ker s))"
  let ?k = "post pid (at p) junk 0x1C0 p (ker s)"
  obtain s2 where pass: "notif_pass (nk_os mkS) strerror opts (s\<lparr>ker := ?k\<rparr>) =
      (if p = ''/bye'' then Inl (Exit EXIT_FAILURE) else Inr (), s2)"
    and k: "ker s2 = ?k\<lparr>fsys := snd ?rp, slot := None, response := Some (fst ?rp)\<rparr>"
    using pass_replies [OF assms(2,3), where mkS = mkS and strerror = strerror and opts = opts and s = s and pid = pid and a = "at p"
        and m = "0x1C0" and junk = junk] by (auto simp: does_def)
  have "finish_mkdir mkT p 0x1C0 (ker s2) =
      (fst (verdict mkS mkT p (fsys (ker s))), (ker s2)\<lparr>fsys := snd (verdict mkS mkT p (fsys (ker s)))\<rparr>)"
    by (rule finish_verdict [OF assms(1), where i = "next_id (ker s)"]) (simp_all add: k)
  with pass assms(3) show thesis
    by (intro that [of "s2\<lparr>ker := (ker s2)\<lparr>fsys := snd (verdict mkS mkT p (fsys (ker s)))\<rparr>\<rparr>"])
      (auto simp: served_mkdir_def k)
qed

text \<open>The kernel of the target: the supervisor process, the filters installed, the descriptor of the listener (5) if one
  was asked for, and whether it was passed to the supervisor in a message of type \<^verbatim>\<open>SCM_RIGHTS\<close>. A \<^verbatim>\<open>mkdir\<close> is subject
  to the action of highest precedence of all filters: it fails with the error in the filter's return value, it is
  notified, or it is executed; the kernel answers \<^verbatim>\<open>ENOSYS\<close> to a call to be traced, when there is no tracer, and to a
  notified one when nobody holds the listener. (None of the filters kills the target in a native \<^verbatim>\<open>mkdir\<close>.)\<close>

record 'f tgkern =
  superv :: "'f sproc"
  filters :: "sock_filter list list"
  listener :: bool
  passed :: bool

definition tk_sendmsg :: "scm_msg \<Rightarrow> 'f tgkern \<Rightarrow> int option \<times> 'f tgkern" where
  "tk_sendmsg m k = (None, k\<lparr>passed := passed k \<or> (case snd m of None \<Rightarrow> False
     | Some c \<Rightarrow> cmsg_level c = 1 \<and> cmsg_type c = 1 \<and> cmsg_len c = 20 \<and> cmsg_fd c = 5)\<rparr>)"

definition tk_mkdir ::
  "'f mk \<Rightarrow> 'f mk \<Rightarrow> (int \<Rightarrow> string) \<Rightarrow> cmdLineOpts \<Rightarrow> 32 word \<Rightarrow> (string \<Rightarrow> 64 word) \<Rightarrow> string \<Rightarrow> string \<Rightarrow> 32 word
     \<Rightarrow> 'f tgkern \<Rightarrow> (int + int) \<times> 'f tgkern" where
  "tk_mkdir mkS mkT strerror opts pid at junk p m k =
     (case decides_all (filters k) (mkdir_data (at p) m) of
        None \<Rightarrow> (Inl ENOSYS, k)
      | Some v \<Rightarrow>
          if action v = action SECCOMP_RET_ERRNO then (Inl (uint (v AND 0xffff)), k)
          else if action v = action SECCOMP_RET_USER_NOTIF \<and> listener k \<and> passed k then
            (case served_mkdir mkS mkT strerror opts pid at junk p m (superv k) of (r, S) \<Rightarrow> (r, k\<lparr>superv := S\<rparr>))
          else if action v = action SECCOMP_RET_ALLOW then
            (case superv k of (s, h) \<Rightarrow> (case run_mkdir mkT p m (ker s) of (r, k') \<Rightarrow> (r, k\<lparr>superv := (s\<lparr>ker := k'\<rparr>, h)\<rparr>)))
          else (Inl ENOSYS, k))"

text \<open>The target over this kernel.\<close>

definition session_os ::
  "'f mk \<Rightarrow> 'f mk \<Rightarrow> (int \<Rightarrow> string) \<Rightarrow> cmdLineOpts \<Rightarrow> 32 word \<Rightarrow> (string \<Rightarrow> 64 word) \<Rightarrow> string \<Rightarrow> 'f tgkern tg_os" where
  "session_os mkS mkT strerror opts pid at junk = \<lparr>tg_pid = sint pid, tg_sigaction = \<lambda>k. (None, k), tg_prctl = \<lambda>k. (None, k),
     tg_listener = \<lambda>f k. (Inr 5, k\<lparr>filters := filters k @ [f], listener := True\<rparr>),
     tg_filter = \<lambda>f k. (None, k\<lparr>filters := filters k @ [f]\<rparr>), tg_sendmsg = tk_sendmsg, tg_close = \<lambda>_ k. (None, k),
     tg_mkdir = tk_mkdir mkS mkT strerror opts pid at junk\<rparr>"

text \<open>The report of the target on one call: on stdout, and on stderr if the call failed.\<close>

definition about_text :: "string \<Rightarrow> string" where
  "about_text p = [NL] @ ''T: about to mkdir('' @ [CHR 34] @ p @ [CHR 34] @ '')'' @ [NL]"

definition out_text :: "string \<Rightarrow> int + int \<Rightarrow> string" where
  "out_text p r = about_text p @ (case r of Inl _ \<Rightarrow> [] | Inr v \<Rightarrow> ''T: SUCCESS: mkdir(2) returned '' @ show_int v @ [NL])"

definition err_text :: "(int \<Rightarrow> string) \<Rightarrow> int + int \<Rightarrow> string" where
  "err_text strerror r = (case r of Inl e \<Rightarrow> ''T: ERROR: mkdir(2): '' @ strerror e @ [NL] | Inr _ \<Rightarrow> [])"

lemma target_reports:
  assumes "tg_mkdir K p 0x1C0 (ker t) = (r, k)" "r \<noteq> Inr (- 1)"
  obtains t' where "target_mkdir K strerror p t = (Inr (), t')" "ker t' = k" "stdout_buf t' = stdout_buf t"
    "stdout_out t' = stdout_out t @ out_text p r" "stderr_out t' = stderr_out t @ err_text strerror r"
proof -
  define t1 where "t1 = stdio_noise (t\<lparr>stdout_out := stdout_out t @ about_text p\<rparr>)"
  have t1: "stdout_out t1 = stdout_out t @ about_text p" "stderr_out t1 = stderr_out t" "ker t1 = ker t" "stdout_buf t1 = stdout_buf t"
    by (simp_all add: t1_def stdio_noise_def split: option.splits)
  have go: "target_mkdir K strerror p t = (bnd (\<lambda>s. case tg_mkdir K p 0x1C0 (ker s) of
        (Inl e, k) \<Rightarrow> (Inr (- 1), s\<lparr>ker := k, errno := e\<rparr>)
      | (Inr v, k) \<Rightarrow> (Inr v, s\<lparr>ker := k\<rparr>)) (\<lambda>r.
      if r = - 1 then modify (perror strerror ''T: ERROR: mkdir(2)'')
      else putsM (''T: SUCCESS: mkdir(2) returned '' @ show_int r @ [NL]))) t1"
    by (simp add: target_mkdir_def putsM_def t1_def about_text_def)
  show thesis
  proof (cases r)
    case (Inl e)
    show thesis
      by (rule that [of "perror strerror ''T: ERROR: mkdir(2)'' (t1\<lparr>ker := k, errno := e\<rparr>)"])
        (use assms Inl t1 in \<open>simp_all add: go bnd_apply perror_def out_text_def err_text_def\<close>)
  next
    case (Inr v)
    show thesis
      by (rule that [of "stdio_noise (t1\<lparr>ker := k, stdout_out := stdout_out t1 @ ''T: SUCCESS: mkdir(2) returned '' @ show_int v @ [NL]\<rparr>)"])
        (use assms Inr t1 in \<open>simp_all add: go bnd_apply putsM_def out_text_def err_text_def\<close>)
  qed
qed

lemma session_sel [simp]:
  "tg_pid (session_os mkS mkT strerror opts pid at junk) = sint pid" "tg_sigaction (session_os mkS mkT strerror opts pid at junk) k = (None, k)"
  "tg_prctl (session_os mkS mkT strerror opts pid at junk) k = (None, k)"
  "tg_listener (session_os mkS mkT strerror opts pid at junk) f k = (Inr 5, k\<lparr>filters := filters k @ [f], listener := True\<rparr>)"
  "tg_filter (session_os mkS mkT strerror opts pid at junk) f k = (None, k\<lparr>filters := filters k @ [f]\<rparr>)"
  "tg_sendmsg (session_os mkS mkT strerror opts pid at junk) = tk_sendmsg"
  "tg_close (session_os mkS mkT strerror opts pid at junk) fd k = (None, k)"
  "tg_mkdir (session_os mkS mkT strerror opts pid at junk) = tk_mkdir mkS mkT strerror opts pid at junk"
  by (simp_all add: session_os_def)

text \<open>The kernel once the target is ready to make its calls.\<close>

definition ready :: "cmdLineOpts \<Rightarrow> 'f tgkern \<Rightarrow> bool" where
  "ready opts k \<longleftrightarrow> filters k = target_filters opts \<and> listener k \<and> passed k"

lemma mkdir_decision:
  "decides_all (target_filters opts) (mkdir_data a m) =
     Some (if secondFilter opts = Some SECCOMP_RET_ERRNO then SECCOMP_RET_ERRNO OR ENOTSUP else SECCOMP_RET_USER_NOTIF)"
  unfolding target_filters_decide by (simp add: mkdir_data_def sec_consts)

lemma ready_refused:
  assumes "ready opts k" "secondFilter opts = Some SECCOMP_RET_ERRNO"
  shows "tk_mkdir mkS mkT strerror opts pid at junk p m k = (Inl 95, k)"
  using assms by (simp add: ready_def tk_mkdir_def mkdir_decision actions action_def sec_consts)

lemma ready_notified:
  assumes "ready opts k" "secondFilter opts \<noteq> Some SECCOMP_RET_ERRNO"
  shows "tk_mkdir mkS mkT strerror opts pid at junk p m k =
    (case served_mkdir mkS mkT strerror opts pid at junk p m (superv k) of (r, S) \<Rightarrow> (r, k\<lparr>superv := S\<rparr>))"
  using assms by (simp add: ready_def tk_mkdir_def mkdir_decision action_def sec_consts)

lemma served_ended: "served_mkdir mkS mkT strerror opts pid at junk p m (s, Some h) = (Inl ENOSYS, s, Some h)"
  by (simp add: served_mkdir_def)

lemma verdict_not_minus1: "fst (verdict mkS mkT p f) \<noteq> Inr (- 1)"
  by (auto simp: verdict_def split: prod.splits option.splits)

text \<open>The loop of the target when every call gets the same answer and changes nothing.\<close>

lemma loop_same:
  assumes "\<And>p. tg_mkdir K p 0x1C0 (ker t) = (Inl e, ker t)"
  shows "\<exists>t'. forM ps (target_mkdir K strerror) t = (Inr (), t') \<and> ker t' = ker t \<and> stdout_buf t' = stdout_buf t
    \<and> stdout_out t' = stdout_out t @ concat (map (\<lambda>p. out_text p (Inl e)) ps)
    \<and> stderr_out t' = stderr_out t @ concat (map (\<lambda>_. err_text strerror (Inl e)) ps)"
  using assms
proof (induction ps arbitrary: t)
  case (Cons p ps)
  obtain t1 where t1: "target_mkdir K strerror p t = (Inr (), t1)" "ker t1 = ker t" "stdout_buf t1 = stdout_buf t"
    "stdout_out t1 = stdout_out t @ out_text p (Inl e)" "stderr_out t1 = stderr_out t @ err_text strerror (Inl e)"
    by (rule target_reports [OF Cons.prems, of strerror]) auto
  have "\<And>p. tg_mkdir K p 0x1C0 (ker t1) = (Inl e, ker t1)" using Cons.prems t1(2) by simp
  from Cons.IH [OF this] t1 show ?case by (auto simp: andthen_apply)
qed simp

lemma map2_const: "map2 f ps (map (\<lambda>_. c) ps) = map (\<lambda>p. f p c) ps"
  by (simp add: zip_map2 zip_same_conv_map)

lemma loop_serves:
  assumes pos: "errors_positive mkS" and notify: "secondFilter opts \<noteq> Some SECCOMP_RET_ERRNO"
    and nul: "\<forall>p \<in> set ps. NUL \<notin> set p" and "ready opts (ker t)" "superv (ker t) = (s, None)" "\<not> memfd (ker s)"
  shows "\<exists>t' s' h. forM ps (target_mkdir (session_os mkS mkT strerror opts pid at junk) strerror) t = (Inr (), t')
    \<and> superv (ker t') = (s', h) \<and> stdout_buf t' = stdout_buf t
    \<and> fsys (ker s') = snd (serve mkS mkT ps (fsys (ker s)))
    \<and> stdout_out t' = stdout_out t @ concat (map2 out_text ps (fst (serve mkS mkT ps (fsys (ker s)))))
    \<and> stderr_out t' = stderr_out t @ concat (map (err_text strerror) (fst (serve mkS mkT ps (fsys (ker s)))))"
  using nul assms(4-6)
proof (induction ps arbitrary: t s)
  case (Cons p ps)
  let ?K = "session_os mkS mkT strerror opts pid at junk"
  let ?v = "verdict mkS mkT p (fsys (ker s))"
  let ?h = "if p = ''/bye'' then Some (Exit EXIT_FAILURE) else None"
  obtain s1 where s1: "served_mkdir mkS mkT strerror opts pid at junk p 0x1C0 (s, None) = (fst ?v, s1, ?h)"
      "fsys (ker s1) = snd ?v" "\<not> memfd (ker s1)"
    using served_verdict [OF pos _ Cons.prems(4), of p mkT strerror opts pid at junk] Cons.prems(1) by auto
  have call: "tg_mkdir ?K p 0x1C0 (ker t) = (fst ?v, (ker t)\<lparr>superv := (s1, ?h)\<rparr>)"
    using Cons.prems(2,3) s1(1) by (simp add: ready_notified [OF _ notify])
  obtain t1 where t1: "target_mkdir ?K strerror p t = (Inr (), t1)" "ker t1 = (ker t)\<lparr>superv := (s1, ?h)\<rparr>" "stdout_buf t1 = stdout_buf t"
    "stdout_out t1 = stdout_out t @ out_text p (fst ?v)" "stderr_out t1 = stderr_out t @ err_text strerror (fst ?v)"
    by (rule target_reports [OF call verdict_not_minus1, of strerror])
  have rdy: "ready opts (ker t1)" and sup: "superv (ker t1) = (s1, ?h)" using Cons.prems(2) t1(2) by (simp_all add: ready_def)
  show ?case
  proof (cases "p = ''/bye''")
    case True
    have "tg_mkdir ?K q 0x1C0 (ker t1) = (Inl ENOSYS, ker t1)" for q
      using sup True by (simp add: ready_notified [OF rdy notify] served_ended)
    note rest = loop_same [OF this, of ps strerror]
    have "serve mkS mkT (p # ps) (fsys (ker s)) = (fst ?v # map (\<lambda>_. Inl ENOSYS) ps, snd ?v)"
      using True by (simp add: split_beta)
    with rest t1 s1(2) True sup show ?thesis by (auto simp: andthen_apply comp_def map2_const)
  next
    case False
    have "\<forall>p \<in> set ps. NUL \<notin> set p" "superv (ker t1) = (s1, None)" using Cons.prems(1) sup False by simp_all
    from Cons.IH [OF this(1) rdy this(2) s1(3)] t1 s1(2) False show ?thesis by (auto simp: andthen_apply split_beta)
  qed
qed auto

lemma loop_outcome:
  assumes "errors_positive mkS" "\<forall>p \<in> set ps. NUL \<notin> set p" "ready opts (ker t)" "superv (ker t) = (s, None)" "\<not> memfd (ker s)"
  shows "\<exists>t' s' h. forM ps (target_mkdir (session_os mkS mkT strerror opts pid at junk) strerror) t = (Inr (), t')
    \<and> superv (ker t') = (s', h) \<and> stdout_buf t' = stdout_buf t
    \<and> fsys (ker s') = snd (outcome opts mkS mkT ps (fsys (ker s)))
    \<and> stdout_out t' = stdout_out t @ concat (map2 out_text ps (fst (outcome opts mkS mkT ps (fsys (ker s)))))
    \<and> stderr_out t' = stderr_out t @ concat (map (err_text strerror) (fst (outcome opts mkS mkT ps (fsys (ker s)))))"
proof (cases "secondFilter opts = Some SECCOMP_RET_ERRNO")
  case True
  have "tg_mkdir (session_os mkS mkT strerror opts pid at junk) p 0x1C0 (ker t) = (Inl 95, ker t)" for p
    using ready_refused [OF assms(3) True] by simp
  from loop_same [OF this, of ps strerror] assms(4) True show ?thesis by (auto simp: outcome_def map2_const comp_def)
next
  case False
  with loop_serves [OF assms(1) False assms(2-5)] show ?thesis by (simp add: outcome_def)
qed

text \<open>C8. The whole session of target and supervisor, for any file system, any pathnames at any addresses and any options:
  the target installs its filters, passes the listener on, and its calls return exactly what the policy says. Without a
  second filter, or with that of \<^verbatim>\<open>-f t\<close>: a pathname of 4096 bytes or more: \<^verbatim>\<open>EINVAL\<close>; one that starts with
  \<^verbatim>\<open>/tmp/\<close>: created by the supervisor with mode 0700, with its length as return value, or the supervisor's error; one that
  starts with \<^verbatim>\<open>./\<close>: created by the target itself; any other: \<^verbatim>\<open>EOPNOTSUPP\<close>; after \<^verbatim>\<open>/bye\<close> there is no supervisor and
  the kernel answers \<^verbatim>\<open>ENOSYS\<close>. With the second filter of \<^verbatim>\<open>-f e\<close> nothing is notified and every call fails with
  \<^verbatim>\<open>ENOTSUP\<close> (95). The file system changes accordingly, and the target reports it so.\<close>

theorem unotify_session:
  assumes pos: "errors_positive mkS" and nul: "\<forall>p \<in> set ps. NUL \<notin> set p"
    and start: "ker t = \<lparr>superv = (s, None), filters = [], listener = False, passed = False\<rparr>" "\<not> memfd (ker s)"
  shows "\<exists>t' s' h. targetProcess (session_os mkS mkT strerror opts pid at junk) strerror sp ps opts t = (Inl (Exit EXIT_SUCCESS), t')
    \<and> superv (ker t') = (s', h) \<and> fsys (ker s') = snd (outcome opts mkS mkT ps (fsys (ker s)))
    \<and> stdout_out t' = stdout_out t @ ''T: PID = '' @ show_int (sint pid) @ [NL] @
        concat (map2 out_text ps (fst (outcome opts mkS mkT ps (fsys (ker s))))) @ [NL] @ ''T: terminating'' @ [NL] @ stdout_buf t
    \<and> stderr_out t' = stderr_out t @ concat (map (err_text strerror) (fst (outcome opts mkS mkT ps (fsys (ker s)))))"
proof -
  let ?K = "session_os mkS mkT strerror opts pid at junk"
  define t0 where "t0 = (stdio_noise (t\<lparr>stdout_out := stdout_out t @ ''T: PID = '' @ show_int (sint pid) @ [NL]\<rparr>))
    \<lparr>ker := \<lparr>superv = (s, None), filters = target_filters opts, listener = True, passed = True\<rparr>\<rparr>"
  have t0: "stdout_out t0 = stdout_out t @ ''T: PID = '' @ show_int (sint pid) @ [NL]" "stderr_out t0 = stderr_out t"
    "stdout_buf t0 = stdout_buf t" "ready opts (ker t0)" "superv (ker t0) = (s, None)"
    by (simp_all add: t0_def ready_def)
  obtain t1 s' h where t1: "forM ps (target_mkdir ?K strerror) t0 = (Inr (), t1)" "superv (ker t1) = (s', h)" "stdout_buf t1 = stdout_buf t0"
    "fsys (ker s') = snd (outcome opts mkS mkT ps (fsys (ker s)))"
    "stdout_out t1 = stdout_out t0 @ concat (map2 out_text ps (fst (outcome opts mkS mkT ps (fsys (ker s)))))"
    "stderr_out t1 = stderr_out t0 @ concat (map (err_text strerror) (fst (outcome opts mkS mkT ps (fsys (ker s)))))"
    using loop_outcome [OF pos nul t0(4,5) start(2), of mkT strerror pid at junk] by blast
  have "targetProcess ?K strerror sp ps opts t =
      (andthen (forM ps (target_mkdir ?K strerror)) (andthen (putsM ([NL] @ ''T: terminating'' @ [NL])) (exit3 EXIT_SUCCESS))) t0"
    unfolding targetProcess_def using start(1)
    by (cases "secondFilter opts") (simp_all add: andthen_apply bnd_apply ucall_or_exit_def putsM_def
        installNotifyFilter_def installFilter2_def sendfd_def Capabilities.kcall_def closeSocketPair_def whenM_def
        tk_sendmsg_def CMSG_LEN_int_def SOL_SOCKET_def SCM_RIGHTS_def target_filters_def t0_def)
  then show ?thesis using t1 t0 by (simp add: andthen_apply putsM_def exit3_def)
qed

text \<open>A pathname without a terminating null byte in the memory that could be read is refused with \<^verbatim>\<open>EINVAL\<close>, whatever the
  policy on its beginning; but the comparison with \<^verbatim>\<open>/bye\<close> is made all the same. On the first notification, when
  the memory ends within those four characters (as at the end of a mapping), it goes on into bytes of the
  buffer that were never written.\<close>

theorem unotify_unterminated:
  assumes bs: "bs \<noteq> []" "NUL \<notin> set bs" "length bs < PATH_MAX"
    and slot: "slot (ker s) = Some (mkdir_notif i pid a m)"
    and mem: "tmem (ker s) = bs" "tpid (ker s) = pid" "maddr (ker s) = a" "\<not> memfd (ker s)"
    and fresh: "path_buf s = replicate PATH_MAX None"
  shows "case notif_pass (nk_os mkS) strerror opts s of (r, s') \<Rightarrow>
    r = (if bs = take (length bs) ''/bye'' then Inl Undef else Inr ()) \<and> fsys (ker s') = fsys (ker s)
    \<and> response (ker s') = Some \<lparr>rp_id = i, rp_val = 0, rp_error = - EINVAL, rp_flags = 0\<rparr>"
proof -
  let ?req = "mkdir_notif i pid a m"
  let ?rp = "\<lparr>rp_id = i, rp_val = 0, rp_error = - EINVAL, rp_flags = 0\<rparr>"
  let ?k2 = "(ker s)\<lparr>slot := None, response := Some ?rp\<rparr>"
  define b where "b = path_buf (store_path bs s)"
  have req: "sd_nr (nt_data ?req) = NR_mkdir" "nt_id ?req = i" by simp_all
  have "b = map Some bs @ replicate (PATH_MAX - length bs) None" using fresh by (simp add: b_def store_path_def)
  moreover obtain n where "PATH_MAX - length bs = Suc n" using bs(3) by (cases "PATH_MAX - length bs") auto
  ultimately have e: "buf_equals b ''/bye'' = (if bs = take (length bs) ''/bye'' then None else Some False)"
    using buf_equals_unwritten [OF bs(2)] by simp
  have last: "does (bnd (gets (\<lambda>s. buf_equals (path_buf s) ''/bye'')) (\<lambda>b. case b of None \<Rightarrow> stop Undef
        | Some True \<Rightarrow> andthen (putsM t) (exit3 EXIT_FAILURE) | Some False \<Rightarrow> ret ())) s'
      (if bs = take (length bs) ''/bye'' then Inl Undef else Inr ()) ?k2 b"
    if "ker s' = ?k2" "path_buf s' = b" for s' :: "'a nkern sup" and t
    using that by (simp add: does_def e)
  have read: "does (getTargetPathname (nk_os mkS) strerror ?req PATH_MAX) s' (Inr False) (ker s) b"
    if "ker s' = ker s" "path_buf s' = path_buf s" for s'
    using path_read [of s' ?req mkS strerror] slot mem bs that by (simp add: does_def store_path_def b_def)
  have refuse: "does (answer (nk_os mkS) strerror ?req False) s' (Inr ?rp) (ker s) b" if "ker s' = ker s" "path_buf s' = b" for s'
    using does_puts_ret [where x = ?rp and s = s'] that by (simp add: answer_def req)
  have send: "does (send_response (nk_os mkS) strerror ?rp) s' (Inr ()) ?k2 b" if "ker s' = ker s" "path_buf s' = b" for s'
    using does_send [of s' ?req ?rp mkS strerror] that slot by (simp add: req)
  have dly: "does (delay (nk_os mkS) opts ?req) s' (Inr ()) (ker s) (path_buf s)" if "ker s' = ker s" "path_buf s' = path_buf s" for s'
    using does_delay [of s' ?req mkS opts] that slot by simp
  have "does (handle_notif (nk_os mkS) strerror opts ?req) s (if bs = take (length bs) ''/bye'' then Inl Undef else Inr ()) ?k2 b"
    unfolding handle_notif_def
    by (rule does_andthen [OF does_puts], subst if_not_P, simp add: req, rule does_andthen [OF dly], assumption, assumption,
        rule does_bnd [OF read], assumption, assumption, rule does_bnd [OF refuse], assumption, assumption,
        rule does_andthen [OF send], assumption, assumption, rule last)
  moreover have "notif_pass (nk_os mkS) strerror opts s = handle_notif (nk_os mkS) strerror opts ?req s"
    using slot by (simp add: notif_pass_def nk_os_def)
  ultimately show ?thesis by (auto simp: does_def)
qed

section \<open>Witnesses\<close>

text \<open>A file system is the list of directories made; making one twice fails.\<close>

definition sample_mk :: "string list mk" where
  "sample_mk p m f = (if p \<in> set f then (Some EEXIST, f) else (None, f @ [p]))"

definition sample_io_of :: "'k \<Rightarrow> 'k kproc" where
  "sample_io_of k = \<lparr>stdout_buf = [], stdout_out = [], stderr_out = [], errno = 0, ef_dumpcore = None, stdio_errno = None, ker = k\<rparr>"

definition sample_sup :: "string \<Rightarrow> string list nkern sup" where
  "sample_sup m = \<lparr>stdout_buf = [], stdout_out = [], stderr_out = [], errno = 0, ef_dumpcore = None, stdio_errno = None,
     ker = \<lparr>slot = Some (mkdir_notif 1 7 64 0x1C0), response = None, next_id = 2, tpid = 7, maddr = 64, tmem = m, memfd = False, fsys = []\<rparr>, path_buf = replicate PATH_MAX None\<rparr>"

definition sample_paths :: "string list" where
  "sample_paths = [''/tmp/../etc/x'', ''./y'', ''/etc/z'', ''/bye'', ''./w'']"

definition sample_target :: "string list tgkern kproc" where
  "sample_target = sample_io_of \<lparr>superv = (sample_sup [], None), filters = [], listener = False, passed = False\<rparr>"

theorem unotify_session_witness:
  "(\<exists>t' s' h. targetProcess (session_os sample_mk sample_mk (\<lambda>_. ''no'') \<lparr>delaySecs = 3, secondFilter = None\<rparr> 7 (\<lambda>p. of_nat (length p)) [])
      (\<lambda>_. ''no'') (3, 4) sample_paths \<lparr>delaySecs = 3, secondFilter = None\<rparr> sample_target = (Inl (Exit EXIT_SUCCESS), t')
      \<and> superv (ker t') = (s', h) \<and> fsys (ker s') = [''/tmp/../etc/x'', ''./y'']) \<and>
   (\<exists>t' s' h. targetProcess (session_os sample_mk sample_mk (\<lambda>_. ''no'') \<lparr>delaySecs = 0, secondFilter = Some SECCOMP_RET_ERRNO\<rparr> 7 (\<lambda>_. 64) [])
      (\<lambda>_. ''no'') (3, 4) sample_paths \<lparr>delaySecs = 0, secondFilter = Some SECCOMP_RET_ERRNO\<rparr> sample_target = (Inl (Exit EXIT_SUCCESS), t')
      \<and> superv (ker t') = (s', h) \<and> fsys (ker s') = [])"
proof -
  have pos: "errors_positive sample_mk" by (simp add: errors_positive_def sample_mk_def EEXIST_def)
  have nul: "\<forall>p \<in> set sample_paths. NUL \<notin> set p" by (simp add: NUL_def sample_paths_def)
  have k: "ker sample_target = \<lparr>superv = (sample_sup [], None), filters = [], listener = False, passed = False\<rparr>"
    by (simp add: sample_target_def sample_io_of_def)
  have s: "\<not> memfd (ker (sample_sup []))" "fsys (ker (sample_sup [])) = []" by (simp_all add: sample_sup_def)
  have sv: "snd (outcome \<lparr>delaySecs = 3, secondFilter = None\<rparr> sample_mk sample_mk sample_paths []) = [''/tmp/../etc/x'', ''./y'']"
    "snd (outcome \<lparr>delaySecs = 0, secondFilter = Some SECCOMP_RET_ERRNO\<rparr> sample_mk sample_mk sample_paths []) = []" by code_simp+
  show ?thesis
    using unotify_session [OF pos nul k s(1), of sample_mk "\<lambda>_. ''no''" "\<lparr>delaySecs = 3, secondFilter = None\<rparr>" 7 "\<lambda>p. of_nat (length p)" "[]" "(3, 4)"]
      unotify_session [OF pos nul k s(1), of sample_mk "\<lambda>_. ''no''" "\<lparr>delaySecs = 0, secondFilter = Some SECCOMP_RET_ERRNO\<rparr>" 7 "\<lambda>_. 64" "[]" "(3, 4)"]
    unfolding s(2) sv by blast
qed

theorem unotify_unterminated_witness:
  "fst (notif_pass (nk_os sample_mk) (\<lambda>_. []) \<lparr>delaySecs = 0, secondFilter = None\<rparr> (sample_sup ''/by'')) = Inl Undef"
proof -
  have "''/by'' \<noteq> []" "NUL \<notin> set ''/by''" "length ''/by'' < PATH_MAX" by (simp_all add: NUL_def const_defs)
  moreover have "slot (ker (sample_sup ''/by'')) = Some (mkdir_notif 1 7 64 0x1C0)" "tmem (ker (sample_sup ''/by'')) = ''/by''"
    "tpid (ker (sample_sup ''/by'')) = 7" "maddr (ker (sample_sup ''/by'')) = 64" "\<not> memfd (ker (sample_sup ''/by''))"
    "path_buf (sample_sup ''/by'') = replicate PATH_MAX None" by (simp_all add: sample_sup_def)
  ultimately show ?thesis
    using unotify_unterminated [of "''/by''" "sample_sup ''/by''" 1 7 64 "0x1C0" sample_mk "\<lambda>_. []" "\<lparr>delaySecs = 0, secondFilter = None\<rparr>"]
    by (simp add: split_beta)
qed

end
