(* ===== verification/System.thy ===== *)
theory System
  imports Capabilities
begin

text \<open>
  \<^verbatim>\<open>tlpi-book/procexec/system.c\<close> and \<^verbatim>\<open>simple_system.c\<close>: running a shell command. The state of the caller is its
  signal dispositions, its signal mask and \<^verbatim>\<open>errno\<close>; the calls that set them may change \<^verbatim>\<open>errno\<close> even when they
  succeed. The kernel answers \<^verbatim>\<open>fork\<close> and \<^verbatim>\<open>waitpid\<close> depending on what it can see of the caller: whether
  \<^verbatim>\<open>SIGINT\<close> and \<^verbatim>\<open>SIGQUIT\<close> are ignored and \<^verbatim>\<open>SIGCHLD\<close> is blocked at that moment.
\<close>

section \<open>Signals\<close>

datatype sighandler = SIG_DFL | SIG_IGN | Handler nat

record sigact =
  sa_handler :: sighandler
  sa_flags :: int
  sa_mask :: "int \<Rightarrow> bool"

record 'k sigproc = "'k kproc" +
  disp :: "int \<Rightarrow> sigact"
  sigmask :: "int \<Rightarrow> bool"
  sig_noise :: "int option"

definition sigemptyset :: "int \<Rightarrow> bool" where
  "sigemptyset = (\<lambda>_. False)"

definition noisy :: "'k sigproc \<Rightarrow> 'k sigproc" where
  "noisy s = (case sig_noise s of None \<Rightarrow> s | Some e \<Rightarrow> s\<lparr>errno := e\<rparr>)"

definition sigprocmask_block :: "(int \<Rightarrow> bool) \<Rightarrow> 'k sigproc \<Rightarrow> 'k sigproc" where
  "sigprocmask_block m s = noisy (s\<lparr>sigmask := (\<lambda>x. sigmask s x \<or> m x)\<rparr>)"

definition sigprocmask_set :: "(int \<Rightarrow> bool) \<Rightarrow> 'k sigproc \<Rightarrow> 'k sigproc" where
  "sigprocmask_set m s = noisy (s\<lparr>sigmask := m\<rparr>)"

definition sigaction_set :: "int \<Rightarrow> sigact \<Rightarrow> 'k sigproc \<Rightarrow> 'k sigproc" where
  "sigaction_set sg a s = noisy (s\<lparr>disp := (disp s)(sg := a)\<rparr>)"

text \<open>What the kernel sees of the caller.\<close>

record sigview =
  int_ignored :: bool
  quit_ignored :: bool
  chld_blocked :: bool

definition view :: "'k sigproc \<Rightarrow> sigview" where
  "view s = \<lparr>int_ignored = (sa_handler (disp s SIGINT) = SIG_IGN), quit_ignored = (sa_handler (disp s SIGQUIT) = SIG_IGN),
     chld_blocked = sigmask s SIGCHLD\<rparr>"

text \<open>\<^verbatim>\<open>fork\<close> gives the child's PID, \<^verbatim>\<open>waitpid\<close> the status of the child, or an error number; \<^verbatim>\<open>execl\<close> returns only with an
  error.\<close>

record 'k proc_os =
  os_fork :: "sigview \<Rightarrow> 'k \<Rightarrow> (int + int) \<times> 'k"
  os_waitpid :: "sigview \<Rightarrow> int \<Rightarrow> 'k \<Rightarrow> (int + int) \<times> 'k"
  os_execl :: "string \<Rightarrow> string list \<Rightarrow> int option"

section \<open>The child\<close>

definition exec_shell :: "'k proc_os \<Rightarrow> string \<Rightarrow> ('k sigproc, unit) prog" where
  "exec_shell K command s = (case os_execl K ''/bin/sh'' [''sh'', ''-c'', command] of
      None \<Rightarrow> (Inl (Exec ''/bin/sh'' [''sh'', ''-c'', command]), s)
    | Some e \<Rightarrow> (Inl (UExit 127), s\<lparr>errno := e\<rparr>))"

definition system_child ::
  "'k proc_os \<Rightarrow> string \<Rightarrow> sigact \<Rightarrow> sigact \<Rightarrow> (int \<Rightarrow> bool) \<Rightarrow> ('k sigproc, unit) prog" where
  "system_child K command saOrigInt saOrigQuit origMask =
     (let saDefault = \<lparr>sa_handler = SIG_DFL, sa_flags = 0, sa_mask = sigemptyset\<rparr> in
      andthen (whenM (sa_handler saOrigInt \<noteq> SIG_IGN) (modify (sigaction_set SIGINT saDefault)))
     (andthen (whenM (sa_handler saOrigQuit \<noteq> SIG_IGN) (modify (sigaction_set SIGQUIT saDefault)))
     (andthen (modify (sigprocmask_set origMask))
       (exec_shell K command))))"

section \<open>The parent\<close>

text \<open>The status, from the loop over \<^verbatim>\<open>waitpid\<close>; \<open>None\<close> if it is interrupted for ever.\<close>

partial_function (option) wait_loop :: "'k proc_os \<Rightarrow> int \<Rightarrow> 'k sigproc \<Rightarrow> (int \<times> 'k sigproc) option" where
  "wait_loop K childPid s = (case os_waitpid K (view s) childPid (ker s) of
      (Inr status, k) \<Rightarrow> Some (status, s\<lparr>ker := k\<rparr>)
    | (Inl e, k) \<Rightarrow> if e \<noteq> EINTR then Some (- 1, s\<lparr>ker := k, errno := e\<rparr>)
        else wait_loop K childPid (s\<lparr>ker := k, errno := e\<rparr>))"

text \<open>The caller as it is when it forks: \<open>SIGCHLD\<close> blocked, \<open>SIGINT\<close> and \<open>SIGQUIT\<close> ignored.\<close>

definition system_prepare :: "'k sigproc \<Rightarrow> 'k sigproc" where
  "system_prepare s =
     (let saIgnore = \<lparr>sa_handler = SIG_IGN, sa_flags = 0, sa_mask = sigemptyset\<rparr>;
          s1 = sigprocmask_block (sigemptyset(SIGCHLD := True)) s;
          s2 = sigaction_set SIGINT saIgnore s1
      in sigaction_set SIGQUIT saIgnore s2)"

definition system_restore :: "sigact \<Rightarrow> sigact \<Rightarrow> (int \<Rightarrow> bool) \<Rightarrow> 'k sigproc \<Rightarrow> 'k sigproc" where
  "system_restore saOrigInt saOrigQuit origMask s =
     (let savedErrno = errno s;
          s1 = sigprocmask_set origMask s;
          s2 = sigaction_set SIGINT saOrigInt s1;
          s3 = sigaction_set SIGQUIT saOrigQuit s2
      in s3\<lparr>errno := savedErrno\<rparr>)"

definition system_cmd :: "'k proc_os \<Rightarrow> string \<Rightarrow> 'k sigproc \<Rightarrow> (int \<times> 'k sigproc) option" where
  "system_cmd K command s =
     (let s1 = system_prepare s; restore = system_restore (disp s SIGINT) (disp s SIGQUIT) (sigmask s) in
      case os_fork K (view s1) (ker s1) of
        (Inl e, k) \<Rightarrow> Some (- 1, restore (s1\<lparr>ker := k, errno := e\<rparr>))
      | (Inr childPid, k) \<Rightarrow> map_option (apsnd restore) (wait_loop K childPid (s1\<lparr>ker := k\<rparr>)))"

definition system :: "'k proc_os \<Rightarrow> string option \<Rightarrow> 'k sigproc \<Rightarrow> (int \<times> 'k sigproc) option" where
  "system K command s = (case command of
      None \<Rightarrow> map_option (\<lambda>(status, s'). (of_bool (status = 0), s')) (system_cmd K '':'' s)
    | Some c \<Rightarrow> system_cmd K c s)"

text \<open>\<^verbatim>\<open>simple_system.c\<close>: no signal handling.\<close>

definition simple_system :: "'k proc_os \<Rightarrow> string \<Rightarrow> 'k sigproc \<Rightarrow> int \<times> 'k sigproc" where
  "simple_system K command s = (case os_fork K (view s) (ker s) of
      (Inl e, k) \<Rightarrow> (- 1, s\<lparr>ker := k, errno := e\<rparr>)
    | (Inr childPid, k) \<Rightarrow> (case os_waitpid K (view s) childPid k of
        (Inl e, k) \<Rightarrow> (- 1, s\<lparr>ker := k, errno := e\<rparr>)
      | (Inr status, k) \<Rightarrow> (status, s\<lparr>ker := k\<rparr>)))"

section \<open>Lemmas\<close>

lemma noisy_sel [simp]:
  "disp (noisy s) = disp s" "sigmask (noisy s) = sigmask s" "ker (noisy s) = ker s" "sig_noise (noisy s) = sig_noise s"
  by (simp_all add: noisy_def split: option.splits)

lemma prepare_sel:
  "ker (system_prepare s) = ker s" "sigmask (system_prepare s) = (sigmask s)(SIGCHLD := True)"
  "view (system_prepare s) = \<lparr>int_ignored = True, quit_ignored = True, chld_blocked = True\<rparr>"
  by (auto simp: system_prepare_def Let_def sigprocmask_block_def sigaction_set_def view_def sigemptyset_def const_defs)

lemma prepare_disp: "sg \<noteq> SIGINT \<Longrightarrow> sg \<noteq> SIGQUIT \<Longrightarrow> disp (system_prepare s) sg = disp s sg"
  by (simp add: system_prepare_def Let_def sigprocmask_block_def sigaction_set_def)

lemma restore_sel:
  assumes "\<And>sg. sg \<noteq> SIGINT \<Longrightarrow> sg \<noteq> SIGQUIT \<Longrightarrow> disp s' sg = disp s sg"
  shows "disp (system_restore (disp s SIGINT) (disp s SIGQUIT) m s') = disp s"
    "sigmask (system_restore a b m s') = m" "errno (system_restore a b m s') = errno s'" "ker (system_restore a b m s') = ker s'"
  using assms by (auto simp: system_restore_def Let_def sigprocmask_set_def sigaction_set_def fun_eq_iff)

text \<open>The protected view, and the answers of \<^verbatim>\<open>waitpid\<close> one after the other.\<close>

abbreviation guarded :: sigview where
  "guarded \<equiv> \<lparr>int_ignored = True, quit_ignored = True, chld_blocked = True\<rparr>"

primrec interrupted :: "'k proc_os \<Rightarrow> int \<Rightarrow> nat \<Rightarrow> 'k \<Rightarrow> 'k \<Rightarrow> bool" where
  "interrupted K pid 0 k k' \<longleftrightarrow> k' = k"
| "interrupted K pid (Suc n) k k' \<longleftrightarrow> (case os_waitpid K guarded pid k of (r, k1) \<Rightarrow> r = Inl EINTR \<and> interrupted K pid n k1 k')"

lemma view_upd [simp]: "view (s\<lparr>ker := k\<rparr>) = view s" "view (s\<lparr>errno := e\<rparr>) = view s"
  by (simp_all add: view_def)

lemma wait_loop_answers:
  assumes "interrupted K pid n (ker s) k1" "os_waitpid K guarded pid k1 = (r, k2)" "r \<noteq> Inl EINTR" "view s = guarded"
  shows "\<exists>e. wait_loop K pid s = Some (case r of Inr st \<Rightarrow> st | Inl _ \<Rightarrow> - 1, s\<lparr>ker := k2, errno := e\<rparr>)
    \<and> (\<forall>e'. r = Inl e' \<longrightarrow> e = e')"
  using assms
proof (induction n arbitrary: s)
  case 0
  have same: "s\<lparr>errno := errno s, ker := k\<rparr> = s\<lparr>ker := k\<rparr>" for k by simp
  from 0 show ?case
    by (subst wait_loop.simps) (cases r, auto intro!: exI [of _ "errno s"] simp: same)
next
  case (Suc n)
  then obtain k where k: "os_waitpid K guarded pid (ker s) = (Inl EINTR, k)" "interrupted K pid n k k1"
    by (auto split: prod.splits)
  have "\<exists>e. wait_loop K pid (s\<lparr>ker := k, errno := EINTR\<rparr>) =
      Some (case r of Inr st \<Rightarrow> st | Inl _ \<Rightarrow> - 1, s\<lparr>ker := k, errno := EINTR\<rparr>\<lparr>ker := k2, errno := e\<rparr>) \<and> (\<forall>e'. r = Inl e' \<longrightarrow> e = e')"
    by (rule Suc.IH) (use Suc.prems k(2) in simp_all)
  then show ?case by (subst wait_loop.simps) (simp add: Suc.prems(4) k(1))
qed

text \<open>Whatever the answers are, the loop changes nothing but the kernel and \<^verbatim>\<open>errno\<close>.\<close>

lemma wait_loop_frame:
  "wait_loop K pid s = Some y \<Longrightarrow> disp (snd y) = disp s \<and> sigmask (snd y) = sigmask s"
proof (induction rule: wait_loop.raw_induct [rotated 1, consumes 1])
  case (1 wl K pid s y)
  obtain r k where rk: "os_waitpid K (view s) pid (ker s) = (r, k)" by fastforce
  show ?case
  proof (cases "r = Inl EINTR")
    case True
    with 1(2) rk have "wl K pid (s\<lparr>ker := k, errno := EINTR\<rparr>) = Some y" by simp
    from 1(1) [OF this] show ?thesis by simp
  next
    case False
    with 1(2) rk show ?thesis by (auto split: sum.splits if_splits)
  qed
qed

lemma wait_loop_stuck:
  assumes "\<And>n. \<exists>k. interrupted K pid n (ker s) k" "view s = guarded"
  shows "wait_loop K pid s = None"
proof -
  have "wait_loop K pid s = Some y \<Longrightarrow> view s = guarded \<Longrightarrow> \<exists>n. \<forall>k. \<not> interrupted K pid n (ker s) k" for s y
  proof (induction rule: wait_loop.raw_induct [rotated 1, consumes 1])
    case (1 wl K pid s y)
    obtain r k where rk: "os_waitpid K guarded pid (ker s) = (r, k)" by fastforce
    show ?case
    proof (cases "r = Inl EINTR")
      case True
      with 1 rk have "wl K pid (s\<lparr>ker := k, errno := EINTR\<rparr>) = Some y" by simp
      then have "\<exists>n. \<forall>k'. \<not> interrupted K pid n (ker (s\<lparr>ker := k, errno := EINTR\<rparr>)) k'"
        by (rule 1(1)) (simp add: 1(3))
      then obtain n where "\<forall>k'. \<not> interrupted K pid n k k'" by auto
      with rk True have "\<forall>k'. \<not> interrupted K pid (Suc n) (ker s) k'" by simp
      then show ?thesis by blast
    next
      case False
      with rk have "\<forall>k'. \<not> interrupted K pid (Suc 0) (ker s) k'" by simp
      then show ?thesis by blast
    qed
  qed
  with assms show ?thesis by (cases "wait_loop K pid s") blast+
qed

lemma system_cmd_fork_fails:
  "os_fork K guarded (ker s) = (Inl e, k) \<Longrightarrow> \<exists>s'. system_cmd K c s = Some (- 1, s') \<and> errno s' = e"
  by (simp add: system_cmd_def Let_def prepare_sel restore_sel)

lemma system_cmd_waits:
  assumes "os_fork K guarded (ker s) = (Inr pid, k0)" "interrupted K pid n k0 k1"
    "os_waitpid K guarded pid k1 = (r, k2)" "r \<noteq> Inl EINTR"
  shows "\<exists>s'. system_cmd K c s = Some (case r of Inr st \<Rightarrow> st | Inl _ \<Rightarrow> - 1, s') \<and> ker s' = k2
    \<and> (\<forall>e. r = Inl e \<longrightarrow> errno s' = e)"
proof -
  let ?p = "system_prepare s\<lparr>ker := k0\<rparr>"
  have "\<exists>e. wait_loop K pid ?p = Some (case r of Inr st \<Rightarrow> st | Inl _ \<Rightarrow> - 1, ?p\<lparr>ker := k2, errno := e\<rparr>)
      \<and> (\<forall>e'. r = Inl e' \<longrightarrow> e = e')"
    by (rule wait_loop_answers [OF _ assms(3,4)]) (use assms(2) in \<open>simp_all add: prepare_sel\<close>)
  with assms(1) show ?thesis by (auto simp: system_cmd_def Let_def prepare_sel restore_sel)
qed

text \<open>A caller with a handler for \<^verbatim>\<open>SIGINT\<close>, and a kernel that interrupts the wait twice.\<close>

definition sys_caller :: "nat sigproc" where
  "sys_caller = \<lparr>stdout_buf = [], stdout_out = [], stderr_out = [], errno = 0, ef_dumpcore = None, stdio_errno = None, ker = 0,
     disp = (\<lambda>sg. \<lparr>sa_handler = (if sg = SIGINT then Handler 1 else if sg = SIGQUIT then SIG_IGN else SIG_DFL), sa_flags = 0,
       sa_mask = sigemptyset\<rparr>), sigmask = sigemptyset, sig_noise = Some 4\<rparr>"

definition sys_kernel :: "nat proc_os" where
  "sys_kernel = \<lparr>os_fork = (\<lambda>_ k. (Inr 100, k)),
     os_waitpid = (\<lambda>v _ k. (if v = guarded \<and> k < 2 then Inl EINTR else Inr 256, k + 1)), os_execl = (\<lambda>_ _. None)\<rparr>"

lemma sys_example:
  "os_fork sys_kernel guarded (ker sys_caller) = (Inr 100, 0)" "interrupted sys_kernel 100 2 0 2"
  "os_waitpid sys_kernel guarded 100 2 = (Inr 256, 3)"
  by (simp_all add: sys_kernel_def sys_caller_def numeral_2_eq_2)

section \<open>What system promises\<close>

text \<open>Whatever the kernel answers, a call of \<^verbatim>\<open>system\<close> that returns leaves the dispositions of all signals and
  the signal mask of the caller as they were.\<close>

theorem system_restores:
  assumes "system K command s = Some (status, s')"
  shows "disp s' = disp s \<and> sigmask s' = sigmask s"
proof -
  have cmd: "disp s' = disp s \<and> sigmask s' = sigmask s" if "system_cmd K c s = Some (st, s')" for c st s'
    using that unfolding system_cmd_def Let_def
    by (auto split: prod.splits sum.splits dest!: wait_loop_frame simp: restore_sel prepare_disp)
  from assms show ?thesis by (auto simp: system_def split: option.splits dest: cmd)
qed

theorem system_restores_witness:
  "\<exists>s'. system sys_kernel (Some ''date'') sys_caller = Some (256, s') \<and> sa_handler (disp s' SIGINT) = Handler 1 \<and> \<not> sigmask s' SIGCHLD"
proof -
  from system_cmd_waits [OF sys_example, of "''date''"]
  obtain s' where s': "system sys_kernel (Some ''date'') sys_caller = Some (256, s')" by (auto simp: system_def)
  from system_restores [OF s'] show ?thesis
    using s' by (auto simp: sys_caller_def sigemptyset_def const_defs)
qed

text \<open>C20. When the child is created and \<^verbatim>\<open>waitpid\<close>, asked with \<^verbatim>\<open>SIGINT\<close> and \<^verbatim>\<open>SIGQUIT\<close> ignored and \<^verbatim>\<open>SIGCHLD\<close>
  blocked, is interrupted any number of times before it answers, \<^verbatim>\<open>system\<close> returns: the child's status, or -1 with
  the error of \<^verbatim>\<open>waitpid\<close>, which the restoring calls do not overwrite; for a null command, whether the status is 0.
  If \<^verbatim>\<open>fork\<close> fails it returns -1 with the error of \<^verbatim>\<open>fork\<close> (and says 0 for a null command). If every wait is interrupted
  it never returns.\<close>

theorem system_returns:
  assumes "os_fork K guarded (ker s) = (f, k0)"
  shows "case f of
      Inl e \<Rightarrow> \<exists>s'. errno s' = e \<and> system K command s = Some (case command of Some _ \<Rightarrow> - 1 | None \<Rightarrow> 0, s')
    | Inr pid \<Rightarrow>
        (\<forall>n k1 r k2. interrupted K pid n k0 k1 \<and> os_waitpid K guarded pid k1 = (r, k2) \<and> r \<noteq> Inl EINTR \<longrightarrow>
          (\<exists>s' status. status = (case r of Inr st \<Rightarrow> st | Inl _ \<Rightarrow> - 1) \<and> ker s' = k2 \<and> (\<forall>e. r = Inl e \<longrightarrow> errno s' = e)
            \<and> system K command s = Some (case command of Some _ \<Rightarrow> status | None \<Rightarrow> of_bool (status = 0), s')))
        \<and> ((\<forall>n. \<exists>k. interrupted K pid n k0 k) \<longrightarrow> system K command s = None)"
proof (cases f)
  case (Inl e)
  with assms system_cmd_fork_fails [of K s e k0 "case command of None \<Rightarrow> '':'' | Some c \<Rightarrow> c"] show ?thesis
    by (cases command) (auto simp: system_def)
next
  case (Inr pid)
  have answered: "\<exists>s' status. status = (case r of Inr st \<Rightarrow> st | Inl _ \<Rightarrow> - 1) \<and> ker s' = k2 \<and> (\<forall>e. r = Inl e \<longrightarrow> errno s' = e)
      \<and> system K command s = Some (case command of Some _ \<Rightarrow> status | None \<Rightarrow> of_bool (status = 0), s')"
    if "interrupted K pid n k0 k1" "os_waitpid K guarded pid k1 = (r, k2)" "r \<noteq> Inl EINTR" for n k1 r k2
    using system_cmd_waits [OF _ that, of s "case command of None \<Rightarrow> '':'' | Some c \<Rightarrow> c"] assms Inr
    by (cases command) (auto simp: system_def)
  have stuck: "system K command s = None" if "\<forall>n. \<exists>k. interrupted K pid n k0 k"
    using that assms Inr wait_loop_stuck [of K pid "system_prepare s\<lparr>ker := k0\<rparr>"]
    by (simp add: system_def system_cmd_def Let_def prepare_sel split: option.split)
  show ?thesis unfolding Inr sum.case
    by (intro conjI allI impI, elim conjE, rule answered, assumption+) (rule stuck)
qed

theorem system_returns_witness:
  "\<exists>s'. system sys_kernel None sys_caller = Some (0, s') \<and> ker s' = 3"
proof -
  from system_returns [OF sys_example(1), of None, unfolded sum.case, THEN conjunct1, rule_format, of 2 2 "Inr 256" 3]
  show ?thesis using sys_example by auto
qed

text \<open>The child executes the shell (or ends with status 127 if it cannot) with the signal mask the caller of
  \<^verbatim>\<open>system\<close> had before the call, with \<^verbatim>\<open>SIGINT\<close> and \<^verbatim>\<open>SIGQUIT\<close> ignored if the caller ignored them and at their default
  otherwise, and with the caller's disposition of every other signal.\<close>

theorem system_child_attributes:
  "\<exists>s' h. system_child K command (disp s SIGINT) (disp s SIGQUIT) (sigmask s) (system_prepare s) = (Inl h, s')
    \<and> h = (if os_execl K ''/bin/sh'' [''sh'', ''-c'', command] = None then Exec ''/bin/sh'' [''sh'', ''-c'', command] else UExit 127)
    \<and> sigmask s' = sigmask s
    \<and> sa_handler \<circ> disp s' = (\<lambda>sg. if sg \<in> {SIGINT, SIGQUIT} \<and> sa_handler (disp s sg) \<noteq> SIG_IGN then SIG_DFL else sa_handler (disp s sg))"
  by (auto simp: system_child_def Let_def prog_simps exec_shell_def system_prepare_def sigprocmask_block_def sigprocmask_set_def
      sigaction_set_def whenM_def fun_eq_iff const_defs split: option.splits)

text \<open>On a kernel for which the caller's signals make no difference, and which does not interrupt the wait, the
  version without signal handling returns the same status and leaves the same dispositions and mask.\<close>

theorem simple_system_agrees:
  assumes "\<And>v k. os_fork K v k = fork k" "\<And>v pid k. os_waitpid K v pid k = wait pid k"
    "\<And>pid k k'. wait pid k \<noteq> (Inl EINTR, k')"
  shows "\<exists>s1 s2 status. system K (Some command) s = Some (status, s1) \<and> simple_system K command s = (status, s2)
    \<and> disp s1 = disp s2 \<and> sigmask s1 = sigmask s2 \<and> ker s1 = ker s2"
proof -
  obtain f k0 where fork: "fork (ker s) = (f, k0)" by fastforce
  show ?thesis
  proof (cases f)
    case (Inl e)
    with fork show ?thesis
      by (simp add: system_def system_cmd_def simple_system_def Let_def assms(1) prepare_sel restore_sel prepare_disp)
  next
    case (Inr pid)
    obtain r k1 where w: "wait pid k0 = (r, k1)" by fastforce
    with assms(3) have "r \<noteq> Inl EINTR" by auto
    with fork w Inr show ?thesis
      by (subst system_def, simp add: system_cmd_def simple_system_def Let_def assms(1) prepare_sel, subst wait_loop.simps)
        (cases r, auto simp: assms(2) restore_sel prepare_sel prepare_disp)
  qed
qed

theorem simple_system_agrees_witness:
  "\<exists>s1. system (sys_kernel\<lparr>os_waitpid := \<lambda>_ _ k. (Inr 256, k)\<rparr>) (Some ''date'') sys_caller = Some (256, s1) \<and> disp s1 = disp sys_caller"
  using simple_system_agrees [where K = "sys_kernel\<lparr>os_waitpid := \<lambda>_ _ k. (Inr 256, k)\<rparr>" and fork = "Pair (Inr 100)"
      and wait = "\<lambda>_. Pair (Inr 256)" and command = "''date''" and s = sys_caller]
  by (auto simp: sys_kernel_def simple_system_def)

end
