(* ===== verification/Svmsg_File.thy ===== *)
theory Svmsg_File
  imports Runs Error_Functions
begin

text \<open>
  \<^verbatim>\<open>tlpi-book/svmsg/svmsg_file_server.c\<close> and \<^verbatim>\<open>svmsg_file_client.c\<close>: a file server over System V message queues. The
  server forks a child for each request; the child reads the file and sends it, in messages of at most
  \<^verbatim>\<open>RESP_MSG_SIZE\<close> bytes, to the private queue of the client, which counts bytes and messages. Any number of
  clients run at the same time. A step is one system call of one process, together with the code up to the
  next call. The queues are those of the kernel's documentation: \<^verbatim>\<open>msgsnd\<close> waits while the queue is full
  (\<open>Q\<close> is its limit in bytes, and in messages), \<^verbatim>\<open>msgrcv\<close> waits while it is empty, and both fail when it has been
  removed. The queue identifier of a client is its number; identifiers are not used again within a run.
\<close>

section \<open>Messages and queues\<close>

definition RESP_MSG_SIZE :: nat where "RESP_MSG_SIZE = 8192"
definition REQ_MSG_SIZE :: nat where "REQ_MSG_SIZE = 4100"
definition RESP_MT_FAILURE :: int where [const_defs]: "RESP_MT_FAILURE = 1"
definition RESP_MT_DATA :: int where [const_defs]: "RESP_MT_DATA = 2"
definition RESP_MT_END :: int where [const_defs]: "RESP_MT_END = 3"

record requestMsg =
  clientId :: nat
  pathname :: string

record responseMsg =
  mtype :: int
  data :: string

definition msg_bytes :: "responseMsg list \<Rightarrow> nat" where
  "msg_bytes q = sum_list (map (\<lambda>m. length (data m)) q)"

definition resp_room :: "nat \<Rightarrow> nat \<Rightarrow> responseMsg list \<Rightarrow> bool" where
  "resp_room Q n q \<longleftrightarrow> msg_bytes q + n \<le> Q \<and> length q + 1 \<le> Q"

definition req_room :: "nat \<Rightarrow> requestMsg list \<Rightarrow> bool" where
  "req_room Q q \<longleftrightarrow> (length q + 1) * REQ_MSG_SIZE \<le> Q \<and> length q + 1 \<le> Q"

section \<open>Processes\<close>

datatype mpc = MStart | MGetServer | MGetClient | MAtexit | MSend | MFirst | MLoop | MRemove halt | MEnd halt

record client =
  c_pc :: mpc
  c_argv :: "string list"
  c_tot :: int
  c_num :: int
  c_io :: proc_io

datatype kpc = KOpen | KRead | KSend string | KFinal | KFail | KZombie int | KReaped int

record kid =
  k_pc :: kpc
  k_req :: requestMsg
  k_left :: string

datatype spc = SGet | SSig | SRecv | SFork requestMsg | SRemove | SEnd halt

record fs_state =
  clis :: "client list"
  cqs :: "responseMsg list option list"
  srv :: spc
  srv_io :: proc_io
  srvq :: "requestMsg list option"
  kids :: "kid list"

definition resp_queue :: "nat \<Rightarrow> fs_state \<Rightarrow> responseMsg list option" where
  "resp_queue i s = (if i < length (cqs s) then cqs s ! i else None)"

definition set_queue :: "nat \<Rightarrow> responseMsg list option \<Rightarrow> fs_state \<Rightarrow> fs_state" where
  "set_queue i q s = s\<lparr>cqs := (cqs s)[i := q]\<rparr>"

definition set_client :: "nat \<Rightarrow> client \<Rightarrow> fs_state \<Rightarrow> fs_state" where
  "set_client i c s = s\<lparr>clis := (clis s)[i := c]\<rparr>"

definition set_kid :: "nat \<Rightarrow> kid \<Rightarrow> fs_state \<Rightarrow> fs_state" where
  "set_kid j k s = s\<lparr>kids := (kids s)[j := k]\<rparr>"

section \<open>The client\<close>

text \<open>A failing call: the message of \<^verbatim>\<open>errExit\<close>, then the exit handler if it is registered.\<close>

definition client_fail :: "(int \<Rightarrow> string) \<Rightarrow> string \<Rightarrow> int \<Rightarrow> client \<Rightarrow> client" where
  "client_fail strerror msg e c =
     (case errExit strerror msg (c_io c\<lparr>errno := e\<rparr>) :: (halt + unit) \<times> proc_io of (r, io) \<Rightarrow>
      let h = (case r of Inl h \<Rightarrow> h | Inr _ \<Rightarrow> Undef)
      in c\<lparr>c_io := io, c_pc := (if c_pc c \<in> {MSend, MFirst, MLoop} \<and> h \<noteq> Abort then MRemove h else MEnd h)\<rparr>)"

definition client_start :: "client \<Rightarrow> client" where
  "client_start c = (case c_argv c of
      [p, f] \<Rightarrow>
        if f = ''--help'' then (case usageErr (p @ '' pathname'' @ [NL]) (c_io c) :: (halt + unit) \<times> proc_io of
            (_, io) \<Rightarrow> c\<lparr>c_io := io, c_pc := MEnd (Exit EXIT_FAILURE)\<rparr>)
        else if length f > PATH_MAX - 1 then
          (case cmdLineErr (''pathname too long (max: '' @ show_nat (PATH_MAX - 1) @ '' bytes)'' @ [NL]) (c_io c) :: (halt + unit) \<times> proc_io of
            (_, io) \<Rightarrow> c\<lparr>c_io := io, c_pc := MEnd (Exit EXIT_FAILURE)\<rparr>)
        else c\<lparr>c_pc := MGetServer\<rparr>
    | argv \<Rightarrow> (case usageErr ((case argv of [] \<Rightarrow> ''(null)'' | p # _ \<Rightarrow> p) @ '' pathname'' @ [NL]) (c_io c) :: (halt + unit) \<times> proc_io of
            (_, io) \<Rightarrow> c\<lparr>c_io := io, c_pc := MEnd (Exit EXIT_FAILURE)\<rparr>))"

definition client_path :: "client \<Rightarrow> string" where
  "client_path c = c_argv c ! 1"

definition make_request :: "nat \<Rightarrow> client \<Rightarrow> requestMsg" where
  "make_request i c = \<lparr>clientId = i, pathname = strncpy (PATH_MAX - 1) (client_path c)\<rparr>"

definition report :: "int \<Rightarrow> int \<Rightarrow> string" where
  "report tot num = ''Received '' @ show_int tot @ '' bytes ('' @ show_int num @ '' messages)'' @ [NL]"

text \<open>The test of the \<^verbatim>\<open>for\<close> loop, and the report behind it.\<close>

definition client_check :: "int \<Rightarrow> client \<Rightarrow> client" where
  "client_check t c = (if t = RESP_MT_DATA then c\<lparr>c_pc := MLoop\<rparr>
     else c\<lparr>c_io := printf_stdout (report (c_tot c) (c_num c)) (c_io c), c_pc := MRemove (Exit EXIT_SUCCESS)\<rparr>)"

definition client_first :: "responseMsg \<Rightarrow> client \<Rightarrow> client" where
  "client_first resp c = (if mtype resp = RESP_MT_FAILURE
     then c\<lparr>c_io := printf_stdout (takeWhile (\<lambda>x. x \<noteq> NUL) (data resp) @ [NL]) (c_io c), c_pc := MRemove (Exit EXIT_FAILURE)\<rparr>
     else client_check (mtype resp) (c\<lparr>c_tot := int (length (data resp)), c_num := 1\<rparr>))"

text \<open>The counter of messages is an \<^verbatim>\<open>int\<close>: after \<open>2\<^sup>3\<^sup>1 - 1\<close> messages its increment overflows.\<close>

definition client_next :: "responseMsg \<Rightarrow> client \<Rightarrow> client" where
  "client_next resp c = (if c_num c = INT_MAX then c\<lparr>c_pc := MEnd Undef\<rparr>
     else client_check (mtype resp) (c\<lparr>c_tot := c_tot c + int (length (data resp)), c_num := c_num c + 1\<rparr>))"

definition removeQueue :: "nat \<Rightarrow> halt \<Rightarrow> fs_state \<Rightarrow> fs_state" where
  "removeQueue i h s = (let c = clis s ! i in
     set_queue i None (set_client i (c\<lparr>c_io := fflush_stdout (c_io c), c_pc := MEnd h\<rparr>) s))"

definition client_call :: "mpc \<Rightarrow> string" where
  "client_call p = (case p of MGetServer \<Rightarrow> ''msgget - server message queue'' | MGetClient \<Rightarrow> ''msgget - client message queue''
     | MAtexit \<Rightarrow> ''atexit'' | MSend \<Rightarrow> ''msgsnd'' | MFirst \<Rightarrow> ''msgrcv'' | MLoop \<Rightarrow> ''msgrcv'' | MRemove _ \<Rightarrow> ''msgctl'' | _ \<Rightarrow> [])"

definition client_step :: "nat \<Rightarrow> (int \<Rightarrow> string) \<Rightarrow> nat \<Rightarrow> fs_state \<Rightarrow> fs_state option" where
  "client_step Q strerror i s =
     (let c = clis s ! i; go = (\<lambda>p. set_client i (c\<lparr>c_pc := p\<rparr>) s);
          failing = (\<lambda>e. set_client i (client_fail strerror (client_call (c_pc c)) e c) s) in
      case c_pc c of
        MStart \<Rightarrow> Some (set_client i (client_start c) s)
      | MGetServer \<Rightarrow> Some (if srvq s = None then failing ENOENT else go MGetClient)
      | MGetClient \<Rightarrow> Some (set_queue i (Some []) (go MAtexit))
      | MAtexit \<Rightarrow> Some (go MSend)
      | MSend \<Rightarrow> (case srvq s of
            None \<Rightarrow> Some (failing EIDRM)
          | Some q \<Rightarrow> if req_room Q q then Some ((go MFirst)\<lparr>srvq := Some (q @ [make_request i c])\<rparr>) else None)
      | MFirst \<Rightarrow> (case resp_queue i s of
            None \<Rightarrow> Some (failing EIDRM)
          | Some [] \<Rightarrow> None
          | Some (m # ms) \<Rightarrow> Some (set_queue i (Some ms) (set_client i (client_first m c) s)))
      | MLoop \<Rightarrow> (case resp_queue i s of
            None \<Rightarrow> Some (failing EIDRM)
          | Some [] \<Rightarrow> None
          | Some (m # ms) \<Rightarrow> Some (set_queue i (Some ms) (set_client i (client_next m c) s)))
      | MRemove h \<Rightarrow> Some (removeQueue i h s)
      | MEnd _ \<Rightarrow> None)"

section \<open>The server\<close>

text \<open>\<^verbatim>\<open>msgsnd\<close> on the queue of a client: \<open>None\<close> while it waits, otherwise whether it succeeded.\<close>

definition msgsnd_resp :: "nat \<Rightarrow> nat \<Rightarrow> responseMsg \<Rightarrow> fs_state \<Rightarrow> (bool \<times> fs_state) option" where
  "msgsnd_resp Q i m s = (case resp_queue i s of
      None \<Rightarrow> Some (False, s)
    | Some q \<Rightarrow> if resp_room Q (length (data m)) q then Some (True, set_queue i (Some (q @ [m])) s) else None)"

definition failure_msg :: responseMsg where
  "failure_msg = \<lparr>mtype = RESP_MT_FAILURE, data = snprintf RESP_MSG_SIZE ''Couldn't open'' @ [NUL]\<rparr>"

definition end_msg :: responseMsg where
  "end_msg = \<lparr>mtype = RESP_MT_END, data = []\<rparr>"

text \<open>The child that serves a request; \<open>n\<close> is the number of bytes \<^verbatim>\<open>read\<close> delivers.\<close>

definition serveRequest :: "(string \<Rightarrow> string option) \<Rightarrow> nat \<Rightarrow> nat \<Rightarrow> nat \<Rightarrow> fs_state \<Rightarrow> fs_state option" where
  "serveRequest files Q n j s =
     (let k = kids s ! j; i = clientId (k_req k) in
      case k_pc k of
        KOpen \<Rightarrow> Some (set_kid j (case files (pathname (k_req k)) of
            None \<Rightarrow> k\<lparr>k_pc := KFail\<rparr> | Some content \<Rightarrow> k\<lparr>k_pc := KRead, k_left := content\<rparr>) s)
      | KFail \<Rightarrow> map_option (\<lambda>(_, s'). set_kid j (k\<lparr>k_pc := KZombie EXIT_FAILURE\<rparr>) s') (msgsnd_resp Q i failure_msg s)
      | KRead \<Rightarrow> Some (set_kid j (if k_left k = [] then k\<lparr>k_pc := KFinal\<rparr>
            else k\<lparr>k_pc := KSend (take n (k_left k)), k_left := drop n (k_left k)\<rparr>) s)
      | KSend d \<Rightarrow> map_option (\<lambda>(sent, s'). set_kid j (k\<lparr>k_pc := (if sent then KRead else KFinal)\<rparr>) s')
            (msgsnd_resp Q i \<lparr>mtype = RESP_MT_DATA, data = d\<rparr> s)
      | KFinal \<Rightarrow> map_option (\<lambda>(_, s'). set_kid j (k\<lparr>k_pc := KZombie EXIT_SUCCESS\<rparr>) s') (msgsnd_resp Q i end_msg s)
      | KZombie _ \<Rightarrow> None
      | KReaped _ \<Rightarrow> None)"

text \<open>The handler of \<^verbatim>\<open>SIGCHLD\<close> reaps children until \<^verbatim>\<open>waitpid\<close> finds no more, and leaves \<^verbatim>\<open>errno\<close> alone.\<close>

definition is_zombie :: "kid \<Rightarrow> bool" where
  "is_zombie k = (case k_pc k of KZombie _ \<Rightarrow> True | _ \<Rightarrow> False)"

definition reap :: "kid \<Rightarrow> kid" where
  "reap k = (case k_pc k of KZombie z \<Rightarrow> k\<lparr>k_pc := KReaped z\<rparr> | _ \<Rightarrow> k)"

function grimReaper :: "kid list \<Rightarrow> kid list" where
  "grimReaper ks = (case find_index is_zombie ks of None \<Rightarrow> ks | Some j \<Rightarrow> grimReaper (ks[j := reap (ks ! j)]))"
  by pat_completeness auto

text \<open>The loop of the parent. The number \<open>e\<close> is the error of a failing call.\<close>

definition server_step :: "(int \<Rightarrow> string) \<Rightarrow> fs_state \<Rightarrow> fs_state option" where
  "server_step strerror s = (case srv s of
      SGet \<Rightarrow> (case srvq s of
          None \<Rightarrow> Some (s\<lparr>srvq := Some [], srv := SSig\<rparr>)
        | Some _ \<Rightarrow> (case errExit strerror ''msgget'' (srv_io s\<lparr>errno := EEXIST\<rparr>) :: (halt + unit) \<times> proc_io of
            (r, io) \<Rightarrow> Some (s\<lparr>srv_io := io, srv := SEnd (case r of Inl h \<Rightarrow> h | Inr _ \<Rightarrow> Undef)\<rparr>)))
    | SSig \<Rightarrow> Some (s\<lparr>srv := SRecv\<rparr>)
    | SRecv \<Rightarrow> (case srvq s of
          None \<Rightarrow> Some (s\<lparr>srv_io := errMsg strerror ''msgrcv'' (srv_io s\<lparr>errno := EIDRM\<rparr>), srv := SRemove\<rparr>)
        | Some [] \<Rightarrow> None
        | Some (r # rs) \<Rightarrow> Some (s\<lparr>srvq := Some rs, srv := SFork r\<rparr>))
    | SFork r \<Rightarrow> Some (s\<lparr>kids := kids s @ [\<lparr>k_pc = KOpen, k_req = r, k_left = []\<rparr>], srv := SRecv\<rparr>)
    | SRemove \<Rightarrow> (case srvq s of
          Some _ \<Rightarrow> Some (s\<lparr>srvq := None, srv := SEnd (Exit EXIT_SUCCESS)\<rparr>)
        | None \<Rightarrow> (case errExit strerror ''msgctl'' (srv_io s\<lparr>errno := EINVAL\<rparr>) :: (halt + unit) \<times> proc_io of
            (r, io) \<Rightarrow> Some (s\<lparr>srv_io := io, srv := SEnd (case r of Inl h \<Rightarrow> h | Inr _ \<Rightarrow> Undef)\<rparr>)))
    | SEnd _ \<Rightarrow> None)"

definition server_fail :: "(int \<Rightarrow> string) \<Rightarrow> int \<Rightarrow> fs_state \<Rightarrow> fs_state option" where
  "server_fail strerror e s =
     (let io = srv_io s\<lparr>errno := e\<rparr>;
          ending = (\<lambda>msg. case errExit strerror msg io :: (halt + unit) \<times> proc_io of
            (r, io') \<Rightarrow> Some (s\<lparr>srv_io := io', srv := SEnd (case r of Inl h \<Rightarrow> h | Inr _ \<Rightarrow> Undef)\<rparr>)) in
      case srv s of
        SGet \<Rightarrow> ending ''msgget''
      | SSig \<Rightarrow> ending ''sigaction''
      | SRecv \<Rightarrow> Some (if e = EINTR then s\<lparr>srv_io := io\<rparr> else s\<lparr>srv_io := errMsg strerror ''msgrcv'' io, srv := SRemove\<rparr>)
      | SFork r \<Rightarrow> Some (s\<lparr>srv_io := errMsg strerror ''fork'' io, srv := SRemove\<rparr>)
      | SRemove \<Rightarrow> ending ''msgctl''
      | SEnd _ \<Rightarrow> None)"

section \<open>The whole system\<close>

inductive fs_step :: "(string \<Rightarrow> string option) \<Rightarrow> nat \<Rightarrow> (int \<Rightarrow> string) \<Rightarrow> fs_state \<Rightarrow> fs_state \<Rightarrow> bool"
  for files :: "string \<Rightarrow> string option" and Q :: nat and strerror :: "int \<Rightarrow> string" where
  client: "i < length (clis s) \<Longrightarrow> client_step Q strerror i s = Some s' \<Longrightarrow> fs_step files Q strerror s s'"
| server: "server_step strerror s = Some s' \<Longrightarrow> fs_step files Q strerror s s'"
| child: "j < length (kids s) \<Longrightarrow> 0 < n \<Longrightarrow> n \<le> RESP_MSG_SIZE \<Longrightarrow> serveRequest files Q n j s = Some s' \<Longrightarrow> fs_step files Q strerror s s'"
| sigchld: "srv s \<notin> {SGet, SSig} \<Longrightarrow> \<nexists>h. srv s = SEnd h \<Longrightarrow> \<exists>k \<in> set (kids s). is_zombie k \<Longrightarrow>
    fs_step files Q strerror s (s\<lparr>kids := grimReaper (kids s)\<rparr>)"

text \<open>The same system when any call may fail: a child then goes on as if the file had ended, and says nothing.\<close>

definition child_fail :: "nat \<Rightarrow> fs_state \<Rightarrow> fs_state option" where
  "child_fail j s = (let k = kids s ! j; go = (\<lambda>p. Some (set_kid j (k\<lparr>k_pc := p\<rparr>) s)) in
     case k_pc k of KOpen \<Rightarrow> go KFail | KFail \<Rightarrow> go (KZombie EXIT_FAILURE) | KRead \<Rightarrow> go KFinal | KSend _ \<Rightarrow> go KFinal
       | KFinal \<Rightarrow> go (KZombie EXIT_SUCCESS) | _ \<Rightarrow> None)"

inductive fs_fstep :: "(string \<Rightarrow> string option) \<Rightarrow> nat \<Rightarrow> (int \<Rightarrow> string) \<Rightarrow> fs_state \<Rightarrow> fs_state \<Rightarrow> bool"
  for files :: "string \<Rightarrow> string option" and Q :: nat and strerror :: "int \<Rightarrow> string" where
  works: "fs_step files Q strerror s s' \<Longrightarrow> fs_fstep files Q strerror s s'"
| client_fails: "i < length (clis s) \<Longrightarrow> c_pc (clis s ! i) \<notin> {MStart} \<Longrightarrow> \<nexists>h. c_pc (clis s ! i) = MEnd h \<Longrightarrow>
    fs_fstep files Q strerror s (set_client i (client_fail strerror (client_call (c_pc (clis s ! i))) e (clis s ! i)) s)"
| server_fails: "server_fail strerror e s = Some s' \<Longrightarrow> fs_fstep files Q strerror s s'"
| child_fails: "j < length (kids s) \<Longrightarrow> child_fail j s = Some s' \<Longrightarrow> fs_fstep files Q strerror s s'"

definition fs_init :: "bool \<Rightarrow> proc_io \<Rightarrow> string list list \<Rightarrow> fs_state" where
  "fs_init started io argvs = \<lparr>clis = map (\<lambda>argv. \<lparr>c_pc = MStart, c_argv = argv, c_tot = 0, c_num = 0, c_io = io\<rparr>) argvs,
     cqs = map (\<lambda>_. None) argvs, srv = (if started then SRecv else SGet), srv_io = io, srvq = (if started then Some [] else None), kids = []\<rparr>"

section \<open>Lemmas on the operations\<close>

lemma fs_sel [simp]:
  "clis (set_queue i q s) = clis s" "cqs (set_queue i q s) = (cqs s)[i := q]" "srv (set_queue i q s) = srv s"
  "srvq (set_queue i q s) = srvq s" "kids (set_queue i q s) = kids s"
  "clis (set_client i c s) = (clis s)[i := c]" "cqs (set_client i c s) = cqs s" "srv (set_client i c s) = srv s"
  "srvq (set_client i c s) = srvq s" "kids (set_client i c s) = kids s"
  "clis (set_kid j k s) = clis s" "cqs (set_kid j k s) = cqs s" "srv (set_kid j k s) = srv s"
  "srvq (set_kid j k s) = srvq s" "kids (set_kid j k s) = (kids s)[j := k]"
  by (simp_all add: set_queue_def set_client_def set_kid_def)

lemma reap_sel [simp]: "k_req (reap k) = k_req k" "\<not> is_zombie (reap k)"
  by (simp_all add: reap_def is_zombie_def split: kpc.split)

lemma reap_other: "\<not> is_zombie k \<Longrightarrow> reap k = k"
  by (simp add: reap_def is_zombie_def split: kpc.splits)

termination grimReaper
proof (relation "measure (\<lambda>ks. length (filter is_zombie ks))")
  fix ks j
  assume "find_index is_zombie ks = Some j"
  then have j: "j < length ks" "is_zombie (ks ! j)" by (simp_all add: find_index_Some)
  from length_filter_update [of j "ks[j := reap (ks ! j)]" is_zombie "ks ! j"] j
  show "(ks[j := reap (ks ! j)], ks) \<in> measure (\<lambda>ks. length (filter is_zombie ks))" by simp
qed simp

declare grimReaper.simps [simp del]

lemma grimReaper_map: "grimReaper ks = map reap ks"
proof (induction ks rule: grimReaper.induct)
  case (1 ks)
  show ?case
  proof (cases "find_index is_zombie ks")
    case None
    then have "map reap ks = ks" by (intro map_idI) (simp add: reap_other)
    with None show ?thesis by (subst grimReaper.simps) (simp del: find_index_None)
  next
    case (Some j)
    with 1 [OF Some] have "grimReaper ks = map reap (ks[j := reap (ks ! j)])" by (subst grimReaper.simps) simp
    also have "\<dots> = map reap ks"
      using find_index_SomeD [OF Some] by (auto simp: list_eq_iff_nth_eq nth_list_update reap_other)
    finally show ?thesis .
  qed
qed

text \<open>What a client has written to its standard output.\<close>

definition said :: "client \<Rightarrow> string" where
  "said c = stdout_out (c_io c) @ stdout_buf (c_io c)"

lemma client_fail_sel [simp]:
  "c_argv (client_fail sr msg e c) = c_argv c" "said (client_fail sr msg e c) = said c"
  by (auto simp: client_fail_def Let_def said_def errExit_def terminate_proc_def exit3_def split: prod.split)

lemma client_fail_gone: "\<exists>h. c_pc (client_fail sr msg e c) = MRemove h \<or> c_pc (client_fail sr msg e c) = MEnd h"
  by (auto simp: client_fail_def Let_def split: prod.split)

definition argv_ok :: "string list \<Rightarrow> bool" where
  "argv_ok argv \<longleftrightarrow> length argv = 2 \<and> argv ! 1 \<noteq> ''--help'' \<and> length (argv ! 1) < PATH_MAX"

lemma client_start_sel [simp]:
  "c_argv (client_start c) = c_argv c" "said (client_start c) = said c"
  "c_pc (client_start c) = (if argv_ok (c_argv c) then MGetServer else MEnd (Exit EXIT_FAILURE))"
  by (auto simp: client_start_def argv_ok_def said_def usageErr_def cmdLineErr_def exit3_def Let_def const_defs
      split: list.splits)

section \<open>The channel of a client\<close>

text \<open>Where the request of a client is: not sent (or lost), with the server, or with a child.\<close>

datatype stage = Fresh | Asked | Served kid

definition pend :: "fs_state \<Rightarrow> requestMsg list" where
  "pend s = (case srv s of SFork r \<Rightarrow> [r] | _ \<Rightarrow> []) @ (case srvq s of Some q \<Rightarrow> q | None \<Rightarrow> [])"

abbreviation kid_id :: "kid \<Rightarrow> nat" where
  "kid_id k \<equiv> clientId (k_req k)"

definition stage :: "nat \<Rightarrow> requestMsg list \<Rightarrow> kid list \<Rightarrow> stage" where
  "stage i rs ks = (case find (\<lambda>k. kid_id k = i) ks of
      Some k \<Rightarrow> Served k
    | None \<Rightarrow> if i \<in> clientId ` set rs then Asked else Fresh)"

definition data_ok :: "responseMsg \<Rightarrow> bool" where
  "data_ok m \<longleftrightarrow> mtype m = RESP_MT_DATA \<and> 1 \<le> length (data m) \<and> length (data m) \<le> RESP_MSG_SIZE"

text \<open>What a client has counted so far, and that it has written nothing yet.\<close>

definition live :: "bool \<Rightarrow> string \<Rightarrow> client \<Rightarrow> responseMsg list \<Rightarrow> nat \<Rightarrow> bool" where
  "live strict content c ms a \<longleftrightarrow> said c = [] \<and> list_all data_ok ms \<and>
     (\<exists>got num. (c_pc c = MFirst \<and> got = 0 \<and> num = 0 \<or> c_pc c = MLoop \<and> got = c_tot c \<and> num = c_num c) \<and>
       num \<le> got \<and> got \<le> int RESP_MSG_SIZE * num \<and> got + int (msg_bytes ms + a) \<le> int (length content) \<and>
       (strict \<longrightarrow> got + int (msg_bytes ms + a) = int (length content)))"

definition reported :: "bool \<Rightarrow> string \<Rightarrow> client \<Rightarrow> bool" where
  "reported strict content c \<longleftrightarrow> (\<exists>n m. said c = report n (m + 1) \<and> n \<le> int (length content) \<and>
     (strict \<longrightarrow> n = int (length content)) \<and> m \<le> n \<and> n \<le> int RESP_MSG_SIZE * m)"

definition refused :: "client \<Rightarrow> bool" where
  "refused c \<longleftrightarrow> said c = ''Couldn't open'' @ [NL]"

text \<open>The client leaves, with status \<open>z\<close>.\<close>

definition leaving :: "int \<Rightarrow> client \<Rightarrow> responseMsg list option \<Rightarrow> bool" where
  "leaving z c q \<longleftrightarrow> c_pc c = MRemove (Exit z) \<and> q = Some [] \<or> c_pc c = MEnd (Exit z) \<and> q = None"

definition waiting :: "client \<Rightarrow> responseMsg list option \<Rightarrow> bool" where
  "waiting c q \<longleftrightarrow> c_pc c = MFirst \<and> q = Some [] \<and> said c = []"

definition gone :: "client \<Rightarrow> bool" where
  "gone c \<longleftrightarrow> (\<exists>h. c_pc c = MRemove h \<or> c_pc c = MEnd h)"

definition dead :: "(string \<Rightarrow> string option) \<Rightarrow> client \<Rightarrow> bool" where
  "dead files c \<longleftrightarrow> gone c \<and>
     (said c = [] \<or> refused c \<or> (\<exists>content. files (client_path c) = Some content \<and> reported False content c))"

definition served_gone :: "(string \<Rightarrow> string option) \<Rightarrow> bool \<Rightarrow> int \<Rightarrow> client \<Rightarrow> responseMsg list option \<Rightarrow> bool" where
  "served_gone files strict z c q \<longleftrightarrow>
     (z = EXIT_SUCCESS \<and> (\<exists>content. files (client_path c) = Some content \<and>
        ((\<exists>ms. (q = Some (ms @ [end_msg]) \<or> \<not> strict \<and> q = Some ms) \<and> live strict content c ms 0) \<or>
         leaving EXIT_SUCCESS c q \<and> reported strict content c))) \<or>
     (z = EXIT_FAILURE \<and> (strict \<longrightarrow> files (client_path c) = None) \<and>
        (c_pc c = MFirst \<and> said c = [] \<and> (q = Some [failure_msg] \<or> \<not> strict \<and> q = Some []) \<or>
         leaving EXIT_FAILURE c q \<and> refused c))"

definition served :: "(string \<Rightarrow> string option) \<Rightarrow> bool \<Rightarrow> kid \<Rightarrow> client \<Rightarrow> responseMsg list option \<Rightarrow> bool" where
  "served files strict k c q \<longleftrightarrow> pathname (k_req k) = client_path c \<and> argv_ok (c_argv c) \<and>
     (case k_pc k of
        KOpen \<Rightarrow> waiting c q
      | KFail \<Rightarrow> waiting c q \<and> (strict \<longrightarrow> files (client_path c) = None)
      | KRead \<Rightarrow> \<exists>content ms. files (client_path c) = Some content \<and> q = Some ms \<and> live strict content c ms (length (k_left k))
      | KSend d \<Rightarrow> 1 \<le> length d \<and> length d \<le> RESP_MSG_SIZE \<and>
          (\<exists>content ms. files (client_path c) = Some content \<and> q = Some ms \<and> live strict content c ms (length d + length (k_left k)))
      | KFinal \<Rightarrow> \<exists>content ms. files (client_path c) = Some content \<and> q = Some ms \<and> live strict content c ms 0
      | KZombie z \<Rightarrow> served_gone files strict z c q
      | KReaped z \<Rightarrow> served_gone files strict z c q)"

definition fresh :: "bool \<Rightarrow> bool \<Rightarrow> client \<Rightarrow> responseMsg list option \<Rightarrow> bool" where
  "fresh strict up c q \<longleftrightarrow> said c = [] \<and>
     (c_pc c = MStart \<and> q = None \<or> argv_ok (c_argv c) \<and> c_pc c \<in> {MGetServer, MGetClient} \<and> q = None \<or>
      argv_ok (c_argv c) \<and> c_pc c \<in> {MAtexit, MSend} \<and> q = Some [] \<or>
      gone c \<and> (up \<longrightarrow> \<not> argv_ok (c_argv c)) \<or> \<not> strict \<and> argv_ok (c_argv c) \<and> waiting c q)"

definition chan_ok :: "(string \<Rightarrow> string option) \<Rightarrow> bool \<Rightarrow> bool \<Rightarrow> client \<Rightarrow> responseMsg list option \<Rightarrow> stage \<Rightarrow> bool" where
  "chan_ok files strict up c q st \<longleftrightarrow> \<not> strict \<and> dead files c \<or>
     (case st of Fresh \<Rightarrow> fresh strict up c q | Asked \<Rightarrow> argv_ok (c_argv c) \<and> waiting c q | Served k \<Rightarrow> served files strict k c q)"

definition srv_ok :: "bool \<Rightarrow> fs_state \<Rightarrow> bool" where
  "srv_ok up s \<longleftrightarrow> (case srv s of SGet \<Rightarrow> srvq s = None \<and> \<not> up | SRemove \<Rightarrow> False | SEnd _ \<Rightarrow> False | _ \<Rightarrow> srvq s \<noteq> None)"

definition fs_inv :: "(string \<Rightarrow> string option) \<Rightarrow> bool \<Rightarrow> bool \<Rightarrow> string list list \<Rightarrow> fs_state \<Rightarrow> bool" where
  "fs_inv files strict up argvs s \<longleftrightarrow> map c_argv (clis s) = argvs \<and> length (cqs s) = length (clis s) \<and>
     distinct (map kid_id (kids s) @ map clientId (pend s)) \<and>
     (\<forall>r \<in> set (pend s). clientId r < length (clis s) \<and> pathname r = client_path (clis s ! clientId r)) \<and>
     (\<forall>k \<in> set (kids s). kid_id k < length (clis s)) \<and>
     (\<forall>i < length (clis s). chan_ok files strict up (clis s ! i) (cqs s ! i) (stage i (pend s) (kids s))) \<and>
     (strict \<longrightarrow> srv_ok up s)"

lemma fs_invD:
  assumes "fs_inv files strict up argvs s"
  shows "map c_argv (clis s) = argvs" "length (cqs s) = length (clis s)"
    "distinct (map kid_id (kids s) @ map clientId (pend s))"
    "r \<in> set (pend s) \<Longrightarrow> clientId r < length (clis s) \<and> pathname r = client_path (clis s ! clientId r)"
    "k \<in> set (kids s) \<Longrightarrow> kid_id k < length (clis s)"
    "i < length (clis s) \<Longrightarrow> chan_ok files strict up (clis s ! i) (cqs s ! i) (stage i (pend s) (kids s))"
    "strict \<Longrightarrow> srv_ok up s"
  using assms unfolding fs_inv_def by blast+

lemma stage_kid:
  assumes "distinct (map kid_id ks)" "j < length ks"
  shows "stage (kid_id (ks ! j)) rs ks = Served (ks ! j)"
proof -
  have "find (\<lambda>k. kid_id k = kid_id (ks ! j)) ks = Some (ks ! j)"
    using assms by (auto simp: find_Some_iff distinct_conv_nth intro!: exI [of _ j])
  then show ?thesis by (simp add: stage_def)
qed

lemma stage_set_kid:
  assumes "distinct (map kid_id ks)" "j < length ks" "k_req k = k_req (ks ! j)"
  shows "stage i rs (ks[j := k]) = (if i = kid_id (ks ! j) then Served k else stage i rs ks)"
proof (cases "i = kid_id (ks ! j)")
  case True
  have "map kid_id (ks[j := k]) = map kid_id ks" using assms(2,3) by (auto simp: list_eq_iff_nth_eq nth_list_update)
  with stage_kid [of "ks[j := k]" j rs] assms True show ?thesis by simp
next
  case False
  have "find (\<lambda>k. kid_id k = i) (ks[j := k]) = find (\<lambda>k. kid_id k = i) ks"
    using assms(2,3) False by (induction ks arbitrary: j) (auto split: nat.splits)
  with False show ?thesis by (simp add: stage_def)
qed

lemma stage_reap: "stage i rs (map reap ks) = (case stage i rs ks of Served k \<Rightarrow> Served (reap k) | st \<Rightarrow> st)"
  by (induction ks) (auto simp: stage_def)

lemma client_path_same: "c_argv c' = c_argv c \<Longrightarrow> client_path c' = client_path c"
  by (simp add: client_path_def)

lemma srv_ok_cong: "srv s' = srv s \<Longrightarrow> srvq s' = srvq s \<Longrightarrow> srv_ok up s' = srv_ok up s"
  by (simp add: srv_ok_def cong: spc.case_cong)

text \<open>A step of a client that sends nothing, and a step of a child.\<close>

lemma inv_client:
  assumes inv: "fs_inv files strict up argvs s" and i: "i < length (clis s)"
    and s': "clis s' = (clis s)[i := c]" "cqs s' = (cqs s)[i := q]" "srv s' = srv s" "srvq s' = srvq s" "kids s' = kids s"
    and c: "c_argv c = c_argv (clis s ! i)" "chan_ok files strict up c q (stage i (pend s) (kids s))"
  shows "fs_inv files strict up argvs s'"
proof -
  note D = fs_invD [OF inv]
  have pend: "pend s' = pend s" by (simp add: pend_def s')
  have arg: "c_argv (clis s' ! l) = c_argv (clis s ! l)" for l using i c(1) s'(1) by (cases "l = i") simp_all
  then have path: "client_path (clis s' ! l) = client_path (clis s ! l)" for l by (rule client_path_same)
  have "map c_argv (clis s') = argvs" using D(1) arg s'(1) by (simp add: list_eq_iff_nth_eq)
  moreover have "chan_ok files strict up (clis s' ! l) (cqs s' ! l) (stage l (pend s') (kids s'))" if "l < length (clis s')" for l
    using that D(2) D(6) [of l] c(2) i s' pend by (cases "l = i") auto
  ultimately show ?thesis
    unfolding fs_inv_def pend path srv_ok_cong [OF s'(3,4)] using D(2-5,7) s' by simp
qed

lemma inv_child:
  assumes inv: "fs_inv files strict up argvs s" and j: "j < length (kids s)" "k_req k = k_req (kids s ! j)"
    and s': "clis s' = clis s" "cqs s' = (cqs s)[kid_id (kids s ! j) := q]" "srv s' = srv s" "srvq s' = srvq s" "kids s' = (kids s)[j := k]"
    and k: "chan_ok files strict up (clis s ! kid_id (kids s ! j)) q (Served k)"
  shows "fs_inv files strict up argvs s'"
proof -
  note D = fs_invD [OF inv]
  have pend: "pend s' = pend s" by (simp add: pend_def s')
  have ids: "map kid_id (kids s') = map kid_id (kids s)" using j s'(5) by (auto simp: list_eq_iff_nth_eq nth_list_update)
  have "distinct (map kid_id (kids s))" using D(3) by simp
  note st = stage_set_kid [OF this j]
  have i: "kid_id (kids s ! j) < length (clis s)" using D(5) j(1) by simp
  have "chan_ok files strict up (clis s' ! l) (cqs s' ! l) (stage l (pend s') (kids s'))" if "l < length (clis s')" for l
    using that D(2) D(6) [of l] k i s' pend by (cases "l = kid_id (kids s ! j)") (auto simp: st)
  moreover have "kid_id x < length (clis s')" if "x \<in> set (kids s')" for x
    using that ids D(5) s'(1) by (metis (no_types, lifting) imageE image_eqI list.set_map)
  ultimately show ?thesis
    unfolding fs_inv_def pend ids srv_ok_cong [OF s'(3,4)] using D(1-4,7) s' by simp
qed

section \<open>Steps and channels\<close>

lemma reported_mono: "reported strict ct c \<Longrightarrow> reported False ct c"
  by (auto simp: reported_def)

lemma chan_said:
  assumes "chan_ok files strict up c q st"
  shows "said c = [] \<or> refused c \<or> (\<exists>content. files (client_path c) = Some content \<and> reported False content c)"
  using assms
  by (auto simp: chan_ok_def dead_def fresh_def waiting_def served_def served_gone_def live_def dest: reported_mono
      split: stage.splits kpc.splits)

lemma chan_early:
  assumes "chan_ok files strict up c q st" "c_pc c \<in> {MStart, MGetServer, MGetClient, MAtexit, MSend}"
  shows "st = Fresh \<and> fresh strict up c q"
  using assms
  by (auto simp: chan_ok_def dead_def gone_def waiting_def served_def served_gone_def live_def leaving_def
      split: stage.splits kpc.splits)

lemma chan_failed:
  assumes "chan_ok files strict up c q st" "\<not> strict \<or> c_pc c \<in> {MGetServer, MSend} \<and> \<not> up"
  shows "chan_ok files strict up (client_fail sr msg e c) q st"
proof (cases strict)
  case True
  with assms chan_early [OF assms(1)] have "st = Fresh" "fresh strict up c q" "\<not> up" by auto
  then show ?thesis using client_fail_gone [of sr msg e c] by (auto simp: chan_ok_def fresh_def gone_def)
next
  case False
  then show ?thesis
    using chan_said [OF assms(1)] client_fail_gone [of sr msg e c]
    by (simp add: chan_ok_def dead_def gone_def refused_def reported_def client_path_def)
qed

text \<open>Receiving a message.\<close>

definition recv :: "responseMsg \<Rightarrow> client \<Rightarrow> client" where
  "recv m c = (if c_pc c = MFirst then client_first m c else client_next m c)"

lemma recv_argv [simp]: "c_argv (recv m c) = c_argv c"
  by (simp add: recv_def client_first_def client_next_def client_check_def)

lemma recv_path [simp]: "client_path (recv m c) = client_path c"
  by (rule client_path_same) simp

text \<open>The counter of messages does not overflow while a file is shorter than \<open>2\<^sup>3\<^sup>1 - 1\<close> bytes, since each message has a byte.\<close>

definition small_files :: "(string \<Rightarrow> string option) \<Rightarrow> bool" where
  "small_files files \<longleftrightarrow> (\<forall>p content. files p = Some content \<longrightarrow> int (length content) < INT_MAX)"

definition overflows :: "client \<Rightarrow> bool" where
  "overflows c \<longleftrightarrow> c_pc c = MLoop \<and> c_num c = INT_MAX"

lemma live_num: "live strict ct c ms a \<Longrightarrow> c_pc c = MLoop \<Longrightarrow> said c = [] \<and> c_num c \<le> int (length ct)"
  by (auto simp: live_def)

lemma served_num:
  assumes "served files strict k c q" "c_pc c = MLoop"
  shows "said c = [] \<and> (\<exists>content. files (client_path c) = Some content \<and> c_num c \<le> int (length content))"
  using assms live_num
  by (auto simp: served_def served_gone_def waiting_def leaving_def split: kpc.splits)

lemma recv_overflow: "overflows c \<Longrightarrow> recv m c = c\<lparr>c_pc := MEnd Undef\<rparr>"
  by (simp add: overflows_def recv_def client_next_def)

lemma live_recv:
  assumes "live strict ct c (m # ms) a" "\<not> overflows c"
  shows "live strict ct (recv m c) ms a"
proof -
  have m: "mtype m = RESP_MT_DATA" "1 \<le> length (data m)" "length (data m) \<le> RESP_MSG_SIZE" "list_all data_ok ms" "said c = []"
    using assms by (auto simp: live_def data_ok_def)
  from assms obtain got num where g: "c_pc c = MFirst \<and> got = 0 \<and> num = 0 \<or> c_pc c = MLoop \<and> got = c_tot c \<and> num = c_num c"
    "num \<le> got" "got \<le> int RESP_MSG_SIZE * num" "got + int (msg_bytes (m # ms) + a) \<le> int (length ct)"
    "strict \<Longrightarrow> got + int (msg_bytes (m # ms) + a) = int (length ct)"
    unfolding live_def by blast
  let ?got = "got + int (length (data m))" and ?num = "num + 1"
  have r: "c_pc (recv m c) = MLoop" "c_tot (recv m c) = ?got" "c_num (recv m c) = ?num" "said (recv m c) = []"
    using g(1) m assms(2) by (auto simp: recv_def client_first_def client_next_def client_check_def said_def overflows_def
        RESP_MT_FAILURE_def RESP_MT_DATA_def)
  have "?num \<le> ?got" "?got \<le> int RESP_MSG_SIZE * ?num" "?got + int (msg_bytes ms + a) \<le> int (length ct)"
    "strict \<longrightarrow> ?got + int (msg_bytes ms + a) = int (length ct)"
    using g(2-5) m(2,3) by (simp_all add: msg_bytes_def distrib_left add.assoc)
  with r m(4) show ?thesis unfolding live_def by (intro conjI exI [of _ ?got] exI [of _ ?num]) simp_all
qed

lemma live_end:
  assumes "live strict ct c [] 0" "\<not> overflows c"
  shows "c_pc (recv end_msg c) = MRemove (Exit EXIT_SUCCESS)" "reported strict ct (recv end_msg c)"
proof -
  from assms obtain got num where g: "c_pc c = MFirst \<and> got = 0 \<and> num = 0 \<or> c_pc c = MLoop \<and> got = c_tot c \<and> num = c_num c"
    "num \<le> got" "got \<le> int RESP_MSG_SIZE * num" "got \<le> int (length ct)" "strict \<longrightarrow> got = int (length ct)" "said c = []"
    unfolding live_def msg_bytes_def by auto
  with assms(2) have "said (recv end_msg c) = report got (num + 1) \<and> c_pc (recv end_msg c) = MRemove (Exit EXIT_SUCCESS)"
    by (auto simp: recv_def end_msg_def client_first_def client_next_def client_check_def said_def overflows_def
        RESP_MT_FAILURE_def RESP_MT_DATA_def RESP_MT_END_def)
  with g show "c_pc (recv end_msg c) = MRemove (Exit EXIT_SUCCESS)" "reported strict ct (recv end_msg c)"
    unfolding reported_def by blast+
qed

lemma recv_failure:
  assumes "c_pc c = MFirst" "said c = []"
  shows "refused (recv failure_msg c)" "c_pc (recv failure_msg c) = MRemove (Exit EXIT_FAILURE)"
  using assms
  by (simp_all add: recv_def failure_msg_def client_first_def refused_def said_def snprintf_id RESP_MSG_SIZE_def NUL_def)

lemma served_gone_recv:
  assumes "served_gone files strict z c (Some (m # ms))" "c_pc c \<in> {MFirst, MLoop}" "\<not> overflows c"
  shows "served_gone files strict z (recv m c) (Some ms)"
proof -
  consider content ms' where "z = EXIT_SUCCESS" "files (client_path c) = Some content"
      "m # ms = ms' @ [end_msg] \<or> \<not> strict \<and> m # ms = ms'" "live strict content c ms' 0"
    | "z = EXIT_FAILURE" "strict \<longrightarrow> files (client_path c) = None" "c_pc c = MFirst" "said c = []" "m = failure_msg" "ms = []"
    using assms by (auto simp: served_gone_def leaving_def)
  then show ?thesis
  proof cases
    case 1
    show ?thesis
    proof (cases ms')
      case Nil
      with 1 have "m = end_msg" "ms = []" by auto
      with live_end [of strict content c] 1 Nil assms(3) show ?thesis by (simp add: served_gone_def leaving_def)
    next
      case (Cons x xs)
      with 1 have "x = m" "ms = xs @ [end_msg] \<or> \<not> strict \<and> ms = xs" by auto
      with live_recv [of strict content c m xs 0] 1 Cons assms(3) show ?thesis
        unfolding served_gone_def recv_path by blast
    qed
  next
    case 2
    with recv_failure [of c] show ?thesis by (simp add: served_gone_def leaving_def)
  qed
qed

lemma chan_recv:
  assumes "chan_ok files strict up c (Some (m # ms)) st" "c_pc c \<in> {MFirst, MLoop}" and small: "strict \<longrightarrow> small_files files"
  shows "chan_ok files strict up (recv m c) (Some ms) st"
proof -
  have nd: "\<not> dead files c" using assms(2) by (auto simp: dead_def gone_def)
  then obtain k where k: "st = Served k" "served files strict k c (Some (m # ms))"
    using assms by (auto simp: chan_ok_def fresh_def waiting_def gone_def split: stage.splits)
  show ?thesis
  proof (cases "overflows c")
    case True
    then have "c_pc c = MLoop" "c_num c = INT_MAX" by (simp_all add: overflows_def)
    with served_num [OF k(2)] small have "\<not> strict" "said c = []" by (fastforce simp: small_files_def)+
    then show ?thesis using True by (auto simp: recv_overflow chan_ok_def dead_def gone_def said_def)
  next
    case False
    with k have "served files strict k (recv m c) (Some ms)"
      using served_gone_recv [OF _ assms(2) False] unfolding served_def
      by (auto simp: waiting_def split: kpc.splits intro: live_recv)
    with k show ?thesis by (simp add: chan_ok_def)
  qed
qed

lemma chan_removed:
  assumes "chan_ok files strict up c q st" "c_pc c = MRemove h"
  shows "chan_ok files strict up (c\<lparr>c_io := fflush_stdout (c_io c), c_pc := MEnd h\<rparr>) None st"
proof -
  let ?c = "c\<lparr>c_io := fflush_stdout (c_io c), c_pc := MEnd h\<rparr>"
  have said: "said ?c = said c" by (simp add: said_def)
  have path: "client_path ?c = client_path c" by (simp add: client_path_def)
  have "served files strict k ?c None" if "served files strict k c q" for k
    using that assms(2) unfolding served_def path
    by (auto simp: waiting_def live_def served_gone_def leaving_def reported_def refused_def said path split: kpc.splits)
  moreover have "dead files ?c" if "dead files c"
    using that assms(2) by (auto simp: dead_def gone_def said path refused_def reported_def)
  moreover have "fresh strict up ?c None" if "fresh strict up c q"
    using that assms(2) by (auto simp: fresh_def gone_def waiting_def said)
  ultimately show ?thesis
    using assms by (auto simp: chan_ok_def waiting_def split: stage.splits)
qed

section \<open>Preservation\<close>

lemma resp_queue_nth: "length (cqs s) = length (clis s) \<Longrightarrow> i < length (clis s) \<Longrightarrow> resp_queue i s = cqs s ! i"
  by (simp add: resp_queue_def)

text \<open>Sending the request.\<close>

lemma inv_send:
  assumes inv: "fs_inv files strict up argvs s" and i: "i < length (clis s)" and c: "c_pc (clis s ! i) = MSend"
    and q: "srvq s = Some q"
    and s': "s' = (set_client i ((clis s ! i)\<lparr>c_pc := MFirst\<rparr>) s)\<lparr>srvq := Some (q @ [make_request i (clis s ! i)])\<rparr>"
  shows "fs_inv files strict up argvs s'"
proof -
  note D = fs_invD [OF inv]
  let ?c = "clis s ! i" and ?r = "make_request i (clis s ! i)"
  have fr: "stage i (pend s) (kids s) = Fresh" "fresh strict up ?c (cqs s ! i)" using chan_early [OF D(6) [OF i]] c by auto
  then have ok: "argv_ok (c_argv ?c)" "cqs s ! i = Some []" "said ?c = []" using c by (auto simp: fresh_def gone_def waiting_def)
  have pend: "pend s' = pend s @ [?r]" by (simp add: s' pend_def q)
  have r: "clientId ?r = i" "pathname ?r = client_path ?c"
    using ok(1) by (simp_all add: make_request_def client_path_def argv_ok_def, subst strncpy_id) (simp_all add: const_defs)
  have new: "i \<notin> kid_id ` set (kids s)" "i \<notin> clientId ` set (pend s)"
    using fr(1) by (auto simp: stage_def find_None_iff split: option.splits if_splits)
  have path: "client_path (clis s' ! l) = client_path (clis s ! l)" for l
    using i by (cases "l = i") (simp_all add: s' client_path_def)
  have st: "stage l (pend s') (kids s') = (if l = i then Asked else stage l (pend s) (kids s))" for l
  proof -
    have "find (\<lambda>k. kid_id k = i) (kids s) = None" using new(1) by (auto simp: find_None_iff)
    then show ?thesis using r(1) by (simp add: stage_def pend) (simp add: s')
  qed
  have "chan_ok files strict up (clis s' ! l) (cqs s' ! l) (stage l (pend s') (kids s'))" if "l < length (clis s')" for l
  proof (cases "l = i")
    case True
    with ok i show ?thesis unfolding st by (simp add: chan_ok_def waiting_def s' said_def)
  next
    case False
    with D(6) [of l] that show ?thesis by (simp add: st) (simp add: s')
  qed
  moreover have "map c_argv (clis s') = argvs"
    using D(1) i by (auto simp: s' list_eq_iff_nth_eq nth_list_update)
  moreover have "strict \<longrightarrow> srv_ok up s'"
    using D(7) q by (auto simp: s' srv_ok_def split: spc.splits)
  ultimately show ?thesis
    unfolding fs_inv_def pend path using D(2-5) new r i by (auto simp: s')
qed

lemma inv_client_step:
  assumes inv: "fs_inv files strict up argvs s" and small: "strict \<longrightarrow> small_files files"
    and i: "i < length (clis s)" and st: "client_step Q sr i s = Some s'"
  shows "fs_inv files strict up argvs s'"
proof -
  note D = fs_invD [OF inv]
  let ?c = "clis s ! i" and ?q = "cqs s ! i"
  note q = resp_queue_nth [OF D(2) i] and ch = D(6) [OF i] and up = inv_client [OF inv i]
  have same: "(cqs s)[i := ?q] = cqs s" by simp
  have failed: ?thesis if "s' = set_client i (client_fail sr msg e ?c) s" "\<not> strict \<or> c_pc ?c \<in> {MGetServer, MSend} \<and> \<not> up" for msg e
    using that chan_failed [OF ch that(2), of sr msg e] by (intro up [of s' _ ?q]) (simp_all add: same)
  show ?thesis
  proof (cases "c_pc ?c")
    case MStart
    then have "s' = set_client i (client_start ?c) s" using st by (simp add: client_step_def)
    moreover have "chan_ok files strict up (client_start ?c) ?q (stage i (pend s) (kids s))"
      using chan_early [OF ch] MStart by (auto simp: chan_ok_def fresh_def gone_def waiting_def)
    ultimately show ?thesis by (intro up [of s' "client_start ?c" ?q]) (simp_all add: same)
  next
    case MGetServer
    show ?thesis
    proof (cases "srvq s = None")
      case True
      then have "\<not> strict \<or> \<not> up" using D(7) by (auto simp: srv_ok_def split: spc.splits)
      with True MGetServer st show ?thesis by (intro failed [of "client_call MGetServer" ENOENT]) (auto simp: client_step_def Let_def)
    next
      case False
      then have "s' = set_client i (?c\<lparr>c_pc := MGetClient\<rparr>) s" using st MGetServer by (auto simp: client_step_def)
      moreover have "chan_ok files strict up (?c\<lparr>c_pc := MGetClient\<rparr>) ?q (stage i (pend s) (kids s))"
        using chan_early [OF ch] MGetServer by (auto simp: chan_ok_def fresh_def gone_def waiting_def said_def)
      ultimately show ?thesis by (intro up [of s' _ ?q]) (simp_all add: same)
    qed
  next
    case MGetClient
    then have "s' = set_queue i (Some []) (set_client i (?c\<lparr>c_pc := MAtexit\<rparr>) s)" using st by (auto simp: client_step_def)
    moreover have "chan_ok files strict up (?c\<lparr>c_pc := MAtexit\<rparr>) (Some []) (stage i (pend s) (kids s))"
      using chan_early [OF ch] MGetClient by (auto simp: chan_ok_def fresh_def gone_def waiting_def said_def)
    ultimately show ?thesis by (intro up [of s' _ "Some []"]) simp_all
  next
    case MAtexit
    then have "s' = set_client i (?c\<lparr>c_pc := MSend\<rparr>) s" using st by (auto simp: client_step_def)
    moreover have "chan_ok files strict up (?c\<lparr>c_pc := MSend\<rparr>) ?q (stage i (pend s) (kids s))"
      using chan_early [OF ch] MAtexit by (auto simp: chan_ok_def fresh_def gone_def waiting_def said_def)
    ultimately show ?thesis by (intro up [of s' _ ?q]) (simp_all add: same)
  next
    case MSend
    show ?thesis
    proof (cases "srvq s")
      case None
      then have "\<not> strict \<or> \<not> up" using D(7) by (auto simp: srv_ok_def split: spc.splits)
      with None MSend st show ?thesis by (intro failed [of "client_call MSend" EIDRM]) (auto simp: client_step_def Let_def)
    next
      case (Some q)
      with MSend st have "s' = (set_client i (?c\<lparr>c_pc := MFirst\<rparr>) s)\<lparr>srvq := Some (q @ [make_request i ?c])\<rparr>"
        by (auto simp: client_step_def Let_def split: if_splits)
      then show ?thesis by (rule inv_send [OF inv i MSend Some])
    qed
  next
    case (MRemove h)
    then have "s' = removeQueue i h s" using st by (auto simp: client_step_def)
    with chan_removed [OF ch MRemove] show ?thesis
      by (intro up [of s' _ None]) (simp_all add: removeQueue_def Let_def)
  next
    case MFirst
    show ?thesis
    proof (cases ?q)
      case None
      then have "\<not> strict" using ch MFirst
        by (auto simp: chan_ok_def fresh_def gone_def waiting_def served_def served_gone_def leaving_def split: stage.splits kpc.splits)
      with None MFirst st show ?thesis by (intro failed [of "client_call MFirst" EIDRM]) (auto simp: client_step_def Let_def q)
    next
      case (Some ms)
      then obtain m ms' where m: "?q = Some (m # ms')" "s' = set_queue i (Some ms') (set_client i (recv m ?c) s)"
        using st MFirst by (auto simp: client_step_def Let_def q recv_def split: list.splits)
      with chan_recv [OF ch [unfolded m(1)] _ small] MFirst show ?thesis by (intro up [of s' _ "Some ms'"]) simp_all
    qed
  next
    case MLoop
    show ?thesis
    proof (cases ?q)
      case None
      then have "\<not> strict" using ch MLoop
        by (auto simp: chan_ok_def fresh_def gone_def waiting_def served_def served_gone_def leaving_def split: stage.splits kpc.splits)
      with None MLoop st show ?thesis by (intro failed [of "client_call MLoop" EIDRM]) (auto simp: client_step_def Let_def q)
    next
      case (Some ms)
      then obtain m ms' where m: "?q = Some (m # ms')" "s' = set_queue i (Some ms') (set_client i (recv m ?c) s)"
        using st MLoop by (auto simp: client_step_def Let_def q recv_def split: list.splits)
      with chan_recv [OF ch [unfolded m(1)] _ small] MLoop show ?thesis by (intro up [of s' _ "Some ms'"]) simp_all
    qed
  qed (use st in \<open>simp add: client_step_def\<close>)
qed

text \<open>What a step of a child does to its channel.\<close>

lemma served_sent:
  assumes "live strict ct c ms (length d + a)" "1 \<le> length d" "length d \<le> RESP_MSG_SIZE"
  shows "live strict ct c (ms @ [\<lparr>mtype = RESP_MT_DATA, data = d\<rparr>]) a"
  using assms by (simp add: live_def data_ok_def msg_bytes_def add.assoc)

lemma chan_child:
  assumes ch: "chan_ok files strict up c (Some q) (Served k)"
  shows "k_pc k = KOpen \<Longrightarrow> files (pathname (k_req k)) = None \<Longrightarrow> chan_ok files strict up c (Some q) (Served (k\<lparr>k_pc := KFail\<rparr>))"
    and "k_pc k = KOpen \<Longrightarrow> files (pathname (k_req k)) = Some ct \<Longrightarrow>
      chan_ok files strict up c (Some q) (Served (k\<lparr>k_pc := KRead, k_left := ct\<rparr>))"
    and "k_pc k = KFail \<Longrightarrow> chan_ok files strict up c (Some (q @ [failure_msg])) (Served (k\<lparr>k_pc := KZombie EXIT_FAILURE\<rparr>))"
    and "k_pc k = KRead \<Longrightarrow> k_left k = [] \<Longrightarrow> chan_ok files strict up c (Some q) (Served (k\<lparr>k_pc := KFinal\<rparr>))"
    and "k_pc k = KRead \<Longrightarrow> k_left k \<noteq> [] \<Longrightarrow> 0 < n \<Longrightarrow> n \<le> RESP_MSG_SIZE \<Longrightarrow>
      chan_ok files strict up c (Some q) (Served (k\<lparr>k_pc := KSend (take n (k_left k)), k_left := drop n (k_left k)\<rparr>))"
    and "k_pc k = KSend d \<Longrightarrow> chan_ok files strict up c (Some (q @ [\<lparr>mtype = RESP_MT_DATA, data = d\<rparr>])) (Served (k\<lparr>k_pc := KRead\<rparr>))"
    and "k_pc k = KFinal \<Longrightarrow> chan_ok files strict up c (Some (q @ [end_msg])) (Served (k\<lparr>k_pc := KZombie EXIT_SUCCESS\<rparr>))"
  using ch
  by (auto simp: chan_ok_def served_def served_gone_def waiting_def served_sent live_def data_ok_def msg_bytes_def Suc_le_eq const_defs)

lemma chan_child_gone:
  assumes "chan_ok files strict up c None (Served k)"
  shows "(\<exists>z. k_pc k \<in> {KZombie z, KReaped z}) \<or> chan_ok files strict up c None (Served k')"
  using assms by (auto simp: chan_ok_def served_def waiting_def split: kpc.splits)

lemma inv_serve:
  assumes inv: "fs_inv files strict up argvs s" and j: "j < length (kids s)" and n: "0 < n" "n \<le> RESP_MSG_SIZE"
    and st: "serveRequest files Q n j s = Some s'"
  shows "fs_inv files strict up argvs s'"
proof -
  note D = fs_invD [OF inv]
  let ?k = "kids s ! j"
  let ?i = "kid_id ?k"
  have i: "?i < length (clis s)" using D(5) j by simp
  note q = resp_queue_nth [OF D(2) i] and up = inv_child [OF inv j]
  have dist: "distinct (map kid_id (kids s))" using D(3) by simp
  have ch: "chan_ok files strict up (clis s ! ?i) (cqs s ! ?i) (Served ?k)"
    using D(6) [OF i] by (simp add: stage_kid [OF dist j])
  show ?thesis
  proof (cases "cqs s ! ?i")
    case None
    have same: "(cqs s)[?i := None] = cqs s" using None by (metis list_update_id)
    obtain k' where "s' = set_kid j k' s" "k_req k' = k_req ?k"
      using st by (auto simp: serveRequest_def Let_def msgsnd_resp_def q None split: kpc.splits option.splits if_splits)
    moreover have "\<nexists>z. k_pc ?k \<in> {KZombie z, KReaped z}" using st by (auto simp: serveRequest_def Let_def)
    ultimately show ?thesis
      using chan_child_gone [OF ch [unfolded None], of k'] by (intro up [of k' s' None]) (auto simp: same)
  next
    case (Some ms)
    note c = chan_child [OF ch [unfolded Some]]
    have same: "(cqs s)[?i := Some ms] = cqs s" using Some by (metis list_update_id)
    obtain k' q' where "s' = set_kid j k' (set_queue ?i (Some q') s)" "k_req k' = k_req ?k"
      "chan_ok files strict up (clis s ! ?i) (Some q') (Served k')"
    proof (cases "k_pc ?k")
      case KOpen
      show ?thesis
      proof (cases "files (pathname (k_req ?k))")
        case None
        with KOpen st c(1) show ?thesis
          by (intro that [of "?k\<lparr>k_pc := KFail\<rparr>" ms]) (auto simp: serveRequest_def Let_def set_queue_def same)
      next
        case f: (Some ct)
        with KOpen st c(2) [OF KOpen f] show ?thesis
          by (intro that [of "?k\<lparr>k_pc := KRead, k_left := ct\<rparr>" ms]) (auto simp: serveRequest_def Let_def set_queue_def same)
      qed
    next
      case KRead
      show ?thesis
      proof (cases "k_left ?k = []")
        case True
        with KRead st c(4) show ?thesis
          by (intro that [of "?k\<lparr>k_pc := KFinal\<rparr>" ms]) (auto simp: serveRequest_def Let_def set_queue_def same)
      next
        case False
        with KRead st c(5) [OF KRead False n] show ?thesis
          by (intro that [of "?k\<lparr>k_pc := KSend (take n (k_left ?k)), k_left := drop n (k_left ?k)\<rparr>" ms])
            (auto simp: serveRequest_def Let_def set_queue_def same)
      qed
    next
      case (KSend d)
      with st c(6) show ?thesis
        by (intro that [of "?k\<lparr>k_pc := KRead\<rparr>" "ms @ [\<lparr>mtype = RESP_MT_DATA, data = d\<rparr>]"])
          (auto simp: serveRequest_def Let_def msgsnd_resp_def q Some split: if_splits)
    next
      case KFinal
      with st c(7) show ?thesis
        by (intro that [of "?k\<lparr>k_pc := KZombie EXIT_SUCCESS\<rparr>" "ms @ [end_msg]"])
          (auto simp: serveRequest_def Let_def msgsnd_resp_def q Some split: if_splits)
    next
      case KFail
      with st c(3) show ?thesis
        by (intro that [of "?k\<lparr>k_pc := KZombie EXIT_FAILURE\<rparr>" "ms @ [failure_msg]"])
          (auto simp: serveRequest_def Let_def msgsnd_resp_def q Some split: if_splits)
    qed (use st in \<open>simp_all add: serveRequest_def Let_def\<close>)
    then show ?thesis by (intro up [of k' s' "Some q'"]) auto
  qed
qed

text \<open>Steps of the server, its handler, and failing calls.\<close>

lemma inv_fork:
  assumes inv: "fs_inv files strict up argvs s" and f: "srv s = SFork r"
    and s': "s' = s\<lparr>kids := kids s @ [\<lparr>k_pc = KOpen, k_req = r, k_left = []\<rparr>], srv := SRecv\<rparr>"
  shows "fs_inv files strict up argvs s'"
proof -
  note D = fs_invD [OF inv]
  let ?i = "clientId r"
  have pend: "pend s = r # pend s'" by (simp add: pend_def f s')
  have r: "?i < length (clis s)" "pathname r = client_path (clis s ! ?i)" using D(4) [of r] pend by auto
  have new: "?i \<notin> kid_id ` set (kids s)" "?i \<notin> clientId ` set (pend s')" using D(3) pend by auto
  have none: "find (\<lambda>k. kid_id k = ?i) (kids s) = None" using new(1) by (force simp: find_None_iff)
  have st: "stage l (pend s') (kids s') = (if l = ?i then Served \<lparr>k_pc = KOpen, k_req = r, k_left = []\<rparr> else stage l (pend s) (kids s))" for l
    using none by (cases "find (\<lambda>k. kid_id k = l) (kids s)") (auto simp: stage_def pend find_append, simp_all add: s' find_append)
  have "chan_ok files strict up (clis s ! ?i) (cqs s ! ?i) Asked"
    using D(6) [OF r(1)] none pend by (simp add: stage_def)
  then have "chan_ok files strict up (clis s ! ?i) (cqs s ! ?i) (Served \<lparr>k_pc = KOpen, k_req = r, k_left = []\<rparr>)"
    using r(2) by (simp add: chan_ok_def served_def)
  then have "chan_ok files strict up (clis s' ! l) (cqs s' ! l) (stage l (pend s') (kids s'))" if "l < length (clis s)" for l
    unfolding st using D(6) [OF that] by (simp add: s')
  moreover have "strict \<longrightarrow> srv_ok up s'" using D(7) f by (simp add: s' srv_ok_def)
  ultimately show ?thesis
    unfolding fs_inv_def using D(1-5) pend r by (simp add: s')
qed

lemma chan_reap: "chan_ok files strict up c q (case st of Served k \<Rightarrow> Served (reap k) | x \<Rightarrow> x) = chan_ok files strict up c q st"
  by (auto simp: chan_ok_def served_def reap_def split: stage.splits kpc.splits)

lemma inv_reap:
  assumes inv: "fs_inv files strict up argvs s"
  shows "fs_inv files strict up argvs (s\<lparr>kids := grimReaper (kids s)\<rparr>)"
proof -
  have "srv_ok up (s\<lparr>kids := ks\<rparr>) = srv_ok up s" "pend (s\<lparr>kids := ks\<rparr>) = pend s" for ks
    by (simp_all add: srv_ok_def pend_def cong: spc.case_cong)
  then show ?thesis
    using fs_invD [OF inv] unfolding fs_inv_def by (simp add: grimReaper_map stage_reap chan_reap comp_def)
qed

text \<open>The server drops requests: those clients wait for ever.\<close>

lemma chan_lost: "chan_ok files False up c q Asked \<Longrightarrow> chan_ok files False up c q Fresh"
  by (auto simp: chan_ok_def fresh_def waiting_def)

lemma inv_server:
  assumes inv: "fs_inv files strict up argvs s"
    and s': "clis s' = clis s" "cqs s' = cqs s" "kids s' = kids s"
    and p: "pend s' = pend s \<or> \<not> strict \<and> set (pend s') \<subseteq> set (pend s) \<and> distinct (map clientId (pend s'))"
    and ok: "strict \<Longrightarrow> srv_ok up s'"
  shows "fs_inv files strict up argvs s'"
proof -
  note D = fs_invD [OF inv]
  have "chan_ok files strict up (clis s ! l) (cqs s ! l) (stage l (pend s') (kids s))" if "l < length (clis s)" for l
  proof (cases "pend s' = pend s")
    case False
    with p D(6) [OF that] show ?thesis
      by (cases "find (\<lambda>k. kid_id k = l) (kids s)") (auto simp: stage_def dest: chan_lost split: if_splits)
  qed (use D(6) [OF that] in simp)
  moreover have "distinct (map kid_id (kids s') @ map clientId (pend s'))" "\<forall>r \<in> set (pend s'). r \<in> set (pend s)"
    using p D(3) s'(3) by auto
  ultimately show ?thesis
    unfolding fs_inv_def s' using D(1,2,4,5) s'(3) ok by simp
qed

lemma pend_distinct: "fs_inv files strict up argvs s \<Longrightarrow> distinct (map clientId (pend s))"
  using fs_invD(3) by fastforce

lemma inv_server_step:
  assumes inv: "fs_inv files strict up argvs s" and st: "server_step sr s = Some s'"
  shows "fs_inv files strict up argvs s'"
proof (cases "srv s")
  case (SFork r)
  with st show ?thesis by (intro inv_fork [OF inv SFork]) (simp add: server_step_def)
qed (use st fs_invD(7) [OF inv] pend_distinct [OF inv] in
    \<open>intro inv_server [OF inv]; auto simp: server_step_def pend_def srv_ok_def split: option.splits list.splits prod.splits\<close>)+

lemma inv_server_fail:
  assumes inv: "fs_inv files False up argvs s" and st: "server_fail sr e s = Some s'"
  shows "fs_inv files False up argvs s'"
  by (rule inv_server [OF inv])
    (use st pend_distinct [OF inv] in \<open>auto simp: server_fail_def Let_def pend_def split: spc.splits prod.splits if_splits\<close>)

lemma chan_child_failed:
  assumes "chan_ok files False up c q (Served k)"
  shows "k_pc k = KOpen \<Longrightarrow> chan_ok files False up c q (Served (k\<lparr>k_pc := KFail\<rparr>))"
    and "k_pc k = KFail \<Longrightarrow> chan_ok files False up c q (Served (k\<lparr>k_pc := KZombie EXIT_FAILURE\<rparr>))"
    and "k_pc k = KRead \<or> k_pc k = KSend d \<Longrightarrow> chan_ok files False up c q (Served (k\<lparr>k_pc := KFinal\<rparr>))"
    and "k_pc k = KFinal \<Longrightarrow> chan_ok files False up c q (Served (k\<lparr>k_pc := KZombie EXIT_SUCCESS\<rparr>))"
  using assms
  by (auto simp: chan_ok_def served_def served_gone_def waiting_def live_def const_defs)

lemma inv_child_fail:
  assumes inv: "fs_inv files False up argvs s" and j: "j < length (kids s)" and st: "child_fail j s = Some s'"
  shows "fs_inv files False up argvs s'"
proof -
  note D = fs_invD [OF inv]
  let ?k = "kids s ! j"
  have dist: "distinct (map kid_id (kids s))" using D(3) by simp
  have i: "kid_id ?k < length (clis s)" using D(5) j by simp
  have ch: "chan_ok files False up (clis s ! kid_id ?k) (cqs s ! kid_id ?k) (Served ?k)"
    using D(6) [OF i] by (simp add: stage_kid [OF dist j])
  obtain p where s': "s' = set_kid j (?k\<lparr>k_pc := p\<rparr>) s"
    and "chan_ok files False up (clis s ! kid_id ?k) (cqs s ! kid_id ?k) (Served (?k\<lparr>k_pc := p\<rparr>))"
    using st chan_child_failed [OF ch] by (auto simp: child_fail_def Let_def split: kpc.splits)
  then show ?thesis by (intro inv_child [OF inv j, of "?k\<lparr>k_pc := p\<rparr>" s' "cqs s ! kid_id ?k"]) (simp_all add: s')
qed

lemma inv_fs_step:
  assumes inv: "fs_inv files strict up argvs s" and small: "strict \<longrightarrow> small_files files" and st: "fs_step files Q sr s s'"
  shows "fs_inv files strict up argvs s'"
  using st
proof (cases rule: fs_step.cases)
  case (client i)
  with inv_client_step [OF inv small] show ?thesis by auto
next
  case server
  with inv show ?thesis by (auto intro: inv_server_step)
next
  case (child j n)
  with inv show ?thesis by (auto intro: inv_serve)
next
  case sigchld
  with inv show ?thesis by (auto intro: inv_reap)
qed

lemma inv_fs_fstep:
  assumes inv: "fs_inv files False up argvs s" and st: "fs_fstep files Q sr s s'"
  shows "fs_inv files False up argvs s'"
  using st
proof (cases rule: fs_fstep.cases)
  case works
  with inv show ?thesis by (auto intro: inv_fs_step)
next
  case (client_fails i e)
  let ?c = "client_fail sr (client_call (c_pc (clis s ! i))) e (clis s ! i)"
  have "chan_ok files False up ?c (cqs s ! i) (stage i (pend s) (kids s))"
    by (rule chan_failed [OF fs_invD(6) [OF inv client_fails(2)]]) simp
  then show ?thesis
    using client_fails by (intro inv_client [OF inv client_fails(2), of s' ?c "cqs s ! i"]) simp_all
next
  case server_fails
  with inv show ?thesis by (auto intro: inv_server_fail)
next
  case child_fails
  with inv show ?thesis by (auto intro: inv_child_fail)
qed

abbreviation blank :: "proc_io \<Rightarrow> bool" where
  "blank io \<equiv> stdout_out io = [] \<and> stdout_buf io = []"

lemma inv_fs_init: "blank io \<Longrightarrow> fs_inv files strict started argvs (fs_init started io argvs)"
  by (simp add: fs_inv_def fs_init_def pend_def stage_def chan_ok_def fresh_def said_def srv_ok_def comp_def)

interpretation fsf: invariant_system "fs_fstep files Q sr" "fs_inv files False up argvs"
  by unfold_locales (rule inv_fs_fstep)

section \<open>Progress\<close>

definition req_effort :: "(string \<Rightarrow> string option) \<Rightarrow> string \<Rightarrow> nat" where
  "req_effort files path = 3 * (case files path of Some content \<Rightarrow> length content | None \<Rightarrow> 0) + 10"

definition cli_effort :: "(string \<Rightarrow> string option) \<Rightarrow> client \<Rightarrow> nat" where
  "cli_effort files c = (let w = req_effort files (pathname (make_request 0 c)) in case c_pc c of
     MStart \<Rightarrow> 8 + w | MGetServer \<Rightarrow> 7 + w | MGetClient \<Rightarrow> 6 + w | MAtexit \<Rightarrow> 5 + w | MSend \<Rightarrow> 4 + w
   | MFirst \<Rightarrow> 2 | MLoop \<Rightarrow> 2 | MRemove _ \<Rightarrow> 1 | MEnd _ \<Rightarrow> 0)"

definition kid_effort :: "(string \<Rightarrow> string option) \<Rightarrow> kid \<Rightarrow> nat" where
  "kid_effort files k = (case k_pc k of KOpen \<Rightarrow> req_effort files (pathname (k_req k)) - 3 | KRead \<Rightarrow> 3 * length (k_left k) + 5
   | KSend d \<Rightarrow> 3 * length (k_left k) + 3 * length d + 4 | KFinal \<Rightarrow> 4 | KFail \<Rightarrow> 4 | KZombie _ \<Rightarrow> 1 | KReaped _ \<Rightarrow> 0)"

definition queue_effort :: "responseMsg list option \<Rightarrow> nat" where
  "queue_effort q = (case q of Some ms \<Rightarrow> length ms | None \<Rightarrow> 0)"

definition srv_effort :: "(string \<Rightarrow> string option) \<Rightarrow> fs_state \<Rightarrow> nat" where
  "srv_effort files s = (case srv s of SGet \<Rightarrow> 3 | SSig \<Rightarrow> 2 | SRecv \<Rightarrow> 1 | SFork r \<Rightarrow> req_effort files (pathname r) | _ \<Rightarrow> 0) +
     (case srvq s of Some q \<Rightarrow> sum_list (map (\<lambda>r. req_effort files (pathname r)) q) | None \<Rightarrow> 0)"

definition fs_effort :: "(string \<Rightarrow> string option) \<Rightarrow> fs_state \<Rightarrow> nat" where
  "fs_effort files s = sum_list (map (cli_effort files) (clis s)) + sum_list (map queue_effort (cqs s)) + srv_effort files s +
     sum_list (map (kid_effort files) (kids s))"

lemma effort_client:
  assumes "i < length (clis s)" "i < length (cqs s)"
    and "clis s' = (clis s)[i := c]" "cqs s' = (cqs s)[i := q]" "kids s' = kids s"
    and "cli_effort files c + queue_effort q + srv_effort files s' < cli_effort files (clis s ! i) + queue_effort (cqs s ! i) + srv_effort files s"
  shows "fs_effort files s' < fs_effort files s"
  using sum_map_update_nat [OF assms(1), of "cli_effort files" c] sum_map_update_nat [OF assms(2), of queue_effort q] assms(3-6)
  unfolding fs_effort_def by simp

lemma effort_child:
  assumes "j < length (kids s)" "i < length (cqs s)"
    and "clis s' = clis s" "cqs s' = (cqs s)[i := q]" "srv s' = srv s" "srvq s' = srvq s" "kids s' = (kids s)[j := k]"
    and "kid_effort files k + queue_effort q < kid_effort files (kids s ! j) + queue_effort (cqs s ! i)"
  shows "fs_effort files s' < fs_effort files s"
  using sum_map_update_nat [OF assms(1), of "kid_effort files" k] sum_map_update_nat [OF assms(2), of queue_effort q] assms(3-8)
  unfolding fs_effort_def srv_effort_def by (simp cong: spc.case_cong)

lemma recv_effort: "c_pc c \<in> {MFirst, MLoop} \<Longrightarrow> cli_effort files (recv m c) \<le> cli_effort files c"
  by (auto simp: cli_effort_def recv_def client_first_def client_next_def client_check_def Let_def)

lemma fail_effort: "c_pc c \<in> {MGetServer, MSend, MFirst, MLoop} \<Longrightarrow> cli_effort files (client_fail sr msg e c) < cli_effort files c"
  using client_fail_gone [of sr msg e c] by (auto simp: cli_effort_def Let_def)

lemma make_request_path: "pathname (make_request i c) = pathname (make_request 0 c)"
  by (simp add: make_request_def)

lemma client_step_effort:
  assumes inv: "fs_inv files strict up argvs s" and i: "i < length (clis s)" and st: "client_step Q sr i s = Some s'"
  shows "fs_effort files s' < fs_effort files s"
proof -
  note D = fs_invD [OF inv]
  let ?c = "clis s ! i" and ?q = "cqs s ! i"
  have i': "i < length (cqs s)" using D(2) i by simp
  note q = resp_queue_nth [OF D(2) i] and less = effort_client [OF i i']
  have same: "(cqs s)[i := ?q] = cqs s" by simp
  have srv: "srv_effort files (set_client l c t) = srv_effort files t" "srv_effort files (set_queue l x t) = srv_effort files t" for l c x t
    by (simp_all add: srv_effort_def cong: spc.case_cong)
  have failed: ?thesis if "s' = set_client i (client_fail sr msg e ?c) s" "c_pc ?c \<in> {MGetServer, MSend, MFirst, MLoop}" for msg e
    using that fail_effort [OF that(2), of files sr msg e] by (intro less [of s' _ ?q]) (simp_all add: same srv)
  have got: ?thesis if "?q = Some (m # ms)" "s' = set_queue i (Some ms) (set_client i (recv m ?c) s)" "c_pc ?c \<in> {MFirst, MLoop}" for m ms
    using that recv_effort [OF that(3), of files m] by (intro less [of s' _ "Some ms"]) (simp_all add: srv queue_effort_def less_Suc_eq_le)
  have moved: ?thesis if "s' = set_client i (?c\<lparr>c_pc := p\<rparr>) s" "cli_effort files (?c\<lparr>c_pc := p\<rparr>) < cli_effort files ?c" for p
    using that by (intro less [of s' _ ?q]) (simp_all add: same srv)
  have req: "make_request 0 (?c\<lparr>c_pc := p\<rparr>) = make_request 0 ?c" for p by (simp add: make_request_def client_path_def)
  show ?thesis
  proof (cases "c_pc ?c")
    case MStart
    then have "s' = set_client i (client_start ?c) s" using st by (simp add: client_step_def)
    moreover have "cli_effort files (client_start ?c) < cli_effort files ?c"
      using MStart by (simp add: cli_effort_def Let_def make_request_def client_path_def)
    ultimately show ?thesis by (intro less [of s' _ ?q]) (simp_all add: same srv)
  next
    case MGetServer
    with st show ?thesis
      using moved [of MGetClient] failed by (cases "srvq s") (auto simp: client_step_def Let_def cli_effort_def req)
  next
    case MGetClient
    with st have "s' = set_queue i (Some []) (set_client i (?c\<lparr>c_pc := MAtexit\<rparr>) s)" by (auto simp: client_step_def)
    moreover have "cli_effort files (?c\<lparr>c_pc := MAtexit\<rparr>) < cli_effort files ?c"
      using MGetClient by (simp add: cli_effort_def Let_def req)
    ultimately show ?thesis by (intro less [of s' _ "Some []"]) (auto simp: srv queue_effort_def split: option.split)
  next
    case MAtexit
    with st show ?thesis using moved [of MSend] by (auto simp: client_step_def Let_def cli_effort_def req)
  next
    case MSend
    show ?thesis
    proof (cases "srvq s")
      case None
      with MSend st show ?thesis by (intro failed [of "client_call MSend" EIDRM]) (auto simp: client_step_def Let_def)
    next
      case (Some qs)
      let ?s = "(set_client i (?c\<lparr>c_pc := MFirst\<rparr>) s)\<lparr>srvq := Some (qs @ [make_request i ?c])\<rparr>"
      have "s' = ?s" using MSend st Some by (auto simp: client_step_def Let_def split: if_splits)
      moreover have "srv_effort files ?s = srv_effort files s + req_effort files (pathname (make_request 0 ?c))"
        by (simp add: srv_effort_def Some make_request_path [of i] cong: spc.case_cong)
      ultimately show ?thesis
        using MSend by (intro less [of s' "?c\<lparr>c_pc := MFirst\<rparr>" ?q]) (simp_all add: same cli_effort_def Let_def)
    qed
  next
    case MFirst
    with st show ?thesis
      using failed got by (auto simp: client_step_def Let_def q recv_def split: option.splits list.splits)
  next
    case MLoop
    with st show ?thesis
      using failed got by (auto simp: client_step_def Let_def q recv_def split: option.splits list.splits)
  next
    case (MRemove h)
    with st have "s' = removeQueue i h s" by (auto simp: client_step_def)
    with MRemove show ?thesis
      by (intro less [of s' "?c\<lparr>c_io := fflush_stdout (c_io ?c), c_pc := MEnd h\<rparr>" None])
        (simp_all add: removeQueue_def Let_def srv queue_effort_def cli_effort_def)
  qed (use st in \<open>simp add: client_step_def\<close>)
qed

lemma serve_effort:
  assumes inv: "fs_inv files True up argvs s" and j: "j < length (kids s)" and n: "0 < n" "n \<le> RESP_MSG_SIZE"
    and st: "serveRequest files Q n j s = Some s'"
  shows "fs_effort files s' < fs_effort files s"
proof -
  note D = fs_invD [OF inv]
  let ?k = "kids s ! j"
  let ?i = "kid_id ?k"
  have i: "?i < length (clis s)" using D(5) j by simp
  then have i': "?i < length (cqs s)" using D(2) by simp
  note q = resp_queue_nth [OF D(2) i] and less = effort_child [OF j i']
  have same: "(cqs s)[?i := cqs s ! ?i] = cqs s" by simp
  have dist: "distinct (map kid_id (kids s))" using D(3) by simp
  have ch: "served files True ?k (clis s ! ?i) (cqs s ! ?i)"
    using D(6) [OF i] by (simp add: stage_kid [OF dist j] chan_ok_def)
  have kept: ?thesis if "s' = set_kid j k s" "kid_effort files k < kid_effort files ?k" for k
    using that by (intro less [of s' "cqs s ! ?i" k]) (simp_all add: same)
  have sent: ?thesis if "cqs s ! ?i = Some ms" "s' = set_kid j k (set_queue ?i (Some (ms @ [m])) s)" "kid_effort files k + 1 < kid_effort files ?k" for ms k m
    using that by (intro less [of s' "Some (ms @ [m])" k]) (simp_all add: queue_effort_def)
  show ?thesis
  proof (cases "k_pc ?k")
    case KOpen
    with st show ?thesis
      by (intro kept [of "case files (pathname (k_req ?k)) of None \<Rightarrow> ?k\<lparr>k_pc := KFail\<rparr> | Some ct \<Rightarrow> ?k\<lparr>k_pc := KRead, k_left := ct\<rparr>"])
        (auto simp: serveRequest_def Let_def kid_effort_def req_effort_def split: option.splits)
  next
    case KRead
    with st n show ?thesis
      by (intro kept [of "if k_left ?k = [] then ?k\<lparr>k_pc := KFinal\<rparr>
          else ?k\<lparr>k_pc := KSend (take n (k_left ?k)), k_left := drop n (k_left ?k)\<rparr>"])
        (auto simp: serveRequest_def Let_def kid_effort_def)
  next
    case (KSend d)
    with ch obtain ms where ms: "cqs s ! ?i = Some ms" "1 \<le> length d" by (auto simp: served_def)
    with KSend st show ?thesis
      by (intro sent [of ms "?k\<lparr>k_pc := KRead\<rparr>" "\<lparr>mtype = RESP_MT_DATA, data = d\<rparr>"])
        (auto simp: serveRequest_def Let_def msgsnd_resp_def q kid_effort_def split: if_splits)
  next
    case KFinal
    with ch obtain ms where ms: "cqs s ! ?i = Some ms" by (auto simp: served_def)
    with KFinal st show ?thesis
      by (intro sent [of ms "?k\<lparr>k_pc := KZombie EXIT_SUCCESS\<rparr>" end_msg])
        (auto simp: serveRequest_def Let_def msgsnd_resp_def q kid_effort_def split: if_splits)
  next
    case KFail
    with ch obtain ms where ms: "cqs s ! ?i = Some ms" by (auto simp: served_def waiting_def)
    with KFail st show ?thesis
      by (intro sent [of ms "?k\<lparr>k_pc := KZombie EXIT_FAILURE\<rparr>" failure_msg])
        (auto simp: serveRequest_def Let_def msgsnd_resp_def q kid_effort_def split: if_splits)
  qed (use st in \<open>simp_all add: serveRequest_def Let_def\<close>)
qed

lemma server_step_effort:
  assumes inv: "fs_inv files True up argvs s" and st: "server_step sr s = Some s'"
  shows "fs_effort files s' < fs_effort files s"
  using st fs_invD(7) [OF inv]
  by (auto simp: server_step_def srv_ok_def fs_effort_def srv_effort_def kid_effort_def req_effort_def
      split: spc.splits option.splits list.splits)

lemma sum_less_some:
  fixes f :: "'a \<Rightarrow> nat"
  assumes "\<And>x. x \<in> set xs \<Longrightarrow> f (g x) \<le> f x" "x \<in> set xs" "f (g x) < f x"
  shows "sum_list (map f (map g xs)) < sum_list (map f xs)"
  using assms
proof (induction xs)
  case (Cons y ys)
  have le: "sum_list (map f (map g ys)) \<le> sum_list (map f ys)"
    using Cons.prems(1) by (induction ys) (auto intro: add_mono)
  with Cons show ?case by (auto simp: add_less_le_mono add_le_less_mono)
qed simp

lemma reap_effort:
  assumes "k \<in> set (kids s)" "is_zombie k"
  shows "fs_effort files (s\<lparr>kids := grimReaper (kids s)\<rparr>) < fs_effort files s"
proof -
  have "sum_list (map (kid_effort files) (map reap (kids s))) < sum_list (map (kid_effort files) (kids s))"
    by (rule sum_less_some [OF _ assms(1)]) (use assms(2) in \<open>auto simp: kid_effort_def reap_def is_zombie_def split: kpc.splits\<close>)
  then show ?thesis by (simp add: fs_effort_def srv_effort_def grimReaper_map cong: spc.case_cong)
qed

definition fs_final :: "fs_state \<Rightarrow> bool" where
  "fs_final s \<longleftrightarrow> (\<forall>c \<in> set (clis s). \<exists>h. c_pc c = MEnd h) \<and> srv s = SRecv \<and> srvq s = Some [] \<and>
     (\<forall>k \<in> set (kids s). \<exists>z. k_pc k = KReaped z)"

lemma child_can_step:
  assumes Q: "RESP_MSG_SIZE \<le> Q" and inv: "fs_inv files True up argvs s" and j: "j < length (kids s)"
    and q: "cqs s ! kid_id (kids s ! j) = Some []" and nz: "\<nexists>z. k_pc (kids s ! j) \<in> {KZombie z, KReaped z}"
  shows "\<exists>s'. serveRequest files Q 1 j s = Some s'"
proof -
  note D = fs_invD [OF inv]
  let ?i = "kid_id (kids s ! j)"
  have i: "?i < length (clis s)" using D(5) j by simp
  have dist: "distinct (map kid_id (kids s))" using D(3) by simp
  have "served files True (kids s ! j) (clis s ! ?i) (cqs s ! ?i)"
    using D(6) [OF i] by (simp add: stage_kid [OF dist j] chan_ok_def)
  then have d: "length d \<le> RESP_MSG_SIZE" if "k_pc (kids s ! j) = KSend d" for d using that by (simp add: served_def)
  have room: "resp_room Q n []" if "n \<le> RESP_MSG_SIZE" for n
    using that Q by (simp add: resp_room_def msg_bytes_def RESP_MSG_SIZE_def)
  have "length (data failure_msg) \<le> RESP_MSG_SIZE" "length (data end_msg) \<le> RESP_MSG_SIZE"
    by (simp_all add: failure_msg_def end_msg_def snprintf_id RESP_MSG_SIZE_def)
  then show ?thesis
    using nz room d
    by (cases "k_pc (kids s ! j)") (auto simp: serveRequest_def Let_def msgsnd_resp_def resp_queue_nth [OF D(2) i] q)
qed

lemma fs_progress:
  assumes Q: "RESP_MSG_SIZE \<le> Q" and inv: "fs_inv files True up argvs s" and nf: "\<not> fs_final s"
  shows "\<exists>t. fs_step files Q sr s t"
proof (rule ccontr)
  assume no: "\<nexists>t. fs_step files Q sr s t"
  note D = fs_invD [OF inv]
  have "server_step sr s = None" using no fs_step.server by (metis not_None_eq)
  then have srv: "srv s = SRecv" "srvq s = Some []"
    using D(7) by (auto simp: server_step_def srv_ok_def split: spc.splits option.splits list.splits prod.splits)
  then have pend: "pend s = []" by (simp add: pend_def)
  have nz: "\<not> is_zombie k" if "k \<in> set (kids s)" for k
    using no fs_step.sigchld [of s files Q sr] that unfolding srv by blast
  have reaped: "\<exists>z. k_pc (kids s ! j) = KReaped z" if "j < length (kids s)" "cqs s ! kid_id (kids s ! j) = Some []" for j
    using child_can_step [OF Q inv that] no fs_step.child [OF that(1), of 1] nz [of "kids s ! j"] that(1)
    by (fastforce simp: RESP_MSG_SIZE_def is_zombie_def)
  have ended: "\<exists>h. c_pc (clis s ! i) = MEnd h" if i: "i < length (clis s)" for i
  proof (rule ccontr)
    let ?c = "clis s ! i"
    assume ne: "\<nexists>h. c_pc ?c = MEnd h"
    have "client_step Q sr i s = None" using no fs_step.client [OF i] by (metis not_None_eq)
    moreover have "req_room Q []" using Q by (simp add: req_room_def RESP_MSG_SIZE_def REQ_MSG_SIZE_def)
    ultimately have c: "c_pc ?c \<in> {MFirst, MLoop}" "cqs s ! i = Some []"
      using ne srv by (auto simp: client_step_def Let_def resp_queue_nth [OF D(2) i] split: mpc.splits option.splits list.splits if_splits)
    with D(6) [OF i] pend obtain k where k: "stage i [] (kids s) = Served k" "served files True k ?c (Some [])"
      by (auto simp: chan_ok_def fresh_def gone_def waiting_def stage_def split: option.splits)
    then obtain j where "j < length (kids s)" "kids s ! j = k" "kid_id k = i"
      by (auto simp: stage_def find_Some_iff split: option.splits)
    with reaped [of j] c obtain z where "k_pc k = KReaped z" by auto
    with k(2) c show False by (auto simp: served_def served_gone_def leaving_def)
  qed
  have "\<exists>z. k_pc k = KReaped z" if k: "k \<in> set (kids s)" for k
  proof -
    obtain j where j: "j < length (kids s)" "kids s ! j = k" using k by (auto simp: in_set_conv_nth)
    have dist: "distinct (map kid_id (kids s))" using D(3) by simp
    have i: "kid_id k < length (clis s)" using D(5) k by simp
    have "served files True k (clis s ! kid_id k) (cqs s ! kid_id k)"
      using D(6) [OF i] stage_kid [OF dist j(1), of "pend s"] j(2) by (simp add: chan_ok_def)
    moreover obtain h where "c_pc (clis s ! kid_id k) = MEnd h" using ended [OF i] by blast
    ultimately show ?thesis using nz [OF k] by (auto simp: served_def waiting_def live_def is_zombie_def split: kpc.splits)
  qed
  moreover have "\<exists>h. c_pc c = MEnd h" if "c \<in> set (clis s)" for c using that ended by (metis in_set_conv_nth)
  ultimately show False using srv nf unfolding fs_final_def by blast
qed

interpretation fsc: completing_system "fs_step files Q sr" "\<lambda>s. RESP_MSG_SIZE \<le> Q \<and> small_files files \<and> fs_inv files True up argvs s"
  "fs_effort files" fs_final
proof
  fix s t
  assume inv: "RESP_MSG_SIZE \<le> Q \<and> small_files files \<and> fs_inv files True up argvs s" and st: "fs_step files Q sr s t"
  then show "RESP_MSG_SIZE \<le> Q \<and> small_files files \<and> fs_inv files True up argvs t" by (auto intro: inv_fs_step)
  from st show "fs_effort files t < fs_effort files s"
    by (cases rule: fs_step.cases) (use inv in \<open>auto intro: client_step_effort server_step_effort serve_effort reap_effort\<close>)
qed (auto intro: fs_progress)

section \<open>What clients get\<close>

text \<open>The answer a client reports, for a file \<open>path\<close>.\<close>

definition answered :: "(string \<Rightarrow> string option) \<Rightarrow> string \<Rightarrow> client \<Rightarrow> bool" where
  "answered files path c = (case files path of
      None \<Rightarrow> c_pc c = MEnd (Exit EXIT_FAILURE) \<and> said c = ''Couldn't open'' @ [NL]
    | Some content \<Rightarrow> c_pc c = MEnd (Exit EXIT_SUCCESS) \<and>
        (\<exists>m. said c = report (int (length content)) (m + 1) \<and> m \<le> int (length content) \<and> int (length content) \<le> int RESP_MSG_SIZE * m))"

lemma final_answered:
  assumes inv: "fs_inv files True True argvs s" and f: "fs_final s" and i: "i < length argvs" "argv_ok (argvs ! i)"
  shows "answered files (argvs ! i ! 1) (clis s ! i)" "cqs s ! i = None"
proof -
  note D = fs_invD [OF inv]
  let ?c = "clis s ! i"
  have len: "i < length (clis s)" and arg: "c_argv ?c = argvs ! i" using D(1) i(1) by auto
  have path: "client_path ?c = argvs ! i ! 1" by (simp add: client_path_def arg)
  obtain h where h: "c_pc ?c = MEnd h" using f nth_mem [OF len] unfolding fs_final_def by blast
  obtain k where k: "stage i (pend s) (kids s) = Served k" "served files True k ?c (cqs s ! i)"
    using D(6) [OF len] h i(2) by (auto simp: chan_ok_def fresh_def waiting_def arg split: stage.splits)
  then have "k \<in> set (kids s)" by (auto simp: stage_def find_Some_iff split: option.splits if_splits)
  with f obtain z where "k_pc k = KReaped z" by (auto simp: fs_final_def)
  with k(2) have g: "served_gone files True z ?c (cqs s ! i)" by (simp add: served_def)
  then show "cqs s ! i = None" using h by (auto simp: served_gone_def live_def leaving_def)
  from g h show "answered files (argvs ! i ! 1) ?c"
    unfolding answered_def path [symmetric]
    by (auto simp: served_gone_def live_def leaving_def reported_def refused_def)
qed

text \<open>C9. Any number of clients and children run at the same time and any call of any process may fail at any
  moment: a client writes nothing, or the refusal of the server, or a report with a number of bytes that is at most
  the length of its own file, in at most one message per byte and one more.\<close>

theorem file_client_safe:
  assumes "blank io" "(fs_fstep files Q sr)\<^sup>*\<^sup>* (fs_init started io argvs) s" "i < length argvs"
  shows "said (clis s ! i) = [] \<or> said (clis s ! i) = ''Couldn't open'' @ [NL] \<or>
    (\<exists>content n m. files (argvs ! i ! 1) = Some content \<and> said (clis s ! i) = report n m \<and> n \<le> int (length content) \<and> m \<le> n + 1)"
proof -
  have inv: "fs_inv files False started argvs s"
    by (rule fsf.run_inv [OF assms(2) inv_fs_init [OF assms(1)]])
  note D = fs_invD [OF this]
  have i: "i < length (clis s)" "client_path (clis s ! i) = argvs ! i ! 1" using D(1) assms(3) by (auto simp: client_path_def)
  from chan_said [OF D(6) [OF i(1)]] show ?thesis
    unfolding i(2) refused_def reported_def by fastforce
qed

text \<open>C10. With a running server, no failing call, queues that can hold one full message and files of fewer than \<open>2\<^sup>3\<^sup>1 - 1\<close>
  bytes (so that the client's counter of messages, an \<^verbatim>\<open>int\<close>, cannot overflow, however short the reads are), no run is infinite, and a
  run that cannot go on has served everyone: each client with a valid command line has reported the exact length of its file, in the
  messages needed for it, or the refusal if the file could not be opened, and has removed its queue; the server is
  waiting for requests, and its children have been reaped.\<close>

theorem file_server_completes:
  assumes "RESP_MSG_SIZE \<le> Q" "blank io" and small: "\<forall>p content. files p = Some content \<longrightarrow> length content < 2 ^ 31 - 1"
  shows "(\<exists>N. \<forall>n s. (fs_step files Q sr ^^ n) (fs_init True io argvs) s \<longrightarrow> n \<le> N) \<and>
    (\<forall>s. (fs_step files Q sr)\<^sup>*\<^sup>* (fs_init True io argvs) s \<and> (\<nexists>t. fs_step files Q sr s t) \<longrightarrow>
      srv s = SRecv \<and> srvq s = Some [] \<and> (\<forall>k \<in> set (kids s). \<exists>z. k_pc k = KReaped z) \<and>
      (\<forall>i < length argvs. argv_ok (argvs ! i) \<longrightarrow> answered files (argvs ! i ! 1) (clis s ! i) \<and> cqs s ! i = None))"
proof -
  have "small_files files" using small by (auto simp: small_files_def INT_MAX_def)
  then have init: "RESP_MSG_SIZE \<le> Q \<and> small_files files \<and> fs_inv files True True argvs (fs_init True io argvs)"
    using assms inv_fs_init by blast
  have "n \<le> fs_effort files (fs_init True io argvs)" if "(fs_step files Q sr ^^ n) (fs_init True io argvs) s" for n s
    by (rule fsc.run_bounded [OF that init])
  moreover have "fs_final s \<and> (\<forall>i < length argvs. argv_ok (argvs ! i) \<longrightarrow> answered files (argvs ! i ! 1) (clis s ! i) \<and> cqs s ! i = None)"
    if run: "(fs_step files Q sr)\<^sup>*\<^sup>* (fs_init True io argvs) s" and stuck: "\<nexists>t. fs_step files Q sr s t" for s
  proof -
    have f: "fs_final s" by (rule fsc.stuck_final [OF run init stuck])
    have inv: "fs_inv files True True argvs s" using fsc.run_inv [OF run init] by blast
    from final_answered [OF inv f] f show ?thesis by blast
  qed
  ultimately show ?thesis unfolding fs_final_def by blast
qed

text \<open>A server with one file and two clients, one of them asking for a file that is not there.\<close>

definition fs_files :: "string \<Rightarrow> string option" where
  "fs_files p = (if p = ''/etc/motd'' then Some ''hello'' else None)"

definition fs_argvs :: "string list list" where
  "fs_argvs = [[''client'', ''/etc/motd''], [''client'', ''/nowhere'']]"

abbreviation fs_blank :: proc_io where
  "fs_blank \<equiv> \<lparr>stdout_buf = [], stdout_out = [], stderr_out = [], errno = 0, ef_dumpcore = None, stdio_errno = None\<rparr>"

lemma fs_small: "small_files fs_files"
  by (simp add: small_files_def fs_files_def INT_MAX_def)

lemma fs_example_ends:
  "\<exists>s. (fs_step fs_files 16384 sr)\<^sup>*\<^sup>* (fs_init True fs_blank fs_argvs) s \<and> (\<nexists>t. fs_step fs_files 16384 sr s t)"
  by (rule fsc.reaches_stuck [where up = True and argvs = fs_argvs]) (simp add: RESP_MSG_SIZE_def inv_fs_init fs_small)

theorem file_server_completes_witness:
  "\<exists>s m. (fs_step fs_files 16384 (\<lambda>_. []))\<^sup>*\<^sup>* (fs_init True fs_blank fs_argvs) s \<and> said (clis s ! 0) = report 5 (m + 1) \<and> m \<le> 5
    \<and> said (clis s ! 1) = ''Couldn't open'' @ [NL]"
proof -
  obtain s where s: "(fs_step fs_files 16384 (\<lambda>_. []))\<^sup>*\<^sup>* (fs_init True fs_blank fs_argvs) s" "\<nexists>t. fs_step fs_files 16384 (\<lambda>_. []) s t"
    using fs_example_ends by blast
  have ok: "argv_ok (fs_argvs ! 0)" "argv_ok (fs_argvs ! 1)" "length fs_argvs = 2"
    by (simp_all add: argv_ok_def fs_argvs_def const_defs)
  have "\<forall>i < length fs_argvs. argv_ok (fs_argvs ! i) \<longrightarrow> answered fs_files (fs_argvs ! i ! 1) (clis s ! i) \<and> cqs s ! i = None"
    using file_server_completes [of 16384 fs_blank fs_files "\<lambda>_. []" fs_argvs] s by (simp add: RESP_MSG_SIZE_def fs_files_def)
  with ok have "answered fs_files (fs_argvs ! 0 ! 1) (clis s ! 0)" "answered fs_files (fs_argvs ! 1 ! 1) (clis s ! 1)" by simp_all
  then show ?thesis using s(1) by (auto simp: answered_def fs_files_def fs_argvs_def)
qed

lemma fs_example_reports:
  "\<exists>s. (fs_step fs_files 16384 sr)\<^sup>*\<^sup>* (fs_init True fs_blank fs_argvs) s \<and> c_pc (clis s ! 0) = MEnd (Exit EXIT_SUCCESS)"
proof -
  have init: "RESP_MSG_SIZE \<le> 16384 \<and> small_files fs_files \<and> fs_inv fs_files True True fs_argvs (fs_init True fs_blank fs_argvs)"
    by (simp add: RESP_MSG_SIZE_def inv_fs_init fs_small)
  obtain s where s: "(fs_step fs_files 16384 sr)\<^sup>*\<^sup>* (fs_init True fs_blank fs_argvs) s" "\<nexists>t. fs_step fs_files 16384 sr s t"
    using fs_example_ends by blast
  have f: "fs_final s" by (rule fsc.stuck_final [OF s(1) init s(2)])
  have inv: "fs_inv fs_files True True fs_argvs s" using fsc.run_inv [OF s(1) init] by blast
  from final_answered(1) [OF inv f, of 0] s(1) show ?thesis
    by (auto simp: fs_argvs_def argv_ok_def const_defs answered_def fs_files_def)
qed

theorem file_client_safe_witness:
  "\<exists>s. (fs_fstep fs_files 16384 (\<lambda>_. []))\<^sup>*\<^sup>* (fs_init True fs_blank fs_argvs) s \<and> c_pc (clis s ! 0) = MEnd (Exit EXIT_SUCCESS) \<and>
    (said (clis s ! 0) = [] \<or> said (clis s ! 0) = ''Couldn't open'' @ [NL] \<or>
     (\<exists>n m. said (clis s ! 0) = report n m \<and> n \<le> 5 \<and> m \<le> n + 1))"
proof -
  obtain s where s: "(fs_step fs_files 16384 (\<lambda>_. []))\<^sup>*\<^sup>* (fs_init True fs_blank fs_argvs) s" "c_pc (clis s ! 0) = MEnd (Exit EXIT_SUCCESS)"
    using fs_example_reports by blast
  have run: "(fs_fstep fs_files 16384 (\<lambda>_. []))\<^sup>*\<^sup>* (fs_init True fs_blank fs_argvs) s"
    by (rule rtranclp_mono [THEN predicate2D, OF _ s(1)]) (auto intro: fs_fstep.works)
  with s(2) file_client_safe [OF _ run, of 0] show ?thesis by (auto simp: fs_argvs_def fs_files_def)
qed

section \<open>A client that is left alone\<close>

definition abandoned :: "nat \<Rightarrow> fs_state \<Rightarrow> bool" where
  "abandoned i s \<longleftrightarrow> i < length (clis s) \<and> length (cqs s) = length (clis s) \<and> c_pc (clis s ! i) = MFirst \<and> cqs s ! i = Some [] \<and>
     i \<notin> kid_id ` set (kids s) \<and> srv s \<in> {SRemove} \<union> range SEnd"

lemma abandoned_client:
  assumes ab: "abandoned i s" and st: "client_step Q sr l s = Some s'"
  shows "abandoned i s'"
proof -
  have "l \<noteq> i" using st ab by (auto simp: abandoned_def client_step_def Let_def resp_queue_def)
  moreover have "length (clis s') = length (clis s)" "length (cqs s') = length (cqs s)" "srv s' = srv s" "kids s' = kids s"
    "l \<noteq> i \<Longrightarrow> clis s' ! i = clis s ! i" "l \<noteq> i \<Longrightarrow> cqs s' ! i = cqs s ! i"
    using st by (auto simp: client_step_def Let_def removeQueue_def split: mpc.splits option.splits list.splits if_splits)
  ultimately show ?thesis using ab by (simp add: abandoned_def)
qed

lemma map_id_update: "k_req k = k_req (ks ! j) \<Longrightarrow> map kid_id (ks[j := k]) = map kid_id ks"
  by (cases "j < length ks") (auto simp: list_eq_iff_nth_eq nth_list_update)

lemma abandoned_kid:
  assumes ab: "abandoned i s" and j: "j < length (kids s)" and st: "serveRequest files Q n j s = Some s'"
  shows "abandoned i s'"
proof -
  have "kid_id (kids s ! j) \<noteq> i" using ab j by (auto simp: abandoned_def)
  moreover have "clis s' = clis s" "length (cqs s') = length (cqs s)" "srv s' = srv s"
    "kid_id (kids s ! j) \<noteq> i \<Longrightarrow> cqs s' ! i = cqs s ! i"
    using st by (auto simp: serveRequest_def Let_def msgsnd_resp_def split: kpc.splits option.splits if_splits)
  moreover have "map kid_id (kids s') = map kid_id (kids s)"
    using st by (auto simp: serveRequest_def Let_def msgsnd_resp_def map_id_update split: kpc.splits option.splits if_splits)
  then have "kid_id ` set (kids s') = kid_id ` set (kids s)" by (metis list.set_map)
  ultimately show ?thesis using ab by (simp add: abandoned_def)
qed

lemma abandoned_step:
  assumes ab: "abandoned i s" and st: "fs_step files Q sr s s'"
  shows "abandoned i s'"
  using st
proof (cases rule: fs_step.cases)
  case (client l)
  with ab show ?thesis by (auto intro: abandoned_client)
next
  case server
  with ab show ?thesis by (auto simp: abandoned_def server_step_def split: option.splits prod.splits)
next
  case (child j n)
  with ab show ?thesis by (auto intro: abandoned_kid)
next
  case sigchld
  with ab show ?thesis by (auto simp: abandoned_def grimReaper_map)
qed

interpretation fsa: invariant_system "fs_step files Q sr" "abandoned i"
  by unfold_locales (rule abandoned_step)

text \<open>When \<^verbatim>\<open>fork\<close> fails the server reports it, removes its own queue and ends with status 0, but the client whose
  request it had taken is told nothing: even if no other call ever fails, that client waits for its first response for ever.\<close>

theorem file_client_abandoned:
  assumes "blank io" "(fs_step files Q sr)\<^sup>*\<^sup>* (fs_init started io argvs) s" "srv s = SFork r" "server_fail sr e s = Some t"
    and "(fs_step files Q sr)\<^sup>*\<^sup>* t u" "small_files files"
  shows "c_pc (clis u ! clientId r) = MFirst \<and> cqs u ! clientId r = Some []"
proof -
  have "fs_inv files True started argvs s"
    using assms(2) inv_fs_init [OF assms(1), of files True started argvs]
    by (induction rule: rtranclp_induct) (auto intro: inv_fs_step assms(6))
  note D = fs_invD [OF this]
  have pend: "r \<in> set (pend s)" by (simp add: pend_def assms(3))
  then have i: "clientId r < length (clis s)" "clientId r \<notin> kid_id ` set (kids s)" using D(3) D(4) [OF pend] by auto
  then have "find (\<lambda>k. kid_id k = clientId r) (kids s) = None" by (force simp: find_None_iff)
  then have "waiting (clis s ! clientId r) (cqs s ! clientId r)"
    using D(6) [OF i(1)] pend by (auto simp: stage_def chan_ok_def)
  with i D(2) assms(3,4) have "abandoned (clientId r) t" by (auto simp: abandoned_def waiting_def server_fail_def Let_def)
  from fsa.run_inv [OF assms(5) this] show ?thesis by (simp add: abandoned_def)
qed

lemma client_runs:
  assumes "i < length (clis s)" "client_step Q sr i s = Some t" "(fs_step files Q sr)\<^sup>*\<^sup>* t u"
  shows "(fs_step files Q sr)\<^sup>*\<^sup>* s u"
  by (rule converse_rtranclp_into_rtranclp [OF fs_step.client [OF assms(1,2)] assms(3)])

lemma fs_example_asks:
  "\<exists>s r. (fs_step fs_files 16384 sr)\<^sup>*\<^sup>* (fs_init True fs_blank fs_argvs) s \<and> srv s = SFork r \<and> clientId r = 0"
proof -
  let ?c = "\<lambda>p. \<lparr>c_pc = p, c_argv = [''client'', ''/etc/motd''], c_tot = 0, c_num = 0, c_io = fs_blank\<rparr>"
  let ?s = "\<lambda>p q. set_queue 0 q (set_client 0 (?c p) (fs_init True fs_blank fs_argvs))"
  let ?r = "\<lparr>clientId = 0, pathname = ''/etc/motd''\<rparr>"
  note defs = fs_init_def fs_argvs_def client_step_def client_start_def Let_def set_client_def set_queue_def const_defs
    make_request_def client_path_def strncpy_id req_room_def REQ_MSG_SIZE_def
  have st: "client_step 16384 sr 0 (?s MStart None) = Some (?s MGetServer None)"
    "client_step 16384 sr 0 (?s MGetServer None) = Some (?s MGetClient None)"
    "client_step 16384 sr 0 (?s MGetClient None) = Some (?s MAtexit (Some []))"
    "client_step 16384 sr 0 (?s MAtexit (Some [])) = Some (?s MSend (Some []))"
    "client_step 16384 sr 0 (?s MSend (Some [])) = Some ((?s MFirst (Some []))\<lparr>srvq := Some [?r]\<rparr>)"
    by (simp_all add: defs)
  have last: "fs_step fs_files 16384 sr ((?s MFirst (Some []))\<lparr>srvq := Some [?r]\<rparr>) ((?s MFirst (Some []))\<lparr>srvq := Some [], srv := SFork ?r\<rparr>)"
    by (rule fs_step.server) (simp add: server_step_def defs)
  have len: "0 < length (clis (?s p q))" and init: "fs_init True fs_blank fs_argvs = ?s MStart None" for p q by (simp_all add: defs)
  have "(fs_step fs_files 16384 sr)\<^sup>*\<^sup>* (?s MStart None) ((?s MFirst (Some []))\<lparr>srvq := Some [], srv := SFork ?r\<rparr>)"
    by (rule client_runs [OF len st(1)], rule client_runs [OF len st(2)], rule client_runs [OF len st(3)],
        rule client_runs [OF len st(4)], rule client_runs [OF len st(5)], rule r_into_rtranclp, rule last)
  then show ?thesis unfolding init [symmetric] by (intro exI [of _ "(?s MFirst (Some []))\<lparr>srvq := Some [], srv := SFork ?r\<rparr>"] exI [of _ ?r]) simp
qed

theorem file_client_abandoned_witness:
  "\<exists>s r t. (fs_step fs_files 16384 (\<lambda>_. []))\<^sup>*\<^sup>* (fs_init True fs_blank fs_argvs) s \<and> srv s = SFork r \<and> server_fail (\<lambda>_. []) EAGAIN s = Some t \<and>
     c_pc (clis t ! clientId r) = MFirst \<and> cqs t ! clientId r = Some []"
proof -
  obtain s r where s: "(fs_step fs_files 16384 (\<lambda>_. []))\<^sup>*\<^sup>* (fs_init True fs_blank fs_argvs) s" "srv s = SFork r"
    using fs_example_asks by blast
  then obtain t where t: "server_fail (\<lambda>_. []) EAGAIN s = Some t" by (simp add: server_fail_def Let_def)
  from file_client_abandoned [OF _ s t rtranclp.rtrancl_refl fs_small] have "c_pc (clis t ! clientId r) = MFirst \<and> cqs t ! clientId r = Some []" by simp
  with s t show ?thesis by (intro exI [of _ s] exI [of _ r] exI [of _ t]) simp
qed

end
