(* ===== verification/Seqnum.thy ===== *)
theory Seqnum
  imports Capabilities Stream_IO Get_Num
begin

text \<open>
  Two servers that hand out ranges of sequence numbers, with their clients: over stream sockets
  (\<^verbatim>\<open>tlpi-book/sockets/is_seqnum_sv.c\<close>, \<^verbatim>\<open>is_seqnum_cl.c\<close>) and over FIFOs (\<^verbatim>\<open>tlpi-book/pipes/fifo_seqnum_server.c\<close>,
  \<^verbatim>\<open>fifo_seqnum_client.c\<close>). The requests of the first are lines, read with \<^verbatim>\<open>readLine\<close> of theory \<open>Stream_IO\<close>; those of the
  second are C structures. The socket and file calls are arguments. Both servers loop for ever, so one pass
  of the loop is a definition, and a run is a number of passes. A pass yields, besides the new state, the range it granted.
\<close>

section \<open>Calls\<close>

record ('a, 'k) net_os =
  n_signal :: "'k \<Rightarrow> int option \<times> 'k"
  n_getaddrinfo :: "'k \<Rightarrow> (int + 'a list) \<times> 'k"
  n_socket :: "'a \<Rightarrow> 'k \<Rightarrow> (int + int) \<times> 'k"
  n_setsockopt :: "int \<Rightarrow> 'k \<Rightarrow> int option \<times> 'k"
  n_bind :: "int \<Rightarrow> 'a \<Rightarrow> 'k \<Rightarrow> int option \<times> 'k"
  n_connect :: "int \<Rightarrow> 'a \<Rightarrow> 'k \<Rightarrow> int option \<times> 'k"
  n_listen :: "int \<Rightarrow> nat \<Rightarrow> 'k \<Rightarrow> int option \<times> 'k"
  n_accept :: "int \<Rightarrow> 'k \<Rightarrow> (int + int \<times> 'a) \<times> 'k"
  n_getnameinfo :: "'a \<Rightarrow> (string \<times> string) option"
  n_read :: "int \<Rightarrow> 'k read_call"
  n_write :: "int \<Rightarrow> 'k write_call"
  n_close :: "int \<Rightarrow> 'k \<Rightarrow> int option \<times> 'k"

record 'k sqproc = "'k kproc" +
  seqNum :: "32 word"

section \<open>The socket server\<close>

definition INT_LEN :: nat where [const_defs]: "INT_LEN = 30"
definition BACKLOG :: nat where [const_defs]: "BACKLOG = 50"
definition ADDRSTRLEN :: nat where [const_defs]: "ADDRSTRLEN = 1025 + 32 + 10"

text \<open>The first address that can be bound.\<close>

primrec bind_loop :: "('a, 'k) net_os \<Rightarrow> (int \<Rightarrow> string) \<Rightarrow> 'a list \<Rightarrow> ('k sqproc, int option) prog" where
  "bind_loop N sr [] = ret None"
| "bind_loop N sr (rp # rps) =
     bnd (kget (n_socket N rp)) (\<lambda>r. case r of
       None \<Rightarrow> bind_loop N sr rps
     | Some lfd \<Rightarrow> bnd (kcall (n_setsockopt N lfd)) (\<lambda>ok.
         if \<not> ok then errExit sr ''setsockopt''
         else bnd (kcall (n_bind N lfd rp)) (\<lambda>ok.
           if ok then ret (Some lfd)
           else bnd (kcall (n_close N lfd)) (\<lambda>_. bind_loop N sr rps))))"

text \<open>A failing \<^verbatim>\<open>getInt\<close> prints its message and exits.\<close>

definition sv_setup :: "('a, 'k) net_os \<Rightarrow> (int \<Rightarrow> string) \<Rightarrow> string \<Rightarrow> string list \<Rightarrow> ('k sqproc, int) prog" where
  "sv_setup N sr argv0 args =
     andthen (whenM (args \<noteq> [] \<and> hd args = ''--help'') (usageErr (argv0 @ '' [init-seq-num]'' @ [NL])))
    (bnd (case args of
        [] \<Rightarrow> ret 0
      | a # _ \<Rightarrow> (case getInt (Some a) 0 (Some ''init-seq-num'') of
          Inr v \<Rightarrow> ret v
        | Inl msg \<Rightarrow> bnd (modify (fputs_stderr msg)) (\<lambda>_. exit3 EXIT_FAILURE)))
    (\<lambda>v. bnd (modify (\<lambda>s. s\<lparr>seqNum := word_of_int v\<rparr>))
    (\<lambda>_. bnd (kcall (n_signal N)) (\<lambda>ok. if \<not> ok then errExit sr ''signal'' else
     bnd (kget (n_getaddrinfo N)) (\<lambda>r. case r of None \<Rightarrow> errExit sr ''getaddrinfo'' | Some result \<Rightarrow>
     bnd (bind_loop N sr result) (\<lambda>r. case r of None \<Rightarrow> fatal sr ''Could not bind socket to any address'' | Some lfd \<Rightarrow>
     bnd (kcall (n_listen N lfd BACKLOG)) (\<lambda>ok. if \<not> ok then errExit sr ''listen'' else ret lfd)))))))"

definition close_quiet :: "('a, 'k) net_os \<Rightarrow> int \<Rightarrow> 'k sqproc \<Rightarrow> 'k sqproc" where
  "close_quiet N fd s = snd (kcall (n_close N fd) s)"

text \<open>Answering a request for \<open>reqLen\<close> numbers.\<close>

definition sv_grant :: "('a, 'k) net_os \<Rightarrow> (int \<Rightarrow> string) \<Rightarrow> int \<Rightarrow> int \<Rightarrow> 'k sqproc \<Rightarrow> 'k sqproc" where
  "sv_grant N sr cfd reqLen s =
     (let seqNumStr = snprintf INT_LEN (show_int (sint (seqNum s)) @ [NL]);
          s1 = (case n_write N cfd seqNumStr (ker s) of
              (Inr n, k) \<Rightarrow> if n = length seqNumStr then s\<lparr>ker := k\<rparr> else fputs_stderr ''Error on write'' (s\<lparr>ker := k\<rparr>)
            | (Inl e, k) \<Rightarrow> fputs_stderr ''Error on write'' (s\<lparr>ker := k, errno := e\<rparr>));
          s2 = s1\<lparr>seqNum := seqNum s1 + word_of_int reqLen\<rparr>
      in case kcall (n_close N cfd) s2 of (r, s3) \<Rightarrow> if r = Inr False then errMsg sr ''close'' s3 else s3)"

text \<open>One pass of the loop; \<open>None\<close> if \<^verbatim>\<open>readLine\<close> does not return.\<close>

definition sv_pass ::
  "('a, 'k) net_os \<Rightarrow> (int \<Rightarrow> string) \<Rightarrow> int \<Rightarrow> 'k sqproc \<Rightarrow> ((32 word \<times> int) option \<times> 'k sqproc) option" where
  "sv_pass N sr lfd s = (case n_accept N lfd (ker s) of
      (Inl e, k) \<Rightarrow> Some (None, errMsg sr ''accept'' (s\<lparr>ker := k, errno := e\<rparr>))
    | (Inr (cfd, claddr), k) \<Rightarrow>
        (let addrStr = snprintf ADDRSTRLEN (case n_getnameinfo N claddr of
                Some (host, service) \<Rightarrow> ''('' @ host @ '', '' @ service @ '')'' | None \<Rightarrow> ''(?UNKNOWN?)'');
             s1 = printf_stdout (''Connection from '' @ addrStr @ [NL]) (s\<lparr>ker := k\<rparr>) in
         case readLine (n_read N cfd) False INT_LEN (ker s1) of
           None \<Rightarrow> None
         | Some (Inl e, k) \<Rightarrow> Some (None, close_quiet N cfd (s1\<lparr>ker := k, errno := e\<rparr>))
         | Some (Inr reqLenStr, k) \<Rightarrow>
             if reqLenStr = [] then Some (None, close_quiet N cfd (s1\<lparr>ker := k\<rparr>))
             else (let reqLen = atoi reqLenStr in
               if reqLen \<le> 0 then Some (None, close_quiet N cfd (s1\<lparr>ker := k\<rparr>))
               else Some (Some (seqNum s, reqLen), sv_grant N sr cfd reqLen (s1\<lparr>ker := k\<rparr>)))))"

primrec sv_run ::
  "('a, 'k) net_os \<Rightarrow> (int \<Rightarrow> string) \<Rightarrow> int \<Rightarrow> nat \<Rightarrow> 'k sqproc \<Rightarrow> ((32 word \<times> int) list \<times> 'k sqproc) option" where
  "sv_run N sr lfd 0 s = Some ([], s)"
| "sv_run N sr lfd (Suc n) s = (case sv_pass N sr lfd s of
      None \<Rightarrow> None
    | Some (g, s1) \<Rightarrow> map_option (apfst ((@) (case g of None \<Rightarrow> [] | Some x \<Rightarrow> [x]))) (sv_run N sr lfd n s1))"

section \<open>The socket client\<close>

primrec connect_loop :: "('a, 'k) net_os \<Rightarrow> 'a list \<Rightarrow> ('k kproc, int option) prog" where
  "connect_loop N [] = ret None"
| "connect_loop N (rp # rps) =
     bnd (kget (n_socket N rp)) (\<lambda>r. case r of
       None \<Rightarrow> connect_loop N rps
     | Some cfd \<Rightarrow> bnd (kcall (n_connect N cfd rp)) (\<lambda>ok.
         if ok then ret (Some cfd)
         else bnd (kcall (n_close N cfd)) (\<lambda>_. connect_loop N rps)))"

definition write_all :: "('a, 'k) net_os \<Rightarrow> (int \<Rightarrow> string) \<Rightarrow> string \<Rightarrow> int \<Rightarrow> string \<Rightarrow> ('k kproc, unit) prog" where
  "write_all N sr msg cfd t =
     bnd (kget (n_write N cfd t)) (\<lambda>r. if r = Some (length t) then ret () else fatal sr msg)"

text \<open>The conversation on an open connection.\<close>

definition cl_talk :: "('a, 'k) net_os \<Rightarrow> (int \<Rightarrow> string) \<Rightarrow> int \<Rightarrow> string \<Rightarrow> 'k kproc \<Rightarrow> ((halt + unit) \<times> 'k kproc) option" where
  "cl_talk N sr cfd reqLenStr s =
     (case andthen (write_all N sr ''Partial/failed write (reqLenStr)'' cfd reqLenStr)
             (write_all N sr ''Partial/failed write (newline)'' cfd [NL]) s of
        (Inl h, s1) \<Rightarrow> Some (Inl h, s1)
      | (Inr _, s1) \<Rightarrow> (case readLine (n_read N cfd) False INT_LEN (ker s1) of
          None \<Rightarrow> None
        | Some (Inl e, k) \<Rightarrow> Some (errExit sr ''readLine'' (s1\<lparr>ker := k, errno := e\<rparr>))
        | Some (Inr seqNumStr, k) \<Rightarrow>
            if seqNumStr = [] then Some (fatal sr ''Unexpected EOF from server'' (s1\<lparr>ker := k\<rparr>))
            else Some (bnd (printfM (''Sequence number: '' @ takeWhile (\<lambda>c. c \<noteq> NUL) seqNumStr)) (\<lambda>_. exit3 EXIT_SUCCESS) (s1\<lparr>ker := k\<rparr>))))"

definition cl_main :: "('a, 'k) net_os \<Rightarrow> (int \<Rightarrow> string) \<Rightarrow> string \<Rightarrow> string list \<Rightarrow> 'k kproc \<Rightarrow> ((halt + unit) \<times> 'k kproc) option" where
  "cl_main N sr argv0 args s =
     (case andthen (whenM (args = [] \<or> hd args = ''--help'') (usageErr (argv0 @ '' server-host [sequence-len]'' @ [NL])))
          (bnd (kget (n_getaddrinfo N)) (\<lambda>r. case r of None \<Rightarrow> errExit sr ''getaddrinfo'' | Some result \<Rightarrow>
           bnd (connect_loop N result) (\<lambda>r. case r of None \<Rightarrow> fatal sr ''Could not connect socket to any address'' | Some cfd \<Rightarrow> ret cfd))) s of
        (Inl h, s1) \<Rightarrow> Some (Inl h, s1)
      | (Inr cfd, s1) \<Rightarrow> cl_talk N sr cfd (case args of _ # r # _ \<Rightarrow> r | _ \<Rightarrow> ''1'') s1)"

section \<open>The FIFO server and client\<close>

record request =
  req_pid :: int
  seqLen :: int

text \<open>A read of a structure gives the whole structure, or not (an error or a partial read); a write says
  whether the whole structure was written.\<close>

record 'k fifo_os =
  f_mkfifo :: "string \<Rightarrow> 'k \<Rightarrow> int option \<times> 'k"
  f_open_rd :: "string \<Rightarrow> 'k \<Rightarrow> (int + int) \<times> 'k"
  f_open_wr :: "string \<Rightarrow> 'k \<Rightarrow> (int + int) \<times> 'k"
  f_signal :: "'k \<Rightarrow> int option \<times> 'k"
  f_read_req :: "int \<Rightarrow> 'k \<Rightarrow> request option \<times> 'k"
  f_write_req :: "int \<Rightarrow> request \<Rightarrow> 'k \<Rightarrow> bool \<times> 'k"
  f_read_resp :: "int \<Rightarrow> 'k \<Rightarrow> int option \<times> 'k"
  f_write_resp :: "int \<Rightarrow> int \<Rightarrow> 'k \<Rightarrow> bool \<times> 'k"
  f_close :: "int \<Rightarrow> 'k \<Rightarrow> int option \<times> 'k"
  f_atexit :: "'k \<Rightarrow> int option \<times> 'k"
  f_unlink :: "string \<Rightarrow> 'k \<Rightarrow> int option \<times> 'k"
  f_getpid :: int

record 'k fifo_st = "'k kproc" +
  f_seqNum :: int

definition SERVER_FIFO :: string where "SERVER_FIFO = ''/tmp/seqnum_sv''"
definition CLIENT_FIFO_NAME_LEN :: nat where [const_defs]: "CLIENT_FIFO_NAME_LEN = 39"

definition client_fifo :: "int \<Rightarrow> string" where
  "client_fifo p = snprintf CLIENT_FIFO_NAME_LEN (''/tmp/seqnum_cl.'' @ show_int p)"

text \<open>\<^verbatim>\<open>mkfifo\<close>, for which an existing FIFO is no error.\<close>

definition mkfifo_or_exit :: "'k fifo_os \<Rightarrow> (int \<Rightarrow> string) \<Rightarrow> string \<Rightarrow> (('k, 'z) kproc_scheme, unit) prog" where
  "mkfifo_or_exit F sr name =
     bnd (kcall (f_mkfifo F name)) (\<lambda>ok. bnd (gets errno) (\<lambda>e.
       if \<not> ok \<and> e \<noteq> EEXIST then errExit sr (''mkfifo '' @ name) else ret ()))"

definition fopen_or_exit :: "(string \<Rightarrow> 'k \<Rightarrow> (int + int) \<times> 'k) \<Rightarrow> (int \<Rightarrow> string) \<Rightarrow> string \<Rightarrow> (('k, 'z) kproc_scheme, int) prog" where
  "fopen_or_exit f sr name = bnd (kget (f name)) (\<lambda>r. case r of None \<Rightarrow> errExit sr (''open '' @ name) | Some fd \<Rightarrow> ret fd)"

definition fifo_setup :: "'k fifo_os \<Rightarrow> (int \<Rightarrow> string) \<Rightarrow> ('k fifo_st, int) prog" where
  "fifo_setup F sr =
     bnd (modify (\<lambda>s. s\<lparr>f_seqNum := 0\<rparr>)) (\<lambda>_.
     bnd (mkfifo_or_exit F sr SERVER_FIFO) (\<lambda>_.
     bnd (fopen_or_exit (f_open_rd F) sr SERVER_FIFO) (\<lambda>serverFd.
     bnd (fopen_or_exit (f_open_wr F) sr SERVER_FIFO) (\<lambda>dummyFd.
     bnd (kcall (f_signal F)) (\<lambda>ok. if \<not> ok then errExit sr ''signal'' else ret serverFd)))))"

text \<open>One pass of the loop, with the number granted and the request; an overflow of \<^verbatim>\<open>seqNum\<close> is undefined.\<close>

definition fifo_pass :: "'k fifo_os \<Rightarrow> (int \<Rightarrow> string) \<Rightarrow> int \<Rightarrow> ('k fifo_st, (int \<times> request) option) prog" where
  "fifo_pass F sr serverFd =
     bnd (kplain (f_read_req F serverFd)) (\<lambda>r. case r of
       None \<Rightarrow> bnd (modify (fputs_stderr (''Error reading request; discarding'' @ [NL]))) (\<lambda>_. ret None)
     | Some req \<Rightarrow>
        (let clientFifo = client_fifo (req_pid req) in
         bnd (kget (f_open_wr F clientFifo)) (\<lambda>r. case r of
           None \<Rightarrow> bnd (modify (errMsg sr (''open '' @ clientFifo))) (\<lambda>_. ret None)
         | Some clientFd \<Rightarrow>
             bnd (gets f_seqNum) (\<lambda>n.
             bnd (kplain (f_write_resp F clientFd n)) (\<lambda>ok.
             bnd (whenM (\<not> ok) (modify (fputs_stderr (''Error writing to FIFO '' @ clientFifo @ [NL])))) (\<lambda>_.
             bnd (kcall (f_close F clientFd)) (\<lambda>ok.
             bnd (whenM (\<not> ok) (modify (errMsg sr ''close''))) (\<lambda>_.
             if n + seqLen req < INT_MIN \<or> INT_MAX < n + seqLen req then stop Undef
             else bnd (modify (\<lambda>s. s\<lparr>f_seqNum := n + seqLen req\<rparr>)) (\<lambda>_. ret (Some (n, req)))))))))))"

primrec fifo_run :: "'k fifo_os \<Rightarrow> (int \<Rightarrow> string) \<Rightarrow> int \<Rightarrow> nat \<Rightarrow> ('k fifo_st, (int \<times> request) list) prog" where
  "fifo_run F sr fd 0 = ret []"
| "fifo_run F sr fd (Suc n) = bnd (fifo_pass F sr fd) (\<lambda>g. bnd (fifo_run F sr fd n) (\<lambda>gs.
     ret ((case g of None \<Rightarrow> [] | Some x \<Rightarrow> [x]) @ gs)))"

text \<open>The client; its exit handler removes its FIFO on every \<^verbatim>\<open>exit\<close>.\<close>

definition removeFifo :: "'k fifo_os \<Rightarrow> string \<Rightarrow> ('k kproc, unit) prog \<Rightarrow> ('k kproc, unit) prog" where
  "removeFifo F clientFifo m s = (case m s of
      (Inl (Exit n), s') \<Rightarrow> (Inl (Exit n), snd (kcall (f_unlink F clientFifo) s'))
    | r \<Rightarrow> r)"

definition fifo_ask :: "'k fifo_os \<Rightarrow> (int \<Rightarrow> string) \<Rightarrow> string list \<Rightarrow> ('k kproc, unit) prog" where
  "fifo_ask F sr args =
     bnd (case args of
        [] \<Rightarrow> ret 1
      | a # _ \<Rightarrow> (case getInt (Some a) GN_GT_0 (Some ''seq-len'') of
          Inr v \<Rightarrow> ret v
        | Inl msg \<Rightarrow> bnd (modify (fputs_stderr msg)) (\<lambda>_. exit3 EXIT_FAILURE))) (\<lambda>len.
     bnd (fopen_or_exit (f_open_wr F) sr SERVER_FIFO) (\<lambda>serverFd.
     bnd (kplain (f_write_req F serverFd \<lparr>req_pid = f_getpid F, seqLen = len\<rparr>)) (\<lambda>ok. if \<not> ok then fatal sr ''Can't write to server'' else
     bnd (fopen_or_exit (f_open_rd F) sr (client_fifo (f_getpid F))) (\<lambda>clientFd.
     bnd (kplain (f_read_resp F clientFd)) (\<lambda>r. case r of None \<Rightarrow> fatal sr ''Can't read response from server''
     | Some n \<Rightarrow> bnd (printfM (show_int n @ [NL])) (\<lambda>_. exit3 EXIT_SUCCESS))))))"

definition fifo_client :: "'k fifo_os \<Rightarrow> (int \<Rightarrow> string) \<Rightarrow> string \<Rightarrow> string list \<Rightarrow> ('k kproc, unit) prog" where
  "fifo_client F sr argv0 args =
     andthen (whenM (args \<noteq> [] \<and> hd args = ''--help'') (usageErr (argv0 @ '' [seq-len]'' @ [NL])))
    (andthen (mkfifo_or_exit F sr (client_fifo (f_getpid F)))
    (bnd (kcall (f_atexit F)) (\<lambda>ok. if \<not> ok then errExit sr ''atexit''
     else removeFifo F (client_fifo (f_getpid F)) (fifo_ask F sr args))))"

section \<open>Granted ranges\<close>

lemma stdio_keeps [simp]:
  "seqNum (printf_stdout t s) = seqNum s" "seqNum (fputs_stderr t s) = seqNum s" "seqNum (errMsg sr m s) = seqNum s"
  "ker (printf_stdout t s) = ker s" "ker (fputs_stderr t s) = ker s" "ker (errMsg sr m s) = ker s"
  by (simp_all add: printf_stdout_def fputs_stderr_def stdio_noise_def errMsg_def outputError_def fflush_stdout_def Let_def
      split: option.split)

lemma kcall_keeps: "kcall f s = (r, s') \<Longrightarrow> seqNum s' = seqNum s"
  by (auto simp: kcall_def split: prod.splits option.splits)

lemma sv_grant_seqNum: "seqNum (sv_grant N sr cfd len s) = seqNum s + word_of_int len"
  by (auto simp: sv_grant_def Let_def dest: kcall_keeps split: prod.splits sum.splits)

lemma close_quiet_seqNum: "seqNum (close_quiet N fd s) = seqNum s"
  using kcall_keeps by (metis close_quiet_def prod.collapse)

lemma sv_pass_grants:
  assumes "sv_pass N sr lfd s = Some (g, s')"
  shows "case g of None \<Rightarrow> seqNum s' = seqNum s | Some (start, len) \<Rightarrow> start = seqNum s \<and> 0 < len \<and> seqNum s' = seqNum s + word_of_int len"
  using assms
  by (auto simp: sv_pass_def close_quiet_seqNum sv_grant_seqNum Let_def split: prod.splits sum.splits option.splits if_splits)

text \<open>The numbers of a range.\<close>

definition numbers :: "32 word \<times> int \<Rightarrow> 32 word list" where
  "numbers g = map (\<lambda>i. fst g + word_of_nat i) [0..<nat (snd g)]"

lemma numbers_add: "0 \<le> a \<Longrightarrow> 0 \<le> b \<Longrightarrow> numbers (x, a + b) = numbers (x, a) @ numbers (x + word_of_int a, b)"
proof -
  assume ab: "0 \<le> a" "0 \<le> b"
  have "[0..<nat a + nat b] = [0..<nat a] @ map (\<lambda>i. i + nat a) [0..<nat b]"
    unfolding map_add_upt using upt_add_eq_append [of 0 "nat a" "nat b"] by (simp only: add.commute [of "nat b"] le0)
  with ab show ?thesis by (simp add: numbers_def nat_add_distrib comp_def ac_simps)
qed

lemma numbers_distinct: "n \<le> 2 ^ 32 \<Longrightarrow> distinct (numbers (x, n))"
proof -
  assume n: "n \<le> 2 ^ 32"
  have "inj_on (\<lambda>i. x + word_of_nat i :: 32 word) {0..<nat n}"
  proof (rule inj_onI)
    fix i j
    assume ij: "i \<in> {0..<nat n}" "j \<in> {0..<nat n}" and "x + word_of_nat i = (x + word_of_nat j :: 32 word)"
    then have "unat (word_of_nat i :: 32 word) = unat (word_of_nat j :: 32 word)" by simp
    moreover have "i < 2 ^ 32" "j < 2 ^ 32" using ij n by auto
    ultimately show "i = j" by (simp add: unat_of_nat)
  qed
  then show ?thesis by (simp add: numbers_def distinct_map)
qed

lemma sv_run_numbers:
  assumes "sv_run N sr lfd n s = Some (gs, s')"
  shows "concat (map numbers gs) = numbers (seqNum s, sum_list (map snd gs)) \<and> (\<forall>g \<in> set gs. 0 < snd g)
    \<and> 0 \<le> sum_list (map snd gs) \<and> seqNum s' = seqNum s + word_of_int (sum_list (map snd gs))"
  using assms
proof (induction n arbitrary: s gs)
  case 0
  then show ?case by (simp add: numbers_def)
next
  case (Suc n)
  then obtain g s1 gs1 where p: "sv_pass N sr lfd s = Some (g, s1)" and r: "sv_run N sr lfd n s1 = Some (gs1, s')"
    and gs: "gs = (case g of None \<Rightarrow> [] | Some x \<Rightarrow> [x]) @ gs1"
    by (auto split: option.splits prod.splits)
  note IH = Suc.IH [OF r] and g = sv_pass_grants [OF p]
  show ?case
  proof (cases g)
    case None
    with IH g gs show ?thesis by simp
  next
    case (Some x)
    obtain start len where x: "x = (start, len)" by (cases x)
    with Some g have "start = seqNum s" "0 < len" "seqNum s1 = seqNum s + word_of_int len" by auto
    with IH gs Some x numbers_add [of len "sum_list (map snd gs1)" "seqNum s"] show ?thesis by simp
  qed
qed

text \<open>Over any number of connections, with failing calls and bad requests among them, the ranges the socket server
  grants follow one another without gaps from the number it started with: together they are consecutive numbers modulo
  two to the 32. So no number is granted twice until all of them have been used.\<close>

theorem seqnum_ranges:
  assumes "sv_run N sr lfd n s = Some (gs, s')"
  shows "concat (map numbers gs) = numbers (seqNum s, sum_list (map snd gs)) \<and> (\<forall>g \<in> set gs. 0 < snd g)
    \<and> (sum_list (map snd gs) \<le> 2 ^ 32 \<longrightarrow> distinct (concat (map numbers gs)))"
  using sv_run_numbers [OF assms] numbers_distinct by simp

section \<open>A conversation\<close>

text \<open>A connection on which reads come in pieces and are interrupted, by a schedule, and the few bytes written are accepted at once.\<close>

definition conn_read :: "(stream \<times> 'b) read_call" where
  "conn_read n k = (case sys_read n (fst k) of (r, d) \<Rightarrow> (r, (d, snd k)))"

definition conn_os :: "(unit, stream \<times> string) net_os" where
  "conn_os = \<lparr>n_signal = Pair None, n_getaddrinfo = Pair (Inr [()]), n_socket = (\<lambda>_. Pair (Inr 3)), n_setsockopt = (\<lambda>_. Pair None),
     n_bind = (\<lambda>_ _. Pair None), n_connect = (\<lambda>_ _. Pair None), n_listen = (\<lambda>_ _. Pair None), n_accept = (\<lambda>_. Pair (Inr (4, ()))),
     n_getnameinfo = (\<lambda>_. None), n_read = (\<lambda>_. conn_read), n_write = (\<lambda>_ bs k. (Inr (length bs), (fst k, snd k @ bs))),
     n_close = (\<lambda>_. Pair None)\<rparr>"

interpretation cr: reader conn_read "\<lambda>k. d_in (fst k)" "\<lambda>k. length (d_sched (fst k))" "\<lambda>k. stream_errs (fst k)"
proof (unfold_locales, goal_cases)
  case (2 n s s') then show ?case
    by (auto simp: conn_read_def sys_read_def Let_def split: list.splits xfer.splits)
qed (auto simp: conn_read_def sys_read_def stream_errs_def Let_def split: list.splits xfer.splits)

lemma readLine_loop_frame:
  "readLine_loop rd n acc s = Some y \<Longrightarrow> (\<And>n s. f (snd (rd n s)) = f s) \<Longrightarrow> f (snd y) = f s"
proof (induction rule: readLine_loop.raw_induct [rotated 1, consumes 1])
  case (1 rl rd n acc s y)
  obtain r s' where rd: "rd 1 s = (r, s')" by fastforce
  with 1(3) [of 1 s] have same: "f s' = f s" by simp
  show ?case
  proof (cases r)
    case (Inl e)
    with 1 rd same show ?thesis by (auto split: if_splits)
  next
    case (Inr bs)
    with 1 rd same show ?thesis by (auto simp: Let_def split: if_splits list.splits)
  qed
qed

lemma show_int_plain: "NL \<notin> set (show_int v)" "NUL \<notin> set (show_int v)"
proof -
  have "\<not> is_digit 10 NL" "\<not> is_digit 10 NUL" "NL \<noteq> CHR ''-''" "NUL \<noteq> CHR ''-''" by code_simp+
  then show "NL \<notin> set (show_int v)" "NUL \<notin> set (show_int v)"
    using show_int_chars [of _ v] is_digit_digit_char [of _ 10] by fastforce+
qed

lemma line_of_plain: "NL \<notin> set t \<Longrightarrow> line_of (t @ [NL]) = t @ [NL]"
  by (induction t) auto

text \<open>A line on such a connection.\<close>

lemma readLine_conn:
  assumes "stream_errs (fst k) = {}"
  shows "\<exists>d. readLine conn_read False INT_LEN k = Some (Inr (take 29 (line_of (d_in (fst k)))), (d, snd k))"
proof -
  have "length ([] :: string) \<le> INT_LEN - 1" "0 < INT_LEN" by (simp_all add: const_defs)
  from cr.readLine_loop_spec [OF this, of k] obtain r k' where r: "readLine_loop conn_read INT_LEN [] k = Some (r, k')"
    and c: "case r of Inr l \<Rightarrow> l = [] @ take (INT_LEN - 1 - length ([] :: string)) (line_of (d_in (fst k))) \<and> d_in (fst k') = rest_of (d_in (fst k))
      | Inl e \<Rightarrow> e \<noteq> EINTR \<and> e \<in> stream_errs (fst k)" by blast
  have "snd k' = snd k"
    using readLine_loop_frame [OF r, of snd] by (simp add: conn_read_def split: prod.split)
  with r c assms show ?thesis by (cases r; cases k') (auto simp: readLine_def const_defs)
qed

text \<open>The length a request asks for, and the server's answer.\<close>

definition request_len :: "string \<Rightarrow> int" where
  "request_len t = atoi (take 29 (line_of (t @ [NL])))"

definition reply :: "32 word \<Rightarrow> string \<Rightarrow> string" where
  "reply w t = (if request_len t \<le> 0 then [] else show_int (sint w) @ [NL])"

lemma line_of_nonempty: "line_of (t @ [NL]) \<noteq> []"
  by (cases t) auto

lemma sv_pass_conn:
  assumes "stream_errs (fst (ker s)) = {}" "d_in (fst (ker s)) = t @ [NL]"
  shows "\<exists>s'. sv_pass conn_os sr lfd s = Some (if request_len t \<le> 0 then None else Some (seqNum s, request_len t), s')
    \<and> snd (ker s') = snd (ker s) @ reply (seqNum s) t"
proof -
  obtain d where d: "readLine conn_read False INT_LEN (ker s) = Some (Inr (take 29 (line_of (t @ [NL]))), (d, snd (ker s)))"
    using readLine_conn [OF assms(1)] assms(2) by auto
  have "snprintf INT_LEN (show_int (sint (seqNum s)) @ [NL]) = show_int (sint (seqNum s)) @ [NL]"
    using show_int_word [of "seqNum s"] by (intro snprintf_id) (simp add: const_defs)
  with d line_of_nonempty [of t] show ?thesis
    by (auto simp: sv_pass_def conn_os_def Let_def request_len_def reply_def close_quiet_def kcall_def sv_grant_def)
qed

lemma cl_talk_conn:
  assumes "stream_errs (fst (ker s)) = {}" "d_in (fst (ker s)) = reply w t"
  shows "\<exists>s'. cl_talk conn_os sr cfd t s = Some (if request_len t \<le> 0 then fatal sr ''Unexpected EOF from server'' s'
       else (Inl (Exit EXIT_SUCCESS), s'))
    \<and> snd (ker s') = snd (ker s) @ t @ [NL]
    \<and> (0 < request_len t \<longrightarrow> stdout_out s' = stdout_out s @ stdout_buf s @ ''Sequence number: '' @ show_int (sint w) @ [NL])"
proof -
  let ?s = "s\<lparr>ker := (fst (ker s), snd (ker s) @ t @ [NL])\<rparr>"
  have sent: "andthen (write_all conn_os sr m1 cfd t) (write_all conn_os sr m2 cfd [NL]) s = (Inr (), ?s)" for m1 m2
    by (simp add: write_all_def kget_def conn_os_def prog_simps)
  have line: "take 29 (line_of (reply w t)) = reply w t"
    using show_int_word [of w] show_int_plain(1) [of "sint w"] by (simp add: reply_def line_of_plain)
  obtain d where d: "readLine conn_read False INT_LEN (ker ?s) = Some (Inr (reply w t), (d, snd (ker ?s)))"
    using readLine_conn [of "ker ?s"] assms line by auto
  have nul: "takeWhile (\<lambda>c. c \<noteq> NUL) (show_int (sint w) @ [NL]) = show_int (sint w) @ [NL]"
  proof (rule takeWhile_all)
    fix x
    assume "x \<in> set (show_int (sint w) @ [NL])"
    moreover have "NL \<noteq> NUL" by code_simp
    ultimately show "x \<noteq> NUL" using show_int_plain(2) [of "sint w"] by auto
  qed
  show ?thesis
  proof (cases "request_len t \<le> 0")
    case True
    with sent d show ?thesis
      by (intro exI [of _ "?s\<lparr>ker := (d, snd (ker s) @ t @ [NL])\<rparr>"]) (simp add: cl_talk_def conn_os_def reply_def)
  next
    case False
    with sent d nul show ?thesis
      by (simp add: cl_talk_def conn_os_def reply_def prog_simps printfM_def exit3_def fflush_stdout_def)
  qed
qed

lemma fatalD:
  assumes "fatal sr m s = (r, s')"
  shows "ker s' = ker s" "r \<in> {Inl (Exit EXIT_FAILURE), Inl Abort}"
  using assms
  by (auto simp: fatal_def terminate_proc_def outputError_def Let_def exit3_def fputs_stderr_def fflush_stdout_def stdio_noise_def
      split: option.splits if_splits)

lemma request_len_show: "0 < v \<Longrightarrow> v \<le> INT_MAX \<Longrightarrow> request_len (show_int v) = v"
proof -
  assume v: "0 < v" "v \<le> INT_MAX"
  have "length (show_int v) \<le> 11" using v by (intro show_int_length) (simp_all add: const_defs)
  moreover have "\<not> is_digit 10 NL" by code_simp
  ultimately show ?thesis
    using atoi_show_int [of v "[NL]"] v by (simp add: request_len_def line_of_plain show_int_plain const_defs)
qed

text \<open>Client and server over one connection, whose reads come in pieces and are interrupted: the server takes the
  client's line as a number; if it is positive it grants that many numbers, and the client prints the first of them,
  as a signed number, and succeeds. Otherwise the server closes the connection, and the client ends with an error.\<close>

theorem seqnum_exchange:
  assumes "stream_errs (fst (ker s)) = {}" "d_in (fst (ker s)) = t @ [NL]" "snd (ker s) = []"
  shows "\<exists>g s'. sv_pass conn_os sr lfd s = Some (g, s') \<and> g = (if request_len t \<le> 0 then None else Some (seqNum s, request_len t)) \<and>
    (\<forall>c. stream_errs (fst (ker c)) = {} \<and> d_in (fst (ker c)) = snd (ker s') \<longrightarrow>
      (\<exists>r c'. cl_talk conn_os sr2 cfd t c = Some (r, c') \<and> snd (ker c') = snd (ker c) @ t @ [NL] \<and>
        (case g of None \<Rightarrow> r \<in> {Inl (Exit EXIT_FAILURE), Inl Abort}
         | Some (start, _) \<Rightarrow> r = Inl (Exit EXIT_SUCCESS) \<and>
             stdout_out c' = stdout_out c @ stdout_buf c @ ''Sequence number: '' @ show_int (sint start) @ [NL])))"
proof -
  obtain s' where s': "sv_pass conn_os sr lfd s = Some (if request_len t \<le> 0 then None else Some (seqNum s, request_len t), s')"
    "snd (ker s') = reply (seqNum s) t"
    using sv_pass_conn [OF assms(1,2)] assms(3) by auto
  have "\<exists>r c'. cl_talk conn_os sr2 cfd t c = Some (r, c') \<and> snd (ker c') = snd (ker c) @ t @ [NL] \<and>
      (if request_len t \<le> 0 then r \<in> {Inl (Exit EXIT_FAILURE), Inl Abort} else r = Inl (Exit EXIT_SUCCESS) \<and>
         stdout_out c' = stdout_out c @ stdout_buf c @ ''Sequence number: '' @ show_int (sint (seqNum s)) @ [NL])"
    if c: "stream_errs (fst (ker c)) = {}" "d_in (fst (ker c)) = snd (ker s')" for c
  proof -
    obtain c' where c': "cl_talk conn_os sr2 cfd t c = Some (if request_len t \<le> 0 then fatal sr2 ''Unexpected EOF from server'' c'
         else (Inl (Exit EXIT_SUCCESS), c'))"
      "snd (ker c') = snd (ker c) @ t @ [NL]"
      "0 < request_len t \<longrightarrow> stdout_out c' = stdout_out c @ stdout_buf c @ ''Sequence number: '' @ show_int (sint (seqNum s)) @ [NL]"
      using cl_talk_conn [OF c(1), of "seqNum s" t sr2 cfd] c(2) s'(2) by auto
    show ?thesis
    proof (cases "request_len t \<le> 0")
      case True
      obtain r f where f: "fatal sr2 ''Unexpected EOF from server'' c' = (r :: halt + unit, f)" by fastforce
      with True c' fatalD [OF f] show ?thesis by auto
    qed (use c' in auto)
  qed
  with s'(1) show ?thesis by (intro exI [of _ "if request_len t \<le> 0 then None else Some (seqNum s, request_len t)"] exI [of _ s']) auto
qed

text \<open>A server about to grant number 41, and a client that asks for three.\<close>

definition sq_server :: "(stream \<times> string) sqproc" where
  "sq_server = \<lparr>stdout_buf = [], stdout_out = [], stderr_out = [], errno = 0, ef_dumpcore = None, stdio_errno = None,
     ker = (\<lparr>d_in = ''3'' @ [NL], d_out = [], d_sched = [Intr, Short 1]\<rparr>, []), seqNum = 41\<rparr>"

definition sq_client :: "(stream \<times> string) kproc" where
  "sq_client = \<lparr>stdout_buf = [], stdout_out = [], stderr_out = [], errno = 0, ef_dumpcore = None, stdio_errno = None,
     ker = (\<lparr>d_in = ''41'' @ [NL], d_out = [], d_sched = [Short 1, Intr]\<rparr>, [])\<rparr>"

lemma sq_example: "stream_errs (fst (ker sq_server)) = {}" "d_in (fst (ker sq_server)) = ''3'' @ [NL]" "snd (ker sq_server) = []"
  by (simp_all add: sq_server_def stream_errs_def)

lemma sq_example_len: "request_len ''3'' = 3" "show_int 41 = ''41''"
  by code_simp+

theorem seqnum_exchange_witness:
  "\<exists>s' c'. sv_pass conn_os (\<lambda>_. []) 3 sq_server = Some (Some (41, 3), s') \<and>
     (snd (ker s') = ''41'' @ [NL] \<longrightarrow>
       cl_talk conn_os (\<lambda>_. []) 4 ''3'' sq_client = Some (Inl (Exit EXIT_SUCCESS), c') \<and> stdout_out c' = ''Sequence number: 41'' @ [NL])"
proof -
  obtain g s' where g: "sv_pass conn_os (\<lambda>_. []) 3 sq_server = Some (g, s')" "g = Some (41, 3)"
    and c: "\<forall>c. stream_errs (fst (ker c)) = {} \<and> d_in (fst (ker c)) = snd (ker s') \<longrightarrow>
      (\<exists>r c'. cl_talk conn_os (\<lambda>_. []) 4 ''3'' c = Some (r, c') \<and> snd (ker c') = snd (ker c) @ ''3'' @ [NL] \<and>
        (case g of None \<Rightarrow> r \<in> {Inl (Exit EXIT_FAILURE), Inl Abort}
         | Some (start, _) \<Rightarrow> r = Inl (Exit EXIT_SUCCESS) \<and>
             stdout_out c' = stdout_out c @ stdout_buf c @ ''Sequence number: '' @ show_int (sint start) @ [NL]))"
    using seqnum_exchange [OF sq_example, of "\<lambda>_. []" 3 "\<lambda>_. []" 4] by (auto simp: sq_example_len sq_server_def)
  have ok: "stream_errs (fst (ker sq_client)) = {}" "d_in (fst (ker sq_client)) = ''41'' @ [NL]" "stdout_out sq_client = []" "stdout_buf sq_client = []"
    by (simp_all add: sq_client_def stream_errs_def)
  show ?thesis
  proof (cases "snd (ker s') = ''41'' @ [NL]")
    case True
    with c [rule_format, of sq_client] ok g(2) obtain c' where
      "cl_talk conn_os (\<lambda>_. []) 4 ''3'' sq_client = Some (Inl (Exit EXIT_SUCCESS), c')" "stdout_out c' = ''Sequence number: '' @ show_int 41 @ [NL]"
      by auto
    with g show ?thesis by (auto simp: sq_example_len)
  qed (use g in auto)
qed

theorem seqnum_ranges_witness:
  "\<exists>gs s'. sv_run conn_os (\<lambda>_. []) 3 1 sq_server = Some (gs, s') \<and> concat (map numbers gs) = [41, 42, 43]"
proof -
  obtain s' where s': "sv_run conn_os (\<lambda>_. []) 3 1 sq_server = Some ([(41, 3)], s')"
    using sv_pass_conn [OF sq_example(1,2), of "\<lambda>_. []" 3] by (auto simp: sq_example_len sq_server_def)
  have "numbers (41, 3) = [41, 42, 43]" by code_simp
  with seqnum_ranges [OF s'] s' show ?thesis by (auto simp: sq_server_def)
qed

section \<open>One connection after another\<close>

text \<open>A kernel with a listening socket (3) and the connections to come, each with what its client sends, in pieces and
  interrupted by a schedule. \<^verbatim>\<open>accept\<close> gives the descriptor 4, if it is free; what is written to it goes to
  the client of the open connection.\<close>

record mconn =
  mc_pending :: "stream list"
  mc_open :: bool
  mc_out :: "string list"

definition mc_accept :: "int \<Rightarrow> stream \<times> mconn \<Rightarrow> (int + int \<times> unit) \<times> stream \<times> mconn" where
  "mc_accept fd k = (if fd \<noteq> 3 then (Inl EBADF, k) else if mc_open (snd k) then (Inl 24, k)
     else case mc_pending (snd k) of [] \<Rightarrow> (Inl EINTR, k)
       | d # ds \<Rightarrow> (Inr (4, ()), (d, \<lparr>mc_pending = ds, mc_open = True, mc_out = mc_out (snd k) @ [[]]\<rparr>)))"

definition mc_write :: "int \<Rightarrow> (stream \<times> mconn) write_call" where
  "mc_write fd bs k = (if fd = 4 \<and> mc_open (snd k)
     then (Inr (length bs), (fst k, (snd k)\<lparr>mc_out := butlast (mc_out (snd k)) @ [last (mc_out (snd k)) @ bs]\<rparr>)) else (Inl EBADF, k))"

definition mc_close :: "int \<Rightarrow> stream \<times> mconn \<Rightarrow> int option \<times> stream \<times> mconn" where
  "mc_close fd k = (if fd = 4 \<and> mc_open (snd k) then (None, (fst k, (snd k)\<lparr>mc_open := False\<rparr>)) else (Some EBADF, k))"

definition mc_os :: "(unit, stream \<times> mconn) net_os" where
  "mc_os = \<lparr>n_signal = Pair None, n_getaddrinfo = Pair (Inr [()]), n_socket = (\<lambda>_. Pair (Inr 3)), n_setsockopt = (\<lambda>_. Pair None),
     n_bind = (\<lambda>_ _. Pair None), n_connect = (\<lambda>_ _. Pair None), n_listen = (\<lambda>_ _. Pair None), n_accept = mc_accept,
     n_getnameinfo = (\<lambda>_. None), n_read = (\<lambda>fd. if fd = 4 then conn_read else (\<lambda>n. Pair (Inl EBADF))), n_write = mc_write, n_close = mc_close\<rparr>"

lemma request_line: "- (2 ^ 31) \<le> v \<Longrightarrow> v < 2 ^ 31 \<Longrightarrow> atoi (take 29 (line_of (show_int v @ [NL]))) = v"
proof -
  assume v: "- (2 ^ 31) \<le> v" "v < 2 ^ 31"
  have "length (show_int v) \<le> 11" using v by (intro show_int_length) simp_all
  moreover have "\<not> is_digit 10 NL" by code_simp
  ultimately show ?thesis
    using atoi_show_int [of v "[NL]"] v by (simp add: line_of_plain show_int_plain const_defs)
qed

text \<open>One connection: the answer to a request for \<open>v\<close> numbers.\<close>

lemma sv_pass_mc:
  assumes d: "stream_errs d = {}" "d_in d = show_int v @ [NL]" and v: "- (2 ^ 31) \<le> v" "v < 2 ^ 31"
    and k: "ker s = (d0, \<lparr>mc_pending = d # ds, mc_open = False, mc_out = out\<rparr>)"
  shows "\<exists>g s' d'. sv_pass mc_os sr 3 s = Some (g, s') \<and> seqNum s' = seqNum s + word_of_int (max 0 v) \<and>
    ker s' = (d', \<lparr>mc_pending = ds, mc_open = False,
      mc_out = out @ [if v \<le> 0 then [] else show_int (sint (seqNum s)) @ [NL]]\<rparr>)"
proof -
  let ?m = "\<lparr>mc_pending = ds, mc_open = True, mc_out = out @ [[]]\<rparr>"
  obtain d' where d': "readLine conn_read False INT_LEN (d, ?m) = Some (Inr (take 29 (line_of (show_int v @ [NL]))), (d', ?m))"
    using readLine_conn [of "(d, ?m)"] d by auto
  have fit: "snprintf INT_LEN (show_int (sint (seqNum s)) @ [NL]) = show_int (sint (seqNum s)) @ [NL]"
    using show_int_word [of "seqNum s"] by (intro snprintf_id) (simp add: const_defs)
  from d' fit line_of_nonempty [of "show_int v"] request_line [OF v] show ?thesis
    by (auto simp: sv_pass_def mc_os_def mc_accept_def mc_write_def mc_close_def k Let_def close_quiet_def kcall_def sv_grant_def)
qed

lemma sv_run_mc:
  assumes "list_all2 (\<lambda>d v. stream_errs d = {} \<and> d_in d = show_int v @ [NL]) ds vs" "\<forall>v \<in> set vs. - (2 ^ 31) \<le> v \<and> v < 2 ^ 31"
    and "ker s = (d0, \<lparr>mc_pending = ds, mc_open = False, mc_out = out\<rparr>)"
  shows "\<exists>gs s'. sv_run mc_os sr 3 (length ds) s = Some (gs, s') \<and>
    mc_out (snd (ker s')) = out @ map (\<lambda>i. if vs ! i \<le> 0 then []
      else show_int (sint (seqNum s + word_of_int (sum_list (map (max 0) (take i vs))))) @ [NL]) [0..<length vs]"
  using assms
proof (induction ds vs arbitrary: s d0 out rule: list_all2_induct)
  case Nil
  then show ?case by simp
next
  case (Cons d ds v vs)
  have v: "- (2 ^ 31) \<le> v" "v < 2 ^ 31" "\<forall>v \<in> set vs. - (2 ^ 31) \<le> v \<and> v < 2 ^ 31" using Cons.prems(1) by auto
  obtain g s1 d' where p: "sv_pass mc_os sr 3 s = Some (g, s1)" "seqNum s1 = seqNum s + word_of_int (max 0 v)"
    "ker s1 = (d', \<lparr>mc_pending = ds, mc_open = False, mc_out = out @ [if v \<le> 0 then [] else show_int (sint (seqNum s)) @ [NL]]\<rparr>)"
    using sv_pass_mc [OF _ _ v(1,2) Cons.prems(2)] Cons.hyps(1) by blast
  from Cons.IH [OF v(3) p(3)] obtain gs s' where r: "sv_run mc_os sr 3 (length ds) s1 = Some (gs, s')"
    "mc_out (snd (ker s')) = (out @ [if v \<le> 0 then [] else show_int (sint (seqNum s)) @ [NL]]) @ map (\<lambda>i. if vs ! i \<le> 0 then []
      else show_int (sint (seqNum s1 + word_of_int (sum_list (map (max 0) (take i vs))))) @ [NL]) [0..<length vs]" by blast
  show ?case
    using p(1,2) r by (simp add: upt_conv_Cons map_Suc_upt [symmetric] comp_def add.assoc del: upt_Suc)
qed

text \<open>C16. Any number of clients connect one after another, each sending the decimal digits of a number of 32 bits and a newline; the
  server reads them in pieces and is interrupted. Each client that asks for a positive number of numbers is sent, as a
  signed decimal number and a newline, the number the server started with plus all that was granted before, modulo two
  to the 32; the others are sent nothing, and take no numbers. So the ranges follow one another without gaps or overlap.\<close>

theorem seqnum_serves:
  assumes "list_all2 (\<lambda>d v. stream_errs d = {} \<and> d_in d = show_int v @ [NL]) ds vs" "\<forall>v \<in> set vs. - (2 ^ 31) \<le> v \<and> v < 2 ^ 31"
    and "ker s = (d0, \<lparr>mc_pending = ds, mc_open = False, mc_out = []\<rparr>)"
  shows "\<exists>gs s'. sv_run mc_os sr 3 (length ds) s = Some (gs, s') \<and>
    mc_out (snd (ker s')) = map (\<lambda>i. if vs ! i \<le> 0 then []
      else show_int (sint (seqNum s + word_of_int (sum_list (map (max 0) (take i vs))))) @ [NL]) [0..<length vs]"
  using sv_run_mc [OF assms] by simp

definition mc_demo :: "(stream \<times> mconn) sqproc" where
  "mc_demo = \<lparr>stdout_buf = [], stdout_out = [], stderr_out = [], errno = 0, ef_dumpcore = None, stdio_errno = None,
     ker = (\<lparr>d_in = [], d_out = [], d_sched = []\<rparr>, \<lparr>mc_pending = map (\<lambda>t. \<lparr>d_in = t @ [NL], d_out = [], d_sched = [Intr, Short 1]\<rparr>)
       [''3'', ''-7'', ''10'', ''1''], mc_open = False, mc_out = []\<rparr>), seqNum = - 5\<rparr>"

theorem seqnum_serves_witness:
  "\<exists>gs s'. sv_run mc_os (\<lambda>_. []) 3 4 mc_demo = Some (gs, s') \<and>
     mc_out (snd (ker s')) = [''-5'' @ [NL], [], ''-2'' @ [NL], ''8'' @ [NL]]"
proof -
  have sh: "show_int 3 = ''3''" "show_int (- 7) = ''-7''" "show_int 10 = ''10''" "show_int 1 = ''1''" by code_simp+
  let ?ds = "mc_pending (snd (ker mc_demo))"
  have ds: "list_all2 (\<lambda>d v. stream_errs d = {} \<and> d_in d = show_int v @ [NL]) ?ds [3, - 7, 10, 1]"
    by (simp add: mc_demo_def stream_errs_def sh)
  have k: "ker mc_demo = (fst (ker mc_demo), \<lparr>mc_pending = ?ds, mc_open = False, mc_out = []\<rparr>)" "length ?ds = 4" by (simp_all add: mc_demo_def)
  have "show_int (- 5) = ''-5''" "show_int (- 2) = ''-2''" "show_int 8 = ''8''" by code_simp+
  then have out: "show_int (sint (seqNum mc_demo)) = ''-5''" "show_int (sint (seqNum mc_demo + 3)) = ''-2''"
    "show_int (sint (seqNum mc_demo + 13)) = ''8''" by (simp_all add: mc_demo_def)
  show ?thesis
    using seqnum_serves [OF ds _ k(1), of "\<lambda>_. []"] out unfolding k(2) by simp
qed

section \<open>The FIFO server\<close>

lemma stdio_keeps_fifo [simp]:
  "f_seqNum (fputs_stderr t s) = f_seqNum s" "f_seqNum (errMsg sr m s) = f_seqNum s"
  by (simp_all add: fputs_stderr_def stdio_noise_def errMsg_def outputError_def fflush_stdout_def Let_def split: option.split)

lemma fifo_pass_grants:
  assumes "fifo_pass F sr fd s = (Inr g, s')"
  shows "case g of None \<Rightarrow> f_seqNum s' = f_seqNum s
    | Some (n, req) \<Rightarrow> n = f_seqNum s \<and> f_seqNum s' = n + seqLen req \<and> INT_MIN \<le> n + seqLen req \<and> n + seqLen req \<le> INT_MAX"
  using assms
  by (auto simp: fifo_pass_def prog_simps kplain_def kget_def kcall_def whenM_def Let_def split: prod.splits option.splits sum.splits if_splits)

lemma fifo_run_sums:
  assumes "fifo_run F sr fd n s = (Inr gs, s')"
  shows "map fst gs = map (\<lambda>i. f_seqNum s + sum_list (map (seqLen \<circ> snd) (take i gs))) [0..<length gs]
    \<and> f_seqNum s' = f_seqNum s + sum_list (map (seqLen \<circ> snd) gs)"
  using assms
proof (induction n arbitrary: s gs)
  case 0
  then show ?case by simp
next
  case (Suc n)
  then obtain g s1 gs1 where p: "fifo_pass F sr fd s = (Inr g, s1)" and r: "fifo_run F sr fd n s1 = (Inr gs1, s')"
    and gs: "gs = (case g of None \<Rightarrow> [] | Some x \<Rightarrow> [x]) @ gs1"
    by (auto simp: prog_simps split: prod.splits sum.splits)
  note IH = Suc.IH [OF r] and g = fifo_pass_grants [OF p]
  show ?case
  proof (cases g)
    case None
    with IH g gs show ?thesis by simp
  next
    case (Some x)
    obtain m req where x: "x = (m, req)" by (cases x)
    with Some g have "m = f_seqNum s" "f_seqNum s1 = f_seqNum s + seqLen req" by auto
    with IH gs Some x show ?thesis by (simp add: upt_conv_Cons map_Suc_upt [symmetric] comp_def add.assoc del: upt_Suc)
  qed
qed

lemma sum_take_mono:
  fixes xs :: "int list"
  assumes "\<forall>x \<in> set xs. 0 < x" "j < i" "i \<le> length xs"
  shows "sum_list (take j xs) + xs ! j \<le> sum_list (take i xs)"
proof -
  have "take i xs = take (Suc j) xs @ take (i - Suc j) (drop (Suc j) xs)" using assms(2) by (simp flip: take_add)
  moreover have "0 \<le> sum_list (take (i - Suc j) (drop (Suc j) xs))"
    using assms(1) by (intro sum_list_nonneg) (meson in_set_dropD in_set_takeD order_less_imp_le)
  ultimately show ?thesis using assms by (simp add: take_Suc_conv_app_nth)
qed

text \<open>The FIFO server grants to each client the sum of the lengths asked for by all clients it served before, for whatever
  lengths the requests hold. If all of them are positive, as the client program makes sure, no two ranges overlap; a
  process that writes a request with a negative length to the FIFO makes the server grant numbers again.\<close>

theorem fifo_ranges:
  assumes "fifo_run F sr fd n s = (Inr gs, s')"
  shows "map fst gs = map (\<lambda>i. f_seqNum s + sum_list (map (seqLen \<circ> snd) (take i gs))) [0..<length gs]
    \<and> ((\<forall>g \<in> set gs. 0 < seqLen (snd g)) \<longrightarrow>
        (\<forall>i < length gs. \<forall>j < i. fst (gs ! j) + seqLen (snd (gs ! j)) \<le> fst (gs ! i)))"
proof -
  note sums = fifo_run_sums [OF assms, THEN conjunct1]
  have start: "fst (gs ! i) = f_seqNum s + sum_list (take i (map (seqLen \<circ> snd) gs))" if "i < length gs" for i
    using arg_cong [OF sums, of "\<lambda>xs. xs ! i"] that by (simp add: take_map)
  show ?thesis
    using sums start sum_take_mono [of "map (seqLen \<circ> snd) gs"] by auto
qed

text \<open>Three requests, the second of them forged.\<close>

definition fifo_feed :: "request list fifo_os" where
  "fifo_feed = \<lparr>f_mkfifo = (\<lambda>_. Pair None), f_open_rd = (\<lambda>_. Pair (Inr 3)), f_open_wr = (\<lambda>_. Pair (Inr 4)), f_signal = Pair None,
     f_read_req = (\<lambda>_ k. case k of [] \<Rightarrow> (None, []) | r # rs \<Rightarrow> (Some r, rs)), f_write_req = (\<lambda>_ _. Pair True), f_read_resp = (\<lambda>_. Pair None),
     f_write_resp = (\<lambda>_ _. Pair True), f_close = (\<lambda>_. Pair None), f_atexit = Pair None, f_unlink = (\<lambda>_. Pair None), f_getpid = 1\<rparr>"

definition fifo_start :: "request list fifo_st" where
  "fifo_start = \<lparr>stdout_buf = [], stdout_out = [], stderr_out = [], errno = 0, ef_dumpcore = None, stdio_errno = None,
     ker = [\<lparr>req_pid = 10, seqLen = 5\<rparr>, \<lparr>req_pid = 11, seqLen = - 5\<rparr>, \<lparr>req_pid = 12, seqLen = 5\<rparr>], f_seqNum = 0\<rparr>"

theorem fifo_ranges_witness:
  "\<exists>gs s'. fifo_run fifo_feed (\<lambda>_. []) 3 3 fifo_start = (Inr gs, s') \<and> map fst gs = [0, 5, 0] \<and>
     map fst gs = map (\<lambda>i. 0 + sum_list (map (seqLen \<circ> snd) (take i gs))) [0..<length gs]"
proof -
  have run: "\<exists>s'. fifo_run fifo_feed (\<lambda>_. []) 3 3 fifo_start =
      (Inr [(0, \<lparr>req_pid = 10, seqLen = 5\<rparr>), (5, \<lparr>req_pid = 11, seqLen = - 5\<rparr>), (0, \<lparr>req_pid = 12, seqLen = 5\<rparr>)], s')"
    by (simp add: eval_nat_numeral fifo_pass_def prog_simps kplain_def kget_def kcall_def Let_def fifo_feed_def fifo_start_def const_defs)
  then obtain s' where s': "fifo_run fifo_feed (\<lambda>_. []) 3 3 fifo_start =
      (Inr [(0, \<lparr>req_pid = 10, seqLen = 5\<rparr>), (5, \<lparr>req_pid = 11, seqLen = - 5\<rparr>), (0, \<lparr>req_pid = 12, seqLen = 5\<rparr>)], s')" by blast
  show ?thesis
    by (rule exI, rule exI, rule conjI [OF s']) (use fifo_ranges [OF s'] in \<open>simp add: fifo_start_def\<close>)
qed

end
