(* ===== verification/Proc_Status.thy ===== *)
theory Proc_Status
  imports Error_Functions Stream_IO Get_Num Ugid
begin

text \<open>
  Two exercises that read \<^verbatim>\<open>/proc/PID/status\<close> files: \<^verbatim>\<open>chap12/twelve-one/p_id_cmdn_si.c\<close>, which lists the processes of a user,
  and \<^verbatim>\<open>chap12/twelve-two/pstree_implementation.c\<close>. Both read a file line by line into one array \<^verbatim>\<open>line\<close> and take it apart in
  place with \<^verbatim>\<open>strtok_r\<close> and \<^verbatim>\<open>trim\<close>, keeping pointers into it; so the array is modelled as it is, byte by byte, and a pointer is a
  position in it. The directory \<^verbatim>\<open>/proc\<close>, \<^verbatim>\<open>stat\<close>, \<^verbatim>\<open>fopen\<close> and the password database are arguments. A file may disappear
  between \<^verbatim>\<open>stat\<close> and \<^verbatim>\<open>fopen\<close>: their answers are independent.
\<close>

section \<open>The array\<close>

definition LINE_SIZE :: nat where "LINE_SIZE = 128"

text \<open>\<^verbatim>\<open>fgets\<close>: at most 127 characters, up to a newline, then the terminator; the other bytes of the array stay.\<close>

definition fgets :: "string \<Rightarrow> string \<Rightarrow> (string \<times> string) option" where
  "fgets inp buf = (if inp = [] then None
     else let l = take (LINE_SIZE - 1) (line_of inp) in Some (l @ [NUL] @ drop (length l + 1) buf, drop (length l) inp))"

definition c_str :: "string \<Rightarrow> nat \<Rightarrow> string" where
  "c_str buf p = takeWhile (\<lambda>c. c \<noteq> NUL) (drop p buf)"

text \<open>\<^verbatim>\<open>strtok_r\<close> from position \<open>p\<close>: the token, the saved position and the array.\<close>

definition strtok_r :: "char \<Rightarrow> nat \<Rightarrow> string \<Rightarrow> nat option \<times> nat \<times> string" where
  "strtok_r delim p buf =
     (let a = p + length (takeWhile (\<lambda>c. c = delim) (c_str buf p)) in
      if c_str buf a = [] then (None, a, buf)
      else let e = a + length (takeWhile (\<lambda>c. c \<noteq> delim) (c_str buf a)) in
        if buf ! e = NUL then (Some a, e, buf) else (Some a, e + 1, buf[e := NUL]))"

text \<open>\<^verbatim>\<open>trim\<close>. The first loop goes back from the end; it reads before the start of the array, which is undefined,
  if everything there is white space. The argument is the position behind the last character.\<close>

fun trim_right :: "nat \<Rightarrow> string \<Rightarrow> (nat \<times> string) option" where
  "trim_right 0 buf = None"
| "trim_right (Suc i) buf = (if isspace (buf ! i) then trim_right i (buf[i := NUL]) else Some (Suc i, buf))"

definition trim :: "nat \<Rightarrow> string \<Rightarrow> string option" where
  "trim s buf = (case trim_right (s + length (c_str buf s)) buf of
      None \<Rightarrow> None
    | Some (e, b) \<Rightarrow>
        let p = s + length (takeWhile isspace (c_str b s)); l = int e - int p in
        if l + 1 < 0 then None
        else Some (take s b @ take (nat (l + 1)) (drop p b) @ drop (s + nat (l + 1)) b))"

section \<open>p\_id\_cmdn\_si.c\<close>

text \<open>\<^verbatim>\<open>getInt\<close> sets \<^verbatim>\<open>errno\<close> to 0 before it converts.\<close>

definition getInt_or_exit :: "string \<Rightarrow> int \<Rightarrow> string \<Rightarrow> ('a proc_io_scheme, int) prog" where
  "getInt_or_exit a flags name = (case getInt (Some a) flags (Some name) of
      Inr v \<Rightarrow> bnd (modify (\<lambda>s. s\<lparr>errno := 0\<rparr>)) (\<lambda>_. ret v)
    | Inl msg \<Rightarrow> bnd (modify (fputs_stderr msg)) (\<lambda>_. exit3 EXIT_FAILURE))"

text \<open>The local variables of \<^verbatim>\<open>readfdata\<close>.\<close>

record scan =
  sc_line :: string
  sc_token :: nat
  sc_save :: nat
  sc_pid :: int
  sc_name :: "nat option"
  sc_uid :: int

definition no_token :: "scan \<Rightarrow> ('a proc_io_scheme, bool \<times> scan) prog" where
  "no_token sc = bnd (printfM (''No token'' @ [NL])) (\<lambda>_. ret (False, sc))"

definition with_trim :: "scan \<Rightarrow> (scan \<Rightarrow> ('a proc_io_scheme, 'b) prog) \<Rightarrow> ('a proc_io_scheme, 'b) prog" where
  "with_trim sc f = (case trim (sc_token sc) (sc_line sc) of None \<Rightarrow> stop Undef | Some b \<Rightarrow> f (sc\<lparr>sc_line := b\<rparr>))"

text \<open>The next token behind a field name; the result says whether to go on with this line.\<close>

definition field ::
  "string \<Rightarrow> (scan \<Rightarrow> ('a proc_io_scheme, bool \<times> scan) prog) \<Rightarrow> scan \<Rightarrow> ('a proc_io_scheme, bool \<times> scan) prog" where
  "field fname f sc =
     (if c_str (sc_line sc) (sc_token sc) \<noteq> fname then ret (True, sc)
      else case strtok_r (CHR '':'') (sc_save sc) (sc_line sc) of
        (None, sv, b) \<Rightarrow> no_token (sc\<lparr>sc_save := sv, sc_line := b\<rparr>)
      | (Some t, sv, b) \<Rightarrow> f (sc\<lparr>sc_token := t, sc_save := sv, sc_line := b\<rparr>))"

definition token_str :: "scan \<Rightarrow> string" where
  "token_str sc = c_str (sc_line sc) (sc_token sc)"

definition scan_pid :: "scan \<Rightarrow> ('a proc_io_scheme, bool \<times> scan) prog" where
  "scan_pid = field ''Pid'' (\<lambda>sc. with_trim sc (\<lambda>sc.
     bnd (getInt_or_exit (token_str sc) GN_GT_0 ''pid'') (\<lambda>v. ret (True, sc\<lparr>sc_pid := v\<rparr>))))"

definition scan_name :: "scan \<Rightarrow> ('a proc_io_scheme, bool \<times> scan) prog" where
  "scan_name = field ''Name'' (\<lambda>sc. with_trim sc (\<lambda>sc. ret (True, sc\<lparr>sc_name := Some (sc_token sc)\<rparr>)))"

text \<open>The result of the last field is \<open>False\<close> for the \<^verbatim>\<open>break\<close>.\<close>

definition scan_uid :: "int \<Rightarrow> scan \<Rightarrow> ('a proc_io_scheme, bool \<times> scan) prog" where
  "scan_uid uid sc =
     (if token_str sc \<noteq> ''Uid'' then ret (True, sc)
      else case strtok_r (CHR '':'') (sc_save sc) (sc_line sc) of
        (None, sv, b) \<Rightarrow> bnd (no_token (sc\<lparr>sc_save := sv, sc_line := b\<rparr>)) (\<lambda>(_, sc). ret (True, sc))
      | (Some t, _, b) \<Rightarrow> (case strtok_r TAB t b of
          (None, sv, b) \<Rightarrow> bnd (no_token (sc\<lparr>sc_token := t, sc_save := sv, sc_line := b\<rparr>)) (\<lambda>(_, sc). ret (True, sc))
        | (Some t, sv, b) \<Rightarrow> with_trim (sc\<lparr>sc_token := t, sc_save := sv, sc_line := b\<rparr>) (\<lambda>sc.
            bnd (getInt_or_exit (token_str sc) GN_ANY_BASE ''realuid'') (\<lambda>v.
            (let sc = sc\<lparr>sc_uid := v\<rparr> in
             case sc_name sc of
               Some n \<Rightarrow> if uid = v \<and> sc_pid sc \<noteq> - 1
                 then bnd (printfM (''Pid: '' @ show_int (sc_pid sc) @ [NL] @ ''Name: '' @ c_str (sc_line sc) n @ [NL])) (\<lambda>_.
                      bnd (printfM [NL, NL]) (\<lambda>_. ret (False, sc)))
                 else ret (True, sc)
             | None \<Rightarrow> ret (True, sc))))))"

definition scan_line :: "int \<Rightarrow> scan \<Rightarrow> ('a proc_io_scheme, bool \<times> scan) prog" where
  "scan_line uid sc = (case strtok_r (CHR '':'') 0 (sc_line sc) of
      (None, sv, b) \<Rightarrow> bnd (no_token (sc\<lparr>sc_save := sv, sc_line := b\<rparr>)) (\<lambda>(_, sc). ret (True, sc))
    | (Some t, sv, b) \<Rightarrow>
        bnd (scan_pid (sc\<lparr>sc_token := t, sc_save := sv, sc_line := b\<rparr>)) (\<lambda>(go, sc). if \<not> go then ret (True, sc) else
        bnd (scan_name sc) (\<lambda>(go, sc). if \<not> go then ret (True, sc) else
        scan_uid uid sc)))"

lemma fgets_shorter: "fgets inp buf = Some (b, rest') \<Longrightarrow> length rest' < length inp"
  by (cases inp) (auto simp: fgets_def Let_def LINE_SIZE_def split: if_splits)

function scan_loop :: "int \<Rightarrow> string \<Rightarrow> scan \<Rightarrow> ('a proc_io_scheme, unit) prog" where
  "scan_loop uid inp sc =
     (if sc_pid sc \<noteq> - 1 \<and> sc_name sc \<noteq> None \<and> sc_uid sc \<noteq> - 1 then ret ()
      else case fgets inp (sc_line sc) of
        None \<Rightarrow> ret ()
      | Some (b, inp') \<Rightarrow> bnd (scan_line uid (sc\<lparr>sc_line := b\<rparr>)) (\<lambda>(go, sc'). if go then scan_loop uid inp' sc' else ret ()))"
  by pat_completeness auto

termination scan_loop
  by (relation "measure (\<lambda>(uid, inp, sc). length inp)") (auto dest: fgets_shorter)

declare scan_loop.simps [simp del]

record proc_fs =
  fs_dir :: "(string list \<times> int option) option"
  fs_stat :: "string \<Rightarrow> int + bool"
  fs_isdir :: "string \<Rightarrow> int + bool"
  fs_file :: "string \<Rightarrow> int + string"
  fs_fclose :: "string \<Rightarrow> int option"
  fs_closedir :: "int option"

text \<open>\<open>fs_dir\<close> is what \<^verbatim>\<open>readdir\<close> delivers, and the error it ends with; \<open>fs_stat\<close> whether a path is a regular file,
  \<open>fs_isdir\<close> whether it is a directory.\<close>

definition readfdata ::
  "proc_fs \<Rightarrow> (int \<Rightarrow> string) \<Rightarrow> string \<Rightarrow> string \<Rightarrow> int \<Rightarrow> ('a proc_io_scheme, unit) prog" where
  "readfdata P sr junk path uid = (case fs_file P path of
      Inl e \<Rightarrow> bnd (modify (\<lambda>s. s\<lparr>errno := e\<rparr>)) (\<lambda>_. printfM (sr e @ '' '' @ [NL]))
    | Inr content \<Rightarrow>
        bnd (scan_loop uid content \<lparr>sc_line = junk, sc_token = 0, sc_save = 0, sc_pid = - 1, sc_name = None, sc_uid = - 1\<rparr>) (\<lambda>_.
        (case fs_fclose P path of None \<Rightarrow> ret ()
         | Some e \<Rightarrow> bnd (modify (\<lambda>s. s\<lparr>errno := e\<rparr>)) (\<lambda>_. errExit sr ''close''))))"

text \<open>The pathname is printed into an array of 100 bytes with the size of another array, 256, as its limit.\<close>

definition pid_entry :: "proc_fs \<Rightarrow> (int \<Rightarrow> string) \<Rightarrow> string \<Rightarrow> int \<Rightarrow> string \<Rightarrow> ('a proc_io_scheme, unit) prog" where
  "pid_entry P sr junk uid d_name =
     bnd (modify (\<lambda>s. s\<lparr>errno := 0\<rparr>)) (\<lambda>_.
     if d_name = ''.'' \<or> d_name = ''..'' then ret ()
     else let pathname = snprintf 256 (''/proc/'' @ d_name @ ''/status'') in
       if 100 \<le> length pathname then stop Undef
       else case fs_stat P pathname of
         Inl e \<Rightarrow> bnd (modify (\<lambda>s. s\<lparr>errno := e\<rparr>)) (\<lambda>_. printfM (sr e @ '' @ stat'' @ [NL]))
       | Inr reg \<Rightarrow> if \<not> reg then ret () else readfdata P sr junk pathname uid)"

definition pid_main ::
  "proc_fs \<Rightarrow> (string \<Rightarrow> int option) \<Rightarrow> (int \<Rightarrow> string) \<Rightarrow> string \<Rightarrow> string \<Rightarrow> string list \<Rightarrow> ('a proc_io_scheme, unit) prog" where
  "pid_main P db sr junk argv0 args = (case args of
      [user] \<Rightarrow>
        if user = ''--help'' then usageErr (argv0 @ '' username'' @ [NL])
        else let uid = userIdFromName db (Some user) in
          (case fs_dir P of None \<Rightarrow> exit3 EXIT_FAILURE
           | Some (entries, err) \<Rightarrow>
              bnd (forM entries (pid_entry P sr junk uid)) (\<lambda>_.
              bnd (modify (\<lambda>s. s\<lparr>errno := 0\<rparr>)) (\<lambda>_.
              (case err of Some e \<Rightarrow> bnd (modify (\<lambda>s. s\<lparr>errno := e\<rparr>)) (\<lambda>_. errExit sr ''readdir'')
               | None \<Rightarrow>
                  bnd (printfM ([NL, NL] @ ''End of dir strean'' @ [NL, NL])) (\<lambda>_.
                  bnd (gets errno) (\<lambda>e. if e \<noteq> 0 then exit3 EXIT_FAILURE
                  else case fs_closedir P of Some _ \<Rightarrow> exit3 EXIT_FAILURE | None \<Rightarrow> exit3 EXIT_SUCCESS))))))
    | _ \<Rightarrow> usageErr (argv0 @ '' username'' @ [NL]))"

section \<open>The array functions\<close>

lemma c_str_at: "length pre = p \<Longrightarrow> NUL \<notin> set x \<Longrightarrow> c_str (pre @ x @ NUL # post) p = x"
  by (auto simp: c_str_def intro: takeWhile_app_stop)

lemma strtok_found:
  assumes "length pre = p" "set ds \<subseteq> {d}" "t \<noteq> []" "d \<notin> set t" "NUL \<notin> set t" "d \<noteq> NUL" "NUL \<notin> set r"
  shows "strtok_r d p (pre @ ds @ t @ d # r @ NUL # post) = (Some (p + length ds), p + length ds + length t + 1, pre @ ds @ t @ NUL # r @ NUL # post)"
proof -
  have nul: "NUL \<notin> set (ds @ t @ d # r)" "NUL \<notin> set (t @ d # r)" using assms by auto
  have c: "c_str (pre @ ds @ t @ d # r @ NUL # post) p = ds @ t @ d # r"
    using c_str_at [OF assms(1) nul(1), of post] by simp
  have tw: "takeWhile (\<lambda>c. c = d) (ds @ t @ d # r) = ds"
    using assms(2-4) by (cases t) (auto intro: takeWhile_app_stop)
  have c2: "c_str (pre @ ds @ t @ d # r @ NUL # post) (p + length ds) = t @ d # r"
    using c_str_at [of "pre @ ds" "p + length ds" "t @ d # r" post] assms(1) nul(2) by simp
  have tw2: "takeWhile (\<lambda>c. c \<noteq> d) (t @ d # r) = t" using assms(4) by (intro takeWhile_app_stop) auto
  show ?thesis
    using assms by (simp add: strtok_r_def c tw c2 tw2 Let_def nth_append list_update_append)
qed

lemma strtok_last:
  assumes "length pre = p" "set ds \<subseteq> {d}" "t \<noteq> []" "d \<notin> set t" "NUL \<notin> set t" "d \<noteq> NUL"
  shows "strtok_r d p (pre @ ds @ t @ NUL # post) = (Some (p + length ds), p + length ds + length t, pre @ ds @ t @ NUL # post)"
proof -
  have nul: "NUL \<notin> set (ds @ t)" using assms by auto
  have c: "c_str (pre @ ds @ t @ NUL # post) p = ds @ t" using c_str_at [OF assms(1) nul, of post] by simp
  have tw: "takeWhile (\<lambda>c. c = d) (ds @ t) = ds" using assms(2-4) by (cases t) (auto intro: takeWhile_app_stop)
  have c2: "c_str (pre @ ds @ t @ NUL # post) (p + length ds) = t"
    using c_str_at [of "pre @ ds" "p + length ds" t post] assms(1,5) by simp
  have tw2: "takeWhile (\<lambda>c. c \<noteq> d) t = t" using assms(4) by (intro takeWhile_all) auto
  show ?thesis
    using assms by (simp add: strtok_r_def c tw c2 tw2 Let_def nth_append)
qed

text \<open>The string without white space at its ends.\<close>

definition strip :: "string \<Rightarrow> string" where
  "strip x = dropWhile isspace (rev (dropWhile isspace (rev x)))"

lemma isspace_NUL [simp]: "\<not> isspace NUL"
  by code_simp

lemma trim_right_spaces:
  "\<forall>c \<in> set z. isspace c \<Longrightarrow> y \<noteq> [] \<Longrightarrow> \<not> isspace (last y) \<Longrightarrow>
    trim_right (length y + length z) (y @ z @ post) = Some (length y, y @ replicate (length z) NUL @ post)"
proof (induction z arbitrary: post rule: rev_induct)
  case Nil
  then obtain ys c where "y = ys @ [c]" by (metis append_butlast_last_id)
  with Nil show ?case by (simp add: nth_append)
next
  case (snoc c z)
  have "(y @ z @ c # post)[length y + length z := NUL] = y @ z @ NUL # post"
    by (simp add: list_update_append)
  with snoc.IH [of "NUL # post"] snoc.prems show ?case
    by (simp add: nth_append replicate_app_Cons_same)
qed

lemma trim_strips:
  assumes p: "length pre = p" and sp: "pre \<noteq> [] \<and> \<not> isspace (last pre) \<or> (\<exists>c \<in> set x. \<not> isspace c)" and x: "NUL \<notin> set x"
  shows "\<exists>post'. trim p (pre @ x @ NUL # post) = Some (pre @ strip x @ NUL # post')"
proof -
  define y where "y = rev (dropWhile isspace (rev x))"
  define z where "z = rev (takeWhile isspace (rev x))"
  have xyz: "x = y @ z" unfolding y_def z_def by (metis rev_append rev_rev_ident takeWhile_dropWhile_id)
  have z: "\<forall>c \<in> set z. isspace c" unfolding z_def by (auto dest: set_takeWhileD)
  have last: "pre @ y \<noteq> [] \<and> \<not> isspace (last (pre @ y))"
  proof (cases "y = []")
    case True
    with z have "\<forall>c \<in> set x. isspace c" by (simp add: xyz)
    with True sp show ?thesis by auto
  next
    case False
    then have "dropWhile isspace (rev x) \<noteq> []" by (simp add: y_def)
    from hd_dropWhile [OF this] False show ?thesis by (simp add: y_def last_rev)
  qed
  let ?b = "pre @ y @ replicate (length z) NUL @ NUL # post"
  have r: "trim_right (p + length x) (pre @ x @ NUL # post) = Some (p + length y, ?b)"
    using trim_right_spaces [of z "pre @ y" "NUL # post"] z last p by (simp add: xyz ac_simps)
  have c: "c_str (pre @ x @ NUL # post) p = x" by (rule c_str_at [OF p x])
  have y: "NUL \<notin> set y" using x xyz by simp
  obtain post2 where b: "?b = pre @ y @ NUL # post2" by (cases z) auto
  have cb: "c_str ?b p = y" unfolding b by (rule c_str_at [OF p y])
  let ?w = "takeWhile isspace y" and ?d = "dropWhile isspace y"
  have wd: "y = ?w @ ?d" by simp
  have le: "length ?w \<le> length y" by (rule length_takeWhile_le)
  have len: "length ?d = length y - length ?w" by (metis add_diff_cancel_left' length_append wd)
  have d: "drop (p + length ?w) ?b = ?d @ NUL # post2"
    unfolding b using p le by (metis (no_types, lifting) append.assoc append_eq_conv_conj drop_drop wd add.commute)
  have "nat (int (p + length y) - int (p + length ?w) + 1) = length ?d + 1" using le len by linarith
  moreover have "take (length ?d + 1) (drop (p + length ?w) ?b) = ?d @ [NUL]" unfolding d by simp
  moreover have "take p ?b = pre" using p by simp
  moreover have "\<not> int (p + length y) - int (p + length ?w) + 1 < 0" using le by linarith
  ultimately have "trim p (pre @ x @ NUL # post) = Some (pre @ (?d @ [NUL]) @ drop (p + (length ?d + 1)) ?b)"
    unfolding trim_def c r by (simp only: option.case prod.case cb Let_def if_False)
  moreover have "strip x = ?d" by (simp add: strip_def y_def)
  ultimately show ?thesis by simp
qed

section \<open>Lines of a status file\<close>

text \<open>A line of the file: a field name, a colon and a value.\<close>

definition line_ok :: "string \<Rightarrow> string \<Rightarrow> bool" where
  "line_ok k v \<longleftrightarrow> k \<noteq> [] \<and> CHR '':'' \<notin> set k \<and> NUL \<notin> set (k @ v) \<and> NL \<notin> set (k @ v) \<and> length k + length v < 126"

definition status_line :: "string \<Rightarrow> string \<Rightarrow> string" where
  "status_line k v = k @ CHR '':'' # v @ [NL]"

lemma line_of_app: "NL \<notin> set t \<Longrightarrow> line_of (t @ NL # r) = t @ [NL]"
  by (induction t) auto

lemma fgets_line:
  assumes "line_ok k v"
  shows "\<exists>post. fgets (status_line k v @ inp) buf = Some (k @ CHR '':'' # v @ NL # NUL # post, inp)"
proof -
  let ?l = "k @ CHR '':'' # v @ [NL]"
  have "NL \<notin> set (k @ CHR '':'' # v)" using assms by (auto simp: line_ok_def NL_def)
  from line_of_app [OF this, of inp] have "line_of (status_line k v @ inp) = ?l" by (simp add: status_line_def)
  moreover have "length ?l \<le> 127" using assms by (simp add: line_ok_def)
  ultimately have l: "take (LINE_SIZE - 1) (line_of (status_line k v @ inp)) = ?l" by (simp only: LINE_SIZE_def) simp
  have d: "drop (length ?l) (status_line k v @ inp) = inp" by (simp add: status_line_def)
  have "status_line k v @ inp \<noteq> []" by (simp add: status_line_def)
  then show ?thesis unfolding fgets_def l Let_def d by simp
qed

text \<open>The field name is the first token.\<close>

lemma NUL_NL [simp]: "NUL \<noteq> NL" "NL \<noteq> NUL"
  by code_simp+

lemma NUL_colon [simp]: "NUL \<noteq> CHR '':''" "CHR '':'' \<noteq> NUL"
  by code_simp+

lemma first_token:
  assumes "line_ok k v"
  shows "strtok_r (CHR '':'') 0 (k @ CHR '':'' # v @ NL # NUL # post) = (Some 0, length k + 1, k @ NUL # v @ NL # NUL # post)"
  using strtok_found [of "[]" 0 "[]" "CHR '':''" k "v @ [NL]" post] assms by (simp add: line_ok_def)

lemma c_str_start: "NUL \<notin> set k \<Longrightarrow> c_str (k @ NUL # post) 0 = k"
  using c_str_at [of "[]" 0 k post] by simp

lemma field_other [simp]: "c_str (sc_line sc) (sc_token sc) \<noteq> fname \<Longrightarrow> field fname f sc = ret (True, sc)"
  by (simp add: field_def)

lemma NL_colon [simp]: "NL \<noteq> CHR '':''" "CHR '':'' \<noteq> NL"
  by code_simp+

text \<open>A line with another field changes nothing but the array and the token.\<close>

lemma scan_other:
  assumes "line_ok k v" "k \<notin> {''Pid'', ''Name'', ''Uid''}"
  shows "scan_line uid (sc\<lparr>sc_line := k @ CHR '':'' # v @ NL # NUL # post\<rparr>) s =
    (Inr (True, sc\<lparr>sc_line := k @ NUL # v @ NL # NUL # post, sc_token := 0, sc_save := length k + 1\<rparr>), s)"
proof -
  have "c_str (k @ NUL # v @ NL # NUL # post) 0 = k" using assms(1) by (intro c_str_start) (simp add: line_ok_def)
  with assms(2) show ?thesis
    by (simp add: scan_line_def first_token [OF assms(1)] scan_pid_def scan_name_def scan_uid_def token_str_def)
qed

text \<open>The token behind the field name, and what \<open>trim\<close> makes of it.\<close>

lemma value_token:
  assumes "line_ok k v" "CHR '':'' \<notin> set v"
  shows "strtok_r (CHR '':'') (length k + 1) (k @ NUL # v @ NL # NUL # post) = (Some (length k + 1), length k + length v + 2, k @ NUL # v @ NL # NUL # post)"
  using strtok_last [of "k @ [NUL]" "length k + 1" "[]" "CHR '':''" "v @ [NL]" post] assms by (simp add: line_ok_def)

lemma trim_token:
  assumes "length pre = p" "pre \<noteq> [] \<and> \<not> isspace (last pre) \<or> (\<exists>c \<in> set x. \<not> isspace c)" "NUL \<notin> set x"
  obtains post' where "trim p (pre @ x @ NUL # post) = Some (pre @ strip x @ NUL # post')"
    "c_str (pre @ strip x @ NUL # post') p = strip x"
proof -
  have "NUL \<notin> set (strip x)" using assms(3) by (auto simp: strip_def dest!: set_dropWhileD)
  note c = c_str_at [OF assms(1) this]
  from trim_strips [OF assms, of post] obtain post' where "trim p (pre @ x @ NUL # post) = Some (pre @ strip x @ NUL # post')" ..
  then show ?thesis using c by (rule that)
qed

lemma value_trim:
  assumes "line_ok k v"
  obtains post' where "trim (length k + 1) (k @ NUL # v @ NL # NUL # post) = Some (k @ NUL # strip (v @ [NL]) @ NUL # post')"
    "c_str (k @ NUL # strip (v @ [NL]) @ NUL # post') (length k + 1) = strip (v @ [NL])"
proof -
  have "NUL \<notin> set (v @ [NL])" using assms by (simp add: line_ok_def)
  from trim_token [of "k @ [NUL]" "length k + 1", OF _ _ this, of post] obtain post' where
    "trim (length k + 1) ((k @ [NUL]) @ (v @ [NL]) @ NUL # post) = Some ((k @ [NUL]) @ strip (v @ [NL]) @ NUL # post')"
    "c_str ((k @ [NUL]) @ strip (v @ [NL]) @ NUL # post') (length k + 1) = strip (v @ [NL])" by auto
  then show ?thesis by (intro that) simp_all
qed

lemma strip_tab: "strip (TAB # x @ [NL]) = strip x"
proof -
  have sp: "isspace TAB" "isspace NL" by code_simp+
  have "dropWhile isspace (rev (dropWhile isspace (ys @ [TAB]))) = dropWhile isspace (rev (dropWhile isspace ys))" for ys
    using sp(1) by (induction ys) auto
  with sp(2) show ?thesis by (simp add: strip_def)
qed

lemma show_int_nospace: "c \<in> set (show_int v) \<Longrightarrow> \<not> isspace c"
proof -
  have "\<not> isspace (CHR ''-'')" by code_simp
  then show "c \<in> set (show_int v) \<Longrightarrow> \<not> isspace c" using show_int_chars [of c v] by auto
qed

lemma strip_nospace: "\<forall>c \<in> set x. \<not> isspace c \<Longrightarrow> strip x = x"
proof -
  assume *: "\<forall>c \<in> set x. \<not> isspace c"
  have d: "dropWhile isspace y = y" if "\<forall>c \<in> set y. \<not> isspace c" for y using that by (cases y) auto
  have "dropWhile isspace x = x" "dropWhile isspace (rev x) = rev x" using * by (auto intro!: d)
  then show "strip x = x" by (simp add: strip_def)
qed

lemma strip_show [simp]: "strip (show_int v) = show_int v"
  by (intro strip_nospace ballI) (rule show_int_nospace)

lemma plain_chars: "NL \<notin> set (show_int v)" "NUL \<notin> set (show_int v)" "CHR '':'' \<notin> set (show_int v)" "TAB \<notin> set (show_int v)"
  "CHR ''i'' \<notin> set (show_int v)" "CHR ''a'' \<notin> set (show_int v)"
proof -
  have "\<not> is_digit 10 NL" "\<not> is_digit 10 NUL" "\<not> is_digit 10 (CHR '':'')" "\<not> is_digit 10 TAB" "\<not> is_digit 10 (CHR ''i'')" "\<not> is_digit 10 (CHR ''a'')"
    "NL \<noteq> CHR ''-''" "NUL \<noteq> CHR ''-''" "TAB \<noteq> CHR ''-''" by code_simp+
  then show "NL \<notin> set (show_int v)" "NUL \<notin> set (show_int v)" "CHR '':'' \<notin> set (show_int v)" "TAB \<notin> set (show_int v)"
    "CHR ''i'' \<notin> set (show_int v)" "CHR ''a'' \<notin> set (show_int v)"
    using show_int_chars [of _ v] is_digit_digit_char [of _ 10] by fastforce+
qed

section \<open>Numbers in any base\<close>

lemma show_base_hd: "0 < n \<Longrightarrow> hd (show_base 10 n) \<noteq> CHR ''0''"
proof (induction "10 :: nat" n rule: show_base.induct)
  case (1 n)
  show ?case
  proof (cases "n < 10")
    case True
    then have "digit_val (digit_char n) \<noteq> digit_val (digit_char 0)" using 1(2) by simp
    then have "digit_char n \<noteq> digit_char 0" by auto
    moreover have "digit_char 0 = CHR ''0''" by code_simp
    ultimately show ?thesis using True by (subst show_base.simps) simp
  next
    case False
    then have "0 < n div 10" by (simp add: div_greater_zero_iff)
    with 1(1) False show ?thesis by (subst show_base.simps) simp
  qed
qed

lemma strtol_any_base: "0 \<le> v \<Longrightarrow> strtol (show_int v) 0 = strtol (show_int v) 10"
proof (cases "v = 0")
  case True
  have "strtol (show_int 0) 0 = strtol (show_int 0) 10" by code_simp
  with True show ?thesis by simp
next
  case False
  assume "0 \<le> v"
  with False have "hd (show_int v) \<noteq> CHR ''0''" using show_base_hd [of "nat v"] by (simp add: show_int_def show_nat_def)
  moreover have "hd (show_int v) \<notin> {CHR ''-'', CHR ''+''}"
    using \<open>0 \<le> v\<close> bspec [OF show_base_10_digits hd_in_set [OF show_base_nonempty [of 10 "nat v"]]] by (auto simp: show_int_def show_nat_def digit_char_10_neq(2,3) [THEN not_sym])
  moreover have "dropWhile isspace (show_int v) = show_int v" using show_int_nospace [of _ v] by (cases "show_int v") auto
  ultimately show ?thesis
    by (cases "show_int v") (simp_all add: strtol_def strtol_sign_def strtol_base_def)
qed

lemma getInt_any_base:
  assumes "0 \<le> v" "v \<le> INT_MAX"
  shows "getInt (Some (show_int v)) GN_ANY_BASE name = Inr v"
proof -
  have "gn_base GN_ANY_BASE = 0" "\<not> has_flag GN_ANY_BASE GN_NONNEG" "\<not> has_flag GN_ANY_BASE GN_GT_0" by code_simp+
  with assms strtol_any_base [of v] strtol_show_int [of "[]" v] show ?thesis
    by (simp add: getInt_def getNum_def const_defs to_s32_id)
qed

lemma getInt_positive:
  assumes "0 < v" "v \<le> INT_MAX"
  shows "getInt (Some (show_int v)) GN_GT_0 name = Inr v"
proof -
  have "gn_base GN_GT_0 = 10" "\<not> has_flag GN_GT_0 GN_NONNEG" by code_simp+
  with assms getInt_roundtrip [of GN_GT_0 v name] show ?thesis by (simp add: const_defs)
qed

section \<open>A status file\<close>

definition status_text :: "(string \<times> string) list \<Rightarrow> string" where
  "status_text kvs = concat (map (\<lambda>(k, v). status_line k v) kvs)"

text \<open>What matters of the local variables.\<close>

definition found :: "scan \<Rightarrow> int \<times> nat option \<times> int" where
  "found sc = (sc_pid sc, sc_name sc, sc_uid sc)"

text \<open>The state of a scan after the field name of a line, and after its value.\<close>

definition at_field :: "string \<Rightarrow> string \<Rightarrow> string \<Rightarrow> scan \<Rightarrow> scan" where
  "at_field k v post sc = sc\<lparr>sc_token := 0, sc_save := length k + 1, sc_line := k @ NUL # v @ NL # NUL # post\<rparr>"

lemma at_field_str: "line_ok k v \<Longrightarrow> token_str (at_field k v post sc) = k"
  by (simp add: token_str_def at_field_def c_str_start line_ok_def)

lemma field_value:
  assumes "line_ok k v" "CHR '':'' \<notin> set v"
  shows "\<exists>b. (\<forall>f. field k (\<lambda>sc. with_trim sc f) (at_field k v post sc) = f (sc\<lparr>sc_token := length k + 1, sc_save := length k + length v + 2, sc_line := b\<rparr>)) \<and>
    c_str b (length k + 1) = strip (v @ [NL])"
proof -
  obtain post' where t: "trim (length k + 1) (k @ NUL # v @ NL # NUL # post) = Some (k @ NUL # strip (v @ [NL]) @ NUL # post')"
    "c_str (k @ NUL # strip (v @ [NL]) @ NUL # post') (length k + 1) = strip (v @ [NL])"
    by (rule value_trim [OF assms(1), of post])
  show ?thesis
  proof (intro exI conjI allI)
    fix f
    show "field k (\<lambda>sc. with_trim sc f) (at_field k v post sc) = f (sc\<lparr>sc_token := length k + 1, sc_save := length k + length v + 2, sc_line := k @ NUL # strip (v @ [NL]) @ NUL # post'\<rparr>)"
      using at_field_str [OF assms(1), of post sc] value_token [OF assms, of post] t(1)
      by (simp add: field_def token_str_def with_trim_def at_field_def)
  qed (rule t(2))
qed

lemma scan_line_field:
  assumes "line_ok k v"
  shows "scan_line uid (sc\<lparr>sc_line := k @ CHR '':'' # v @ NL # NUL # post\<rparr>) =
    bnd (scan_pid (at_field k v post sc)) (\<lambda>(go, sc). if \<not> go then ret (True, sc) else
    bnd (scan_name sc) (\<lambda>(go, sc). if \<not> go then ret (True, sc) else scan_uid uid sc))"
  by (simp add: scan_line_def first_token [OF assms] at_field_def)

lemma field_skip: "token_str sc \<noteq> fname \<Longrightarrow> field fname f sc = ret (True, sc)"
  by (simp add: token_str_def)

lemma scan_name_line:
  fixes s :: "'a proc_io_scheme"
  assumes "line_ok ''Name'' v" "CHR '':'' \<notin> set v" "strip (v @ [NL]) \<noteq> ''Uid''" "found sc = (p, n, u)"
  shows "\<exists>sc'. found sc' = (p, Some 5, u) \<and> scan_line uid (sc\<lparr>sc_line := ''Name'' @ CHR '':'' # v @ NL # NUL # post\<rparr>) s =
    (Inr (True, sc'), s)"
proof -
  obtain b where f: "\<forall>f :: scan \<Rightarrow> ('a proc_io_scheme, bool \<times> scan) prog. field ''Name'' (\<lambda>sc. with_trim sc f) (at_field ''Name'' v post sc) = f (sc\<lparr>sc_token := length ''Name'' + 1, sc_save := length ''Name'' + length v + 2, sc_line := b\<rparr>)"
    and b: "c_str b (length ''Name'' + 1) = strip (v @ [NL])" using field_value [OF assms(1,2), of post sc] by blast
  have "scan_pid (at_field ''Name'' v post sc) s = (Inr (True, at_field ''Name'' v post sc), s)"
    by (simp add: scan_pid_def field_skip at_field_str [OF assms(1)])
  moreover have "scan_name (at_field ''Name'' v post sc) s = (Inr (True, sc\<lparr>sc_token := 5, sc_save := length v + 6, sc_line := b, sc_name := Some 5\<rparr>), s)"
    unfolding scan_name_def f [rule_format] by (simp add: prog_simps eval_nat_numeral)
  ultimately show ?thesis using b assms(3,4) unfolding scan_line_field [OF assms(1)]
    by (intro exI [of _ "sc\<lparr>sc_token := 5, sc_save := length v + 6, sc_line := b, sc_name := Some 5\<rparr>"]) (simp add: found_def scan_uid_def token_str_def prog_simps eval_nat_numeral)
qed

lemma scan_pid_line:
  fixes s :: "'a proc_io_scheme"
  assumes p: "0 < p" "p \<le> INT_MAX" and ok: "line_ok ''Pid'' (TAB # show_int p)" and fd: "found sc = (p0, n, u)"
  shows "\<exists>sc'. found sc' = (p, n, u) \<and> scan_line uid (sc\<lparr>sc_line := ''Pid'' @ CHR '':'' # (TAB # show_int p) @ NL # NUL # post\<rparr>) s =
    (Inr (True, sc'), s\<lparr>errno := 0\<rparr>)"
proof -
  have colon: "CHR '':'' \<notin> set (TAB # show_int p)" using plain_chars [of p] by (simp add: TAB_def)
  obtain b where f: "\<forall>f :: scan \<Rightarrow> ('a proc_io_scheme, bool \<times> scan) prog. field ''Pid'' (\<lambda>sc. with_trim sc f) (at_field ''Pid'' (TAB # show_int p) post sc) = f (sc\<lparr>sc_token := length ''Pid'' + 1, sc_save := length ''Pid'' + length (TAB # show_int p) + 2, sc_line := b\<rparr>)"
    and b: "c_str b (length ''Pid'' + 1) = strip ((TAB # show_int p) @ [NL])" using field_value [OF ok colon, of post sc] by blast
  let ?sc = "sc\<lparr>sc_token := 4, sc_save := length (show_int p) + 6, sc_line := b, sc_pid := p\<rparr>"
  have c': "c_str b (Suc (Suc (Suc (Suc 0)))) = show_int p" using b by (simp add: strip_tab)
  then have c: "c_str b 4 = show_int p" by (simp add: eval_nat_numeral)
  have 1: "scan_pid (at_field ''Pid'' (TAB # show_int p) post sc) s = (Inr (True, ?sc), s\<lparr>errno := 0\<rparr>)"
    unfolding scan_pid_def f [rule_format] by (simp add: token_str_def c' getInt_or_exit_def getInt_positive [OF p] prog_simps eval_nat_numeral)
  have "show_int p \<noteq> ''Name''" "show_int p \<noteq> ''Uid''" using plain_chars(5,6) [of p] by auto
  with 1 c fd show ?thesis unfolding scan_line_field [OF ok]
    by (intro exI [of _ ?sc]) (simp add: found_def prog_simps scan_name_def scan_uid_def token_str_def)
qed

lemma uid_tokens:
  assumes ok: "line_ok ''Uid'' (TAB # show_int u @ TAB # w)" and w: "CHR '':'' \<notin> set w"
  obtains b1 b sv1 sv where
    "strtok_r (CHR '':'') 4 (''Uid'' @ NUL # (TAB # show_int u @ TAB # w) @ NL # NUL # post) = (Some 4, sv1, b1)"
    "strtok_r TAB 4 b1 = (Some 5, sv, b)" "\<exists>b'. trim 5 b = Some b' \<and> c_str b' 5 = show_int u"
proof -
  let ?v = "TAB # show_int u @ TAB # w" and ?b = "(''Uid'' @ [NUL]) @ [TAB] @ show_int u @ NUL # w @ NL # NUL # post"
  have "CHR '':'' \<notin> set ?v" using plain_chars [of u] w by (auto simp: TAB_def)
  from value_token [OF ok this, of post]
  have 1: "strtok_r (CHR '':'') 4 (''Uid'' @ NUL # ?v @ NL # NUL # post) = (Some 4, length ?v + 5, ''Uid'' @ NUL # ?v @ NL # NUL # post)" by (simp add: eval_nat_numeral)
  have t: "TAB \<noteq> NUL" by code_simp
  have "NUL \<notin> set w" using ok by (simp add: line_ok_def)
  with t strtok_found [of "''Uid'' @ [NUL]" 4 "[TAB]" TAB "show_int u" "w @ [NL]" post] plain_chars [of u]
  have 2: "strtok_r TAB 4 (''Uid'' @ NUL # ?v @ NL # NUL # post) = (Some 5, 6 + length (show_int u), ?b)" by simp
  have "\<exists>c \<in> set (show_int u). \<not> isspace c" using show_int_nospace [of _ u] show_int_nonempty [of u] by (meson hd_in_set)
  from trim_token [of "(''Uid'' @ [NUL]) @ [TAB]" 5 "show_int u" "w @ NL # NUL # post"] this plain_chars(2)
  have "\<exists>b'. trim 5 ?b = Some b' \<and> c_str b' 5 = show_int u" by (simp del: append_Cons) metis
  with 1 2 show ?thesis by (rule that)
qed

lemma scan_uid_line:
  fixes s :: "'a proc_io_scheme"
  assumes u: "0 \<le> u" "u \<le> INT_MAX" and ok: "line_ok ''Uid'' (TAB # show_int u @ TAB # w)" and w: "CHR '':'' \<notin> set w"
    and fd: "found sc = (p, Some 5, u0)" and p: "p \<noteq> - 1"
  shows "\<exists>sc'. found sc' = (p, Some 5, u) \<and>
    scan_line uid (sc\<lparr>sc_line := ''Uid'' @ CHR '':'' # (TAB # show_int u @ TAB # w) @ NL # NUL # post\<rparr>) s =
    (Inr (uid \<noteq> u, sc'), if uid = u then printf_stdout [NL, NL] (printf_stdout (''Pid: '' @ show_int p @ [NL] @ ''Name: '' @ show_int u @ [NL]) (s\<lparr>errno := 0\<rparr>))
     else s\<lparr>errno := 0\<rparr>)"
proof -
  let ?v = "TAB # show_int u @ TAB # w"
  obtain b1 b sv1 sv where t: "strtok_r (CHR '':'') 4 (''Uid'' @ NUL # ?v @ NL # NUL # post) = (Some 4, sv1, b1)"
    "strtok_r TAB 4 b1 = (Some 5, sv, b)" and tr: "\<exists>b'. trim 5 b = Some b' \<and> c_str b' 5 = show_int u" by (rule uid_tokens [OF ok w])
  from tr obtain b' where b': "trim 5 b = Some b'" "c_str b' 5 = show_int u" by blast
  define f where "f = at_field ''Uid'' ?v post sc"
  have fs: "token_str f = ''Uid''" "sc_save f = 4" "sc_line f = ''Uid'' @ NUL # ?v @ NL # NUL # post" "sc_name f = Some 5" "sc_pid f = p"
    using at_field_str [OF ok, of post sc] fd by (simp_all add: f_def) (simp_all add: at_field_def found_def)
  let ?sc = "f\<lparr>sc_token := 5, sc_save := sv, sc_line := b', sc_uid := u\<rparr>"
  have 1: "scan_uid uid f s = (if uid = u then (Inr (False, ?sc), printf_stdout [NL, NL] (printf_stdout (''Pid: '' @ show_int p @ [NL] @ ''Name: '' @ show_int u @ [NL]) (s\<lparr>errno := 0\<rparr>)))
     else (Inr (True, ?sc), s\<lparr>errno := 0\<rparr>))"
    unfolding scan_uid_def fs t using b' p fs(4,5)
    by (simp add: t with_trim_def token_str_def getInt_or_exit_def getInt_any_base [OF u] prog_simps printfM_def)
  have "scan_pid f s = (Inr (True, f), s)" "scan_name f s = (Inr (True, f), s)"
    by (simp_all add: scan_pid_def scan_name_def field_skip fs)
  with 1 fs show ?thesis unfolding scan_line_field [OF ok] f_def [symmetric]
    by (intro exI [of _ ?sc]) (simp add: prog_simps found_def)
qed

section \<open>The loop\<close>

definition scanned :: "int \<times> nat option \<times> int \<Rightarrow> bool" where
  "scanned x = (case x of (pid, name, uid) \<Rightarrow> pid \<noteq> - 1 \<and> name \<noteq> None \<and> uid \<noteq> - 1)"

lemma scan_loop_step:
  assumes "line_ok k v" "\<not> scanned (found sc)"
    and "\<And>post. \<exists>sc'. found sc' = x \<and> scan_line uid (sc\<lparr>sc_line := k @ CHR '':'' # v @ NL # NUL # post\<rparr>) s = (Inr (go, sc'), s')"
  shows "\<exists>sc'. found sc' = x \<and> scan_loop uid (status_line k v @ inp) sc s = (if go then scan_loop uid inp sc' s' else (Inr (), s'))"
proof -
  from fgets_line [OF assms(1), of inp "sc_line sc"] obtain post where
    f: "fgets (status_line k v @ inp) (sc_line sc) = Some (k @ CHR '':'' # v @ NL # NUL # post, inp)" ..
  from assms(3) [of post] obtain sc' where "found sc' = x" "scan_line uid (sc\<lparr>sc_line := k @ CHR '':'' # v @ NL # NUL # post\<rparr>) s = (Inr (go, sc'), s')" by blast
  with f assms(2) show ?thesis
    by (intro exI [of _ sc']) (subst scan_loop.simps, auto simp: scanned_def found_def prog_simps)
qed

lemma scan_loop_others:
  assumes "\<forall>(k, v) \<in> set kvs. line_ok k v \<and> k \<notin> {''Pid'', ''Name'', ''Uid''}" "\<not> scanned (found sc)"
  shows "\<exists>sc'. found sc' = found sc \<and> scan_loop uid (status_text kvs @ inp) sc s = scan_loop uid inp sc' s"
  using assms
proof (induction kvs arbitrary: sc)
  case Nil
  show ?case by (intro exI [of _ sc]) (simp add: status_text_def)
next
  case (Cons kv kvs)
  obtain k v where kv: "kv = (k, v)" by (cases kv)
  with Cons.prems have ok: "line_ok k v" "k \<notin> {''Pid'', ''Name'', ''Uid''}" by auto
  have "\<exists>sc'. found sc' = found sc \<and> scan_loop uid (status_line k v @ status_text kvs @ inp) sc s = (if True then scan_loop uid (status_text kvs @ inp) sc' s else (Inr (), s))"
    using scan_other [OF ok, where uid = uid and sc = sc and s = s] by (intro scan_loop_step [OF ok(1) Cons.prems(2)] exI conjI) (auto simp: found_def)
  then obtain sc' where "found sc' = found sc" "scan_loop uid (status_line k v @ status_text kvs @ inp) sc s = scan_loop uid (status_text kvs @ inp) sc' s" by auto
  with Cons.IH [of sc'] Cons.prems show ?case by (auto simp: kv status_text_def)
qed

text \<open>What the program prints for a process of the user it was asked for. The pointer \<^verbatim>\<open>name\<close> is set when the line with the name
  is in the array, but it is printed when the array holds the line with the user ID; both values start at the same
  position, so what is printed as the name is the user ID. Of the other processes nothing is printed.\<close>

theorem pid_name_overwritten:
  fixes s :: "'a proc_io_scheme"
  assumes content: "fs_file P path = Inr (status_text ((''Name'', TAB # n) # kvs1) @ status_text ((''Pid'', TAB # show_int p) # kvs2) @
      status_line ''Uid'' (TAB # show_int u @ TAB # w) @ inp)"
    and others: "\<forall>(k, v) \<in> set (kvs1 @ kvs2). line_ok k v \<and> k \<notin> {''Pid'', ''Name'', ''Uid''}"
    and name: "line_ok ''Name'' (TAB # n)" "CHR '':'' \<notin> set n" "strip n \<noteq> ''Uid''"
    and uid_ok: "line_ok ''Uid'' (TAB # show_int u @ TAB # w)" "CHR '':'' \<notin> set w" "0 \<le> u" "u \<le> INT_MAX"
    and pid: "0 < p" "p \<le> INT_MAX" "line_ok ''Pid'' (TAB # show_int p)"
    and close: "fs_fclose P path = None"
  shows "fst (readfdata P sr junk path uid s) = Inr () \<and>
    stdout_buf (snd (readfdata P sr junk path uid s)) = stdout_buf s @
      (if uid = u then ''Pid: '' @ show_int p @ [NL] @ ''Name: '' @ show_int u @ [NL, NL, NL] else [])"
proof -
  let ?uidl = "status_line ''Uid'' (TAB # show_int u @ TAB # w) @ inp"
  let ?pidl = "status_line ''Pid'' (TAB # show_int p) @ status_text kvs2 @ ?uidl"
  let ?out = "if uid = u then printf_stdout [NL, NL] (printf_stdout (''Pid: '' @ show_int p @ [NL] @ ''Name: '' @ show_int u @ [NL]) (s\<lparr>errno := 0, errno := 0\<rparr>)) else s\<lparr>errno := 0, errno := 0\<rparr>"
  define sc0 where "sc0 = \<lparr>sc_line = junk, sc_token = 0, sc_save = 0, sc_pid = - 1, sc_name = None, sc_uid = - 1\<rparr>"
  have f0: "found sc0 = (- 1, None, - 1)" by (simp add: sc0_def found_def)
  have colon: "CHR '':'' \<notin> set (TAB # n)" using name(2) by (simp add: TAB_def)
  have nm: "strip ((TAB # n) @ [NL]) \<noteq> ''Uid''" using name(3) strip_tab [of n] by simp
  have "\<exists>sc'. found sc' = (- 1, Some 5, - 1) \<and> scan_loop uid (status_line ''Name'' (TAB # n) @ status_text kvs1 @ ?pidl) sc0 s =
    (if True then scan_loop uid (status_text kvs1 @ ?pidl) sc' s else (Inr (), s))"
    using scan_name_line [OF name(1) colon nm f0, where s = s and uid = uid] by (intro scan_loop_step [OF name(1)]) (simp_all add: f0 scanned_def)
  then obtain sc1 where 1: "found sc1 = (- 1, Some 5, - 1)"
    "scan_loop uid (status_line ''Name'' (TAB # n) @ status_text kvs1 @ ?pidl) sc0 s = scan_loop uid (status_text kvs1 @ ?pidl) sc1 s" by auto
  with scan_loop_others [of kvs1 sc1 uid ?pidl s] others obtain sc2 where
    2: "found sc2 = (- 1, Some 5, - 1)" "scan_loop uid (status_text kvs1 @ ?pidl) sc1 s = scan_loop uid ?pidl sc2 s" by (auto simp: scanned_def)
  have "\<exists>sc'. found sc' = (p, Some 5, - 1) \<and> scan_loop uid ?pidl sc2 s = (if True then scan_loop uid (status_text kvs2 @ ?uidl) sc' (s\<lparr>errno := 0\<rparr>) else (Inr (), s\<lparr>errno := 0\<rparr>))"
    using scan_pid_line [OF pid 2(1), where s = s and uid = uid] by (intro scan_loop_step [OF pid(3)]) (simp_all add: 2(1) scanned_def)
  then obtain sc3 where 3: "found sc3 = (p, Some 5, - 1)" "scan_loop uid ?pidl sc2 s = scan_loop uid (status_text kvs2 @ ?uidl) sc3 (s\<lparr>errno := 0\<rparr>)" by auto
  with scan_loop_others [of kvs2 sc3 uid ?uidl "s\<lparr>errno := 0\<rparr>"] others obtain sc4 where
    4: "found sc4 = (p, Some 5, - 1)" "scan_loop uid (status_text kvs2 @ ?uidl) sc3 (s\<lparr>errno := 0\<rparr>) = scan_loop uid ?uidl sc4 (s\<lparr>errno := 0\<rparr>)" by (auto simp: scanned_def)
  have "\<exists>sc'. found sc' = (p, Some 5, u) \<and> scan_loop uid ?uidl sc4 (s\<lparr>errno := 0\<rparr>) = (if uid \<noteq> u then scan_loop uid inp sc' ?out else (Inr (), ?out))"
    by (rule scan_loop_step [OF uid_ok(1) _ scan_uid_line [OF uid_ok(3,4,1,2) 4(1)]]) (use pid(1) in \<open>simp_all add: 4(1) scanned_def\<close>)
  then obtain sc5 where 5: "found sc5 = (p, Some 5, u)" "scan_loop uid ?uidl sc4 (s\<lparr>errno := 0\<rparr>) = (if uid \<noteq> u then scan_loop uid inp sc5 ?out else (Inr (), ?out))" by blast
  have "scan_loop uid inp sc5 ?out = (Inr (), ?out)" using 5(1) uid_ok(3) pid(1) by (subst scan_loop.simps) (auto simp: found_def)
  with 1(2) 2(2) 3(2) 4(2) 5(2) content close show ?thesis
    by (auto simp: readfdata_def sc0_def [symmetric] status_text_def prog_simps)
qed

definition status_example :: proc_fs where
  "status_example = \<lparr>fs_dir = None, fs_stat = (\<lambda>_. Inr True), fs_isdir = (\<lambda>_. Inr True),
     fs_file = (\<lambda>_. Inr (status_text [(''Name'', TAB # ''bash''), (''Umask'', TAB # ''0022'')] @ status_text [(''Pid'', TAB # ''17'')] @
       status_line ''Uid'' (TAB # ''1000'' @ TAB # ''1000'') @ status_line ''Gid'' (TAB # ''1000''))),
     fs_fclose = (\<lambda>_. None), fs_closedir = None\<rparr>"

definition status_start :: proc_io where
  "status_start = \<lparr>stdout_buf = [], stdout_out = [], stderr_out = [], errno = 0, ef_dumpcore = None, stdio_errno = None\<rparr>"

theorem pid_name_overwritten_witness:
  "stdout_buf (snd (readfdata status_example (\<lambda>_. []) [] ''/proc/17/status'' 1000 status_start)) = ''Pid: 17'' @ [NL] @ ''Name: 1000'' @ [NL, NL, NL]"
proof -
  have n: "show_int 17 = ''17''" "show_int 1000 = ''1000''" by code_simp+
  have ok: "line_ok ''Name'' (TAB # ''bash'')" "line_ok ''Umask'' (TAB # ''0022'')" "line_ok ''Pid'' (TAB # ''17'')" "line_ok ''Uid'' (TAB # ''1000'' @ TAB # ''1000'')"
    "strip ''bash'' \<noteq> ''Uid''" by code_simp+
  have f: "fs_file status_example ''/proc/17/status'' = Inr (status_text ((''Name'', TAB # ''bash'') # [(''Umask'', TAB # ''0022'')]) @
      status_text ((''Pid'', TAB # show_int 17) # []) @ status_line ''Uid'' (TAB # show_int 1000 @ TAB # ''1000'') @ status_line ''Gid'' (TAB # ''1000''))"
    unfolding n by (simp add: status_example_def)
  have "fst (readfdata status_example (\<lambda>_. []) [] ''/proc/17/status'' 1000 status_start) = Inr () \<and>
    stdout_buf (snd (readfdata status_example (\<lambda>_. []) [] ''/proc/17/status'' 1000 status_start)) = stdout_buf status_start @
      (if (1000 :: int) = 1000 then ''Pid: '' @ show_int 17 @ [NL] @ ''Name: '' @ show_int 1000 @ [NL, NL, NL] else [])"
    by (rule pid_name_overwritten [OF f]) (simp_all add: ok [simplified] n const_defs status_example_def)
  then show ?thesis by (simp add: n status_start_def)
qed

section \<open>pstree\_implementation.c\<close>

text \<open>A node of the tree, which the program can make but does not use yet. The number of children is left unset.\<close>

record node =
  nd_children_count :: "int option"
  nd_pid :: int
  nd_ppid :: int
  nd_name :: string
  nd_next :: "nat option"

definition addnode :: "bool \<Rightarrow> (int \<Rightarrow> string) \<Rightarrow> int \<Rightarrow> int \<Rightarrow> string \<Rightarrow> ('a proc_io_scheme, node) prog" where
  "addnode malloc_ok sr pid ppid name =
     (if \<not> malloc_ok then bnd (modify (\<lambda>s. s\<lparr>errno := ENOMEM\<rparr>)) (\<lambda>_. errExit sr ''malloc in addnode()'')
      else ret \<lparr>nd_children_count = None, nd_pid = pid, nd_ppid = ppid, nd_name = name, nd_next = None\<rparr>)"

text \<open>The variables \<^verbatim>\<open>pid\<close> and \<^verbatim>\<open>ppid\<close> of this version are only printed where they are set, so the record of the scan keeps
  their positions and nothing else is used of it.\<close>

definition tree_num :: "string \<Rightarrow> string \<Rightarrow> scan \<Rightarrow> ('a proc_io_scheme, bool \<times> scan) prog" where
  "tree_num fname var = field fname (\<lambda>sc. with_trim sc (\<lambda>sc.
     bnd (getInt_or_exit (token_str sc) GN_ANY_BASE var) (\<lambda>v.
     bnd (printfM (fname @ '': string '' @ token_str sc @ '' or integer '' @ show_int v @ [NL])) (\<lambda>_. ret (True, sc)))))"

definition tree_name :: "scan \<Rightarrow> ('a proc_io_scheme, bool \<times> scan) prog" where
  "tree_name = field ''Name'' (\<lambda>sc. with_trim sc (\<lambda>sc.
     bnd (printfM (''Name: '' @ token_str sc @ [NL])) (\<lambda>_. ret (True, sc))))"

definition tree_line :: "scan \<Rightarrow> ('a proc_io_scheme, scan) prog" where
  "tree_line sc = (case strtok_r (CHR '':'') 0 (sc_line sc) of
      (None, sv, b) \<Rightarrow> bnd (no_token (sc\<lparr>sc_save := sv, sc_line := b\<rparr>)) (\<lambda>(_, sc). ret sc)
    | (Some t, sv, b) \<Rightarrow>
        bnd (tree_num ''Pid'' ''pid'' (sc\<lparr>sc_token := t, sc_save := sv, sc_line := b\<rparr>)) (\<lambda>(go, sc). if \<not> go then ret sc else
        bnd (tree_num ''PPid'' ''ppid'' sc) (\<lambda>(go, sc). if \<not> go then ret sc else
        bnd (tree_name sc) (\<lambda>(_, sc). ret sc))))"

function tree_loop :: "string \<Rightarrow> scan \<Rightarrow> ('a proc_io_scheme, unit) prog" where
  "tree_loop inp sc = (case fgets inp (sc_line sc) of
      None \<Rightarrow> ret ()
    | Some (b, inp') \<Rightarrow> bnd (tree_line (sc\<lparr>sc_line := b\<rparr>)) (\<lambda>sc'. tree_loop inp' sc'))"
  by pat_completeness auto

termination tree_loop
  by (relation "measure (\<lambda>(inp, sc). length inp)") (auto dest: fgets_shorter)

declare tree_loop.simps [simp del]

definition tree_readfdata :: "proc_fs \<Rightarrow> (int \<Rightarrow> string) \<Rightarrow> int \<Rightarrow> string \<Rightarrow> string \<Rightarrow> ('a proc_io_scheme, unit) prog" where
  "tree_readfdata P sr getpid junk path = (case fs_file P path of
      Inl e \<Rightarrow> bnd (modify (\<lambda>s. s\<lparr>errno := e\<rparr>)) (\<lambda>_. printfM (sr e @ '' '' @ [NL]))
    | Inr content \<Rightarrow>
        bnd (tree_loop content \<lparr>sc_line = junk, sc_token = 0, sc_save = 0, sc_pid = - 1, sc_name = None, sc_uid = - 1\<rparr>) (\<lambda>_.
        bnd (case fs_fclose P path of None \<Rightarrow> ret ()
             | Some e \<Rightarrow> bnd (modify (\<lambda>s. s\<lparr>errno := e\<rparr>)) (\<lambda>_. errExit sr ''close'')) (\<lambda>_.
        printfM (''Child Pid: '' @ show_int getpid @ [NL]))))"

definition stat_failed :: "(int \<Rightarrow> string) \<Rightarrow> string \<Rightarrow> string \<Rightarrow> int \<Rightarrow> ('a proc_io_scheme, unit) prog" where
  "stat_failed sr what path e = bnd (modify (\<lambda>s. s\<lparr>errno := e\<rparr>)) (\<lambda>_.
     printfM (''stat '' @ what @ '': '' @ path @ '' '' @ [TAB] @ ''Error: '' @ sr e @ [NL]))"

text \<open>One pass of the loop over \<^verbatim>\<open>/proc\<close>, with the number of directories read so far.\<close>

definition tree_entry ::
  "proc_fs \<Rightarrow> (int \<Rightarrow> string) \<Rightarrow> int \<Rightarrow> int \<Rightarrow> string \<Rightarrow> string \<Rightarrow> nat \<Rightarrow> ('a proc_io_scheme, nat) prog" where
  "tree_entry P sr getpid childPid junk d_name dircount =
     (if d_name = ''.'' \<or> d_name = ''..'' then ret dircount
      else let proc_dirname = snprintf 256 (''/proc/'' @ d_name) in
        case fs_isdir P proc_dirname of
          Inl e \<Rightarrow> bnd (stat_failed sr ''proc_dirname'' proc_dirname e) (\<lambda>_. ret dircount)
        | Inr dir \<Rightarrow>
            if \<not> dir then ret dircount
            else let pathname = snprintf 256 (proc_dirname @ ''/status'') in
              case fs_stat P pathname of
                Inl e \<Rightarrow> bnd (stat_failed sr ''pathname'' pathname e) (\<lambda>_. ret dircount)
              | Inr reg \<Rightarrow>
                  if \<not> reg then ret dircount
                  else bnd (printfM (pathname @ [NL])) (\<lambda>_.
                    bnd (whenM (dircount = 20) (printfM (''Child Pid: '' @ show_int childPid @ [NL]))) (\<lambda>_.
                    bnd (tree_readfdata P sr getpid junk pathname) (\<lambda>_.
                    bnd (printfM [NL]) (\<lambda>_. ret (dircount + 1))))))"

primrec tree_entries ::
  "proc_fs \<Rightarrow> (int \<Rightarrow> string) \<Rightarrow> int \<Rightarrow> int \<Rightarrow> string \<Rightarrow> string list \<Rightarrow> nat \<Rightarrow> ('a proc_io_scheme, nat) prog" where
  "tree_entries P sr getpid childPid junk [] n = ret n"
| "tree_entries P sr getpid childPid junk (d # ds) n = bnd (tree_entry P sr getpid childPid junk d n) (tree_entries P sr getpid childPid junk ds)"

text \<open>The parent passes a pointer to \<^verbatim>\<open>waitpid\<close> that was never set. The child goes on with the directory. \<^verbatim>\<open>errno\<close> is set to 0 once,
  before the loop; at its end it tells an error of \<^verbatim>\<open>readdir\<close> from the end of the directory.\<close>

definition tree_main :: "proc_fs \<Rightarrow> int + int \<Rightarrow> (int \<Rightarrow> string) \<Rightarrow> int \<Rightarrow> string \<Rightarrow> ('a proc_io_scheme, unit) prog" where
  "tree_main P fork sr getpid junk = (case fs_dir P of
      None \<Rightarrow> errExit sr ''opendir''
    | Some (entries, err) \<Rightarrow> (case fork of
        Inl e \<Rightarrow> bnd (modify (\<lambda>s. s\<lparr>errno := e\<rparr>)) (\<lambda>_. errExit sr ''fork'')
      | Inr childPid \<Rightarrow>
          if childPid \<noteq> 0 then bnd (printfM (''Inside parent'' @ [NL])) (\<lambda>_. stop Undef)
          else
            bnd (printfM (''Inside child'' @ [NL])) (\<lambda>_.
            bnd (printfM (''Child Pid: '' @ show_int getpid @ [NL])) (\<lambda>_.
            bnd (modify (\<lambda>s. s\<lparr>errno := 0\<rparr>)) (\<lambda>_.
            bnd (tree_entries P sr getpid childPid junk entries 0) (\<lambda>_.
            bnd (case err of None \<Rightarrow> ret () | Some e \<Rightarrow> modify (\<lambda>s. s\<lparr>errno := e\<rparr>)) (\<lambda>_.
            bnd (gets errno) (\<lambda>e.
            bnd (if e = 0 then printfM ([NL, NL] @ ''End of dir strean'' @ [NL, NL]) else errExit sr ''readdir'') (\<lambda>_.
            (case fs_closedir P of
               Some e \<Rightarrow> bnd (modify (\<lambda>s. s\<lparr>errno := e\<rparr>)) (\<lambda>_. errExit sr ''closedir'')
             | None \<Rightarrow> exit3 EXIT_SUCCESS))))))))))"

text \<open>What is printed for a line of a status file.\<close>

definition tree_output :: "string \<Rightarrow> string \<Rightarrow> string" where
  "tree_output k v =
     (if k = ''Pid'' \<or> k = ''PPid'' then k @ '': string '' @ strip v @ '' or integer '' @ strip v @ [NL]
      else if k = ''Name'' then ''Name: '' @ strip (takeWhile (\<lambda>c. c \<noteq> CHR '':'') v) @ [NL] else [])"

text \<open>The lines as the kernel writes them: numbers in the fields that hold process IDs, a tab before the name.\<close>

definition tree_ok :: "string \<Rightarrow> string \<Rightarrow> bool" where
  "tree_ok k v \<longleftrightarrow> line_ok k v \<and> (k = ''Name'' \<longrightarrow> (\<exists>x. v = TAB # x)) \<and>
     (k = ''Pid'' \<or> k = ''PPid'' \<longrightarrow> (\<exists>p \<ge> 0. p \<le> INT_MAX \<and> v = TAB # show_int p))"

lemma strip_NL [simp]: "strip (x @ [NL]) = strip x"
proof -
  have "isspace NL" by code_simp
  then show ?thesis by (simp add: strip_def)
qed

lemma strip_TAB [simp]: "strip (TAB # x) = strip x"
  using strip_tab [of x] strip_NL [of "TAB # x"] by simp

lemma tree_line_field:
  assumes "line_ok k v"
  shows "tree_line (sc\<lparr>sc_line := k @ CHR '':'' # v @ NL # NUL # post\<rparr>) =
    bnd (tree_num ''Pid'' ''pid'' (at_field k v post sc)) (\<lambda>(go, sc). if \<not> go then ret sc else
    bnd (tree_num ''PPid'' ''ppid'' sc) (\<lambda>(go, sc). if \<not> go then ret sc else
    bnd (tree_name sc) (\<lambda>(_, sc). ret sc)))"
  by (simp add: tree_line_def first_token [OF assms] at_field_def)

lemma tree_num_skip: "token_str sc \<noteq> fname \<Longrightarrow> tree_num fname var sc s = (Inr (True, sc), s)"
  by (simp add: tree_num_def field_skip)

lemma tree_name_skip: "token_str sc \<noteq> ''Name'' \<Longrightarrow> tree_name sc s = (Inr (True, sc), s)"
  by (simp add: tree_name_def field_skip)

lemma tree_num_line:
  fixes s :: "'a proc_io_scheme"
  assumes ok: "line_ok k v" and v: "v = TAB # show_int p" "0 \<le> p" "p \<le> INT_MAX"
  shows "\<exists>sc'. token_str sc' = show_int p \<and> tree_num k var (at_field k v post sc) s = (Inr (True, sc'), printf_stdout (k @ '': string '' @ strip v @ '' or integer '' @ strip v @ [NL]) (s\<lparr>errno := 0\<rparr>))"
proof -
  have colon: "CHR '':'' \<notin> set v" using plain_chars [of p] by (simp add: v TAB_def)
  obtain b where f: "\<forall>f :: scan \<Rightarrow> ('a proc_io_scheme, bool \<times> scan) prog. field k (\<lambda>sc. with_trim sc f) (at_field k v post sc) = f (sc\<lparr>sc_token := length k + 1, sc_save := length k + length v + 2, sc_line := b\<rparr>)"
    and b: "c_str b (length k + 1) = strip (v @ [NL])" using field_value [OF ok colon, of post sc] by blast
  let ?sc = "sc\<lparr>sc_token := length k + 1, sc_save := length k + length v + 2, sc_line := b\<rparr>"
  have t: "token_str ?sc = show_int p" "strip v = show_int p" using b by (simp_all add: token_str_def v)
  show ?thesis
    unfolding tree_num_def f [rule_format]
    by (intro exI [of _ ?sc]) (simp only: t getInt_or_exit_def getInt_any_base [OF v(2,3)] prog_simps printfM_def bnd_def modify_def ret_def sum.case prod.case simp_thms)
qed

text \<open>The token behind the field name ends at the first colon of the value.\<close>

lemma name_token:
  assumes "line_ok k (TAB # x)"
  obtains sv r where "strtok_r (CHR '':'') (length k + 1) (k @ NUL # (TAB # x) @ NL # NUL # post) =
    (Some (length k + 1), sv, k @ NUL # (TAB # takeWhile (\<lambda>c. c \<noteq> CHR '':'') x) @ r)"
    "\<exists>sp r'. (\<forall>c \<in> set sp. isspace c) \<and> NUL \<notin> set sp \<and> r = sp @ NUL # r'"
proof (cases "CHR '':'' \<in> set x")
  case False
  have tab: "CHR '':'' \<notin> set (TAB # x)" using False by (simp add: TAB_def)
  have tw: "takeWhile (\<lambda>c. c \<noteq> CHR '':'') x = x" using False by (intro takeWhile_all) auto
  have "isspace NL" by code_simp
  then have "\<exists>sp r'. (\<forall>c \<in> set sp. isspace c) \<and> NUL \<notin> set sp \<and> NL # NUL # post = sp @ NUL # r'"
    by (intro exI [of _ "[NL]"] exI [of _ post]) simp
  then show ?thesis
    by (rule that [of "length k + length (TAB # x) + 2", rotated]) (subst tw, rule value_token [OF assms tab])
next
  case True
  let ?t = "takeWhile (\<lambda>c. c \<noteq> CHR '':'') x"
  obtain ys r where ys: "x = ys @ CHR '':'' # r" "CHR '':'' \<notin> set ys" using split_list_first [OF True] by blast
  have "?t = ys" unfolding ys(1) using ys(2) by (intro takeWhile_app_stop) auto
  then have x: "x = ?t @ CHR '':'' # r" using ys(1) by simp
  have "NUL \<notin> set (TAB # ?t @ CHR '':'' # r)" using assms x by (simp add: line_ok_def)
  then have nul: "NUL \<notin> set (TAB # ?t)" "NUL \<notin> set (r @ [NL])" "CHR '':'' \<notin> set (TAB # ?t)"
    by (auto simp: TAB_def dest: set_takeWhileD)
  have "strtok_r (CHR '':'') (length k + 1) (k @ NUL # (TAB # ?t) @ CHR '':'' # (r @ [NL]) @ NUL # post) =
      (Some (length k + 1), length k + 1 + length (TAB # ?t) + 1, k @ NUL # (TAB # ?t) @ NUL # (r @ [NL]) @ NUL # post)"
    using strtok_found [of "k @ [NUL]" "length k + 1" "[]" "CHR '':''" "TAB # ?t" "r @ [NL]" post] nul by simp
  moreover have "k @ NUL # (TAB # x) @ NL # NUL # post = k @ NUL # (TAB # ?t) @ CHR '':'' # (r @ [NL]) @ NUL # post"
    by (subst x) simp
  ultimately have tok: "strtok_r (CHR '':'') (length k + 1) (k @ NUL # (TAB # x) @ NL # NUL # post) =
      (Some (length k + 1), length k + 1 + length (TAB # ?t) + 1, k @ NUL # (TAB # ?t) @ NUL # (r @ [NL]) @ NUL # post)" by (simp only:)
  show ?thesis by (rule that [OF tok]) (rule exI [of _ "[]"], simp)
qed

lemma strip_spaces: "\<forall>c \<in> set sp. isspace c \<Longrightarrow> strip (x @ sp) = strip x"
  using dropWhile_append2 [of "rev sp" isspace "rev x"] by (simp add: strip_def)

lemma tree_name_line:
  fixes s :: "'a proc_io_scheme"
  assumes ok: "line_ok ''Name'' (TAB # x)"
  shows "\<exists>sc'. tree_name (at_field ''Name'' (TAB # x) post sc) s =
    (Inr (True, sc'), printf_stdout (''Name: '' @ strip (takeWhile (\<lambda>c. c \<noteq> CHR '':'') (TAB # x)) @ [NL]) s)"
proof -
  let ?t = "takeWhile (\<lambda>c. c \<noteq> CHR '':'') x"
  obtain sv r where tok: "strtok_r (CHR '':'') (length ''Name'' + 1) (''Name'' @ NUL # (TAB # x) @ NL # NUL # post) =
      (Some (length ''Name'' + 1), sv, ''Name'' @ NUL # (TAB # ?t) @ r)"
    and r: "\<exists>sp r'. (\<forall>c \<in> set sp. isspace c) \<and> NUL \<notin> set sp \<and> r = sp @ NUL # r'" by (rule name_token [OF ok])
  then obtain sp r' where sp: "\<forall>c \<in> set sp. isspace c" "NUL \<notin> set sp" "r = sp @ NUL # r'" by blast
  have nul: "NUL \<notin> set ((TAB # ?t) @ sp)" using ok sp(2) by (auto simp: line_ok_def dest: set_takeWhileD)
  obtain b where tr: "trim (length ''Name'' + 1) ((''Name'' @ [NUL]) @ ((TAB # ?t) @ sp) @ NUL # r') = Some b"
    "c_str b (length ''Name'' + 1) = strip ((TAB # ?t) @ sp)"
    by (rule trim_token [of "''Name'' @ [NUL]" "length ''Name'' + 1", OF _ _ nul, of r']) auto
  let ?sc = "sc\<lparr>sc_token := length ''Name'' + 1, sc_save := sv, sc_line := b\<rparr>"
  have colon: "takeWhile (\<lambda>c. c \<noteq> CHR '':'') (TAB # x) = TAB # ?t" by (simp add: TAB_def)
  have t: "token_str ?sc = strip (takeWhile (\<lambda>c. c \<noteq> CHR '':'') (TAB # x))"
    unfolding colon using tr(2) strip_spaces [OF sp(1), of "TAB # ?t"] by (simp add: token_str_def)
  have at: "at_field ''Name'' (TAB # x) post sc = sc\<lparr>sc_token := 0, sc_save := length ''Name'' + 1, sc_line := ''Name'' @ NUL # (TAB # x) @ NL # NUL # post\<rparr>"
    by (simp add: at_field_def)
  have name: "c_str (''Name'' @ NUL # (TAB # x) @ NL # NUL # post) 0 = ''Name''" by (rule c_str_start) (simp add: NUL_def)
  have "tree_name (at_field ''Name'' (TAB # x) post sc) = bnd (printfM (''Name: '' @ token_str ?sc @ [NL])) (\<lambda>_. ret (True, ?sc))"
    using tok tr(1) name sp(3) by (simp add: tree_name_def field_def at with_trim_def)
  then have "tree_name (at_field ''Name'' (TAB # x) post sc) s =
      bnd (printfM (''Name: '' @ token_str ?sc @ [NL])) (\<lambda>_. ret (True, ?sc)) s" by (rule fun_cong)
  also have "\<dots> = (Inr (True, ?sc), printf_stdout (''Name: '' @ token_str ?sc @ [NL]) s)"
    by (simp only: prog_simps printfM_def sum.case prod.case simp_thms)
  finally show ?thesis unfolding t by blast
qed

lemma tree_line_output:
  fixes s :: "'a proc_io_scheme"
  assumes "tree_ok k v"
  shows "\<exists>sc' s'. tree_line (sc\<lparr>sc_line := k @ CHR '':'' # v @ NL # NUL # post\<rparr>) s = (Inr sc', s') \<and> stdout_buf s' = stdout_buf s @ tree_output k v"
proof -
  have ok: "line_ok k v" using assms by (simp add: tree_ok_def)
  note fs = at_field_str [OF ok, of post sc]
  note num = plain_chars(5,6) [of p for p]
  have nn: "show_int p \<noteq> ''PPid''" "show_int p \<noteq> ''Name''" for p using num [of p] by auto
  consider p where "k = ''Pid''" "v = TAB # show_int p" "0 \<le> p" "p \<le> INT_MAX" | p where "k = ''PPid''" "v = TAB # show_int p" "0 \<le> p" "p \<le> INT_MAX"
    | x where "k = ''Name''" "v = TAB # x" | "k \<notin> {''Pid'', ''PPid'', ''Name''}" using assms unfolding tree_ok_def by blast
  then show ?thesis
  proof cases
    case 1
    obtain sc' where "token_str sc' = show_int p" "tree_num ''Pid'' ''pid'' (at_field k v post sc) s = (Inr (True, sc'), printf_stdout (k @ '': string '' @ strip v @ '' or integer '' @ strip v @ [NL]) (s\<lparr>errno := 0\<rparr>))"
      using tree_num_line [OF ok 1(2-4), of "''pid''" post sc s] 1(1) by auto
    with 1(1) nn [of p] show ?thesis unfolding tree_line_field [OF ok]
      by (simp add: prog_simps tree_num_skip tree_name_skip tree_output_def)
  next
    case 2
    obtain sc' where "token_str sc' = show_int p" "tree_num ''PPid'' ''ppid'' (at_field k v post sc) s = (Inr (True, sc'), printf_stdout (k @ '': string '' @ strip v @ '' or integer '' @ strip v @ [NL]) (s\<lparr>errno := 0\<rparr>))"
      using tree_num_line [OF ok 2(2-4), of "''ppid''" post sc s] 2(1) by auto
    with 2(1) nn [of p] fs show ?thesis unfolding tree_line_field [OF ok]
      by (simp add: prog_simps tree_num_skip tree_name_skip tree_output_def)
  next
    case 3
    from tree_name_line [of x post sc s] ok 3 obtain sc' where "tree_name (at_field k v post sc) s =
      (Inr (True, sc'), printf_stdout (''Name: '' @ strip (takeWhile (\<lambda>c. c \<noteq> CHR '':'') v) @ [NL]) s)" by auto
    with 3(1) fs show ?thesis unfolding tree_line_field [OF ok]
      by (simp add: prog_simps tree_num_skip tree_output_def)
  next
    case 4
    with fs show ?thesis unfolding tree_line_field [OF ok]
      by (simp add: prog_simps tree_num_skip tree_name_skip tree_output_def)
  qed
qed

lemma tree_loop_output:
  assumes "\<forall>(k, v) \<in> set kvs. tree_ok k v"
  shows "\<exists>s'. tree_loop (status_text kvs) sc s = (Inr (), s') \<and> stdout_buf s' = stdout_buf s @ concat (map (\<lambda>(k, v). tree_output k v) kvs)"
  using assms
proof (induction kvs arbitrary: sc s)
  case Nil
  show ?case by (subst tree_loop.simps) (simp add: status_text_def fgets_def)
next
  case (Cons kv kvs)
  obtain k v where kv: "kv = (k, v)" by (cases kv)
  with Cons.prems have ok: "tree_ok k v" by simp
  then have "line_ok k v" by (simp add: tree_ok_def)
  from fgets_line [OF this, of "status_text kvs" "sc_line sc"] obtain post where
    f: "fgets (status_text (kv # kvs)) (sc_line sc) = Some (k @ CHR '':'' # v @ NL # NUL # post, status_text kvs)" by (auto simp: kv status_text_def)
  from tree_line_output [OF ok, where sc = sc and post = post and s = s] obtain sc1 s1 where
    1: "tree_line (sc\<lparr>sc_line := k @ CHR '':'' # v @ NL # NUL # post\<rparr>) s = (Inr sc1, s1)" "stdout_buf s1 = stdout_buf s @ tree_output k v" by blast
  from Cons.IH [of sc1 s1] Cons.prems obtain s' where
    "tree_loop (status_text kvs) sc1 s1 = (Inr (), s')" "stdout_buf s' = stdout_buf s1 @ concat (map (\<lambda>(k, v). tree_output k v) kvs)" by auto
  with f 1 show ?case by (subst tree_loop.simps) (simp add: kv prog_simps)
qed

text \<open>C31. For every status file of lines that fit the array (as the kernel writes them: a tab before each value, numbers in the
  fields of process IDs), the tree program prints the name and the process IDs of the process and of its parent, in the
  order of the lines, and nothing else: here the values are printed while the array still holds them. The
  process IDs are printed as they are in the file; the name only up to its first colon, so that a
  kernel thread \<^verbatim>\<open>kworker/0:1\<close> is shown as \<^verbatim>\<open>kworker/0\<close>.\<close>

theorem tree_prints_status:
  assumes "fs_file P path = Inr (status_text kvs)" "\<forall>(k, v) \<in> set kvs. tree_ok k v" "fs_fclose P path = None"
  shows "\<exists>s'. tree_readfdata P sr getpid junk path s = (Inr (), s') \<and>
    stdout_buf s' = stdout_buf s @ concat (map (\<lambda>(k, v). tree_output k v) kvs) @ ''Child Pid: '' @ show_int getpid @ [NL]"
proof -
  from tree_loop_output [OF assms(2), of "\<lparr>sc_line = junk, sc_token = 0, sc_save = 0, sc_pid = - 1, sc_name = None, sc_uid = - 1\<rparr>" s] assms(1,3)
  show ?thesis by (auto simp: tree_readfdata_def prog_simps printfM_def)
qed

definition tree_example :: "(string \<times> string) list" where
  "tree_example = [(''Name'', TAB # ''kworker/0:1''), (''Umask'', TAB # ''0022''), (''Pid'', TAB # show_int 17), (''PPid'', TAB # show_int 1)]"

theorem tree_prints_status_witness:
  "\<exists>s'. tree_readfdata (status_example\<lparr>fs_file := \<lambda>_. Inr (status_text tree_example)\<rparr>) (\<lambda>_. []) 99 [] ''/proc/17/status'' status_start = (Inr (), s') \<and>
    stdout_buf s' = ''Name: kworker/0'' @ [NL] @ ''Pid: string 17 or integer 17'' @ [NL] @ ''PPid: string 1 or integer 1'' @ [NL] @ ''Child Pid: 99'' @ [NL]"
proof -
  have l: "line_ok ''Name'' (TAB # ''kworker/0:1'')" "line_ok ''Umask'' (TAB # ''0022'')" "line_ok ''Pid'' (TAB # show_int 17)" "line_ok ''PPid'' (TAB # show_int 1)" by code_simp+
  have "0 \<le> (17 :: int) \<and> (17 :: int) \<le> INT_MAX" "0 \<le> (1 :: int) \<and> (1 :: int) \<le> INT_MAX" by (simp_all add: const_defs)
  with l have ok: "\<forall>(k, v) \<in> set tree_example. tree_ok k v" unfolding tree_example_def tree_ok_def by (simp, blast)
  have out: "concat (map (\<lambda>(k, v). tree_output k v) tree_example) @ ''Child Pid: '' @ show_int 99 @ [NL] =
    ''Name: kworker/0'' @ [NL] @ ''Pid: string 17 or integer 17'' @ [NL] @ ''PPid: string 1 or integer 1'' @ [NL] @ ''Child Pid: 99'' @ [NL]" by code_simp
  from tree_prints_status [of "status_example\<lparr>fs_file := \<lambda>_. Inr (status_text tree_example)\<rparr>" _ tree_example "\<lambda>_. []" 99 "[]" status_start, OF _ ok]
  show ?thesis unfolding out by (simp add: status_example_def status_start_def)
qed

end
