(* ===== verification/Chiflag.thy ===== *)
theory Chiflag
  imports Capabilities
begin

text \<open>
  \<^verbatim>\<open>tlpi-book/files/chiflag.c\<close>: changing the inode flags of files. The first argument is an operator and a string of attribute
  letters, the others are files. The flags are a 32-bit word. The calls \<^verbatim>\<open>open\<close>, \<^verbatim>\<open>ioctl\<close> and \<^verbatim>\<open>close\<close> are arguments; what the program does
  to the files is stated for a kernel that keeps a table of flags and of open files.
\<close>

section \<open>The program\<close>

definition FS_SECRM_FL :: "32 word" where [const_defs]: "FS_SECRM_FL = 0x00000001"
definition FS_UNRM_FL :: "32 word" where [const_defs]: "FS_UNRM_FL = 0x00000002"
definition FS_COMPR_FL :: "32 word" where [const_defs]: "FS_COMPR_FL = 0x00000004"
definition FS_SYNC_FL :: "32 word" where [const_defs]: "FS_SYNC_FL = 0x00000008"
definition FS_IMMUTABLE_FL :: "32 word" where [const_defs]: "FS_IMMUTABLE_FL = 0x00000010"
definition FS_APPEND_FL :: "32 word" where [const_defs]: "FS_APPEND_FL = 0x00000020"
definition FS_NODUMP_FL :: "32 word" where [const_defs]: "FS_NODUMP_FL = 0x00000040"
definition FS_NOATIME_FL :: "32 word" where [const_defs]: "FS_NOATIME_FL = 0x00000080"
definition FS_JOURNAL_DATA_FL :: "32 word" where [const_defs]: "FS_JOURNAL_DATA_FL = 0x00004000"
definition FS_NOTAIL_FL :: "32 word" where [const_defs]: "FS_NOTAIL_FL = 0x00008000"
definition FS_DIRSYNC_FL :: "32 word" where [const_defs]: "FS_DIRSYNC_FL = 0x00010000"
definition FS_TOPDIR_FL :: "32 word" where [const_defs]: "FS_TOPDIR_FL = 0x00020000"

definition fpe :: "string \<Rightarrow> string" where
  "fpe str = ''    '' @ str @ [NL]"

definition usageError :: "string \<Rightarrow> ('a proc_io_scheme, 'b) prog" where
  "usageError progName = bnd (modify (fputs_stderr (
     ''Usage: '' @ progName @ '' {+-=}{attrib-chars} file...'' @ [NL, NL] @
     fpe (''+ add attribute; - remove attribute; = set attributes absolutely'' @ [NL]) @
     fpe (CHR 0x27 # ''attrib-chars'' @ CHR 0x27 # '' contains one or more of:'') @
     fpe ''    a   Force open() to include O_APPEND (privilege required)'' @
     fpe ''    A   Do not update last access time'' @
     fpe ''    c   Compress (requires e2compr package)'' @
     fpe ''    d   Do not backup with dump(8)'' @
     fpe ''    D   Synchronous directory updates'' @
     fpe ''    i   Immutable (privilege required)'' @
     fpe ''    j   Enable ext3/ext4 data journaling'' @
     fpe ''    s   Secure deletion (not implemented)'' @
     fpe ''    S   Synchronous file updates'' @
     fpe ''    t   Disable tail-packing (Reiserfs only)'' @
     fpe ''    T   Mark as top-level directory for Orlov algorithm'' @
     fpe ''    u   Undelete (not implemented)''))) (\<lambda>_. exit3 EXIT_FAILURE)"

definition attr_flag :: "char \<Rightarrow> 32 word option" where
  "attr_flag c =
     (if c = CHR ''a'' then Some FS_APPEND_FL
      else if c = CHR ''A'' then Some FS_NOATIME_FL
      else if c = CHR ''c'' then Some FS_COMPR_FL
      else if c = CHR ''d'' then Some FS_NODUMP_FL
      else if c = CHR ''D'' then Some FS_DIRSYNC_FL
      else if c = CHR ''i'' then Some FS_IMMUTABLE_FL
      else if c = CHR ''j'' then Some FS_JOURNAL_DATA_FL
      else if c = CHR ''s'' then Some FS_SECRM_FL
      else if c = CHR ''S'' then Some FS_SYNC_FL
      else if c = CHR ''t'' then Some FS_NOTAIL_FL
      else if c = CHR ''T'' then Some FS_TOPDIR_FL
      else if c = CHR ''u'' then Some FS_UNRM_FL
      else None)"

fun attr_mask :: "string \<Rightarrow> 32 word \<Rightarrow> 32 word option" where
  "attr_mask [] attr = Some attr"
| "attr_mask (c # cs) attr = (case attr_flag c of None \<Rightarrow> None | Some f \<Rightarrow> attr_mask cs (attr OR f))"

record 'k chi_os =
  c_open :: "string \<Rightarrow> 'k \<Rightarrow> (int + int) \<times> 'k"
  c_getflags :: "int \<Rightarrow> 'k \<Rightarrow> (int + 32 word) \<times> 'k"
  c_setflags :: "int \<Rightarrow> 32 word \<Rightarrow> 'k \<Rightarrow> int option \<times> 'k"
  c_close :: "int \<Rightarrow> 'k \<Rightarrow> int option \<times> 'k"

text \<open>One file. The variable \<open>attr\<close> is computed from the command line before the first file, and changed here.\<close>

definition chi_file :: "'k chi_os \<Rightarrow> (int \<Rightarrow> string) \<Rightarrow> char \<Rightarrow> string \<Rightarrow> 32 word \<Rightarrow> ('k kproc, 32 word) prog" where
  "chi_file C sr oper path attr =
     bnd (kget (c_open C path)) (\<lambda>r. case r of
       None \<Rightarrow> bnd (modify (errMsg sr (''open: '' @ path))) (\<lambda>_. ret attr)
     | Some fd \<Rightarrow>
         bnd (if oper = CHR ''+'' \<or> oper = CHR ''-''
              then bnd (kget (c_getflags C fd)) (\<lambda>r. case r of
                None \<Rightarrow> errExit sr (''ioctl1: '' @ path)
              | Some oldAttr \<Rightarrow> ret (if oper = CHR ''-'' then oldAttr AND NOT attr else oldAttr OR attr))
              else ret attr) (\<lambda>attr.
         bnd (kcall (c_setflags C fd attr)) (\<lambda>ok. if \<not> ok then errExit sr (''ioctl2: '' @ path) else
         bnd (kcall (c_close C fd)) (\<lambda>ok. if \<not> ok then errExit sr ''close'' else ret attr))))"

primrec chi_files :: "'k chi_os \<Rightarrow> (int \<Rightarrow> string) \<Rightarrow> char \<Rightarrow> string list \<Rightarrow> 32 word \<Rightarrow> ('k kproc, unit) prog" where
  "chi_files C sr oper [] attr = ret ()"
| "chi_files C sr oper (p # ps) attr = bnd (chi_file C sr oper p attr) (chi_files C sr oper ps)"

text \<open>\<^verbatim>\<open>strchr\<close> finds the terminator too, so an empty first argument passes the test, and the loop then reads behind it.\<close>

definition chi_main :: "'k chi_os \<Rightarrow> (int \<Rightarrow> string) \<Rightarrow> string \<Rightarrow> string list \<Rightarrow> ('k kproc, unit) prog" where
  "chi_main C sr argv0 args = (case args of
      what # p # ps \<Rightarrow>
        (case what of
           [] \<Rightarrow> stop Undef
         | oper # letters \<Rightarrow>
             if oper \<notin> set ''+-='' \<or> what = ''--help'' then usageError argv0
             else (case attr_mask letters 0 of
                None \<Rightarrow> usageError argv0
              | Some attr \<Rightarrow> bnd (chi_files C sr oper (p # ps) attr) (\<lambda>_. exit3 EXIT_SUCCESS)))
    | _ \<Rightarrow> usageError argv0)"

section \<open>A kernel with a table of flags\<close>

record inode_fs =
  fs_flags :: "string \<Rightarrow> 32 word option"
  fs_open :: "string option"

text \<open>The program has at most one file open at a time, as descriptor 3.\<close>

definition fs_os :: "inode_fs chi_os" where
  "fs_os = \<lparr>c_open = (\<lambda>p k. if fs_flags k p = None \<or> fs_open k \<noteq> None then (Inl ENOENT, k) else (Inr 3, k\<lparr>fs_open := Some p\<rparr>)),
     c_getflags = (\<lambda>fd k. case fs_open k of Some p \<Rightarrow> (case fs_flags k p of Some a \<Rightarrow> (Inr a, k) | None \<Rightarrow> (Inl EBADF, k)) | None \<Rightarrow> (Inl EBADF, k)),
     c_setflags = (\<lambda>fd a k. case fs_open k of Some p \<Rightarrow> (None, k\<lparr>fs_flags := (fs_flags k)(p \<mapsto> a)\<rparr>) | None \<Rightarrow> (Some EBADF, k)),
     c_close = (\<lambda>fd k. (None, k\<lparr>fs_open := None\<rparr>))\<rparr>"

text \<open>What the operators are documented to do to the flags of a file.\<close>

definition chi_spec :: "char \<Rightarrow> 32 word \<Rightarrow> 32 word \<Rightarrow> 32 word" where
  "chi_spec oper m old = (if oper = CHR ''-'' then old AND NOT m else if oper = CHR ''+'' then old OR m else m)"

lemma chi_file_result:
  assumes "fs_open (ker s) = None" "oper \<in> set ''+-=''"
  shows "\<exists>s'. chi_file fs_os sr oper p attr s = (Inr (case fs_flags (ker s) p of None \<Rightarrow> attr | Some old \<Rightarrow> chi_spec oper attr old), s') \<and> fs_open (ker s') = None \<and>
    fs_flags (ker s') = (case fs_flags (ker s) p of None \<Rightarrow> fs_flags (ker s) | Some old \<Rightarrow> (fs_flags (ker s))(p \<mapsto> chi_spec oper attr old))"
proof (cases "fs_flags (ker s) p")
  case None
  with assms(1) show ?thesis by (simp add: chi_file_def fs_os_def kget_def prog_simps errMsg_def outputError_def Let_def)
next
  case (Some old)
  with assms show ?thesis
    by (auto simp: chi_file_def fs_os_def kget_def kcall_def prog_simps chi_spec_def)
qed

text \<open>The value of \<open>attr\<close> when a file is reached: the files before it have changed it.\<close>

primrec carried :: "char \<Rightarrow> (string \<Rightarrow> 32 word option) \<Rightarrow> 32 word \<Rightarrow> string list \<Rightarrow> 32 word" where
  "carried oper F m [] = m"
| "carried oper F m (p # ps) = carried oper F (case F p of None \<Rightarrow> m | Some old \<Rightarrow> chi_spec oper m old) ps"

lemma chi_files_result:
  assumes "fs_open (ker s) = None" "oper \<in> set ''+-=''" "distinct ps"
  shows "\<exists>s'. chi_files fs_os sr oper ps m s = (Inr (), s') \<and>
    (\<forall>i < length ps. fs_flags (ker s') (ps ! i) = map_option (chi_spec oper (carried oper (fs_flags (ker s)) m (take i ps))) (fs_flags (ker s) (ps ! i))) \<and>
    (\<forall>p. p \<notin> set ps \<longrightarrow> fs_flags (ker s') p = fs_flags (ker s) p)"
  using assms
proof (induction ps arbitrary: s m)
  case Nil
  then show ?case by simp
next
  case (Cons p ps)
  let ?m = "case fs_flags (ker s) p of None \<Rightarrow> m | Some old \<Rightarrow> chi_spec oper m old"
  from chi_file_result [OF Cons.prems(1,2), of sr p m] obtain s1 where
    1: "chi_file fs_os sr oper p m s = (Inr ?m, s1)" "fs_open (ker s1) = None"
    and f1: "fs_flags (ker s1) = (case fs_flags (ker s) p of None \<Rightarrow> fs_flags (ker s) | Some old \<Rightarrow> (fs_flags (ker s))(p \<mapsto> chi_spec oper m old))" by blast
  have other: "fs_flags (ker s1) q = fs_flags (ker s) q" if "q \<noteq> p" for q using that by (simp add: f1 split: option.split)
  have same: "fs_flags (ker s1) p = map_option (chi_spec oper m) (fs_flags (ker s) p)" by (simp add: f1 split: option.split)
  from Cons.IH [OF 1(2) Cons.prems(2), of ?m] Cons.prems(3) obtain s' where
    2: "chi_files fs_os sr oper ps ?m s1 = (Inr (), s')"
    and i: "\<forall>i < length ps. fs_flags (ker s') (ps ! i) = map_option (chi_spec oper (carried oper (fs_flags (ker s1)) ?m (take i ps))) (fs_flags (ker s1) (ps ! i))"
    and o: "\<forall>q. q \<notin> set ps \<longrightarrow> fs_flags (ker s') q = fs_flags (ker s1) q" by auto
  have car: "p \<notin> set qs \<Longrightarrow> carried oper (fs_flags (ker s1)) x qs = carried oper (fs_flags (ker s)) x qs" for qs x
    by (induction qs arbitrary: x) (auto simp: other)
  have "fs_flags (ker s') ((p # ps) ! i) = map_option (chi_spec oper (carried oper (fs_flags (ker s)) m (take i (p # ps)))) (fs_flags (ker s) ((p # ps) ! i))"
    if "i < length (p # ps)" for i
  proof (cases i)
    case 0
    with o same Cons.prems(3) show ?thesis by simp
  next
    case (Suc j)
    with that have j: "j < length ps" by simp
    with Cons.prems(3) have "ps ! j \<noteq> p" "p \<notin> set (take j ps)" using nth_mem [OF j] by (auto dest: in_set_takeD)
    with i j Suc show ?thesis by (simp add: other car)
  qed
  moreover have "fs_flags (ker s') q = fs_flags (ker s) q" if "q \<notin> set (p # ps)" for q using o other that by simp
  ultimately show ?case using 1(1) 2 by (simp add: prog_simps)
qed

text \<open>What is carried: with \<^verbatim>\<open>+\<close> the flags of the files before are added; with \<^verbatim>\<open>-\<close> the flags asked for are no longer
  in it after one file.\<close>

lemma carried_set: "carried (CHR ''='') F m ps = m"
  by (induction ps arbitrary: m) (auto simp: chi_spec_def split: option.split)

lemma carried_plus_mono: "(x :: 32 word) OR m = m \<Longrightarrow> x OR carried (CHR ''+'') F m ps = carried (CHR ''+'') F m ps"
proof (induction ps arbitrary: m)
  case (Cons p ps)
  have "x OR (old OR m) = old OR m" for old :: "32 word" using Cons.prems by (metis or.left_commute)
  with Cons show ?case by (simp add: chi_spec_def split: option.split)
qed simp

lemma carried_plus: "F p = Some a \<Longrightarrow> p \<in> set ps \<Longrightarrow> a OR carried (CHR ''+'') F m ps = carried (CHR ''+'') F m ps"
  by (induction ps arbitrary: m) (auto simp: chi_spec_def simp flip: or.assoc intro: carried_plus_mono)

lemma kept_flags: "(b AND NOT (a AND NOT m)) AND m = b AND (m :: 32 word)"
  by (rule bit_word_eqI) (auto simp: bit_simps)

lemma attr_mask_letter: "attr_mask ''-help'' m = None"
  by (simp add: attr_flag_def)

text \<open>What \<^verbatim>\<open>chiflag\<close> does to the files of its command line. The first file is changed as documented, and with \<^verbatim>\<open>=\<close> all are. But the
  flags of one file are carried over to the next: with \<^verbatim>\<open>+\<close> every file also gets all flags of the files before it, and
  with \<^verbatim>\<open>-\<close> the second file keeps exactly those flags that were to be removed.\<close>

theorem chiflag_attributes:
  assumes "fs_open (ker s) = None" "oper \<in> set ''+-=''" "attr_mask letters 0 = Some m" "distinct files" "files \<noteq> []"
  shows "\<exists>s'. chi_main fs_os sr argv0 ((oper # letters) # files) s = (Inl (Exit EXIT_SUCCESS), s') \<and>
    (\<forall>p. p \<notin> set files \<longrightarrow> fs_flags (ker s') p = fs_flags (ker s) p) \<and>
    fs_flags (ker s') (hd files) = map_option (chi_spec oper m) (fs_flags (ker s) (hd files)) \<and>
    (oper = CHR ''='' \<longrightarrow> (\<forall>p \<in> set files. fs_flags (ker s') p = map_option (\<lambda>_. m) (fs_flags (ker s) p))) \<and>
    (oper = CHR ''+'' \<longrightarrow> (\<forall>i < length files. \<forall>j \<le> i. \<forall>a b. fs_flags (ker s) (files ! j) = Some a \<longrightarrow> fs_flags (ker s') (files ! i) = Some b \<longrightarrow> a OR b = b)) \<and>
    (oper = CHR ''-'' \<longrightarrow> (\<forall>p q ps a b. files = p # q # ps \<longrightarrow> fs_flags (ker s) p = Some a \<longrightarrow> fs_flags (ker s) q = Some b \<longrightarrow>
       (\<exists>c. fs_flags (ker s') q = Some c \<and> c AND m = b AND m)))"
proof -
  obtain p ps where fs: "files = p # ps" using assms(5) by (cases files) auto
  have nohelp: "oper # letters \<noteq> ''--help''" using assms(3) attr_mask_letter [of 0] by auto
  obtain s1 where run: "chi_files fs_os sr oper files m s = (Inr (), s1)"
    and fl: "\<And>i. i < length files \<Longrightarrow> fs_flags (ker s1) (files ! i) = map_option (chi_spec oper (carried oper (fs_flags (ker s)) m (take i files))) (fs_flags (ker s) (files ! i))"
    and other: "\<forall>p. p \<notin> set files \<longrightarrow> fs_flags (ker s1) p = fs_flags (ker s) p"
    using chi_files_result [OF assms(1,2,4), of sr m] by blast
  have main: "chi_main fs_os sr argv0 ((oper # letters) # files) s = (Inl (Exit EXIT_SUCCESS), fflush_stdout s1)"
    using run nohelp assms(2,3) unfolding chi_main_def fs by (auto simp: prog_simps exit3_def)
  have first: "fs_flags (ker s1) (hd files) = map_option (chi_spec oper m) (fs_flags (ker s) (hd files))"
    using fl [of 0] by (simp add: fs)
  have eq: "fs_flags (ker s1) p = map_option (\<lambda>_. m) (fs_flags (ker s) p)" if "oper = CHR ''=''" "p \<in> set files" for p
  proof -
    from that(2) obtain i where "i < length files" "p = files ! i" by (auto simp: in_set_conv_nth)
    with fl [of i] that(1) show ?thesis by (cases "fs_flags (ker s) p") (auto simp: carried_set chi_spec_def)
  qed
  have plus: "a OR b = b" if "oper = CHR ''+''" "i < length files" "j \<le> i" "fs_flags (ker s) (files ! j) = Some a" "fs_flags (ker s1) (files ! i) = Some b" for i j a b
  proof (cases "j = i")
    case True
    with that fl [of i] show ?thesis by (auto simp: chi_spec_def simp flip: or.assoc)
  next
    case False
    with that(2,3) have "files ! j \<in> set (take i files)" by (auto simp: in_set_conv_nth intro!: exI [of _ j])
    from carried_plus [of "fs_flags (ker s)", OF that(4) this, of m] that fl [of i] show ?thesis by (auto simp: chi_spec_def or.left_commute)
  qed
  have minus: "\<exists>c. fs_flags (ker s1) r = Some c \<and> c AND m = b AND m"
    if "oper = CHR ''-''" "files = q # r # rs" "fs_flags (ker s) q = Some a" "fs_flags (ker s) r = Some b" for q r rs a b
    using that fl [of 1] kept_flags by (simp add: chi_spec_def)
  show ?thesis
    by (intro exI [of _ "fflush_stdout s1"] conjI main impI allI ballI) (use first other eq plus minus in \<open>auto simp del: hd_in_set\<close>)
qed

definition chi_state :: "inode_fs kproc" where
  "chi_state = \<lparr>stdout_buf = [], stdout_out = [], stderr_out = [], errno = 0, ef_dumpcore = None, stdio_errno = None,
     ker = \<lparr>fs_flags = [''a'' \<mapsto> FS_IMMUTABLE_FL, ''b'' \<mapsto> FS_NODUMP_FL], fs_open = None\<rparr>\<rparr>"

theorem chiflag_attributes_witness:
  "\<exists>s'. chi_main fs_os (\<lambda>_. []) ''chiflag'' [''-d'', ''a'', ''b''] chi_state = (Inl (Exit EXIT_SUCCESS), s') \<and>
     (\<exists>c. fs_flags (ker s') ''b'' = Some c \<and> c AND FS_NODUMP_FL = FS_NODUMP_FL)"
proof -
  have m: "attr_mask ''d'' 0 = Some FS_NODUMP_FL" by (simp add: attr_flag_def)
  from chiflag_attributes [of chi_state "CHR ''-''" "''d''" FS_NODUMP_FL "[''a'', ''b'']" "\<lambda>_. []" "''chiflag''", OF _ _ m]
  show ?thesis by (auto simp: chi_state_def)
qed

end
