(* ===== verification/Once.thy ===== *)
theory Once
  imports Runs CLib
begin

text \<open>
  \<^verbatim>\<open>tlpi-book/threads/one_time_init.c\<close>: an equivalent of \<^verbatim>\<open>pthread_once\<close> with a mutex and a flag, and its test: two threads that call it
  twice each. Every access to the flag and every call is a step of its own, and the steps of the threads interleave
  in any way. The mutex functions report an error by a positive number; the code tests for -1, so a failing call goes unnoticed
  and the function goes on without the mutex. A failing \<^verbatim>\<open>pthread_create\<close> or \<^verbatim>\<open>pthread_join\<close> ends the process.
\<close>

section \<open>Model\<close>

text \<open>Where a thread is in \<^verbatim>\<open>one_time_init\<close>, and how many calls of it are left, the current one included.\<close>

datatype opc = OFresh | OLock | OTest | OInit | OSet | OUnlock | OReturned

record othread =
  o_pc :: opc
  o_left :: nat

datatype main_pc = MkThread nat | JoinThread nat | MainExit int

text \<open>\<^verbatim>\<open>once_struct\<close> (its mutex by the thread that holds it), the output, the threads and the main thread.\<close>

record once_st =
  on_mtx :: "nat option"
  on_called :: bool
  on_out :: "string list"
  on_thr :: "othread list"
  on_main :: main_pc

definition init_msg :: string where "init_msg = ''Called init_func()''"

definition join_msgs :: "string list" where "join_msgs = [''First thread returned'', ''Second thread returned'']"

definition at_pc :: "nat \<Rightarrow> opc \<Rightarrow> once_st \<Rightarrow> once_st" where
  "at_pc i p s = s\<lparr>on_thr := (on_thr s)[i := (on_thr s ! i)\<lparr>o_pc := p\<rparr>]\<rparr>"

text \<open>The end of a call: the next call of \<^verbatim>\<open>threadFunc\<close>, or its return.\<close>

definition call_done :: "nat \<Rightarrow> once_st \<Rightarrow> once_st" where
  "call_done i s = (let l = o_left (on_thr s ! i) - 1 in
     s\<lparr>on_thr := (on_thr s)[i := \<lparr>o_pc = if l = 0 then OReturned else OLock, o_left = l\<rparr>]\<rparr>)"

definition one_time_init :: "nat \<Rightarrow> once_st \<Rightarrow> once_st option" where
  "one_time_init i s = (case o_pc (on_thr s ! i) of
      OFresh \<Rightarrow> None
    | OLock \<Rightarrow> if on_mtx s = None then Some (at_pc i OTest (s\<lparr>on_mtx := Some i\<rparr>)) else None
    | OTest \<Rightarrow> Some (at_pc i (if on_called s then OUnlock else OInit) s)
    | OInit \<Rightarrow> Some (at_pc i OSet (s\<lparr>on_out := on_out s @ [init_msg]\<rparr>))
    | OSet \<Rightarrow> Some (at_pc i OUnlock (s\<lparr>on_called := True\<rparr>))
    | OUnlock \<Rightarrow> Some (call_done i (if on_mtx s = Some i then s\<lparr>on_mtx := None\<rparr> else s))
    | OReturned \<Rightarrow> None)"

definition once_main :: "once_st \<Rightarrow> once_st option" where
  "once_main s = (case on_main s of
      MkThread k \<Rightarrow> Some (at_pc k OLock (s\<lparr>on_main := if k + 1 < length (on_thr s) then MkThread (k + 1) else JoinThread 0\<rparr>))
    | JoinThread k \<Rightarrow>
        if o_pc (on_thr s ! k) = OReturned
        then Some (s\<lparr>on_out := on_out s @ [join_msgs ! k],
          on_main := if k + 1 < length (on_thr s) then JoinThread (k + 1) else MainExit EXIT_SUCCESS\<rparr>)
        else None
    | MainExit _ \<Rightarrow> None)"

definition once_start :: once_st where
  "once_start = \<lparr>on_mtx = None, on_called = False, on_out = [],
     on_thr = replicate (length join_msgs) \<lparr>o_pc = OFresh, o_left = 2\<rparr>, on_main = MkThread 0\<rparr>"

fun exited :: "main_pc \<Rightarrow> bool" where
  "exited (MainExit _) = True"
| "exited _ = False"

inductive once_step :: "once_st \<Rightarrow> once_st \<Rightarrow> bool" where
  thread: "\<not> exited (on_main s) \<Longrightarrow> i < length (on_thr s) \<Longrightarrow> one_time_init i s = Some t \<Longrightarrow> once_step s t"
| main: "once_main s = Some t \<Longrightarrow> once_step s t"

text \<open>With failing calls of \<^verbatim>\<open>pthread_create\<close> and \<^verbatim>\<open>pthread_join\<close>, and, in the second relation, also of \<^verbatim>\<open>pthread_mutex_lock\<close>.\<close>

inductive once_xstep :: "once_st \<Rightarrow> once_st \<Rightarrow> bool" where
  regular: "once_step s t \<Longrightarrow> once_xstep s t"
| main_fails: "\<not> exited (on_main s) \<Longrightarrow> once_xstep s (s\<lparr>on_main := MainExit EXIT_FAILURE\<rparr>)"

inductive once_fstep :: "once_st \<Rightarrow> once_st \<Rightarrow> bool" where
  no_lock_failure: "once_xstep s t \<Longrightarrow> once_fstep s t"
| lock_fails: "\<not> exited (on_main s) \<Longrightarrow> i < length (on_thr s) \<Longrightarrow> o_pc (on_thr s ! i) = OLock \<Longrightarrow> once_fstep s (at_pc i OTest s)"

inductive_cases once_stepE: "once_step s t"
inductive_cases once_xstepE: "once_xstep s t"

section \<open>Invariant\<close>

definition critical :: "opc \<Rightarrow> bool" where
  "critical p \<longleftrightarrow> p \<in> {OTest, OInit, OSet, OUnlock}"

text \<open>What holds of a thread, by the flag and whether it holds the mutex.\<close>

definition thr_ok :: "bool \<Rightarrow> bool \<Rightarrow> othread \<Rightarrow> bool" where
  "thr_ok c holds t \<longleftrightarrow> (critical (o_pc t) \<longleftrightarrow> holds) \<and> (o_pc t \<in> {OInit, OSet} \<longrightarrow> \<not> c) \<and> (o_pc t = OUnlock \<longrightarrow> c) \<and>
     (o_left t = 0 \<longleftrightarrow> o_pc t = OReturned) \<and> o_left t \<le> 2 \<and> (o_left t < 2 \<longrightarrow> c)"

definition initialized :: "once_st \<Rightarrow> bool" where
  "initialized s \<longleftrightarrow> on_called s \<or> (\<exists>i < length (on_thr s). o_pc (on_thr s ! i) = OSet)"

fun joined :: "main_pc \<Rightarrow> nat option" where
  "joined (MkThread k) = Some 0"
| "joined (JoinThread k) = Some k"
| "joined (MainExit st) = (if st = EXIT_SUCCESS then Some 2 else None)"

definition main_ok :: "once_st \<Rightarrow> bool" where
  "main_ok s = (case on_main s of
      MkThread k \<Rightarrow> k < 2 \<and> (\<forall>i < 2. i \<ge> k \<longleftrightarrow> o_pc (on_thr s ! i) = OFresh)
    | JoinThread k \<Rightarrow> k < 2 \<and> (\<forall>i < 2. o_pc (on_thr s ! i) \<noteq> OFresh) \<and> (\<forall>i < k. o_pc (on_thr s ! i) = OReturned)
    | MainExit st \<Rightarrow> st = EXIT_SUCCESS \<longrightarrow> (\<forall>i < 2. o_pc (on_thr s ! i) = OReturned))"

definition once_inv :: "once_st \<Rightarrow> bool" where
  "once_inv s \<longleftrightarrow> length (on_thr s) = 2 \<and> (\<forall>i < 2. thr_ok (on_called s) (on_mtx s = Some i) (on_thr s ! i)) \<and> (\<forall>i. on_mtx s = Some i \<longrightarrow> i < 2) \<and>
     main_ok s \<and> (\<exists>n \<le> 2. (joined (on_main s) = Some n \<or> joined (on_main s) = None) \<and>
       on_out s = (if initialized s then [init_msg] else []) @ take n join_msgs \<and> (0 < n \<longrightarrow> on_called s))"

lemma less2: "(\<forall>i < 2. P i) \<longleftrightarrow> P 0 \<and> P (1 :: nat)" "(\<exists>i < 2. P i) \<longleftrightarrow> P 0 \<or> P (1 :: nat)"
  by (auto simp: less_2_cases_iff)

lemma once_start_inv: "once_inv once_start"
  unfolding once_inv_def
proof (intro conjI exI [of _ 0])
  show "on_out once_start = (if initialized once_start then [init_msg] else []) @ take 0 join_msgs"
    by (simp add: once_start_def initialized_def join_msgs_def All_less_Suc)
qed (simp_all add: once_start_def join_msgs_def thr_ok_def critical_def main_ok_def less2)

lemma length_join: "length join_msgs = 2"
  by (simp add: join_msgs_def)

text \<open>A step of one thread, as the others see it.\<close>

lemma thr_ok_other: "thr_ok c False t \<Longrightarrow> (c \<longrightarrow> c') \<Longrightarrow> thr_ok c' False t"
  by (auto simp: thr_ok_def critical_def)

lemma thread_shape:
  assumes "thr_ok (on_called s) (on_mtx s = Some i) (on_thr s ! i)" "one_time_init i s = Some t" "i < length (on_thr s)"
  obtains x where "on_thr t = (on_thr s)[i := x]" "thr_ok (on_called t) (on_mtx t = Some i) x" "on_mtx s = Some i \<or> on_mtx s = None" "on_mtx t = Some i \<or> on_mtx t = None"
    "on_called s \<longrightarrow> on_called t" "on_main t = on_main s" "o_pc x \<noteq> OFresh" "o_pc (on_thr s ! i) \<notin> {OFresh, OReturned}"
    "o_pc (on_thr s ! i) = OInit \<and> o_pc x = OSet \<and> on_out t = on_out s @ [init_msg] \<and> \<not> on_called s \<and> on_mtx s = Some i \<or>
     on_out t = on_out s \<and> o_pc x \<noteq> OSet \<and> (on_called t \<longleftrightarrow> on_called s \<or> o_pc (on_thr s ! i) = OSet)"
proof -
  have *: "thr_ok (on_called t) (on_mtx t = Some i) (on_thr t ! i)"
    using assms by (cases "o_pc (on_thr s ! i)") (auto simp: one_time_init_def at_pc_def call_done_def thr_ok_def critical_def Let_def split: if_splits)
  show ?thesis
  proof (rule that [of "on_thr t ! i"])
    show "on_thr t = (on_thr s)[i := on_thr t ! i]"
      using assms(2,3) by (cases "o_pc (on_thr s ! i)") (auto simp: one_time_init_def at_pc_def call_done_def Let_def split: if_splits)
    show "on_mtx s = Some i \<or> on_mtx s = None" "on_mtx t = Some i \<or> on_mtx t = None"
      using assms by (cases "o_pc (on_thr s ! i)"; auto simp: one_time_init_def at_pc_def call_done_def thr_ok_def critical_def Let_def split: if_splits)+
    show "on_called s \<longrightarrow> on_called t" "on_main t = on_main s" "o_pc (on_thr s ! i) \<notin> {OFresh, OReturned}"
      using assms(2) by (cases "o_pc (on_thr s ! i)"; auto simp: one_time_init_def at_pc_def call_done_def Let_def split: if_splits)+
    show "o_pc (on_thr t ! i) \<noteq> OFresh"
      using assms(2,3) by (cases "o_pc (on_thr s ! i)"; auto simp: one_time_init_def at_pc_def call_done_def Let_def split: if_splits)
    show "o_pc (on_thr s ! i) = OInit \<and> o_pc (on_thr t ! i) = OSet \<and> on_out t = on_out s @ [init_msg] \<and> \<not> on_called s \<and> on_mtx s = Some i \<or>
       on_out t = on_out s \<and> o_pc (on_thr t ! i) \<noteq> OSet \<and> (on_called t \<longleftrightarrow> on_called s \<or> o_pc (on_thr s ! i) = OSet)"
      using assms by (cases "o_pc (on_thr s ! i)"; auto simp: one_time_init_def at_pc_def call_done_def thr_ok_def critical_def Let_def split: if_splits)
  qed (rule *)
qed

lemma thread_inv:
  assumes inv: "once_inv s" and i: "i < length (on_thr s)" "one_time_init i s = Some t" and ne: "\<not> exited (on_main s)"
  shows "once_inv t"
proof -
  have len: "length (on_thr s) = 2" and ok: "\<And>j. j < 2 \<Longrightarrow> thr_ok (on_called s) (on_mtx s = Some j) (on_thr s ! j)" and m: "main_ok s" using inv by (auto simp: once_inv_def)
  from inv obtain n where n: "n \<le> 2" "joined (on_main s) = Some n \<or> joined (on_main s) = None"
    "on_out s = (if initialized s then [init_msg] else []) @ take n join_msgs" "0 < n \<longrightarrow> on_called s" by (auto simp: once_inv_def)
  obtain x where
    thr: "on_thr t = (on_thr s)[i := x]" and okx: "thr_ok (on_called t) (on_mtx t = Some i) x" and mtx: "on_mtx s = Some i \<or> on_mtx s = None" "on_mtx t = Some i \<or> on_mtx t = None"
    and c: "on_called s \<longrightarrow> on_called t" and mn: "on_main t = on_main s" and pc: "o_pc x \<noteq> OFresh" "o_pc (on_thr s ! i) \<notin> {OFresh, OReturned}"
    and out: "o_pc (on_thr s ! i) = OInit \<and> o_pc x = OSet \<and> on_out t = on_out s @ [init_msg] \<and> \<not> on_called s \<and> on_mtx s = Some i \<or>
     on_out t = on_out s \<and> o_pc x \<noteq> OSet \<and> (on_called t \<longleftrightarrow> on_called s \<or> o_pc (on_thr s ! i) = OSet)" by (rule thread_shape [OF ok [OF i(1) [unfolded len]] i(2,1)])
  have "thr_ok (on_called t) (on_mtx t = Some j) (on_thr t ! j)" if "j < 2" for j
  proof (cases "j = i")
    case True
    with okx thr i(1) show ?thesis by simp
  next
    case False
    with mtx ok [OF that] have "thr_ok (on_called s) False (on_thr s ! j)" by auto
    from thr_ok_other [OF this c] False mtx(2) show ?thesis by (auto simp: thr)
  qed
  moreover have "main_ok t"
  proof -
    have "o_pc (on_thr t ! j) = OFresh \<longleftrightarrow> o_pc (on_thr s ! j) = OFresh" "o_pc (on_thr s ! j) = OReturned \<longrightarrow> on_thr t ! j = on_thr s ! j" if "j < 2" for j
      using pc that i(1) by (auto simp: thr len nth_list_update)
    with m ne show ?thesis by (auto simp: main_ok_def mn split: main_pc.splits)
  qed
  moreover have "on_out t = (if initialized t then [init_msg] else []) @ take n join_msgs"
    using out
  proof
    assume a: "o_pc (on_thr s ! i) = OInit \<and> o_pc x = OSet \<and> on_out t = on_out s @ [init_msg] \<and> \<not> on_called s \<and> on_mtx s = Some i"
    have "o_pc (on_thr s ! j) \<noteq> OSet" if "j < 2" for j
      using a ok [OF that] by (cases "j = i") (auto simp: thr_ok_def critical_def)
    with a have "\<not> initialized s" by (auto simp: initialized_def len)
    moreover have "initialized t" using a i(1) by (auto simp: initialized_def thr intro: exI [of _ i])
    ultimately show ?thesis using n(3,4) a by simp
  next
    assume b: "on_out t = on_out s \<and> o_pc x \<noteq> OSet \<and> (on_called t \<longleftrightarrow> on_called s \<or> o_pc (on_thr s ! i) = OSet)"
    have "initialized t \<longleftrightarrow> initialized s"
      using b i(1) unfolding initialized_def thr by (auto simp: len less2 less_2_cases_iff)
    with b n(3) show ?thesis by simp
  qed
  moreover have "\<forall>j. on_mtx t = Some j \<longrightarrow> j < 2" using mtx(2) i(1) len by auto
  ultimately show ?thesis unfolding once_inv_def
    by (intro conjI exI [of _ n]) (use n(1,2,4) len c in \<open>simp_all add: thr mn\<close>)
qed

lemma main_inv:
  assumes inv: "once_inv s" and t: "once_main s = Some t"
  shows "once_inv t"
proof -
  have len: "length (on_thr s) = 2" and ok: "\<And>j. j < 2 \<Longrightarrow> thr_ok (on_called s) (on_mtx s = Some j) (on_thr s ! j)" and m: "main_ok s" and mt: "\<forall>i. on_mtx s = Some i \<longrightarrow> i < 2" using inv by (auto simp: once_inv_def)
  from inv obtain n where n: "n \<le> 2" "joined (on_main s) = Some n \<or> joined (on_main s) = None"
    "on_out s = (if initialized s then [init_msg] else []) @ take n join_msgs" "0 < n \<longrightarrow> on_called s" by (auto simp: once_inv_def)
  show ?thesis
  proof (cases "on_main s")
    case (MkThread k)
    with m have k: "k < 2" "\<And>i. i < 2 \<Longrightarrow> i \<ge> k \<longleftrightarrow> o_pc (on_thr s ! i) = OFresh" by (auto simp: main_ok_def)
    have tt: "t = at_pc k OLock (s\<lparr>on_main := if k + 1 < 2 then MkThread (k + 1) else JoinThread 0\<rparr>)" using t MkThread by (simp add: once_main_def len)
    have thr: "on_thr t = (on_thr s)[k := (on_thr s ! k)\<lparr>o_pc := OLock\<rparr>]" by (simp add: tt at_pc_def)
    have fresh: "o_pc (on_thr s ! k) = OFresh" using k(2) [of k] k(1) by simp
    have "thr_ok (on_called t) (on_mtx t = Some j) (on_thr t ! j)" if "j < 2" for j
      using ok [OF that] fresh k(1) by (cases "j = k") (auto simp: thr len tt at_pc_def thr_ok_def critical_def)
    moreover have "main_ok t" using k k(2) [of 0] by (auto simp: main_ok_def tt at_pc_def len nth_list_update less_2_cases_iff)
    moreover have "initialized t \<longleftrightarrow> initialized s"
      using fresh k(1) len unfolding initialized_def thr by (auto simp: tt at_pc_def less2 less_2_cases_iff)
    ultimately show ?thesis using n MkThread len mt unfolding once_inv_def by (auto simp: tt at_pc_def)
  next
    case (JoinThread k)
    with m have k: "k < 2" "\<forall>i < 2. o_pc (on_thr s ! i) \<noteq> OFresh" "\<forall>i < k. o_pc (on_thr s ! i) = OReturned" by (auto simp: main_ok_def)
    from t JoinThread have r: "o_pc (on_thr s ! k) = OReturned"
      and tt: "t = s\<lparr>on_out := on_out s @ [join_msgs ! k], on_main := if k + 1 < 2 then JoinThread (k + 1) else MainExit EXIT_SUCCESS\<rparr>"
      by (auto simp: once_main_def len split: if_splits)
    have called: "on_called s" using ok [OF k(1)] r by (auto simp: thr_ok_def)
    have nk: "n = k" using n(2) JoinThread by simp
    have "main_ok t" using k r less_Suc_eq [of _ k] by (auto simp: main_ok_def tt less_2_cases_iff)
    moreover have "on_out t = (if initialized t then [init_msg] else []) @ take (k + 1) join_msgs"
      using n(3) k(1) by (simp add: tt nk initialized_def take_Suc_conv_app_nth [of k join_msgs] length_join)
    moreover have "joined (on_main t) = Some (k + 1)" using k(1) by (auto simp: tt)
    ultimately show ?thesis using ok len mt called k(1) unfolding once_inv_def by (intro conjI exI [of _ "k + 1"]) (auto simp: tt)
  qed (use t in \<open>simp add: once_main_def\<close>)
qed

section \<open>Completion\<close>

definition thr_effort :: "othread \<Rightarrow> nat" where
  "thr_effort t = (case o_pc t of OTest \<Rightarrow> 5 * o_left t - 1 | OInit \<Rightarrow> 5 * o_left t - 2 | OSet \<Rightarrow> 5 * o_left t - 3
     | OUnlock \<Rightarrow> 5 * o_left t - 4 | _ \<Rightarrow> 5 * o_left t)"

fun main_effort :: "main_pc \<Rightarrow> nat" where
  "main_effort (MkThread k) = 5 - k"
| "main_effort (JoinThread k) = 3 - k"
| "main_effort (MainExit _) = 0"

definition once_effort :: "once_st \<Rightarrow> nat" where
  "once_effort s = main_effort (on_main s) + sum_list (map thr_effort (on_thr s))"

lemma thread_effort:
  assumes inv: "once_inv s" and i: "i < length (on_thr s)" "one_time_init i s = Some t"
  shows "once_effort t < once_effort s"
proof -
  have ok: "thr_ok (on_called s) (on_mtx s = Some i) (on_thr s ! i)" using inv i(1) by (auto simp: once_inv_def)
  from thread_shape [OF ok i(2,1)] obtain x where thr: "on_thr t = (on_thr s)[i := x]" and mn: "on_main t = on_main s" by metis
  have x: "x = on_thr t ! i" using i(1) by (simp add: thr)
  have "thr_effort x < thr_effort (on_thr s ! i)"
    unfolding x using ok i
    by (cases "o_pc (on_thr s ! i)") (auto simp: one_time_init_def at_pc_def call_done_def thr_ok_def thr_effort_def Let_def split: if_splits)
  with sum_map_update_nat [OF i(1), of thr_effort x] show ?thesis by (simp add: once_effort_def thr mn)
qed

lemma main_effort_less:
  assumes inv: "once_inv s" and t: "once_main s = Some t"
  shows "once_effort t < once_effort s"
proof (cases "on_main s")
  case (MkThread k)
  have len: "length (on_thr s) = 2" and m: "main_ok s" using inv by (auto simp: once_inv_def)
  from m MkThread have k: "k < 2" "o_pc (on_thr s ! k) = OFresh" by (auto simp: main_ok_def)
  then have "thr_effort ((on_thr s ! k)\<lparr>o_pc := OLock\<rparr>) = thr_effort (on_thr s ! k)" by (simp add: thr_effort_def)
  with sum_map_update_nat [of k "on_thr s" thr_effort "(on_thr s ! k)\<lparr>o_pc := OLock\<rparr>"] k(1) t MkThread len show ?thesis
    by (auto simp: once_main_def once_effort_def at_pc_def)
next
  case (JoinThread k)
  with inv have "k < 2" by (auto simp: once_inv_def main_ok_def)
  with t JoinThread show ?thesis by (auto simp: once_main_def once_effort_def split: if_splits)
qed (use t in \<open>simp add: once_main_def\<close>)

lemma once_progress:
  assumes inv: "once_inv s" and ne: "\<not> exited (on_main s)"
  shows "\<exists>t. once_step s t"
proof (cases "\<exists>i < 2. one_time_init i s \<noteq> None")
  case True
  with inv ne show ?thesis by (metis once_inv_def once_step.thread option.exhaust)
next
  case False
  have len: "length (on_thr s) = 2" and ok: "\<And>j. j < 2 \<Longrightarrow> thr_ok (on_called s) (on_mtx s = Some j) (on_thr s ! j)" and m: "main_ok s" and mt: "\<And>i. on_mtx s = Some i \<Longrightarrow> i < 2"
    using inv by (auto simp: once_inv_def)
  have none: "one_time_init i s = None" if "i < 2" for i using False that by auto
  have "on_mtx s = None"
  proof (rule ccontr)
    assume "on_mtx s \<noteq> None"
    then obtain i where i: "on_mtx s = Some i" by blast
    with ok [OF mt [OF i]] none [OF mt [OF i]] show False by (auto simp: thr_ok_def critical_def one_time_init_def)
  qed
  with none ok have "o_pc (on_thr s ! i) \<in> {OFresh, OReturned}" if "i < 2" for i
    using that by (cases "o_pc (on_thr s ! i)") (fastforce simp: one_time_init_def thr_ok_def critical_def)+
  with m ne obtain t where "once_main s = Some t"
    by (cases "on_main s") (auto simp: once_main_def main_ok_def)
  then show ?thesis by (blast intro: once_step.main)
qed

lemma once_step_inv: "once_inv s \<Longrightarrow> once_step s t \<Longrightarrow> once_inv t"
  by (erule once_stepE) (auto intro: thread_inv main_inv)

lemma once_xstep_inv: "once_inv s \<Longrightarrow> once_xstep s t \<Longrightarrow> once_inv t"
proof (erule once_xstepE)
  assume inv: "once_inv s" and t: "t = s\<lparr>on_main := MainExit EXIT_FAILURE\<rparr>"
  have "EXIT_FAILURE \<noteq> EXIT_SUCCESS" by (simp add: const_defs)
  with inv show "once_inv t" by (auto simp: once_inv_def t main_ok_def initialized_def)
qed (rule once_step_inv)

interpretation once_safe: invariant_system once_xstep once_inv
  by unfold_locales (rule once_xstep_inv)

interpretation once_run: completing_system once_step once_inv once_effort "\<lambda>s. exited (on_main s)"
  by unfold_locales (auto intro: once_step_inv once_progress, auto elim!: once_stepE intro: thread_effort main_effort_less)

text \<open>Runs by a list of choices, for examples.\<close>

datatype choice = CMain | CThread nat | CLockFails nat

definition do_choice :: "choice \<Rightarrow> once_st \<Rightarrow> once_st option" where
  "do_choice c s = (if exited (on_main s) then None else case c of
      CMain \<Rightarrow> once_main s
    | CThread i \<Rightarrow> if i < length (on_thr s) then one_time_init i s else None
    | CLockFails i \<Rightarrow> if i < length (on_thr s) \<and> o_pc (on_thr s ! i) = OLock then Some (at_pc i OTest s) else None)"

fun do_choices :: "choice list \<Rightarrow> once_st \<Rightarrow> once_st option" where
  "do_choices [] s = Some s"
| "do_choices (c # cs) s = (case do_choice c s of None \<Rightarrow> None | Some t \<Rightarrow> do_choices cs t)"

lemma do_choice_step: "do_choice c s = Some t \<Longrightarrow> once_fstep s t"
  by (cases c) (auto simp: do_choice_def intro: once_fstep.intros once_xstep.intros once_step.intros split: if_splits)

lemma do_choices_run: "do_choices cs s = Some t \<Longrightarrow> once_fstep\<^sup>*\<^sup>* s t"
  by (induction cs arbitrary: s) (auto split: option.splits intro: converse_rtranclp_into_rtranclp do_choice_step)

fun no_failure_choice :: "choice \<Rightarrow> bool" where
  "no_failure_choice (CLockFails i) = False"
| "no_failure_choice _ = True"

lemma do_choice_xstep: "do_choice c s = Some t \<Longrightarrow> no_failure_choice c \<Longrightarrow> once_xstep s t"
  by (cases c) (auto simp: do_choice_def intro!: once_xstep.regular intro: once_step.intros split: if_splits)

lemma do_choices_xrun: "do_choices cs s = Some t \<Longrightarrow> \<forall>c \<in> set cs. no_failure_choice c \<Longrightarrow> once_xstep\<^sup>*\<^sup>* s t"
  by (induction cs arbitrary: s) (auto split: option.splits intro: converse_rtranclp_into_rtranclp do_choice_xstep)

text \<open>In every interleaving, with any of the calls in \<^verbatim>\<open>main\<close> failing, the initialisation is executed at most once, and a thread
  that has returned from a call finds it done: the flag is set and the output of the initialisation is there.\<close>

theorem once_at_most_once:
  assumes "once_xstep\<^sup>*\<^sup>* once_start s"
  shows "count_list (on_out s) init_msg \<le> 1 \<and>
    (\<forall>i < length (on_thr s). o_left (on_thr s ! i) < 2 \<longrightarrow> on_called s \<and> count_list (on_out s) init_msg = 1)"
proof -
  have inv: "once_inv s" using once_safe.run_inv [OF assms once_start_inv] .
  have "init_msg \<notin> set join_msgs" by (simp add: init_msg_def join_msgs_def)
  then have "count_list (take n join_msgs) init_msg = 0" for n by (meson count_list_0_iff in_set_takeD)
  with inv have c: "count_list (on_out s) init_msg = (if initialized s then 1 else 0)" by (auto simp: once_inv_def)
  have "on_called s" if "i < length (on_thr s)" "o_left (on_thr s ! i) < 2" for i using inv that by (auto simp: once_inv_def thr_ok_def)
  then show ?thesis using c by (auto simp: initialized_def)
qed

theorem once_at_most_once_witness:
  "\<exists>s. once_xstep\<^sup>*\<^sup>* once_start s \<and> o_left (on_thr s ! 0) = 1 \<and> on_called s \<and> count_list (on_out s) init_msg = 1"
proof -
  define cs where "cs = [CMain, CMain, CThread 0, CThread 0, CThread 0, CThread 0, CThread 0]"
  have "map_option (\<lambda>s. (o_left (on_thr s ! 0), length (on_thr s))) (do_choices cs once_start) = Some (1, 2)" unfolding cs_def by code_simp
  then obtain s where s: "do_choices cs once_start = Some s" "o_left (on_thr s ! 0) = 1" "length (on_thr s) = 2" by auto
  have "once_xstep\<^sup>*\<^sup>* once_start s" by (rule do_choices_xrun [OF s(1)]) (simp add: cs_def)
  with conjunct2 [OF once_at_most_once [OF this], rule_format, of 0] s show ?thesis by (auto intro!: exI [of _ s])
qed

text \<open>C13. If no call fails, every run ends after a bounded number of steps, and whatever the interleaving the output is the same
  three lines: the one of the initialisation and those of the main thread.\<close>

theorem once_completes:
  "(\<nexists>f. f 0 = once_start \<and> (\<forall>n. once_step (f n) (f (Suc n)))) \<and>
   (\<forall>s. once_step\<^sup>*\<^sup>* once_start s \<longrightarrow> (\<nexists>t. once_step s t) \<longrightarrow>
      on_main s = MainExit EXIT_SUCCESS \<and> on_out s = init_msg # join_msgs)"
proof (intro conjI notI allI impI)
  assume "\<exists>f. f 0 = once_start \<and> (\<forall>n. once_step (f n) (f (Suc n)))"
  then show False using once_run.no_infinite_run once_start_inv by metis
next
  fix s
  assume run: "once_step\<^sup>*\<^sup>* once_start s" and stuck: "\<nexists>t. once_step s t"
  have inv: "once_inv s" by (rule once_run.run_inv [OF run once_start_inv])
  have "exited (on_main s)" by (rule once_run.stuck_final [OF run once_start_inv stuck])
  moreover have "on_main s = MainExit st \<Longrightarrow> st = EXIT_SUCCESS" for st using run
    by (induction arbitrary: st rule: rtranclp_induct) (auto simp: once_start_def once_main_def one_time_init_def at_pc_def call_done_def Let_def elim!: once_stepE split: opc.splits main_pc.splits if_splits)
  ultimately show m: "on_main s = MainExit EXIT_SUCCESS" by (cases "on_main s") auto
  with inv show "on_out s = init_msg # join_msgs" by (auto simp: once_inv_def join_msgs_def initialized_def)
qed

theorem once_completes_witness:
  "\<exists>s. once_step\<^sup>*\<^sup>* once_start s \<and> on_main s = MainExit EXIT_SUCCESS \<and> on_out s = init_msg # join_msgs"
proof -
  obtain s where s: "once_step\<^sup>*\<^sup>* once_start s" "\<nexists>t. once_step s t" using once_run.reaches_stuck [OF once_start_inv] by blast
  with once_completes show ?thesis by blast
qed

text \<open>If \<^verbatim>\<open>pthread_mutex_lock\<close> fails, the error is not noticed, since errors are positive and the code tests for -1: there is a run in
  which the initialisation is executed twice.\<close>

theorem once_lock_failure:
  "\<exists>s. once_fstep\<^sup>*\<^sup>* once_start s \<and> count_list (on_out s) init_msg = 2"
proof -
  have "map_option (\<lambda>s. count_list (on_out s) init_msg)
      (do_choices [CMain, CMain, CThread 0, CThread 0, CLockFails 1, CThread 1, CThread 0, CThread 1] once_start) = Some 2" by code_simp
  then show ?thesis using do_choices_run by (auto simp del: do_choices.simps)
qed

end
