(* ===== verification/Pid_File.thy ===== *)
theory Pid_File
  imports Runs CLib
begin

text \<open>
  \<^verbatim>\<open>tlpi-book/filelock/region_locking.c\<close> and \<^verbatim>\<open>create_pid_file.c\<close>: a program makes sure that only one instance of it runs by a write
  lock on a PID file. Any number of processes call \<^verbatim>\<open>createPidFile\<close> for the same file, every call of the function is a step,
  and the steps interleave in any way. The file system has one name and any number of inodes, because the comment at the
  function tells the caller to delete the file before it terminates; a lock belongs to an inode, not to a name.
\<close>

section \<open>region\_locking.c\<close>

definition F_GETLK :: int where [const_defs]: "F_GETLK = 5"
definition F_SETLK :: int where [const_defs]: "F_SETLK = 6"
definition F_SETLKW :: int where [const_defs]: "F_SETLKW = 7"
definition F_RDLCK :: int where [const_defs]: "F_RDLCK = 0"
definition F_WRLCK :: int where [const_defs]: "F_WRLCK = 1"
definition F_UNLCK :: int where [const_defs]: "F_UNLCK = 2"
definition SEEK_SET :: int where [const_defs]: "SEEK_SET = 0"

record flock =
  l_type :: int
  l_whence :: int
  l_start :: int
  l_len :: int
  l_pid :: int

type_synonym 'k fcntl_call = "int \<Rightarrow> int \<Rightarrow> flock \<Rightarrow> 'k \<Rightarrow> (int + flock) \<times> 'k"

text \<open>The error number of a failing call, or \<open>None\<close>. The member \<^verbatim>\<open>l_pid\<close> is not set by the function; \<^verbatim>\<open>fcntl\<close> does not read it.\<close>

definition lockReg :: "'k fcntl_call \<Rightarrow> int \<Rightarrow> int \<Rightarrow> int \<Rightarrow> int \<Rightarrow> int \<Rightarrow> int \<Rightarrow> 'k \<Rightarrow> int option \<times> 'k" where
  "lockReg fcntl fd cmd type whence start len k =
     (case fcntl fd cmd \<lparr>l_type = type, l_whence = whence, l_start = start, l_len = len, l_pid = 0\<rparr> k of
        (Inl e, k') \<Rightarrow> (Some e, k')
      | (Inr _, k') \<Rightarrow> (None, k'))"

definition lockRegion :: "'k fcntl_call \<Rightarrow> int \<Rightarrow> int \<Rightarrow> int \<Rightarrow> int \<Rightarrow> int \<Rightarrow> 'k \<Rightarrow> int option \<times> 'k" where
  "lockRegion fcntl fd type whence start len = lockReg fcntl fd F_SETLK type whence start len"

definition lockRegionWait :: "'k fcntl_call \<Rightarrow> int \<Rightarrow> int \<Rightarrow> int \<Rightarrow> int \<Rightarrow> int \<Rightarrow> 'k \<Rightarrow> int option \<times> 'k" where
  "lockRegionWait fcntl fd type whence start len = lockReg fcntl fd F_SETLKW type whence start len"

definition regionIsLocked :: "'k fcntl_call \<Rightarrow> int \<Rightarrow> int \<Rightarrow> int \<Rightarrow> int \<Rightarrow> int \<Rightarrow> 'k \<Rightarrow> int \<times> 'k" where
  "regionIsLocked fcntl fd type whence start len k =
     (case fcntl fd F_GETLK \<lparr>l_type = type, l_whence = whence, l_start = start, l_len = len, l_pid = 0\<rparr> k of
        (Inl _, k') \<Rightarrow> (- 1, k')
      | (Inr fl, k') \<Rightarrow> (if l_type fl = F_UNLCK then 0 else l_pid fl, k'))"

section \<open>The system\<close>

definition CPF_CLOEXEC :: int where [const_defs]: "CPF_CLOEXEC = 1"
definition BUF_SIZE :: nat where [const_defs]: "BUF_SIZE = 100"

text \<open>Where a process is in \<^verbatim>\<open>createPidFile\<close>: the next call it makes. \<open>FRun\<close>: the function has returned and the program runs;
  \<open>FLast\<close>: it has deleted the file and is about to terminate; \<open>FEnd\<close>: it has terminated.\<close>

datatype fpc = FOpen | FGetfd | FSetfd | FLock | FTrunc | FWrite | FRun | FLast | FEnd

record pidproc =
  pp_pc :: fpc
  pp_pid :: int
  pp_flags :: int
  pp_fd :: nat
  pp_cloexec :: bool
  pp_msg :: string

text \<open>A record lock: its owner, its type, and the bytes from \<open>r_from\<close> up to \<open>r_to\<close> (\<open>None\<close>: to the end, however far the file grows).\<close>

record rlock =
  r_owner :: nat
  r_type :: int
  r_from :: int
  r_to :: "int option"

record inode =
  i_content :: string
  i_locks :: "rlock list"

record pidsys =
  ps_dir :: "nat option"
  ps_inodes :: "inode list"
  ps_procs :: "pidproc list"

definition upd_proc :: "nat \<Rightarrow> (pidproc \<Rightarrow> pidproc) \<Rightarrow> pidsys \<Rightarrow> pidsys" where
  "upd_proc i f s = s\<lparr>ps_procs := (ps_procs s)[i := f (ps_procs s ! i)]\<rparr>"

definition upd_inode :: "nat \<Rightarrow> (inode \<Rightarrow> inode) \<Rightarrow> pidsys \<Rightarrow> pidsys" where
  "upd_inode n f s = s\<lparr>ps_inodes := (ps_inodes s)[n := f (ps_inodes s ! n)]\<rparr>"

text \<open>What \<^verbatim>\<open>fcntl\<close> does with record locks (\<^verbatim>\<open>fcntl(2)\<close>), called by process \<open>i\<close>; a descriptor is the number of its inode. The lock asked for
  is in conflict with a lock of another process on a common byte unless both are read locks. Setting a lock or
  unlocking first takes the bytes away from the locks the process itself holds. \<^verbatim>\<open>F_SETLKW\<close> would wait; here the wait is interrupted.\<close>

definition before :: "int \<Rightarrow> int option \<Rightarrow> bool" where
  "before x hi = (case hi of None \<Rightarrow> True | Some h \<Rightarrow> x < h)"

definition lock_region :: "flock \<Rightarrow> int \<times> int option" where
  "lock_region fl = (if l_len fl = 0 then (l_start fl, None)
     else if l_len fl > 0 then (l_start fl, Some (l_start fl + l_len fl)) else (l_start fl + l_len fl, Some (l_start fl)))"

definition conflicts :: "nat \<Rightarrow> flock \<Rightarrow> rlock \<Rightarrow> bool" where
  "conflicts i fl r \<longleftrightarrow> r_owner r \<noteq> i \<and> (r_type r = F_WRLCK \<or> l_type fl = F_WRLCK) \<and>
     before (r_from r) (snd (lock_region fl)) \<and> before (fst (lock_region fl)) (r_to r)"

definition cut :: "int \<times> int option \<Rightarrow> rlock \<Rightarrow> rlock list" where
  "cut reg r =
     (if r_from r < fst reg then [r\<lparr>r_to := Some (case r_to r of None \<Rightarrow> fst reg | Some h \<Rightarrow> min h (fst reg))\<rparr>] else []) @
     (case snd reg of None \<Rightarrow> [] | Some h \<Rightarrow> if before (max (r_from r) h) (r_to r) then [r\<lparr>r_from := max (r_from r) h\<rparr>] else [])"

definition set_lock :: "nat \<Rightarrow> flock \<Rightarrow> rlock list \<Rightarrow> rlock list" where
  "set_lock i fl ls = concat (map (\<lambda>r. if r_owner r = i then cut (lock_region fl) r else [r]) ls) @
     (if l_type fl = F_UNLCK then []
      else [\<lparr>r_owner = i, r_type = l_type fl, r_from = fst (lock_region fl), r_to = snd (lock_region fl)\<rparr>])"

definition pid_fcntl :: "nat \<Rightarrow> pidsys fcntl_call" where
  "pid_fcntl i fd cmd fl s =
     (let n = nat fd; ls = i_locks (ps_inodes s ! n); others = filter (conflicts i fl) ls in
      if l_whence fl \<noteq> SEEK_SET \<or> l_type fl \<notin> {F_RDLCK, F_WRLCK, F_UNLCK} then (Inl EINVAL, s)
      else if cmd = F_GETLK then
        (case others of
           [] \<Rightarrow> (Inr (fl\<lparr>l_type := F_UNLCK\<rparr>), s)
         | r # _ \<Rightarrow> (Inr \<lparr>l_type = r_type r, l_whence = SEEK_SET, l_start = r_from r,
             l_len = (case r_to r of None \<Rightarrow> 0 | Some h \<Rightarrow> h - r_from r), l_pid = pp_pid (ps_procs s ! r_owner r)\<rparr>, s))
      else if cmd \<noteq> F_SETLK \<and> cmd \<noteq> F_SETLKW then (Inl EINVAL, s)
      else if l_type fl \<noteq> F_UNLCK \<and> others \<noteq> [] then (Inl (if cmd = F_SETLK then EAGAIN else EINTR), s)
      else (Inr fl, upd_inode n (\<lambda>x. x\<lparr>i_locks := set_lock i fl (i_locks x)\<rparr>) s))"

text \<open>The end of a process: its locks are released.\<close>

definition unlock_of :: "nat \<Rightarrow> inode \<Rightarrow> inode" where
  "unlock_of i x = x\<lparr>i_locks := filter (\<lambda>r. r_owner r \<noteq> i) (i_locks x)\<rparr>"

definition end_proc :: "nat \<Rightarrow> string \<Rightarrow> pidsys \<Rightarrow> pidsys" where
  "end_proc i msg s = (upd_proc i (\<lambda>p. p\<lparr>pp_pc := FEnd, pp_msg := msg\<rparr>) s)\<lparr>ps_inodes := map (unlock_of i) (ps_inodes s)\<rparr>"

definition pid_line :: "int \<Rightarrow> string" where
  "pid_line pid = snprintf BUF_SIZE (show_int pid @ [NL])"

definition quoted :: "string \<Rightarrow> string" where
  "quoted x = CHR 0x27 # x @ [CHR 0x27]"

definition createPidFile :: "string \<Rightarrow> string \<Rightarrow> nat \<Rightarrow> pidsys \<Rightarrow> pidsys option" where
  "createPidFile progName pidFile i s = (let p = ps_procs s ! i; goto = (\<lambda>pc. upd_proc i (pp_pc_update (\<lambda>_. pc))) in
     case pp_pc p of
       FOpen \<Rightarrow>
         (let next = (if pp_flags p AND CPF_CLOEXEC \<noteq> 0 then FGetfd else FLock) in
          case ps_dir s of
            Some n \<Rightarrow> Some (upd_proc i (\<lambda>p. p\<lparr>pp_fd := n, pp_pc := next\<rparr>) s)
          | None \<Rightarrow> Some (upd_proc i (\<lambda>p. p\<lparr>pp_fd := length (ps_inodes s), pp_pc := next\<rparr>)
              (s\<lparr>ps_dir := Some (length (ps_inodes s)), ps_inodes := ps_inodes s @ [\<lparr>i_content = [], i_locks = []\<rparr>]\<rparr>)))
     | FGetfd \<Rightarrow> Some (goto FSetfd s)
     | FSetfd \<Rightarrow> Some (upd_proc i (\<lambda>p. p\<lparr>pp_cloexec := True, pp_pc := FLock\<rparr>) s)
     | FLock \<Rightarrow>
         (case lockRegion (pid_fcntl i) (int (pp_fd p)) F_WRLCK SEEK_SET 0 0 s of
            (None, s') \<Rightarrow> Some (goto FTrunc s')
          | (Some e, s') \<Rightarrow> Some (end_proc i
              (if e = EAGAIN \<or> e = EACCES then ''PID file '' @ quoted pidFile @ '' is locked; probably '' @ quoted progName @ '' is already running''
               else ''Unable to lock PID file '' @ quoted pidFile) s'))
     | FTrunc \<Rightarrow> Some (goto FWrite (upd_inode (pp_fd p) (i_content_update (\<lambda>_. [])) s))
     | FWrite \<Rightarrow> Some (goto FRun (upd_inode (pp_fd p) (i_content_update (\<lambda>c. pid_line (pp_pid p) @ drop (length (pid_line (pp_pid p))) c)) s))
     | FRun \<Rightarrow> None | FLast \<Rightarrow> None | FEnd \<Rightarrow> None)"

text \<open>A call fails: the message with which the function ends the process.\<close>

definition pid_fails :: "string \<Rightarrow> nat \<Rightarrow> pidsys \<Rightarrow> pidsys option" where
  "pid_fails pidFile i s = (case pp_pc (ps_procs s ! i) of
      FOpen \<Rightarrow> Some (end_proc i (''Could not open PID file '' @ pidFile) s)
    | FGetfd \<Rightarrow> Some (end_proc i (''Could not get flags for PID file '' @ pidFile) s)
    | FSetfd \<Rightarrow> Some (end_proc i (''Could not set flags for PID file '' @ pidFile) s)
    | FLock \<Rightarrow> Some (end_proc i (''Unable to lock PID file '' @ quoted pidFile) s)
    | FTrunc \<Rightarrow> Some (end_proc i (''Could not truncate PID file '' @ quoted pidFile) s)
    | FWrite \<Rightarrow> Some (end_proc i (''Writing to PID file '' @ quoted pidFile) s)
    | _ \<Rightarrow> None)"

text \<open>A new system: the PIDs and flags of the processes, and the content of a file left by an earlier run.\<close>

definition pid_start :: "(int \<times> int) list \<Rightarrow> string option \<Rightarrow> pidsys" where
  "pid_start ps old = \<lparr>ps_dir = map_option (\<lambda>_. 0) old,
     ps_inodes = (case old of None \<Rightarrow> [] | Some c \<Rightarrow> [\<lparr>i_content = c, i_locks = []\<rparr>]),
     ps_procs = map (\<lambda>q. \<lparr>pp_pc = FOpen, pp_pid = fst q, pp_flags = snd q, pp_fd = 0, pp_cloexec = False, pp_msg = []\<rparr>) ps\<rparr>"

inductive pid_step :: "string \<Rightarrow> string \<Rightarrow> pidsys \<Rightarrow> pidsys \<Rightarrow> bool" for pn pf where
  create: "i < length (ps_procs s) \<Longrightarrow> createPidFile pn pf i s = Some t \<Longrightarrow> pid_step pn pf s t"

text \<open>With failing calls, a \<^verbatim>\<open>write\<close> that stores only a part of the line, and programs that terminate, leaving the file.\<close>

definition short_write :: "string \<Rightarrow> nat \<Rightarrow> nat \<Rightarrow> pidsys \<Rightarrow> pidsys" where
  "short_write pidFile n i s = end_proc i (''Writing to PID file '' @ quoted pidFile)
     (upd_inode (pp_fd (ps_procs s ! i)) (i_content_update (\<lambda>c. take n (pid_line (pp_pid (ps_procs s ! i))))) s)"

inductive pid_xstep :: "string \<Rightarrow> string \<Rightarrow> pidsys \<Rightarrow> pidsys \<Rightarrow> bool" for pn pf where
  regular: "pid_step pn pf s t \<Longrightarrow> pid_xstep pn pf s t"
| fails: "i < length (ps_procs s) \<Longrightarrow> pid_fails pf i s = Some t \<Longrightarrow> pid_xstep pn pf s t"
| writes_less: "i < length (ps_procs s) \<Longrightarrow> pp_pc (ps_procs s ! i) = FWrite \<Longrightarrow> pid_xstep pn pf s (short_write pf n i s)"
| terminates: "i < length (ps_procs s) \<Longrightarrow> pp_pc (ps_procs s ! i) = FRun \<Longrightarrow> pid_xstep pn pf s (end_proc i [] s)"

text \<open>With programs that delete the file before they terminate, as the comment says.\<close>

inductive pid_ustep :: "string \<Rightarrow> string \<Rightarrow> pidsys \<Rightarrow> pidsys \<Rightarrow> bool" for pn pf where
  no_unlink: "pid_xstep pn pf s t \<Longrightarrow> pid_ustep pn pf s t"
| unlinks: "i < length (ps_procs s) \<Longrightarrow> pp_pc (ps_procs s ! i) = FRun \<Longrightarrow>
    pid_ustep pn pf s (upd_proc i (pp_pc_update (\<lambda>_. FLast)) (s\<lparr>ps_dir := None\<rparr>))"
| leaves: "i < length (ps_procs s) \<Longrightarrow> pp_pc (ps_procs s ! i) = FLast \<Longrightarrow> pid_ustep pn pf s (end_proc i [] s)"

inductive_cases pid_stepE: "pid_step pn pf s t"
inductive_cases pid_xstepE: "pid_xstep pn pf s t"

section \<open>Invariant\<close>

text \<open>In the runs of this program a file has no lock, or one write lock on the whole of it.\<close>

definition whole :: "nat \<Rightarrow> rlock" where
  "whole i = \<lparr>r_owner = i, r_type = F_WRLCK, r_from = 0, r_to = None\<rparr>"

definition i_lock :: "inode \<Rightarrow> nat option" where
  "i_lock x = (case i_locks x of [] \<Rightarrow> None | r # _ \<Rightarrow> Some (r_owner r))"

definition simple :: "inode \<Rightarrow> bool" where
  "simple x \<longleftrightarrow> i_locks x = [] \<or> (\<exists>i. i_locks x = [whole i])"

lemma i_lock_sel [simp]:
  "i_lock (x\<lparr>i_content := c\<rparr>) = i_lock x" "i_lock (x\<lparr>i_locks := [whole i]\<rparr>) = Some i" "i_lock (x\<lparr>i_locks := []\<rparr>) = None"
  "i_lock \<lparr>i_content = c, i_locks = []\<rparr> = None" "i_lock \<lparr>i_content = c, i_locks = [whole i]\<rparr> = Some i"
  "simple (x\<lparr>i_content := c\<rparr>) = simple x" "simple (x\<lparr>i_locks := [whole i]\<rparr>)" "simple (x\<lparr>i_locks := []\<rparr>)"
  "simple \<lparr>i_content = c, i_locks = []\<rparr>" "simple \<lparr>i_content = c, i_locks = [whole i]\<rparr>"
  by (simp_all add: i_lock_def simple_def whole_def)

lemma simple_None: "simple x \<Longrightarrow> i_lock x = None \<Longrightarrow> i_locks x = []"
  by (auto simp: simple_def i_lock_def)

lemma simple_Some: "simple x \<Longrightarrow> i_lock x = Some i \<Longrightarrow> i_locks x = [whole i]"
  by (auto simp: simple_def i_lock_def whole_def)

lemma simple_unlock [simp]:
  "simple x \<Longrightarrow> simple (unlock_of i x)" "simple x \<Longrightarrow> i_lock (unlock_of i x) = (if i_lock x = Some i then None else i_lock x)"
  "i_content (unlock_of i x) = i_content x"
  by (auto simp: simple_def i_lock_def unlock_of_def whole_def split: if_splits)

text \<open>What \<^verbatim>\<open>lockRegion(fd, F_WRLCK, SEEK_SET, 0, 0)\<close> does on such a file.\<close>

lemma lock_whole:
  assumes "simple (ps_inodes s ! n)"
  shows "lockRegion (pid_fcntl i) (int n) F_WRLCK SEEK_SET 0 0 s =
    (if i_lock (ps_inodes s ! n) \<in> {None, Some i} then (None, upd_inode n (\<lambda>x. x\<lparr>i_locks := [whole i]\<rparr>) s) else (Some EAGAIN, s))"
  using assms unfolding simple_def
  by (auto simp: lockRegion_def lockReg_def pid_fcntl_def conflicts_def before_def lock_region_def set_lock_def cut_def whole_def
      i_lock_def const_defs upd_inode_def Let_def)

definition holding :: "fpc \<Rightarrow> bool" where
  "holding pc \<longleftrightarrow> pc \<in> {FTrunc, FWrite, FRun}"

definition pid_inv :: "pidsys \<Rightarrow> bool" where
  "pid_inv s \<longleftrightarrow>
     (\<forall>i < length (ps_procs s). pp_pc (ps_procs s ! i) \<noteq> FLast \<and> (pp_pc (ps_procs s ! i) \<notin> {FOpen, FEnd} \<longrightarrow> pp_fd (ps_procs s ! i) = 0)) \<and>
     (case ps_dir s of
        None \<Rightarrow> ps_inodes s = [] \<and> (\<forall>i < length (ps_procs s). pp_pc (ps_procs s ! i) \<in> {FOpen, FEnd})
      | Some n \<Rightarrow> n = 0 \<and> (\<exists>x. ps_inodes s = [x] \<and> simple x \<and>
          (\<forall>i < length (ps_procs s). (holding (pp_pc (ps_procs s ! i)) \<longleftrightarrow> i_lock x = Some i) \<and>
             (pp_pc (ps_procs s ! i) = FWrite \<longrightarrow> i_content x = []) \<and>
             (pp_pc (ps_procs s ! i) = FRun \<longrightarrow> i_content x = pid_line (pp_pid (ps_procs s ! i)))) \<and>
          (\<forall>i. i_lock x = Some i \<longrightarrow> i < length (ps_procs s))))"

lemma pid_start_inv: "pid_inv (pid_start ps old)"
  by (auto simp: pid_inv_def pid_start_def holding_def split: option.splits)

lemma end_proc_inv:
  assumes "pid_inv s" "i < length (ps_procs s)"
  shows "pid_inv (end_proc i msg s)"
proof (cases "ps_dir s")
  case None
  with assms show ?thesis by (auto simp: pid_inv_def end_proc_def upd_proc_def nth_list_update)
next
  case (Some n)
  with assms obtain x where x: "ps_inodes s = [x]" by (auto simp: pid_inv_def)
  with assms Some show ?thesis
    by (auto simp: pid_inv_def end_proc_def upd_proc_def nth_list_update holding_def)
qed

text \<open>A step of process \<open>i\<close> that changes the lock only between free and its own, and the content only under its lock.\<close>

lemma pid_inv_upd:
  assumes inv: "pid_inv s" and s: "ps_dir s = Some 0" "ps_inodes s = [x]" "i < length (ps_procs s)"
    and t: "ps_dir t = Some 0" "ps_inodes t = [y]" "ps_procs t = (ps_procs s)[i := p]"
    and p: "pp_pc p \<noteq> FLast" "pp_pc p \<notin> {FOpen, FEnd} \<longrightarrow> pp_fd p = 0" "holding (pp_pc p) \<longleftrightarrow> i_lock y = Some i"
      "pp_pc p = FWrite \<longrightarrow> i_content y = []" "pp_pc p = FRun \<longrightarrow> i_content y = pid_line (pp_pid p)"
    and lock: "i_lock y = i_lock x \<or> i_lock x \<in> {None, Some i} \<and> i_lock y \<in> {None, Some i}"
    and content: "i_content y = i_content x \<or> i_lock x = Some i" and simp: "simple y"
  shows "pid_inv t"
proof -
  have all: "pp_pc (ps_procs s ! j) \<noteq> FLast \<and> (pp_pc (ps_procs s ! j) \<notin> {FOpen, FEnd} \<longrightarrow> pp_fd (ps_procs s ! j) = 0) \<and> (holding (pp_pc (ps_procs s ! j)) \<longleftrightarrow> i_lock x = Some j) \<and>
      (pp_pc (ps_procs s ! j) = FWrite \<longrightarrow> i_content x = []) \<and> (pp_pc (ps_procs s ! j) = FRun \<longrightarrow> i_content x = pid_line (pp_pid (ps_procs s ! j)))"
    if "j < length (ps_procs s)" for j using inv that s(1,2) by (simp add: pid_inv_def)
  have own: "\<forall>j. i_lock x = Some j \<longrightarrow> j < length (ps_procs s)" using inv s(1,2) by (simp add: pid_inv_def)
  have "pp_pc (ps_procs t ! j) \<noteq> FLast \<and> (pp_pc (ps_procs t ! j) \<notin> {FOpen, FEnd} \<longrightarrow> pp_fd (ps_procs t ! j) = 0) \<and> (holding (pp_pc (ps_procs t ! j)) \<longleftrightarrow> i_lock y = Some j) \<and>
      (pp_pc (ps_procs t ! j) = FWrite \<longrightarrow> i_content y = []) \<and> (pp_pc (ps_procs t ! j) = FRun \<longrightarrow> i_content y = pid_line (pp_pid (ps_procs t ! j)))"
    if j: "j < length (ps_procs s)" for j
  proof (cases "j = i")
    case True
    with p s(3) show ?thesis by (simp add: t)
  next
    case False
    have "holding (pp_pc (ps_procs s ! j)) \<longrightarrow> i_content y = i_content x" using all [OF j] content False by auto
    with all [OF j] lock False show ?thesis by (auto simp: t holding_def)
  qed
  with own lock s(3) t simp show ?thesis by (auto simp: pid_inv_def)
qed

lemma pid_create_inv:
  assumes inv: "pid_inv s" and i: "i < length (ps_procs s)" and t: "createPidFile pn pf i s = Some t"
  shows "pid_inv t"
proof (cases "pp_pc (ps_procs s ! i) = FOpen")
  case True
  then show ?thesis
  proof (cases "ps_dir s")
    case None
    have nh: "\<not> holding (pp_pc (ps_procs s ! j)) \<and> pp_pc (ps_procs s ! j) \<noteq> FWrite \<and> pp_pc (ps_procs s ! j) \<noteq> FRun" if "j < length (ps_procs s)" for j
      using inv None that by (fastforce simp: pid_inv_def holding_def)
    with None True inv i t show ?thesis
      by (auto simp: createPidFile_def pid_inv_def upd_proc_def Let_def nth_list_update holding_def split: if_splits)
  next
    case (Some n)
    with inv obtain x where x: "n = 0" "ps_inodes s = [x]" by (auto simp: pid_inv_def)
    have nl: "i_lock x \<noteq> Some i" using inv i True Some x by (auto simp: pid_inv_def holding_def)
    with Some x True inv i t show ?thesis
      by (auto simp: createPidFile_def pid_inv_def upd_proc_def Let_def nth_list_update holding_def split: if_splits)
  qed
next
  case False
  show ?thesis
  proof (cases "pp_pc (ps_procs s ! i) = FEnd")
    case True
    with t show ?thesis by (simp add: createPidFile_def)
  next
    case F: False
    from inv i False F obtain x where x: "ps_dir s = Some 0" "ps_inodes s = [x]" "pp_fd (ps_procs s ! i) = 0" "simple x"
      by (auto simp: pid_inv_def split: option.splits)
    show ?thesis
    proof (cases "pp_pc (ps_procs s ! i) = FLock \<and> i_lock x \<noteq> None")
      case True
      then obtain j where j: "i_lock x = Some j" by auto
      have "j \<noteq> i" using inv i True j x by (auto simp: pid_inv_def holding_def)
      with True j x t have "\<exists>msg. t = end_proc i msg s"
        using lock_whole [of s 0 i] by (auto simp: createPidFile_def Let_def)
      then show ?thesis using end_proc_inv [OF inv i] by auto
    next
      case nl: False
      have nf: "pp_pc (ps_procs s ! i) \<noteq> FLast" using inv i by (simp add: pid_inv_def)
      have h: "holding (pp_pc (ps_procs s ! i)) \<longleftrightarrow> i_lock x = Some i" and w: "pp_pc (ps_procs s ! i) = FWrite \<longrightarrow> i_content x = []" using inv i x by (simp_all add: pid_inv_def)
      note upd = pid_inv_upd [OF inv x(1,2) i]
      show ?thesis
      proof (cases "pp_pc (ps_procs s ! i)")
        case FLock
        with nl have "i_lock x = None" by simp
        with FLock t x i show ?thesis
          using lock_whole [of s 0 i]
          by (intro upd [where y = "x\<lparr>i_locks := [whole i]\<rparr>" and p = "(ps_procs s ! i)\<lparr>pp_pc := FTrunc\<rparr>"])
            (auto simp: createPidFile_def upd_proc_def upd_inode_def holding_def Let_def)
      next
        case FTrunc
        with t x i h show ?thesis
          by (intro upd [where y = "x\<lparr>i_content := []\<rparr>" and p = "(ps_procs s ! i)\<lparr>pp_pc := FWrite\<rparr>"])
            (auto simp: createPidFile_def upd_proc_def upd_inode_def holding_def Let_def)
      next
        case FWrite
        with t x i h w show ?thesis
          by (intro upd [where y = "x\<lparr>i_content := pid_line (pp_pid (ps_procs s ! i))\<rparr>" and p = "(ps_procs s ! i)\<lparr>pp_pc := FRun\<rparr>"])
            (auto simp: createPidFile_def upd_proc_def upd_inode_def holding_def Let_def)
      next
        case FGetfd
        with t x i h show ?thesis
          by (intro upd [where y = x and p = "(ps_procs s ! i)\<lparr>pp_pc := FSetfd\<rparr>"]) (auto simp: createPidFile_def upd_proc_def holding_def Let_def)
      next
        case FSetfd
        with t x i h show ?thesis
          by (intro upd [where y = x and p = "(ps_procs s ! i)\<lparr>pp_cloexec := True, pp_pc := FLock\<rparr>"]) (auto simp: createPidFile_def upd_proc_def holding_def Let_def)
      qed (use t nf False F in \<open>simp_all add: createPidFile_def\<close>)
    qed
  qed
qed

lemma short_write_inv:
  assumes inv: "pid_inv s" and i: "i < length (ps_procs s)" and pc: "pp_pc (ps_procs s ! i) = FWrite"
  shows "pid_inv (short_write pf n i s)"
proof -
  from inv i pc obtain x where x: "ps_dir s = Some 0" "ps_inodes s = [x]" "pp_fd (ps_procs s ! i) = 0" "simple x" by (auto simp: pid_inv_def split: option.splits)
  have "holding (pp_pc (ps_procs s ! i)) \<longleftrightarrow> i_lock x = Some i" using inv i x by (simp add: pid_inv_def)
  then have h: "i_lock x = Some i" using pc by (simp add: holding_def)
  show ?thesis
    by (rule pid_inv_upd [OF inv x(1,2) i, where y = "\<lparr>i_content = take n (pid_line (pp_pid (ps_procs s ! i))), i_locks = []\<rparr>" and
          p = "(ps_procs s ! i)\<lparr>pp_pc := FEnd, pp_msg := ''Writing to PID file '' @ quoted pf\<rparr>"])
      (use x h simple_Some [OF x(4) h] in \<open>simp_all add: short_write_def end_proc_def upd_proc_def upd_inode_def unlock_of_def holding_def whole_def\<close>)
qed

lemma pid_xstep_inv: "pid_inv s \<Longrightarrow> pid_xstep pn pf s t \<Longrightarrow> pid_inv t"
  by (erule pid_xstepE) (auto simp: pid_fails_def intro: end_proc_inv pid_create_inv short_write_inv elim!: pid_stepE split: fpc.splits)

interpretation pid_safe: invariant_system "pid_xstep pn pf" pid_inv
  by unfold_locales (rule pid_xstep_inv)

text \<open>The processes that run.\<close>

definition running :: "pidsys \<Rightarrow> nat set" where
  "running s = {i. i < length (ps_procs s) \<and> pp_pc (ps_procs s ! i) = FRun}"

lemma running_unique:
  assumes inv: "pid_inv s" and i: "i \<in> running s"
  shows "running s = {i} \<and> ps_dir s = Some 0 \<and> i_content (ps_inodes s ! 0) = pid_line (pp_pid (ps_procs s ! i))"
proof -
  have pc: "i < length (ps_procs s)" "pp_pc (ps_procs s ! i) = FRun" using i by (auto simp: running_def)
  with inv have "ps_dir s \<noteq> None" by (auto simp: pid_inv_def split: option.splits)
  with inv obtain x where x: "ps_dir s = Some 0" "ps_inodes s = [x]"
    and all: "\<And>j. j < length (ps_procs s) \<Longrightarrow> (holding (pp_pc (ps_procs s ! j)) \<longleftrightarrow> i_lock x = Some j) \<and>
      (pp_pc (ps_procs s ! j) = FRun \<longrightarrow> i_content x = pid_line (pp_pid (ps_procs s ! j)))" by (auto simp: pid_inv_def)
  have l: "i_lock x = Some i" "i_content x = pid_line (pp_pid (ps_procs s ! i))" using all [OF pc(1)] pc(2) by (simp_all add: holding_def)
  have "j = i" if "j \<in> running s" for j using all [of j] that l(1) by (simp add: running_def holding_def)
  then have "running s = {i}" using i by blast
  with x l show ?thesis by simp
qed

text \<open>Runs by a list of choices, for examples.\<close>

datatype pact = PCall nat | PUnlink nat | PLeave nat

definition pid_act :: "pact \<Rightarrow> pidsys \<Rightarrow> pidsys option" where
  "pid_act a s = (case a of
      PCall i \<Rightarrow> if i < length (ps_procs s) then createPidFile ''prog'' ''/run/prog.pid'' i s else None
    | PUnlink i \<Rightarrow> if i < length (ps_procs s) \<and> pp_pc (ps_procs s ! i) = FRun
        then Some (upd_proc i (pp_pc_update (\<lambda>_. FLast)) (s\<lparr>ps_dir := None\<rparr>)) else None
    | PLeave i \<Rightarrow> if i < length (ps_procs s) \<and> pp_pc (ps_procs s ! i) = FLast then Some (end_proc i [] s) else None)"

fun pid_acts :: "pact list \<Rightarrow> pidsys \<Rightarrow> pidsys option" where
  "pid_acts [] s = Some s"
| "pid_acts (a # as) s = (case pid_act a s of None \<Rightarrow> None | Some t \<Rightarrow> pid_acts as t)"

lemma pid_act_step: "pid_act a s = Some t \<Longrightarrow> pid_ustep ''prog'' ''/run/prog.pid'' s t"
  by (cases a) (auto simp: pid_act_def intro: pid_ustep.intros pid_xstep.intros pid_step.intros split: if_splits)

lemma pid_acts_run: "pid_acts as s = Some t \<Longrightarrow> (pid_ustep ''prog'' ''/run/prog.pid'')\<^sup>*\<^sup>* s t"
  by (induction as arbitrary: s) (auto split: option.splits intro: converse_rtranclp_into_rtranclp pid_act_step)

lemma pid_acts_step: "pid_acts (map PCall is) s = Some t \<Longrightarrow> (pid_step ''prog'' ''/run/prog.pid'')\<^sup>*\<^sup>* s t"
  by (induction "is" arbitrary: s) (auto simp: pid_act_def split: option.splits if_splits intro: converse_rtranclp_into_rtranclp pid_step.create)

lemma pid_xstep_pids: "pid_xstep pn pf s t \<Longrightarrow> map pp_pid (ps_procs t) = map pp_pid (ps_procs s)"
proof -
  have upd: "map pp_pid ((ps_procs s)[i := p]) = map pp_pid (ps_procs s)" if "pp_pid p = pp_pid (ps_procs s ! i)" for i p and s :: pidsys
    using that by (metis list_update_id map_update)
  have lock: "ps_procs (snd (lockRegion (pid_fcntl i) fd ty wh st ln s)) = ps_procs s" for i fd ty wh st ln and s :: pidsys
    by (auto simp: lockRegion_def lockReg_def pid_fcntl_def upd_inode_def Let_def split: list.splits)
  have c: "map pp_pid (ps_procs t) = map pp_pid (ps_procs s)" if "createPidFile pn pf i s = Some t" for i
    using that lock [of i "int (pp_fd (ps_procs s ! i))" F_WRLCK SEEK_SET 0 0 s]
    by (auto simp: createPidFile_def Let_def end_proc_def upd_proc_def upd_inode_def upd split: fpc.splits option.splits if_splits prod.splits)
  show "pid_xstep pn pf s t \<Longrightarrow> map pp_pid (ps_procs t) = map pp_pid (ps_procs s)"
    by (erule pid_xstepE) (auto simp: pid_fails_def short_write_def end_proc_def upd_proc_def upd_inode_def upd c elim!: pid_stepE split: fpc.splits)
qed

lemma pid_run_pids: "(pid_xstep pn pf)\<^sup>*\<^sup>* (pid_start ps old) s \<Longrightarrow> map pp_pid (ps_procs s) = map fst ps"
  by (induction rule: rtranclp_induct) (auto simp: pid_start_def pid_xstep_pids)

lemma pid_line_fits: "- (2 ^ 31) \<le> pid \<Longrightarrow> pid < 2 ^ 31 \<Longrightarrow> pid_line pid = show_int pid @ [NL]"
  using show_int_length [of pid] by (simp add: pid_line_def snprintf_def BUF_SIZE_def)

text \<open>C11. Any number of processes, with process IDs of 32 bits, call \<^verbatim>\<open>createPidFile\<close> for the same file. As long as nobody deletes it,
  at most one of them runs at a time, whatever calls fail and whenever processes terminate; and while one runs, the
  file consists of its process ID in decimal and a newline.\<close>

theorem pidfile_exclusive:
  assumes "(pid_xstep pn pf)\<^sup>*\<^sup>* (pid_start ps old) s" "i \<in> running s" and pids: "\<forall>q \<in> set ps. - (2 ^ 31) \<le> fst q \<and> fst q < 2 ^ 31"
  shows "running s = {i} \<and> ps_dir s = Some 0 \<and> i_content (ps_inodes s ! 0) = show_int (fst (ps ! i)) @ [NL]"
proof -
  have len: "i < length (ps_procs s)" using assms(2) by (simp add: running_def)
  have ids: "map pp_pid (ps_procs s) = map fst ps" by (rule pid_run_pids [OF assms(1)])
  then have i: "i < length ps" using len by (metis length_map)
  have "pp_pid (ps_procs s ! i) = fst (ps ! i)" using ids len i by (metis nth_map)
  moreover have "- (2 ^ 31) \<le> fst (ps ! i)" "fst (ps ! i) < 2 ^ 31" using pids i by auto
  ultimately show ?thesis
    using running_unique [OF pid_safe.run_inv [OF assms(1) pid_start_inv] assms(2)] by (simp add: pid_line_fits)
qed

definition pid_demo :: pidsys where
  "pid_demo = pid_start [(10, CPF_CLOEXEC), (11, 0)] (Some ''99'')"

text \<open>Both open the file that an earlier run left; the second is faster.\<close>

definition pid_demo_calls :: "nat list" where
  "pid_demo_calls = [0, 0, 1, 1, 0, 0, 1, 1]"

lemma pid_demo_run:
  obtains s where "pid_acts (map PCall pid_demo_calls) pid_demo = Some s" "map pp_pc (ps_procs s) = [FEnd, FRun]" "map pp_pid (ps_procs s) = [10, 11]"
proof -
  have "map_option (\<lambda>s. (map pp_pc (ps_procs s), map pp_pid (ps_procs s))) (pid_acts (map PCall pid_demo_calls) pid_demo) = Some ([FEnd, FRun], [10, 11])"
    unfolding pid_demo_def pid_demo_calls_def by code_simp
  then show ?thesis using that by auto
qed

theorem pidfile_exclusive_witness:
  "\<exists>s. (pid_xstep ''prog'' ''/run/prog.pid'')\<^sup>*\<^sup>* pid_demo s \<and> running s = {1} \<and> i_content (ps_inodes s ! 0) = ''11'' @ [NL]"
proof -
  obtain s where s: "pid_acts (map PCall pid_demo_calls) pid_demo = Some s" "map pp_pc (ps_procs s) = [FEnd, FRun]" "map pp_pid (ps_procs s) = [10, 11]" by (rule pid_demo_run)
  have run: "(pid_xstep ''prog'' ''/run/prog.pid'')\<^sup>*\<^sup>* pid_demo s"
    using pid_acts_step [OF s(1)] by (rule rtranclp_mono [THEN predicate2D, rotated]) (auto intro: pid_xstep.regular)
  obtain a b where ab: "ps_procs s = [a, b]" "pp_pc b = FRun" "pp_pid b = 11" using s(2,3) by auto
  then have "1 \<in> running s" by (simp add: running_def)
  moreover have "show_int 11 = ''11''" by code_simp
  ultimately show ?thesis using pidfile_exclusive [OF run [unfolded pid_demo_def], of 1] run by auto
qed

section \<open>Completion\<close>

fun fpc_effort :: "fpc \<Rightarrow> nat" where
  "fpc_effort FOpen = 6"
| "fpc_effort FGetfd = 5"
| "fpc_effort FSetfd = 4"
| "fpc_effort FLock = 3"
| "fpc_effort FTrunc = 2"
| "fpc_effort FWrite = 1"
| "fpc_effort _ = 0"

definition pid_effort :: "pidsys \<Rightarrow> nat" where
  "pid_effort s = sum_list (map (fpc_effort \<circ> pp_pc) (ps_procs s))"

definition pid_settled :: "pidsys \<Rightarrow> bool" where
  "pid_settled s \<longleftrightarrow> (\<forall>i < length (ps_procs s). pp_pc (ps_procs s ! i) \<in> {FRun, FEnd})"

text \<open>If no call fails, processes end only because another one has the lock.\<close>

definition pid_cinv :: "pidsys \<Rightarrow> bool" where
  "pid_cinv s \<longleftrightarrow> pid_inv s \<and> (\<forall>i < length (ps_procs s). pp_pc (ps_procs s ! i) = FEnd \<longrightarrow> (\<exists>j < length (ps_procs s). holding (pp_pc (ps_procs s ! j))))"

lemma create_shape:
  assumes inv: "pid_inv s" and i: "i < length (ps_procs s)" and t: "createPidFile pn pf i s = Some t"
  obtains p where "ps_procs t = (ps_procs s)[i := p]" "fpc_effort (pp_pc p) < fpc_effort (pp_pc (ps_procs s ! i))"
    "holding (pp_pc (ps_procs s ! i)) \<longrightarrow> holding (pp_pc p)" "pp_pc p = FEnd \<longrightarrow> (\<exists>j < length (ps_procs s). j \<noteq> i \<and> holding (pp_pc (ps_procs s ! j)))"
proof (rule that [of "ps_procs t ! i"])
  show "ps_procs t = (ps_procs s)[i := ps_procs t ! i]" "fpc_effort (pp_pc (ps_procs t ! i)) < fpc_effort (pp_pc (ps_procs s ! i))"
    "holding (pp_pc (ps_procs s ! i)) \<longrightarrow> holding (pp_pc (ps_procs t ! i))"
    using i t by (cases "pp_pc (ps_procs s ! i)"; auto simp: createPidFile_def lockRegion_def lockReg_def pid_fcntl_def end_proc_def upd_proc_def upd_inode_def holding_def Let_def split: option.splits list.splits if_splits)+
  show "pp_pc (ps_procs t ! i) = FEnd \<longrightarrow> (\<exists>j < length (ps_procs s). j \<noteq> i \<and> holding (pp_pc (ps_procs s ! j)))"
  proof
    assume e: "pp_pc (ps_procs t ! i) = FEnd"
    have l: "pp_pc (ps_procs s ! i) = FLock"
      using e i t by (cases "pp_pc (ps_procs s ! i)"; auto simp: createPidFile_def upd_proc_def upd_inode_def Let_def split: option.splits if_splits)
    with inv i obtain x where x: "ps_dir s = Some 0" "ps_inodes s = [x]" "pp_fd (ps_procs s ! i) = 0" "simple x" by (auto simp: pid_inv_def split: option.splits)
    with e l i t obtain j where j: "i_lock x = Some j" "j \<noteq> i"
      using lock_whole [of s 0 i] by (cases "i_lock x") (auto simp: createPidFile_def upd_proc_def upd_inode_def Let_def split: if_splits)
    with inv x show "\<exists>j < length (ps_procs s). j \<noteq> i \<and> holding (pp_pc (ps_procs s ! j))" by (auto simp: pid_inv_def)
  qed
qed

lemma pid_step_cinv: "pid_cinv s \<Longrightarrow> pid_step pn pf s t \<Longrightarrow> pid_cinv t"
proof (erule pid_stepE)
  fix i assume c: "pid_cinv s" and i: "i < length (ps_procs s)" "createPidFile pn pf i s = Some t"
  then have inv: "pid_inv s" by (simp add: pid_cinv_def)
  from create_shape [OF inv i] obtain p where p: "ps_procs t = (ps_procs s)[i := p]" "holding (pp_pc (ps_procs s ! i)) \<longrightarrow> holding (pp_pc p)"
    "pp_pc p = FEnd \<longrightarrow> (\<exists>j < length (ps_procs s). j \<noteq> i \<and> holding (pp_pc (ps_procs s ! j)))" by metis
  have h: "\<exists>j < length (ps_procs t). holding (pp_pc (ps_procs t ! j))" if "\<exists>j < length (ps_procs s). holding (pp_pc (ps_procs s ! j))"
    using that p(1,2) by (metis length_list_update nth_list_update_eq nth_list_update_neq)
  have "\<exists>j < length (ps_procs s). holding (pp_pc (ps_procs s ! j))" if "k < length (ps_procs s)" "pp_pc (ps_procs t ! k) = FEnd" for k
    using that c p i(1) by (cases "k = i") (auto simp: pid_cinv_def)
  with h pid_create_inv [OF inv i] p(1) show "pid_cinv t" by (auto simp: pid_cinv_def)
qed

lemma pid_step_effort: "pid_cinv s \<Longrightarrow> pid_step pn pf s t \<Longrightarrow> pid_effort t < pid_effort s"
proof (erule pid_stepE)
  fix i assume c: "pid_cinv s" and i: "i < length (ps_procs s)" "createPidFile pn pf i s = Some t"
  then have "pid_inv s" by (simp add: pid_cinv_def)
  from create_shape [OF this i] obtain p where "ps_procs t = (ps_procs s)[i := p]" "fpc_effort (pp_pc p) < fpc_effort (pp_pc (ps_procs s ! i))" by metis
  with sum_map_update_nat [OF i(1), of "fpc_effort \<circ> pp_pc" p] show ?thesis by (simp add: pid_effort_def)
qed

lemma pid_progress: "pid_cinv s \<Longrightarrow> \<not> pid_settled s \<Longrightarrow> \<exists>t. pid_step pn pf s t"
proof -
  assume c: "pid_cinv s" "\<not> pid_settled s"
  then obtain i where i: "i < length (ps_procs s)" "pp_pc (ps_procs s ! i) \<notin> {FRun, FEnd, FLast}" by (auto simp: pid_settled_def pid_cinv_def pid_inv_def)
  then have "createPidFile pn pf i s \<noteq> None"
    by (cases "pp_pc (ps_procs s ! i)") (auto simp: createPidFile_def Let_def split: option.splits prod.splits)
  with i(1) show ?thesis by (auto intro: pid_step.create)
qed

interpretation pid_run: completing_system "pid_step pn pf" pid_cinv pid_effort pid_settled
  by unfold_locales (auto intro: pid_step_cinv pid_step_effort pid_progress)

lemma pid_start_cinv: "pid_cinv (pid_start ps old)"
  using pid_start_inv [of ps old] by (auto simp: pid_cinv_def pid_start_def)

lemma one_winner:
  assumes "(pid_step pn pf)\<^sup>*\<^sup>* (pid_start ps old) s" "\<nexists>t. pid_step pn pf s t" "ps \<noteq> []"
  shows "\<exists>i < length ps. running s = {i} \<and> (\<forall>j < length ps. j \<noteq> i \<longrightarrow> pp_pc (ps_procs s ! j) = FEnd)"
proof -
  have c: "pid_cinv s" by (rule pid_run.run_inv [OF assms(1) pid_start_cinv])
  have set: "pid_settled s" by (rule pid_run.stuck_final [OF assms(1) pid_start_cinv assms(2)])
  have len: "length (ps_procs s) = length ps"
    using assms(1)
  proof (induction rule: rtranclp_induct)
    case (step s t)
    then show ?case by (auto elim!: pid_stepE simp: createPidFile_def lockRegion_def lockReg_def pid_fcntl_def end_proc_def upd_proc_def upd_inode_def Let_def split: fpc.splits option.splits list.splits if_splits prod.splits)
  qed (simp add: pid_start_def)
  have "0 < length (ps_procs s)" using assms(3) len by simp
  with set c obtain i where i: "i < length (ps_procs s)" "pp_pc (ps_procs s ! i) = FRun"
    unfolding pid_settled_def pid_cinv_def holding_def by (metis empty_iff insert_iff fpc.distinct)
  with c running_unique [of s i] have "running s = {i}" by (simp add: pid_cinv_def running_def)
  with set len i(1) show ?thesis by (auto simp: pid_settled_def running_def)
qed

text \<open>C12. If no call fails, all processes get through \<^verbatim>\<open>createPidFile\<close> without waiting, in at most six calls each, in every interleaving, and
  when they have, exactly one of them runs and the others have ended.\<close>

theorem pidfile_one_winner:
  assumes "ps \<noteq> []"
  shows "(\<forall>n s. (pid_step pn pf ^^ n) (pid_start ps old) s \<longrightarrow> n \<le> 6 * length ps) \<and>
    (\<forall>s. (pid_step pn pf)\<^sup>*\<^sup>* (pid_start ps old) s \<and> (\<nexists>t. pid_step pn pf s t) \<longrightarrow>
      (\<exists>i < length ps. running s = {i} \<and> (\<forall>j < length ps. j \<noteq> i \<longrightarrow> pp_pc (ps_procs s ! j) = FEnd)))"
proof (intro conjI allI impI)
  fix n s
  assume "(pid_step pn pf ^^ n) (pid_start ps old) s"
  from pid_run.run_bounded [OF this pid_start_cinv] show "n \<le> 6 * length ps"
    by (simp add: pid_effort_def pid_start_def comp_def sum_list_triv mult.commute)
next
  fix s
  assume "(pid_step pn pf)\<^sup>*\<^sup>* (pid_start ps old) s \<and> (\<nexists>t. pid_step pn pf s t)"
  then show "\<exists>i < length ps. running s = {i} \<and> (\<forall>j < length ps. j \<noteq> i \<longrightarrow> pp_pc (ps_procs s ! j) = FEnd)"
    using one_winner assms by blast
qed

theorem pidfile_one_winner_witness:
  "\<exists>s. (pid_step ''prog'' ''/run/prog.pid'')\<^sup>*\<^sup>* pid_demo s \<and> (\<exists>i < 2. running s = {i})"
proof -
  obtain s where s: "(pid_step ''prog'' ''/run/prog.pid'')\<^sup>*\<^sup>* pid_demo s" "\<nexists>t. pid_step ''prog'' ''/run/prog.pid'' s t"
    using pid_run.reaches_stuck [OF pid_start_cinv] unfolding pid_demo_def by blast
  have "\<exists>i < length [(10, CPF_CLOEXEC), (11::int, 0::int)]. running s = {i} \<and>
      (\<forall>j < length [(10, CPF_CLOEXEC), (11::int, 0::int)]. j \<noteq> i \<longrightarrow> pp_pc (ps_procs s ! j) = FEnd)"
    using pidfile_one_winner [of "[(10, CPF_CLOEXEC), (11, 0)]" "''prog''" "''/run/prog.pid''" "Some ''99''", folded pid_demo_def] s by blast
  with s(1) show ?thesis by (intro exI [of _ s] conjI) auto
qed

text \<open>If programs delete the file before they terminate, as the comment at the function tells them to, two can run at the same
  time: one that had opened the file before it was deleted locks the old inode, another one a new file.\<close>

theorem pidfile_unlink_race:
  "\<exists>s. (pid_ustep ''prog'' ''/run/prog.pid'')\<^sup>*\<^sup>* (pid_start [(10, 0), (11, 0), (12, 0)] None) s \<and> running s = {1, 2}"
proof -
  define as where "as = map PCall [0, 0, 0, 0, 1] @ [PUnlink 0, PLeave 0] @ map PCall [1, 1, 1, 2, 2, 2, 2]"
  have "map_option (\<lambda>s. map pp_pc (ps_procs s)) (pid_acts as (pid_start [(10, 0), (11, 0), (12, 0)] None)) = Some [FEnd, FRun, FRun]"
    unfolding as_def by code_simp
  then obtain s where s: "pid_acts as (pid_start [(10, 0), (11, 0), (12, 0)] None) = Some s" "map pp_pc (ps_procs s) = [FEnd, FRun, FRun]" by auto
  then obtain a b c where "ps_procs s = [a, b, c]" "pp_pc a = FEnd" "pp_pc b = FRun" "pp_pc c = FRun" by auto
  then have "running s = {1, 2}" by (auto simp: running_def less_Suc_eq)
  with pid_acts_run [OF s(1)] show ?thesis by blast
qed

end
