(* ===== verification/Simple_Init.thy ===== *)
theory Simple_Init
  imports Runs Capabilities Getopt Stream_IO
begin

text \<open>
  \<^verbatim>\<open>tlpi-book/namespaces/simple_init.c\<close>: a minimal \<^verbatim>\<open>init\<close> with a shell loop. The program itself is a \<open>prog\<close> with the system calls as
  arguments. It waits for a command by \<^verbatim>\<open>pause()\<close>, which is interrupted by the \<^verbatim>\<open>SIGCHLD\<close> handler; so the interplay with its
  children and with the handler is a step relation over a kernel that keeps the children, the pending signal and the
  input. The handler is a loop over \<^verbatim>\<open>waitpid\<close>, a \<^theory_text>\<open>partial_function (option)\<close>. Ignoring \<^verbatim>\<open>SIGTTOU\<close>
  has no counterpart: terminal signals are not modelled.
\<close>

section \<open>The program\<close>

definition CMD_SIZE :: nat where [const_defs]: "CMD_SIZE = 10000"

record 'k init_os =
  io_sigaction :: "'k \<Rightarrow> int option \<times> 'k"
  io_setpgid :: "'k \<Rightarrow> int option \<times> 'k"
  io_tcsetpgrp :: "'k \<Rightarrow> int option \<times> 'k"
  io_mount :: "string \<Rightarrow> string \<Rightarrow> 'k \<Rightarrow> int option \<times> 'k"
  io_umount :: "string \<Rightarrow> 'k \<Rightarrow> int option \<times> 'k"
  io_fgets :: "'k \<Rightarrow> string option \<times> 'k"
  io_fork :: "'k \<Rightarrow> (int + int) \<times> 'k"
  io_waitpid :: "'k \<Rightarrow> (int + int) \<times> 'k"
  io_wordexp :: "string \<Rightarrow> string list option"
  io_calloc :: bool
  io_execvp :: "string list \<Rightarrow> int option"
  io_getpid :: int

definition handler_note :: "bool \<Rightarrow> int \<Rightarrow> 'k kproc \<Rightarrow> 'k kproc" where
  "handler_note verbose pid s =
     (if verbose then printf_stdout (TAB # ''init: SIGCHLD handler: PID '' @ show_int pid @ '' terminated'' @ [NL]) s else s)"

text \<open>An error other than \<^verbatim>\<open>ECHILD\<close> is reported, and the loop goes on.\<close>

partial_function (option) child_handler :: "'k init_os \<Rightarrow> (int \<Rightarrow> string) \<Rightarrow> bool \<Rightarrow> 'k kproc \<Rightarrow> 'k kproc option" where
  "child_handler I sr verbose s = (case io_waitpid I (ker s) of
      (Inr pid, k) \<Rightarrow> if pid = 0 then Some (s\<lparr>ker := k\<rparr>)
        else child_handler I sr verbose (handler_note verbose pid (s\<lparr>ker := k\<rparr>))
    | (Inl e, k) \<Rightarrow> if e = ECHILD then Some (s\<lparr>ker := k, errno := e\<rparr>)
        else child_handler I sr verbose (handler_note verbose (- 1) (perror sr ''waitpid'' (s\<lparr>ker := k, errno := e\<rparr>))))"

definition expand_words :: "'k init_os \<Rightarrow> (int \<Rightarrow> string) \<Rightarrow> string \<Rightarrow> ('k kproc, string list option) prog" where
  "expand_words I sr cmd = (case io_wordexp I cmd of
      None \<Rightarrow> bnd (modify (fputs_stderr (''Word expansion failed.'' @ [NL, TAB] @
          ''Note that only simple commands plus arguments are supported'' @ [NL, TAB] @
          ''(no pipelines, I/O redirection, and so on)'' @ [NL]))) (\<lambda>_. ret None)
    | Some ws \<Rightarrow> if \<not> io_calloc I then bnd (modify (\<lambda>s. s\<lparr>errno := ENOMEM\<rparr>)) (\<lambda>_. macro_errExit sr ''calloc'')
        else ret (Some ws))"

definition init_usage :: "string \<Rightarrow> ('a proc_io_scheme, 'b) prog" where
  "init_usage pname = bnd (modify (fputs_stderr (''Usage: '' @ pname @ '' [-v] [-p proc-mount]'' @ [NL, TAB] @
      ''-v              Provide verbose logging'' @ [NL, TAB] @
      ''-p proc-mount   Mount a procfs at specified path'' @ [NL]))) (\<lambda>_. exit3 EXIT_FAILURE)"

text \<open>The options: \<open>proc_path\<close> and \<open>verbose\<close>.\<close>

primrec init_options :: "string \<Rightarrow> getopt_result list \<Rightarrow> string option \<times> bool \<Rightarrow> ('a proc_io_scheme, string option \<times> bool) prog" where
  "init_options pname [] o' = ret o'"
| "init_options pname (r # rs) o' = (case r of
      Opt c v \<Rightarrow> if c = CHR ''p'' then init_options pname rs (v, snd o') else init_options pname rs (fst o', True)
    | _ \<Rightarrow> bnd (modify (fputs_stderr (getopt_message pname r))) (\<lambda>_. init_usage pname))"

definition call_or_exit :: "(int \<Rightarrow> string) \<Rightarrow> string \<Rightarrow> ('k \<Rightarrow> int option \<times> 'k) \<Rightarrow> ('k kproc, unit) prog" where
  "call_or_exit sr msg f = bnd (kcall f) (\<lambda>ok. if ok then ret () else macro_errExit sr msg)"

definition mount_procfs :: "'k init_os \<Rightarrow> (int \<Rightarrow> string) \<Rightarrow> bool \<Rightarrow> string \<Rightarrow> ('k kproc, unit) prog" where
  "mount_procfs I sr verbose path =
     andthen (whenM verbose (printfM (''Making '' @ path @ '' a private mount'' @ [NL])))
    (andthen (bnd (kcall (io_mount I ''none'' path)) (\<lambda>ok. if ok then ret ()
        else bnd (gets errno) (\<lambda>e. whenM (e \<noteq> EINVAL) (modify (perror sr ''mount-make-slave-/'')))))
    (andthen (whenM verbose (printfM (''Mounting procfs at '' @ path @ [NL])))
       (call_or_exit sr ''mount-procfs'' (io_mount I ''proc'' path))))"

definition init_begin :: "'k init_os \<Rightarrow> (int \<Rightarrow> string) \<Rightarrow> string option \<Rightarrow> bool \<Rightarrow> ('k kproc, unit) prog" where
  "init_begin I sr proc_path verbose =
     andthen (call_or_exit sr ''sigaction'' (io_sigaction I))
    (andthen (whenM verbose (printfM (TAB # ''init: my PID is '' @ show_int (io_getpid I) @ [NL])))
    (andthen (call_or_exit sr ''setpgid'' (io_setpgid I))
    (andthen (call_or_exit sr ''tcsetpgrp-child'' (io_tcsetpgrp I))
       (case proc_path of None \<Rightarrow> ret () | Some p \<Rightarrow> mount_procfs I sr verbose p))))"

definition init_child :: "'k init_os \<Rightarrow> (int \<Rightarrow> string) \<Rightarrow> string \<Rightarrow> ('k kproc, 'b) prog" where
  "init_child I sr cmd =
     bnd (expand_words I sr cmd) (\<lambda>r. case r of
       None \<Rightarrow> exit3 EXIT_FAILURE
     | Some arg_vec \<Rightarrow>
         bnd (call_or_exit sr ''setpgid'' (io_setpgid I)) (\<lambda>_.
         bnd (call_or_exit sr ''tcsetpgrp-child'' (io_tcsetpgrp I)) (\<lambda>_.
         if arg_vec = [] then stop Undef
         else (case io_execvp I arg_vec of
             None \<Rightarrow> stop (Exec (hd arg_vec) arg_vec)
           | Some e \<Rightarrow> bnd (modify (\<lambda>s. s\<lparr>errno := e\<rparr>)) (\<lambda>_. macro_errExit sr ''execvp'')))))"

text \<open>One pass of the loop up to \<^verbatim>\<open>pause()\<close>. A line that starts with a null byte makes the code read before the array.\<close>

datatype prompt_result = REof | RSkip | RForkFailed | RForked int string

definition init_prompt :: "'k init_os \<Rightarrow> (int \<Rightarrow> string) \<Rightarrow> bool \<Rightarrow> ('k kproc, prompt_result) prog" where
  "init_prompt I sr verbose =
     bnd (printfM ''init$ '') (\<lambda>_.
     bnd (kplain (io_fgets I)) (\<lambda>r. case r of
       None \<Rightarrow> bnd (whenM verbose (printfM (TAB # ''init: exiting''))) (\<lambda>_. bnd (printfM [NL]) (\<lambda>_. ret REof))
     | Some line \<Rightarrow>
         let cmd = takeWhile (\<lambda>c. c \<noteq> NUL) line in
         if cmd = [] then stop Undef
         else let cmd = (if last cmd = NL then butlast cmd else cmd) in
           if cmd = [] then ret RSkip
           else bnd (kget (io_fork I)) (\<lambda>r. case r of
               None \<Rightarrow> bnd (modify (perror sr ''fork'')) (\<lambda>_. ret RForkFailed)
             | Some pid \<Rightarrow>
                 if pid = 0 then init_child I sr cmd
                 else bnd (whenM verbose (printfM (TAB # ''init: created child '' @ show_int pid @ [NL]))) (\<lambda>_.
                   ret (RForked pid cmd)))))"

text \<open>Behind \<^verbatim>\<open>pause()\<close>, and behind the loop.\<close>

definition init_resume :: "'k init_os \<Rightarrow> (int \<Rightarrow> string) \<Rightarrow> ('k kproc, unit) prog" where
  "init_resume I sr = call_or_exit sr ''tcsetpgrp-parent'' (io_tcsetpgrp I)"

definition init_finish :: "'k init_os \<Rightarrow> (int \<Rightarrow> string) \<Rightarrow> string option \<Rightarrow> bool \<Rightarrow> ('k kproc, unit) prog" where
  "init_finish I sr proc_path verbose =
     bnd (case proc_path of None \<Rightarrow> ret ()
       | Some p \<Rightarrow> andthen (whenM verbose (printfM (''Unmounting procfs at '' @ p @ [NL])))
           (call_or_exit sr ''umount-procfs'' (io_umount I p))) (\<lambda>_. exit3 EXIT_SUCCESS)"

text \<open>\<^verbatim>\<open>main\<close> up to the loop.\<close>

definition init_main_begin :: "'k init_os \<Rightarrow> (int \<Rightarrow> string) \<Rightarrow> string \<Rightarrow> string list \<Rightarrow> ('k kproc, string option \<times> bool) prog" where
  "init_main_begin I sr pname args =
     bnd (init_options pname (fst (getopt ''p:v'' args)) (None, False)) (\<lambda>(proc_path, verbose).
     bnd (init_begin I sr proc_path verbose) (\<lambda>_. ret (proc_path, verbose)))"

section \<open>The kernel around it\<close>

text \<open>The input left, the children that are not reaped with whether they have ended, the pending \<^verbatim>\<open>SIGCHLD\<close> and the next PID.\<close>

record ik =
  ik_in :: string
  ik_kids :: "(int \<times> bool) list"
  ik_chld :: bool
  ik_next :: int

text \<open>What \<^verbatim>\<open>fgets\<close> reads of an input.\<close>

definition next_line :: "string \<Rightarrow> string" where
  "next_line inp = take (CMD_SIZE - 1) (line_of inp)"

definition ik_fgets :: "ik \<Rightarrow> string option \<times> ik" where
  "ik_fgets k = (if ik_in k = [] then (None, k)
     else let l = next_line (ik_in k) in (Some l, k\<lparr>ik_in := drop (length l) (ik_in k)\<rparr>))"

definition ik_waitpid :: "ik \<Rightarrow> (int + int) \<times> ik" where
  "ik_waitpid k = (case find snd (ik_kids k) of
      Some p \<Rightarrow> (Inr (fst p), k\<lparr>ik_kids := remove1 p (ik_kids k)\<rparr>)
    | None \<Rightarrow> if ik_kids k = [] then (Inl ECHILD, k) else (Inr 0, k))"

definition ik_os :: "ik init_os" where
  "ik_os = \<lparr>io_sigaction = Pair None, io_setpgid = Pair None, io_tcsetpgrp = Pair None, io_mount = (\<lambda>_ _. Pair None), io_umount = (\<lambda>_. Pair None),
     io_fgets = ik_fgets, io_fork = (\<lambda>k. (Inr (ik_next k), k\<lparr>ik_kids := ik_kids k @ [(ik_next k, False)], ik_next := ik_next k + 1\<rparr>)),
     io_waitpid = ik_waitpid, io_wordexp = (\<lambda>c. Some [c]), io_calloc = True, io_execvp = (\<lambda>_. None), io_getpid = 1\<rparr>"

text \<open>Where \<^verbatim>\<open>init\<close> is, its process, and the commands it has started.\<close>

datatype ipc = IPrompt | IForked | IPaused | IResume | IFinish | IHalt halt

record isys =
  is_pc :: ipc
  is_proc :: "ik kproc"
  is_log :: "string list"

definition init_next :: "(int \<Rightarrow> string) \<Rightarrow> string option \<Rightarrow> bool \<Rightarrow> isys \<Rightarrow> isys option" where
  "init_next sr proc_path verbose s = (case is_pc s of
      IPrompt \<Rightarrow> Some (case init_prompt ik_os sr verbose (is_proc s) of
          (Inl h, p) \<Rightarrow> s\<lparr>is_pc := IHalt h, is_proc := p\<rparr>
        | (Inr REof, p) \<Rightarrow> s\<lparr>is_pc := IFinish, is_proc := p\<rparr>
        | (Inr RForkFailed, p) \<Rightarrow> s\<lparr>is_pc := IFinish, is_proc := p\<rparr>
        | (Inr RSkip, p) \<Rightarrow> s\<lparr>is_proc := p\<rparr>
        | (Inr (RForked pid cmd), p) \<Rightarrow> s\<lparr>is_pc := IForked, is_proc := p, is_log := is_log s @ [cmd]\<rparr>)
    | IForked \<Rightarrow> Some (s\<lparr>is_pc := IPaused\<rparr>)
    | IPaused \<Rightarrow> None
    | IResume \<Rightarrow> Some (case init_resume ik_os sr (is_proc s) of
          (Inl h, p) \<Rightarrow> s\<lparr>is_pc := IHalt h, is_proc := p\<rparr>
        | (Inr _, p) \<Rightarrow> s\<lparr>is_pc := IPrompt, is_proc := p\<rparr>)
    | IFinish \<Rightarrow> Some (case init_finish ik_os sr proc_path verbose (is_proc s) of
          (Inl h, p) \<Rightarrow> s\<lparr>is_pc := IHalt h, is_proc := p\<rparr>
        | (Inr _, p) \<Rightarrow> s\<lparr>is_proc := p\<rparr>)
    | IHalt h \<Rightarrow> None)"

abbreviation kernel :: "isys \<Rightarrow> ik" where
  "kernel s \<equiv> ker (is_proc s)"

definition upd_kernel :: "(ik \<Rightarrow> ik) \<Rightarrow> isys \<Rightarrow> isys" where
  "upd_kernel f s = s\<lparr>is_proc := (is_proc s)\<lparr>ker := f (kernel s)\<rparr>\<rparr>"

text \<open>The handler runs when the signal is pending, wherever \<^verbatim>\<open>init\<close> is; if it is in \<^verbatim>\<open>pause()\<close>, that returns.\<close>

definition run_handler :: "(int \<Rightarrow> string) \<Rightarrow> bool \<Rightarrow> isys \<Rightarrow> isys option" where
  "run_handler sr verbose s =
     map_option (\<lambda>p. s\<lparr>is_proc := p, is_pc := if is_pc s = IPaused then IResume else is_pc s\<rparr>)
       (child_handler ik_os sr verbose (is_proc (upd_kernel (ik_chld_update (\<lambda>_. False)) s)))"

definition kid_ends :: "nat \<Rightarrow> isys \<Rightarrow> isys" where
  "kid_ends i = upd_kernel (\<lambda>k. k\<lparr>ik_kids := (ik_kids k)[i := (fst (ik_kids k ! i), True)], ik_chld := True\<rparr>)"

fun halted :: "ipc \<Rightarrow> bool" where
  "halted (IHalt h) = True"
| "halted _ = False"

inductive init_step :: "(int \<Rightarrow> string) \<Rightarrow> string option \<Rightarrow> bool \<Rightarrow> isys \<Rightarrow> isys \<Rightarrow> bool" for sr proc_path verbose where
  init: "init_next sr proc_path verbose s = Some t \<Longrightarrow> init_step sr proc_path verbose s t"
| handler: "\<not> halted (is_pc s) \<Longrightarrow> ik_chld (kernel s) \<Longrightarrow> run_handler sr verbose s = Some t \<Longrightarrow> init_step sr proc_path verbose s t"
| child: "\<not> halted (is_pc s) \<Longrightarrow> i < length (ik_kids (kernel s)) \<Longrightarrow> \<not> snd (ik_kids (kernel s) ! i) \<Longrightarrow> init_step sr proc_path verbose s (kid_ends i s)"

inductive_cases init_stepE: "init_step sr proc_path verbose s t"

section \<open>The handler\<close>

lemma handler_note_ker [simp]: "ker (handler_note v pid s) = ker s"
  by (simp add: handler_note_def)

lemma filter_remove1_neg: "P p \<Longrightarrow> filter (\<lambda>x. \<not> P x) (remove1 p xs) = filter (\<lambda>x. \<not> P x) xs"
  by (induction xs) auto

lemma find_Some_in: "find P xs = Some p \<Longrightarrow> P p \<and> p \<in> set xs"
  by (auto simp: find_Some_iff)

text \<open>The handler reaps all children that have ended, and returns.\<close>

lemma child_handler_reaps:
  "\<forall>p \<in> set (ik_kids (ker s)). fst p \<noteq> 0 \<Longrightarrow>
    \<exists>s'. child_handler ik_os sr v s = Some s' \<and> ker s' = (ker s)\<lparr>ik_kids := filter (\<lambda>p. \<not> snd p) (ik_kids (ker s))\<rparr>"
proof (induction "length (filter snd (ik_kids (ker s)))" arbitrary: s)
  case 0
  then have none: "\<forall>p \<in> set (ik_kids (ker s)). \<not> snd p" by (simp add: filter_empty_conv)
  then have "find snd (ik_kids (ker s)) = None" by (auto simp: find_None_iff)
  with none show ?case by (subst child_handler.simps) (auto simp: ik_os_def ik_waitpid_def filter_True)
next
  case (Suc n)
  then have "filter snd (ik_kids (ker s)) \<noteq> []" by (metis list.size(3) nat.distinct(1))
  then have "find snd (ik_kids (ker s)) \<noteq> None" unfolding find_None_iff filter_empty_conv by blast
  then obtain p where p: "find snd (ik_kids (ker s)) = Some p" by blast
  note in_p = find_Some_in [OF p]
  let ?s = "handler_note v (fst p) (s\<lparr>ker := (ker s)\<lparr>ik_kids := remove1 p (ik_kids (ker s))\<rparr>\<rparr>)"
  have step: "child_handler ik_os sr v s = child_handler ik_os sr v ?s"
    using p in_p Suc.prems by (subst child_handler.simps) (auto simp: ik_os_def ik_waitpid_def)
  have "n = length (filter snd (ik_kids (ker ?s)))" using Suc.hyps(2) in_p by (simp add: filter_remove1 length_remove1)
  moreover have "\<forall>q \<in> set (ik_kids (ker ?s)). fst q \<noteq> 0" using Suc.prems by (auto dest: notin_set_remove1 set_remove1_subset [THEN subsetD])
  ultimately obtain s' where "child_handler ik_os sr v ?s = Some s'" "ker s' = (ker ?s)\<lparr>ik_kids := filter (\<lambda>p. \<not> snd p) (ik_kids (ker ?s))\<rparr>"
    using Suc.hyps(1) [of ?s] by blast
  with step in_p show ?case by (simp add: filter_remove1_neg)
qed

text \<open>But it does not return when \<^verbatim>\<open>waitpid\<close> keeps failing for another reason.\<close>

lemma child_handler_diverges:
  assumes e: "\<And>k. fst (io_waitpid I k) = Inl e" "e \<noteq> ECHILD"
  shows "child_handler I sr v s = None"
proof -
  have "child_handler I sr v s = Some r \<Longrightarrow> \<forall>k. fst (io_waitpid I k) = Inl e \<Longrightarrow> False" for r
  proof (induction rule: child_handler.raw_induct [rotated 1, consumes 1])
    case (1 ch I' sr' v' t r')
    obtain k where "io_waitpid I' (ker t) = (Inl e, k)" using 1(3) by (metis prod.collapse)
    with 1 e(2) show ?case by auto
  qed
  with e(1) show ?thesis by (cases "child_handler I sr v s") auto
qed

section \<open>The lost signal\<close>

lemma kid_ends_sel [simp]: "is_pc (kid_ends i s) = is_pc s" "ik_in (kernel (kid_ends i s)) = ik_in (kernel s)" "ik_chld (kernel (kid_ends i s))"
  "ik_kids (kernel (kid_ends i s)) = (ik_kids (kernel s))[i := (fst (ik_kids (kernel s) ! i), True)]" "is_log (kid_ends i s) = is_log s"
  by (simp_all add: kid_ends_def upd_kernel_def)

text \<open>Whatever the order of the steps: a child that has ended is announced by the pending signal.\<close>

definition init_good :: "isys \<Rightarrow> bool" where
  "init_good s \<longleftrightarrow> NUL \<notin> set (ik_in (kernel s)) \<and> 0 < ik_next (kernel s) \<and> (\<forall>p \<in> set (ik_kids (kernel s)). fst p \<noteq> 0 \<and> (snd p \<longrightarrow> ik_chld (kernel s)))"

text \<open>The lines of an input.\<close>

definition chomp :: "string \<Rightarrow> string" where
  "chomp l = (if last l = NL then butlast l else l)"

lemma next_line_shorter: "inp \<noteq> [] \<Longrightarrow> length (drop (length (next_line inp)) inp) < length inp"
  by (cases inp) (auto simp: next_line_def const_defs less_Suc_eq_le)

lemma next_line_nonempty: "inp \<noteq> [] \<Longrightarrow> next_line inp \<noteq> []"
  by (cases inp) (auto simp: next_line_def const_defs)

lemma line_of_subset: "set (line_of inp) \<subseteq> set inp"
  by (induction inp) auto

lemma next_line_no_nul: "NUL \<notin> set inp \<Longrightarrow> takeWhile (\<lambda>c. c \<noteq> NUL) (next_line inp) = next_line inp"
  using line_of_subset [of inp] by (auto simp: next_line_def takeWhile_eq_all_conv dest: in_set_takeD)

text \<open>What a pass up to \<^verbatim>\<open>pause()\<close> does with this kernel.\<close>

lemma prompt_eof: "ik_in (ker p) = [] \<Longrightarrow> \<exists>p'. init_prompt ik_os sr v p = (Inr REof, p') \<and> ker p' = ker p"
  by (auto simp: init_prompt_def ik_os_def ik_fgets_def kplain_def prog_simps printfM_def whenM_def)

lemma prompt_skip:
  assumes "ik_in (ker p) \<noteq> []" "NUL \<notin> set (ik_in (ker p))" "chomp (next_line (ik_in (ker p))) = []"
  shows "\<exists>p'. init_prompt ik_os sr v p = (Inr RSkip, p') \<and> ker p' = (ker p)\<lparr>ik_in := drop (length (next_line (ik_in (ker p)))) (ik_in (ker p))\<rparr>"
  using next_line_nonempty [OF assms(1)] assms(1,3)
  by (auto simp: init_prompt_def ik_os_def ik_fgets_def kplain_def prog_simps printfM_def chomp_def Let_def next_line_no_nul [OF assms(2)] split: if_splits)

lemma prompt_fork:
  assumes "ik_in (ker p) \<noteq> []" "NUL \<notin> set (ik_in (ker p))" "0 < ik_next (ker p)" "chomp (next_line (ik_in (ker p))) \<noteq> []"
  shows "\<exists>p'. init_prompt ik_os sr v p = (Inr (RForked (ik_next (ker p)) (chomp (next_line (ik_in (ker p))))), p') \<and>
    ker p' = (ker p)\<lparr>ik_in := drop (length (next_line (ik_in (ker p)))) (ik_in (ker p)), ik_kids := ik_kids (ker p) @ [(ik_next (ker p), False)], ik_next := ik_next (ker p) + 1\<rparr>"
  using next_line_nonempty [OF assms(1)] assms(1,3,4)
  by (auto simp: init_prompt_def ik_os_def ik_fgets_def kplain_def kget_def prog_simps printfM_def whenM_def chomp_def Let_def next_line_no_nul [OF assms(2)] split: if_splits)

lemma filter_update:
  "i < length xs \<Longrightarrow> Q (xs ! i) \<Longrightarrow> \<not> Q y \<Longrightarrow> Suc (length (filter Q (xs[i := y]))) = length (filter Q xs)"
  by (induction xs arbitrary: i) (auto simp: nth_Cons split: nat.splits)

lemma all_kids_end:
  assumes "\<not> halted (is_pc s)"
  shows "\<exists>t. (init_step sr pp v)\<^sup>*\<^sup>* s t \<and> is_pc t = is_pc s \<and> ik_in (kernel t) = ik_in (kernel s) \<and> is_log t = is_log s \<and> (\<forall>p \<in> set (ik_kids (kernel t)). snd p)"
  using assms
proof (induction "length (filter (\<lambda>p. \<not> snd p) (ik_kids (kernel s)))" arbitrary: s)
  case 0
  then show ?case by (auto simp: filter_empty_conv intro!: exI [of _ s])
next
  case (Suc n)
  then have "filter (\<lambda>p. \<not> snd p) (ik_kids (kernel s)) \<noteq> []" by auto
  then obtain i where i: "i < length (ik_kids (kernel s))" "\<not> snd (ik_kids (kernel s) ! i)" by (auto simp: filter_empty_conv in_set_conv_nth)
  have "n = length (filter (\<lambda>p. \<not> snd p) (ik_kids (kernel (kid_ends i s))))"
    using Suc.hyps(2) filter_update [of i "ik_kids (kernel s)" "\<lambda>p. \<not> snd p" "(fst (ik_kids (kernel s) ! i), True)"] i by simp
  from Suc.hyps(1) [OF this] Suc.prems obtain t where "(init_step sr pp v)\<^sup>*\<^sup>* (kid_ends i s) t" "is_pc t = is_pc s" "ik_in (kernel t) = ik_in (kernel s)" "is_log t = is_log s"
    "\<forall>p \<in> set (ik_kids (kernel t)). snd p" by auto
  moreover have "init_step sr pp v s (kid_ends i s)" by (rule init_step.child [OF Suc.prems i])
  ultimately show ?case by (meson converse_rtranclp_into_rtranclp)
qed

lemma finish_result: "\<exists>p'. init_finish ik_os sr pp v p = (Inl (Exit EXIT_SUCCESS), p') \<and> ker p' = ker p"
  by (cases pp; cases v) (auto simp: init_finish_def call_or_exit_def kcall_def ik_os_def prog_simps printfM_def whenM_def exit3_def)

lemma resume_result: "\<exists>p'. init_resume ik_os sr p = (Inr (), p') \<and> ker p' = ker p"
  by (simp add: init_resume_def call_or_exit_def kcall_def ik_os_def prog_simps)

lemma init_next_good:
  assumes good: "init_good s" and t: "init_next sr pp v s = Some t"
  shows "init_good t"
proof (cases "is_pc s")
  case IPrompt
  have nul: "NUL \<notin> set (ik_in (kernel s))" "0 < ik_next (kernel s)" using good by (auto simp: init_good_def)
  have drop: "NUL \<notin> set (drop n (ik_in (kernel s)))" for n using nul(1) by (auto dest: in_set_dropD)
  show ?thesis
  proof (cases "ik_in (kernel s) = []")
    case True
    with prompt_eof [of "is_proc s" sr v] t IPrompt good show ?thesis by (auto simp: init_next_def init_good_def)
  next
    case False
    show ?thesis
    proof (cases "chomp (next_line (ik_in (kernel s))) = []")
      case True
      with prompt_skip [OF False nul(1) True, of sr v] t IPrompt good drop show ?thesis by (auto simp: init_next_def init_good_def)
    next
      case c: False
      with prompt_fork [OF False nul c, of sr v] t IPrompt good drop show ?thesis by (auto simp: init_next_def init_good_def)
    qed
  qed
next
  case IResume
  with resume_result [of sr "is_proc s"] t good show ?thesis by (auto simp: init_next_def init_good_def)
next
  case IFinish
  with finish_result [of sr pp v "is_proc s"] t good show ?thesis by (auto simp: init_next_def init_good_def)
qed (use t good in \<open>auto simp: init_next_def init_good_def\<close>)

text \<open>The handler: no child that has ended is left.\<close>

lemma run_handler_result:
  assumes "init_good s"
  shows "\<exists>t. run_handler sr v s = Some t \<and> is_pc t = (if is_pc s = IPaused then IResume else is_pc s) \<and> is_log t = is_log s \<and>
    kernel t = (kernel s)\<lparr>ik_chld := False, ik_kids := filter (\<lambda>p. \<not> snd p) (ik_kids (kernel s))\<rparr>"
proof -
  let ?s = "is_proc (upd_kernel (ik_chld_update (\<lambda>_. False)) s)"
  have "\<forall>p \<in> set (ik_kids (ker ?s)). fst p \<noteq> 0" using assms by (auto simp: init_good_def upd_kernel_def)
  from child_handler_reaps [OF this, of sr v] obtain p where "child_handler ik_os sr v ?s = Some p" "ker p = (ker ?s)\<lparr>ik_kids := filter (\<lambda>p. \<not> snd p) (ik_kids (ker ?s))\<rparr>" by blast
  then show ?thesis by (simp add: run_handler_def upd_kernel_def)
qed

lemma init_step_good: "init_good s \<Longrightarrow> init_step sr pp v s t \<Longrightarrow> init_good t"
proof (erule init_stepE)
  assume "init_good s" "run_handler sr v s = Some t"
  with run_handler_result [of s sr v] show "init_good t" by (auto simp: init_good_def)
next
  fix i assume "init_good s" "t = kid_ends i s" "i < length (ik_kids (kernel s))"
  moreover have "fst p \<noteq> 0" if "p \<in> set (ik_kids (kernel t))" for p
    using subsetD [OF set_update_subset_insert that [unfolded \<open>t = kid_ends i s\<close> kid_ends_sel]] calculation nth_mem [of i "ik_kids (kernel s)"] by (auto simp: init_good_def)
  ultimately show "init_good t" by (simp add: init_good_def) (simp add: kid_ends_def upd_kernel_def)
qed (rule init_next_good)

interpretation init_safe: invariant_system "init_step sr pp v" init_good
  by unfold_locales (rule init_step_good)

definition init_state :: "string \<Rightarrow> isys" where
  "init_state inp = \<lparr>is_pc = IPrompt, is_proc = \<lparr>stdout_buf = [], stdout_out = [], stderr_out = [], errno = 0, ef_dumpcore = None, stdio_errno = None,
     ker = \<lparr>ik_in = inp, ik_kids = [], ik_chld = False, ik_next = 2\<rparr>\<rparr>, is_log = []\<rparr>"

lemma init_state_good: "NUL \<notin> set inp \<Longrightarrow> init_good (init_state inp)"
  by (simp add: init_good_def init_state_def)

text \<open>C14. Every command can hang the shell: wherever \<^verbatim>\<open>init\<close> has just created a child, there is an order of events, in which the child ends and
  its signal is handled before \<^verbatim>\<open>pause()\<close> is called, after which \<^verbatim>\<open>init\<close> waits in \<^verbatim>\<open>pause()\<close> with no child and no signal left, and
  nothing can happen any more; the rest of the input is not read.\<close>

theorem init_can_hang:
  assumes "(init_step sr pp v)\<^sup>*\<^sup>* (init_state inp) s" "NUL \<notin> set inp" "is_pc s = IForked"
  shows "\<exists>t. (init_step sr pp v)\<^sup>*\<^sup>* s t \<and> is_pc t = IPaused \<and> (\<nexists>u. init_step sr pp v t u) \<and> ik_in (kernel t) = ik_in (kernel s) \<and> is_log t = is_log s"
proof -
  have good: "init_good s" by (rule init_safe.run_inv [OF assms(1) init_state_good [OF assms(2)]])
  have "\<not> halted (is_pc s)" using assms(3) by simp
  from all_kids_end [OF this, of sr pp v] obtain s1 where s1: "(init_step sr pp v)\<^sup>*\<^sup>* s s1" "is_pc s1 = IForked" "ik_in (kernel s1) = ik_in (kernel s)" "is_log s1 = is_log s"
    "\<forall>p \<in> set (ik_kids (kernel s1)). snd p" using assms(3) by auto
  have good1: "init_good s1" by (rule init_safe.run_inv [OF s1(1) good])
  obtain s2 where s2: "(init_step sr pp v)\<^sup>*\<^sup>* s s2" "is_pc s2 = IForked" "ik_in (kernel s2) = ik_in (kernel s)" "is_log s2 = is_log s" "ik_kids (kernel s2) = []" "\<not> ik_chld (kernel s2)"
  proof (cases "ik_chld (kernel s1)")
    case True
    from run_handler_result [OF good1, of sr v] obtain t where t: "run_handler sr v s1 = Some t" "is_pc t = IForked" "is_log t = is_log s"
      "kernel t = (kernel s1)\<lparr>ik_chld := False, ik_kids := []\<rparr>" using s1(2,4,5) by auto
    have "init_step sr pp v s1 t" by (rule init_step.handler [OF _ True t(1)]) (simp add: s1(2))
    with s1(1) have "(init_step sr pp v)\<^sup>*\<^sup>* s t" by (rule rtranclp.rtrancl_into_rtrancl)
    then show ?thesis using t(2-4) s1(3) by (intro that [of t]) auto
  next
    case False
    with good1 s1(5) have "ik_kids (kernel s1) = []" by (cases "ik_kids (kernel s1)") (auto simp: init_good_def)
    with s1 False show ?thesis by (intro that [of s1]) auto
  qed
  let ?t = "s2\<lparr>is_pc := IPaused\<rparr>"
  have "init_step sr pp v s2 ?t" by (rule init_step.init) (simp add: init_next_def s2(2))
  with s2(1) have "(init_step sr pp v)\<^sup>*\<^sup>* s ?t" by (rule rtranclp.rtrancl_into_rtrancl)
  moreover have "\<nexists>u. init_step sr pp v ?t u" using s2(5,6) by (auto elim!: init_stepE simp: init_next_def)
  ultimately show ?thesis using s2(3,4) by (intro exI [of _ ?t]) simp
qed

definition init_demo :: string where
  "init_demo = ''ls'' @ [NL] @ ''ps'' @ [NL]"

theorem init_can_hang_witness:
  "\<exists>t. (init_step (\<lambda>_. []) None False)\<^sup>*\<^sup>* (init_state init_demo) t \<and> is_pc t = IPaused \<and> (\<nexists>u. init_step (\<lambda>_. []) None False t u) \<and> ik_in (kernel t) = ''ps'' @ [NL] \<and> is_log t = [''ls'']"
proof -
  let ?start = "init_state init_demo"
  have nul: "NUL \<notin> set init_demo" "next_line init_demo = ''ls'' @ [NL]" "chomp (''ls'' @ [NL]) = ''ls''" "drop (Suc (Suc (Suc 0))) init_demo = ''ps'' @ [NL]" by code_simp+
  have in0: "ik_in (kernel ?start) = init_demo" "ik_next (kernel ?start) = 2" "is_pc ?start = IPrompt" "is_log ?start = []" by (simp_all add: init_state_def)
  have ne: "init_demo \<noteq> []" by (simp add: init_demo_def)
  obtain p where p: "init_prompt ik_os (\<lambda>_. []) False (is_proc ?start) = (Inr (RForked 2 ''ls''), p)" "ik_in (ker p) = ''ps'' @ [NL]"
    using prompt_fork [of "is_proc ?start" "\<lambda>_. []" False] in0 nul ne by auto
  let ?s = "?start\<lparr>is_pc := IForked, is_proc := p, is_log := [''ls'']\<rparr>"
  have "init_step (\<lambda>_. []) None False ?start ?s" by (rule init_step.init) (simp add: init_next_def in0 p(1))
  then have run: "(init_step (\<lambda>_. []) None False)\<^sup>*\<^sup>* ?start ?s" by blast
  have "is_pc ?s = IForked" by simp
  from init_can_hang [OF run nul(1) this] obtain t where t: "(init_step (\<lambda>_. []) None False)\<^sup>*\<^sup>* ?s t" "is_pc t = IPaused" "\<nexists>u. init_step (\<lambda>_. []) None False t u"
    "ik_in (kernel t) = ik_in (kernel ?s)" "is_log t = is_log ?s" by blast
  from rtranclp_trans [OF run t(1)] t(2-5) p(2) show ?thesis by (intro exI [of _ t]) simp
qed

section \<open>When children end only during pause()\<close>

inductive init_pstep :: "(int \<Rightarrow> string) \<Rightarrow> string option \<Rightarrow> bool \<Rightarrow> isys \<Rightarrow> isys \<Rightarrow> bool" for sr proc_path verbose where
  pinit: "init_next sr proc_path verbose s = Some t \<Longrightarrow> init_pstep sr proc_path verbose s t"
| phandler: "\<not> halted (is_pc s) \<Longrightarrow> ik_chld (kernel s) \<Longrightarrow> run_handler sr verbose s = Some t \<Longrightarrow> init_pstep sr proc_path verbose s t"
| pchild: "is_pc s = IPaused \<Longrightarrow> i < length (ik_kids (kernel s)) \<Longrightarrow> \<not> snd (ik_kids (kernel s) ! i) \<Longrightarrow> init_pstep sr proc_path verbose s (kid_ends i s)"

inductive_cases init_pstepE: "init_pstep sr proc_path verbose s t"

text \<open>The commands of an input as the program reads it: piecewise, without the empty ones.\<close>

function commands :: "string \<Rightarrow> string list" where
  "commands inp = (if inp = [] then [] else
     (if chomp (next_line inp) = [] then [] else [chomp (next_line inp)]) @ commands (drop (length (next_line inp)) inp))"
  by pat_completeness auto

termination commands
  by (relation "measure length") (use next_line_shorter in auto)

declare commands.simps [simp del]

definition kids_ok :: "ipc \<Rightarrow> ik \<Rightarrow> bool" where
  "kids_ok pc k = (case pc of
      IForked \<Rightarrow> (\<exists>p. ik_kids k = [(p, False)]) \<and> \<not> ik_chld k
    | IPaused \<Rightarrow> (\<exists>p. ik_kids k = [p] \<and> (snd p \<longleftrightarrow> ik_chld k))
    | IFinish \<Rightarrow> ik_kids k = [] \<and> \<not> ik_chld k \<and> ik_in k = []
    | IHalt h \<Rightarrow> ik_kids k = [] \<and> \<not> ik_chld k \<and> ik_in k = [] \<and> h = Exit EXIT_SUCCESS
    | _ \<Rightarrow> ik_kids k = [] \<and> \<not> ik_chld k)"

definition init_pinv :: "string list \<Rightarrow> isys \<Rightarrow> bool" where
  "init_pinv cmds s \<longleftrightarrow> init_good s \<and> is_log s @ commands (ik_in (kernel s)) = cmds \<and> kids_ok (is_pc s) (kernel s)"

definition init_effort :: "isys \<Rightarrow> nat" where
  "init_effort s = 6 * length (ik_in (kernel s)) + (case is_pc s of IPrompt \<Rightarrow> 2 | IForked \<Rightarrow> 7 | IPaused \<Rightarrow> (if ik_chld (kernel s) then 5 else 6)
     | IResume \<Rightarrow> 3 | IFinish \<Rightarrow> 1 | IHalt h \<Rightarrow> 0)"

lemma pinit_step:
  assumes inv: "init_pinv cmds s" and t: "init_next sr pp v s = Some t"
  shows "init_pinv cmds t \<and> init_effort t < init_effort s"
proof -
  have good: "init_good t" using init_next_good inv t by (auto simp: init_pinv_def)
  have nul: "NUL \<notin> set (ik_in (kernel s))" "0 < ik_next (kernel s)" using inv by (auto simp: init_pinv_def init_good_def)
  show ?thesis
  proof (cases "is_pc s")
    case IPrompt
    show ?thesis
    proof (cases "ik_in (kernel s) = []")
      case True
      with prompt_eof [of "is_proc s" sr v] t IPrompt inv good show ?thesis by (auto simp: init_next_def init_pinv_def init_effort_def kids_ok_def)
    next
      case False
      note cmds = commands.simps [of "ik_in (kernel s)"]
      have less: "6 * length (drop (length (next_line (ik_in (kernel s)))) (ik_in (kernel s))) + 6 \<le> 6 * length (ik_in (kernel s))"
        using next_line_shorter [OF False] by linarith
      show ?thesis
      proof (cases "chomp (next_line (ik_in (kernel s))) = []")
        case True
        with prompt_skip [OF False nul(1) True, of sr v] t IPrompt inv good less show ?thesis
          by (auto simp: init_next_def init_pinv_def init_effort_def kids_ok_def cmds)
      next
        case c: False
        with prompt_fork [OF False nul c, of sr v] t IPrompt inv good less show ?thesis
          by (auto simp: init_next_def init_pinv_def init_effort_def kids_ok_def cmds)
      qed
    qed
  next
    case IResume
    with resume_result [of sr "is_proc s"] t inv good show ?thesis by (auto simp: init_next_def init_pinv_def init_effort_def kids_ok_def)
  next
    case IFinish
    with finish_result [of sr pp v "is_proc s"] t inv good show ?thesis by (auto simp: init_next_def init_pinv_def init_effort_def kids_ok_def)
  qed (use t inv good in \<open>auto simp: init_next_def init_pinv_def init_effort_def kids_ok_def\<close>)
qed

lemma pstep_inv:
  assumes inv: "init_pinv cmds s" and st: "init_pstep sr pp v s t"
  shows "init_pinv cmds t \<and> init_effort t < init_effort s"
  using st
proof (cases rule: init_pstep.cases)
  case pinit
  then show ?thesis using pinit_step [OF inv] by blast
next
  case phandler
  have good: "init_good s" using inv by (simp add: init_pinv_def)
  have "is_pc s = IPaused" using inv phandler(1,2) by (cases "is_pc s") (auto simp: init_pinv_def kids_ok_def)
  with run_handler_result [OF good, of sr v] phandler inv show ?thesis
    by (auto simp: init_pinv_def kids_ok_def init_effort_def init_good_def)
next
  case (pchild i)
  have "init_step sr pp v s t" using pchild by (auto intro: init_step.child)
  then have "init_good t" using init_step_good inv by (auto simp: init_pinv_def)
  moreover have "ik_kids (kernel t) = [(fst (ik_kids (kernel s) ! 0), True)]" "\<not> ik_chld (kernel s)"
    using inv pchild by (auto simp: init_pinv_def kids_ok_def)
  ultimately show ?thesis using pchild inv by (auto simp: init_pinv_def kids_ok_def init_effort_def)
qed

interpretation init_run: completing_system "init_pstep sr pp v" "init_pinv cmds" init_effort "\<lambda>s. halted (is_pc s)"
proof unfold_locales
  show "init_pinv cmds s \<Longrightarrow> init_pstep sr pp v s t \<Longrightarrow> init_pinv cmds t" "init_pinv cmds s \<Longrightarrow> init_pstep sr pp v s t \<Longrightarrow> init_effort t < init_effort s" for s t
    using pstep_inv by blast+
  show "\<exists>t. init_pstep sr pp v s t" if inv: "init_pinv cmds s" and nh: "\<not> halted (is_pc s)" for s
  proof (cases "is_pc s = IPaused")
    case True
    with inv obtain p where p: "ik_kids (kernel s) = [p]" "snd p \<longleftrightarrow> ik_chld (kernel s)" by (auto simp: init_pinv_def kids_ok_def)
    have "init_good s" using inv by (simp add: init_pinv_def)
    from run_handler_result [OF this, of sr v] obtain t where "run_handler sr v s = Some t" by blast
    then have "snd p \<Longrightarrow> init_pstep sr pp v s t" using p True by (intro init_pstep.phandler) simp_all
    moreover have "\<not> snd p \<Longrightarrow> init_pstep sr pp v s (kid_ends 0 s)" using p True by (intro init_pstep.pchild) simp_all
    ultimately show ?thesis by blast
  next
    case False
    with nh obtain t where "init_next sr pp v s = Some t" by (cases "is_pc s") (auto simp: init_next_def)
    then show ?thesis by (blast intro: init_pstep.pinit)
  qed
qed

text \<open>Lines that fit into the buffer are read whole.\<close>

lemma next_line_fits:
  assumes "NL \<notin> set l" "length l < 9999"
  shows "next_line (l @ NL # inp) = l @ [NL]" "next_line l = l" "chomp (l @ [NL]) = l" "chomp l = l"
proof -
  have "line_of (l @ NL # inp) = l @ [NL]" "line_of l = l" using assms(1) by (induction l) auto
  then show "next_line (l @ NL # inp) = l @ [NL]" "next_line l = l" using assms(2) by (simp_all add: next_line_def CMD_SIZE_def)
  show "chomp (l @ [NL]) = l" "chomp l = l" using assms(1) by (cases "l = []"; auto simp: chomp_def dest: last_in_set)+
qed

lemma commands_lines:
  assumes "\<forall>l \<in> set (ls @ [lst]). NL \<notin> set l \<and> length l < 9999"
  shows "commands (concat (map (\<lambda>l. l @ [NL]) ls) @ lst) = filter (\<lambda>l. l \<noteq> []) (ls @ [lst])"
  using assms
proof (induction ls)
  case Nil
  then show ?case by (subst commands.simps) (auto simp: next_line_fits commands.simps [of "[]"])
next
  case (Cons l ls)
  then show ?case by (subst commands.simps) (auto simp: next_line_fits)
qed

text \<open>C15. If every child ends only while \<^verbatim>\<open>init\<close> is in \<^verbatim>\<open>pause()\<close>, all is well. Let the input consist of lines of fewer than 9999 characters
  (what the buffer of 10000 holds besides the newline and the null byte), without null bytes, the last of them not
  ended by a newline, possibly empty. Then every run ends, with status 0, and the commands started are exactly the nonempty
  lines, in their order.\<close>

theorem init_runs_commands:
  assumes "\<forall>l \<in> set (ls @ [lst]). NL \<notin> set l \<and> NUL \<notin> set l \<and> length l < 9999" "inp = concat (map (\<lambda>l. l @ [NL]) ls) @ lst"
  shows "(\<nexists>f. f 0 = init_state inp \<and> (\<forall>n. init_pstep sr pp v (f n) (f (Suc n)))) \<and>
    (\<forall>s. (init_pstep sr pp v)\<^sup>*\<^sup>* (init_state inp) s \<longrightarrow> (\<nexists>t. init_pstep sr pp v s t) \<longrightarrow>
      is_pc s = IHalt (Exit EXIT_SUCCESS) \<and> is_log s = filter (\<lambda>l. l \<noteq> []) (ls @ [lst]))"
proof -
  have "NUL \<notin> set inp" using assms by (auto simp: NUL_def NL_def)
  then have start: "init_pinv (commands inp) (init_state inp)"
    using init_state_good by (simp add: init_pinv_def kids_ok_def) (simp add: init_state_def)
  have cmds: "commands inp = filter (\<lambda>l. l \<noteq> []) (ls @ [lst])" unfolding assms(2) by (rule commands_lines) (use assms(1) in auto)
  show ?thesis
    unfolding cmds [symmetric]
  proof (intro conjI notI allI impI)
    assume "\<exists>f. f 0 = init_state inp \<and> (\<forall>n. init_pstep sr pp v (f n) (f (Suc n)))"
    then show False using init_run.no_infinite_run start by metis
  next
    fix s
    assume run: "(init_pstep sr pp v)\<^sup>*\<^sup>* (init_state inp) s" and stuck: "\<nexists>t. init_pstep sr pp v s t"
    have "halted (is_pc s)" by (rule init_run.stuck_final [OF run start stuck])
    moreover have "init_pinv (commands inp) s" by (rule init_run.run_inv [OF run start])
    ultimately have "is_pc s = IHalt (Exit EXIT_SUCCESS) \<and> is_log s @ commands [] = commands inp" by (cases "is_pc s") (auto simp: init_pinv_def kids_ok_def)
    moreover have "commands [] = []" by (subst commands.simps) simp
    ultimately show "is_pc s = IHalt (Exit EXIT_SUCCESS)" "is_log s = commands inp" by simp_all
  qed
qed

theorem init_runs_commands_witness:
  "\<exists>s. (init_pstep (\<lambda>_. []) None False)\<^sup>*\<^sup>* (init_state init_demo) s \<and> is_pc s = IHalt (Exit EXIT_SUCCESS) \<and> is_log s = [''ls'', ''ps'']"
proof -
  have nul: "NUL \<notin> set init_demo" by code_simp
  have lines: "\<forall>l \<in> set ([''ls'', ''ps''] @ [[]]). NL \<notin> set l \<and> NUL \<notin> set l \<and> length l < 9999" by code_simp
  have demo: "init_demo = concat (map (\<lambda>l. l @ [NL]) [''ls'', ''ps'']) @ []" by code_simp
  have "init_pinv (commands init_demo) (init_state init_demo)"
    using init_state_good [OF nul] by (simp add: init_pinv_def kids_ok_def) (simp add: init_state_def)
  from init_run.reaches_stuck [OF this, of "\<lambda>_. []" None False] init_runs_commands [OF lines demo, of "\<lambda>_. []" None False] show ?thesis by auto
qed

end
