(* ===== verification/Formats.thy ===== *)
theory Formats
  imports Error_Functions
begin

text \<open>
  Three library functions between numbers and text: \<^verbatim>\<open>tlpi-book/files/file_perms.c\<close> (permissions as \<^verbatim>\<open>ls\<close> shows them),
  \<^verbatim>\<open>timers/itimerspec_from_str.c\<close> (timer settings) and \<^verbatim>\<open>procexec/print_wait_status.c\<close> (the status of a child). Each is compared with
  its inverse: a decoder of permission strings, a printer of timer settings, the encoding of a wait status.
\<close>

section \<open>file\_perms.c\<close>

definition S_ISUID :: "32 word" where [const_defs]: "S_ISUID = 2048"
definition S_ISGID :: "32 word" where [const_defs]: "S_ISGID = 1024"
definition S_ISVTX :: "32 word" where [const_defs]: "S_ISVTX = 512"
definition S_IRUSR :: "32 word" where [const_defs]: "S_IRUSR = 256"
definition S_IWUSR :: "32 word" where [const_defs]: "S_IWUSR = 128"
definition S_IXUSR :: "32 word" where [const_defs]: "S_IXUSR = 64"
definition S_IRGRP :: "32 word" where [const_defs]: "S_IRGRP = 32"
definition S_IWGRP :: "32 word" where [const_defs]: "S_IWGRP = 16"
definition S_IXGRP :: "32 word" where [const_defs]: "S_IXGRP = 8"
definition S_IROTH :: "32 word" where [const_defs]: "S_IROTH = 4"
definition S_IWOTH :: "32 word" where [const_defs]: "S_IWOTH = 2"
definition S_IXOTH :: "32 word" where [const_defs]: "S_IXOTH = 1"

definition FP_SPECIAL :: int where [const_defs]: "FP_SPECIAL = 1"
definition STR_SIZE :: nat where [const_defs]: "STR_SIZE = 10"

text \<open>The character of an execute bit, which also shows one of the special bits.\<close>

definition exec_char :: "bool \<Rightarrow> bool \<Rightarrow> char \<Rightarrow> char \<Rightarrow> char" where
  "exec_char x special lower upper =
     (if x then (if special then lower else CHR ''x'') else (if special then upper else CHR ''-''))"

definition filePermStr :: "32 word \<Rightarrow> int \<Rightarrow> string" where
  "filePermStr perm flags = (let sp = (\<lambda>m. perm AND m \<noteq> 0 \<and> flags AND FP_SPECIAL \<noteq> 0) in
     snprintf STR_SIZE
      [if perm AND S_IRUSR \<noteq> 0 then CHR ''r'' else CHR ''-'', if perm AND S_IWUSR \<noteq> 0 then CHR ''w'' else CHR ''-'',
       exec_char (perm AND S_IXUSR \<noteq> 0) (sp S_ISUID) (CHR ''s'') (CHR ''S''),
       if perm AND S_IRGRP \<noteq> 0 then CHR ''r'' else CHR ''-'', if perm AND S_IWGRP \<noteq> 0 then CHR ''w'' else CHR ''-'',
       exec_char (perm AND S_IXGRP \<noteq> 0) (sp S_ISGID) (CHR ''s'') (CHR ''S''),
       if perm AND S_IROTH \<noteq> 0 then CHR ''r'' else CHR ''-'', if perm AND S_IWOTH \<noteq> 0 then CHR ''w'' else CHR ''-'',
       exec_char (perm AND S_IXOTH \<noteq> 0) (sp S_ISVTX) (CHR ''t'') (CHR ''T'')])"

text \<open>Reading such a string.\<close>

definition rwx_bits :: "char \<Rightarrow> char \<Rightarrow> char \<Rightarrow> 32 word \<Rightarrow> 32 word \<Rightarrow> 32 word \<Rightarrow> 32 word \<Rightarrow> 32 word" where
  "rwx_bits r w x mr mw mx ms =
     (if r = CHR ''r'' then mr else 0) OR (if w = CHR ''w'' then mw else 0) OR
     (if x \<in> set ''xst'' then mx else 0) OR (if x \<in> set ''sStT'' then ms else 0)"

fun perm_of_str :: "string \<Rightarrow> 32 word" where
  "perm_of_str [a, b, c, d, e, f, g, h, i] =
     rwx_bits a b c S_IRUSR S_IWUSR S_IXUSR S_ISUID OR rwx_bits d e f S_IRGRP S_IWGRP S_IXGRP S_ISGID OR
     rwx_bits g h i S_IROTH S_IWOTH S_IXOTH S_ISVTX"
| "perm_of_str _ = 0"

lemma and_one_bit: "(if perm AND 2 ^ k \<noteq> 0 then 2 ^ k else 0) = (perm AND 2 ^ k :: 32 word)"
  by (rule bit_word_eqI) (auto simp: and_exp_eq_0_iff_not_bit bit_simps)

lemma perm_pow:
  "S_IRUSR = 2 ^ 8" "S_IWUSR = 2 ^ 7" "S_IXUSR = 2 ^ 6" "S_ISUID = 2 ^ 11" "S_IRGRP = 2 ^ 5" "S_IWGRP = 2 ^ 4" "S_IXGRP = 2 ^ 3" "S_ISGID = 2 ^ 10"
  "S_IROTH = 2 ^ 2" "S_IWOTH = 2 ^ 1" "S_IXOTH = 2 ^ 0" "S_ISVTX = 2 ^ 9"
  by (simp_all add: const_defs)

lemma perm_bits:
  "(if perm AND S_IRUSR \<noteq> 0 then S_IRUSR else 0) = perm AND S_IRUSR" "(if perm AND S_IWUSR \<noteq> 0 then S_IWUSR else 0) = perm AND S_IWUSR"
  "(if perm AND S_IXUSR \<noteq> 0 then S_IXUSR else 0) = perm AND S_IXUSR" "(if perm AND S_ISUID \<noteq> 0 then S_ISUID else 0) = perm AND S_ISUID"
  "(if perm AND S_IRGRP \<noteq> 0 then S_IRGRP else 0) = perm AND S_IRGRP" "(if perm AND S_IWGRP \<noteq> 0 then S_IWGRP else 0) = perm AND S_IWGRP"
  "(if perm AND S_IXGRP \<noteq> 0 then S_IXGRP else 0) = perm AND S_IXGRP" "(if perm AND S_ISGID \<noteq> 0 then S_ISGID else 0) = perm AND S_ISGID"
  "(if perm AND S_IROTH \<noteq> 0 then S_IROTH else 0) = perm AND S_IROTH" "(if perm AND S_IWOTH \<noteq> 0 then S_IWOTH else 0) = perm AND S_IWOTH"
  "(if perm AND S_IXOTH \<noteq> 0 then S_IXOTH else 0) = perm AND S_IXOTH" "(if perm AND S_ISVTX \<noteq> 0 then S_ISVTX else 0) = perm AND S_ISVTX"
  by (simp_all only: perm_pow and_one_bit)

lemma rwx_bits_chars:
  assumes "lower \<in> {CHR ''s'', CHR ''t''}" "upper = (if lower = CHR ''s'' then CHR ''S'' else CHR ''T'')"
  shows "rwx_bits (if a then CHR ''r'' else CHR ''-'') (if b then CHR ''w'' else CHR ''-'') (exec_char c d lower upper) mr mw mx ms =
    (if a then mr else 0) OR (if b then mw else 0) OR (if c then mx else 0) OR (if d then ms else 0)"
  using assms by (auto simp: rwx_bits_def exec_char_def)

text \<open>The string for a permission mask can be read back: with \<open>FP_SPECIAL\<close> it determines the twelve permission bits, without it the nine
  that are not special.\<close>

theorem filePermStr_roundtrip:
  "perm_of_str (filePermStr perm flags) = perm AND (if flags AND FP_SPECIAL \<noteq> 0 then 4095 else 511)"
proof -
  let ?sp = "flags AND FP_SPECIAL \<noteq> 0"
  have str: "filePermStr perm flags = [if perm AND S_IRUSR \<noteq> 0 then CHR ''r'' else CHR ''-'', if perm AND S_IWUSR \<noteq> 0 then CHR ''w'' else CHR ''-'',
       exec_char (perm AND S_IXUSR \<noteq> 0) (perm AND S_ISUID \<noteq> 0 \<and> ?sp) (CHR ''s'') (CHR ''S''),
       if perm AND S_IRGRP \<noteq> 0 then CHR ''r'' else CHR ''-'', if perm AND S_IWGRP \<noteq> 0 then CHR ''w'' else CHR ''-'',
       exec_char (perm AND S_IXGRP \<noteq> 0) (perm AND S_ISGID \<noteq> 0 \<and> ?sp) (CHR ''s'') (CHR ''S''),
       if perm AND S_IROTH \<noteq> 0 then CHR ''r'' else CHR ''-'', if perm AND S_IWOTH \<noteq> 0 then CHR ''w'' else CHR ''-'',
       exec_char (perm AND S_IXOTH \<noteq> 0) (perm AND S_ISVTX \<noteq> 0 \<and> ?sp) (CHR ''t'') (CHR ''T'')]"
    by (simp add: filePermStr_def snprintf_def STR_SIZE_def Let_def)
  have c: "CHR ''S'' = (if CHR ''s'' = CHR ''s'' then CHR ''S'' else CHR ''T'')" "CHR ''T'' = (if CHR ''t'' = CHR ''s'' then CHR ''S'' else CHR ''T'')" by simp_all
  have special: "(if perm AND m \<noteq> 0 \<and> ?sp then m else 0) = (if ?sp then if perm AND m \<noteq> 0 then m else 0 else 0)" for m by simp
  have m: "(4095 :: 32 word) = S_IRUSR OR S_IWUSR OR S_IXUSR OR S_ISUID OR S_IRGRP OR S_IWGRP OR S_IXGRP OR S_ISGID OR S_IROTH OR S_IWOTH OR S_IXOTH OR S_ISVTX"
    "(511 :: 32 word) = S_IRUSR OR S_IWUSR OR S_IXUSR OR S_IRGRP OR S_IWGRP OR S_IXGRP OR S_IROTH OR S_IWOTH OR S_IXOTH" by (simp_all add: const_defs)
  show ?thesis
    unfolding str perm_of_str.simps rwx_bits_chars [OF insertI1 c(1)] rwx_bits_chars [OF insertI2 [OF singletonI] c(2)] special perm_bits
    by (cases ?sp) (simp_all only: m if_True if_False or.right_neutral or.left_neutral bit.conj_disj_distrib or.assoc simp_thms)
qed

section \<open>itimerspec\_from\_str.c\<close>

record timespec =
  tv_sec :: int
  tv_nsec :: int

record itimerspec =
  it_interval :: timespec
  it_value :: timespec

text \<open>The part before the slash and the one behind it.\<close>

definition time_part :: "string \<Rightarrow> timespec" where
  "time_part str = (case strchr str (CHR ''/'') of
      None \<Rightarrow> \<lparr>tv_sec = atoi str, tv_nsec = 0\<rparr>
    | Some (a, b) \<Rightarrow> \<lparr>tv_sec = atoi a, tv_nsec = atoi (tl b)\<rparr>)"

text \<open>The copy of the string is used without a test; \<open>dup_ok\<close> says whether \<^verbatim>\<open>strdup\<close> succeeds.\<close>

definition itimerspecFromStr :: "bool \<Rightarrow> string \<Rightarrow> halt + itimerspec" where
  "itimerspecFromStr dup_ok str = (if \<not> dup_ok then Inl Undef else Inr (case strchr str (CHR '':'') of
      None \<Rightarrow> \<lparr>it_interval = \<lparr>tv_sec = 0, tv_nsec = 0\<rparr>, it_value = time_part str\<rparr>
    | Some (a, b) \<Rightarrow> \<lparr>it_interval = time_part (tl b), it_value = time_part a\<rparr>))"

text \<open>The documented syntax: seconds, and optionally a slash and nanoseconds; a value, and optionally a colon and an interval.\<close>

definition show_time :: "int \<times> int option \<Rightarrow> string" where
  "show_time t = show_int (fst t) @ (case snd t of None \<Rightarrow> [] | Some n \<Rightarrow> CHR ''/'' # show_int n)"

definition show_itimer :: "int \<times> int option \<Rightarrow> (int \<times> int option) option \<Rightarrow> string" where
  "show_itimer v i = show_time v @ (case i of None \<Rightarrow> [] | Some t \<Rightarrow> CHR '':'' # show_time t)"

definition time_of :: "int \<times> int option \<Rightarrow> timespec" where
  "time_of t = \<lparr>tv_sec = fst t, tv_nsec = (case snd t of None \<Rightarrow> 0 | Some n \<Rightarrow> n)\<rparr>"

definition int_range :: "int \<times> int option \<Rightarrow> bool" where
  "int_range t \<longleftrightarrow> INT_MIN \<le> fst t \<and> fst t \<le> INT_MAX \<and> (case snd t of None \<Rightarrow> True | Some n \<Rightarrow> INT_MIN \<le> n \<and> n \<le> INT_MAX)"

lemma time_chars: "CHR ''/'' \<notin> set (show_int v)" "CHR '':'' \<notin> set (show_int v)"
proof -
  have "\<not> is_digit 10 (CHR ''/'')" "\<not> is_digit 10 (CHR '':'')" by code_simp+
  then show "CHR ''/'' \<notin> set (show_int v)" "CHR '':'' \<notin> set (show_int v)"
    using show_int_chars [of _ v] is_digit_digit_char [of _ 10] by fastforce+
qed

lemma time_part_show: "int_range t \<Longrightarrow> time_part (show_time t) = time_of t"
proof -
  assume r: "int_range t"
  have "atoi (show_int v) = v" if "INT_MIN \<le> v" "v \<le> INT_MAX" for v using atoi_show_int [of v "[]"] that by simp
  moreover have "strchr (show_int (fst t)) (CHR ''/'') = None" by (simp add: time_chars)
  ultimately show "time_part (show_time t) = time_of t"
    using r strchr_app [of "CHR ''/''" "show_int (fst t)"] time_chars [of "fst t"]
    by (cases "snd t") (simp_all add: time_part_def show_time_def time_of_def int_range_def del: strchr_None)
qed

text \<open>Every timer setting written in the documented syntax is read as it was meant: the numbers of the value and of the interval, if they
  fit an \<^verbatim>\<open>int\<close>, and 0 for each part that is left out.\<close>

theorem itimerspec_roundtrip:
  assumes "int_range v" "case i of None \<Rightarrow> True | Some t \<Rightarrow> int_range t"
  shows "itimerspecFromStr True (show_itimer v i) =
    Inr \<lparr>it_interval = (case i of None \<Rightarrow> \<lparr>tv_sec = 0, tv_nsec = 0\<rparr> | Some t \<Rightarrow> time_of t), it_value = time_of v\<rparr>"
proof -
  have "CHR '':'' \<notin> set (show_time v)" by (simp add: show_time_def time_chars split: option.split)
  moreover from this have "strchr (show_time v) (CHR '':'') = None" by simp
  ultimately show ?thesis
    using strchr_app [of "CHR '':''" "show_time v"] assms
    by (cases i) (simp_all add: itimerspecFromStr_def show_itimer_def time_part_show del: strchr_None)
qed

theorem itimerspec_roundtrip_witness:
  "itimerspecFromStr True ''2/500:1'' = Inr \<lparr>it_interval = \<lparr>tv_sec = 1, tv_nsec = 0\<rparr>, it_value = \<lparr>tv_sec = 2, tv_nsec = 500\<rparr>\<rparr>"
proof -
  have "show_itimer (2, Some 500) (Some (1, None)) = ''2/500:1''" by code_simp
  with itimerspec_roundtrip [of "(2, Some 500)" "Some (1, None)"] show ?thesis by (simp add: int_range_def time_of_def const_defs)
qed

section \<open>print\_wait\_status.c\<close>

text \<open>The macros of \<^verbatim>\<open>sys/wait.h\<close> the function uses. \<open>WIFSIGNALED\<close> adds 1 to the signal number, takes it as a signed byte and shifts.\<close>

definition WTERMSIG :: "32 word \<Rightarrow> int" where "WTERMSIG st = uint (st AND 0x7f)"
definition WEXITSTATUS :: "32 word \<Rightarrow> int" where "WEXITSTATUS st = uint (drop_bit 8 (st AND 0xff00))"
definition WIFEXITED :: "32 word \<Rightarrow> bool" where "WIFEXITED st \<longleftrightarrow> WTERMSIG st = 0"
definition WIFSIGNALED :: "32 word \<Rightarrow> bool" where
  "WIFSIGNALED st \<longleftrightarrow> 0 < (WTERMSIG st + 1 + 128) mod 256 - 128 \<and> 0 < ((WTERMSIG st + 1 + 128) mod 256 - 128) div 2"
definition WIFSTOPPED :: "32 word \<Rightarrow> bool" where "WIFSTOPPED st \<longleftrightarrow> st AND 0xff = 0x7f"
definition WIFCONTINUED :: "32 word \<Rightarrow> bool" where "WIFCONTINUED st \<longleftrightarrow> st = 0xffff"
definition WCOREDUMP :: "32 word \<Rightarrow> bool" where "WCOREDUMP st \<longleftrightarrow> st AND 0x80 \<noteq> 0"

definition wait_text :: "(int \<Rightarrow> string) \<Rightarrow> 32 word \<Rightarrow> string" where
  "wait_text strsignal status =
     (if WIFEXITED status then ''child exited, status='' @ show_int (WEXITSTATUS status) @ [NL]
      else if WIFSIGNALED status then
        ''child killed by signal '' @ show_int (WTERMSIG status) @ '' ('' @ strsignal (WTERMSIG status) @ '')'' @
        (if WCOREDUMP status then '' (core dumped)'' else []) @ [NL]
      else if WIFSTOPPED status then
        ''child stopped by signal '' @ show_int (WEXITSTATUS status) @ '' ('' @ strsignal (WEXITSTATUS status) @ '')'' @ [NL]
      else if WIFCONTINUED status then ''child continued'' @ [NL]
      else ''what happened to this child? (status='' @ show_base 16 (unat status) @ '')'' @ [NL])"

definition printWaitStatus :: "(int \<Rightarrow> string) \<Rightarrow> string option \<Rightarrow> 32 word \<Rightarrow> ('a proc_io_scheme, unit) prog" where
  "printWaitStatus strsignal msg status =
     andthen (case msg of None \<Rightarrow> ret () | Some m \<Rightarrow> printfM m) (printfM (wait_text strsignal status))"

text \<open>What can have happened to a child, and the status the kernel makes of it.\<close>

datatype child_event = Exited nat | Signaled nat bool | Stopped nat | Continued

fun wait_status :: "child_event \<Rightarrow> 32 word" where
  "wait_status (Exited c) = word_of_nat (c mod 256 * 256)"
| "wait_status (Signaled sig core) = word_of_nat (sig + (if core then 128 else 0))"
| "wait_status (Stopped sig) = word_of_nat (sig * 256 + 127)"
| "wait_status Continued = 0xffff"

fun event_ok :: "child_event \<Rightarrow> bool" where
  "event_ok (Signaled sig core) \<longleftrightarrow> 0 < sig \<and> sig < 127"
| "event_ok (Stopped sig) \<longleftrightarrow> 0 < sig \<and> sig < 127"
| "event_ok _ \<longleftrightarrow> True"

fun event_text :: "(int \<Rightarrow> string) \<Rightarrow> child_event \<Rightarrow> string" where
  "event_text ss (Exited c) = ''child exited, status='' @ show_nat (c mod 256) @ [NL]"
| "event_text ss (Signaled sig core) = ''child killed by signal '' @ show_nat sig @ '' ('' @ ss (int sig) @ '')'' @ (if core then '' (core dumped)'' else []) @ [NL]"
| "event_text ss (Stopped sig) = ''child stopped by signal '' @ show_nat sig @ '' ('' @ ss (int sig) @ '')'' @ [NL]"
| "event_text ss Continued = ''child continued'' @ [NL]"

lemma uint_small: "n < 65536 \<Longrightarrow> uint (word_of_nat n :: 32 word) = int n"
  by (simp add: uint_nat unat_of_nat)

lemma uint_and_mask: "uint (w AND mask k) = uint w mod 2 ^ k" for w :: "32 word"
  by (simp add: unsigned_take_bit_eq flip: take_bit_eq_mask) (simp add: take_bit_eq_mod)

lemma status_fields:
  assumes "n < 65536"
  defines "w \<equiv> word_of_nat n :: 32 word"
  shows "WTERMSIG w = int (n mod 128)" "WEXITSTATUS w = int (n div 256)" "WIFSTOPPED w \<longleftrightarrow> n mod 256 = 127" "WCOREDUMP w \<longleftrightarrow> odd (n div 128)"
proof -
  have m: "(0x7f :: 32 word) = mask 7" "(0xff :: 32 word) = mask 8" by (simp_all add: mask_eq_exp_minus_1)
  have u: "uint w = int n" unfolding w_def by (rule uint_small [OF assms(1)])
  show "WTERMSIG w = int (n mod 128)" by (simp add: WTERMSIG_def m uint_and_mask u zmod_int)
  have "drop_bit 8 (w AND 0xff00) = drop_bit 8 w AND mask 8" by (simp add: drop_bit_and mask_eq_exp_minus_1)
  then have "WEXITSTATUS w = uint (drop_bit 8 w) mod 2 ^ 8" by (simp add: WEXITSTATUS_def uint_and_mask)
  also have "uint (drop_bit 8 w) = int (n div 256)" by (simp add: drop_bit_eq_div uint_div_distrib u zdiv_int)
  finally show "WEXITSTATUS w = int (n div 256)" using assms(1) by (simp add: zmod_int [symmetric])
  have "uint (0x7f :: 32 word) = 127" by simp
  then have "WIFSTOPPED w \<longleftrightarrow> uint (w AND mask 8) = 127" unfolding WIFSTOPPED_def m(2) by (simp add: word_uint_eq_iff)
  also have "uint (w AND mask 8) = int (n mod 256)" by (simp add: uint_and_mask u zmod_int)
  also have "int (n mod 256) = 127 \<longleftrightarrow> n mod 256 = 127" by linarith
  finally show "WIFSTOPPED w \<longleftrightarrow> n mod 256 = 127" .
  have "WCOREDUMP w \<longleftrightarrow> bit w 7" using and_exp_eq_0_iff_not_bit [of w 7] by (simp add: WCOREDUMP_def)
  also have "bit w 7 \<longleftrightarrow> bit (uint w) 7" by (simp add: bit_uint_iff)
  also have "\<dots> \<longleftrightarrow> odd (int (n div 128))" by (simp add: u bit_iff_odd zdiv_int)
  also have "\<dots> \<longleftrightarrow> odd (n div 128)" by (rule arg_cong [of _ _ Not]) (rule even_of_nat)
  finally show "WCOREDUMP w \<longleftrightarrow> odd (n div 128)" .
qed

lemma wait_text_event:
  assumes "event_ok e"
  shows "wait_text ss (wait_status e) = event_text ss e"
proof (cases e)
  case (Exited c)
  have "c mod 256 * 256 < 65536" by simp
  note f = status_fields [OF this]
  have "c mod 256 * 256 mod 128 = 0" by (simp add: mod_mult_right_eq [symmetric])
  with Exited f show ?thesis by (simp add: wait_text_def WIFEXITED_def show_int_def)
next
  case (Signaled sig core)
  with assms have s: "0 < sig" "sig < 127" by simp_all
  define n where "n = sig + (if core then 128 else 0)"
  have "(sig + 128) div 128 = 1" "sig div 128 = 0" using s by simp_all
  with s have n: "n < 65536" "n mod 128 = sig" "odd (n div 128) \<longleftrightarrow> core" by (auto simp: n_def)
  note f = status_fields [OF n(1)]
  have "wait_status e = word_of_nat n" by (simp add: Signaled n_def)
  moreover have "WIFSIGNALED (word_of_nat n)" using s n f(1) by (simp add: WIFSIGNALED_def)
  ultimately show ?thesis using s n f Signaled by (simp add: wait_text_def WIFEXITED_def show_int_def)
next
  case (Stopped sig)
  with assms have s: "0 < sig" "sig < 127" by simp_all
  define n where "n = sig * 256 + 127"
  have "n = 127 + 128 * (2 * sig)" by (simp add: n_def)
  then have "n mod 128 = 127" by (simp only: mod_mult_self2) simp
  then have n: "n < 65536" "n mod 128 = 127" "n mod 256 = 127" "n div 256 = sig" using s by (simp_all add: n_def)
  note f = status_fields [OF n(1)]
  have "wait_status e = word_of_nat n" by (simp add: Stopped n_def)
  moreover have "\<not> WIFSIGNALED (word_of_nat n)" using n f(1) by (simp add: WIFSIGNALED_def)
  ultimately show ?thesis using s n f Stopped by (simp add: wait_text_def WIFEXITED_def show_int_def)
next
  case Continued
  have "\<not> WIFEXITED 0xffff" "\<not> WIFSIGNALED 0xffff" "\<not> WIFSTOPPED 0xffff" "WIFCONTINUED 0xffff" by code_simp+
  with Continued show ?thesis by (simp add: wait_text_def)
qed

text \<open>What the function prints for the status of a child is what happened to the child, after the caller's message.\<close>

theorem printWaitStatus_event:
  assumes "event_ok e"
  shows "\<exists>s'. printWaitStatus ss msg (wait_status e) s = (Inr (), s') \<and>
    stdout_buf s' = stdout_buf s @ (case msg of None \<Rightarrow> [] | Some m \<Rightarrow> m) @ event_text ss e"
  using wait_text_event [OF assms, of ss] by (cases msg) (simp_all add: printWaitStatus_def printfM_def prog_simps)

theorem printWaitStatus_event_witness:
  "\<exists>s'. printWaitStatus (\<lambda>_. ''Killed'') None 137 sample_io = (Inr (), s') \<and>
    stdout_buf s' = stdout_buf sample_io @ ''child killed by signal 9 (Killed) (core dumped)'' @ [NL]"
proof -
  have "event_text (\<lambda>_. ''Killed'') (Signaled 9 True) = ''child killed by signal 9 (Killed) (core dumped)'' @ [NL]" by code_simp
  with printWaitStatus_event [of "Signaled 9 True" "\<lambda>_. ''Killed''" None sample_io] show ?thesis by simp
qed

end
