(* ===== verification/Daemon.thy ===== *)
theory Daemon
  imports Get_Num
begin

text \<open>
  \<^verbatim>\<open>tlpi-book/daemons/become_daemon.c\<close>: the steps by which a process becomes a daemon, on a table of file descriptors. The
  answers of the kernel are arguments; a new descriptor is the lowest free one. The function forks twice, so its outcome
  is that of the process that makes the step: a parent ends with \<^verbatim>\<open>_exit\<close>, the child goes on.
\<close>

section \<open>Process and kernel\<close>

definition BD_NO_CHDIR :: int where [const_defs]: "BD_NO_CHDIR = 1"
definition BD_NO_CLOSE_FILES :: int where [const_defs]: "BD_NO_CLOSE_FILES = 2"
definition BD_NO_REOPEN_STD_FDS :: int where [const_defs]: "BD_NO_REOPEN_STD_FDS = 4"
definition BD_NO_UMASK0 :: int where [const_defs]: "BD_NO_UMASK0 = 8"
definition BD_MAX_CLOSE :: int where [const_defs]: "BD_MAX_CLOSE = 8192"

record dproc =
  d_fds :: "string option list"
  d_cwd :: string
  d_umask :: nat
  d_leader :: bool
  d_new_session :: bool

text \<open>The answers: of the two forks (an error or the PID, 0 in the child), of \<^verbatim>\<open>setsid\<close>, \<^verbatim>\<open>chdir\<close>, \<^verbatim>\<open>open\<close> and \<^verbatim>\<open>dup2\<close> (whether they
  succeed) and of \<^verbatim>\<open>sysconf\<close>, a \<^verbatim>\<open>long\<close> that is -1 for no limit.\<close>

record bd_env =
  e_fork1 :: "int + int"
  e_setsid :: bool
  e_fork2 :: "int + int"
  e_chdir :: bool
  e_open_max :: int
  e_open :: bool
  e_dup2 :: "nat \<Rightarrow> bool"

definition fd_get :: "nat \<Rightarrow> string option list \<Rightarrow> string option" where
  "fd_get fd t = (if fd < length t then t ! fd else None)"

definition fd_set :: "nat \<Rightarrow> string option \<Rightarrow> string option list \<Rightarrow> string option list" where
  "fd_set fd x t = (t @ replicate (Suc fd - length t) None)[fd := x]"

definition lowest_free :: "string option list \<Rightarrow> nat" where
  "lowest_free t = length (takeWhile (\<lambda>x. x \<noteq> None) t)"

section \<open>becomeDaemon\<close>

definition close_all :: "int \<Rightarrow> string option list \<Rightarrow> string option list" where
  "close_all maxfd t = map (\<lambda>(fd, x). if int fd < maxfd then None else x) (enumerate 0 t)"

text \<open>The standard descriptors; \<open>False\<close> for a return of -1.\<close>

definition reopen_std :: "bd_env \<Rightarrow> string option list \<Rightarrow> bool \<times> string option list" where
  "reopen_std E t =
     (let t1 = fd_set 0 None t in
      if \<not> e_open E then (False, t1)
      else let fd = lowest_free t1; t2 = fd_set fd (Some ''/dev/null'') t1 in
        if fd \<noteq> 0 \<or> \<not> e_dup2 E 1 then (False, t2)
        else let t3 = fd_set 1 (fd_get 0 t2) t2 in
          if \<not> e_dup2 E 2 then (False, t3) else (True, fd_set 2 (fd_get 0 t3) t3))"

text \<open>The child of a fork does not lead a session. The limit is converted from \<^verbatim>\<open>long\<close> to \<^verbatim>\<open>int\<close>.\<close>

definition becomeDaemon :: "bd_env \<Rightarrow> int \<Rightarrow> dproc \<Rightarrow> halt + (int \<times> dproc)" where
  "becomeDaemon E flags s = (case e_fork1 E of
      Inl _ \<Rightarrow> Inr (- 1, s)
    | Inr p \<Rightarrow> if p \<noteq> 0 then Inl (UExit EXIT_SUCCESS)
      else let s = s\<lparr>d_leader := False\<rparr> in
      if \<not> e_setsid E then Inr (- 1, s)
      else let s = s\<lparr>d_leader := True, d_new_session := True\<rparr> in
        (case e_fork2 E of
           Inl _ \<Rightarrow> Inr (- 1, s)
         | Inr p \<Rightarrow> if p \<noteq> 0 then Inl (UExit EXIT_SUCCESS)
           else let s = s\<lparr>d_leader := False\<rparr>;
             s = (if has_flag flags BD_NO_UMASK0 then s else s\<lparr>d_umask := 0\<rparr>);
             s = (if has_flag flags BD_NO_CHDIR \<or> \<not> e_chdir E then s else s\<lparr>d_cwd := ''/''\<rparr>);
             maxfd = to_s32 (e_open_max E);
             maxfd = (if maxfd = - 1 then BD_MAX_CLOSE else maxfd);
             s = (if has_flag flags BD_NO_CLOSE_FILES then s else s\<lparr>d_fds := close_all maxfd (d_fds s)\<rparr>) in
           if has_flag flags BD_NO_REOPEN_STD_FDS then Inr (0, s)
           else let r = reopen_std E (d_fds s) in Inr (if fst r then 0 else - 1, s\<lparr>d_fds := snd r\<rparr>)))"

section \<open>Lemmas\<close>

lemma fd_get_set: "fd_get fd (fd_set n x t) = (if fd = n then x else fd_get fd t)"
  by (auto simp: fd_get_def fd_set_def nth_append nth_list_update)

lemma fd_get_close_all: "fd_get fd (close_all maxfd t) = (if int fd < maxfd then None else fd_get fd t)"
  by (auto simp: fd_get_def close_all_def nth_enumerate_eq)

lemma lowest_free_0: "lowest_free (fd_set 0 None t) = 0"
  by (cases t) (simp_all add: lowest_free_def fd_set_def)

lemma reopen_std_ok: "fst (reopen_std E t) \<longleftrightarrow> e_open E \<and> e_dup2 E 1 \<and> e_dup2 E 2"
  by (simp add: reopen_std_def Let_def lowest_free_0)

lemma reopen_std_fds:
  "fst (reopen_std E t) \<Longrightarrow> fd_get fd (snd (reopen_std E t)) = (if fd < 3 then Some ''/dev/null'' else fd_get fd t)"
  by (auto simp: reopen_std_def Let_def lowest_free_0 fd_get_set split: if_splits)

lemma reopen_std_others: "3 \<le> fd \<Longrightarrow> fd_get fd (snd (reopen_std E t)) = fd_get fd t"
  by (auto simp: reopen_std_def Let_def lowest_free_0 fd_get_set)

lemma flags_bits:
  "has_flag flags BD_NO_CHDIR = bit flags 0" "has_flag flags BD_NO_CLOSE_FILES = bit flags 1"
  "has_flag flags BD_NO_REOPEN_STD_FDS = bit flags 2" "has_flag flags BD_NO_UMASK0 = bit flags 3"
proof -
  have "flags AND 2 ^ n \<noteq> 0 \<longleftrightarrow> bit flags n" for n by (simp add: bit_iff_and_push_bit_not_eq_0 push_bit_eq_mult)
  from this [of 0] this [of 1] this [of 2] this [of 3] show "has_flag flags BD_NO_CHDIR = bit flags 0" "has_flag flags BD_NO_CLOSE_FILES = bit flags 1"
    "has_flag flags BD_NO_REOPEN_STD_FDS = bit flags 2" "has_flag flags BD_NO_UMASK0 = bit flags 3" by (simp_all add: has_flag_def const_defs)
qed

section \<open>Properties\<close>

text \<open>Below which descriptor files are closed: 8192 if \<^verbatim>\<open>sysconf\<close> gives no limit, otherwise the limit; a limit that is no \<^verbatim>\<open>int\<close> is taken modulo
  \<open>2 ^ 32\<close>, so that a limit from \<open>2 ^ 31\<close> on may close nothing.\<close>

definition close_limit :: "bd_env \<Rightarrow> int" where
  "close_limit E = (let m = (e_open_max E + 2 ^ 31) mod 2 ^ 32 - 2 ^ 31 in if m = - 1 then 8192 else m)"

lemma becomeDaemon_last:
  assumes "e_fork1 E = Inr 0" "e_setsid E" "e_fork2 E = Inr 0"
  shows "\<exists>r s'. becomeDaemon E flags s = Inr (r, s') \<and> r = (if bit flags 2 \<or> e_open E \<and> e_dup2 E 1 \<and> e_dup2 E 2 then 0 else - 1) \<and>
        \<not> d_leader s' \<and> d_new_session s' \<and>
        d_umask s' = (if bit flags 3 then d_umask s else 0) \<and>
        d_cwd s' = (if bit flags 0 \<or> \<not> e_chdir E then d_cwd s else ''/'') \<and>
        (\<forall>fd. if fd < 3 \<and> \<not> bit flags 2 then r = 0 \<longrightarrow> fd_get fd (d_fds s') = Some ''/dev/null''
           else fd_get fd (d_fds s') = (if int fd < close_limit E \<and> \<not> bit flags 1 then None else fd_get fd (d_fds s)))"
proof -
  have lim: "(if to_s32 (e_open_max E) = - 1 then BD_MAX_CLOSE else to_s32 (e_open_max E)) = close_limit E"
    by (simp add: close_limit_def to_s32_def BD_MAX_CLOSE_def Let_def)
  define t where "t = (if bit flags 1 then d_fds s else close_all (close_limit E) (d_fds s))"
  have t: "fd_get fd t = (if int fd < close_limit E \<and> \<not> bit flags 1 then None else fd_get fd (d_fds s))" for fd
    by (simp add: t_def fd_get_close_all)
  show ?thesis
  proof (cases "bit flags 2")
    case True
    with assms show ?thesis by (simp add: becomeDaemon_def Let_def flags_bits lim fd_get_close_all)
  next
    case False
    have "\<exists>s'. becomeDaemon E flags s = Inr (if fst (reopen_std E t) then 0 else - 1, s') \<and> d_fds s' = snd (reopen_std E t) \<and> \<not> d_leader s' \<and> d_new_session s' \<and>
        d_umask s' = (if bit flags 3 then d_umask s else 0) \<and> d_cwd s' = (if bit flags 0 \<or> \<not> e_chdir E then d_cwd s else ''/'')"
      using assms False by (simp add: becomeDaemon_def Let_def flags_bits lim t_def)
    moreover have "if fd < 3 then fst (reopen_std E t) \<longrightarrow> fd_get fd (snd (reopen_std E t)) = Some ''/dev/null''
        else fd_get fd (snd (reopen_std E t)) = fd_get fd t" for fd
      using reopen_std_fds [of E t fd] reopen_std_others [of fd E t] by simp
    ultimately show ?thesis using False t by (fastforce simp: reopen_std_ok)
  qed
qed

text \<open>C33. What the function does, by the process that makes the step. The parents of the two forks end with \<^verbatim>\<open>_exit(0)\<close>, and only they. If a
  fork or \<^verbatim>\<open>setsid\<close> fails, the function returns -1 at once and nothing but the session has changed. The last child is in a new session that it does not lead; unless
  a bit of the flags says otherwise, the file mode mask is 0, the working directory is the root if \<^verbatim>\<open>chdir\<close> succeeded, which is not checked, the
  standard descriptors refer to \<^verbatim>\<open>/dev/null\<close>, no other descriptor below the limit is open, and those from the limit on are as they were. It returns 0 unless
  \<^verbatim>\<open>open\<close> or \<^verbatim>\<open>dup2\<close> fails on the standard descriptors, and -1 then.\<close>

theorem becomeDaemon_effects:
  "if e_fork1 E = Inr 0 \<and> e_setsid E \<and> e_fork2 E = Inr 0 then
     (\<exists>r s'. becomeDaemon E flags s = Inr (r, s') \<and> r = (if bit flags 2 \<or> e_open E \<and> e_dup2 E 1 \<and> e_dup2 E 2 then 0 else - 1) \<and>
        \<not> d_leader s' \<and> d_new_session s' \<and>
        d_umask s' = (if bit flags 3 then d_umask s else 0) \<and>
        d_cwd s' = (if bit flags 0 \<or> \<not> e_chdir E then d_cwd s else ''/'') \<and>
        (\<forall>fd. if fd < 3 \<and> \<not> bit flags 2 then r = 0 \<longrightarrow> fd_get fd (d_fds s') = Some ''/dev/null''
           else fd_get fd (d_fds s') = (if int fd < close_limit E \<and> \<not> bit flags 1 then None else fd_get fd (d_fds s))))
   else if \<not> isl (e_fork1 E) \<and> projr (e_fork1 E) \<noteq> 0 \<or>
     e_fork1 E = Inr 0 \<and> e_setsid E \<and> \<not> isl (e_fork2 E) \<and> projr (e_fork2 E) \<noteq> 0 then becomeDaemon E flags s = Inl (UExit EXIT_SUCCESS)
   else becomeDaemon E flags s = Inr (- 1,
     if isl (e_fork1 E) then s else if \<not> e_setsid E then s\<lparr>d_leader := False\<rparr> else s\<lparr>d_leader := True, d_new_session := True\<rparr>)"
proof (cases "e_fork1 E = Inr 0 \<and> e_setsid E \<and> e_fork2 E = Inr 0")
  case True
  with becomeDaemon_last [of E flags s] show ?thesis by simp
next
  case False
  then show ?thesis by (cases "e_fork1 E"; cases "e_fork2 E") (auto simp: becomeDaemon_def Let_def)
qed

text \<open>A daemon with no limit on descriptors: descriptor 8191 is closed, 8192 stays open.\<close>

theorem becomeDaemon_effects_witness:
  "\<exists>s'. becomeDaemon \<lparr>e_fork1 = Inr 0, e_setsid = True, e_fork2 = Inr 0, e_chdir = True, e_open_max = - 1, e_open = True, e_dup2 = \<lambda>_. True\<rparr> 0
       \<lparr>d_fds = replicate 8193 (Some ''x''), d_cwd = ''/tmp'', d_umask = 18, d_leader = True, d_new_session = False\<rparr> = Inr (0, s') \<and>
     d_cwd s' = ''/'' \<and> fd_get 0 (d_fds s') = Some ''/dev/null'' \<and> fd_get 8191 (d_fds s') = None \<and> fd_get 8192 (d_fds s') = Some ''x''"
proof -
  let ?E = "\<lparr>e_fork1 = Inr 0, e_setsid = True, e_fork2 = Inr 0, e_chdir = True, e_open_max = - 1, e_open = True, e_dup2 = \<lambda>_. True\<rparr>"
    and ?s = "\<lparr>d_fds = replicate 8193 (Some ''x''), d_cwd = ''/tmp'', d_umask = 18, d_leader = True, d_new_session = False\<rparr>"
  have "close_limit ?E = 8192" by (simp add: close_limit_def)
  moreover obtain s' where "becomeDaemon ?E 0 ?s = Inr (0, s')" "d_cwd s' = ''/''"
    and fds: "\<And>fd. if fd < 3 then fd_get fd (d_fds s') = Some ''/dev/null''
      else fd_get fd (d_fds s') = (if int fd < close_limit ?E then None else fd_get fd (replicate 8193 (Some ''x'')))"
    using becomeDaemon_effects [of ?E 0 ?s] by auto
  ultimately show ?thesis using fds [of 0] fds [of 8191] fds [of 8192] by (auto simp: fd_get_def)
qed

end
