(* ===== verification/Sock_Lib.thy ===== *)
theory Sock_Lib
  imports Seqnum
begin

text \<open>
  The socket libraries \<^verbatim>\<open>tlpi-book/sockets/inet_sockets.c\<close> and \<^verbatim>\<open>unix_sockets.c\<close>. The calls are those of the record \<open>net_os\<close> of
  theory \<open>Seqnum\<close>; \<^verbatim>\<open>getaddrinfo\<close> is an argument of its own, since here the flag AI\_PASSIVE, host, service and type are passed to it. The locale \<open>socket_layer\<close> states
  what the calls do to the set of open descriptors; in it the functions are proved to leave no descriptor behind, with
  one exception. A kernel that hands out the lowest free descriptor is an instance.
\<close>

section \<open>inet\_sockets.c\<close>

definition ENOSYS :: int where [const_defs]: "ENOSYS = 38"

text \<open>The first argument is the flag AI\_PASSIVE.\<close>

type_synonym ('a, 'k) gai = "bool \<Rightarrow> string option \<Rightarrow> string \<Rightarrow> int \<Rightarrow> 'k \<Rightarrow> (int + 'a list) \<times> 'k"

text \<open>The loop over the addresses; \<open>None\<close> when none of them can be connected.\<close>

primrec inet_connect_loop :: "('a, 'k) net_os \<Rightarrow> 'a list \<Rightarrow> ('k kproc, int option) prog" where
  "inet_connect_loop N [] = ret None"
| "inet_connect_loop N (rp # rps) =
     bnd (kget (n_socket N rp)) (\<lambda>r. case r of
       None \<Rightarrow> inet_connect_loop N rps
     | Some sfd \<Rightarrow>
         bnd (kcall (n_connect N sfd rp)) (\<lambda>ok.
         if ok then ret (Some sfd)
         else bnd (kcall (n_close N sfd)) (\<lambda>_. inet_connect_loop N rps)))"

definition inetConnect :: "('a, 'k) gai \<Rightarrow> ('a, 'k) net_os \<Rightarrow> string option \<Rightarrow> string \<Rightarrow> int \<Rightarrow> ('k kproc, int option) prog" where
  "inetConnect G N host service type =
     bnd (kplain (G False host service type)) (\<lambda>r. case r of
       Inl _ \<Rightarrow> bnd (modify (\<lambda>s. s\<lparr>errno := ENOSYS\<rparr>)) (\<lambda>_. ret None)
     | Inr result \<Rightarrow> inet_connect_loop N result)"

text \<open>The loop of \<^verbatim>\<open>inetPassiveSocket\<close>: it ends the function when \<^verbatim>\<open>setsockopt\<close> fails, or finds an address to bind, or none.\<close>

datatype 'a passive_result = PReturn | PNone | PBound int 'a

primrec passive_loop :: "('a, 'k) net_os \<Rightarrow> bool \<Rightarrow> 'a list \<Rightarrow> ('k kproc, 'a passive_result) prog" where
  "passive_loop N doListen [] = ret PNone"
| "passive_loop N doListen (rp # rps) =
     bnd (kget (n_socket N rp)) (\<lambda>r. case r of
       None \<Rightarrow> passive_loop N doListen rps
     | Some sfd \<Rightarrow>
         bnd (if doListen then kcall (n_setsockopt N sfd) else ret True) (\<lambda>ok.
         if \<not> ok then bnd (kcall (n_close N sfd)) (\<lambda>_. ret PReturn)
         else bnd (kcall (n_bind N sfd rp)) (\<lambda>ok.
           if ok then ret (PBound sfd rp)
           else bnd (kcall (n_close N sfd)) (\<lambda>_. passive_loop N doListen rps))))"

text \<open>The descriptor, and the address whose length is stored in \<^verbatim>\<open>*addrlen\<close>.\<close>

definition inetPassiveSocket ::
  "('a, 'k) gai \<Rightarrow> ('a, 'k) net_os \<Rightarrow> string \<Rightarrow> int \<Rightarrow> bool \<Rightarrow> nat \<Rightarrow> ('k kproc, int option \<times> 'a option) prog" where
  "inetPassiveSocket G N service type doListen backlog =
     bnd (kplain (G True None service type)) (\<lambda>r. case r of
       Inl _ \<Rightarrow> ret (None, None)
     | Inr result \<Rightarrow> bnd (passive_loop N doListen result) (\<lambda>p. case p of
         PReturn \<Rightarrow> ret (None, None)
       | PNone \<Rightarrow> ret (None, None)
       | PBound sfd rp \<Rightarrow>
           bnd (if doListen then kcall (n_listen N sfd backlog) else ret True) (\<lambda>ok.
           if \<not> ok then ret (None, None) else ret (Some sfd, Some rp))))"

definition SOCK_STREAM :: int where [const_defs]: "SOCK_STREAM = 1"

definition inetListen :: "('a, 'k) gai \<Rightarrow> ('a, 'k) net_os \<Rightarrow> string \<Rightarrow> nat \<Rightarrow> ('k kproc, int option \<times> 'a option) prog" where
  "inetListen G N service backlog = inetPassiveSocket G N service SOCK_STREAM True backlog"

definition inetBind :: "('a, 'k) gai \<Rightarrow> ('a, 'k) net_os \<Rightarrow> string \<Rightarrow> int \<Rightarrow> ('k kproc, int option \<times> 'a option) prog" where
  "inetBind G N service type = inetPassiveSocket G N service type False 0"

definition inetAddressStr :: "('a, 'k) net_os \<Rightarrow> 'a \<Rightarrow> nat \<Rightarrow> string" where
  "inetAddressStr N addr addrStrLen = snprintf addrStrLen (case n_getnameinfo N addr of
      Some (host, service) \<Rightarrow> ''('' @ host @ '', '' @ service @ '')''
    | None \<Rightarrow> ''(?UNKNOWN?)'')"

section \<open>unix\_sockets.c\<close>

definition ENAMETOOLONG :: int where [const_defs]: "ENAMETOOLONG = 36"
definition SUN_PATH_SIZE :: nat where [const_defs]: "SUN_PATH_SIZE = 108"

text \<open>The address is the pathname in \<^verbatim>\<open>sun_path\<close>; \<open>None\<close> is a null pointer.\<close>

definition unixBuildAddress :: "string option \<Rightarrow> int + string" where
  "unixBuildAddress path = (case path of
      None \<Rightarrow> Inl EINVAL
    | Some p \<Rightarrow> if length p < SUN_PATH_SIZE then Inr (strncpy (SUN_PATH_SIZE - 1) p) else Inl ENAMETOOLONG)"

text \<open>\<^verbatim>\<open>unixConnect\<close> and \<^verbatim>\<open>unixBind\<close> differ in the call on the new socket. The error number of that call survives the \<^verbatim>\<open>close\<close>. A UNIX
  domain address carries the socket type with it.\<close>

definition unix_open ::
  "(int \<times> string, 'k) net_os \<Rightarrow> (int \<Rightarrow> int \<times> string \<Rightarrow> 'k \<Rightarrow> int option \<times> 'k) \<Rightarrow> string option \<Rightarrow> int \<Rightarrow> ('k kproc, int option) prog" where
  "unix_open N call path type = (case unixBuildAddress path of
      Inl e \<Rightarrow> bnd (modify (\<lambda>s. s\<lparr>errno := e\<rparr>)) (\<lambda>_. ret None)
    | Inr addr \<Rightarrow>
        bnd (kget (n_socket N (type, addr))) (\<lambda>r. case r of
          None \<Rightarrow> ret None
        | Some sd \<Rightarrow>
            bnd (kcall (call sd (type, addr))) (\<lambda>ok.
            if ok then ret (Some sd)
            else bnd (gets errno) (\<lambda>savedErrno.
              bnd (kcall (n_close N sd)) (\<lambda>_.
              bnd (modify (\<lambda>s. s\<lparr>errno := savedErrno\<rparr>)) (\<lambda>_. ret None))))))"

definition unixConnect :: "(int \<times> string, 'k) net_os \<Rightarrow> string option \<Rightarrow> int \<Rightarrow> ('k kproc, int option) prog" where
  "unixConnect N path type = unix_open N (n_connect N) path type"

definition unixBind :: "(int \<times> string, 'k) net_os \<Rightarrow> string option \<Rightarrow> int \<Rightarrow> ('k kproc, int option) prog" where
  "unixBind N path type = unix_open N (n_bind N) path type"

section \<open>What the calls do to descriptors\<close>

locale socket_layer =
  fixes N :: "('a, 'k) net_os"
    and fds :: "'k \<Rightarrow> int set"
  assumes socket_new: "n_socket N a k = (Inr fd, k') \<Longrightarrow> fd \<notin> fds k \<and> fds k' = insert fd (fds k)"
    and socket_none: "n_socket N a k = (Inl e, k') \<Longrightarrow> fds k' = fds k"
    and connect_fds: "n_connect N fd a k = (r, k') \<Longrightarrow> fds k' = fds k"
    and bind_fds: "n_bind N fd a k = (r, k') \<Longrightarrow> fds k' = fds k"
    and setsockopt_fds: "n_setsockopt N fd k = (r, k') \<Longrightarrow> fds k' = fds k"
    and listen_fds: "n_listen N fd b k = (r, k') \<Longrightarrow> fds k' = fds k"
    and close_fds: "n_close N fd k = (r, k') \<Longrightarrow> fds k' = fds k - {fd}"
begin

text \<open>The one descriptor a result stands for, in addition to those open before.\<close>

definition opened :: "int option \<Rightarrow> int set \<Rightarrow> int set \<Rightarrow> bool" where
  "opened r before after = (case r of None \<Rightarrow> after = before | Some fd \<Rightarrow> fd \<notin> before \<and> after = insert fd before)"

lemma connect_loop_opened:
  "\<exists>r s'. inet_connect_loop N rps s = (Inr r, s') \<and> opened r (fds (ker s)) (fds (ker s'))"
proof (induction rps arbitrary: s)
  case Nil
  then show ?case by (simp add: opened_def)
next
  case (Cons rp rps)
  obtain x k where sk: "n_socket N rp (ker s) = (x, k)" by fastforce
  show ?case
  proof (cases x)
    case (Inl e)
    with sk Cons.IH [of "s\<lparr>ker := k, errno := e\<rparr>"] socket_none [of rp "ker s" e k] show ?thesis by (auto simp: prog_simps kget_def)
  next
    case (Inr fd)
    with sk have new: "fd \<notin> fds (ker s)" "fds k = insert fd (fds (ker s))" using socket_new by blast+
    obtain c k1 where cn: "n_connect N fd rp k = (c, k1)" by fastforce
    have k1: "fds k1 = fds k" by (rule connect_fds [OF cn])
    show ?thesis
    proof (cases c)
      case None
      with sk Inr cn k1 new show ?thesis by (simp add: prog_simps kget_def kcall_def opened_def)
    next
      case (Some e)
      obtain r k2 where cl: "n_close N fd k1 = (r, k2)" by fastforce
      have k2: "fds k2 = fds (ker s)" using close_fds [OF cl] k1 new by auto
      have "\<exists>s2. ker s2 = k2 \<and> inet_connect_loop N (rp # rps) s = inet_connect_loop N rps s2"
        using sk Inr cn Some cl by (cases r) (auto simp: prog_simps kget_def kcall_def intro!: exI)
      with Cons.IH k2 show ?thesis by metis
    qed
  qed
qed


lemma inetConnect_opened:
  "\<exists>r s'. inetConnect G N host service type s = (Inr r, s') \<and>
     (fst (G False host service type (ker s)) = Inl e \<longrightarrow> r = None) \<and>
     opened r (fds (snd (G False host service type (ker s)))) (fds (ker s'))"
proof -
  obtain x k where g: "G False host service type (ker s) = (x, k)" by fastforce
  show ?thesis
  proof (cases x)
    case (Inl a)
    with g show ?thesis by (simp add: inetConnect_def prog_simps kplain_def opened_def)
  next
    case (Inr rps)
    with g connect_loop_opened [of rps "s\<lparr>ker := k\<rparr>"] show ?thesis by (simp add: inetConnect_def prog_simps kplain_def)
  qed
qed

lemma closed_again:
  assumes "n_close N fd k = (r, k')" "fds k = insert fd A" "fd \<notin> A"
  shows "fds k' = A"
  using close_fds [OF assms(1)] assms(2,3) by auto

definition bound_fd :: "'a passive_result \<Rightarrow> int option" where
  "bound_fd p = (case p of PBound fd _ \<Rightarrow> Some fd | _ \<Rightarrow> None)"

lemma passive_loop_opened:
  "\<exists>p s'. passive_loop N doListen rps s = (Inr p, s') \<and> opened (bound_fd p) (fds (ker s)) (fds (ker s'))"
proof (induction rps arbitrary: s)
  case Nil
  then show ?case by (simp add: opened_def bound_fd_def)
next
  case (Cons rp rps)
  obtain x k where sk: "n_socket N rp (ker s) = (x, k)" by fastforce
  show ?case
  proof (cases x)
    case (Inl e)
    with sk Cons.IH [of "s\<lparr>ker := k, errno := e\<rparr>"] socket_none [of rp "ker s" e k] show ?thesis by (auto simp: prog_simps kget_def)
  next
    case (Inr fd)
    with sk have new: "fd \<notin> fds (ker s)" "fds k = insert fd (fds (ker s))" using socket_new by blast+
    obtain ok s1 where opt: "(if doListen then kcall (n_setsockopt N fd) else ret True) (s\<lparr>ker := k\<rparr>) = (Inr ok, s1)"
      and k1: "fds (ker s1) = insert fd (fds (ker s))"
      using setsockopt_fds new by (cases "n_setsockopt N fd k"; cases "fst (n_setsockopt N fd k)")
        (fastforce simp: kcall_def prog_simps split: if_splits)+
    have first: "passive_loop N doListen (rp # rps) s =
        (if \<not> ok then bnd (kcall (n_close N fd)) (\<lambda>_. ret PReturn)
         else bnd (kcall (n_bind N fd rp)) (\<lambda>ok. if ok then ret (PBound fd rp)
           else bnd (kcall (n_close N fd)) (\<lambda>_. passive_loop N doListen rps))) s1"
      using sk Inr opt by (simp add: bnd_def kget_def)
    obtain r k2 where cl: "n_close N fd (ker s1) = (r, k2)" by fastforce
    have k2: "fds k2 = fds (ker s)" by (rule closed_again [OF cl k1 new(1)])
    obtain b k3 where bn: "n_bind N fd rp (ker s1) = (b, k3)" by fastforce
    have k3: "fds k3 = insert fd (fds (ker s))" using bind_fds [OF bn] k1 by simp
    obtain r' k4 where cl2: "n_close N fd k3 = (r', k4)" by fastforce
    have k4: "fds k4 = fds (ker s)" by (rule closed_again [OF cl2 k3 new(1)])
    consider "\<not> ok" | "ok" "b = None" | e where "ok" "b = Some e" by (cases b) auto
    then show ?thesis
    proof cases
      case 1
      with first cl k2 show ?thesis by (cases r) (auto simp: prog_simps kcall_def opened_def bound_fd_def)
    next
      case 2
      with first bn k3 new show ?thesis by (auto simp: prog_simps kcall_def opened_def bound_fd_def)
    next
      case 3
      then have "\<exists>s2. ker s2 = k4 \<and> passive_loop N doListen (rp # rps) s = passive_loop N doListen rps s2"
        using first bn cl2 by (cases r') (auto simp: prog_simps kcall_def intro!: exI)
      with Cons.IH k4 show ?thesis by metis
    qed
  qed
qed

lemma inetPassiveSocket_opened:
  "\<exists>r x s'. inetPassiveSocket G N service type doListen backlog s = (Inr (r, x), s') \<and>
     (let before = fds (snd (G True None service type (ker s))); after = fds (ker s')
      in opened r before after \<or> r = None \<and> doListen \<and> (\<exists>fd. opened (Some fd) before after))"
proof -
  obtain g k where g: "G True None service type (ker s) = (g, k)" by fastforce
  show ?thesis
  proof (cases g)
    case (Inl e)
    with g show ?thesis by (simp add: inetPassiveSocket_def prog_simps kplain_def opened_def)
  next
    case (Inr rps)
    obtain p s1 where lp: "passive_loop N doListen rps (s\<lparr>ker := k\<rparr>) = (Inr p, s1)"
      and op: "opened (bound_fd p) (fds k) (fds (ker s1))"
      using passive_loop_opened [of doListen rps "s\<lparr>ker := k\<rparr>"] by auto
    show ?thesis
    proof (cases p)
      case (PBound fd rp)
      obtain l k2 where li: "n_listen N fd backlog (ker s1) = (l, k2)" by fastforce
      have "fds k2 = fds (ker s1)" by (rule listen_fds [OF li])
      with PBound g Inr lp op li show ?thesis
        by (cases l) (auto simp: inetPassiveSocket_def bnd_def kplain_def ret_def kcall_def opened_def bound_fd_def Let_def)
    qed (use g Inr lp op in \<open>auto simp: inetPassiveSocket_def bnd_def kplain_def ret_def opened_def bound_fd_def\<close>)
  qed
qed

end

section \<open>A kernel with a descriptor table\<close>

text \<open>Which calls fail, and with which error, is a policy; a socket takes the lowest free descriptor below the limit.\<close>

definition EMFILE :: int where [const_defs]: "EMFILE = 24"

datatype 'a sock_state = Fresh | Peer 'a | Bound 'a | Listening 'a

fun listening :: "'a sock_state \<Rightarrow> 'a sock_state" where
  "listening (Bound a) = Listening a"
| "listening x = x"

record 'a sock_kernel =
  sk_tab :: "(int \<times> 'a sock_state) list"
  sk_max :: nat

record 'a sock_policy =
  p_socket :: "'a \<Rightarrow> int option"
  p_connect :: "'a \<Rightarrow> int option"
  p_bind :: "'a \<Rightarrow> int option"
  p_setsockopt :: "int option"
  p_listen :: "int option"
  p_close :: "int option"

definition sk_fds :: "'a sock_kernel \<Rightarrow> int set" where
  "sk_fds k = fst ` set (sk_tab k)"

definition free_fd :: "'a sock_kernel \<Rightarrow> int option" where
  "free_fd k = map_option int (find (\<lambda>n. int n \<notin> sk_fds k) [0..<sk_max k])"

definition sk_set :: "int \<Rightarrow> ('a sock_state \<Rightarrow> 'a sock_state) \<Rightarrow> 'a sock_kernel \<Rightarrow> 'a sock_kernel" where
  "sk_set fd f k = k\<lparr>sk_tab := map (\<lambda>(d, x). (d, if d = fd then f x else x)) (sk_tab k)\<rparr>"

definition sk_call :: "int option \<Rightarrow> ('a sock_kernel \<Rightarrow> 'a sock_kernel) \<Rightarrow> 'a sock_kernel \<Rightarrow> int option \<times> 'a sock_kernel" where
  "sk_call r f k = (r, if r = None then f k else k)"

definition sk_socket :: "'a sock_policy \<Rightarrow> 'a \<Rightarrow> 'a sock_kernel \<Rightarrow> (int + int) \<times> 'a sock_kernel" where
  "sk_socket P a k = (case p_socket P a of
      Some e \<Rightarrow> (Inl e, k)
    | None \<Rightarrow> (case free_fd k of
        None \<Rightarrow> (Inl EMFILE, k)
      | Some fd \<Rightarrow> (Inr fd, k\<lparr>sk_tab := (fd, Fresh) # sk_tab k\<rparr>)))"

definition sk_close :: "'a sock_policy \<Rightarrow> int \<Rightarrow> 'a sock_kernel \<Rightarrow> int option \<times> 'a sock_kernel" where
  "sk_close P fd k = (p_close P, k\<lparr>sk_tab := filter (\<lambda>(d, _). d \<noteq> fd) (sk_tab k)\<rparr>)"

definition sock_os :: "'a sock_policy \<Rightarrow> ('a, 'a sock_kernel) net_os" where
  "sock_os P = \<lparr>
     n_signal = (\<lambda>k. (None, k)), n_getaddrinfo = (\<lambda>k. (Inr [], k)),
     n_socket = sk_socket P,
     n_setsockopt = (\<lambda>fd. sk_call (p_setsockopt P) (\<lambda>k. k)),
     n_bind = (\<lambda>fd a. sk_call (p_bind P a) (sk_set fd (\<lambda>_. Bound a))),
     n_connect = (\<lambda>fd a. sk_call (p_connect P a) (sk_set fd (\<lambda>_. Peer a))),
     n_listen = (\<lambda>fd backlog. sk_call (p_listen P) (sk_set fd listening)),
     n_accept = (\<lambda>fd k. (Inl 0, k)), n_getnameinfo = (\<lambda>a. None),
     n_read = (\<lambda>fd n k. (Inr [], k)), n_write = (\<lambda>fd bs k. (Inr (length bs), k)),
     n_close = sk_close P\<rparr>"

lemma sock_os_simps [simp]:
  "n_socket (sock_os P) = sk_socket P"
  "n_setsockopt (sock_os P) fd = sk_call (p_setsockopt P) (\<lambda>k. k)"
  "n_bind (sock_os P) fd a = sk_call (p_bind P a) (sk_set fd (\<lambda>_. Bound a))"
  "n_connect (sock_os P) fd a = sk_call (p_connect P a) (sk_set fd (\<lambda>_. Peer a))"
  "n_listen (sock_os P) fd b = sk_call (p_listen P) (sk_set fd listening)"
  "n_close (sock_os P) = sk_close P"
  by (simp_all add: sock_os_def)

lemma sk_fds_set [simp]: "sk_fds (sk_set fd f k) = sk_fds k"
  by (force simp: sk_fds_def sk_set_def)

lemma free_fd_new: "free_fd k = Some fd \<Longrightarrow> fd \<notin> sk_fds k"
  by (auto simp: free_fd_def find_Some_iff)

lemma sk_call_fds: "sk_call r f k = (x, k') \<Longrightarrow> (\<And>k. sk_fds (f k) = sk_fds k) \<Longrightarrow> sk_fds k' = sk_fds k"
  by (auto simp: sk_call_def split: if_splits)

interpretation sk: socket_layer "sock_os P" sk_fds
proof
  fix a k fd k' assume "n_socket (sock_os P) a k = (Inr fd, k')"
  then show "fd \<notin> sk_fds k \<and> sk_fds k' = insert fd (sk_fds k)"
    by (auto simp: sk_socket_def free_fd_new split: option.splits) (auto simp: sk_fds_def)
next
  fix a k e k' assume "n_socket (sock_os P) a k = (Inl e, k')"
  then show "sk_fds k' = sk_fds k" by (auto simp: sk_socket_def split: option.splits)
next
  fix fd k r k' assume "n_close (sock_os P) fd k = (r, k')"
  then show "sk_fds k' = sk_fds k - {fd}" by (auto simp: sk_close_def sk_fds_def)
qed (auto dest: sk_call_fds)

section \<open>What the functions return\<close>

definition sk_add :: "int \<Rightarrow> 'a sock_state \<Rightarrow> 'a sock_kernel \<Rightarrow> 'a sock_kernel" where
  "sk_add fd x k = k\<lparr>sk_tab := (fd, x) # sk_tab k\<rparr>"

lemma sk_set_add [simp]: "fd \<notin> sk_fds k \<Longrightarrow> sk_set fd f (sk_add fd x k) = sk_add fd (f x) k"
  by (cases k) (auto simp: sk_add_def sk_set_def sk_fds_def image_iff intro!: map_idI)

lemma sk_close_add [simp]: "fd \<notin> sk_fds k \<Longrightarrow> sk_close P fd (sk_add fd x k) = (p_close P, k)"
  by (cases k) (auto simp: sk_add_def sk_close_def sk_fds_def image_iff intro!: filter_True)

text \<open>The addresses for which a socket can be made and the call on it succeeds.\<close>

definition can_open :: "'a sock_policy \<Rightarrow> ('a \<Rightarrow> int option) \<Rightarrow> 'a sock_kernel \<Rightarrow> 'a \<Rightarrow> bool" where
  "can_open P call k a = (p_socket P a = None \<and> free_fd k \<noteq> None \<and> call a = None)"

lemma sk_socket_cases:
  obtains e where "sk_socket P a k = (Inl e, k)" "\<not> can_open P call k a"
  | fd where "sk_socket P a k = (Inr fd, sk_add fd Fresh k)" "free_fd k = Some fd" "fd \<notin> sk_fds k"
      "can_open P call k a = (call a = None)"
  by (cases "p_socket P a"; cases "free_fd k") (auto simp: sk_socket_def can_open_def sk_add_def dest: free_fd_new)

lemma connect_loop_finds:
  "\<exists>e. inet_connect_loop (sock_os P) rps s = (case find (can_open P (p_connect P) (ker s)) rps of
      None \<Rightarrow> (Inr None, s\<lparr>errno := e\<rparr>)
    | Some a \<Rightarrow> (Inr (free_fd (ker s)), s\<lparr>ker := sk_add (the (free_fd (ker s))) (Peer a) (ker s), errno := e\<rparr>))"
proof (induction rps arbitrary: s)
  case Nil
  then show ?case by (auto simp: prog_simps intro: exI [of _ "errno s"])
next
  case (Cons rp rps)
  show ?case
  proof (cases rule: sk_socket_cases [where P = P and a = rp and k = "ker s" and call = "p_connect P"])
    case (1 e)
    with Cons.IH [of "s\<lparr>errno := e\<rparr>"] show ?thesis by (simp add: prog_simps kget_def cong: option.case_cong)
  next
    case (2 fd)
    show ?thesis
    proof (cases "p_connect P rp")
      case None
      with 2 show ?thesis
        by (auto simp: prog_simps kget_def kcall_def sk_call_def intro: exI [of _ "errno s"])
    next
      case (Some e)
      have "\<exists>e'. inet_connect_loop (sock_os P) (rp # rps) s = inet_connect_loop (sock_os P) rps (s\<lparr>errno := e'\<rparr>)"
        using 2 Some by (cases "p_close P") (auto simp: prog_simps kget_def kcall_def sk_call_def)
      then obtain e' where "inet_connect_loop (sock_os P) (rp # rps) s = inet_connect_loop (sock_os P) rps (s\<lparr>errno := e'\<rparr>)" ..
      with Cons.IH [of "s\<lparr>errno := e'\<rparr>"] 2 Some show ?thesis by (simp cong: option.case_cong)
    qed
  qed
qed

text \<open>A resolver that looks names up without changing the kernel state.\<close>

definition resolver :: "(bool \<Rightarrow> string option \<Rightarrow> string \<Rightarrow> int \<Rightarrow> int + 'a list) \<Rightarrow> ('a, 'k) gai" where
  "resolver f flag host service type k = (f flag host service type, k)"

text \<open>\<^verbatim>\<open>inetConnect\<close> connects a socket to the first address of the list for which socket and connect succeed, and
  returns its descriptor, the lowest free one; no other descriptor is open afterwards that was not open before. When no
  address can be used, nothing stays open and it returns -1; when the name cannot be resolved the error number is ENOSYS.\<close>
theorem inetConnect_first:
  "\<exists>e. inetConnect (resolver f) (sock_os P) host service type s = (case f False host service type of
      Inl _ \<Rightarrow> (Inr None, s\<lparr>errno := ENOSYS\<rparr>)
    | Inr addrs \<Rightarrow> (case find (can_open P (p_connect P) (ker s)) addrs of
        None \<Rightarrow> (Inr None, s\<lparr>errno := e\<rparr>)
      | Some a \<Rightarrow> (Inr (free_fd (ker s)), s\<lparr>ker := sk_add (the (free_fd (ker s))) (Peer a) (ker s), errno := e\<rparr>)))"
proof (cases "f False host service type")
  case (Inl a)
  then show ?thesis by (simp add: inetConnect_def resolver_def prog_simps kplain_def)
next
  case (Inr addrs)
  with connect_loop_finds [of P addrs s] show ?thesis by (simp add: inetConnect_def resolver_def prog_simps kplain_def)
qed

lemma passive_loop_finds:
  assumes "p_setsockopt P = None"
  shows "\<exists>e. passive_loop (sock_os P) True rps s = (case find (can_open P (p_bind P) (ker s)) rps of
      None \<Rightarrow> (Inr PNone, s\<lparr>errno := e\<rparr>)
    | Some a \<Rightarrow> (Inr (PBound (the (free_fd (ker s))) a), s\<lparr>ker := sk_add (the (free_fd (ker s))) (Bound a) (ker s), errno := e\<rparr>))"
proof (induction rps arbitrary: s)
  case Nil
  then show ?case by (auto simp: prog_simps intro: exI [of _ "errno s"])
next
  case (Cons rp rps)
  show ?case
  proof (cases rule: sk_socket_cases [where P = P and a = rp and k = "ker s" and call = "p_bind P"])
    case (1 e)
    with Cons.IH [of "s\<lparr>errno := e\<rparr>"] show ?thesis by (simp add: prog_simps kget_def cong: option.case_cong)
  next
    case (2 fd)
    show ?thesis
    proof (cases "p_bind P rp")
      case None
      with 2 assms show ?thesis
        by (auto simp: prog_simps kget_def kcall_def sk_call_def intro: exI [of _ "errno s"])
    next
      case (Some e)
      have "\<exists>e'. passive_loop (sock_os P) True (rp # rps) s = passive_loop (sock_os P) True rps (s\<lparr>errno := e'\<rparr>)"
        using 2 Some assms by (cases "p_close P") (auto simp: prog_simps kget_def kcall_def sk_call_def)
      then obtain e' where "passive_loop (sock_os P) True (rp # rps) s = passive_loop (sock_os P) True rps (s\<lparr>errno := e'\<rparr>)" ..
      with Cons.IH [of "s\<lparr>errno := e'\<rparr>"] 2 Some show ?thesis by (simp cong: option.case_cong)
    qed
  qed
qed

text \<open>When SO\_REUSEADDR can be set, \<^verbatim>\<open>inetListen\<close> binds the first address that can be bound and returns the
  descriptor once listen succeeds. When listen fails it returns -1 and the bound socket stays open: the address stays
  in use and the caller has no descriptor to close.\<close>
theorem inetListen_leaks:
  assumes "p_setsockopt P = None" "f True None service SOCK_STREAM = Inr addrs"
    and "find (can_open P (p_bind P) (ker s)) addrs = Some a" "free_fd (ker s) = Some fd"
  shows "\<exists>e. inetListen (resolver f) (sock_os P) service backlog s =
    (if p_listen P = None then (Inr (Some fd, Some a), s\<lparr>ker := sk_add fd (Listening a) (ker s), errno := e\<rparr>)
     else (Inr (None, None), s\<lparr>ker := sk_add fd (Bound a) (ker s), errno := e\<rparr>))"
proof -
  obtain e where "passive_loop (sock_os P) True addrs s = (Inr (PBound fd a), s\<lparr>ker := sk_add fd (Bound a) (ker s), errno := e\<rparr>)"
    using passive_loop_finds [OF assms(1), of addrs s] assms(3,4) by auto
  then show ?thesis using assms(2) free_fd_new [OF assms(4)]
    by (cases "p_listen P") (auto simp: inetListen_def inetPassiveSocket_def resolver_def prog_simps kplain_def kcall_def sk_call_def intro: exI [of _ e])
qed

theorem inetListen_leaks_witness:
  "let P = \<lparr>p_socket = (\<lambda>a. None), p_connect = (\<lambda>a. None), p_bind = (\<lambda>a. if a = (1::nat) then Some 98 else None),
          p_setsockopt = None, p_listen = Some 98, p_close = None\<rparr>;
       s = \<lparr>stdout_buf = [], stdout_out = [], stderr_out = [], errno = 0, ef_dumpcore = None, stdio_errno = None, ker = \<lparr>sk_tab = [(0, Fresh), (2, Fresh)], sk_max = 8\<rparr>\<rparr>
   in \<exists>e. inetListen (resolver (\<lambda>_ _ _ _. Inr [1, 2])) (sock_os P) ''50000'' 5 s =
     (Inr (None, None), s\<lparr>ker := \<lparr>sk_tab = [(1, Bound 2), (0, Fresh), (2, Fresh)], sk_max = 8\<rparr>, errno := e\<rparr>)"
  unfolding Let_def
  using inetListen_leaks [where P = "\<lparr>p_socket = (\<lambda>a. None), p_connect = (\<lambda>a. None), p_bind = (\<lambda>a. if a = (1::nat) then Some 98 else None),
          p_setsockopt = None, p_listen = Some 98, p_close = None\<rparr>"
    and s = "\<lparr>stdout_buf = [], stdout_out = [], stderr_out = [], errno = 0, ef_dumpcore = None, stdio_errno = None, ker = \<lparr>sk_tab = [(0, Fresh), (2, Fresh)], sk_max = 8\<rparr>\<rparr>" and a = 2 and fd = 1
    and addrs = "[1, 2]" and service = "''50000''" and backlog = 5 and f = "\<lambda>_ _ _ _. Inr [1, 2]"]
  by (simp add: can_open_def free_fd_def sk_fds_def sk_add_def upt_rec)

lemma unixBuildAddress_path:
  "unixBuildAddress path = (case path of None \<Rightarrow> Inl EINVAL
     | Some p \<Rightarrow> if length p \<le> SUN_PATH_SIZE - 1 then Inr p else Inl ENAMETOOLONG)"
  by (auto simp: unixBuildAddress_def strncpy_id const_defs split: option.split)

text \<open>\<^verbatim>\<open>unixConnect\<close> on every branch. A null pathname gives EINVAL and one of 108 bytes or more ENAMETOOLONG, before any
  socket is made; a connect that fails leaves its own error number, whatever close does, and no descriptor.\<close>
theorem unixConnect_result:
  "unixConnect (sock_os P) path type s = (case path of
      None \<Rightarrow> (Inr None, s\<lparr>errno := EINVAL\<rparr>)
    | Some p \<Rightarrow> if SUN_PATH_SIZE \<le> length p then (Inr None, s\<lparr>errno := ENAMETOOLONG\<rparr>)
        else (case p_socket P (type, p) of
          Some e \<Rightarrow> (Inr None, s\<lparr>errno := e\<rparr>)
        | None \<Rightarrow> (case free_fd (ker s) of
            None \<Rightarrow> (Inr None, s\<lparr>errno := EMFILE\<rparr>)
          | Some fd \<Rightarrow> (case p_connect P (type, p) of
              Some e \<Rightarrow> (Inr None, s\<lparr>errno := e\<rparr>)
            | None \<Rightarrow> (Inr (Some fd), s\<lparr>ker := sk_add fd (Peer (type, p)) (ker s)\<rparr>)))))"
proof (cases path)
  case None
  then show ?thesis by (simp add: unixConnect_def unix_open_def unixBuildAddress_path prog_simps)
next
  case (Some p)
  show ?thesis
  proof (cases rule: sk_socket_cases [where P = P and a = "(type, p)" and k = "ker s" and call = "p_connect P"])
    case (1 e)
    then show ?thesis using Some
      by (auto simp: unixConnect_def unix_open_def unixBuildAddress_path prog_simps kget_def const_defs sk_socket_def split: option.splits)
  next
    case (2 fd)
    then have "p_socket P (type, p) = None" by (auto simp: sk_socket_def split: option.splits)
    then show ?thesis using Some 2
      by (cases "p_connect P (type, p)"; cases "p_close P")
        (auto simp: unixConnect_def unix_open_def unixBuildAddress_path prog_simps kget_def kcall_def sk_call_def const_defs)
  qed
qed

end
