(* ===== verification/Counter.thy ===== *)
theory Counter
  imports Runs CLib Get_Num
begin

text \<open>
  \<^verbatim>\<open>tlpi-book/threads/thread_incr.c\<close>, \<^verbatim>\<open>thread_incr_mutex.c\<close>, \<^verbatim>\<open>thread_incr_rwlock.c\<close> and \<^verbatim>\<open>thread_incr_spinlock.c\<close>: two threads that increment a global
  variable in a loop, without a lock and with three kinds of locks. Loading, incrementing and storing are steps of their own, and so are
  locking and unlocking; the steps of the threads and of the main thread interleave in any way. Incrementing INT\_MAX is undefined.
\<close>

section \<open>Model\<close>

datatype incr_lock = NoLock | Mutex | RWLock | SpinLock

datatype ipc = IFresh | ITest | ILock | ILoad | IInc | IStore | IUnlock | IReturned

record ithread =
  i_pc :: ipc
  i_j :: nat
  i_loc :: int

datatype imain = IInit | IMk nat | IJoin nat | IExit int | IUndef

record incr_st =
  i_glob :: int
  i_lock :: "nat option"
  i_thr :: "ithread list"
  i_out :: "string list"
  i_main :: imain

fun ended :: "imain \<Rightarrow> bool" where
  "ended (IExit _) = True"
| "ended IUndef = True"
| "ended _ = False"

definition put_thr :: "nat \<Rightarrow> ithread \<Rightarrow> incr_st \<Rightarrow> incr_st" where
  "put_thr i t s = s\<lparr>i_thr := (i_thr s)[i := t]\<rparr>"

definition threadFunc :: "incr_lock \<Rightarrow> nat \<Rightarrow> nat \<Rightarrow> incr_st \<Rightarrow> incr_st option" where
  "threadFunc L loops i s = (let t = i_thr s ! i in case i_pc t of
      IFresh \<Rightarrow> None
    | ITest \<Rightarrow> Some (put_thr i (t\<lparr>i_pc := if i_j t < loops then if L = NoLock then ILoad else ILock else IReturned\<rparr>) s)
    | ILock \<Rightarrow> if i_lock s = None then Some (put_thr i (t\<lparr>i_pc := ILoad\<rparr>) (s\<lparr>i_lock := Some i\<rparr>)) else None
    | ILoad \<Rightarrow> Some (put_thr i (t\<lparr>i_pc := IInc, i_loc := i_glob s\<rparr>) s)
    | IInc \<Rightarrow> if i_loc t < INT_MAX then Some (put_thr i (t\<lparr>i_pc := IStore, i_loc := i_loc t + 1\<rparr>) s) else Some (s\<lparr>i_main := IUndef\<rparr>)
    | IStore \<Rightarrow> Some (put_thr i (if L = NoLock then t\<lparr>i_pc := ITest, i_j := i_j t + 1\<rparr> else t\<lparr>i_pc := IUnlock\<rparr>) (s\<lparr>i_glob := i_loc t\<rparr>))
    | IUnlock \<Rightarrow> Some (put_thr i (t\<lparr>i_pc := ITest, i_j := i_j t + 1\<rparr>) (s\<lparr>i_lock := None\<rparr>))
    | IReturned \<Rightarrow> None)"

definition glob_line :: "int \<Rightarrow> string" where
  "glob_line v = ''glob = '' @ show_int v @ [NL]"

text \<open>The read-write lock and the spin lock are initialised by \<^verbatim>\<open>main\<close>, the mutex statically.\<close>

definition incr_main :: "incr_st \<Rightarrow> incr_st option" where
  "incr_main s = (case i_main s of
      IInit \<Rightarrow> Some (s\<lparr>i_main := IMk 0\<rparr>)
    | IMk k \<Rightarrow> Some (put_thr k ((i_thr s ! k)\<lparr>i_pc := ITest\<rparr>) (s\<lparr>i_main := if k + 1 < length (i_thr s) then IMk (k + 1) else IJoin 0\<rparr>))
    | IJoin k \<Rightarrow>
        if i_pc (i_thr s ! k) \<noteq> IReturned then None
        else if k + 1 < length (i_thr s) then Some (s\<lparr>i_main := IJoin (k + 1)\<rparr>)
        else Some (s\<lparr>i_out := i_out s @ [glob_line (i_glob s)], i_main := IExit EXIT_SUCCESS\<rparr>)
    | IExit _ \<Rightarrow> None
    | IUndef \<Rightarrow> None)"

definition incr_start :: "incr_lock \<Rightarrow> incr_st" where
  "incr_start L = \<lparr>i_glob = 0, i_lock = None, i_thr = replicate 2 \<lparr>i_pc = IFresh, i_j = 0, i_loc = 0\<rparr>, i_out = [],
     i_main = if L = RWLock \<or> L = SpinLock then IInit else IMk 0\<rparr>"

inductive incr_step :: "incr_lock \<Rightarrow> nat \<Rightarrow> incr_st \<Rightarrow> incr_st \<Rightarrow> bool" for L loops where
  thread: "\<not> ended (i_main s) \<Longrightarrow> i < length (i_thr s) \<Longrightarrow> threadFunc L loops i s = Some t \<Longrightarrow> incr_step L loops s t"
| main: "incr_main s = Some t \<Longrightarrow> incr_step L loops s t"

text \<open>Every call is checked, and ends the process when it fails.\<close>

inductive incr_xstep :: "incr_lock \<Rightarrow> nat \<Rightarrow> incr_st \<Rightarrow> incr_st \<Rightarrow> bool" for L loops where
  regular: "incr_step L loops s t \<Longrightarrow> incr_xstep L loops s t"
| fails: "\<not> ended (i_main s) \<Longrightarrow> incr_xstep L loops s (s\<lparr>i_main := IExit EXIT_FAILURE\<rparr>)"

inductive_cases incr_stepE: "incr_step L loops s t"
inductive_cases incr_xstepE: "incr_xstep L loops s t"

text \<open>The four programs.\<close>

definition thread_incr :: "nat \<Rightarrow> incr_st \<Rightarrow> incr_st \<Rightarrow> bool" where
  "thread_incr loops = incr_step NoLock loops"

definition thread_incr_mutex :: "nat \<Rightarrow> incr_st \<Rightarrow> incr_st \<Rightarrow> bool" where
  "thread_incr_mutex loops = incr_step Mutex loops"

definition thread_incr_rwlock :: "nat \<Rightarrow> incr_st \<Rightarrow> incr_st \<Rightarrow> bool" where
  "thread_incr_rwlock loops = incr_step RWLock loops"

definition thread_incr_spinlock :: "nat \<Rightarrow> incr_st \<Rightarrow> incr_st \<Rightarrow> bool" where
  "thread_incr_spinlock loops = incr_step SpinLock loops"

text \<open>The number of loops; the message of a failing \<^verbatim>\<open>getInt\<close> ends the program.\<close>

definition num_loops :: "string list \<Rightarrow> string + int" where
  "num_loops args = (case args of [] \<Rightarrow> Inr 10000000 | a # _ \<Rightarrow> getInt (Some a) GN_GT_0 (Some ''num-loops''))"

section \<open>What every interleaving keeps\<close>

text \<open>The increments a thread has stored.\<close>

definition stored :: "ithread \<Rightarrow> nat" where
  "stored t = i_j t + (if i_pc t = IUnlock then 1 else 0)"

definition total :: "incr_st \<Rightarrow> int" where
  "total s = int (sum_list (map stored (i_thr s)))"

definition inside :: "ipc \<Rightarrow> bool" where
  "inside p \<longleftrightarrow> p \<in> {ILoad, IInc, IStore, IUnlock}"

text \<open>Progress through the loop, the same in all four programs.\<close>

definition at_loop :: "nat \<Rightarrow> ithread \<Rightarrow> bool" where
  "at_loop loops t \<longleftrightarrow> (i_pc t = IFresh \<longrightarrow> i_j t = 0) \<and> (inside (i_pc t) \<or> i_pc t = ILock \<longrightarrow> i_j t < loops) \<and> i_j t \<le> loops \<and>
     (i_pc t = IReturned \<longrightarrow> i_j t = loops)"

definition main_at :: "incr_st \<Rightarrow> bool" where
  "main_at s = (case i_main s of
      IInit \<Rightarrow> i_out s = [] \<and> (\<forall>i < length (i_thr s). i_pc (i_thr s ! i) = IFresh)
    | IMk k \<Rightarrow> i_out s = [] \<and> k < length (i_thr s) \<and> (\<forall>i < length (i_thr s). k \<le> i \<longleftrightarrow> i_pc (i_thr s ! i) = IFresh)
    | IJoin k \<Rightarrow> i_out s = [] \<and> k < length (i_thr s) \<and> (\<forall>i < length (i_thr s). i_pc (i_thr s ! i) \<noteq> IFresh) \<and> (\<forall>i < k. i_pc (i_thr s ! i) = IReturned)
    | IExit st \<Rightarrow> st = EXIT_SUCCESS \<longrightarrow> i_out s = [glob_line (i_glob s)] \<and> (\<forall>i < length (i_thr s). i_pc (i_thr s ! i) = IReturned)
    | IUndef \<Rightarrow> True)"

text \<open>What the threads know of the variable: exactly its value with a lock, only a bound without.\<close>

definition sees :: "incr_lock \<Rightarrow> incr_st \<Rightarrow> nat \<Rightarrow> bool" where
  "sees L s i = (let t = i_thr s ! i in
     if L = NoLock then (i_pc t = IInc \<longrightarrow> i_loc t \<le> total s) \<and> (i_pc t = IStore \<longrightarrow> i_loc t \<le> total s + 1) \<and> i_pc t \<notin> {ILock, IUnlock}
     else (inside (i_pc t) \<longleftrightarrow> i_lock s = Some i) \<and> (i_pc t = IInc \<longrightarrow> i_loc t = total s) \<and> (i_pc t = IStore \<longrightarrow> i_loc t = total s + 1))"

definition incr_inv :: "incr_lock \<Rightarrow> nat \<Rightarrow> incr_st \<Rightarrow> bool" where
  "incr_inv L loops s \<longleftrightarrow> length (i_thr s) = 2 \<and> (\<forall>i < 2. at_loop loops (i_thr s ! i) \<and> sees L s i) \<and>
     (if L = NoLock then i_glob s \<le> total s else i_glob s = total s) \<and> (L = NoLock \<or> (\<forall>i. i_lock s = Some i \<longrightarrow> i < 2)) \<and> main_at s"

lemma all2: "(\<forall>i < 2. P i) \<longleftrightarrow> P 0 \<and> P (1 :: nat)"
  by (auto simp: less_2_cases_iff)

lemma incr_start_inv: "incr_inv L loops (incr_start L)"
  by (auto simp: incr_inv_def incr_start_def at_loop_def sees_def inside_def main_at_def stored_def total_def sum_list_replicate)

lemma two_threads:
  assumes "length (i_thr s) = 2"
  obtains a b where "i_thr s = [a, b]"
  using assms by (auto simp: numeral_2_eq_2 length_Suc_conv)

lemma main_at_thread:
  assumes "main_at s" "\<not> ended (i_main s)" "i < length (i_thr s)" "i_pc (i_thr s ! i) \<notin> {IFresh, IReturned}" "i_pc t \<noteq> IFresh"
    and "i_out s' = i_out s" "i_main s' = i_main s" "i_thr s' = (i_thr s)[i := t]"
  shows "main_at s'"
  using assms by (cases "i_main s") (auto simp: main_at_def nth_list_update)

lemma thread_not_idle: "threadFunc L loops i s = Some t \<Longrightarrow> i_pc (i_thr s ! i) \<notin> {IFresh, IReturned}"
  by (auto simp: threadFunc_def Let_def)

text \<open>A step of a thread changes only that thread, the lock and the variable, or has undefined behaviour.\<close>

lemma thread_main_at:
  assumes "threadFunc L loops i s = Some t" "main_at s" "\<not> ended (i_main s)" "i < length (i_thr s)"
  shows "main_at t"
proof (cases "i_main t = IUndef")
  case False
  have "i_pc (i_thr t ! i) \<noteq> IFresh \<and> i_out t = i_out s \<and> i_main t = i_main s \<and> i_thr t = (i_thr s)[i := i_thr t ! i]"
    using assms(1,4) False by (auto simp: threadFunc_def Let_def put_thr_def split: ipc.splits if_splits)
  then show ?thesis using main_at_thread [OF assms(2-4) thread_not_idle [OF assms(1)]] by blast
qed (simp add: main_at_def)

lemma thread_upd:
  assumes "threadFunc L loops i s = Some t" "i < length (i_thr s)"
  shows "i_thr t = (i_thr s)[i := i_thr t ! i]"
  using assms by (cases "i_pc (i_thr s ! i)") (auto simp: threadFunc_def put_thr_def Let_def split: if_splits)

lemma thread_cases:
  assumes "threadFunc L loops i s = Some t" "i < length (i_thr s)"
  obtains (test) "i_pc (i_thr s ! i) = ITest" "i_glob t = i_glob s" "i_lock t = i_lock s"
      "i_thr t ! i = (i_thr s ! i)\<lparr>i_pc := if i_j (i_thr s ! i) < loops then if L = NoLock then ILoad else ILock else IReturned\<rparr>"
  | (lock) "i_pc (i_thr s ! i) = ILock" "i_glob t = i_glob s" "i_lock s = None" "i_lock t = Some i" "i_thr t ! i = (i_thr s ! i)\<lparr>i_pc := ILoad\<rparr>"
  | (load) "i_pc (i_thr s ! i) = ILoad" "i_glob t = i_glob s" "i_lock t = i_lock s" "i_thr t ! i = (i_thr s ! i)\<lparr>i_pc := IInc, i_loc := i_glob s\<rparr>"
  | (inc) "i_pc (i_thr s ! i) = IInc" "i_glob t = i_glob s" "i_lock t = i_lock s" "i_loc (i_thr s ! i) < INT_MAX"
      "i_thr t ! i = (i_thr s ! i)\<lparr>i_pc := IStore, i_loc := i_loc (i_thr s ! i) + 1\<rparr>"
  | (undef) "i_pc (i_thr s ! i) = IInc" "i_glob t = i_glob s" "i_lock t = i_lock s" "i_thr t ! i = i_thr s ! i" "i_main t = IUndef"
      "INT_MAX \<le> i_loc (i_thr s ! i)"
  | (store) "i_pc (i_thr s ! i) = IStore" "i_glob t = i_loc (i_thr s ! i)" "i_lock t = i_lock s"
      "i_thr t ! i = (if L = NoLock then (i_thr s ! i)\<lparr>i_pc := ITest, i_j := i_j (i_thr s ! i) + 1\<rparr> else (i_thr s ! i)\<lparr>i_pc := IUnlock\<rparr>)"
  | (unlock) "i_pc (i_thr s ! i) = IUnlock" "i_glob t = i_glob s" "i_lock t = None" "i_thr t ! i = (i_thr s ! i)\<lparr>i_pc := ITest, i_j := i_j (i_thr s ! i) + 1\<rparr>"
  using assms by (cases "i_pc (i_thr s ! i)") (auto simp: threadFunc_def put_thr_def Let_def split: if_splits)

lemma thread_others:
  assumes "threadFunc L loops i s = Some t" "i < length (i_thr s)"
  shows "length (i_thr t) = length (i_thr s)" "k \<noteq> i \<Longrightarrow> i_thr t ! k = i_thr s ! k"
  by (subst thread_upd [OF assms], simp)+

lemma thread_at_loop:
  assumes "threadFunc L loops i s = Some t" "i < length (i_thr s)" "at_loop loops (i_thr s ! i)"
  shows "at_loop loops (i_thr t ! i)"
  using assms(3) by (cases rule: thread_cases [OF assms(1,2)]) (simp_all add: at_loop_def inside_def)

lemma sum_map_update_int:
  assumes "i < length xs"
  shows "int (sum_list (map f (xs[i := x]))) = int (sum_list (map f xs)) - int (f (xs ! i)) + int (f x)"
  using arg_cong [OF sum_map_update_nat [OF assms, of f x], of int] by simp

lemma thread_total:
  assumes "threadFunc L loops i s = Some t" "i < length (i_thr s)"
  shows "total t = total s + (if i_pc (i_thr s ! i) = IStore then 1 else 0)"
proof -
  have "stored (i_thr t ! i) = stored (i_thr s ! i) + (if i_pc (i_thr s ! i) = IStore then 1 else 0)"
    by (cases rule: thread_cases [OF assms]) (simp_all add: stored_def)
  with sum_map_update_int [OF assms(2), of stored "i_thr t ! i"] thread_upd [OF assms] show ?thesis by (simp add: total_def)
qed

text \<open>With a lock the other thread is outside when this one is inside.\<close>

lemma thread_sees:
  assumes "threadFunc L loops i s = Some t" "i < length (i_thr s)" "sees L s i" "L = NoLock \<or> i_glob s = total s"
    and "L \<noteq> NoLock \<or> i_glob s \<le> total s"
  shows "sees L t i" "k \<noteq> i \<Longrightarrow> sees L s k \<Longrightarrow> sees L t k" "L = NoLock \<Longrightarrow> i_glob t \<le> total t" "L \<noteq> NoLock \<Longrightarrow> i_glob t = total t"
    and "L \<noteq> NoLock \<Longrightarrow> i_lock t = Some m \<Longrightarrow> i_lock s = Some m \<or> m = i"
proof -
  note tot = thread_total [OF assms(1,2)] and oth = thread_others(2) [OF assms(1,2)]
  show "sees L t i"
  proof (cases "L = NoLock")
    case True
    with assms(3,5) show ?thesis unfolding sees_def tot by (cases rule: thread_cases [OF assms(1,2)]) (simp_all add: Let_def)
  next
    case False
    with assms(3,4) show ?thesis unfolding sees_def tot by (cases rule: thread_cases [OF assms(1,2)]) (simp_all add: Let_def inside_def)
  qed
  show "L = NoLock \<Longrightarrow> i_glob t \<le> total t" "L \<noteq> NoLock \<Longrightarrow> i_glob t = total t"
    using assms(3-5) unfolding tot by (cases rule: thread_cases [OF assms(1,2)]; simp add: sees_def Let_def)+
  show "L \<noteq> NoLock \<Longrightarrow> i_lock t = Some m \<Longrightarrow> i_lock s = Some m \<or> m = i"
    by (cases rule: thread_cases [OF assms(1,2)]) simp_all
  assume k: "k \<noteq> i" "sees L s k"
  have lock: "L \<noteq> NoLock \<Longrightarrow> (i_lock t = Some k) = (i_lock s = Some k)"
    using assms(3) k(1) by (cases rule: thread_cases [OF assms(1,2)]) (simp_all add: sees_def Let_def inside_def)
  have out: "L \<noteq> NoLock \<Longrightarrow> i_pc (i_thr s ! i) = IStore \<Longrightarrow> \<not> inside (i_pc (i_thr s ! k))"
    using assms(3) k by (simp add: sees_def Let_def) (auto simp: inside_def)
  show "sees L t k"
    using k oth [OF k(1)] lock tot out by (auto simp: sees_def Let_def inside_def split: if_splits)
qed

lemma ithread_inv:
  assumes "incr_inv L loops s" "\<not> ended (i_main s)" "i < length (i_thr s)" "threadFunc L loops i s = Some t"
  shows "incr_inv L loops t"
proof -
  from assms(1) have len: "length (i_thr s) = 2" and inv: "\<And>k. k < 2 \<Longrightarrow> at_loop loops (i_thr s ! k)" "\<And>k. k < 2 \<Longrightarrow> sees L s k"
    and glob: "L = NoLock \<or> i_glob s = total s" "L \<noteq> NoLock \<or> i_glob s \<le> total s"
    and lock: "L = NoLock \<or> (\<forall>i. i_lock s = Some i \<longrightarrow> i < 2)" and m: "main_at s"
    by (auto simp: incr_inv_def split: if_splits)
  have i: "i < 2" using assms(3) len by simp
  note sees = thread_sees [OF assms(4,3) inv(2) [OF i] glob]
  have "at_loop loops (i_thr t ! k) \<and> sees L t k" if "k < 2" for k
    using inv(1,2) [OF that] thread_at_loop [OF assms(4,3)] thread_others(2) [OF assms(4,3)] sees(1,2) by (cases "k = i") auto
  moreover have "L = NoLock \<or> (\<forall>k. i_lock t = Some k \<longrightarrow> k < 2)" using sees(5) lock i by blast
  ultimately show ?thesis
    using thread_others(1) [OF assms(4,3)] len thread_main_at [OF assms(4) m assms(2,3)] sees(3,4) by (simp add: incr_inv_def)
qed

lemma created_total: "i_j (xs ! k) = 0 \<Longrightarrow> i_pc (xs ! k) = IFresh \<Longrightarrow> k < length xs \<Longrightarrow>
    sum_list (map stored (xs[k := (xs ! k)\<lparr>i_pc := ITest\<rparr>])) = sum_list (map stored xs)"
  using sum_map_update_nat [of k xs stored "(xs ! k)\<lparr>i_pc := ITest\<rparr>"] by (simp add: stored_def)

lemma incr_inv_same:
  "incr_inv L loops s \<Longrightarrow> i_thr t = i_thr s \<Longrightarrow> i_glob t = i_glob s \<Longrightarrow> i_lock t = i_lock s \<Longrightarrow> main_at t \<Longrightarrow> incr_inv L loops t"
  by (cases "L = NoLock") (simp_all add: incr_inv_def sees_def total_def)

lemma imain_inv:
  assumes "incr_inv L loops s" "incr_main s = Some t"
  shows "incr_inv L loops t"
proof (cases "i_main s")
  case (IMk k)
  with assms(1) have k: "k < 2" "length (i_thr s) = 2" "i_pc (i_thr s ! k) = IFresh" "i_j (i_thr s ! k) = 0"
    by (auto simp: incr_inv_def main_at_def at_loop_def)
  have t: "t = put_thr k ((i_thr s ! k)\<lparr>i_pc := ITest\<rparr>) (s\<lparr>i_main := if k + 1 < 2 then IMk (k + 1) else IJoin 0\<rparr>)"
    using assms(2) IMk k(2) by (simp add: incr_main_def)
  have tot: "total t = total s" unfolding t total_def put_thr_def using created_total [of "i_thr s" k] k by simp
  have "at_loop loops (i_thr t ! i) \<and> sees L t i" if "i < 2" for i
  proof -
    from assms(1) that have i: "at_loop loops (i_thr s ! i)" "sees L s i" by (auto simp: incr_inv_def)
    have thr: "i_thr t ! i = (if i = k then (i_thr s ! k)\<lparr>i_pc := ITest\<rparr> else i_thr s ! i)" "i_lock t = i_lock s"
      using k that by (simp_all add: t put_thr_def)
    show ?thesis
      using i k thr by (cases "i = k"; cases "L = NoLock") (simp_all add: tot at_loop_def sees_def inside_def Let_def)
  qed
  moreover have "main_at t"
    using assms(1) IMk k unfolding t put_thr_def
    by (auto simp: incr_inv_def main_at_def nth_list_update less_2_cases_iff)
  ultimately show ?thesis using assms(1) tot k(2) unfolding t put_thr_def by (simp add: incr_inv_def)
next
  case (IJoin k)
  with assms(1) have k: "k < 2" "i_out s = []" "length (i_thr s) = 2" "\<And>i. i < 2 \<Longrightarrow> i_pc (i_thr s ! i) \<noteq> IFresh"
    "\<And>i. i < k \<Longrightarrow> i_pc (i_thr s ! i) = IReturned" by (simp_all add: incr_inv_def main_at_def)
  have "i_pc (i_thr s ! i) = IReturned" if "i < Suc k" for i
    using k(5) that assms(2) IJoin by (cases "i = k") (auto simp: incr_main_def split: if_splits)
  then have "main_at t"
    using assms(2) IJoin k(1-4) by (cases "k = 0") (auto simp: incr_main_def main_at_def split: if_splits)
  with IJoin assms(2) show ?thesis by (intro incr_inv_same [OF assms(1)]) (auto simp: incr_main_def split: if_splits)
qed (use assms in \<open>auto simp: incr_main_def incr_inv_def main_at_def sees_def total_def Let_def\<close>)

lemma incr_step_inv: "incr_inv L loops s \<Longrightarrow> incr_step L loops s t \<Longrightarrow> incr_inv L loops t"
  by (auto elim!: incr_stepE intro: ithread_inv imain_inv)

lemma incr_xstep_inv:
  assumes "incr_inv L loops s" "incr_xstep L loops s t"
  shows "incr_inv L loops t"
  using assms(2)
proof (cases rule: incr_xstep.cases)
  case fails
  with assms(1) show ?thesis by (auto simp: incr_inv_def main_at_def sees_def total_def EXIT_SUCCESS_def EXIT_FAILURE_def)
qed (use assms(1) incr_step_inv in blast)

interpretation incr: invariant_system "incr_xstep L loops" "incr_inv L loops"
  by unfold_locales (rule incr_xstep_inv)

section \<open>Completion\<close>

fun pc_rank :: "ipc \<Rightarrow> nat" where
  "pc_rank IFresh = 8"
| "pc_rank ITest = 7"
| "pc_rank ILock = 6"
| "pc_rank ILoad = 5"
| "pc_rank IInc = 4"
| "pc_rank IStore = 3"
| "pc_rank IUnlock = 2"
| "pc_rank IReturned = 0"

fun main_rank :: "imain \<Rightarrow> nat" where
  "main_rank IInit = 6"
| "main_rank (IMk k) = 3 + (2 - k)"
| "main_rank (IJoin k) = 1 + (2 - k)"
| "main_rank _ = 0"

definition thr_effort :: "nat \<Rightarrow> ithread \<Rightarrow> nat" where
  "thr_effort loops t = 8 * (loops - i_j t) + pc_rank (i_pc t)"

definition incr_effort :: "nat \<Rightarrow> incr_st \<Rightarrow> nat" where
  "incr_effort loops s = sum_list (map (thr_effort loops) (i_thr s)) + main_rank (i_main s)"

lemma effort_upd:
  "i < length xs \<Longrightarrow> thr_effort loops x < thr_effort loops (xs ! i) \<Longrightarrow>
     sum_list (map (thr_effort loops) (xs[i := x])) < sum_list (map (thr_effort loops) xs)"
  using sum_map_update_nat [of i xs "thr_effort loops" x] by linarith

lemma thread_main:
  "threadFunc L loops i s = Some t \<Longrightarrow> i_main t = i_main s \<or> i_main t = IUndef \<and> i_thr t = i_thr s"
  by (cases "i_pc (i_thr s ! i)") (auto simp: threadFunc_def put_thr_def Let_def split: if_splits)

lemma main_rank_pos: "\<not> ended m \<Longrightarrow> 0 < main_rank m"
  by (cases m) auto

lemma ithread_effort:
  assumes "incr_inv L loops s" "\<not> ended (i_main s)" "i < length (i_thr s)" "threadFunc L loops i s = Some t"
  shows "incr_effort loops t < incr_effort loops s"
proof (cases "i_main t = IUndef \<and> i_thr t = i_thr s")
  case True
  with main_rank_pos [OF assms(2)] show ?thesis by (simp add: incr_effort_def)
next
  case False
  with thread_main [OF assms(4)] have m: "i_main t = i_main s" by blast
  have "at_loop loops (i_thr s ! i)" using assms(1,3) by (auto simp: incr_inv_def)
  then have "thr_effort loops (i_thr t ! i) < thr_effort loops (i_thr s ! i)"
    using m assms(2) by (cases rule: thread_cases [OF assms(4,3)]) (auto simp: thr_effort_def at_loop_def inside_def)
  from effort_upd [OF assms(3) this] show ?thesis using m thread_upd [OF assms(4,3)] by (simp add: incr_effort_def)
qed

lemma main_effort:
  assumes "incr_inv L loops s" "incr_main s = Some t"
  shows "incr_effort loops t < incr_effort loops s"
proof (cases "i_main s")
  case (IMk k)
  with assms(1) have k: "k < 2" "length (i_thr s) = 2" "i_pc (i_thr s ! k) = IFresh" by (auto simp: incr_inv_def main_at_def)
  then have "sum_list (map (thr_effort loops) ((i_thr s)[k := (i_thr s ! k)\<lparr>i_pc := ITest\<rparr>])) < sum_list (map (thr_effort loops) (i_thr s))"
    by (intro effort_upd) (simp_all add: thr_effort_def)
  with assms(2) IMk k show ?thesis by (auto simp: incr_main_def incr_effort_def put_thr_def)
qed (use assms in \<open>auto simp: incr_main_def incr_effort_def incr_inv_def main_at_def split: if_splits\<close>)

lemma thread_progress:
  assumes "incr_inv L loops s" "i < 2" "i_pc (i_thr s ! i) \<notin> {IFresh, IReturned}" "\<not> ended (i_main s)"
  shows "\<exists>t. incr_step L loops s t"
proof -
  have len: "length (i_thr s) = 2" using assms(1) by (simp add: incr_inv_def)
  have go: "\<exists>t. incr_step L loops s t" if "k < 2" "i_pc (i_thr s ! k) \<notin> {IFresh, IReturned, ILock}" for k
  proof -
    from that(2) obtain t where "threadFunc L loops k s = Some t"
      by (cases "i_pc (i_thr s ! k)"; cases "i_loc (i_thr s ! k) < INT_MAX") (auto simp: threadFunc_def Let_def)
    from incr_step.thread [OF assms(4) _ this] that(1) len show ?thesis by auto
  qed
  show ?thesis
  proof (cases "i_pc (i_thr s ! i) = ILock")
    case True
    with assms(1,2) have L: "L \<noteq> NoLock" by (auto simp: incr_inv_def sees_def Let_def)
    show ?thesis
    proof (cases "i_lock s")
      case None
      with True have "threadFunc L loops i s \<noteq> None" by (simp add: threadFunc_def Let_def)
      with assms(2,4) len show ?thesis by (metis incr_step.thread not_None_eq)
    next
      case (Some k)
      with assms(1) L have "k < 2" "inside (i_pc (i_thr s ! k))" by (auto simp: incr_inv_def sees_def Let_def)
      then show ?thesis using go by (auto simp: inside_def)
    qed
  qed (use assms go in auto)
qed

lemma incr_progress:
  assumes "incr_inv L loops s" "\<not> ended (i_main s)"
  shows "\<exists>t. incr_step L loops s t"
proof (cases "incr_main s")
  case None
  then obtain k where k: "i_main s = IJoin k" "i_pc (i_thr s ! k) \<noteq> IReturned"
    using assms(2) by (cases "i_main s") (auto simp: incr_main_def split: if_splits)
  with assms(1) have "k < 2" "i_pc (i_thr s ! k) \<noteq> IFresh" by (auto simp: incr_inv_def main_at_def)
  with k show ?thesis using thread_progress [OF assms(1) _ _ assms(2)] by blast
qed (auto intro: incr_step.main)

interpretation incrc: completing_system "incr_step L loops" "incr_inv L loops" "incr_effort loops" "\<lambda>s. ended (i_main s)"
  by unfold_locales (auto intro: ithread_inv imain_inv incr_progress elim!: incr_stepE dest: ithread_effort main_effort)

section \<open>With a lock\<close>

lemma exit_total:
  assumes "incr_inv L loops s" "i_main s = IExit EXIT_SUCCESS"
  shows "total s = 2 * int loops" "i_out s = [glob_line (i_glob s)]"
proof -
  obtain a b where ab: "i_thr s = [a, b]" using assms(1) by (auto simp: incr_inv_def elim: two_threads)
  from assms have "i_pc (i_thr s ! k) = IReturned \<and> at_loop loops (i_thr s ! k)" if "k < 2" for k
    using that by (simp add: incr_inv_def main_at_def)
  from this [of 0] this [of 1] ab show "total s = 2 * int loops" by (simp add: total_def stored_def at_loop_def)
qed (use assms in \<open>simp add: incr_inv_def main_at_def\<close>)

text \<open>When the increments of both threads together fit an \<^verbatim>\<open>int\<close> none of them is undefined; values above INT\_MAX are never stored.\<close>

definition in_range :: "nat \<Rightarrow> incr_st \<Rightarrow> bool" where
  "in_range loops s \<longleftrightarrow> (i_main s = IUndef \<longrightarrow> INT_MAX < 2 * int loops) \<and> (\<forall>st. i_main s = IExit st \<longrightarrow> st = EXIT_SUCCESS) \<and>
     i_glob s \<le> INT_MAX \<and> (\<forall>i < length (i_thr s). i_pc (i_thr s ! i) = IStore \<longrightarrow> i_loc (i_thr s ! i) \<le> INT_MAX)"

lemma inc_below:
  assumes "incr_inv L loops s" "i < 2" "i_pc (i_thr s ! i) = IInc"
  shows "i_loc (i_thr s ! i) < 2 * int loops"
proof -
  obtain a b where ab: "i_thr s = [a, b]" using assms(1) by (auto simp: incr_inv_def elim: two_threads)
  have "sees L s i" using assms(1,2) by (simp add: incr_inv_def)
  moreover from assms(1) have "at_loop loops a" "at_loop loops b" using ab by (auto simp: incr_inv_def all2)
  moreover have "stored x \<le> loops" if "at_loop loops x" for x using that by (auto simp: at_loop_def stored_def inside_def)
  ultimately have le: "stored a \<le> loops" "stored b \<le> loops" "i_loc (i_thr s ! i) \<le> total s"
    using assms(3) by (auto simp: sees_def Let_def split: if_splits)
  have lt: "stored (i_thr s ! i) < loops"
    using assms ab by (auto simp: incr_inv_def at_loop_def stored_def inside_def)
  from assms(2) consider "i = 0" | "i = 1" by linarith
  then have "total s < 2 * int loops" using le(1,2) lt ab by cases (simp_all add: total_def)
  with le(3) show ?thesis by simp
qed

lemma thread_in_range:
  assumes "in_range loops s" "incr_inv L loops s" "i < length (i_thr s)" "threadFunc L loops i s = Some t"
  shows "in_range loops t"
proof -
  have i: "i < 2" using assms(2,3) by (simp add: incr_inv_def)
  note R = assms(1) [unfolded in_range_def]
  have glob: "i_glob t \<le> INT_MAX" using R assms(3) by (cases rule: thread_cases [OF assms(4,3)]) auto
  have thr: "i_pc (i_thr t ! k) = IStore \<longrightarrow> i_loc (i_thr t ! k) \<le> INT_MAX" if "k < length (i_thr t)" for k
  proof (cases "k = i")
    case True
    then show ?thesis by (cases rule: thread_cases [OF assms(4,3)]) auto
  qed (use R that thread_others [OF assms(4,3)] in auto)
  have "i_main t = i_main s \<or> i_main t = IUndef \<and> INT_MAX < 2 * int loops"
    using inc_below [OF assms(2) i] assms(4) by (auto simp: threadFunc_def put_thr_def Let_def split: ipc.splits if_splits)
  with R glob thr show ?thesis by (auto simp: in_range_def)
qed

lemma main_in_range: "in_range loops s \<Longrightarrow> main_at s \<Longrightarrow> incr_main s = Some t \<Longrightarrow> in_range loops t"
  by (cases "i_main s") (auto simp: in_range_def main_at_def incr_main_def put_thr_def nth_list_update split: if_splits)

lemma run_in_range:
  assumes "(incr_step L loops)\<^sup>*\<^sup>* (incr_start L) s"
  shows "in_range loops s \<and> incr_inv L loops s"
  using assms
proof (induction rule: rtranclp_induct)
  case base
  show ?case using incr_start_inv by (auto simp: in_range_def incr_start_def const_defs nth_Cons split: nat.splits)
next
  case (step s t)
  then have "main_at s" by (simp add: incr_inv_def)
  with step(2,3) show ?case
    by (auto elim!: incr_stepE intro: thread_in_range main_in_range ithread_inv imain_inv)
qed

lemma regular_xstep: "(incr_step L loops)\<^sup>*\<^sup>* s t \<Longrightarrow> (incr_xstep L loops)\<^sup>*\<^sup>* s t"
  by (erule rtranclp_mono [THEN predicate2D, rotated]) (auto intro: incr_xstep.regular)

text \<open>With a lock, in every interleaving and whichever calls fail: a program that exits with success has printed twice
  the number of loops, and nothing else; no increment is lost.\<close>
theorem incr_locked_exact:
  assumes "L \<noteq> NoLock" "(incr_xstep L loops)\<^sup>*\<^sup>* (incr_start L) s" "i_main s = IExit EXIT_SUCCESS"
  shows "i_out s = [glob_line (2 * int loops)]"
proof -
  have inv: "incr_inv L loops s" by (rule incr.run_inv [OF assms(2) incr_start_inv])
  from exit_total [OF this assms(3)] inv assms(1) show ?thesis by (simp add: incr_inv_def)
qed

theorem incr_locked_exact_witness:
  "\<exists>s. (incr_xstep Mutex 1)\<^sup>*\<^sup>* (incr_start Mutex) s \<and> i_main s = IExit EXIT_SUCCESS \<and> i_out s = [''glob = 2'' @ [NL]]"
proof -
  obtain s where run: "(incr_step Mutex 1)\<^sup>*\<^sup>* (incr_start Mutex) s" "ended (i_main s)"
    using incrc.reaches_final [OF incr_start_inv] by blast
  with run_in_range [OF run(1)] have "i_main s = IExit EXIT_SUCCESS"
    by (cases "i_main s") (auto simp: in_range_def const_defs)
  moreover have "glob_line 2 = ''glob = 2'' @ [NL]" by code_simp
  ultimately show ?thesis using incr_locked_exact [OF _ regular_xstep [OF run(1)]] regular_xstep [OF run(1)] by auto
qed

text \<open>C34. With a lock and without failing calls the program ends, whatever the interleaving: it takes a bounded number of steps, and
  a run that cannot go on has printed twice the number of loops and exited with success. When that number does not fit an
  \<^verbatim>\<open>int\<close> every run ends in an increment of INT\_MAX, which is undefined.\<close>
theorem incr_locked_completes:
  assumes "L \<noteq> NoLock"
  shows "(\<forall>n s. (incr_step L loops ^^ n) (incr_start L) s \<longrightarrow> n \<le> incr_effort loops (incr_start L)) \<and>
    (\<forall>s. (incr_step L loops)\<^sup>*\<^sup>* (incr_start L) s \<longrightarrow> (\<nexists>t. incr_step L loops s t) \<longrightarrow>
      (if 2 * int loops \<le> INT_MAX then i_main s = IExit EXIT_SUCCESS \<and> i_out s = [glob_line (2 * int loops)] else i_main s = IUndef))"
proof (intro conjI allI impI)
  fix n s assume "(incr_step L loops ^^ n) (incr_start L) s"
  then show "n \<le> incr_effort loops (incr_start L)" by (rule incrc.run_bounded [OF _ incr_start_inv])
next
  fix s assume run: "(incr_step L loops)\<^sup>*\<^sup>* (incr_start L) s" "\<nexists>t. incr_step L loops s t"
  note R = run_in_range [OF run(1)]
  have "ended (i_main s)" by (rule incrc.stuck_final [OF run(1) incr_start_inv run(2)])
  then consider "i_main s = IUndef" | "i_main s = IExit EXIT_SUCCESS" using R by (cases "i_main s") (auto simp: in_range_def)
  then show "if 2 * int loops \<le> INT_MAX then i_main s = IExit EXIT_SUCCESS \<and> i_out s = [glob_line (2 * int loops)] else i_main s = IUndef"
  proof cases
    case 1
    with R show ?thesis by (auto simp: in_range_def)
  next
    case 2
    from exit_total [OF conjunct2 [OF R] 2] R assms have "i_glob s = 2 * int loops" "i_out s = [glob_line (i_glob s)]"
      by (simp_all add: incr_inv_def)
    with R 2 show ?thesis by (simp add: in_range_def)
  qed
qed

theorem incr_locked_completes_witness:
  "\<exists>s. (incr_step SpinLock (2 ^ 30))\<^sup>*\<^sup>* (incr_start SpinLock) s \<and> i_main s = IUndef"
proof -
  obtain s where "(incr_step SpinLock (2 ^ 30))\<^sup>*\<^sup>* (incr_start SpinLock) s" "\<nexists>t. incr_step SpinLock (2 ^ 30) s t"
    using incrc.reaches_stuck [OF incr_start_inv] by blast
  with incr_locked_completes [of SpinLock "2 ^ 30"] show ?thesis by (auto simp: const_defs)
qed

section \<open>Without a lock\<close>

lemma one_step:
  "\<not> ended (i_main s) \<Longrightarrow> i < length (i_thr s) \<Longrightarrow> threadFunc NoLock loops i s = Some t \<Longrightarrow> (incr_step NoLock loops)\<^sup>*\<^sup>* s t"
  by (rule r_into_rtranclp) (rule incr_step.thread)

text \<open>A thread that runs alone for some passes through the loop.\<close>

lemma iteration:
  assumes "\<not> ended (i_main s)" "i < length (i_thr s)" "i_thr s ! i = \<lparr>i_pc = ITest, i_j = j, i_loc = l\<rparr>" "j < loops" "i_glob s < INT_MAX"
  shows "(incr_step NoLock loops)\<^sup>*\<^sup>* s (put_thr i \<lparr>i_pc = ITest, i_j = Suc j, i_loc = i_glob s + 1\<rparr> (s\<lparr>i_glob := i_glob s + 1\<rparr>))"
proof -
  let ?go = "incr_step NoLock loops"
  let ?s1 = "put_thr i \<lparr>i_pc = ILoad, i_j = j, i_loc = l\<rparr> s"
  let ?s2 = "put_thr i \<lparr>i_pc = IInc, i_j = j, i_loc = i_glob s\<rparr> s"
  let ?s3 = "put_thr i \<lparr>i_pc = IStore, i_j = j, i_loc = i_glob s + 1\<rparr> s"
  have "?go\<^sup>*\<^sup>* s ?s1" by (rule one_step [where i = i]) (simp_all add: assms threadFunc_def put_thr_def Let_def)
  also have "?go\<^sup>*\<^sup>* ?s1 ?s2" by (rule one_step [where i = i]) (simp_all add: assms threadFunc_def put_thr_def Let_def)
  also have "?go\<^sup>*\<^sup>* ?s2 ?s3" by (rule one_step [where i = i]) (simp_all add: assms threadFunc_def put_thr_def Let_def)
  also have "?go\<^sup>*\<^sup>* ?s3 (put_thr i \<lparr>i_pc = ITest, i_j = Suc j, i_loc = i_glob s + 1\<rparr> (s\<lparr>i_glob := i_glob s + 1\<rparr>))"
    by (rule one_step [where i = i]) (simp_all add: assms threadFunc_def put_thr_def Let_def)
  finally show ?thesis .
qed

lemma solo:
  assumes "\<not> ended (i_main s)" "i < length (i_thr s)" "i_thr s ! i = \<lparr>i_pc = ITest, i_j = j, i_loc = l\<rparr>" "j + k \<le> loops" "i_glob s + int k \<le> INT_MAX"
  shows "\<exists>l'. (incr_step NoLock loops)\<^sup>*\<^sup>* s (put_thr i \<lparr>i_pc = ITest, i_j = j + k, i_loc = l'\<rparr> (s\<lparr>i_glob := i_glob s + int k\<rparr>))"
  using assms
proof (induction k arbitrary: s j l)
  case 0
  then have "put_thr i \<lparr>i_pc = ITest, i_j = j, i_loc = l\<rparr> s = s" by (metis list_update_id put_thr_def incr_st.surjective incr_st.update_convs(3))
  then show ?case by (auto intro!: exI [of _ l])
next
  case (Suc k)
  define s1 where "s1 = put_thr i \<lparr>i_pc = ITest, i_j = Suc j, i_loc = i_glob s + 1\<rparr> (s\<lparr>i_glob := i_glob s + 1\<rparr>)"
  have first: "(incr_step NoLock loops)\<^sup>*\<^sup>* s s1" unfolding s1_def using Suc.prems by (intro iteration) auto
  have "\<exists>l'. (incr_step NoLock loops)\<^sup>*\<^sup>* s1 (put_thr i \<lparr>i_pc = ITest, i_j = Suc j + k, i_loc = l'\<rparr> (s1\<lparr>i_glob := i_glob s1 + int k\<rparr>))"
    by (rule Suc.IH [where l = "i_glob s + 1"]) (use Suc.prems in \<open>simp_all add: s1_def put_thr_def\<close>)
  then obtain l' where "(incr_step NoLock loops)\<^sup>*\<^sup>* s1 (put_thr i \<lparr>i_pc = ITest, i_j = Suc j + k, i_loc = l'\<rparr> (s1\<lparr>i_glob := i_glob s1 + int k\<rparr>))" ..
  with first show ?case by (auto simp: s1_def put_thr_def add.assoc intro!: exI [of _ l'] dest: rtranclp_trans)
qed

text \<open>The state after both threads have been created, and the schedule that loses all but two increments: the first thread
  stores its first increment over the ones of the other, which loads it and stores its last increment over all that follow.\<close>

definition race :: "int \<Rightarrow> ithread \<Rightarrow> ithread \<Rightarrow> incr_st" where
  "race g a b = \<lparr>i_glob = g, i_lock = None, i_thr = [a, b], i_out = [], i_main = IJoin 0\<rparr>"

abbreviation thr :: "ipc \<Rightarrow> nat \<Rightarrow> int \<Rightarrow> ithread" where
  "thr p j l \<equiv> \<lparr>i_pc = p, i_j = j, i_loc = l\<rparr>"

lemma race_simps:
  "i_glob (race g a b) = g" "i_thr (race g a b) = [a, b]" "i_main (race g a b) = IJoin 0" "i_lock (race g a b) = None"
  "(race g a b)\<lparr>i_glob := g'\<rparr> = race g' a b" "put_thr 0 x (race g a b) = race g x b" "put_thr (Suc 0) x (race g a b) = race g a x"
  by (simp_all add: race_def put_thr_def)

lemma race_step:
  "threadFunc NoLock loops 0 (race g a b) = Some t \<Longrightarrow> (incr_step NoLock loops)\<^sup>*\<^sup>* (race g a b) t"
  "threadFunc NoLock loops (Suc 0) (race g a b) = Some t \<Longrightarrow> (incr_step NoLock loops)\<^sup>*\<^sup>* (race g a b) t"
  by (rule one_step [where i = 0], simp_all add: race_simps) (rule one_step [where i = "Suc 0"], simp_all add: race_simps)

lemma race_solo:
  assumes "j + k \<le> loops" "g + int k \<le> INT_MAX"
  shows "\<exists>l'. (incr_step NoLock loops)\<^sup>*\<^sup>* (race g (thr ITest j l) b) (race (g + int k) (thr ITest (j + k) l') b)"
    and "\<exists>l'. (incr_step NoLock loops)\<^sup>*\<^sup>* (race g a (thr ITest j l)) (race (g + int k) a (thr ITest (j + k) l'))"
  using solo [of "race g (thr ITest j l) b" 0 j l k loops] solo [of "race g a (thr ITest j l)" "Suc 0" j l k loops] assms
  by (simp_all add: race_simps)

lemma race_started: "(incr_step NoLock loops)\<^sup>*\<^sup>* (incr_start NoLock) (race 0 (thr ITest 0 0) (thr ITest 0 0))"
proof -
  let ?s1 = "\<lparr>i_glob = 0, i_lock = None, i_thr = [thr ITest 0 0, thr IFresh 0 0], i_out = [], i_main = IMk 1\<rparr>"
  have "incr_step NoLock loops (incr_start NoLock) ?s1"
    by (rule incr_step.main) (simp add: incr_main_def incr_start_def put_thr_def numeral_2_eq_2)
  moreover have "incr_step NoLock loops ?s1 (race 0 (thr ITest 0 0) (thr ITest 0 0))"
    by (rule incr_step.main) (simp add: incr_main_def put_thr_def race_def)
  ultimately show ?thesis by (meson converse_rtranclp_into_rtranclp r_into_rtranclp)
qed

lemma race_ended:
  "\<exists>s. (incr_step NoLock loops)\<^sup>*\<^sup>* (race g (thr IReturned j l) (thr IReturned j' l')) s \<and> i_main s = IExit EXIT_SUCCESS \<and> i_out s = [glob_line g]"
proof -
  let ?s = "race g (thr IReturned j l) (thr IReturned j' l')"
  have "incr_step NoLock loops ?s (?s\<lparr>i_main := IJoin 1\<rparr>)" by (rule incr_step.main) (simp add: incr_main_def race_def)
  moreover have "incr_step NoLock loops (?s\<lparr>i_main := IJoin 1\<rparr>) (?s\<lparr>i_out := [glob_line g], i_main := IExit EXIT_SUCCESS\<rparr>)"
    by (rule incr_step.main) (simp add: incr_main_def race_def)
  ultimately show ?thesis by (intro exI [of _ "?s\<lparr>i_out := [glob_line g], i_main := IExit EXIT_SUCCESS\<rparr>"]) auto
qed

lemma race_loses:
  assumes "2 \<le> loops" "int loops \<le> INT_MAX"
  shows "\<exists>l l'. (incr_step NoLock loops)\<^sup>*\<^sup>* (race 0 (thr ITest 0 0) (thr ITest 0 0)) (race 2 (thr IReturned loops l) (thr IReturned loops l'))"
proof -
  let ?go = "(incr_step NoLock loops)\<^sup>*\<^sup>*"
  let ?n = "loops - 1"
  note simps = threadFunc_def race_simps Let_def
  have n: "0 + ?n \<le> loops" "int ?n \<le> INT_MAX" "?n < loops" "0 < loops" "1 + int ?n = int loops" "0 < INT_MAX" "1 < INT_MAX"
    using assms by (simp_all add: const_defs)
  obtain l1 where a: "?go (race 0 (thr IInc 0 0) (thr ITest 0 0)) (race (int ?n) (thr IInc 0 0) (thr ITest ?n l1))"
    using race_solo(2) [OF n(1), of 0 "thr IInc 0 0" 0] n(2) by auto
  obtain l2 where b: "?go (race 1 (thr ITest 1 1) (thr IInc ?n 1)) (race (int loops) (thr ITest loops l2) (thr IInc ?n 1))"
    using race_solo(1) [of 1 ?n loops 1 1 "thr IInc ?n 1"] n assms by auto
  have "?go (race 0 (thr ITest 0 0) (thr ITest 0 0)) (race 0 (thr ILoad 0 0) (thr ITest 0 0))" using n by (intro race_step(1)) (simp add: simps)
  also have "?go (race 0 (thr ILoad 0 0) (thr ITest 0 0)) (race 0 (thr IInc 0 0) (thr ITest 0 0))" by (intro race_step(1)) (simp add: simps)
  also note a
  also have "?go (race (int ?n) (thr IInc 0 0) (thr ITest ?n l1)) (race (int ?n) (thr IStore 0 1) (thr ITest ?n l1))"
    using n by (intro race_step(1)) (simp add: simps)
  also have "?go (race (int ?n) (thr IStore 0 1) (thr ITest ?n l1)) (race 1 (thr ITest 1 1) (thr ITest ?n l1))"
    by (intro race_step(1)) (simp add: simps)
  also have "?go (race 1 (thr ITest 1 1) (thr ITest ?n l1)) (race 1 (thr ITest 1 1) (thr ILoad ?n l1))"
    using n by (intro race_step(2)) (simp add: simps)
  also have "?go (race 1 (thr ITest 1 1) (thr ILoad ?n l1)) (race 1 (thr ITest 1 1) (thr IInc ?n 1))" by (intro race_step(2)) (simp add: simps)
  also note b
  also have "?go (race (int loops) (thr ITest loops l2) (thr IInc ?n 1)) (race (int loops) (thr IReturned loops l2) (thr IInc ?n 1))"
    by (intro race_step(1)) (simp add: simps)
  also have "?go (race (int loops) (thr IReturned loops l2) (thr IInc ?n 1)) (race (int loops) (thr IReturned loops l2) (thr IStore ?n 2))"
    using n by (intro race_step(2)) (simp add: simps)
  also have "?go (race (int loops) (thr IReturned loops l2) (thr IStore ?n 2)) (race 2 (thr IReturned loops l2) (thr ITest loops 2))"
    using n by (intro race_step(2)) (simp add: simps)
  also have "?go (race 2 (thr IReturned loops l2) (thr ITest loops 2)) (race 2 (thr IReturned loops l2) (thr IReturned loops 2))"
    by (intro race_step(2)) (simp add: simps)
  finally show ?thesis by blast
qed

text \<open>Without a lock increments are lost: for every number of loops from 2 on some interleaving prints 2. No interleaving prints more than
  twice the number of loops.\<close>
theorem incr_unlocked_loses:
  assumes "2 \<le> loops" "int loops \<le> INT_MAX"
  shows "(\<exists>s. (incr_step NoLock loops)\<^sup>*\<^sup>* (incr_start NoLock) s \<and> i_main s = IExit EXIT_SUCCESS \<and> i_out s = [glob_line 2]) \<and>
    (\<forall>s. (incr_xstep NoLock loops)\<^sup>*\<^sup>* (incr_start NoLock) s \<longrightarrow> i_main s = IExit EXIT_SUCCESS \<longrightarrow> (\<exists>v \<le> 2 * int loops. i_out s = [glob_line v]))"
proof (intro conjI allI impI)
  from race_loses [OF assms] race_ended race_started [of loops]
  show "\<exists>s. (incr_step NoLock loops)\<^sup>*\<^sup>* (incr_start NoLock) s \<and> i_main s = IExit EXIT_SUCCESS \<and> i_out s = [glob_line 2]"
    by (meson rtranclp_trans)
next
  fix s assume "(incr_xstep NoLock loops)\<^sup>*\<^sup>* (incr_start NoLock) s" and ex: "i_main s = IExit EXIT_SUCCESS"
  then have inv: "incr_inv NoLock loops s" by (blast intro: incr.run_inv incr_start_inv)
  from exit_total [OF this ex] inv show "\<exists>v \<le> 2 * int loops. i_out s = [glob_line v]"
    by (auto simp: incr_inv_def)
qed

theorem incr_unlocked_loses_witness:
  "\<exists>s. (incr_step NoLock 10000000)\<^sup>*\<^sup>* (incr_start NoLock) s \<and> i_out s = [''glob = 2'' @ [NL]]"
proof -
  have "glob_line 2 = ''glob = 2'' @ [NL]" by code_simp
  with incr_unlocked_loses [of 10000000] show ?thesis by (auto simp: const_defs)
qed

end
