(* ===== verification/Svsem_Init.thy ===== *)
theory Svsem_Init
  imports Runs CLib Get_Num
begin

text \<open>
  \<^verbatim>\<open>tlpi-book/svsem/svsem_good_init.c\<close> and \<^verbatim>\<open>svsem_bad_init.c\<close>: creating and initialising a System V semaphore, run by any number of processes
  at the same time. Each system call is a step, and the steps of the processes interleave in any way; any call may fail, which ends its
  process. The set itself has a value and the time of its last \<^verbatim>\<open>semop\<close>, of which only matters whether there was one. The value of a new set is
  not specified, so it is a parameter.
\<close>

section \<open>The semaphore\<close>

record semset =
  sm_val :: int
  sm_otime :: bool

definition SEMVMX :: int where [const_defs]: "SEMVMX = 32767"

datatype semop_result = Blocks | Fails | Done int

definition semop1 :: "int \<Rightarrow> int \<Rightarrow> semop_result" where
  "semop1 op v = (if op = 0 then if v = 0 then Done 0 else Blocks
     else if op < 0 then if - op \<le> v then Done (v + op) else Blocks
     else if SEMVMX < v + op then Fails else Done (v + op))"

section \<open>The programs\<close>

datatype spc = SCreate | SSetval | SNoop | SGet | SPoll nat | SOp | SExit int

record sem_st =
  ss_sem :: "semset option"
  ss_pc :: "spc list"

definition goto :: "nat \<Rightarrow> spc \<Rightarrow> sem_st \<Rightarrow> sem_st" where
  "goto i p s = s\<lparr>ss_pc := (ss_pc s)[i := p]\<rparr>"

definition MAX_TRIES :: nat where "MAX_TRIES = 10"

text \<open>The operation of the command line is stored in a \<^verbatim>\<open>short\<close>.\<close>

definition sem_op_arg :: "string list \<Rightarrow> string + int" where
  "sem_op_arg args = (case getInt (Some (hd args)) 0 (Some ''sem-op'') of Inl m \<Rightarrow> Inl m | Inr v \<Rightarrow> Inr (to_s16 v))"

definition perform :: "int \<Rightarrow> nat \<Rightarrow> sem_st \<Rightarrow> sem_st option" where
  "perform op i s = (case ss_sem s of
      None \<Rightarrow> None
    | Some m \<Rightarrow> (case semop1 op (sm_val m) of
        Blocks \<Rightarrow> None
      | Fails \<Rightarrow> Some (goto i (SExit EXIT_FAILURE) s)
      | Done v \<Rightarrow> Some (goto i (SExit EXIT_SUCCESS) (s\<lparr>ss_sem := Some \<lparr>sm_val = v, sm_otime = True\<rparr>\<rparr>))))"

definition good_init :: "int \<Rightarrow> string list list \<Rightarrow> nat \<Rightarrow> sem_st \<Rightarrow> sem_st option" where
  "good_init v0 args i s = (case ss_pc s ! i of
      SCreate \<Rightarrow> (case ss_sem s of
        None \<Rightarrow> Some (goto i SSetval (s\<lparr>ss_sem := Some \<lparr>sm_val = v0, sm_otime = False\<rparr>\<rparr>))
      | Some _ \<Rightarrow> Some (goto i SGet s))
    | SSetval \<Rightarrow> (case ss_sem s of None \<Rightarrow> None | Some m \<Rightarrow> Some (goto i SNoop (s\<lparr>ss_sem := Some (m\<lparr>sm_val := 0\<rparr>)\<rparr>)))
    | SNoop \<Rightarrow> (case ss_sem s of
        None \<Rightarrow> None
      | Some m \<Rightarrow> (case semop1 0 (sm_val m) of
          Done v \<Rightarrow> Some (goto i SOp (s\<lparr>ss_sem := Some \<lparr>sm_val = v, sm_otime = True\<rparr>\<rparr>))
        | _ \<Rightarrow> None))
    | SGet \<Rightarrow> Some (goto i (SPoll 0) s)
    | SPoll j \<Rightarrow> (case ss_sem s of
        None \<Rightarrow> None
      | Some m \<Rightarrow> Some (goto i (if sm_otime m then SOp else if j + 1 < MAX_TRIES then SPoll (j + 1) else SExit EXIT_FAILURE) s))
    | SOp \<Rightarrow> (case sem_op_arg (args ! i) of Inl _ \<Rightarrow> Some (goto i (SExit EXIT_FAILURE) s) | Inr op \<Rightarrow> perform op i s)
    | SExit _ \<Rightarrow> None)"

definition bad_init :: "int \<Rightarrow> nat \<Rightarrow> sem_st \<Rightarrow> sem_st option" where
  "bad_init v0 i s = (case ss_pc s ! i of
      SCreate \<Rightarrow> (case ss_sem s of
        None \<Rightarrow> Some (goto i SSetval (s\<lparr>ss_sem := Some \<lparr>sm_val = v0, sm_otime = False\<rparr>\<rparr>))
      | Some _ \<Rightarrow> Some (goto i SGet s))
    | SSetval \<Rightarrow> (case ss_sem s of None \<Rightarrow> None | Some m \<Rightarrow> Some (goto i SOp (s\<lparr>ss_sem := Some (m\<lparr>sm_val := 0\<rparr>)\<rparr>)))
    | SGet \<Rightarrow> Some (goto i SOp s)
    | SOp \<Rightarrow> perform 1 i s
    | _ \<Rightarrow> None)"

text \<open>A wrong number of arguments or \<^verbatim>\<open>--help\<close> ends the process at once.\<close>

definition sem_first :: "string list \<Rightarrow> spc" where
  "sem_first args = (if length args \<noteq> 1 \<or> hd args = ''--help'' then SExit EXIT_FAILURE else SCreate)"

definition sem_start :: "string list list \<Rightarrow> sem_st" where
  "sem_start args = \<lparr>ss_sem = None, ss_pc = map sem_first args\<rparr>"

fun exited :: "spc \<Rightarrow> bool" where
  "exited (SExit _) = True"
| "exited _ = False"

inductive good_step :: "int \<Rightarrow> string list list \<Rightarrow> sem_st \<Rightarrow> sem_st \<Rightarrow> bool" for v0 args where
  call: "i < length (ss_pc s) \<Longrightarrow> good_init v0 args i s = Some t \<Longrightarrow> good_step v0 args s t"
| fails: "i < length (ss_pc s) \<Longrightarrow> \<not> exited (ss_pc s ! i) \<Longrightarrow> good_step v0 args s (goto i (SExit EXIT_FAILURE) s)"

inductive bad_step :: "int \<Rightarrow> sem_st \<Rightarrow> sem_st \<Rightarrow> bool" for v0 where
  call: "i < length (ss_pc s) \<Longrightarrow> bad_init v0 i s = Some t \<Longrightarrow> bad_step v0 s t"
| fails: "i < length (ss_pc s) \<Longrightarrow> \<not> exited (ss_pc s ! i) \<Longrightarrow> bad_step v0 s (goto i (SExit EXIT_FAILURE) s)"

section \<open>What the good program keeps\<close>

text \<open>The operations that were performed, by the processes that exited with success.\<close>

definition contrib :: "string list list \<Rightarrow> nat \<Rightarrow> spc \<Rightarrow> int" where
  "contrib args i p = (if p = SExit EXIT_SUCCESS then case sem_op_arg (args ! i) of Inr op \<Rightarrow> op | Inl _ \<Rightarrow> 0 else 0)"

definition performed :: "string list list \<Rightarrow> spc list \<Rightarrow> int" where
  "performed args ps = (\<Sum>k < length ps. contrib args k (ps ! k))"

definition creator :: "spc \<Rightarrow> bool" where
  "creator p \<longleftrightarrow> p = SSetval \<or> p = SNoop"

definition sem_inv :: "string list list \<Rightarrow> sem_st \<Rightarrow> bool" where
  "sem_inv args s = (case ss_sem s of
      None \<Rightarrow> (\<forall>p \<in> set (ss_pc s). p = SCreate \<or> p = SExit EXIT_FAILURE)
    | Some m \<Rightarrow>
        if sm_otime m then (\<forall>p \<in> set (ss_pc s). \<not> creator p) \<and> sm_val m = performed args (ss_pc s)
        else (\<forall>p \<in> set (ss_pc s). p \<noteq> SOp \<and> p \<noteq> SExit EXIT_SUCCESS) \<and>
          (\<forall>i j. i < length (ss_pc s) \<longrightarrow> j < length (ss_pc s) \<longrightarrow> creator (ss_pc s ! i) \<longrightarrow> creator (ss_pc s ! j) \<longrightarrow> i = j) \<and>
          (SNoop \<in> set (ss_pc s) \<longrightarrow> sm_val m = 0))"

lemma performed_upd:
  assumes "i < length ps"
  shows "performed args (ps[i := p]) = performed args ps - contrib args i (ps ! i) + contrib args i p"
proof -
  have "(\<Sum>k \<in> {..<length ps} - {i}. contrib args k (ps[i := p] ! k)) = (\<Sum>k \<in> {..<length ps} - {i}. contrib args k (ps ! k))"
    by (rule sum.cong) auto
  with assms show ?thesis by (simp add: performed_def sum.remove [of _ i])
qed

lemma performed_0: "(\<forall>p \<in> set ps. p \<noteq> SExit EXIT_SUCCESS) \<Longrightarrow> performed args ps = 0"
  by (auto simp: performed_def contrib_def intro!: sum.neutral)

lemma set_upd: "p \<in> set (ps[i := x]) \<Longrightarrow> p = x \<or> p \<in> set ps"
  using set_update_subset_insert [of ps i x] by auto

lemma set_updE:
  assumes "\<forall>p \<in> set ps. P p" "P x"
  shows "\<forall>p \<in> set (ps[i := x]). P p"
  using assms set_upd by fastforce

lemma nth_upd: "i < length ps \<Longrightarrow> ps[i := x] ! k = (if k = i then x else ps ! k)"
  by simp

text \<open>A process that leaves the set alone and becomes no creator.\<close>

lemma goto_inv:
  assumes "sem_inv args s" "i < length (ss_pc s)" "\<not> creator p"
    and "ss_sem s = None \<Longrightarrow> p = SCreate \<or> p = SExit EXIT_FAILURE"
    and "\<And>m. ss_sem s = Some m \<Longrightarrow> sm_otime m \<Longrightarrow> contrib args i p = contrib args i (ss_pc s ! i)"
    and "\<And>m. ss_sem s = Some m \<Longrightarrow> \<not> sm_otime m \<Longrightarrow> p \<noteq> SOp \<and> p \<noteq> SExit EXIT_SUCCESS"
  shows "sem_inv args (goto i p s)"
proof (cases "ss_sem s")
  case None
  with assms(1,4) show ?thesis by (auto simp: sem_inv_def goto_def dest!: set_upd)
next
  case (Some m)
  show ?thesis
  proof (cases "sm_otime m")
    case True
    with Some assms(1,2,3,5) show ?thesis by (auto simp: sem_inv_def goto_def performed_upd dest!: set_upd)
  next
    case False
    with Some assms(1) have I: "\<forall>p \<in> set (ss_pc s). p \<noteq> SOp \<and> p \<noteq> SExit EXIT_SUCCESS"
      "\<And>i j. i < length (ss_pc s) \<Longrightarrow> j < length (ss_pc s) \<Longrightarrow> creator (ss_pc s ! i) \<Longrightarrow> creator (ss_pc s ! j) \<Longrightarrow> i = j"
      "SNoop \<in> set (ss_pc s) \<longrightarrow> sm_val m = 0" by (auto simp: sem_inv_def)
    have "\<forall>p \<in> set ((ss_pc s)[i := p]). p \<noteq> SOp \<and> p \<noteq> SExit EXIT_SUCCESS" using set_updE [OF I(1)] assms(6) [OF Some False] by blast
    moreover have "k = j" if "k < length (ss_pc s)" "j < length (ss_pc s)" "creator ((ss_pc s)[i := p] ! k)" "creator ((ss_pc s)[i := p] ! j)" for k j
      using that I(2) assms(2,3) by (auto simp: nth_upd split: if_splits)
    moreover have "SNoop \<in> set ((ss_pc s)[i := p]) \<longrightarrow> sm_val m = 0" using I(3) assms(3) by (auto simp: creator_def dest!: set_upd)
    ultimately show ?thesis using Some False by (simp add: sem_inv_def goto_def)
  qed
qed

text \<open>The process that creates the set is its only creator until the set has been used.\<close>

lemma creator_alone:
  assumes "sem_inv args s" "i < length (ss_pc s)" "creator (ss_pc s ! i)"
  obtains m where "ss_sem s = Some m" "\<not> sm_otime m" "\<forall>p \<in> set (ss_pc s). p \<noteq> SOp \<and> p \<noteq> SExit EXIT_SUCCESS"
    "\<And>j. j < length (ss_pc s) \<Longrightarrow> j \<noteq> i \<Longrightarrow> \<not> creator (ss_pc s ! j)" "ss_pc s ! i = SNoop \<Longrightarrow> sm_val m = 0"
proof -
  have mem: "ss_pc s ! i \<in> set (ss_pc s)" using assms(2) by simp
  obtain m where m: "ss_sem s = Some m" "\<not> sm_otime m"
    using assms(1,3) mem by (fastforce simp: sem_inv_def creator_def split: option.splits if_splits)
  show ?thesis
    by (rule that [OF m]) (use assms m mem in \<open>auto simp: sem_inv_def\<close>)
qed

lemma create_inv:
  assumes "sem_inv args s" "i < length (ss_pc s)" "ss_sem s = None"
  shows "sem_inv args (goto i SSetval (s\<lparr>ss_sem := Some \<lparr>sm_val = v, sm_otime = False\<rparr>\<rparr>))"
proof -
  have I: "\<forall>p \<in> set (ss_pc s). p = SCreate \<or> p = SExit EXIT_FAILURE" using assms(1,3) by (simp add: sem_inv_def)
  then have nth: "k < length (ss_pc s) \<Longrightarrow> \<not> creator (ss_pc s ! k)" for k
    by (auto simp: creator_def all_set_conv_all_nth)
  have "\<forall>p \<in> set ((ss_pc s)[i := SSetval]). p \<noteq> SOp \<and> p \<noteq> SExit EXIT_SUCCESS \<and> p \<noteq> SNoop"
    using I by (intro set_updE) (auto simp: EXIT_SUCCESS_def EXIT_FAILURE_def)
  with nth assms(2) show ?thesis by (auto simp: sem_inv_def goto_def nth_list_update)
qed

lemma setval_inv:
  assumes "sem_inv args s" "i < length (ss_pc s)" "ss_pc s ! i = SSetval" "ss_sem s = Some m"
  shows "sem_inv args (goto i SNoop (s\<lparr>ss_sem := Some (m\<lparr>sm_val := 0\<rparr>)\<rparr>))"
proof -
  obtain m' where m: "ss_sem s = Some m'" "\<not> sm_otime m'" "\<forall>p \<in> set (ss_pc s). p \<noteq> SOp \<and> p \<noteq> SExit EXIT_SUCCESS"
    "\<And>j. j < length (ss_pc s) \<Longrightarrow> j \<noteq> i \<Longrightarrow> \<not> creator (ss_pc s ! j)"
    using creator_alone [OF assms(1,2)] assms(3) by (auto simp: creator_def)
  have "\<forall>p \<in> set ((ss_pc s)[i := SNoop]). p \<noteq> SOp \<and> p \<noteq> SExit EXIT_SUCCESS" by (rule set_updE [OF m(3)]) simp
  with m assms(2,4) show ?thesis by (auto simp: sem_inv_def goto_def nth_list_update split: if_splits)
qed

lemma noop_inv:
  assumes "sem_inv args s" "i < length (ss_pc s)" "ss_pc s ! i = SNoop"
  shows "\<exists>m. ss_sem s = Some m \<and> sm_val m = 0" "sem_inv args (goto i SOp (s\<lparr>ss_sem := Some \<lparr>sm_val = 0, sm_otime = True\<rparr>\<rparr>))"
proof -
  obtain m where m: "ss_sem s = Some m" "\<not> sm_otime m" "\<forall>p \<in> set (ss_pc s). p \<noteq> SOp \<and> p \<noteq> SExit EXIT_SUCCESS"
    "\<And>j. j < length (ss_pc s) \<Longrightarrow> j \<noteq> i \<Longrightarrow> \<not> creator (ss_pc s ! j)" "sm_val m = 0"
    using creator_alone [OF assms(1,2)] assms(3) by (auto simp: creator_def)
  then show "\<exists>m. ss_sem s = Some m \<and> sm_val m = 0" by blast
  have "\<not> creator p" if p: "p \<in> set ((ss_pc s)[i := SOp])" for p
  proof -
    from p obtain k where k: "k < length (ss_pc s)" "p = (ss_pc s)[i := SOp] ! k" by (auto simp: in_set_conv_nth)
    then show ?thesis using m(4) [OF k(1)] by (cases "k = i") (auto simp: creator_def)
  qed
  moreover have "performed args ((ss_pc s)[i := SOp]) = 0"
    by (rule performed_0) (use m(3) in \<open>auto dest!: set_upd\<close>)
  ultimately show "sem_inv args (goto i SOp (s\<lparr>ss_sem := Some \<lparr>sm_val = 0, sm_otime = True\<rparr>\<rparr>))"
    by (auto simp: sem_inv_def goto_def)
qed

lemma semop1_Done: "semop1 op v = Done v' \<Longrightarrow> v' = v + op"
  by (auto simp: semop1_def split: if_splits)

lemma perform_inv:
  assumes "sem_inv args s" "i < length (ss_pc s)" "ss_pc s ! i = SOp" "sem_op_arg (args ! i) = Inr op" "perform op i s = Some t"
  shows "sem_inv args t"
proof -
  have mem: "SOp \<in> set (ss_pc s)" using assms(2,3) by (metis nth_mem)
  then obtain m where m: "ss_sem s = Some m" "sm_otime m" "\<forall>p \<in> set (ss_pc s). \<not> creator p" "sm_val m = performed args (ss_pc s)"
    using assms(1) by (fastforce simp: sem_inv_def split: option.splits if_splits)
  show ?thesis
  proof (cases "semop1 op (sm_val m)")
    case (Done v)
    have "\<forall>p \<in> set ((ss_pc s)[i := SExit EXIT_SUCCESS]). \<not> creator p" by (rule set_updE [OF m(3)]) (simp add: creator_def)
    moreover have "v = performed args ((ss_pc s)[i := SExit EXIT_SUCCESS])"
      using semop1_Done [OF Done] m(4) assms(2-4) by (simp add: performed_upd contrib_def)
    ultimately show ?thesis using assms(5) m Done by (auto simp: perform_def sem_inv_def goto_def)
  next
    case Fails
    with assms(5) m have t: "t = goto i (SExit EXIT_FAILURE) s" by (simp add: perform_def)
    show ?thesis unfolding t by (rule goto_inv [OF assms(1,2)])
      (use m assms(3) in \<open>auto simp: creator_def contrib_def EXIT_SUCCESS_def EXIT_FAILURE_def\<close>)
  qed (use assms(5) m in \<open>simp add: perform_def\<close>)
qed

lemma failure_success: "EXIT_FAILURE \<noteq> EXIT_SUCCESS"
  by (simp add: EXIT_SUCCESS_def EXIT_FAILURE_def)

lemma not_success: "SExit EXIT_FAILURE \<noteq> SExit EXIT_SUCCESS" "\<not> exited p \<Longrightarrow> p \<noteq> SExit EXIT_SUCCESS"
  by (auto simp: EXIT_SUCCESS_def EXIT_FAILURE_def)

lemma fail_inv:
  assumes "sem_inv args s" "i < length (ss_pc s)" "\<not> exited (ss_pc s ! i)"
  shows "sem_inv args (goto i (SExit EXIT_FAILURE) s)"
  by (rule goto_inv [OF assms(1,2)]) (use assms(3) not_success in \<open>auto simp: creator_def contrib_def\<close>)

lemma no_set:
  assumes "sem_inv args s" "i < length (ss_pc s)" "ss_sem s = None"
  shows "ss_pc s ! i = SCreate \<or> ss_pc s ! i = SExit EXIT_FAILURE"
  using assms by (auto simp: sem_inv_def)

lemma good_init_inv:
  assumes "sem_inv args s" "i < length (ss_pc s)" "good_init v0 args i s = Some t"
  shows "sem_inv args t"
proof (cases "ss_sem s")
  case None
  with no_set [OF assms(1,2)] assms(3) have "t = goto i SSetval (s\<lparr>ss_sem := Some \<lparr>sm_val = v0, sm_otime = False\<rparr>\<rparr>)"
    by (auto simp: good_init_def)
  then show ?thesis using create_inv [OF assms(1,2) None] by simp
next
  case (Some m)
  show ?thesis
  proof (cases "ss_pc s ! i")
    case SSetval
    with assms(3) Some setval_inv [OF assms(1,2) SSetval Some] show ?thesis by (simp add: good_init_def)
  next
    case SNoop
    with assms(3) Some noop_inv [OF assms(1,2) SNoop] show ?thesis by (simp add: good_init_def semop1_def)
  next
    case SOp
    show ?thesis
    proof (cases "sem_op_arg (args ! i)")
      case (Inl e)
      with assms(3) SOp fail_inv [OF assms(1,2)] show ?thesis by (simp add: good_init_def)
    next
      case (Inr op)
      with assms(3) SOp perform_inv [OF assms(1,2) SOp Inr] show ?thesis by (simp add: good_init_def)
    qed
  next
    case SCreate
    then have t: "t = goto i SGet s" using assms(3) Some by (simp add: good_init_def)
    show ?thesis unfolding t by (rule goto_inv [OF assms(1,2)]) (use Some SCreate in \<open>auto simp: creator_def contrib_def\<close>)
  next
    case SGet
    then have t: "t = goto i (SPoll 0) s" using assms(3) by (simp add: good_init_def)
    show ?thesis unfolding t by (rule goto_inv [OF assms(1,2)]) (use Some SGet in \<open>auto simp: creator_def contrib_def\<close>)
  next
    case (SPoll j)
    then have t: "t = goto i (if sm_otime m then SOp else if j + 1 < MAX_TRIES then SPoll (j + 1) else SExit EXIT_FAILURE) s"
      using assms(3) Some by (simp add: good_init_def)
    show ?thesis unfolding t
      by (rule goto_inv [OF assms(1,2)]) (use Some SPoll not_success in \<open>auto simp: creator_def contrib_def\<close>)
  next
    case (SExit st)
    then show ?thesis using assms(3) by (simp add: good_init_def)
  qed
qed

interpretation good: invariant_system "good_step v0 args" "sem_inv args"
  by unfold_locales (auto elim!: good_step.cases intro: good_init_inv fail_inv)

lemma sem_start_inv: "sem_inv args (sem_start args)"
  by (auto simp: sem_inv_def sem_start_def sem_first_def)

section \<open>Properties\<close>

text \<open>C37. Any number of processes run the good program at the same time, and any of their calls may fail. If some process has exited with success, the
  value of the semaphore is the sum of the operations of all processes that did: no operation is lost or meets an uninitialised semaphore.\<close>
theorem good_init_sum:
  assumes "(good_step v0 args)\<^sup>*\<^sup>* (sem_start args) s" "SExit EXIT_SUCCESS \<in> set (ss_pc s)"
  shows "\<exists>m. ss_sem s = Some m \<and> sm_otime m \<and> sm_val m = performed args (ss_pc s)"
proof -
  have "sem_inv args s" by (rule good.run_inv [OF assms(1) sem_start_inv])
  with assms(2) not_success(1) show ?thesis by (fastforce simp: sem_inv_def split: option.splits if_splits)
qed

text \<open>The processes one after the other.\<close>

primrec run_process :: "nat \<Rightarrow> int \<Rightarrow> string list list \<Rightarrow> nat \<Rightarrow> sem_st \<Rightarrow> sem_st" where
  "run_process 0 v0 args i s = s"
| "run_process (Suc n) v0 args i s = (case good_init v0 args i s of None \<Rightarrow> s | Some t \<Rightarrow> run_process n v0 args i t)"

lemma good_init_length: "good_init v0 args i s = Some t \<Longrightarrow> length (ss_pc t) = length (ss_pc s)"
  by (auto simp: good_init_def perform_def goto_def split: spc.splits option.splits sum.splits semop_result.splits)

lemma run_process_run: "i < length (ss_pc s) \<Longrightarrow> (good_step v0 args)\<^sup>*\<^sup>* s (run_process n v0 args i s)"
proof (induction n arbitrary: s)
  case (Suc n)
  show ?case
  proof (cases "good_init v0 args i s")
    case (Some t)
    with Suc good_init_length [OF Some] have "(good_step v0 args)\<^sup>*\<^sup>* t (run_process n v0 args i t)" by simp
    with Some Suc.prems good_step.call [of i s v0 args t] show ?thesis by (simp add: converse_rtranclp_into_rtranclp)
  qed simp
qed simp

theorem good_init_sum_witness:
  "\<exists>s m. (good_step 7 [[''5''], [''-2'']])\<^sup>*\<^sup>* (sem_start [[''5''], [''-2'']]) s \<and> ss_pc s = [SExit EXIT_SUCCESS, SExit EXIT_SUCCESS] \<and>
     ss_sem s = Some m \<and> sm_val m = 3"
proof -
  let ?a = "[[''5''], [''-2'']]"
  let ?s = "run_process 4 7 ?a 1 (run_process 4 7 ?a 0 (sem_start ?a))"
  have run: "(good_step 7 ?a)\<^sup>*\<^sup>* (sem_start ?a) ?s"
    by (rule rtranclp_trans [OF run_process_run run_process_run]) (simp_all add: sem_start_def, code_simp)
  have pc: "ss_pc ?s = [SExit EXIT_SUCCESS, SExit EXIT_SUCCESS]" by code_simp
  have "performed ?a [SExit EXIT_SUCCESS, SExit EXIT_SUCCESS] = 3" by code_simp
  with good_init_sum [OF run] run pc show ?thesis by (metis list.set_intros(1))
qed

text \<open>What is left of a process that created the set and did not initialise it.\<close>

definition orphaned :: "sem_st \<Rightarrow> bool" where
  "orphaned s \<longleftrightarrow> (\<exists>m. ss_sem s = Some m \<and> \<not> sm_otime m) \<and> (\<forall>p \<in> set (ss_pc s). \<not> creator p \<and> p \<noteq> SOp \<and> p \<noteq> SExit EXIT_SUCCESS)"

lemma orphaned_goto: "orphaned s \<Longrightarrow> \<not> creator p \<Longrightarrow> p \<noteq> SOp \<Longrightarrow> p \<noteq> SExit EXIT_SUCCESS \<Longrightarrow> orphaned (goto i p s)"
  by (auto simp: orphaned_def goto_def dest!: set_upd)

lemma orphaned_step:
  assumes "orphaned s" "good_step v0 args s t"
  shows "orphaned t"
  using assms(2)
proof (cases rule: good_step.cases)
  case (call i)
  obtain m where m: "ss_sem s = Some m" "\<not> sm_otime m" using assms(1) by (auto simp: orphaned_def)
  from call(1) assms(1) have "\<not> creator (ss_pc s ! i)" "ss_pc s ! i \<noteq> SOp" by (auto simp: orphaned_def all_set_conv_all_nth)
  with call(2) m have "\<exists>p. \<not> creator p \<and> p \<noteq> SOp \<and> p \<noteq> SExit EXIT_SUCCESS \<and> t = goto i p s"
    using failure_success by (cases "ss_pc s ! i") (fastforce simp: good_init_def creator_def split: if_splits)+
  then show ?thesis using orphaned_goto [OF assms(1)] by blast
next
  case (fails i)
  then show ?thesis using orphaned_goto [OF assms(1)] not_success by (simp add: creator_def)
qed

interpretation orphan: invariant_system "good_step v0 args" orphaned
  by unfold_locales (rule orphaned_step)

text \<open>A process that ends between creating the semaphore and its first \<^verbatim>\<open>semop\<close> makes the program unusable: whatever happens then, no process
  gets to its operation any more, and none exits with success.\<close>
theorem good_init_orphan:
  assumes "(good_step v0 args)\<^sup>*\<^sup>* (sem_start args) s" "i < length (ss_pc s)" "creator (ss_pc s ! i)"
    and "(good_step v0 args)\<^sup>*\<^sup>* (goto i (SExit EXIT_FAILURE) s) t"
  shows "SOp \<notin> set (ss_pc t) \<and> SExit EXIT_SUCCESS \<notin> set (ss_pc t)"
proof -
  have inv: "sem_inv args s" by (rule good.run_inv [OF assms(1) sem_start_inv])
  obtain m where m: "ss_sem s = Some m" "\<not> sm_otime m" "\<forall>p \<in> set (ss_pc s). p \<noteq> SOp \<and> p \<noteq> SExit EXIT_SUCCESS"
    "\<And>j. j < length (ss_pc s) \<Longrightarrow> j \<noteq> i \<Longrightarrow> \<not> creator (ss_pc s ! j)"
    using creator_alone [OF inv assms(2,3)] by metis
  have "\<not> creator ((ss_pc s)[i := SExit EXIT_FAILURE] ! k)" if "k < length (ss_pc s)" for k
    using m(4) [OF that] that by (cases "k = i") (auto simp: creator_def)
  then have "\<forall>p \<in> set ((ss_pc s)[i := SExit EXIT_FAILURE]). \<not> creator p" by (auto simp: all_set_conv_all_nth)
  moreover have "\<forall>p \<in> set ((ss_pc s)[i := SExit EXIT_FAILURE]). p \<noteq> SOp \<and> p \<noteq> SExit EXIT_SUCCESS"
    by (rule set_updE [OF m(3)]) (simp add: failure_success)
  ultimately have "orphaned (goto i (SExit EXIT_FAILURE) s)" using m(1,2) by (auto simp: orphaned_def goto_def)
  from orphan.run_inv [OF assms(4) this] show ?thesis by (auto simp: orphaned_def)
qed

theorem good_init_orphan_witness:
  "let args = [[''1''], [''1'']]; s = run_process 1 0 args 0 (sem_start args);
       t = run_process 20 0 args 1 (goto 0 (SExit EXIT_FAILURE) s)
   in creator (ss_pc s ! 0) \<and> ss_pc t = [SExit EXIT_FAILURE, SExit EXIT_FAILURE] \<and> SExit EXIT_SUCCESS \<notin> set (ss_pc t)"
proof -
  let ?a = "[[''1''], [''1'']]"
  let ?s = "run_process 1 0 ?a 0 (sem_start ?a)"
  let ?t = "run_process 20 0 ?a 1 (goto 0 (SExit EXIT_FAILURE) ?s)"
  have run: "(good_step 0 ?a)\<^sup>*\<^sup>* (sem_start ?a) ?s" by (rule run_process_run) (simp add: sem_start_def)
  have s: "ss_pc ?s = [SSetval, SCreate]" by code_simp
  have "(good_step 0 ?a)\<^sup>*\<^sup>* (goto 0 (SExit EXIT_FAILURE) ?s) ?t"
    by (rule run_process_run) code_simp
  from good_init_orphan [OF run _ _ this] s have "SExit EXIT_SUCCESS \<notin> set (ss_pc ?t)" by (simp add: creator_def del: run_process.simps One_nat_def)
  moreover have "ss_pc ?t = [SExit EXIT_FAILURE, SExit EXIT_FAILURE]" by code_simp
  ultimately show ?thesis using s by (simp add: Let_def creator_def del: run_process.simps One_nat_def)
qed

text \<open>In the bad program a second process can use the semaphore before it is initialised: both processes exit with success and each has
  added 1, but the semaphore is 1, because initialising it wiped out the first operation.\<close>
theorem bad_init_loses:
  "\<exists>s m. (bad_step 0)\<^sup>*\<^sup>* \<lparr>ss_sem = None, ss_pc = [SCreate, SCreate]\<rparr> s \<and> ss_pc s = [SExit EXIT_SUCCESS, SExit EXIT_SUCCESS] \<and>
     ss_sem s = Some m \<and> sm_val m = 1"
proof -
  let ?st = "\<lambda>v t p q. \<lparr>ss_sem = Some \<lparr>sm_val = v, sm_otime = t\<rparr>, ss_pc = [p, q]\<rparr>"
  note simps = bad_init_def perform_def goto_def semop1_def SEMVMX_def
  have "bad_step 0 \<lparr>ss_sem = None, ss_pc = [SCreate, SCreate]\<rparr> (?st 0 False SSetval SCreate)"
    by (rule bad_step.call [of 0]) (simp_all add: simps)
  moreover have "bad_step 0 (?st 0 False SSetval SCreate) (?st 0 False SSetval SGet)" by (rule bad_step.call [of 1]) (simp_all add: simps)
  moreover have "bad_step 0 (?st 0 False SSetval SGet) (?st 0 False SSetval SOp)" by (rule bad_step.call [of 1]) (simp_all add: simps)
  moreover have "bad_step 0 (?st 0 False SSetval SOp) (?st 1 True SSetval (SExit EXIT_SUCCESS))" by (rule bad_step.call [of 1]) (simp_all add: simps)
  moreover have "bad_step 0 (?st 1 True SSetval (SExit EXIT_SUCCESS)) (?st 0 True SOp (SExit EXIT_SUCCESS))" by (rule bad_step.call [of 0]) (simp_all add: simps)
  moreover have "bad_step 0 (?st 0 True SOp (SExit EXIT_SUCCESS)) (?st 1 True (SExit EXIT_SUCCESS) (SExit EXIT_SUCCESS))"
    by (rule bad_step.call [of 0]) (simp_all add: simps)
  ultimately have "(bad_step 0)\<^sup>*\<^sup>* \<lparr>ss_sem = None, ss_pc = [SCreate, SCreate]\<rparr> (?st 1 True (SExit EXIT_SUCCESS) (SExit EXIT_SUCCESS))"
    by (meson converse_rtranclp_into_rtranclp r_into_rtranclp)
  then show ?thesis by force
qed

end
