(* ===== verification/File_Copy.thy ===== *)
theory File_Copy
  imports Capabilities Stream_IO
begin

text \<open>
  Copying files: \<^verbatim>\<open>src/chap13/thr-one/copy.c\<close> (the same as \<^verbatim>\<open>tlpi-book/fileio/copy.c\<close>; \<^verbatim>\<open>copy_sync.c\<close> adds the flag O\_SYNC) and the exercise
  \<^verbatim>\<open>src/chap4-file-IO-Unversal-IO-Model/four-two/cp-holes.c\<close>. The system calls are the record \<open>file_os\<close>. The loops are partial functions; that they
  end is proved in the locale \<open>file_pair\<close>, which extends the contracts of \<^verbatim>\<open>read\<close> and \<^verbatim>\<open>write\<close> of theory \<open>Stream_IO\<close> to two files open at once. A kernel
  with named files, open file descriptions, short transfers and errors is an instance. It knows a file by its name only, so links are outside it, and it
  does not check the access mode a file was opened with.
\<close>

section \<open>The programs\<close>

definition O_RDONLY :: int where "O_RDONLY = 0"
definition O_WRONLY :: int where "O_WRONLY = 1"
definition O_CREAT :: int where "O_CREAT = 0x40"
definition O_TRUNC :: int where "O_TRUNC = 0x200"
definition O_SYNC :: int where "O_SYNC = 0x101000"

text \<open>The permissions of new files: octal 666 and 200.\<close>

definition rw_rw_rw :: int where "rw_rw_rw = 0x1B6"
definition S_IWUSR :: int where "S_IWUSR = 0x80"

definition BUF_SIZE :: nat where "BUF_SIZE = 1024"

datatype whence = SEEK_CUR | SEEK_END

record 'k file_os =
  f_open :: "string \<Rightarrow> int \<Rightarrow> int \<Rightarrow> 'k \<Rightarrow> (int + int) \<times> 'k"
  f_read :: "int \<Rightarrow> 'k read_call"
  f_write :: "int \<Rightarrow> 'k write_call"
  f_lseek :: "int \<Rightarrow> int \<Rightarrow> whence \<Rightarrow> 'k \<Rightarrow> (int + int) \<times> 'k"
  f_close :: "int \<Rightarrow> 'k \<Rightarrow> int option \<times> 'k"

subsection \<open>copy.c\<close>

partial_function (option) copy_loop ::
  "'k file_os \<Rightarrow> (int \<Rightarrow> string) \<Rightarrow> int \<Rightarrow> int \<Rightarrow> 'k kproc \<Rightarrow> ((halt + unit) \<times> 'k kproc) option" where
  "copy_loop F sr inputFd outputFd s = (case f_read F inputFd BUF_SIZE (ker s) of
      (Inl e, k) \<Rightarrow> Some (errExit sr ''read'' (s\<lparr>ker := k, errno := e\<rparr>))
    | (Inr buf, k) \<Rightarrow>
        if buf = [] then Some (Inr (), s\<lparr>ker := k\<rparr>)
        else (case f_write F outputFd buf k of
            (Inl e, k') \<Rightarrow> Some (fatal sr ''write() returned error or partial write occurred'' (s\<lparr>ker := k', errno := e\<rparr>))
          | (Inr n, k') \<Rightarrow>
              if n \<noteq> length buf then Some (fatal sr ''write() returned error or partial write occurred'' (s\<lparr>ker := k'\<rparr>))
              else copy_loop F sr inputFd outputFd (s\<lparr>ker := k'\<rparr>)))"

definition copy_open :: "'k file_os \<Rightarrow> (int \<Rightarrow> string) \<Rightarrow> int \<Rightarrow> string list \<Rightarrow> ('k kproc, int \<times> int) prog" where
  "copy_open F sr sync argv =
     andthen (whenM (length argv \<noteq> 3 \<or> argv ! 1 = ''--help'') (usageErr (argv ! 0 @ '' old-file new-file'' @ [NL])))
    (bnd (kget (f_open F (argv ! 1) O_RDONLY 0)) (\<lambda>r. case r of
        None \<Rightarrow> errExit sr (''opening file '' @ argv ! 1)
      | Some inputFd \<Rightarrow> bnd (kget (f_open F (argv ! 2) (O_CREAT OR O_WRONLY OR O_TRUNC OR sync) rw_rw_rw)) (\<lambda>r. case r of
          None \<Rightarrow> errExit sr (''opening file '' @ argv ! 2)
        | Some outputFd \<Rightarrow> ret (inputFd, outputFd))))"

definition copy_close :: "'k file_os \<Rightarrow> (int \<Rightarrow> string) \<Rightarrow> int \<Rightarrow> int \<Rightarrow> ('k kproc, unit) prog" where
  "copy_close F sr inputFd outputFd =
     bnd (kcall (f_close F inputFd)) (\<lambda>ok. if \<not> ok then errExit sr ''close input'' else
     bnd (kcall (f_close F outputFd)) (\<lambda>ok. if \<not> ok then errExit sr ''close output'' else exit3 EXIT_SUCCESS))"

text \<open>\<^verbatim>\<open>copy.c\<close> is \<open>copy_main\<close> with 0, \<^verbatim>\<open>copy_sync.c\<close> with O\_SYNC as the additional flag.\<close>

definition copy_main ::
  "'k file_os \<Rightarrow> (int \<Rightarrow> string) \<Rightarrow> int \<Rightarrow> string list \<Rightarrow> 'k kproc \<Rightarrow> ((halt + unit) \<times> 'k kproc) option" where
  "copy_main F sr sync argv s = (case copy_open F sr sync argv s of
      (Inl h, s') \<Rightarrow> Some (Inl h, s')
    | (Inr (inputFd, outputFd), s1) \<Rightarrow> (case copy_loop F sr inputFd outputFd s1 of
        None \<Rightarrow> None
      | Some (Inl h, s2) \<Rightarrow> Some (Inl h, s2)
      | Some (Inr _, s2) \<Rightarrow> Some (copy_close F sr inputFd outputFd s2)))"

subsection \<open>cp-holes.c\<close>

text \<open>The array \<^verbatim>\<open>buffer\<close> has the size of the file; its content before the first read is a parameter. Each pass writes the whole array, whatever
  was read, and a partial write goes unnoticed.\<close>

partial_function (option) cp_loop ::
  "'k file_os \<Rightarrow> (int \<Rightarrow> string) \<Rightarrow> int \<Rightarrow> int \<Rightarrow> string \<Rightarrow> 'k kproc \<Rightarrow> ((halt + unit) \<times> 'k kproc) option" where
  "cp_loop F sr srcFd tgtFd buffer s = (case f_read F srcFd (length buffer) (ker s) of
      (Inl e, k) \<Rightarrow> Some (errExit sr ''read'' (s\<lparr>ker := k, errno := e\<rparr>))
    | (Inr bs, k) \<Rightarrow>
        if bs = [] then Some (Inr (), s\<lparr>ker := k\<rparr>)
        else (let buffer = bs @ drop (length bs) buffer in case f_write F tgtFd buffer k of
            (Inl e, k') \<Rightarrow> Some (fatal sr (''couldn'' @ [CHR 0x27] @ ''t write whole buffer'') (s\<lparr>ker := k', errno := e\<rparr>))
          | (Inr n, k') \<Rightarrow> cp_loop F sr srcFd tgtFd buffer (s\<lparr>ker := k'\<rparr>)))"

definition cp_seek :: "'k file_os \<Rightarrow> (int \<Rightarrow> string) \<Rightarrow> int \<Rightarrow> ('k kproc, int) prog" where
  "cp_seek F sr srcFd =
     bnd (kget (f_lseek F srcFd 0 SEEK_CUR)) (\<lambda>r. case r of None \<Rightarrow> errExit sr ''seek curr'' | Some tgtCurOffset \<Rightarrow>
     bnd (printfM (''tgtCurOffset: '' @ show_int tgtCurOffset @ [NL])) (\<lambda>_.
     bnd (kget (f_lseek F srcFd 0 SEEK_END)) (\<lambda>r. case r of None \<Rightarrow> errExit sr ''seek end'' | Some tgtEnd \<Rightarrow>
     bnd (printfM (''tgtEnd: '' @ show_int tgtEnd @ [NL])) (\<lambda>_.
     bnd (kget (f_lseek F srcFd (tgtCurOffset - tgtEnd) SEEK_END)) (\<lambda>r. case r of None \<Rightarrow> errExit sr ''seek restore curr'' | Some off \<Rightarrow>
     bnd (printfM (''tgtCurOffset(resotred): '' @ show_int off @ [NL])) (\<lambda>_. ret tgtEnd))))))"

definition cp_open :: "'k file_os \<Rightarrow> (int \<Rightarrow> string) \<Rightarrow> string list \<Rightarrow> ('k kproc, int \<times> int \<times> int) prog" where
  "cp_open F sr argv =
     andthen (whenM (length argv \<noteq> 3 \<or> argv ! 1 = ''--help'') (usageErr (argv ! 0 @ '' old-file new-file'' @ [NL])))
    (bnd (kget (f_open F (argv ! 1) O_RDONLY 0)) (\<lambda>r. case r of None \<Rightarrow> errExit sr ''open source'' | Some srcFd \<Rightarrow>
     bnd (kget (f_open F (argv ! 2) (O_CREAT OR O_WRONLY) S_IWUSR)) (\<lambda>r. case r of None \<Rightarrow> errExit sr ''open target'' | Some tgtFd \<Rightarrow>
     bnd (cp_seek F sr srcFd) (\<lambda>tgtEnd. ret (srcFd, tgtFd, tgtEnd)))))"

definition cp_close :: "'k file_os \<Rightarrow> (int \<Rightarrow> string) \<Rightarrow> int \<Rightarrow> int \<Rightarrow> ('k kproc, unit) prog" where
  "cp_close F sr srcFd tgtFd =
     bnd (kcall (f_close F srcFd)) (\<lambda>ok. if \<not> ok then errExit sr ''close srcFd'' else
     bnd (kcall (f_close F tgtFd)) (\<lambda>ok. if \<not> ok then errExit sr ''close tgtFd'' else exit3 EXIT_SUCCESS))"

text \<open>An array of size 0 is undefined.\<close>

definition cp_main ::
  "'k file_os \<Rightarrow> (int \<Rightarrow> string) \<Rightarrow> (nat \<Rightarrow> char) \<Rightarrow> string list \<Rightarrow> 'k kproc \<Rightarrow> ((halt + unit) \<times> 'k kproc) option" where
  "cp_main F sr junk argv s = (case cp_open F sr argv s of
      (Inl h, s') \<Rightarrow> Some (Inl h, s')
    | (Inr (srcFd, tgtFd, tgtEnd), s1) \<Rightarrow>
        if tgtEnd \<le> 0 then Some (Inl Undef, s1)
        else (case cp_loop F sr srcFd tgtFd (map junk [0..<nat tgtEnd]) s1 of
            None \<Rightarrow> None
          | Some (Inl h, s2) \<Rightarrow> Some (Inl h, s2)
          | Some (Inr _, s2) \<Rightarrow> Some (cp_close F sr srcFd tgtFd s2)))"

section \<open>Two files\<close>

definition gives_up :: "halt \<Rightarrow> bool" where
  "gives_up h \<longleftrightarrow> h = Exit EXIT_FAILURE \<or> h = Abort"

lemma errExit_halts: "\<exists>h s'. errExit sr m s = (Inl h, s') \<and> gives_up h"
  by (auto simp: errExit_def terminate_proc_def exit3_def gives_up_def Let_def)

lemma fatal_halts: "\<exists>h s'. fatal sr m s = (Inl h, s') \<and> gives_up h"
  by (auto simp: fatal_def terminate_proc_def exit3_def gives_up_def Let_def)

text \<open>\<open>ok\<close> says that the descriptors refer to different files: reading leaves the target alone and writing the source.\<close>

locale file_pair = reader rd avail intr errs + writer wr wrote wintr
  for rd :: "'k read_call" and avail intr errs and wr :: "'k write_call" and wrote wintr +
  fixes ok :: "'k \<Rightarrow> bool"
  assumes rd_ok: "rd n k = (r, k') \<Longrightarrow> ok k \<Longrightarrow> ok k' \<and> wrote k' = wrote k"
    and wr_ok: "wr bs k = (r', k') \<Longrightarrow> ok k \<Longrightarrow> ok k' \<and> avail k' = avail k"
begin

text \<open>The loop ends, and unless it ends the program the target has got all of the source.\<close>

lemma copy_loop_copies:
  assumes "f_read F i = rd" "f_write F out = wr" "ok (ker s)"
  shows "\<exists>r s'. copy_loop F sr i out s = Some (r, s') \<and>
    (case r of Inr _ \<Rightarrow> ok (ker s') \<and> avail (ker s') = [] \<and> wrote (ker s') = wrote (ker s) @ avail (ker s) | Inl h \<Rightarrow> gives_up h)"
  using assms(3)
proof (induction "length (avail (ker s))" arbitrary: s rule: less_induct)
  case less
  obtain x k where x: "rd BUF_SIZE (ker s) = (x, k)" by fastforce
  show ?case
  proof (cases x)
    case (Inl e)
    obtain h s' where "(errExit sr ''read'' (s\<lparr>ker := k, errno := e\<rparr>) :: (halt + unit) \<times> 'k kproc) = (Inl h, s') \<and> gives_up h"
      using errExit_halts by blast
    then show ?thesis using x Inl assms by (subst copy_loop.simps) auto
  next
    case (Inr buf)
    note rd = x [unfolded Inr]
    have ok: "ok k" "wrote k = wrote (ker s)" using rd_ok [OF rd less.prems] by auto
    have av: "avail (ker s) = buf @ avail k" using rd_data [OF rd] by simp
    show ?thesis
    proof (cases "buf = []")
      case True
      with rd_eof [of BUF_SIZE "ker s" k] rd have "avail (ker s) = []" by (simp add: BUF_SIZE_def)
      with True rd ok av assms show ?thesis by (subst copy_loop.simps) auto
    next
      case False
      obtain y k' where y: "wr buf k = (y, k')" by fastforce
      have ok': "ok k'" "avail k' = avail k" using wr_ok [OF y ok(1)] by auto
      show ?thesis
      proof (cases "y = Inr (length buf)")
        case True
        with wr_data y have w: "wrote k' = wrote k @ buf" by fastforce
        have "length (avail (ker (s\<lparr>ker := k'\<rparr>))) < length (avail (ker s))" using ok' av False by simp
        from less.hyps [OF this] ok' obtain r s' where
          "copy_loop F sr i out (s\<lparr>ker := k'\<rparr>) = Some (r, s')"
          "case r of Inr _ \<Rightarrow> ok (ker s') \<and> avail (ker s') = [] \<and> wrote (ker s') = wrote k' @ avail k' | Inl h \<Rightarrow> gives_up h"
          by (auto cong: sum.case_cong)
        moreover have "copy_loop F sr i out s = copy_loop F sr i out (s\<lparr>ker := k'\<rparr>)"
          using rd y True False assms by (subst copy_loop.simps) simp
        ultimately show ?thesis using w ok ok' av by (cases r) auto
      next
        case other: False
        obtain s1 where s1: "copy_loop F sr i out s = Some (fatal sr ''write() returned error or partial write occurred'' s1)"
          using rd y False other assms by (subst (asm) copy_loop.simps) (cases y, auto)
        obtain h s' where "(fatal sr ''write() returned error or partial write occurred'' s1 :: (halt + unit) \<times> 'k kproc) = (Inl h, s')" "gives_up h"
          using fatal_halts by blast
        with s1 show ?thesis by auto
      qed
    qed
  qed
qed

end

section \<open>A kernel with named files\<close>

text \<open>Every read and write takes the next entry of a schedule: \<open>None\<close> fails, \<open>Some m\<close> transfers at most \<open>m + 1\<close> bytes; an exhausted
  schedule transfers all. A descriptor has a file name and an offset.\<close>

definition ENOENT :: int where "ENOENT = 2"
definition EBADF :: int where "EBADF = 9"

record fsk =
  fs_files :: "string \<Rightarrow> string option"
  fs_tab :: "int \<Rightarrow> (string \<times> nat) option"
  fs_next :: int
  fs_sched :: "nat option list"

definition content :: "fsk \<Rightarrow> string \<Rightarrow> string" where
  "content k nm = (case fs_files k nm of None \<Rightarrow> [] | Some c \<Rightarrow> c)"

definition fs_limit :: "fsk \<Rightarrow> nat option option" where
  "fs_limit k = (case fs_sched k of [] \<Rightarrow> None | x # _ \<Rightarrow> Some x)"

definition transfer :: "fsk \<Rightarrow> nat \<Rightarrow> nat" where
  "transfer k n = (case fs_limit k of Some (Some m) \<Rightarrow> min n (Suc m) | _ \<Rightarrow> n)"

definition sched_next :: "fsk \<Rightarrow> fsk" where
  "sched_next k = k\<lparr>fs_sched := tl (fs_sched k)\<rparr>"

definition fs_open :: "string \<Rightarrow> int \<Rightarrow> int \<Rightarrow> fsk \<Rightarrow> (int + int) \<times> fsk" where
  "fs_open nm flags perms k =
     (if fs_files k nm = None \<and> flags AND O_CREAT = 0 then (Inl ENOENT, k)
      else (Inr (fs_next k), k\<lparr>fs_files := (fs_files k)(nm \<mapsto> (if flags AND O_TRUNC \<noteq> 0 then [] else content k nm)),
        fs_tab := (fs_tab k)(fs_next k \<mapsto> (nm, 0)), fs_next := fs_next k + 1\<rparr>))"

definition fs_read :: "int \<Rightarrow> nat \<Rightarrow> fsk \<Rightarrow> (int + string) \<times> fsk" where
  "fs_read fd n k = (case fs_tab k fd of
      None \<Rightarrow> (Inl EBADF, k)
    | Some (nm, pos) \<Rightarrow>
        if fs_limit k = Some None then (Inl EIO, sched_next k)
        else let bs = take (transfer k n) (drop pos (content k nm))
          in (Inr bs, (sched_next k)\<lparr>fs_tab := (fs_tab k)(fd \<mapsto> (nm, pos + length bs))\<rparr>))"

text \<open>Writing beyond the end leaves a hole of zeros.\<close>

definition write_at :: "nat \<Rightarrow> string \<Rightarrow> string \<Rightarrow> string" where
  "write_at pos bs c = take pos (c @ replicate (pos - length c) (CHR 0x00)) @ bs @ drop (pos + length bs) c"

definition fs_write :: "int \<Rightarrow> string \<Rightarrow> fsk \<Rightarrow> (int + nat) \<times> fsk" where
  "fs_write fd bs k = (case fs_tab k fd of
      None \<Rightarrow> (Inl EBADF, k)
    | Some (nm, pos) \<Rightarrow>
        if fs_limit k = Some None then (Inl EIO, sched_next k)
        else let n = transfer k (length bs)
          in (Inr n, (sched_next k)\<lparr>fs_files := (fs_files k)(nm \<mapsto> write_at pos (take n bs) (content k nm)), fs_tab := (fs_tab k)(fd \<mapsto> (nm, pos + n))\<rparr>))"

definition fs_lseek :: "int \<Rightarrow> int \<Rightarrow> whence \<Rightarrow> fsk \<Rightarrow> (int + int) \<times> fsk" where
  "fs_lseek fd off w k = (case fs_tab k fd of
      None \<Rightarrow> (Inl EBADF, k)
    | Some (nm, pos) \<Rightarrow>
        (let p = off + (case w of SEEK_CUR \<Rightarrow> int pos | SEEK_END \<Rightarrow> int (length (content k nm)))
         in if p < 0 then (Inl EINVAL, k) else (Inr p, k\<lparr>fs_tab := (fs_tab k)(fd \<mapsto> (nm, nat p))\<rparr>)))"

definition fs_close :: "int \<Rightarrow> fsk \<Rightarrow> int option \<times> fsk" where
  "fs_close fd k = (if fs_tab k fd = None then (Some EBADF, k) else (None, k\<lparr>fs_tab := (fs_tab k)(fd := None)\<rparr>))"

definition fs_os :: "fsk file_os" where
  "fs_os = \<lparr>f_open = fs_open, f_read = fs_read, f_write = fs_write, f_lseek = fs_lseek, f_close = fs_close\<rparr>"

lemma fs_os_simps [simp]:
  "f_open fs_os = fs_open" "f_read fs_os = fs_read" "f_write fs_os = fs_write" "f_lseek fs_os = fs_lseek" "f_close fs_os = fs_close"
  by (simp_all add: fs_os_def)

text \<open>What a descriptor still reads, and what is before the offset of a descriptor that is written.\<close>

definition unread :: "int \<Rightarrow> fsk \<Rightarrow> string" where
  "unread fd k = (case fs_tab k fd of None \<Rightarrow> [] | Some (nm, pos) \<Rightarrow> drop pos (content k nm))"

definition written :: "int \<Rightarrow> fsk \<Rightarrow> string" where
  "written fd k = (case fs_tab k fd of None \<Rightarrow> [] | Some (nm, pos) \<Rightarrow> take pos (content k nm @ replicate (pos - length (content k nm)) (CHR 0x00)))"

text \<open>Two descriptors of different files, the second one at the end of its file.\<close>

definition separate :: "string \<Rightarrow> int \<Rightarrow> int \<Rightarrow> fsk \<Rightarrow> bool" where
  "separate dst i out k \<longleftrightarrow> i \<noteq> out \<and> (\<exists>src p. fs_tab k i = Some (src, p) \<and> src \<noteq> dst) \<and>
     fs_tab k out = Some (dst, length (content k dst)) \<and> fs_files k dst \<noteq> None"

lemma sched_next_sel [simp]: "fs_files (sched_next k) = fs_files k" "fs_tab (sched_next k) = fs_tab k" "fs_next (sched_next k) = fs_next k"
  by (simp_all add: sched_next_def)

lemma content_upd [simp]:
  "content (k\<lparr>fs_files := (fs_files k')(nm \<mapsto> c)\<rparr>) x = (if x = nm then c else content k' x)"
  "content (k\<lparr>fs_tab := t\<rparr>) = content k" "content (sched_next k) = content k" "content (k\<lparr>fs_next := n\<rparr>) = content k"
  by (auto simp: content_def fun_eq_iff)

lemma transfer_le: "transfer k n \<le> n" "0 < n \<Longrightarrow> 0 < transfer k n"
  by (auto simp: transfer_def split: option.splits)

lemma take_write_at: "take (pos + length bs) (write_at pos bs c) = take pos (c @ replicate (pos - length c) (CHR 0x00)) @ bs"
  by (simp add: write_at_def)

lemma length_write_at: "length (write_at pos bs c) = max (pos + length bs) (length c)"
  by (auto simp: write_at_def)

lemma drop_take_split: "drop pos c = take n (drop pos c) @ drop (pos + length (take n (drop pos c))) c"
  using append_take_drop_id [of n "drop pos c"] by (cases "n \<le> length c - pos") (simp_all add: min_def ac_simps)

lemma fs_read_cases:
  assumes "fs_read fd n k = (r, k')"
  obtains (bad) "fs_tab k fd = None" "r = Inl EBADF" "k' = k"
  | (err) "r = Inl EIO" "k' = sched_next k"
  | (data) nm pos m where "fs_tab k fd = Some (nm, pos)" "r = Inr (take m (drop pos (content k nm)))" "m \<le> n" "0 < n \<Longrightarrow> 0 < m"
      "k' = (sched_next k)\<lparr>fs_tab := (fs_tab k)(fd \<mapsto> (nm, pos + length (take m (drop pos (content k nm)))))\<rparr>"
  using assms transfer_le [where k = k and n = n]
  by (cases "fs_tab k fd"; cases "fs_limit k = Some None") (auto simp: fs_read_def Let_def)

lemma fs_write_cases:
  assumes "fs_write fd bs k = (r, k')"
  obtains (bad) "fs_tab k fd = None" "r = Inl EBADF" "k' = k"
  | (err) "r = Inl EIO" "k' = sched_next k"
  | (data) nm pos m where "fs_tab k fd = Some (nm, pos)" "r = Inr m" "m \<le> length bs"
      "k' = (sched_next k)\<lparr>fs_files := (fs_files k)(nm \<mapsto> write_at pos (take m bs) (content k nm)), fs_tab := (fs_tab k)(fd \<mapsto> (nm, pos + m))\<rparr>"
  using assms transfer_le(1) [where k = k and n = "length bs"]
  by (cases "fs_tab k fd"; cases "fs_limit k = Some None") (auto simp: fs_write_def Let_def)

lemma fs_keeps [simp]: "unread fd (sched_next k) = unread fd k" "written fd (sched_next k) = written fd k" "separate dst i out (sched_next k) = separate dst i out k"
  by (simp_all add: unread_def written_def separate_def split: option.split)

lemma fs_reader: "reader (fs_read i) (unread i) (\<lambda>_. 0) (\<lambda>_. {EIO, EBADF})"
proof
  fix n k bs k' assume r: "fs_read i n k = (Inr bs, k')"
  then show "length bs \<le> n \<and> unread i k = bs @ unread i k'"
  proof (cases rule: fs_read_cases)
    case (data nm pos m)
    then show ?thesis using drop_take_split [of pos "content k nm" m] by (auto simp: unread_def)
  qed auto
next
  fix n k k' assume "fs_read i n k = (Inr [], k')" "0 < n"
  then show "unread i k = []" by (cases rule: fs_read_cases) (auto simp: unread_def)
next
  fix n k e k' assume "fs_read i n k = (Inl e, k')"
  then show "unread i k' = unread i k" by (cases rule: fs_read_cases) auto
next
  fix n k k' assume "fs_read i n k = (Inl EINTR, k')"
  then show "(0 :: nat) < 0" by (cases rule: fs_read_cases) (auto simp: EINTR_def EIO_def EBADF_def)
next
  fix n k e k' assume "fs_read i n k = (Inl e, k')"
  then show "e \<in> {EIO, EBADF}" by (cases rule: fs_read_cases) auto
qed auto

lemma fs_writer: "writer (fs_write out) (written out) (\<lambda>_. 0)"
proof
  fix bs k m k' assume "fs_write out bs k = (Inr m, k')"
  then show "m \<le> length bs \<and> written out k' = written out k @ take m bs"
  proof (cases rule: fs_write_cases)
    case (data nm pos m')
    then have m: "m' = m" "m \<le> length bs" by auto
    let ?c = "content k nm"
    have "pos + m \<le> length (write_at pos (take m bs) ?c)" using m by (simp add: length_write_at)
    with data m take_write_at [of pos "take m bs" ?c] show ?thesis by (simp add: written_def)
  qed auto
next
  fix bs k e k' assume "fs_write out bs k = (Inl e, k')"
  then show "written out k' = written out k" by (cases rule: fs_write_cases) auto
next
  fix bs k k' assume "fs_write out bs k = (Inl EINTR, k')"
  then show "(0 :: nat) < 0" by (cases rule: fs_write_cases) (auto simp: EINTR_def EIO_def EBADF_def)
qed auto

interpretation fs: file_pair "fs_read i" "unread i" "\<lambda>_. 0" "\<lambda>_. {EIO, EBADF}" "fs_write out" "written out" "\<lambda>_. 0" "separate dst i out"
proof (rule file_pair.intro [OF fs_reader fs_writer], unfold_locales)
  fix n k r k' assume "fs_read i n k = (r, k')" "separate dst i out k"
  then show "separate dst i out k' \<and> written out k' = written out k"
    by (cases rule: fs_read_cases) (auto simp: separate_def written_def)
next
  fix bs k r k' assume "fs_write out bs k = (r, k')" "separate dst i out k"
  then show "separate dst i out k' \<and> unread i k' = unread i k"
    by (cases rule: fs_write_cases) (auto simp: separate_def unread_def length_write_at)
qed

section \<open>What is copied\<close>

lemma flag_in: "(a OR b) AND a = (a :: int)" "(a OR b OR c OR d) AND c = (c :: int)"
  by (rule bit_eqI; auto simp: bit_simps)+

lemma copy_flags: "(O_CREAT OR O_WRONLY OR O_TRUNC OR sync) AND O_CREAT \<noteq> 0" "(O_CREAT OR O_WRONLY OR O_TRUNC OR sync) AND O_TRUNC \<noteq> 0"
  "O_RDONLY AND O_CREAT = 0" "O_RDONLY AND O_TRUNC = 0" "(O_CREAT OR O_WRONLY) AND O_CREAT \<noteq> 0" "(O_CREAT OR O_WRONLY) AND O_TRUNC = 0"
proof -
  show "(O_CREAT OR O_WRONLY OR O_TRUNC OR sync) AND O_CREAT \<noteq> 0" "(O_CREAT OR O_WRONLY) AND O_CREAT \<noteq> 0" unfolding flag_in(1) by (simp_all add: O_CREAT_def)
  show "(O_CREAT OR O_WRONLY OR O_TRUNC OR sync) AND O_TRUNC \<noteq> 0" unfolding flag_in(2) by (simp add: O_TRUNC_def)
qed (simp_all add: O_RDONLY_def O_CREAT_def O_WRONLY_def O_TRUNC_def)

text \<open>The kernel after both files have been opened.\<close>

definition both_open :: "string \<Rightarrow> string \<Rightarrow> bool \<Rightarrow> fsk \<Rightarrow> fsk" where
  "both_open src dst trunc k = k\<lparr>fs_files := (fs_files k)(dst \<mapsto> (if trunc then [] else content k dst)),
     fs_tab := (fs_tab k)(fs_next k \<mapsto> (src, 0), fs_next k + 1 \<mapsto> (dst, 0)), fs_next := fs_next k + 2\<rparr>"

lemma open_both:
  assumes "fs_files k src = Some c" "flags AND O_CREAT \<noteq> 0"
  obtains k1 where "fs_open src O_RDONLY p k = (Inr (fs_next k), k1)"
    "fs_open dst flags q k1 = (Inr (fs_next k + 1), both_open src dst (flags AND O_TRUNC \<noteq> 0) k)"
proof
  let ?k1 = "k\<lparr>fs_tab := (fs_tab k)(fs_next k \<mapsto> (src, 0)), fs_next := fs_next k + 1\<rparr>"
  have id: "(fs_files k)(src \<mapsto> c) = fs_files k" using assms(1) by auto
  then show "fs_open src O_RDONLY p k = (Inr (fs_next k), ?k1)"
    using assms(1) by (cases k) (auto simp: fs_open_def copy_flags content_def)
  show "fs_open dst flags q ?k1 = (Inr (fs_next k + 1), both_open src dst (flags AND O_TRUNC \<noteq> 0) k)"
    using assms(2) by (simp add: fs_open_def both_open_def content_def)
qed

lemma copy_open_both:
  assumes "length argv = 3" "argv ! 1 = src" "src \<noteq> ''--help''" "argv ! 2 = dst" "fs_files (ker s) src = Some c"
  shows "copy_open fs_os sr sync argv s = (Inr (fs_next (ker s), fs_next (ker s) + 1), s\<lparr>ker := both_open src dst True (ker s)\<rparr>)"
proof -
  obtain k1 where "fs_open src O_RDONLY 0 (ker s) = (Inr (fs_next (ker s)), k1)"
    "fs_open dst (O_CREAT OR O_WRONLY OR O_TRUNC OR sync) rw_rw_rw k1 = (Inr (fs_next (ker s) + 1), both_open src dst True (ker s))"
    by (rule open_both [OF assms(5) copy_flags(1), where p = 0 and dst = dst and q = rw_rw_rw]) (simp add: copy_flags)
  with assms show ?thesis by (simp add: copy_open_def prog_simps kget_def)
qed

lemma both_open_facts:
  assumes "fs_files k src = Some c" "src \<noteq> dst"
  shows "separate dst (fs_next k) (fs_next k + 1) (both_open src dst True k)" "unread (fs_next k) (both_open src dst True k) = c"
    "written (fs_next k + 1) (both_open src dst True k) = []"
  using assms by (simp_all add: separate_def both_open_def unread_def written_def content_def)

lemma separate_close:
  assumes "separate dst i out (ker s)"
  shows "\<exists>s'. copy_close fs_os sr i out s = (Inl (Exit EXIT_SUCCESS), s') \<and> fs_files (ker s') = fs_files (ker s)"
    and "\<exists>s'. cp_close fs_os sr i out s = (Inl (Exit EXIT_SUCCESS), s') \<and> fs_files (ker s') = fs_files (ker s)"
  using assms by (auto simp: copy_close_def cp_close_def prog_simps kcall_def fs_close_def separate_def exit3_def fflush_stdout_def split: option.splits)

lemma separate_written: "separate dst i out k \<Longrightarrow> fs_files k dst = Some (written out k)"
  by (auto simp: separate_def written_def content_def)

lemma limit_None: "fs_sched k = [] \<Longrightarrow> fs_limit k = None" "fs_sched k = [] \<Longrightarrow> transfer k n = n" "fs_sched k = [] \<Longrightarrow> sched_next k = k"
  by (simp_all add: fs_limit_def transfer_def sched_next_def)

lemma fs_copy_loop:
  assumes "separate dst i out (ker s)"
  shows "\<exists>r s'. copy_loop fs_os sr i out s = Some (r, s') \<and>
    (case r of Inr _ \<Rightarrow> separate dst i out (ker s') \<and> unread i (ker s') = [] \<and> written out (ker s') = written out (ker s) @ unread i (ker s) | Inl h \<Rightarrow> gives_up h)"
  by (rule fs.copy_loop_copies) (use assms in simp_all)

text \<open>When no transfer fails or is short the loop does not give up.\<close>

lemma copy_loop_undisturbed:
  assumes "separate dst i out (ker s)" "fs_sched (ker s) = []"
  shows "\<exists>s'. copy_loop fs_os sr i out s = Some (Inr (), s')"
  using assms
proof (induction "length (unread i (ker s))" arbitrary: s rule: less_induct)
  case less
  obtain src pos where i: "fs_tab (ker s) i = Some (src, pos)" using less.prems(1) by (auto simp: separate_def)
  let ?bs = "take BUF_SIZE (drop pos (content (ker s) src))"
  obtain k where k: "fs_read i BUF_SIZE (ker s) = (Inr ?bs, k)" "fs_sched k = []"
    using i less.prems(2) by (simp add: fs_read_def limit_None)
  have sep: "separate dst i out k" using fs.rd_ok [OF k(1)] less.prems(1) by blast
  show ?case
  proof (cases "?bs = []")
    case True
    with k show ?thesis by (subst copy_loop.simps) simp
  next
    case False
    from sep obtain q where out: "fs_tab k out = Some (dst, q)" by (auto simp: separate_def)
    obtain k' where k': "fs_write out ?bs k = (Inr (length ?bs), k')" "fs_sched k' = []"
      using out k(2) by (simp add: fs_write_def limit_None Let_def)
    have sep': "separate dst i out k'" "unread i k' = unread i k" using fs.wr_ok [OF k'(1) sep] by auto
    have "unread i (ker s) = ?bs @ unread i k" using reader.rd_data [OF fs_reader k(1)] by simp
    with sep' False have "length (unread i (ker (s\<lparr>ker := k'\<rparr>))) < length (unread i (ker s))" by simp
    from less.hyps [OF this] sep' k'(2) obtain s' where "copy_loop fs_os sr i out (s\<lparr>ker := k'\<rparr>) = Some (Inr (), s')" by auto
    moreover have "copy_loop fs_os sr i out s = copy_loop fs_os sr i out (s\<lparr>ker := k'\<rparr>)"
      using k k' False by (subst copy_loop.simps) simp
    ultimately show ?thesis by simp
  qed
qed

text \<open>The source and the target are one file: opening the target empties it.\<close>

lemma copy_self:
  assumes "fs_tab (ker s) i = Some (nm, 0)" "content (ker s) nm = []"
  shows "\<exists>k. copy_loop fs_os sr i out s = Some (Inr (), s\<lparr>ker := k\<rparr>) \<and> fs_files k = fs_files (ker s) \<and> fs_tab k = fs_tab (ker s) \<or>
    (\<exists>s1. copy_loop fs_os sr i out s = Some (errExit sr ''read'' s1)) \<and> fs_limit (ker s) = Some None"
  using assms by (subst (1 2) copy_loop.simps) (auto simp: fs_read_def fun_upd_idem)

text \<open>C38. Copying a file that exists always ends. Unless it gives up with a message, it exits with success and the new file holds exactly
  what the old one held, however reads were cut into pieces - or nothing, if old and new file are the same. It does not give
  up when no transfer fails or is short. Two names are two files: links are left out.\<close>
theorem copy_copies:
  assumes "length argv = 3" "argv ! 1 = src" "src \<noteq> ''--help''" "argv ! 2 = dst" "fs_files (ker s) src = Some c"
  shows "\<exists>h s'. copy_main fs_os sr sync argv s = Some (Inl h, s') \<and>
    (gives_up h \<or> h = Exit EXIT_SUCCESS \<and> fs_files (ker s') dst = Some (if src = dst then [] else c)) \<and>
    (fs_sched (ker s) = [] \<longrightarrow> h = Exit EXIT_SUCCESS)"
proof -
  let ?i = "fs_next (ker s)" and ?o = "fs_next (ker s) + 1" and ?s1 = "s\<lparr>ker := both_open src dst True (ker s)\<rparr>"
  note op = copy_open_both [OF assms, of sr sync]
  show ?thesis
  proof (cases "src = dst")
    case False
    note open_ = both_open_facts [OF assms(5) False]
    obtain r s2 where lp: "copy_loop fs_os sr ?i ?o ?s1 = Some (r, s2)"
      and res: "case r of Inr _ \<Rightarrow> separate dst ?i ?o (ker s2) \<and> unread ?i (ker s2) = [] \<and> written ?o (ker s2) = c | Inl h \<Rightarrow> gives_up h"
      using fs_copy_loop [of dst ?i ?o ?s1 sr] open_ by (auto cong: sum.case_cong)
    have fine: "fs_sched (ker s) = [] \<Longrightarrow> \<exists>x. r = Inr x"
      using copy_loop_undisturbed [of dst ?i ?o ?s1 sr] open_(1) lp by (auto simp: both_open_def)
    show ?thesis
    proof (cases r)
      case (Inl h)
      with op lp res fine show ?thesis by (auto simp: copy_main_def)
    next
      case (Inr u)
      with res have sep: "separate dst ?i ?o (ker s2)" "written ?o (ker s2) = c" by auto
      from separate_close(1) [OF sep(1), of sr] obtain s3 where "copy_close fs_os sr ?i ?o s2 = (Inl (Exit EXIT_SUCCESS), s3)"
        "fs_files (ker s3) = fs_files (ker s2)" by blast
      with op lp Inr separate_written [OF sep(1)] sep(2) False show ?thesis by (auto simp: copy_main_def)
    qed
  next
    case True
    have tab: "fs_tab (ker ?s1) ?i = Some (src, 0)" "fs_tab (ker ?s1) ?o = Some (src, 0)" "content (ker ?s1) src = []" "fs_files (ker ?s1) src = Some []"
      using True by (auto simp: both_open_def content_def)
    from copy_self [OF tab(1,3), of sr ?o] consider
      (ok) k where "copy_loop fs_os sr ?i ?o ?s1 = Some (Inr (), ?s1\<lparr>ker := k\<rparr>)" "fs_files k = fs_files (ker ?s1)" "fs_tab k = fs_tab (ker ?s1)"
    | (err) s1 where "copy_loop fs_os sr ?i ?o ?s1 = Some (errExit sr ''read'' s1)" "fs_limit (ker ?s1) = Some None" by blast
    then show ?thesis
    proof cases
      case ok
      have "\<exists>s'. copy_close fs_os sr ?i ?o (?s1\<lparr>ker := k\<rparr>) = (Inl (Exit EXIT_SUCCESS), s') \<and> fs_files (ker s') = fs_files k"
        using tab ok(3) by (simp add: copy_close_def prog_simps kcall_def fs_close_def exit3_def fflush_stdout_def)
      with op ok tab True show ?thesis by (auto simp: copy_main_def)
    next
      case err
      obtain h s' where "(errExit sr ''read'' s1 :: (halt + unit) \<times> fsk kproc) = (Inl h, s')" "gives_up h" using errExit_halts by blast
      with op err show ?thesis by (auto simp: copy_main_def both_open_def fs_limit_def split: list.splits)
    qed
  qed
qed

definition sample_fs :: "fsk kproc" where
  "sample_fs = \<lparr>stdout_buf = [], stdout_out = [], stderr_out = [], errno = 0, ef_dumpcore = None, stdio_errno = None,
     ker = \<lparr>fs_files = [''a'' \<mapsto> ''hello'', ''b'' \<mapsto> ''old content''], fs_tab = Map.empty, fs_next = 3, fs_sched = []\<rparr>\<rparr>"

theorem copy_copies_witness:
  "\<exists>s'. copy_main fs_os (\<lambda>_. []) 0 [''copy'', ''a'', ''b''] sample_fs = Some (Inl (Exit EXIT_SUCCESS), s') \<and> fs_files (ker s') ''b'' = Some ''hello''"
proof -
  have files: "fs_files (ker sample_fs) ''a'' = Some ''hello''" "fs_sched (ker sample_fs) = []" by (simp_all add: sample_fs_def)
  from copy_copies [of "[''copy'', ''a'', ''b'']" "''a''" "''b''" sample_fs, OF _ _ _ _ files(1), of "\<lambda>_. []" 0] files(2)
  show ?thesis by (auto simp: gives_up_def EXIT_SUCCESS_def EXIT_FAILURE_def)
qed

section \<open>cp-holes\<close>

lemma printfM_ker: "\<exists>s'. printfM m s = (Inr (), s') \<and> ker s' = ker s"
  by (auto simp: printfM_def printf_stdout_def stdio_noise_def split: option.split)

lemma cp_seek_size:
  assumes "fs_tab (ker s) i = Some (nm, 0)"
  shows "\<exists>s'. cp_seek fs_os sr i s = (Inr (int (length (content (ker s) nm))), s') \<and> ker s' = ker s"
proof -
  have id: "(ker s)\<lparr>fs_tab := (fs_tab (ker s))(i \<mapsto> (nm, 0))\<rparr> = ker s" using assms by (cases "ker s") (auto simp: fun_upd_idem)
  let ?n = "length (content (ker s) nm)"
  obtain s1 where s1: "printfM (''tgtCurOffset: '' @ show_int 0 @ [NL]) s = (Inr (), s1)" "ker s1 = ker s" using printfM_ker by blast
  let ?k = "(ker s)\<lparr>fs_tab := (fs_tab (ker s))(i \<mapsto> (nm, ?n))\<rparr>"
  obtain s2 where s2: "printfM (''tgtEnd: '' @ show_int (int ?n) @ [NL]) (s1\<lparr>ker := ?k\<rparr>) = (Inr (), s2)" "ker s2 = ?k" using printfM_ker [where s = "s1\<lparr>ker := ?k\<rparr>"] by auto
  obtain s3 where s3: "printfM (''tgtCurOffset(resotred): '' @ show_int 0 @ [NL]) (s2\<lparr>ker := ker s\<rparr>) = (Inr (), s3)" "ker s3 = ker s"
    using printfM_ker [where s = "s2\<lparr>ker := ker s\<rparr>"] by auto
  have seek: "fs_lseek i 0 SEEK_CUR (ker s) = (Inr 0, ker s)" "fs_lseek i 0 SEEK_END (ker s) = (Inr (int ?n), ?k)" "fs_lseek i (0 - int ?n) SEEK_END ?k = (Inr 0, ker s)"
    using assms id by (simp_all add: fs_lseek_def)
  have "s\<lparr>ker := ker s\<rparr> = s" by simp
  then show ?thesis using seek s1 s2 s3 by (simp add: cp_seek_def bnd_def kget_def)
qed

lemma cp_open_both:
  assumes "length argv = 3" "argv ! 1 = src" "src \<noteq> ''--help''" "argv ! 2 = dst" "fs_files (ker s) src = Some c"
  shows "\<exists>s1. cp_open fs_os sr argv s = (Inr (fs_next (ker s), fs_next (ker s) + 1, int (length c)), s1) \<and> ker s1 = both_open src dst False (ker s)"
proof -
  obtain k1 where k1: "fs_open src O_RDONLY 0 (ker s) = (Inr (fs_next (ker s)), k1)"
    "fs_open dst (O_CREAT OR O_WRONLY) S_IWUSR k1 = (Inr (fs_next (ker s) + 1), both_open src dst False (ker s))"
    by (rule open_both [OF assms(5) copy_flags(5), where p = 0 and dst = dst and q = S_IWUSR]) (simp add: copy_flags)
  let ?s1 = "s\<lparr>ker := both_open src dst False (ker s)\<rparr>"
  have "content (both_open src dst False (ker s)) src = c" using assms(5) by (auto simp: both_open_def content_def)
  with cp_seek_size [of ?s1 "fs_next (ker s)" src sr] obtain s2 where
    "cp_seek fs_os sr (fs_next (ker s)) ?s1 = (Inr (int (length c)), s2)" "ker s2 = both_open src dst False (ker s)"
    by (auto simp: both_open_def)
  with assms k1 show ?thesis by (simp add: cp_open_def prog_simps kget_def)
qed

text \<open>One pass of the loop; only its read may be cut short.\<close>

lemma cp_pass:
  assumes "tl (fs_sched (ker s)) = []" "fs_limit (ker s) \<noteq> Some None" "fs_tab (ker s) i = Some (src, p)" "fs_tab (ker s) out = Some (dst, q)" "i \<noteq> out"
    and "bs = take (transfer (ker s) (length buffer)) (drop p (content (ker s) src))" "bs \<noteq> []"
    and "buf = bs @ drop (length bs) buffer"
  shows "\<exists>k. cp_loop fs_os sr i out buffer s = cp_loop fs_os sr i out buf (s\<lparr>ker := k\<rparr>) \<and> fs_sched k = [] \<and>
    fs_tab k i = Some (src, p + length bs) \<and> fs_tab k out = Some (dst, q + length buf) \<and>
    fs_files k = (fs_files (ker s))(dst \<mapsto> write_at q buf (content (ker s) dst))"
proof -
  let ?k1 = "(sched_next (ker s))\<lparr>fs_tab := (fs_tab (ker s))(i \<mapsto> (src, p + length bs))\<rparr>"
  have sch: "fs_sched ?k1 = []" using assms(1) by (simp add: sched_next_def)
  have rd: "fs_read i (length buffer) (ker s) = (Inr bs, ?k1)" using assms(2,3,6) by (simp add: fs_read_def Let_def)
  let ?k2 = "?k1\<lparr>fs_files := (fs_files (ker s))(dst \<mapsto> write_at q buf (content (ker s) dst)), fs_tab := (fs_tab ?k1)(out \<mapsto> (dst, q + length buf))\<rparr>"
  have wr: "fs_write out buf ?k1 = (Inr (length buf), ?k2)"
    using assms(4,5) limit_None [OF sch] by (simp add: fs_write_def Let_def)
  have "cp_loop fs_os sr i out buffer s = cp_loop fs_os sr i out buf (s\<lparr>ker := ?k2\<rparr>)"
    by (subst cp_loop.simps) (use rd wr assms(7,8) in \<open>simp add: Let_def\<close>)
  then show ?thesis using sch assms(5) by (intro exI [of _ ?k2]) simp
qed

lemma cp_end:
  assumes "fs_sched (ker s) = []" "fs_tab (ker s) i = Some (src, p)" "length (content (ker s) src) \<le> p"
  shows "\<exists>k. cp_loop fs_os sr i out buffer s = Some (Inr (), s\<lparr>ker := k\<rparr>) \<and> fs_files k = fs_files (ker s) \<and> fs_tab k = fs_tab (ker s)"
  using assms by (subst cp_loop.simps) (auto simp: fs_read_def limit_None Let_def fun_upd_idem intro!: exI [of _ "ker s"])

lemma cp_close_files:
  assumes "fs_tab (ker s) i \<noteq> None" "fs_tab (ker s) out \<noteq> None" "i \<noteq> out"
  shows "\<exists>s'. cp_close fs_os sr i out s = (Inl (Exit EXIT_SUCCESS), s') \<and> fs_files (ker s') = fs_files (ker s)"
  using assms by (auto simp: cp_close_def prog_simps kcall_def fs_close_def exit3_def fflush_stdout_def)

text \<open>When no transfer fails or is short the exercise copies the old file over the beginning of the new one, and what the new file held beyond that
  length stays in place. An empty file makes the program declare an array of size 0, which is undefined.\<close>
theorem cp_copies:
  assumes "length argv = 3" "argv ! 1 = src" "src \<noteq> ''--help''" "argv ! 2 = dst" "fs_files (ker s) src = Some c" "fs_sched (ker s) = []"
  shows "\<exists>h s'. cp_main fs_os sr junk argv s = Some (Inl h, s') \<and>
    (if c = [] then h = Undef else h = Exit EXIT_SUCCESS \<and> fs_files (ker s') dst = Some (c @ drop (length c) (content (ker s) dst)))"
proof -
  let ?i = "fs_next (ker s)" and ?o = "fs_next (ker s) + 1" and ?k = "both_open src dst False (ker s)"
  obtain s1 where op: "cp_open fs_os sr argv s = (Inr (?i, ?o, int (length c)), s1)" "ker s1 = ?k" using cp_open_both [OF assms(1-5)] by blast
  show ?thesis
  proof (cases "c = []")
    case True
    with op show ?thesis by (simp add: cp_main_def)
  next
    case False
    let ?buf = "map junk [0..<length c]"
    have k: "fs_sched ?k = []" "fs_tab ?k ?i = Some (src, 0)" "fs_tab ?k ?o = Some (dst, 0)" "content ?k src = c" "content ?k dst = content (ker s) dst"
      using assms(5,6) by (auto simp: both_open_def content_def)
    obtain k2 where lp: "cp_loop fs_os sr ?i ?o ?buf s1 = cp_loop fs_os sr ?i ?o c (s1\<lparr>ker := k2\<rparr>)"
      and k2: "fs_sched k2 = []" "fs_tab k2 ?i = Some (src, length c)" "fs_tab k2 ?o = Some (dst, length c)"
        "fs_files k2 = (fs_files ?k)(dst \<mapsto> write_at 0 c (content ?k dst))"
      using cp_pass [of s1 ?i src 0 ?o dst 0 c ?buf c sr] k op(2) False limit_None [OF k(1)] by auto
    have len: "length (content k2 src) \<le> length c" using k2(4) k(4,5) by (auto simp: content_def length_write_at both_open_def split: if_splits)
    obtain k3 where "cp_loop fs_os sr ?i ?o c (s1\<lparr>ker := k2\<rparr>) = Some (Inr (), s1\<lparr>ker := k3\<rparr>)" "fs_files k3 = fs_files k2" "fs_tab k3 = fs_tab k2"
      using cp_end [of "s1\<lparr>ker := k2\<rparr>" ?i src "length c" sr ?o c] k2 len by auto
    moreover obtain s4 where "cp_close fs_os sr ?i ?o (s1\<lparr>ker := k3\<rparr>) = (Inl (Exit EXIT_SUCCESS), s4)" "fs_files (ker s4) = fs_files k3"
      using cp_close_files [of "s1\<lparr>ker := k3\<rparr>" ?i ?o sr] k2 calculation(3) by auto
    ultimately show ?thesis using op lp k2(4) k(5) False by (simp add: cp_main_def write_at_def)
  qed
qed

theorem cp_copies_witness:
  "\<exists>s'. cp_main fs_os (\<lambda>_. []) (\<lambda>_. CHR ''?'') [''cp'', ''a'', ''b''] sample_fs = Some (Inl (Exit EXIT_SUCCESS), s') \<and>
     fs_files (ker s') ''b'' = Some ''helloontent''"
proof -
  have files: "fs_files (ker sample_fs) ''a'' = Some ''hello''" "fs_sched (ker sample_fs) = []" "content (ker sample_fs) ''b'' = ''old content''"
    by (simp_all add: sample_fs_def content_def)
  have b: "[''cp'', ''a'', ''b''] ! 2 = ''b''" by simp
  from cp_copies [of "[''cp'', ''a'', ''b'']" "''a''" "''b''" sample_fs, OF _ _ _ b files(1,2), of "\<lambda>_. []" "\<lambda>_. CHR ''?''"] files(3)
  show ?thesis by simp
qed

text \<open>When the first read returns less than the whole file, the exercise writes the array twice in full: the new file is twice as long as the old one
  and holds what was in the array before.\<close>
theorem cp_short_read:
  assumes "length argv = 3" "argv ! 1 = src" "src \<noteq> ''--help''" "argv ! 2 = dst" "fs_files (ker s) src = Some c"
    and "fs_sched (ker s) = [Some m]" "Suc m < length c" "src \<noteq> dst" "fs_files (ker s) dst = None"
  shows "\<exists>s' a. cp_main fs_os sr junk argv s = Some (Inl (Exit EXIT_SUCCESS), s') \<and>
    fs_files (ker s') dst = Some (take (Suc m) c @ a @ drop (Suc m) c @ drop (length c - Suc m) (take (Suc m) c @ a)) \<and> a = map junk [Suc m..<length c]"
proof -
  let ?i = "fs_next (ker s)" and ?o = "fs_next (ker s) + 1" and ?k = "both_open src dst False (ker s)"
  let ?buf = "map junk [0..<length c]" and ?a = "map junk [Suc m..<length c]"
  let ?b1 = "take (Suc m) c @ ?a" and ?b2 = "drop (Suc m) c @ drop (length c - Suc m) (take (Suc m) c @ ?a)"
  obtain s1 where op: "cp_open fs_os sr argv s = (Inr (?i, ?o, int (length c)), s1)" "ker s1 = ?k" using cp_open_both [OF assms(1-5)] by blast
  have k: "fs_sched ?k = [Some m]" "fs_tab ?k ?i = Some (src, 0)" "fs_tab ?k ?o = Some (dst, 0)" "content ?k src = c" "content ?k dst = []"
    using assms(5,6,8,9) by (auto simp: both_open_def content_def)
  have tr: "transfer ?k (length c) = Suc m" "fs_limit ?k = Some (Some m)" using k(1) assms(7) by (simp_all add: transfer_def fs_limit_def)
  have b1: "?b1 = take (Suc m) c @ drop (Suc m) ?buf" using assms(7) by (simp add: drop_map)
  have c: "c \<noteq> []" using assms(7) by auto
  obtain k2 where lp: "cp_loop fs_os sr ?i ?o ?buf s1 = cp_loop fs_os sr ?i ?o ?b1 (s1\<lparr>ker := k2\<rparr>)"
    and k2: "fs_sched k2 = []" "fs_tab k2 ?i = Some (src, Suc m)" "fs_tab k2 ?o = Some (dst, length c)"
      "fs_files k2 = (fs_files ?k)(dst \<mapsto> write_at 0 ?b1 [])"
    using cp_pass [of s1 ?i src 0 ?o dst 0 "take (Suc m) c" ?buf ?b1 sr] k op(2) assms(7) tr b1 c by auto
  have c2: "content k2 src = c" "content k2 dst = ?b1" using k2(4) k(4) assms(8) by (auto simp: content_def write_at_def)
  obtain k3 where lp2: "cp_loop fs_os sr ?i ?o ?b1 (s1\<lparr>ker := k2\<rparr>) = cp_loop fs_os sr ?i ?o ?b2 (s1\<lparr>ker := k3\<rparr>)"
    and k3: "fs_sched k3 = []" "fs_tab k3 ?i = Some (src, length c)" "fs_tab k3 ?o \<noteq> None" "fs_files k3 = (fs_files k2)(dst \<mapsto> write_at (length c) ?b2 ?b1)"
    using cp_pass [of "s1\<lparr>ker := k2\<rparr>" ?i src "Suc m" ?o dst "length c" "drop (Suc m) c" ?b1 ?b2 sr] k2 c2 assms(7) limit_None [OF k2(1)] by auto
  have c3: "content k3 src = c" using k3(4) c2(1) assms(8) by (simp add: content_def)
  obtain k4 where k4: "cp_loop fs_os sr ?i ?o ?b2 (s1\<lparr>ker := k3\<rparr>) = Some (Inr (), s1\<lparr>ker := k4\<rparr>)" "fs_files k4 = fs_files k3" "fs_tab k4 = fs_tab k3"
    using cp_end [of "s1\<lparr>ker := k3\<rparr>" ?i src "length c" sr ?o ?b2] k3 c3 by auto
  obtain s4 where s4: "cp_close fs_os sr ?i ?o (s1\<lparr>ker := k4\<rparr>) = (Inl (Exit EXIT_SUCCESS), s4)" "fs_files (ker s4) = fs_files k4"
    using cp_close_files [of "s1\<lparr>ker := k4\<rparr>" ?i ?o sr] k3 k4(3) by auto
  have "write_at (length c) ?b2 ?b1 = ?b1 @ ?b2" using assms(7) by (simp add: write_at_def)
  with op lp lp2 k4(1,2) s4 k3(4) assms(7) show ?thesis by (auto simp: cp_main_def)
qed

theorem cp_short_read_witness:
  "\<exists>s'. cp_main fs_os (\<lambda>_. []) (\<lambda>_. CHR ''?'') [''cp'', ''a'', ''c''] (sample_fs\<lparr>ker := (ker sample_fs)\<lparr>fs_sched := [Some 1]\<rparr>\<rparr>) =
       Some (Inl (Exit EXIT_SUCCESS), s') \<and> fs_files (ker s') ''c'' = Some ''he???llo??''"
proof -
  let ?s = "sample_fs\<lparr>ker := (ker sample_fs)\<lparr>fs_sched := [Some 1]\<rparr>\<rparr>"
  have files: "fs_files (ker ?s) ''a'' = Some ''hello''" "fs_sched (ker ?s) = [Some 1]" "fs_files (ker ?s) ''c'' = None"
    by (simp_all add: sample_fs_def)
  have c: "[''cp'', ''a'', ''c''] ! 2 = ''c''" by simp
  from cp_short_read [of "[''cp'', ''a'', ''c'']" "''a''" "''c''" ?s, OF _ _ _ c files(1,2) _ _ files(3), of "\<lambda>_. []" "\<lambda>_. CHR ''?''"]
  show ?thesis by (simp add: upt_rec)
qed

end
