(* ===== verification/Append_Race.thy ===== *)
theory Append_Race
  imports Runs CLib Get_Num
begin

text \<open>
  \<^verbatim>\<open>tlpi-book/fileio/atomic_append.c\<close> and the exercise \<^verbatim>\<open>src/chap5-file-IO-further-details/five-three/atomic-append.c\<close>: several processes append to
  one file, with O\_APPEND or by seeking to its end before each write. The file is a list that holds, for each byte, the process that wrote it;
  seeking and writing are steps of their own, and the steps of the processes interleave in any way. A failing call ends its process.
\<close>

section \<open>The programs\<close>

text \<open>What a process does: how many writes, of how many bytes, and whether it seeks.\<close>

record append_job =
  aj_count :: nat
  aj_size :: nat
  aj_seek :: bool

text \<open>\<^verbatim>\<open>atomic_append.c\<close>: single bytes; a third argument, whatever it is, means seeking. A number below 0 is no write at all.\<close>

definition atomic_append_args :: "string list \<Rightarrow> string + append_job" where
  "atomic_append_args args =
     (if length args < 2 \<or> hd args = ''--help'' then Inl ''usage''
      else case getInt (Some (args ! 1)) 0 (Some ''num-bytes'') of
          Inl m \<Rightarrow> Inl m
        | Inr n \<Rightarrow> Inr \<lparr>aj_count = nat n, aj_size = 1, aj_seek = 2 < length args\<rparr>)"

text \<open>The exercise: one block of a fixed size. The number of bytes is not used; the first character of the last argument, which is that
  number when there are two arguments, decides about seeking.\<close>

definition BUF_SIZE :: nat where "BUF_SIZE = 1000000"

definition exercise_args :: "string list \<Rightarrow> string + append_job" where
  "exercise_args args =
     (if length args < 2 \<or> hd args = ''--help'' then Inl ''usage''
      else Inr \<lparr>aj_count = 1, aj_size = BUF_SIZE, aj_seek = (last args \<noteq> [] \<and> hd (last args) = CHR ''x'')\<rparr>)"

datatype apc = ALoop | AWrite | AExit int

record aproc =
  a_pc :: apc
  a_left :: nat
  a_off :: nat

record append_st =
  ap_file :: "nat list"
  ap_procs :: "aproc list"

text \<open>A write at an offset. The file never gets shorter, so the offset is never beyond its end.\<close>

definition put_at :: "nat \<Rightarrow> nat list \<Rightarrow> nat list \<Rightarrow> nat list" where
  "put_at off bs f = take off f @ bs @ drop (off + length bs) f"

definition set_proc :: "nat \<Rightarrow> aproc \<Rightarrow> append_st \<Rightarrow> append_st" where
  "set_proc i p s = s\<lparr>ap_procs := (ap_procs s)[i := p]\<rparr>"

definition append_proc :: "append_job list \<Rightarrow> nat \<Rightarrow> append_st \<Rightarrow> append_st option" where
  "append_proc jobs i s =
     (let p = ap_procs s ! i; b = aj_size (jobs ! i) in case a_pc p of
        ALoop \<Rightarrow>
          if a_left p = 0 then Some (set_proc i (p\<lparr>a_pc := AExit EXIT_SUCCESS\<rparr>) s)
          else if aj_seek (jobs ! i) then Some (set_proc i (p\<lparr>a_pc := AWrite, a_off := length (ap_file s)\<rparr>) s)
          else Some (set_proc i (p\<lparr>a_left := a_left p - 1\<rparr>) (s\<lparr>ap_file := ap_file s @ replicate b i\<rparr>))
      | AWrite \<Rightarrow> Some (set_proc i (p\<lparr>a_pc := ALoop, a_left := a_left p - 1, a_off := a_off p + b\<rparr>)
          (s\<lparr>ap_file := put_at (a_off p) (replicate b i) (ap_file s)\<rparr>))
      | AExit _ \<Rightarrow> None)"

inductive append_step :: "append_job list \<Rightarrow> append_st \<Rightarrow> append_st \<Rightarrow> bool" for jobs where
  call: "i < length (ap_procs s) \<Longrightarrow> append_proc jobs i s = Some t \<Longrightarrow> append_step jobs s t"
| fails: "i < length (ap_procs s) \<Longrightarrow> a_pc (ap_procs s ! i) \<in> {ALoop, AWrite} \<Longrightarrow>
    append_step jobs s (set_proc i ((ap_procs s ! i)\<lparr>a_pc := AExit EXIT_FAILURE\<rparr>) s)"

definition append_start :: "append_job list \<Rightarrow> append_st" where
  "append_start jobs = \<lparr>ap_file = [], ap_procs = map (\<lambda>j. \<lparr>a_pc = ALoop, a_left = aj_count j, a_off = 0\<rparr>) jobs\<rparr>"

section \<open>With O\_APPEND\<close>

text \<open>The number of bytes of each process that are in the file.\<close>

definition append_inv :: "append_job list \<Rightarrow> append_st \<Rightarrow> bool" where
  "append_inv jobs s \<longleftrightarrow> length (ap_procs s) = length jobs \<and> (\<forall>i < length jobs.
     a_left (ap_procs s ! i) \<le> aj_count (jobs ! i) \<and> a_pc (ap_procs s ! i) \<noteq> AWrite \<and>
     (a_pc (ap_procs s ! i) = AExit EXIT_SUCCESS \<longrightarrow> a_left (ap_procs s ! i) = 0) \<and>
     count_list (ap_file s) i = (aj_count (jobs ! i) - a_left (ap_procs s ! i)) * aj_size (jobs ! i))"

lemma count_list_replicate: "count_list (replicate n x) y = (if x = y then n else 0)"
  by (induction n) auto

lemma append_call_inv:
  assumes "\<forall>j \<in> set jobs. \<not> aj_seek j" "append_inv jobs s" "i < length (ap_procs s)" "append_proc jobs i s = Some t"
  shows "append_inv jobs t"
proof -
  let ?p = "ap_procs s ! i"
  have i: "i < length jobs" "\<not> aj_seek (jobs ! i)" using assms(1-3) by (auto simp: append_inv_def)
  with assms(2) have pc: "a_pc ?p \<noteq> AWrite" "a_left ?p \<le> aj_count (jobs ! i)" by (auto simp: append_inv_def)
  then have pc': "a_pc ?p = ALoop" using assms(4) by (cases "a_pc ?p") (auto simp: append_proc_def Let_def)
  show ?thesis
  proof (cases "a_left ?p = 0")
    case True
    then have "t = set_proc i (?p\<lparr>a_pc := AExit EXIT_SUCCESS\<rparr>) s" using assms(4) pc' by (simp add: append_proc_def Let_def)
    with assms(2,3) True show ?thesis by (auto simp: append_inv_def set_proc_def nth_list_update)
  next
    case False
    then have t: "t = set_proc i (?p\<lparr>a_left := a_left ?p - 1\<rparr>) (s\<lparr>ap_file := ap_file s @ replicate (aj_size (jobs ! i)) i\<rparr>)"
      using assms(4) pc' i by (simp add: append_proc_def Let_def)
    have "aj_count (jobs ! i) - (a_left ?p - 1) = Suc (aj_count (jobs ! i) - a_left ?p)" using False pc(2) by simp
    with assms(2,3) pc' show ?thesis unfolding t by (auto simp: append_inv_def set_proc_def nth_list_update count_list_replicate)
  qed
qed

lemma append_fail_inv:
  "append_inv jobs s \<Longrightarrow> i < length (ap_procs s) \<Longrightarrow> append_inv jobs (set_proc i ((ap_procs s ! i)\<lparr>a_pc := AExit EXIT_FAILURE\<rparr>) s)"
  by (auto simp: append_inv_def set_proc_def nth_list_update EXIT_SUCCESS_def EXIT_FAILURE_def)

lemma append_step_inv:
  assumes "\<forall>j \<in> set jobs. \<not> aj_seek j"
  shows "invariant_system (append_step jobs) (append_inv jobs)"
  by unfold_locales (auto elim!: append_step.cases intro: append_call_inv [OF assms] append_fail_inv)

lemma append_start_inv: "append_inv jobs (append_start jobs)"
  by (simp add: append_inv_def append_start_def)

text \<open>With O\_APPEND nothing is lost: whatever the interleaving and whichever calls fail, the file holds all bytes of every process that has exited
  with success, and no byte too many of any process.\<close>
theorem append_keeps_all:
  assumes "\<forall>j \<in> set jobs. \<not> aj_seek j" "(append_step jobs)\<^sup>*\<^sup>* (append_start jobs) s" "i < length jobs"
  shows "count_list (ap_file s) i \<le> aj_count (jobs ! i) * aj_size (jobs ! i) \<and>
    (a_pc (ap_procs s ! i) = AExit EXIT_SUCCESS \<longrightarrow> count_list (ap_file s) i = aj_count (jobs ! i) * aj_size (jobs ! i))"
proof -
  have "append_inv jobs s" by (rule invariant_system.run_inv [OF append_step_inv [OF assms(1)] assms(2) append_start_inv])
  with assms(3) show ?thesis by (auto simp: append_inv_def)
qed

theorem append_keeps_all_witness:
  "\<exists>s. (append_step [\<lparr>aj_count = 1, aj_size = BUF_SIZE, aj_seek = False\<rparr>])\<^sup>*\<^sup>* (append_start [\<lparr>aj_count = 1, aj_size = BUF_SIZE, aj_seek = False\<rparr>]) s \<and>
     count_list (ap_file s) 0 = BUF_SIZE"
proof -
  let ?j = "[\<lparr>aj_count = 1, aj_size = BUF_SIZE, aj_seek = False\<rparr>]"
  let ?t = "\<lambda>p. \<lparr>ap_file = replicate BUF_SIZE (0 :: nat), ap_procs = [\<lparr>a_pc = p, a_left = 0, a_off = 0\<rparr>]\<rparr>"
  have "append_step ?j (append_start ?j) (?t ALoop)"
    by (rule append_step.call [of 0]) (simp_all add: append_start_def append_proc_def set_proc_def Let_def)
  moreover have "append_step ?j (?t ALoop) (?t (AExit EXIT_SUCCESS))"
    by (rule append_step.call [of 0]) (simp_all add: append_proc_def set_proc_def Let_def)
  ultimately have run: "(append_step ?j)\<^sup>*\<^sup>* (append_start ?j) (?t (AExit EXIT_SUCCESS))" by (meson converse_rtranclp_into_rtranclp r_into_rtranclp)
  from append_keeps_all [OF _ run, of 0] have "count_list (ap_file (?t (AExit EXIT_SUCCESS))) 0 = BUF_SIZE" by simp
  with run show ?thesis by blast
qed

section \<open>With seeking\<close>

abbreviation seekers :: "nat \<Rightarrow> nat \<Rightarrow> append_job list" where
  "seekers n b \<equiv> replicate 2 \<lparr>aj_count = n, aj_size = b, aj_seek = True\<rparr>"

abbreviation lockstep :: "nat \<Rightarrow> nat \<Rightarrow> nat \<Rightarrow> append_st" where
  "lockstep m b off \<equiv> \<lparr>ap_file = replicate off 1, ap_procs = replicate 2 \<lparr>a_pc = ALoop, a_left = m, a_off = off\<rparr>\<rparr>"

lemma put_end: "length f = off \<Longrightarrow> put_at off bs f = f @ bs" "length f = off \<Longrightarrow> length cs = length bs \<Longrightarrow> put_at off cs (f @ bs) = f @ cs"
  by (simp_all add: put_at_def)

text \<open>Both processes seek to the same end, and the second one writes over the first one.\<close>

lemma lockstep_round: "(append_step (seekers n b))\<^sup>*\<^sup>* (lockstep (Suc m) b off) (lockstep m b (off + b))"
proof -
  let ?p = "\<lambda>pc m off. \<lparr>a_pc = pc, a_left = m, a_off = off\<rparr>"
  let ?st = "\<lambda>f p q. \<lparr>ap_file = f, ap_procs = [p, q]\<rparr>"
  let ?f = "replicate off (1 :: nat)"
  note simps = append_proc_def set_proc_def Let_def numeral_2_eq_2 put_end
  have "append_step (seekers n b) (lockstep (Suc m) b off) (?st ?f (?p AWrite (Suc m) off) (?p ALoop (Suc m) off))"
    by (rule append_step.call [of 0]) (simp_all add: simps)
  moreover have "append_step (seekers n b) (?st ?f (?p AWrite (Suc m) off) (?p ALoop (Suc m) off)) (?st ?f (?p AWrite (Suc m) off) (?p AWrite (Suc m) off))"
    by (rule append_step.call [of 1]) (simp_all add: simps)
  moreover have "append_step (seekers n b) (?st ?f (?p AWrite (Suc m) off) (?p AWrite (Suc m) off)) (?st (?f @ replicate b 0) (?p ALoop m (off + b)) (?p AWrite (Suc m) off))"
    by (rule append_step.call [of 0]) (simp_all add: simps)
  moreover have "append_step (seekers n b) (?st (?f @ replicate b 0) (?p ALoop m (off + b)) (?p AWrite (Suc m) off)) (lockstep m b (off + b))"
    by (rule append_step.call [of 1]) (simp_all add: simps replicate_add)
  ultimately show ?thesis by (meson converse_rtranclp_into_rtranclp r_into_rtranclp)
qed

lemma lockstep_rounds: "(append_step (seekers n b))\<^sup>*\<^sup>* (lockstep m b off) (lockstep 0 b (off + m * b))"
proof (induction m arbitrary: off)
  case (Suc m)
  have "(append_step (seekers n b))\<^sup>*\<^sup>* (lockstep m b (off + b)) (lockstep 0 b (off + Suc m * b))"
    using Suc [of "off + b"] by (simp add: algebra_simps)
  with lockstep_round [where n = n and b = b and m = m and off = off] show ?case by (rule rtranclp_trans)
qed simp

text \<open>When two processes seek to the end before each write, all writes of one of them can be lost: both exit with success and the file is half as
  long as it should be, whatever the number and the size of the writes.\<close>
theorem append_seek_loses:
  "\<exists>s. (append_step (seekers n b))\<^sup>*\<^sup>* (append_start (seekers n b)) s \<and>
     map a_pc (ap_procs s) = [AExit EXIT_SUCCESS, AExit EXIT_SUCCESS] \<and> ap_file s = replicate (n * b) 1"
proof -
  let ?p = "\<lambda>pc. \<lparr>a_pc = pc, a_left = 0, a_off = n * b\<rparr>"
  let ?st = "\<lambda>p q. \<lparr>ap_file = replicate (n * b) (1 :: nat), ap_procs = [p, q]\<rparr>"
  have start: "append_start (seekers n b) = lockstep n b 0" by (simp add: append_start_def)
  note simps = append_proc_def set_proc_def Let_def numeral_2_eq_2
  have "append_step (seekers n b) (lockstep 0 b (n * b)) (?st (?p (AExit EXIT_SUCCESS)) (?p ALoop))"
    by (rule append_step.call [of 0]) (simp_all add: simps)
  moreover have "append_step (seekers n b) (?st (?p (AExit EXIT_SUCCESS)) (?p ALoop)) (?st (?p (AExit EXIT_SUCCESS)) (?p (AExit EXIT_SUCCESS)))"
    by (rule append_step.call [of 1]) (simp_all add: simps)
  ultimately have "(append_step (seekers n b))\<^sup>*\<^sup>* (lockstep 0 b (n * b)) (?st (?p (AExit EXIT_SUCCESS)) (?p (AExit EXIT_SUCCESS)))"
    by (meson converse_rtranclp_into_rtranclp r_into_rtranclp)
  moreover have "(append_step (seekers n b))\<^sup>*\<^sup>* (append_start (seekers n b)) (lockstep 0 b (n * b))"
    unfolding start using lockstep_rounds [where n = n and b = b and m = n and off = 0] by simp
  ultimately have "(append_step (seekers n b))\<^sup>*\<^sup>* (append_start (seekers n b)) (?st (?p (AExit EXIT_SUCCESS)) (?p (AExit EXIT_SUCCESS)))"
    by (meson rtranclp_trans)
  then show ?thesis by (intro exI [of _ "?st (?p (AExit EXIT_SUCCESS)) (?p (AExit EXIT_SUCCESS))"]) simp
qed

end
