(* ===== verification/Sigchld.thy ===== *)
theory Sigchld
  imports Runs CLib
begin

text \<open>
  \<^verbatim>\<open>tlpi-book/procexec/multi_SIGCHLD.c\<close> and \<^verbatim>\<open>fork_sig_sync.c\<close>: a parent that waits for signals of its children with \<^verbatim>\<open>sigsuspend\<close>, the signal being
  blocked at all other times. A signal is pending or not: several of them at once are delivered once. Children run and end at any moment.
\<close>

section \<open>multi\_SIGCHLD.c\<close>

datatype child = Unborn | Running | Zombie | Reaped

text \<open>Where the parent is: creating child \<open>j\<close>, testing the loop condition, in \<^verbatim>\<open>sigsuspend\<close>, in the loop of the handler, at its end.\<close>

datatype sc_pc = SFork nat | STest | SSuspend | SReap | SReturn | SExit int

record sc_st =
  sc_children :: "child list"
  sc_pending :: bool
  numLiveChildren :: int
  sigCnt :: nat
  sc_parent :: sc_pc
  sc_out :: "string list"

definition all_done :: "nat \<Rightarrow> nat \<Rightarrow> string" where
  "all_done n c = ''All '' @ show_int (int n) @ '' children have terminated; SIGCHLD was caught '' @ show_int (int c) @ '' times'' @ [NL]"

definition child_exit :: "nat \<Rightarrow> sc_st \<Rightarrow> sc_st option" where
  "child_exit i s = (if sc_children s ! i = Running then Some (s\<lparr>sc_children := (sc_children s)[i := Zombie], sc_pending := True\<rparr>) else None)"

text \<open>One \<^verbatim>\<open>waitpid\<close> of the handler, which reaps any one of the zombies (\<open>Some i\<close>) or finds none.\<close>

definition sigchldHandler :: "nat option \<Rightarrow> sc_st \<Rightarrow> sc_st option" where
  "sigchldHandler w s = (case w of
      Some i \<Rightarrow> if i < length (sc_children s) \<and> sc_children s ! i = Zombie
        then Some (s\<lparr>sc_children := (sc_children s)[i := Reaped], numLiveChildren := numLiveChildren s - 1\<rparr>) else None
    | None \<Rightarrow> if Zombie \<in> set (sc_children s) then None else Some (s\<lparr>sc_parent := SReturn\<rparr>))"

definition sc_main :: "sc_st \<Rightarrow> sc_st option" where
  "sc_main s = (case sc_parent s of
      SFork j \<Rightarrow> if j < length (sc_children s) then Some (s\<lparr>sc_children := (sc_children s)[j := Running], sc_parent := SFork (j + 1)\<rparr>)
        else Some (s\<lparr>sc_parent := STest\<rparr>)
    | STest \<Rightarrow> if 0 < numLiveChildren s then Some (s\<lparr>sc_parent := SSuspend\<rparr>)
        else Some (s\<lparr>sc_out := sc_out s @ [all_done (length (sc_children s)) (sigCnt s)], sc_parent := SExit EXIT_SUCCESS\<rparr>)
    | SSuspend \<Rightarrow> if sc_pending s then Some (s\<lparr>sc_pending := False, sc_parent := SReap\<rparr>) else None
    | SReap \<Rightarrow> None
    | SReturn \<Rightarrow> Some (s\<lparr>sigCnt := sigCnt s + 1, sc_parent := STest\<rparr>)
    | SExit _ \<Rightarrow> None)"

inductive sc_step :: "sc_st \<Rightarrow> sc_st \<Rightarrow> bool" where
  child: "i < length (sc_children s) \<Longrightarrow> child_exit i s = Some t \<Longrightarrow> sc_step s t"
| handler: "sc_parent s = SReap \<Longrightarrow> sigchldHandler w s = Some t \<Longrightarrow> sc_step s t"
| main: "sc_main s = Some t \<Longrightarrow> sc_step s t"

text \<open>With failing calls of \<^verbatim>\<open>fork\<close> and \<^verbatim>\<open>sigsuspend\<close>, which end the parent.\<close>

inductive sc_xstep :: "sc_st \<Rightarrow> sc_st \<Rightarrow> bool" where
  regular: "sc_step s t \<Longrightarrow> sc_xstep s t"
| fails: "(\<exists>j. sc_parent s = SFork j) \<or> sc_parent s = SSuspend \<Longrightarrow> sc_xstep s (s\<lparr>sc_parent := SExit EXIT_FAILURE\<rparr>)"

definition sc_start :: "nat \<Rightarrow> sc_st" where
  "sc_start n = \<lparr>sc_children = replicate n Unborn, sc_pending = False, numLiveChildren = int n, sigCnt = 0, sc_parent = SFork 0, sc_out = []\<rparr>"

subsection \<open>Invariant\<close>

definition is_exited :: "child \<Rightarrow> nat" where
  "is_exited c = (if c = Zombie \<or> c = Reaped then 1 else 0)"

definition not_reaped :: "child \<Rightarrow> nat" where
  "not_reaped c = (if c = Reaped then 0 else 1)"

definition handling :: "sc_pc \<Rightarrow> bool" where
  "handling p \<longleftrightarrow> p = SReap \<or> p = SReturn"

definition created :: "sc_st \<Rightarrow> bool" where
  "created s = (case sc_parent s of
      SFork j \<Rightarrow> j \<le> length (sc_children s) \<and> (\<forall>i < length (sc_children s). j \<le> i \<longleftrightarrow> sc_children s ! i = Unborn)
    | SExit st \<Rightarrow> st = EXIT_SUCCESS \<longrightarrow> Unborn \<notin> set (sc_children s)
    | _ \<Rightarrow> Unborn \<notin> set (sc_children s))"

text \<open>No zombie is forgotten: its signal is pending, or the handler is still collecting.\<close>

definition sc_inv :: "nat \<Rightarrow> sc_st \<Rightarrow> bool" where
  "sc_inv n s \<longleftrightarrow> length (sc_children s) = n \<and> created s \<and>
     numLiveChildren s = int (sum_list (map not_reaped (sc_children s))) \<and>
     sigCnt s + (if sc_pending s then 1 else 0) + (if handling (sc_parent s) then 1 else 0) \<le> sum_list (map is_exited (sc_children s)) \<and>
     (Zombie \<in> set (sc_children s) \<longrightarrow> sc_pending s \<or> sc_parent s = SReap) \<and>
     (Reaped \<in> set (sc_children s) \<longrightarrow> 0 < sigCnt s \<or> handling (sc_parent s) \<or> (\<exists>st. sc_parent s = SExit st)) \<and>
     (sc_parent s = SSuspend \<longrightarrow> 0 < numLiveChildren s) \<and>
     (sc_parent s = SExit EXIT_SUCCESS \<longrightarrow> numLiveChildren s = 0 \<and> (Reaped \<in> set (sc_children s) \<longrightarrow> 0 < sigCnt s) \<and> sc_out s = [all_done n (sigCnt s)]) \<and>
     ((\<nexists>st. sc_parent s = SExit st) \<longrightarrow> sc_out s = [])"

lemma set_child_upd: "x \<in> set (cs[i := c]) \<Longrightarrow> x = c \<or> x \<in> set cs"
  using set_update_subset_insert [of cs i c] by auto

lemma child_upd_sums:
  assumes "i < length cs"
  shows "int (sum_list (map not_reaped (cs[i := c]))) = int (sum_list (map not_reaped cs)) - int (not_reaped (cs ! i)) + int (not_reaped c)"
    and "sum_list (map is_exited (cs[i := c])) + is_exited (cs ! i) = sum_list (map is_exited cs) + is_exited c"
  using sum_map_update_nat [OF assms, of not_reaped c] sum_map_update_nat [OF assms, of is_exited c] by linarith+

lemma created_upd:
  assumes "created s" "sc_children s ! i \<noteq> Unborn" "i < length (sc_children s)" "c \<noteq> Unborn" "sc_children t = (sc_children s)[i := c]" "sc_parent t = sc_parent s"
  shows "created t"
  using assms by (cases "sc_parent s") (auto simp: created_def nth_list_update dest!: set_child_upd)

lemma sc_child_inv:
  assumes "sc_inv n s" "i < length (sc_children s)" "child_exit i s = Some t"
  shows "sc_inv n t"
proof -
  have r: "sc_children s ! i = Running" and t: "t = s\<lparr>sc_children := (sc_children s)[i := Zombie], sc_pending := True\<rparr>"
    using assms(3) by (auto simp: child_exit_def split: if_splits)
  have "created t" by (rule created_upd [OF _ _ assms(2), where c = Zombie]) (use assms(1) r in \<open>auto simp: t sc_inv_def\<close>)
  moreover have "int (sum_list (map not_reaped (sc_children t))) = int (sum_list (map not_reaped (sc_children s)))"
    "sum_list (map is_exited (sc_children t)) = sum_list (map is_exited (sc_children s)) + 1"
    using child_upd_sums [OF assms(2), of Zombie] r by (auto simp: t not_reaped_def is_exited_def)
  moreover have "Reaped \<in> set (sc_children t) \<Longrightarrow> Reaped \<in> set (sc_children s)" by (auto simp: t dest!: set_child_upd)
  ultimately show ?thesis using assms(1) unfolding sc_inv_def by (simp add: t del: sum_list_eq_0_iff) linarith
qed

lemma sc_handler_inv:
  assumes "sc_inv n s" "sc_parent s = SReap" "sigchldHandler w s = Some t"
  shows "sc_inv n t"
proof (cases w)
  case None
  with assms(3) have "Zombie \<notin> set (sc_children s)" "t = s\<lparr>sc_parent := SReturn\<rparr>" by (auto simp: sigchldHandler_def split: if_splits)
  with assms(1,2) show ?thesis by (auto simp: sc_inv_def created_def handling_def)
next
  case (Some i)
  with assms(3) have i: "i < length (sc_children s)" "sc_children s ! i = Zombie"
    and t: "t = s\<lparr>sc_children := (sc_children s)[i := Reaped], numLiveChildren := numLiveChildren s - 1\<rparr>"
    by (auto simp: sigchldHandler_def split: if_splits)
  have "created t" by (rule created_upd [OF _ _ i(1), where c = Reaped]) (use assms(1) i in \<open>auto simp: t sc_inv_def\<close>)
  moreover have "int (sum_list (map not_reaped (sc_children t))) = int (sum_list (map not_reaped (sc_children s))) - 1"
    "sum_list (map is_exited (sc_children t)) = sum_list (map is_exited (sc_children s))"
    using child_upd_sums [OF i(1), of Reaped] i by (auto simp: t not_reaped_def is_exited_def)
  ultimately show ?thesis using assms(1,2) by (auto simp: sc_inv_def t handling_def)
qed

lemma sc_main_inv:
  assumes "sc_inv n s" "sc_main s = Some t"
  shows "sc_inv n t"
proof (cases "sc_parent s")
  case (SFork j)
  show ?thesis
  proof (cases "j < length (sc_children s)")
    case True
    with SFork assms have j: "sc_children s ! j = Unborn" and t: "t = s\<lparr>sc_children := (sc_children s)[j := Running], sc_parent := SFork (j + 1)\<rparr>"
      by (auto simp: sc_inv_def created_def sc_main_def)
    have "created t" using assms(1) SFork True by (auto simp: t created_def sc_inv_def nth_list_update)
    moreover have "int (sum_list (map not_reaped (sc_children t))) = int (sum_list (map not_reaped (sc_children s)))"
      "sum_list (map is_exited (sc_children t)) = sum_list (map is_exited (sc_children s))"
      using child_upd_sums [OF True, of Running] j by (auto simp: t not_reaped_def is_exited_def)
    moreover have "x \<in> set (sc_children t) \<Longrightarrow> x \<noteq> Running \<Longrightarrow> x \<in> set (sc_children s)" for x by (auto simp: t dest!: set_child_upd)
    ultimately show ?thesis using assms(1) SFork by (auto simp: sc_inv_def t handling_def)
  next
    case False
    with SFork assms(1) have "Unborn \<notin> set (sc_children s)" by (auto simp: sc_inv_def created_def in_set_conv_nth)
    moreover have t: "t = s\<lparr>sc_parent := STest\<rparr>" using SFork False assms(2) by (simp add: sc_main_def)
    ultimately show ?thesis using assms(1) SFork by (simp add: sc_inv_def created_def handling_def)
  qed
next
  case STest
  show ?thesis
  proof (cases "0 < numLiveChildren s")
    case True
    with STest assms(2) have t: "t = s\<lparr>sc_parent := SSuspend\<rparr>" by (simp add: sc_main_def)
    from assms(1) STest True show ?thesis by (simp add: t sc_inv_def created_def handling_def)
  next
    case False
    with STest assms(2) have t: "t = s\<lparr>sc_out := sc_out s @ [all_done (length (sc_children s)) (sigCnt s)], sc_parent := SExit EXIT_SUCCESS\<rparr>"
      by (simp add: sc_main_def)
    from assms(1) STest False show ?thesis by (simp add: t sc_inv_def created_def handling_def)
  qed
next
  case SSuspend
  with assms(2) have "sc_pending s" and t: "t = s\<lparr>sc_pending := False, sc_parent := SReap\<rparr>" by (auto simp: sc_main_def split: if_splits)
  with SSuspend assms(1) show ?thesis by (simp add: t sc_inv_def created_def handling_def)
next
  case SReturn
  with assms(2) have t: "t = s\<lparr>sigCnt := sigCnt s + 1, sc_parent := STest\<rparr>" by (simp add: sc_main_def)
  from SReturn assms(1) show ?thesis by (simp add: t sc_inv_def created_def handling_def)
qed (use assms in \<open>auto simp: sc_main_def\<close>)

lemma sc_step_inv: "sc_inv n s \<Longrightarrow> sc_step s t \<Longrightarrow> sc_inv n t"
  by (auto elim!: sc_step.cases intro: sc_child_inv sc_handler_inv sc_main_inv)

lemma sc_start_inv: "sc_inv n (sc_start n)"
  by (auto simp: sc_inv_def sc_start_def created_def handling_def not_reaped_def is_exited_def sum_list_replicate)

lemma sc_fail_inv: "sc_inv n s \<Longrightarrow> (\<exists>j. sc_parent s = SFork j) \<or> sc_parent s = SSuspend \<Longrightarrow> sc_inv n (s\<lparr>sc_parent := SExit EXIT_FAILURE\<rparr>)"
  by (auto simp: sc_inv_def created_def handling_def EXIT_SUCCESS_def EXIT_FAILURE_def)

interpretation scx: invariant_system sc_xstep "sc_inv n"
  by unfold_locales (auto elim!: sc_xstep.cases intro: sc_step_inv sc_fail_inv)

subsection \<open>Completion\<close>

fun child_rank :: "child \<Rightarrow> nat" where
  "child_rank Unborn = 8"
| "child_rank Running = 7"
| "child_rank Zombie = 1"
| "child_rank Reaped = 0"

fun parent_rank :: "sc_pc \<Rightarrow> nat" where
  "parent_rank SReap = 4"
| "parent_rank (SFork j) = 3"
| "parent_rank SReturn = 3"
| "parent_rank STest = 2"
| "parent_rank SSuspend = 1"
| "parent_rank (SExit _) = 0"

definition sc_effort :: "sc_st \<Rightarrow> nat" where
  "sc_effort s = sum_list (map child_rank (sc_children s)) + (if sc_pending s then 5 else 0) + parent_rank (sc_parent s)"

lemma rank_upd: "i < length cs \<Longrightarrow> sum_list (map child_rank (cs[i := c])) + child_rank (cs ! i) = sum_list (map child_rank cs) + child_rank c"
  by (rule sum_map_update_nat)

lemma sc_step_effort:
  assumes "sc_inv n s" "sc_step s t"
  shows "sc_effort t < sc_effort s"
  using assms(2)
proof (cases rule: sc_step.cases)
  case (child i)
  then show ?thesis using rank_upd [OF child(1), of Zombie] by (auto simp: child_exit_def sc_effort_def split: if_splits)
next
  case (handler w)
  then show ?thesis
    using rank_upd [of _ "sc_children s" Reaped] by (cases w) (fastforce simp: sigchldHandler_def sc_effort_def split: if_splits)+
next
  case main
  show ?thesis
  proof (cases "sc_parent s")
    case (SFork j)
    with assms(1) have "j < length (sc_children s) \<Longrightarrow> sc_children s ! j = Unborn" by (auto simp: sc_inv_def created_def)
    with main SFork rank_upd [of j "sc_children s" Running] show ?thesis by (auto simp: sc_main_def sc_effort_def split: if_splits)
  qed (use main in \<open>auto simp: sc_main_def sc_effort_def split: if_splits\<close>)
qed

definition sc_final :: "sc_st \<Rightarrow> bool" where
  "sc_final s \<longleftrightarrow> (\<exists>st. sc_parent s = SExit st)"

lemma reaped_sum: "sum_list (map not_reaped cs) = 0 \<longleftrightarrow> (\<forall>c \<in> set cs. c = Reaped)"
  by (induction cs) (auto simp: not_reaped_def)

lemma exited_sum: "sum_list (map is_exited cs) \<le> length cs"
  by (induction cs) (auto simp: is_exited_def)

text \<open>While the parent waits, some child is still running or a signal is pending.\<close>

lemma sc_progress:
  assumes "sc_inv n s" "\<not> sc_final s"
  shows "\<exists>t. sc_step s t"
proof (cases "sc_parent s")
  case SReap
  show ?thesis
  proof (cases "Zombie \<in> set (sc_children s)")
    case True
    then obtain i where "i < length (sc_children s)" "sc_children s ! i = Zombie" by (auto simp: in_set_conv_nth)
    then have "sigchldHandler (Some i) s \<noteq> None" by (simp add: sigchldHandler_def)
    with SReap show ?thesis by (auto intro: sc_step.handler)
  next
    case False
    then have "sigchldHandler None s \<noteq> None" by (simp add: sigchldHandler_def)
    with SReap show ?thesis by (auto intro: sc_step.handler)
  qed
next
  case SSuspend
  show ?thesis
  proof (cases "sc_pending s")
    case False
    with SSuspend assms(1) have "Zombie \<notin> set (sc_children s)" "Unborn \<notin> set (sc_children s)" "0 < sum_list (map not_reaped (sc_children s))"
      by (auto simp: sc_inv_def created_def)
    then have "\<exists>c \<in> set (sc_children s). c \<noteq> Reaped" by (metis reaped_sum less_irrefl)
    then have "Running \<in> set (sc_children s)" using \<open>Zombie \<notin> _\<close> \<open>Unborn \<notin> _\<close> by (metis child.exhaust)
    then obtain i where "i < length (sc_children s)" "sc_children s ! i = Running" by (auto simp: in_set_conv_nth)
    from this sc_step.child [OF this(1)] show ?thesis by (auto simp: child_exit_def)
  next
    case True
    with SSuspend have "sc_main s \<noteq> None" by (simp add: sc_main_def)
    then show ?thesis by (auto intro: sc_step.main)
  qed
next
  case (SFork j)
  then have "sc_main s \<noteq> None" by (simp add: sc_main_def)
  then show ?thesis by (auto intro: sc_step.main)
next
  case STest
  then have "sc_main s \<noteq> None" by (simp add: sc_main_def)
  then show ?thesis by (auto intro: sc_step.main)
next
  case SReturn
  then have "sc_main s \<noteq> None" by (simp add: sc_main_def)
  then show ?thesis by (auto intro: sc_step.main)
qed (use assms(2) in \<open>auto simp: sc_final_def\<close>)

interpretation sc: completing_system sc_step "sc_inv n" sc_effort sc_final
  by unfold_locales (auto intro: sc_step_inv sc_step_effort sc_progress)

lemma sc_success:
  assumes "sc_inv n s" "sc_parent s = SExit EXIT_SUCCESS"
  shows "set (sc_children s) \<subseteq> {Reaped} \<and> (if n = 0 then sigCnt s = 0 else 1 \<le> sigCnt s \<and> sigCnt s \<le> n) \<and> sc_out s = [all_done n (sigCnt s)]"
proof -
  from assms have "sum_list (map not_reaped (sc_children s)) = 0" by (auto simp: sc_inv_def)
  then have reaped: "\<forall>c \<in> set (sc_children s). c = Reaped" by (rule reaped_sum [THEN iffD1])
  have "sigCnt s \<le> n" using assms exited_sum [of "sc_children s"] by (auto simp: sc_inv_def)
  moreover have "0 < sigCnt s" if "n \<noteq> 0"
  proof -
    from that assms(1) have "sc_children s \<noteq> []" by (auto simp: sc_inv_def)
    with reaped have "Reaped \<in> set (sc_children s)" by (metis list.set_sel(1))
    with assms show ?thesis by (simp add: sc_inv_def)
  qed
  ultimately show ?thesis using assms reaped by (auto simp: sc_inv_def)
qed

text \<open>C35. The parent misses no child, however signals are merged and whenever children end: every run ends, in a bounded number of steps, with all children
  reaped and with the message that says so; the handler has run at least once and at most once per child.\<close>
theorem multi_sigchld_completes:
  "(\<forall>k s. (sc_step ^^ k) (sc_start n) s \<longrightarrow> k \<le> 8 * n + 3) \<and>
   (\<forall>s. sc_step\<^sup>*\<^sup>* (sc_start n) s \<longrightarrow> (\<nexists>t. sc_step s t) \<longrightarrow>
      sc_parent s = SExit EXIT_SUCCESS \<and> set (sc_children s) \<subseteq> {Reaped} \<and>
      (if n = 0 then sigCnt s = 0 else 1 \<le> sigCnt s \<and> sigCnt s \<le> n) \<and> sc_out s = [all_done n (sigCnt s)])"
proof (intro conjI allI impI)
  fix k s assume "(sc_step ^^ k) (sc_start n) s"
  from sc.run_bounded [OF this sc_start_inv] show "k \<le> 8 * n + 3" by (simp add: sc_effort_def sc_start_def sum_list_replicate)
next
  fix s assume run: "sc_step\<^sup>*\<^sup>* (sc_start n) s" "\<nexists>t. sc_step s t"
  have inv: "sc_inv n s" using run(1) by (rule sc.run_inv [OF _ sc_start_inv])
  have regular: "sc_parent s \<noteq> SExit st" if "st \<noteq> EXIT_SUCCESS" for st
    using run(1)
  proof (induction rule: rtranclp_induct)
    case (step s t)
    then show ?case using that by (auto elim!: sc_step.cases simp: child_exit_def sigchldHandler_def sc_main_def split: if_splits option.splits sc_pc.splits)
  qed (simp add: sc_start_def)
  from sc.stuck_final [OF run(1) sc_start_inv run(2)] obtain st where "sc_parent s = SExit st" by (auto simp: sc_final_def)
  with regular [of st] show parent: "sc_parent s = SExit EXIT_SUCCESS" by (cases "st = EXIT_SUCCESS") auto
  from sc_success [OF inv parent]
  show "set (sc_children s) \<subseteq> {Reaped}" "if n = 0 then sigCnt s = 0 else 1 \<le> sigCnt s \<and> sigCnt s \<le> n" "sc_out s = [all_done n (sigCnt s)]" by blast+
qed

theorem multi_sigchld_completes_witness:
  "\<exists>s. sc_step\<^sup>*\<^sup>* (sc_start 3) s \<and> sc_parent s = SExit EXIT_SUCCESS \<and> 1 \<le> sigCnt s \<and> sigCnt s \<le> 3"
proof -
  obtain s where "sc_step\<^sup>*\<^sup>* (sc_start 3) s" "\<nexists>t. sc_step s t" using sc.reaches_stuck [OF sc_start_inv] by blast
  with multi_sigchld_completes [of 3] show ?thesis by auto
qed

section \<open>fork\_sig\_sync.c\<close>

text \<open>The parent waits in \<^verbatim>\<open>sigsuspend\<close> for the signal of the child, which it has blocked since before the \<^verbatim>\<open>fork\<close>. Every line of output and
  every call is a step.\<close>

datatype fs_child = CStarted | CSignal | CKill | CExited
datatype fs_parent = PAnnounce | PSuspend | PGot | PRestore | PDone

datatype fs_line = ChildStarted | ChildSignals | ParentWaits | ParentGot

fun fs_text :: "fs_line \<Rightarrow> string" where
  "fs_text ChildStarted = ''Child started - doing some work''"
| "fs_text ChildSignals = ''Child about to signal parent''"
| "fs_text ParentWaits = ''Parent about to wait for signal''"
| "fs_text ParentGot = ''Parent got signal''"

record fs_st =
  fs_child :: fs_child
  fs_parent :: fs_parent
  fs_pending :: bool
  fs_blocked :: bool
  fs_out :: "fs_line list"

definition fs_child_step :: "fs_st \<Rightarrow> fs_st option" where
  "fs_child_step s = (case fs_child s of
      CStarted \<Rightarrow> Some (s\<lparr>fs_child := CSignal, fs_out := fs_out s @ [ChildStarted]\<rparr>)
    | CSignal \<Rightarrow> Some (s\<lparr>fs_child := CKill, fs_out := fs_out s @ [ChildSignals]\<rparr>)
    | CKill \<Rightarrow> Some (s\<lparr>fs_child := CExited, fs_pending := True\<rparr>)
    | CExited \<Rightarrow> None)"

text \<open>\<^verbatim>\<open>sigsuspend\<close> unblocks the signal while it waits; the handler does nothing.\<close>

definition fs_parent_step :: "fs_st \<Rightarrow> fs_st option" where
  "fs_parent_step s = (case fs_parent s of
      PAnnounce \<Rightarrow> Some (s\<lparr>fs_parent := PSuspend, fs_out := fs_out s @ [ParentWaits]\<rparr>)
    | PSuspend \<Rightarrow> if fs_pending s then Some (s\<lparr>fs_parent := PGot, fs_pending := False\<rparr>) else None
    | PGot \<Rightarrow> Some (s\<lparr>fs_parent := PRestore, fs_out := fs_out s @ [ParentGot]\<rparr>)
    | PRestore \<Rightarrow> Some (s\<lparr>fs_parent := PDone, fs_blocked := False\<rparr>)
    | PDone \<Rightarrow> None)"

inductive fs_step :: "fs_st \<Rightarrow> fs_st \<Rightarrow> bool" where
  child: "fs_child_step s = Some t \<Longrightarrow> fs_step s t"
| parent: "fs_parent_step s = Some t \<Longrightarrow> fs_step s t"

definition fs_start :: fs_st where
  "fs_start = \<lparr>fs_child = CStarted, fs_parent = PAnnounce, fs_pending = False, fs_blocked = True, fs_out = []\<rparr>"

text \<open>What each process has printed so far; the line about the signal is the last one.\<close>

definition of_child :: "fs_line \<Rightarrow> bool" where
  "of_child l \<longleftrightarrow> l = ChildStarted \<or> l = ChildSignals"

fun child_lines :: "fs_child \<Rightarrow> fs_line list" where
  "child_lines CStarted = []"
| "child_lines CSignal = [ChildStarted]"
| "child_lines _ = [ChildStarted, ChildSignals]"

definition printed :: "fs_child \<Rightarrow> bool \<Rightarrow> fs_line list \<Rightarrow> bool" where
  "printed c waits out \<longleftrightarrow> filter of_child out = child_lines c \<and> filter (\<lambda>l. \<not> of_child l) out = (if waits then [ParentWaits] else [])"

definition fs_inv :: "fs_st \<Rightarrow> bool" where
  "fs_inv s \<longleftrightarrow> (fs_pending s \<longleftrightarrow> fs_child s = CExited \<and> fs_parent s \<in> {PAnnounce, PSuspend}) \<and>
     (fs_parent s \<in> {PGot, PRestore, PDone} \<longrightarrow> fs_child s = CExited) \<and>
     (\<exists>out. fs_out s = out @ (if fs_parent s \<in> {PRestore, PDone} then [ParentGot] else []) \<and> printed (fs_child s) (fs_parent s \<noteq> PAnnounce) out)"

definition fs_effort :: "fs_st \<Rightarrow> nat" where
  "fs_effort s = (case fs_child s of CStarted \<Rightarrow> 3 | CSignal \<Rightarrow> 2 | CKill \<Rightarrow> 1 | CExited \<Rightarrow> 0) +
     (case fs_parent s of PAnnounce \<Rightarrow> 4 | PSuspend \<Rightarrow> 3 | PGot \<Rightarrow> 2 | PRestore \<Rightarrow> 1 | PDone \<Rightarrow> 0)"

lemma printed_child: "printed c w out \<Longrightarrow> of_child l \<Longrightarrow> child_lines c' = child_lines c @ [l] \<Longrightarrow> printed c' w (out @ [l])"
  by (simp add: printed_def)

lemma fs_child_inv:
  assumes "fs_inv s" "fs_child_step s = Some t"
  shows "fs_inv t"
proof -
  have c: "fs_child s \<noteq> CExited" using assms(2) by (auto simp: fs_child_step_def)
  with assms(1) have p: "fs_parent s \<in> {PAnnounce, PSuspend}" "\<not> fs_pending s" by (cases "fs_parent s"; auto simp: fs_inv_def)+
  with assms(1) have out: "printed (fs_child s) (fs_parent s \<noteq> PAnnounce) (fs_out s)" by (auto simp: fs_inv_def)
  show ?thesis
  proof (cases "fs_child s")
    case CStarted
    then show ?thesis using assms(2) p out printed_child [of CStarted _ "fs_out s" ChildStarted CSignal]
      by (auto simp: fs_child_step_def fs_inv_def of_child_def)
  next
    case CSignal
    then show ?thesis using assms(2) p out printed_child [of CSignal _ "fs_out s" ChildSignals CKill]
      by (auto simp: fs_child_step_def fs_inv_def of_child_def)
  next
    case CKill
    then show ?thesis using assms(2) p out by (auto simp: fs_child_step_def fs_inv_def printed_def)
  qed (use c in simp)
qed

lemma fs_parent_inv:
  assumes "fs_inv s" "fs_parent_step s = Some t"
  shows "fs_inv t"
proof (cases "fs_parent s")
  case PAnnounce
  with assms(1) have "printed (fs_child s) False (fs_out s)" by (simp add: fs_inv_def)
  then have "printed (fs_child s) True (fs_out s @ [ParentWaits])" by (simp add: printed_def of_child_def)
  with PAnnounce assms show ?thesis by (auto simp: fs_parent_step_def fs_inv_def)
next
  case PSuspend
  with assms show ?thesis by (auto simp: fs_parent_step_def fs_inv_def split: if_splits)
next
  case PGot
  with assms show ?thesis by (auto simp: fs_parent_step_def fs_inv_def)
next
  case PRestore
  with assms show ?thesis by (auto simp: fs_parent_step_def fs_inv_def)
qed (use assms in \<open>simp add: fs_parent_step_def\<close>)

lemma fs_child_effort: "fs_child_step s = Some t \<Longrightarrow> fs_effort t < fs_effort s"
  by (cases "fs_child s") (auto simp: fs_child_step_def fs_effort_def)

lemma fs_parent_effort: "fs_parent_step s = Some t \<Longrightarrow> fs_effort t < fs_effort s"
  by (cases "fs_parent s") (auto simp: fs_parent_step_def fs_effort_def split: if_splits)

interpretation fsync: completing_system fs_step fs_inv fs_effort "\<lambda>s. fs_child s = CExited \<and> fs_parent s = PDone"
proof
  fix s t assume "fs_inv s" "fs_step s t"
  then show "fs_inv t" by (auto elim!: fs_step.cases intro: fs_child_inv fs_parent_inv)
next
  fix s t assume "fs_inv s" "fs_step s t"
  then show "fs_effort t < fs_effort s"
    by (auto elim!: fs_step.cases dest: fs_child_effort fs_parent_effort)
next
  fix s assume inv: "fs_inv s" "\<not> (fs_child s = CExited \<and> fs_parent s = PDone)"
  have "fs_child_step s \<noteq> None \<or> fs_parent_step s \<noteq> None"
  proof (cases "fs_child s = CExited")
    case True
    with inv have "fs_parent s = PSuspend \<Longrightarrow> fs_pending s" "fs_parent s \<noteq> PDone" by (simp_all add: fs_inv_def)
    then show ?thesis by (cases "fs_parent s") (simp_all add: fs_parent_step_def)
  next
    case False
    then show ?thesis by (cases "fs_child s") (simp_all add: fs_child_step_def)
  qed
  then show "\<exists>t. fs_step s t" by (auto intro: fs_step.intros)
qed

text \<open>Parent and child synchronise in every interleaving: no run hangs, the line that reports the signal is the last one, and all work of the child comes
  before it.\<close>
theorem fork_sig_sync_order:
  "(\<forall>k s. (fs_step ^^ k) fs_start s \<longrightarrow> k \<le> 7) \<and>
   (\<forall>s. fs_step\<^sup>*\<^sup>* fs_start s \<longrightarrow> (\<nexists>t. fs_step s t) \<longrightarrow> fs_parent s = PDone \<and> fs_child s = CExited \<and>
      (\<exists>out. filter of_child out = [ChildStarted, ChildSignals] \<and> fs_out s = out @ [ParentGot]))"
proof -
  have start: "fs_inv fs_start" by (simp add: fs_inv_def fs_start_def printed_def)
  have "k \<le> 7" if "(fs_step ^^ k) fs_start s" for k s using fsync.run_bounded [OF that start] by (simp add: fs_effort_def fs_start_def)
  moreover have "fs_parent s = PDone \<and> fs_child s = CExited \<and> (\<exists>out. filter of_child out = [ChildStarted, ChildSignals] \<and> fs_out s = out @ [ParentGot])"
    if run: "fs_step\<^sup>*\<^sup>* fs_start s" "\<nexists>t. fs_step s t" for s
    using fsync.stuck_final [OF run(1) start run(2)] fsync.run_inv [OF run(1) start] by (auto simp: fs_inv_def printed_def)
  ultimately show ?thesis by blast
qed

theorem fork_sig_sync_order_witness: "\<exists>s. fs_step\<^sup>*\<^sup>* fs_start s \<and> fs_text (last (fs_out s)) = ''Parent got signal''"
proof -
  have "fs_inv fs_start" by (simp add: fs_inv_def fs_start_def printed_def)
  then obtain s where "fs_step\<^sup>*\<^sup>* fs_start s" "\<nexists>t. fs_step s t" using fsync.reaches_stuck by blast
  with fork_sig_sync_order show ?thesis by (metis last_snoc fs_text.simps(4))
qed

end
