(* ===== verification/Barrier.thy ===== *)
theory Barrier
  imports Runs CLib
begin

text \<open>
  \<^verbatim>\<open>tlpi-book/threads/pthread_barrier_demo.c\<close>: threads that pass a barrier a number of times. A call of \<^verbatim>\<open>pthread_barrier_wait\<close> blocks until as many threads
  wait as the barrier was initialised for; then these go on, one of them with the value PTHREAD\_BARRIER\_SERIAL\_THREAD, and the barrier is as it was at first.
  Which one is not specified. The count is part of the state: it is what the main thread gives to \<^verbatim>\<open>pthread_barrier_init\<close>. A line
  and the call that follows it are one step; sleeping is left out, since it restricts nothing.
\<close>

section \<open>Model\<close>

datatype bline = Started nat | AboutTo nat nat | Passed nat nat bool | Terminating nat | Newline

text \<open>A thread in its pass \<open>j\<close>: before the call, in it, and after it with its result.\<close>

datatype bpc = BFresh | BStart | BWork nat | BWait nat | BRet nat bool | BNewline nat | BTerm | BEnd

datatype bmain = BInit | BCreate nat | BLine | BJoin nat | BExit int

record bar_st =
  b_thr :: "bpc list"
  b_main :: bmain
  b_count :: "nat option"
  b_round :: nat
  b_out :: "bline list"

definition bput :: "nat \<Rightarrow> bpc \<Rightarrow> bline list \<Rightarrow> bar_st \<Rightarrow> bar_st" where
  "bput i p l s = s\<lparr>b_thr := (b_thr s)[i := p], b_out := b_out s @ l\<rparr>"

definition threadFunc :: "nat \<Rightarrow> nat \<Rightarrow> bar_st \<Rightarrow> bar_st option" where
  "threadFunc numBarriers i s = (case b_thr s ! i of
      BFresh \<Rightarrow> None
    | BStart \<Rightarrow> Some (bput i (if 0 < numBarriers then BWork 0 else BTerm) [Started i] s)
    | BWork j \<Rightarrow> Some (bput i (BWait j) [AboutTo i j] s)
    | BWait j \<Rightarrow> None
    | BRet j serial \<Rightarrow> Some (bput i (if serial then BNewline j else if j + 1 < numBarriers then BWork (j + 1) else BTerm) [Passed i j serial] s)
    | BNewline j \<Rightarrow> Some (bput i (if j + 1 < numBarriers then BWork (j + 1) else BTerm) [Newline] s)
    | BTerm \<Rightarrow> Some (bput i BEnd [Terminating i] s)
    | BEnd \<Rightarrow> None)"

fun waiting :: "bpc \<Rightarrow> bool" where
  "waiting (BWait _) = True"
| "waiting _ = False"

fun wakes :: "nat \<Rightarrow> nat \<Rightarrow> bpc \<Rightarrow> bpc" where
  "wakes serial i (BWait j) = BRet j (i = serial)"
| "wakes serial i p = p"

text \<open>The barrier opens for threads \<open>W\<close> that wait, as many as it was initialised for; \<open>serial\<close> is the one of them that gets the special value. The number
  of times it has opened is recorded for the proofs.\<close>

definition barrier_opens :: "nat list \<Rightarrow> nat \<Rightarrow> bar_st \<Rightarrow> bar_st option" where
  "barrier_opens W serial s =
     (if b_count s = Some (length W) \<and> distinct W \<and> (\<forall>i \<in> set W. i < length (b_thr s) \<and> waiting (b_thr s ! i)) \<and> serial \<in> set W
      then Some (s\<lparr>b_thr := map (\<lambda>i. if i \<in> set W then wakes serial i (b_thr s ! i) else b_thr s ! i) [0..<length (b_thr s)], b_round := b_round s + 1\<rparr>)
      else None)"

text \<open>The main thread: \<^verbatim>\<open>numThreads\<close> is the length of the list of threads. A barrier for no threads is refused by \<^verbatim>\<open>pthread_barrier_init\<close>.\<close>

definition bar_main :: "bar_st \<Rightarrow> bar_st option" where
  "bar_main s = (case b_main s of
      BInit \<Rightarrow> if length (b_thr s) = 0 then Some (s\<lparr>b_main := BExit EXIT_FAILURE\<rparr>)
        else Some (s\<lparr>b_count := Some (length (b_thr s)), b_main := BCreate 0\<rparr>)
    | BCreate k \<Rightarrow> if k < length (b_thr s) then Some (s\<lparr>b_thr := (b_thr s)[k := BStart], b_main := BCreate (k + 1)\<rparr>) else Some (s\<lparr>b_main := BLine\<rparr>)
    | BLine \<Rightarrow> Some (s\<lparr>b_out := b_out s @ [Newline], b_main := BJoin 0\<rparr>)
    | BJoin k \<Rightarrow> if k < length (b_thr s) then if b_thr s ! k = BEnd then Some (s\<lparr>b_main := BJoin (k + 1)\<rparr>) else None
        else Some (s\<lparr>b_main := BExit EXIT_SUCCESS\<rparr>)
    | BExit _ \<Rightarrow> None)"

inductive bar_step :: "nat \<Rightarrow> bar_st \<Rightarrow> bar_st \<Rightarrow> bool" for numBarriers where
  thread: "(\<nexists>st. b_main s = BExit st) \<Longrightarrow> i < length (b_thr s) \<Longrightarrow> threadFunc numBarriers i s = Some t \<Longrightarrow> bar_step numBarriers s t"
| opens: "(\<nexists>st. b_main s = BExit st) \<Longrightarrow> barrier_opens W serial s = Some t \<Longrightarrow> bar_step numBarriers s t"
| main: "bar_main s = Some t \<Longrightarrow> bar_step numBarriers s t"

text \<open>With failing calls of \<^verbatim>\<open>calloc\<close>, \<^verbatim>\<open>pthread_barrier_init\<close>, \<^verbatim>\<open>pthread_create\<close>, \<^verbatim>\<open>pthread_barrier_wait\<close> and \<^verbatim>\<open>pthread_join\<close>, which end the process.\<close>

inductive bar_xstep :: "nat \<Rightarrow> bar_st \<Rightarrow> bar_st \<Rightarrow> bool" for numBarriers where
  regular: "bar_step numBarriers s t \<Longrightarrow> bar_xstep numBarriers s t"
| fails: "(\<nexists>st. b_main s = BExit st) \<Longrightarrow> bar_xstep numBarriers s (s\<lparr>b_main := BExit EXIT_FAILURE\<rparr>)"

definition bar_start :: "nat \<Rightarrow> bar_st" where
  "bar_start numThreads = \<lparr>b_thr = replicate numThreads BFresh, b_main = BInit, b_count = None, b_round = 0, b_out = []\<rparr>"

section \<open>Invariant\<close>

text \<open>All threads are in the round of the barrier, or have just left the one before.\<close>

fun in_round :: "nat \<Rightarrow> nat \<Rightarrow> bpc \<Rightarrow> bool" where
  "in_round B R BFresh \<longleftrightarrow> R = 0"
| "in_round B R BStart \<longleftrightarrow> R = 0"
| "in_round B R (BWork j) \<longleftrightarrow> j = R \<and> j < B"
| "in_round B R (BWait j) \<longleftrightarrow> j = R \<and> j < B"
| "in_round B R (BRet j serial) \<longleftrightarrow> R = j + 1 \<and> j < B"
| "in_round B R (BNewline j) \<longleftrightarrow> R = j + 1 \<and> j < B"
| "in_round B R BTerm \<longleftrightarrow> R = B"
| "in_round B R BEnd \<longleftrightarrow> R = B"

definition waits :: "nat \<Rightarrow> nat \<Rightarrow> bar_st \<Rightarrow> bool" where
  "waits k j s \<longleftrightarrow> j < b_round s \<or> b_thr s ! k = BWait j"

definition ordered :: "nat \<Rightarrow> bline list \<Rightarrow> bool" where
  "ordered N out \<longleftrightarrow> (\<forall>n < length out. \<forall>i j serial. out ! n = Passed i j serial \<longrightarrow> (\<forall>k < N. AboutTo k j \<in> set (take n out)))"

fun is_serial :: "nat \<Rightarrow> bline \<Rightarrow> bool" where
  "is_serial j (Passed i j' serial) \<longleftrightarrow> j' = j \<and> serial"
| "is_serial j _ = False"

definition serials :: "nat \<Rightarrow> bar_st \<Rightarrow> nat" where
  "serials j s = length (filter (is_serial j) (b_out s)) + length (filter (\<lambda>p. p = BRet j True) (b_thr s))"

definition bmain_ok :: "nat \<Rightarrow> bpc list \<Rightarrow> bmain \<Rightarrow> bool" where
  "bmain_ok N thr m = (case m of
      BInit \<Rightarrow> \<forall>i < N. thr ! i = BFresh
    | BCreate k \<Rightarrow> k \<le> N \<and> (\<forall>i < N. k \<le> i \<longleftrightarrow> thr ! i = BFresh)
    | BLine \<Rightarrow> BFresh \<notin> set thr
    | BJoin k \<Rightarrow> k \<le> N \<and> BFresh \<notin> set thr \<and> (\<forall>i < k. thr ! i = BEnd)
    | BExit st \<Rightarrow> st = EXIT_SUCCESS \<longrightarrow> (\<forall>i < N. thr ! i = BEnd))"

definition bar_inv :: "nat \<Rightarrow> nat \<Rightarrow> bar_st \<Rightarrow> bool" where
  "bar_inv B N s \<longleftrightarrow> length (b_thr s) = N \<and> (\<forall>p \<in> set (b_thr s). in_round B (b_round s) p) \<and>
     (\<forall>k < N. \<forall>j. waits k j s \<longrightarrow> AboutTo k j \<in> set (b_out s)) \<and> ordered N (b_out s) \<and>
     (\<forall>j. serials j s = (if j < b_round s then 1 else 0)) \<and>
     bmain_ok N (b_thr s) (b_main s) \<and> (b_count s = Some N \<or> b_count s = None \<and> b_main s \<in> {BInit, BExit EXIT_FAILURE})"

lemma ordered_snoc:
  "ordered N (out @ [l]) \<longleftrightarrow> ordered N out \<and> (\<forall>i j serial. l = Passed i j serial \<longrightarrow> (\<forall>k < N. AboutTo k j \<in> set out))"
  by (auto simp: ordered_def nth_append less_Suc_eq)

lemma bar_start_inv: "bar_inv B N (bar_start N)"
  by (auto simp: bar_inv_def bar_start_def waits_def ordered_def serials_def bmain_ok_def)

lemma filter_sum: "length (filter P xs) = sum_list (map (\<lambda>x. if P x then 1 else 0) xs)"
  by (induction xs) auto

lemma filter_upd:
  assumes "i < length xs"
  shows "length (filter P (xs[i := x])) + (if P (xs ! i) then 1 else 0) = length (filter P xs) + (if P x then 1 else 0)"
  unfolding filter_sum using sum_map_update_nat [OF assms, of "\<lambda>x. if P x then 1 else 0" x] by simp

text \<open>The barrier opens only when all threads wait: this is where the count matters.\<close>

lemma opens_all:
  assumes "bar_inv B N s" "barrier_opens W serial s = Some t"
  shows "\<forall>p \<in> set (b_thr s). waiting p" "serial < N"
    "t = s\<lparr>b_thr := map (\<lambda>i. wakes serial i (b_thr s ! i)) [0..<N], b_round := b_round s + 1\<rparr>"
proof -
  have len: "length (b_thr s) = N" using assms(1) by (simp add: bar_inv_def)
  from assms(2) have W: "b_count s = Some (length W)" "distinct W" "\<forall>i \<in> set W. i < N \<and> waiting (b_thr s ! i)" "serial \<in> set W"
    and t: "t = s\<lparr>b_thr := map (\<lambda>i. if i \<in> set W then wakes serial i (b_thr s ! i) else b_thr s ! i) [0..<N], b_round := b_round s + 1\<rparr>"
    using len by (auto simp: barrier_opens_def split: if_splits)
  have "card (set W) = N" using W(1,2) assms(1) by (auto simp: bar_inv_def distinct_card)
  then have all: "set W = {0..<N}" using W(3) by (intro card_subset_eq) auto
  then show "\<forall>p \<in> set (b_thr s). waiting p" using W(3) len by (auto simp: in_set_conv_nth)
  show "serial < N" using W(3,4) by blast
  show "t = s\<lparr>b_thr := map (\<lambda>i. wakes serial i (b_thr s ! i)) [0..<N], b_round := b_round s + 1\<rparr>" using all by (simp add: t)
qed

text \<open>One thread prints and goes on.\<close>

definition fits :: "nat \<Rightarrow> nat \<Rightarrow> nat \<Rightarrow> bpc \<Rightarrow> bpc \<Rightarrow> bline \<Rightarrow> bool" where
  "fits B R i old new l \<longleftrightarrow> old \<notin> {BFresh, BEnd} \<and> new \<noteq> BFresh \<and> in_round B R new \<and> (\<forall>j. new = BWait j \<longrightarrow> l = AboutTo i j) \<and>
     (\<forall>i' j serial. l = Passed i' j serial \<longrightarrow> j < R) \<and> (\<forall>j. \<not> (new = BRet j True)) \<and> (\<forall>j. is_serial j l \<longleftrightarrow> old = BRet j True)"

lemma thread_fits:
  assumes "in_round B R (b_thr s ! i)" "threadFunc B i s = Some t"
  obtains new l where "t = bput i new [l] s" "fits B R i (b_thr s ! i) new l"
  using assms by (cases "b_thr s ! i") (auto simp: threadFunc_def fits_def split: if_splits)

lemma bput_main:
  assumes "old \<notin> {BFresh, BEnd}" "new \<noteq> BFresh" "xs ! i = old" "i < length xs"
  shows "(\<forall>m < length xs. k \<le> m \<longleftrightarrow> xs ! m = BFresh) \<Longrightarrow> (\<forall>m < length xs. k \<le> m \<longleftrightarrow> xs[i := new] ! m = BFresh)"
    and "BFresh \<notin> set xs \<Longrightarrow> BFresh \<notin> set (xs[i := new])"
    and "k \<le> length xs \<Longrightarrow> (\<forall>m < k. xs ! m = BEnd) \<Longrightarrow> (\<forall>m < k. xs[i := new] ! m = BEnd)"
proof -
  show "(\<forall>m < length xs. k \<le> m \<longleftrightarrow> xs ! m = BFresh) \<Longrightarrow> (\<forall>m < length xs. k \<le> m \<longleftrightarrow> xs[i := new] ! m = BFresh)"
    using assms by (auto simp: nth_list_update)
  show "BFresh \<notin> set xs \<Longrightarrow> BFresh \<notin> set (xs[i := new])"
    using assms set_update_subset_insert [of xs i new] by auto
  show "k \<le> length xs \<Longrightarrow> (\<forall>m < k. xs ! m = BEnd) \<Longrightarrow> (\<forall>m < k. xs[i := new] ! m = BEnd)"
    using assms by (auto simp: nth_list_update)
qed

lemma bmain_ok_upd:
  assumes "bmain_ok N xs m" "\<nexists>st. m = BExit st" "length xs = N" "i < N" "xs ! i \<notin> {BFresh, BEnd}" "new \<noteq> BFresh"
  shows "bmain_ok N (xs[i := new]) m"
proof (cases m)
  case BInit
  with assms show ?thesis by (simp add: bmain_ok_def)
next
  case (BCreate k)
  with assms(1) have "k \<le> N" "\<forall>m < length xs. k \<le> m \<longleftrightarrow> xs ! m = BFresh" using assms(3) by (simp_all add: bmain_ok_def)
  from this(1) bput_main(1) [OF assms(5,6) refl _ this(2)] assms(3,4) BCreate show ?thesis by (simp add: bmain_ok_def)
next
  case BLine
  with assms(1) bput_main(2) [OF assms(5,6) refl] assms(3,4) show ?thesis by (simp add: bmain_ok_def)
next
  case (BJoin k)
  with assms(1) have "k \<le> N" "BFresh \<notin> set xs" "\<forall>m < k. xs ! m = BEnd" by (simp_all add: bmain_ok_def)
  with bput_main(2,3) [OF assms(5,6) refl] assms(3,4) BJoin show ?thesis by (simp add: bmain_ok_def)
qed (use assms(2) in blast)

lemma bar_thread_inv:
  assumes "bar_inv B N s" "\<nexists>st. b_main s = BExit st" "i < length (b_thr s)" "threadFunc B i s = Some t"
  shows "bar_inv B N t"
proof -
  let ?R = "b_round s" and ?old = "b_thr s ! i"
  have I: "length (b_thr s) = N" "\<And>p. p \<in> set (b_thr s) \<Longrightarrow> in_round B ?R p" "\<And>k j. k < N \<Longrightarrow> waits k j s \<Longrightarrow> AboutTo k j \<in> set (b_out s)"
    "ordered N (b_out s)" "\<And>j. serials j s = (if j < ?R then 1 else 0)" using assms(1) by (auto simp: bar_inv_def)
  obtain new l where t: "t = bput i new [l] s" and f: "fits B ?R i ?old new l"
    by (rule thread_fits [OF I(2) assms(4)]) (use assms(3) in auto)
  have "in_round B ?R p" if "p \<in> set ((b_thr s)[i := new])" for p
    using that f I(2) set_update_subset_insert [of "b_thr s" i new] by (auto simp: fits_def)
  moreover have "AboutTo k j \<in> set (b_out s @ [l])" if "k < N" "waits k j t" for k j
    using that f I(3) [of k j] assms(3) I(1) by (cases "k = i") (auto simp: t bput_def waits_def fits_def)
  moreover have "ordered N (b_out s @ [l])" using I(3,4) f by (auto simp: ordered_snoc fits_def waits_def)
  moreover have "serials j t = serials j s" for j
    using f filter_upd [OF assms(3), of "\<lambda>p. p = BRet j True" new] by (cases "?old = BRet j True") (auto simp: serials_def t bput_def fits_def)
  moreover have "bmain_ok N ((b_thr s)[i := new]) (b_main s)"
    by (rule bmain_ok_upd [OF _ assms(2) I(1)]) (use assms(1,3) f I(1) in \<open>simp_all add: bar_inv_def fits_def\<close>)
  moreover have "b_count s = Some N \<or> b_count s = None \<and> b_main s \<in> {BInit, BExit EXIT_FAILURE}" using assms(1) by (simp add: bar_inv_def)
  ultimately show ?thesis using I(1,5) by (simp add: bar_inv_def t bput_def)
qed

lemma waiting_round: "waiting p \<Longrightarrow> in_round B R p \<Longrightarrow> p = BWait R \<and> R < B"
  by (cases p) auto

lemma filter_one: "serial < n \<Longrightarrow> length (filter (\<lambda>i. i = serial) [0..<n]) = 1"
  by (induction n) (auto simp: less_Suc_eq)

lemma opens_inv:
  assumes "bar_inv B N s" "\<nexists>st. b_main s = BExit st" "barrier_opens W serial s = Some t"
  shows "bar_inv B N t"
proof -
  let ?R = "b_round s"
  have I: "length (b_thr s) = N" "\<And>p. p \<in> set (b_thr s) \<Longrightarrow> in_round B ?R p" "\<And>k j. k < N \<Longrightarrow> waits k j s \<Longrightarrow> AboutTo k j \<in> set (b_out s)"
    "ordered N (b_out s)" "\<And>j. serials j s = (if j < ?R then 1 else 0)" using assms(1) by (auto simp: bar_inv_def)
  note op = opens_all [OF assms(1,3)]
  have w: "\<forall>p \<in> set (b_thr s). waiting p" "serial < N" "N \<noteq> 0" and t: "t = s\<lparr>b_thr := map (\<lambda>i. wakes serial i (b_thr s ! i)) [0..<N], b_round := ?R + 1\<rparr>"
    using op by auto
  have all: "p = BWait ?R \<and> ?R < B" if "p \<in> set (b_thr s)" for p using that w(1) I(2) [OF that] waiting_round by blast
  then have at: "b_thr s ! i = BWait ?R" if "i < N" for i using that I(1) by simp
  have R: "?R < B" using all w(3) I(1) by (cases "b_thr s") auto
  have thr: "b_thr t = map (\<lambda>i. BRet ?R (i = serial)) [0..<N]" using at by (simp add: t)
  have "in_round B (?R + 1) p" if "p \<in> set (b_thr t)" for p using that R by (auto simp: thr)
  moreover have "AboutTo k j \<in> set (b_out t)" if "k < N" "waits k j t" for k j
    using that I(3) [of k j] at [of k] by (auto simp: waits_def thr t less_Suc_eq)
  moreover have "serials j t = (if j < ?R + 1 then 1 else 0)" for j
  proof -
    have "filter (\<lambda>p. p = BRet j True) (b_thr s) = []" using all by (auto simp: filter_empty_conv)
    moreover have "length (filter (\<lambda>p. p = BRet j True) (b_thr t)) = (if j = ?R then 1 else 0)"
      using filter_one [OF w(2)] by (auto simp: thr filter_map o_def)
    ultimately show ?thesis using I(5) [of j] by (auto simp: serials_def t split: if_splits)
  qed
  moreover have "\<not> (BFresh \<in> set (b_thr t))" by (auto simp: thr)
  ultimately show ?thesis
    using assms(1,2) I(1,4) w(3) at by (cases "b_main s") (auto simp: bar_inv_def bmain_ok_def t thr)
qed

lemma bar_main_inv:
  assumes "bar_inv B N s" "bar_main s = Some t"
  shows "bar_inv B N t"
proof (cases "b_main s")
  case BInit
  with assms show ?thesis by (auto simp: bar_main_def bar_inv_def bmain_ok_def waits_def serials_def EXIT_SUCCESS_def EXIT_FAILURE_def split: if_splits)
next
  case (BCreate k)
  show ?thesis
  proof (cases "k < N")
    case True
    let ?R = "b_round s"
    have I: "length (b_thr s) = N" "\<And>p. p \<in> set (b_thr s) \<Longrightarrow> in_round B ?R p" "\<And>k j. k < N \<Longrightarrow> waits k j s \<Longrightarrow> AboutTo k j \<in> set (b_out s)"
      "ordered N (b_out s)" "\<And>j. serials j s = (if j < ?R then 1 else 0)" "\<forall>i < N. k \<le> i \<longleftrightarrow> b_thr s ! i = BFresh" using assms(1) BCreate by (auto simp: bar_inv_def bmain_ok_def)
    have t: "t = s\<lparr>b_thr := (b_thr s)[k := BStart], b_main := BCreate (k + 1)\<rparr>" using assms(2) BCreate True I(1) by (simp add: bar_main_def)
    have fresh: "b_thr s ! k = BFresh" "?R = 0" using I(1,6) I(2) [of "b_thr s ! k"] True by auto
    have "in_round B ?R p" if "p \<in> set ((b_thr s)[k := BStart])" for p
      using that I(2) fresh set_update_subset_insert [of "b_thr s" k BStart] by auto
    moreover have "AboutTo m j \<in> set (b_out s)" if "m < N" "waits m j t" for m j
      using that I(1) I(3) [of m j] True by (cases "m = k") (auto simp: t waits_def)
    moreover have "serials j t = serials j s" for j
      using filter_upd [of k "b_thr s" "\<lambda>p. p = BRet j True" BStart] True I(1) fresh by (simp add: serials_def t)
    moreover have "\<forall>i < N. k + 1 \<le> i \<longleftrightarrow> (b_thr s)[k := BStart] ! i = BFresh" using I(1,6) True by (auto simp: nth_list_update)
    moreover have "b_count s = Some N" using assms(1) BCreate by (simp add: bar_inv_def)
    ultimately show ?thesis using I True by (simp add: bar_inv_def bmain_ok_def t)
  next
    case False
    with BCreate assms have "t = s\<lparr>b_main := BLine\<rparr>" "BFresh \<notin> set (b_thr s)" by (auto simp: bar_main_def bar_inv_def bmain_ok_def in_set_conv_nth)
    with assms(1) BCreate show ?thesis by (auto simp: bar_inv_def bmain_ok_def waits_def serials_def)
  qed
next
  case BLine
  with assms(2) have t: "t = s\<lparr>b_out := b_out s @ [Newline], b_main := BJoin 0\<rparr>" by (simp add: bar_main_def)
  from assms(1) BLine show ?thesis by (auto simp: bar_inv_def bmain_ok_def waits_def serials_def ordered_snoc t)
next
  case (BJoin k)
  show ?thesis
  proof (cases "k < N")
    case True
    with BJoin assms have "b_thr s ! k = BEnd" "t = s\<lparr>b_main := BJoin (k + 1)\<rparr>" by (auto simp: bar_main_def bar_inv_def bmain_ok_def split: if_splits)
    with assms(1) BJoin True show ?thesis by (auto simp: bar_inv_def bmain_ok_def waits_def serials_def less_Suc_eq)
  next
    case False
    with BJoin assms have "k = N" "t = s\<lparr>b_main := BExit EXIT_SUCCESS\<rparr>" by (auto simp: bar_main_def bar_inv_def bmain_ok_def)
    with assms(1) BJoin show ?thesis by (auto simp: bar_inv_def bmain_ok_def waits_def serials_def)
  qed
qed (use assms in \<open>simp add: bar_main_def\<close>)

lemma bar_step_inv: "bar_inv B N s \<Longrightarrow> bar_step B s t \<Longrightarrow> bar_inv B N t"
  by (auto elim!: bar_step.cases intro: bar_thread_inv opens_inv bar_main_inv)

lemma bar_fail_inv: "bar_inv B N s \<Longrightarrow> bar_inv B N (s\<lparr>b_main := BExit EXIT_FAILURE\<rparr>)"
  by (auto simp: bar_inv_def bmain_ok_def waits_def serials_def EXIT_SUCCESS_def EXIT_FAILURE_def)

interpretation barx: invariant_system "bar_xstep B" "bar_inv B N"
  by unfold_locales (auto elim!: bar_xstep.cases intro: bar_step_inv bar_fail_inv)

section \<open>Completion\<close>

fun bpc_rank :: "nat \<Rightarrow> bpc \<Rightarrow> nat" where
  "bpc_rank B BFresh = 5 * B + 9"
| "bpc_rank B BStart = 5 * B + 8"
| "bpc_rank B (BWork j) = 5 * (B - j) + 7"
| "bpc_rank B (BWait j) = 5 * (B - j) + 6"
| "bpc_rank B (BRet j serial) = 5 * (B - j) + 5"
| "bpc_rank B (BNewline j) = 5 * (B - j) + 4"
| "bpc_rank B BTerm = 3"
| "bpc_rank B BEnd = 0"

fun bmain_rank :: "nat \<Rightarrow> bmain \<Rightarrow> nat" where
  "bmain_rank N BInit = 2 * N + 5"
| "bmain_rank N (BCreate k) = (N - k) + N + 4"
| "bmain_rank N BLine = N + 3"
| "bmain_rank N (BJoin k) = (N - k) + 1"
| "bmain_rank N (BExit st) = 0"

definition bar_effort :: "nat \<Rightarrow> nat \<Rightarrow> bar_st \<Rightarrow> nat" where
  "bar_effort B N s = sum_list (map (bpc_rank B) (b_thr s)) + bmain_rank N (b_main s)"

lemma bar_rank_upd: "i < length xs \<Longrightarrow> bpc_rank B x < bpc_rank B (xs ! i) \<Longrightarrow> sum_list (map (bpc_rank B) (xs[i := x])) < sum_list (map (bpc_rank B) xs)"
  using sum_map_update_nat [of i xs "bpc_rank B" x] by linarith

lemma bar_thread_effort:
  assumes "bar_inv B N s" "i < length (b_thr s)" "threadFunc B i s = Some t"
  shows "bar_effort B N t < bar_effort B N s"
proof -
  have "in_round B (b_round s) (b_thr s ! i)" using assms(1,2) by (simp add: bar_inv_def)
  with assms(3) obtain new l where t: "t = bput i new l s" and r: "bpc_rank B new < bpc_rank B (b_thr s ! i)"
    by (cases "b_thr s ! i") (auto simp: threadFunc_def split: if_splits)
  show ?thesis using bar_rank_upd [OF assms(2) r] by (simp add: t bar_effort_def bput_def)
qed

lemma opens_effort:
  assumes "bar_inv B N s" "barrier_opens W serial s = Some t"
  shows "bar_effort B N t < bar_effort B N s"
proof -
  note op = opens_all [OF assms]
  have len: "length (b_thr s) = N" using assms(1) by (simp add: bar_inv_def)
  with op have w: "\<forall>p \<in> set (b_thr s). waiting p" "b_thr s \<noteq> []"
    and t: "t = s\<lparr>b_thr := map (\<lambda>i. wakes serial i (b_thr s ! i)) [0..<length (b_thr s)], b_round := b_round s + 1\<rparr>" by auto
  have at: "\<forall>p \<in> set (b_thr s). p = BWait (b_round s)" using w(1) assms(1) waiting_round by (auto simp: bar_inv_def)
  then have at': "i < length (b_thr s) \<Longrightarrow> b_thr s ! i = BWait (b_round s)" for i using nth_mem by blast
  from at have s: "b_thr s = replicate (length (b_thr s)) (BWait (b_round s))" by (simp add: replicate_length_same)
  have "map (bpc_rank B) (b_thr t) = replicate (length (b_thr s)) (5 * (B - b_round s) + 5)"
    using at' by (auto simp: t intro!: replicate_eqI)
  moreover have "map (bpc_rank B) (b_thr s) = replicate (length (b_thr s)) (5 * (B - b_round s) + 6)" by (subst s) simp
  ultimately show ?thesis using w(2) by (simp add: bar_effort_def sum_list_replicate t)
qed

lemma bar_main_effort:
  assumes "bar_inv B N s" "bar_main s = Some t"
  shows "bar_effort B N t < bar_effort B N s"
proof (cases "b_main s")
  case (BCreate k)
  with assms(1) have k: "k < N \<Longrightarrow> b_thr s ! k = BFresh" "length (b_thr s) = N" by (auto simp: bar_inv_def bmain_ok_def)
  with assms(2) BCreate bar_rank_upd [of k "b_thr s" B BStart] show ?thesis by (auto simp: bar_main_def bar_effort_def split: if_splits)
qed (use assms in \<open>auto simp: bar_main_def bar_effort_def bar_inv_def split: if_splits\<close>)

definition bar_final :: "bar_st \<Rightarrow> bool" where
  "bar_final s \<longleftrightarrow> (\<exists>st. b_main s = BExit st)"

text \<open>A thread that has not ended keeps the others going: either some thread can act, or all of them wait and the barrier opens.\<close>

lemma bar_progress:
  assumes "bar_inv B N s" "\<not> bar_final s"
  shows "\<exists>t. bar_step B s t"
proof (cases "bar_main s")
  case None
  then obtain k where k: "b_main s = BJoin k" "k < N" "b_thr s ! k \<noteq> BEnd"
    using assms by (cases "b_main s") (auto simp: bar_main_def bar_final_def bar_inv_def split: if_splits)
  have I: "length (b_thr s) = N" "\<And>p. p \<in> set (b_thr s) \<Longrightarrow> in_round B (b_round s) p" "BFresh \<notin> set (b_thr s)"
    using assms(1) k(1) by (auto simp: bar_inv_def bmain_ok_def)
  show ?thesis
  proof (cases "\<forall>p \<in> set (b_thr s). waiting p \<or> p = BEnd")
    case True
    have mem: "b_thr s ! k \<in> set (b_thr s)" using k(2) I(1) by simp
    with True k(3) have "waiting (b_thr s ! k)" by blast
    with I(2) [OF mem] waiting_round have "b_round s < B" by blast
    then have "BEnd \<notin> set (b_thr s)" using I(2) by fastforce
    with True have "\<forall>p \<in> set (b_thr s). waiting p" by blast
    moreover have "b_count s = Some N" using assms(1) k(1) by (simp add: bar_inv_def)
    ultimately have "barrier_opens [0..<N] 0 s \<noteq> None" using k(2) I(1) by (simp add: barrier_opens_def)
    then show ?thesis using assms(2) by (auto simp: bar_final_def intro: bar_step.opens)
  next
    case False
    then obtain i where i: "i < N" "\<not> waiting (b_thr s ! i)" "b_thr s ! i \<noteq> BEnd" using I(1) by (auto simp: in_set_conv_nth)
    have "b_thr s ! i \<noteq> BFresh" using I(1,3) i(1) by (metis nth_mem)
    with i have "threadFunc B i s \<noteq> None" by (cases "b_thr s ! i") (auto simp: threadFunc_def)
    then obtain t where "threadFunc B i s = Some t" by blast
    from bar_step.thread [OF _ _ this] assms(2) i(1) I(1) show ?thesis by (auto simp: bar_final_def)
  qed
qed (auto intro: bar_step.main)

interpretation bar: completing_system "bar_step B" "bar_inv B N" "bar_effort B N" bar_final
  by unfold_locales
    (auto intro: bar_thread_inv opens_inv bar_main_inv bar_progress elim!: bar_step.cases dest: bar_thread_effort opens_effort bar_main_effort)

lemma bar_no_failure:
  assumes "(bar_step B)\<^sup>*\<^sup>* (bar_start N) s" "0 < N"
  shows "length (b_thr s) = N \<and> (\<forall>st. b_main s = BExit st \<longrightarrow> st = EXIT_SUCCESS)"
  using assms(1)
proof (induction rule: rtranclp_induct)
  case (step s t)
  then show ?case using assms(2)
    by (auto elim!: bar_step.cases simp: threadFunc_def bput_def barrier_opens_def bar_main_def split: if_splits bpc.splits bmain.splits)
qed (simp add: bar_start_def)

section \<open>Properties\<close>

text \<open>C36. In every interleaving, and whichever calls fail, no thread is past a barrier before all threads have arrived at it: each line that says
  a thread has passed barrier j comes after the lines of all threads that they are about to wait on it. At most one thread has
  got the special value at each barrier; in a program that exits with success it is exactly one. Both rest on the count the main thread gives to the barrier.\<close>
theorem barrier_safe:
  assumes "0 < N" "(bar_xstep B)\<^sup>*\<^sup>* (bar_start N) s"
  shows "ordered N (b_out s) \<and> (\<forall>j. length (filter (is_serial j) (b_out s)) \<le> 1) \<and>
    (b_main s = BExit EXIT_SUCCESS \<longrightarrow> (\<forall>j < B. length (filter (is_serial j) (b_out s)) = 1))"
proof -
  have inv: "bar_inv B N s" by (rule barx.run_inv [OF assms(2) bar_start_inv])
  then have ser: "length (filter (is_serial j) (b_out s)) \<le> (if j < b_round s then 1 else 0)" for j
    by (auto simp: bar_inv_def serials_def dest!: spec [of _ j] split: if_splits)
  have "length (filter (is_serial j) (b_out s)) = 1" if ex: "b_main s = BExit EXIT_SUCCESS" and "j < B" for j
  proof -
    from inv ex have "\<forall>i < N. b_thr s ! i = BEnd" "length (b_thr s) = N" by (auto simp: bar_inv_def bmain_ok_def)
    then have all: "\<forall>p \<in> set (b_thr s). p = BEnd" by (auto simp: in_set_conv_nth)
    with inv assms(1) have "b_round s = B" by (cases "b_thr s") (auto simp: bar_inv_def)
    moreover have "filter (\<lambda>p. p = BRet j True) (b_thr s) = []" using all by (auto simp: filter_empty_conv)
    moreover have "serials j s = (if j < b_round s then 1 else 0)" using inv by (simp add: bar_inv_def)
    ultimately show ?thesis using that(2) by (simp add: serials_def)
  qed
  moreover have "length (filter (is_serial j) (b_out s)) \<le> 1" for j using ser [of j] by (auto split: if_splits)
  ultimately show ?thesis using inv by (simp add: bar_inv_def)
qed

text \<open>Without failing calls the program never gets stuck at a barrier: every run takes a bounded number of steps and ends with an exit with success after
  all threads have ended.\<close>
theorem barrier_completes:
  assumes "0 < N"
  shows "(\<forall>k s. (bar_step B ^^ k) (bar_start N) s \<longrightarrow> k \<le> N * (5 * B + 9) + 2 * N + 5) \<and>
   (\<forall>s. (bar_step B)\<^sup>*\<^sup>* (bar_start N) s \<longrightarrow> (\<nexists>t. bar_step B s t) \<longrightarrow> b_main s = BExit EXIT_SUCCESS \<and> (\<forall>i < N. b_thr s ! i = BEnd))"
proof (intro conjI allI impI)
  fix k s assume "(bar_step B ^^ k) (bar_start N) s"
  from bar.run_bounded [OF this bar_start_inv] show "k \<le> N * (5 * B + 9) + 2 * N + 5"
    using assms by (simp add: bar_effort_def bar_start_def sum_list_replicate)
next
  fix s assume run: "(bar_step B)\<^sup>*\<^sup>* (bar_start N) s" "\<nexists>t. bar_step B s t"
  have "b_main s \<noteq> BExit st" if "st \<noteq> EXIT_SUCCESS" for st using bar_no_failure [OF run(1) assms] that by blast
  then show ex: "b_main s = BExit EXIT_SUCCESS" using bar.stuck_final [OF run(1) bar_start_inv run(2)] by (metis bar_final_def)
  fix i assume "i < N"
  then show "b_thr s ! i = BEnd" using bar.run_inv [OF run(1) bar_start_inv] ex by (auto simp: bar_inv_def bmain_ok_def)
qed

theorem barrier_completes_witness:
  "\<exists>s. (bar_step 2)\<^sup>*\<^sup>* (bar_start 3) s \<and> b_main s = BExit EXIT_SUCCESS"
proof -
  obtain s where "(bar_step 2)\<^sup>*\<^sup>* (bar_start 3) s" "\<nexists>t. bar_step 2 s t" using bar.reaches_stuck [OF bar_start_inv] by blast
  with barrier_completes [of 3 2, simplified] show ?thesis by blast
qed

theorem barrier_safe_witness:
  "\<exists>s. (bar_xstep 2)\<^sup>*\<^sup>* (bar_start 3) s \<and> length (filter (is_serial 1) (b_out s)) = 1"
proof -
  obtain s where run: "(bar_step 2)\<^sup>*\<^sup>* (bar_start 3) s" "bar_final s" using bar.reaches_final [OF bar_start_inv] by blast
  have x: "(bar_xstep 2)\<^sup>*\<^sup>* (bar_start 3) s" using run(1) by (rule rtranclp_mono [THEN predicate2D, rotated]) (auto intro: bar_xstep.regular)
  have "b_main s = BExit EXIT_SUCCESS" using bar_no_failure [OF run(1)] run(2) by (auto simp: bar_final_def)
  with run(2) barrier_safe [OF _ x] x show ?thesis by (auto simp: bar_final_def)
qed

end
