(* ===== verification/Scm_Multi.thy ===== *)
theory Scm_Multi
  imports Sock_Lib Getopt
begin

text \<open>
  Sending open files and credentials over a UNIX domain socket: \<^verbatim>\<open>tlpi-book/sockets/scm_multi_send.c\<close>, \<^verbatim>\<open>scm_multi_recv.c\<close> and \<^verbatim>\<open>scm_multi.h\<close>. The
  ancillary data is modelled byte by byte, as the macros of \<^verbatim>\<open>cmsg(3)\<close> lay it out on a 64-bit little-endian machine; the system calls are the record
  \<open>scm_os\<close>. The walk of the receiver over the bytes is proved equal to one over a list of abstract messages, and a kernel that passes
  messages on connects both programs.
\<close>

section \<open>Ancillary data\<close>

text \<open>The low \<open>n\<close> bytes of a number, lowest first.\<close>

primrec le_bytes :: "nat \<Rightarrow> nat \<Rightarrow> string" where
  "le_bytes 0 v = []"
| "le_bytes (Suc n) v = char_of (v mod 256) # le_bytes n (v div 256)"

primrec le_val :: "string \<Rightarrow> nat" where
  "le_val [] = 0"
| "le_val (c # cs) = of_char c + 256 * le_val cs"

definition CMSG_HDR :: nat where "CMSG_HDR = 16"
definition CMSG_ALIGN :: "nat \<Rightarrow> nat" where "CMSG_ALIGN n = (n + 7) div 8 * 8"
definition CMSG_LEN :: "nat \<Rightarrow> nat" where "CMSG_LEN n = CMSG_HDR + n"
definition CMSG_SPACE :: "nat \<Rightarrow> nat" where "CMSG_SPACE n = CMSG_HDR + CMSG_ALIGN n"

definition SOL_SOCKET :: nat where "SOL_SOCKET = 1"
definition SCM_RIGHTS :: nat where "SCM_RIGHTS = 1"
definition SCM_CREDENTIALS :: nat where "SCM_CREDENTIALS = 2"
definition SO_PASSCRED :: nat where "SO_PASSCRED = 16"
definition SOCK_DGRAM :: int where "SOCK_DGRAM = 2"

definition cmsg_len :: "string \<Rightarrow> nat \<Rightarrow> nat" where
  "cmsg_len ctl off = le_val (take 8 (drop off ctl))"

definition cmsg_level :: "string \<Rightarrow> nat \<Rightarrow> nat" where
  "cmsg_level ctl off = le_val (take 4 (drop (off + 8) ctl))"

definition cmsg_type :: "string \<Rightarrow> nat \<Rightarrow> nat" where
  "cmsg_type ctl off = le_val (take 4 (drop (off + 12) ctl))"

text \<open>Headers are given by their offset in the buffer; \<open>None\<close> is a null pointer.\<close>

definition CMSG_FIRSTHDR :: "string \<Rightarrow> nat option" where
  "CMSG_FIRSTHDR ctl = (if CMSG_HDR \<le> length ctl then Some 0 else None)"

definition CMSG_NXTHDR :: "string \<Rightarrow> nat \<Rightarrow> nat option" where
  "CMSG_NXTHDR ctl off =
     (if cmsg_len ctl off < CMSG_HDR then None
      else let nxt = off + CMSG_ALIGN (cmsg_len ctl off)
        in if length ctl < nxt + CMSG_HDR \<or> length ctl < nxt + CMSG_ALIGN (cmsg_len ctl nxt) then None else Some nxt)"

text \<open>The bytes of a C \<^verbatim>\<open>int\<close>.\<close>

definition int_bytes :: "int \<Rightarrow> string" where
  "int_bytes i = le_bytes 4 (nat (to_u32 i))"

definition hdr_bytes :: "nat \<Rightarrow> nat \<Rightarrow> string" where
  "hdr_bytes len type = le_bytes 8 len @ le_bytes 4 SOL_SOCKET @ le_bytes 4 type"

section \<open>scm\_multi\_send.c\<close>

definition SOCK_PATH :: string where "SOCK_PATH = ''scm_multi''"
definition MAX_FDS :: nat where "MAX_FDS = 1024"
definition sizeof_ucred :: nat where "sizeof_ucred = 12"

text \<open>\<open>c_sendmsg\<close> gets the data, if there is a buffer of data, and the ancillary data; \<open>c_recvmsg\<close> the sizes of the two buffers, and it gives data,
  ancillary data and the flag MSG\_CTRUNC; \<open>c_setsockopt\<close> gets the descriptor, the level, the option and its value.\<close>

record 'k scm_os =
  c_net :: "(int \<times> string, 'k) net_os"
  c_ids :: "'k \<Rightarrow> int \<times> int \<times> int"
  c_malloc :: "nat \<Rightarrow> 'k \<Rightarrow> int option \<times> 'k"
  c_open :: "string \<Rightarrow> 'k \<Rightarrow> (int + int) \<times> 'k"
  c_remove :: "string \<Rightarrow> 'k \<Rightarrow> int option \<times> 'k"
  c_sendmsg :: "int \<Rightarrow> string option \<Rightarrow> string \<Rightarrow> 'k \<Rightarrow> (int + nat) \<times> 'k"
  c_recvmsg :: "int \<Rightarrow> nat \<Rightarrow> nat \<Rightarrow> 'k \<Rightarrow> (int + string \<times> string \<times> bool) \<times> 'k"
  c_setsockopt :: "int \<Rightarrow> nat \<Rightarrow> nat \<Rightarrow> int \<Rightarrow> 'k \<Rightarrow> int option \<times> 'k"
  c_system :: "string \<Rightarrow> 'k \<Rightarrow> int \<times> 'k"
  c_write :: "string \<Rightarrow> 'k \<Rightarrow> (int + nat) \<times> 'k"

definition usageError :: "string \<Rightarrow> ('a proc_io_scheme, 'b) prog" where
  "usageError pname = bnd (modify (fputs_stderr (concat [
      ''Usage: '' @ pname @ '' [options] file...'' @ [NL],
      ''    Options:'' @ [NL],
      TAB # ''-d        Use datagram (instead of stream) socket'' @ [NL],
      TAB # ''-n        Don'' @ [CHR 0x27] @ ''t send any real data with the ancillary data'' @ [NL],
      TAB # ''-p <pid>  Use this PID when sending credentials'' @ [NL],
      TAB # ''-u <uid>  Use this UID when sending credentials'' @ [NL],
      TAB # ''-g <gid>  Use this GID when sending credentials'' @ [NL],
      ''    If any of any of -p/-u/-g is absent, the corresponding real'' @ [NL] @ ''    credential is used.'' @ [NL]])))
    (\<lambda>_. exit3 EXIT_FAILURE)"

record send_cfg =
  useDatagramSocket :: bool
  sendData :: bool
  send_pid :: int
  send_uid :: int
  send_gid :: int

fun send_opt :: "char \<Rightarrow> string \<Rightarrow> send_cfg \<Rightarrow> send_cfg" where
  "send_opt c optarg cfg =
     (if c = CHR ''d'' then cfg\<lparr>useDatagramSocket := True\<rparr>
      else if c = CHR ''n'' then cfg\<lparr>sendData := False\<rparr>
      else if c = CHR ''p'' then cfg\<lparr>send_pid := atoi optarg\<rparr>
      else if c = CHR ''u'' then cfg\<lparr>send_uid := to_u32 (atoi optarg)\<rparr>
      else cfg\<lparr>send_gid := to_u32 (atoi optarg)\<rparr>)"

primrec send_opts :: "string \<Rightarrow> getopt_result list \<Rightarrow> send_cfg \<Rightarrow> ('a proc_io_scheme, send_cfg) prog" where
  "send_opts pname [] cfg = ret cfg"
| "send_opts pname (r # rs) cfg = (case r of
      Opt c v \<Rightarrow> send_opts pname rs (send_opt c (case v of None \<Rightarrow> [] | Some a \<Rightarrow> a) cfg)
    | _ \<Rightarrow> bnd (modify (fputs_stderr (getopt_message pname r))) (\<lambda>_. usageError pname))"

primrec open_files :: "'k scm_os \<Rightarrow> (int \<Rightarrow> string) \<Rightarrow> string list \<Rightarrow> ('k kproc, int list) prog" where
  "open_files K sr [] = ret []"
| "open_files K sr (f # fs) =
     bnd (kget (c_open K f)) (\<lambda>r. case r of
       None \<Rightarrow> errExit sr ''open''
     | Some fd \<Rightarrow> bnd (open_files K sr fs) (\<lambda>fds. ret (fd # fds)))"

text \<open>Storing bytes in the buffer; past its end it is undefined.\<close>

definition poke :: "nat \<Rightarrow> string \<Rightarrow> string \<Rightarrow> ('s, string) prog" where
  "poke off bs buf = (if off + length bs \<le> length buf then ret (take off buf @ bs @ drop (off + length bs) buf) else stop Undef)"

definition deref :: "'a option \<Rightarrow> ('s, 'a) prog" where
  "deref p = (case p of None \<Rightarrow> stop Undef | Some x \<Rightarrow> ret x)"

definition sent_line :: "int \<Rightarrow> nat \<Rightarrow> string" where
  "sent_line i n = ''cmsg_len '' @ show_int i @ '': '' @ show_int (int n) @ [NL]"

text \<open>Filling the buffer with the two messages; the files are opened after the first header has been written.\<close>

definition fill_control :: "'k scm_os \<Rightarrow> (int \<Rightarrow> string) \<Rightarrow> string list \<Rightarrow> send_cfg \<Rightarrow> string \<Rightarrow> ('k kproc, string) prog" where
  "fill_control K sr files cfg ctl =
     (let fdAllocSize = 4 * length files in
     bnd (deref (CMSG_FIRSTHDR ctl)) (\<lambda>cmsgp.
     bnd (poke cmsgp (hdr_bytes (CMSG_LEN fdAllocSize) SCM_RIGHTS) ctl) (\<lambda>ctl.
     bnd (printfM (sent_line 1 (CMSG_LEN fdAllocSize))) (\<lambda>_.
     bnd (kcall (c_malloc K fdAllocSize)) (\<lambda>ok. if \<not> ok then errExit sr ''calloc'' else
     bnd (open_files K sr files) (\<lambda>fdList.
     bnd (poke (cmsgp + CMSG_HDR) (concat (map int_bytes fdList)) ctl) (\<lambda>ctl.
     bnd (deref (CMSG_NXTHDR ctl cmsgp)) (\<lambda>cmsgp.
     bnd (poke cmsgp (hdr_bytes (CMSG_LEN sizeof_ucred) SCM_CREDENTIALS) ctl) (\<lambda>ctl.
     bnd (printfM (sent_line 2 (CMSG_LEN sizeof_ucred))) (\<lambda>_.
     poke (cmsgp + CMSG_HDR) (int_bytes (send_pid cfg) @ int_bytes (send_uid cfg) @ int_bytes (send_gid cfg)) ctl))))))))))"

definition send_main :: "'k scm_os \<Rightarrow> (int \<Rightarrow> string) \<Rightarrow> string \<Rightarrow> string list \<Rightarrow> ('k kproc, unit) prog" where
  "send_main K sr argv0 args =
     bnd (gets (\<lambda>s. c_ids K (ker s))) (\<lambda>(pid, uid, gid).
     bnd (send_opts argv0 (fst (getopt ''dnp:u:g:'' args))
       \<lparr>useDatagramSocket = False, sendData = True, send_pid = pid, send_uid = uid, send_gid = gid\<rparr>) (\<lambda>cfg.
     let files = snd (getopt ''dnp:u:g:'' args);
       controlMsgSize = CMSG_SPACE (4 * length files) + CMSG_SPACE sizeof_ucred in
     if files = [] then usageError argv0 else
     bnd (kcall (c_malloc K controlMsgSize)) (\<lambda>ok. if \<not> ok then errExit sr ''malloc'' else
     bnd (fill_control K sr files cfg (replicate controlMsgSize NUL)) (\<lambda>controlMsg.
     bnd (unixConnect (c_net K) (Some SOCK_PATH) (if useDatagramSocket cfg then SOCK_DGRAM else SOCK_STREAM)) (\<lambda>r. case r of
       None \<Rightarrow> errExit sr ''unixConnect''
     | Some sfd \<Rightarrow>
         bnd (kget (c_sendmsg K sfd (if sendData cfg then Some (int_bytes 12345) else None) controlMsg)) (\<lambda>r. case r of
           None \<Rightarrow> errExit sr ''sendmsg''
         | Some ns \<Rightarrow> bnd (printfM (''sendmsg() returned '' @ show_int (int ns) @ [NL])) (\<lambda>_. exit3 EXIT_SUCCESS)))))))"

section \<open>scm\_multi\_recv.c\<close>

definition BUF_SIZE :: nat where "BUF_SIZE = 100"

text \<open>The file is copied by \<^verbatim>\<open>write\<close>, past the buffer of stdout; the result of \<^verbatim>\<open>write\<close> is ignored. Reading a file may go on for ever.\<close>

partial_function (option) show_file ::
  "'k scm_os \<Rightarrow> (int \<Rightarrow> string) \<Rightarrow> int \<Rightarrow> 'k kproc \<Rightarrow> ((halt + unit) \<times> 'k kproc) option" where
  "show_file K sr fd s = (case n_read (c_net K) fd BUF_SIZE (ker s) of
      (Inl e, k) \<Rightarrow> Some (errExit sr ''read'' (s\<lparr>ker := k, errno := e\<rparr>))
    | (Inr buf, k) \<Rightarrow>
        if buf = [] then Some (Inr (), s\<lparr>ker := k\<rparr>)
        else (case c_write K buf k of
            (Inl e, k') \<Rightarrow> show_file K sr fd (s\<lparr>ker := k', errno := e\<rparr>)
          | (Inr n, k') \<Rightarrow> show_file K sr fd (s\<lparr>ker := k', stdout_out := stdout_out s @ take n buf\<rparr>)))"

text \<open>Programs that may not return: \<open>None\<close> if they do not.\<close>

type_synonym ('s, 'a) oprog = "'s \<Rightarrow> ((halt + 'a) \<times> 's) option"

definition osteps :: "('s, 'a) prog \<Rightarrow> ('s, 'a) oprog" where
  "osteps m s = Some (m s)"

definition obnd :: "('s, 'a) oprog \<Rightarrow> ('a \<Rightarrow> ('s, 'b) oprog) \<Rightarrow> ('s, 'b) oprog" where
  "obnd m f s = (case m s of None \<Rightarrow> None | Some (Inl h, s') \<Rightarrow> Some (Inl h, s') | Some (Inr x, s') \<Rightarrow> f x s')"

definition separator :: string where
  "separator = ''================================='' @ [NL]"

definition len_line :: "nat \<Rightarrow> string" where
  "len_line n = separator @ ''cmsg_len: '' @ show_int (int n) @ [NL]"

definition rights_line :: "int \<Rightarrow> string" where
  "rights_line n = ''SCM_RIGHTS: received '' @ show_int n @ '' file descriptors'' @ [NL]"

definition creds_line :: "int \<Rightarrow> int \<Rightarrow> int \<Rightarrow> string" where
  "creds_line pid uid gid = ''SCM_CREDENTIALS: pid='' @ show_int pid @ '', uid='' @ show_int uid @ '', gid='' @ show_int gid @ [NL]"

definition fd_line :: "nat \<Rightarrow> int \<Rightarrow> string" where
  "fd_line j fd = ''--- ['' @ show_int (int j) @ ''] Received FD '' @ show_int fd @ [NL]"

primrec show_files :: "'k scm_os \<Rightarrow> (int \<Rightarrow> string) \<Rightarrow> nat \<Rightarrow> int list \<Rightarrow> ('k kproc, unit) oprog" where
  "show_files K sr j [] = osteps (ret ())"
| "show_files K sr j (fd # fds) =
     obnd (osteps (printfM (fd_line j fd))) (\<lambda>_.
     obnd (show_file K sr fd) (\<lambda>_.
     obnd (osteps (bnd (kcall (n_close (c_net K) fd)) (\<lambda>ok. if \<not> ok then errExit sr ''close'' else ret ()))) (\<lambda>_.
     show_files K sr (j + 1) fds)))"

text \<open>\<open>int_at\<close>: a C \<^verbatim>\<open>int\<close> in the buffer. \<open>peek\<close>: a copy of bytes of the buffer; past its end it is undefined.\<close>

definition int_at :: "string \<Rightarrow> nat \<Rightarrow> int" where
  "int_at bs off = to_s32 (int (le_val (take 4 (drop off bs))))"

definition peek :: "nat \<Rightarrow> nat \<Rightarrow> string \<Rightarrow> ('s, string) prog" where
  "peek off n buf = (if off + n \<le> length buf then ret (take n (drop off buf)) else stop Undef)"

text \<open>The number of descriptors is computed in \<^verbatim>\<open>size_t\<close> and stored in an \<^verbatim>\<open>int\<close>.\<close>

definition show_cmsg :: "'k scm_os \<Rightarrow> (int \<Rightarrow> string) \<Rightarrow> string \<Rightarrow> nat \<Rightarrow> ('k kproc, unit) oprog" where
  "show_cmsg K sr ctl off =
     obnd (osteps (bnd (printfM (len_line (cmsg_len ctl off))) (\<lambda>_.
       whenM (cmsg_level ctl off \<noteq> SOL_SOCKET) (fatal sr ''cmsg_level != SOL_SOCKET'')))) (\<lambda>_.
     if cmsg_type ctl off = SCM_RIGHTS then
       (let fdCnt = to_s32 ((int (cmsg_len ctl off) - int (CMSG_LEN 0)) mod 2 ^ 64 div 4);
            fdAllocSize = nat ((4 * fdCnt) mod 2 ^ 64) in
        obnd (osteps (bnd (printfM (rights_line fdCnt)) (\<lambda>_.
          bnd (kcall (c_malloc K fdAllocSize)) (\<lambda>ok. if \<not> ok then errExit sr ''calloc'' else
          peek (off + CMSG_HDR) fdAllocSize ctl)))) (\<lambda>fdList.
        show_files K sr 0 (map (\<lambda>j. int_at fdList (4 * j)) [0..<nat fdCnt])))
     else if cmsg_type ctl off = SCM_CREDENTIALS then
       osteps (andthen (whenM (cmsg_len ctl off \<noteq> CMSG_LEN sizeof_ucred) (fatal sr ''cmsg data has incorrect size''))
         (bnd (peek (off + CMSG_HDR) sizeof_ucred ctl) (\<lambda>creds.
          printfM (creds_line (int_at creds 0) (to_u32 (int_at creds 4)) (to_u32 (int_at creds 8))))))
     else osteps (fatal sr (''Bad cmsg_type ('' @ show_int (to_s32 (int (cmsg_type ctl off))) @ '')'')))"

lemma CMSG_ALIGN_ge: "n \<le> CMSG_ALIGN n"
  by (simp add: CMSG_ALIGN_def)

lemma CMSG_NXTHDR_Some:
  assumes "CMSG_NXTHDR ctl off = Some nxt"
  shows "off < nxt" "nxt + CMSG_HDR \<le> length ctl"
  using assms CMSG_ALIGN_ge [of "cmsg_len ctl off"] by (auto simp: CMSG_NXTHDR_def Let_def CMSG_HDR_def split: if_splits)

text \<open>The headers the loop of the receiver visits, from a header on; the body of the loop does not change the buffer.\<close>

function hdrs_from :: "string \<Rightarrow> nat \<Rightarrow> nat list" where
  "hdrs_from ctl off = off # (case CMSG_NXTHDR ctl off of None \<Rightarrow> [] | Some nxt \<Rightarrow> hdrs_from ctl nxt)"
  by pat_completeness auto

termination
  by (relation "measure (\<lambda>(ctl, off). length ctl - off)") (use CMSG_NXTHDR_Some in \<open>fastforce simp: CMSG_HDR_def\<close>)+

declare hdrs_from.simps [simp del]

definition hdrs :: "string \<Rightarrow> nat list" where
  "hdrs ctl = (case CMSG_FIRSTHDR ctl of None \<Rightarrow> [] | Some off \<Rightarrow> hdrs_from ctl off)"

primrec oeach :: "('a \<Rightarrow> ('s, unit) oprog) \<Rightarrow> 'a list \<Rightarrow> ('s, unit) oprog" where
  "oeach f [] = osteps (ret ())"
| "oeach f (x # xs) = obnd (f x) (\<lambda>_. oeach f xs)"

definition show_control :: "'k scm_os \<Rightarrow> (int \<Rightarrow> string) \<Rightarrow> string \<Rightarrow> ('k kproc, unit) oprog" where
  "show_control K sr ctl = oeach (show_cmsg K sr ctl) (hdrs ctl)"

fun recv_opts :: "string \<Rightarrow> getopt_result list \<Rightarrow> bool \<times> int \<Rightarrow> ('a proc_io_scheme, bool \<times> int) prog" where
  "recv_opts pname [] cfg = ret cfg"
| "recv_opts pname (r # rs) (datagram, limit) = (case r of
      Opt c v \<Rightarrow> recv_opts pname rs (if c = CHR ''d'' then (True, limit) else (datagram, atoi (case v of None \<Rightarrow> [] | Some a \<Rightarrow> a)))
    | _ \<Rightarrow> bnd (modify (fputs_stderr (getopt_message pname r))) (\<lambda>_. usageErr (pname @ '' [-d]'' @ [NL] @
        ''        -d           use datagram socket'' @ [NL] @
        ''        -n nbytes    limit on size of received ancillary data'' @ [NL])))"

definition recv_socket :: "'k scm_os \<Rightarrow> (int \<Rightarrow> string) \<Rightarrow> bool \<Rightarrow> ('k kproc, int) prog" where
  "recv_socket K sr datagram =
     bnd (kcall (c_remove K SOCK_PATH)) (\<lambda>ok.
     bnd (gets errno) (\<lambda>e. if \<not> ok \<and> e \<noteq> ENOENT then errExit sr (''remove-'' @ SOCK_PATH)
     else if datagram then
       bnd (unixBind (c_net K) (Some SOCK_PATH) SOCK_DGRAM) (\<lambda>r. case r of None \<Rightarrow> errExit sr ''unixBind'' | Some sfd \<Rightarrow> ret sfd)
     else
       bnd (unixBind (c_net K) (Some SOCK_PATH) SOCK_STREAM) (\<lambda>r. case r of None \<Rightarrow> errExit sr ''unixBind'' | Some lfd \<Rightarrow>
       bnd (kcall (n_listen (c_net K) lfd 5)) (\<lambda>ok. if \<not> ok then errExit sr ''listen'' else
       bnd (kget (n_accept (c_net K) lfd)) (\<lambda>r. case r of None \<Rightarrow> errExit sr ''accept'' | Some (sfd, _) \<Rightarrow> ret sfd)))))"

definition returned_line :: "nat \<Rightarrow> string" where
  "returned_line n = ''recvmsg() returned '' @ show_int (int n) @ [NL]"

definition data_line :: "int \<Rightarrow> string" where
  "data_line v = ''Received data = '' @ show_int v @ [NL]"

text \<open>What is printed of the data. An \<^verbatim>\<open>int\<close> received in part is read uninitialised. A kernel that stores more ancillary data than the buffer holds, as the
  option \<^verbatim>\<open>-n\<close> allows, writes past it.\<close>

definition recv_message :: "'k scm_os \<Rightarrow> (int \<Rightarrow> string) \<Rightarrow> int \<Rightarrow> int \<Rightarrow> ('k kproc, string) prog" where
  "recv_message K sr limit sfd =
     (let controlMsgSize = CMSG_SPACE (4 * MAX_FDS) + CMSG_SPACE sizeof_ucred;
          msg_controllen = (if limit = - 1 then controlMsgSize else nat (limit mod 2 ^ 64)) in
     bnd (kget (c_recvmsg K sfd 4 msg_controllen)) (\<lambda>r. case r of
       None \<Rightarrow> errExit sr ''recvmsg''
     | Some (data, ctl, trunc) \<Rightarrow>
         if controlMsgSize < length ctl then stop Undef else
         bnd (printfM (returned_line (length data))) (\<lambda>_.
         bnd (whenM (data \<noteq> []) (if length data < 4 then stop Undef else printfM (data_line (int_at data 0)))) (\<lambda>_.
         bnd (whenM (limit \<noteq> - 1) (
           bnd (printfM separator) (\<lambda>_.
           bnd (gets (\<lambda>s. fst (c_ids K (ker s)))) (\<lambda>pid.
           bnd (kplain (c_system K (snprintf 1000 (''ls -l /proc/'' @ show_int pid @ ''/fd'')))) (\<lambda>_.
           printfM separator))))) (\<lambda>_.
         bnd (whenM trunc (printfM (''********** Ancillary data was truncated!!! **********'' @ [NL]))) (\<lambda>_. ret ctl))))))"

definition recv_main :: "'k scm_os \<Rightarrow> (int \<Rightarrow> string) \<Rightarrow> string \<Rightarrow> string list \<Rightarrow> ('k kproc, unit) oprog" where
  "recv_main K sr argv0 args =
     obnd (osteps (bnd (kcall (c_malloc K (CMSG_SPACE (4 * MAX_FDS) + CMSG_SPACE sizeof_ucred))) (\<lambda>ok. if \<not> ok then errExit sr ''malloc'' else
       bnd (recv_opts argv0 (fst (getopt ''dn:'' args)) (False, - 1)) (\<lambda>(datagram, limit).
       bnd (recv_socket K sr datagram) (\<lambda>sfd.
       bnd (kcall (c_setsockopt K sfd SOL_SOCKET SO_PASSCRED 1)) (\<lambda>ok. if \<not> ok then errExit sr ''setsockopt'' else
       recv_message K sr limit sfd)))))) (\<lambda>ctl.
     obnd (show_control K sr ctl) (\<lambda>_. osteps (exit3 EXIT_SUCCESS)))"

section \<open>Messages as bytes\<close>

text \<open>An abstract message, and how it is laid out.\<close>

datatype scm_msg = Rights "int list" | Creds int int int

fun msg_data :: "scm_msg \<Rightarrow> string" where
  "msg_data (Rights fds) = concat (map int_bytes fds)"
| "msg_data (Creds pid uid gid) = int_bytes pid @ int_bytes uid @ int_bytes gid"

fun msg_type :: "scm_msg \<Rightarrow> nat" where
  "msg_type (Rights _) = SCM_RIGHTS"
| "msg_type (Creds _ _ _) = SCM_CREDENTIALS"

definition msg_bytes :: "scm_msg \<Rightarrow> string" where
  "msg_bytes m = hdr_bytes (CMSG_LEN (length (msg_data m))) (msg_type m) @ msg_data m @
     replicate (CMSG_ALIGN (length (msg_data m)) - length (msg_data m)) NUL"

text \<open>The numbers fit their types, and the number of descriptors an \<^verbatim>\<open>int\<close>.\<close>

definition is_int :: "int \<Rightarrow> bool" where
  "is_int i \<longleftrightarrow> INT_MIN \<le> i \<and> i \<le> INT_MAX"

definition is_uid :: "int \<Rightarrow> bool" where
  "is_uid i \<longleftrightarrow> 0 \<le> i \<and> i < 2 ^ 32"

fun fits :: "scm_msg \<Rightarrow> bool" where
  "fits (Rights fds) \<longleftrightarrow> (\<forall>fd \<in> set fds. is_int fd) \<and> int (length fds) \<le> INT_MAX"
| "fits (Creds pid uid gid) \<longleftrightarrow> is_int pid \<and> is_uid uid \<and> is_uid gid"

lemma length_le_bytes [simp]: "length (le_bytes n v) = n"
  by (induction n arbitrary: v) auto

lemma le_val_bytes: "le_val (le_bytes n v) = v mod 256 ^ n"
  by (induction n arbitrary: v) (auto simp: mod_mult2_eq)

lemma length_int_bytes [simp]: "length (int_bytes i) = 4"
  by (simp add: int_bytes_def)

lemma length_hdr_bytes [simp]: "length (hdr_bytes l t) = CMSG_HDR"
  by (simp add: hdr_bytes_def CMSG_HDR_def)

lemma int_at_bytes: "int_at (int_bytes i @ r) 0 = to_s32 (to_u32 i)"
  using nat_less_iff [of "to_u32 i" 4294967296] to_u32_bounds [of i] by (simp add: int_at_def int_bytes_def le_val_bytes)

lemma to_s32_u32: "is_int i \<Longrightarrow> to_s32 (to_u32 i) = i"
  using to_s32_id [of i] by (simp add: is_int_def to_s32_def to_u32_def mod_add_left_eq)

lemma int_at_drop: "length p = off \<Longrightarrow> int_at (p @ bs) off = int_at bs 0"
  by (simp add: int_at_def)

lemma to_u32_uid: "is_uid i \<Longrightarrow> to_u32 (to_s32 (to_u32 i)) = i"
  by (simp add: is_uid_def to_u32_def to_s32_def mod_simps)

lemma length_ints [simp]: "length (concat (map int_bytes fds)) = 4 * length fds"
  by (induction fds) auto

lemma ints_at:
  "\<forall>fd \<in> set fds. is_int fd \<Longrightarrow> map (\<lambda>j. int_at (concat (map int_bytes fds)) (4 * j)) [0..<length fds] = fds"
proof (induction fds)
  case (Cons fd fds)
  have "int_at (int_bytes fd @ r) (4 + 4 * j) = int_at r (4 * j)" for r j by (simp add: int_at_def)
  with Cons show ?case by (simp add: upt_conv_Cons map_Suc_upt [symmetric] int_at_bytes to_s32_u32 o_def del: upt_Suc)
qed simp

lemma align_hdr: "CMSG_ALIGN (16 + n) = 16 + CMSG_ALIGN n"
  unfolding CMSG_ALIGN_def by presburger

lemma length_msg_bytes: "length (msg_bytes m) = CMSG_SPACE (length (msg_data m))"
  using CMSG_ALIGN_ge [of "length (msg_data m)"] by (simp add: msg_bytes_def CMSG_SPACE_def)

lemma fits_len: "fits m \<Longrightarrow> CMSG_LEN (length (msg_data m)) < 2 ^ 34"
  by (cases m) (auto simp: CMSG_LEN_def CMSG_HDR_def const_defs)

text \<open>What the accessors find at a message.\<close>

lemma at_message:
  assumes "drop off ctl = msg_bytes m @ r" "fits m"
  shows "cmsg_len ctl off = CMSG_LEN (length (msg_data m))" "cmsg_level ctl off = SOL_SOCKET" "cmsg_type ctl off = msg_type m"
    "take (length (msg_data m)) (drop (off + CMSG_HDR) ctl) = msg_data m"
proof -
  let ?l = "CMSG_LEN (length (msg_data m))" and ?r = "msg_data m @ replicate (CMSG_ALIGN (length (msg_data m)) - length (msg_data m)) NUL @ r"
  have d: "drop off ctl = le_bytes 8 ?l @ le_bytes 4 SOL_SOCKET @ le_bytes 4 (msg_type m) @ ?r"
    using assms(1) by (simp add: msg_bytes_def hdr_bytes_def)
  have dr: "drop (off + n) ctl = drop n (drop off ctl)" for n by (simp add: add.commute)
  show "cmsg_len ctl off = ?l" using fits_len [OF assms(2)] by (simp add: cmsg_len_def d le_val_bytes)
  show "cmsg_level ctl off = SOL_SOCKET" by (simp add: cmsg_level_def dr d le_val_bytes SOL_SOCKET_def)
  show "cmsg_type ctl off = msg_type m" by (cases m) (simp_all add: cmsg_type_def dr d le_val_bytes SCM_RIGHTS_def SCM_CREDENTIALS_def)
  show "take (length (msg_data m)) (drop (off + CMSG_HDR) ctl) = msg_data m" unfolding dr d by (simp add: CMSG_HDR_def)
qed

lemma nxt_last: "drop off ctl = msg_bytes m \<Longrightarrow> fits m \<Longrightarrow> CMSG_NXTHDR ctl off = None"
proof -
  assume a: "drop off ctl = msg_bytes m" "fits m"
  have "length ctl = off + CMSG_SPACE (length (msg_data m))"
    using arg_cong [OF a(1), of length] by (simp add: length_msg_bytes CMSG_SPACE_def CMSG_HDR_def)
  then show ?thesis using at_message(1) [of off ctl m "[]"] a by (simp add: CMSG_NXTHDR_def align_hdr CMSG_SPACE_def CMSG_HDR_def CMSG_LEN_def)
qed

lemma nxt_inner:
  assumes "drop off ctl = msg_bytes m @ msg_bytes m' @ r" "fits m" "fits m'"
  shows "CMSG_NXTHDR ctl off = Some (off + length (msg_bytes m))" "drop (off + length (msg_bytes m)) ctl = msg_bytes m' @ r"
proof -
  show d: "drop (off + length (msg_bytes m)) ctl = msg_bytes m' @ r"
    using arg_cong [OF assms(1), of "drop (length (msg_bytes m))"] by (simp add: add.commute)
  have "length ctl = off + length (msg_bytes m) + length (msg_bytes m') + length r"
    using arg_cong [OF assms(1), of length] by (simp add: length_msg_bytes CMSG_SPACE_def CMSG_HDR_def)
  then show "CMSG_NXTHDR ctl off = Some (off + length (msg_bytes m))"
    using at_message(1) [OF assms(1,2)] at_message(1) [OF d assms(3)]
    by (simp add: CMSG_NXTHDR_def align_hdr length_msg_bytes Let_def CMSG_LEN_def CMSG_SPACE_def CMSG_HDR_def)
qed

section \<open>The walk\<close>

fun show_msg :: "'k scm_os \<Rightarrow> (int \<Rightarrow> string) \<Rightarrow> scm_msg \<Rightarrow> ('k kproc, unit) oprog" where
  "show_msg K sr (Rights fds) =
     obnd (osteps (bnd (printfM (len_line (CMSG_LEN (4 * length fds)))) (\<lambda>_.
       bnd (printfM (rights_line (int (length fds)))) (\<lambda>_.
       bnd (kcall (c_malloc K (4 * length fds))) (\<lambda>ok. if \<not> ok then errExit sr ''calloc'' else ret ()))))) (\<lambda>_.
     show_files K sr 0 fds)"
| "show_msg K sr (Creds pid uid gid) =
     osteps (bnd (printfM (len_line (CMSG_LEN sizeof_ucred))) (\<lambda>_.
       printfM (creds_line pid uid gid)))"

lemma obnd_steps: "obnd (osteps m) f s = (case m s of (Inl h, s') \<Rightarrow> Some (Inl h, s') | (Inr x, s') \<Rightarrow> f x s')"
  by (auto simp: obnd_def osteps_def split: prod.splits sum.splits)

lemma kcall_returns: "\<exists>ok s'. kcall f s = (Inr ok, s')"
  by (auto simp: kcall_def split: prod.splits option.splits)

lemma show_rights:
  assumes "drop off ctl = msg_bytes (Rights fds) @ r" "fits (Rights fds)"
  shows "show_cmsg K sr ctl off = show_msg K sr (Rights fds)"
proof (rule ext)
  fix s :: "'a kproc"
  note at = at_message [OF assms]
  have len: "cmsg_len ctl off = CMSG_LEN (4 * length fds)" using at(1) by simp
  have small: "int (length fds) \<le> INT_MAX" using assms(2) by simp
  have "(int (CMSG_LEN (4 * length fds)) - int (CMSG_LEN 0)) mod 2 ^ 64 div 4 = int (length fds)"
    using small by (simp add: CMSG_LEN_def CMSG_HDR_def const_defs)
  then have cnt: "to_s32 ((int (CMSG_LEN (4 * length fds)) - int (CMSG_LEN 0)) mod 2 ^ 64 div 4) = int (length fds)"
    using small to_s32_id [of "int (length fds)"] by (simp add: const_defs)
  have alloc: "nat ((4 * int (length fds)) mod 2 ^ 64) = 4 * length fds" using small by (simp add: const_defs nat_mult_distrib)
  have "off + CMSG_HDR + 4 * length fds \<le> length ctl"
    using arg_cong [OF assms(1), of length] CMSG_ALIGN_ge [of "4 * length fds"] by (simp add: length_msg_bytes CMSG_SPACE_def CMSG_HDR_def)
  moreover have "take (4 * length fds) (drop (off + CMSG_HDR) ctl) = concat (map int_bytes fds)" using at(4) by simp
  ultimately have pk: "peek (off + CMSG_HDR) (4 * length fds) ctl = (ret (concat (map int_bytes fds)) :: ('a kproc, string) prog)"
    by (simp add: peek_def)
  have "map (\<lambda>j. int_at (concat (map int_bytes fds)) (4 * j)) [0..<length fds] = fds" using assms(2) by (intro ints_at) simp
  moreover obtain ok s1 where "kcall (c_malloc K (4 * length fds)) (printf_stdout (rights_line (int (length fds)))
      (printf_stdout (len_line (CMSG_LEN (4 * length fds))) s)) = (Inr ok, s1)"
    using kcall_returns by blast
  ultimately show "show_cmsg K sr ctl off s = show_msg K sr (Rights fds) s"
    using at(2,3) unfolding show_cmsg_def show_msg.simps len cnt Let_def alloc pk
    by (cases ok) (simp_all add: obnd_steps bnd_apply printfM_def errExit_def terminate_proc_def exit3_def)
qed

lemma show_creds:
  assumes "drop off ctl = msg_bytes (Creds pid uid gid) @ r" "fits (Creds pid uid gid)"
  shows "show_cmsg K sr ctl off = show_msg K sr (Creds pid uid gid)"
proof (rule ext)
  fix s :: "'a kproc"
  note at = at_message [OF assms]
  let ?d = "int_bytes pid @ int_bytes uid @ int_bytes gid"
  have len: "cmsg_len ctl off = CMSG_LEN sizeof_ucred" using at(1) by (simp add: sizeof_ucred_def)
  have "off + CMSG_HDR + sizeof_ucred \<le> length ctl"
    using arg_cong [OF assms(1), of length] CMSG_ALIGN_ge [of 12] by (simp add: length_msg_bytes CMSG_SPACE_def CMSG_HDR_def sizeof_ucred_def)
  moreover have "take sizeof_ucred (drop (off + CMSG_HDR) ctl) = ?d" using at(4) by (simp add: sizeof_ucred_def)
  ultimately have pk: "peek (off + CMSG_HDR) sizeof_ucred ctl = (ret ?d :: ('a kproc, string) prog)" by (simp add: peek_def)
  have "int_at ?d 0 = pid" "to_u32 (int_at ?d 4) = uid" "to_u32 (int_at ?d 8) = gid"
    using assms(2) int_at_bytes [of pid "int_bytes uid @ int_bytes gid"] int_at_drop [of "int_bytes pid" 4] int_at_bytes [of uid]
      int_at_drop [of "int_bytes pid @ int_bytes uid" 8] int_at_bytes [of gid "[]"] by (simp_all add: to_s32_u32 to_u32_uid)
  then show "show_cmsg K sr ctl off s = show_msg K sr (Creds pid uid gid) s"
    using at(2,3) by (simp add: show_cmsg_def Let_def len pk obnd_steps osteps_def prog_simps printfM_def SCM_RIGHTS_def SCM_CREDENTIALS_def)
qed

lemma show_message:
  assumes "drop off ctl = msg_bytes m @ r" "fits m"
  shows "show_cmsg K sr ctl off = show_msg K sr m"
  using assms show_rights show_creds by (cases m) blast+

lemma walk_from:
  assumes "drop off ctl = concat (map msg_bytes (m # ms))" "\<forall>x \<in> set (m # ms). fits x"
  shows "oeach (show_cmsg K sr ctl) (hdrs_from ctl off) = oeach (show_msg K sr) (m # ms)"
  using assms
proof (induction ms arbitrary: off m)
  case Nil
  then show ?case by (simp add: hdrs_from.simps [of ctl off] nxt_last show_message [of off ctl m "[]"])
next
  case (Cons m' ms)
  then have d: "drop off ctl = msg_bytes m @ msg_bytes m' @ concat (map msg_bytes ms)" by simp
  note nxt = nxt_inner [OF d]
  with Cons have "oeach (show_cmsg K sr ctl) (hdrs_from ctl (off + length (msg_bytes m))) = oeach (show_msg K sr) (m' # ms)" by simp
  with Cons nxt(1) show_message [OF d, of K sr] show ?case by (simp add: hdrs_from.simps [of ctl off])
qed

lemma show_control_messages:
  assumes "\<forall>m \<in> set ms. fits m"
  shows "show_control K sr (concat (map msg_bytes ms)) = oeach (show_msg K sr) ms"
proof (cases ms)
  case Nil
  then show ?thesis by (simp add: show_control_def hdrs_def CMSG_FIRSTHDR_def CMSG_HDR_def)
next
  case (Cons m ms')
  then have "CMSG_FIRSTHDR (concat (map msg_bytes ms)) = Some 0" by (simp add: CMSG_FIRSTHDR_def length_msg_bytes CMSG_SPACE_def)
  with walk_from [of 0 "concat (map msg_bytes ms)" m ms' K sr] Cons assms show ?thesis by (simp add: show_control_def hdrs_def)
qed

text \<open>The messages in a buffer, as the kernel reads them.\<close>

definition parse_msg :: "string \<Rightarrow> nat \<Rightarrow> scm_msg" where
  "parse_msg ctl off =
     (if cmsg_type ctl off = SCM_RIGHTS then Rights (map (\<lambda>j. int_at ctl (off + CMSG_HDR + 4 * j)) [0..<(cmsg_len ctl off - CMSG_HDR) div 4])
      else Creds (int_at ctl (off + CMSG_HDR)) (to_u32 (int_at ctl (off + CMSG_HDR + 4))) (to_u32 (int_at ctl (off + CMSG_HDR + 8))))"

definition parse_msgs :: "string \<Rightarrow> scm_msg list" where
  "parse_msgs ctl = map (parse_msg ctl) (hdrs ctl)"

lemma int_at_take: "j + 4 \<le> n \<Longrightarrow> int_at (take n bs) j = int_at bs j"
  by (simp add: int_at_def drop_take min_def)

lemma int_at_shift: "int_at bs (off + j) = int_at (drop off bs) j"
  by (simp add: int_at_def add.commute)

lemma parse_message:
  assumes "drop off ctl = msg_bytes m @ r" "fits m"
  shows "parse_msg ctl off = m"
proof -
  note at = at_message [OF assms]
  have i: "int_at ctl (off + CMSG_HDR + j) = int_at (msg_data m) j" if "j + 4 \<le> length (msg_data m)" for j
    using that int_at_shift [of ctl "off + CMSG_HDR"] int_at_take [of j "length (msg_data m)" "drop (off + CMSG_HDR) ctl"] by (simp only: at(4))
  show ?thesis
  proof (cases m)
    case (Rights fds)
    then have "map (\<lambda>j. int_at ctl (off + CMSG_HDR + 4 * j)) [0..<length fds] = map (\<lambda>j. int_at (concat (map int_bytes fds)) (4 * j)) [0..<length fds]"
      using i by simp
    also have "\<dots> = fds" using assms(2) Rights by (intro ints_at) simp
    finally show ?thesis using at Rights by (simp add: parse_msg_def CMSG_LEN_def)
  next
    case (Creds pid uid gid)
    with i [of 0] i [of 4] i [of 8] at assms(2) int_at_drop [of "int_bytes pid" 4] int_at_drop [of "int_bytes pid @ int_bytes uid" 8] int_at_bytes [of gid "[]"] show ?thesis
      by (simp add: parse_msg_def SCM_RIGHTS_def SCM_CREDENTIALS_def int_at_bytes to_s32_u32 to_u32_uid)
  qed
qed

lemma parse_from:
  assumes "drop off ctl = concat (map msg_bytes (m # ms))" "\<forall>x \<in> set (m # ms). fits x"
  shows "map (parse_msg ctl) (hdrs_from ctl off) = m # ms"
  using assms
proof (induction ms arbitrary: off m)
  case Nil
  then show ?case by (simp add: hdrs_from.simps [of ctl off] nxt_last parse_message [of off ctl m "[]"])
next
  case (Cons m' ms)
  then have d: "drop off ctl = msg_bytes m @ msg_bytes m' @ concat (map msg_bytes ms)" by simp
  note nxt = nxt_inner [OF d]
  with Cons have "map (parse_msg ctl) (hdrs_from ctl (off + length (msg_bytes m))) = m' # ms" by simp
  with Cons nxt(1) parse_message [OF d] show ?case by (simp add: hdrs_from.simps [of ctl off])
qed

lemma parse_messages:
  assumes "\<forall>m \<in> set ms. fits m"
  shows "parse_msgs (concat (map msg_bytes ms)) = ms"
proof (cases ms)
  case Nil
  then show ?thesis by (simp add: parse_msgs_def hdrs_def CMSG_FIRSTHDR_def CMSG_HDR_def)
next
  case (Cons m ms')
  then have "CMSG_FIRSTHDR (concat (map msg_bytes ms)) = Some 0" by (simp add: CMSG_FIRSTHDR_def length_msg_bytes CMSG_SPACE_def)
  with parse_from [of 0 "concat (map msg_bytes ms)" m ms'] Cons assms show ?thesis by (simp add: parse_msgs_def hdrs_def)
qed

section \<open>The sender's buffer\<close>

lemma open_files_length: "open_files K sr files s = (Inr fds, s') \<Longrightarrow> length fds = length files"
proof (induction files arbitrary: fds s s')
  case (Cons f files)
  then show ?case
    by (auto simp: bnd_apply errExit_def terminate_proc_def exit3_def split: prod.splits sum.splits option.splits if_splits)
qed simp

text \<open>The buffer has room for both messages, and is filled with them.\<close>

lemma fill_rights:
  assumes "n = length fds"
  shows "poke 0 (hdr_bytes (CMSG_LEN (4 * n)) SCM_RIGHTS) (replicate (CMSG_SPACE (4 * n) + c) NUL) =
      ret (hdr_bytes (CMSG_LEN (4 * n)) SCM_RIGHTS @ replicate (CMSG_ALIGN (4 * n) + c) NUL)"
    and "poke CMSG_HDR (concat (map int_bytes fds)) (hdr_bytes (CMSG_LEN (4 * n)) SCM_RIGHTS @ replicate (CMSG_ALIGN (4 * n) + c) NUL) =
      ret (msg_bytes (Rights fds) @ replicate c NUL)"
  using assms CMSG_ALIGN_ge [of "4 * n"]
  by (auto simp: poke_def CMSG_SPACE_def msg_bytes_def replicate_add [symmetric] add.commute)

lemma nxt_zero:
  assumes "fits m"
  shows "CMSG_NXTHDR (msg_bytes m @ replicate (CMSG_HDR + c) NUL) 0 = Some (length (msg_bytes m))"
proof -
  have z: "le_val (replicate n NUL) = 0" for n by (induction n) (simp_all add: NUL_def)
  then have "cmsg_len (msg_bytes m @ replicate (CMSG_HDR + c) NUL) (length (msg_bytes m)) = 0" by (simp add: cmsg_len_def)
  then show ?thesis using at_message(1) [of 0 "msg_bytes m @ replicate (CMSG_HDR + c) NUL" m] assms
    by (simp add: CMSG_NXTHDR_def Let_def align_hdr CMSG_LEN_def CMSG_HDR_def length_msg_bytes CMSG_SPACE_def) (simp add: CMSG_ALIGN_def)
qed

lemma fill_creds:
  assumes "length p = off"
  shows "poke off (hdr_bytes (CMSG_LEN sizeof_ucred) SCM_CREDENTIALS) (p @ replicate (CMSG_SPACE sizeof_ucred) NUL) =
      ret (p @ hdr_bytes (CMSG_LEN sizeof_ucred) SCM_CREDENTIALS @ replicate (CMSG_ALIGN sizeof_ucred) NUL)"
    and "poke (off + CMSG_HDR) (int_bytes pid @ int_bytes uid @ int_bytes gid)
      (p @ hdr_bytes (CMSG_LEN sizeof_ucred) SCM_CREDENTIALS @ replicate (CMSG_ALIGN sizeof_ucred) NUL) = ret (p @ msg_bytes (Creds pid uid gid))"
  using assms by (auto simp: poke_def CMSG_SPACE_def msg_bytes_def sizeof_ucred_def CMSG_ALIGN_def)

lemma fill_control_messages:
  assumes "int (length files) \<le> INT_MAX" "\<forall>fd \<in> set fds. is_int fd"
    and "kcall (c_malloc K (4 * length files)) (printf_stdout (sent_line 1 (CMSG_LEN (4 * length files))) s) = (Inr True, s1)"
    and "open_files K sr files s1 = (Inr fds, s2)"
  shows "fill_control K sr files cfg (replicate (CMSG_SPACE (4 * length files) + CMSG_SPACE sizeof_ucred) NUL) s =
    (Inr (msg_bytes (Rights fds) @ msg_bytes (Creds (send_pid cfg) (send_uid cfg) (send_gid cfg))),
     printf_stdout (sent_line 2 (CMSG_LEN sizeof_ucred)) s2)"
proof -
  have n: "length files = length fds" using open_files_length [OF assms(4)] by simp
  have f: "fits (Rights fds)" using assms n by simp
  have sp: "CMSG_SPACE sizeof_ucred = CMSG_HDR + CMSG_ALIGN sizeof_ucred" by (simp add: CMSG_SPACE_def)
  have first: "CMSG_FIRSTHDR (replicate (CMSG_SPACE (4 * length files) + CMSG_SPACE sizeof_ucred) NUL) = Some 0"
    by (simp add: CMSG_FIRSTHDR_def CMSG_SPACE_def)
  show ?thesis
    using assms(3,4) unfolding fill_control_def Let_def first
    by (simp add: deref_def bnd_apply printfM_def fill_rights [OF n] nxt_zero [OF f, of "CMSG_ALIGN sizeof_ucred", folded sp] fill_creds [OF refl] del: fits.simps)
qed

section \<open>Files over a contract of read\<close>

context reader
begin

text \<open>When reading does not fail, and stdout takes everything, the whole file is shown. \<open>P\<close> is what reading keeps of the kernel.\<close>

lemma show_file_all:
  assumes K: "n_read (c_net K) fd = rd" "\<And>bs k. c_write K bs k = (Inr (length bs), k)"
    and P: "\<And>n k r k'. rd n k = (r, k') \<Longrightarrow> P k \<Longrightarrow> P k'" "\<And>k. P k \<Longrightarrow> intr k = 0 \<and> errs k = {}"
    and "P (ker s)"
  shows "\<exists>k'. show_file K sr fd s = Some (Inr (), s\<lparr>stdout_out := stdout_out s @ avail (ker s), ker := k'\<rparr>) \<and> P k' \<and> avail k' = []"
  using assms(5)
proof (induction "length (avail (ker s))" arbitrary: s rule: less_induct)
  case less
  obtain x k where x: "rd BUF_SIZE (ker s) = (x, k)" by fastforce
  have "x \<noteq> Inl e" for e using rd_eintr [of BUF_SIZE "ker s" k] rd_errs [of BUF_SIZE "ker s" e k] x P(2) [OF less.prems] by (cases "e = EINTR") auto
  then obtain buf where rd: "rd BUF_SIZE (ker s) = (Inr buf, k)" using x by (cases x) auto
  have k: "P k" "avail (ker s) = buf @ avail k" using P(1) [OF rd less.prems] rd_data [OF rd] by auto
  show ?case
  proof (cases "buf = []")
    case True
    with rd rd_eof [of BUF_SIZE "ker s" k] k K show ?thesis by (subst show_file.simps) (auto simp: BUF_SIZE_def)
  next
    case False
    let ?s = "s\<lparr>ker := k, stdout_out := stdout_out s @ buf\<rparr>"
    have "length (avail (ker ?s)) < length (avail (ker s))" using k False by simp
    from less.hyps [OF this] k obtain k' where "show_file K sr fd ?s = Some (Inr (), ?s\<lparr>stdout_out := stdout_out ?s @ avail k, ker := k'\<rparr>)" "P k'" "avail k' = []"
      by auto
    moreover have "show_file K sr fd s = show_file K sr fd ?s" using rd K False by (subst show_file.simps) simp
    ultimately show ?thesis using k by auto
  qed
qed

end

section \<open>A kernel that passes messages on\<close>

text \<open>What the processes share: the file system (a socket in it accepts connections or datagrams, or is only a name left behind), the connections not yet
  accepted, the message under way and how the peer ended. The message carries the pathname and kind of the socket it was sent to, the data, the open files
  (a name and an offset) and the credentials.\<close>

datatype node = File string | Sock bool bool

record wire =
  w_fs :: "string \<Rightarrow> node option"
  w_pending :: "string list"
  w_box :: "(string \<times> bool \<times> string \<times> (string \<times> nat) list \<times> int \<times> int \<times> int) option"
  w_ended :: "(halt + unit) list"

text \<open>A socket: its kind, the pathname it is bound to, the one it is connected to, and its option SO\_PASSCRED.\<close>

record sckt =
  so_dgram :: bool
  so_addr :: "string option"
  so_peer :: "string option"
  so_passcred :: bool

record sck =
  sc_w :: wire
  sc_tab :: "int \<Rightarrow> (string \<times> nat) option"
  sc_socks :: "int \<Rightarrow> sckt option"
  sc_next :: int
  sc_self :: "int \<times> int \<times> int"
  sc_may :: "int \<times> int \<times> int \<Rightarrow> bool"

definition SCM_MAX_FD :: nat where "SCM_MAX_FD = 253"
definition ENXIO :: int where "ENXIO = 6"
definition EPROTOTYPE :: int where "EPROTOTYPE = 91"
definition ENOPROTOOPT :: int where "ENOPROTOOPT = 92"
definition EADDRINUSE :: int where "EADDRINUSE = 98"
definition ENOTCONN :: int where "ENOTCONN = 107"
definition ECONNREFUSED :: int where "ECONNREFUSED = 111"

definition sc_open :: "string \<Rightarrow> sck \<Rightarrow> (int + int) \<times> sck" where
  "sc_open nm k = (case w_fs (sc_w k) nm of
      None \<Rightarrow> (Inl ENOENT, k)
    | Some (Sock _ _) \<Rightarrow> (Inl ENXIO, k)
    | Some (File _) \<Rightarrow> (Inr (sc_next k), k\<lparr>sc_tab := (sc_tab k)(sc_next k \<mapsto> (nm, 0)), sc_next := sc_next k + 1\<rparr>))"

definition sc_content :: "sck \<Rightarrow> string \<Rightarrow> string" where
  "sc_content k nm = (case w_fs (sc_w k) nm of Some (File c) \<Rightarrow> c | _ \<Rightarrow> [])"

definition sc_read :: "int \<Rightarrow> nat \<Rightarrow> sck \<Rightarrow> (int + string) \<times> sck" where
  "sc_read fd n k = (case sc_tab k fd of
      None \<Rightarrow> (Inl EBADF, k)
    | Some (nm, pos) \<Rightarrow> let bs = take n (drop pos (sc_content k nm)) in (Inr bs, k\<lparr>sc_tab := (sc_tab k)(fd \<mapsto> (nm, pos + length bs))\<rparr>))"

definition sc_close :: "int \<Rightarrow> sck \<Rightarrow> int option \<times> sck" where
  "sc_close fd k = (if sc_tab k fd = None \<and> sc_socks k fd = None then (Some EBADF, k)
     else (None, k\<lparr>sc_tab := (sc_tab k)(fd := None), sc_socks := (sc_socks k)(fd := None)\<rparr>))"

definition set_fs :: "string \<Rightarrow> node option \<Rightarrow> sck \<Rightarrow> sck" where
  "set_fs p x k = k\<lparr>sc_w := (sc_w k)\<lparr>w_fs := (w_fs (sc_w k))(p := x)\<rparr>\<rparr>"

definition sc_remove :: "string \<Rightarrow> sck \<Rightarrow> int option \<times> sck" where
  "sc_remove p k = (if w_fs (sc_w k) p = None then (Some ENOENT, k) else (None, set_fs p None k))"

definition new_sock :: "sckt \<Rightarrow> sck \<Rightarrow> sck" where
  "new_sock x k = k\<lparr>sc_socks := (sc_socks k)(sc_next k \<mapsto> x), sc_next := sc_next k + 1\<rparr>"

definition sc_socket :: "int \<times> string \<Rightarrow> sck \<Rightarrow> (int + int) \<times> sck" where
  "sc_socket a k = (Inr (sc_next k), new_sock \<lparr>so_dgram = fst a = SOCK_DGRAM, so_addr = None, so_peer = None, so_passcred = False\<rparr> k)"

text \<open>Binding makes the name; it must be free. A datagram socket takes messages from then on, a stream socket once it listens.\<close>

definition sc_bind :: "int \<Rightarrow> int \<times> string \<Rightarrow> sck \<Rightarrow> int option \<times> sck" where
  "sc_bind fd a k = (case sc_socks k fd of
      None \<Rightarrow> (Some EBADF, k)
    | Some x \<Rightarrow> if w_fs (sc_w k) (snd a) \<noteq> None then (Some EADDRINUSE, k)
        else (None, set_fs (snd a) (Some (Sock (so_dgram x) (so_dgram x))) (k\<lparr>sc_socks := (sc_socks k)(fd \<mapsto> x\<lparr>so_addr := Some (snd a)\<rparr>)\<rparr>)))"

definition sc_listen :: "int \<Rightarrow> nat \<Rightarrow> sck \<Rightarrow> int option \<times> sck" where
  "sc_listen fd backlog k = (case sc_socks k fd of
      None \<Rightarrow> (Some EBADF, k)
    | Some x \<Rightarrow> (case so_addr x of
        None \<Rightarrow> (Some EINVAL, k)
      | Some p \<Rightarrow> if so_dgram x then (Some EINVAL, k) else (None, set_fs p (Some (Sock False True)) k)))"

definition sc_connect :: "int \<Rightarrow> int \<times> string \<Rightarrow> sck \<Rightarrow> int option \<times> sck" where
  "sc_connect fd a k = (case sc_socks k fd of
      None \<Rightarrow> (Some EBADF, k)
    | Some x \<Rightarrow> (case w_fs (sc_w k) (snd a) of
        None \<Rightarrow> (Some ENOENT, k)
      | Some (File _) \<Rightarrow> (Some ECONNREFUSED, k)
      | Some (Sock dgram live) \<Rightarrow>
          if \<not> live then (Some ECONNREFUSED, k) else if dgram \<noteq> so_dgram x then (Some EPROTOTYPE, k)
          else (None, k\<lparr>sc_socks := (sc_socks k)(fd \<mapsto> x\<lparr>so_peer := Some (snd a)\<rparr>),
            sc_w := (sc_w k)\<lparr>w_pending := (if dgram then [] else [snd a]) @ w_pending (sc_w k)\<rparr>\<rparr>)))"

text \<open>While a process waits for a connection or a datagram, the other one runs: \<open>peer\<close> is what it does to the shared state. A call that nobody would end any
  more fails with EINTR, as by a signal.\<close>

definition sc_accept :: "(wire \<Rightarrow> wire) \<Rightarrow> int \<Rightarrow> sck \<Rightarrow> (int + int \<times> int \<times> string) \<times> sck" where
  "sc_accept peer fd k = (case map_option so_addr (sc_socks k fd) of
      None \<Rightarrow> (Inl EBADF, k)
    | Some None \<Rightarrow> (Inl EINVAL, k)
    | Some (Some p) \<Rightarrow> (let w = peer (sc_w k) in
        if p \<in> set (w_pending w) then
          (Inr (sc_next k, SOCK_STREAM, []), new_sock \<lparr>so_dgram = False, so_addr = Some p, so_peer = None, so_passcred = False\<rparr>
            (k\<lparr>sc_w := w\<lparr>w_pending := remove1 p (w_pending w)\<rparr>\<rparr>))
        else (Inl EINTR, k\<lparr>sc_w := w\<rparr>)))"

definition sc_setsockopt :: "int \<Rightarrow> nat \<Rightarrow> nat \<Rightarrow> int \<Rightarrow> sck \<Rightarrow> int option \<times> sck" where
  "sc_setsockopt fd level name v k = (case sc_socks k fd of
      None \<Rightarrow> (Some EBADF, k)
    | Some x \<Rightarrow> if level = SOL_SOCKET \<and> name = SO_PASSCRED then (None, k\<lparr>sc_socks := (sc_socks k)(fd \<mapsto> x\<lparr>so_passcred := v \<noteq> 0\<rparr>)\<rparr>)
        else (Some ENOPROTOOPT, k))"

text \<open>On sending, the kernel reads the messages from the bytes, and checks the number of descriptors and the credentials. Without data a stream socket sends
  nothing. On receiving it installs new descriptors and lays out the credentials first, which it only does for a socket with SO\_PASSCRED, then the
  descriptors.\<close>

definition sc_sendmsg :: "int \<Rightarrow> string option \<Rightarrow> string \<Rightarrow> sck \<Rightarrow> (int + nat) \<times> sck" where
  "sc_sendmsg fd data ctl k = (case sc_socks k fd of
      None \<Rightarrow> (Inl EBADF, k)
    | Some x \<Rightarrow> (case so_peer x of
        None \<Rightarrow> (Inl ENOTCONN, k)
      | Some p \<Rightarrow> (case parse_msgs ctl of
          [Rights fds, Creds pid uid gid] \<Rightarrow>
            if SCM_MAX_FD < length fds then (Inl EINVAL, k)
            else if (\<exists>fd \<in> set fds. sc_tab k fd = None) then (Inl EBADF, k)
            else if \<not> sc_may k (pid, uid, gid) then (Inl EPERM, k)
            else if data = None \<and> \<not> so_dgram x then (Inr 0, k)
            else let bs = (case data of None \<Rightarrow> [] | Some bs \<Rightarrow> bs) in
              (Inr (length bs), k\<lparr>sc_w := (sc_w k)\<lparr>w_box := Some (p, so_dgram x, bs, map (\<lambda>fd. the (sc_tab k fd)) fds, pid, uid, gid)\<rparr>\<rparr>)
        | _ \<Rightarrow> (Inl EINVAL, k))))"

definition new_fds :: "int \<Rightarrow> nat \<Rightarrow> int list" where
  "new_fds base n = map (\<lambda>i. base + int i) [0..<n]"

definition deliver :: "bool \<Rightarrow> nat \<Rightarrow> nat \<Rightarrow> string \<times> (string \<times> nat) list \<times> int \<times> int \<times> int \<Rightarrow> sck \<Rightarrow> (int + string \<times> string \<times> bool) \<times> sck" where
  "deliver passcred n controllen m k = (case m of (bs, fl, pid, uid, gid) \<Rightarrow>
     (let fds = new_fds (sc_next k) (length fl);
          ctl = concat (map msg_bytes ((if passcred then [Creds pid uid gid] else []) @ [Rights fds])) in
      if controllen < length ctl then (Inr (take n bs, [], True), k)
      else (Inr (take n bs, ctl, False), k\<lparr>sc_next := sc_next k + int (length fl), sc_tab := sc_tab k ++ map_of (zip fds fl)\<rparr>)))"

definition sc_recvmsg :: "(wire \<Rightarrow> wire) \<Rightarrow> int \<Rightarrow> nat \<Rightarrow> nat \<Rightarrow> sck \<Rightarrow> (int + string \<times> string \<times> bool) \<times> sck" where
  "sc_recvmsg peer fd n controllen k = (case sc_socks k fd of
      None \<Rightarrow> (Inl EBADF, k)
    | Some x \<Rightarrow> (let w = (if so_dgram x then peer (sc_w k) else sc_w k); k' = k\<lparr>sc_w := w\<rparr> in
        case w_box w of
          None \<Rightarrow> (if so_dgram x then Inl EINTR else Inr ([], [], False), k')
        | Some (p, dgram, m) \<Rightarrow>
            if so_addr x = Some p \<and> so_dgram x = dgram then deliver (so_passcred x) n controllen m (k'\<lparr>sc_w := w\<lparr>w_box := None\<rparr>\<rparr>)
            else (if so_dgram x then Inl EINTR else Inr ([], [], False), k')))"

definition sc_net :: "(wire \<Rightarrow> wire) \<Rightarrow> (int \<times> string, sck) net_os" where
  "sc_net peer = \<lparr>n_signal = \<lambda>k. (None, k), n_getaddrinfo = \<lambda>k. (Inr [], k), n_socket = sc_socket,
     n_setsockopt = \<lambda>_ k. (Some ENOPROTOOPT, k), n_bind = sc_bind, n_connect = sc_connect, n_listen = sc_listen,
     n_accept = sc_accept peer, n_getnameinfo = \<lambda>_. None,
     n_read = sc_read, n_write = \<lambda>_ bs k. (Inr (length bs), k), n_close = sc_close\<rparr>"

definition sc_os :: "(wire \<Rightarrow> wire) \<Rightarrow> sck scm_os" where
  "sc_os peer = \<lparr>c_net = sc_net peer, c_ids = sc_self, c_malloc = \<lambda>_ k. (None, k), c_open = sc_open, c_remove = sc_remove,
     c_sendmsg = sc_sendmsg, c_recvmsg = sc_recvmsg peer, c_setsockopt = sc_setsockopt, c_system = \<lambda>_ k. (0, k), c_write = \<lambda>bs k. (Inr (length bs), k)\<rparr>"

text \<open>The sender, started with the shared state as it is, runs to its end.\<close>

definition sender_runs :: "(int \<Rightarrow> string) \<Rightarrow> string \<Rightarrow> string list \<Rightarrow> sck kproc \<Rightarrow> wire \<Rightarrow> wire" where
  "sender_runs sr argv0 args s w = (case send_main (sc_os id) sr argv0 args (s\<lparr>ker := (ker s)\<lparr>sc_w := w\<rparr>\<rparr>) of
      (r, s') \<Rightarrow> (sc_w (ker s'))\<lparr>w_ended := w_ended (sc_w (ker s')) @ [r]\<rparr>)"

lemma sc_os_simps [simp]:
  "c_net (sc_os peer) = sc_net peer" "c_ids (sc_os peer) = sc_self" "c_malloc (sc_os peer) n k = (None, k)" "c_open (sc_os peer) = sc_open"
  "c_remove (sc_os peer) = sc_remove" "c_sendmsg (sc_os peer) = sc_sendmsg" "c_recvmsg (sc_os peer) = sc_recvmsg peer"
  "c_setsockopt (sc_os peer) = sc_setsockopt" "c_write (sc_os peer) bs k = (Inr (length bs), k)"
  "n_socket (sc_net peer) = sc_socket" "n_bind (sc_net peer) = sc_bind" "n_connect (sc_net peer) = sc_connect" "n_listen (sc_net peer) = sc_listen"
  "n_accept (sc_net peer) = sc_accept peer" "n_read (sc_net peer) = sc_read" "n_close (sc_net peer) = sc_close"
  by (simp_all add: sc_os_def sc_net_def)

definition sc_unread :: "int \<Rightarrow> sck \<Rightarrow> string" where
  "sc_unread fd k = (case sc_tab k fd of None \<Rightarrow> [] | Some (nm, pos) \<Rightarrow> drop pos (sc_content k nm))"

lemma sc_content_tab [simp]: "sc_content (k\<lparr>sc_tab := t\<rparr>) = sc_content k" "sc_content (k\<lparr>sc_socks := x\<rparr>) = sc_content k"
  by (simp_all add: sc_content_def fun_eq_iff)

interpretation scr: reader "sc_read fd" "sc_unread fd" "\<lambda>_. 0" "\<lambda>k. if sc_tab k fd = None then {EBADF} else {}"
proof
  fix n k bs k' assume "sc_read fd n k = (Inr bs, k')"
  then show "length bs \<le> n \<and> sc_unread fd k = bs @ sc_unread fd k'"
    by (auto simp: sc_read_def sc_unread_def Let_def min_def split: option.splits) (metis append_take_drop_id drop_drop add.commute)
qed (auto simp: sc_read_def sc_unread_def Let_def EINTR_def EBADF_def split: option.splits if_splits)

subsection \<open>The receiver\<close>

text \<open>Reading one descriptor leaves the others as they are.\<close>

definition others :: "sck \<Rightarrow> int \<Rightarrow> sck \<Rightarrow> bool" where
  "others k0 fd k \<longleftrightarrow> sc_w k = sc_w k0 \<and> sc_tab k fd \<noteq> None \<and> (\<forall>x. x \<noteq> fd \<longrightarrow> sc_tab k x = sc_tab k0 x)"

lemma sc_read_others: "sc_read fd n k = (r, k') \<Longrightarrow> others k0 fd k \<Longrightarrow> others k0 fd k'"
  by (auto simp: sc_read_def others_def Let_def split: option.splits)

lemma others_self: "sc_tab k fd = Some x \<Longrightarrow> others k fd k"
  by (simp add: others_def)

lemma others_open: "others k0 fd k \<Longrightarrow> sc_tab k fd \<noteq> None"
  by (simp add: others_def)

lemma show_file_sc:
  assumes "sc_tab (ker s) fd = Some (nm, 0)"
  shows "\<exists>k'. show_file (sc_os peer) sr fd s = Some (Inr (), s\<lparr>stdout_out := stdout_out s @ sc_content (ker s) nm, ker := k'\<rparr>) \<and> others (ker s) fd k'"
proof -
  have "\<exists>k'. show_file (sc_os peer) sr fd s = Some (Inr (), s\<lparr>stdout_out := stdout_out s @ sc_unread fd (ker s), ker := k'\<rparr>) \<and> others (ker s) fd k' \<and> sc_unread fd k' = []"
    by (rule scr.show_file_all [where P = "others (ker s) fd"]) (use assms in \<open>auto simp: others_self intro: sc_read_others dest: others_open\<close>)
  with assms show ?thesis by (auto simp: sc_unread_def)
qed

lemma show_files_sc:
  assumes "distinct fds" "list_all2 (\<lambda>fd nm. sc_tab (ker s) fd = Some (nm, 0)) fds names"
  shows "\<exists>s'. show_files (sc_os peer) sr j fds s = Some (Inr (), s') \<and> sc_w (ker s') = sc_w (ker s) \<and>
    stdout_out s' = stdout_out s @ concat (map (sc_content (ker s)) names) \<and> stdout_buf s' = stdout_buf s @ concat (map (\<lambda>(i, fd). fd_line i fd) (enumerate j fds))"
  using assms
proof (induction fds arbitrary: names j s)
  case Nil
  then show ?case by (simp add: osteps_def)
next
  case (Cons fd fds)
  then obtain nm names' where n: "names = nm # names'" "sc_tab (ker s) fd = Some (nm, 0)" "list_all2 (\<lambda>fd nm. sc_tab (ker s) fd = Some (nm, 0)) fds names'"
    by (auto simp: list_all2_Cons1)
  let ?s1 = "printf_stdout (fd_line j fd) s"
  obtain k where k: "show_file (sc_os peer) sr fd ?s1 = Some (Inr (), ?s1\<lparr>stdout_out := stdout_out ?s1 @ sc_content (ker ?s1) nm, ker := k\<rparr>)" "others (ker ?s1) fd k"
    using show_file_sc [of ?s1 fd nm peer sr] n(2) by auto
  let ?s2 = "?s1\<lparr>stdout_out := stdout_out ?s1 @ sc_content (ker ?s1) nm, ker := k\<lparr>sc_tab := (sc_tab k)(fd := None), sc_socks := (sc_socks k)(fd := None)\<rparr>\<rparr>"
  have cl: "kcall (sc_close fd) (?s1\<lparr>stdout_out := stdout_out ?s1 @ sc_content (ker ?s1) nm, ker := k\<rparr>) = (Inr True, ?s2)"
    using k(2) by (auto simp: kcall_def sc_close_def others_def)
  have step: "show_files (sc_os peer) sr j (fd # fds) s = show_files (sc_os peer) sr (j + 1) fds ?s2"
    using k(1) cl by (simp add: obnd_def osteps_def printfM_def bnd_apply)
  have "list_all2 (\<lambda>fd nm. sc_tab (ker ?s2) fd = Some (nm, 0)) fds names'"
    by (rule list.rel_mono_strong [OF n(3)]) (use Cons.prems(1) k(2) in \<open>auto simp: others_def\<close>)
  from Cons.IH [OF _ this, of "j + 1"] Cons.prems(1) obtain s' where s': "show_files (sc_os peer) sr (j + 1) fds ?s2 = Some (Inr (), s')" "sc_w (ker s') = sc_w (ker ?s2)"
    "stdout_out s' = stdout_out ?s2 @ concat (map (sc_content (ker ?s2)) names')"
    "stdout_buf s' = stdout_buf ?s2 @ concat (map (\<lambda>(i, fd). fd_line i fd) (enumerate (j + 1) fds))" by auto
  moreover have "sc_content (ker ?s2) = sc_content (ker s)" "sc_w (ker ?s2) = sc_w (ker s)" using k(2) by (auto simp: sc_content_def others_def)
  ultimately show ?case using step n(1) by simp
qed

text \<open>What the receiver prints: the data, if there is any, the credentials, and the descriptors.\<close>

definition report :: "int option \<Rightarrow> int \<Rightarrow> int \<Rightarrow> int \<Rightarrow> int list \<Rightarrow> string" where
  "report data pid uid gid fds =
     ''recvmsg() returned '' @ (case data of None \<Rightarrow> show_int 0 @ [NL] | Some v \<Rightarrow> show_int 4 @ [NL] @ ''Received data = '' @ show_int v @ [NL]) @
     ''================================='' @ [NL] @ ''cmsg_len: '' @ show_int 28 @ [NL] @
     ''SCM_CREDENTIALS: pid='' @ show_int pid @ '', uid='' @ show_int uid @ '', gid='' @ show_int gid @ [NL] @
     ''================================='' @ [NL] @ ''cmsg_len: '' @ show_int (16 + 4 * int (length fds)) @ [NL] @
     ''SCM_RIGHTS: received '' @ show_int (int (length fds)) @ '' file descriptors'' @ [NL] @
     concat (map (\<lambda>(j, fd). ''--- ['' @ show_int (int j) @ ''] Received FD '' @ show_int fd @ [NL]) (enumerate 0 fds))"

text \<open>The same, from the lines of the program.\<close>

definition data_lines :: "string \<Rightarrow> string" where
  "data_lines bs = returned_line (length bs) @ (if bs = [] then [] else data_line (int_at bs 0))"

definition pair_lines :: "int \<Rightarrow> int \<Rightarrow> int \<Rightarrow> int list \<Rightarrow> string" where
  "pair_lines pid uid gid fds = len_line (CMSG_LEN sizeof_ucred) @ creds_line pid uid gid @
     len_line (CMSG_LEN (4 * length fds)) @ rights_line (int (length fds)) @ concat (map (\<lambda>(i, fd). fd_line i fd) (enumerate 0 fds))"

lemma report_lines:
  assumes "is_int v" "data = None \<or> data = Some v"
  shows "data_lines (case data of None \<Rightarrow> [] | Some v \<Rightarrow> int_bytes v) @ pair_lines pid uid gid fds = report data pid uid gid fds"
proof -
  have "int_at (int_bytes v) 0 = v" using int_at_bytes [of v "[]"] to_s32_u32 [OF assms(1)] by simp
  moreover have "int_bytes v \<noteq> []" using length_int_bytes [of v] by fastforce
  moreover have "int (CMSG_LEN sizeof_ucred) = 28" "int (CMSG_LEN (4 * n)) = 16 + 4 * int n" for n
    by (simp_all add: CMSG_LEN_def CMSG_HDR_def sizeof_ucred_def)
  ultimately show ?thesis using assms(2)
    by (elim disjE) (simp_all only: report_def data_lines_def pair_lines_def returned_line_def data_line_def len_line_def separator_def creds_line_def rights_line_def
        fd_line_def append_assoc option.case length_int_bytes list.size of_nat_numeral int_ops(1) if_True if_False append_Nil simp_thms)
qed

lemma new_fds_simps [simp]: "length (new_fds b n) = n" "distinct (new_fds b n)" "set (new_fds b n) = {b..<b + int n}"
proof -
  show "set (new_fds b n) = {b..<b + int n}"
  proof
    show "{b..<b + int n} \<subseteq> set (new_fds b n)"
    proof
      fix x assume "x \<in> {b..<b + int n}"
      then have "x = b + int (nat (x - b))" "nat (x - b) < n" by auto
      then show "x \<in> set (new_fds b n)" unfolding new_fds_def by (metis atLeastLessThan_iff image_eqI le0 set_map set_upt)
    qed
  qed (auto simp: new_fds_def)
qed (simp_all add: new_fds_def distinct_map inj_on_def)

lemma show_pair:
  assumes "distinct fds" "list_all2 (\<lambda>fd nm. sc_tab (ker s) fd = Some (nm, 0)) fds names"
  shows "\<exists>s'. oeach (show_msg (sc_os peer) sr) [Creds pid uid gid, Rights fds] s = Some (Inr (), s') \<and> sc_w (ker s') = sc_w (ker s) \<and>
    stdout_out s' = stdout_out s @ concat (map (sc_content (ker s)) names) \<and> stdout_buf s' = stdout_buf s @ pair_lines pid uid gid fds"
proof -
  let ?s = "printf_stdout (rights_line (int (length fds))) (printf_stdout (len_line (CMSG_LEN (4 * length fds)))
    (printf_stdout (creds_line pid uid gid) (printf_stdout (len_line (CMSG_LEN sizeof_ucred)) s)))"
  obtain s' where s': "show_files (sc_os peer) sr 0 fds ?s = Some (Inr (), s')" "sc_w (ker s') = sc_w (ker ?s)"
    "stdout_out s' = stdout_out ?s @ concat (map (sc_content (ker ?s)) names)"
    "stdout_buf s' = stdout_buf ?s @ concat (map (\<lambda>(i, fd). fd_line i fd) (enumerate 0 fds))"
    using show_files_sc [OF assms(1), of ?s names peer sr 0] assms(2) by auto
  have "oeach (show_msg (sc_os peer) sr) [Creds pid uid gid, Rights fds] s = Some (Inr (), s')"
    using s'(1) by (simp add: obnd_def osteps_def printfM_def bnd_apply kcall_def)
  with s' show ?thesis by (simp add: pair_lines_def)
qed

lemma kcall_none: "f (ker s) = (None, ker s) \<Longrightarrow> kcall f s = (Inr True, s)"
  by (cases s) (simp add: kcall_def)

lemma kcall_ok: "f (ker s) = (None, k) \<Longrightarrow> kcall f s = (Inr True, s\<lparr>ker := k\<rparr>)"
  by (simp add: kcall_def)

lemma socket_address: "unixBuildAddress (Some SOCK_PATH) = Inr SOCK_PATH"
  by (simp add: unixBuildAddress_def SOCK_PATH_def SUN_PATH_SIZE_def strncpy_def)

text \<open>A socket made and bound or connected.\<close>

lemma unix_open_sc:
  assumes "call (sc_next (ker s)) (type, SOCK_PATH) (snd (sc_socket (type, SOCK_PATH) (ker s))) = (None, k)"
  shows "unix_open (sc_net peer) call (Some SOCK_PATH) type s = (Inr (Some (sc_next (ker s))), s\<lparr>ker := k\<rparr>)"
  using socket_address assms by (simp add: unix_open_def bnd_apply kget_def sc_socket_def kcall_def)

text \<open>The kernel of the receiver when it waits for the sender, and when it is going to receive: the name is made anew, and the socket takes messages.\<close>

definition waiting :: "bool \<Rightarrow> wire \<Rightarrow> wire" where
  "waiting datagram w = w\<lparr>w_fs := (w_fs w)(SOCK_PATH \<mapsto> Sock datagram True)\<rparr>"

definition sock_of :: "bool \<Rightarrow> bool \<Rightarrow> sckt" where
  "sock_of datagram passcred = \<lparr>so_dgram = datagram, so_addr = Some SOCK_PATH, so_peer = None, so_passcred = passcred\<rparr>"


lemma remove_sc:
  "\<exists>ok s1. kcall (sc_remove SOCK_PATH) s = (Inr ok, s1) \<and> (ok \<or> errno s1 = ENOENT) \<and> ker s1 = set_fs SOCK_PATH None (ker s) \<and>
     stdout_out s1 = stdout_out s \<and> stdout_buf s1 = stdout_buf s"
proof -
  have "set_fs SOCK_PATH None (ker s) = ker s" if "w_fs (sc_w (ker s)) SOCK_PATH = None"
    using that fun_upd_triv [of "w_fs (sc_w (ker s))" SOCK_PATH] by (simp add: set_fs_def)
  then show ?thesis by (auto simp: kcall_def sc_remove_def)
qed

lemma recv_socket_sc:
  assumes "\<not> datagram \<Longrightarrow> SOCK_PATH \<in> set (w_pending (peer (waiting datagram (sc_w (ker s)))))"
  shows "\<exists>s'. recv_socket (sc_os peer) sr datagram s = (Inr (sc_next (ker s) + (if datagram then 0 else 1)), s') \<and>
     stdout_out s' = stdout_out s \<and> stdout_buf s' = stdout_buf s \<and> sc_next (ker s') = sc_next (ker s) + (if datagram then 1 else 2) \<and>
     sc_socks (ker s') (sc_next (ker s) + (if datagram then 0 else 1)) = Some (sock_of datagram False) \<and>
     sc_w (ker s') = (let w = waiting datagram (sc_w (ker s)) in if datagram then w else (peer w)\<lparr>w_pending := remove1 SOCK_PATH (w_pending (peer w))\<rparr>)"
proof -
  obtain ok s1 where s1: "kcall (sc_remove SOCK_PATH) s = (Inr ok, s1)" "ok \<or> errno s1 = ENOENT" "ker s1 = set_fs SOCK_PATH None (ker s)"
    "stdout_out s1 = stdout_out s" "stdout_buf s1 = stdout_buf s" using remove_sc by blast
  define bound where "bound = (\<lambda>d. set_fs SOCK_PATH (Some (Sock d d)) (ker s)\<lparr>sc_socks := (sc_socks (ker s))(sc_next (ker s) \<mapsto> sock_of d False),
    sc_next := sc_next (ker s) + 1\<rparr>)"
  have b: "sc_bind (sc_next (ker s1)) (if d then SOCK_DGRAM else SOCK_STREAM, SOCK_PATH) (snd (sc_socket (if d then SOCK_DGRAM else SOCK_STREAM, SOCK_PATH) (ker s1)))
      = (None, bound d)" for d
    by (simp add: sc_bind_def sc_socket_def new_sock_def set_fs_def s1(3) bound_def sock_of_def SOCK_DGRAM_def SOCK_STREAM_def)
  have ub: "unixBind (sc_net peer) (Some SOCK_PATH) (if d then SOCK_DGRAM else SOCK_STREAM) s1 = (Inr (Some (sc_next (ker s))), s1\<lparr>ker := bound d\<rparr>)" for d
    using unix_open_sc [of sc_bind s1 "if d then SOCK_DGRAM else SOCK_STREAM" "bound d" peer] b [of d] by (simp add: unixBind_def s1(3) set_fs_def)
  show ?thesis
  proof (cases datagram)
    case True
    then show ?thesis using s1 ub [of True] by (cases ok) (simp_all add: recv_socket_def bnd_apply bound_def set_fs_def waiting_def)
  next
    case False
    have l: "sc_listen (sc_next (ker s)) 5 (bound False) = (None, set_fs SOCK_PATH (Some (Sock False True)) (bound False))"
      by (simp add: sc_listen_def bound_def sock_of_def)
    have w: "sc_w (set_fs SOCK_PATH (Some (Sock False True)) (bound False)) = waiting False (sc_w (ker s))" by (simp add: bound_def set_fs_def waiting_def)
    let ?k = "set_fs SOCK_PATH (Some (Sock False True)) (bound False)" and ?w = "peer (waiting False (sc_w (ker s)))"
    have "sc_socks ?k (sc_next (ker s)) = Some (sock_of False False)" "sc_next ?k = sc_next (ker s) + 1" by (simp_all add: bound_def set_fs_def)
    then have a: "sc_accept peer (sc_next (ker s)) ?k =
        (Inr (sc_next (ker s) + 1, SOCK_STREAM, []), new_sock (sock_of False False) (?k\<lparr>sc_w := ?w\<lparr>w_pending := remove1 SOCK_PATH (w_pending ?w)\<rparr>\<rparr>))"
      using assms False w by (simp add: sc_accept_def sock_of_def Let_def)
    have ub': "unixBind (sc_net peer) (Some SOCK_PATH) SOCK_STREAM s1 = (Inr (Some (sc_next (ker s))), s1\<lparr>ker := bound False\<rparr>)" using ub [of False] by simp
    show ?thesis
      using s1(1,2,4,5) ub' kcall_ok [of "sc_listen (sc_next (ker s)) 5" "s1\<lparr>ker := bound False\<rparr>"] l a False
      by (cases ok) (simp_all add: recv_socket_def bnd_apply kget_def new_sock_def Let_def, simp_all add: bound_def set_fs_def)
  qed
qed

lemma boxed_tab:
  assumes "length fds = length names" "distinct fds"
  shows "list_all2 (\<lambda>fd nm. (t ++ map_of (zip fds (map (\<lambda>nm. (nm, 0 :: nat)) names))) fd = Some (nm, 0)) fds names"
  unfolding list_all2_conv_all_nth
proof (intro conjI allI impI)
  fix i assume i: "i < length fds"
  then have "map_of (zip fds (map (\<lambda>nm. (nm, 0 :: nat)) names)) (fds ! i) = Some (map (\<lambda>nm. (nm, 0)) names ! i)"
    using assms by (intro map_of_zip_nth) simp_all
  then show "(t ++ map_of (zip fds (map (\<lambda>nm. (nm, 0)) names))) (fds ! i) = Some (names ! i, 0)" using i assms by simp
qed (use assms in simp)

lemma recv_message_sc:
  assumes x: "sc_socks (ker s) sfd = Some (sock_of datagram True)" and w: "w = (if datagram then peer (sc_w (ker s)) else sc_w (ker s))"
    and box: "w_box w = Some (SOCK_PATH, datagram, bs, map (\<lambda>nm. (nm, 0)) names, pid, uid, gid)" "length bs = 0 \<or> length bs = 4" "length names \<le> SCM_MAX_FD"
  defines "fds \<equiv> new_fds (sc_next (ker s)) (length names)"
  shows "\<exists>s'. recv_message (sc_os peer) sr (- 1) sfd s = (Inr (concat (map msg_bytes [Creds pid uid gid, Rights fds])), s') \<and>
    stdout_out s' = stdout_out s \<and> stdout_buf s' = stdout_buf s @ data_lines bs \<and>
    sc_w (ker s') = w\<lparr>w_box := None\<rparr> \<and> list_all2 (\<lambda>fd nm. sc_tab (ker s') fd = Some (nm, 0)) fds names"
proof -
  let ?ctl = "concat (map msg_bytes [Creds pid uid gid, Rights fds])"
  have "length names \<le> 253" using box(3) by (simp add: SCM_MAX_FD_def)
  then have len: "length ?ctl \<le> CMSG_SPACE (4 * MAX_FDS) + CMSG_SPACE sizeof_ucred"
    by (simp add: length_msg_bytes fds_def CMSG_SPACE_def CMSG_HDR_def MAX_FDS_def sizeof_ucred_def CMSG_ALIGN_def)
  have d: "distinct fds" "length fds = length names" by (simp_all add: fds_def)
  let ?k = "(ker s)\<lparr>sc_w := w\<lparr>w_box := None\<rparr>, sc_next := sc_next (ker s) + int (length names),
      sc_tab := sc_tab (ker s) ++ map_of (zip fds (map (\<lambda>nm. (nm, 0)) names))\<rparr>"
  have del: "deliver True 4 (CMSG_SPACE (4 * MAX_FDS) + CMSG_SPACE sizeof_ucred) (bs, map (\<lambda>nm. (nm, 0)) names, pid, uid, gid) ((ker s)\<lparr>sc_w := w\<lparr>w_box := None\<rparr>\<rparr>) =
      (Inr (bs, ?ctl, False), ?k)"
    using len box(2) unfolding deliver_def by (auto simp: Let_def fds_def)
  have rcv: "sc_recvmsg peer sfd 4 (CMSG_SPACE (4 * MAX_FDS) + CMSG_SPACE sizeof_ucred) (ker s) = (Inr (bs, ?ctl, False), ?k)"
    using x w [symmetric] box(1) del by (cases datagram) (simp_all add: sc_recvmsg_def sock_of_def)
  have bs: "bs \<noteq> [] \<Longrightarrow> \<not> length bs < 4" using box(2) by auto
  show ?thesis
    using len bs boxed_tab [OF d(2,1)] rcv unfolding recv_message_def Let_def sc_os_simps
    by (auto simp: bnd_apply kget_def printfM_def whenM_def data_lines_def simp del: length_concat list.map concat.simps)
qed

lemma recv_main_sc:
  assumes opts: "recv_opts argv0 (fst (getopt ''dn:'' args)) (False, - 1) = (ret (datagram, - 1) :: (sck kproc, bool \<times> int) prog)"
    and w: "w = peer (waiting datagram (sc_w (ker r)))" "\<not> datagram \<Longrightarrow> SOCK_PATH \<in> set (w_pending w)"
    and box: "w_box w = Some (SOCK_PATH, datagram, bs, map (\<lambda>nm. (nm, 0)) names, pid, uid, gid)" "length bs = 0 \<or> length bs = 4" "length names \<le> SCM_MAX_FD"
    and "fits (Creds pid uid gid)" "INT_MIN \<le> sc_next (ker r)" "sc_next (ker r) + 2 + int (length names) \<le> INT_MAX"
    and files: "\<forall>f \<in> set names. w_fs w f = Some (File (content f))"
  defines "base \<equiv> sc_next (ker r) + (if datagram then 1 else 2)"
  shows "\<exists>r'. recv_main (sc_os peer) sr argv0 args r = Some (Inl (Exit EXIT_SUCCESS), r') \<and> w_ended (sc_w (ker r')) = w_ended w \<and>
    stdout_out r' = stdout_out r @ concat (map content names) @ stdout_buf r @ data_lines bs @ pair_lines pid uid gid (new_fds base (length names))"
proof -
  let ?fds = "new_fds base (length names)" and ?ms = "[Creds pid uid gid, Rights (new_fds base (length names))]"
    and ?sfd = "sc_next (ker r) + (if datagram then 0 else 1)"
  obtain r1 where r1: "recv_socket (sc_os peer) sr datagram r = (Inr ?sfd, r1)" "stdout_out r1 = stdout_out r" "stdout_buf r1 = stdout_buf r"
    "sc_next (ker r1) = base" "sc_socks (ker r1) ?sfd = Some (sock_of datagram False)"
    "sc_w (ker r1) = (if datagram then waiting datagram (sc_w (ker r)) else w\<lparr>w_pending := remove1 SOCK_PATH (w_pending w)\<rparr>)"
    using recv_socket_sc [of datagram peer r sr] w by (auto simp: base_def Let_def)
  let ?r1 = "r1\<lparr>ker := (ker r1)\<lparr>sc_socks := (sc_socks (ker r1))(?sfd \<mapsto> sock_of datagram True)\<rparr>\<rparr>"
  have opt: "kcall (sc_setsockopt ?sfd SOL_SOCKET SO_PASSCRED 1) r1 = (Inr True, ?r1)"
    using r1(5) by (simp add: kcall_def sc_setsockopt_def sock_of_def)
  let ?w = "if datagram then w else w\<lparr>w_pending := remove1 SOCK_PATH (w_pending w)\<rparr>"
  have "?w = (if datagram then peer (sc_w (ker ?r1)) else sc_w (ker ?r1))" using r1(6) w(1) by simp
  moreover have "w_box ?w = w_box w" by simp
  ultimately obtain r2 where r2: "recv_message (sc_os peer) sr (- 1) ?sfd ?r1 = (Inr (concat (map msg_bytes ?ms)), r2)"
    "stdout_out r2 = stdout_out r" "stdout_buf r2 = stdout_buf r @ data_lines bs"
    "sc_w (ker r2) = ?w\<lparr>w_box := None\<rparr>" "list_all2 (\<lambda>fd nm. sc_tab (ker r2) fd = Some (nm, 0)) ?fds names"
    using recv_message_sc [of ?r1 ?sfd datagram ?w peer bs names pid uid gid sr] box r1(2-4) by auto
  have "fits m" if "m \<in> set ?ms" for m using that assms(7-9) box(3) by (auto simp: base_def is_int_def SCM_MAX_FD_def const_defs split: if_splits)
  then have ctl: "show_control (sc_os peer) sr (concat (map msg_bytes ?ms)) = oeach (show_msg (sc_os peer) sr) ?ms" by (intro show_control_messages) blast
  obtain r3 where r3: "oeach (show_msg (sc_os peer) sr) ?ms r2 = Some (Inr (), r3)" "sc_w (ker r3) = sc_w (ker r2)"
    "stdout_out r3 = stdout_out r2 @ concat (map (sc_content (ker r2)) names)" "stdout_buf r3 = stdout_buf r2 @ pair_lines pid uid gid ?fds"
    using show_pair [OF new_fds_simps(2) r2(5)] by blast
  have "sc_content (ker r2) f = content f" if "f \<in> set names" for f using files that r2(4) by (simp add: sc_content_def)
  then have c: "map (sc_content (ker r2)) names = map content names" by simp
  have "recv_main (sc_os peer) sr argv0 args r = Some (exit3 EXIT_SUCCESS r3)"
    using opts r1(1) opt r2(1) r3(1) ctl unfolding recv_main_def obnd_steps
    by (simp add: bnd_apply kcall_none obnd_def osteps_def del: oeach.simps list.map concat.simps)
  then show ?thesis using r3(2-) r2(2-4) unfolding c by (simp add: exit3_def)
qed

subsection \<open>The sender\<close>

lemma open_files_sc:
  assumes "\<forall>f \<in> set files. w_fs (sc_w (ker s)) f = Some (File (content f))"
  shows "\<exists>s'. open_files (sc_os peer) sr files s = (Inr (new_fds (sc_next (ker s)) (length files)), s') \<and>
    list_all2 (\<lambda>fd nm. sc_tab (ker s') fd = Some (nm, 0)) (new_fds (sc_next (ker s)) (length files)) files \<and>
    (\<forall>fd < sc_next (ker s). sc_tab (ker s') fd = sc_tab (ker s) fd) \<and>
    sc_may (ker s') = sc_may (ker s) \<and> sc_w (ker s') = sc_w (ker s)"
  using assms
proof (induction files arbitrary: s)
  case (Cons f files)
  let ?s1 = "s\<lparr>ker := (ker s)\<lparr>sc_tab := (sc_tab (ker s))(sc_next (ker s) \<mapsto> (f, 0)), sc_next := sc_next (ker s) + 1\<rparr>\<rparr>"
  have op: "kget (sc_open f) s = (Inr (Some (sc_next (ker s))), ?s1)" using Cons.prems by (auto simp: kget_def sc_open_def)
  have new: "new_fds (sc_next (ker s)) (Suc n) = sc_next (ker s) # new_fds (sc_next (ker s) + 1) n" for n
    by (simp add: new_fds_def upt_conv_Cons map_Suc_upt [symmetric] del: upt_Suc)
  from Cons.IH [of ?s1] Cons.prems obtain s' where s': "open_files (sc_os peer) sr files ?s1 = (Inr (new_fds (sc_next (ker s) + 1) (length files)), s')"
    "list_all2 (\<lambda>fd nm. sc_tab (ker s') fd = Some (nm, 0)) (new_fds (sc_next (ker s) + 1) (length files)) files"
    "\<forall>fd < sc_next (ker s) + 1. sc_tab (ker s') fd = sc_tab (ker ?s1) fd" "sc_may (ker s') = sc_may (ker s)" "sc_w (ker s') = sc_w (ker s)" by auto
  moreover have "open_files (sc_os peer) sr (f # files) s = (Inr (new_fds (sc_next (ker s)) (length (f # files))), s')"
    using op s'(1) by (simp add: bnd_apply new)
  ultimately show ?case by (auto simp: new)
qed (simp add: new_fds_def)

text \<open>The shared state after the sender: its connection, and the message.\<close>

definition sent :: "send_cfg \<Rightarrow> string list \<Rightarrow> wire \<Rightarrow> wire" where
  "sent cfg files w = w\<lparr>w_pending := (if useDatagramSocket cfg then [] else [SOCK_PATH]) @ w_pending w,
     w_box := Some (SOCK_PATH, useDatagramSocket cfg, if sendData cfg then int_bytes 12345 else [], map (\<lambda>nm. (nm, 0)) files,
       send_pid cfg, send_uid cfg, send_gid cfg)\<rparr>"

lemma connect_sc:
  assumes "w_fs (sc_w (ker s)) SOCK_PATH = Some (Sock d True)"
  shows "unixConnect (sc_net peer) (Some SOCK_PATH) (if d then SOCK_DGRAM else SOCK_STREAM) s = (Inr (Some (sc_next (ker s))),
    s\<lparr>ker := (ker s)\<lparr>sc_socks := (sc_socks (ker s))(sc_next (ker s) \<mapsto> \<lparr>so_dgram = d, so_addr = None, so_peer = Some SOCK_PATH, so_passcred = False\<rparr>),
      sc_next := sc_next (ker s) + 1, sc_w := (sc_w (ker s))\<lparr>w_pending := (if d then [] else [SOCK_PATH]) @ w_pending (sc_w (ker s))\<rparr>\<rparr>\<rparr>)"
  unfolding unixConnect_def sc_os_simps
  by (rule unix_open_sc) (use assms in \<open>simp add: sc_connect_def sc_socket_def new_sock_def SOCK_DGRAM_def SOCK_STREAM_def\<close>)

lemma send_main_sc:
  assumes args: "getopt ''dnp:u:g:'' args = (os, files)" "files \<noteq> []" "length files \<le> SCM_MAX_FD"
    and opts: "sc_self (ker s) = (pid, uid, gid)"
      "send_opts argv0 os \<lparr>useDatagramSocket = False, sendData = True, send_pid = pid, send_uid = uid, send_gid = gid\<rparr> = (ret cfg :: (sck kproc, send_cfg) prog)"
    and files: "\<forall>f \<in> set files. w_fs (sc_w (ker s)) f = Some (File (content f))" "w_fs (sc_w (ker s)) SOCK_PATH = Some (Sock (useDatagramSocket cfg) True)"
    and ids: "fits (Creds (send_pid cfg) (send_uid cfg) (send_gid cfg))" "sc_may (ker s) (send_pid cfg, send_uid cfg, send_gid cfg)"
    and nx: "INT_MIN \<le> sc_next (ker s)" "sc_next (ker s) + int (length files) \<le> INT_MAX"
    and data: "sendData cfg \<or> useDatagramSocket cfg"
  shows "\<exists>s'. send_main (sc_os peer) sr argv0 args s = (Inl (Exit EXIT_SUCCESS), s') \<and> sc_w (ker s') = sent cfg files (sc_w (ker s))"
proof -
  let ?n = "length files" and ?fds = "new_fds (sc_next (ker s)) (length files)" and ?d = "useDatagramSocket cfg"
    and ?c = "Creds (send_pid cfg) (send_uid cfg) (send_gid cfg)" and ?s1 = "printf_stdout (sent_line 1 (CMSG_LEN (4 * length files))) s"
  obtain s2 where s2: "open_files (sc_os peer) sr files ?s1 = (Inr ?fds, s2)" "list_all2 (\<lambda>fd nm. sc_tab (ker s2) fd = Some (nm, 0)) ?fds files"
    "sc_may (ker s2) = sc_may (ker s)" "sc_w (ker s2) = sc_w (ker s)" using open_files_sc [of files ?s1 content peer sr] files(1) by auto
  have fds: "\<forall>fd \<in> set ?fds. is_int fd" using nx by (auto simp: is_int_def)
  have n: "int ?n \<le> INT_MAX" using args(3) by (simp add: SCM_MAX_FD_def const_defs)
  have fill: "fill_control (sc_os peer) sr files cfg (replicate (CMSG_SPACE (4 * ?n) + CMSG_SPACE sizeof_ucred) NUL) s =
    (Inr (msg_bytes (Rights ?fds) @ msg_bytes ?c), printf_stdout (sent_line 2 (CMSG_LEN sizeof_ucred)) s2)"
    by (rule fill_control_messages [OF n fds _ s2(1)]) (simp add: kcall_none)
  have parse: "parse_msgs (msg_bytes (Rights ?fds) @ msg_bytes ?c) = [Rights ?fds, ?c]"
    using parse_messages [of "[Rights ?fds, ?c]"] ids(1) fds n by simp
  have tab: "map (\<lambda>fd. the (sc_tab (ker s2) fd)) ?fds = map (\<lambda>nm. (nm, 0)) files" "\<not> (\<exists>fd \<in> set ?fds. sc_tab (ker s2) fd = None)"
    using s2(2) by (auto simp: list_all2_conv_all_nth in_set_conv_nth intro!: nth_equalityI simp del: new_fds_simps(3))
  let ?s2 = "printf_stdout (sent_line 2 (CMSG_LEN sizeof_ucred)) s2"
  obtain s3 where conn: "unixConnect (sc_net peer) (Some SOCK_PATH) (if ?d then SOCK_DGRAM else SOCK_STREAM) ?s2 = (Inr (Some (sc_next (ker s2))), s3)"
    and s3: "sc_tab (ker s3) = sc_tab (ker s2)" "sc_may (ker s3) = sc_may (ker s)"
      "sc_w (ker s3) = (sc_w (ker s))\<lparr>w_pending := (if ?d then [] else [SOCK_PATH]) @ w_pending (sc_w (ker s))\<rparr>"
      "sc_socks (ker s3) (sc_next (ker s2)) = Some \<lparr>so_dgram = ?d, so_addr = None, so_peer = Some SOCK_PATH, so_passcred = False\<rparr>"
    using connect_sc [of ?s2 ?d peer] files(2) s2(3,4) by auto
  have "\<not> SCM_MAX_FD < length ?fds" using args(3) by simp
  then obtain m k where snd: "sc_sendmsg (sc_next (ker s2)) (if sendData cfg then Some (int_bytes 12345) else None) (msg_bytes (Rights ?fds) @ msg_bytes ?c) (ker s3) = (Inr m, k)"
    "sc_w k = sent cfg files (sc_w (ker s))"
    unfolding sc_sendmsg_def parse s3 list.case scm_msg.case option.case sckt.select_convs if_not_P [OF tab(2)] tab(1)
    using ids(2) data by (cases "sendData cfg") (simp_all add: sent_def)
  show ?thesis
    using args(1,2) opts fill conn snd unfolding send_main_def
    by (auto simp: bnd_apply Let_def kcall_none kget_def printfM_def exit3_def simp del: send_opt.simps)
qed

section \<open>Properties\<close>

text \<open>C39. Whatever messages a kernel lays out in the buffer (any number of them, in any order, with any numbers that fit their C types), the walk of the receiver
  over the bytes does exactly what a walk over the messages would do: it reads each message as it was written, finds them all and stops after the last; in
  particular it never reads past the buffer.\<close>
theorem scm_walk_messages:
  assumes "\<forall>m \<in> set ms. fits m"
  shows "show_control K sr (concat (map msg_bytes ms)) = oeach (show_msg K sr) ms"
  using assms by (rule show_control_messages)

theorem scm_walk_messages_witness:
  "show_control (sc_os id) (\<lambda>_. []) (concat (map msg_bytes [Creds 7 0 0, Rights [3, 4, 5]])) = oeach (show_msg (sc_os id) (\<lambda>_. [])) [Creds 7 0 0, Rights [3, 4, 5]]"
  by (rule scm_walk_messages) (simp add: is_int_def is_uid_def const_defs)


definition sample_sck :: sck where
  "sample_sck = \<lparr>sc_w = \<lparr>w_fs = [''a'' \<mapsto> File ''one'', ''b'' \<mapsto> File ''two'', ''scm_multi'' \<mapsto> Sock False False], w_pending = [], w_box = None, w_ended = []\<rparr>,
     sc_tab = \<lambda>_. None, sc_socks = \<lambda>_. None, sc_next = 3, sc_self = (42, 1000, 1000), sc_may = \<lambda>c. c = (42, 1000, 1000)\<rparr>"

definition sample_scproc :: "sck kproc" where
  "sample_scproc = \<lparr>stdout_buf = [], stdout_out = [], stderr_out = [], errno = 0, ef_dumpcore = None, stdio_errno = None, ker = sample_sck\<rparr>"


end
