(* ===== verification/Pdeath.thy ===== *)
theory Pdeath
  imports Runs CLib "HOL-Library.Multiset"
begin

text \<open>
  \<^verbatim>\<open>tlpi-book/procexec/pdeath_signal.c\<close>: a chain of ancestor processes, each with several threads, as its arguments describe them, and a last child. Processes and
  threads run at any speed, so the program is a step relation; how long a thread has been told to sleep is recorded when it wakes. The printed lines are left out; so is what the last child does, which is to wait
  for signals of the kernel. \<^verbatim>\<open>strtok\<close> is modelled by the list of its results.
\<close>

section \<open>Model\<close>

function strtok_all :: "string \<Rightarrow> string list" where
  "strtok_all s = (let s1 = dropWhile (\<lambda>c. c = CHR '':'') s in
     if s1 = [] then [] else takeWhile (\<lambda>c. c \<noteq> CHR '':'') s1 # strtok_all (dropWhile (\<lambda>c. c \<noteq> CHR '':'') s1))"
  by pat_completeness auto

termination
proof (relation "measure length")
  fix s s1 :: string assume s1: "s1 = dropWhile (\<lambda>c. c = CHR '':'') s" "s1 \<noteq> []"
  then have "hd s1 \<noteq> CHR '':''" using hd_dropWhile [of "\<lambda>c. c = CHR '':''" s] by auto
  with s1(2) have "length (dropWhile (\<lambda>c. c \<noteq> CHR '':'') s1) < length s1" by (cases s1) (auto simp: length_dropWhile_le le_imp_less_Suc)
  also have "\<dots> \<le> length s" by (simp add: s1(1) length_dropWhile_le)
  finally show "(dropWhile (\<lambda>c. c \<noteq> CHR '':'') s1, s) \<in> measure length" by simp
qed simp

declare strtok_all.simps [simp del]

record threadParam =
  sleepTime :: int
  tp_argv :: "string list"
  threadNum :: nat
  createNextChild :: bool

text \<open>A thread is the initial one, which still reads its argument; or it starts its steps, sleeps, or has ended. The initial thread is the first of the list.\<close>

datatype tstate = TInit | TReady | TSleep | TEnd

datatype ppc = PParsing | PStarted | PFailed | PUndef

record pproc =
  p_left :: "string list"
  p_argv :: "string list"
  nextParentMarked :: bool
  p_thr :: "(threadParam \<times> tstate) list"
  p_subreaper :: bool
  p_slept :: "(nat \<times> int) list"
  p_pc :: ppc

record pd_st =
  procs :: "pproc list"
  pd_children :: nat

definition starts_plus :: "string \<Rightarrow> bool" where
  "starts_plus tok \<longleftrightarrow> tok \<noteq> [] \<and> hd tok = CHR ''+''"

definition thread_param :: "string list \<Rightarrow> nat \<Rightarrow> string \<Rightarrow> threadParam" where
  "thread_param argv tnum tok = \<lparr>sleepTime = atoi (if starts_plus tok then tl tok else tok), tp_argv = argv, threadNum = tnum, createNextChild = starts_plus tok\<rparr>"

text \<open>One pass of the loop over the tokens, and its end; without a token \<^verbatim>\<open>tparamInit\<close> is read uninitialised.\<close>

definition createThreads :: "pproc \<Rightarrow> pproc" where
  "createThreads p = (case p_left p of
      [] \<Rightarrow> (case p_thr p of
          [] \<Rightarrow> p\<lparr>p_pc := PUndef\<rparr>
        | (par, _) # thr \<Rightarrow>
            p\<lparr>p_thr := (if nextParentMarked p then par else par\<lparr>createNextChild := True\<rparr>, TReady) # thr, p_pc := PStarted\<rparr>)
    | tok # toks \<Rightarrow>
        if starts_plus tok \<and> nextParentMarked p then p\<lparr>p_pc := PFailed\<rparr>
        else p\<lparr>p_left := toks, nextParentMarked := nextParentMarked p \<or> starts_plus tok,
          p_thr := p_thr p @ [(thread_param (p_argv p) (length (p_thr p)) tok, if p_thr p = [] then TInit else TReady)]\<rparr>)"

definition at_sign :: "string \<Rightarrow> bool" where
  "at_sign arg \<longleftrightarrow> arg \<noteq> [] \<and> hd arg = CHR ''@''"

definition arg_tokens :: "string \<Rightarrow> string list" where
  "arg_tokens arg = strtok_all (if at_sign arg then tl arg else arg)"

text \<open>The new process of \<^verbatim>\<open>createAncestor(argv)\<close>.\<close>

definition createAncestor :: "string list \<Rightarrow> pproc" where
  "createAncestor argv = \<lparr>p_left = arg_tokens (hd argv), p_argv = tl argv, nextParentMarked = False, p_thr = [], p_subreaper = at_sign (hd argv), p_slept = [], p_pc = PParsing\<rparr>"

text \<open>Thread \<open>i\<close> of process \<open>k\<close>: it creates the next process, if it is the one that does, then it sleeps, then it ends. \<^verbatim>\<open>sleep\<close> takes an unsigned
  number.\<close>

definition performPerThreadSteps :: "nat \<Rightarrow> nat \<Rightarrow> pd_st \<Rightarrow> pd_st option" where
  "performPerThreadSteps k i s =
     (let p = procs s ! k; (par, st) = p_thr p ! i;
          next_state = (\<lambda>st'. s\<lparr>procs := (procs s)[k := p\<lparr>p_thr := (p_thr p)[i := (par, st')]\<rparr>]\<rparr>) in
      case st of
        TInit \<Rightarrow> None
      | TReady \<Rightarrow> Some (if \<not> createNextChild par then next_state TSleep
          else if tp_argv par \<noteq> [] then (next_state TSleep)\<lparr>procs := procs (next_state TSleep) @ [createAncestor (tp_argv par)]\<rparr>
          else (next_state TSleep)\<lparr>pd_children := pd_children s + 1\<rparr>)
      | TSleep \<Rightarrow> Some (s\<lparr>procs := (procs s)[k := p\<lparr>p_thr := (p_thr p)[i := (par, TEnd)],
          p_slept := p_slept p @ [(threadNum par, to_u32 (sleepTime par))]\<rparr>]\<rparr>)
      | TEnd \<Rightarrow> None)"

definition alive :: "pproc \<Rightarrow> bool" where
  "alive p \<longleftrightarrow> p_pc p = PParsing \<or> p_pc p = PStarted"

inductive pd_step :: "pd_st \<Rightarrow> pd_st \<Rightarrow> bool" where
  parse: "k < length (procs s) \<Longrightarrow> p_pc (procs s ! k) = PParsing \<Longrightarrow> pd_step s (s\<lparr>procs := (procs s)[k := createThreads (procs s ! k)]\<rparr>)"
| thread: "k < length (procs s) \<Longrightarrow> alive (procs s ! k) \<Longrightarrow> i < length (p_thr (procs s ! k)) \<Longrightarrow> performPerThreadSteps k i s = Some t \<Longrightarrow> pd_step s t"

text \<open>With failing calls, which end their process.\<close>

inductive pd_xstep :: "pd_st \<Rightarrow> pd_st \<Rightarrow> bool" where
  regular: "pd_step s t \<Longrightarrow> pd_xstep s t"
| fails: "k < length (procs s) \<Longrightarrow> alive (procs s ! k) \<Longrightarrow> pd_xstep s (s\<lparr>procs := (procs s)[k := (procs s ! k)\<lparr>p_pc := PFailed\<rparr>]\<rparr>)"

text \<open>\<^verbatim>\<open>main\<close> creates the first ancestor, or the child if there is none.\<close>

definition pd_start :: "string list \<Rightarrow> pd_st" where
  "pd_start args = (if args = [] then \<lparr>procs = [], pd_children = 1\<rparr> else \<lparr>procs = [createAncestor args], pd_children = 0\<rparr>)"

section \<open>Invariant\<close>

definition creators :: "pproc \<Rightarrow> nat" where
  "creators p = sum_list (map (\<lambda>(par, st). if createNextChild par then 1 else 0) (p_thr p))"

definition forks :: "pproc \<Rightarrow> nat" where
  "forks p = sum_list (map (\<lambda>(par, st). if createNextChild par \<and> (st = TSleep \<or> st = TEnd) then 1 else 0) (p_thr p))"

definition same_but_flag :: "threadParam \<Rightarrow> threadParam \<Rightarrow> bool" where
  "same_but_flag a b \<longleftrightarrow> a\<lparr>createNextChild := False\<rparr> = b\<lparr>createNextChild := False\<rparr>"

definition proc_inv :: "string list \<Rightarrow> nat \<Rightarrow> pproc \<Rightarrow> bool" where
  "proc_inv args k p \<longleftrightarrow>
     p_argv p = drop (Suc k) args \<and> p_left p = drop (length (p_thr p)) (arg_tokens (args ! k)) \<and> length (p_thr p) \<le> length (arg_tokens (args ! k)) \<and>
     p_subreaper p = at_sign (args ! k) \<and>
     nextParentMarked p = (\<exists>t \<in> set (take (length (p_thr p)) (arg_tokens (args ! k))). starts_plus t) \<and>
     (\<forall>i < length (p_thr p). same_but_flag (fst (p_thr p ! i)) (thread_param (p_argv p) i (arg_tokens (args ! k) ! i))) \<and>
     creators p \<le> 1 \<and> (p_pc p = PParsing \<longrightarrow> creators p = of_bool (nextParentMarked p)) \<and>
     (p_pc p = PStarted \<longrightarrow> creators p = 1 \<and> p_left p = [] \<and> TInit \<notin> snd ` set (p_thr p)) \<and>
     TInit \<notin> snd ` set (tl (p_thr p)) \<and> (p_pc p = PParsing \<longrightarrow> p_thr p \<noteq> [] \<longrightarrow> snd (hd (p_thr p)) = TInit)"

definition pd_inv :: "string list \<Rightarrow> pd_st \<Rightarrow> bool" where
  "pd_inv args s \<longleftrightarrow> length (procs s) \<le> length args \<and> (args \<noteq> [] \<longrightarrow> procs s \<noteq> []) \<and> (args = [] \<longrightarrow> pd_children s = 1) \<and>
     (0 < pd_children s \<longrightarrow> length (procs s) = length args) \<and>
     (\<forall>k < length (procs s). proc_inv args k (procs s ! k) \<and>
        forks (procs s ! k) = (if Suc k < length (procs s) then 1 else if Suc k = length args then pd_children s else 0))"

lemma createAncestor_inv: "k < length args \<Longrightarrow> proc_inv args k (createAncestor (drop k args)) \<and> forks (createAncestor (drop k args)) = 0"
  by (simp add: proc_inv_def createAncestor_def forks_def creators_def hd_drop_conv_nth drop_Suc tl_drop)

lemma pd_start_inv: "pd_inv args (pd_start args)"
  using createAncestor_inv [of 0 args] by (auto simp: pd_inv_def pd_start_def Suc_le_eq)

lemma pc_inv:
  assumes "proc_inv args k p" "c = PFailed \<or> c = PUndef"
  shows "proc_inv args k (p\<lparr>p_pc := c\<rparr>) \<and> forks (p\<lparr>p_pc := c\<rparr>) = forks p"
proof -
  have "creators (p\<lparr>p_pc := c\<rparr>) = creators p" "forks (p\<lparr>p_pc := c\<rparr>) = forks p" by (simp_all add: creators_def forks_def)
  with assms show ?thesis by (auto simp: proc_inv_def)
qed

text \<open>Reading the argument.\<close>

lemma parse_end_inv:
  assumes "proc_inv args k p" "p_pc p = PParsing" "p_left p = []"
  shows "proc_inv args k (createThreads p) \<and> forks (createThreads p) = forks p"
proof (cases "p_thr p")
  case Nil
  with assms(3) have ct: "createThreads p = p\<lparr>p_pc := PUndef\<rparr>" by (simp add: createThreads_def)
  show ?thesis unfolding ct using pc_inv [OF assms(1)] by simp
next
  case (Cons x thr)
  obtain par st where x: "x = (par, st)" by (cases x)
  let ?par = "if nextParentMarked p then par else par\<lparr>createNextChild := True\<rparr>"
  have ct: "createThreads p = p\<lparr>p_thr := (?par, TReady) # thr, p_pc := PStarted\<rparr>" using assms(3) Cons x by (simp add: createThreads_def)
  have st: "st = TInit" and c: "creators p = of_bool (nextParentMarked p)" using assms(1,2) Cons x by (auto simp: proc_inv_def)
  have "same_but_flag ?par par" by (simp add: same_but_flag_def)
  then have par: "same_but_flag ?par q" if "same_but_flag par q" for q using that by (simp add: same_but_flag_def)
  define S where "S = sum_list (map (\<lambda>(par, st). if createNextChild par then 1 else 0 :: nat) thr)"
  have "creators p = of_bool (createNextChild par) + S" "creators (createThreads p) = of_bool (createNextChild ?par) + S"
    by (simp_all add: ct creators_def Cons x S_def)
  then have "creators (createThreads p) = 1" using c by (cases "nextParentMarked p") auto
  moreover have "forks (createThreads p) = forks p" by (simp add: ct forks_def Cons x st)
  moreover have "\<forall>i < length (p_thr p). same_but_flag (fst (((?par, TReady) # thr) ! i)) (thread_param (p_argv p) i (arg_tokens (args ! k) ! i))"
    using assms(1) par Cons x by (auto simp: proc_inv_def nth_Cons split: nat.splits)
  ultimately show ?thesis using assms Cons x by (auto simp: proc_inv_def ct)
qed

lemma parse_token_inv:
  assumes "proc_inv args k p" "p_pc p = PParsing" "p_left p = tok # toks"
  shows "proc_inv args k (createThreads p) \<and> forks (createThreads p) = forks p"
proof (cases "starts_plus tok \<and> nextParentMarked p")
  case True
  with assms(3) have ct: "createThreads p = p\<lparr>p_pc := PFailed\<rparr>" by (simp add: createThreads_def)
  show ?thesis unfolding ct using pc_inv [OF assms(1)] by simp
next
  case False
  let ?n = "length (p_thr p)" and ?T = "arg_tokens (args ! k)"
  have T: "?n < length ?T" "?T ! ?n = tok" "toks = drop (Suc ?n) ?T" "take (Suc ?n) ?T = take ?n ?T @ [tok]"
  proof -
    have d: "drop ?n ?T = tok # toks" using assms(1,3) by (simp add: proc_inv_def)
    then show "?n < length ?T" by (metis drop_all list.discI not_less)
    with d show "?T ! ?n = tok" "toks = drop (Suc ?n) ?T" by (metis Cons_nth_drop_Suc list.inject)+
    with \<open>?n < length ?T\<close> show "take (Suc ?n) ?T = take ?n ?T @ [tok]" by (simp add: take_Suc_conv_app_nth)
  qed
  let ?th = "(thread_param (p_argv p) ?n tok, if p_thr p = [] then TInit else TReady)"
  have ct: "createThreads p = p\<lparr>p_left := toks, nextParentMarked := nextParentMarked p \<or> starts_plus tok, p_thr := p_thr p @ [?th]\<rparr>"
    using False assms(3) by (auto simp: createThreads_def)
  have "creators (createThreads p) = of_bool (nextParentMarked p \<or> starts_plus tok)"
    using False assms(1,2) by (auto simp: ct creators_def thread_param_def proc_inv_def)
  moreover have "forks (createThreads p) = forks p" by (simp add: ct forks_def)
  moreover have "\<forall>i < Suc ?n. same_but_flag (fst ((p_thr p @ [?th]) ! i)) (thread_param (p_argv p) i (?T ! i))"
    using assms(1) T(2) by (auto simp: proc_inv_def nth_append less_Suc_eq same_but_flag_def)
  moreover have "TInit \<notin> snd ` set (tl (p_thr p @ [?th]))" "snd (hd (p_thr p @ [?th])) = TInit"
    using assms(1,2) by (cases "p_thr p"; auto simp: proc_inv_def)+
  moreover have "(nextParentMarked p \<or> starts_plus tok) = (\<exists>t \<in> set (take (Suc ?n) ?T). starts_plus t)" using assms(1) T(4) by (auto simp: proc_inv_def)
  ultimately show ?thesis using assms(1,2) T(1,3) by (simp add: proc_inv_def ct)
qed

lemma parse_inv: "proc_inv args k p \<Longrightarrow> p_pc p = PParsing \<Longrightarrow> proc_inv args k (createThreads p) \<and> forks (createThreads p) = forks p"
  by (cases "p_left p") (auto dest: parse_end_inv parse_token_inv)

text \<open>A step of a thread.\<close>

lemma thread_update_inv:
  assumes "proc_inv args k p" "i < length (p_thr p)" "p_thr p ! i = (par, st)" "st \<noteq> TInit" "st' \<noteq> TInit"
  shows "proc_inv args k (p\<lparr>p_thr := (p_thr p)[i := (par, st')]\<rparr>)"
proof -
  have "creators (p\<lparr>p_thr := (p_thr p)[i := (par, st')]\<rparr>) = creators p"
    using sum_map_update_nat [OF assms(2), of "\<lambda>(par, st). if createNextChild par then 1 else 0" "(par, st')"] assms(3) by (simp add: creators_def)
  moreover have "\<forall>j < length (p_thr p). fst ((p_thr p)[i := (par, st')] ! j) = fst (p_thr p ! j)" using assms(2,3) by (auto simp: nth_list_update)
  moreover have "TInit \<notin> snd ` set (p_thr p) \<Longrightarrow> TInit \<notin> snd ` set ((p_thr p)[i := (par, st')])"
    using assms(5) set_update_subset_insert [of "p_thr p" i "(par, st')"] by auto
  moreover have "TInit \<notin> snd ` set (tl (p_thr p)) \<Longrightarrow> TInit \<notin> snd ` set (tl ((p_thr p)[i := (par, st')]))"
    using assms(2,5) set_update_subset_insert [of "tl (p_thr p)" "i - 1" "(par, st')"] by (cases "p_thr p"; cases i) auto
  moreover have "p_pc p = PParsing \<Longrightarrow> snd (hd ((p_thr p)[i := (par, st')])) = TInit"
    using assms by (cases "p_thr p"; cases i) (auto simp: proc_inv_def)
  ultimately show ?thesis using assms(1) by (auto simp: proc_inv_def)
qed

lemma forks_le_creators: "forks p \<le> creators p"
  unfolding forks_def creators_def by (rule sum_list_mono) auto

lemma forks_update:
  assumes "i < length (p_thr p)" "p_thr p ! i = (par, st)"
  shows "forks (p\<lparr>p_thr := (p_thr p)[i := (par, st')]\<rparr>) + of_bool (createNextChild par \<and> (st = TSleep \<or> st = TEnd)) =
    forks p + of_bool (createNextChild par \<and> (st' = TSleep \<or> st' = TEnd))"
  using sum_map_update_nat [OF assms(1), of "\<lambda>(par, st). if createNextChild par \<and> (st = TSleep \<or> st = TEnd) then 1 else 0" "(par, st')"] assms(2)
  by (simp add: forks_def of_bool_def)

text \<open>What thread \<open>par\<close> adds to the times when it goes on from \<open>st\<close>.\<close>

definition wakes :: "threadParam \<Rightarrow> tstate \<Rightarrow> (nat \<times> int) list" where
  "wakes par st = (if st = TSleep then [(threadNum par, to_u32 (sleepTime par))] else [])"

lemma perThread_cases:
  assumes "performPerThreadSteps k i s = Some t"
  obtains (plain) par st st' where "p_thr (procs s ! k) ! i = (par, st)" "(st, st') = (TReady, TSleep) \<and> \<not> createNextChild par \<or> (st, st') = (TSleep, TEnd)"
      "t = s\<lparr>procs := (procs s)[k := (procs s ! k)\<lparr>p_thr := (p_thr (procs s ! k))[i := (par, st')], p_slept := p_slept (procs s ! k) @ wakes par st\<rparr>]\<rparr>"
  | (ancestor) par where "p_thr (procs s ! k) ! i = (par, TReady)" "createNextChild par" "tp_argv par \<noteq> []"
      "t = s\<lparr>procs := (procs s)[k := (procs s ! k)\<lparr>p_thr := (p_thr (procs s ! k))[i := (par, TSleep)]\<rparr>] @ [createAncestor (tp_argv par)]\<rparr>"
  | (child) par where "p_thr (procs s ! k) ! i = (par, TReady)" "createNextChild par" "tp_argv par = []"
      "t = s\<lparr>procs := (procs s)[k := (procs s ! k)\<lparr>p_thr := (p_thr (procs s ! k))[i := (par, TSleep)]\<rparr>], pd_children := pd_children s + 1\<rparr>"
proof -
  obtain par st where p: "p_thr (procs s ! k) ! i = (par, st)" by fastforce
  show ?thesis
  proof (cases st)
    case TReady
    with p assms plain [of par st TSleep] ancestor [of par] child [of par] show ?thesis
      by (auto simp: performPerThreadSteps_def Let_def wakes_def split: if_splits)
  next
    case TSleep
    with p assms plain [of par st TEnd] show ?thesis by (simp add: performPerThreadSteps_def Let_def wakes_def)
  qed (use p assms in \<open>simp_all add: performPerThreadSteps_def Let_def\<close>)
qed

lemma slept_upd [simp]:
  "proc_inv args k (p\<lparr>p_slept := l\<rparr>) = proc_inv args k p" "forks (p\<lparr>p_slept := l\<rparr>) = forks p" "alive (p\<lparr>p_slept := l\<rparr>) = alive p"
  by (simp_all add: proc_inv_def forks_def creators_def alive_def)

lemma proc_update_inv:
  assumes "pd_inv args s" "k < length (procs s)" "proc_inv args k p'" "forks p' = forks (procs s ! k)"
  shows "pd_inv args (s\<lparr>procs := (procs s)[k := p']\<rparr>)"
  using assms by (auto simp: pd_inv_def nth_list_update)

text \<open>The thread that creates the next process belongs to the last process, and it is the first time.\<close>

lemma creating_thread:
  assumes "pd_inv args s" "k < length (procs s)" "i < length (p_thr (procs s ! k))" "p_thr (procs s ! k) ! i = (par, TReady)" "createNextChild par"
  defines "p' \<equiv> (procs s ! k)\<lparr>p_thr := (p_thr (procs s ! k))[i := (par, TSleep)]\<rparr>"
  shows "tp_argv par = drop (Suc k) args" "length (procs s) = Suc k" "forks (procs s ! k) = 0" "forks p' = 1" "proc_inv args k p'" "Suc k = length args \<Longrightarrow> pd_children s = 0"
proof -
  have inv: "proc_inv args k (procs s ! k)" and f: "forks (procs s ! k) = (if Suc k < length (procs s) then 1 else if Suc k = length args then pd_children s else 0)"
    using assms(1,2) by (auto simp: pd_inv_def)
  show p': "proc_inv args k p'" unfolding p'_def by (rule thread_update_inv [OF inv assms(3,4)]) simp_all
  have "same_but_flag par (thread_param (p_argv (procs s ! k)) i (arg_tokens (args ! k) ! i))" using inv assms(3,4) by (fastforce simp: proc_inv_def)
  then have "tp_argv (par\<lparr>createNextChild := False\<rparr>) = p_argv (procs s ! k)" unfolding same_but_flag_def by (simp add: thread_param_def)
  with inv show "tp_argv par = drop (Suc k) args" by (simp add: proc_inv_def)
  have "forks p' = forks (procs s ! k) + 1" using forks_update [OF assms(3,4), of TSleep] assms(5) by (simp add: p'_def)
  moreover have "forks p' \<le> 1" using forks_le_creators [of p'] p' by (simp add: proc_inv_def)
  ultimately show z: "forks (procs s ! k) = 0" "forks p' = 1" by auto
  with f assms(2) show "length (procs s) = Suc k" "Suc k = length args \<Longrightarrow> pd_children s = 0" by (auto split: if_splits)
qed

lemma thread_step_inv:
  assumes "pd_inv args s" "k < length (procs s)" "i < length (p_thr (procs s ! k))" "performPerThreadSteps k i s = Some t"
  shows "pd_inv args t"
  using assms(4)
proof (cases rule: perThread_cases)
  case (plain par st st')
  have inv: "proc_inv args k (procs s ! k)" using assms(1,2) by (simp add: pd_inv_def)
  show ?thesis unfolding plain(3)
  proof (rule proc_update_inv [OF assms(1,2)])
    have "proc_inv args k ((procs s ! k)\<lparr>p_thr := (p_thr (procs s ! k))[i := (par, st')]\<rparr>)"
      by (rule thread_update_inv [OF inv assms(3) plain(1)]) (use plain(2) in auto)
    then show "proc_inv args k ((procs s ! k)\<lparr>p_thr := (p_thr (procs s ! k))[i := (par, st')], p_slept := p_slept (procs s ! k) @ wakes par st\<rparr>)" by simp
    show "forks ((procs s ! k)\<lparr>p_thr := (p_thr (procs s ! k))[i := (par, st')], p_slept := p_slept (procs s ! k) @ wakes par st\<rparr>) = forks (procs s ! k)"
      using forks_update [OF assms(3) plain(1), of st'] plain(2) by auto
  qed
next
  case (ancestor par)
  note c = creating_thread [OF assms(1-3) ancestor(1,2)]
  have n: "Suc k < length args" using c(1) ancestor(3) by simp
  with assms(1) c(2) have "pd_children s = 0" by (auto simp: pd_inv_def)
  moreover have "\<forall>j < k. proc_inv args j (procs s ! j) \<and> forks (procs s ! j) = 1" using assms(1) c(2) by (auto simp: pd_inv_def)
  ultimately show ?thesis using c(2,4,5) n createAncestor_inv [OF n] by (auto simp: pd_inv_def ancestor(4) c(1) nth_append nth_list_update less_Suc_eq)
next
  case (child par)
  note c = creating_thread [OF assms(1-3) child(1,2)]
  have n: "Suc k = length args" using c(1,2) child(3) assms(1,2) by (simp add: pd_inv_def)
  have "\<forall>j < k. proc_inv args j (procs s ! j) \<and> forks (procs s ! j) = 1" using assms(1) c(2) by (auto simp: pd_inv_def)
  then show ?thesis using c(2,4-6) n [symmetric] by (auto simp: pd_inv_def child(4) nth_list_update less_Suc_eq)
qed

lemma pd_parse_inv:
  assumes "pd_inv args s" "k < length (procs s)" "p_pc (procs s ! k) = PParsing"
  shows "pd_inv args (s\<lparr>procs := (procs s)[k := createThreads (procs s ! k)]\<rparr>)"
  using proc_update_inv [OF assms(1,2)] parse_inv [of args k "procs s ! k"] assms by (simp add: pd_inv_def)

lemma pd_fail_inv:
  assumes "pd_inv args s" "k < length (procs s)"
  shows "pd_inv args (s\<lparr>procs := (procs s)[k := (procs s ! k)\<lparr>p_pc := PFailed\<rparr>]\<rparr>)"
  using proc_update_inv [OF assms] pc_inv [of args k "procs s ! k" PFailed] assms by (simp add: pd_inv_def)

lemma pd_step_inv:
  assumes "pd_inv args s" "pd_step s t"
  shows "pd_inv args t"
  using assms(2,1) by cases (auto intro: thread_step_inv pd_parse_inv)

interpretation pdx: invariant_system pd_xstep "pd_inv args"
proof
  fix s t assume "pd_inv args s" "pd_xstep s t"
  then show "pd_inv args t" by (auto elim!: pd_xstep.cases intro: pd_step_inv pd_fail_inv)
qed

section \<open>Completion\<close>

definition good_arg :: "string \<Rightarrow> bool" where
  "good_arg a \<longleftrightarrow> arg_tokens a \<noteq> [] \<and> length (filter starts_plus (arg_tokens a)) \<le> 1"

definition pd_good :: "string list \<Rightarrow> pd_st \<Rightarrow> bool" where
  "pd_good args s \<longleftrightarrow> pd_inv args s \<and> (\<forall>p \<in> set (procs s). alive p)"

lemma parse_good:
  assumes "proc_inv args k p" "p_pc p = PParsing" "good_arg (args ! k)"
  shows "alive (createThreads p)"
proof (cases "p_left p")
  case Nil
  then have "p_thr p \<noteq> []" using assms(1,3) by (auto simp: proc_inv_def good_arg_def)
  then show ?thesis using Nil by (auto simp: createThreads_def alive_def neq_Nil_conv)
next
  case (Cons tok toks)
  let ?T = "arg_tokens (args ! k)" and ?n = "length (p_thr p)"
  have T: "?T = take ?n ?T @ tok # toks" using Cons assms(1) by (simp add: proc_inv_def)
  have "\<not> (starts_plus tok \<and> nextParentMarked p)"
  proof
    assume a: "starts_plus tok \<and> nextParentMarked p"
    with assms(1) have "filter starts_plus (take ?n ?T) \<noteq> []" by (auto simp: proc_inv_def filter_empty_conv)
    then have "1 < length (filter starts_plus (take ?n ?T @ tok # toks))" using a by simp
    with T assms(3) show False by (metis good_arg_def not_less)
  qed
  then show ?thesis using Cons assms(2) by (auto simp: createThreads_def alive_def)
qed

lemma alive_update: "alive (p\<lparr>p_thr := x\<rparr>) = alive p" "alive (p\<lparr>p_thr := x, p_slept := l\<rparr>) = alive p" "alive (createAncestor argv)"
  by (simp_all add: alive_def createAncestor_def)

lemma pd_good_step:
  assumes "\<forall>a \<in> set args. good_arg a" "pd_good args s" "pd_step s t"
  shows "pd_good args t"
proof -
  have inv: "pd_inv args s" "\<And>p. p \<in> set (procs s) \<Longrightarrow> alive p" using assms(2) by (auto simp: pd_good_def)
  have "alive p" if "p \<in> set (procs t)" for p
    using assms(3)
  proof cases
    case (parse k)
    have "alive (createThreads (procs s ! k))"
      by (rule parse_good [of args k]) (use inv(1) assms(1) parse in \<open>auto simp: pd_inv_def\<close>)
    then show ?thesis using that inv(2) set_update_subset_insert [of "procs s" k "createThreads (procs s ! k)"] parse(1) by auto
  next
    case (thread k i)
    have "p \<in> set (procs s) \<or> p = createAncestor (drop (Suc k) args) \<or> (\<exists>x. p = (procs s ! k)\<lparr>p_thr := x\<rparr>) \<or> (\<exists>x l. p = (procs s ! k)\<lparr>p_thr := x, p_slept := l\<rparr>)"
      using thread(4)
    proof (cases rule: perThread_cases)
      case (ancestor par)
      then show ?thesis using that creating_thread(1) [OF inv(1) thread(1,3) ancestor(1,2)] set_update_subset_insert [of "procs s" k] by fastforce
    qed (use that set_update_subset_insert [of "procs s" k] in fastforce)+
    then show ?thesis using inv(2) thread(2) alive_update by metis
  qed
  then show ?thesis using pd_step_inv [OF inv(1) assms(3)] by (simp add: pd_good_def)
qed

fun tstate_rank :: "tstate \<Rightarrow> nat" where
  "tstate_rank TInit = 2"
| "tstate_rank TReady = 2"
| "tstate_rank TSleep = 1"
| "tstate_rank TEnd = 0"

definition proc_cost :: "pproc \<Rightarrow> nat" where
  "proc_cost p = 4 * length (p_left p) + of_bool (p_pc p = PParsing) + sum_list (map (\<lambda>x. tstate_rank (snd x)) (p_thr p))"

definition arg_cost :: "string \<Rightarrow> nat" where
  "arg_cost a = 4 * length (arg_tokens a) + 1"

definition pd_effort :: "string list \<Rightarrow> pd_st \<Rightarrow> nat" where
  "pd_effort args s = sum_list (map proc_cost (procs s)) + sum_list (map arg_cost (drop (length (procs s)) args))"

lemma parse_cost:
  assumes "proc_inv args k p" "p_pc p = PParsing"
  shows "proc_cost (createThreads p) < proc_cost p"
proof -
  have "p_thr p \<noteq> [] \<Longrightarrow> snd (hd (p_thr p)) = TInit" using assms by (simp add: proc_inv_def)
  with assms(2) show ?thesis by (cases "p_left p"; cases "p_thr p") (auto simp: createThreads_def proc_cost_def)
qed

lemma effort_update:
  assumes "k < length (procs s)" "proc_cost p' < proc_cost (procs s ! k)" "procs t = (procs s)[k := p']"
  shows "pd_effort args t < pd_effort args s"
  using sum_map_update_nat [OF assms(1), of proc_cost p'] assms(2,3) by (simp add: pd_effort_def)

lemma slept_cost [simp]: "proc_cost (p\<lparr>p_slept := l\<rparr>) = proc_cost p"
  by (simp add: proc_cost_def)

lemma thread_cost:
  assumes "i < length (p_thr p)" "p_thr p ! i = (par, st)" "tstate_rank st = Suc (tstate_rank st')"
  shows "Suc (proc_cost (p\<lparr>p_thr := (p_thr p)[i := (par, st')]\<rparr>)) = proc_cost p"
  using sum_map_update_nat [OF assms(1), of "\<lambda>x. tstate_rank (snd x)" "(par, st')"] assms(2,3) by (simp add: proc_cost_def)

lemma pd_step_effort:
  assumes "pd_inv args s" "pd_step s t"
  shows "pd_effort args t < pd_effort args s"
  using assms(2)
proof cases
  case (parse k)
  have "proc_cost (createThreads (procs s ! k)) < proc_cost (procs s ! k)" using parse_cost [of args k] parse assms(1) by (simp add: pd_inv_def)
  with parse show ?thesis by (intro effort_update) auto
next
  case (thread k i)
  from thread(4) show ?thesis
  proof (cases rule: perThread_cases)
    case (plain par st st')
    with thread_cost [OF thread(3) plain(1), of st'] show ?thesis by (intro effort_update [OF thread(1)]) auto
  next
    case (child par)
    with thread_cost [OF thread(3) child(1), of TSleep] show ?thesis by (intro effort_update [OF thread(1)]) auto
  next
    case (ancestor par)
    note c = creating_thread [OF assms(1) thread(1,3) ancestor(1,2)]
    have n: "Suc k < length args" using c(1) ancestor(3) by simp
    let ?p = "(procs s ! k)\<lparr>p_thr := (p_thr (procs s ! k))[i := (par, TSleep)]\<rparr>" and ?later = "sum_list (map arg_cost (drop (Suc (Suc k)) args))"
    have new: "proc_cost (createAncestor (drop (Suc k) args)) = arg_cost (args ! Suc k)"
      using n by (simp add: proc_cost_def createAncestor_def arg_cost_def hd_drop_conv_nth)
    have "pd_effort args t = sum_list (map proc_cost ((procs s)[k := ?p])) + arg_cost (args ! Suc k) + ?later"
      unfolding pd_effort_def ancestor(4) c(1) by (simp add: new c(2) del: map_update)
    moreover have "pd_effort args s = sum_list (map proc_cost (procs s)) + arg_cost (args ! Suc k) + ?later"
      using Cons_nth_drop_Suc [OF n, symmetric] by (simp add: pd_effort_def c(2))
    ultimately show ?thesis using thread_cost [OF thread(3) ancestor(1), of TSleep] sum_map_update_nat [OF thread(1), of proc_cost ?p] by simp
  qed
qed

definition pd_final :: "string list \<Rightarrow> pd_st \<Rightarrow> bool" where
  "pd_final args s \<longleftrightarrow> length (procs s) = length args \<and> pd_children s = 1 \<and>
     (\<forall>p \<in> set (procs s). p_pc p = PStarted \<and> (\<forall>x \<in> set (p_thr p). snd x = TEnd))"

lemma pd_inv_proc: "pd_inv args s \<Longrightarrow> k < length (procs s) \<Longrightarrow> proc_inv args k (procs s ! k)"
  by (simp add: pd_inv_def)

lemma started_inv:
  assumes "proc_inv args k p" "p_pc p = PStarted"
  shows "creators p = 1" "x \<in> set (p_thr p) \<Longrightarrow> snd x \<noteq> TInit"
  using assms by (simp_all add: proc_inv_def) (metis image_eqI)

lemma pd_progress:
  assumes "pd_good args s" "\<nexists>t. pd_step s t"
  shows "pd_final args s"
proof -
  have inv: "pd_inv args s" "\<And>p. p \<in> set (procs s) \<Longrightarrow> alive p" using assms(1) by (auto simp: pd_good_def)
  have started: "p_pc (procs s ! k) = PStarted" if "k < length (procs s)" for k
    using that inv(2) [of "procs s ! k"] assms(2) pd_step.parse [OF that] by (auto simp: alive_def)
  have ended: "snd x = TEnd" if kx: "k < length (procs s)" "x \<in> set (p_thr (procs s ! k))" for k x
  proof -
    obtain i where i: "i < length (p_thr (procs s ! k))" "p_thr (procs s ! k) ! i = x" using kx(2) by (auto simp: in_set_conv_nth)
    have "performPerThreadSteps k i s = None" using pd_step.thread [OF kx(1) _ i(1)] inv(2) [of "procs s ! k"] kx(1) assms(2) by fastforce
    moreover have "snd x \<noteq> TInit" using started_inv(2) [OF pd_inv_proc [OF inv(1) kx(1)] started [OF kx(1)] kx(2)] .
    ultimately show ?thesis using i by (cases x; cases "snd x") (auto simp: performPerThreadSteps_def Let_def)
  qed
  have forked: "forks (procs s ! k) = 1" if "k < length (procs s)" for k
  proof -
    have "forks (procs s ! k) = creators (procs s ! k)"
      unfolding forks_def creators_def by (intro arg_cong [of _ _ sum_list] map_cong) (use ended [OF that] in force)+
    with started_inv(1) [OF pd_inv_proc [OF inv(1) that] started [OF that]] show ?thesis by simp
  qed
  have "length (procs s) = length args \<and> pd_children s = 1"
  proof (cases "procs s")
    case Nil
    with inv(1) show ?thesis by (auto simp: pd_inv_def)
  next
    case (Cons p ps)
    then show ?thesis using forked [of "length ps"] inv(1) by (auto simp: pd_inv_def split: if_splits)
  qed
  with started ended show ?thesis unfolding pd_final_def by (metis in_set_conv_nth)
qed

lemma pd_good_start: "pd_good args (pd_start args)"
  using pd_start_inv by (auto simp: pd_good_def pd_start_def alive_update)

interpretation pd: completing_system pd_step "\<lambda>s. pd_good args s \<and> (\<forall>a \<in> set args. good_arg a)" "pd_effort args" "pd_final args"
proof
  fix s t assume s: "pd_good args s \<and> (\<forall>a \<in> set args. good_arg a)" "pd_step s t"
  then show "pd_good args t \<and> (\<forall>a \<in> set args. good_arg a)" using pd_good_step by blast
  show "pd_effort args t < pd_effort args s" using s pd_step_effort by (simp add: pd_good_def)
next
  fix s assume "pd_good args s \<and> (\<forall>a \<in> set args. good_arg a)" "\<not> pd_final args s"
  then show "\<exists>t. pd_step s t" using pd_progress by blast
qed

section \<open>The times\<close>

text \<open>A process has recorded the times of the threads that have ended, each once.\<close>

definition thread_slept :: "threadParam \<times> tstate \<Rightarrow> nat \<times> int" where
  "thread_slept x = (threadNum (fst x), to_u32 (sleepTime (fst x)))"

definition slept_ok :: "pproc \<Rightarrow> bool" where
  "slept_ok p \<longleftrightarrow> mset (p_slept p) = mset (map thread_slept (filter (\<lambda>x. snd x = TEnd) (p_thr p)))"

lemma mset_filter_upd:
  assumes "i < length xs"
  shows "mset (map f (filter P (xs[i := x]))) + (if P (xs ! i) then {#f (xs ! i)#} else {#}) = mset (map f (filter P xs)) + (if P x then {#f x#} else {#})"
proof -
  have "xs = take i xs @ xs ! i # drop (Suc i) xs" by (rule id_take_nth_drop [OF assms])
  then have "mset (map f (filter P xs)) = mset (map f (filter P (take i xs @ xs ! i # drop (Suc i) xs)))" by simp
  then show ?thesis unfolding upd_conv_take_nth_drop [OF assms] by simp
qed

lemma slept_parse:
  assumes "proc_inv args k p" "p_pc p = PParsing" "slept_ok p"
  shows "slept_ok (createThreads p)"
proof -
  have "p_thr p \<noteq> [] \<Longrightarrow> snd (hd (p_thr p)) = TInit" using assms(1,2) by (simp add: proc_inv_def)
  with assms(3) show ?thesis by (cases "p_left p"; cases "p_thr p") (auto simp: createThreads_def slept_ok_def)
qed

lemma slept_thread:
  assumes "slept_ok p" "i < length (p_thr p)" "p_thr p ! i = (par, st)" "(st, st') = (TReady, TSleep) \<or> (st, st') = (TSleep, TEnd)"
  shows "slept_ok (p\<lparr>p_thr := (p_thr p)[i := (par, st')], p_slept := p_slept p @ wakes par st\<rparr>)"
  using mset_filter_upd [OF assms(2), of thread_slept "\<lambda>x. snd x = TEnd" "(par, st')"] assms
  by (auto simp: slept_ok_def wakes_def thread_slept_def)

lemma slept_step:
  assumes "pd_inv args s" "\<forall>p \<in> set (procs s). slept_ok p" "pd_step s t"
  shows "\<forall>p \<in> set (procs t). slept_ok p"
  using assms(3)
proof cases
  case (parse k)
  have "slept_ok (createThreads (procs s ! k))" using slept_parse [OF pd_inv_proc [OF assms(1)]] parse assms(2) by simp
  then show ?thesis using parse assms(2) set_update_subset_insert [of "procs s" k] by fastforce
next
  case (thread k i)
  have p: "slept_ok (procs s ! k)" using assms(2) thread(1) by simp
  have upd: "\<forall>q \<in> set ((procs s)[k := p']). slept_ok q" if "slept_ok p'" for p' using that assms(2) set_update_subset_insert [of "procs s" k p'] by blast
  have ready: "slept_ok ((procs s ! k)\<lparr>p_thr := (p_thr (procs s ! k))[i := (par, TSleep)]\<rparr>)" if "p_thr (procs s ! k) ! i = (par, TReady)" for par
    using slept_thread [OF p thread(3) that, of TSleep] by (simp add: wakes_def slept_ok_def)
  from thread(4) show ?thesis
  proof (cases rule: perThread_cases)
    case (plain par st st')
    with upd [OF slept_thread [OF p thread(3) plain(1), of st']] show ?thesis by auto
  next
    case (ancestor par)
    with upd [OF ready] show ?thesis by (auto simp: createAncestor_def slept_ok_def)
  next
    case (child par)
    with upd [OF ready] show ?thesis by auto
  qed
qed

lemma slept_run: "pd_step\<^sup>*\<^sup>* (pd_start args) s \<Longrightarrow> pd_inv args s \<and> (\<forall>p \<in> set (procs s). slept_ok p)"
proof (induction rule: rtranclp_induct)
  case base
  have "\<forall>p \<in> set (procs (pd_start args)). slept_ok p" by (simp add: pd_start_def createAncestor_def slept_ok_def)
  with pd_start_inv show ?case by blast
next
  case (step s t)
  then show ?case using slept_step pd_step_inv by blast
qed

definition token_time :: "string \<Rightarrow> int" where
  "token_time tok = atoi (if starts_plus tok then tl tok else tok)"

lemma thread_times:
  assumes "proc_inv args k p" "p_pc p = PStarted"
  shows "map thread_slept (p_thr p) = enumerate 0 (map (\<lambda>tok. to_u32 (token_time tok)) (arg_tokens (args ! k)))"
proof (rule nth_equalityI)
  show l: "length (map thread_slept (p_thr p)) = length (enumerate 0 (map (\<lambda>tok. to_u32 (token_time tok)) (arg_tokens (args ! k))))" using assms by (auto simp: proc_inv_def)
  fix i assume i: "i < length (map thread_slept (p_thr p))"
  with assms l have "same_but_flag (fst (p_thr p ! i)) (thread_param (p_argv p) i (arg_tokens (args ! k) ! i))" by (auto simp: proc_inv_def)
  then have "sleepTime ((fst (p_thr p ! i))\<lparr>createNextChild := False\<rparr>) = token_time (arg_tokens (args ! k) ! i)"
    "threadNum ((fst (p_thr p ! i))\<lparr>createNextChild := False\<rparr>) = i"
    unfolding same_but_flag_def by (simp_all add: thread_param_def token_time_def)
  with l i show "map thread_slept (p_thr p) ! i = enumerate 0 (map (\<lambda>tok. to_u32 (token_time tok)) (arg_tokens (args ! k))) ! i"
    by (simp add: thread_slept_def nth_enumerate_eq)
qed

lemma final_slept:
  assumes "pd_inv args s" "\<forall>p \<in> set (procs s). slept_ok p" "pd_final args s" "k < length args"
  shows "mset (p_slept (procs s ! k)) = mset (enumerate 0 (map (\<lambda>tok. to_u32 (token_time tok)) (arg_tokens (args ! k))))"
    "p_subreaper (procs s ! k) = at_sign (args ! k)"
proof -
  have k: "k < length (procs s)" "procs s ! k \<in> set (procs s)" using assms(3,4) by (auto simp: pd_final_def)
  with assms(3) have fin: "p_pc (procs s ! k) = PStarted" "\<forall>x \<in> set (p_thr (procs s ! k)). snd x = TEnd" by (auto simp: pd_final_def)
  then have "filter (\<lambda>x. snd x = TEnd) (p_thr (procs s ! k)) = p_thr (procs s ! k)" by simp
  with assms(2) k have "mset (p_slept (procs s ! k)) = mset (map thread_slept (p_thr (procs s ! k)))" unfolding slept_ok_def by metis
  then show "mset (p_slept (procs s ! k)) = mset (enumerate 0 (map (\<lambda>tok. to_u32 (token_time tok)) (arg_tokens (args ! k))))"
    unfolding thread_times [OF pd_inv_proc [OF assms(1) k(1)] fin(1)] .
  show "p_subreaper (procs s ! k) = at_sign (args ! k)" using pd_inv_proc [OF assms(1) k(1)] by (simp add: proc_inv_def)
qed

section \<open>The documented arguments\<close>

text \<open>An argument as the usage text describes it: an at sign or not, and integers with a plus sign or not, separated by colons.\<close>

type_synonym ancestor_arg = "bool \<times> (bool \<times> int) list"

definition show_token :: "bool \<times> int \<Rightarrow> string" where
  "show_token x = (if fst x then ''+'' else []) @ show_int (snd x)"

fun show_tokens :: "(bool \<times> int) list \<Rightarrow> string" where
  "show_tokens [] = []"
| "show_tokens [x] = show_token x"
| "show_tokens (x # xs) = show_token x @ '':'' @ show_tokens xs"

definition show_arg :: "ancestor_arg \<Rightarrow> string" where
  "show_arg a = (if fst a then ''@'' else []) @ show_tokens (snd a)"

text \<open>At least one integer, at most one plus sign, and integers in the range of \<^verbatim>\<open>int\<close>.\<close>

definition arg_ok :: "ancestor_arg \<Rightarrow> bool" where
  "arg_ok a \<longleftrightarrow> snd a \<noteq> [] \<and> length (filter fst (snd a)) \<le> 1 \<and> (\<forall>x \<in> set (snd a). - (2 ^ 31) \<le> snd x \<and> snd x < 2 ^ 31)"

lemma token_chars:
  "show_token x \<noteq> []" "CHR '':'' \<notin> set (show_token x)" "hd (show_token x) \<noteq> CHR '':''" "hd (show_token x) \<noteq> CHR ''@''" "starts_plus (show_token x) = fst x"
proof -
  show n: "show_token x \<noteq> []" by (simp add: show_token_def)
  show c: "CHR '':'' \<notin> set (show_token x)" using show_int_no_sep by (auto simp: show_token_def)
  with n show "hd (show_token x) \<noteq> CHR '':''" by (metis hd_in_set)
  have nd: "\<not> is_digit 10 (CHR ''@'')" "\<not> is_digit 10 (CHR ''+'')" by code_simp+
  have "digit_char d \<noteq> CHR ''@'' \<and> digit_char d \<noteq> CHR ''+''" if "d < 10" for d
  proof -
    have "is_digit 10 (digit_char d)" using that by simp
    with nd show ?thesis by metis
  qed
  then have h: "c \<noteq> CHR ''@'' \<and> c \<noteq> CHR ''+''" if "c \<in> set (show_int v)" for c v using show_int_chars [OF that] by auto
  have "hd (show_int (snd x)) \<noteq> CHR ''@'' \<and> hd (show_int (snd x)) \<noteq> CHR ''+''" by (rule h [of _ "snd x"]) simp
  then show "hd (show_token x) \<noteq> CHR ''@''" "starts_plus (show_token x) = fst x" by (auto simp: show_token_def starts_plus_def)
qed

lemma strtok_colon: "strtok_all (CHR '':'' # s) = strtok_all s"
  by (simp add: strtok_all.simps [of "CHR '':'' # s"] strtok_all.simps [of s])

lemma strtok_tokens: "strtok_all (show_tokens ts) = map show_token ts"
proof (induction ts rule: show_tokens.induct)
  case 1
  then show ?case by (simp add: strtok_all.simps)
next
  case (2 x)
  have "dropWhile (\<lambda>c. c = CHR '':'') (show_token x) = show_token x" using token_chars(1,3) [of x] by (cases "show_token x") auto
  moreover have "\<forall>c \<in> set (show_token x). c \<noteq> CHR '':''" using token_chars(2) [of x] by auto
  ultimately show ?case using token_chars(1) [of x] strtok_all.simps [of "[]"] by (simp add: strtok_all.simps [of "show_token x"] takeWhile_eq_all_conv [THEN iffD2] dropWhile_eq_Nil_conv [THEN iffD2])
next
  case (3 x y xs)
  let ?r = "show_tokens (y # xs)"
  have ne: "show_token x \<noteq> []" and all: "\<forall>c \<in> set (show_token x). c \<noteq> CHR '':''" using token_chars(1,2) [of x] by auto
  have "dropWhile (\<lambda>c. c = CHR '':'') (show_token x @ CHR '':'' # ?r) = show_token x @ CHR '':'' # ?r"
    using token_chars(1,3) [of x] by (cases "show_token x") auto
  moreover have "takeWhile (\<lambda>c. c \<noteq> CHR '':'') (show_token x @ CHR '':'' # ?r) = show_token x"
    "dropWhile (\<lambda>c. c \<noteq> CHR '':'') (show_token x @ CHR '':'' # ?r) = CHR '':'' # ?r"
    using all by (simp_all add: takeWhile_append2 dropWhile_append2)
  ultimately show ?case using ne 3 strtok_colon [of ?r] by (simp add: strtok_all.simps [of "show_token x @ CHR '':'' # ?r"])
qed

lemma arg_tokens_show: "snd a \<noteq> [] \<Longrightarrow> arg_tokens (show_arg a) = map show_token (snd a) \<and> at_sign (show_arg a) = fst a"
proof -
  assume "snd a \<noteq> []"
  then have "show_tokens (snd a) \<noteq> [] \<and> hd (show_tokens (snd a)) \<noteq> CHR ''@''"
    using token_chars(1,4) by (cases "snd a" rule: show_tokens.cases) (simp_all add: hd_append2)
  then show ?thesis using strtok_tokens [of "snd a"] by (simp add: arg_tokens_def at_sign_def show_arg_def)
qed

lemma arg_ok_good: "arg_ok a \<Longrightarrow> good_arg (show_arg a)"
proof -
  assume a: "arg_ok a"
  have "filter starts_plus (map show_token ts) = map show_token (filter fst ts)" for ts by (induction ts) (auto simp: token_chars(5))
  with a arg_tokens_show [of a] show ?thesis by (simp add: good_arg_def arg_ok_def)
qed

lemma token_time_show: "- (2 ^ 31) \<le> snd x \<Longrightarrow> snd x < 2 ^ 31 \<Longrightarrow> token_time (show_token x) = snd x"
  using atoi_show_int [of "snd x" "[]"] token_chars(5) [of x] by (simp add: token_time_def show_token_def const_defs)

section \<open>Properties\<close>

text \<open>In every interleaving, whatever the arguments are and whichever calls fail, the processes form a chain: the \<open>k\<close>-th process is the one for the \<open>k\<close>-th argument and has the
  later arguments before it, there are never more processes than arguments, and at most one last child, which exists only when all ancestors have been created.\<close>
theorem pdeath_chain:
  assumes "pd_xstep\<^sup>*\<^sup>* (pd_start args) s"
  shows "length (procs s) \<le> length args \<and> pd_children s \<le> 1 \<and> (pd_children s = 1 \<longrightarrow> length (procs s) = length args) \<and>
    (\<forall>k < length (procs s). p_argv (procs s ! k) = drop (Suc k) args \<and> p_subreaper (procs s ! k) = at_sign (args ! k) \<and> forks (procs s ! k) \<le> 1)"
proof -
  have inv: "pd_inv args s" by (rule pdx.run_inv [OF assms pd_start_inv])
  have f: "forks (procs s ! k) \<le> 1" if "k < length (procs s)" for k
    using pd_inv_proc [OF inv that] forks_le_creators [of "procs s ! k"] by (simp add: proc_inv_def)
  have "pd_children s \<le> 1"
  proof (cases "procs s = [] \<or> pd_children s = 0")
    case False
    then show ?thesis using inv f [of "length args - 1"] by (fastforce simp: pd_inv_def)
  qed (use inv in \<open>auto simp: pd_inv_def\<close>)
  with inv f show ?thesis by (auto simp: pd_inv_def proc_inv_def)
qed

text \<open>C40. When every argument has the documented form (an at sign or not, then one or more integers separated by colons, at most one of them with a plus sign), every run
  without failing calls ends, in a bounded number of steps, with exactly one process for each argument and exactly one last child. Process \<open>k\<close> is a subreaper just if
  argument \<open>k\<close> has the at sign; it has one thread for each integer, all of them have ended, and thread \<open>i\<close> has slept exactly once, for the \<open>i\<close>-th integer of seconds (as
  an unsigned number).\<close>
theorem pdeath_completes:
  assumes "\<forall>a \<in> set as. arg_ok a"
  shows "(\<forall>n s. (pd_step ^^ n) (pd_start (map show_arg as)) s \<longrightarrow> n \<le> (\<Sum>a \<leftarrow> as. 4 * length (snd a) + 1)) \<and>
    (\<forall>s. pd_step\<^sup>*\<^sup>* (pd_start (map show_arg as)) s \<longrightarrow> (\<nexists>t. pd_step s t) \<longrightarrow>
      length (procs s) = length as \<and> pd_children s = 1 \<and>
      (\<forall>k < length as. p_subreaper (procs s ! k) = fst (as ! k) \<and> (\<forall>x \<in> set (p_thr (procs s ! k)). snd x = TEnd) \<and>
        mset (p_slept (procs s ! k)) = mset (enumerate 0 (map (\<lambda>x. snd x mod 2 ^ 32) (snd (as ! k))))))"
proof -
  let ?args = "map show_arg as"
  have start: "pd_good ?args (pd_start ?args) \<and> (\<forall>a \<in> set ?args. good_arg a)" using assms pd_good_start arg_ok_good by auto
  have tok: "arg_tokens (show_arg a) = map show_token (snd a)" "at_sign (show_arg a) = fst a" if "a \<in> set as" for a
    using that assms arg_tokens_show [of a] by (auto simp: arg_ok_def)
  have "pd_effort ?args (pd_start ?args) = sum_list (map arg_cost ?args)"
    by (cases as) (simp_all add: pd_effort_def pd_start_def proc_cost_def createAncestor_def arg_cost_def)
  also have "\<dots> = (\<Sum>a \<leftarrow> as. 4 * length (snd a) + 1)"
    unfolding map_map by (intro arg_cong [of _ _ sum_list] map_cong) (simp_all add: arg_cost_def tok)
  finally have "n \<le> (\<Sum>a \<leftarrow> as. 4 * length (snd a) + 1)" if "(pd_step ^^ n) (pd_start ?args) s" for n s
    using pd.run_bounded [OF that start] by simp
  moreover have "length (procs s) = length as \<and> pd_children s = 1 \<and>
      (\<forall>k < length as. p_subreaper (procs s ! k) = fst (as ! k) \<and> (\<forall>x \<in> set (p_thr (procs s ! k)). snd x = TEnd) \<and>
        mset (p_slept (procs s ! k)) = mset (enumerate 0 (map (\<lambda>x. snd x mod 2 ^ 32) (snd (as ! k)))))"
    if run: "pd_step\<^sup>*\<^sup>* (pd_start ?args) s" "\<nexists>t. pd_step s t" for s
  proof -
    have fin: "pd_final ?args s" by (rule pd.stuck_final [OF run(1) start run(2)])
    have sl: "pd_inv ?args s \<and> (\<forall>p \<in> set (procs s). slept_ok p)" by (rule slept_run [OF run(1)])
    have "map (\<lambda>tok. to_u32 (token_time tok)) (arg_tokens (?args ! k)) = map (\<lambda>x. snd x mod 2 ^ 32) (snd (as ! k))" if "k < length as" for k
    proof -
      have "- (2 ^ 31) \<le> snd x \<and> snd x < 2 ^ 31" if "x \<in> set (snd (as ! k))" for x using that assms \<open>k < length as\<close> nth_mem unfolding arg_ok_def by blast
      then show ?thesis using that tok(1) [of "as ! k"] token_time_show by (simp add: to_u32_def)
    qed
    with final_slept [of ?args s] sl fin tok(2) have "p_subreaper (procs s ! k) = fst (as ! k) \<and>
        mset (p_slept (procs s ! k)) = mset (enumerate 0 (map (\<lambda>x. snd x mod 2 ^ 32) (snd (as ! k))))" if "k < length as" for k using that by auto
    moreover have "\<forall>x \<in> set (p_thr (procs s ! k)). snd x = TEnd" if "k < length as" for k
      using fin that nth_mem [of k "procs s"] unfolding pd_final_def by (metis length_map)
    ultimately show ?thesis using fin by (simp add: pd_final_def)
  qed
  ultimately show ?thesis by blast
qed

text \<open>An argument without a token, such as the empty string, a colon or a single at sign, takes its process to undefined behaviour: the initial thread uses a structure
  that nothing was stored in.\<close>
theorem pdeath_no_token:
  assumes "arg_tokens a = []"
  shows "\<exists>s. pd_step\<^sup>*\<^sup>* (pd_start (a # args)) s \<and> p_pc (procs s ! 0) = PUndef"
proof -
  let ?s = "pd_start (a # args)"
  have "pd_step ?s (?s\<lparr>procs := (procs ?s)[0 := createThreads (procs ?s ! 0)]\<rparr>)" by (rule pd_step.parse) (simp_all add: pd_start_def createAncestor_def)
  moreover have "p_pc (createThreads (procs ?s ! 0)) = PUndef" using assms by (simp add: pd_start_def createAncestor_def createThreads_def)
  ultimately show ?thesis by (intro exI [of _ "?s\<lparr>procs := (procs ?s)[0 := createThreads (procs ?s ! 0)]\<rparr>"]) (auto simp: pd_start_def)
qed

theorem pdeath_no_token_witness: "\<exists>s. pd_step\<^sup>*\<^sup>* (pd_start [''@'']) s \<and> p_pc (procs s ! 0) = PUndef"
  by (rule pdeath_no_token) code_simp

text \<open>The arguments \<^verbatim>\<open>5:+7\<close> and \<^verbatim>\<open>@3\<close>.\<close>

theorem pdeath_completes_witness:
  "\<exists>s. pd_step\<^sup>*\<^sup>* (pd_start [''5:+7'', ''@3'']) s \<and> length (procs s) = 2 \<and> pd_children s = 1 \<and>
    mset (p_slept (procs s ! 0)) = {#(0, 5), (1, 7)#} \<and> \<not> p_subreaper (procs s ! 0) \<and> mset (p_slept (procs s ! 1)) = {#(0, 3)#} \<and> p_subreaper (procs s ! 1)"
proof -
  let ?as = "[(False, [(False, 5), (True, 7)]), (True, [(False, 3)])] :: ancestor_arg list"
  have ok: "\<forall>a \<in> set ?as. arg_ok a" by (simp add: arg_ok_def)
  have args: "map show_arg ?as = [''5:+7'', ''@3'']" by code_simp
  obtain s where s: "pd_step\<^sup>*\<^sup>* (pd_start (map show_arg ?as)) s" "\<nexists>t. pd_step s t"
    using pd.reaches_stuck [of "map show_arg ?as" "pd_start (map show_arg ?as)"] ok arg_ok_good pd_good_start by fastforce
  have "length (procs s) = 2" "pd_children s = 1" and all: "\<And>k. k < 2 \<Longrightarrow> p_subreaper (procs s ! k) = fst (?as ! k) \<and>
      mset (p_slept (procs s ! k)) = mset (enumerate 0 (map (\<lambda>x. snd x mod 2 ^ 32) (snd (?as ! k))))"
    using conjunct2 [OF pdeath_completes [OF ok], rule_format, OF s] by (simp_all add: numeral_2_eq_2)
  with all [of 0] all [of 1] s(1) show ?thesis unfolding args by (intro exI [of _ s]) (simp add: add_mset_commute)
qed

theorem pdeath_chain_witness: "\<exists>s. pd_xstep\<^sup>*\<^sup>* (pd_start [''1'']) s \<and> p_pc (procs s ! 0) = PFailed \<and> length (procs s) \<le> 1 \<and> pd_children s \<le> 1"
proof -
  let ?s = "pd_start [''1'']"
  let ?t = "?s\<lparr>procs := (procs ?s)[0 := (procs ?s ! 0)\<lparr>p_pc := PFailed\<rparr>]\<rparr>"
  have run: "pd_xstep\<^sup>*\<^sup>* ?s ?t" by (rule r_into_rtranclp, rule pd_xstep.fails) (simp_all add: pd_start_def createAncestor_def alive_def)
  from pdeath_chain [OF run] run show ?thesis by (intro exI [of _ ?t]) (simp add: pd_start_def)
qed

end
